(* ===== verification/Prelude.thy ===== *)
theory Prelude
  imports Main "HOL-Library.Word"
begin

text \<open>
  Shared vocabulary of the development: goroutine identities, addresses and nilable pointers,
  the Go \<open>comma ok\<close> results, and the collections of rewrite rules that the components extend.

  A Go heap cell is addressed by a \<open>loc\<close>; a Go pointer is a \<open>ptr\<close>, with \<open>None\<close> for
  \<open>nil\<close>. Addresses are handed out by a counter and never reused: the garbage collector keeps a
  cell alive while any goroutine can still reach it, so an address held by somebody can not come
  to denote another object.
\<close>

unbundle bit_operations_syntax

type_synonym tid = nat
type_synonym loc = nat
type_synonym ptr = "loc option"
type_synonym u64 = "64 word"
type_synonym u32 = "32 word"

text \<open>A Go \<open>int\<close> has 64 bits. The models compute with \<open>int\<close> and wrap where the code can overflow.\<close>

definition wrap64 :: "int \<Rightarrow> int" where
  "wrap64 x = signed_take_bit 63 x"

lemma wrap64_id: "- (2 ^ 63) \<le> x \<Longrightarrow> x < 2 ^ 63 \<Longrightarrow> wrap64 x = x"
  by (simp add: wrap64_def signed_take_bit_int_eq_self)

lemma wrap64_above: "2 ^ 63 \<le> x \<Longrightarrow> x < 2 ^ 64 \<Longrightarrow> wrap64 x = x - 2 ^ 64"
  unfolding wrap64_def signed_take_bit_eq_take_bit_shift take_bit_eq_mod
  by (simp add: mod_pos_pos_trivial) (smt (verit) mod_pos_pos_trivial mod_add_self2 minus_mod_self2)

text \<open>
  What a method call returns. \<open>Ack\<close> is the empty result of a method without results. \<open>Got None\<close>
  is the pair \<open>(zero, false)\<close> of the \<open>comma ok\<close> idiom and \<open>Got (Some v)\<close> is \<open>(v, true)\<close>.
\<close>

datatype 'a resp = Ack | Got "'a option"

named_theorems machine_simps \<open>unfolding rules of the goroutine machines\<close>
named_theorems spec_simps \<open>unfolding rules of the sequential specifications\<close>

text \<open>Chains of cells linked by a \<open>next\<close> pointer, ending in \<open>nil\<close>.\<close>

fun linked :: "(loc \<Rightarrow> ptr) \<Rightarrow> ptr \<Rightarrow> loc list \<Rightarrow> bool" where
  "linked nx p [] = (p = None)"
| "linked nx p (l # ls) = (p = Some l \<and> linked nx (nx l) ls)"

lemma linked_cong:
  "(\<And>l. l \<in> set ls \<Longrightarrow> nx l = nx' l) \<Longrightarrow> linked nx p ls = linked nx' p ls"
  by (induction ls arbitrary: p) auto

lemma linked_None [simp]: "linked nx None ls \<longleftrightarrow> ls = []"
  by (cases ls) auto

lemma linked_Some: "linked nx (Some l) ls \<longleftrightarrow> (\<exists>ls'. ls = l # ls' \<and> linked nx (nx l) ls')"
  by (cases ls) auto

text \<open>Counting the goroutines in a given phase; only finitely many are ever busy.\<close>

lemma card_Collect_upd:
  assumes "finite {t. P (f t)}"
  shows "int (card {u. P ((f(t := x)) u)}) =
    int (card {u. P (f u)}) + of_bool (P x) - of_bool (P (f t))"
proof -
  let ?A = "{u. P (f u)}" and ?B = "{u. P ((f(t := x)) u)}"
  have B: "?B = (if P x then insert t (?A - {t}) else ?A - {t})"
    by auto
  have "int (card (?A - {t})) = int (card ?A) - of_bool (P (f t))"
  proof (cases "P (f t)")
    case True
    then have "t \<in> ?A" by simp
    with assms have "Suc (card (?A - {t})) = card ?A"
      by (rule card_Suc_Diff1)
    with True show ?thesis by simp
  qed simp
  moreover have "P (f t) \<Longrightarrow> insert t ?A = ?A" by auto
  ultimately show ?thesis using assms unfolding B
    by (cases "P (f t)") auto
qed

lemma finite_Collect_upd:
  "finite {u. P (f u)} \<Longrightarrow> finite {u. P ((f(t := x)) u)}"
  by (rule finite_subset [of _ "insert t {u. P (f u)}"]) auto

end
