(* ===== verification/Goroutines.thy ===== *)
theory Goroutines
  imports Prelude
begin

text \<open>
  The execution model of every concurrent component. A component is a \<open>machine\<close>: a shared
  memory, and for each method call a program counter that is advanced one shared access at a
  time. A goroutine is idle, busy inside a call, about to hand a result back to its caller, or
  dead because of a run-time panic (a dereference of \<open>nil\<close>). A schedule is an arbitrary list
  of actions, so a statement about all schedules is a statement about every interleaving of
  every number of goroutines. Go's \<open>sync/atomic\<close> operations are sequentially consistent, so
  interleaving their atomic steps loses no behaviour.
\<close>

datatype ('pc, 'r) thread = Idle | Busy 'pc | Return 'r | Panic

text \<open>\<open>Start t op\<close>: goroutine \<open>t\<close> calls \<open>op\<close>. \<open>Step t\<close>: it performs its next access.\<close>

datatype 'o action = Start tid 'o | Step tid

text \<open>
  \<open>sh0\<close> is the memory the constructor leaves. \<open>can\<close> is the calling discipline the package
  documents (who may call what). \<open>beg\<close> evaluates the local prologue of a call, allocating its
  cells. \<open>stp\<close> is one atomic step of a busy goroutine.
\<close>

record ('sh, 'pc, 'o, 'r) machine =
  sh0 :: 'sh
  can :: "'sh \<Rightarrow> tid \<Rightarrow> 'o \<Rightarrow> bool"
  beg :: "'sh \<Rightarrow> tid \<Rightarrow> 'o \<Rightarrow> 'sh \<times> 'pc"
  stp :: "'sh \<Rightarrow> tid \<Rightarrow> 'pc \<Rightarrow> 'sh \<times> ('pc, 'r) thread"

type_synonym ('sh, 'pc, 'r) sys = "'sh \<times> (tid \<Rightarrow> ('pc, 'r) thread)"

definition start_sys :: "('sh, 'pc, 'o, 'r) machine \<Rightarrow> ('sh, 'pc, 'r) sys" where
  "start_sys M = (sh0 M, \<lambda>_. Idle)"

fun sys_step :: "('sh, 'pc, 'o, 'r) machine \<Rightarrow> ('sh, 'pc, 'r) sys \<Rightarrow> 'o action \<Rightarrow>
    ('sh, 'pc, 'r) sys" where
  "sys_step M (sh, th) (Start t op) =
     (case th t of
        Idle \<Rightarrow> if can M sh t op
                then (case beg M sh t op of (sh', p) \<Rightarrow> (sh', th(t := Busy p)))
                else (sh, th)
      | _ \<Rightarrow> (sh, th))"
| "sys_step M (sh, th) (Step t) =
     (case th t of
        Busy p \<Rightarrow> (case stp M sh t p of (sh', x) \<Rightarrow> (sh', th(t := x)))
      | Return r \<Rightarrow> (sh, th(t := Idle))
      | _ \<Rightarrow> (sh, th))"

definition run_from :: "('sh, 'pc, 'o, 'r) machine \<Rightarrow> ('sh, 'pc, 'r) sys \<Rightarrow> 'o action list \<Rightarrow>
    ('sh, 'pc, 'r) sys" where
  "run_from M s acts = foldl (sys_step M) s acts"

definition run :: "('sh, 'pc, 'o, 'r) machine \<Rightarrow> 'o action list \<Rightarrow> ('sh, 'pc, 'r) sys" where
  "run M acts = run_from M (start_sys M) acts"

lemma run_Nil [simp]: "run M [] = start_sys M"
  by (simp add: run_def run_from_def)

lemma run_snoc [simp]: "run M (acts @ [a]) = sys_step M (run M acts) a"
  by (simp add: run_def run_from_def)

lemma run_append: "run M (acts @ acts') = run_from M (run M acts) acts'"
  by (simp add: run_def run_from_def)

lemma run_from_simps [simp]:
  "run_from M s [] = s"
  "run_from M s (a # acts) = run_from M (sys_step M s a) acts"
  by (simp_all add: run_from_def)

lemma run_from_append: "run_from M s (as @ bs) = run_from M (run_from M s as) bs"
  by (simp add: run_from_def)

text \<open>
  The proof principle for safety: an invariant of the whole system that holds at the start and
  is kept by the three kinds of move (a call begins, a busy goroutine takes a step, a result is
  handed over) holds after every schedule.
\<close>

lemma run_invariant:
  assumes init: "I (sh0 M) (\<lambda>_. Idle)"
    and beg: "\<And>sh th t op sh' p. I sh th \<Longrightarrow> th t = Idle \<Longrightarrow> can M sh t op \<Longrightarrow>
      beg M sh t op = (sh', p) \<Longrightarrow> I sh' (th(t := Busy p))"
    and stp: "\<And>sh th t p sh' x. I sh th \<Longrightarrow> th t = Busy p \<Longrightarrow> stp M sh t p = (sh', x) \<Longrightarrow>
      I sh' (th(t := x))"
    and ret: "\<And>sh th t r. I sh th \<Longrightarrow> th t = Return r \<Longrightarrow> I sh (th(t := Idle))"
  shows "I (fst (run M acts)) (snd (run M acts))"
proof (induction acts rule: rev_induct)
  case Nil
  show ?case using init by (simp add: start_sys_def)
next
  case (snoc a acts)
  obtain sh th where r: "run M acts = (sh, th)" by fastforce
  with snoc have I: "I sh th" by simp
  show ?case
  proof (cases a)
    case (Start t op)
    then show ?thesis using I beg [OF I]
      by (auto simp: r simp del: fun_upd_apply split: thread.splits prod.splits)
  next
    case (Step t)
    then show ?thesis using I stp [OF I] ret [OF I]
      by (auto simp: r simp del: fun_upd_apply split: thread.splits prod.splits)
  qed
qed

text \<open>Only finitely many goroutines ever leave the idle state.\<close>

lemma finite_active: "finite {t. snd (run M acts) t \<noteq> Idle}"
proof (induction acts rule: rev_induct)
  case Nil
  show ?case by (simp add: start_sys_def)
next
  case (snoc a acts)
  obtain sh th where r: "run M acts = (sh, th)" by fastforce
  obtain t where "a = Step t \<or> (\<exists>op. a = Start t op)" by (cases a) auto
  then have "{u. snd (sys_step M (sh, th) a) u \<noteq> Idle} \<subseteq> insert t {u. th u \<noteq> Idle}"
    by (auto split: thread.splits if_splits prod.splits)
  moreover have "finite {u. th u \<noteq> Idle}" using snoc by (simp add: r)
  ultimately show ?case by (simp add: r finite_subset)
qed

end
