(* ===== verification/Linearizability.thy ===== *)
theory Linearizability
  imports Goroutines
begin

text \<open>
  Linearizability (Herlihy and Wing), and how the components prove it.

  A sequential object is a function \<open>spec\<close> from an abstract state and an operation to the next
  state and the response. The canonical atomic object over \<open>spec\<close> lets every call take effect
  in one indivisible moment between its invocation and its response. A history of invocations
  and responses is linearizable when the canonical object can produce it, that is, when there
  are such moments (\<open>Lin\<close> events) that explain every response.
\<close>

datatype ('o, 'r) event = Inv tid 'o | Lin tid | Obs tid | Res tid 'r

fun is_visible :: "('o, 'r) event \<Rightarrow> bool" where
  "is_visible (Inv t op) = True"
| "is_visible (Res t r) = True"
| "is_visible (Lin t) = False"
| "is_visible (Obs t) = False"

fun is_obs :: "('o, 'r) event \<Rightarrow> bool" where
  "is_obs (Obs t) = True"
| "is_obs _ = False"

definition visible :: "('o, 'r) event list \<Rightarrow> ('o, 'r) event list" where
  "visible E = filter is_visible E"

lemma visible_simps [simp]:
  "visible [] = []"
  "visible (e # E) = (if is_visible e then e # visible E else visible E)"
  "visible (E @ F) = visible E @ visible F"
  by (simp_all add: visible_def)

text \<open>
  A goroutine of the canonical object: quiet, waiting for its operation to take effect, or
  holding the response. The set in \<open>Wait\<close> collects responses that the operation could have
  given, without changing the object, at some earlier moment of the call. An \<open>Obs\<close> event adds
  to it. This lets a reader commit to a past moment; \<open>linearizable\<close> itself does not use it.
\<close>

datatype ('o, 'r) status = Quiet | Wait 'o "'r set" | Done 'r

type_synonym ('a, 'o, 'r) config = "'a \<times> (tid \<Rightarrow> ('o, 'r) status)"

fun lin_step :: "('a \<Rightarrow> 'o \<Rightarrow> 'a \<times> 'r) \<Rightarrow> ('a, 'o, 'r) config \<Rightarrow> ('o, 'r) event \<Rightarrow>
    ('a, 'o, 'r) config option" where
  "lin_step spec (a, st) (Inv t op) =
     (if st t = Quiet then Some (a, st(t := Wait op {})) else None)"
| "lin_step spec (a, st) (Lin t) =
     (case st t of
        Wait op R \<Rightarrow> (case spec a op of (a', r) \<Rightarrow> Some (a', st(t := Done r)))
      | _ \<Rightarrow> None)"
| "lin_step spec (a, st) (Obs t) =
     (case st t of
        Wait op R \<Rightarrow> (case spec a op of (a', r) \<Rightarrow>
          if a' = a then Some (a, st(t := Wait op (insert r R))) else None)
      | _ \<Rightarrow> None)"
| "lin_step spec (a, st) (Res t r) =
     (case st t of
        Quiet \<Rightarrow> None
      | Wait op R \<Rightarrow> if r \<in> R then Some (a, st(t := Quiet)) else None
      | Done r' \<Rightarrow> if r' = r then Some (a, st(t := Quiet)) else None)"

fun lin_run :: "('a \<Rightarrow> 'o \<Rightarrow> 'a \<times> 'r) \<Rightarrow> ('a, 'o, 'r) config \<Rightarrow> ('o, 'r) event list \<Rightarrow>
    ('a, 'o, 'r) config option" where
  "lin_run spec c [] = Some c"
| "lin_run spec c (e # E) = (case lin_step spec c e of None \<Rightarrow> None | Some c' \<Rightarrow> lin_run spec c' E)"

lemma lin_run_append:
  "lin_run spec c (E @ F) = (case lin_run spec c E of None \<Rightarrow> None | Some c' \<Rightarrow> lin_run spec c' F)"
  by (induction E arbitrary: c) (auto split: option.splits)

definition linearizable :: "('a \<Rightarrow> 'o \<Rightarrow> 'a \<times> 'r) \<Rightarrow> 'a \<Rightarrow> ('o, 'r) event list \<Rightarrow> bool" where
  "linearizable spec a0 h \<longleftrightarrow>
     (\<exists>E c. visible E = h \<and> \<not> list_ex is_obs E \<and> lin_run spec (a0, \<lambda>_. Quiet) E = Some c)"

text \<open>
  Observations can be removed. \<open>pick\<close> chooses, for some waiting goroutines, one of their
  observed responses; the run without observations gives each of them exactly that response.
\<close>

definition settle :: "(tid \<Rightarrow> 'r option) \<Rightarrow> (tid \<Rightarrow> ('o, 'r) status) \<Rightarrow> tid \<Rightarrow> ('o, 'r) status" where
  "settle pick st t =
     (case st t of Wait op R \<Rightarrow> (case pick t of None \<Rightarrow> Wait op {} | Some r \<Rightarrow> Done r) | s \<Rightarrow> s)"

definition pickable :: "(tid \<Rightarrow> 'r option) \<Rightarrow> (tid \<Rightarrow> ('o, 'r) status) \<Rightarrow> bool" where
  "pickable pick st \<longleftrightarrow> (\<forall>t r. pick t = Some r \<longrightarrow> (\<exists>op R. st t = Wait op R \<and> r \<in> R))"

definition obs_free :: "('a \<Rightarrow> 'o \<Rightarrow> 'a \<times> 'r) \<Rightarrow> 'a \<Rightarrow> ('o, 'r) event list \<Rightarrow>
    ('a, 'o, 'r) config \<Rightarrow> bool" where
  "obs_free spec a0 h c \<longleftrightarrow>
     (\<exists>E. visible E = h \<and> \<not> list_ex is_obs E \<and> lin_run spec (a0, \<lambda>_. Quiet) E = Some c)"

lemma obs_free_snoc:
  assumes "obs_free spec a0 h c" and "lin_step spec c e = Some c'" and "\<not> is_obs e"
  shows "obs_free spec a0 (h @ visible [e]) c'"
proof -
  from assms(1) obtain E where E: "visible E = h" "\<not> list_ex is_obs E"
    "lin_run spec (a0, \<lambda>_. Quiet) E = Some c"
    by (auto simp: obs_free_def)
  have "lin_run spec (a0, \<lambda>_. Quiet) (E @ [e]) = Some c'"
    using E(3) assms(2) by (simp add: lin_run_append)
  moreover have "visible (E @ [e]) = h @ visible [e]" "\<not> list_ex is_obs (E @ [e])"
    using E(1,2) assms(3) by auto
  ultimately show ?thesis unfolding obs_free_def by blast
qed

lemma settle_upd:
  "settle pick (st(t := Quiet)) = (settle pick st)(t := Quiet)"
  "settle pick (st(t := Done r)) = (settle pick st)(t := Done r)"
  "pick t = None \<Longrightarrow> settle pick (st(t := Wait op R)) = (settle pick st)(t := Wait op {})"
  "pick t = Some r \<Longrightarrow> settle pick (st(t := Wait op R)) = (settle pick st)(t := Done r)"
  by (auto simp: settle_def fun_eq_iff)

lemma settle_other: "u \<noteq> t \<Longrightarrow> settle (pick(t := x)) st u = settle pick st u"
  by (cases "st u") (simp_all add: settle_def)

lemma settle_st_other: "u \<noteq> t \<Longrightarrow> settle pick (st(t := x)) u = settle pick st u"
  by (simp add: settle_def)

lemma pickable_fun_upd:
  "pickable pick (st(t := s)) \<Longrightarrow> pickable (pick(t := None)) st"
  unfolding pickable_def by (metis fun_upd_apply option.distinct(1))

lemma pickable_None:
  "pickable pick st \<Longrightarrow> (\<And>op R. R \<noteq> {} \<Longrightarrow> st t \<noteq> Wait op R) \<Longrightarrow> pick t = None"
  unfolding pickable_def by (metis empty_iff not_None_eq)

lemma obs_elim_step:
  assumes IH: "\<And>pick. pickable pick st \<Longrightarrow> obs_free spec a0 h (a, settle pick st)"
    and stp: "lin_step spec (a, st) e = Some (a', st')"
    and pick: "pickable pick st'"
  shows "obs_free spec a0 (h @ visible [e]) (a', settle pick st')"
proof (cases e)
  case (Inv t op)
  with stp have q: "st t = Quiet" "a' = a" "st' = st(t := Wait op {})"
    by (auto split: if_splits)
  have n: "pick t = None" using pick by (rule pickable_None) (simp add: q(3))
  have "pickable pick st"
    using pickable_fun_upd [OF pick [unfolded q(3)]] n by (simp add: fun_upd_idem)
  from obs_free_snoc [OF IH [OF this], of "Inv t op" "(a, (settle pick st)(t := Wait op {}))"]
  have "obs_free spec a0 (h @ [Inv t op]) (a, (settle pick st)(t := Wait op {}))"
    using q(1) by (simp add: settle_def)
  then show ?thesis by (simp add: Inv q(2,3) settle_upd n)
next
  case (Lin t)
  with stp obtain op R r where q: "st t = Wait op R" "spec a op = (a', r)" "st' = st(t := Done r)"
    by (auto split: status.splits prod.splits)
  have n: "pick t = None" using pick by (rule pickable_None) (simp add: q(3))
  have "pickable pick st"
    using pickable_fun_upd [OF pick [unfolded q(3)]] n by (simp add: fun_upd_idem)
  from obs_free_snoc [OF IH [OF this], of "Lin t" "(a', (settle pick st)(t := Done r))"]
  have "obs_free spec a0 h (a', (settle pick st)(t := Done r))"
    using q(1,2) n by (simp add: settle_def)
  then show ?thesis by (simp add: Lin q(3) settle_upd)
next
  case (Obs t)
  obtain op R where w: "st t = Wait op R"
    using stp by (cases "st t") (simp_all add: Obs)
  obtain b r where sp: "spec a op = (b, r)" by fastforce
  have q: "st t = Wait op R" "spec a op = (a, r)" "a' = a" "st' = st(t := Wait op (insert r R))"
    using stp by (simp_all add: Obs w sp split: if_splits)
  show ?thesis
  proof (cases "pick t = Some r")
    case False
    have "pickable pick st"
      using pick False by (fastforce simp: pickable_def q(1,4) split: if_splits)
    moreover have "settle pick st' = settle pick st"
      by (auto simp: settle_def q(1,4) fun_eq_iff)
    ultimately show ?thesis using IH by (simp add: Obs q(3))
  next
    case True
    let ?p = "pick(t := None)"
    have "pickable ?p st" using pickable_fun_upd [OF pick [unfolded q(4)]] .
    from obs_free_snoc [OF IH [OF this], of "Lin t" "(a, (settle ?p st)(t := Done r))"]
    have "obs_free spec a0 h (a, (settle ?p st)(t := Done r))"
      using q(1,2) by (simp add: settle_def)
    moreover have "(settle ?p st)(t := Done r) = settle pick st'"
    proof
      fix u show "((settle ?p st)(t := Done r)) u = settle pick st' u"
        using True by (cases "u = t") (simp_all add: settle_other settle_st_other q(4),
          simp add: settle_def)
    qed
    ultimately show ?thesis by (simp add: Obs q(3))
  qed
next
  case (Res t r)
  with stp have q: "a' = a" "st' = st(t := Quiet)"
    by (auto split: status.splits if_splits)
  have n: "pick t = None" using pick by (rule pickable_None) (simp add: q(2))
  have p: "pickable pick st"
    using pickable_fun_upd [OF pick [unfolded q(2)]] n by (simp add: fun_upd_idem)
  consider (d) "st t = Done r" | (w) op R where "st t = Wait op R" "r \<in> R"
    using stp by (auto simp: Res split: status.splits if_splits)
  then show ?thesis
  proof cases
    case d
    from obs_free_snoc [OF IH [OF p], of "Res t r" "(a, (settle pick st)(t := Quiet))"]
    have "obs_free spec a0 (h @ [Res t r]) (a, (settle pick st)(t := Quiet))"
      using d by (simp add: settle_def)
    then show ?thesis by (simp add: Res q settle_upd)
  next
    case w
    let ?p = "pick(t := Some r)"
    have "pickable ?p st" using p w by (auto simp: pickable_def)
    from obs_free_snoc [OF IH [OF this], of "Res t r" "(a, (settle ?p st)(t := Quiet))"]
    have "obs_free spec a0 (h @ [Res t r]) (a, (settle ?p st)(t := Quiet))"
      using w(1) by (simp add: settle_def)
    moreover have "(settle ?p st)(t := Quiet) = settle pick st'"
    proof
      fix u show "((settle ?p st)(t := Quiet)) u = settle pick st' u"
        by (cases "u = t") (simp_all add: settle_other settle_st_other q(2),
          simp add: settle_def)
    qed
    ultimately show ?thesis by (simp add: Res q(1))
  qed
qed

lemma obs_elim:
  assumes "lin_run spec (a0, \<lambda>_. Quiet) E = Some (a, st)" and "pickable pick st"
  shows "obs_free spec a0 (visible E) (a, settle pick st)"
  using assms
proof (induction E arbitrary: a st pick rule: rev_induct)
  case Nil
  then have "a = a0" "st = (\<lambda>_. Quiet)" by auto
  then have "settle pick st = (\<lambda>_. Quiet)" by (simp add: settle_def fun_eq_iff)
  with \<open>a = a0\<close> show ?case unfolding obs_free_def by (intro exI [of _ "[]"]) simp
next
  case (snoc e E)
  from snoc.prems(1) obtain b s where "lin_run spec (a0, \<lambda>_. Quiet) E = Some (b, s)"
    and "lin_step spec (b, s) e = Some (a, st)"
    by (auto simp: lin_run_append split: option.splits)
  then show ?case
    using obs_elim_step [of s spec a0 "visible E" b e a st pick] snoc.IH snoc.prems(2)
    by auto
qed

lemma lin_run_linearizable:
  assumes "lin_run spec (a0, \<lambda>_. Quiet) E = Some c"
  shows "linearizable spec a0 (visible E)"
proof -
  obtain a st where c: "c = (a, st)" by fastforce
  have "pickable (\<lambda>_. None) st" by (simp add: pickable_def)
  from obs_elim [OF assms [unfolded c] this] show ?thesis
    by (auto simp: linearizable_def obs_free_def)
qed

end
