(* ===== verification/Simulation.thy ===== *)
theory Simulation
  imports Linearizability
begin

text \<open>
  How a goroutine machine is shown to be linearizable. The visible history of a schedule lists
  the invocations and the responses that the callers see. A machine is linearizable when a
  simulation relates its states to states of the canonical object. The locale \<open>sim_machine\<close>
  states this obligation for one step of one goroutine and derives linearizability and the
  absence of run-time panics for every schedule. The locale \<open>lin_machine\<close> splits the relation
  into an invariant with ghost state and one assertion per goroutine, and \<open>rg_machine\<close> states
  that in rely-guarantee form, for machines in which a goroutine only linearizes its own call.
\<close>

subsection \<open>Histories\<close>

fun sys_events :: "('sh, 'pc, 'o, 'r) machine \<Rightarrow> ('sh, 'pc, 'r) sys \<Rightarrow> 'o action \<Rightarrow>
    ('o, 'r) event list" where
  "sys_events M (sh, th) (Start t op) =
     (case th t of Idle \<Rightarrow> if can M sh t op then [Inv t op] else [] | _ \<Rightarrow> [])"
| "sys_events M (sh, th) (Step t) = (case th t of Return r \<Rightarrow> [Res t r] | _ \<Rightarrow> [])"

fun events_from :: "('sh, 'pc, 'o, 'r) machine \<Rightarrow> ('sh, 'pc, 'r) sys \<Rightarrow> 'o action list \<Rightarrow>
    ('o, 'r) event list" where
  "events_from M s [] = []"
| "events_from M s (a # acts) = sys_events M s a @ events_from M (sys_step M s a) acts"

definition history :: "('sh, 'pc, 'o, 'r) machine \<Rightarrow> 'o action list \<Rightarrow> ('o, 'r) event list" where
  "history M acts = events_from M (start_sys M) acts"

lemma events_from_append:
  "events_from M s (as @ bs) = events_from M s as @ events_from M (run_from M s as) bs"
  by (induction as arbitrary: s) auto

lemma history_Nil [simp]: "history M [] = []"
  by (simp add: history_def)

lemma history_snoc [simp]: "history M (acts @ [a]) = history M acts @ sys_events M (run M acts) a"
  by (simp add: history_def events_from_append run_def)

subsection \<open>Simulation\<close>

text \<open>
  The relation between a goroutine of the machine and one of the canonical object. A goroutine
  that panicked is related to nothing, so a simulation rules panics out.
\<close>

fun thread_ok :: "('pc \<Rightarrow> ('o, 'r) status \<Rightarrow> bool) \<Rightarrow> ('pc, 'r) thread \<Rightarrow> ('o, 'r) status \<Rightarrow> bool"
where
  "thread_ok P Idle s = (s = Quiet)"
| "thread_ok P (Busy p) s = P p s"
| "thread_ok P (Return r) s = (s = Done r \<or> (\<exists>op R. s = Wait op R \<and> r \<in> R))"
| "thread_ok P Panic s = False"

definition all_ok :: "(tid \<Rightarrow> 'pc \<Rightarrow> ('o, 'r) status \<Rightarrow> bool) \<Rightarrow> (tid \<Rightarrow> ('pc, 'r) thread) \<Rightarrow>
    (tid \<Rightarrow> ('o, 'r) status) \<Rightarrow> bool" where
  "all_ok P th st \<longleftrightarrow> (\<forall>u. thread_ok (P u) (th u) (st u))"

lemma all_okD: "all_ok P th st \<Longrightarrow> thread_ok (P u) (th u) (st u)"
  by (simp add: all_ok_def)

lemma all_ok_upd:
  assumes "all_ok P th st" and "thread_ok (P' t) x s"
    and "\<And>u p q. u \<noteq> t \<Longrightarrow> th u = Busy p \<Longrightarrow> P u p (st u) \<Longrightarrow> P' u p (st u)"
  shows "all_ok P' (th(t := x)) (st(t := s))"
  unfolding all_ok_def
proof
  fix u
  show "thread_ok (P' u) ((th(t := x)) u) ((st(t := s)) u)"
    using assms all_okD [OF assms(1), of u] by (cases "u = t"; cases "th u") auto
qed

text \<open>
  The general obligation: a relation between the states of the machine and of the canonical
  object, kept by every move. A step of one goroutine may let several calls take effect, its own
  or those of others.
\<close>

locale sim_machine =
  fixes M :: "('sh, 'pc, 'o, 'r) machine"
    and spec :: "'a \<Rightarrow> 'o \<Rightarrow> 'a \<times> 'r"
    and a0 :: 'a
    and rel :: "'sh \<Rightarrow> (tid \<Rightarrow> ('pc, 'r) thread) \<Rightarrow> 'a \<Rightarrow> (tid \<Rightarrow> ('o, 'r) status) \<Rightarrow> bool"
  assumes rel_init: "rel (sh0 M) (\<lambda>_. Idle) a0 (\<lambda>_. Quiet)"
    and rel_quiet: "rel sh th a st \<Longrightarrow> th t = Idle \<Longrightarrow> st t = Quiet"
    and rel_beg: "rel sh th a st \<Longrightarrow> th t = Idle \<Longrightarrow> can M sh t op \<Longrightarrow> beg M sh t op = (sh', p) \<Longrightarrow>
      rel sh' (th(t := Busy p)) a (st(t := Wait op {}))"
    and rel_stp: "rel sh th a st \<Longrightarrow> th t = Busy p \<Longrightarrow> stp M sh t p = (sh', x) \<Longrightarrow>
      \<exists>E a' st'. visible E = [] \<and> lin_run spec (a, st) E = Some (a', st') \<and>
        rel sh' (th(t := x)) a' st'"
    and rel_ret: "rel sh th a st \<Longrightarrow> th t = Return r \<Longrightarrow>
      (st t = Done r \<or> (\<exists>op R. st t = Wait op R \<and> r \<in> R)) \<and> rel sh (th(t := Idle)) a (st(t := Quiet))"
    and rel_panic: "rel sh th a st \<Longrightarrow> th t \<noteq> Panic"
begin

lemma rel_action:
  assumes "rel sh th a st"
  shows "\<exists>E a' st'. visible E = sys_events M (sh, th) act \<and> lin_run spec (a, st) E = Some (a', st') \<and>
    rel (fst (sys_step M (sh, th) act)) (snd (sys_step M (sh, th) act)) a' st'"
proof (cases act)
  case (Start t op)
  show ?thesis
  proof (cases "th t = Idle \<and> can M sh t op")
    case True
    obtain sh' p where b: "beg M sh t op = (sh', p)" by fastforce
    then show ?thesis using True rel_beg [OF assms _ _ b] rel_quiet [OF assms, of t]
      by (intro exI [of _ "[Inv t op]"] exI [of _ a] exI [of _ "st(t := Wait op {})"])
        (simp add: Start b)
  next
    case False
    then have "sys_step M (sh, th) act = (sh, th)" "sys_events M (sh, th) act = []"
      by (auto simp: Start split: thread.splits)
    then show ?thesis using assms
      by (intro exI [of _ "[]"] exI [of _ a] exI [of _ st]) simp
  qed
next
  case (Step t)
  show ?thesis
  proof (cases "th t")
    case (Busy p)
    obtain sh' x where b: "stp M sh t p = (sh', x)" by fastforce
    from rel_stp [OF assms Busy b] show ?thesis
      by (simp add: Step Busy b del: fun_upd_apply)
  next
    case (Return r)
    from rel_ret [OF assms Return] show ?thesis
      by (intro exI [of _ "[Res t r]"] exI [of _ a] exI [of _ "st(t := Quiet)"])
        (auto simp: Step Return)
  qed (use assms in \<open>(intro exI [of _ "[]"] exI [of _ a] exI [of _ st], simp add: Step)+\<close>)
qed

lemma rel_run:
  "\<exists>E a st. visible E = history M acts \<and> lin_run spec (a0, \<lambda>_. Quiet) E = Some (a, st) \<and>
     rel (fst (run M acts)) (snd (run M acts)) a st"
proof (induction acts rule: rev_induct)
  case Nil
  show ?case using rel_init
    by (intro exI [of _ "[]"] exI [of _ a0] exI [of _ "\<lambda>_. Quiet"]) (simp add: start_sys_def)
next
  case (snoc act acts)
  obtain sh th where r: "run M acts = (sh, th)" by fastforce
  with snoc obtain E a st where E: "visible E = history M acts"
    "lin_run spec (a0, \<lambda>_. Quiet) E = Some (a, st)" "rel sh th a st"
    by auto
  from rel_action [OF E(3), of act] obtain F a' st' where
    F: "visible F = sys_events M (sh, th) act" "lin_run spec (a, st) F = Some (a', st')"
    "rel (fst (sys_step M (sh, th) act)) (snd (sys_step M (sh, th) act)) a' st'" by blast
  with E show ?case
    by (intro exI [of _ "E @ F"] exI [of _ a'] exI [of _ st']) (simp add: r lin_run_append)
qed

lemma linearizable: "linearizable spec a0 (history M acts)"
  using rel_run [of acts] lin_run_linearizable by metis

lemma reachable_rel: "\<exists>a st. rel (fst (run M acts)) (snd (run M acts)) a st"
  using rel_run [of acts] by blast

lemma no_panic: "snd (run M acts) t \<noteq> Panic"
  using reachable_rel [of acts] rel_panic by blast

end

text \<open>The obligation with the relation split into a ghost state, an invariant and local assertions.\<close>

locale lin_machine =
  fixes M :: "('sh, 'pc, 'o, 'r) machine"
    and spec :: "'a \<Rightarrow> 'o \<Rightarrow> 'a \<times> 'r"
    and g0 :: 'g
    and inv :: "'sh \<Rightarrow> 'g \<Rightarrow> bool"
    and abs :: "'sh \<Rightarrow> 'g \<Rightarrow> 'a"
    and ok :: "'sh \<Rightarrow> 'g \<Rightarrow> tid \<Rightarrow> 'pc \<Rightarrow> ('o, 'r) status \<Rightarrow> bool"
  assumes inv_init: "inv (sh0 M) g0"
    and sim_beg: "inv sh g \<Longrightarrow> all_ok (ok sh g) th st \<Longrightarrow> th t = Idle \<Longrightarrow> can M sh t op \<Longrightarrow>
      beg M sh t op = (sh', p) \<Longrightarrow>
      \<exists>g'. inv sh' g' \<and> abs sh' g' = abs sh g \<and>
        all_ok (ok sh' g') (th(t := Busy p)) (st(t := Wait op {}))"
    and sim_stp: "inv sh g \<Longrightarrow> all_ok (ok sh g) th st \<Longrightarrow> th t = Busy p \<Longrightarrow>
      stp M sh t p = (sh', x) \<Longrightarrow>
      \<exists>g' E st'. visible E = [] \<and> lin_run spec (abs sh g, st) E = Some (abs sh' g', st') \<and>
        inv sh' g' \<and> all_ok (ok sh' g') (th(t := x)) st'"

definition split_rel :: "('sh \<Rightarrow> 'g \<Rightarrow> bool) \<Rightarrow> ('sh \<Rightarrow> 'g \<Rightarrow> 'a) \<Rightarrow>
    ('sh \<Rightarrow> 'g \<Rightarrow> tid \<Rightarrow> 'pc \<Rightarrow> ('o, 'r) status \<Rightarrow> bool) \<Rightarrow>
    'sh \<Rightarrow> (tid \<Rightarrow> ('pc, 'r) thread) \<Rightarrow> 'a \<Rightarrow> (tid \<Rightarrow> ('o, 'r) status) \<Rightarrow> bool" where
  "split_rel I A P sh th a st \<longleftrightarrow> (\<exists>g. I sh g \<and> A sh g = a \<and> all_ok (P sh g) th st)"

sublocale lin_machine \<subseteq> sim_machine M spec "abs (sh0 M) g0" "split_rel inv abs ok"
proof
  have "all_ok (ok (sh0 M) g0) (\<lambda>_. Idle) (\<lambda>_. Quiet)" by (simp add: all_ok_def)
  then show "split_rel inv abs ok (sh0 M) (\<lambda>_. Idle) (abs (sh0 M) g0) (\<lambda>_. Quiet)"
    using inv_init unfolding split_rel_def by blast
next
  fix sh th a st and t :: tid
  assume "split_rel inv abs ok sh th a st"
  then show "th t = Idle \<Longrightarrow> st t = Quiet" and "th t \<noteq> Panic"
    unfolding split_rel_def by (auto dest: all_okD [where u = t])
next
  fix sh th a st t op sh' p
  assume "split_rel inv abs ok sh th a st" "th t = Idle" "can M sh t op" "beg M sh t op = (sh', p)"
  then show "split_rel inv abs ok sh' (th(t := Busy p)) a (st(t := Wait op {}))"
    unfolding split_rel_def using sim_beg by blast
next
  fix sh th a st t p sh' x
  assume "split_rel inv abs ok sh th a st" "th t = Busy p" "stp M sh t p = (sh', x)"
  then show "\<exists>E a' st'. visible E = [] \<and> lin_run spec (a, st) E = Some (a', st') \<and>
      split_rel inv abs ok sh' (th(t := x)) a' st'"
    unfolding split_rel_def using sim_stp by blast
next
  fix sh th a st t r
  assume "split_rel inv abs ok sh th a st" and r: "th t = Return r"
  then obtain g where g: "inv sh g" "abs sh g = a" "all_ok (ok sh g) th st"
    unfolding split_rel_def by blast
  have "all_ok (ok sh g) (th(t := Idle)) (st(t := Quiet))"
    using g(3) by (rule all_ok_upd) auto
  moreover have "thread_ok (ok sh g t) (Return r) (st t)"
    using all_okD [OF g(3), of t] r by simp
  ultimately show "(st t = Done r \<or> (\<exists>op R. st t = Wait op R \<and> r \<in> R)) \<and>
      split_rel inv abs ok sh (th(t := Idle)) a (st(t := Quiet))"
    using g(1,2) unfolding split_rel_def by auto
qed

context lin_machine
begin

lemma reachable_inv: "\<exists>g st. inv (fst (run M acts)) g \<and>
    all_ok (ok (fst (run M acts)) g) (snd (run M acts)) st"
  using reachable_rel [of acts] unfolding split_rel_def by blast

end

subsection \<open>Rely-guarantee simulation\<close>

text \<open>
  What one step of a goroutine may do to its own canonical counterpart: nothing, take effect,
  or record a response that the present moment justifies.
\<close>

inductive own_move :: "('a \<Rightarrow> 'o \<Rightarrow> 'a \<times> 'r) \<Rightarrow> 'a \<Rightarrow> ('o, 'r) status \<Rightarrow> 'a \<Rightarrow> ('o, 'r) status \<Rightarrow> bool"
  for spec where
  stay: "own_move spec a s a s"
| effect: "spec a op = (a', r) \<Longrightarrow> own_move spec a (Wait op R) a' (Done r)"
| remember: "spec a op = (a, r) \<Longrightarrow> own_move spec a (Wait op R) a (Wait op (insert r R))"

lemma own_move_run:
  assumes "own_move spec a (st t) a' s'"
  shows "\<exists>E. visible E = [] \<and> lin_run spec (a, st) E = Some (a', st(t := s'))"
  using assms
proof (cases rule: own_move.cases)
  case stay
  then show ?thesis by (intro exI [of _ "[]"]) simp
next
  case (effect op r R)
  then show ?thesis by (intro exI [of _ "[Lin t]"]) simp
next
  case (remember op r R)
  then show ?thesis by (intro exI [of _ "[Obs t]"]) simp
qed

locale rg_machine =
  fixes M :: "('sh, 'pc, 'o, 'r) machine"
    and spec :: "'a \<Rightarrow> 'o \<Rightarrow> 'a \<times> 'r"
    and g0 :: 'g
    and inv :: "'sh \<Rightarrow> 'g \<Rightarrow> bool"
    and abs :: "'sh \<Rightarrow> 'g \<Rightarrow> 'a"
    and ok :: "'sh \<Rightarrow> 'g \<Rightarrow> tid \<Rightarrow> 'pc \<Rightarrow> ('o, 'r) status \<Rightarrow> bool"
    and rely :: "tid \<Rightarrow> 'sh \<Rightarrow> 'g \<Rightarrow> 'sh \<Rightarrow> 'g \<Rightarrow> bool"
  assumes rg_init: "inv (sh0 M) g0"
    and rg_beg: "inv sh g \<Longrightarrow> can M sh t op \<Longrightarrow> beg M sh t op = (sh', p) \<Longrightarrow>
      \<exists>g'. inv sh' g' \<and> abs sh' g' = abs sh g \<and> ok sh' g' t p (Wait op {}) \<and> rely t sh g sh' g'"
    and rg_stp: "inv sh g \<Longrightarrow> ok sh g t p s \<Longrightarrow> stp M sh t p = (sh', x) \<Longrightarrow>
      \<exists>g' s'. own_move spec (abs sh g) s (abs sh' g') s' \<and> inv sh' g' \<and>
        thread_ok (ok sh' g' t) x s' \<and> rely t sh g sh' g'"
    and rg_stable: "inv sh g \<Longrightarrow> inv sh' g' \<Longrightarrow> rely t sh g sh' g' \<Longrightarrow> u \<noteq> t \<Longrightarrow>
      ok sh g u p s \<Longrightarrow> ok sh' g' u p s"

sublocale rg_machine \<subseteq> lin_machine
proof
  show "inv (sh0 M) g0" by (rule rg_init)
next
  fix sh g th st t op sh' p
  assume a: "inv sh g" "all_ok (ok sh g) th st" "can M sh t op" "beg M sh t op = (sh', p)"
  from rg_beg [OF a(1,3,4)] obtain g' where g': "inv sh' g'" "abs sh' g' = abs sh g"
    "ok sh' g' t p (Wait op {})" "rely t sh g sh' g'" by blast
  have "all_ok (ok sh' g') (th(t := Busy p)) (st(t := Wait op {}))"
    using a(2) g'(3) rg_stable [OF a(1) g'(1,4)] by (intro all_ok_upd [of "ok sh g"]) auto
  with g' show "\<exists>g'. inv sh' g' \<and> abs sh' g' = abs sh g \<and>
      all_ok (ok sh' g') (th(t := Busy p)) (st(t := Wait op {}))" by blast
next
  fix sh g th st t p sh' x
  assume a: "inv sh g" "all_ok (ok sh g) th st" "th t = Busy p" "stp M sh t p = (sh', x)"
  have "ok sh g t p (st t)" using all_okD [OF a(2), of t] a(3) by simp
  from rg_stp [OF a(1) this a(4)] obtain g' s' where
    g': "own_move spec (abs sh g) (st t) (abs sh' g') s'" "inv sh' g'"
    "thread_ok (ok sh' g' t) x s'" "rely t sh g sh' g'" by blast
  obtain E where "visible E = []" "lin_run spec (abs sh g, st) E = Some (abs sh' g', st(t := s'))"
    using own_move_run [where st = st and t = t, OF g'(1)] by blast
  moreover have "all_ok (ok sh' g') (th(t := x)) (st(t := s'))"
    using a(2) g'(3) rg_stable [OF a(1) g'(2,4)] by (intro all_ok_upd [of "ok sh g"]) auto
  ultimately show "\<exists>g' E st'. visible E = [] \<and>
      lin_run spec (abs sh g, st) E = Some (abs sh' g', st') \<and>
      inv sh' g' \<and> all_ok (ok sh' g') (th(t := x)) st'" using g'(2) by blast
qed

context rg_machine
begin

lemma is_sim_machine: "sim_machine M spec (abs (sh0 M) g0) (split_rel inv abs ok)"
  by unfold_locales

end

subsection \<open>Observing for several goroutines\<close>

definition observed :: "'r \<Rightarrow> ('o, 'r) status \<Rightarrow> ('o, 'r) status" where
  "observed r s = (case s of Wait op R \<Rightarrow> Wait op (insert r R) | _ \<Rightarrow> s)"

lemma observed_Wait [simp]: "observed r (Wait op R) = Wait op (insert r R)"
  by (simp add: observed_def)

lemma observe_all:
  assumes "finite A" and "\<And>u. u \<in> A \<Longrightarrow> \<exists>op R. st u = Wait op R \<and> spec a op = (a, r)"
  shows "\<exists>E. visible E = [] \<and>
    lin_run spec (a, st) E = Some (a, \<lambda>u. if u \<in> A then observed r (st u) else st u)"
  using assms
proof (induction A)
  case empty
  show ?case by (intro exI [of _ "[]"]) simp
next
  case (insert x A)
  then obtain E where E: "visible E = []"
    "lin_run spec (a, st) E = Some (a, \<lambda>u. if u \<in> A then observed r (st u) else st u)"
    by auto
  obtain op R where x: "st x = Wait op R" "spec a op = (a, r)" using insert.prems by blast
  have "(\<lambda>u. if u \<in> A then observed r (st u) else st u)(x := Wait op (Set.insert r R)) =
      (\<lambda>u. if u \<in> Set.insert x A then observed r (st u) else st u)"
    using insert.hyps(2) x(1) by auto
  with E x insert.hyps(2) show ?case
    by (intro exI [of _ "E @ [Obs x]"]) (simp add: lin_run_append del: fun_upd_apply)
qed

subsection \<open>Forgetting parts of the responses\<close>

text \<open>
  \<open>forget f M\<close> is \<open>M\<close> with \<open>f\<close> applied to every response. It is used where only a part of the
  response is linearizable.
\<close>

fun relabel :: "('r \<Rightarrow> 'q) \<Rightarrow> ('pc, 'r) thread \<Rightarrow> ('pc, 'q) thread" where
  "relabel f Idle = Idle"
| "relabel f (Busy p) = Busy p"
| "relabel f (Return r) = Return (f r)"
| "relabel f Panic = Panic"

fun relabel_event :: "('r \<Rightarrow> 'q) \<Rightarrow> ('o, 'r) event \<Rightarrow> ('o, 'q) event" where
  "relabel_event f (Inv t op) = Inv t op"
| "relabel_event f (Lin t) = Lin t"
| "relabel_event f (Obs t) = Obs t"
| "relabel_event f (Res t r) = Res t (f r)"

definition forget :: "('r \<Rightarrow> 'q) \<Rightarrow> ('sh, 'pc, 'o, 'r) machine \<Rightarrow> ('sh, 'pc, 'o, 'q) machine" where
  "forget f M = \<lparr>sh0 = sh0 M, can = can M, beg = beg M,
     stp = (\<lambda>sh t p. case stp M sh t p of (sh', x) \<Rightarrow> (sh', relabel f x))\<rparr>"

lemma relabel_upd: "(\<lambda>u. relabel f ((th(t := x)) u)) = (\<lambda>u. relabel f (th u))(t := relabel f x)"
  by auto

lemma forget_step:
  "sys_step (forget f M) (sh, \<lambda>t. relabel f (th t)) a =
     (case sys_step M (sh, th) a of (sh', th') \<Rightarrow> (sh', \<lambda>t. relabel f (th' t)))"
proof (cases a)
  case (Start t op)
  then show ?thesis
    by (cases "th t") (auto simp: forget_def relabel_upd simp del: fun_upd_apply split: prod.splits)
next
  case (Step t)
  then show ?thesis
    by (cases "th t") (auto simp: forget_def relabel_upd simp del: fun_upd_apply split: prod.splits)
qed

lemma forget_events:
  "sys_events (forget f M) (sh, \<lambda>t. relabel f (th t)) a = map (relabel_event f) (sys_events M (sh, th) a)"
proof (cases a)
  case (Start t op)
  then show ?thesis by (cases "th t") (auto simp: forget_def)
next
  case (Step t)
  then show ?thesis by (cases "th t") (auto simp: forget_def)
qed

lemma forget_run:
  "run (forget f M) acts = (fst (run M acts), \<lambda>t. relabel f (snd (run M acts) t))"
proof (induction acts rule: rev_induct)
  case Nil
  show ?case by (simp add: start_sys_def forget_def)
next
  case (snoc a acts)
  obtain sh th where "run M acts = (sh, th)" by fastforce
  with snoc show ?case by (simp add: forget_step split: prod.splits)
qed

lemma forget_history: "history (forget f M) acts = map (relabel_event f) (history M acts)"
proof (induction acts rule: rev_induct)
  case (snoc a acts)
  obtain sh th where "run M acts = (sh, th)" by fastforce
  with snoc show ?case by (simp add: forget_run forget_events)
qed simp

end
