(* ===== verification/Progress.thy ===== *)
theory Progress
  imports Goroutines
begin

text \<open>
  Progress guarantees. \<open>quiet s s'\<close> says that the step from \<open>s\<close> to \<open>s'\<close> is not one of the steps
  that the component counts as progress of the whole system (typically a successful CAS). When a
  rank bounds the remaining own steps of a busy goroutine, and only non-quiet steps can raise it,
  a goroutine that takes that many steps either finishes its call or witnesses progress by
  somebody: lock-freedom. With \<open>quiet\<close> always true it is wait-freedom: the call finishes within
  the bound under every schedule of the others.
\<close>

definition reachable :: "('sh, 'pc, 'o, 'r) machine \<Rightarrow> ('sh, 'pc, 'r) sys \<Rightarrow> bool" where
  "reachable M s \<longleftrightarrow> (\<exists>acts. s = run M acts)"

lemma reachable_run [simp]: "reachable M (run M acts)"
  by (auto simp: reachable_def)

lemma reachable_step: "reachable M s \<Longrightarrow> reachable M (sys_step M s a)"
  unfolding reachable_def by (metis run_snoc)

fun is_busy :: "('pc, 'r) thread \<Rightarrow> bool" where
  "is_busy (Busy p) = True"
| "is_busy _ = False"

fun own_steps :: "tid \<Rightarrow> 'o action list \<Rightarrow> nat" where
  "own_steps t [] = 0"
| "own_steps t (Step u # acts) = (if u = t then 1 else 0) + own_steps t acts"
| "own_steps t (Start u op # acts) = own_steps t acts"

fun quiet_run :: "('sh, 'pc, 'o, 'r) machine \<Rightarrow> (('sh, 'pc, 'r) sys \<Rightarrow> ('sh, 'pc, 'r) sys \<Rightarrow> bool) \<Rightarrow>
    ('sh, 'pc, 'r) sys \<Rightarrow> 'o action list \<Rightarrow> bool" where
  "quiet_run M quiet s [] = True"
| "quiet_run M quiet s (a # acts) =
     (quiet s (sys_step M s a) \<and> quiet_run M quiet (sys_step M s a) acts)"

lemma quiet_run_True [simp]: "quiet_run M (\<lambda>_ _. True) s acts"
  by (induction acts arbitrary: s) auto

text \<open>\<open>finishes M t s acts\<close>: at some point of the schedule \<open>acts\<close> the goroutine is not busy.\<close>

fun finishes :: "('sh, 'pc, 'o, 'r) machine \<Rightarrow> tid \<Rightarrow> ('sh, 'pc, 'r) sys \<Rightarrow> 'o action list \<Rightarrow> bool"
where
  "finishes M t s [] = (\<not> is_busy (snd s t))"
| "finishes M t s (a # acts) = (\<not> is_busy (snd s t) \<or> finishes M t (sys_step M s a) acts)"

lemma is_busyE: "is_busy x \<Longrightarrow> (\<And>p. x = Busy p \<Longrightarrow> P) \<Longrightarrow> P"
  by (cases x) auto

lemma not_own_step: "a \<noteq> Step t \<Longrightarrow> own_steps t (a # acts) = own_steps t acts"
  by (cases a) auto

lemma other_keeps_busy:
  "snd s t = Busy p \<Longrightarrow> a \<noteq> Step t \<Longrightarrow> snd (sys_step M s a) t = Busy p"
  by (cases s; cases a) (auto split: thread.splits prod.splits)

locale progress =
  fixes M :: "('sh, 'pc, 'o, 'r) machine"
    and rank :: "('sh, 'pc, 'r) sys \<Rightarrow> tid \<Rightarrow> 'pc \<Rightarrow> nat"
    and quiet :: "('sh, 'pc, 'r) sys \<Rightarrow> ('sh, 'pc, 'r) sys \<Rightarrow> bool"
    and bound :: nat
  assumes rank_pos: "reachable M s \<Longrightarrow> snd s t = Busy p \<Longrightarrow> 0 < rank s t p"
    and rank_bound: "reachable M s \<Longrightarrow> snd s t = Busy p \<Longrightarrow> rank s t p \<le> bound"
    and rank_own: "reachable M s \<Longrightarrow> snd s t = Busy p \<Longrightarrow> quiet s (sys_step M s (Step t)) \<Longrightarrow>
      snd (sys_step M s (Step t)) t = Busy p' \<Longrightarrow>
      rank (sys_step M s (Step t)) t p' < rank s t p"
    and rank_other: "reachable M s \<Longrightarrow> snd s t = Busy p \<Longrightarrow> a \<noteq> Step t \<Longrightarrow>
      quiet s (sys_step M s a) \<Longrightarrow> rank (sys_step M s a) t p \<le> rank s t p"
begin

lemma rank_finishes:
  "reachable M s \<Longrightarrow> quiet_run M quiet s acts \<Longrightarrow>
   (\<And>p. snd s t = Busy p \<Longrightarrow> rank s t p \<le> own_steps t acts) \<Longrightarrow> finishes M t s acts"
proof (induction acts arbitrary: s)
  case Nil
  then show ?case using rank_pos [of s t] by (fastforce elim: is_busyE)
next
  case (Cons a acts)
  let ?s' = "sys_step M s a"
  show ?case
  proof (cases "is_busy (snd s t)")
    case True
    then obtain p where p: "snd s t = Busy p" by (rule is_busyE)
    have r: "rank s t p \<le> own_steps t (a # acts)" by (rule Cons.prems(3) [OF p])
    have q: "quiet s ?s'" "quiet_run M quiet ?s' acts" using Cons.prems(2) by simp_all
    have "finishes M t ?s' acts"
    proof (rule Cons.IH [OF reachable_step [OF Cons.prems(1)] q(2)])
      fix p' assume p': "snd ?s' t = Busy p'"
      show "rank ?s' t p' \<le> own_steps t acts"
      proof (cases "a = Step t")
        case True
        with rank_own [OF Cons.prems(1) p] q(1) p' r show ?thesis by fastforce
      next
        case False
        with p' p have "p' = p" using other_keeps_busy [of s t p a M] by simp
        with rank_other [OF Cons.prems(1) p False q(1)] r False show ?thesis
          by (simp add: not_own_step)
      qed
    qed
    then show ?thesis by simp
  qed simp
qed

theorem finishes_within:
  assumes "reachable M s" and "quiet_run M quiet s acts" and "bound \<le> own_steps t acts"
  shows "finishes M t s acts"
  using assms(1,2) order_trans [OF rank_bound [OF assms(1)] assms(3)] by (rule rank_finishes)

end

end
