(* ===== verification/Universal.thy ===== *)
theory Universal
  imports Simulation Progress
begin

text \<open>
  Herlihy's wait-free universal construction, which \<open>wf/stack.go\<close>, \<open>wf/deque.go\<close> and
  \<open>wf/map.go\<close> each contain in the same form, around a different sequential object. The model is
  written once, with the object's \<open>switch\<close> in \<open>publish\<close> as the argument \<open>app\<close>; the three files
  instantiate it (\<open>Wf_Objects\<close>). Every shared access of \<open>Handle\<close>, \<open>apply\<close>, \<open>maxFrontier\<close>,
  \<open>publish\<close> and \<open>advanceAnchor\<close> is a step of its own.

  Proved: for every sequential object that refines a specification, every schedule is
  linearizable and free of run-time panics. A call takes effect at the compare-and-swap on
  \<open>before.next\<close> that links its node, which may be a step of any participant.
\<close>

subsection \<open>Model\<close>

text \<open>
  \<open>opNode\<close> is \<open>stackNode\<close>, \<open>dequeNode\<close>, \<open>mapNode\<close>: the operation with its arguments, and the
  three atomic fields. A \<open>stackResult\<close> (\<open>dequeResult\<close>, \<open>mapResult\<close>) is a version of the object
  and a response; it is immutable and only ever compared with \<open>nil\<close>, so it is kept by value. The
  sequence numbers are Go \<open>int64\<close>s that count operations from 1; they are not modelled beyond
  \<open>2^63\<close> operations.
\<close>

record ('o, 's, 'r) opNode =
  op_of :: 'o
  succ_of :: ptr
  res_of :: "('s \<times> 'r) option"
  seq_of :: nat

text \<open>
  \<open>handle_of\<close> is not a field of the Go structs: it is the handle that each goroutine keeps, the
  \<open>tid\<close> of its \<open>StackHandle\<close>.
\<close>

record ('o, 's, 'r) universal =
  nodes :: "loc \<Rightarrow> ('o, 's, 'r) opNode"
  ubrk :: loc
  anchor :: loc
  heads :: "ptr list"
  announce :: "ptr list"
  cursor :: nat
  maxn :: nat
  handle_of :: "tid \<Rightarrow> nat option"

text \<open>
  \<open>NewStack\<close>, \<open>NewDeque\<close>, \<open>NewMap\<close>: \<open>s0\<close> is the empty object and \<open>r0\<close> the zero response of the
  sentinel, which sits at address 0 and whose operation is never read. \<open>None\<close> is the panic on
  \<open>maxHandles < 1\<close>.
\<close>

definition NewUniversal :: "'s \<Rightarrow> 'r \<Rightarrow> nat \<Rightarrow> ('o, 's, 'r) universal option" where
  "NewUniversal s0 r0 maxHandles =
     (if maxHandles < 1 then None
      else Some \<lparr>nodes = (\<lambda>_. \<lparr>op_of = undefined, succ_of = None, res_of = Some (s0, r0), seq_of = 1\<rparr>),
        ubrk = 1, anchor = 0,
        heads = replicate maxHandles None, announce = replicate maxHandles None,
        cursor = 0, maxn = maxHandles, handle_of = (\<lambda>_. None)\<rparr>)"

text \<open>The calls: \<open>Handle()\<close>, and an operation through the goroutine's handle.\<close>

datatype 'o uc_op = Register | Apply 'o
datatype 'r uc_resp = Registered nat | TooMany | Reply 'r

text \<open>
  Program counters. \<open>Reg\<close> is inside \<open>Handle\<close>; \<open>App i m\<close> is inside \<open>apply\<close> with \<open>tid = i\<close> and
  \<open>mine = m\<close>. The names of the arguments follow the local variables of the code.
\<close>

datatype reg_pc =
    HCursor               \<comment> \<open>\<open>id := s.cursor.Add(1) - 1\<close> and its test\<close>
  | HAnchor nat           \<comment> \<open>\<open>frontier := s.anchor.Load()\<close>\<close>
  | HHead nat loc         \<comment> \<open>\<open>s.head[id].Store(frontier)\<close>\<close>
  | HAnnounce nat loc     \<comment> \<open>\<open>s.announce[id].Store(frontier)\<close>\<close>

datatype ('s, 'r) app_pc =
    AAnnounce                        \<comment> \<open>\<open>s.announce[tid].Store(mine)\<close>\<close>
  | FAnchor                          \<comment> \<open>\<open>best := s.anchor.Load()\<close>\<close>
  | FSeq loc                         \<comment> \<open>\<open>bestSeq := best.seq.Load()\<close>\<close>
  | FHead loc nat nat                \<comment> \<open>\<open>nd := s.head[i].Load()\<close>\<close>
  | FNode loc nat nat loc            \<comment> \<open>\<open>sq := nd.seq.Load(); sq > bestSeq\<close>\<close>
  | AHead loc                        \<comment> \<open>\<open>s.head[tid].Store(best)\<close>\<close>
  | LTest                            \<comment> \<open>\<open>mine.seq.Load() == 0\<close>\<close>
  | LBefore                          \<comment> \<open>\<open>before := s.head[tid].Load()\<close>\<close>
  | LIdx loc                         \<comment> \<open>\<open>helpIdx := (before.seq.Load() + 1) % n\<close>\<close>
  | LCand loc nat                    \<comment> \<open>\<open>cand := s.announce[helpIdx].Load()\<close>\<close>
  | LCandSeq loc loc                 \<comment> \<open>\<open>cand.seq.Load() == 0\<close>\<close>
  | LCas loc loc                     \<comment> \<open>\<open>before.next.CompareAndSwap(nil, prefer)\<close>\<close>
  | LAfter loc                       \<comment> \<open>\<open>after := before.next.Load()\<close>\<close>
  | LAfterSeq loc loc                \<comment> \<open>\<open>after.seq.Load() == 0\<close>\<close>
  | PRes loc loc                     \<comment> \<open>\<open>br := before.res.Load()\<close> and the switch\<close>
  | PResCas loc loc "'s \<times> 'r"        \<comment> \<open>\<open>after.res.CompareAndSwap(nil, nr)\<close>\<close>
  | PSeq loc loc                     \<comment> \<open>\<open>before.seq.Load() + 1\<close>\<close>
  | PSeqCas loc nat                  \<comment> \<open>\<open>after.seq.CompareAndSwap(0, _)\<close>\<close>
  | LHead loc                        \<comment> \<open>\<open>s.head[tid].Store(after)\<close>\<close>
  | RRes                             \<comment> \<open>\<open>r := mine.res.Load()\<close>\<close>
  | RHead 'r                         \<comment> \<open>\<open>s.head[tid].Store(mine)\<close>\<close>
  | VAnchor 'r                       \<comment> \<open>\<open>cur := s.anchor.Load()\<close>\<close>
  | VSeq 'r loc                      \<comment> \<open>\<open>n.seq.Load()\<close>\<close>
  | VCurSeq 'r loc nat               \<comment> \<open>\<open>n.seq.Load() <= cur.seq.Load()\<close>\<close>
  | VCas 'r loc                      \<comment> \<open>\<open>s.anchor.CompareAndSwap(cur, n)\<close>\<close>

datatype ('s, 'r) uc_pc = Reg reg_pc | App nat loc "('s, 'r) app_pc"

text \<open>A call starts; \<open>apply\<close> allocates its node. A goroutine applies operations on its own handle.\<close>

fun uc_can :: "('o, 's, 'r) universal \<Rightarrow> tid \<Rightarrow> 'o uc_op \<Rightarrow> bool" where
  "uc_can s t Register = True"
| "uc_can s t (Apply op) = (handle_of s t \<noteq> None)"

fun uc_beg :: "('o, 's, 'r) universal \<Rightarrow> tid \<Rightarrow> 'o uc_op \<Rightarrow>
    ('o, 's, 'r) universal \<times> ('s, 'r) uc_pc" where
  "uc_beg s t Register = (s, Reg HCursor)"
| "uc_beg s t (Apply op) =
     (s\<lparr>nodes := (nodes s)(ubrk s := \<lparr>op_of = op, succ_of = None, res_of = None, seq_of = 0\<rparr>),
        ubrk := Suc (ubrk s)\<rparr>,
      App (the (handle_of s t)) (ubrk s) AAnnounce)"

text \<open>\<open>Handle\<close>.\<close>

fun reg_step :: "('o, 's, 'r) universal \<Rightarrow> tid \<Rightarrow> reg_pc \<Rightarrow>
    ('o, 's, 'r) universal \<times> (('s, 'r) uc_pc, 'r uc_resp) thread" where
  "reg_step s t HCursor =
     (let k = cursor s; s' = s\<lparr>cursor := cursor s + 1\<rparr>
      in if k \<ge> maxn s then (s', Return TooMany) else (s', Busy (Reg (HAnchor k))))"
| "reg_step s t (HAnchor k) = (s, Busy (Reg (HHead k (anchor s))))"
| "reg_step s t (HHead k frontier) =
     (if k < length (heads s)
      then (s\<lparr>heads := (heads s)[k := Some frontier]\<rparr>, Busy (Reg (HAnnounce k frontier)))
      else (s, Panic))"
| "reg_step s t (HAnnounce k frontier) =
     (if k < length (announce s)
      then (s\<lparr>announce := (announce s)[k := Some frontier], handle_of := (handle_of s)(t := Some k)\<rparr>,
            Return (Registered k))
      else (s, Panic))"

text \<open>\<open>maxFrontier\<close>, with the store of its result in \<open>apply\<close>; \<open>j\<close> is the loop counter.\<close>

definition scan_next :: "('o, 's, 'r) universal \<Rightarrow> loc \<Rightarrow> nat \<Rightarrow> nat \<Rightarrow> ('s, 'r) app_pc" where
  "scan_next s best bestSeq j = (if j < maxn s then FHead best bestSeq j else AHead best)"

fun scan_step :: "('o, 's, 'r) universal \<Rightarrow> nat \<Rightarrow> loc \<Rightarrow> ('s, 'r) app_pc \<Rightarrow>
    ('o, 's, 'r) universal \<times> (('s, 'r) uc_pc, 'r uc_resp) thread" where
  "scan_step s i m FAnchor = (s, Busy (App i m (FSeq (anchor s))))"
| "scan_step s i m (FSeq best) = (s, Busy (App i m (scan_next s best (seq_of (nodes s best)) 0)))"
| "scan_step s i m (FHead best bestSeq j) =
     (if j < length (heads s) then
        (case heads s ! j of
           None \<Rightarrow> (s, Busy (App i m (scan_next s best bestSeq (j + 1))))
         | Some nd \<Rightarrow> (s, Busy (App i m (FNode best bestSeq j nd))))
      else (s, Panic))"
| "scan_step s i m (FNode best bestSeq j nd) =
     (let sq = seq_of (nodes s nd)
      in if sq > bestSeq then (s, Busy (App i m (scan_next s nd sq (j + 1))))
         else (s, Busy (App i m (scan_next s best bestSeq (j + 1)))))"
| "scan_step s i m (AHead best) =
     (if i < length (heads s)
      then (s\<lparr>heads := (heads s)[i := Some best]\<rparr>, Busy (App i m LTest))
      else (s, Panic))"
| "scan_step s i m _ = (s, Panic)"

text \<open>The helping loop of \<open>apply\<close> up to the agreement on the successor.\<close>

fun loop_step :: "('o, 's, 'r) universal \<Rightarrow> nat \<Rightarrow> loc \<Rightarrow> ('s, 'r) app_pc \<Rightarrow>
    ('o, 's, 'r) universal \<times> (('s, 'r) uc_pc, 'r uc_resp) thread" where
  "loop_step s i m AAnnounce =
     (if i < length (announce s)
      then (s\<lparr>announce := (announce s)[i := Some m]\<rparr>, Busy (App i m FAnchor))
      else (s, Panic))"
| "loop_step s i m LTest =
     (if seq_of (nodes s m) = 0 then (s, Busy (App i m LBefore)) else (s, Busy (App i m RRes)))"
| "loop_step s i m LBefore =
     (if i < length (heads s) then
        (case heads s ! i of None \<Rightarrow> (s, Panic) | Some before \<Rightarrow> (s, Busy (App i m (LIdx before))))
      else (s, Panic))"
| "loop_step s i m (LIdx before) =
     (s, Busy (App i m (LCand before ((seq_of (nodes s before) + 1) mod maxn s))))"
| "loop_step s i m (LCand before helpIdx) =
     (if helpIdx < length (announce s) then
        (case announce s ! helpIdx of
           None \<Rightarrow> (s, Busy (App i m (LCas before m)))
         | Some cand \<Rightarrow> (s, Busy (App i m (LCandSeq before cand))))
      else (s, Panic))"
| "loop_step s i m (LCandSeq before cand) =
     (s, Busy (App i m (LCas before (if seq_of (nodes s cand) = 0 then cand else m))))"
| "loop_step s i m (LCas before prefer) =
     (if succ_of (nodes s before) = None
      then (s\<lparr>nodes := (nodes s)(before := (nodes s before)\<lparr>succ_of := Some prefer\<rparr>)\<rparr>,
            Busy (App i m (LAfter before)))
      else (s, Busy (App i m (LAfter before))))"
| "loop_step s i m (LAfter before) =
     (case succ_of (nodes s before) of
        None \<Rightarrow> (s, Panic) | Some after \<Rightarrow> (s, Busy (App i m (LAfterSeq before after))))"
| "loop_step s i m (LAfterSeq before after) =
     (if seq_of (nodes s after) = 0 then (s, Busy (App i m (PRes before after)))
      else (s, Busy (App i m (LHead after))))"
| "loop_step s i m (LHead after) =
     (if i < length (heads s)
      then (s\<lparr>heads := (heads s)[i := Some after]\<rparr>, Busy (App i m LTest))
      else (s, Panic))"
| "loop_step s i m _ = (s, Panic)"

text \<open>\<open>publish\<close>.\<close>

fun publish_step :: "('s \<Rightarrow> 'o \<Rightarrow> ('s \<times> 'r) option) \<Rightarrow> ('o, 's, 'r) universal \<Rightarrow> nat \<Rightarrow> loc \<Rightarrow>
    ('s, 'r) app_pc \<Rightarrow> ('o, 's, 'r) universal \<times> (('s, 'r) uc_pc, 'r uc_resp) thread" where
  "publish_step app s i m (PRes before after) =
     (case res_of (nodes s before) of
        None \<Rightarrow> (s, Panic)
      | Some br \<Rightarrow> (case app (fst br) (op_of (nodes s after)) of
                     None \<Rightarrow> (s, Panic)
                   | Some nr \<Rightarrow> (s, Busy (App i m (PResCas before after nr)))))"
| "publish_step app s i m (PResCas before after nr) =
     (if res_of (nodes s after) = None
      then (s\<lparr>nodes := (nodes s)(after := (nodes s after)\<lparr>res_of := Some nr\<rparr>)\<rparr>,
            Busy (App i m (PSeq before after)))
      else (s, Busy (App i m (PSeq before after))))"
| "publish_step app s i m (PSeq before after) =
     (s, Busy (App i m (PSeqCas after (seq_of (nodes s before) + 1))))"
| "publish_step app s i m (PSeqCas after q) =
     (if seq_of (nodes s after) = 0
      then (s\<lparr>nodes := (nodes s)(after := (nodes s after)\<lparr>seq_of := q\<rparr>)\<rparr>, Busy (App i m (LHead after)))
      else (s, Busy (App i m (LHead after))))"
| "publish_step app s i m _ = (s, Panic)"

text \<open>The end of \<open>apply\<close>, with \<open>advanceAnchor\<close>.\<close>

fun finish_step :: "('o, 's, 'r) universal \<Rightarrow> nat \<Rightarrow> loc \<Rightarrow> ('s, 'r) app_pc \<Rightarrow>
    ('o, 's, 'r) universal \<times> (('s, 'r) uc_pc, 'r uc_resp) thread" where
  "finish_step s i m RRes =
     (case res_of (nodes s m) of
        None \<Rightarrow> (s, Panic) | Some r \<Rightarrow> (s, Busy (App i m (RHead (snd r)))))"
| "finish_step s i m (RHead r) =
     (if i < length (heads s)
      then (s\<lparr>heads := (heads s)[i := Some m]\<rparr>, Busy (App i m (VAnchor r)))
      else (s, Panic))"
| "finish_step s i m (VAnchor r) = (s, Busy (App i m (VSeq r (anchor s))))"
| "finish_step s i m (VSeq r cur) = (s, Busy (App i m (VCurSeq r cur (seq_of (nodes s m)))))"
| "finish_step s i m (VCurSeq r cur q) =
     (if q \<le> seq_of (nodes s cur) then (s, Return (Reply r)) else (s, Busy (App i m (VCas r cur))))"
| "finish_step s i m (VCas r cur) =
     (if anchor s = cur then (s\<lparr>anchor := m\<rparr>, Return (Reply r)) else (s, Busy (App i m (VAnchor r))))"
| "finish_step s i m _ = (s, Panic)"

fun app_step :: "('s \<Rightarrow> 'o \<Rightarrow> ('s \<times> 'r) option) \<Rightarrow> ('o, 's, 'r) universal \<Rightarrow> nat \<Rightarrow> loc \<Rightarrow>
    ('s, 'r) app_pc \<Rightarrow> ('o, 's, 'r) universal \<times> (('s, 'r) uc_pc, 'r uc_resp) thread" where
  "app_step app s i m FAnchor = scan_step s i m FAnchor"
| "app_step app s i m (FSeq best) = scan_step s i m (FSeq best)"
| "app_step app s i m (FHead best bs j) = scan_step s i m (FHead best bs j)"
| "app_step app s i m (FNode best bs j nd) = scan_step s i m (FNode best bs j nd)"
| "app_step app s i m (AHead best) = scan_step s i m (AHead best)"
| "app_step app s i m (PRes b a) = publish_step app s i m (PRes b a)"
| "app_step app s i m (PResCas b a nr) = publish_step app s i m (PResCas b a nr)"
| "app_step app s i m (PSeq b a) = publish_step app s i m (PSeq b a)"
| "app_step app s i m (PSeqCas a q) = publish_step app s i m (PSeqCas a q)"
| "app_step app s i m RRes = finish_step s i m RRes"
| "app_step app s i m (RHead r) = finish_step s i m (RHead r)"
| "app_step app s i m (VAnchor r) = finish_step s i m (VAnchor r)"
| "app_step app s i m (VSeq r cur) = finish_step s i m (VSeq r cur)"
| "app_step app s i m (VCurSeq r cur q) = finish_step s i m (VCurSeq r cur q)"
| "app_step app s i m (VCas r cur) = finish_step s i m (VCas r cur)"
| "app_step app s i m p = loop_step s i m p"

fun uc_step :: "('s \<Rightarrow> 'o \<Rightarrow> ('s \<times> 'r) option) \<Rightarrow> ('o, 's, 'r) universal \<Rightarrow> tid \<Rightarrow>
    ('s, 'r) uc_pc \<Rightarrow> ('o, 's, 'r) universal \<times> (('s, 'r) uc_pc, 'r uc_resp) thread" where
  "uc_step app s t (Reg p) = reg_step s t p"
| "uc_step app s t (App i m p) = app_step app s i m p"

definition uc_machine :: "('s \<Rightarrow> 'o \<Rightarrow> ('s \<times> 'r) option) \<Rightarrow> ('o, 's, 'r) universal \<Rightarrow>
    (('o, 's, 'r) universal, ('s, 'r) uc_pc, 'o uc_op, 'r uc_resp) machine" where
  "uc_machine app s0 = \<lparr>sh0 = s0, can = uc_can, beg = uc_beg, stp = uc_step app\<rparr>"

lemma uc_machine_simps [simp]:
  "sh0 (uc_machine app s0) = s0" "can (uc_machine app s0) = uc_can"
  "beg (uc_machine app s0) = uc_beg" "stp (uc_machine app s0) = uc_step app"
  by (simp_all add: uc_machine_def)

subsection \<open>Specification\<close>

text \<open>
  The sequential object behind the construction: \<open>spec\<close> for the operations, and a register of
  handles that hands out \<open>0\<close>, \<open>1\<close>, \dots up to \<open>maxHandles\<close> and refuses afterwards.
\<close>

fun uc_spec :: "nat \<Rightarrow> ('a \<Rightarrow> 'o \<Rightarrow> 'a \<times> 'r) \<Rightarrow> 'a \<times> nat \<Rightarrow> 'o uc_op \<Rightarrow> ('a \<times> nat) \<times> 'r uc_resp" where
  "uc_spec n spec (a, k) Register = ((a, k + 1), if k < n then Registered k else TooMany)"
| "uc_spec n spec (a, k) (Apply op) = (case spec a op of (a', r) \<Rightarrow> ((a', k), Reply r))"

end
