(* ===== verification/Universal_Safety.thy ===== *)
theory Universal_Safety
  imports Universal
begin

text \<open>
  Safety of the universal construction: the invariant of the operation list, one simulation
  lemma per kind of step, and linearizability for every sequential object that satisfies the
  contract \<open>seq_object\<close>.
\<close>

subsection \<open>The operation list\<close>

text \<open>
  The ghost \<open>chain\<close> lists the linked nodes in order, each with the version of the object and the
  response that belong to it. Only the last node can still be unpublished.
\<close>

definition on_chain :: "(loc \<times> 'x) list \<Rightarrow> loc \<Rightarrow> bool" where
  "on_chain c l \<longleftrightarrow> l \<in> fst ` set c"

definition tail :: "(loc \<times> 'x) list \<Rightarrow> loc" where
  "tail c = fst (last c)"

definition node_ok :: "(loc \<Rightarrow> ('o, 's, 'r) opNode) \<Rightarrow> (loc \<times> 's \<times> 'r) list \<Rightarrow> nat \<Rightarrow> bool" where
  "node_ok nd c k \<longleftrightarrow> (let n = nd (fst (c ! k)) in
     succ_of n = (if Suc k < length c then Some (fst (c ! Suc k)) else None) \<and>
     (seq_of n = Suc k \<or> Suc k = length c \<and> seq_of n = 0) \<and>
     (res_of n = Some (snd (c ! k)) \<or> res_of n = None \<and> seq_of n = 0))"

definition chain_inv :: "('s \<Rightarrow> 'o \<Rightarrow> ('s \<times> 'r) option) \<Rightarrow> ('s \<Rightarrow> bool) \<Rightarrow>
    (loc \<Rightarrow> ('o, 's, 'r) opNode) \<Rightarrow> (loc \<times> 's \<times> 'r) list \<Rightarrow> bool" where
  "chain_inv app good nd c \<longleftrightarrow> c \<noteq> [] \<and> distinct (map fst c) \<and> (\<forall>k < length c. node_ok nd c k) \<and>
     (\<forall>e \<in> set c. good (fst (snd e))) \<and>
     (\<forall>k. Suc k < length c \<longrightarrow>
        app (fst (snd (c ! k))) (op_of (nd (fst (c ! Suc k)))) = Some (snd (c ! Suc k)))"

lemma on_chain_nth: "on_chain c l \<Longrightarrow> \<exists>k < length c. l = fst (c ! k)"
  unfolding on_chain_def by (metis image_iff in_set_conv_nth)

lemma on_chain_simps [simp]:
  "on_chain (c @ [e]) l \<longleftrightarrow> on_chain c l \<or> l = fst e"
  "k < length c \<Longrightarrow> on_chain c (fst (c ! k))"
  by (auto simp: on_chain_def)

lemma tail_simps [simp]: "tail (c @ [e]) = fst e"
  by (simp add: tail_def)

lemma chain_invD:
  assumes "chain_inv app good nd c"
  shows "c \<noteq> []" and "distinct (map fst c)" and "k < length c \<Longrightarrow> node_ok nd c k"
    and "e \<in> set c \<Longrightarrow> good (fst (snd e))"
    and "Suc k < length c \<Longrightarrow>
      app (fst (snd (c ! k))) (op_of (nd (fst (c ! Suc k)))) = Some (snd (c ! Suc k))"
  using assms by (auto simp: chain_inv_def)

lemma chain_index_eq:
  assumes "chain_inv app good nd c" and "j < length c" and "k < length c" and "fst (c ! j) = fst (c ! k)"
  shows "j = k"
  using assms nth_eq_iff_index_eq [of "map fst c" j k] by (simp add: chain_inv_def)

lemma tail_on_chain: "chain_inv app good nd c \<Longrightarrow> on_chain c (tail c)"
  by (simp add: chain_inv_def tail_def on_chain_def)

lemma tail_nth: "chain_inv app good nd c \<Longrightarrow> tail c = fst (c ! (length c - 1))"
  by (simp add: chain_inv_def tail_def last_conv_nth)

lemma chain_next_None:
  assumes "chain_inv app good nd c" and "on_chain c l"
  shows "succ_of (nd l) = None \<longleftrightarrow> l = tail c"
proof -
  from on_chain_nth [OF assms(2)] obtain k where k: "k < length c" "l = fst (c ! k)" by blast
  have "l = tail c \<longleftrightarrow> k = length c - 1"
    using chain_index_eq [OF assms(1) k(1), of "length c - 1"] k(1) chain_invD(1) [OF assms(1)]
    by (auto simp: k(2) tail_nth [OF assms(1)])
  with chain_invD(3) [OF assms(1) k(1)] k show ?thesis
    by (auto simp: node_ok_def Let_def)
qed

lemma chain_next_Some:
  assumes "chain_inv app good nd c" and "on_chain c l" and "succ_of (nd l) = Some a"
  shows "\<exists>k. Suc k < length c \<and> l = fst (c ! k) \<and> a = fst (c ! Suc k)"
proof -
  from on_chain_nth [OF assms(2)] obtain k where k: "k < length c" "l = fst (c ! k)" by blast
  with chain_invD(3) [OF assms(1) k(1)] assms(3) show ?thesis
    by (intro exI [of _ k]) (auto simp: node_ok_def Let_def split: if_splits)
qed

lemma chain_unpublished:
  assumes "chain_inv app good nd c" and "on_chain c l" and "seq_of (nd l) = 0"
  shows "l = tail c"
proof -
  from on_chain_nth [OF assms(2)] obtain k where k: "k < length c" "l = fst (c ! k)" by blast
  with chain_invD(3) [OF assms(1) k(1)] assms(3) have "Suc k = length c"
    by (auto simp: node_ok_def Let_def)
  then have "k = length c - 1" by simp
  with k(2) show ?thesis by (simp add: tail_nth [OF assms(1)])
qed

lemma chain_published:
  assumes "chain_inv app good nd c" and "on_chain c l" and "seq_of (nd l) \<noteq> 0"
  shows "\<exists>nr. res_of (nd l) = Some nr \<and> (l, nr) \<in> set c"
proof -
  from on_chain_nth [OF assms(2)] obtain k where k: "k < length c" "l = fst (c ! k)" by blast
  with chain_invD(3) [OF assms(1) k(1)] assms(3) have "res_of (nd l) = Some (snd (c ! k))"
    by (auto simp: node_ok_def Let_def)
  moreover have "(l, snd (c ! k)) \<in> set c" using k by (metis nth_mem prod.collapse)
  ultimately show ?thesis by blast
qed

lemma chain_value_unique:
  assumes "chain_inv app good nd c" and "(l, x) \<in> set c" and "(l, y) \<in> set c"
  shows "x = y"
  using eq_key_imp_eq_value [OF chain_invD(2) [OF assms(1)] assms(2,3)] .

lemma chain_frame:
  assumes "chain_inv app good nd c" and "\<And>l. on_chain c l \<Longrightarrow> nd' l = nd l"
  shows "chain_inv app good nd' c"
proof -
  have "nd' (fst (c ! k)) = nd (fst (c ! k))" if "k < length c" for k
    using that assms(2) by simp
  with assms(1) show ?thesis by (auto simp: chain_inv_def node_ok_def Let_def)
qed

text \<open>Linking a fresh node behind the last one.\<close>

lemma chain_link:
  assumes c: "chain_inv app good nd c" and pub: "seq_of (nd (tail c)) \<noteq> 0"
    and p: "\<not> on_chain c p" "succ_of (nd p) = None" "res_of (nd p) = None" "seq_of (nd p) = 0"
    and ap: "app (fst (snd (last c))) (op_of (nd p)) = Some nr" "good (fst nr)"
  shows "chain_inv app good (nd(tail c := (nd (tail c))\<lparr>succ_of := Some p\<rparr>)) (c @ [(p, nr)])"
    (is "chain_inv app good ?nd ?c")
proof -
  let ?n = "length c"
  have n: "?n \<noteq> 0" using chain_invD(1) [OF c] by simp
  have ne: "p \<noteq> tail c" using p(1) tail_on_chain [OF c] by auto
  have nd: "?nd (fst (c ! k)) = (if Suc k = ?n then (nd (fst (c ! k)))\<lparr>succ_of := Some p\<rparr>
      else nd (fst (c ! k)))" if "k < ?n" for k
  proof -
    have "fst (c ! k) = tail c \<longleftrightarrow> k = ?n - 1"
      using that n chain_index_eq [OF c that, of "?n - 1"] by (auto simp: tail_nth [OF c])
    also have "\<dots> \<longleftrightarrow> Suc k = ?n" using n by auto
    finally show ?thesis by auto
  qed
  have "node_ok ?nd ?c k" if "k < Suc ?n" for k
  proof (cases "k = ?n")
    case True
    then show ?thesis using ne p by (simp add: node_ok_def nth_append)
  next
    case False
    with that have k: "k < ?n" by simp
    have pub': "seq_of (nd (fst (c ! k))) = Suc k" if "Suc k = ?n"
    proof -
      have "k = ?n - 1" using that by simp
      with pub chain_invD(3) [OF c k] show ?thesis by (auto simp: node_ok_def Let_def tail_nth [OF c])
    qed
    show ?thesis
    proof (cases "Suc k = ?n")
      case True
      with k nd [OF k] chain_invD(3) [OF c k] pub' show ?thesis
        by (auto simp: node_ok_def Let_def nth_append)
    next
      case False
      with k nd [OF k] chain_invD(3) [OF c k] show ?thesis
        by (auto simp: node_ok_def Let_def nth_append)
    qed
  qed
  moreover have "app (fst (snd (?c ! k))) (op_of (?nd (fst (?c ! Suc k)))) = Some (snd (?c ! Suc k))"
    if "Suc k < Suc ?n" for k
  proof (cases "Suc k = ?n")
    case True
    then have "last c = c ! k" using n by (metis diff_Suc_1 last_conv_nth length_0_conv)
    with True ne ap show ?thesis by (simp add: nth_append)
  next
    case False
    with that have k: "Suc k < ?n" by simp
    have "op_of (?nd (fst (c ! Suc k))) = op_of (nd (fst (c ! Suc k)))"
      using nd [OF k] by simp
    with k chain_invD(5) [OF c k] show ?thesis by (simp add: nth_append del: fun_upd_apply)
  qed
  moreover have "distinct (map fst ?c)" "\<forall>e \<in> set ?c. good (fst (snd e))"
    using c p(1) ap(2) by (auto simp: chain_inv_def on_chain_def)
  ultimately show ?thesis by (simp add: chain_inv_def)
qed

text \<open>Publishing the result, and then the sequence number, of the node behind \<open>b\<close>.\<close>

lemma chain_set_res:
  assumes c: "chain_inv app good nd c" and a: "(a, nr) \<in> set c" "res_of (nd a) = None"
  shows "chain_inv app good (nd(a := (nd a)\<lparr>res_of := Some nr\<rparr>)) c"
proof -
  have "node_ok (nd(a := (nd a)\<lparr>res_of := Some nr\<rparr>)) c k" if k: "k < length c" for k
  proof (cases "fst (c ! k) = a")
    case True
    have "(a, snd (c ! k)) \<in> set c" using True k by (metis nth_mem prod.collapse)
    then have "snd (c ! k) = nr" using chain_value_unique [OF c _ a(1)] by blast
    with True chain_invD(3) [OF c k] show ?thesis by (auto simp: node_ok_def Let_def)
  next
    case False
    with chain_invD(3) [OF c k] show ?thesis by (simp add: node_ok_def)
  qed
  with c show ?thesis by (auto simp: chain_inv_def)
qed

lemma chain_set_seq:
  assumes c: "chain_inv app good nd c" and a: "on_chain c b" "seq_of (nd b) \<noteq> 0"
    "succ_of (nd b) = Some a" "res_of (nd a) \<noteq> None"
  shows "chain_inv app good (nd(a := (nd a)\<lparr>seq_of := seq_of (nd b) + 1\<rparr>)) c"
proof -
  from chain_next_Some [OF c a(1,3)] obtain j where
    j: "Suc j < length c" "b = fst (c ! j)" "a = fst (c ! Suc j)" by blast
  then have sb: "seq_of (nd b) = Suc j"
    using chain_invD(3) [OF c, of j] a(2) by (auto simp: node_ok_def Let_def)
  have "node_ok (nd(a := (nd a)\<lparr>seq_of := seq_of (nd b) + 1\<rparr>)) c k" if k: "k < length c" for k
  proof (cases "fst (c ! k) = a")
    case True
    then have "k = Suc j" using chain_index_eq [OF c k j(1)] j(3) by simp
    with j sb a(4) chain_invD(3) [OF c k] show ?thesis by (auto simp: node_ok_def Let_def)
  next
    case False
    with chain_invD(3) [OF c k] show ?thesis by (simp add: node_ok_def)
  qed
  with c show ?thesis by (auto simp: chain_inv_def)
qed

subsection \<open>Ghost state, invariant and assertions\<close>

text \<open>
  Besides the chain, the ghost records which goroutine made a node (the sentinel has no maker)
  and which goroutine was given a slot of the helping arrays.
\<close>

record ('s, 'r) uc_ghost =
  chain :: "(loc \<times> 's \<times> 'r) list"
  maker :: "loc \<Rightarrow> tid option"
  slot :: "nat \<Rightarrow> tid option"

text \<open>\<open>pubd\<close>: linked and published. \<open>known\<close>: a real node. \<open>clear\<close>: if \<open>p\<close> is linked at all, it is
  linked somewhere behind \<open>b\<close>, so a CAS on \<open>b\<close> cannot link it twice.\<close>

definition pubd :: "('o, 's, 'r) universal \<Rightarrow> ('s, 'r) uc_ghost \<Rightarrow> loc \<Rightarrow> bool" where
  "pubd s g l \<longleftrightarrow> on_chain (chain g) l \<and> seq_of (nodes s l) \<noteq> 0"

definition known :: "('s, 'r) uc_ghost \<Rightarrow> loc \<Rightarrow> bool" where
  "known g l \<longleftrightarrow> maker g l \<noteq> None \<or> on_chain (chain g) l"

definition clear :: "('o, 's, 'r) universal \<Rightarrow> ('s, 'r) uc_ghost \<Rightarrow> loc \<Rightarrow> loc \<Rightarrow> bool" where
  "clear s g b p \<longleftrightarrow> pubd s g b \<and> (on_chain (chain g) p \<longrightarrow> b \<noteq> tail (chain g))"

definition follows :: "('o, 's, 'r) universal \<Rightarrow> ('s, 'r) uc_ghost \<Rightarrow> loc \<Rightarrow> loc \<Rightarrow> bool" where
  "follows s g b a \<longleftrightarrow> pubd s g b \<and> succ_of (nodes s b) = Some a"

definition answered :: "('s, 'r) uc_ghost \<Rightarrow> loc \<Rightarrow> 'r \<Rightarrow> bool" where
  "answered g m r \<longleftrightarrow> (\<exists>v. (m, v, r) \<in> set (chain g))"

definition has_res :: "('o, 's, 'r) universal \<Rightarrow> loc \<Rightarrow> bool" where
  "has_res s a \<longleftrightarrow> res_of (nodes s a) \<noteq> None"

definition has_succ :: "('o, 's, 'r) universal \<Rightarrow> loc \<Rightarrow> bool" where
  "has_succ s b \<longleftrightarrow> succ_of (nodes s b) \<noteq> None"

definition number_of :: "('o, 's, 'r) universal \<Rightarrow> ('s, 'r) uc_ghost \<Rightarrow> loc \<Rightarrow> nat \<Rightarrow> bool" where
  "number_of s g a q \<longleftrightarrow> (\<exists>b. follows s g b a \<and> q = seq_of (nodes s b) + 1)"

definition uc_inv :: "('s \<Rightarrow> 'o \<Rightarrow> ('s \<times> 'r) option) \<Rightarrow> ('s \<Rightarrow> bool) \<Rightarrow>
    ('o, 's, 'r) universal \<Rightarrow> ('s, 'r) uc_ghost \<Rightarrow> bool" where
  "uc_inv app good s g \<longleftrightarrow>
     chain_inv app good (nodes s) (chain g) \<and>
     (\<forall>l. known g l \<longrightarrow> l < ubrk s) \<and>
     (\<forall>l. known g l \<longrightarrow> \<not> on_chain (chain g) l \<longrightarrow>
        succ_of (nodes s l) = None \<and> res_of (nodes s l) = None \<and> seq_of (nodes s l) = 0) \<and>
     pubd s g (anchor s) \<and>
     0 < maxn s \<and> length (heads s) = maxn s \<and> length (announce s) = maxn s \<and>
     (\<forall>i l. i < maxn s \<longrightarrow> heads s ! i = Some l \<longrightarrow> pubd s g l) \<and>
     (\<forall>i l. i < maxn s \<longrightarrow> announce s ! i = Some l \<longrightarrow> known g l) \<and>
     (\<forall>t i. handle_of s t = Some i \<longrightarrow> i < maxn s \<and> slot g i = Some t \<and> heads s ! i \<noteq> None) \<and>
     (\<forall>i. cursor s \<le> i \<longrightarrow> slot g i = None)"

fun reg_ok :: "('o, 's, 'r) universal \<Rightarrow> ('s, 'r) uc_ghost \<Rightarrow> tid \<Rightarrow> reg_pc \<Rightarrow>
    ('o uc_op, 'r uc_resp) status \<Rightarrow> bool" where
  "reg_ok s g t HCursor st \<longleftrightarrow> st = Wait Register {}"
| "reg_ok s g t (HAnchor i) st \<longleftrightarrow> i < maxn s \<and> slot g i = Some t \<and> st = Done (Registered i)"
| "reg_ok s g t (HHead i f) st \<longleftrightarrow>
     i < maxn s \<and> slot g i = Some t \<and> pubd s g f \<and> st = Done (Registered i)"
| "reg_ok s g t (HAnnounce i f) st \<longleftrightarrow>
     i < maxn s \<and> slot g i = Some t \<and> pubd s g f \<and> heads s ! i \<noteq> None \<and> st = Done (Registered i)"

fun local_ok :: "('o, 's, 'r) universal \<Rightarrow> ('s, 'r) uc_ghost \<Rightarrow> nat \<Rightarrow> loc \<Rightarrow> ('s, 'r) app_pc \<Rightarrow> bool"
where
  "local_ok s g i m (FSeq b) \<longleftrightarrow> pubd s g b"
| "local_ok s g i m (FHead b bs j) \<longleftrightarrow> pubd s g b \<and> j < maxn s"
| "local_ok s g i m (FNode b bs j d) \<longleftrightarrow> pubd s g b \<and> j < maxn s \<and> pubd s g d"
| "local_ok s g i m (AHead b) \<longleftrightarrow> pubd s g b"
| "local_ok s g i m LBefore \<longleftrightarrow> clear s g (the (heads s ! i)) m"
| "local_ok s g i m (LIdx b) \<longleftrightarrow> clear s g b m"
| "local_ok s g i m (LCand b k) \<longleftrightarrow> clear s g b m \<and> k < maxn s"
| "local_ok s g i m (LCandSeq b c) \<longleftrightarrow> clear s g b m \<and> known g c"
| "local_ok s g i m (LCas b p) \<longleftrightarrow> clear s g b p \<and> known g p"
| "local_ok s g i m (LAfter b) \<longleftrightarrow> pubd s g b \<and> has_succ s b"
| "local_ok s g i m (LAfterSeq b a) \<longleftrightarrow> follows s g b a"
| "local_ok s g i m (PRes b a) \<longleftrightarrow> follows s g b a"
| "local_ok s g i m (PResCas b a nr) \<longleftrightarrow> follows s g b a \<and> (a, nr) \<in> set (chain g)"
| "local_ok s g i m (PSeq b a) \<longleftrightarrow> follows s g b a \<and> has_res s a"
| "local_ok s g i m (PSeqCas a q) \<longleftrightarrow> number_of s g a q \<and> has_res s a"
| "local_ok s g i m (LHead a) \<longleftrightarrow> pubd s g a"
| "local_ok s g i m RRes \<longleftrightarrow> pubd s g m"
| "local_ok s g i m (RHead r) \<longleftrightarrow> pubd s g m \<and> answered g m r"
| "local_ok s g i m (VAnchor r) \<longleftrightarrow> pubd s g m \<and> answered g m r"
| "local_ok s g i m (VSeq r cur) \<longleftrightarrow> pubd s g m \<and> answered g m r \<and> pubd s g cur"
| "local_ok s g i m (VCurSeq r cur q) \<longleftrightarrow> pubd s g m \<and> answered g m r \<and> pubd s g cur"
| "local_ok s g i m (VCas r cur) \<longleftrightarrow> pubd s g m \<and> answered g m r \<and> pubd s g cur"
| "local_ok s g i m _ \<longleftrightarrow> True"

text \<open>A call has taken effect exactly when its node is on the chain.\<close>

definition node_status :: "('o, 's, 'r) universal \<Rightarrow> ('s, 'r) uc_ghost \<Rightarrow> loc \<Rightarrow>
    ('o uc_op, 'r uc_resp) status \<Rightarrow> bool" where
  "node_status s g m st \<longleftrightarrow>
     (if on_chain (chain g) m then \<exists>r. answered g m r \<and> st = Done (Reply r)
      else st = Wait (Apply (op_of (nodes s m))) {})"

definition app_base :: "('o, 's, 'r) universal \<Rightarrow> ('s, 'r) uc_ghost \<Rightarrow> tid \<Rightarrow> nat \<Rightarrow> loc \<Rightarrow> bool" where
  "app_base s g t i m \<longleftrightarrow> maker g m = Some t \<and> slot g i = Some t \<and> i < maxn s \<and> heads s ! i \<noteq> None"

fun uc_ok :: "('o, 's, 'r) universal \<Rightarrow> ('s, 'r) uc_ghost \<Rightarrow> tid \<Rightarrow> ('s, 'r) uc_pc \<Rightarrow>
    ('o uc_op, 'r uc_resp) status \<Rightarrow> bool" where
  "uc_ok s g t (Reg p) st = reg_ok s g t p st"
| "uc_ok s g t (App i m p) st = (app_base s g t i m \<and> local_ok s g i m p \<and> node_status s g m st)"

definition pending_ok :: "('s, 'r) uc_ghost \<Rightarrow> (tid \<Rightarrow> (('s, 'r) uc_pc, 'r uc_resp) thread) \<Rightarrow> bool" where
  "pending_ok g th \<longleftrightarrow>
     (\<forall>l u. maker g l = Some u \<longrightarrow> \<not> on_chain (chain g) l \<longrightarrow> (\<exists>i p. th u = Busy (App i l p)))"

definition uc_rel :: "('s \<Rightarrow> 'o \<Rightarrow> ('s \<times> 'r) option) \<Rightarrow> ('s \<Rightarrow> bool) \<Rightarrow> ('s \<Rightarrow> 'a) \<Rightarrow> nat \<Rightarrow>
    ('o, 's, 'r) universal \<Rightarrow> (tid \<Rightarrow> (('s, 'r) uc_pc, 'r uc_resp) thread) \<Rightarrow> 'a \<times> nat \<Rightarrow>
    (tid \<Rightarrow> ('o uc_op, 'r uc_resp) status) \<Rightarrow> bool" where
  "uc_rel app good abst n s th a st \<longleftrightarrow> maxn s = n \<and>
     (\<exists>g. uc_inv app good s g \<and> all_ok (uc_ok s g) th st \<and> pending_ok g th \<and>
       a = (abst (fst (snd (last (chain g)))), cursor s))"

subsection \<open>Interference\<close>

definition uc_rely :: "tid \<Rightarrow> ('o, 's, 'r) universal \<Rightarrow> ('s, 'r) uc_ghost \<Rightarrow>
    ('o, 's, 'r) universal \<Rightarrow> ('s, 'r) uc_ghost \<Rightarrow> bool" where
  "uc_rely t s g s' g' \<longleftrightarrow>
     (chain g' = chain g \<or> (\<exists>e. chain g' = chain g @ [e] \<and> \<not> on_chain (chain g) (fst e))) \<and>
     (\<forall>l u. maker g l = Some u \<longrightarrow> maker g' l = Some u) \<and>
     (\<forall>l. known g l \<longrightarrow> op_of (nodes s' l) = op_of (nodes s l) \<and>
        (succ_of (nodes s l) \<noteq> None \<longrightarrow> succ_of (nodes s' l) = succ_of (nodes s l)) \<and>
        (res_of (nodes s l) \<noteq> None \<longrightarrow> res_of (nodes s' l) = res_of (nodes s l)) \<and>
        (seq_of (nodes s l) \<noteq> 0 \<longrightarrow> seq_of (nodes s' l) = seq_of (nodes s l))) \<and>
     (\<forall>i u. slot g i = Some u \<longrightarrow> slot g' i = Some u \<and> (u \<noteq> t \<longrightarrow> heads s' ! i = heads s ! i)) \<and>
     maxn s' = maxn s"

lemma uc_relyD:
  assumes "uc_rely t s g s' g'"
  shows "on_chain (chain g) l \<Longrightarrow> on_chain (chain g') l"
    and "known g l \<Longrightarrow> known g' l"
    and "pubd s g l \<Longrightarrow> pubd s' g' l"
    and "pubd s g l \<Longrightarrow> seq_of (nodes s' l) = seq_of (nodes s l)"
    and "follows s g l a \<Longrightarrow> follows s' g' l a"
    and "answered g l r \<Longrightarrow> answered g' l r"
    and "e \<in> set (chain g) \<Longrightarrow> e \<in> set (chain g')"
    and "known g l \<Longrightarrow> res_of (nodes s l) \<noteq> None \<Longrightarrow> res_of (nodes s' l) \<noteq> None"
    and "slot g i = Some u \<Longrightarrow> slot g' i = Some u"
    and "slot g i = Some u \<Longrightarrow> u \<noteq> t \<Longrightarrow> heads s' ! i = heads s ! i"
    and "maxn s' = maxn s"
    and "maker g l = Some u \<Longrightarrow> maker g' l = Some u"
  using assms by (auto simp: uc_rely_def known_def pubd_def follows_def answered_def)

lemma clear_rely: "uc_rely t s g s' g' \<Longrightarrow> clear s g b p \<Longrightarrow> clear s' g' b p"
  using uc_relyD(3) [of t s g s' g' b] by (auto simp: clear_def uc_rely_def pubd_def)

lemma reg_stable: "uc_rely t s g s' g' \<Longrightarrow> u \<noteq> t \<Longrightarrow> reg_ok s g u p st \<Longrightarrow> reg_ok s' g' u p st"
  by (cases p) (auto simp: uc_relyD)

lemma follows_on_chain:
  assumes "chain_inv app good (nodes s) (chain g)" and "follows s g b a"
  shows "on_chain (chain g) a"
  using chain_next_Some [OF assms(1), of b a] assms(2) by (auto simp: follows_def pubd_def)

lemma follows_seq: "uc_rely t s g s' g' \<Longrightarrow> follows s g b a \<Longrightarrow> seq_of (nodes s' b) = seq_of (nodes s b)"
  by (simp add: follows_def uc_relyD(4))

lemma local_stable:
  assumes r: "uc_rely t s g s' g'" and "u \<noteq> t" and "slot g i = Some u"
    and c: "chain_inv app good (nodes s) (chain g)"
  shows "local_ok s g i m p \<Longrightarrow> local_ok s' g' i m p"
proof -
  note D = uc_relyD [OF r] clear_rely [OF r]
  have num: "number_of s' g' a q \<and> has_res s' a" if "number_of s g a q" "has_res s a" for a q
    using that D(5,8) follows_seq [OF r] follows_on_chain [OF c]
    unfolding number_of_def has_res_def known_def by metis
  have fol: "has_res s' a" if "follows s g b a" "has_res s a" for a b
    using D(8) [of a] follows_on_chain [OF c that(1)] that(2) by (auto simp: known_def has_res_def)
  have nx: "has_succ s' b" if "pubd s g b" "has_succ s b" for b
    using r that by (auto simp: uc_rely_def pubd_def known_def has_succ_def)
  assume "local_ok s g i m p"
  then show ?thesis using assms(2,3) D(1-7,9-13) fol nx num
    by (cases p) (auto simp del: not_None_eq)
qed

lemma status_stable:
  assumes "uc_rely t s g s' g'" and "maker g m \<noteq> None"
    and "on_chain (chain g') m \<Longrightarrow> on_chain (chain g) m" and "node_status s g m st"
  shows "node_status s' g' m st"
proof (cases "on_chain (chain g) m")
  case True
  with assms uc_relyD(1,6) [OF assms(1)] show ?thesis by (auto simp: node_status_def)
next
  case False
  moreover have "op_of (nodes s' m) = op_of (nodes s m)"
    using assms(1,2) by (auto simp: uc_rely_def known_def)
  ultimately show ?thesis using assms(3,4) by (auto simp: node_status_def)
qed

lemma base_stable:
  "uc_rely t s g s' g' \<Longrightarrow> u \<noteq> t \<Longrightarrow> app_base s g u i m \<Longrightarrow> app_base s' g' u i m"
  using uc_relyD(9-12) [of t s g s' g'] by (simp add: app_base_def)

lemma uc_stable:
  assumes "uc_rely t s g s' g'" and "u \<noteq> t" and "chain_inv app good (nodes s) (chain g)"
    and "chain g' = chain g" and "uc_ok s g u p st"
  shows "uc_ok s' g' u p st"
proof (cases p)
  case (Reg q)
  with assms reg_stable show ?thesis by fastforce
next
  case (App i m q)
  with assms have "app_base s g u i m" "local_ok s g i m q" "node_status s g m st" by auto
  moreover have "slot g i = Some u" "maker g m \<noteq> None"
    using \<open>app_base s g u i m\<close> by (auto simp: app_base_def)
  ultimately show ?thesis
    using base_stable [OF assms(1,2)] local_stable [OF assms(1,2) _ assms(3), of i m q]
      status_stable [OF assms(1), of m st] assms(4) by (simp add: App)
qed

subsection \<open>Steps that keep the chain\<close>

lemma uc_rely_refl [simp]: "uc_rely t s g s g"
  by (simp add: uc_rely_def)

lemma pubd_cong:
  "nodes s' = nodes s \<Longrightarrow> pubd s' g l = pubd s g l"
  "nodes s' = nodes s \<Longrightarrow> clear s' g l k = clear s g l k"
  "nodes s' = nodes s \<Longrightarrow> follows s' g l k = follows s g l k"
  "nodes s' = nodes s \<Longrightarrow> has_res s' l = has_res s l"
  "nodes s' = nodes s \<Longrightarrow> has_succ s' l = has_succ s l"
  by (simp_all add: pubd_def clear_def follows_def has_res_def has_succ_def)

lemma uc_invD:
  assumes "uc_inv app good s g"
  shows uc_inv_chain: "chain_inv app good (nodes s) (chain g)"
    and uc_inv_bound: "known g l \<Longrightarrow> l < ubrk s"
    and uc_inv_fresh: "known g l \<Longrightarrow> \<not> on_chain (chain g) l \<Longrightarrow>
      succ_of (nodes s l) = None \<and> res_of (nodes s l) = None \<and> seq_of (nodes s l) = 0"
    and uc_inv_anchor: "pubd s g (anchor s)"
    and uc_inv_size: "0 < maxn s" "length (heads s) = maxn s" "length (announce s) = maxn s"
    and uc_inv_heads: "i < maxn s \<Longrightarrow> heads s ! i = Some l \<Longrightarrow> pubd s g l"
    and uc_inv_announce: "i < maxn s \<Longrightarrow> announce s ! i = Some l \<Longrightarrow> known g l"
    and uc_inv_handle: "handle_of s t = Some i \<Longrightarrow> i < maxn s \<and> slot g i = Some t \<and> heads s ! i \<noteq> None"
    and uc_inv_cursor: "cursor s \<le> i \<Longrightarrow> slot g i = None"
  using assms by (auto simp: uc_inv_def simp del: not_None_eq)

lemma pubd_known: "pubd s g l \<Longrightarrow> known g l"
  by (simp add: pubd_def known_def)

lemma uc_inv_frame:
  assumes inv: "uc_inv app good s g" and eq: "nodes s' = nodes s" "ubrk s' = ubrk s" "maxn s' = maxn s"
    and a: "pubd s g (anchor s')"
    and len: "length (heads s') = maxn s" "length (announce s') = maxn s"
    and h: "\<And>i l. i < maxn s \<Longrightarrow> heads s' ! i = Some l \<Longrightarrow> pubd s g l"
    and n: "\<And>i l. i < maxn s \<Longrightarrow> announce s' ! i = Some l \<Longrightarrow> known g l"
    and k: "\<And>t i. handle_of s' t = Some i \<Longrightarrow> i < maxn s \<and> slot g i = Some t \<and> heads s' ! i \<noteq> None"
    and c: "cursor s \<le> cursor s'"
  shows "uc_inv app good s' g"
  unfolding uc_inv_def eq pubd_cong [OF eq(1)]
  using uc_inv_chain [OF inv] uc_inv_bound [OF inv] uc_inv_fresh [OF inv] uc_inv_size(1) [OF inv]
    uc_inv_cursor [OF inv] a len h n k c
  by (intro conjI) (blast intro: order_trans)+

lemma heads_write:
  assumes inv: "uc_inv app good s g" and i: "slot g i = Some t" "i < maxn s" and l: "pubd s g l"
  shows "uc_inv app good (s\<lparr>heads := (heads s)[i := Some l]\<rparr>) g \<and>
    uc_rely t s g (s\<lparr>heads := (heads s)[i := Some l]\<rparr>) g"
proof -
  let ?s = "s\<lparr>heads := (heads s)[i := Some l]\<rparr>"
  have nth: "heads ?s ! j = (if j = i then Some l else heads s ! j)" if "j < maxn s" for j
    using that uc_inv_size(2) [OF inv] by (simp add: nth_list_update)
  have "heads ?s ! j = heads s ! j" if "slot g j = Some u" "u \<noteq> t" for j u
    using that i(1) by (cases "j = i") auto
  then have "uc_rely t s g ?s g" by (simp add: uc_rely_def)
  moreover have "uc_inv app good ?s g"
    using inv
  proof (rule uc_inv_frame)
    show "pubd s g k" if "j < maxn s" "heads ?s ! j = Some k" for j k
      using that nth [OF that(1)] l uc_inv_heads [OF inv that(1)] by (auto split: if_splits)
    show "j < maxn s \<and> slot g j = Some u \<and> heads ?s ! j \<noteq> None" if "handle_of ?s u = Some j" for u j
      using that uc_inv_handle [OF inv, of u j] nth [of j] by auto
  qed (use uc_invD(4-7,9) [OF inv] in auto)
  ultimately show ?thesis by blast
qed

lemma announce_write:
  assumes inv: "uc_inv app good s g" and "i < maxn s" and l: "known g l"
  shows "uc_inv app good (s\<lparr>announce := (announce s)[i := Some l]\<rparr>) g \<and>
    uc_rely t s g (s\<lparr>announce := (announce s)[i := Some l]\<rparr>) g"
proof -
  let ?s = "s\<lparr>announce := (announce s)[i := Some l]\<rparr>"
  have "uc_inv app good ?s g"
    using inv
  proof (rule uc_inv_frame)
    show "known g k" if "j < maxn s" "announce ?s ! j = Some k" for j k
      using that l uc_inv_announce [OF inv that(1)] uc_inv_size(3) [OF inv]
      by (cases "j = i") auto
  qed (use uc_invD(4-8) [OF inv] uc_inv_handle [OF inv] in auto)
  then show ?thesis by (simp add: uc_rely_def)
qed

lemma anchor_write:
  assumes inv: "uc_inv app good s g" and "pubd s g l"
  shows "uc_inv app good (s\<lparr>anchor := l\<rparr>) g \<and> uc_rely t s g (s\<lparr>anchor := l\<rparr>) g"
proof -
  have "uc_inv app good (s\<lparr>anchor := l\<rparr>) g"
    using inv by (rule uc_inv_frame) (use assms(2) uc_invD(5-9) [OF inv] uc_inv_handle [OF inv] in auto)
  then show ?thesis by (simp add: uc_rely_def)
qed

text \<open>Writes to the nodes of the chain.\<close>

lemma node_write:
  assumes inv: "uc_inv app good s g" and a: "on_chain (chain g) a"
    and c: "chain_inv app good ((nodes s)(a := n)) (chain g)"
    and n: "op_of n = op_of (nodes s a)" "succ_of n = succ_of (nodes s a)"
      "res_of (nodes s a) \<noteq> None \<Longrightarrow> res_of n = res_of (nodes s a)"
      "seq_of (nodes s a) \<noteq> 0 \<Longrightarrow> seq_of n = seq_of (nodes s a)"
  shows "uc_inv app good (s\<lparr>nodes := (nodes s)(a := n)\<rparr>) g \<and>
    uc_rely t s g (s\<lparr>nodes := (nodes s)(a := n)\<rparr>) g"
proof -
  let ?s = "s\<lparr>nodes := (nodes s)(a := n)\<rparr>"
  have rely: "uc_rely t s g ?s g" using n by (auto simp: uc_rely_def)
  have "uc_inv app good ?s g"
    using uc_invD [OF inv] c a uc_relyD(3) [OF rely]
    by (auto simp: uc_inv_def simp del: not_None_eq)
  with rely show ?thesis by blast
qed

text \<open>What such a step of \<open>apply\<close> leads to.\<close>

definition app_next :: "('o, 's, 'r) universal \<Rightarrow> ('s, 'r) uc_ghost \<Rightarrow> nat \<Rightarrow> loc \<Rightarrow>
    (('s, 'r) uc_pc, 'r uc_resp) thread \<Rightarrow> bool" where
  "app_next s g i m x \<longleftrightarrow>
     (\<exists>p. x = Busy (App i m p) \<and> local_ok s g i m p \<and> heads s ! i \<noteq> None) \<or>
     (\<exists>r. x = Return (Reply r) \<and> pubd s g m \<and> answered g m r)"

lemma app_nextI:
  "local_ok s g i m p \<Longrightarrow> heads s ! i \<noteq> None \<Longrightarrow> app_next s g i m (Busy (App i m p))"
  by (simp add: app_next_def)

lemma scan_sim:
  assumes inv: "uc_inv app good s g" and b: "app_base s g t i m"
    and p: "p = FAnchor \<or> p = FSeq l \<or> p = FHead l bs j \<or> p = FNode l bs j d \<or> p = AHead l"
    and ok: "local_ok s g i m p" and step: "scan_step s i m p = (s', x)"
  shows "uc_inv app good s' g \<and> uc_rely t s g s' g \<and> cursor s' = cursor s \<and> app_next s' g i m x"
proof -
  have i: "i < maxn s" "slot g i = Some t" "heads s ! i \<noteq> None"
    using b by (simp_all add: app_base_def)
  have scan: "app_next s g i m (Busy (App i m (scan_next s l bs j)))" if "pubd s g l" for l bs j
    using that i(3) by (simp add: scan_next_def app_next_def)
  from p consider "p = FAnchor" | "p = FSeq l" | "p = FHead l bs j" | "p = FNode l bs j d" | "p = AHead l"
    by blast
  then show ?thesis
  proof cases
    case 1
    with step inv i show ?thesis by (auto simp: app_next_def uc_inv_anchor)
  next
    case 2
    with step inv scan ok show ?thesis by auto
  next
    case 3
    show ?thesis
    proof (cases "heads s ! j")
      case None
      with 3 step inv scan ok uc_inv_size [OF inv] show ?thesis by auto
    next
      case (Some nd)
      moreover have "pubd s g nd" using uc_inv_heads [OF inv _ Some] ok by (simp add: 3)
      ultimately show ?thesis using 3 step inv ok i uc_inv_size [OF inv] by (auto simp: app_next_def)
    qed
  next
    case 4
    with step inv scan ok show ?thesis by (auto simp: Let_def split: if_splits)
  next
    case 5
    with step ok heads_write [OF inv i(2,1), of l] i uc_inv_size(2) [OF inv] show ?thesis
      by (auto simp: app_next_def)
  qed
qed

lemma publish_sim:
  assumes inv: "uc_inv app good s g" and b: "app_base s g t i m"
    and p: "p = PRes l a \<or> p = PResCas l a nr \<or> p = PSeq l a \<or> p = PSeqCas a q"
    and ok: "local_ok s g i m p" and step: "publish_step app s i m p = (s', x)"
  shows "uc_inv app good s' g \<and> uc_rely t s g s' g \<and> cursor s' = cursor s \<and> app_next s' g i m x"
proof -
  note c = uc_inv_chain [OF inv]
  have h: "heads s ! i \<noteq> None" using b by (simp add: app_base_def)
  from p consider "p = PRes l a" | "p = PResCas l a nr" | "p = PSeq l a" | "p = PSeqCas a q" by blast
  then show ?thesis
  proof cases
    case 1
    with ok have f: "follows s g l a" by simp
    then obtain k where k: "Suc k < length (chain g)" "l = fst (chain g ! k)" "a = fst (chain g ! Suc k)"
      using chain_next_Some [OF c, of l a] by (auto simp: follows_def pubd_def)
    obtain br where br: "res_of (nodes s l) = Some br" "(l, br) \<in> set (chain g)"
      using chain_published [OF c, of l] f by (auto simp: follows_def pubd_def)
    have "(l, snd (chain g ! k)) \<in> set (chain g)"
      using k by (metis Suc_lessD nth_mem prod.collapse)
    then have "br = snd (chain g ! k)" using chain_value_unique [OF c br(2)] by simp
    then have "app (fst br) (op_of (nodes s a)) = Some (snd (chain g ! Suc k))"
      using chain_invD(5) [OF c k(1)] k(3) by simp
    moreover have "(a, snd (chain g ! Suc k)) \<in> set (chain g)"
      using k(1,3) by (metis nth_mem prod.collapse)
    ultimately show ?thesis using 1 step br(1) inv f h by (auto intro!: app_nextI)
  next
    case 2
    then have f: "follows s g l a" "(a, nr) \<in> set (chain g)" using ok by simp_all
    show ?thesis
    proof (cases "res_of (nodes s a) = None")
      case True
      have "uc_inv app good s' g \<and> uc_rely t s g s' g"
        using node_write [OF inv follows_on_chain [OF c f(1)] chain_set_res [OF c f(2) True], of t]
          step True 2 by auto
      moreover have "follows s' g l a" using calculation f(1) uc_relyD(5) by blast
      ultimately show ?thesis using 2 step True h
        by (auto simp: has_res_def intro!: app_nextI)
    next
      case False
      with 2 step inv f h show ?thesis by (auto simp: has_res_def intro!: app_nextI)
    qed
  next
    case 3
    with step inv ok h show ?thesis by (auto simp: number_of_def intro!: app_nextI)
  next
    case 4
    then obtain b where f: "follows s g b a" "q = seq_of (nodes s b) + 1" and r: "has_res s a"
      using ok by (auto simp: number_of_def)
    have on: "on_chain (chain g) a" by (rule follows_on_chain [OF c f(1)])
    show ?thesis
    proof (cases "seq_of (nodes s a) = 0")
      case True
      have b: "on_chain (chain g) b" "seq_of (nodes s b) \<noteq> 0" "succ_of (nodes s b) = Some a"
        "res_of (nodes s a) \<noteq> None"
        using f(1) r by (auto simp: follows_def pubd_def has_res_def)
      have "uc_inv app good s' g \<and> uc_rely t s g s' g"
        using node_write [OF inv on chain_set_seq [OF c b], of t] step True 4 f(2) by auto
      then show ?thesis using 4 step True h on f(2)
        by (auto simp: pubd_def intro!: app_nextI)
    next
      case False
      with 4 step inv on h show ?thesis by (auto simp: pubd_def intro!: app_nextI)
    qed
  qed
qed

lemma answered_unique:
  "chain_inv app good nd (chain g) \<Longrightarrow> answered g m r \<Longrightarrow> answered g m r' \<Longrightarrow> r = r'"
  unfolding answered_def using chain_value_unique by (metis prod.inject)

lemma finish_sim:
  assumes inv: "uc_inv app good s g" and b: "app_base s g t i m"
    and p: "p = RRes \<or> p = RHead r \<or> p = VAnchor r \<or> p = VSeq r cur \<or> p = VCurSeq r cur q \<or> p = VCas r cur"
    and ok: "local_ok s g i m p" and step: "finish_step s i m p = (s', x)"
  shows "uc_inv app good s' g \<and> uc_rely t s g s' g \<and> cursor s' = cursor s \<and> app_next s' g i m x"
proof -
  have i: "i < maxn s" "slot g i = Some t" "heads s ! i \<noteq> None"
    using b by (simp_all add: app_base_def)
  from p consider "p = RRes" | "p = RHead r" | "p = VAnchor r" | "p = VSeq r cur" | "p = VCurSeq r cur q" | "p = VCas r cur"
    by blast
  then show ?thesis
  proof cases
    case 1
    obtain v where "res_of (nodes s m) = Some v" "(m, v) \<in> set (chain g)"
      using chain_published [OF uc_inv_chain [OF inv], of m] ok by (auto simp: 1 pubd_def)
    with 1 step inv ok i show ?thesis
      by (cases v) (auto simp: answered_def intro!: app_nextI)
  next
    case 2
    with step ok heads_write [OF inv i(2,1), of m] i uc_inv_size(2) [OF inv] show ?thesis
      by (auto simp: pubd_def intro!: app_nextI)
  next
    case 3
    with step inv ok i show ?thesis by (auto simp: uc_inv_anchor intro!: app_nextI)
  next
    case 4
    with step inv ok i show ?thesis by (auto intro!: app_nextI)
  next
    case 5
    with step inv ok i show ?thesis by (auto simp: app_next_def split: if_splits)
  next
    case 6
    with step inv ok i anchor_write [OF inv, of m t] show ?thesis
      by (auto simp: app_next_def pubd_def split: if_splits)
  qed
qed

lemma loop_sim:
  assumes inv: "uc_inv app good s g" and b: "app_base s g t i m"
    and p: "p = AAnnounce \<or> p = LTest \<or> p = LBefore \<or> p = LIdx l \<or> p = LCand l k \<or> p = LCandSeq l d \<or>
      p = LCas l d \<and> succ_of (nodes s l) \<noteq> None \<or> p = LAfter l \<or> p = LAfterSeq l a \<or> p = LHead a"
    and ok: "local_ok s g i m p" and step: "loop_step s i m p = (s', x)"
  shows "uc_inv app good s' g \<and> uc_rely t s g s' g \<and> cursor s' = cursor s \<and> app_next s' g i m x"
proof -
  note c = uc_inv_chain [OF inv]
  have i: "i < maxn s" "slot g i = Some t" "heads s ! i \<noteq> None" "known g m"
    using b by (simp_all add: app_base_def known_def)
  from i(3) obtain h where h: "heads s ! i = Some h" by blast
  then have ph: "pubd s g h" using uc_inv_heads [OF inv i(1)] by blast
  have cl: "clear s g b p" if "pubd s g b" "seq_of (nodes s p) = 0" for b p
    using chain_unpublished [OF c _ that(2)] that by (auto simp: clear_def pubd_def)
  from p consider "p = AAnnounce" | "p = LTest" | "p = LBefore" | "p = LIdx l" | "p = LCand l k"
    | "p = LCandSeq l d" | "p = LCas l d" "succ_of (nodes s l) \<noteq> None" | "p = LAfter l"
    | "p = LAfterSeq l a" | "p = LHead a"
    by blast
  then show ?thesis
  proof cases
    case 1
    with step announce_write [OF inv i(1,4), of t] i uc_inv_size(3) [OF inv] show ?thesis
      by (auto intro!: app_nextI)
  next
    case 2
    have "on_chain (chain g) m" if "seq_of (nodes s m) \<noteq> 0"
      using uc_inv_fresh [OF inv i(4)] that by blast
    with 2 step inv i h ph cl show ?thesis
      by (auto simp: pubd_def intro!: app_nextI split: if_splits)
  next
    case 3
    with step inv ok i h uc_inv_size(2) [OF inv] show ?thesis by (auto intro!: app_nextI)
  next
    case 4
    with step inv ok i uc_inv_size(1) [OF inv] show ?thesis by (auto intro!: app_nextI)
  next
    case 5
    show ?thesis
    proof (cases "announce s ! k")
      case None
      with 5 step inv ok i uc_inv_size(3) [OF inv] show ?thesis by (auto intro!: app_nextI)
    next
      case (Some n)
      with uc_inv_announce [OF inv _ Some] 5 step inv ok i uc_inv_size(3) [OF inv]
      show ?thesis by (auto intro!: app_nextI)
    qed
  next
    case 6
    with ok have "pubd s g l" by (simp add: clear_def)
    with 6 step inv ok i cl show ?thesis by (auto intro!: app_nextI)
  next
    case 7
    with step inv ok i show ?thesis by (auto simp: clear_def has_succ_def intro!: app_nextI)
  next
    case 8
    with step inv ok i show ?thesis by (auto simp: has_succ_def follows_def intro!: app_nextI)
  next
    case 9
    with step inv ok i follows_on_chain [OF c, of l a] show ?thesis
      by (auto simp: pubd_def intro!: app_nextI split: if_splits)
  next
    case 10
    with step ok heads_write [OF inv i(2,1), of a] i uc_inv_size(2) [OF inv] show ?thesis
      by (auto simp: app_next_def)
  qed
qed

subsection \<open>One step of the whole system\<close>

lemma uc_keep:
  assumes c: "chain_inv app good (nodes s) (chain g)" and all: "all_ok (uc_ok s g) th st"
    and pend: "pending_ok g th" and rely: "uc_rely t s g s' g'" and same: "chain g' = chain g"
    and mk: "\<And>l u. maker g' l = Some u \<Longrightarrow> u \<noteq> t \<Longrightarrow> maker g l = Some u"
    and x: "thread_ok (uc_ok s' g' t) x r"
    and own: "\<And>l. maker g' l = Some t \<Longrightarrow> \<not> on_chain (chain g) l \<Longrightarrow> \<exists>i q. x = Busy (App i l q)"
  shows "all_ok (uc_ok s' g') (th(t := x)) (st(t := r)) \<and> pending_ok g' (th(t := x))"
proof
  show "all_ok (uc_ok s' g') (th(t := x)) (st(t := r))"
    using all x uc_stable [OF rely _ c same] by (rule all_ok_upd)
  show "pending_ok g' (th(t := x))"
    using pend mk own unfolding pending_ok_def same by (metis fun_upd_apply)
qed

lemma uc_rel_keep:
  assumes inv: "uc_inv app good s g" and all: "all_ok (uc_ok s g) th st"
    and pend: "pending_ok g th" and rely: "uc_rely t s g s' g'" and same: "chain g' = chain g"
    and mk: "\<And>l u. maker g' l = Some u \<Longrightarrow> u \<noteq> t \<Longrightarrow> maker g l = Some u"
    and x: "thread_ok (uc_ok s' g' t) x r"
    and own: "\<And>l. maker g' l = Some t \<Longrightarrow> \<not> on_chain (chain g) l \<Longrightarrow> \<exists>i q. x = Busy (App i l q)"
    and inv': "uc_inv app good s' g'" and n: "maxn s = n"
  shows "uc_rel app good abst n s' (th(t := x)) (abst (fst (snd (last (chain g)))), cursor s') (st(t := r))"
  unfolding uc_rel_def
  using uc_keep [OF uc_inv_chain [OF inv] all pend rely same mk x own] inv' n
    uc_relyD(11) [OF rely] same by auto

lemma app_silent_sim:
  assumes inv: "uc_inv app good s g" and ok: "uc_ok s g t (App i m p) r"
    and step: "app_step app s i m p = (s', x)"
    and p: "\<nexists>b d. p = LCas b d \<and> succ_of (nodes s b) = None"
  shows "uc_inv app good s' g \<and> uc_rely t s g s' g \<and> cursor s' = cursor s \<and> app_next s' g i m x"
proof -
  have b: "app_base s g t i m" and l: "local_ok s g i m p" using ok by simp_all
  consider (scan) l bs j d where "app_step app s i m p = scan_step s i m p"
      "p = FAnchor \<or> p = FSeq l \<or> p = FHead l bs j \<or> p = FNode l bs j d \<or> p = AHead l"
    | (pub) l a nr q where "app_step app s i m p = publish_step app s i m p"
      "p = PRes l a \<or> p = PResCas l a nr \<or> p = PSeq l a \<or> p = PSeqCas a q"
    | (fin) r cur q where "app_step app s i m p = finish_step s i m p"
      "p = RRes \<or> p = RHead r \<or> p = VAnchor r \<or> p = VSeq r cur \<or> p = VCurSeq r cur q \<or> p = VCas r cur"
    | (loop) l k d a where "app_step app s i m p = loop_step s i m p"
      "p = AAnnounce \<or> p = LTest \<or> p = LBefore \<or> p = LIdx l \<or> p = LCand l k \<or> p = LCandSeq l d \<or>
       p = LCas l d \<and> succ_of (nodes s l) \<noteq> None \<or> p = LAfter l \<or> p = LAfterSeq l a \<or> p = LHead a"
    using p by (cases p) (simp_all del: scan_step.simps publish_step.simps finish_step.simps
        loop_step.simps not_None_eq)
  then show ?thesis
  proof cases
    case scan
    with step show ?thesis by (intro scan_sim [OF inv b scan(2) l]) simp
  next
    case pub
    with step show ?thesis by (intro publish_sim [OF inv b pub(2) l]) simp
  next
    case fin
    with step show ?thesis by (intro finish_sim [OF inv b fin(2) l]) simp
  next
    case loop
    with step show ?thesis by (intro loop_sim [OF inv b loop(2) l]) simp
  qed
qed

lemma app_next_ok:
  assumes rely: "uc_rely t s g s' g" and ok: "uc_ok s g t (App i m p) r" and x: "app_next s' g i m x"
    and c: "chain_inv app good (nodes s') (chain g)"
  shows "thread_ok (uc_ok s' g t) x r"
proof -
  have m: "maker g m = Some t" "slot g i = Some t" "i < maxn s" "node_status s g m r"
    using ok by (simp_all add: app_base_def)
  have st: "node_status s' g m r" using status_stable [OF rely _ _ m(4)] m(1) by simp
  from x consider q where "x = Busy (App i m q)" "local_ok s' g i m q" "heads s' ! i \<noteq> None"
    | v where "x = Return (Reply v)" "pubd s' g m" "answered g m v"
    unfolding app_next_def by blast
  then show ?thesis
  proof cases
    case 1
    with st m uc_relyD(11) [OF rely] show ?thesis by (simp add: app_base_def)
  next
    case 2
    from st 2(2) obtain w where "answered g m w" "r = Done (Reply w)"
      by (auto simp: node_status_def pubd_def)
    with 2 answered_unique [OF c] show ?thesis by auto
  qed
qed

text \<open>\<open>Handle\<close>.\<close>

lemma reg_sim:
  assumes inv: "uc_inv app good s g" and ok: "reg_ok s g t p r" and step: "reg_step s t p = (s', x)"
  shows "\<exists>g' r'. uc_inv app good s' g' \<and> uc_rely t s g s' g' \<and> chain g' = chain g \<and> maker g' = maker g \<and>
    thread_ok (uc_ok s' g' t) x r' \<and>
    own_move (uc_spec (maxn s) spec) (a, cursor s) r (a, cursor s') r'"
proof (cases p)
  case HCursor
  let ?s = "s\<lparr>cursor := cursor s + 1\<rparr>"
  show ?thesis
  proof (cases "cursor s \<ge> maxn s")
    case True
    with step have s': "s' = ?s" "x = Return TooMany" by (simp_all add: HCursor Let_def)
    have "uc_inv app good s' g" using inv unfolding s'
      by (rule uc_inv_frame) (use uc_invD(4-9) [OF inv] uc_inv_handle [OF inv] in auto)
    moreover have "own_move (uc_spec (maxn s) spec) (a, cursor s) r (a, cursor s') (Done TooMany)"
      using ok True by (simp add: HCursor s' own_move.effect)
    moreover have "uc_rely t s g s' g" by (simp add: s' uc_rely_def)
    ultimately show ?thesis by (intro exI [of _ g] exI [of _ "Done TooMany"]) (simp add: s')
  next
    case False
    let ?g = "g\<lparr>slot := (slot g)(cursor s := Some t)\<rparr>"
    from False step have s': "s' = ?s" "x = Busy (Reg (HAnchor (cursor s)))"
      by (simp_all add: HCursor Let_def)
    have free: "slot g (cursor s) = None" using uc_inv_cursor [OF inv, of "cursor s"] by simp
    have eq: "pubd s' ?g l = pubd s g l" "known ?g l = known g l" for l
      by (simp_all add: s' pubd_def known_def)
    have "uc_inv app good s' ?g"
      using inv free unfolding uc_inv_def eq by (auto simp: s' simp del: not_None_eq)
    moreover have "own_move (uc_spec (maxn s) spec) (a, cursor s) r (a, cursor s')
        (Done (Registered (cursor s)))"
      using ok False by (simp add: HCursor s' own_move.effect)
    moreover have "uc_rely t s g s' ?g" using free by (auto simp: s' uc_rely_def)
    ultimately show ?thesis using False
      by (intro exI [of _ ?g] exI [of _ "Done (Registered (cursor s))"]) (simp add: s')
  qed
next
  case (HAnchor k)
  with inv ok step show ?thesis
    by (intro exI [of _ g] exI [of _ r]) (auto simp: uc_inv_anchor intro: own_move.stay)
next
  case (HHead k f)
  with ok have k: "slot g k = Some t" "k < maxn s" "pubd s g f" by simp_all
  with step uc_inv_size [OF inv] have s': "s' = s\<lparr>heads := (heads s)[k := Some f]\<rparr>"
    "x = Busy (Reg (HAnnounce k f))" by (simp_all add: HHead)
  from heads_write [OF inv k] show ?thesis using ok k uc_inv_size [OF inv]
    by (intro exI [of _ g] exI [of _ r]) (auto simp: s' HHead pubd_def intro: own_move.stay)
next
  case (HAnnounce k f)
  with ok have k: "slot g k = Some t" "k < maxn s" "pubd s g f" "heads s ! k \<noteq> None" by simp_all
  let ?s = "s\<lparr>announce := (announce s)[k := Some f], handle_of := (handle_of s)(t := Some k)\<rparr>"
  from step k uc_inv_size [OF inv] have s': "s' = ?s" "x = Return (Registered k)"
    by (simp_all add: HAnnounce)
  have "uc_inv app good s' g" using inv
  proof (rule uc_inv_frame)
    show "known g l" if "j < maxn s" "announce s' ! j = Some l" for j l
      using that pubd_known [OF k(3)] uc_inv_announce [OF inv that(1)] uc_inv_size(3) [OF inv]
      by (cases "j = k") (auto simp: s')
    show "j < maxn s \<and> slot g j = Some u \<and> heads s' ! j \<noteq> None" if "handle_of s' u = Some j" for u j
      using that k uc_inv_handle [OF inv, of u j] by (cases "u = t") (auto simp: s' simp del: not_None_eq)
  qed (use uc_invD(4-8) [OF inv] in \<open>auto simp: s'\<close>)
  moreover have "uc_rely t s g s' g" by (simp add: s' uc_rely_def)
  ultimately show ?thesis using ok
    by (intro exI [of _ g] exI [of _ r]) (auto simp: s' HAnnounce intro: own_move.stay)
qed

text \<open>A call begins.\<close>

lemma beg_sim:
  assumes inv: "uc_inv app good s g" and can: "uc_can s t oper" and beg: "uc_beg s t oper = (s', p)"
    and idle: "\<And>l. maker g l = Some t \<Longrightarrow> on_chain (chain g) l"
  shows "\<exists>g'. uc_inv app good s' g' \<and> uc_rely t s g s' g' \<and> chain g' = chain g \<and> cursor s' = cursor s \<and>
    (\<forall>l u. maker g' l = Some u \<longrightarrow> u \<noteq> t \<longrightarrow> maker g l = Some u) \<and> uc_ok s' g' t p (Wait oper {}) \<and>
    (\<forall>l. maker g' l = Some t \<longrightarrow> \<not> on_chain (chain g) l \<longrightarrow> (\<exists>i q. p = App i l q))"
proof (cases oper)
  case Register
  with beg inv idle show ?thesis by (intro exI [of _ g]) auto
next
  case (Apply o')
  let ?l = "ubrk s"
  let ?g = "g\<lparr>maker := (maker g)(?l := Some t)\<rparr>"
  obtain i where i: "handle_of s t = Some i" using can by (auto simp: Apply)
  have s': "s' = s\<lparr>nodes := (nodes s)(?l := \<lparr>op_of = o', succ_of = None, res_of = None, seq_of = 0\<rparr>),
      ubrk := Suc ?l\<rparr>" "p = App i ?l AAnnounce"
    using beg i by (simp_all add: Apply)
  have new: "\<not> known g ?l" using uc_inv_bound [OF inv, of ?l] by auto
  then have off: "\<not> on_chain (chain g) ?l" by (simp add: known_def)
  have kn: "known ?g l \<longleftrightarrow> known g l \<or> l = ?l" for l by (auto simp: known_def)
  have old: "nodes s' l = nodes s l" if "known g l" for l
    using that new by (auto simp: s')
  have pb: "pubd s' ?g l = pubd s g l" for l
    using old [of l] by (auto simp: pubd_def known_def)
  have "chain_inv app good (nodes s') (chain g)"
    using uc_inv_chain [OF inv] by (rule chain_frame) (simp add: old known_def)
  moreover have "l < ubrk s'" if "known ?g l" for l
    using that uc_inv_bound [OF inv, of l] unfolding kn by (auto simp: s')
  moreover have "succ_of (nodes s' l) = None \<and> res_of (nodes s' l) = None \<and> seq_of (nodes s' l) = 0"
    if "known ?g l" "\<not> on_chain (chain g) l" for l
    using that uc_inv_fresh [OF inv, of l] old [of l] unfolding kn by (cases "l = ?l") (auto simp: s')
  ultimately have "uc_inv app good s' ?g"
    using uc_invD(4-9) [OF inv] uc_inv_handle [OF inv] uc_inv_cursor [OF inv]
    unfolding uc_inv_def pb unfolding kn
    by (intro conjI allI impI) (auto simp: s' simp del: not_None_eq)
  moreover have "uc_rely t s g s' ?g"
    using old new by (auto simp: uc_rely_def s' known_def)
  moreover have "uc_ok s' ?g t p (Wait oper {})"
    using uc_inv_handle [OF inv i] off
    by (simp add: s' Apply app_base_def node_status_def del: not_None_eq)
  ultimately show ?thesis using idle
    by (intro exI [of _ ?g]) (auto simp: s')
qed

subsection \<open>The linearizing step\<close>

text \<open>
  The compare-and-swap that links the node \<open>d\<close> of goroutine \<open>u\<close>, executed by goroutine \<open>t\<close>.
  Only the status of \<open>u\<close> changes.
\<close>

lemma link_others:
  assumes c: "chain_inv app good (nodes s) (chain g)" and rely: "\<And>w. uc_rely w s g s' g'"
    and ch: "chain g' = chain g @ [(d, nr)]" and d: "maker g d = Some u" "\<not> on_chain (chain g) d"
    and v: "uc_ok s g v p r" and pv: "v = u \<Longrightarrow> \<exists>i q. p = App i d q"
  shows "uc_ok s' g' v p (if v = u then Done (Reply (snd nr)) else r)"
proof -
  obtain w where w: "v \<noteq> w" by (metis n_not_Suc_n)
  show ?thesis
  proof (cases p)
    case (Reg q)
    with pv have "v \<noteq> u" by auto
    with Reg v reg_stable [OF rely w] show ?thesis by simp
  next
    case (App i m q)
    with v have a: "app_base s g v i m" "local_ok s g i m q" "node_status s g m r" by auto
    then have m: "maker g m = Some v" "slot g i = Some v" by (auto simp: app_base_def)
    have st: "node_status s' g' m (if v = u then Done (Reply (snd nr)) else r)"
    proof (cases "v = u")
      case True
      with pv App have "m = d" by simp
      then show ?thesis using True by (cases nr) (auto simp: node_status_def ch answered_def)
    next
      case False
      with m(1) d(1) have "m \<noteq> d" by auto
      then show ?thesis using False status_stable [OF rely _ _ a(3)] m(1) by (simp add: ch)
    qed
    show ?thesis
      using base_stable [OF rely w a(1)] local_stable [OF rely w m(2) c a(2)] st by (simp add: App)
  qed
qed

lemma link_state:
  assumes inv: "uc_inv app good s g" and ok: "clear s g b d" "known g d"
    and nx: "succ_of (nodes s b) = None"
    and ap: "app (fst (snd (last (chain g)))) (op_of (nodes s d)) = Some nr" "good (fst nr)"
    and s': "s' = s\<lparr>nodes := (nodes s)(b := (nodes s b)\<lparr>succ_of := Some d\<rparr>)\<rparr>"
    and g': "g' = g\<lparr>chain := chain g @ [(d, nr)]\<rparr>"
  shows "\<not> on_chain (chain g) d \<and> uc_inv app good s' g' \<and> uc_rely w s g s' g' \<and>
    pubd s' g' b \<and> has_succ s' b"
proof -
  note c = uc_inv_chain [OF inv]
  have b: "pubd s g b" using ok(1) by (simp add: clear_def)
  then have tl: "b = tail (chain g)" using chain_next_None [OF c, of b] nx by (simp add: pubd_def)
  then have off: "\<not> on_chain (chain g) d" using ok(1) by (auto simp: clear_def)
  note f = uc_inv_fresh [OF inv ok(2) off]
  have ne: "d \<noteq> b" using off b by (auto simp: pubd_def)
  have rely: "uc_rely w s g s' g'" for w
    using nx off by (auto simp: uc_rely_def s' g')
  have kn: "known g' l = known g l" for l using ok(2) by (auto simp: known_def g')
  have "chain_inv app good (nodes s') (chain g')"
    unfolding s' g' using chain_link [OF c _ off _ _ _ ap] f b tl by (simp add: pubd_def)
  moreover have "succ_of (nodes s' l) = None \<and> res_of (nodes s' l) = None \<and> seq_of (nodes s' l) = 0"
    if "known g' l" "\<not> on_chain (chain g') l" for l
    using that uc_inv_fresh [OF inv, of l] b unfolding kn by (auto simp: s' g' pubd_def)
  moreover have "pubd s' g' l" if "pubd s g l" for l
    using uc_relyD(3) [OF rely that] .
  ultimately have "uc_inv app good s' g'"
    using uc_invD(2,4-9) [OF inv] uc_inv_handle [OF inv] uc_inv_cursor [OF inv]
    unfolding uc_inv_def kn
    by (intro conjI allI impI) (auto simp: s' g' simp del: not_None_eq)
  then show ?thesis using off rely uc_relyD(3) [OF rely b] by (simp add: s' has_succ_def)
qed

subsection \<open>The contract of a sequential object\<close>

text \<open>
  What the construction needs of the object it is built around: on every version that satisfies
  \<open>good\<close>, the switch of \<open>publish\<close> yields a \<open>good\<close> version, and version and response are those
  of the specification.
\<close>

locale seq_object =
  fixes app :: "'s \<Rightarrow> 'o \<Rightarrow> ('s \<times> 'r) option"
    and good :: "'s \<Rightarrow> bool"
    and abst :: "'s \<Rightarrow> 'a"
    and spec :: "'a \<Rightarrow> 'o \<Rightarrow> 'a \<times> 'r"
  assumes app_refines: "good v \<Longrightarrow>
    \<exists>v' r. app v oper = Some (v', r) \<and> good v' \<and> spec (abst v) oper = (abst v', r)"
begin

lemma link_sim:
  assumes inv: "uc_inv app good s g" and all: "all_ok (uc_ok s g) th st" and pend: "pending_ok g th"
    and t: "th t = Busy (App i m (LCas b d))" and nx: "succ_of (nodes s b) = None"
    and n: "maxn s = n"
    and step: "app_step app s i m (LCas b d) = (s', x)"
  shows "\<exists>E a' st'. visible E = [] \<and>
    lin_run (uc_spec n spec) ((abst (fst (snd (last (chain g)))), cursor s), st) E = Some (a', st') \<and>
    uc_rel app good abst n s' (th(t := x)) a' st'"
proof -
  note c = uc_inv_chain [OF inv]
  let ?v = "fst (snd (last (chain g)))"
  have s': "s' = s\<lparr>nodes := (nodes s)(b := (nodes s b)\<lparr>succ_of := Some d\<rparr>)\<rparr>"
    "x = Busy (App i m (LAfter b))"
    using step nx by simp_all
  have okt: "uc_ok s g t (App i m (LCas b d)) (st t)" using all_okD [OF all, of t] t by simp
  then have cl: "clear s g b d" "known g d" by simp_all
  have "good ?v" using chain_invD(1,4) [OF c] by simp
  then obtain v' r where ap: "app ?v (op_of (nodes s d)) = Some (v', r)" "good v'"
    "spec (abst ?v) (op_of (nodes s d)) = (abst v', r)"
    using app_refines by blast
  define g' where "g' = g\<lparr>chain := chain g @ [(d, v', r)]\<rparr>"
  note L = link_state [OF inv cl nx ap(1) _ s'(1) g'_def, simplified, OF ap(2)]
  then obtain u where u: "maker g d = Some u" using cl(2) by (auto simp: known_def)
  then obtain j q where q: "th u = Busy (App j d q)"
    using pend L unfolding pending_ok_def by blast
  have ou: "uc_ok s g u (App j d q) (st u)" using all_okD [OF all, of u] q by simp
  then have w: "st u = Wait (Apply (op_of (nodes s d))) {}"
    using L by (simp add: node_status_def)
  let ?st = "st(u := Done (Reply r))"
  have run: "lin_run (uc_spec n spec) ((abst ?v, cursor s), st) [Lin u] =
      Some ((abst v', cursor s), ?st)"
    using w ap(3) by simp
  have others: "uc_ok s' g' v p (?st v)" if "th v = Busy p" for v p
  proof -
    have "uc_ok s g v p (st v)" using all_okD [OF all, of v] that by simp
    from link_others [OF c _ _ u _ this, of s' g' "(v', r)"] L q that show ?thesis
      by (auto simp: g'_def)
  qed
  have "uc_ok s' g' t (App i m (LAfter b)) (?st t)"
    using others [OF t] L by simp
  then have "thread_ok (uc_ok s' g' v) ((th(t := x)) v) (?st v)" for v
    using others [of v] all_okD [OF all, of v] q
    by (cases "v = t"; cases "v = u"; cases "th v") (auto simp: s'(2) simp del: uc_ok.simps)
  then have "all_ok (uc_ok s' g') (th(t := x)) ?st"
    unfolding all_ok_def by blast
  moreover have "pending_ok g' (th(t := x))"
  proof -
    have "m = l" if "maker g l = Some t" "\<not> on_chain (chain g) l" for l
      using pend that t unfolding pending_ok_def by fastforce
    then show ?thesis using pend unfolding pending_ok_def by (auto simp: g'_def s'(2))
  qed
  ultimately have "uc_rel app good abst n s' (th(t := x)) (abst v', cursor s') ?st"
    unfolding uc_rel_def using L n by (intro conjI exI [of _ g']) (auto simp: g'_def s'(1))
  then show ?thesis using run
    by (intro exI [of _ "[Lin u]"] exI [of _ "(abst v', cursor s')"] exI [of _ ?st]) (simp add: s'(1))
qed

lemma step_sim:
  assumes rel: "uc_rel app good abst n s th a st" and t: "th t = Busy p" and step: "uc_step app s t p = (s', x)"
  shows "\<exists>E a' st'. visible E = [] \<and> lin_run (uc_spec n spec) (a, st) E = Some (a', st') \<and>
    uc_rel app good abst n s' (th(t := x)) a' st'"
proof -
  from rel obtain g where g: "uc_inv app good s g" "all_ok (uc_ok s g) th st" "pending_ok g th"
    "a = (abst (fst (snd (last (chain g)))), cursor s)" and n: "maxn s = n"
    by (auto simp: uc_rel_def)
  have ok: "uc_ok s g t p (st t)" using all_okD [OF g(2), of t] t by simp
  have own: "\<exists>i q. p = App i l q" if "maker g l = Some t" "\<not> on_chain (chain g) l" for l
    using g(3) that t unfolding pending_ok_def by fastforce
  show ?thesis
  proof (cases p)
    case (Reg q)
    let ?a = "abst (fst (snd (last (chain g))))"
    from reg_sim [OF g(1), of t q "st t" s' x spec ?a] ok step
    obtain g' r' where g': "uc_inv app good s' g'" "uc_rely t s g s' g'" "chain g' = chain g"
      "maker g' = maker g" "thread_ok (uc_ok s' g' t) x r'"
      "own_move (uc_spec n spec) a (st t) (?a, cursor s') r'"
      by (auto simp: Reg n g(4))
    have "uc_rel app good abst n s' (th(t := x)) (?a, cursor s') (st(t := r'))"
      using own g'(4) Reg by (intro uc_rel_keep [OF g(1-3) g'(2,3) _ g'(5) _ g'(1) n]) auto
    then show ?thesis using own_move_run [where st = st and t = t, OF g'(6)] by blast
  next
    case (App i m q)
    show ?thesis
    proof (cases "\<exists>b d. q = LCas b d \<and> succ_of (nodes s b) = None")
      case True
      then obtain b d where q: "q = LCas b d" "succ_of (nodes s b) = None" by blast
      from link_sim [OF g(1-3) t [unfolded App q(1)] q(2) n, of s' x] step show ?thesis
        by (simp add: App q(1) g(4) del: app_step.simps)
    next
      case False
      note S = app_silent_sim [OF g(1) ok [unfolded App] _ False, of s' x]
      have A: "app_next s' g i m x" "uc_inv app good s' g" "uc_rely t s g s' g" "cursor s' = cursor s"
        using S step by (simp_all add: App)
      have x: "thread_ok (uc_ok s' g t) x (st t)"
        using app_next_ok [OF A(3) ok [unfolded App] A(1) uc_inv_chain [OF A(2)]] .
      have keep: "\<exists>i q. x = Busy (App i l q)" if "maker g l = Some t" "\<not> on_chain (chain g) l" for l
        using own [OF that] A(1) that(2) by (auto simp: App app_next_def pubd_def)
      have "uc_rel app good abst n s' (th(t := x)) (abst (fst (snd (last (chain g)))), cursor s')
          (st(t := st t))"
        using keep by (intro uc_rel_keep [OF g(1-3) A(3) refl _ x _ A(2) n]) auto
      then show ?thesis using A(4)
        by (intro exI [of _ "[]"] exI [of _ a] exI [of _ st]) (simp add: g(4))
    qed
  qed
qed

lemma beg_rel:
  assumes rel: "uc_rel app good abst n s th a st" and t: "th t = Idle" and can: "uc_can s t oper"
    and beg: "uc_beg s t oper = (s', p)"
  shows "uc_rel app good abst n s' (th(t := Busy p)) a (st(t := Wait oper {}))"
proof -
  from rel obtain g where g: "uc_inv app good s g" "all_ok (uc_ok s g) th st" "pending_ok g th"
    "a = (abst (fst (snd (last (chain g)))), cursor s)" and n: "maxn s = n"
    by (auto simp: uc_rel_def)
  have "on_chain (chain g) l" if "maker g l = Some t" for l
    using g(3) that t unfolding pending_ok_def by fastforce
  from beg_sim [OF g(1) can beg this] obtain g' where g': "uc_inv app good s' g'"
    "uc_rely t s g s' g'" "chain g' = chain g" "cursor s' = cursor s"
    "\<And>l u. maker g' l = Some u \<Longrightarrow> u \<noteq> t \<Longrightarrow> maker g l = Some u"
    "uc_ok s' g' t p (Wait oper {})"
    "\<And>l. maker g' l = Some t \<Longrightarrow> \<not> on_chain (chain g) l \<Longrightarrow> \<exists>i q. p = App i l q"
    by blast
  have "uc_rel app good abst n s' (th(t := Busy p)) (abst (fst (snd (last (chain g)))), cursor s')
      (st(t := Wait oper {}))"
    using g'(5-7) by (intro uc_rel_keep [OF g(1-3) g'(2,3) _ _ _ g'(1) n]) auto
  then show ?thesis by (simp add: g(4) g'(4))
qed

lemma ret_rel:
  assumes rel: "uc_rel app good abst n s th a st" and t: "th t = Return r"
  shows "(st t = Done r \<or> (\<exists>op R. st t = Wait op R \<and> r \<in> R)) \<and>
    uc_rel app good abst n s (th(t := Idle)) a (st(t := Quiet))"
proof -
  from rel obtain g where g: "uc_inv app good s g" "all_ok (uc_ok s g) th st" "pending_ok g th"
    "a = (abst (fst (snd (last (chain g)))), cursor s)" and n: "maxn s = n"
    by (auto simp: uc_rel_def)
  have "on_chain (chain g) l" if "maker g l = Some t" for l
    using g(3) that t unfolding pending_ok_def by fastforce
  then have "uc_rel app good abst n s (th(t := Idle)) a (st(t := Quiet))"
    unfolding g(4) by (intro uc_rel_keep [OF g(1-3) _ _ _ _ _ g(1) n]) auto
  moreover have "thread_ok (uc_ok s g t) (Return r) (st t)"
    using all_okD [OF g(2), of t] t by simp
  ultimately show ?thesis by auto
qed

lemma new_rel:
  assumes "good v0" and "NewUniversal v0 r0 n = Some s"
  shows "uc_rel app good abst n s (\<lambda>_. Idle) (abst v0, 0) (\<lambda>_. Quiet)"
proof -
  have s: "0 < n" "s = the (NewUniversal v0 r0 n)"
    using assms(2) by (auto simp: NewUniversal_def split: if_splits)
  let ?g = "\<lparr>chain = [(0, v0, r0)], maker = (\<lambda>_. None), slot = (\<lambda>_. None)\<rparr>"
  have "uc_inv app good s ?g"
    using s assms(1)
    by (auto simp: NewUniversal_def uc_inv_def chain_inv_def node_ok_def pubd_def known_def on_chain_def)
  moreover have "all_ok (uc_ok s ?g) (\<lambda>_. Idle) (\<lambda>_. Quiet)" "pending_ok ?g (\<lambda>_. Idle)"
    by (simp_all add: all_ok_def pending_ok_def)
  ultimately show ?thesis unfolding uc_rel_def using s
    by (intro conjI exI [of _ ?g]) (auto simp: NewUniversal_def)
qed

theorem universal_sim:
  assumes "good v0" and "NewUniversal v0 r0 n = Some s"
  shows "sim_machine (uc_machine app s) (uc_spec n spec) (abst v0, 0) (uc_rel app good abst n)"
proof
  show "uc_rel app good abst n (sh0 (uc_machine app s)) (\<lambda>_. Idle) (abst v0, 0) (\<lambda>_. Quiet)"
    using new_rel [OF assms] by simp
next
  fix sh th a st and t :: tid
  assume "uc_rel app good abst n sh th a st"
  then obtain g where g: "all_ok (uc_ok sh g) th st" by (auto simp: uc_rel_def)
  show "th t = Idle \<Longrightarrow> st t = Quiet" and "th t \<noteq> Panic"
    using all_okD [OF g, of t] by auto
next
  fix sh th a st t p sh' x
  assume "uc_rel app good abst n sh th a st" "th t = Busy p" "stp (uc_machine app s) sh t p = (sh', x)"
  then show "\<exists>E a' st'. visible E = [] \<and> lin_run (uc_spec n spec) (a, st) E = Some (a', st') \<and>
      uc_rel app good abst n sh' (th(t := x)) a' st'"
    using step_sim by simp
qed (simp_all add: beg_rel ret_rel)

end

end
