(* ===== verification/Adt.thy ===== *)
theory Adt
  imports Prelude
begin

text \<open>
  The abstract data types of \<open>interfaces.go\<close>, as sequential objects: a function from a state
  and a call to the next state and what the call returns. The implementations of both packages
  are related to these objects. The reference deque of the conformance suite
  (\<open>internal/conformtest/deque.go\<close>) is modelled next to the deque contract it stands for.
\<close>

subsection \<open>Stack\<close>

datatype 'a stack_op = Push 'a | Pop

fun stack_spec :: "'a list \<Rightarrow> 'a stack_op \<Rightarrow> 'a list \<times> 'a resp" where
  "stack_spec xs (Push v) = (v # xs, Ack)"
| "stack_spec xs Pop = (case xs of [] \<Rightarrow> ([], Got None) | x # xs' \<Rightarrow> (xs', Got (Some x)))"

subsection \<open>Queue\<close>

datatype 'a queue_op = Enqueue 'a | Dequeue

fun queue_spec :: "'a list \<Rightarrow> 'a queue_op \<Rightarrow> 'a list \<times> 'a resp" where
  "queue_spec xs (Enqueue v) = (xs @ [v], Ack)"
| "queue_spec xs Dequeue = (case xs of [] \<Rightarrow> ([], Got None) | x # xs' \<Rightarrow> (xs', Got (Some x)))"

subsection \<open>Deque\<close>

datatype 'a deque_op = PushFront 'a | PushBack 'a | PopFront | PopBack

fun deque_spec :: "'a list \<Rightarrow> 'a deque_op \<Rightarrow> 'a list \<times> 'a resp" where
  "deque_spec xs (PushFront v) = (v # xs, Ack)"
| "deque_spec xs (PushBack v) = (xs @ [v], Ack)"
| "deque_spec xs PopFront =
     (if xs = [] then (xs, Got None) else (tl xs, Got (Some (hd xs))))"
| "deque_spec xs PopBack =
     (if xs = [] then (xs, Got None) else (butlast xs, Got (Some (last xs))))"

text \<open>
  \<open>refDeque\<close> over a Go slice: \<open>r.v[0]\<close>, \<open>r.v[1:]\<close>, \<open>r.v[len(r.v)-1]\<close> and \<open>r.v[:len(r.v)-1]\<close>
  are guarded by the length tests, so none of them is out of range.
\<close>

fun refDeque :: "'a list \<Rightarrow> 'a deque_op \<Rightarrow> 'a list \<times> 'a resp" where
  "refDeque v (PushFront x) = ([x] @ v, Ack)"
| "refDeque v (PushBack x) = (v @ [x], Ack)"
| "refDeque v PopFront =
     (if length v = 0 then (v, Got None) else (drop 1 v, Got (Some (v ! 0))))"
| "refDeque v PopBack =
     (if length v = 0 then (v, Got None)
      else (take (length v - 1) v, Got (Some (v ! (length v - 1)))))"

lemma refDeque_spec: "refDeque v op = deque_spec v op"
  by (cases op) (auto simp: hd_conv_nth last_conv_nth butlast_conv_take drop_Suc)

subsection \<open>Map\<close>

datatype ('k, 'v) map_op = SetKey 'k 'v | GetKey 'k | DelKey 'k

text \<open>
  A \<open>Less\<close> comparator is documented as \<open>a < b\<close>. What the code relies on is a strict weak
  order: keys neither of which is less than the other are the same key.
\<close>

definition strict_weak :: "('k \<Rightarrow> 'k \<Rightarrow> bool) \<Rightarrow> bool" where
  "strict_weak lt \<longleftrightarrow>
     (\<forall>x. \<not> lt x x) \<and> (\<forall>x y z. lt x y \<longrightarrow> lt y z \<longrightarrow> lt x z) \<and>
     (\<forall>x y z. lt x z \<longrightarrow> lt x y \<or> lt y z)"

definition same_key :: "('k \<Rightarrow> 'k \<Rightarrow> bool) \<Rightarrow> 'k \<Rightarrow> 'k \<Rightarrow> bool" where
  "same_key lt x y \<longleftrightarrow> \<not> lt x y \<and> \<not> lt y x"

fun map_spec :: "('k \<Rightarrow> 'k \<Rightarrow> bool) \<Rightarrow> ('k \<Rightarrow> 'v option) \<Rightarrow> ('k, 'v) map_op \<Rightarrow>
    ('k \<Rightarrow> 'v option) \<times> 'v resp" where
  "map_spec lt m (SetKey k v) = ((\<lambda>x. if same_key lt x k then Some v else m x), Ack)"
| "map_spec lt m (GetKey k) = (m, Got (m k))"
| "map_spec lt m (DelKey k) = ((\<lambda>x. if same_key lt x k then None else m x), Got (m k))"

lemma strict_weakD:
  assumes "strict_weak lt"
  shows strict_weak_irrefl: "\<not> lt x x"
    and strict_weak_trans: "lt x y \<Longrightarrow> lt y z \<Longrightarrow> lt x z"
    and strict_weak_asym: "lt x y \<Longrightarrow> \<not> lt y x"
    and strict_weak_split: "lt x z \<Longrightarrow> lt x y \<or> lt y z"
  using assms unfolding strict_weak_def by blast+

lemma same_key_refl: "strict_weak lt \<Longrightarrow> same_key lt x x"
  by (simp add: same_key_def strict_weak_irrefl)

lemma same_key_sym: "same_key lt x y \<longleftrightarrow> same_key lt y x"
  by (auto simp: same_key_def)

lemma same_key_trans:
  "strict_weak lt \<Longrightarrow> same_key lt x y \<Longrightarrow> same_key lt y z \<Longrightarrow> same_key lt x z"
  unfolding same_key_def strict_weak_def by blast

lemma same_key_less:
  assumes "strict_weak lt" and "same_key lt x y"
  shows "lt x z \<longleftrightarrow> lt y z" and "lt z x \<longleftrightarrow> lt z y"
  using assms unfolding same_key_def strict_weak_def by blast+

lemma strict_weak_int: "strict_weak ((<) :: int \<Rightarrow> int \<Rightarrow> bool)"
  by (auto simp: strict_weak_def)

end
