(* ===== verification/Deque_Tree.thy ===== *)
theory Deque_Tree
  imports Adt "HOL-Library.Monad_Syntax"
begin

text \<open>
  The persistent AVL tree of \<open>wf/deque.go\<close>, the sequential object behind the wait-free deque.
  A Go \<open>*treeNode\<close> is \<open>Nil\<close> or a node with its stored height (a Go \<open>int\<close>, far from overflow: a
  height is bounded by twice the logarithm of the size). Every dereference of a \<open>nil\<close> child is a
  branch that returns \<open>None\<close>, for the run-time panic. Proved: on balanced trees no operation
  panics, each keeps the balance and the stored heights, and each does to the in-order sequence
  what the deque contract says; the height is logarithmic.
\<close>

subsection \<open>Model\<close>

datatype 'a treeNode =
    Nil
  | TNode (node_val: 'a) (node_left: "'a treeNode") (node_right: "'a treeNode") (node_height: int)

fun height :: "'a treeNode \<Rightarrow> int" where
  "height Nil = 0"
| "height (TNode v l r h) = h"

definition mk :: "'a \<Rightarrow> 'a treeNode \<Rightarrow> 'a treeNode \<Rightarrow> 'a treeNode" where
  "mk val left right =
     (let h = height left; h = (if height right > h then height right else h)
      in TNode val left right (h + 1))"

fun rotateRight :: "'a treeNode \<Rightarrow> 'a treeNode option" where
  "rotateRight (TNode v (TNode lv ll lr lh) r h) = Some (mk lv ll (mk v lr r))"
| "rotateRight _ = None"

fun rotateLeft :: "'a treeNode \<Rightarrow> 'a treeNode option" where
  "rotateLeft (TNode v l (TNode rv rl rr rh) h) = Some (mk rv (mk v l rl) rr)"
| "rotateLeft _ = None"

fun rebalance :: "'a treeNode \<Rightarrow> 'a treeNode option" where
  "rebalance Nil = None"
| "rebalance (TNode v l r h) =
     (let bf = height l - height r in
      if bf > 1 then
        (case l of
           Nil \<Rightarrow> None
         | TNode lv ll lr lh \<Rightarrow>
             if height ll \<ge> height lr then rotateRight (TNode v l r h)
             else do { l' \<leftarrow> rotateLeft l; rotateRight (mk v l' r) })
      else if bf < -1 then
        (case r of
           Nil \<Rightarrow> None
         | TNode rv rl rr rh \<Rightarrow>
             if height rr \<ge> height rl then rotateLeft (TNode v l r h)
             else do { r' \<leftarrow> rotateRight r; rotateLeft (mk v l r') })
      else Some (TNode v l r h))"

fun treePushFront :: "'a treeNode \<Rightarrow> 'a \<Rightarrow> 'a treeNode option" where
  "treePushFront Nil x = Some (mk x Nil Nil)"
| "treePushFront (TNode v l r h) x =
     do { l' \<leftarrow> treePushFront l x; rebalance (mk v l' r) }"

fun treePushBack :: "'a treeNode \<Rightarrow> 'a \<Rightarrow> 'a treeNode option" where
  "treePushBack Nil x = Some (mk x Nil Nil)"
| "treePushBack (TNode v l r h) x =
     do { r' \<leftarrow> treePushBack r x; rebalance (mk v l r') }"

text \<open>The pops return the new tree and \<open>(v, ok)\<close>, the latter as an option.\<close>

fun treePopFront :: "'a treeNode \<Rightarrow> ('a treeNode \<times> 'a option) option" where
  "treePopFront Nil = Some (Nil, None)"
| "treePopFront (TNode v l r h) =
     (if l = Nil then Some (r, Some v)
      else do { (l', x) \<leftarrow> treePopFront l; n \<leftarrow> rebalance (mk v l' r); Some (n, x) })"

fun treePopBack :: "'a treeNode \<Rightarrow> ('a treeNode \<times> 'a option) option" where
  "treePopBack Nil = Some (Nil, None)"
| "treePopBack (TNode v l r h) =
     (if r = Nil then Some (l, Some v)
      else do { (r', x) \<leftarrow> treePopBack r; n \<leftarrow> rebalance (mk v l r'); Some (n, x) })"

text \<open>The switch of \<open>publish\<close>: the next version of the deque and the response of one call.\<close>

fun deque_apply :: "'a treeNode \<Rightarrow> 'a deque_op \<Rightarrow> ('a treeNode \<times> 'a resp) option" where
  "deque_apply root (PushFront x) = do { root' \<leftarrow> treePushFront root x; Some (root', Ack) }"
| "deque_apply root (PushBack x) = do { root' \<leftarrow> treePushBack root x; Some (root', Ack) }"
| "deque_apply root PopFront = do { (root', v) \<leftarrow> treePopFront root; Some (root', Got v) }"
| "deque_apply root PopBack = do { (root', v) \<leftarrow> treePopBack root; Some (root', Got v) }"

subsection \<open>Balance and contents\<close>

fun inorder :: "'a treeNode \<Rightarrow> 'a list" where
  "inorder Nil = []"
| "inorder (TNode v l r h) = inorder l @ v # inorder r"

fun avl :: "'a treeNode \<Rightarrow> bool" where
  "avl Nil = True"
| "avl (TNode v l r h) \<longleftrightarrow>
     h = max (height l) (height r) + 1 \<and> \<bar>height l - height r\<bar> \<le> 1 \<and> avl l \<and> avl r"

lemma height_mk [simp]: "height (mk v l r) = max (height l) (height r) + 1"
  by (simp add: mk_def Let_def)

lemma inorder_mk [simp]: "inorder (mk v l r) = inorder l @ v # inorder r"
  by (simp add: mk_def Let_def)

lemma avl_mk [simp]: "avl (mk v l r) \<longleftrightarrow> \<bar>height l - height r\<bar> \<le> 1 \<and> avl l \<and> avl r"
  by (auto simp: mk_def Let_def max_def)

lemma mk_eq: "mk v l r = TNode v l r (max (height l) (height r) + 1)"
  by (simp add: mk_def Let_def max_def)

lemma avl_height_nonneg: "avl t \<Longrightarrow> 0 \<le> height t"
  by (induction t) auto

lemma avl_height_zero: "avl t \<Longrightarrow> height t \<le> 0 \<longleftrightarrow> t = Nil"
  using avl_height_nonneg by (cases t) fastforce+

text \<open>\<open>rebal v l r t\<close>: \<open>t\<close> is a balanced tree for \<open>l\<close>, \<open>v\<close>, \<open>r\<close>, of almost the same height.\<close>

definition rebal :: "'a \<Rightarrow> 'a treeNode \<Rightarrow> 'a treeNode \<Rightarrow> 'a treeNode \<Rightarrow> bool" where
  "rebal v l r t \<longleftrightarrow> avl t \<and> inorder t = inorder l @ v # inorder r \<and>
     height t \<le> max (height l) (height r) + 1 \<and> max (height l) (height r) \<le> height t \<and>
     (\<bar>height l - height r\<bar> \<le> 1 \<longrightarrow> height t = max (height l) (height r) + 1)"

lemma rebalance_left:
  assumes "avl l" "avl r" "height l = height r + 2"
  shows "\<exists>t. rebalance (mk v l r) = Some t \<and> rebal v l r t"
proof -
  have r0: "0 \<le> height r" using assms(2) by (rule avl_height_nonneg)
  obtain lv ll lr lh where l: "l = TNode lv ll lr lh"
    using assms(3) r0 by (cases l) auto
  show ?thesis
  proof (cases "height ll \<ge> height lr")
    case True
    with assms r0 show ?thesis by (auto simp: l mk_eq rebal_def max_def)
  next
    case False
    then obtain w wl wr wh where lr: "lr = TNode w wl wr wh"
      using assms(1) avl_height_nonneg [of ll] by (cases lr) (auto simp: l)
    with assms False r0 show ?thesis by (auto simp: l mk_eq rebal_def max_def)
  qed
qed

lemma rebalance_right:
  assumes "avl l" "avl r" "height r = height l + 2"
  shows "\<exists>t. rebalance (mk v l r) = Some t \<and> rebal v l r t"
proof -
  have l0: "0 \<le> height l" using assms(1) by (rule avl_height_nonneg)
  obtain rv rl rr rh where r: "r = TNode rv rl rr rh"
    using assms(3) l0 by (cases r) auto
  show ?thesis
  proof (cases "height rr \<ge> height rl")
    case True
    with assms l0 show ?thesis by (auto simp: r mk_eq rebal_def max_def)
  next
    case False
    then obtain w wl wr wh where rl: "rl = TNode w wl wr wh"
      using assms(2) avl_height_nonneg [of rr] by (cases rl) (auto simp: r)
    with assms False l0 show ?thesis by (auto simp: r mk_eq rebal_def max_def)
  qed
qed

lemma rebalance_ok:
  assumes "avl l" "avl r" "\<bar>height l - height r\<bar> \<le> 2"
  shows "\<exists>t. rebalance (mk v l r) = Some t \<and> rebal v l r t"
proof -
  consider "height l = height r + 2" | "height r = height l + 2" | "\<bar>height l - height r\<bar> \<le> 1"
    using assms(3) by linarith
  then show ?thesis
  proof cases
    case 1
    with assms(1,2) show ?thesis by (rule rebalance_left)
  next
    case 2
    with assms(1,2) show ?thesis by (rule rebalance_right)
  next
    case 3
    with assms(1,2) show ?thesis by (auto simp: mk_eq rebal_def Let_def max_def)
  qed
qed

text \<open>The height changes an insertion and a removal may cause.\<close>

definition grown :: "'a treeNode \<Rightarrow> 'a treeNode \<Rightarrow> bool" where
  "grown t t' \<longleftrightarrow> avl t' \<and> height t \<le> height t' \<and> height t' \<le> height t + 1"

definition shrunk :: "'a treeNode \<Rightarrow> 'a treeNode \<Rightarrow> bool" where
  "shrunk t t' \<longleftrightarrow> avl t' \<and> height t' \<le> height t \<and> height t \<le> height t' + 1"

lemma rebalance_grown:
  assumes "avl (TNode v l r h)"
  shows "grown l l' \<Longrightarrow>
      \<exists>t. rebalance (mk w l' r) = Some t \<and> grown (TNode v l r h) t \<and> inorder t = inorder l' @ w # inorder r"
    and "grown r r' \<Longrightarrow>
      \<exists>t. rebalance (mk w l r') = Some t \<and> grown (TNode v l r h) t \<and> inorder t = inorder l @ w # inorder r'"
proof -
  assume g: "grown l l'"
  then have "\<bar>height l' - height r\<bar> \<le> 2" "avl l'" "avl r"
    using assms by (auto simp: grown_def)
  from rebalance_ok [OF this(2,3,1), of w] obtain t where
    "rebalance (mk w l' r) = Some t" "rebal w l' r t" by blast
  with g assms show "\<exists>t. rebalance (mk w l' r) = Some t \<and>
      grown (TNode v l r h) t \<and> inorder t = inorder l' @ w # inorder r"
    by (intro exI [of _ t]) (auto simp: grown_def rebal_def max_def abs_le_iff split: if_splits)
next
  assume g: "grown r r'"
  then have "\<bar>height l - height r'\<bar> \<le> 2" "avl l" "avl r'"
    using assms by (auto simp: grown_def)
  from rebalance_ok [OF this(2,3,1), of w] obtain t where
    "rebalance (mk w l r') = Some t" "rebal w l r' t" by blast
  with g assms show "\<exists>t. rebalance (mk w l r') = Some t \<and>
      grown (TNode v l r h) t \<and> inorder t = inorder l @ w # inorder r'"
    by (intro exI [of _ t]) (auto simp: grown_def rebal_def max_def abs_le_iff split: if_splits)
qed

lemma rebalance_shrunk:
  assumes "avl (TNode v l r h)"
  shows "shrunk l l' \<Longrightarrow>
      \<exists>t. rebalance (mk w l' r) = Some t \<and> shrunk (TNode v l r h) t \<and> inorder t = inorder l' @ w # inorder r"
    and "shrunk r r' \<Longrightarrow>
      \<exists>t. rebalance (mk w l r') = Some t \<and> shrunk (TNode v l r h) t \<and> inorder t = inorder l @ w # inorder r'"
proof -
  assume g: "shrunk l l'"
  then have "\<bar>height l' - height r\<bar> \<le> 2" "avl l'" "avl r"
    using assms by (auto simp: shrunk_def)
  from rebalance_ok [OF this(2,3,1), of w] obtain t where
    "rebalance (mk w l' r) = Some t" "rebal w l' r t" by blast
  with g assms show "\<exists>t. rebalance (mk w l' r) = Some t \<and>
      shrunk (TNode v l r h) t \<and> inorder t = inorder l' @ w # inorder r"
    by (intro exI [of _ t]) (auto simp: shrunk_def rebal_def max_def abs_le_iff split: if_splits)
next
  assume g: "shrunk r r'"
  then have "\<bar>height l - height r'\<bar> \<le> 2" "avl l" "avl r'"
    using assms by (auto simp: shrunk_def)
  from rebalance_ok [OF this(2,3,1), of w] obtain t where
    "rebalance (mk w l r') = Some t" "rebal w l r' t" by blast
  with g assms show "\<exists>t. rebalance (mk w l r') = Some t \<and>
      shrunk (TNode v l r h) t \<and> inorder t = inorder l @ w # inorder r'"
    by (intro exI [of _ t]) (auto simp: shrunk_def rebal_def max_def abs_le_iff split: if_splits)
qed

subsection \<open>The operations\<close>

lemma treePushFront_ok:
  "avl t \<Longrightarrow> \<exists>t'. treePushFront t x = Some t' \<and> grown t t' \<and> inorder t' = x # inorder t"
proof (induction t)
  case Nil
  show ?case by (simp add: grown_def)
next
  case (TNode v l r h)
  then obtain l' where "treePushFront l x = Some l'" "grown l l'" "inorder l' = x # inorder l" by auto
  with rebalance_grown(1) [OF TNode.prems, of l' v] show ?case by auto
qed

lemma treePushBack_ok:
  "avl t \<Longrightarrow> \<exists>t'. treePushBack t x = Some t' \<and> grown t t' \<and> inorder t' = inorder t @ [x]"
proof (induction t)
  case Nil
  show ?case by (simp add: grown_def)
next
  case (TNode v l r h)
  then obtain r' where "treePushBack r x = Some r'" "grown r r'" "inorder r' = inorder r @ [x]" by auto
  with rebalance_grown(2) [OF TNode.prems, of r' v] show ?case by auto
qed

lemma inorder_Nil_iff [simp]: "inorder t = [] \<longleftrightarrow> t = Nil"
  by (cases t) auto

lemma treePopFront_ok:
  "avl t \<Longrightarrow> t \<noteq> Nil \<Longrightarrow>
     \<exists>t' x. treePopFront t = Some (t', Some x) \<and> shrunk t t' \<and> inorder t = x # inorder t'"
proof (induction t)
  case (TNode v l r h)
  show ?case
  proof (cases "l = Nil")
    case True
    with TNode.prems show ?thesis using avl_height_nonneg [of r] by (auto simp: shrunk_def)
  next
    case False
    with TNode obtain l' x where "treePopFront l = Some (l', Some x)" "shrunk l l'"
      "inorder l = x # inorder l'" by auto
    with rebalance_shrunk(1) [OF TNode.prems(1), of l' v] False show ?thesis by auto
  qed
qed simp

lemma treePopBack_ok:
  "avl t \<Longrightarrow> t \<noteq> Nil \<Longrightarrow>
     \<exists>t' x. treePopBack t = Some (t', Some x) \<and> shrunk t t' \<and> inorder t = inorder t' @ [x]"
proof (induction t)
  case (TNode v l r h)
  show ?case
  proof (cases "r = Nil")
    case True
    with TNode.prems show ?thesis using avl_height_nonneg [of l] by (auto simp: shrunk_def)
  next
    case False
    with TNode obtain r' x where "treePopBack r = Some (r', Some x)" "shrunk r r'"
      "inorder r = inorder r' @ [x]" by auto
    with rebalance_shrunk(2) [OF TNode.prems(1), of r' v] False show ?thesis by auto
  qed
qed simp

subsection \<open>Height\<close>

fun fib :: "nat \<Rightarrow> nat" where
  "fib 0 = 0"
| "fib (Suc 0) = 1"
| "fib (Suc (Suc n)) = fib n + fib (Suc n)"

lemma fib_Suc_le: "fib n \<le> fib (Suc n)"
  by (induction n rule: fib.induct) auto

lemma fib_mono: "m \<le> n \<Longrightarrow> fib m \<le> fib n"
  by (rule lift_Suc_mono_le) (rule fib_Suc_le)

lemma avl_fib: "avl t \<Longrightarrow> fib (nat (height t) + 2) \<le> length (inorder t) + 1"
proof (induction t)
  case (TNode v l r h)
  let ?l = "nat (height l)" and ?r = "nat (height r)"
  have h: "nat h = max ?l ?r + 1" "?l \<le> ?r + 1" "?r \<le> ?l + 1"
    using TNode.prems avl_height_nonneg [of l] avl_height_nonneg [of r] by auto
  have IH: "fib (?l + 2) \<le> length (inorder l) + 1" "fib (?r + 2) \<le> length (inorder r) + 1"
    using TNode by auto
  have "fib (max ?l ?r + 3) \<le> fib (?l + 2) + fib (?r + 2)"
  proof (cases "?l \<le> ?r")
    case True
    have "fib (?r + 3) = fib (?r + 1) + fib (?r + 2)" by (simp add: numeral_eq_Suc)
    with True fib_mono [of "?r + 1" "?l + 2"] h show ?thesis by simp
  next
    case False
    have "fib (?l + 3) = fib (?l + 1) + fib (?l + 2)" by (simp add: numeral_eq_Suc)
    with False fib_mono [of "?l + 1" "?r + 2"] h show ?thesis by simp
  qed
  with IH have "fib (max ?l ?r + 3) \<le> length (inorder l) + length (inorder r) + 2" by linarith
  then show ?case by (simp add: h(1) numeral_eq_Suc)
qed simp

lemma fib_pow: "2 ^ (n div 2) \<le> fib (n + 2)"
proof (induction n rule: fib.induct)
  case (3 n)
  have "2 * fib (n + 2) \<le> fib (n + 4)"
    using fib_Suc_le [of "n + 2"] by (simp add: numeral_eq_Suc)
  with 3 show ?case by simp
qed auto

lemma deque_apply_spec:
  assumes "avl t"
  shows "\<exists>t' r. deque_apply t op = Some (t', r) \<and> avl t' \<and> deque_spec (inorder t) op = (inorder t', r)"
proof (cases op)
  case (PushFront x)
  with treePushFront_ok [OF assms, of x] show ?thesis by (auto simp: grown_def)
next
  case (PushBack x)
  with treePushBack_ok [OF assms, of x] show ?thesis by (auto simp: grown_def)
next
  case PopFront
  with assms treePopFront_ok [OF assms] show ?thesis
    by (cases "t = Nil") (auto simp: shrunk_def)
next
  case PopBack
  with assms treePopBack_ok [OF assms] show ?thesis
    by (cases "t = Nil") (auto simp: shrunk_def)
qed

subsection \<open>Properties\<close>

text \<open>
  C24: On a balanced tree no deque operation dereferences \<open>nil\<close>, the new version is balanced
  with correct stored heights, and contents and response are those of the deque contract.
\<close>

theorem deque_tree_refines:
  assumes "avl t"
  shows "\<exists>t' r. deque_apply t op = Some (t', r) \<and> avl t' \<and> deque_spec (inorder t) op = (inorder t', r)"
  using assms by (rule deque_apply_spec)

theorem deque_tree_refines_witness:
  "\<exists>t' r. deque_apply (mk 2 (mk (1::int) Nil Nil) Nil) PopBack = Some (t', r) \<and> avl t' \<and>
     deque_spec (inorder (mk 2 (mk 1 Nil Nil) Nil)) PopBack = (inorder t', r)"
  by (rule deque_tree_refines) simp

text \<open>
  The height of a balanced tree is logarithmic in the number of elements, so one operation
  on the persistent tree costs \<open>O(log n)\<close>.
\<close>

theorem deque_tree_height:
  assumes "avl t"
  shows "2 ^ (nat (height t) div 2) \<le> length (inorder t) + 1"
  using fib_pow [of "nat (height t)"] avl_fib [OF assms] by linarith

theorem deque_tree_height_witness:
  "2 ^ (nat (height (mk 2 (mk (1::int) Nil Nil) Nil)) div 2) \<le>
     length (inorder (mk 2 (mk (1::int) Nil Nil) Nil)) + 1"
  by (rule deque_tree_height) simp

end
