(* ===== verification/Map_Tree.thy ===== *)
theory Map_Tree
  imports Deque_Tree
begin

text \<open>
  The persistent, key-ordered AVL tree of \<open>wf/map.go\<close>, the sequential object behind the
  wait-free map. A \<open>mapTreeNode\<close> has the shape of the deque's tree with a key and a value in
  each node. Proved for every comparator that is a strict weak order: no operation panics, each
  keeps balance and key order, and each does to the finite map the tree stands for what the map
  contract says.
\<close>

subsection \<open>Model\<close>

type_synonym ('k, 'v) mapTreeNode = "('k \<times> 'v) treeNode"

fun mapHeight :: "('k, 'v) mapTreeNode \<Rightarrow> int" where
  "mapHeight Nil = 0"
| "mapHeight (TNode kv l r h) = h"

definition mkMapNode :: "'k \<Rightarrow> 'v \<Rightarrow> ('k, 'v) mapTreeNode \<Rightarrow> ('k, 'v) mapTreeNode \<Rightarrow>
    ('k, 'v) mapTreeNode" where
  "mkMapNode key val left right =
     (let h = mapHeight left; h = (if mapHeight right > h then mapHeight right else h)
      in TNode (key, val) left right (h + 1))"

fun rotateMapRight :: "('k, 'v) mapTreeNode \<Rightarrow> ('k, 'v) mapTreeNode option" where
  "rotateMapRight (TNode (k, v) (TNode (lk, lv) ll lr lh) r h) =
     Some (mkMapNode lk lv ll (mkMapNode k v lr r))"
| "rotateMapRight _ = None"

fun rotateMapLeft :: "('k, 'v) mapTreeNode \<Rightarrow> ('k, 'v) mapTreeNode option" where
  "rotateMapLeft (TNode (k, v) l (TNode (rk, rv) rl rr rh) h) =
     Some (mkMapNode rk rv (mkMapNode k v l rl) rr)"
| "rotateMapLeft _ = None"

fun rebalanceMap :: "('k, 'v) mapTreeNode \<Rightarrow> ('k, 'v) mapTreeNode option" where
  "rebalanceMap Nil = None"
| "rebalanceMap (TNode (k, v) l r h) =
     (let bf = mapHeight l - mapHeight r in
      if bf > 1 then
        (case l of
           Nil \<Rightarrow> None
         | TNode lkv ll lr lh \<Rightarrow>
             if mapHeight ll \<ge> mapHeight lr then rotateMapRight (TNode (k, v) l r h)
             else do { l' \<leftarrow> rotateMapLeft l; rotateMapRight (mkMapNode k v l' r) })
      else if bf < -1 then
        (case r of
           Nil \<Rightarrow> None
         | TNode rkv rl rr rh \<Rightarrow>
             if mapHeight rr \<ge> mapHeight rl then rotateMapLeft (TNode (k, v) l r h)
             else do { r' \<leftarrow> rotateMapRight r; rotateMapLeft (mkMapNode k v l r') })
      else Some (TNode (k, v) l r h))"

fun mapInsert :: "('k, 'v) mapTreeNode \<Rightarrow> 'k \<Rightarrow> 'v \<Rightarrow> ('k \<Rightarrow> 'k \<Rightarrow> bool) \<Rightarrow>
    ('k, 'v) mapTreeNode option" where
  "mapInsert Nil key val lt = Some (mkMapNode key val Nil Nil)"
| "mapInsert (TNode (k, v) l r h) key val lt =
     (if lt key k then do { l' \<leftarrow> mapInsert l key val lt; rebalanceMap (mkMapNode k v l' r) }
      else if lt k key then do { r' \<leftarrow> mapInsert r key val lt; rebalanceMap (mkMapNode k v l r') }
      else Some (mkMapNode k val l r))"

fun mapLookup :: "('k, 'v) mapTreeNode \<Rightarrow> 'k \<Rightarrow> ('k \<Rightarrow> 'k \<Rightarrow> bool) \<Rightarrow> 'v option" where
  "mapLookup Nil key lt = None"
| "mapLookup (TNode (k, v) l r h) key lt =
     (if lt key k then mapLookup l key lt
      else if lt k key then mapLookup r key lt
      else Some v)"

fun mapMin :: "('k, 'v) mapTreeNode \<Rightarrow> ('k \<times> 'v) option" where
  "mapMin Nil = None"
| "mapMin (TNode (k, v) l r h) = (if l \<noteq> Nil then mapMin l else Some (k, v))"

fun mapDelete :: "('k, 'v) mapTreeNode \<Rightarrow> 'k \<Rightarrow> ('k \<Rightarrow> 'k \<Rightarrow> bool) \<Rightarrow>
    (('k, 'v) mapTreeNode \<times> 'v option) option" where
  "mapDelete Nil key lt = Some (Nil, None)"
| "mapDelete (TNode (k, v) l r h) key lt =
     (if lt key k then
        do { (l', old) \<leftarrow> mapDelete l key lt; n \<leftarrow> rebalanceMap (mkMapNode k v l' r); Some (n, old) }
      else if lt k key then
        do { (r', old) \<leftarrow> mapDelete r key lt; n \<leftarrow> rebalanceMap (mkMapNode k v l r'); Some (n, old) }
      else if l = Nil then Some (r, Some v)
      else if r = Nil then Some (l, Some v)
      else do { (sk, sv) \<leftarrow> mapMin r; (r', _) \<leftarrow> mapDelete r sk lt;
                n \<leftarrow> rebalanceMap (mkMapNode sk sv l r'); Some (n, Some v) })"

text \<open>The switch of \<open>publish\<close>.\<close>

fun map_apply :: "('k \<Rightarrow> 'k \<Rightarrow> bool) \<Rightarrow> ('k, 'v) mapTreeNode \<Rightarrow> ('k, 'v) map_op \<Rightarrow>
    (('k, 'v) mapTreeNode \<times> 'v resp) option" where
  "map_apply lt root (SetKey k v) = do { root' \<leftarrow> mapInsert root k v lt; Some (root', Ack) }"
| "map_apply lt root (GetKey k) = Some (root, Got (mapLookup root k lt))"
| "map_apply lt root (DelKey k) = do { (root', v) \<leftarrow> mapDelete root k lt; Some (root', Got v) }"

subsection \<open>The two trees share their balancing code\<close>

lemma mapHeight_eq [simp]: "mapHeight t = height t"
  by (cases t) auto

lemma mkMapNode_eq [simp]: "mkMapNode k v l r = mk (k, v) l r"
  by (simp add: mkMapNode_def mk_def Let_def)

lemma rotateMapRight_eq [simp]: "rotateMapRight t = rotateRight t"
  by (cases t rule: rotateMapRight.cases) auto

lemma rotateMapLeft_eq [simp]: "rotateMapLeft t = rotateLeft t"
  by (cases t rule: rotateMapLeft.cases) auto

lemma rebalanceMap_eq [simp]: "rebalanceMap t = rebalance t"
  by (cases t rule: rebalanceMap.cases) (simp_all add: Let_def split: treeNode.split)

subsection \<open>The map a sequence of entries stands for\<close>

fun assoc :: "('k \<Rightarrow> 'k \<Rightarrow> bool) \<Rightarrow> ('k \<times> 'v) list \<Rightarrow> 'k \<Rightarrow> 'v option" where
  "assoc lt [] x = None"
| "assoc lt (kv # kvs) x = (if same_key lt x (fst kv) then Some (snd kv) else assoc lt kvs x)"

definition key_sorted :: "('k \<Rightarrow> 'k \<Rightarrow> bool) \<Rightarrow> ('k \<times> 'v) list \<Rightarrow> bool" where
  "key_sorted lt = sorted_wrt (\<lambda>a b. lt (fst a) (fst b))"

lemma key_sorted_simps [simp]:
  "key_sorted lt []"
  "key_sorted lt (a # xs) \<longleftrightarrow> (\<forall>b \<in> set xs. lt (fst a) (fst b)) \<and> key_sorted lt xs"
  "key_sorted lt (xs @ ys) \<longleftrightarrow>
     key_sorted lt xs \<and> key_sorted lt ys \<and> (\<forall>a \<in> set xs. \<forall>b \<in> set ys. lt (fst a) (fst b))"
  by (auto simp: key_sorted_def sorted_wrt_append)

lemma assoc_append:
  "assoc lt (xs @ ys) x = (case assoc lt xs x of None \<Rightarrow> assoc lt ys x | Some v \<Rightarrow> Some v)"
  by (induction xs) auto

lemma assoc_None: "(\<And>kv. kv \<in> set xs \<Longrightarrow> \<not> same_key lt x (fst kv)) \<Longrightarrow> assoc lt xs x = None"
  by (induction xs) auto

lemma assoc_filter:
  assumes "strict_weak lt"
  shows "assoc lt (filter (\<lambda>kv. \<not> same_key lt k (fst kv)) xs) x =
    (if same_key lt x k then None else assoc lt xs x)"
proof (induction xs)
  case (Cons a xs)
  have "same_key lt k (fst a) \<Longrightarrow> same_key lt x (fst a) \<longleftrightarrow> same_key lt x k"
    using same_key_trans [OF assms] same_key_sym by metis
  moreover have "same_key lt x k \<Longrightarrow> same_key lt x (fst a) \<Longrightarrow> same_key lt k (fst a)"
    using same_key_trans [OF assms] same_key_sym by metis
  ultimately show ?case using Cons by auto
qed simp

text \<open>A key below (above) the key of a node is found to its left (right) only.\<close>

lemma assoc_left:
  assumes "strict_weak lt" and "key_sorted lt (ls @ n # rs)" and "lt x (fst n)"
  shows "assoc lt (ls @ n # rs) x = assoc lt ls x"
proof -
  have "assoc lt rs x = None" "\<not> same_key lt x (fst n)"
    using assms strict_weak_trans [OF assms(1)]
    by (auto intro!: assoc_None simp: same_key_def)
  then show ?thesis by (simp add: assoc_append split: option.split)
qed

lemma assoc_right:
  assumes "strict_weak lt" and "key_sorted lt (ls @ n # rs)" and "lt (fst n) x"
  shows "assoc lt (ls @ n # rs) x = assoc lt rs x"
proof -
  have "assoc lt ls x = None" "\<not> same_key lt x (fst n)"
    using assms strict_weak_trans [OF assms(1)]
    by (auto intro!: assoc_None simp: same_key_def)
  then show ?thesis by (simp add: assoc_append)
qed

lemma assoc_here:
  assumes "strict_weak lt" and "key_sorted lt (ls @ n # rs)" and "same_key lt x (fst n)"
  shows "assoc lt (ls @ n # rs) x = Some (snd n)"
proof -
  have "assoc lt ls x = None"
    using assms(2) same_key_less(2) [OF assms(1,3)]
    by (intro assoc_None) (auto simp: same_key_def)
  then show ?thesis using assms(3) by (simp add: assoc_append)
qed

subsection \<open>Lookup\<close>

lemma mapLookup_assoc:
  assumes "strict_weak lt"
  shows "key_sorted lt (inorder t) \<Longrightarrow> mapLookup t x lt = assoc lt (inorder t) x"
proof (induction t)
  case (TNode n l r h)
  obtain k v where n: "n = (k, v)" by fastforce
  from TNode.prems have s: "key_sorted lt (inorder l @ n # inorder r)" by simp
  consider "lt x k" | "\<not> lt x k" "lt k x" | "same_key lt x k" by (auto simp: same_key_def)
  then show ?case
  proof cases
    case 1
    with assoc_left [OF assms s, of x] TNode show ?thesis by (simp add: n)
  next
    case 2
    with assoc_right [OF assms s, of x] TNode show ?thesis by (simp add: n)
  next
    case 3
    with assoc_here [OF assms s, of x] show ?thesis by (auto simp: n same_key_def)
  qed
qed simp

subsection \<open>Insertion\<close>

text \<open>What an insertion makes of the entries of a subtree.\<close>

definition inserted :: "('k \<Rightarrow> 'k \<Rightarrow> bool) \<Rightarrow> 'k \<Rightarrow> 'v \<Rightarrow> ('k \<times> 'v) list \<Rightarrow> ('k \<times> 'v) list \<Rightarrow> bool"
where
  "inserted lt k v xs ys \<longleftrightarrow> key_sorted lt ys \<and> fst ` set ys \<subseteq> insert k (fst ` set xs) \<and>
     (\<forall>x. assoc lt ys x = (if same_key lt x k then Some v else assoc lt xs x))"

lemma inserted_left:
  assumes "strict_weak lt" "key_sorted lt (ls @ n # rs)" "lt k (fst n)" "inserted lt k v ls ls'"
  shows "inserted lt k v (ls @ n # rs) (ls' @ n # rs)"
proof -
  have lo: "lt (fst a) (fst n)" if "a \<in> set ls'" for a
    using that assms(2,3,4) by (force simp: inserted_def)
  have "key_sorted lt (ls' @ n # rs)"
    using assms(2,4) lo strict_weak_trans [OF assms(1) lo] by (auto simp: inserted_def)
  moreover have "assoc lt (ls' @ n # rs) x =
      (if same_key lt x k then Some v else assoc lt (ls @ n # rs) x)" for x
    using assms(4) by (simp add: inserted_def assoc_append)
  ultimately show ?thesis using assms(4) by (auto simp: inserted_def)
qed

lemma inserted_right:
  assumes "strict_weak lt" "key_sorted lt (ls @ n # rs)" "lt (fst n) k" "inserted lt k v rs rs'"
  shows "inserted lt k v (ls @ n # rs) (ls @ n # rs')"
proof -
  have hi: "lt (fst n) (fst a)" if "a \<in> set rs'" for a
    using that assms(2,3,4) by (force simp: inserted_def)
  have s: "key_sorted lt (ls @ n # rs')"
    using assms(2,4) hi strict_weak_trans [OF assms(1) _ hi] by (auto simp: inserted_def)
  moreover have "assoc lt (ls @ n # rs') x =
      (if same_key lt x k then Some v else assoc lt (ls @ n # rs) x)" for x
  proof (cases "same_key lt x k")
    case True
    then have "lt (fst n) x" using same_key_less [OF assms(1) True] assms(3) by simp
    with assoc_right [OF assms(1) s] True assms(4) show ?thesis by (simp add: inserted_def)
  next
    case False
    with assms(4) show ?thesis by (auto simp: inserted_def assoc_append split: option.split)
  qed
  ultimately show ?thesis using assms(4) by (auto simp: inserted_def)
qed

lemma inserted_here:
  assumes "strict_weak lt" "key_sorted lt (ls @ (k', w) # rs)" "same_key lt k k'"
  shows "inserted lt k v (ls @ (k', w) # rs) (ls @ (k', v) # rs)"
proof -
  have s: "key_sorted lt (ls @ (k', v) # rs)" using assms(2) by simp
  moreover have "assoc lt (ls @ (k', v) # rs) x =
      (if same_key lt x k then Some v else assoc lt (ls @ (k', w) # rs) x)" for x
  proof (cases "same_key lt x k")
    case True
    with same_key_trans [OF assms(1) True assms(3)] assoc_here [OF assms(1) s, of x]
    show ?thesis by simp
  next
    case False
    then have "\<not> same_key lt x k'"
      using same_key_trans [OF assms(1), of x k' k] assms(3) by (auto simp: same_key_sym)
    with False show ?thesis by (auto simp: assoc_append split: option.split)
  qed
  ultimately show ?thesis by (auto simp: inserted_def)
qed

lemma mapInsert_ok:
  assumes "strict_weak lt"
  shows "avl t \<Longrightarrow> key_sorted lt (inorder t) \<Longrightarrow> \<exists>t'. mapInsert t k v lt = Some t' \<and> grown t t' \<and>
    inserted lt k v (inorder t) (inorder t')"
proof (induction t)
  case Nil
  show ?case using same_key_sym by (auto simp: grown_def inserted_def)
next
  case (TNode n l r h)
  obtain nk nv where n: "n = (nk, nv)" by fastforce
  from TNode.prems have s: "key_sorted lt (inorder l @ n # inorder r)" by simp
  consider "lt k nk" | "\<not> lt k nk" "lt nk k" | "same_key lt k nk" by (auto simp: same_key_def)
  then show ?case
  proof cases
    case 1
    with TNode obtain l' where l': "mapInsert l k v lt = Some l'" "grown l l'"
      "inserted lt k v (inorder l) (inorder l')" by auto
    from rebalance_grown(1) [OF TNode.prems(1) l'(2), of n] inserted_left [OF assms s _ l'(3)]
    show ?thesis using 1 l'(1) by (auto simp: n)
  next
    case 2
    with TNode obtain r' where r': "mapInsert r k v lt = Some r'" "grown r r'"
      "inserted lt k v (inorder r) (inorder r')" by auto
    from rebalance_grown(2) [OF TNode.prems(1) r'(2), of n] inserted_right [OF assms s _ r'(3)]
    show ?thesis using 2 r'(1) by (auto simp: n)
  next
    case 3
    with inserted_here [OF assms s [unfolded n] 3] TNode.prems(1) show ?thesis
      by (auto simp: n grown_def same_key_def)
  qed
qed

subsection \<open>Deletion\<close>

definition drop_key :: "('k \<Rightarrow> 'k \<Rightarrow> bool) \<Rightarrow> 'k \<Rightarrow> ('k \<times> 'v) list \<Rightarrow> ('k \<times> 'v) list" where
  "drop_key lt k xs = filter (\<lambda>kv. \<not> same_key lt k (fst kv)) xs"

lemma drop_key_simps [simp]:
  "drop_key lt k [] = []"
  "drop_key lt k (a # xs) = (if same_key lt k (fst a) then drop_key lt k xs else a # drop_key lt k xs)"
  "drop_key lt k (xs @ ys) = drop_key lt k xs @ drop_key lt k ys"
  by (simp_all add: drop_key_def)

lemma drop_key_above:
  assumes "strict_weak lt" and "same_key lt k k' \<or> lt k k'" and "\<forall>b \<in> set xs. lt k' (fst b)"
  shows "drop_key lt k xs = xs"
proof -
  have "\<not> same_key lt k (fst b)" if "b \<in> set xs" for b
    using assms(2,3) that same_key_less(1) [OF assms(1), of k k' "fst b"]
      strict_weak_trans [OF assms(1), of k k' "fst b"] by (auto simp: same_key_def)
  then show ?thesis unfolding drop_key_def by (simp add: filter_id_conv)
qed

lemma drop_key_below:
  assumes "strict_weak lt" and "same_key lt k k' \<or> lt k' k" and "\<forall>b \<in> set xs. lt (fst b) k'"
  shows "drop_key lt k xs = xs"
proof -
  have "\<not> same_key lt k (fst b)" if "b \<in> set xs" for b
    using assms(2,3) that same_key_less(2) [OF assms(1), of k k' "fst b"]
      strict_weak_trans [OF assms(1), of "fst b" k' k] by (auto simp: same_key_def)
  then show ?thesis unfolding drop_key_def by (simp add: filter_id_conv)
qed

lemma mapMin_ok: "t \<noteq> Nil \<Longrightarrow> \<exists>rest. inorder t = the (mapMin t) # rest \<and> mapMin t \<noteq> None"
proof (induction t)
  case (TNode n l r h)
  obtain k v where n: "n = (k, v)" by fastforce
  from TNode show ?case by (cases "l = Nil") (auto simp: n)
qed simp

lemma key_sorted_drop: "key_sorted lt xs \<Longrightarrow> key_sorted lt (drop_key lt k xs)"
  by (induction xs) (auto simp: drop_key_def)

lemma mapDelete_ok:
  assumes sw: "strict_weak lt"
  shows "avl t \<Longrightarrow> key_sorted lt (inorder t) \<Longrightarrow>
    \<exists>t'. mapDelete t k lt = Some (t', assoc lt (inorder t) k) \<and> shrunk t t' \<and>
      inorder t' = drop_key lt k (inorder t)"
proof (induction t arbitrary: k)
  case Nil
  show ?case by (simp add: shrunk_def)
next
  case (TNode n l r h)
  obtain nk nv where n: "n = (nk, nv)" by fastforce
  from TNode.prems have s: "key_sorted lt (inorder l @ n # inorder r)"
    and bal: "avl l" "avl r" "key_sorted lt (inorder l)" "key_sorted lt (inorder r)" by simp_all
  from s have lo: "\<forall>b \<in> set (inorder l). lt (fst b) nk" and hi: "\<forall>b \<in> set (inorder r). lt nk (fst b)"
    by (auto simp: n)
  consider "lt k nk" | "\<not> lt k nk" "lt nk k" | "same_key lt k nk" by (auto simp: same_key_def)
  then show ?case
  proof cases
    case 1
    then have nr: "drop_key lt k (n # inorder r) = n # inorder r"
      using drop_key_above [OF sw _ hi, of k] by (simp add: n same_key_def)
    from TNode.IH(1) [OF bal(1,3), of k] obtain l' where
      l': "mapDelete l k lt = Some (l', assoc lt (inorder l) k)" "shrunk l l'"
      "inorder l' = drop_key lt k (inorder l)" by blast
    from rebalance_shrunk(1) [OF TNode.prems(1) l'(2), of n] nr l'(1,3) 1
      assoc_left [OF sw s, of k] show ?thesis by (auto simp: n)
  next
    case 2
    then have nl: "drop_key lt k (inorder l) = inorder l" "\<not> same_key lt k nk"
      using drop_key_below [OF sw _ lo, of k] by (simp_all add: same_key_def)
    from TNode.IH(2) [OF bal(2,4), of k] obtain r' where
      r': "mapDelete r k lt = Some (r', assoc lt (inorder r) k)" "shrunk r r'"
      "inorder r' = drop_key lt k (inorder r)" by blast
    from rebalance_shrunk(2) [OF TNode.prems(1) r'(2), of n] nl r'(1,3) 2
      assoc_right [OF sw s, of k] show ?thesis by (auto simp: n)
  next
    case 3
    then have ends: "drop_key lt k (inorder l) = inorder l" "drop_key lt k (inorder r) = inorder r"
      using drop_key_below [OF sw _ lo, of k] drop_key_above [OF sw _ hi, of k] by simp_all
    have found: "assoc lt (inorder l @ n # inorder r) k = Some nv"
      using assoc_here [OF sw s, of k] 3 by (simp add: n)
    have nk: "\<not> lt k nk" "\<not> lt nk k" using 3 by (auto simp: same_key_def)
    show ?thesis
    proof (cases "l = Nil \<or> r = Nil")
      case True
      then show ?thesis using TNode.prems(1) avl_height_nonneg [OF bal(1)]
          avl_height_nonneg [OF bal(2)] ends found nk 3
        by (auto simp: n shrunk_def)
    next
      case False
      obtain sk sv rest where m: "mapMin r = Some (sk, sv)" "inorder r = (sk, sv) # rest"
        using mapMin_ok [of r] False by (cases "mapMin r") auto
      then have "drop_key lt sk (inorder r) = rest"
        using drop_key_above [OF sw, of sk sk rest] bal(4) by (simp add: same_key_refl [OF sw])
      with TNode.IH(2) [OF bal(2,4), of sk] obtain r' where
        r': "mapDelete r sk lt = Some (r', assoc lt (inorder r) sk)" "shrunk r r'" "inorder r' = rest"
        by auto
      from rebalance_shrunk(2) [OF TNode.prems(1) r'(2), of "(sk, sv)"] r'(1,3) ends found nk 3 m False
      show ?thesis by (auto simp: n)
    qed
  qed
qed

subsection \<open>Refinement of the map contract\<close>

definition map_tree_inv :: "('k \<Rightarrow> 'k \<Rightarrow> bool) \<Rightarrow> ('k, 'v) mapTreeNode \<Rightarrow> bool" where
  "map_tree_inv lt t \<longleftrightarrow> avl t \<and> key_sorted lt (inorder t)"

lemma map_apply_spec:
  assumes "strict_weak lt" and "map_tree_inv lt t"
  shows "\<exists>t' r. map_apply lt t op = Some (t', r) \<and> map_tree_inv lt t' \<and>
    map_spec lt (assoc lt (inorder t)) op = (assoc lt (inorder t'), r)"
proof (cases op)
  case (SetKey k v)
  from mapInsert_ok [OF assms(1), of t k v] assms(2) obtain t' where
    t': "mapInsert t k v lt = Some t'" "grown t t'" "inserted lt k v (inorder t) (inorder t')"
    by (auto simp: map_tree_inv_def)
  then show ?thesis
    by (auto simp: SetKey map_tree_inv_def grown_def inserted_def fun_eq_iff)
next
  case (GetKey k)
  with assms mapLookup_assoc [OF assms(1), of t k] show ?thesis by (simp add: map_tree_inv_def)
next
  case (DelKey k)
  from mapDelete_ok [OF assms(1), of t k] assms(2) obtain t' where
    t': "mapDelete t k lt = Some (t', assoc lt (inorder t) k)" "shrunk t t'"
    "inorder t' = drop_key lt k (inorder t)"
    by (auto simp: map_tree_inv_def)
  then show ?thesis using assms key_sorted_drop [of lt "inorder t" k]
    by (auto simp: DelKey map_tree_inv_def shrunk_def fun_eq_iff drop_key_def
        assoc_filter [OF assms(1)])
qed

subsection \<open>Properties\<close>

text \<open>
  C23: Under a comparator that is a strict weak order, every operation on a balanced, ordered tree
  succeeds without dereferencing \<open>nil\<close>, keeps balance and order, and updates and answers as the
  map contract says, for the finite map of the tree's entries.
\<close>

theorem map_tree_refines:
  assumes "strict_weak lt" and "map_tree_inv lt t"
  shows "\<exists>t' r. map_apply lt t op = Some (t', r) \<and> map_tree_inv lt t' \<and>
    map_spec lt (assoc lt (inorder t)) op = (assoc lt (inorder t'), r)"
  using assms by (rule map_apply_spec)

theorem map_tree_refines_witness:
  "\<exists>t' r. map_apply ((<) :: int \<Rightarrow> int \<Rightarrow> bool) (mk (2, ''b'') (mk (1, ''a'') Nil Nil) Nil) (DelKey 2) =
     Some (t', r) \<and> map_tree_inv (<) t' \<and>
     map_spec (<) (assoc (<) (inorder (mk (2, ''b'') (mk (1, ''a'') Nil Nil) Nil))) (DelKey 2) =
       (assoc (<) (inorder t'), r)"
  by (rule map_tree_refines) (simp_all add: strict_weak_int map_tree_inv_def)

end
