(* ===== verification/Wf_Objects.thy ===== *)
theory Wf_Objects
  imports Universal_Safety Map_Tree
begin

text \<open>
  \<open>wf/stack.go\<close>, \<open>wf/deque.go\<close> and \<open>wf/map.go\<close>: the universal construction around the persistent
  stack, the AVL deque and the AVL map. Each object satisfies the contract \<open>seq_object\<close>, so each
  of the three is linearizable to its abstract data type and never panics by a \<open>nil\<close>
  dereference or an index out of range.
\<close>

subsection \<open>The persistent stack\<close>

text \<open>A Go \<open>*stackCell\<close>: \<open>nil\<close>, or an immutable cell.\<close>

datatype 'a stackCell = NilCell | StackCell 'a "'a stackCell"

fun stack_apply :: "'a stackCell \<Rightarrow> 'a stack_op \<Rightarrow> ('a stackCell \<times> 'a resp) option" where
  "stack_apply tp (Push v) = Some (StackCell v tp, Ack)"
| "stack_apply tp Pop =
     (case tp of
        NilCell \<Rightarrow> Some (NilCell, Got None)
      | StackCell v nx \<Rightarrow> Some (nx, Got (Some v)))"

fun cell_list :: "'a stackCell \<Rightarrow> 'a list" where
  "cell_list NilCell = []"
| "cell_list (StackCell v nx) = v # cell_list nx"

lemma stack_apply_spec:
  "\<exists>c' r. stack_apply c op = Some (c', r) \<and> stack_spec (cell_list c) op = (cell_list c', r)"
  by (cases op; cases c) auto

subsection \<open>The three constructors and machines\<close>

text \<open>The sentinel's response is the zero value of the result struct.\<close>

definition NewWfStack :: "nat \<Rightarrow> ('a stack_op, 'a stackCell, 'a resp) universal option" where
  "NewWfStack maxHandles = NewUniversal NilCell (Got None) maxHandles"

definition NewDeque :: "nat \<Rightarrow> ('a deque_op, 'a treeNode, 'a resp) universal option" where
  "NewDeque maxHandles = NewUniversal Nil (Got None) maxHandles"

definition NewMap :: "nat \<Rightarrow> (('k, 'v) map_op, ('k, 'v) mapTreeNode, 'v resp) universal option" where
  "NewMap maxHandles = NewUniversal Nil (Got None) maxHandles"

text \<open>
  The participants' code: \<open>Handle\<close>, the methods of the handle, and the functions they call, which
  are the same text in the three files up to the names of the types and the switch of \<open>publish\<close>.
\<close>

definition wf_stack_step where
  "wf_stack_step = uc_step stack_apply"

definition wf_deque_step where
  "wf_deque_step = uc_step deque_apply"

definition wf_map_step where
  "wf_map_step lt = uc_step (map_apply lt)"

definition wf_stack_machine where
  "wf_stack_machine s = \<lparr>sh0 = s, can = uc_can, beg = uc_beg, stp = wf_stack_step\<rparr>"

definition wf_deque_machine where
  "wf_deque_machine s = \<lparr>sh0 = s, can = uc_can, beg = uc_beg, stp = wf_deque_step\<rparr>"

definition wf_map_machine where
  "wf_map_machine lt s = \<lparr>sh0 = s, can = uc_can, beg = uc_beg, stp = wf_map_step lt\<rparr>"

lemma wf_machines:
  "wf_stack_machine s = uc_machine stack_apply s"
  "wf_deque_machine d = uc_machine deque_apply d"
  "wf_map_machine lt m = uc_machine (map_apply lt) m"
  by (simp_all add: wf_stack_machine_def wf_deque_machine_def wf_map_machine_def uc_machine_def
      wf_stack_step_def wf_deque_step_def wf_map_step_def)

subsection \<open>The contracts\<close>

interpretation wf_stack: seq_object stack_apply "\<lambda>_. True" cell_list stack_spec
  by unfold_locales (use stack_apply_spec in blast)

interpretation wf_deque: seq_object deque_apply avl inorder deque_spec
  by unfold_locales (use deque_apply_spec in blast)

interpretation wf_map: seq_object "map_apply lt" "\<lambda>t. strict_weak lt \<and> map_tree_inv lt t"
  "\<lambda>t. assoc lt (inorder t)" "map_spec lt" for lt
  by unfold_locales (use map_apply_spec in blast)

lemma wf_stack_sim:
  assumes "NewWfStack n = Some s"
  shows "sim_machine (wf_stack_machine s) (uc_spec n stack_spec) ([], 0)
    (uc_rel stack_apply (\<lambda>_. True) cell_list n)"
  using wf_stack.universal_sim [OF _ assms [unfolded NewWfStack_def]] by (simp add: wf_machines)

lemma wf_deque_sim:
  assumes "NewDeque n = Some s"
  shows "sim_machine (wf_deque_machine s) (uc_spec n deque_spec) ([], 0)
    (uc_rel deque_apply avl inorder n)"
  using wf_deque.universal_sim [OF _ assms [unfolded NewDeque_def]] by (simp add: wf_machines)

lemma assoc_Nil: "assoc lt [] = (\<lambda>_. None)"
  by (simp add: fun_eq_iff)

lemma wf_map_sim:
  assumes "NewMap n = Some s" and "strict_weak lt"
  shows "sim_machine (wf_map_machine lt s) (uc_spec n (map_spec lt)) (\<lambda>_. None, 0)
    (uc_rel (map_apply lt) (\<lambda>t. strict_weak lt \<and> map_tree_inv lt t) (\<lambda>t. assoc lt (inorder t)) n)"
  using wf_map.universal_sim [of lt Nil, OF _ assms(1) [unfolded NewMap_def]] assms(2)
  by (simp add: wf_machines map_tree_inv_def assoc_Nil del: assoc.simps)

lemma uc_rel_handles:
  assumes "uc_rel app good abst n s th a st"
  shows "handle_of s t = Some i \<Longrightarrow> i < n" and "handle_of s t = Some i \<Longrightarrow> handle_of s u = Some i \<Longrightarrow> t = u"
proof -
  from assms obtain g where g: "uc_inv app good s g" "maxn s = n" by (auto simp: uc_rel_def)
  show "handle_of s t = Some i \<Longrightarrow> i < n" using uc_inv_handle [OF g(1), of t i] g(2) by simp
  show "handle_of s t = Some i \<Longrightarrow> handle_of s u = Some i \<Longrightarrow> t = u"
    using uc_inv_handle [OF g(1), of t i] uc_inv_handle [OF g(1), of u i] by simp
qed

subsection \<open>Properties\<close>

text \<open>
  C5: The wait-free stack is linearizable: under every schedule of registrations and calls
  through handles, calls behave like operations of a sequential stack, and \<open>Handle\<close> hands out
  the numbers below \<open>maxHandles\<close> once each and then fails.
\<close>

theorem wf_stack_linearizable:
  assumes "NewWfStack n = Some s"
  shows "linearizable (uc_spec n stack_spec) ([], 0) (history (wf_stack_machine s) acts) \<and>
    snd (run (wf_stack_machine s) acts) t \<noteq> Panic"
  using sim_machine.linearizable [OF wf_stack_sim [OF assms]] sim_machine.no_panic [OF wf_stack_sim [OF assms]] by blast

theorem wf_stack_linearizable_witness:
  "let s = the (NewWfStack 2);
       acts = [Start 0 Register, Start 1 Register, Step 1,
       Step 1, Step 1, Step 1, Step 1, Start 1 (Apply (Push (7::int))), Step 1] in
   linearizable (uc_spec 2 stack_spec) ([], 0) (history (wf_stack_machine s) acts) \<and>
   snd (run (wf_stack_machine s) acts) 1 \<noteq> Panic"
  unfolding Let_def by (rule wf_stack_linearizable) (simp add: NewWfStack_def NewUniversal_def)

text \<open>
  C3: The wait-free deque is linearizable to the double-ended queue, and no schedule dereferences
  \<open>nil\<close> (in the list of operations or in a tree) or indexes a helping array out of range.
\<close>

theorem wf_deque_linearizable:
  assumes "NewDeque n = Some s"
  shows "linearizable (uc_spec n deque_spec) ([], 0) (history (wf_deque_machine s) acts) \<and>
    snd (run (wf_deque_machine s) acts) t \<noteq> Panic"
  using sim_machine.linearizable [OF wf_deque_sim [OF assms]] sim_machine.no_panic [OF wf_deque_sim [OF assms]] by blast

theorem wf_deque_linearizable_witness:
  "let s = the (NewDeque 1);
       acts = [Start 0 Register, Step 0, Step 0,
       Step 0, Step 0, Step 0, Start 0 (Apply (PushBack (7::int))), Step 0] in
   linearizable (uc_spec 1 deque_spec) ([], 0) (history (wf_deque_machine s) acts) \<and>
   snd (run (wf_deque_machine s) acts) 0 \<noteq> Panic"
  unfolding Let_def by (rule wf_deque_linearizable) (simp add: NewDeque_def NewUniversal_def)

text \<open>
  C4: For a comparator that is a strict weak order, the wait-free map is linearizable to the
  finite map, \<open>Get\<close> included, and no schedule panics.
\<close>

theorem wf_map_linearizable:
  assumes "NewMap n = Some s" and "strict_weak lt"
  shows "linearizable (uc_spec n (map_spec lt)) (\<lambda>_. None, 0) (history (wf_map_machine lt s) acts) \<and>
    snd (run (wf_map_machine lt s) acts) t \<noteq> Panic"
  using sim_machine.linearizable [OF wf_map_sim [OF assms]] sim_machine.no_panic [OF wf_map_sim [OF assms]] by blast

theorem wf_map_linearizable_witness:
  "let s = the (NewMap 1);
       acts = [Start 0 Register, Step 0, Step 0,
       Step 0, Step 0, Step 0, Start 0 (Apply (SetKey (7::int) ''x'')), Step 0] in
   linearizable (uc_spec 1 (map_spec (<))) (\<lambda>_. None, 0) (history (wf_map_machine (<) s) acts) \<and>
   snd (run (wf_map_machine (<) s) acts) 0 \<noteq> Panic"
  unfolding Let_def by (rule wf_map_linearizable) (simp_all add: NewMap_def NewUniversal_def strict_weak_int)

text \<open>
  The handles that goroutines hold are pairwise different slots below \<open>maxHandles\<close>, so no two
  goroutines ever share an entry of the helping arrays.
\<close>

theorem wf_handles_exclusive:
  assumes "NewWfStack n = Some s" and "handle_of (fst (run (wf_stack_machine s) acts)) t = Some i"
  shows "i < n \<and> {u. handle_of (fst (run (wf_stack_machine s) acts)) u = Some i} = {t}"
proof -
  from sim_machine.reachable_rel [OF wf_stack_sim [OF assms(1)], of acts] obtain a st where
    "uc_rel stack_apply (\<lambda>_. True) cell_list n (fst (run (wf_stack_machine s) acts))
      (snd (run (wf_stack_machine s) acts)) a st" by blast
  from uc_rel_handles [OF this] assms(2) show ?thesis by blast
qed

theorem wf_handles_exclusive_witness:
  "(0::nat) < 1 \<and> {u. handle_of (fst (run (wf_stack_machine
     (the (NewWfStack 1) :: (int stack_op, int stackCell, int resp) universal))
     [Start 0 Register, Step 0, Step 0, Step 0, Step 0, Step 0])) u = Some 0} = {0}"
  by (rule wf_handles_exclusive)
    (simp_all add: wf_machines NewWfStack_def NewUniversal_def run_def start_sys_def Let_def numeral_eq_Suc)

end
