(* ===== verification/Treiber.thy ===== *)
theory Treiber
  imports Simulation Progress Adt
begin

text \<open>
  \<open>lf/stack.go\<close> and \<open>lf/node.go\<close>: the Treiber stack. The shared memory holds the \<open>directItem\<close>
  cells, the \<open>top\<close> pointer and the \<open>len\<close> counter (an \<open>atomic.Uint64\<close>, so it wraps). One step
  is one atomic load, store, compare-and-swap or add. Proved: every schedule is linearizable to
  the stack contract and panic-free, and the counter is the size corrected by the calls between
  their CAS and their \<open>Add\<close>.
\<close>

subsection \<open>Model\<close>

record 'a directItem =
  next_of :: ptr
  v_of :: 'a

record 'a lf_stack =
  cells :: "loc \<Rightarrow> 'a directItem"
  brk :: loc
  top :: ptr
  len :: u64

definition NewStack :: "'a lf_stack" where
  "NewStack = \<lparr>cells = (\<lambda>_. undefined), brk = 0, top = None, len = 0\<rparr>"

text \<open>Program counters, with the local variables that are live there.\<close>

datatype stack_pc =
    PushLoad loc        \<comment> \<open>\<open>top := s.top.Load()\<close>\<close>
  | PushLink loc ptr    \<comment> \<open>\<open>item.next.Store(top)\<close>\<close>
  | PushCas loc ptr     \<comment> \<open>\<open>s.top.CompareAndSwap(top, item)\<close>\<close>
  | PushLen             \<comment> \<open>\<open>s.len.Add(1)\<close>\<close>
  | PopLoad             \<comment> \<open>\<open>top := s.top.Load()\<close>\<close>
  | PopNext loc         \<comment> \<open>\<open>next := top.next.Load()\<close>\<close>
  | PopCas loc ptr      \<comment> \<open>\<open>s.top.CompareAndSwap(top, next)\<close>\<close>
  | PopLen loc          \<comment> \<open>\<open>s.len.Add(^uint64(0))\<close>, then \<open>return top.v, true\<close>\<close>

fun stack_beg :: "'a lf_stack \<Rightarrow> tid \<Rightarrow> 'a stack_op \<Rightarrow> 'a lf_stack \<times> stack_pc" where
  "stack_beg s t (Push v) =
     (s\<lparr>cells := (cells s)(brk s := \<lparr>next_of = None, v_of = v\<rparr>), brk := Suc (brk s)\<rparr>,
      PushLoad (brk s))"
| "stack_beg s t Pop = (s, PopLoad)"

fun stack_push_step :: "'a lf_stack \<Rightarrow> stack_pc \<Rightarrow> 'a lf_stack \<times> (stack_pc, 'a resp) thread" where
  "stack_push_step s (PushLoad item) = (s, Busy (PushLink item (top s)))"
| "stack_push_step s (PushLink item tp) =
     (s\<lparr>cells := (cells s)(item := (cells s item)\<lparr>next_of := tp\<rparr>)\<rparr>, Busy (PushCas item tp))"
| "stack_push_step s (PushCas item tp) =
     (if top s = tp then (s\<lparr>top := Some item\<rparr>, Busy PushLen) else (s, Busy (PushLoad item)))"
| "stack_push_step s PushLen = (s\<lparr>len := len s + 1\<rparr>, Return Ack)"
| "stack_push_step s _ = (s, Panic)"

fun stack_pop_step :: "'a lf_stack \<Rightarrow> stack_pc \<Rightarrow> 'a lf_stack \<times> (stack_pc, 'a resp) thread" where
  "stack_pop_step s PopLoad =
     (case top s of None \<Rightarrow> (s, Return (Got None)) | Some tp \<Rightarrow> (s, Busy (PopNext tp)))"
| "stack_pop_step s (PopNext tp) = (s, Busy (PopCas tp (next_of (cells s tp))))"
| "stack_pop_step s (PopCas tp nx) =
     (if top s = Some tp then (s\<lparr>top := nx\<rparr>, Busy (PopLen tp)) else (s, Busy PopLoad))"
| "stack_pop_step s (PopLen tp) =
     (s\<lparr>len := len s + NOT 0\<rparr>, Return (Got (Some (v_of (cells s tp)))))"
| "stack_pop_step s _ = (s, Panic)"

definition stack_step :: "'a lf_stack \<Rightarrow> tid \<Rightarrow> stack_pc \<Rightarrow>
    'a lf_stack \<times> (stack_pc, 'a resp) thread" where
  "stack_step s t p =
     (case p of
        PushLoad _ \<Rightarrow> stack_push_step s p | PushLink _ _ \<Rightarrow> stack_push_step s p
      | PushCas _ _ \<Rightarrow> stack_push_step s p | PushLen \<Rightarrow> stack_push_step s p
      | _ \<Rightarrow> stack_pop_step s p)"

definition stack_machine :: "('a lf_stack, stack_pc, 'a stack_op, 'a resp) machine" where
  "stack_machine = \<lparr>sh0 = NewStack, can = (\<lambda>_ _ _. True), beg = stack_beg, stp = stack_step\<rparr>"

definition stack_Length :: "'a lf_stack \<Rightarrow> u64" where
  "stack_Length s = len s"

lemma stack_machine_simps [simp]:
  "sh0 stack_machine = NewStack" "can stack_machine s t op = True"
  "beg stack_machine = stack_beg" "stp stack_machine = stack_step"
  by (simp_all add: stack_machine_def)

subsection \<open>Invariant\<close>

text \<open>
  The ghost state is the list of cells on the stack, topmost first, and the owner of every cell
  that a push has allocated but not yet published.
\<close>

type_synonym stack_ghost = "loc list \<times> (loc \<Rightarrow> tid option)"

definition stack_inv :: "'a lf_stack \<Rightarrow> stack_ghost \<Rightarrow> bool" where
  "stack_inv s g \<longleftrightarrow> (case g of (ls, own) \<Rightarrow>
     linked (\<lambda>l. next_of (cells s l)) (top s) ls \<and> (\<forall>l \<in> set ls. l < brk s \<and> own l = None) \<and>
     (\<forall>l. brk s \<le> l \<longrightarrow> own l = None))"

definition stack_abs :: "'a lf_stack \<Rightarrow> stack_ghost \<Rightarrow> 'a list" where
  "stack_abs s g = map (\<lambda>l. v_of (cells s l)) (fst g)"

definition published :: "'a lf_stack \<Rightarrow> stack_ghost \<Rightarrow> loc \<Rightarrow> bool" where
  "published s g l \<longleftrightarrow> l < brk s \<and> snd g l = None"

fun stack_ok :: "'a lf_stack \<Rightarrow> stack_ghost \<Rightarrow> tid \<Rightarrow> stack_pc \<Rightarrow>
    ('a stack_op, 'a resp) status \<Rightarrow> bool" where
  "stack_ok s g t (PushLoad i) st \<longleftrightarrow> snd g i = Some t \<and> st = Wait (Push (v_of (cells s i))) {}"
| "stack_ok s g t (PushLink i tp) st \<longleftrightarrow> snd g i = Some t \<and> st = Wait (Push (v_of (cells s i))) {}"
| "stack_ok s g t (PushCas i tp) st \<longleftrightarrow>
     snd g i = Some t \<and> st = Wait (Push (v_of (cells s i))) {} \<and> next_of (cells s i) = tp"
| "stack_ok s g t PushLen st \<longleftrightarrow> st = Done Ack"
| "stack_ok s g t PopLoad st \<longleftrightarrow> st = Wait Pop {}"
| "stack_ok s g t (PopNext tp) st \<longleftrightarrow> published s g tp \<and> st = Wait Pop {}"
| "stack_ok s g t (PopCas tp nx) st \<longleftrightarrow>
     published s g tp \<and> next_of (cells s tp) = nx \<and> st = Wait Pop {}"
| "stack_ok s g t (PopLen tp) st \<longleftrightarrow>
     published s g tp \<and> st = Done (Got (Some (v_of (cells s tp))))"

text \<open>A step never touches a published cell or a cell owned by somebody else.\<close>

definition stack_rely :: "tid \<Rightarrow> 'a lf_stack \<Rightarrow> stack_ghost \<Rightarrow> 'a lf_stack \<Rightarrow> stack_ghost \<Rightarrow> bool"
where
  "stack_rely t s g s' g' \<longleftrightarrow>
     (\<forall>l. published s g l \<longrightarrow> published s' g' l \<and> cells s' l = cells s l) \<and>
     (\<forall>l u. u \<noteq> t \<longrightarrow> snd g l = Some u \<longrightarrow> snd g' l = Some u \<and> cells s' l = cells s l)"

lemma stack_rely_refl [simp]: "stack_rely t s g s g"
  by (simp add: stack_rely_def)

lemma stack_stable:
  "stack_rely t s g s' g' \<Longrightarrow> u \<noteq> t \<Longrightarrow> stack_ok s g u p st \<Longrightarrow> stack_ok s' g' u p st"
  by (cases p) (auto simp: stack_rely_def)

lemma stack_begin:
  assumes "stack_inv s g" and "stack_beg s t op = (s', p)"
  shows "\<exists>g'. stack_inv s' g' \<and> stack_abs s' g' = stack_abs s g \<and>
    stack_ok s' g' t p (Wait op {}) \<and> stack_rely t s g s' g'"
proof (cases op)
  case (Push v)
  obtain ls own where g: "g = (ls, own)" by fastforce
  let ?g' = "(ls, own(brk s := Some t))"
  have fresh: "brk s \<notin> set ls" using assms(1) by (auto simp: stack_inv_def g)
  have s': "s' = s\<lparr>cells := (cells s)(brk s := \<lparr>next_of = None, v_of = v\<rparr>), brk := Suc (brk s)\<rparr>"
    "p = PushLoad (brk s)"
    using assms(2) by (simp_all add: Push)
  have "linked (\<lambda>l. next_of (cells s' l)) (top s') ls =
      linked (\<lambda>l. next_of (cells s l)) (top s) ls"
    using fresh unfolding s' by (simp, intro linked_cong) auto
  then have "stack_inv s' ?g'"
    using assms(1) fresh by (auto simp: stack_inv_def g s' less_Suc_eq)
  moreover have "stack_abs s' ?g' = stack_abs s g"
    using fresh by (auto simp: stack_abs_def g s')
  moreover have "stack_rely t s g s' ?g'"
    using assms(1) by (auto simp: stack_rely_def published_def stack_inv_def g s')
  ultimately show ?thesis
    by (intro exI [of _ ?g']) (simp add: s' Push)
next
  case Pop
  with assms show ?thesis by (intro exI [of _ g]) auto
qed

lemma stack_linkedD:
  "stack_inv s (ls, own) \<Longrightarrow> top s = Some l \<Longrightarrow>
     \<exists>ls'. ls = l # ls' \<and> linked (\<lambda>l. next_of (cells s l)) (next_of (cells s l)) ls'"
  by (simp add: stack_inv_def linked_Some)

lemma stack_push_sim:
  assumes inv: "stack_inv s g" and ok: "stack_ok s g t p st"
    and p: "p = PushLoad i \<or> p = PushLink i tp \<or> p = PushCas i tp \<or> p = PushLen"
    and step: "stack_push_step s p = (s', x)"
  shows "\<exists>g' st'. own_move stack_spec (stack_abs s g) st (stack_abs s' g') st' \<and>
    stack_inv s' g' \<and> thread_ok (stack_ok s' g' t) x st' \<and> stack_rely t s g s' g'"
proof -
  obtain ls own where g: "g = (ls, own)" by fastforce
  from p consider "p = PushLoad i" | "p = PushLink i tp" | "p = PushCas i tp" | "p = PushLen"
    by blast
  then show ?thesis
  proof cases
    case 1
    with ok step inv show ?thesis
      by (intro exI [of _ g] exI [of _ st]) (auto intro: own_move.stay)
  next
    case 2
    from ok have o: "own i = Some t" "st = Wait (Push (v_of (cells s i))) {}"
      by (simp_all add: 2 g)
    have fresh: "i \<notin> set ls" using inv o(1) by (auto simp: stack_inv_def g)
    have s': "s' = s\<lparr>cells := (cells s)(i := (cells s i)\<lparr>next_of := tp\<rparr>)\<rparr>"
      "x = Busy (PushCas i tp)"
      using step by (simp_all add: 2)
    have "linked (\<lambda>l. next_of (cells s' l)) (top s') ls =
        linked (\<lambda>l. next_of (cells s l)) (top s) ls"
      using fresh unfolding s' by (simp, intro linked_cong) auto
    then have "stack_inv s' g" using inv by (auto simp: stack_inv_def g s')
    moreover have "stack_abs s' g = stack_abs s g"
      using fresh by (auto simp: stack_abs_def g s')
    moreover have "stack_rely t s g s' g"
      using o(1) by (auto simp: stack_rely_def published_def g s')
    ultimately show ?thesis using o
      by (intro exI [of _ g] exI [of _ st]) (auto simp: s' g intro: own_move.stay)
  next
    case 3
    from ok have o: "own i = Some t" "st = Wait (Push (v_of (cells s i))) {}"
      "next_of (cells s i) = tp"
      by (simp_all add: 3 g)
    show ?thesis
    proof (cases "top s = tp")
      case True
      let ?g' = "(i # ls, own(i := None))"
      have s': "s' = s\<lparr>top := Some i\<rparr>" "x = Busy PushLen"
        using step True by (simp_all add: 3)
      have "i < brk s" using inv o(1) by (auto simp: stack_inv_def g not_le [symmetric])
      then have "stack_inv s' ?g'"
        using inv True o(3) by (auto simp: stack_inv_def g s')
      moreover have "own_move stack_spec (stack_abs s g) st (stack_abs s' ?g') (Done Ack)"
        unfolding o(2) by (rule own_move.effect) (simp add: stack_abs_def g s')
      moreover have "stack_rely t s g s' ?g'"
        using o(1) by (auto simp: stack_rely_def published_def g s')
      ultimately show ?thesis by (intro exI [of _ ?g'] exI [of _ "Done Ack"]) (simp add: s')
    next
      case False
      with step o inv show ?thesis
        by (intro exI [of _ g] exI [of _ st]) (auto simp: 3 g intro: own_move.stay)
    qed
  next
    case 4
    with ok step inv show ?thesis
      by (intro exI [of _ g] exI [of _ st])
        (auto simp: stack_inv_def stack_abs_def stack_rely_def published_def intro: own_move.stay)
  qed
qed

lemma stack_pop_sim:
  assumes inv: "stack_inv s g" and ok: "stack_ok s g t p st"
    and p: "p = PopLoad \<or> p = PopNext tp \<or> p = PopCas tp nx \<or> p = PopLen tp"
    and step: "stack_pop_step s p = (s', x)"
  shows "\<exists>g' st'. own_move stack_spec (stack_abs s g) st (stack_abs s' g') st' \<and>
    stack_inv s' g' \<and> thread_ok (stack_ok s' g' t) x st' \<and> stack_rely t s g s' g'"
proof -
  obtain ls own where g: "g = (ls, own)" by fastforce
  from p consider "p = PopLoad" | "p = PopNext tp" | "p = PopCas tp nx" | "p = PopLen tp"
    by blast
  then show ?thesis
  proof cases
    case 1
    show ?thesis
    proof (cases "top s")
      case None
      then have "ls = []" using inv by (simp add: stack_inv_def g)
      then have "own_move stack_spec (stack_abs s g) st (stack_abs s g) (Done (Got None))"
        using ok by (simp add: 1 stack_abs_def g own_move.effect)
      with None step inv show ?thesis
        by (intro exI [of _ g] exI [of _ "Done (Got None)"]) (auto simp: 1)
    next
      case (Some l)
      with stack_linkedD [OF inv [unfolded g]] inv have "published s g l"
        by (auto simp: published_def stack_inv_def g)
      with Some step inv ok show ?thesis
        by (intro exI [of _ g] exI [of _ st]) (auto simp: 1 intro: own_move.stay)
    qed
  next
    case 2
    with ok step inv show ?thesis
      by (intro exI [of _ g] exI [of _ st]) (auto intro: own_move.stay)
  next
    case 3
    show ?thesis
    proof (cases "top s = Some tp")
      case True
      from stack_linkedD [OF inv [unfolded g] this] ok obtain ls' where
        ls: "ls = tp # ls'" "linked (\<lambda>l. next_of (cells s l)) nx ls'"
        by (auto simp: 3)
      let ?g' = "(ls', own)" and ?d = "Done (Got (Some (v_of (cells s tp))))"
      have s': "s' = s\<lparr>top := nx\<rparr>" "x = Busy (PopLen tp)"
        using step True by (simp_all add: 3)
      have "stack_inv s' ?g'" using inv ls by (auto simp: stack_inv_def g s')
      moreover have "own_move stack_spec (stack_abs s g) st (stack_abs s' ?g') ?d"
        using ok by (simp add: 3 stack_abs_def g s' ls own_move.effect)
      moreover have "stack_rely t s g s' ?g'"
        by (auto simp: stack_rely_def published_def g s')
      ultimately show ?thesis using ok
        by (intro exI [of _ ?g'] exI [of _ ?d]) (simp add: s' 3 published_def g)
    next
      case False
      with step ok inv show ?thesis
        by (intro exI [of _ g] exI [of _ st]) (auto simp: 3 intro: own_move.stay)
    qed
  next
    case 4
    with ok step inv show ?thesis
      by (intro exI [of _ g] exI [of _ st])
        (auto simp: stack_inv_def stack_abs_def stack_rely_def published_def intro: own_move.stay)
  qed
qed

interpretation treiber: rg_machine stack_machine stack_spec "([], \<lambda>_. None)"
  stack_inv stack_abs stack_ok stack_rely
proof
  show "stack_inv (sh0 stack_machine) ([], \<lambda>_. None)"
    by (simp add: stack_inv_def NewStack_def)
next
  fix s :: "'a lf_stack" and g t op s' p
  assume "stack_inv s g" "beg stack_machine s t op = (s', p)"
  then show "\<exists>g'. stack_inv s' g' \<and> stack_abs s' g' = stack_abs s g \<and>
      stack_ok s' g' t p (Wait op {}) \<and> stack_rely t s g s' g'"
    using stack_begin by simp
next
  fix s :: "'a lf_stack" and g t p st s' x
  assume "stack_inv s g" "stack_ok s g t p st" "stp stack_machine s t p = (s', x)"
  then show "\<exists>g' st'. own_move stack_spec (stack_abs s g) st (stack_abs s' g') st' \<and>
      stack_inv s' g' \<and> thread_ok (stack_ok s' g' t) x st' \<and> stack_rely t s g s' g'"
    using stack_push_sim [of s g t p st] stack_pop_sim [of s g t p st]
    by (cases p) (auto simp: stack_step_def simp del: stack_push_step.simps stack_pop_step.simps)
next
  fix s s' :: "'a lf_stack" and g g' t u p st
  assume "stack_rely t s g s' g'" "u \<noteq> t" "stack_ok s g u p st"
  then show "stack_ok s' g' u p st" by (rule stack_stable)
qed


subsection \<open>Progress\<close>

text \<open>
  A step is quiet when it leaves \<open>top\<close> alone, so a step that is not quiet is a successful CAS of
  some call. The rank of a goroutine counts its remaining steps if nobody moves \<open>top\<close> again; a
  goroutine whose local copy of \<open>top\<close> is stale has one failing round ahead of it.
\<close>

definition top_unmoved :: "('a lf_stack, stack_pc, 'a resp) sys \<Rightarrow>
    ('a lf_stack, stack_pc, 'a resp) sys \<Rightarrow> bool" where
  "top_unmoved s s' \<longleftrightarrow> top (fst s') = top (fst s)"

fun stack_rank :: "ptr \<Rightarrow> stack_pc \<Rightarrow> nat" where
  "stack_rank tp (PushLoad i) = 4"
| "stack_rank tp (PushLink i l) = (if l = tp then 3 else 6)"
| "stack_rank tp (PushCas i l) = (if l = tp then 2 else 5)"
| "stack_rank tp PushLen = 1"
| "stack_rank tp PopLoad = 4"
| "stack_rank tp (PopNext l) = (if Some l = tp then 3 else 6)"
| "stack_rank tp (PopCas l nx) = (if Some l = tp then 2 else 5)"
| "stack_rank tp (PopLen l) = 1"

lemma stack_rank_pos: "0 < stack_rank tp p" "stack_rank tp p \<le> 6"
  by (cases p; simp)+

lemma stack_rank_own:
  "stack_step s t p = (s', Busy p') \<Longrightarrow> top s' = top s \<Longrightarrow>
     stack_rank (top s') p' < stack_rank (top s) p"
  by (cases p) (auto simp: stack_step_def split: if_splits option.splits)

interpretation treiber: progress stack_machine "\<lambda>s t. stack_rank (top (fst s))" top_unmoved 6
proof
  fix s :: "('a lf_stack, stack_pc, 'a resp) sys" and t p p'
  assume "snd s t = Busy p" "top_unmoved s (sys_step stack_machine s (Step t))"
    "snd (sys_step stack_machine s (Step t)) t = Busy p'"
  then show "stack_rank (top (fst (sys_step stack_machine s (Step t)))) p' <
      stack_rank (top (fst s)) p"
    using stack_rank_own [of "fst s" t p]
    by (cases s) (auto simp: top_unmoved_def split: prod.splits)
qed (simp_all add: stack_rank_pos top_unmoved_def)

subsection \<open>The length counter\<close>

lemma linked_unique: "linked nx p ls \<Longrightarrow> linked nx p ls' \<Longrightarrow> ls = ls'"
  by (induction ls arbitrary: p ls') (auto simp: linked_Some)

text \<open>The counter, the calls that have taken effect but not yet counted, and the size.\<close>

definition in_phase :: "stack_pc set \<Rightarrow> (tid \<Rightarrow> (stack_pc, 'a resp) thread) \<Rightarrow> tid set" where
  "in_phase P th = {t. th t \<in> Busy ` P}"

definition counts :: "'a lf_stack \<Rightarrow> (tid \<Rightarrow> (stack_pc, 'a resp) thread) \<Rightarrow> nat \<Rightarrow> bool" where
  "counts s th n \<longleftrightarrow>
     len s + of_nat (card (in_phase {PushLen} th)) =
     of_nat n + of_nat (card (in_phase (range PopLen) th))"

lemma finite_in_phase: "finite {t. th t \<noteq> Idle} \<Longrightarrow> finite (in_phase P th)"
  unfolding in_phase_def by (rule finite_subset) auto

lemma card_in_phase_upd:
  assumes "finite {t. th t \<noteq> Idle}"
  shows "(of_nat (card (in_phase P (th(t := x)))) :: u64) =
    of_nat (card (in_phase P th)) + of_bool (x \<in> Busy ` P) - of_bool (th t \<in> Busy ` P)"
proof -
  have "int (card (in_phase P (th(t := x)))) =
      int (card (in_phase P th)) + of_bool (x \<in> Busy ` P) - of_bool (th t \<in> Busy ` P)"
    using card_Collect_upd [of "\<lambda>y. y \<in> Busy ` P" th t x] finite_in_phase [OF assms, of P]
    by (simp add: in_phase_def)
  then have "(of_int (int (card (in_phase P (th(t := x))))) :: u64) =
      of_int (int (card (in_phase P th)) + of_bool (x \<in> Busy ` P) - of_bool (th t \<in> Busy ` P))"
    by (rule arg_cong)
  then show ?thesis by (simp add: of_bool_def split: if_splits)
qed


lemma stack_same_list:
  assumes "stack_inv s g" and "stack_inv s' g'" and "top s' = top s"
    and "\<And>l. l \<in> set (fst g) \<Longrightarrow> next_of (cells s' l) = next_of (cells s l)"
  shows "fst g' = fst g"
proof -
  have "linked (\<lambda>l. next_of (cells s l)) (top s) (fst g)"
    using assms(1) by (auto simp: stack_inv_def)
  then have "linked (\<lambda>l. next_of (cells s' l)) (top s') (fst g)"
    using assms(3,4) linked_cong [of "fst g" "\<lambda>l. next_of (cells s' l)" "\<lambda>l. next_of (cells s l)"]
    by simp
  moreover have "linked (\<lambda>l. next_of (cells s' l)) (top s') (fst g')"
    using assms(2) by (auto simp: stack_inv_def)
  ultimately show ?thesis by (rule linked_unique [rotated])
qed

lemma stack_beg_size:
  assumes "stack_inv s g" and "stack_inv s' g'" and "stack_beg s t op = (s', p)"
  shows "fst g' = fst g" and "len s' = len s" and "p \<noteq> PushLen" and "p \<notin> range PopLen"
proof -
  show "fst g' = fst g"
    using assms by (intro stack_same_list [OF assms(1,2)]; cases op) (auto simp: stack_inv_def)
qed (use assms in \<open>cases op; auto\<close>)+

lemma stack_step_size:
  assumes "stack_inv s g" and "stack_inv s' g'" and "stack_ok s g t p st"
    and "stack_step s t p = (s', x)"
  shows "int (length (fst g')) = int (length (fst g)) +
      of_bool (x = Busy PushLen) - of_bool (x \<in> Busy ` range PopLen)" (is ?size)
    and "len s' = len s + of_bool (p = PushLen) - of_bool (p \<in> range PopLen)" (is ?len)
proof -
  have lnk: "linked (\<lambda>l. next_of (cells s l)) (top s) (fst g)"
    "linked (\<lambda>l. next_of (cells s' l)) (top s') (fst g')"
    using assms(1,2) by (auto simp: stack_inv_def)
  show ?size
  proof (cases "(\<exists>i tp. p = PushCas i tp \<and> top s = tp) \<or> (\<exists>l nx. p = PopCas l nx \<and> top s = Some l)")
    case False
    have "fst g' = fst g" using assms(3,4) False assms(1)
      by (intro stack_same_list [OF assms(1,2)]; cases p)
        (auto simp: stack_step_def stack_inv_def split: if_splits option.splits)
    moreover have "x \<noteq> Busy PushLen" "x \<notin> Busy ` range PopLen"
      using False assms(4) by (cases p; auto simp: stack_step_def split: if_splits option.splits)+
    ultimately show ?thesis by simp
  next
    case True
    then show ?thesis
    proof (elim disjE exE conjE)
      fix i tp assume p: "p = PushCas i tp" "top s = tp"
      then have "linked (\<lambda>l. next_of (cells s' l)) (top s') (i # fst g)"
        using assms(3,4) lnk(1) by (auto simp: stack_step_def)
      from linked_unique [OF this lnk(2)] show ?thesis
        using assms(4) p by (cases g; cases g') (auto simp: stack_step_def)
    next
      fix l nx assume p: "p = PopCas l nx" "top s = Some l"
      then obtain ls where ls: "fst g = l # ls" "linked (\<lambda>l. next_of (cells s l)) nx ls"
        using lnk(1) assms(3) by (auto simp: linked_Some)
      then have "linked (\<lambda>l. next_of (cells s' l)) (top s') ls"
        using assms(4) p by (auto simp: stack_step_def)
      from linked_unique [OF this lnk(2)] show ?thesis
        using assms(4) p ls(1) by (auto simp: stack_step_def)
    qed
  qed
  show ?len using assms(4)
    by (cases p) (auto simp: stack_step_def split: if_splits option.splits)
qed


definition stack_counted :: "'a lf_stack \<Rightarrow> (tid \<Rightarrow> (stack_pc, 'a resp) thread) \<Rightarrow> bool" where
  "stack_counted s th \<longleftrightarrow> finite {t. th t \<noteq> Idle} \<and>
     (\<exists>g st. stack_inv s g \<and> all_ok (stack_ok s g) th st \<and> counts s th (length (fst g)))"

lemma of_nat_int_eq:
  "int n' = int n + of_bool a - of_bool b \<Longrightarrow>
     (of_nat n' :: u64) = of_nat n + of_bool a - of_bool b"
proof -
  assume "int n' = int n + of_bool a - of_bool b"
  then have "(of_int (int n') :: u64) = of_int (int n + of_bool a - of_bool b)" by simp
  then show ?thesis by (simp add: of_bool_def split: if_splits)
qed

lemma stack_counted_step:
  assumes c: "stack_counted s th" and b: "th t = Busy p" and stp: "stack_step s t p = (s', x)"
  shows "stack_counted s' (th(t := x))"
proof -
  from c obtain g st where g: "stack_inv s g" "all_ok (stack_ok s g) th st"
    "counts s th (length (fst g))" and fin: "finite {t. th t \<noteq> Idle}"
    by (auto simp: stack_counted_def)
  have ok: "stack_ok s g t p (st t)" using all_okD [OF g(2), of t] b by simp
  from treiber.sim_stp [OF g(1,2) b, of s' x] stp obtain g' st' where
    g': "stack_inv s' g'" "all_ok (stack_ok s' g') (th(t := x)) st'"
    by (auto simp del: fun_upd_apply)
  note size = stack_step_size [OF g(1) g'(1) ok stp]
  have "counts s' (th(t := x)) (length (fst g'))"
    using g(3) size(2) of_nat_int_eq [OF size(1)] card_in_phase_upd [OF fin, of _ t x]
    by (simp add: counts_def b image_iff)
  with g' fin show ?thesis
    unfolding stack_counted_def using finite_Collect_upd [of "\<lambda>y. y \<noteq> Idle" th t x] by blast
qed

lemma stack_counted_beg:
  assumes c: "stack_counted s th" and i: "th t = Idle" and beg: "stack_beg s t op = (s', p)"
  shows "stack_counted s' (th(t := Busy p))"
proof -
  from c obtain g st where g: "stack_inv s g" "all_ok (stack_ok s g) th st"
    "counts s th (length (fst g))" and fin: "finite {t. th t \<noteq> Idle}"
    by (auto simp: stack_counted_def)
  from treiber.sim_beg [OF g(1,2) i, of op s' p] beg obtain g' where
    g': "stack_inv s' g'" "all_ok (stack_ok s' g') (th(t := Busy p)) (st(t := Wait op {}))"
    by (auto simp del: fun_upd_apply)
  note size = stack_beg_size [OF g(1) g'(1) beg]
  have "counts s' (th(t := Busy p)) (length (fst g'))"
    using g(3) size(1,2) size(3,4) card_in_phase_upd [OF fin, of _ t "Busy p"]
    by (simp add: counts_def i image_iff)
  with g' fin show ?thesis
    unfolding stack_counted_def using finite_Collect_upd [of "\<lambda>y. y \<noteq> Idle" th t "Busy p"] by blast
qed

lemma stack_counted_return:
  assumes c: "stack_counted s th" and i: "th t = Return r"
  shows "stack_counted s (th(t := Idle))"
proof -
  from c obtain g st where g: "stack_inv s g" "all_ok (stack_ok s g) th st"
    "counts s th (length (fst g))" and fin: "finite {t. th t \<noteq> Idle}"
    by (auto simp: stack_counted_def)
  have "all_ok (stack_ok s g) (th(t := Idle)) (st(t := Quiet))"
    using g(2) by (rule all_ok_upd) auto
  moreover have "counts s (th(t := Idle)) (length (fst g))"
    using g(3) card_in_phase_upd [OF fin, of _ t Idle] by (simp add: counts_def i image_iff)
  ultimately show ?thesis using g(1) fin
    unfolding stack_counted_def using finite_Collect_upd [of "\<lambda>y. y \<noteq> Idle" th t Idle] by blast
qed

lemma stack_counted_run:
  "stack_counted (fst (run stack_machine acts)) (snd (run stack_machine acts))"
proof (rule run_invariant)
  have "all_ok (stack_ok NewStack ([], \<lambda>_. None)) (\<lambda>_. Idle) (\<lambda>_. Quiet)"
    by (simp add: all_ok_def)
  then show "stack_counted (sh0 stack_machine) (\<lambda>_. Idle)"
    unfolding stack_counted_def
    by (auto simp: counts_def in_phase_def NewStack_def stack_inv_def
        intro!: exI [of _ "([], \<lambda>_. None)"])
qed (simp_all add: stack_counted_step stack_counted_beg stack_counted_return del: fun_upd_apply)

subsection \<open>Properties\<close>

text \<open>
  C7: The Treiber stack is linearizable: whatever the number of goroutines and however their
  atomic steps interleave, the invocations and responses of \<open>Push\<close> and \<open>Pop\<close> are those of a
  sequential LIFO stack on which every call takes effect at one moment inside the call. No
  goroutine ever dereferences \<open>nil\<close>.
\<close>

theorem stack_linearizable:
  "linearizable stack_spec [] (history stack_machine acts) \<and> snd (run stack_machine acts) t \<noteq> Panic"
  using treiber.linearizable [of acts] treiber.no_panic [of acts t] by (simp add: stack_abs_def)

text \<open>
  C26: The stack is lock-free: from any reachable state, a goroutine that takes six steps while
  no CAS on \<open>top\<close> succeeds (its own included) has finished its call. So among any six of its
  steps either it finishes or some call of the system takes effect.
\<close>

theorem stack_lock_free:
  assumes "quiet_run stack_machine top_unmoved (run stack_machine acts) acts'"
    and "6 \<le> own_steps t acts'"
  shows "finishes stack_machine t (run stack_machine acts) acts'"
  using assms by (intro treiber.finishes_within) simp_all

theorem stack_lock_free_witness:
  "finishes stack_machine 0 (run stack_machine [Start 0 (Push (7 :: int)), Step 0, Step 0, Step 0])
     (replicate 6 (Step 0))"
  by (rule stack_lock_free)
    (simp_all add: run_def start_sys_def NewStack_def top_unmoved_def stack_step_def numeral_eq_Suc)

text \<open>
  C36: The counter behind \<open>Length\<close> is exact up to the calls in flight: modulo \<open>2^64\<close> it is the
  number of cells on the stack, minus the pushes that have published their cell but not yet
  added one, plus the pops that have unlinked their cell but not yet subtracted one.
\<close>

theorem stack_length_accounting:
  "case run stack_machine acts of (s, th) \<Rightarrow>
     \<exists>ls. linked (\<lambda>l. next_of (cells s l)) (top s) ls \<and>
       stack_Length s + of_nat (card {t. th t = Busy PushLen}) =
       of_nat (length ls) + of_nat (card {t. \<exists>l. th t = Busy (PopLen l)})"
proof -
  obtain s th where r: "run stack_machine acts = (s, th)" by fastforce
  with stack_counted_run [of acts] obtain g where "stack_inv s g" "counts s th (length (fst g))"
    by (auto simp: stack_counted_def)
  moreover have "in_phase (range PopLen) th = {t. \<exists>l. th t = Busy (PopLen l)}"
    "in_phase {PushLen} th = {t. th t = Busy PushLen}"
    by (auto simp: in_phase_def)
  ultimately show ?thesis
    by (cases g) (auto simp: r stack_inv_def counts_def stack_Length_def)
qed

end
