(* ===== verification/Ms_Queue.thy ===== *)
theory Ms_Queue
  imports Treiber
begin

text \<open>
  \<open>lf/queue.go\<close>: the Michael and Scott queue. The shared memory holds the \<open>directItem\<close> cells, the
  \<open>head\<close> and \<open>tail\<close> pointers and the \<open>len\<close> counter; one step is one atomic access. Dereferencing
  \<open>nil\<close> is a branch that panics. Proved: linearizability to the FIFO contract and absence of
  panics for every schedule, and lock-freedom.

  A \<open>Dequeue\<close> that reports an empty queue took effect when it read the \<open>nil\<close> successor, which
  it can not know before its later check of \<open>head\<close>; the proof records that moment as an
  observation.
\<close>

subsection \<open>Model\<close>

record 'a lf_queue =
  q_cells :: "loc \<Rightarrow> 'a directItem"
  q_brk :: loc
  q_head :: ptr
  q_tail :: ptr
  q_len :: u64

text \<open>\<open>NewQueue\<close> allocates the dummy item at address 0; \<open>zero\<close> is the zero value of \<open>T\<close>.\<close>

definition NewQueue :: "'a \<Rightarrow> 'a lf_queue" where
  "NewQueue zero = \<lparr>q_cells = (\<lambda>_. \<lparr>next_of = None, v_of = zero\<rparr>), q_brk = 1,
     q_head = Some 0, q_tail = Some 0, q_len = 0\<rparr>"

datatype 'a queue_pc =
    EnqTail loc             \<comment> \<open>\<open>last := q.tail.Load()\<close>\<close>
  | EnqNext loc ptr         \<comment> \<open>\<open>lastnext := last.next.Load()\<close>\<close>
  | EnqCheck loc ptr ptr    \<comment> \<open>\<open>last == q.tail.Load()\<close>\<close>
  | EnqLink loc ptr         \<comment> \<open>\<open>last.next.CompareAndSwap(nil, i)\<close>\<close>
  | EnqSwing loc ptr        \<comment> \<open>\<open>q.tail.CompareAndSwap(last, i)\<close>\<close>
  | EnqLen                  \<comment> \<open>\<open>q.len.Add(1)\<close>\<close>
  | EnqHelp loc ptr ptr     \<comment> \<open>\<open>q.tail.CompareAndSwap(last, lastnext)\<close>\<close>
  | DeqHead                 \<comment> \<open>\<open>first := q.head.Load()\<close>\<close>
  | DeqTail ptr             \<comment> \<open>\<open>last := q.tail.Load()\<close>\<close>
  | DeqNext ptr ptr         \<comment> \<open>\<open>firstnext := first.next.Load()\<close>\<close>
  | DeqCheck ptr ptr ptr    \<comment> \<open>\<open>first == q.head.Load()\<close>\<close>
  | DeqHelp ptr ptr         \<comment> \<open>\<open>q.tail.CompareAndSwap(last, firstnext)\<close>\<close>
  | DeqValue ptr ptr        \<comment> \<open>\<open>v := firstnext.v\<close>\<close>
  | DeqCas ptr ptr 'a       \<comment> \<open>\<open>q.head.CompareAndSwap(first, firstnext)\<close>\<close>
  | DeqLen 'a               \<comment> \<open>\<open>q.len.Add(^uint64(0))\<close>\<close>

fun queue_beg :: "'a lf_queue \<Rightarrow> tid \<Rightarrow> 'a queue_op \<Rightarrow> 'a lf_queue \<times> 'a queue_pc" where
  "queue_beg s t (Enqueue v) =
     (s\<lparr>q_cells := (q_cells s)(q_brk s := \<lparr>next_of = None, v_of = v\<rparr>), q_brk := Suc (q_brk s)\<rparr>,
      EnqTail (q_brk s))"
| "queue_beg s t Dequeue = (s, DeqHead)"

fun queue_enq_step :: "'a lf_queue \<Rightarrow> 'a queue_pc \<Rightarrow> 'a lf_queue \<times> ('a queue_pc, 'a resp) thread"
where
  "queue_enq_step s (EnqTail i) = (s, Busy (EnqNext i (q_tail s)))"
| "queue_enq_step s (EnqNext i lastp) =
     (case lastp of
        None \<Rightarrow> (s, Panic)
      | Some l \<Rightarrow> (s, Busy (EnqCheck i lastp (next_of (q_cells s l)))))"
| "queue_enq_step s (EnqCheck i lastp lastnext) =
     (if lastp = q_tail s
      then (if lastnext = None then (s, Busy (EnqLink i lastp))
            else (s, Busy (EnqHelp i lastp lastnext)))
      else (s, Busy (EnqTail i)))"
| "queue_enq_step s (EnqLink i lastp) =
     (case lastp of
        None \<Rightarrow> (s, Panic)
      | Some l \<Rightarrow>
          if next_of (q_cells s l) = None
          then (s\<lparr>q_cells := (q_cells s)(l := (q_cells s l)\<lparr>next_of := Some i\<rparr>)\<rparr>,
                Busy (EnqSwing i lastp))
          else (s, Busy (EnqTail i)))"
| "queue_enq_step s (EnqSwing i lastp) =
     ((if q_tail s = lastp then s\<lparr>q_tail := Some i\<rparr> else s), Busy EnqLen)"
| "queue_enq_step s EnqLen = (s\<lparr>q_len := q_len s + 1\<rparr>, Return Ack)"
| "queue_enq_step s (EnqHelp i lastp lastnext) =
     ((if q_tail s = lastp then s\<lparr>q_tail := lastnext\<rparr> else s), Busy (EnqTail i))"
| "queue_enq_step s _ = (s, Panic)"

fun queue_deq_step :: "'a lf_queue \<Rightarrow> 'a queue_pc \<Rightarrow> 'a lf_queue \<times> ('a queue_pc, 'a resp) thread"
where
  "queue_deq_step s DeqHead = (s, Busy (DeqTail (q_head s)))"
| "queue_deq_step s (DeqTail first) = (s, Busy (DeqNext first (q_tail s)))"
| "queue_deq_step s (DeqNext first lastp) =
     (case first of
        None \<Rightarrow> (s, Panic)
      | Some f \<Rightarrow> (s, Busy (DeqCheck first lastp (next_of (q_cells s f)))))"
| "queue_deq_step s (DeqCheck first lastp firstnext) =
     (if first = q_head s
      then (if first = lastp
            then (if firstnext = None then (s, Return (Got None))
                  else (s, Busy (DeqHelp lastp firstnext)))
            else (s, Busy (DeqValue first firstnext)))
      else (s, Busy DeqHead))"
| "queue_deq_step s (DeqHelp lastp firstnext) =
     ((if q_tail s = lastp then s\<lparr>q_tail := firstnext\<rparr> else s), Busy DeqHead)"
| "queue_deq_step s (DeqValue first firstnext) =
     (case firstnext of
        None \<Rightarrow> (s, Panic)
      | Some n \<Rightarrow> (s, Busy (DeqCas first firstnext (v_of (q_cells s n)))))"
| "queue_deq_step s (DeqCas first firstnext v) =
     (if q_head s = first then (s\<lparr>q_head := firstnext\<rparr>, Busy (DeqLen v)) else (s, Busy DeqHead))"
| "queue_deq_step s (DeqLen v) = (s\<lparr>q_len := q_len s + NOT 0\<rparr>, Return (Got (Some v)))"
| "queue_deq_step s _ = (s, Panic)"

fun is_enq :: "'a queue_pc \<Rightarrow> bool" where
  "is_enq (EnqTail i) = True"
| "is_enq (EnqNext i l) = True"
| "is_enq (EnqCheck i l n) = True"
| "is_enq (EnqLink i l) = True"
| "is_enq (EnqSwing i l) = True"
| "is_enq EnqLen = True"
| "is_enq (EnqHelp i l n) = True"
| "is_enq _ = False"

definition queue_step :: "'a lf_queue \<Rightarrow> tid \<Rightarrow> 'a queue_pc \<Rightarrow>
    'a lf_queue \<times> ('a queue_pc, 'a resp) thread" where
  "queue_step s t p = (if is_enq p then queue_enq_step s p else queue_deq_step s p)"

definition queue_machine :: "'a \<Rightarrow> ('a lf_queue, 'a queue_pc, 'a queue_op, 'a resp) machine" where
  "queue_machine zero =
     \<lparr>sh0 = NewQueue zero, can = (\<lambda>_ _ _. True), beg = queue_beg, stp = queue_step\<rparr>"

definition queue_Length :: "'a lf_queue \<Rightarrow> u64" where
  "queue_Length s = q_len s"

lemma queue_machine_simps [simp]:
  "sh0 (queue_machine zero) = NewQueue zero" "can (queue_machine zero) s t op = True"
  "beg (queue_machine zero) = queue_beg" "stp (queue_machine zero) = queue_step"
  by (simp_all add: queue_machine_def)

subsection \<open>Invariant\<close>

text \<open>
  Ghost state: all cells ever linked, from the first dummy on; the positions of \<open>head\<close> and
  \<open>tail\<close> in that list; the owners of the cells not yet linked.
\<close>

record queue_ghost =
  chain :: "loc list"
  hd_at :: nat
  tl_at :: nat
  owner :: "loc \<Rightarrow> tid option"

definition nexts :: "'a lf_queue \<Rightarrow> loc \<Rightarrow> ptr" where
  "nexts s l = next_of (q_cells s l)"

definition chained :: "(loc \<Rightarrow> ptr) \<Rightarrow> loc list \<Rightarrow> bool" where
  "chained nx ch \<longleftrightarrow> distinct ch \<and> ch \<noteq> [] \<and>
     (\<forall>i < length ch. nx (ch ! i) = (if Suc i < length ch then Some (ch ! Suc i) else None))"

definition queue_inv :: "'a lf_queue \<Rightarrow> queue_ghost \<Rightarrow> bool" where
  "queue_inv s g \<longleftrightarrow>
     chained (nexts s) (chain g) \<and>
     (\<forall>l \<in> set (chain g). l < q_brk s \<and> owner g l = None) \<and>
     (\<forall>l. q_brk s \<le> l \<longrightarrow> owner g l = None) \<and>
     hd_at g \<le> tl_at g \<and> tl_at g < length (chain g) \<and> length (chain g) \<le> tl_at g + 2 \<and>
     q_head s = Some (chain g ! hd_at g) \<and> q_tail s = Some (chain g ! tl_at g)"

definition queue_abs :: "'a lf_queue \<Rightarrow> queue_ghost \<Rightarrow> 'a list" where
  "queue_abs s g = map (\<lambda>l. v_of (q_cells s l)) (drop (Suc (hd_at g)) (chain g))"

text \<open>\<open>p\<close> points to the cell at position \<open>i\<close> of the chain.\<close>

definition at_pos :: "queue_ghost \<Rightarrow> nat \<Rightarrow> ptr \<Rightarrow> bool" where
  "at_pos g i p \<longleftrightarrow> i < length (chain g) \<and> p = Some (chain g ! i)"

definition mine :: "'a lf_queue \<Rightarrow> queue_ghost \<Rightarrow> tid \<Rightarrow> loc \<Rightarrow> ('a queue_op, 'a resp) status \<Rightarrow> bool"
where
  "mine s g t i st \<longleftrightarrow> owner g i = Some t \<and> nexts s i = None \<and>
     st = Wait (Enqueue (v_of (q_cells s i))) {}"

fun queue_ok :: "'a lf_queue \<Rightarrow> queue_ghost \<Rightarrow> tid \<Rightarrow> 'a queue_pc \<Rightarrow>
    ('a queue_op, 'a resp) status \<Rightarrow> bool" where
  "queue_ok s g t (EnqTail i) st \<longleftrightarrow> mine s g t i st"
| "queue_ok s g t (EnqNext i lastp) st \<longleftrightarrow> mine s g t i st \<and> (\<exists>j. at_pos g j lastp \<and> j \<le> tl_at g)"
| "queue_ok s g t (EnqCheck i lastp n) st \<longleftrightarrow> mine s g t i st \<and>
     (\<exists>j. at_pos g j lastp \<and> j \<le> tl_at g \<and> (n \<noteq> None \<longrightarrow> at_pos g (Suc j) n))"
| "queue_ok s g t (EnqLink i lastp) st \<longleftrightarrow> mine s g t i st \<and> (\<exists>j. at_pos g j lastp \<and> j \<le> tl_at g)"
| "queue_ok s g t (EnqSwing i lastp) st \<longleftrightarrow>
     st = Done Ack \<and> (\<exists>j. at_pos g j lastp \<and> at_pos g (Suc j) (Some i))"
| "queue_ok s g t EnqLen st \<longleftrightarrow> st = Done Ack"
| "queue_ok s g t (EnqHelp i lastp n) st \<longleftrightarrow> mine s g t i st \<and> (\<exists>j. at_pos g j lastp \<and> at_pos g (Suc j) n)"
| "queue_ok s g t DeqHead st \<longleftrightarrow> (\<exists>R. st = Wait Dequeue R)"
| "queue_ok s g t (DeqTail first) st \<longleftrightarrow>
     (\<exists>R. st = Wait Dequeue R) \<and> (\<exists>i. at_pos g i first \<and> i \<le> hd_at g)"
| "queue_ok s g t (DeqNext first lastp) st \<longleftrightarrow>
     (\<exists>R. st = Wait Dequeue R) \<and>
     (\<exists>i j. at_pos g i first \<and> i \<le> hd_at g \<and> at_pos g j lastp \<and> i \<le> j \<and> j \<le> tl_at g)"
| "queue_ok s g t (DeqCheck first lastp n) st \<longleftrightarrow>
     (\<exists>R i j. st = Wait Dequeue R \<and> at_pos g i first \<and> i \<le> hd_at g \<and> at_pos g j lastp \<and> i \<le> j \<and>
        j \<le> tl_at g \<and> (n \<noteq> None \<longrightarrow> at_pos g (Suc i) n) \<and> (i \<noteq> j \<longrightarrow> n \<noteq> None) \<and>
        (i = j \<longrightarrow> n = None \<longrightarrow> Got None \<in> R))"
| "queue_ok s g t (DeqHelp lastp n) st \<longleftrightarrow>
     (\<exists>R. st = Wait Dequeue R) \<and> (\<exists>j. at_pos g j lastp \<and> at_pos g (Suc j) n)"
| "queue_ok s g t (DeqValue first n) st \<longleftrightarrow>
     (\<exists>R. st = Wait Dequeue R) \<and> (\<exists>i. at_pos g i first \<and> i < tl_at g \<and> at_pos g (Suc i) n)"
| "queue_ok s g t (DeqCas first n v) st \<longleftrightarrow>
     (\<exists>R. st = Wait Dequeue R) \<and>
     (\<exists>i. at_pos g i first \<and> i < tl_at g \<and> at_pos g (Suc i) n \<and> v = v_of (q_cells s (chain g ! Suc i)))"
| "queue_ok s g t (DeqLen v) st \<longleftrightarrow> st = Done (Got (Some v))"

definition queue_rely :: "tid \<Rightarrow> 'a lf_queue \<Rightarrow> queue_ghost \<Rightarrow> 'a lf_queue \<Rightarrow> queue_ghost \<Rightarrow> bool"
where
  "queue_rely t s g s' g' \<longleftrightarrow>
     (\<exists>zs. chain g' = chain g @ zs) \<and> hd_at g \<le> hd_at g' \<and> tl_at g \<le> tl_at g' \<and>
     (\<forall>l \<in> set (chain g). v_of (q_cells s' l) = v_of (q_cells s l)) \<and>
     (\<forall>l u. u \<noteq> t \<longrightarrow> owner g l = Some u \<longrightarrow> owner g' l = Some u \<and> q_cells s' l = q_cells s l)"

lemma queue_rely_refl [simp]: "queue_rely t s g s g"
  by (simp add: queue_rely_def)

lemma at_stable: "queue_rely t s g s' g' \<Longrightarrow> at_pos g i p \<Longrightarrow> at_pos g' i p"
  by (auto simp: queue_rely_def at_pos_def nth_append)

lemma mine_stable: "queue_rely t s g s' g' \<Longrightarrow> u \<noteq> t \<Longrightarrow> mine s g u i st \<Longrightarrow> mine s' g' u i st"
  by (auto simp: queue_rely_def mine_def nexts_def)

lemma queue_rely_mono:
  "queue_rely t s g s' g' \<Longrightarrow> hd_at g \<le> hd_at g' \<and> tl_at g \<le> tl_at g'"
  by (simp add: queue_rely_def)

lemma queue_rely_val:
  "queue_rely t s g s' g' \<Longrightarrow> i < length (chain g) \<Longrightarrow>
     v_of (q_cells s' (chain g' ! i)) = v_of (q_cells s (chain g ! i))"
  by (auto simp: queue_rely_def nth_append)

lemma queue_stable:
  assumes r: "queue_rely t s g s' g'" and u: "u \<noteq> t" and ok: "queue_ok s g u p st"
  shows "queue_ok s' g' u p st"
proof -
  note st_at = at_stable [OF r] and m = mine_stable [OF r u]
  have le: "hd_at g \<le> hd_at g'" "tl_at g \<le> tl_at g'" using queue_rely_mono [OF r] by simp_all
  show ?thesis
  proof (cases p)
    case (DeqCheck first lastp n)
    from ok [unfolded DeqCheck queue_ok.simps] obtain R i j where "st = Wait Dequeue R" "at_pos g i first" "i \<le> hd_at g"
      "at_pos g j lastp" "i \<le> j" "j \<le> tl_at g" "n \<noteq> None \<longrightarrow> at_pos g (Suc i) n"
      "i \<noteq> j \<longrightarrow> n \<noteq> None" "i = j \<longrightarrow> n = None \<longrightarrow> Got None \<in> R"
      by blast
    with le st_at show ?thesis unfolding DeqCheck queue_ok.simps
      by (intro exI [of _ R] exI [of _ i] exI [of _ j]) auto
  next
    case (DeqCas first n v)
    with ok obtain i where i: "at_pos g i first" "i < tl_at g" "at_pos g (Suc i) n"
      "v = v_of (q_cells s (chain g ! Suc i))" "\<exists>R. st = Wait Dequeue R" by auto
    then have "v = v_of (q_cells s' (chain g' ! Suc i))"
      using queue_rely_val [OF r, of "Suc i"] by (simp add: at_pos_def)
    with i le st_at show ?thesis unfolding DeqCas queue_ok.simps
      by (intro conjI exI [of _ i]) auto
  qed (use ok st_at m le in \<open>auto, (meson order_trans less_le_trans)+\<close>)
qed


subsection \<open>Chains\<close>

lemma chained_cong: "chained nx ch \<Longrightarrow> (\<And>l. l \<in> set ch \<Longrightarrow> nx' l = nx l) \<Longrightarrow> chained nx' ch"
  by (auto simp: chained_def)

lemma chained_next:
  "chained nx ch \<Longrightarrow> i < length ch \<Longrightarrow>
     nx (ch ! i) = (if Suc i < length ch then Some (ch ! Suc i) else None)"
  by (simp add: chained_def)

lemma chained_snoc:
  assumes "chained nx ch" and "i \<notin> set ch" and "nx i = None" and "j < length ch" "nx (ch ! j) = None"
  shows "chained (nx(ch ! j := Some i)) (ch @ [i])" and "Suc j = length ch"
proof -
  have d: "distinct ch" using assms(1) by (simp add: chained_def)
  show j: "Suc j = length ch"
    using chained_next [OF assms(1,4)] assms(4,5) by (auto split: if_splits)
  have "(nx(ch ! j := Some i)) ((ch @ [i]) ! k) =
      (if Suc k < length (ch @ [i]) then Some ((ch @ [i]) ! Suc k) else None)"
    if kl: "k < length (ch @ [i])" for k
  proof -
    consider "k = Suc j" | "k = j" | "k < j" using kl j by fastforce
    then show ?thesis
    proof cases
      case 1
      then have "(ch @ [i]) ! k = i" "i \<noteq> ch ! j" using j assms(2,4) by (auto simp: nth_append)
      with 1 j assms(3) show ?thesis by simp
    next
      case 2
      with j show ?thesis by (auto simp: nth_append)
    next
      case 3
      with j assms(4) have k: "k < length ch" "Suc k < length ch" "ch ! k \<noteq> ch ! j"
        using d by (auto simp: nth_eq_iff_index_eq)
      then show ?thesis using chained_next [OF assms(1) k(1)] by (simp add: nth_append)
    qed
  qed
  then show "chained (nx(ch ! j := Some i)) (ch @ [i])"
    using assms(2) d by (simp add: chained_def)
qed

lemma at_pos_inj: "chained nx (chain g) \<Longrightarrow> at_pos g i p \<Longrightarrow> at_pos g j p \<Longrightarrow> i = j"
  by (auto simp: at_pos_def chained_def nth_eq_iff_index_eq)

lemma queue_invD:
  assumes "queue_inv s g"
  shows "chained (nexts s) (chain g)" and "hd_at g \<le> tl_at g" and "tl_at g < length (chain g)"
    and "at_pos g (hd_at g) (q_head s)" and "at_pos g (tl_at g) (q_tail s)"
  using assms by (auto simp: queue_inv_def at_pos_def)

lemma at_pos_next:
  assumes "queue_inv s g" and "at_pos g i (Some l)" and "nexts s l = n"
  shows "n \<noteq> None \<Longrightarrow> at_pos g (Suc i) n" and "n = None \<Longrightarrow> Suc i = length (chain g)"
  using assms chained_next [OF queue_invD(1) [OF assms(1)], of i]
  by (auto simp: at_pos_def split: if_splits)

subsection \<open>Steps\<close>

lemma queue_begin:
  assumes "queue_inv s g" and "queue_beg s t op = (s', p)"
  shows "\<exists>g'. queue_inv s' g' \<and> queue_abs s' g' = queue_abs s g \<and>
    queue_ok s' g' t p (Wait op {}) \<and> queue_rely t s g s' g'"
proof (cases op)
  case (Enqueue v)
  let ?b = "q_brk s"
  let ?g' = "g\<lparr>owner := (owner g)(?b := Some t)\<rparr>"
  have fresh: "?b \<notin> set (chain g)" using assms(1) by (auto simp: queue_inv_def)
  have s': "s' = s\<lparr>q_cells := (q_cells s)(?b := \<lparr>next_of = None, v_of = v\<rparr>), q_brk := Suc ?b\<rparr>"
    "p = EnqTail ?b"
    using assms(2) by (simp_all add: Enqueue)
  have "chained (nexts s') (chain g)"
    using fresh queue_invD(1) [OF assms(1)] 
    by (elim chained_cong) (auto simp: s' nexts_def)
  then have "queue_inv s' ?g'"
    using assms(1) fresh by (auto simp: queue_inv_def s' less_Suc_eq)
  moreover have "queue_abs s' ?g' = queue_abs s g"
    using fresh by (auto simp: queue_abs_def s' dest: in_set_dropD)
  moreover have "queue_rely t s g s' ?g'"
    using assms(1) fresh by (auto simp: queue_rely_def queue_inv_def s')
  ultimately show ?thesis
    by (intro exI [of _ ?g']) (simp add: s' Enqueue mine_def nexts_def)
next
  case Dequeue
  with assms show ?thesis by (intro exI [of _ g]) auto
qed

text \<open>A move of the tail to its successor, and a move of the head.\<close>

lemma queue_tail_move:
  assumes "queue_inv s g" and "at_pos g j lastp" and "at_pos g (Suc j) n" and "q_tail s = lastp"
  defines "s' \<equiv> s\<lparr>q_tail := n\<rparr>" and "g' \<equiv> g\<lparr>tl_at := Suc (tl_at g)\<rparr>"
  shows "queue_inv s' g'" and "queue_abs s' g' = queue_abs s g" and "queue_rely t s g s' g'"
proof -
  have "j = tl_at g"
    using at_pos_inj [OF queue_invD(1) [OF assms(1)] assms(2)] queue_invD(5) [OF assms(1)] assms(4)
    by simp
  then show "queue_inv s' g'" using assms(1,3)
    by (auto simp: queue_inv_def s'_def g'_def at_pos_def nexts_def [abs_def])
qed (simp_all add: queue_abs_def queue_rely_def s'_def g'_def)

lemma queue_tail_cas:
  assumes "queue_inv s g" and "at_pos g j lastp" and "at_pos g (Suc j) n"
  defines "s' \<equiv> (if q_tail s = lastp then s\<lparr>q_tail := n\<rparr> else s)"
  shows "\<exists>g'. queue_inv s' g' \<and> queue_abs s' g' = queue_abs s g \<and> queue_rely t s g s' g' \<and>
    owner g' = owner g"
proof (cases "q_tail s = lastp")
  case True
  with queue_tail_move [OF assms(1-3)] show ?thesis
    by (intro exI [of _ "g\<lparr>tl_at := Suc (tl_at g)\<rparr>"]) (simp add: s'_def)
next
  case False
  with assms(1) show ?thesis by (intro exI [of _ g]) (simp add: s'_def)
qed

lemma queue_link:
  assumes inv: "queue_inv s g" and at: "at_pos g j (Some l)" "j \<le> tl_at g"
    and m: "mine s g t i st" and n: "nexts s l = None"
  defines "s' \<equiv> s\<lparr>q_cells := (q_cells s)(l := (q_cells s l)\<lparr>next_of := Some i\<rparr>)\<rparr>"
  defines "g' \<equiv> g\<lparr>chain := chain g @ [i], owner := (owner g)(i := None)\<rparr>"
  shows "queue_inv s' g'" and "queue_abs s' g' = queue_abs s g @ [v_of (q_cells s i)]"
    and "queue_rely t s g s' g'" and "at_pos g' j (Some l)" "at_pos g' (Suc j) (Some i)"
proof -
  have l: "l = chain g ! j" "j < length (chain g)" using at by (auto simp: at_pos_def)
  have i: "i \<notin> set (chain g)" "owner g i = Some t" "nexts s i = None" "i < q_brk s"
    using m inv by (auto simp: mine_def queue_inv_def not_le [symmetric])
  note ch = chained_snoc [OF queue_invD(1) [OF inv] i(1,3) l(2)]
  have len: "Suc j = length (chain g)" and "chained ((nexts s)(l := Some i)) (chain g @ [i])"
    using ch n l by auto
  moreover have "nexts s' = (nexts s)(l := Some i)" by (auto simp: nexts_def s'_def)
  ultimately show "queue_inv s' g'"
    using inv at(2) i(4) l(2) by (auto simp: queue_inv_def s'_def g'_def nth_append)
  have "Suc (hd_at g) \<le> length (chain g)" using queue_invD(2,3) [OF inv] by simp
  then show "queue_abs s' g' = queue_abs s g @ [v_of (q_cells s i)]"
    using i(1) by (auto simp: queue_abs_def s'_def g'_def)
  show "queue_rely t s g s' g'" using i(2) l inv
    by (auto simp: queue_rely_def s'_def g'_def queue_inv_def)
  show "at_pos g' j (Some l)" "at_pos g' (Suc j) (Some i)"
    using l len by (auto simp: at_pos_def g'_def nth_append)
qed

lemma mine_same: "owner g' = owner g \<Longrightarrow> q_cells s' = q_cells s \<Longrightarrow> mine s' g' t i st = mine s g t i st"
  by (simp add: mine_def nexts_def)

lemma queue_enq_sim:
  assumes inv: "queue_inv s g" and ok: "queue_ok s g t p st" and p: "is_enq p"
    and step: "queue_enq_step s p = (s', x)"
  shows "\<exists>g' st'. own_move queue_spec (queue_abs s g) st (queue_abs s' g') st' \<and>
    queue_inv s' g' \<and> thread_ok (queue_ok s' g' t) x st' \<and> queue_rely t s g s' g'"
proof (cases p)
  case (EnqTail i)
  with ok step inv queue_invD(5) [OF inv] show ?thesis
    by (intro exI [of _ g] exI [of _ st]) (auto intro: own_move.stay)
next
  case (EnqNext i lastp)
  with ok obtain j l where "mine s g t i st" "at_pos g j lastp" "j \<le> tl_at g" "lastp = Some l"
    by (auto simp: at_pos_def)
  then have "queue_ok s g t (EnqCheck i lastp (nexts s l)) st"
    using at_pos_next(1) [OF inv, of j l] by (auto intro!: exI [of _ j])
  with EnqNext step inv \<open>lastp = Some l\<close> show ?thesis
    by (intro exI [of _ g] exI [of _ st]) (auto simp: nexts_def intro: own_move.stay)
next
  case (EnqCheck i lastp n)
  with ok step inv show ?thesis
    by (intro exI [of _ g] exI [of _ st]) (auto split: if_splits intro: own_move.stay)
next
  case (EnqLink i lastp)
  with ok obtain j l where a: "mine s g t i st" "at_pos g j (Some l)" "j \<le> tl_at g" "lastp = Some l"
    by (auto simp: at_pos_def)
  show ?thesis
  proof (cases "nexts s l = None")
    case True
    note q = queue_link [OF inv a(2,3,1) True]
    have "st = Wait (Enqueue (v_of (q_cells s i))) {}" using a(1) by (simp add: mine_def)
    then have "own_move queue_spec (queue_abs s g) st (queue_abs s g @ [v_of (q_cells s i)]) (Done Ack)"
      by (auto intro: own_move.effect)
    with q EnqLink a(4) step True show ?thesis
      by (intro exI [of _ "g\<lparr>chain := chain g @ [i], owner := (owner g)(i := None)\<rparr>"]
          exI [of _ "Done Ack"]) (auto simp: nexts_def)
  next
    case False
    with EnqLink a step inv show ?thesis
      by (intro exI [of _ g] exI [of _ st]) (auto simp: nexts_def intro: own_move.stay)
  qed
next
  case (EnqSwing i lastp)
  with ok obtain j where "at_pos g j lastp" "at_pos g (Suc j) (Some i)" "st = Done Ack" by auto
  moreover from this queue_tail_cas [OF inv, of j lastp "Some i" t] obtain g' where
    "queue_inv s' g'" "queue_abs s' g' = queue_abs s g" "queue_rely t s g s' g'"
    using EnqSwing step by auto
  ultimately show ?thesis using EnqSwing step
    by (intro exI [of _ g'] exI [of _ st]) (auto intro: own_move.stay)
next
  case EnqLen
  with ok step inv show ?thesis
    by (intro exI [of _ g] exI [of _ st])
      (auto simp: queue_inv_def queue_abs_def queue_rely_def nexts_def [abs_def] intro: own_move.stay)
next
  case (EnqHelp i lastp n)
  with ok obtain j where a: "at_pos g j lastp" "at_pos g (Suc j) n" "mine s g t i st" by auto
  from queue_tail_cas [OF inv a(1,2), of t] obtain g' where g': "queue_inv s' g'"
    "queue_abs s' g' = queue_abs s g" "queue_rely t s g s' g'" "owner g' = owner g"
    using EnqHelp step by auto
  have "mine s' g' t i st" using a(3) g'(4) EnqHelp step by (subst mine_same [of g' g s' s]) auto
  with g' EnqHelp step show ?thesis
    by (intro exI [of _ g'] exI [of _ st]) (auto intro: own_move.stay)
qed (use p in auto)


text \<open>A successful dequeue, and the moment at which an empty one is justified.\<close>

lemma queue_head_move:
  assumes inv: "queue_inv s g" and at: "at_pos g i first" "i < tl_at g" "at_pos g (Suc i) n"
    and hd: "q_head s = first"
  defines "s' \<equiv> s\<lparr>q_head := n\<rparr>" and "g' \<equiv> g\<lparr>hd_at := Suc (hd_at g)\<rparr>"
  shows "queue_inv s' g'" and "queue_rely t s g s' g'"
    and "queue_abs s g = v_of (q_cells s (chain g ! Suc i)) # queue_abs s' g'"
proof -
  have i: "i = hd_at g"
    using at_pos_inj [OF queue_invD(1) [OF inv] at(1)] queue_invD(4) [OF inv] hd by simp
  then show "queue_inv s' g'" using inv at(2,3)
    by (auto simp: queue_inv_def s'_def g'_def at_pos_def nexts_def [abs_def])
  show "queue_rely t s g s' g'" by (simp add: queue_rely_def s'_def g'_def)
  have "Suc i < length (chain g)" using at(3) by (simp add: at_pos_def)
  then show "queue_abs s g = v_of (q_cells s (chain g ! Suc i)) # queue_abs s' g'"
    by (simp add: queue_abs_def s'_def g'_def i Cons_nth_drop_Suc [symmetric])
qed

lemma queue_next_read:
  assumes inv: "queue_inv s g" and at: "at_pos g i (Some f)" "i \<le> hd_at g"
    "at_pos g j lastp" "i \<le> j" "j \<le> tl_at g" and st: "st = Wait Dequeue R"
  shows "\<exists>st'. own_move queue_spec (queue_abs s g) st (queue_abs s g) st' \<and>
    queue_ok s g t (DeqCheck (Some f) lastp (nexts s f)) st'"
proof (cases "nexts s f")
  case None
  with at_pos_next(2) [OF inv at(1)] have len: "Suc i = length (chain g)" by simp
  then have "queue_abs s g = []" using at(2) by (simp add: queue_abs_def)
  then have "own_move queue_spec (queue_abs s g) st (queue_abs s g) (Wait Dequeue (insert (Got None) R))"
    unfolding st by (intro own_move.remember) simp
  moreover have "i = j" using at(3,4) len by (simp add: at_pos_def)
  ultimately show ?thesis using at None
    by (intro exI [of _ "Wait Dequeue (insert (Got None) R)"]) auto
next
  case (Some n)
  with at_pos_next(1) [OF inv at(1)] have "at_pos g (Suc i) (Some n)" by simp
  with Some at st show ?thesis
    by (intro exI [of _ st] conjI own_move.stay) (simp, blast)
qed

lemma queue_deq_sim:
  assumes inv: "queue_inv s g" and ok: "queue_ok s g t p st" and p: "\<not> is_enq p"
    and step: "queue_deq_step s p = (s', x)"
  shows "\<exists>g' st'. own_move queue_spec (queue_abs s g) st (queue_abs s' g') st' \<and>
    queue_inv s' g' \<and> thread_ok (queue_ok s' g' t) x st' \<and> queue_rely t s g s' g'"
proof (cases p)
  case DeqHead
  with ok step inv queue_invD(4) [OF inv] show ?thesis
    by (intro exI [of _ g] exI [of _ st]) (auto intro: own_move.stay)
next
  case (DeqTail first)
  with ok obtain i where "at_pos g i first" "i \<le> hd_at g" "\<exists>R. st = Wait Dequeue R" by auto
  moreover have "hd_at g \<le> tl_at g" by (rule queue_invD(2) [OF inv])
  ultimately have "queue_ok s g t (DeqNext first (q_tail s)) st"
    using queue_invD(5) [OF inv] unfolding queue_ok.simps
    by (intro conjI exI [of _ i] exI [of _ "tl_at g"]) auto
  with DeqTail step inv show ?thesis
    by (intro exI [of _ g] exI [of _ st]) (auto intro: own_move.stay simp del: queue_ok.simps)
next
  case (DeqNext first lastp)
  with ok obtain i j f R where a: "at_pos g i (Some f)" "i \<le> hd_at g" "at_pos g j lastp" "i \<le> j"
    "j \<le> tl_at g" "st = Wait Dequeue R" "first = Some f" by (auto simp: at_pos_def)
  from queue_next_read [OF inv a(1-6), of t] obtain st' where
    "own_move queue_spec (queue_abs s g) st (queue_abs s g) st'"
    "queue_ok s g t (DeqCheck (Some f) lastp (nexts s f)) st'" by blast
  with DeqNext step a(7) inv show ?thesis
    by (intro exI [of _ g] exI [of _ st']) (auto simp: nexts_def simp del: queue_ok.simps)
next
  case (DeqCheck first lastp n)
  from ok [unfolded DeqCheck queue_ok.simps] obtain R i j where a: "st = Wait Dequeue R"
    "at_pos g i first" "i \<le> hd_at g" "at_pos g j lastp" "i \<le> j" "j \<le> tl_at g"
    "n \<noteq> None \<longrightarrow> at_pos g (Suc i) n" "i \<noteq> j \<longrightarrow> n \<noteq> None" "i = j \<longrightarrow> n = None \<longrightarrow> Got None \<in> R"
    by blast
  have "first = lastp \<longleftrightarrow> i = j"
    using a(2,4) at_pos_inj [OF queue_invD(1) [OF inv]] by (auto simp: at_pos_def)
  moreover have "i \<noteq> j \<Longrightarrow> queue_ok s g t (DeqValue first n) st"
    using a unfolding queue_ok.simps by (intro conjI exI [of _ i]) auto
  moreover have "i = j \<Longrightarrow> n \<noteq> None \<Longrightarrow> queue_ok s g t (DeqHelp lastp n) st"
    using a unfolding queue_ok.simps by (intro conjI exI [of _ j]) auto
  ultimately have "thread_ok (queue_ok s g t) x st" and "s' = s"
    using a(1,9) DeqCheck step
    by (auto split: if_splits simp del: queue_ok.simps simp: queue_ok.simps(8))
  with inv show ?thesis by (intro exI [of _ g] exI [of _ st]) (auto intro: own_move.stay)
next
  case (DeqHelp lastp n)
  with ok obtain j where a: "at_pos g j lastp" "at_pos g (Suc j) n" "\<exists>R. st = Wait Dequeue R" by auto
  from queue_tail_cas [OF inv a(1,2), of t] obtain g' where g': "queue_inv s' g'"
    "queue_abs s' g' = queue_abs s g" "queue_rely t s g s' g'"
    using DeqHelp step by auto
  with a(3) DeqHelp step show ?thesis
    by (intro exI [of _ g'] exI [of _ st]) (auto intro: own_move.stay)
next
  case (DeqValue first n)
  with ok obtain i where a: "at_pos g i first" "i < tl_at g" "at_pos g (Suc i) n"
    "\<exists>R. st = Wait Dequeue R" by auto
  then have "queue_ok s g t (DeqCas first n (v_of (q_cells s (chain g ! Suc i)))) st"
    unfolding queue_ok.simps by blast
  moreover have "n = Some (chain g ! Suc i)" using a(3) by (simp add: at_pos_def)
  ultimately show ?thesis using DeqValue step inv
    by (intro exI [of _ g] exI [of _ st]) (auto simp del: queue_ok.simps intro: own_move.stay)
next
  case (DeqCas first n v)
  with ok obtain i R where a: "at_pos g i first" "i < tl_at g" "at_pos g (Suc i) n"
    "v = v_of (q_cells s (chain g ! Suc i))" "st = Wait Dequeue R" by auto
  show ?thesis
  proof (cases "q_head s = first")
    case True
    let ?s' = "s\<lparr>q_head := n\<rparr>" and ?g' = "g\<lparr>hd_at := Suc (hd_at g)\<rparr>"
    note m = queue_head_move [OF inv a(1-3) True]
    have "own_move queue_spec (queue_abs s g) st (queue_abs ?s' ?g') (Done (Got (Some v)))"
      unfolding a(5) by (rule own_move.effect) (simp add: m(3) a(4))
    with m(1,2) True DeqCas step show ?thesis
      by (intro exI [of _ ?g'] exI [of _ "Done (Got (Some v))"]) auto
  next
    case False
    with a(5) DeqCas step inv show ?thesis
      by (intro exI [of _ g] exI [of _ st]) (auto intro: own_move.stay)
  qed
next
  case (DeqLen v)
  with ok step inv show ?thesis
    by (intro exI [of _ g] exI [of _ st])
      (auto simp: queue_inv_def queue_abs_def queue_rely_def nexts_def [abs_def] intro: own_move.stay)
qed (use p in auto)

definition queue_ghost0 :: queue_ghost where
  "queue_ghost0 = \<lparr>chain = [0], hd_at = 0, tl_at = 0, owner = (\<lambda>_. None)\<rparr>"

interpretation msq: rg_machine "queue_machine zero" queue_spec queue_ghost0
  queue_inv queue_abs queue_ok queue_rely for zero
proof
  show "queue_inv (sh0 (queue_machine zero)) queue_ghost0"
    by (simp add: queue_inv_def NewQueue_def queue_ghost0_def chained_def nexts_def)
next
  fix s :: "'a lf_queue" and g t op s' p
  assume "queue_inv s g" "beg (queue_machine zero) s t op = (s', p)"
  then show "\<exists>g'. queue_inv s' g' \<and> queue_abs s' g' = queue_abs s g \<and>
      queue_ok s' g' t p (Wait op {}) \<and> queue_rely t s g s' g'"
    using queue_begin by simp
next
  fix s :: "'a lf_queue" and g t p st s' x
  assume "queue_inv s g" "queue_ok s g t p st" "stp (queue_machine zero) s t p = (s', x)"
  then show "\<exists>g' st'. own_move queue_spec (queue_abs s g) st (queue_abs s' g') st' \<and>
      queue_inv s' g' \<and> thread_ok (queue_ok s' g' t) x st' \<and> queue_rely t s g s' g'"
    using queue_enq_sim queue_deq_sim by (cases "is_enq p") (simp_all add: queue_step_def)
next
  fix s s' :: "'a lf_queue" and g g' t u p st
  assume "queue_rely t s g s' g'" "u \<noteq> t" "queue_ok s g u p st"
  then show "queue_ok s' g' u p st" by (rule queue_stable)
qed


subsection \<open>Progress\<close>

text \<open>
  A step is quiet when it changes neither \<open>head\<close> nor \<open>tail\<close> nor the link of an allocated cell,
  that is, when it is not a successful CAS. \<open>fresh_link\<close> says that a pair of locals still agrees
  with the shared memory; a goroutine with stale locals has one failing round ahead of it.
\<close>

definition no_cas :: "('a lf_queue, 'a queue_pc, 'a resp) sys \<Rightarrow>
    ('a lf_queue, 'a queue_pc, 'a resp) sys \<Rightarrow> bool" where
  "no_cas s s' \<longleftrightarrow> q_head (fst s') = q_head (fst s) \<and> q_tail (fst s') = q_tail (fst s) \<and>
     (\<forall>l < q_brk (fst s). nexts (fst s') l = nexts (fst s) l)"

definition succ_of :: "'a lf_queue \<Rightarrow> ptr \<Rightarrow> ptr" where
  "succ_of s p = (case p of None \<Rightarrow> None | Some l \<Rightarrow> nexts s l)"

fun queue_rank :: "'a lf_queue \<Rightarrow> 'a queue_pc \<Rightarrow> nat" where
  "queue_rank s (EnqTail i) = 4"
| "queue_rank s (EnqNext i l) = (if l = q_tail s then 3 else 7)"
| "queue_rank s (EnqCheck i l n) = (if l = q_tail s \<and> n = succ_of s l then 2 else 6)"
| "queue_rank s (EnqLink i l) = (if succ_of s l = None then 1 else 5)"
| "queue_rank s (EnqHelp i l n) = (if l = q_tail s then 1 else 5)"
| "queue_rank s (EnqSwing i l) = 2"
| "queue_rank s EnqLen = 1"
| "queue_rank s DeqHead = 6"
| "queue_rank s (DeqTail f) = (if f = q_head s then 5 else 11)"
| "queue_rank s (DeqNext f l) = (if f = q_head s \<and> l = q_tail s then 4 else 10)"
| "queue_rank s (DeqCheck f l n) =
     (if f = q_head s \<and> l = q_tail s \<and> n = succ_of s f then 3 else 9)"
| "queue_rank s (DeqHelp l n) = (if l = q_tail s then 1 else 7)"
| "queue_rank s (DeqValue f n) = (if f = q_head s then 2 else 8)"
| "queue_rank s (DeqCas f n v) = (if f = q_head s then 1 else 7)"
| "queue_rank s (DeqLen v) = 1"

lemma queue_rank_pos: "0 < queue_rank s p" "queue_rank s p \<le> 11"
  by (cases p; simp)+

text \<open>The cells a busy goroutine may still dereference.\<close>

fun reads :: "'a queue_pc \<Rightarrow> ptr" where
  "reads (EnqCheck i l n) = l"
| "reads (EnqLink i l) = l"
| "reads (DeqCheck f l n) = f"
| "reads _ = None"

lemma reads_allocated:
  "queue_inv s g \<Longrightarrow> queue_ok s g t p st \<Longrightarrow> reads p = Some l \<Longrightarrow> l < q_brk s"
  by (cases p) (auto simp: queue_inv_def at_pos_def)

text \<open>The compare-and-swaps that would succeed are not quiet.\<close>

lemma queue_step_moves:
  assumes inv: "queue_inv s g" and ok: "queue_ok s g t p st" and step: "queue_step s t p = (s', x)"
    and quiet: "q_head s' = q_head s" "q_tail s' = q_tail s" "\<forall>l < q_brk s. nexts s' l = nexts s l"
  shows "p \<noteq> EnqHelp i (q_tail s) n" and "p \<noteq> DeqHelp (q_tail s) n"
    and "p \<noteq> DeqCas (q_head s) n v"
    and "p = EnqLink i lastp \<Longrightarrow> succ_of s lastp \<noteq> None"
proof -
  have neq: "\<not> at_pos g (Suc j) p'" if "at_pos g j p'" for j p'
    using that queue_invD(1) [OF inv] by (auto simp: at_pos_def chained_def nth_eq_iff_index_eq)
  show "p \<noteq> EnqHelp i (q_tail s) n" "p \<noteq> DeqHelp (q_tail s) n" "p \<noteq> DeqCas (q_head s) n v"
    using ok step quiet neq by (auto simp: queue_step_def)
  assume p: "p = EnqLink i lastp"
  then obtain l where l: "lastp = Some l" "l < q_brk s"
    using ok inv by (auto simp: at_pos_def queue_inv_def)
  show "succ_of s lastp \<noteq> None"
  proof
    assume "succ_of s lastp = None"
    then have "nexts s' l = Some i" using p l step
      by (auto simp: queue_step_def succ_of_def nexts_def)
    with quiet(3) l \<open>succ_of s lastp = None\<close> show False by (simp add: succ_of_def)
  qed
qed

lemma queue_rank_own:
  assumes inv: "queue_inv s g" and ok: "queue_ok s g t p st"
    and step: "queue_step s t p = (s', Busy p')"
    and quiet: "q_head s' = q_head s" "q_tail s' = q_tail s" "\<forall>l < q_brk s. nexts s' l = nexts s l"
  shows "queue_rank s' p' < queue_rank s p"
proof -
  note mv = queue_step_moves [OF inv ok step quiet]
  have sc: "succ_of s' (Some l) = succ_of s (Some l)" if "l < q_brk s" for l
    using quiet(3) that by (simp add: succ_of_def)
  show ?thesis using mv step quiet(1,2) sc reads_allocated [OF inv ok]
    by (cases p) (auto simp: queue_step_def succ_of_def nexts_def split: if_splits option.splits)
qed

interpretation msq: progress "queue_machine zero" "\<lambda>s t. queue_rank (fst s)" no_cas 11 for zero
proof
  fix s :: "('a lf_queue, 'a queue_pc, 'a resp) sys" and t p p' and zero :: 'a
  assume a: "reachable (queue_machine zero) s" "snd s t = Busy p"
    "no_cas s (sys_step (queue_machine zero) s (Step t))"
    "snd (sys_step (queue_machine zero) s (Step t)) t = Busy p'"
  from a(1) obtain acts where s: "s = run (queue_machine zero) acts" by (auto simp: reachable_def)
  obtain g st where g: "queue_inv (fst s) g" "all_ok (queue_ok (fst s) g) (snd s) st"
    using msq.reachable_inv [of zero acts] s by blast
  have ok: "queue_ok (fst s) g t p (st t)" using all_okD [OF g(2), of t] a(2) by simp
  obtain s' x where st: "queue_step (fst s) t p = (s', x)" by fastforce
  show "queue_rank (fst (sys_step (queue_machine zero) s (Step t))) p' < queue_rank (fst s) p"
    using a(2-4) st queue_rank_own [OF g(1) ok, of s' p'] by (cases s) (simp add: no_cas_def)
next
  fix s :: "('a lf_queue, 'a queue_pc, 'a resp) sys" and t p a and zero :: 'a
  let ?s' = "sys_step (queue_machine zero) s a"
  assume a: "reachable (queue_machine zero) s" "snd s t = Busy p" "no_cas s ?s'"
  from a(1) obtain acts where s: "s = run (queue_machine zero) acts" by (auto simp: reachable_def)
  obtain g st where g: "queue_inv (fst s) g" "all_ok (queue_ok (fst s) g) (snd s) st"
    using msq.reachable_inv [of zero acts] s by blast
  have "queue_ok (fst s) g t p (st t)" using all_okD [OF g(2), of t] a(2) by simp
  from reads_allocated [OF g(1) this] have "succ_of (fst ?s') (reads p) = succ_of (fst s) (reads p)"
    using a(3) by (cases "reads p") (auto simp: succ_of_def no_cas_def)
  then show "queue_rank (fst ?s') p \<le> queue_rank (fst s) p"
    using a(3) by (cases p) (auto simp: no_cas_def)
qed (simp_all add: queue_rank_pos)

subsection \<open>Properties\<close>

text \<open>
  C6: The Michael and Scott queue is linearizable: every schedule of any number of goroutines
  produces a history of a sequential FIFO queue on which each call takes effect at one moment
  between its invocation and its response, empty dequeues included. No goroutine ever dereferences
  \<open>nil\<close>; in particular \<open>firstnext\<close> is not \<open>nil\<close> when \<open>Dequeue\<close> reads its value.
\<close>

theorem queue_linearizable:
  "linearizable queue_spec [] (history (queue_machine zero) acts) \<and>
   snd (run (queue_machine zero) acts) t \<noteq> Panic"
  using msq.linearizable [of zero acts] msq.no_panic [of zero acts t]
  by (simp add: queue_abs_def queue_ghost0_def)

text \<open>
  C25: The queue is lock-free: a goroutine that takes eleven steps while no compare-and-swap on
  \<open>head\<close>, \<open>tail\<close> or a link succeeds has finished its call.
\<close>

theorem queue_lock_free:
  assumes "quiet_run (queue_machine zero) no_cas (run (queue_machine zero) acts) acts'"
    and "11 \<le> own_steps t acts'"
  shows "finishes (queue_machine zero) t (run (queue_machine zero) acts) acts'"
  using assms by (intro msq.finishes_within) simp_all

theorem queue_lock_free_witness:
  "finishes (queue_machine (0 :: int)) 0
     (run (queue_machine 0) [Start 0 Dequeue, Step 0]) (replicate 11 (Step 0))"
  by (rule queue_lock_free)
    (simp_all add: run_def start_sys_def NewQueue_def no_cas_def queue_step_def numeral_eq_Suc)

end
