(* ===== verification/Ring_Buffer.thy ===== *)
theory Ring_Buffer
  imports Simulation Progress "HOL-Library.While_Combinator"
begin

text \<open>
  \<open>wf/ringbuffer.go\<close>: Lamport's bounded single-producer single-consumer queue over a slice whose
  length is a power of two, with free-running \<open>uint64\<close> cursors that wrap. Every access of a
  cursor or of the slice is one step.

  Proved: \<open>nextPowerOfTwo\<close> returns the least power of two up to \<open>2^62\<close> and never returns above;
  with one producer and one consumer every schedule is linearizable to a bounded queue, across
  the wrap-around of the cursors, without panics, without two goroutines at the same slot, and
  wait-free with four (\<open>Put\<close>) or five (\<open>Get\<close>) steps. The observers \<open>Len\<close> and \<open>IsFull\<close> are modelled
  and may run at any time; they are not atomic, and the bounded queue does not describe them.
\<close>

subsection \<open>Capacity\<close>

text \<open>Doubling a Go \<open>int\<close> wraps around.\<close>

definition nextPowerOfTwo :: "int \<Rightarrow> int option" where
  "nextPowerOfTwo n = (if n < 1 then Some 1 else while_option (\<lambda>p. p < n) (\<lambda>p. wrap64 (2 * p)) 1)"

lemma npot_loop:
  assumes "m \<le> 62" and "k \<le> m" and "\<And>j. j < m \<Longrightarrow> (2::int) ^ j < n" and "n \<le> 2 ^ m"
  shows "while_option (\<lambda>p. p < n) (\<lambda>p. wrap64 (2 * p)) (2 ^ k) = Some (2 ^ m)"
  using assms(2)
proof (induction "m - k" arbitrary: k)
  case 0
  then have "k = m" by simp
  with assms(4) show ?case by (subst while_option_unfold) simp
next
  case (Suc d)
  then have k: "k < m" by simp
  have "(2::int) ^ Suc k < 2 ^ 63" using k assms(1) by (intro power_strict_increasing) auto
  moreover have "- (2 ^ 63) \<le> (2::int) ^ Suc k" by (rule order_trans [of _ 0]) simp_all
  ultimately have "wrap64 (2 * 2 ^ k) = 2 ^ Suc k"
    using wrap64_id [of "2 ^ Suc k"] unfolding power_Suc by blast
  then have "while_option (\<lambda>p. p < n) (\<lambda>p. wrap64 (2 * p)) (2 ^ k) =
      while_option (\<lambda>p. p < n) (\<lambda>p. wrap64 (2 * p)) (2 ^ Suc k)"
    using assms(3) [OF k] by (subst while_option_unfold) simp
  with Suc.hyps(1) [of "Suc k"] Suc.hyps(2) k show ?case by simp
qed

text \<open>Above \<open>2^62\<close> the doubling overflows to \<open>-2^63\<close>, then to 0, and stays there.\<close>

lemma npot_diverges:
  assumes "2 ^ 62 < (n::int)"
  shows "while_option (\<lambda>p. p < n) (\<lambda>p. wrap64 (2 * p)) 1 = None"
proof (rule ccontr)
  let ?I = "\<lambda>p::int. (\<exists>k \<le> 62. p = 2 ^ k) \<or> p = - (2 ^ 63) \<or> p = 0"
  assume "while_option (\<lambda>p. p < n) (\<lambda>p. wrap64 (2 * p)) 1 \<noteq> None"
  then obtain q where q: "while_option (\<lambda>p. p < n) (\<lambda>p. wrap64 (2 * p)) 1 = Some q" by blast
  have "?I q"
  proof (rule while_option_rule [where P = ?I, OF _ q])
    show "?I 1" by (intro disjI1 exI [of _ 0]) simp
    fix p assume "?I p"
    then consider k where "k < 62" "p = 2 ^ k" | "p = 2 ^ 62" | "p = - (2 ^ 63)" | "p = 0"
      by (metis order_le_less)
    then show "?I (wrap64 (2 * p))"
    proof cases
      case 1
      then have "(2::int) ^ Suc k < 2 ^ 63" by (intro power_strict_increasing) auto
      moreover have "- (2 ^ 63) \<le> (2::int) ^ Suc k" by (rule order_trans [of _ 0]) simp_all
      ultimately have "wrap64 (2 * p) = 2 ^ Suc k"
        using wrap64_id [of "2 ^ Suc k"] unfolding 1(2) power_Suc by blast
      with 1(1) show ?thesis by (intro disjI1 exI [of _ "Suc k"]) auto
    qed (simp_all add: wrap64_def signed_take_bit_eq_if_negative)
  qed
  moreover have "(2::int) ^ k \<le> 2 ^ 62" if "k \<le> 62" for k
    using that by (intro power_increasing) auto
  ultimately have "q < n" using assms by force
  with while_option_stop [OF q] show False by simp
qed

lemma least_power:
  assumes "1 \<le> n" and "n \<le> (2::int) ^ 62"
  shows "\<exists>m \<le> 62. n \<le> 2 ^ m \<and> (\<forall>j < m. 2 ^ j < n)"
proof (intro exI conjI)
  let ?m = "LEAST m. n \<le> (2::int) ^ m"
  show "n \<le> 2 ^ ?m" using assms(2) by (rule LeastI)
  show "?m \<le> 62" using assms(2) by (rule Least_le)
  show "\<forall>j < ?m. 2 ^ j < n" using not_less_Least by fastforce
qed

subsection \<open>Model\<close>

record 'a ring =
  buf :: "'a list"
  mask :: u64
  rhead :: u64
  rtail :: u64

definition NewRingBuffer :: "'a \<Rightarrow> int \<Rightarrow> 'a ring option" where
  "NewRingBuffer zero capacity =
     (case nextPowerOfTwo capacity of
        None \<Rightarrow> None
      | Some c \<Rightarrow> Some \<lparr>buf = replicate (nat c) zero, mask = word_of_int (c - 1), rhead = 0, rtail = 0\<rparr>)"

text \<open>\<open>len(rb.buf)\<close> as a \<open>uint64\<close>, and the index \<open>i & rb.mask\<close>.\<close>

definition blen :: "'a ring \<Rightarrow> u64" where
  "blen rb = of_nat (length (buf rb))"

definition slot_ix :: "'a ring \<Rightarrow> u64 \<Rightarrow> nat" where
  "slot_ix rb i = unat (i AND mask rb)"

datatype 'a ring_op = Put 'a | Get | Len | IsFull | IsEmpty
datatype 'a ring_resp = PutOk bool | GetOk "'a option" | LenIs int | Is bool

datatype 'a ring_pc =
    PTail 'a             \<comment> \<open>\<open>tail := rb.tail.Load()\<close>\<close>
  | PHead 'a u64         \<comment> \<open>\<open>head := rb.head.Load()\<close>, the test for a full buffer\<close>
  | PWrite 'a u64        \<comment> \<open>\<open>rb.buf[tail&rb.mask] = x\<close>\<close>
  | PStore u64           \<comment> \<open>\<open>rb.tail.Store(tail + 1)\<close>\<close>
  | GHead                \<comment> \<open>\<open>head := rb.head.Load()\<close>\<close>
  | GTail u64            \<comment> \<open>\<open>tail := rb.tail.Load()\<close>, the test for an empty buffer\<close>
  | GRead u64            \<comment> \<open>\<open>x = rb.buf[head&rb.mask]\<close>\<close>
  | GZero u64 'a         \<comment> \<open>\<open>rb.buf[head&rb.mask] = zero\<close>\<close>
  | GStore u64 'a        \<comment> \<open>\<open>rb.head.Store(head + 1)\<close>\<close>
  | LTail                \<comment> \<open>\<open>rb.tail.Load()\<close> in \<open>Len\<close>\<close>
  | LHead u64            \<comment> \<open>\<open>int(tail - rb.head.Load())\<close>\<close>
  | FTail                \<comment> \<open>\<open>rb.tail.Load()\<close> in \<open>IsFull\<close>\<close>
  | FHead u64            \<comment> \<open>\<open>tail - rb.head.Load() >= len(rb.buf)\<close>\<close>
  | EHead                \<comment> \<open>\<open>rb.head.Load()\<close> in \<open>IsEmpty\<close>\<close>
  | ETail u64            \<comment> \<open>\<open>head == rb.tail.Load()\<close>\<close>

fun ring_beg :: "'a ring \<Rightarrow> tid \<Rightarrow> 'a ring_op \<Rightarrow> 'a ring \<times> 'a ring_pc" where
  "ring_beg rb t (Put x) = (rb, PTail x)"
| "ring_beg rb t Get = (rb, GHead)"
| "ring_beg rb t Len = (rb, LTail)"
| "ring_beg rb t IsFull = (rb, FTail)"
| "ring_beg rb t IsEmpty = (rb, EHead)"

fun put_step :: "'a ring \<Rightarrow> 'a ring_pc \<Rightarrow> 'a ring \<times> ('a ring_pc, 'a ring_resp) thread" where
  "put_step rb (PTail x) = (rb, Busy (PHead x (rtail rb)))"
| "put_step rb (PHead x tw) =
     (if tw - rhead rb \<ge> blen rb then (rb, Return (PutOk False)) else (rb, Busy (PWrite x tw)))"
| "put_step rb (PWrite x tw) =
     (if slot_ix rb tw < length (buf rb)
      then (rb\<lparr>buf := (buf rb)[slot_ix rb tw := x]\<rparr>, Busy (PStore tw)) else (rb, Panic))"
| "put_step rb (PStore tw) = (rb\<lparr>rtail := tw + 1\<rparr>, Return (PutOk True))"
| "put_step rb _ = (rb, Panic)"

fun get_step :: "'a \<Rightarrow> 'a ring \<Rightarrow> 'a ring_pc \<Rightarrow> 'a ring \<times> ('a ring_pc, 'a ring_resp) thread" where
  "get_step zero rb GHead = (rb, Busy (GTail (rhead rb)))"
| "get_step zero rb (GTail hw) =
     (if hw = rtail rb then (rb, Return (GetOk None)) else (rb, Busy (GRead hw)))"
| "get_step zero rb (GRead hw) =
     (if slot_ix rb hw < length (buf rb)
      then (rb, Busy (GZero hw (buf rb ! slot_ix rb hw))) else (rb, Panic))"
| "get_step zero rb (GZero hw x) =
     (if slot_ix rb hw < length (buf rb)
      then (rb\<lparr>buf := (buf rb)[slot_ix rb hw := zero]\<rparr>, Busy (GStore hw x)) else (rb, Panic))"
| "get_step zero rb (GStore hw x) = (rb\<lparr>rhead := hw + 1\<rparr>, Return (GetOk (Some x)))"
| "get_step zero rb _ = (rb, Panic)"

fun look_step :: "'a ring \<Rightarrow> 'a ring_pc \<Rightarrow> 'a ring \<times> ('a ring_pc, 'a ring_resp) thread" where
  "look_step rb LTail = (rb, Busy (LHead (rtail rb)))"
| "look_step rb (LHead tw) = (rb, Return (LenIs (sint (tw - rhead rb))))"
| "look_step rb FTail = (rb, Busy (FHead (rtail rb)))"
| "look_step rb (FHead tw) = (rb, Return (Is (tw - rhead rb \<ge> blen rb)))"
| "look_step rb EHead = (rb, Busy (ETail (rhead rb)))"
| "look_step rb (ETail hw) = (rb, Return (Is (hw = rtail rb)))"
| "look_step rb _ = (rb, Panic)"

fun ring_step :: "'a \<Rightarrow> 'a ring \<Rightarrow> tid \<Rightarrow> 'a ring_pc \<Rightarrow>
    'a ring \<times> ('a ring_pc, 'a ring_resp) thread" where
  "ring_step zero rb t (PTail x) = put_step rb (PTail x)"
| "ring_step zero rb t (PHead x tw) = put_step rb (PHead x tw)"
| "ring_step zero rb t (PWrite x tw) = put_step rb (PWrite x tw)"
| "ring_step zero rb t (PStore tw) = put_step rb (PStore tw)"
| "ring_step zero rb t GHead = get_step zero rb GHead"
| "ring_step zero rb t (GTail hw) = get_step zero rb (GTail hw)"
| "ring_step zero rb t (GRead hw) = get_step zero rb (GRead hw)"
| "ring_step zero rb t (GZero hw x) = get_step zero rb (GZero hw x)"
| "ring_step zero rb t (GStore hw x) = get_step zero rb (GStore hw x)"
| "ring_step zero rb t p = look_step rb p"

definition ring_Cap :: "'a ring \<Rightarrow> nat" where
  "ring_Cap rb = length (buf rb)"

text \<open>
  The calling discipline: only \<open>pr\<close> calls \<open>Put\<close> and only \<open>co\<close> calls \<open>Get\<close>; they may be the
  same goroutine. \<open>obs\<close> says whether the best-effort observers are called.
\<close>

fun ring_can :: "tid \<Rightarrow> tid \<Rightarrow> bool \<Rightarrow> 'a ring \<Rightarrow> tid \<Rightarrow> 'a ring_op \<Rightarrow> bool" where
  "ring_can pr co obs rb t (Put x) = (t = pr)"
| "ring_can pr co obs rb t Get = (t = co)"
| "ring_can pr co obs rb t _ = obs"

definition ring_machine :: "'a \<Rightarrow> tid \<Rightarrow> tid \<Rightarrow> bool \<Rightarrow> 'a ring \<Rightarrow>
    ('a ring, 'a ring_pc, 'a ring_op, 'a ring_resp) machine" where
  "ring_machine zero pr co obs rb =
     \<lparr>sh0 = rb, can = ring_can pr co obs, beg = ring_beg, stp = ring_step zero\<rparr>"

lemma ring_machine_simps [simp]:
  "sh0 (ring_machine zero pr co obs rb) = rb"
  "can (ring_machine zero pr co obs rb) = ring_can pr co obs"
  "beg (ring_machine zero pr co obs rb) = ring_beg"
  "stp (ring_machine zero pr co obs rb) = ring_step zero"
  by (simp_all add: ring_machine_def)

text \<open>The bounded queue. It does not describe the observers, which are not atomic.\<close>

fun ring_spec :: "nat \<Rightarrow> 'a list \<Rightarrow> 'a ring_op \<Rightarrow> 'a list \<times> 'a ring_resp" where
  "ring_spec n xs (Put x) = (if length xs < n then (xs @ [x], PutOk True) else (xs, PutOk False))"
| "ring_spec n xs Get =
     (case xs of [] \<Rightarrow> ([], GetOk None) | x # xs' \<Rightarrow> (xs', GetOk (Some x)))"
| "ring_spec n xs Len = (xs, LenIs (int (length xs)))"
| "ring_spec n xs IsFull = (xs, Is (n \<le> length xs))"
| "ring_spec n xs IsEmpty = (xs, Is (xs = []))"

subsection \<open>Cursors\<close>

text \<open>
  \<open>ring_core n rb h\<close>: \<open>h\<close> items have been taken so far, the items \<open>xs\<close> are inside, and the
  cursors are \<open>h\<close> and \<open>h + length xs\<close> modulo \<open>2^64\<close>.
\<close>

definition ring_core :: "nat \<Rightarrow> 'a ring \<Rightarrow> nat \<Rightarrow> 'b list \<Rightarrow> bool" where
  "ring_core n rb h xs \<longleftrightarrow> (\<exists>k \<le> 62. n = 2 ^ k) \<and> length (buf rb) = n \<and> mask rb = of_nat (n - 1) \<and>
     rhead rb = of_nat h \<and> rtail rb = of_nat (h + length xs) \<and> length xs \<le> n"

lemma ring_core_bound:
  assumes "ring_core n rb h xs"
  shows "0 < n" and "n < 2 ^ 64"
proof -
  from assms obtain k where k: "k \<le> 62" "n = 2 ^ k" by (auto simp: ring_core_def)
  then show "0 < n" by simp
  have "(2::nat) ^ k < 2 ^ 64" using k(1) by (intro power_strict_increasing) auto
  with k(2) show "n < 2 ^ 64" by simp
qed

lemma slot_ix_mod:
  assumes "ring_core n rb h xs"
  shows "slot_ix rb (of_nat i) = i mod n"
proof -
  from assms obtain k where k: "k \<le> 62" "n = 2 ^ k" "mask rb = of_nat (n - 1)"
    by (auto simp: ring_core_def)
  have "(of_nat (2 ^ k - 1) :: u64) = 2 ^ k - 1" by (simp add: of_nat_diff)
  then have "(of_nat i :: u64) AND mask rb = take_bit k (of_nat i)"
    by (simp add: k(2,3) take_bit_eq_mask mask_eq_exp_minus_1)
  moreover have "unat (take_bit k (of_nat i :: u64)) = take_bit k i"
    using k(1) by (simp add: unsigned_take_bit_eq unsigned_of_nat take_bit_take_bit min_def)
  ultimately show ?thesis by (simp only: slot_ix_def k(2) take_bit_eq_mod)
qed

lemma ring_full_iff:
  assumes "ring_core n rb h xs"
  shows "rtail rb - rhead rb \<ge> blen rb \<longleftrightarrow> n \<le> length xs"
proof -
  have "rtail rb - rhead rb = of_nat (length xs)" "blen rb = of_nat n"
    using assms by (simp_all add: ring_core_def blen_def)
  moreover have "length xs < 2 ^ 64" "n < 2 ^ 64"
    using ring_core_bound [OF assms] assms by (auto simp: ring_core_def)
  ultimately show ?thesis
    by (simp add: word_of_nat_less_eq_iff take_bit_nat_eq_self)
qed

lemma ring_empty_iff:
  assumes "ring_core n rb h xs"
  shows "rhead rb = rtail rb \<longleftrightarrow> xs = []"
proof -
  have "length xs < 2 ^ 64" using ring_core_bound [OF assms] assms by (auto simp: ring_core_def)
  moreover have "rhead rb = rtail rb \<longleftrightarrow> (of_nat (length xs) :: u64) = 0"
    using assms by (auto simp: ring_core_def)
  moreover have "\<not> 2 ^ 64 dvd length xs" if "xs \<noteq> []"
    using that \<open>length xs < 2 ^ 64\<close> by (intro nat_dvd_not_less) auto
  ultimately show ?thesis by (cases "xs = []") (auto simp: word_of_nat_eq_0_iff)
qed

text \<open>The slots of the items, and the free slot of the producer, are different.\<close>

lemma slots_differ:
  assumes "i < j" and "j < i + n"
  shows "i mod n \<noteq> j mod (n::nat)"
  using assms by (metis add_diff_cancel_left' dvd_imp_le less_imp_add_positive
      mod_eq_dvd_iff_nat nat_add_left_cancel_less not_less order_less_imp_le)

subsection \<open>The simulation\<close>

text \<open>The assertions of the two goroutines; \<open>xs\<close> are the items inside.\<close>

fun ring_ok :: "nat \<Rightarrow> tid \<Rightarrow> tid \<Rightarrow> 'a ring \<Rightarrow> 'a list \<Rightarrow> tid \<Rightarrow> 'a ring_pc \<Rightarrow>
    ('a ring_op, 'a ring_resp) status \<Rightarrow> bool" where
  "ring_ok n pr co rb xs t (PTail x) s \<longleftrightarrow> t = pr \<and> s = Wait (Put x) {}"
| "ring_ok n pr co rb xs t (PHead x tw) s \<longleftrightarrow> t = pr \<and> tw = rtail rb \<and> s = Wait (Put x) {}"
| "ring_ok n pr co rb xs t (PWrite x tw) s \<longleftrightarrow>
     t = pr \<and> tw = rtail rb \<and> length xs < n \<and> s = Wait (Put x) {}"
| "ring_ok n pr co rb xs t (PStore tw) s \<longleftrightarrow>
     t = pr \<and> tw = rtail rb \<and> length xs < n \<and> s = Wait (Put (buf rb ! slot_ix rb tw)) {}"
| "ring_ok n pr co rb xs t GHead s \<longleftrightarrow> t = co \<and> s = Wait Get {}"
| "ring_ok n pr co rb xs t (GTail hw) s \<longleftrightarrow> t = co \<and> hw = rhead rb \<and> s = Wait Get {}"
| "ring_ok n pr co rb xs t (GRead hw) s \<longleftrightarrow> t = co \<and> hw = rhead rb \<and> xs \<noteq> [] \<and> s = Wait Get {}"
| "ring_ok n pr co rb xs t (GZero hw x) s \<longleftrightarrow>
     t = co \<and> hw = rhead rb \<and> xs \<noteq> [] \<and> x = hd xs \<and> s = Wait Get {}"
| "ring_ok n pr co rb xs t (GStore hw x) s \<longleftrightarrow>
     t = co \<and> hw = rhead rb \<and> xs \<noteq> [] \<and> x = hd xs \<and> s = Wait Get {}"
| "ring_ok n pr co rb xs t _ s \<longleftrightarrow> False"

text \<open>The consumer has cleared the slot of the first item and not yet moved its cursor.\<close>

fun clearing :: "('a ring_pc, 'a ring_resp) thread \<Rightarrow> bool" where
  "clearing (Busy (GStore hw x)) = True"
| "clearing _ = False"

definition contents :: "nat \<Rightarrow> 'a ring \<Rightarrow> nat \<Rightarrow> 'a list \<Rightarrow> bool \<Rightarrow> bool" where
  "contents n rb h xs z \<longleftrightarrow> (\<forall>j < length xs. j = 0 \<and> z \<or> buf rb ! ((h + j) mod n) = xs ! j)"

definition ring_rel :: "nat \<Rightarrow> tid \<Rightarrow> tid \<Rightarrow> 'a ring \<Rightarrow> (tid \<Rightarrow> ('a ring_pc, 'a ring_resp) thread) \<Rightarrow>
    'a list \<Rightarrow> (tid \<Rightarrow> ('a ring_op, 'a ring_resp) status) \<Rightarrow> bool" where
  "ring_rel n pr co rb th xs st \<longleftrightarrow>
     (\<exists>h. ring_core n rb h xs \<and> contents n rb h xs (clearing (th co))) \<and>
     all_ok (ring_ok n pr co rb xs) th st"

text \<open>A step that changes neither memory nor contents.\<close>

lemma ring_rel_still:
  assumes rel: "ring_rel n pr co rb th xs st" and x: "thread_ok (ring_ok n pr co rb xs t) x s"
    and c: "t = co \<Longrightarrow> clearing x \<longleftrightarrow> clearing (th co)"
  shows "ring_rel n pr co rb (th(t := x)) xs (st(t := s))"
proof -
  have "all_ok (ring_ok n pr co rb xs) (th(t := x)) (st(t := s))"
    using rel x unfolding ring_rel_def by (auto intro!: all_ok_upd)
  moreover have "clearing ((th(t := x)) co) \<longleftrightarrow> clearing (th co)" using c by auto
  ultimately show ?thesis using rel unfolding ring_rel_def by simp
qed

lemma put_sim:
  assumes rel: "ring_rel n pr co rb th xs st" and t: "th t = Busy p"
    and p: "p = PTail v \<or> p = PHead v tw \<or> p = PWrite v tw \<or> p = PStore tw"
    and step: "put_step rb p = (rb', x)"
  shows "\<exists>xs' s. own_move (ring_spec n) xs (st t) xs' s \<and> ring_rel n pr co rb' (th(t := x)) xs' (st(t := s))"
proof -
  from rel obtain h where core: "ring_core n rb h xs" and con: "contents n rb h xs (clearing (th co))"
    and all: "all_ok (ring_ok n pr co rb xs) th st" by (auto simp: ring_rel_def)
  have ok: "ring_ok n pr co rb xs t p (st t)" using all_okD [OF all, of t] t by simp
  have n: "0 < n" using ring_core_bound [OF core] by simp
  have tail: "rtail rb = of_nat (h + length xs)" "length (buf rb) = n"
    using core by (simp_all add: ring_core_def)
  let ?i = "(h + length xs) mod n"
  have ix: "slot_ix rb (rtail rb) = ?i" unfolding tail(1) by (rule slot_ix_mod [OF core])
  have cl: "\<not> clearing (th t)" "t = co \<Longrightarrow> \<not> clearing (th co)" using t p by auto
  from p consider "p = PTail v" | "p = PHead v tw" | "p = PWrite v tw" | "p = PStore tw" by blast
  then show ?thesis
  proof cases
    case 1
    with ok step cl ring_rel_still [OF rel, of t x "st t"] show ?thesis
      by (intro exI [of _ xs] exI [of _ "st t"]) (auto intro: own_move.stay simp del: fun_upd_apply fun_upd_triv)
  next
    case 2
    show ?thesis
    proof (cases "n \<le> length xs")
      case True
      have "st t = Wait (Put v) {}" using ok 2 by auto
      then have "own_move (ring_spec n) xs (st t) xs (Done (PutOk False))"
        using True by (simp only:, intro own_move.effect) simp
      with 2 ok step cl True ring_full_iff [OF core] ring_rel_still [OF rel, of t x "Done (PutOk False)"]
      show ?thesis by (intro exI [of _ xs] exI [of _ "Done (PutOk False)"]) (auto simp del: fun_upd_apply)
    next
      case False
      with 2 ok step cl ring_full_iff [OF core] ring_rel_still [OF rel, of t x "st t"] show ?thesis
        by (intro exI [of _ xs] exI [of _ "st t"]) (auto intro: own_move.stay simp del: fun_upd_apply fun_upd_triv)
    qed
  next
    case 3
    then have o: "tw = rtail rb" "length xs < n" "st t = Wait (Put v) {}" "t = pr" using ok by auto
    let ?rb = "rb\<lparr>buf := (buf rb)[?i := v]\<rparr>"
    have s': "rb' = ?rb" "x = Busy (PStore tw)"
      using step n by (simp_all add: 3 o(1) ix tail(2))
    have core': "ring_core n ?rb h xs" using core by (simp add: ring_core_def)
    have "buf ?rb ! ((h + j) mod n) = buf rb ! ((h + j) mod n)" if "j < length xs" for j
      using that o(2) slots_differ [of "h + j" "h + length xs" n] by simp
    then have con': "contents n ?rb h xs (clearing (th co))"
      using con by (simp add: contents_def)
    have ix': "slot_ix ?rb i = slot_ix rb i" for i by (simp add: slot_ix_def)
    have "buf ?rb ! slot_ix ?rb tw = v" using n by (simp add: ix' o(1) ix tail(2))
    then have "all_ok (ring_ok n pr co ?rb xs) (th(t := x)) (st(t := st t))"
    proof (intro all_ok_upd [OF all])
      show "ring_ok n pr co ?rb xs u q (st u)" if "u \<noteq> t" "ring_ok n pr co rb xs u q (st u)" for u q
        using that o(4) by (cases q) auto
    qed (use o in \<open>auto simp: s'(2)\<close>)
    then have "ring_rel n pr co rb' (th(t := x)) xs (st(t := st t))"
      using core' con' cl unfolding ring_rel_def s'(1) by (cases "t = co") (auto simp: s'(2))
    then show ?thesis by (intro exI [of _ xs] exI [of _ "st t"]) (simp add: own_move.stay)
  next
    case 4
    let ?v = "buf rb ! ?i"
    from 4 ok have o: "tw = rtail rb" "length xs < n" "st t = Wait (Put ?v) {}" "t = pr"
      by (auto simp: ix)
    let ?rb = "rb\<lparr>rtail := tw + 1\<rparr>"
    have s': "rb' = ?rb" "x = Return (PutOk True)" using step by (simp_all add: 4)
    have core': "ring_core n ?rb h (xs @ [?v])"
      using core o(1,2) by (auto simp: ring_core_def)
    have con': "contents n ?rb h (xs @ [?v]) (clearing (th co))"
      using con by (auto simp: contents_def nth_append less_Suc_eq)
    have ix': "slot_ix ?rb i = slot_ix rb i" for i by (simp add: slot_ix_def)
    have "all_ok (ring_ok n pr co ?rb (xs @ [?v])) (th(t := x)) (st(t := Done (PutOk True)))"
    proof (intro all_ok_upd [OF all])
      show "ring_ok n pr co ?rb (xs @ [?v]) u q (st u)"
        if "u \<noteq> t" "ring_ok n pr co rb xs u q (st u)" for u q
        using that o(4) by (cases q) auto
    qed (simp add: s'(2))
    then have "ring_rel n pr co rb' (th(t := x)) (xs @ [?v]) (st(t := Done (PutOk True)))"
      using core' con' cl unfolding ring_rel_def s'(1) by (cases "t = co") (auto simp: s'(2))
    moreover have "own_move (ring_spec n) xs (st t) (xs @ [?v]) (Done (PutOk True))"
      using o(2,3) by (simp add: own_move.effect)
    ultimately show ?thesis by blast
  qed
qed

lemma get_sim:
  assumes rel: "ring_rel n pr co rb th xs st" and t: "th t = Busy p"
    and p: "p = GHead \<or> p = GTail hw \<or> p = GRead hw \<or> p = GZero hw v \<or> p = GStore hw v"
    and step: "get_step zero rb p = (rb', x)"
  shows "\<exists>xs' s. own_move (ring_spec n) xs (st t) xs' s \<and> ring_rel n pr co rb' (th(t := x)) xs' (st(t := s))"
proof -
  from rel obtain h where core: "ring_core n rb h xs" and con: "contents n rb h xs (clearing (th co))"
    and all: "all_ok (ring_ok n pr co rb xs) th st" by (auto simp: ring_rel_def)
  have ok: "ring_ok n pr co rb xs t p (st t)" using all_okD [OF all, of t] t by simp
  have n: "0 < n" using ring_core_bound [OF core] by simp
  have head: "rhead rb = of_nat h" "length (buf rb) = n" "length xs \<le> n"
    using core by (simp_all add: ring_core_def)
  have ix: "slot_ix rb (rhead rb) = h mod n" unfolding head(1) by (rule slot_ix_mod [OF core])
  have tco: "t = co" using ok p by auto
  from p consider "p = GHead" | "p = GTail hw" | "p = GRead hw" | "p = GZero hw v" | "p = GStore hw v"
    by blast
  then show ?thesis
  proof cases
    case 1
    with ok step t ring_rel_still [OF rel, of t x "st t"] show ?thesis
      by (intro exI [of _ xs] exI [of _ "st t"]) (auto intro: own_move.stay simp del: fun_upd_apply fun_upd_triv)
  next
    case 2
    show ?thesis
    proof (cases "xs = []")
      case True
      have "st t = Wait Get {}" using ok 2 by auto
      then have "own_move (ring_spec n) xs (st t) xs (Done (GetOk None))"
        using True by (simp only:, intro own_move.effect) simp
      with 2 ok step t True ring_empty_iff [OF core] ring_rel_still [OF rel, of t x "Done (GetOk None)"]
      show ?thesis by (intro exI [of _ xs] exI [of _ "Done (GetOk None)"]) (auto simp del: fun_upd_apply)
    next
      case False
      with 2 ok step t ring_empty_iff [OF core] ring_rel_still [OF rel, of t x "st t"] show ?thesis
        by (intro exI [of _ xs] exI [of _ "st t"]) (auto intro: own_move.stay simp del: fun_upd_apply fun_upd_triv)
    qed
  next
    case 3
    then have o: "hw = rhead rb" "xs \<noteq> []" using ok by auto
    then have "buf rb ! (h mod n) = hd xs"
      using con t tco by (force simp: contents_def hd_conv_nth 3)
    with 3 ok step t n ix o head(2) ring_rel_still [OF rel, of t x "st t"] show ?thesis
      by (intro exI [of _ xs] exI [of _ "st t"]) (auto intro: own_move.stay simp del: fun_upd_apply fun_upd_triv)
  next
    case 4
    then have o: "hw = rhead rb" "xs \<noteq> []" "v = hd xs" "st t = Wait Get {}" using ok by auto
    let ?rb = "rb\<lparr>buf := (buf rb)[h mod n := zero]\<rparr>"
    have s': "rb' = ?rb" "x = Busy (GStore hw v)"
      using step n by (simp_all add: 4 o(1) ix head(2))
    have core': "ring_core n ?rb h xs" using core by (simp add: ring_core_def)
    have "buf ?rb ! ((h + j) mod n) = buf rb ! ((h + j) mod n)" if "0 < j" "j < length xs" for j
      using slots_differ [of h "h + j" n] that head(3) by simp
    then have con': "contents n ?rb h xs True"
      using con by (fastforce simp: contents_def t [unfolded tco] 4)
    have keep: "ring_ok n pr co ?rb xs u q (st u)"
      if "u \<noteq> t" "ring_ok n pr co rb xs u q (st u)" for u q
    proof (cases q)
      case (PStore tw)
      with that have "length xs < n" "tw = rtail rb" by auto
      moreover from this have "slot_ix rb tw \<noteq> h mod n"
        using slots_differ [of h "h + length xs" n] slot_ix_mod [OF core, of "h + length xs"] o(2) core
        by (auto simp: ring_core_def)
      ultimately show ?thesis using that PStore by (auto simp: slot_ix_def)
    qed (use that tco in auto)
    have "all_ok (ring_ok n pr co ?rb xs) (th(t := x)) (st(t := st t))"
    proof (rule all_ok_upd [OF all])
      show "thread_ok (ring_ok n pr co ?rb xs t) x (st t)" using o tco s'(2) by auto
    qed (rule keep)
    then have "ring_rel n pr co rb' (th(t := x)) xs (st(t := st t))"
      using core' con' unfolding ring_rel_def s'(1) by (auto simp: s'(2) tco)
    then show ?thesis by (intro exI [of _ xs] exI [of _ "st t"]) (simp add: own_move.stay)
  next
    case 5
    then have o: "hw = rhead rb" "xs \<noteq> []" "v = hd xs" "st t = Wait Get {}" using ok by auto
    let ?rb = "rb\<lparr>rhead := hw + 1\<rparr>" and ?d = "Done (GetOk (Some v))"
    have s': "rb' = ?rb" "x = Return (GetOk (Some v))" using step by (simp_all add: 5)
    obtain ys where xs: "xs = v # ys" using o(2,3) by (cases xs) auto
    have core': "ring_core n ?rb (Suc h) ys"
      using core o(1) by (auto simp: ring_core_def xs)
    have con': "contents n ?rb (Suc h) ys False"
    proof -
      have "buf rb ! ((Suc h + j) mod n) = ys ! j" if "j < length ys" for j
      proof -
        have "Suc j = 0 \<and> clearing (th co) \<or> buf rb ! ((h + Suc j) mod n) = xs ! Suc j"
          using con that unfolding contents_def xs by (metis Suc_less_eq length_Cons)
        then show ?thesis by (simp add: xs)
      qed
      then show ?thesis by (simp add: contents_def)
    qed
    have "all_ok (ring_ok n pr co ?rb ys) (th(t := x)) (st(t := ?d))"
    proof (intro all_ok_upd [OF all])
      show "ring_ok n pr co ?rb ys u q (st u)"
        if "u \<noteq> t" "ring_ok n pr co rb xs u q (st u)" for u q
        using that tco by (cases q) (auto simp: xs slot_ix_def)
    qed (simp add: s'(2))
    then have "ring_rel n pr co rb' (th(t := x)) ys (st(t := ?d))"
      using core' con' unfolding ring_rel_def s'(1) by (auto simp: s'(2) tco)
    moreover have "own_move (ring_spec n) xs (st t) ys ?d"
      using o(4) by (simp add: xs own_move.effect)
    ultimately show ?thesis by blast
  qed
qed

lemma ring_step_sim:
  assumes rel: "ring_rel n pr co rb th xs st" and t: "th t = Busy p" and step: "ring_step zero rb t p = (rb', x)"
  shows "\<exists>xs' s. own_move (ring_spec n) xs (st t) xs' s \<and> ring_rel n pr co rb' (th(t := x)) xs' (st(t := s))"
proof -
  have "all_ok (ring_ok n pr co rb xs) th st" using rel by (simp add: ring_rel_def)
  from all_okD [OF this, of t] have ok: "ring_ok n pr co rb xs t p (st t)" by (simp add: t)
  consider (put) v tw where "ring_step zero rb t p = put_step rb p"
      "p = PTail v \<or> p = PHead v tw \<or> p = PWrite v tw \<or> p = PStore tw"
    | (get) hw v where "ring_step zero rb t p = get_step zero rb p"
      "p = GHead \<or> p = GTail hw \<or> p = GRead hw \<or> p = GZero hw v \<or> p = GStore hw v"
    using ok by (cases p) (auto simp del: put_step.simps get_step.simps)
  then show ?thesis
  proof cases
    case put
    with step put_sim [OF rel t put(2)] show ?thesis by metis
  next
    case get
    with step get_sim [OF rel t get(2)] show ?thesis by metis
  qed
qed

lemma NewRingBuffer_core:
  assumes "NewRingBuffer zero c = Some rb"
  shows "ring_core (ring_Cap rb) rb 0 []"
proof -
  obtain p where p: "nextPowerOfTwo c = Some p" using assms by (cases "nextPowerOfTwo c") (auto simp: NewRingBuffer_def)
  have "\<exists>k \<le> 62. p = 2 ^ k"
  proof (cases "c < 1")
    case True
    with p show ?thesis by (intro exI [of _ 0]) (simp add: nextPowerOfTwo_def)
  next
    case False
    have "c \<le> 2 ^ 62"
      using p False npot_diverges [of c] by (cases "c \<le> 2 ^ 62") (auto simp: nextPowerOfTwo_def)
    with False least_power [of c] obtain m where "m \<le> 62" "c \<le> 2 ^ m" "\<forall>j < m. 2 ^ j < c" by auto
    with npot_loop [of m 0 c] p False show ?thesis by (auto simp: nextPowerOfTwo_def)
  qed
  then obtain k where k: "k \<le> 62" "p = 2 ^ k" by blast
  have "nat p = 2 ^ k" using k(2) by simp
  moreover have "(word_of_int (p - 1) :: u64) = of_nat (2 ^ k - 1)"
    by (simp add: k(2) of_nat_diff)
  ultimately show ?thesis using assms k(1)
    by (auto simp: NewRingBuffer_def p k(2) ring_core_def ring_Cap_def nat_power_eq of_nat_diff)
qed

lemma ring_sim:
  assumes "NewRingBuffer zero c = Some rb"
  shows "sim_machine (ring_machine zero pr co False rb) (ring_spec (ring_Cap rb)) []
    (ring_rel (ring_Cap rb) pr co)"
proof
  show "ring_rel (ring_Cap rb) pr co (sh0 (ring_machine zero pr co False rb)) (\<lambda>_. Idle) [] (\<lambda>_. Quiet)"
    using NewRingBuffer_core [OF assms] by (auto simp: ring_rel_def contents_def all_ok_def)
next
  fix sh th a st and t :: tid
  assume "ring_rel (ring_Cap rb) pr co sh th a st"
  then have g: "all_ok (ring_ok (ring_Cap rb) pr co sh a) th st" by (auto simp: ring_rel_def)
  show "th t = Idle \<Longrightarrow> st t = Quiet" and "th t \<noteq> Panic"
    using all_okD [OF g, of t] by auto
next
  fix sh th a st t oper sh' p
  assume a: "ring_rel (ring_Cap rb) pr co sh th a st" "th t = Idle"
    "can (ring_machine zero pr co False rb) sh t oper" "beg (ring_machine zero pr co False rb) sh t oper = (sh', p)"
  have "t = co \<Longrightarrow> \<not> clearing (th co)" using a(2) by auto
  then show "ring_rel (ring_Cap rb) pr co sh' (th(t := Busy p)) a (st(t := Wait oper {}))"
    using a ring_rel_still [OF a(1), of t "Busy p" "Wait oper {}"]
    by (cases oper) (auto simp del: fun_upd_apply)
next
  fix sh th a st t p sh' x
  assume a: "ring_rel (ring_Cap rb) pr co sh th a st" "th t = Busy p"
    "stp (ring_machine zero pr co False rb) sh t p = (sh', x)"
  then show "\<exists>E a' st'. visible E = [] \<and>
      lin_run (ring_spec (ring_Cap rb)) (a, st) E = Some (a', st') \<and>
      ring_rel (ring_Cap rb) pr co sh' (th(t := x)) a' st'"
    using ring_step_sim [OF a(1,2), of zero sh' x] own_move_run [where st = st and t = t] by fastforce
next
  fix sh th a st t r
  assume a: "ring_rel (ring_Cap rb) pr co sh th a st" "th t = Return r"
  then have g: "all_ok (ring_ok (ring_Cap rb) pr co sh a) th st" by (auto simp: ring_rel_def)
  have "t = co \<Longrightarrow> \<not> clearing (th co)" using a(2) by auto
  with all_okD [OF g, of t] a(2) ring_rel_still [OF a(1), of t Idle Quiet]
  show "(st t = Done r \<or> (\<exists>op R. st t = Wait op R \<and> r \<in> R)) \<and>
      ring_rel (ring_Cap rb) pr co sh (th(t := Idle)) a (st(t := Quiet))"
    by (auto simp del: fun_upd_apply)
qed

subsection \<open>Progress\<close>

fun ring_rank :: "'a ring_pc \<Rightarrow> nat" where
  "ring_rank (PTail x) = 4"
| "ring_rank (PHead x tw) = 3"
| "ring_rank (PWrite x tw) = 2"
| "ring_rank (PStore tw) = 1"
| "ring_rank GHead = 5"
| "ring_rank (GTail hw) = 4"
| "ring_rank (GRead hw) = 3"
| "ring_rank (GZero hw x) = 2"
| "ring_rank (GStore hw x) = 1"
| "ring_rank LTail = 2"
| "ring_rank (LHead tw) = 1"
| "ring_rank FTail = 2"
| "ring_rank (FHead tw) = 1"
| "ring_rank EHead = 2"
| "ring_rank (ETail hw) = 1"

lemma ring_rank_step: "ring_step zero rb t p = (rb', Busy p') \<Longrightarrow> ring_rank p' < ring_rank p"
  by (cases p) (auto split: if_splits)

lemma ring_rank_bounds: "0 < ring_rank p" "ring_rank p \<le> 5"
  by (cases p; simp)+

interpretation ring: progress "ring_machine zero pr co obs rb" "\<lambda>_ _. ring_rank" "\<lambda>_ _. True" 5
  for zero pr co obs rb
proof
  fix s :: "('a ring, 'a ring_pc, 'a ring_resp) sys" and t p p'
  assume "snd s t = Busy p" "snd (sys_step (ring_machine zero pr co obs rb) s (Step t)) t = Busy p'"
  then show "ring_rank p' < ring_rank p"
    using ring_rank_step [of zero "fst s" t p] by (cases s) (auto split: prod.splits)
qed (simp_all add: ring_rank_bounds)

subsection \<open>Properties\<close>

text \<open>
  C28: With one producer and one consumer (possibly the same goroutine), every schedule of \<open>Put\<close>
  and \<open>Get\<close> is linearizable to a queue bounded by the effective capacity: values come out in
  order, \<open>Put\<close> fails only when the buffer is full and \<open>Get\<close> only when it is empty, and this
  survives any number of wrap-arounds of the 64-bit cursors. No index is ever out of the range of the
  slice.
\<close>

theorem ring_linearizable:
  assumes "NewRingBuffer zero c = Some rb"
  shows "linearizable (ring_spec (ring_Cap rb)) [] (history (ring_machine zero pr co False rb) acts) \<and>
    snd (run (ring_machine zero pr co False rb) acts) t \<noteq> Panic"
  using sim_machine.linearizable [OF ring_sim [OF assms]] sim_machine.no_panic [OF ring_sim [OF assms]] by blast

theorem ring_linearizable_witness:
  "let rb = \<lparr>buf = [0::int], mask = 0, rhead = 0, rtail = 0\<rparr>;
       acts = [Start 0 (Put 7), Start 1 Get, Step 1, Step 0, Step 0, Step 1] in
   linearizable (ring_spec (ring_Cap rb)) [] (history (ring_machine 0 0 1 False rb) acts) \<and>
   snd (run (ring_machine 0 0 1 False rb) acts) 0 \<noteq> Panic"
  unfolding Let_def
  by (rule ring_linearizable [where c = 1])
    (simp add: NewRingBuffer_def nextPowerOfTwo_def while_option_unfold)

text \<open>
  C30: The plain (not atomic) accesses to the slice do not race: when the producer is about to
  write a slot and the consumer is about to read or clear one, the slots are different.
\<close>

theorem ring_race_free:
  assumes "NewRingBuffer zero c = Some rb"
    and "run (ring_machine zero pr co False rb) acts = (s, th)"
    and "th t = Busy (PWrite x tw)" and "th u = Busy (GRead hw) \<or> th u = Busy (GZero hw v)"
  shows "slot_ix s tw \<noteq> slot_ix s hw"
proof -
  from sim_machine.reachable_rel [OF ring_sim [OF assms(1)], of pr co acts] assms(2)
  obtain xs st where "ring_rel (ring_Cap rb) pr co s th xs st" by auto
  then obtain h where core: "ring_core (ring_Cap rb) s h xs"
    and all: "all_ok (ring_ok (ring_Cap rb) pr co s xs) th st" by (auto simp: ring_rel_def)
  have "tw = of_nat (h + length xs)" "length xs < ring_Cap rb"
    using all_okD [OF all, of t] assms(3) core by (auto simp: ring_core_def)
  moreover have "hw = of_nat h" "xs \<noteq> []"
    using all_okD [OF all, of u] assms(4) core by (auto simp: ring_core_def)
  ultimately show ?thesis
    using slots_differ [of h "h + length xs" "ring_Cap rb"] slot_ix_mod [OF core, of h]
      slot_ix_mod [OF core, of "h + length xs"] by (auto simp del: of_nat_add)
qed

lemma replicate_two: "replicate 2 x = [x, x]"
  by (simp add: numeral_eq_Suc)

text \<open>A schedule on which the producer is about to write while the consumer is about to read.\<close>

definition meeting :: "int ring_op action list" where
  "meeting = [Start 0 (Put 7), Step 0, Step 0, Step 0, Step 0, Step 0,
     Start 0 (Put 8), Step 0, Step 0, Start 1 Get, Step 1, Step 1]"

theorem ring_race_free_witness:
  "slot_ix (fst (run (ring_machine 0 0 1 False \<lparr>buf = [0, 0], mask = 1, rhead = 0, rtail = 0\<rparr>) meeting)) 1 \<noteq>
   slot_ix (fst (run (ring_machine 0 0 1 False \<lparr>buf = [0, 0], mask = 1, rhead = 0, rtail = 0\<rparr>) meeting)) 0"
  by (rule ring_race_free [where c = 2 and zero = 0 and pr = 0 and co = 1 and acts = meeting and t = 0
        and u = 1 and x = 8 and rb = "\<lparr>buf = [0, 0], mask = 1, rhead = 0, rtail = 0\<rparr>"
        and th = "snd (run (ring_machine 0 0 1 False \<lparr>buf = [0, 0], mask = 1, rhead = 0, rtail = 0\<rparr>) meeting)"])
    (simp_all add: NewRingBuffer_def nextPowerOfTwo_def while_option_unfold wrap64_def
      meeting_def run_def start_sys_def slot_ix_def blen_def replicate_two word_le_nat_alt)



text \<open>
  C33: \<open>nextPowerOfTwo\<close> returns for every argument up to \<open>2^62\<close>, and returns the least power of
  two that is not below it.
\<close>

theorem nextPowerOfTwo_correct:
  assumes "n \<le> 2 ^ 62"
  shows "\<exists>k \<le> 62. nextPowerOfTwo n = Some (2 ^ k) \<and> n \<le> 2 ^ k \<and> (k = 0 \<or> 2 ^ (k - 1) < n)"
proof (cases "n < 1")
  case True
  then show ?thesis by (intro exI [of _ 0]) (simp add: nextPowerOfTwo_def)
next
  case False
  with least_power [of n] assms obtain k where
    k: "k \<le> 62" "n \<le> 2 ^ k" "\<forall>j < k. 2 ^ j < n" by auto
  with npot_loop [of k 0 n] False show ?thesis
    by (intro exI [of _ k]) (cases k, auto simp: nextPowerOfTwo_def)
qed

theorem nextPowerOfTwo_correct_witness:
  "\<exists>k \<le> 62. nextPowerOfTwo 5 = Some (2 ^ k) \<and> (5::int) \<le> 2 ^ k \<and> (k = 0 \<or> 2 ^ (k - 1) < (5::int))"
  by (rule nextPowerOfTwo_correct) simp

text \<open>
  C37: For an argument above \<open>2^62\<close> (where \<open>make\<close> would panic) \<open>nextPowerOfTwo\<close> never returns: the
  shift overflows to a negative number and then to zero.
\<close>

theorem nextPowerOfTwo_hangs:
  assumes "2 ^ 62 < n"
  shows "nextPowerOfTwo n = None"
proof -
  have "\<not> n < 1" using assms by simp
  then show ?thesis using npot_diverges [OF assms] by (simp add: nextPowerOfTwo_def)
qed

theorem nextPowerOfTwo_hangs_witness: "nextPowerOfTwo (2 ^ 62 + 1) = None"
  by (rule nextPowerOfTwo_hangs) simp

end
