(* ===== verification/Numeric.thy ===== *)
theory Numeric
  imports Simulation Progress Adt "HOL-Library.Signed_Division"
begin

text \<open>
  The helpers of the root package: \<open>BinarySearch\<close> (\<open>search.go\<close>) over a \<open>Less\<close> comparator
  (\<open>common.go\<close>), and \<open>AddFloat64\<close> (\<open>arithmetic.go\<close>), a compare-and-swap loop on the bits of a
  \<open>float64\<close>. Proved: the search always ends, without an index error on slices of up to \<open>2^62\<close>
  elements; on a sorted slice it finds an element exactly when there is one; above \<open>2^62\<close> elements
  the sum of the bounds can overflow and the index become negative. \<open>AddFloat64\<close> is an atomic and
  lock-free addition whose response is zero.
\<close>

subsection \<open>Binary search\<close>

type_synonym 'a Less = "'a \<Rightarrow> 'a \<Rightarrow> bool"

text \<open>
  The loop of \<open>BinarySearch\<close>. \<open>l\<close>, \<open>r\<close> and \<open>mid\<close> are Go \<open>int\<close>s: the sum \<open>l + r\<close> wraps around at
  64 bits (\<open>mid + 1\<close> and \<open>mid - 1\<close> stay in range, since \<open>mid\<close> is an index), and the division
  truncates. The result is \<open>Inl\<close> for the run-time panic of an index outside the slice; \<open>None\<close>
  would be a loop that does not end.
\<close>

partial_function (option) bsearch :: "'a list \<Rightarrow> 'a \<Rightarrow> 'a Less \<Rightarrow> int \<Rightarrow> int \<Rightarrow> (string + int) option" where
  "bsearch arr x lt l r =
     (if l \<le> r then
        (let mid = wrap64 (l + r) sdiv 2 in
         if mid < 0 \<or> int (length arr) \<le> mid then Some (Inl ''index out of range'')
         else if lt (arr ! nat mid) x then bsearch arr x lt (mid + 1) r
         else if lt x (arr ! nat mid) then bsearch arr x lt l (mid - 1)
         else Some (Inr mid))
      else Some (Inr (- 1)))"

definition BinarySearch :: "'a list \<Rightarrow> 'a \<Rightarrow> 'a Less \<Rightarrow> (string + int) option" where
  "BinarySearch arr x lt = bsearch arr x lt 0 (int (length arr) - 1)"

text \<open>One turn of the loop, when the sum of the bounds is an \<open>int\<close>, when it overflows, and after the last.\<close>

lemma bsearch_turn:
  assumes "0 \<le> l" and "l \<le> r" and "r < int (length arr)" and "l + r < 2 ^ 63"
  shows "bsearch arr x lt l r =
    (let mid = (l + r) div 2 in
     if lt (arr ! nat mid) x then bsearch arr x lt (mid + 1) r
     else if lt x (arr ! nat mid) then bsearch arr x lt l (mid - 1)
     else Some (Inr mid))"
proof -
  have "wrap64 (l + r) = l + r" using assms by (intro wrap64_id) auto
  moreover have "(l + r) sdiv 2 = (l + r) div 2"
    using assms by (cases "l + r = 0") (simp_all add: signed_divide_int_def)
  moreover have "\<not> ((l + r) div 2 < 0 \<or> int (length arr) \<le> (l + r) div 2)" using assms by auto
  ultimately show ?thesis using assms(2) by (subst bsearch.simps) (simp add: Let_def)
qed

lemma bsearch_overflow:
  assumes "l \<le> r" and "r < 2 ^ 63 - 1" and "2 ^ 63 \<le> l + r"
  shows "bsearch arr x lt l r = Some (Inl ''index out of range'')"
proof -
  have "wrap64 (l + r) = l + r - 2 ^ 64" using assms by (intro wrap64_above) auto
  moreover have "(l + r - 2 ^ 64) sdiv 2 < 0"
    using assms by (simp add: signed_divide_int_def sgn_if)
  ultimately have "wrap64 (l + r) sdiv 2 < 0" by metis
  then show ?thesis using assms(1) by (subst bsearch.simps) (simp add: Let_def)
qed

lemma bsearch_over: "r < l \<Longrightarrow> bsearch arr x lt l r = Some (Inr (- 1))"
  by (subst bsearch.simps) simp

text \<open>The search ends and, while the sum of the bounds can not overflow, stays inside the slice.\<close>

lemma bsearch_total:
  assumes "length arr < 2 ^ 63"
  shows "0 \<le> l \<Longrightarrow> r < int (length arr) \<Longrightarrow> \<exists>res. bsearch arr x lt l r = Some res \<and>
    (case res of Inl e \<Rightarrow> 2 ^ 62 < length arr | Inr i \<Rightarrow> - 1 \<le> i \<and> i < int (length arr))"
    (is "_ \<Longrightarrow> _ \<Longrightarrow> \<exists>res. _ \<and> ?P res")
proof (induction "nat (r - l + 1)" arbitrary: l r rule: less_induct)
  case less
  let ?m = "(l + r) div 2"
  have n: "int (length arr) < 2 ^ 63" using assms by simp
  consider "r < l" | "l \<le> r" "2 ^ 63 \<le> l + r" | "l \<le> r" "l + r < 2 ^ 63" by linarith
  then show ?case
  proof cases
    case 1
    with bsearch_over [OF 1, of arr x lt] show ?thesis by simp
  next
    case 2
    have "2 ^ 62 < length arr" using 2 less.prems by simp
    with bsearch_overflow [OF 2(1) _ 2(2), of arr x lt] n less.prems show ?thesis by simp
  next
    case 3
    then have "\<exists>res. bsearch arr x lt (?m + 1) r = Some res \<and> ?P res"
      "\<exists>res. bsearch arr x lt l (?m - 1) = Some res \<and> ?P res"
      using less.prems by (intro less.hyps; auto)+
    moreover have "- 1 \<le> ?m" "?m < int (length arr)" using 3 less.prems by auto
    ultimately show ?thesis
      using bsearch_turn [OF less.prems(1) 3(1) less.prems(2) 3(2), of x lt] by (simp add: Let_def)
  qed
qed

text \<open>A comparator that always moves \<open>l\<close> up drives a long slice into the overflow.\<close>

lemma bsearch_up:
  assumes "\<forall>y \<in> set arr. lt y x" and "length arr < 2 ^ 63" and "2 ^ 62 \<le> r" and "r < int (length arr)"
  shows "0 \<le> l \<Longrightarrow> l \<le> r \<Longrightarrow> bsearch arr x lt l r = Some (Inl ''index out of range'')"
proof (induction "nat (r - l + 1)" arbitrary: l rule: less_induct)
  case less
  let ?m = "(l + r) div 2"
  show ?case
  proof (cases "l + r < 2 ^ 63")
    case True
    then have m: "nat ?m < length arr" "l \<le> ?m" "?m + 1 \<le> r" using less.prems assms(3,4) by auto
    then have "lt (arr ! nat ?m) x" using assms(1) by simp
    then have "bsearch arr x lt l r = bsearch arr x lt (?m + 1) r"
      using bsearch_turn [OF less.prems assms(4) True, of x lt] by (simp add: Let_def)
    also have "\<dots> = Some (Inl ''index out of range'')"
      using m less.prems by (intro less.hyps) auto
    finally show ?thesis .
  next
    case False
    then show ?thesis using less.prems assms(2,4) by (intro bsearch_overflow) auto
  qed
qed

text \<open>The invariant of the loop: what is left of \<open>l\<close> is below \<open>x\<close>, what is right of \<open>r\<close> above.\<close>

definition bracketed :: "'a list \<Rightarrow> 'a \<Rightarrow> 'a Less \<Rightarrow> int \<Rightarrow> int \<Rightarrow> bool" where
  "bracketed arr x lt l r \<longleftrightarrow>
     (\<forall>i < length arr. (int i < l \<longrightarrow> lt (arr ! i) x) \<and> (r < int i \<longrightarrow> lt x (arr ! i)))"

definition less_sorted :: "'a Less \<Rightarrow> 'a list \<Rightarrow> bool" where
  "less_sorted lt arr \<longleftrightarrow> sorted_wrt (\<lambda>a b. \<not> lt b a) arr"

lemma less_sorted_nth:
  "strict_weak lt \<Longrightarrow> less_sorted lt arr \<Longrightarrow> i \<le> j \<Longrightarrow> j < length arr \<Longrightarrow> \<not> lt (arr ! j) (arr ! i)"
  unfolding less_sorted_def sorted_wrt_iff_nth_less using strict_weak_irrefl by (metis order_le_less)

lemma bracketed_up:
  assumes sw: "strict_weak lt" and so: "less_sorted lt arr" and b: "bracketed arr x lt l r"
    and m: "m < length arr" "lt (arr ! m) x"
  shows "bracketed arr x lt (int m + 1) r"
  unfolding bracketed_def
proof (intro allI impI conjI)
  fix i assume i: "i < length arr"
  { assume "int i < int m + 1"
    then have "\<not> lt (arr ! m) (arr ! i)" using less_sorted_nth [OF sw so, of i m] m by simp
    then show "lt (arr ! i) x" using strict_weak_split [OF sw m(2), of "arr ! i"] by blast }
  show "r < int i \<Longrightarrow> lt x (arr ! i)" using b i by (simp add: bracketed_def)
qed

lemma bracketed_down:
  assumes sw: "strict_weak lt" and so: "less_sorted lt arr" and b: "bracketed arr x lt l r"
    and m: "m < length arr" "lt x (arr ! m)"
  shows "bracketed arr x lt l (int m - 1)"
  unfolding bracketed_def
proof (intro allI impI conjI)
  fix i assume i: "i < length arr"
  { assume "int m - 1 < int i"
    then have "\<not> lt (arr ! i) (arr ! m)" using less_sorted_nth [OF sw so, of m i] i by simp
    then show "lt x (arr ! i)" using strict_weak_split [OF sw m(2), of "arr ! i"] by blast }
  show "int i < l \<Longrightarrow> lt (arr ! i) x" using b i by (simp add: bracketed_def)
qed

lemma bracketed_empty:
  assumes "strict_weak lt" and "bracketed arr x lt l r" and "r < l" and "y \<in> set arr"
  shows "\<not> same_key lt y x"
proof -
  obtain i where "i < length arr" "y = arr ! i" using assms(4) by (metis in_set_conv_nth)
  with assms(2,3) have "lt y x \<or> lt x y" by (cases "int i < l") (auto simp: bracketed_def)
  then show ?thesis by (auto simp: same_key_def)
qed

lemma bsearch_found:
  assumes sw: "strict_weak lt" and so: "less_sorted lt arr" and n: "length arr \<le> 2 ^ 62"
  shows "0 \<le> l \<Longrightarrow> r < int (length arr) \<Longrightarrow> bracketed arr x lt l r \<Longrightarrow>
    \<exists>i. bsearch arr x lt l r = Some (Inr i) \<and>
    (if \<exists>y \<in> set arr. same_key lt y x then 0 \<le> i \<and> nat i < length arr \<and> same_key lt (arr ! nat i) x
     else i = - 1)"
    (is "_ \<Longrightarrow> _ \<Longrightarrow> _ \<Longrightarrow> \<exists>i. _ \<and> ?P i")
proof (induction "nat (r - l + 1)" arbitrary: l r rule: less_induct)
  case less
  let ?m = "(l + r) div 2"
  show ?case
  proof (cases "l \<le> r")
    case True
    with less.prems n have m: "0 \<le> ?m" "nat ?m < length arr" "l \<le> ?m" "?m \<le> r" "l + r < 2 ^ 63" by auto
    note turn = bsearch_turn [OF less.prems(1) True less.prems(2) m(5), of x lt]
    consider "lt (arr ! nat ?m) x" | "\<not> lt (arr ! nat ?m) x" "lt x (arr ! nat ?m)"
      | "same_key lt (arr ! nat ?m) x" by (auto simp: same_key_def)
    then show ?thesis
    proof cases
      case 1
      have "bracketed arr x lt (?m + 1) r"
        using bracketed_up [OF sw so less.prems(3) m(2) 1] m(1) by simp
      then have "\<exists>i. bsearch arr x lt (?m + 1) r = Some (Inr i) \<and> ?P i"
        using m less.prems by (intro less.hyps) auto
      with turn 1 show ?thesis by (simp add: Let_def)
    next
      case 2
      have "bracketed arr x lt l (?m - 1)"
        using bracketed_down [OF sw so less.prems(3) m(2) 2(2)] m(1) by simp
      then have "\<exists>i. bsearch arr x lt l (?m - 1) = Some (Inr i) \<and> ?P i"
        using m less.prems by (intro less.hyps) auto
      with turn 2 show ?thesis by (simp add: Let_def)
    next
      case 3
      then have "\<not> lt (arr ! nat ?m) x" "\<not> lt x (arr ! nat ?m)" by (auto simp: same_key_def)
      moreover have "arr ! nat ?m \<in> set arr" using m(2) by simp
      ultimately show ?thesis using turn m(1,2) 3 by (auto simp: Let_def)
    qed
  next
    case False
    then have "r < l" by simp
    with bracketed_empty [OF sw less.prems(3)] show ?thesis by (auto simp: bsearch_over)
  qed
qed

text \<open>
  What Go guarantees of a slice and of a value \<open>x\<close> of its element type. A length is a 64-bit \<open>int\<close>. No address
  space holds \<open>2^62\<close> bytes, so a slice with more elements has elements of size zero, and a type
  of size zero has a single value.
\<close>

definition go_slice :: "'a \<Rightarrow> 'a list \<Rightarrow> bool" where
  "go_slice x arr \<longleftrightarrow> length arr < 2 ^ 63 \<and> (2 ^ 62 < length arr \<longrightarrow> (\<forall>y \<in> set arr. y = x))"

text \<open>On a slice of more than \<open>2^62\<close> elements a strict weak order stops at the first probe.\<close>

lemma BinarySearch_first_probe:
  assumes sw: "strict_weak lt" and g: "go_slice x arr" and n: "2 ^ 62 < length arr"
  shows "BinarySearch arr x lt = Some (Inr ((int (length arr) - 1) div 2))"
proof -
  let ?m = "(int (length arr) - 1) div 2"
  have "nat ?m < length arr" using n by auto
  then have "arr ! nat ?m = x" using g n by (simp add: go_slice_def)
  moreover have "bsearch arr x lt 0 (int (length arr) - 1) =
      (let mid = (0 + (int (length arr) - 1)) div 2 in
       if lt (arr ! nat mid) x then bsearch arr x lt (mid + 1) (int (length arr) - 1)
       else if lt x (arr ! nat mid) then bsearch arr x lt 0 (mid - 1) else Some (Inr mid))"
    using n g by (intro bsearch_turn) (auto simp: go_slice_def)
  ultimately show ?thesis using strict_weak_irrefl [OF sw] by (simp add: BinarySearch_def Let_def)
qed

subsection \<open>AddFloat64\<close>

text \<open>
  The 64 bits at \<open>addr\<close> are the shared state. \<open>math.Float64frombits\<close>, \<open>math.Float64bits\<close> and the
  hardware addition are the arguments \<open>frombits\<close>, \<open>tobits\<close> and \<open>fadd\<close>; the code relies on the
  documented \<open>Float64bits(Float64frombits(x)) == x\<close>. The named result \<open>new\<close> is never assigned, so
  the bare \<open>return\<close> returns its zero value, \<open>frombits 0\<close>.
\<close>

datatype 'f add_op = AddFloat64 'f

datatype 'f add_pc =
    ALoad 'f         \<comment> \<open>\<open>old = Float64frombits(LoadUint64(addr))\<close>\<close>
  | ACas 'f 'f       \<comment> \<open>\<open>CompareAndSwapUint64(addr, Float64bits(old), Float64bits(old+delta))\<close>\<close>

fun add_beg :: "u64 \<Rightarrow> tid \<Rightarrow> 'f add_op \<Rightarrow> u64 \<times> 'f add_pc" where
  "add_beg s t (AddFloat64 delta) = (s, ALoad delta)"

fun add_step :: "(u64 \<Rightarrow> 'f) \<Rightarrow> ('f \<Rightarrow> u64) \<Rightarrow> ('f \<Rightarrow> 'f \<Rightarrow> 'f) \<Rightarrow> u64 \<Rightarrow> tid \<Rightarrow> 'f add_pc \<Rightarrow>
    u64 \<times> ('f add_pc, 'f) thread" where
  "add_step frombits tobits fadd s t (ALoad delta) = (s, Busy (ACas delta (frombits s)))"
| "add_step frombits tobits fadd s t (ACas delta old) =
     (if s = tobits old then (tobits (fadd old delta), Return (frombits 0))
      else (s, Busy (ALoad delta)))"

definition add_machine :: "(u64 \<Rightarrow> 'f) \<Rightarrow> ('f \<Rightarrow> u64) \<Rightarrow> ('f \<Rightarrow> 'f \<Rightarrow> 'f) \<Rightarrow> u64 \<Rightarrow>
    (u64, 'f add_pc, 'f add_op, 'f) machine" where
  "add_machine frombits tobits fadd s0 =
     \<lparr>sh0 = s0, can = (\<lambda>_ _ _. True), beg = add_beg, stp = add_step frombits tobits fadd\<rparr>"

lemma add_machine_simps [simp]:
  "sh0 (add_machine frombits tobits fadd s0) = s0"
  "can (add_machine frombits tobits fadd s0) s t oper = True"
  "beg (add_machine frombits tobits fadd s0) = add_beg"
  "stp (add_machine frombits tobits fadd s0) = add_step frombits tobits fadd"
  by (simp_all add: add_machine_def)

text \<open>An atomic addition whose response is zero.\<close>

fun add_spec :: "(u64 \<Rightarrow> 'f) \<Rightarrow> ('f \<Rightarrow> u64) \<Rightarrow> ('f \<Rightarrow> 'f \<Rightarrow> 'f) \<Rightarrow> u64 \<Rightarrow> 'f add_op \<Rightarrow> u64 \<times> 'f" where
  "add_spec frombits tobits fadd s (AddFloat64 delta) = (tobits (fadd (frombits s) delta), frombits 0)"

fun add_ok :: "(u64 \<Rightarrow> 'f) \<Rightarrow> u64 \<Rightarrow> unit \<Rightarrow> tid \<Rightarrow> 'f add_pc \<Rightarrow> ('f add_op, 'f) status \<Rightarrow> bool" where
  "add_ok frombits s g t (ALoad delta) st \<longleftrightarrow> st = Wait (AddFloat64 delta) {}"
| "add_ok frombits s g t (ACas delta old) st \<longleftrightarrow>
     st = Wait (AddFloat64 delta) {} \<and> (\<exists>b. old = frombits b)"

definition codec :: "(u64 \<Rightarrow> 'f) \<Rightarrow> ('f \<Rightarrow> u64) \<Rightarrow> bool" where
  "codec frombits tobits \<longleftrightarrow> (\<forall>b. tobits (frombits b) = b)"

lemma add_rg:
  assumes "codec frombits tobits"
  shows "rg_machine (add_machine frombits tobits fadd s0) (add_spec frombits tobits fadd) ()
    (\<lambda>_ _. True) (\<lambda>s _. s) (add_ok frombits) (\<lambda>_ _ _ _ _. True)"
proof
  fix s t oper s' p and g :: unit
  assume "beg (add_machine frombits tobits fadd s0) s t oper = (s', p)"
  then show "\<exists>g' :: unit. True \<and> s' = s \<and> add_ok frombits s' g' t p (Wait oper {}) \<and> True"
    by (cases oper) auto
next
  fix s t p st s' x and g :: unit
  assume a: "add_ok frombits s g t p st" "stp (add_machine frombits tobits fadd s0) s t p = (s', x)"
  show "\<exists>(g' :: unit) st'. own_move (add_spec frombits tobits fadd) s st s' st' \<and> True \<and>
      thread_ok (add_ok frombits s' g' t) x st' \<and> True"
  proof (cases p)
    case (ALoad delta)
    with a show ?thesis by (intro exI [of _ "()"] exI [of _ st]) (auto intro: own_move.stay)
  next
    case (ACas delta old)
    with a(1) obtain b where b: "old = frombits b" "st = Wait (AddFloat64 delta) {}" by auto
    then have tb: "tobits old = b" using assms by (simp add: codec_def)
    show ?thesis
    proof (cases "s = b")
      case True
      with a(2) b tb show ?thesis
        by (intro exI [of _ "()"] exI [of _ "Done (frombits 0)"]) (auto simp: ACas intro: own_move.effect)
    next
      case False
      with a(2) b tb show ?thesis
        by (intro exI [of _ "()"] exI [of _ st]) (auto simp: ACas intro: own_move.stay)
    qed
  qed
next
  fix s s' u p st and g g' :: unit
  assume "add_ok frombits s g u p st"
  then show "add_ok frombits s' g' u p st" by (cases p) auto
qed simp

fun add_rank :: "('f \<Rightarrow> u64) \<Rightarrow> u64 \<Rightarrow> 'f add_pc \<Rightarrow> nat" where
  "add_rank tobits s (ALoad delta) = 2"
| "add_rank tobits s (ACas delta old) = (if tobits old = s then 1 else 3)"

definition cell_kept :: "(u64, 'f add_pc, 'f) sys \<Rightarrow> (u64, 'f add_pc, 'f) sys \<Rightarrow> bool" where
  "cell_kept s s' \<longleftrightarrow> fst s' = fst s"

lemma add_progress:
  fixes frombits :: "u64 \<Rightarrow> 'f"
  assumes "codec frombits tobits"
  shows "progress (add_machine frombits tobits fadd s0) (\<lambda>s t. add_rank tobits (fst s)) cell_kept 3"
proof
  fix s :: "(u64, 'f add_pc, 'f) sys" and t p p'
  assume a: "snd s t = Busy p" "cell_kept s (sys_step (add_machine frombits tobits fadd s0) s (Step t))"
    "snd (sys_step (add_machine frombits tobits fadd s0) s (Step t)) t = Busy p'"
  obtain c th where s: "s = (c, th)" by fastforce
  show "add_rank tobits (fst (sys_step (add_machine frombits tobits fadd s0) s (Step t))) p' <
      add_rank tobits (fst s) p"
    using a assms by (cases p) (auto simp: s cell_kept_def codec_def split: if_splits)
next
  fix s :: "(u64, 'f add_pc, 'f) sys" and t p
  show "0 < add_rank tobits (fst s) p" "add_rank tobits (fst s) p \<le> 3" by (cases p; simp)+
qed (simp add: cell_kept_def)

subsection \<open>Properties\<close>

text \<open>
  C29: On a Go slice sorted by a strict weak order, \<open>BinarySearch\<close> returns, without a panic, an index of
  an element equivalent to \<open>x\<close> when the slice has one, and \<open>-1\<close> otherwise.
\<close>

theorem BinarySearch_correct:
  assumes "strict_weak lt" and "less_sorted lt arr" and "go_slice x arr"
  shows "\<exists>i. BinarySearch arr x lt = Some (Inr i) \<and>
    (if \<exists>y \<in> set arr. same_key lt y x then 0 \<le> i \<and> nat i < length arr \<and> same_key lt (arr ! nat i) x
     else i = - 1)"
proof (cases "2 ^ 62 < length arr")
  case True
  let ?m = "(int (length arr) - 1) div 2"
  have m: "0 \<le> ?m" "nat ?m < length arr" using True by auto
  then have "arr ! nat ?m = x" "arr ! nat ?m \<in> set arr" using assms(3) True by (simp_all add: go_slice_def)
  then have "same_key lt (arr ! nat ?m) x" using strict_weak_irrefl [OF assms(1)] by (simp add: same_key_def)
  then show ?thesis using BinarySearch_first_probe [OF assms(1,3) True] m \<open>arr ! nat ?m \<in> set arr\<close> by auto
next
  case False
  then show ?thesis unfolding BinarySearch_def
    by (intro bsearch_found [OF assms(1,2)]) (auto simp: bracketed_def)
qed

theorem BinarySearch_correct_witness:
  "\<exists>i. BinarySearch [1, 3, 3, 8] (3::int) (<) = Some (Inr i) \<and>
    (if \<exists>y \<in> set [1, 3, 3, 8]. same_key (<) y (3::int)
     then 0 \<le> i \<and> nat i < length [1::int, 3, 3, 8] \<and> same_key (<) ([1, 3, 3, 8] ! nat i) (3::int) else i = - 1)"
  by (rule BinarySearch_correct) (simp_all add: strict_weak_int less_sorted_def go_slice_def)

text \<open>
  C34: On every slice that a 64-bit length can describe and with every comparator, \<open>BinarySearch\<close>
  ends. It returns \<open>-1\<close> or an index of the slice; it can index outside the slice and panic only when
  the slice has more than \<open>2^62\<close> elements.
\<close>

theorem BinarySearch_total:
  assumes "length arr < 2 ^ 63"
  shows "\<exists>res. BinarySearch arr x lt = Some res \<and>
    (case res of Inl e \<Rightarrow> 2 ^ 62 < length arr | Inr i \<Rightarrow> - 1 \<le> i \<and> i < int (length arr))"
  unfolding BinarySearch_def by (rule bsearch_total [OF assms]) auto

theorem BinarySearch_total_witness:
  "\<exists>res. BinarySearch [4, 2, 7] (5::int) (\<lambda>_ _. True) = Some res \<and>
    (case res of Inl e \<Rightarrow> 2 ^ 62 < length [4::int, 2, 7] | Inr i \<Rightarrow> - 1 \<le> i \<and> i < int (length [4::int, 2, 7]))"
  by (rule BinarySearch_total) simp

text \<open>
  C35: On every slice of more than \<open>2^62\<close> elements, \<open>BinarySearch\<close> panics when the comparator puts every
  element before \<open>x\<close>: the sum of the bounds overflows to a negative number and so does the index.
\<close>

theorem BinarySearch_overflow:
  assumes "2 ^ 62 < length arr" and "length arr < 2 ^ 63" and "\<forall>y \<in> set arr. lt y x"
  shows "BinarySearch arr x lt = Some (Inl ''index out of range'')"
  unfolding BinarySearch_def using assms by (intro bsearch_up) auto

theorem BinarySearch_overflow_witness:
  "BinarySearch (replicate (2 ^ 63 - 1) ()) () (\<lambda>_ _. True) = Some (Inl ''index out of range'')"
  by (rule BinarySearch_overflow) (simp_all only: length_replicate, simp_all)

text \<open>
  C40: Concurrent calls of \<open>AddFloat64\<close> are linearizable: each adds its \<open>delta\<close> to the current value
  at one moment inside the call, no update is lost. The response of each is zero.
\<close>

theorem AddFloat64_linearizable:
  assumes "codec frombits tobits"
  shows "linearizable (add_spec frombits tobits fadd) s0
    (history (add_machine frombits tobits fadd s0) acts)"
  using sim_machine.linearizable [OF rg_machine.is_sim_machine [OF add_rg [OF assms]]] by simp

theorem AddFloat64_linearizable_witness:
  "linearizable (add_spec id id (+)) 5 (history (add_machine id id (+) 5)
     [Start 0 (AddFloat64 2), Start 1 (AddFloat64 3), Step 0, Step 1, Step 0, Step 1])"
  by (rule AddFloat64_linearizable) (simp add: codec_def)

text \<open>
  \<open>AddFloat64\<close> is lock-free: a goroutine that takes three steps while nobody changes the
  value has finished.
\<close>

theorem AddFloat64_lock_free:
  assumes "codec frombits tobits"
    and "quiet_run (add_machine frombits tobits fadd s0) cell_kept
      (run (add_machine frombits tobits fadd s0) acts) acts'"
    and "3 \<le> own_steps t acts'"
  shows "finishes (add_machine frombits tobits fadd s0) t
    (run (add_machine frombits tobits fadd s0) acts) acts'"
  using progress.finishes_within [OF add_progress [OF assms(1)] _ assms(2,3)] by simp

theorem AddFloat64_lock_free_witness:
  "finishes (add_machine id id (+) 5) 0 (run (add_machine id id (+) 5) [Start 0 (AddFloat64 0)])
     [Step 0, Step 0, Step 0]"
  by (rule AddFloat64_lock_free)
    (simp_all add: codec_def run_def start_sys_def cell_kept_def)

end
