(* ===== verification/Ordered_List.thy ===== *)
theory Ordered_List
  imports Simulation Progress Adt
begin

text \<open>
  \<open>lf/list.go\<close>: the Harris-Michael ordered list, the model. A node's \<open>next\<close> is a markable
  reference, an atomic pointer to an immutable pair \<open>(ref, marked)\<close>. A compare-and-swap on it
  compares the identity of the pair, not its contents; every store installs a fresh pair, so the
  identity is modelled by a version number of the field that every store increments.
  \<open>compareAndSet\<close> is two steps, the load and the compare-and-swap.
\<close>

record ('k, 'v) listNode =
  lkey :: 'k
  lval :: 'v
  kind :: int
  nref :: ptr
  nmark :: bool
  nver :: nat

record ('k, 'v) list_state =
  lnodes :: "loc \<Rightarrow> ('k, 'v) listNode"
  lbrk :: loc
  lhead :: loc
  lcount :: u64

text \<open>The tail sentinel is cell 0, the head sentinel cell 1; they have no key and no value.\<close>

definition NewList :: "('k, 'v) list_state" where
  "NewList = \<lparr>lnodes = (\<lambda>l. if l = 0
       then \<lparr>lkey = undefined, lval = undefined, kind = 1, nref = None, nmark = False, nver = 0\<rparr>
       else \<lparr>lkey = undefined, lval = undefined, kind = -1, nref = Some 0, nmark = False, nver = 0\<rparr>),
     lbrk = 2, lhead = 1, lcount = 0\<rparr>"

definition keyLess :: "('k \<Rightarrow> 'k \<Rightarrow> bool) \<Rightarrow> ('k, 'v) listNode \<Rightarrow> 'k \<Rightarrow> bool" where
  "keyLess lt n x = (if kind n = -1 then True else if kind n = 1 then False else lt (lkey n) x)"

definition keyEqual :: "('k \<Rightarrow> 'k \<Rightarrow> bool) \<Rightarrow> ('k, 'v) listNode \<Rightarrow> 'k \<Rightarrow> bool" where
  "keyEqual lt n x = (if kind n \<noteq> 0 then False else \<not> lt (lkey n) x \<and> \<not> lt x (lkey n))"

text \<open>
  The two steps of \<open>compareAndSet\<close>: the load with the two early returns, and the compare-and-swap
  against the loaded pair.
\<close>

datatype cas_load = CasFails | CasHolds | CasTry nat

definition cas_first :: "('k, 'v) listNode \<Rightarrow> ptr \<Rightarrow> ptr \<Rightarrow> bool \<Rightarrow> bool \<Rightarrow> cas_load" where
  "cas_first n expectRef newRef expectMark newMark =
     (if nref n \<noteq> expectRef \<or> nmark n \<noteq> expectMark then CasFails
      else if newRef = nref n \<and> newMark = nmark n then CasHolds
      else CasTry (nver n))"

definition cas_second :: "('k, 'v) list_state \<Rightarrow> loc \<Rightarrow> nat \<Rightarrow> ptr \<Rightarrow> bool \<Rightarrow> ('k, 'v) list_state option"
where
  "cas_second s l ver newRef newMark =
     (if nver (lnodes s l) = ver
      then Some (s\<lparr>lnodes := (lnodes s)(l := (lnodes s l)\<lparr>nref := newRef, nmark := newMark,
             nver := Suc (nver (lnodes s l))\<rparr>)\<rparr>)
      else None)"

text \<open>The methods. \<open>Contains\<close> is the second result of \<open>Get\<close>.\<close>

datatype ('k, 'v) list_op = MapOp "('k, 'v) map_op" | RangeOp 'k 'k
datatype ('k, 'v) list_resp = MapResp "'v resp" | Visited "('k \<times> 'v) list"

text \<open>The callers of \<open>search\<close>, with their arguments.\<close>

datatype ('k, 'v) search_call = CSet 'k 'v | CDel 'k | CRange 'k 'k

fun call_key :: "('k, 'v) search_call \<Rightarrow> 'k" where
  "call_key (CSet k v) = k"
| "call_key (CDel k) = k"
| "call_key (CRange from to) = from"

datatype ('k, 'v) list_pc =
    SHead "('k, 'v) search_call"                          \<comment> \<open>\<open>curr = pred.next.getReference()\<close>\<close>
  | SGet "('k, 'v) search_call" loc loc                   \<comment> \<open>\<open>succ, marked := curr.next.get()\<close>\<close>
  | SUnlink "('k, 'v) search_call" loc loc ptr            \<comment> \<open>\<open>pred.next.compareAndSet\<close>, load\<close>
  | SUnlinkCas "('k, 'v) search_call" loc loc ptr nat     \<comment> \<open>the same, compare-and-swap\<close>
  | SetVal 'v loc                                         \<comment> \<open>\<open>curr.val.Store(&v)\<close>\<close>
  | Ins 'k 'v loc loc loc                                 \<comment> \<open>\<open>pred.next.compareAndSet(curr, n, ..)\<close>, load\<close>
  | InsCas 'k 'v loc loc loc nat                          \<comment> \<open>the same, compare-and-swap\<close>
  | InsLen                                                \<comment> \<open>\<open>l.length.Add(1)\<close>\<close>
  | DGet 'k loc loc                                       \<comment> \<open>\<open>succ, marked := curr.next.get()\<close>\<close>
  | DMark 'k loc loc ptr                                  \<comment> \<open>\<open>curr.next.compareAndSet(succ, succ, false, true)\<close>, load\<close>
  | DMarkCas 'k loc loc ptr nat                           \<comment> \<open>the same, compare-and-swap\<close>
  | DVal loc loc ptr                                      \<comment> \<open>\<open>value := *curr.val.Load()\<close>\<close>
  | DUnlink loc loc ptr 'v                                \<comment> \<open>\<open>pred.next.compareAndSet(curr, succ, ..)\<close>, load\<close>
  | DUnlinkCas loc loc ptr 'v nat                         \<comment> \<open>the same, compare-and-swap\<close>
  | DLen 'v                                               \<comment> \<open>\<open>l.length.Add(^uint64(0))\<close>\<close>
  | GHead 'k                                              \<comment> \<open>\<open>curr := l.head.next.getReference()\<close>\<close>
  | GGet 'k loc                                           \<comment> \<open>\<open>succ, marked := curr.next.get()\<close>\<close>
  | GVal loc                                              \<comment> \<open>\<open>*curr.val.Load()\<close>\<close>
  | RGet 'k 'k "('k \<times> 'v) list" loc                       \<comment> \<open>\<open>succ, marked := curr.next.get()\<close>\<close>
  | RVal 'k 'k "('k \<times> 'v) list" loc ptr                   \<comment> \<open>\<open>op(curr.key, *curr.val.Load())\<close>\<close>

fun list_beg :: "('k, 'v) list_state \<Rightarrow> tid \<Rightarrow> ('k, 'v) list_op \<Rightarrow>
    ('k, 'v) list_state \<times> ('k, 'v) list_pc" where
  "list_beg s t (MapOp (SetKey k v)) = (s, SHead (CSet k v))"
| "list_beg s t (MapOp (DelKey k)) = (s, SHead (CDel k))"
| "list_beg s t (MapOp (GetKey k)) = (s, GHead k)"
| "list_beg s t (RangeOp from to) = (s, SHead (CRange from to))"

text \<open>A pointer that is dereferenced next; \<open>nil\<close> is the panic.\<close>

definition deref :: "ptr \<Rightarrow> (loc \<Rightarrow> ('pc, 'r) thread) \<Rightarrow> ('pc, 'r) thread" where
  "deref p f = (case p of None \<Rightarrow> Panic | Some l \<Rightarrow> f l)"

lemma deref_Return: "deref q f = Return r \<Longrightarrow> \<exists>l. q = Some l \<and> f l = Return r"
  by (cases q) (simp_all add: deref_def)

text \<open>The loop of \<open>Range\<close> at \<open>curr\<close>: the test of \<open>curr.kind\<close>.\<close>

definition range_at :: "('k, 'v) list_state \<Rightarrow> 'k \<Rightarrow> 'k \<Rightarrow> ('k \<times> 'v) list \<Rightarrow> loc \<Rightarrow>
    (('k, 'v) list_pc, ('k, 'v) list_resp) thread" where
  "range_at s from to acc cur =
     (if kind (lnodes s cur) = 0 then Busy (RGet from to acc cur) else Return (Visited acc))"

text \<open>
  What the callers of \<open>search\<close> do with \<open>pred\<close> and \<open>curr\<close>. \<open>Set\<close> allocates its node, with \<open>next\<close>
  already pointing to \<open>curr\<close>.
\<close>

fun after_search :: "('k \<Rightarrow> 'k \<Rightarrow> bool) \<Rightarrow> ('k, 'v) list_state \<Rightarrow> ('k, 'v) search_call \<Rightarrow> loc \<Rightarrow> loc \<Rightarrow>
    ('k, 'v) list_state \<times> (('k, 'v) list_pc, ('k, 'v) list_resp) thread" where
  "after_search lt s (CSet k v) pred cur =
     (if keyEqual lt (lnodes s cur) k then (s, Busy (SetVal v cur))
      else (s\<lparr>lnodes := (lnodes s)(lbrk s := \<lparr>lkey = k, lval = v, kind = 0, nref = Some cur,
                nmark = False, nver = 0\<rparr>), lbrk := Suc (lbrk s)\<rparr>,
            Busy (Ins k v (lbrk s) pred cur)))"
| "after_search lt s (CDel k) pred cur =
     (if keyEqual lt (lnodes s cur) k then (s, Busy (DGet k pred cur))
      else (s, Return (MapResp (Got None))))"
| "after_search lt s (CRange from to) pred cur = (s, range_at s from to [] cur)"

fun list_search_step :: "('k \<Rightarrow> 'k \<Rightarrow> bool) \<Rightarrow> ('k, 'v) list_state \<Rightarrow> ('k, 'v) list_pc \<Rightarrow>
    ('k, 'v) list_state \<times> (('k, 'v) list_pc, ('k, 'v) list_resp) thread" where
  "list_search_step lt s (SHead c) =
     (s, deref (nref (lnodes s (lhead s))) (\<lambda>cur. Busy (SGet c (lhead s) cur)))"
| "list_search_step lt s (SGet c pred cur) =
     (let n = lnodes s cur in
      if nmark n then (s, Busy (SUnlink c pred cur (nref n)))
      else if keyLess lt n (call_key c) then (s, deref (nref n) (\<lambda>succ. Busy (SGet c cur succ)))
      else after_search lt s c pred cur)"
| "list_search_step lt s (SUnlink c pred cur succ) =
     (case cas_first (lnodes s pred) (Some cur) succ False False of
        CasFails \<Rightarrow> (s, Busy (SHead c))
      | CasHolds \<Rightarrow> (s, deref succ (\<lambda>l. Busy (SGet c pred l)))
      | CasTry ver \<Rightarrow> (s, Busy (SUnlinkCas c pred cur succ ver)))"
| "list_search_step lt s (SUnlinkCas c pred cur succ ver) =
     (case cas_second s pred ver succ False of
        None \<Rightarrow> (s, Busy (SHead c))
      | Some s' \<Rightarrow> (s', deref succ (\<lambda>l. Busy (SGet c pred l))))"
| "list_search_step lt s _ = (s, Panic)"

fun list_set_step :: "('k, 'v) list_state \<Rightarrow> ('k, 'v) list_pc \<Rightarrow>
    ('k, 'v) list_state \<times> (('k, 'v) list_pc, ('k, 'v) list_resp) thread" where
  "list_set_step s (SetVal v cur) =
     (s\<lparr>lnodes := (lnodes s)(cur := (lnodes s cur)\<lparr>lval := v\<rparr>)\<rparr>, Return (MapResp Ack))"
| "list_set_step s (Ins k v n pred cur) =
     (case cas_first (lnodes s pred) (Some cur) (Some n) False False of
        CasFails \<Rightarrow> (s, Busy (SHead (CSet k v)))
      | CasHolds \<Rightarrow> (s, Busy InsLen)
      | CasTry ver \<Rightarrow> (s, Busy (InsCas k v n pred cur ver)))"
| "list_set_step s (InsCas k v n pred cur ver) =
     (case cas_second s pred ver (Some n) False of
        None \<Rightarrow> (s, Busy (SHead (CSet k v)))
      | Some s' \<Rightarrow> (s', Busy InsLen))"
| "list_set_step s InsLen = (s\<lparr>lcount := lcount s + 1\<rparr>, Return (MapResp Ack))"
| "list_set_step s _ = (s, Panic)"

fun list_del_step :: "('k, 'v) list_state \<Rightarrow> ('k, 'v) list_pc \<Rightarrow>
    ('k, 'v) list_state \<times> (('k, 'v) list_pc, ('k, 'v) list_resp) thread" where
  "list_del_step s (DGet k pred cur) =
     (if nmark (lnodes s cur) then (s, Busy (SHead (CDel k)))
      else (s, Busy (DMark k pred cur (nref (lnodes s cur)))))"
| "list_del_step s (DMark k pred cur succ) =
     (case cas_first (lnodes s cur) succ succ False True of
        CasFails \<Rightarrow> (s, Busy (SHead (CDel k)))
      | CasHolds \<Rightarrow> (s, Busy (DVal pred cur succ))
      | CasTry ver \<Rightarrow> (s, Busy (DMarkCas k pred cur succ ver)))"
| "list_del_step s (DMarkCas k pred cur succ ver) =
     (case cas_second s cur ver succ True of
        None \<Rightarrow> (s, Busy (SHead (CDel k)))
      | Some s' \<Rightarrow> (s', Busy (DVal pred cur succ)))"
| "list_del_step s (DVal pred cur succ) = (s, Busy (DUnlink pred cur succ (lval (lnodes s cur))))"
| "list_del_step s (DUnlink pred cur succ v) =
     (case cas_first (lnodes s pred) (Some cur) succ False False of
        CasTry ver \<Rightarrow> (s, Busy (DUnlinkCas pred cur succ v ver))
      | _ \<Rightarrow> (s, Busy (DLen v)))"
| "list_del_step s (DUnlinkCas pred cur succ v ver) =
     (case cas_second s pred ver succ False of
        None \<Rightarrow> (s, Busy (DLen v))
      | Some s' \<Rightarrow> (s', Busy (DLen v)))"
| "list_del_step s (DLen v) = (s\<lparr>lcount := lcount s + NOT 0\<rparr>, Return (MapResp (Got (Some v))))"
| "list_del_step s _ = (s, Panic)"

fun list_get_step :: "('k \<Rightarrow> 'k \<Rightarrow> bool) \<Rightarrow> ('k, 'v) list_state \<Rightarrow> ('k, 'v) list_pc \<Rightarrow>
    ('k, 'v) list_state \<times> (('k, 'v) list_pc, ('k, 'v) list_resp) thread" where
  "list_get_step lt s (GHead k) = (s, deref (nref (lnodes s (lhead s))) (\<lambda>cur. Busy (GGet k cur)))"
| "list_get_step lt s (GGet k cur) =
     (let n = lnodes s cur in
      if nmark n \<or> keyLess lt n k then (s, deref (nref n) (\<lambda>succ. Busy (GGet k succ)))
      else if keyEqual lt n k then (s, Busy (GVal cur))
      else (s, Return (MapResp (Got None))))"
| "list_get_step lt s (GVal cur) = (s, Return (MapResp (Got (Some (lval (lnodes s cur))))))"
| "list_get_step lt s _ = (s, Panic)"

fun list_range_step :: "('k \<Rightarrow> 'k \<Rightarrow> bool) \<Rightarrow> ('k, 'v) list_state \<Rightarrow> ('k, 'v) list_pc \<Rightarrow>
    ('k, 'v) list_state \<times> (('k, 'v) list_pc, ('k, 'v) list_resp) thread" where
  "list_range_step lt s (RGet from to acc cur) =
     (let n = lnodes s cur in
      if nmark n then (s, deref (nref n) (range_at s from to acc))
      else if \<not> lt (lkey n) to then (s, Return (Visited acc))
      else (s, Busy (RVal from to acc cur (nref n))))"
| "list_range_step lt s (RVal from to acc cur succ) =
     (let acc' = acc @ [(lkey (lnodes s cur), lval (lnodes s cur))]
      in (s, deref succ (range_at s from to acc')))"
| "list_range_step lt s _ = (s, Panic)"

fun list_step :: "('k \<Rightarrow> 'k \<Rightarrow> bool) \<Rightarrow> ('k, 'v) list_state \<Rightarrow> tid \<Rightarrow> ('k, 'v) list_pc \<Rightarrow>
    ('k, 'v) list_state \<times> (('k, 'v) list_pc, ('k, 'v) list_resp) thread" where
  "list_step lt s t (SHead c) = list_search_step lt s (SHead c)"
| "list_step lt s t (SGet c pred cur) = list_search_step lt s (SGet c pred cur)"
| "list_step lt s t (SUnlink c pred cur succ) = list_search_step lt s (SUnlink c pred cur succ)"
| "list_step lt s t (SUnlinkCas c pred cur succ ver) = list_search_step lt s (SUnlinkCas c pred cur succ ver)"
| "list_step lt s t (SetVal v cur) = list_set_step s (SetVal v cur)"
| "list_step lt s t (Ins k v n pred cur) = list_set_step s (Ins k v n pred cur)"
| "list_step lt s t (InsCas k v n pred cur ver) = list_set_step s (InsCas k v n pred cur ver)"
| "list_step lt s t InsLen = list_set_step s InsLen"
| "list_step lt s t (GHead k) = list_get_step lt s (GHead k)"
| "list_step lt s t (GGet k cur) = list_get_step lt s (GGet k cur)"
| "list_step lt s t (GVal cur) = list_get_step lt s (GVal cur)"
| "list_step lt s t (RGet from to acc cur) = list_range_step lt s (RGet from to acc cur)"
| "list_step lt s t (RVal from to acc cur succ) = list_range_step lt s (RVal from to acc cur succ)"
| "list_step lt s t p = list_del_step s p"

definition list_Len :: "('k, 'v) list_state \<Rightarrow> int" where
  "list_Len s = sint (lcount s)"

definition list_machine :: "('k \<Rightarrow> 'k \<Rightarrow> bool) \<Rightarrow>
    (('k, 'v) list_state, ('k, 'v) list_pc, ('k, 'v) list_op, ('k, 'v) list_resp) machine" where
  "list_machine lt = \<lparr>sh0 = NewList, can = (\<lambda>_ _ _. True), beg = list_beg, stp = list_step lt\<rparr>"

lemma list_machine_simps [simp]:
  "sh0 (list_machine lt) = NewList" "can (list_machine lt) s t oper = True"
  "beg (list_machine lt) = list_beg" "stp (list_machine lt) = list_step lt"
  by (simp_all add: list_machine_def)

end
