(* ===== verification/Ordered_List_Safety.thy ===== *)
theory Ordered_List_Safety
  imports Ordered_List
begin

text \<open>
  Safety of the Harris-Michael list. The physical list from the head to the tail is strictly
  sorted, every unmarked node is on it, a marked node never changes its reference again. With the
  values erased, the list is linearizable to the map contract: an insertion takes effect when it
  links its node, a deletion when it marks its node, and a call that finds or misses its key at a
  moment inside the call at which that was true. For a missing key this moment can lie in the past
  of the reader and is recorded when another goroutine inserts the key.
\<close>

subsection \<open>The order of nodes\<close>

definition below :: "('k \<Rightarrow> 'k \<Rightarrow> bool) \<Rightarrow> ('k, 'v) listNode \<Rightarrow> ('k, 'v) listNode \<Rightarrow> bool" where
  "below lt a b \<longleftrightarrow> (kind a = -1 \<and> kind b \<noteq> -1) \<or> (kind a = 0 \<and> kind b = 1) \<or>
     (kind a = 0 \<and> kind b = 0 \<and> lt (lkey a) (lkey b))"

definition above :: "('k \<Rightarrow> 'k \<Rightarrow> bool) \<Rightarrow> ('k, 'v) listNode \<Rightarrow> 'k \<Rightarrow> bool" where
  "above lt n k \<longleftrightarrow> \<not> keyLess lt n k \<and> \<not> keyEqual lt n k"

lemma below_rules:
  assumes "strict_weak lt" and "below lt a b"
  shows below_trans: "below lt b c \<Longrightarrow> below lt a c"
    and below_irrefl: "b \<noteq> a"
    and below_keyLess: "keyLess lt b k \<Longrightarrow> keyLess lt a k"
    and below_above: "above lt a k \<Longrightarrow> above lt b k"
    and below_keyEqual: "keyEqual lt a k \<Longrightarrow> above lt b k"
    and keyEqual_below: "keyEqual lt b k \<Longrightarrow> keyLess lt a k"
proof -
  note sw = strict_weak_irrefl [OF assms(1)] strict_weak_trans [OF assms(1)]
    strict_weak_split [OF assms(1)]
  note defs = below_def keyLess_def keyEqual_def above_def
  show "below lt b c \<Longrightarrow> below lt a c"
    using assms(2) sw(2) [of "lkey a" "lkey b" "lkey c"] by (auto simp: below_def)
  show "b \<noteq> a" using assms(2) sw(1) [of "lkey a"] by (auto simp: below_def)
  note ab = assms(2) [unfolded below_def]
  show "keyLess lt b k \<Longrightarrow> keyLess lt a k"
    using ab sw(2) [of "lkey a" "lkey b" k] by (auto simp: defs split: if_splits)
  show "above lt a k \<Longrightarrow> above lt b k"
    using ab sw(2) [of k "lkey a" "lkey b"] sw(1) [of k] sw(2) [of k "lkey b" k]
    by (auto simp: defs split: if_splits)
  show "keyEqual lt a k \<Longrightarrow> above lt b k"
    using ab sw(3) [of "lkey a" "lkey b" k] sw(2) [of k "lkey b" k] sw(1) [of k]
    by (auto simp: defs split: if_splits)
  show "keyEqual lt b k \<Longrightarrow> keyLess lt a k"
    using ab sw(3) [of "lkey a" "lkey b" k] by (auto simp: defs split: if_splits)
qed

lemma keyEqual_same:
  "strict_weak lt \<Longrightarrow> same_key lt j k \<Longrightarrow> keyEqual lt n j \<longleftrightarrow> keyEqual lt n k"
  using same_key_less [of lt j k] by (auto simp: keyEqual_def)

lemma keyLess_not_Equal: "strict_weak lt \<Longrightarrow> keyLess lt n k \<Longrightarrow> \<not> keyEqual lt n k"
  by (auto simp: keyLess_def keyEqual_def split: if_splits)

subsection \<open>Ghost state and invariant\<close>

text \<open>
  The physical list, the published nodes (the physical list and the unlinked ones), and the
  owners of the nodes that a \<open>Set\<close> has allocated and not yet linked.
\<close>

record list_ghost =
  phys :: "loc list"
  pub :: "loc set"
  lown :: "loc \<Rightarrow> tid option"

definition node_inv :: "('k \<Rightarrow> 'k \<Rightarrow> bool) \<Rightarrow> (loc \<Rightarrow> ('k, 'v) listNode) \<Rightarrow> loc set \<Rightarrow> loc \<Rightarrow> bool" where
  "node_inv lt nd P l \<longleftrightarrow>
     (kind (nd l) = 1 \<and> nref (nd l) = None \<and> \<not> nmark (nd l)) \<or>
     (kind (nd l) \<noteq> 1 \<and> (\<exists>d \<in> P. nref (nd l) = Some d \<and> below lt (nd l) (nd d)))"

definition list_inv :: "('k \<Rightarrow> 'k \<Rightarrow> bool) \<Rightarrow> ('k, 'v) list_state \<Rightarrow> list_ghost \<Rightarrow> bool" where
  "list_inv lt s g \<longleftrightarrow>
     linked (\<lambda>l. nref (lnodes s l)) (Some (lhead s)) (phys g) \<and> set (phys g) \<subseteq> pub g \<and>
     (\<forall>l \<in> pub g. l < lbrk s \<and> lown g l = None \<and> node_inv lt (lnodes s) (pub g) l \<and>
        (nmark (lnodes s l) \<or> l \<in> set (phys g))) \<and>
     kind (lnodes s (lhead s)) = -1 \<and> \<not> nmark (lnodes s (lhead s)) \<and>
     (\<forall>l. lbrk s \<le> l \<longrightarrow> lown g l = None)"

definition present :: "('k \<Rightarrow> 'k \<Rightarrow> bool) \<Rightarrow> ('k, 'v) list_state \<Rightarrow> list_ghost \<Rightarrow> 'k \<Rightarrow> bool" where
  "present lt s g k \<longleftrightarrow> (\<exists>l \<in> pub g. \<not> nmark (lnodes s l) \<and> keyEqual lt (lnodes s l) k)"

lemma list_invD:
  assumes "list_inv lt s g"
  shows list_inv_linked: "linked (\<lambda>l. nref (lnodes s l)) (Some (lhead s)) (phys g)"
    and list_inv_phys: "l \<in> set (phys g) \<Longrightarrow> l \<in> pub g"
    and list_inv_bound: "l \<in> pub g \<Longrightarrow> l < lbrk s"
    and list_inv_unowned: "l \<in> pub g \<Longrightarrow> lown g l = None"
    and list_inv_node: "l \<in> pub g \<Longrightarrow> node_inv lt (lnodes s) (pub g) l"
    and list_inv_unmarked: "l \<in> pub g \<Longrightarrow> \<not> nmark (lnodes s l) \<Longrightarrow> l \<in> set (phys g)"
    and list_inv_head: "kind (lnodes s (lhead s)) = -1" "\<not> nmark (lnodes s (lhead s))"
    and list_inv_own: "lown g l = Some t \<Longrightarrow> l < lbrk s"
proof -
  show "lown g l = Some t \<Longrightarrow> l < lbrk s"
    using assms unfolding list_inv_def by (metis not_less option.distinct(1))
qed (use assms in \<open>auto simp: list_inv_def\<close>)

lemma linked_split:
  "linked nx p (xs @ x # ys) \<Longrightarrow> linked nx (nx x) ys"
  by (induction xs arbitrary: p) auto

lemma head_phys: "list_inv lt s g \<Longrightarrow> \<exists>ys. phys g = lhead s # ys"
  using list_inv_linked [of lt s g] unfolding linked_Some by blast

lemma head_pub: "list_inv lt s g \<Longrightarrow> lhead s \<in> pub g"
  using head_phys [of lt s g] list_inv_phys [of lt s g "lhead s"] by auto

text \<open>A node that is not the tail has a published successor above it.\<close>

lemma next_pub:
  assumes "list_inv lt s g" and "l \<in> pub g" and "kind (lnodes s l) \<noteq> 1"
  shows "\<exists>d \<in> pub g. nref (lnodes s l) = Some d \<and> below lt (lnodes s l) (lnodes s d)"
  using list_inv_node [OF assms(1,2)] assms(3) by (auto simp: node_inv_def)

lemma marked_next:
  assumes "list_inv lt s g" and "l \<in> pub g" and "nmark (lnodes s l) \<or> keyLess lt (lnodes s l) k"
  shows "\<exists>d \<in> pub g. nref (lnodes s l) = Some d \<and> below lt (lnodes s l) (lnodes s d)"
  using list_inv_node [OF assms(1,2)] assms(3)
  by (auto simp: node_inv_def keyLess_def split: if_splits)

lemma next_below:
  assumes "list_inv lt s g" and "l \<in> pub g" and "nref (lnodes s l) = Some d"
  shows "d \<in> pub g" and "below lt (lnodes s l) (lnodes s d)"
  using list_inv_node [OF assms(1,2)] assms(3) by (auto simp: node_inv_def)

text \<open>The physical list is strictly sorted.\<close>

lemma phys_sorted_from:
  assumes "strict_weak lt" and inv: "list_inv lt s g"
  shows "linked (\<lambda>l. nref (lnodes s l)) p ls \<Longrightarrow> set ls \<subseteq> pub g \<Longrightarrow>
    sorted_wrt (\<lambda>a b. below lt (lnodes s a) (lnodes s b)) ls"
proof (induction ls arbitrary: p)
  case (Cons l ls)
  then have s: "sorted_wrt (\<lambda>a b. below lt (lnodes s a) (lnodes s b)) ls" by auto
  show ?case
  proof (cases ls)
    case (Cons d ds)
    with Cons.prems have "below lt (lnodes s l) (lnodes s d)"
      using next_below(2) [OF inv, of l d] by simp
    with s show ?thesis using below_trans [OF assms(1)] by (auto simp: Cons)
  qed simp
qed simp

lemma phys_sorted:
  "strict_weak lt \<Longrightarrow> list_inv lt s g \<Longrightarrow> sorted_wrt (\<lambda>a b. below lt (lnodes s a) (lnodes s b)) (phys g)"
  using phys_sorted_from [of lt s g, OF _ _ list_inv_linked] list_inv_phys [of lt s g] by blast

lemma phys_split:
  assumes "strict_weak lt" and "list_inv lt s g" and "phys g = xs @ x # ys"
  shows "l \<in> set xs \<Longrightarrow> below lt (lnodes s l) (lnodes s x)"
    and "l \<in> set ys \<Longrightarrow> below lt (lnodes s x) (lnodes s l)"
    and "linked (\<lambda>l. nref (lnodes s l)) (nref (lnodes s x)) ys"
  using phys_sorted [OF assms(1,2)] linked_split [of _ _ xs x ys] list_inv_linked [OF assms(2)]
  by (auto simp: assms(3) sorted_wrt_append)

text \<open>A key between an unmarked node and its successor is not present.\<close>

lemma gap_absent:
  assumes sw: "strict_weak lt" and inv: "list_inv lt s g"
    and p: "p \<in> pub g" "\<not> nmark (lnodes s p)" "nref (lnodes s p) = Some c"
    and k: "keyLess lt (lnodes s p) k" "above lt (lnodes s c) k"
  shows "\<not> present lt s g k"
proof
  assume "present lt s g k"
  then obtain l where l: "l \<in> pub g" "\<not> nmark (lnodes s l)" "keyEqual lt (lnodes s l) k"
    by (auto simp: present_def)
  obtain xs ys where ph: "phys g = xs @ p # ys"
    using list_inv_unmarked [OF inv p(1,2)] by (meson split_list)
  note P = phys_split [OF sw inv ph]
  obtain ys' where ys: "ys = c # ys'" using P(3) p(3) by (auto simp: linked_Some)
  have "l \<in> set (phys g)" by (rule list_inv_unmarked [OF inv l(1,2)])
  then consider "l \<in> set xs" | "l = p" | "l = c" | "l \<in> set ys'" by (auto simp: ph ys)
  then show False
  proof cases
    case 1
    then have "above lt (lnodes s p) k" using P(1) below_keyEqual [OF sw] l(3) by blast
    with k(1) show False by (simp add: above_def)
  next
    case 2
    with l(3) k(1) keyLess_not_Equal [OF sw] show False by blast
  next
    case 3
    with l(3) k(2) show False by (simp add: above_def)
  next
    case 4
    have "below lt (lnodes s c) (lnodes s l)"
      using phys_split(2) [OF sw inv, of "xs @ [p]" c ys'] 4 by (simp add: ph ys)
    then have "above lt (lnodes s l) k" using below_above [OF sw] k(2) by blast
    with l(3) show False by (simp add: above_def)
  qed
qed

text \<open>Two unmarked nodes never have the same key.\<close>

lemma present_unique:
  assumes sw: "strict_weak lt" and inv: "list_inv lt s g"
    and a: "a \<in> pub g" "\<not> nmark (lnodes s a)" "keyEqual lt (lnodes s a) k"
    and b: "b \<in> pub g" "\<not> nmark (lnodes s b)" "keyEqual lt (lnodes s b) k"
  shows "a = b"
proof (rule ccontr)
  assume ne: "a \<noteq> b"
  obtain xs ys where ph: "phys g = xs @ a # ys"
    using list_inv_unmarked [OF inv a(1,2)] by (meson split_list)
  have "b \<in> set (phys g)" by (rule list_inv_unmarked [OF inv b(1,2)])
  with ne consider "b \<in> set xs" | "b \<in> set ys" by (auto simp: ph)
  then show False
  proof cases
    case 1
    then have "above lt (lnodes s a) k"
      using phys_split(1) [OF sw inv ph] below_keyEqual [OF sw] b(3) by blast
    with a(3) show False by (simp add: above_def)
  next
    case 2
    then have "above lt (lnodes s b) k"
      using phys_split(2) [OF sw inv ph] below_keyEqual [OF sw] a(3) by blast
    with b(3) show False by (simp add: above_def)
  qed
qed

subsection \<open>What a traversal from a node would find\<close>

text \<open>\<open>miss lt nd k l\<close>: a traversal from \<open>l\<close> that ran now without interruption would miss \<open>k\<close>.\<close>

inductive miss :: "('k \<Rightarrow> 'k \<Rightarrow> bool) \<Rightarrow> (loc \<Rightarrow> ('k, 'v) listNode) \<Rightarrow> 'k \<Rightarrow> loc \<Rightarrow> bool"
  for lt nd k where
  miss_here: "\<not> nmark (nd l) \<Longrightarrow> above lt (nd l) k \<Longrightarrow> miss lt nd k l"
| miss_next: "nmark (nd l) \<or> keyLess lt (nd l) k \<Longrightarrow> nref (nd l) = Some d \<Longrightarrow> miss lt nd k d \<Longrightarrow>
    miss lt nd k l"

lemma miss_phys:
  assumes sw: "strict_weak lt" and inv: "list_inv lt s g"
  shows "miss lt (lnodes s) k x \<Longrightarrow> phys g = xs @ x # ys \<Longrightarrow> l \<in> set (x # ys) \<Longrightarrow>
    nmark (lnodes s l) \<or> \<not> keyEqual lt (lnodes s l) k"
proof (induction arbitrary: xs ys rule: miss.induct)
  case (miss_here x)
  then have "l = x \<or> below lt (lnodes s x) (lnodes s l)"
    using phys_split(2) [OF sw inv miss_here(3)] by auto
  then have "above lt (lnodes s l) k" using below_above [OF sw] miss_here(2) by blast
  then show ?case by (simp add: above_def)
next
  case (miss_next x d)
  obtain ys' where ys: "ys = d # ys'"
    using phys_split(3) [OF sw inv miss_next(5)] miss_next(2) by (auto simp: linked_Some)
  show ?case
  proof (cases "l = x")
    case True
    with miss_next(1) keyLess_not_Equal [OF sw] show ?thesis by blast
  next
    case False
    then show ?thesis using miss_next.IH [of "xs @ [x]" ys'] miss_next(5,6) by (simp add: ys)
  qed
qed

lemma miss_head:
  assumes "strict_weak lt" and inv: "list_inv lt s g" and "miss lt (lnodes s) k (lhead s)"
  shows "\<not> present lt s g k"
proof
  assume "present lt s g k"
  then obtain l where l: "l \<in> pub g" "\<not> nmark (lnodes s l)" "keyEqual lt (lnodes s l) k"
    by (auto simp: present_def)
  obtain ys where ys: "phys g = [] @ lhead s # ys" using head_phys [OF inv] by auto
  have "l \<in> set (lhead s # ys)" using list_inv_unmarked [OF inv l(1,2)] by (simp add: ys)
  from miss_phys [OF assms(1) inv assms(3) ys this] l show False by blast
qed

lemma miss_above_phys:
  assumes sw: "strict_weak lt" and inv: "list_inv lt s g"
  shows "phys g = xs @ x # ys \<Longrightarrow> above lt (lnodes s x) k \<Longrightarrow> miss lt (lnodes s) k x"
proof (induction ys arbitrary: xs x)
  case Nil
  then have "nref (lnodes s x) = None" using phys_split(3) [OF sw inv Nil(1)] by simp
  moreover have "x \<in> pub g" using list_inv_phys [OF inv, of x] by (simp add: Nil(1))
  ultimately have "\<not> nmark (lnodes s x)"
    using list_inv_node [OF inv, of x] by (auto simp: node_inv_def)
  then show ?case using Nil(2) by (rule miss_here)
next
  case (Cons d ys)
  show ?case
  proof (cases "nmark (lnodes s x)")
    case True
    have nx: "nref (lnodes s x) = Some d" using phys_split(3) [OF sw inv Cons.prems(1)] by simp
    have "above lt (lnodes s d) k"
      using phys_split(2) [OF sw inv Cons.prems(1), of d] below_above [OF sw _ Cons.prems(2)] by simp
    then have "miss lt (lnodes s) k d" using Cons.IH [of "xs @ [x]" d] Cons.prems(1) by simp
    with True nx show ?thesis using miss_next [where nd = "lnodes s" and l = x and d = d] by simp
  next
    case False
    then show ?thesis using Cons.prems(2) by (rule miss_here)
  qed
qed

end
