(* ===== verification/Ordered_List_Lin.thy ===== *)
theory Ordered_List_Lin
  imports Ordered_List_Safety
begin

text \<open>
  Linearizability of the list: the assertions of the goroutines, their stability, and one lemma
  for each kind of write to the list.
\<close>

subsection \<open>Specification\<close>

text \<open>
  The key set behind the map contract. \<open>erase\<close> forgets the values in the responses; a \<open>Range\<close>
  has no atomic meaning at all.
\<close>

datatype keys_resp = KAck | KFound bool | KVisited

fun erase :: "('k, 'v) list_resp \<Rightarrow> keys_resp" where
  "erase (MapResp Ack) = KAck"
| "erase (MapResp (Got v)) = KFound (v \<noteq> None)"
| "erase (Visited kvs) = KVisited"

fun keys_spec :: "('k \<Rightarrow> 'k \<Rightarrow> bool) \<Rightarrow> ('k \<Rightarrow> bool) \<Rightarrow> ('k, 'v) list_op \<Rightarrow> ('k \<Rightarrow> bool) \<times> keys_resp"
where
  "keys_spec lt K (MapOp (SetKey k v)) = ((\<lambda>x. same_key lt x k \<or> K x), KAck)"
| "keys_spec lt K (MapOp (GetKey k)) = (K, KFound (K k))"
| "keys_spec lt K (MapOp (DelKey k)) = ((\<lambda>x. K x \<and> \<not> same_key lt x k), KFound (K k))"
| "keys_spec lt K (RangeOp from to) = (K, KVisited)"

subsection \<open>Assertions\<close>

type_synonym ('k, 'v) lstatus = "(('k, 'v) list_op, keys_resp) status"

fun call_op :: "('k, 'v) search_call \<Rightarrow> ('k, 'v) list_op" where
  "call_op (CSet k v) = MapOp (SetKey k v)"
| "call_op (CDel k) = MapOp (DelKey k)"
| "call_op (CRange from to) = RangeOp from to"

definition wait :: "('k, 'v) lstatus \<Rightarrow> ('k, 'v) list_op \<Rightarrow> bool" where
  "wait st oper \<longleftrightarrow> (\<exists>R. st = Wait oper R)"

definition may :: "('k, 'v) lstatus \<Rightarrow> keys_resp \<Rightarrow> bool" where
  "may st r \<longleftrightarrow> (\<exists>oper R. st = Wait oper R \<and> r \<in> R)"

text \<open>If a traversal from \<open>l\<close> would miss \<open>k\<close>, the call may answer that \<open>k\<close> is absent.\<close>

definition evid :: "('k \<Rightarrow> 'k \<Rightarrow> bool) \<Rightarrow> ('k, 'v) list_state \<Rightarrow> list_ghost \<Rightarrow> 'k \<Rightarrow> ('k, 'v) lstatus \<Rightarrow>
    loc \<Rightarrow> bool" where
  "evid lt s g k st l \<longleftrightarrow>
     (miss lt (lnodes s) k l \<longrightarrow> may st (KFound False) \<or> \<not> present lt s g k)"

fun evid_call :: "('k \<Rightarrow> 'k \<Rightarrow> bool) \<Rightarrow> ('k, 'v) list_state \<Rightarrow> list_ghost \<Rightarrow> ('k, 'v) search_call \<Rightarrow>
    ('k, 'v) lstatus \<Rightarrow> loc \<Rightarrow> bool" where
  "evid_call lt s g (CDel k) st l = evid lt s g k st l"
| "evid_call lt s g _ st l = True"

definition prevs :: "('k \<Rightarrow> 'k \<Rightarrow> bool) \<Rightarrow> ('k, 'v) list_state \<Rightarrow> list_ghost \<Rightarrow> 'k \<Rightarrow> loc \<Rightarrow> bool" where
  "prevs lt s g k p \<longleftrightarrow> p \<in> pub g \<and> keyLess lt (lnodes s p) k"

definition matches :: "('k \<Rightarrow> 'k \<Rightarrow> bool) \<Rightarrow> ('k, 'v) list_state \<Rightarrow> list_ghost \<Rightarrow> 'k \<Rightarrow> loc \<Rightarrow> bool" where
  "matches lt s g k l \<longleftrightarrow> l \<in> pub g \<and> keyEqual lt (lnodes s l) k"

definition dead :: "('k, 'v) list_state \<Rightarrow> list_ghost \<Rightarrow> loc \<Rightarrow> ptr \<Rightarrow> bool" where
  "dead s g l sc \<longleftrightarrow> l \<in> pub g \<and> nmark (lnodes s l) \<and> nref (lnodes s l) = sc"

definition casok :: "('k, 'v) list_state \<Rightarrow> loc \<Rightarrow> nat \<Rightarrow> ptr \<Rightarrow> bool" where
  "casok s p ver r \<longleftrightarrow> ver \<le> nver (lnodes s p) \<and>
     (nver (lnodes s p) = ver \<longrightarrow> nref (lnodes s p) = r \<and> \<not> nmark (lnodes s p))"

definition fresh :: "('k \<Rightarrow> 'k \<Rightarrow> bool) \<Rightarrow> ('k, 'v) list_state \<Rightarrow> list_ghost \<Rightarrow> tid \<Rightarrow> 'k \<Rightarrow> loc \<Rightarrow> loc \<Rightarrow> bool"
where
  "fresh lt s g t k n cu \<longleftrightarrow> lown g n = Some t \<and> lkey (lnodes s n) = k \<and> kind (lnodes s n) = 0 \<and>
     nref (lnodes s n) = Some cu \<and> \<not> nmark (lnodes s n) \<and> cu \<in> pub g \<and> above lt (lnodes s cu) k"

text \<open>The keys visited so far are ascending, in the interval, and below the current node.\<close>

definition visited_ok :: "('k \<Rightarrow> 'k \<Rightarrow> bool) \<Rightarrow> 'k \<Rightarrow> 'k \<Rightarrow> ('k \<times> 'v) list \<Rightarrow> bool" where
  "visited_ok lt from to acc \<longleftrightarrow> sorted_wrt lt (map fst acc) \<and>
     (\<forall>a \<in> set acc. \<not> lt (fst a) from \<and> lt (fst a) to)"

definition range_ok :: "('k \<Rightarrow> 'k \<Rightarrow> bool) \<Rightarrow> ('k, 'v) list_state \<Rightarrow> list_ghost \<Rightarrow> 'k \<Rightarrow> 'k \<Rightarrow>
    ('k \<times> 'v) list \<Rightarrow> loc \<Rightarrow> bool" where
  "range_ok lt s g from to acc cu \<longleftrightarrow> cu \<in> pub g \<and> kind (lnodes s cu) = 0 \<and> visited_ok lt from to acc \<and>
     (\<forall>a \<in> set acc. lt (fst a) (lkey (lnodes s cu))) \<and> \<not> lt (lkey (lnodes s cu)) from"

definition onward :: "('k \<Rightarrow> 'k \<Rightarrow> bool) \<Rightarrow> ('k, 'v) list_state \<Rightarrow> list_ghost \<Rightarrow> loc \<Rightarrow> ptr \<Rightarrow> bool" where
  "onward lt s g cu sc \<longleftrightarrow> (\<exists>d \<in> pub g. sc = Some d \<and> below lt (lnodes s cu) (lnodes s d))"

fun list_ok :: "('k \<Rightarrow> 'k \<Rightarrow> bool) \<Rightarrow> ('k, 'v) list_state \<Rightarrow> list_ghost \<Rightarrow> tid \<Rightarrow> ('k, 'v) list_pc \<Rightarrow>
    ('k, 'v) lstatus \<Rightarrow> bool" where
  "list_ok lt s g t (SHead c) st \<longleftrightarrow> wait st (call_op c)"
| "list_ok lt s g t (SGet c p cu) st \<longleftrightarrow>
     wait st (call_op c) \<and> prevs lt s g (call_key c) p \<and> cu \<in> pub g \<and> evid_call lt s g c st cu"
| "list_ok lt s g t (SUnlink c p cu sc) st \<longleftrightarrow>
     wait st (call_op c) \<and> prevs lt s g (call_key c) p \<and> dead s g cu sc \<and> evid_call lt s g c st cu"
| "list_ok lt s g t (SUnlinkCas c p cu sc ver) st \<longleftrightarrow>
     wait st (call_op c) \<and> prevs lt s g (call_key c) p \<and> dead s g cu sc \<and> evid_call lt s g c st cu \<and>
     casok s p ver (Some cu)"
| "list_ok lt s g t (SetVal v cu) st \<longleftrightarrow> may st KAck \<and> cu \<in> pub g"
| "list_ok lt s g t (Ins k v n p cu) st \<longleftrightarrow>
     wait st (MapOp (SetKey k v)) \<and> prevs lt s g k p \<and> fresh lt s g t k n cu"
| "list_ok lt s g t (InsCas k v n p cu ver) st \<longleftrightarrow>
     wait st (MapOp (SetKey k v)) \<and> prevs lt s g k p \<and> fresh lt s g t k n cu \<and> casok s p ver (Some cu)"
| "list_ok lt s g t InsLen st \<longleftrightarrow> st = Done KAck"
| "list_ok lt s g t (DGet k p cu) st \<longleftrightarrow>
     wait st (MapOp (DelKey k)) \<and> p \<in> pub g \<and> matches lt s g k cu"
| "list_ok lt s g t (DMark k p cu sc) st \<longleftrightarrow>
     wait st (MapOp (DelKey k)) \<and> p \<in> pub g \<and> matches lt s g k cu"
| "list_ok lt s g t (DMarkCas k p cu sc ver) st \<longleftrightarrow>
     wait st (MapOp (DelKey k)) \<and> p \<in> pub g \<and> matches lt s g k cu \<and> casok s cu ver sc"
| "list_ok lt s g t (DVal p cu sc) st \<longleftrightarrow> st = Done (KFound True) \<and> p \<in> pub g \<and> dead s g cu sc"
| "list_ok lt s g t (DUnlink p cu sc v) st \<longleftrightarrow> st = Done (KFound True) \<and> p \<in> pub g \<and> dead s g cu sc"
| "list_ok lt s g t (DUnlinkCas p cu sc v ver) st \<longleftrightarrow>
     st = Done (KFound True) \<and> p \<in> pub g \<and> dead s g cu sc \<and> casok s p ver (Some cu)"
| "list_ok lt s g t (DLen v) st \<longleftrightarrow> st = Done (KFound True)"
| "list_ok lt s g t (GHead k) st \<longleftrightarrow> wait st (MapOp (GetKey k))"
| "list_ok lt s g t (GGet k cu) st \<longleftrightarrow>
     wait st (MapOp (GetKey k)) \<and> cu \<in> pub g \<and> evid lt s g k st cu"
| "list_ok lt s g t (GVal cu) st \<longleftrightarrow> may st (KFound True) \<and> cu \<in> pub g"
| "list_ok lt s g t (RGet from to acc cu) st \<longleftrightarrow> wait st (RangeOp from to) \<and> range_ok lt s g from to acc cu"
| "list_ok lt s g t (RVal from to acc cu sc) st \<longleftrightarrow> wait st (RangeOp from to) \<and>
     range_ok lt s g from to acc cu \<and> lt (lkey (lnodes s cu)) to \<and> onward lt s g cu sc"

subsection \<open>Interference\<close>

definition list_rely :: "('k \<Rightarrow> 'k \<Rightarrow> bool) \<Rightarrow> tid \<Rightarrow> ('k, 'v) list_state \<Rightarrow> list_ghost \<Rightarrow>
    ('k, 'v) list_state \<Rightarrow> list_ghost \<Rightarrow> bool" where
  "list_rely lt t s g s' g' \<longleftrightarrow> pub g \<subseteq> pub g' \<and> lhead s' = lhead s \<and>
     (\<forall>l \<in> pub g. lkey (lnodes s' l) = lkey (lnodes s l) \<and> kind (lnodes s' l) = kind (lnodes s l) \<and>
        (nmark (lnodes s l) \<longrightarrow> nmark (lnodes s' l) \<and> nref (lnodes s' l) = nref (lnodes s l)) \<and>
        nver (lnodes s l) \<le> nver (lnodes s' l) \<and>
        (nver (lnodes s' l) = nver (lnodes s l) \<longrightarrow>
           nref (lnodes s' l) = nref (lnodes s l) \<and> nmark (lnodes s' l) = nmark (lnodes s l))) \<and>
     (\<forall>l u. u \<noteq> t \<longrightarrow> lown g l = Some u \<longrightarrow> lown g' l = Some u \<and> lnodes s' l = lnodes s l) \<and>
     (\<forall>k. \<forall>l \<in> pub g. present lt s g k \<longrightarrow> present lt s' g' k \<longrightarrow> miss lt (lnodes s') k l \<longrightarrow>
        miss lt (lnodes s) k l)"

text \<open>
  What may happen to the status of another goroutine: it may gain answers, and it must gain the
  answer \<open>absent\<close> when its key is being inserted.
\<close>

definition gains :: "('k \<Rightarrow> 'k \<Rightarrow> bool) \<Rightarrow> ('k, 'v) list_state \<Rightarrow> list_ghost \<Rightarrow> ('k, 'v) list_state \<Rightarrow>
    list_ghost \<Rightarrow> ('k, 'v) lstatus \<Rightarrow> ('k, 'v) lstatus \<Rightarrow> bool" where
  "gains lt s g s' g' st st' \<longleftrightarrow>
     (st' = st \<or> (\<exists>oper R R'. st = Wait oper R \<and> st' = Wait oper R' \<and> R \<subseteq> R')) \<and>
     (\<forall>k. wait st (MapOp (GetKey k)) \<or> wait st (MapOp (DelKey k)) \<longrightarrow> present lt s' g' k \<longrightarrow>
        present lt s g k \<or> may st' (KFound False))"

lemma gainsD:
  assumes "gains lt s g s' g' st st'"
  shows "wait st oper \<Longrightarrow> wait st' oper" and "may st r \<Longrightarrow> may st' r"
    and "st = Done d \<Longrightarrow> st' = Done d"
  using assms by (auto simp: gains_def wait_def may_def)

lemma gains_refl:
  "(\<And>k. present lt s' g' k \<Longrightarrow> present lt s g k) \<Longrightarrow> gains lt s g s' g' st st"
  by (auto simp: gains_def)

lemma list_relyD:
  assumes "list_rely lt t s g s' g'"
  shows "l \<in> pub g \<Longrightarrow> l \<in> pub g'"
    and "l \<in> pub g \<Longrightarrow> keyLess lt (lnodes s' l) k = keyLess lt (lnodes s l) k"
    and "l \<in> pub g \<Longrightarrow> keyEqual lt (lnodes s' l) k = keyEqual lt (lnodes s l) k"
    and "l \<in> pub g \<Longrightarrow> above lt (lnodes s' l) k = above lt (lnodes s l) k"
    and "l \<in> pub g \<Longrightarrow> d \<in> pub g \<Longrightarrow> below lt (lnodes s' l) (lnodes s' d) = below lt (lnodes s l) (lnodes s d)"
    and "prevs lt s g k p \<Longrightarrow> prevs lt s' g' k p"
    and "matches lt s g k l \<Longrightarrow> matches lt s' g' k l"
    and "dead s g l sc \<Longrightarrow> dead s' g' l sc"
    and "l \<in> pub g \<Longrightarrow> casok s l ver r \<Longrightarrow> casok s' l ver r"
    and "u \<noteq> t \<Longrightarrow> fresh lt s g u k n cu \<Longrightarrow> fresh lt s' g' u k n cu"
    and "range_ok lt s g from to acc cu \<Longrightarrow> range_ok lt s' g' from to acc cu"
    and "l \<in> pub g \<Longrightarrow> lkey (lnodes s' l) = lkey (lnodes s l)"
proof -
  show A: "l \<in> pub g \<Longrightarrow> l \<in> pub g'" for l using assms by (auto simp: list_rely_def)
  have K: "lkey (lnodes s' l) = lkey (lnodes s l)" "kind (lnodes s' l) = kind (lnodes s l)"
    if "l \<in> pub g" for l using assms that by (auto simp: list_rely_def)
  show "l \<in> pub g \<Longrightarrow> lkey (lnodes s' l) = lkey (lnodes s l)" by (rule K)
  show B: "l \<in> pub g \<Longrightarrow> keyLess lt (lnodes s' l) k = keyLess lt (lnodes s l) k" for l k
    using K by (simp add: keyLess_def)
  show C: "l \<in> pub g \<Longrightarrow> keyEqual lt (lnodes s' l) k = keyEqual lt (lnodes s l) k" for l k
    using K by (simp add: keyEqual_def)
  show D: "l \<in> pub g \<Longrightarrow> above lt (lnodes s' l) k = above lt (lnodes s l) k" for l k
    using B C by (simp add: above_def)
  show "l \<in> pub g \<Longrightarrow> d \<in> pub g \<Longrightarrow> below lt (lnodes s' l) (lnodes s' d) = below lt (lnodes s l) (lnodes s d)"
    using K by (simp add: below_def)
  show "prevs lt s g k p \<Longrightarrow> prevs lt s' g' k p" using A B by (simp add: prevs_def)
  show "matches lt s g k l \<Longrightarrow> matches lt s' g' k l" using A C by (simp add: matches_def)
  show "dead s g l sc \<Longrightarrow> dead s' g' l sc" using assms by (auto simp: dead_def list_rely_def)
  show "l \<in> pub g \<Longrightarrow> casok s l ver r \<Longrightarrow> casok s' l ver r"
    using assms by (fastforce simp: casok_def list_rely_def)
  show "u \<noteq> t \<Longrightarrow> fresh lt s g u k n cu \<Longrightarrow> fresh lt s' g' u k n cu"
    using assms A D by (auto simp: fresh_def list_rely_def)
  show "range_ok lt s g from to acc cu \<Longrightarrow> range_ok lt s' g' from to acc cu"
    using A K by (simp add: range_ok_def)
qed

lemma onward_stable:
  "list_rely lt t s g s' g' \<Longrightarrow> cu \<in> pub g \<Longrightarrow> onward lt s g cu sc \<Longrightarrow> onward lt s' g' cu sc"
  using list_relyD(1,5) [of lt t s g s' g'] unfolding onward_def by blast

lemma evid_stable:
  assumes r: "list_rely lt t s g s' g'" and gn: "gains lt s g s' g' st st'"
    and w: "wait st (MapOp (GetKey k)) \<or> wait st (MapOp (DelKey k))"
    and l: "l \<in> pub g" and e: "evid lt s g k st l"
  shows "evid lt s' g' k st' l"
proof (cases "present lt s' g' k \<and> \<not> may st' (KFound False)")
  case True
  then have p: "present lt s g k" using gn w by (auto simp: gains_def)
  have "\<not> miss lt (lnodes s') k l"
  proof
    assume "miss lt (lnodes s') k l"
    then have "miss lt (lnodes s) k l" using r l p True by (auto simp: list_rely_def)
    then have "may st (KFound False)" using e p by (auto simp: evid_def)
    then show False using gainsD(2) [OF gn] True by blast
  qed
  then show ?thesis by (simp add: evid_def)
qed (auto simp: evid_def)

lemma evid_call_stable:
  assumes "list_rely lt t s g s' g'" and "gains lt s g s' g' st st'" and "wait st (call_op c)"
    and "l \<in> pub g" and "evid_call lt s g c st l"
  shows "evid_call lt s' g' c st' l"
  using assms evid_stable [OF assms(1,2) _ assms(4)] by (cases c) auto

lemma list_stable:
  assumes r: "list_rely lt t s g s' g'" and gn: "gains lt s g s' g' st st'" and ut: "u \<noteq> t"
    and ok: "list_ok lt s g u p st"
  shows "list_ok lt s' g' u p st'"
proof -
  note D = list_relyD [OF r] gainsD [OF gn] onward_stable [OF r]
  have pd: "prevs lt s g k q \<Longrightarrow> q \<in> pub g" "dead s g q sc \<Longrightarrow> q \<in> pub g"
    "matches lt s g k q \<Longrightarrow> q \<in> pub g" "range_ok lt s g k1 k2 acc q \<Longrightarrow> q \<in> pub g" for k k1 k2 q sc acc
    by (simp_all add: prevs_def dead_def matches_def range_ok_def)
  show ?thesis
  proof (cases p)
    case (SGet c q cu)
    with ok D evid_call_stable [OF r gn, of c cu] show ?thesis by simp
  next
    case (SUnlink c q cu sc)
    then have "cu \<in> pub g" using ok by (simp add: dead_def)
    with SUnlink ok D evid_call_stable [OF r gn, of c cu] show ?thesis by simp
  next
    case (SUnlinkCas c q cu sc ver)
    then have "cu \<in> pub g" "q \<in> pub g" using ok by (simp_all add: dead_def prevs_def)
    with SUnlinkCas ok D evid_call_stable [OF r gn, of c cu] show ?thesis by simp
  next
    case (GGet k cu)
    with ok D evid_stable [OF r gn, of k cu] show ?thesis by simp
  next
    case (InsCas k v n q cu ver)
    then have "q \<in> pub g" using ok by (simp add: prevs_def)
    with InsCas ok D ut show ?thesis by simp
  next
    case (DMarkCas k q cu sc ver)
    then have "cu \<in> pub g" using ok by (simp add: matches_def)
    with DMarkCas ok D show ?thesis by simp
  next
    case (RVal lo hi acc cu sc)
    then have "cu \<in> pub g" using ok by (simp add: range_ok_def)
    with RVal ok D show ?thesis by simp
  qed (use ok D pd ut in \<open>simp_all\<close>)
qed

subsection \<open>Writes\<close>

definition set_next :: "('k, 'v) list_state \<Rightarrow> loc \<Rightarrow> ptr \<Rightarrow> bool \<Rightarrow> ('k, 'v) list_state" where
  "set_next s l r m = s\<lparr>lnodes := (lnodes s)(l := (lnodes s l)\<lparr>nref := r, nmark := m,
     nver := Suc (nver (lnodes s l))\<rparr>)\<rparr>"

lemma set_next_simps [simp]:
  "lhead (set_next s l r m) = lhead s" "lbrk (set_next s l r m) = lbrk s"
  "lkey (lnodes (set_next s l r m) x) = lkey (lnodes s x)"
  "kind (lnodes (set_next s l r m) x) = kind (lnodes s x)"
  "nref (lnodes (set_next s l r m) x) = (if x = l then r else nref (lnodes s x))"
  "nmark (lnodes (set_next s l r m) x) = (if x = l then m else nmark (lnodes s x))"
  "nver (lnodes (set_next s l r m) x) = (if x = l then Suc (nver (lnodes s l)) else nver (lnodes s x))"
  "x \<noteq> l \<Longrightarrow> lnodes (set_next s l r m) x = lnodes s x"
  "keyLess lt (lnodes (set_next s l r m) x) k = keyLess lt (lnodes s x) k"
  "keyEqual lt (lnodes (set_next s l r m) x) k = keyEqual lt (lnodes s x) k"
  "above lt (lnodes (set_next s l r m) x) k = above lt (lnodes s x) k"
  "below lt (lnodes (set_next s l r m) x) n = below lt (lnodes s x) n"
  "below lt n (lnodes (set_next s l r m) x) = below lt n (lnodes s x)"
  by (auto simp: set_next_def keyLess_def keyEqual_def above_def below_def)

lemma cas_second_eq:
  "cas_second s l ver r m = (if nver (lnodes s l) = ver then Some (set_next s l r m) else None)"
  by (simp add: cas_second_def set_next_def)

lemma linked_change:
  "linked nx q (xs @ p # ys) \<Longrightarrow> (\<And>l. l \<in> set xs \<Longrightarrow> nx' l = nx l) \<Longrightarrow> linked nx' (nx' p) zs \<Longrightarrow>
     linked nx' q (xs @ p # zs)"
  by (induction xs arbitrary: q) auto

lemma sorted_wrt_distinct: "sorted_wrt P xs \<Longrightarrow> (\<And>x. \<not> P x x) \<Longrightarrow> distinct xs"
  by (induction xs) auto

lemma phys_distinct:
  assumes "strict_weak lt" and "list_inv lt s g"
  shows "distinct (phys g)"
  using phys_sorted [OF assms] by (rule sorted_wrt_distinct) (use below_irrefl [OF assms(1)] in blast)

text \<open>Unlinking a marked node.\<close>

lemma unlink_node:
  assumes sw: "strict_weak lt" and inv: "list_inv lt s g" and d: "dead s g cu sc" and p: "p \<in> pub g"
    and c: "casok s p ver (Some cu)" "nver (lnodes s p) = ver"
  shows "\<exists>g'. list_inv lt (set_next s p sc False) g' \<and> (\<forall>u. list_rely lt u s g (set_next s p sc False) g') \<and>
    pub g' = pub g \<and> lown g' = lown g \<and> present lt (set_next s p sc False) g' = present lt s g"
proof -
  let ?s = "set_next s p sc False"
  have pc: "nref (lnodes s p) = Some cu" "\<not> nmark (lnodes s p)" using c by (auto simp: casok_def)
  have cu: "cu \<in> pub g" "nmark (lnodes s cu)" "nref (lnodes s cu) = sc" using d by (auto simp: dead_def)
  obtain e where e: "e \<in> pub g" "sc = Some e" "below lt (lnodes s cu) (lnodes s e)"
    using marked_next [OF inv cu(1)] cu(2,3) by auto
  have pb: "below lt (lnodes s p) (lnodes s cu)" using next_below [OF inv p pc(1)] by simp
  have pe: "below lt (lnodes s p) (lnodes s e)" using below_trans [OF sw pb e(3)] .
  obtain xs ys where ph: "phys g = xs @ p # ys"
    using list_inv_unmarked [OF inv p pc(2)] by (meson split_list)
  have "linked (\<lambda>l. nref (lnodes s l)) (Some cu) ys" using phys_split(3) [OF sw inv ph] pc(1) by simp
  then obtain zs where ys: "ys = cu # zs" "linked (\<lambda>l. nref (lnodes s l)) sc zs"
    using cu(3) by (auto simp: linked_Some)
  have dis: "distinct (xs @ p # cu # zs)" using phys_distinct [OF sw inv] by (simp add: ph ys(1))
  let ?g = "g\<lparr>phys := xs @ p # zs\<rparr>"
  have "linked (\<lambda>l. nref (lnodes ?s l)) (Some (lhead s)) (xs @ p # zs)"
  proof (rule linked_change)
    show "linked (\<lambda>l. nref (lnodes s l)) (Some (lhead s)) (xs @ p # ys)"
      using list_inv_linked [OF inv] by (simp add: ph)
    show "nref (lnodes ?s l) = nref (lnodes s l)" if "l \<in> set xs" for l using that dis by auto
    have "linked (\<lambda>l. nref (lnodes ?s l)) sc zs = linked (\<lambda>l. nref (lnodes s l)) sc zs"
      using dis by (intro linked_cong) auto
    then show "linked (\<lambda>l. nref (lnodes ?s l)) (nref (lnodes ?s p)) zs" using ys(2) by simp
  qed
  moreover have "node_inv lt (lnodes ?s) (pub g) l" if "l \<in> pub g" for l
  proof (cases "l = p")
    case True
    have "kind (lnodes s p) \<noteq> 1" using pe by (auto simp: below_def)
    with True pe e(1,2) show ?thesis by (auto simp: node_inv_def)
  next
    case False
    with list_inv_node [OF inv that] show ?thesis by (auto simp: node_inv_def)
  qed
  ultimately have inv': "list_inv lt ?s ?g"
    using inv pc(2) cu(2) by (auto simp: list_inv_def ph ys(1))
  have same: "present lt ?s ?g k = present lt s g k" for k
    using pc(2) by (auto simp: present_def)
  have mi: "miss lt (lnodes ?s) k l \<Longrightarrow> l \<in> pub g \<longrightarrow> miss lt (lnodes s) k l" for k l
  proof (induction rule: miss.induct)
    case (miss_here l)
    then show ?case using miss.miss_here [of "lnodes s" l lt k] pc(2) by (auto split: if_splits)
  next
    case (miss_next l d)
    show ?case
    proof (cases "l = p")
      case True
      with miss_next e have "miss lt (lnodes s) k e" by auto
      then have "miss lt (lnodes s) k cu"
        using miss.miss_next [where nd = "lnodes s" and l = cu and d = e] cu(2,3) e(2) by auto
      then show ?thesis using miss.miss_next [where nd = "lnodes s" and l = p and d = cu] pc(1) miss_next(1) True
        by auto
    next
      case False
      then show ?thesis using miss.miss_next [where nd = "lnodes s" and l = l and d = d] miss_next next_below(1) [OF inv, of l d]
        by auto
    qed
  qed
  have own: "x \<noteq> p" if "lown g x = Some u" for x u
    using that list_inv_unowned [OF inv p] by auto
  have "list_rely lt u s g ?s ?g" for u
    using mi own pc(2) by (auto simp: list_rely_def)
  with inv' same show ?thesis by (intro exI [of _ ?g]) (auto simp: fun_eq_iff)
qed

text \<open>Marking a node: its key disappears.\<close>

lemma mark_node:
  assumes sw: "strict_weak lt" and inv: "list_inv lt s g" and m: "matches lt s g k cu"
    and c: "casok s cu ver sc" "nver (lnodes s cu) = ver"
  shows "list_inv lt (set_next s cu sc True) g \<and> list_rely lt u s g (set_next s cu sc True) g \<and>
    present lt (set_next s cu sc True) g = (\<lambda>x. present lt s g x \<and> \<not> same_key lt x k) \<and>
    present lt s g k \<and> dead (set_next s cu sc True) g cu sc"
proof -
  let ?s = "set_next s cu sc True"
  have cu: "cu \<in> pub g" "keyEqual lt (lnodes s cu) k" "nref (lnodes s cu) = sc" "\<not> nmark (lnodes s cu)"
    using m c by (auto simp: matches_def casok_def)
  have k0: "kind (lnodes s cu) = 0" using cu(2) by (auto simp: keyEqual_def split: if_splits)
  have nx: "nref (lnodes ?s l) = nref (lnodes s l)" for l using cu(3) by simp
  have "node_inv lt (lnodes ?s) (pub g) l" if "l \<in> pub g" for l
    using list_inv_node [OF inv that] k0 cu(3) by (auto simp: node_inv_def)
  moreover have "lhead s \<noteq> cu" using k0 list_inv_head(1) [OF inv] by auto
  ultimately have inv': "list_inv lt ?s g"
    using inv unfolding list_inv_def nx by auto
  have here: "present lt s g k" using cu by (auto simp: present_def)
  have eq: "present lt ?s g x \<longleftrightarrow> present lt s g x \<and> \<not> same_key lt x k" for x
  proof
    assume "present lt ?s g x"
    then obtain l where l: "l \<in> pub g" "l \<noteq> cu" "\<not> nmark (lnodes s l)" "keyEqual lt (lnodes s l) x"
      by (auto simp: present_def split: if_splits)
    have "\<not> same_key lt x k"
    proof
      assume "same_key lt x k"
      then have "keyEqual lt (lnodes s l) k" using keyEqual_same [OF sw] l(4) by blast
      with present_unique [OF sw inv l(1,3) _ cu(1,4,2)] l(2) show False by blast
    qed
    with l show "present lt s g x \<and> \<not> same_key lt x k" by (auto simp: present_def)
  next
    assume x: "present lt s g x \<and> \<not> same_key lt x k"
    then obtain l where l: "l \<in> pub g" "\<not> nmark (lnodes s l)" "keyEqual lt (lnodes s l) x"
      by (auto simp: present_def)
    have "l \<noteq> cu"
    proof
      assume "l = cu"
      then have "same_key lt x (lkey (lnodes s cu))" "same_key lt (lkey (lnodes s cu)) k"
        using l(3) cu(2) by (auto simp: keyEqual_def same_key_def split: if_splits)
      with x same_key_trans [OF sw] show False by blast
    qed
    with l show "present lt ?s g x" by (auto simp: present_def)
  qed
  have mi: "miss lt (lnodes ?s) x l \<Longrightarrow> present lt ?s g x \<longrightarrow> miss lt (lnodes s) x l" for x l
  proof (induction rule: miss.induct)
    case (miss_here l)
    then show ?case using miss.miss_here [of "lnodes s" l lt x] by (auto split: if_splits)
  next
    case (miss_next l d)
    show ?case
    proof (cases "l = cu \<and> \<not> keyLess lt (lnodes s cu) x")
      case True
      show ?thesis
      proof
        assume "present lt ?s g x"
        then have "\<not> keyEqual lt (lnodes s cu) x"
          using eq same_key_trans [OF sw, of x "lkey (lnodes s cu)" k] cu(2) k0
          by (auto simp: keyEqual_def same_key_def)
        then have "above lt (lnodes s cu) x" using True by (simp add: above_def)
        then show "miss lt (lnodes s) x l" using True cu(4) miss.miss_here [of "lnodes s" cu lt x] by simp
      qed
    next
      case False
      have "nref (lnodes s l) = Some d" "nmark (lnodes s l) \<or> keyLess lt (lnodes s l) x"
        using miss_next(1,2) False unfolding nx by (auto split: if_splits)
      then show ?thesis
        using miss.miss_next [where nd = "lnodes s" and l = l and d = d and lt = lt and k = x] miss_next.IH
        by blast
    qed
  qed
  have own: "x \<noteq> cu" if "lown g x = Some v" for x v
    using that list_inv_unowned [OF inv cu(1)] by auto
  have "list_rely lt u s g ?s g"
    using mi own cu(3,4) by (auto simp: list_rely_def)
  moreover have "dead ?s g cu sc" using cu(1) by (simp add: dead_def)
  ultimately show ?thesis using inv' eq here by (auto simp: fun_eq_iff)
qed

text \<open>Linking a new node: its key appears.\<close>

lemma insert_node:
  assumes sw: "strict_weak lt" and inv: "list_inv lt s g" and p: "prevs lt s g k p"
    and n: "fresh lt s g t k n cu" and c: "casok s p ver (Some cu)" "nver (lnodes s p) = ver"
  shows "\<exists>g'. list_inv lt (set_next s p (Some n) False) g' \<and> list_rely lt t s g (set_next s p (Some n) False) g' \<and>
    present lt (set_next s p (Some n) False) g' = (\<lambda>x. same_key lt x k \<or> present lt s g x) \<and>
    \<not> present lt s g k \<and> pub g' = insert n (pub g) \<and> lown g' = (lown g)(n := None)"
proof -
  let ?s = "set_next s p (Some n) False"
  have pp: "p \<in> pub g" "keyLess lt (lnodes s p) k" using p by (auto simp: prevs_def)
  have pc: "nref (lnodes s p) = Some cu" "\<not> nmark (lnodes s p)" using c by (auto simp: casok_def)
  have nn: "lown g n = Some t" "lkey (lnodes s n) = k" "kind (lnodes s n) = 0"
    "nref (lnodes s n) = Some cu" "\<not> nmark (lnodes s n)" "cu \<in> pub g" "above lt (lnodes s cu) k"
    using n by (auto simp: fresh_def)
  have new: "n \<notin> pub g" using list_inv_unowned [OF inv, of n] nn(1) by auto
  then have np: "n \<noteq> p" using pp(1) by auto
  have absent: "\<not> present lt s g k" using gap_absent [OF sw inv pp(1) pc(2,1) pp(2) nn(7)] .
  have pb: "below lt (lnodes s p) (lnodes s cu)" using next_below [OF inv pp(1) pc(1)] by simp
  then have pn: "below lt (lnodes s p) (lnodes s n)"
    using pp(2) nn(2,3) by (auto simp: below_def keyLess_def split: if_splits)
  have nc: "below lt (lnodes s n) (lnodes s cu)"
    using nn pb list_inv_node [OF inv nn(6)]
    by (auto simp: node_inv_def below_def above_def keyLess_def keyEqual_def split: if_splits)
  obtain xs ys where ph: "phys g = xs @ p # ys"
    using list_inv_unmarked [OF inv pp(1) pc(2)] by (meson split_list)
  have lk: "linked (\<lambda>l. nref (lnodes s l)) (Some cu) ys" using phys_split(3) [OF sw inv ph] pc(1) by simp
  have dis: "distinct (xs @ p # ys)" using phys_distinct [OF sw inv] by (simp add: ph)
  let ?g = "\<lparr>phys = xs @ p # n # ys, pub = insert n (pub g), lown = (lown g)(n := None)\<rparr>"
  have "linked (\<lambda>l. nref (lnodes ?s l)) (Some (lhead s)) (xs @ p # n # ys)"
  proof (rule linked_change)
    show "linked (\<lambda>l. nref (lnodes s l)) (Some (lhead s)) (xs @ p # ys)"
      using list_inv_linked [OF inv] by (simp add: ph)
    show "nref (lnodes ?s l) = nref (lnodes s l)" if "l \<in> set xs" for l using that dis by auto
    have "linked (\<lambda>l. nref (lnodes ?s l)) (Some cu) ys = linked (\<lambda>l. nref (lnodes s l)) (Some cu) ys"
      using dis by (intro linked_cong) auto
    then show "linked (\<lambda>l. nref (lnodes ?s l)) (nref (lnodes ?s p)) (n # ys)"
      using lk np nn(4) by simp
  qed
  moreover have "node_inv lt (lnodes ?s) (insert n (pub g)) l" if "l \<in> insert n (pub g)" for l
  proof -
    have nd: "node_inv lt (lnodes s) (pub g) l" if "l \<noteq> n"
      using \<open>l \<in> insert n (pub g)\<close> that list_inv_node [OF inv] by simp
    show ?thesis
    proof (cases "l = n")
      case True
      with np nn nc show ?thesis by (auto simp: node_inv_def)
    next
      case False
      with nd pn show ?thesis by (cases "l = p") (auto simp: node_inv_def below_def)
    qed
  qed
  ultimately have inv': "list_inv lt ?s ?g"
    using inv np nn(5) pc(2) list_inv_own [OF inv nn(1)] by (auto simp: list_inv_def ph)
  have eq: "present lt ?s ?g x \<longleftrightarrow> same_key lt x k \<or> present lt s g x" for x
  proof -
    have "keyEqual lt (lnodes s n) x \<longleftrightarrow> same_key lt x k"
      using nn(2,3) by (auto simp: keyEqual_def same_key_def)
    then show ?thesis using np nn(5) pc(2) new by (auto simp: present_def)
  qed
  have mi: "miss lt (lnodes ?s) x l \<Longrightarrow> \<not> same_key lt x k \<Longrightarrow>
      (l \<in> pub g \<longrightarrow> miss lt (lnodes s) x l) \<and> (l = n \<longrightarrow> miss lt (lnodes s) x cu)" for x l
  proof (induction rule: miss.induct)
    case (miss_here l)
    have "miss lt (lnodes s) x cu" if "l = n"
    proof -
      have "above lt (lnodes s cu) x" using miss_here(2) that below_above [OF sw nc] by simp
      moreover obtain zs where "phys g = (xs @ [p]) @ cu # zs"
        using lk by (auto simp: ph linked_Some)
      ultimately show ?thesis using miss_above_phys [OF sw inv] by blast
    qed
    moreover have "miss lt (lnodes s) x l" if "l \<in> pub g"
      using miss.miss_here [of "lnodes s" l lt x] miss_here pc(2) by (auto split: if_splits)
    ultimately show ?case by blast
  next
    case (miss_next l d)
    consider "l = n" | "l = p" | "l \<noteq> n" "l \<noteq> p" by blast
    then show ?case
    proof cases
      case 1
      with miss_next np nn(4) new nn(6) show ?thesis by simp
    next
      case 2
      then have "miss lt (lnodes s) x cu" "keyLess lt (lnodes s p) x" using miss_next pc(2) by auto
      then have "miss lt (lnodes s) x p"
        using miss.miss_next [where nd = "lnodes s" and l = p and d = cu] pc(1) by blast
      with 2 np show ?thesis by simp
    next
      case 3
      then have st: "nref (lnodes s l) = Some d" "nmark (lnodes s l) \<or> keyLess lt (lnodes s l) x"
        using miss_next by auto
      have "miss lt (lnodes s) x l" if "l \<in> pub g"
        using miss.miss_next [where nd = "lnodes s" and l = l and d = d] st miss_next
          next_below(1) [OF inv that st(1)] by auto
      with 3 show ?thesis by simp
    qed
  qed
  have "miss lt (lnodes s) x l" if "l \<in> pub g" "present lt s g x" "miss lt (lnodes ?s) x l" for x l
  proof -
    have "\<not> same_key lt x k"
      using absent that(2) keyEqual_same [OF sw, of x k] by (auto simp: present_def)
    with mi [OF that(3)] that(1) show ?thesis by blast
  qed
  moreover have "lown ?g l = Some u \<and> lnodes ?s l = lnodes s l" if "u \<noteq> t" "lown g l = Some u" for l u
  proof -
    have "l \<noteq> n" "l \<noteq> p" using that nn(1) list_inv_unowned [OF inv pp(1)] by auto
    then show ?thesis using that by simp
  qed
  ultimately have "list_rely lt t s g ?s ?g"
    using pc(2) by (auto simp: list_rely_def)
  with inv' eq absent show ?thesis by (intro exI [of _ ?g]) (auto simp: fun_eq_iff)
qed

text \<open>Writes that do not touch the references of published nodes.\<close>

lemma miss_cong:
  assumes "\<And>l. l \<in> P \<Longrightarrow> nmark (nd' l) = nmark (nd l) \<and> nref (nd' l) = nref (nd l) \<and>
      keyLess lt (nd' l) k = keyLess lt (nd l) k \<and> above lt (nd' l) k = above lt (nd l) k"
    and "\<And>l d. l \<in> P \<Longrightarrow> nref (nd l) = Some d \<Longrightarrow> d \<in> P"
  shows "miss lt nd' k l \<Longrightarrow> l \<in> P \<Longrightarrow> miss lt nd k l"
proof (induction rule: miss.induct)
  case (miss_here l)
  with assms(1) [of l] miss.miss_here [of nd l lt k] show ?case by simp
next
  case (miss_next l d)
  with assms(1) [of l] assms(2) [of l d] miss.miss_next [where nd = nd and l = l and d = d] show ?case by simp
qed

lemma frame_nodes:
  assumes inv: "list_inv lt s g"
    and nd: "\<And>l. l \<in> pub g \<Longrightarrow> \<exists>v. lnodes s' l = (lnodes s l)\<lparr>lval := v\<rparr>"
    and h: "lhead s' = lhead s" "lbrk s \<le> lbrk s'"
    and g: "phys g' = phys g" "pub g' = pub g"
    and o1: "\<And>l u. lown g l = Some u \<Longrightarrow> u \<noteq> t \<Longrightarrow> lown g' l = Some u \<and> lnodes s' l = lnodes s l"
    and o2: "\<And>l u. lown g' l = Some u \<Longrightarrow> l \<notin> pub g \<and> l < lbrk s'"
  shows "list_inv lt s' g' \<and> list_rely lt t s g s' g' \<and> present lt s' g' = present lt s g"
proof -
  have N: "lkey (lnodes s' l) = lkey (lnodes s l)" "kind (lnodes s' l) = kind (lnodes s l)"
    "nref (lnodes s' l) = nref (lnodes s l)" "nmark (lnodes s' l) = nmark (lnodes s l)"
    "nver (lnodes s' l) = nver (lnodes s l)" if "l \<in> pub g" for l
    using nd [OF that] by auto
  have E: "keyEqual lt (lnodes s' l) k = keyEqual lt (lnodes s l) k"
    "keyLess lt (lnodes s' l) k = keyLess lt (lnodes s l) k"
    "above lt (lnodes s' l) k = above lt (lnodes s l) k" if "l \<in> pub g" for l k
    using N [OF that] by (simp_all add: keyEqual_def keyLess_def above_def)
  have lk: "linked (\<lambda>l. nref (lnodes s' l)) (Some (lhead s)) (phys g)"
    using list_inv_linked [OF inv] linked_cong [of "phys g" "\<lambda>l. nref (lnodes s' l)" "\<lambda>l. nref (lnodes s l)"]
      N(3) list_inv_phys [OF inv] by simp
  have "node_inv lt (lnodes s') (pub g) l" if "l \<in> pub g" for l
    using list_inv_node [OF inv that] N [OF that] N by (fastforce simp: node_inv_def below_def)
  moreover have "lown g' l = None" if "l \<in> pub g" for l using o2 [of l] that by fastforce
  moreover have "lown g' l = None" if "lbrk s' \<le> l" for l using o2 [of l] that by fastforce
  moreover have "l < lbrk s'" if "l \<in> pub g" for l
    using list_inv_bound [OF inv that] h(2) by simp
  moreover have "nmark (lnodes s' l) \<or> l \<in> set (phys g)" if "l \<in> pub g" for l
    using list_inv_unmarked [OF inv that] N(4) [OF that] by blast
  ultimately have "list_inv lt s' g'"
    using lk list_inv_phys [OF inv] list_inv_head [OF inv] N(2,4) [OF head_pub [OF inv]]
    unfolding list_inv_def g h(1) by auto
  moreover have "present lt s' g' = present lt s g"
    using E(1) N(4) by (auto simp: present_def g fun_eq_iff)
  moreover have "miss lt (lnodes s) k l" if "l \<in> pub g" "miss lt (lnodes s') k l" for k l
    using that(2,1)
  proof (rule miss_cong [rotated -2])
    show "nmark (lnodes s' x) = nmark (lnodes s x) \<and> nref (lnodes s' x) = nref (lnodes s x) \<and>
        keyLess lt (lnodes s' x) k = keyLess lt (lnodes s x) k \<and>
        above lt (lnodes s' x) k = above lt (lnodes s x) k" if "x \<in> pub g" for x
      using N [OF that] E [OF that] by simp
    show "d \<in> pub g" if "x \<in> pub g" "nref (lnodes s x) = Some d" for x d
      using next_below(1) [OF inv that] .
  qed
  ultimately show ?thesis using N o1 h by (auto simp: list_rely_def g)
qed

end
