(* ===== verification/Ordered_List_Sim.thy ===== *)
theory Ordered_List_Sim
  imports Ordered_List_Lin
begin

text \<open>
  The simulation between the list and its key set, one lemma per group of steps, and the
  theorems about \<open>lf/list.go\<close>.
\<close>

subsection \<open>Steps that only concern the goroutine itself\<close>

text \<open>
  What such a step achieves: the goroutine's own call may take effect or observe, the invariant
  and its next assertion hold, the others are disturbed no more than their rely condition
  allows, and no key appears.
\<close>

definition local_step :: "('k \<Rightarrow> 'k \<Rightarrow> bool) \<Rightarrow> ('k, 'v) list_state \<Rightarrow> list_ghost \<Rightarrow> tid \<Rightarrow>
    ('k, 'v) lstatus \<Rightarrow> ('k, 'v) list_state \<Rightarrow> (('k, 'v) list_pc, ('k, 'v) list_resp) thread \<Rightarrow> bool"
where
  "local_step lt s g t st s' x \<longleftrightarrow> (\<exists>g' st'.
     own_move (keys_spec lt) (present lt s g) st (present lt s' g') st' \<and> list_inv lt s' g' \<and>
     thread_ok (list_ok lt s' g' t) (relabel erase x) st' \<and> list_rely lt t s g s' g' \<and>
     (\<forall>k. present lt s' g' k \<longrightarrow> present lt s g k))"

lemma list_rely_refl: "list_rely lt t s g s g"
  by (auto simp: list_rely_def)

lemma local_quiet:
  assumes "list_inv lt s' g'" and "list_rely lt t s g s' g'" and "present lt s' g' = present lt s g"
    and "thread_ok (list_ok lt s' g' t) (relabel erase x) st"
  shows "local_step lt s g t st s' x"
  unfolding local_step_def
proof (intro exI conjI)
  show "own_move (keys_spec lt) (present lt s g) st (present lt s' g') st"
    unfolding assms(3) by (rule own_move.stay)
qed (use assms in simp_all)

lemma local_stay:
  "list_inv lt s g \<Longrightarrow> thread_ok (list_ok lt s g t) (relabel erase x) st \<Longrightarrow> local_step lt s g t st s x"
  by (rule local_quiet [OF _ list_rely_refl]) simp_all

lemma local_observe:
  assumes "list_inv lt s g" and "wait st oper"
    and "keys_spec lt (present lt s g) oper = (present lt s g, r)"
    and ok: "\<And>R. r \<in> R \<Longrightarrow> thread_ok (list_ok lt s g t) (relabel erase x) (Wait oper R)"
  shows "local_step lt s g t st s x"
proof -
  obtain R where "st = Wait oper R" using assms(2) by (auto simp: wait_def)
  then have "own_move (keys_spec lt) (present lt s g) st (present lt s g) (Wait oper (insert r R))"
    using assms(3) own_move.remember by metis
  then show ?thesis
    unfolding local_step_def using assms(1) ok [of "insert r R"] list_rely_refl by blast
qed

lemma present_same: "strict_weak lt \<Longrightarrow> same_key lt x k \<Longrightarrow> present lt s g x = present lt s g k"
  unfolding present_def using keyEqual_same [of lt x k] by blast

text \<open>Calls that leave the key set as it is.\<close>

lemma keys_spec_same:
  assumes "strict_weak lt"
  shows "present lt s g k \<Longrightarrow> keys_spec lt (present lt s g) (MapOp (SetKey k v)) = (present lt s g, KAck)"
    and "\<not> present lt s g k \<Longrightarrow>
      keys_spec lt (present lt s g) (MapOp (DelKey k)) = (present lt s g, KFound False)"
  using present_same [OF assms] by (auto simp: fun_eq_iff)

lemma head_next:
  assumes "list_inv lt s g"
  shows "\<exists>d \<in> pub g. nref (lnodes s (lhead s)) = Some d"
  using marked_next [OF assms head_pub [OF assms], of k] list_inv_head [OF assms]
  by (auto simp: keyLess_def)

lemma evid_head:
  assumes "strict_weak lt" and inv: "list_inv lt s g" and "nref (lnodes s (lhead s)) = Some d"
  shows "evid lt s g k st d"
proof -
  have "keyLess lt (lnodes s (lhead s)) k" using list_inv_head [OF inv] by (simp add: keyLess_def)
  then have "miss lt (lnodes s) k d \<Longrightarrow> miss lt (lnodes s) k (lhead s)"
    using miss_next [where nd = "lnodes s" and l = "lhead s" and d = d] assms(3) by blast
  then show ?thesis using miss_head [OF assms(1) inv] unfolding evid_def by blast
qed

text \<open>A traversal from a node that is on the list and below \<open>k\<close> only misses an absent \<open>k\<close>.\<close>

lemma miss_absent:
  assumes sw: "strict_weak lt" and inv: "list_inv lt s g" and l: "l \<in> pub g" "\<not> nmark (lnodes s l)"
    and k: "keyLess lt (lnodes s l) k" and m: "miss lt (lnodes s) k l"
  shows "\<not> present lt s g k"
proof
  assume "present lt s g k"
  then obtain c where c: "c \<in> pub g" "\<not> nmark (lnodes s c)" "keyEqual lt (lnodes s c) k"
    by (auto simp: present_def)
  obtain xs ys where ph: "phys g = xs @ l # ys"
    using list_inv_unmarked [OF inv l] by (meson split_list)
  have "c \<in> set (phys g)" by (rule list_inv_unmarked [OF inv c(1,2)])
  then consider "c \<in> set xs" | "c \<in> set (l # ys)" by (auto simp: ph)
  then show False
  proof cases
    case 1
    then have "above lt (lnodes s l) k" using phys_split(1) [OF sw inv ph] below_keyEqual [OF sw] c(3) by blast
    with k show False by (simp add: above_def)
  next
    case 2
    with miss_phys [OF sw inv m ph] c(2,3) show False by blast
  qed
qed

lemma evid_next:
  assumes "nmark (lnodes s l) \<or> keyLess lt (lnodes s l) k" and "nref (lnodes s l) = Some d"
    and "evid lt s g k st l"
  shows "evid lt s g k st d"
  using assms miss_next [where nd = "lnodes s" and l = l and d = d and lt = lt and k = k]
  unfolding evid_def by blast

lemma evid_call_head:
  "strict_weak lt \<Longrightarrow> list_inv lt s g \<Longrightarrow> nref (lnodes s (lhead s)) = Some d \<Longrightarrow> evid_call lt s g c st d"
  by (cases c) (simp_all add: evid_head)

lemma evid_call_next:
  "nmark (lnodes s l) \<or> keyLess lt (lnodes s l) (call_key c) \<Longrightarrow> nref (lnodes s l) = Some d \<Longrightarrow>
     evid_call lt s g c st l \<Longrightarrow> evid_call lt s g c st d"
  by (cases c) (auto intro: evid_next)

lemma prevs_head: "list_inv lt s g \<Longrightarrow> prevs lt s g k (lhead s)"
  using head_pub [of lt s g] list_inv_head(1) [of lt s g] by (simp add: prevs_def keyLess_def)

lemma casok_now: "\<not> nmark (lnodes s p) \<Longrightarrow> nref (lnodes s p) = r \<Longrightarrow> casok s p (nver (lnodes s p)) r"
  by (simp add: casok_def)

lemma cas_first_Try:
  "cas_first n e r False m = CasTry ver \<Longrightarrow> nref n = e \<and> \<not> nmark n \<and> ver = nver n"
  by (auto simp: cas_first_def split: if_splits)

subsection \<open>The steps of search\<close>

lemma range_at_ok:
  assumes "wait st (RangeOp lo hi)" and "cu \<in> pub g" and "visited_ok lt lo hi acc"
    and "kind (lnodes s cu) = 0 \<Longrightarrow> (\<forall>a \<in> set acc. lt (fst a) (lkey (lnodes s cu))) \<and>
      \<not> lt (lkey (lnodes s cu)) lo"
    and "list_inv lt s g"
  shows "local_step lt s g t st s (range_at s lo hi acc cu)"
proof (cases "kind (lnodes s cu) = 0")
  case True
  with assms show ?thesis
    by (intro local_stay) (auto simp: range_at_def range_ok_def)
next
  case False
  then show ?thesis
    by (intro local_observe [OF assms(5,1)]) (auto simp: range_at_def)
qed

lemma after_search_step:
  assumes sw: "strict_weak lt" and inv: "list_inv lt s g"
    and ok: "list_ok lt s g t (SGet c p cu) st"
    and cu: "\<not> nmark (lnodes s cu)" "\<not> keyLess lt (lnodes s cu) (call_key c)"
    and stp: "after_search lt s c p cu = (s', x)"
  shows "local_step lt s g t st s' x"
proof -
  have C: "wait st (call_op c)" "prevs lt s g (call_key c) p" "cu \<in> pub g" "evid_call lt s g c st cu"
    using ok by simp_all
  have here: "keyEqual lt (lnodes s cu) (call_key c) \<Longrightarrow> present lt s g (call_key c)"
    using C(3) cu(1) by (auto simp: present_def)
  have up: "\<not> keyEqual lt (lnodes s cu) (call_key c) \<Longrightarrow> above lt (lnodes s cu) (call_key c)"
    using cu(2) by (simp add: above_def)
  show ?thesis
  proof (cases c)
    case (CSet k v)
    show ?thesis
    proof (cases "keyEqual lt (lnodes s cu) k")
      case True
      with stp have x: "s' = s" "x = Busy (SetVal v cu)" by (auto simp: CSet)
      show ?thesis unfolding x
        by (rule local_observe [OF inv, of _ "MapOp (SetKey k v)" KAck])
          (use C True here keys_spec_same(1) [OF sw] in \<open>auto simp: CSet may_def\<close>)
    next
      case False
      let ?n = "lbrk s"
      let ?g = "g\<lparr>lown := (lown g)(?n := Some t)\<rparr>"
      from False stp have x: "x = Busy (Ins k v ?n p cu)" "lnodes s' = (lnodes s)(?n :=
          \<lparr>lkey = k, lval = v, kind = 0, nref = Some cu, nmark = False, nver = 0\<rparr>)"
        "lhead s' = lhead s" "lbrk s' = Suc ?n" by (auto simp: CSet)
      have ne: "l \<noteq> ?n" if "l \<in> pub g" for l using list_inv_bound [OF inv that] by simp
      have F: "list_inv lt s' ?g \<and> list_rely lt t s g s' ?g \<and> present lt s' ?g = present lt s g"
      proof (rule frame_nodes [OF inv])
        show "\<exists>v. lnodes s' l = (lnodes s l)\<lparr>lval := v\<rparr>" if "l \<in> pub g" for l
          using ne [OF that] by (intro exI [of _ "lval (lnodes s l)"]) (simp add: x)
        show "lown ?g l = Some u \<and> lnodes s' l = lnodes s l" if "lown g l = Some u" for l u
          using list_inv_own [OF inv that] that by (simp add: x)
        show "l \<notin> pub g \<and> l < lbrk s'" if "lown ?g l = Some u" for l u
          using that ne list_inv_own [OF inv, of l u] list_inv_unowned [OF inv, of l]
          by (auto simp: x split: if_splits)
      qed (auto simp: x)
      have "prevs lt s' ?g k p" using list_relyD(6) F C(2) by (auto simp: CSet)
      moreover have "above lt (lnodes s cu) k" using up False by (simp add: CSet)
      ultimately show ?thesis using F C ne [OF C(3)]
        by (intro local_quiet [of lt s' ?g]) (auto simp: x fresh_def CSet)
    qed
  next
    case (CDel k)
    show ?thesis
    proof (cases "keyEqual lt (lnodes s cu) k")
      case True
      with stp have x: "s' = s" "x = Busy (DGet k p cu)" by (auto simp: CDel)
      show ?thesis unfolding x
        by (rule local_stay [OF inv]) (use C True in \<open>simp add: CDel matches_def prevs_def\<close>)
    next
      case False
      with stp have x: "s' = s" "x = Return (MapResp (Got None))" by (auto simp: CDel)
      have "miss lt (lnodes s) k cu" using up False cu(1) miss_here by (simp add: CDel)
      then consider "may st (KFound False)" | "\<not> present lt s g k"
        using C(4) by (auto simp: CDel evid_def)
      then show ?thesis
      proof cases
        case 1
        then show ?thesis unfolding x by (intro local_stay [OF inv]) (auto simp: may_def)
      next
        case 2
        show ?thesis unfolding x
          by (rule local_observe [OF inv, of _ "MapOp (DelKey k)" "KFound False"])
            (use C(1) 2 keys_spec_same(2) [OF sw] in \<open>auto simp: CDel\<close>)
      qed
    qed
  next
    case (CRange lo hi)
    with stp have x: "s' = s" "x = range_at s lo hi [] cu" by auto
    have "kind (lnodes s cu) = 0 \<Longrightarrow> \<not> lt (lkey (lnodes s cu)) lo"
      using cu(2) by (auto simp: CRange keyLess_def)
    then show ?thesis unfolding x using C inv
      by (intro range_at_ok) (auto simp: CRange visited_ok_def)
  qed
qed

text \<open>The node behind a marked node, and the goroutine that unlinked it.\<close>

lemma dead_next:
  assumes inv: "list_inv lt s g" and "dead s g cu sc" and "evid_call lt s g c st cu"
  obtains d where "sc = Some d" and "d \<in> pub g" and "evid_call lt s g c st d"
proof -
  have cu: "cu \<in> pub g" "nmark (lnodes s cu)" "nref (lnodes s cu) = sc"
    using assms(2) by (simp_all add: dead_def)
  obtain d where d: "d \<in> pub g" "nref (lnodes s cu) = Some d" using marked_next [OF inv cu(1)] cu(2) by blast
  have "evid_call lt s g c st d" using evid_call_next [OF _ d(2) assms(3)] cu(2) by blast
  with that d cu(3) show ?thesis by simp
qed

lemma search_step:
  assumes sw: "strict_weak lt" and inv: "list_inv lt s g" and ok: "list_ok lt s g t p st"
    and stp: "list_search_step lt s p = (s', x)"
    and p: "p = SHead c \<or> p = SGet c pr cu \<or> p = SUnlink c pr cu sc \<or> p = SUnlinkCas c pr cu sc ver"
  shows "local_step lt s g t st s' x"
  using p
proof (elim disjE)
  assume p: "p = SHead c"
  obtain d where d: "d \<in> pub g" "nref (lnodes s (lhead s)) = Some d" using head_next [OF inv] by blast
  with stp have x: "s' = s" "x = Busy (SGet c (lhead s) d)" by (auto simp: p deref_def)
  show ?thesis unfolding x
    by (rule local_stay [OF inv])
      (use ok d evid_call_head [OF sw inv d(2)] prevs_head [OF inv] in \<open>simp add: p\<close>)
next
  assume p: "p = SGet c pr cu"
  have C: "wait st (call_op c)" "prevs lt s g (call_key c) pr" "cu \<in> pub g" "evid_call lt s g c st cu"
    using ok by (simp_all add: p)
  consider "nmark (lnodes s cu)" | "\<not> nmark (lnodes s cu)" "keyLess lt (lnodes s cu) (call_key c)"
    | "\<not> nmark (lnodes s cu)" "\<not> keyLess lt (lnodes s cu) (call_key c)" by blast
  then show ?thesis
  proof cases
    case 1
    with stp have x: "s' = s" "x = Busy (SUnlink c pr cu (nref (lnodes s cu)))" by (auto simp: p Let_def)
    show ?thesis unfolding x by (rule local_stay [OF inv]) (use C 1 in \<open>simp add: dead_def\<close>)
  next
    case 2
    obtain d where d: "d \<in> pub g" "nref (lnodes s cu) = Some d"
      using marked_next [OF inv C(3)] 2(2) by blast
    with 2 stp have x: "s' = s" "x = Busy (SGet c cu d)" by (auto simp: p Let_def deref_def)
    have "evid_call lt s g c st d" using evid_call_next [OF _ d(2) C(4)] 2(2) by blast
    then show ?thesis unfolding x
      by (intro local_stay [OF inv]) (use C d 2(2) in \<open>simp add: prevs_def\<close>)
  next
    case 3
    with stp have "after_search lt s c pr cu = (s', x)" by (simp add: p Let_def)
    with after_search_step [OF sw inv _ 3] ok p show ?thesis by blast
  qed
next
  assume p: "p = SUnlink c pr cu sc"
  have C: "wait st (call_op c)" "prevs lt s g (call_key c) pr" "dead s g cu sc" "evid_call lt s g c st cu"
    using ok by (simp_all add: p)
  obtain d where d: "sc = Some d" "d \<in> pub g" "evid_call lt s g c st d"
    using dead_next [OF inv C(3,4)] by blast
  show ?thesis
  proof (cases "cas_first (lnodes s pr) (Some cu) sc False False")
    case CasFails
    with stp have x: "s' = s" "x = Busy (SHead c)" by (auto simp: p)
    show ?thesis unfolding x by (rule local_stay [OF inv]) (use C in simp)
  next
    case CasHolds
    with stp have x: "s' = s" "x = Busy (SGet c pr d)" by (auto simp: p d(1) deref_def)
    show ?thesis unfolding x by (rule local_stay [OF inv]) (use C d in simp)
  next
    case (CasTry ver)
    with stp have x: "s' = s" "x = Busy (SUnlinkCas c pr cu sc ver)" by (auto simp: p)
    show ?thesis unfolding x
      by (rule local_stay [OF inv]) (use C cas_first_Try [OF CasTry] casok_now [of s pr] in auto)
  qed
next
  assume p: "p = SUnlinkCas c pr cu sc ver"
  have C: "wait st (call_op c)" "prevs lt s g (call_key c) pr" "dead s g cu sc" "evid_call lt s g c st cu"
    "casok s pr ver (Some cu)"
    using ok by (simp_all add: p)
  have pr: "pr \<in> pub g" using C(2) by (simp add: prevs_def)
  obtain d where d: "sc = Some d" "d \<in> pub g" "evid_call lt s g c st d"
    using dead_next [OF inv C(3,4)] by blast
  show ?thesis
  proof (cases "nver (lnodes s pr) = ver")
    case False
    with stp have x: "s' = s" "x = Busy (SHead c)" by (auto simp: p cas_second_eq)
    show ?thesis unfolding x by (rule local_stay [OF inv]) (use C in simp)
  next
    case True
    with stp have x: "s' = set_next s pr sc False" "x = Busy (SGet c pr d)"
      by (auto simp: p cas_second_eq d(1) deref_def)
    from unlink_node [OF sw inv C(3) pr C(5) True] obtain g' where
      g': "list_inv lt s' g'" "list_rely lt t s g s' g'" "pub g' = pub g"
        "present lt s' g' = present lt s g" unfolding x by blast
    have "gains lt s g s' g' st st" using g'(4) by (intro gains_refl) simp
    then have "evid_call lt s' g' c st d" using evid_call_stable [OF g'(2) _ C(1) d(2,3)] by blast
    then show ?thesis
      by (intro local_quiet [OF g'(1,2,4)]) (use C d g'(3) list_relyD(6) [OF g'(2)] in \<open>simp add: x(2)\<close>)
  qed
qed

subsection \<open>The steps of Set, Get, Del and Range\<close>

text \<open>A write to a value or to the length disturbs nothing.\<close>

lemma frame_length:
  assumes inv: "list_inv lt s g" and ok: "thread_ok (list_ok lt s g t) (relabel erase x) st"
    and x: "\<And>p. x \<noteq> Busy p"
  shows "local_step lt s g t st (s\<lparr>lcount := c\<rparr>) x"
proof -
  have F: "list_inv lt (s\<lparr>lcount := c\<rparr>) g \<and> list_rely lt t s g (s\<lparr>lcount := c\<rparr>) g \<and>
      present lt (s\<lparr>lcount := c\<rparr>) g = present lt s g"
  proof (rule frame_nodes [OF inv])
    show "\<exists>v. lnodes (s\<lparr>lcount := c\<rparr>) l = (lnodes s l)\<lparr>lval := v\<rparr>" for l
      by (intro exI [of _ "lval (lnodes s l)"]) simp
    show "l \<notin> pub g \<and> l < lbrk (s\<lparr>lcount := c\<rparr>)" if "lown g l = Some u" for l u
      using that list_inv_own [OF inv that] list_inv_unowned [OF inv, of l] by auto
  qed simp_all
  have "thread_ok (list_ok lt (s\<lparr>lcount := c\<rparr>) g t) (relabel erase x) st" using ok x by (cases x) auto
  with F show ?thesis by (intro local_quiet [of lt _ g]) auto
qed

lemma frame_value:
  assumes inv: "list_inv lt s g" and cu: "cu \<in> pub g" and ok: "may st KAck"
  shows "local_step lt s g t st (s\<lparr>lnodes := (lnodes s)(cu := (lnodes s cu)\<lparr>lval := v\<rparr>)\<rparr>)
    (Return (MapResp Ack))"
proof -
  let ?s = "s\<lparr>lnodes := (lnodes s)(cu := (lnodes s cu)\<lparr>lval := v\<rparr>)\<rparr>"
  have F: "list_inv lt ?s g \<and> list_rely lt t s g ?s g \<and> present lt ?s g = present lt s g"
  proof (rule frame_nodes [OF inv])
    show "\<exists>v. lnodes ?s l = (lnodes s l)\<lparr>lval := v\<rparr>" for l
      by (cases "l = cu", rule exI [of _ v], simp, rule exI [of _ "lval (lnodes s l)"]) simp
    show "lown g l = Some u \<and> lnodes ?s l = lnodes s l" if "lown g l = Some u" for l u
      using that list_inv_unowned [OF inv cu] by auto
    show "l \<notin> pub g \<and> l < lbrk ?s" if "lown g l = Some u" for l u
      using that list_inv_own [OF inv that] list_inv_unowned [OF inv, of l] by auto
  qed simp_all
  with ok show ?thesis by (intro local_quiet [of lt _ g]) (auto simp: may_def)
qed

lemma set_step:
  assumes sw: "strict_weak lt" and inv: "list_inv lt s g" and ok: "list_ok lt s g t p st"
    and stp: "list_set_step s p = (s', x)"
    and p: "p = SetVal v cu \<or> p = Ins k v n pr cu \<or> p = InsLen"
  shows "local_step lt s g t st s' x"
  using p
proof (elim disjE)
  assume p: "p = SetVal v cu"
  with stp ok show ?thesis using frame_value [OF inv, of cu st t v] by auto
next
  assume p: "p = Ins k v n pr cu"
  have C: "wait st (MapOp (SetKey k v))" "prevs lt s g k pr" "fresh lt s g t k n cu"
    using ok by (simp_all add: p)
  show ?thesis
  proof (cases "cas_first (lnodes s pr) (Some cu) (Some n) False False")
    case CasFails
    with stp have x: "s' = s" "x = Busy (SHead (CSet k v))" by (auto simp: p)
    show ?thesis unfolding x by (rule local_stay [OF inv]) (use C in simp)
  next
    case CasHolds
    then have "n = cu" by (auto simp: cas_first_def split: if_splits)
    then have "cu \<notin> pub g" "cu \<in> pub g"
      using C(3) list_inv_unowned [OF inv, of cu] by (auto simp: fresh_def)
    then show ?thesis by simp
  next
    case (CasTry ver)
    with stp have x: "s' = s" "x = Busy (InsCas k v n pr cu ver)" by (auto simp: p)
    show ?thesis unfolding x
      by (rule local_stay [OF inv]) (use C cas_first_Try [OF CasTry] casok_now [of s pr] in auto)
  qed
next
  assume p: "p = InsLen"
  with stp ok show ?thesis using frame_length [OF inv, of t "Return (MapResp Ack)" st] by auto
qed

lemma del_step:
  assumes sw: "strict_weak lt" and inv: "list_inv lt s g" and ok: "list_ok lt s g t p st"
    and stp: "list_del_step s p = (s', x)"
    and p: "p = DGet k pr cu \<or> p = DMark k pr cu sc \<or> p = DVal pr cu sc \<or>
      p = DUnlink pr cu sc v \<or> p = DLen v"
  shows "local_step lt s g t st s' x"
  using p
proof (elim disjE)
  assume p: "p = DGet k pr cu"
  show ?thesis
  proof (cases "nmark (lnodes s cu)")
    case True
    with stp have x: "s' = s" "x = Busy (SHead (CDel k))" by (auto simp: p)
    show ?thesis unfolding x by (rule local_stay [OF inv]) (use ok p in simp)
  next
    case False
    with stp have x: "s' = s" "x = Busy (DMark k pr cu (nref (lnodes s cu)))" by (auto simp: p)
    show ?thesis unfolding x by (rule local_stay [OF inv]) (use ok p in simp)
  qed
next
  assume p: "p = DMark k pr cu sc"
  show ?thesis
  proof (cases "cas_first (lnodes s cu) sc sc False True")
    case CasFails
    with stp have x: "s' = s" "x = Busy (SHead (CDel k))" by (auto simp: p)
    show ?thesis unfolding x by (rule local_stay [OF inv]) (use ok p in simp)
  next
    case CasHolds
    then show ?thesis by (auto simp: cas_first_def split: if_splits)
  next
    case (CasTry ver)
    with stp have x: "s' = s" "x = Busy (DMarkCas k pr cu sc ver)" by (auto simp: p)
    show ?thesis unfolding x
      by (rule local_stay [OF inv]) (use ok p cas_first_Try [OF CasTry] casok_now [of s cu] in auto)
  qed
next
  assume p: "p = DVal pr cu sc"
  with stp have x: "s' = s" "x = Busy (DUnlink pr cu sc (lval (lnodes s cu)))" by auto
  show ?thesis unfolding x by (rule local_stay [OF inv]) (use ok p in simp)
next
  assume p: "p = DUnlink pr cu sc v"
  show ?thesis
  proof (cases "cas_first (lnodes s pr) (Some cu) sc False False")
    case (CasTry ver)
    with stp have x: "s' = s" "x = Busy (DUnlinkCas pr cu sc v ver)" by (auto simp: p)
    show ?thesis unfolding x
      by (rule local_stay [OF inv]) (use ok p cas_first_Try [OF CasTry] casok_now [of s pr] in auto)
  next
    case CasFails
    with stp have x: "s' = s" "x = Busy (DLen v)" by (auto simp: p)
    show ?thesis unfolding x by (rule local_stay [OF inv]) (use ok p in simp)
  next
    case CasHolds
    with stp have x: "s' = s" "x = Busy (DLen v)" by (auto simp: p)
    show ?thesis unfolding x by (rule local_stay [OF inv]) (use ok p in simp)
  qed
next
  assume p: "p = DLen v"
  with stp ok show ?thesis
    using frame_length [OF inv, of t "Return (MapResp (Got (Some v)))" st] by auto
qed

lemma del_unlink_step:
  assumes sw: "strict_weak lt" and inv: "list_inv lt s g" and ok: "list_ok lt s g t (DUnlinkCas pr cu sc v ver) st"
    and stp: "list_del_step s (DUnlinkCas pr cu sc v ver) = (s', x)"
  shows "local_step lt s g t st s' x"
proof (cases "nver (lnodes s pr) = ver")
  case False
  with stp have x: "s' = s" "x = Busy (DLen v)" by (auto simp: cas_second_eq)
  show ?thesis unfolding x by (rule local_stay [OF inv]) (use ok in simp)
next
  case True
  with stp have x: "s' = set_next s pr sc False" "x = Busy (DLen v)" by (auto simp: cas_second_eq)
  have C: "st = Done (KFound True)" "pr \<in> pub g" "dead s g cu sc" "casok s pr ver (Some cu)"
    using ok by simp_all
  from unlink_node [OF sw inv C(3,2,4) True] obtain g' where
    g': "list_inv lt s' g'" "list_rely lt t s g s' g'" "present lt s' g' = present lt s g"
    unfolding x by blast
  show ?thesis by (rule local_quiet [OF g']) (use C in \<open>simp add: x(2)\<close>)
qed

lemma del_mark_step:
  assumes sw: "strict_weak lt" and inv: "list_inv lt s g" and ok: "list_ok lt s g t (DMarkCas k pr cu sc ver) st"
    and stp: "list_del_step s (DMarkCas k pr cu sc ver) = (s', x)"
  shows "local_step lt s g t st s' x"
proof (cases "nver (lnodes s cu) = ver")
  case False
  with stp have x: "s' = s" "x = Busy (SHead (CDel k))" by (auto simp: cas_second_eq)
  show ?thesis unfolding x by (rule local_stay [OF inv]) (use ok in simp)
next
  case True
  with stp have x: "s' = set_next s cu sc True" "x = Busy (DVal pr cu sc)" by (auto simp: cas_second_eq)
  have C: "wait st (MapOp (DelKey k))" "pr \<in> pub g" "matches lt s g k cu" "casok s cu ver sc"
    using ok by simp_all
  obtain R where st: "st = Wait (MapOp (DelKey k)) R" using C(1) by (auto simp: wait_def)
  note M = mark_node [OF sw inv C(3,4) True, of t, folded x(1)]
  then have pr: "present lt s' g = (\<lambda>x. present lt s g x \<and> \<not> same_key lt x k)" "present lt s g k" by blast+
  have "keys_spec lt (present lt s g) (MapOp (DelKey k)) = (present lt s' g, KFound True)"
    by (simp add: pr)
  then have "own_move (keys_spec lt) (present lt s g) st (present lt s' g) (Done (KFound True))"
    unfolding st by (rule own_move.effect)
  moreover have "thread_ok (list_ok lt s' g t) (relabel erase x) (Done (KFound True))"
    using M C(2) by (simp add: x(2))
  moreover have "\<forall>k'. present lt s' g k' \<longrightarrow> present lt s g k'" by (simp add: pr(1))
  ultimately show ?thesis using M unfolding local_step_def by blast
qed

lemma get_step:
  assumes sw: "strict_weak lt" and inv: "list_inv lt s g" and ok: "list_ok lt s g t p st"
    and stp: "list_get_step lt s p = (s', x)"
    and p: "p = GHead k \<or> p = GGet k cu \<or> p = GVal cu"
  shows "local_step lt s g t st s' x"
  using p
proof (elim disjE)
  assume p: "p = GHead k"
  obtain d where d: "d \<in> pub g" "nref (lnodes s (lhead s)) = Some d" using head_next [OF inv] by blast
  with stp have x: "s' = s" "x = Busy (GGet k d)" by (auto simp: p deref_def)
  show ?thesis unfolding x
    by (rule local_stay [OF inv]) (use ok p d evid_head [OF sw inv d(2)] in simp)
next
  assume p: "p = GGet k cu"
  have C: "wait st (MapOp (GetKey k))" "cu \<in> pub g" "evid lt s g k st cu" using ok by (simp_all add: p)
  consider "nmark (lnodes s cu) \<or> keyLess lt (lnodes s cu) k"
    | "\<not> nmark (lnodes s cu)" "keyEqual lt (lnodes s cu) k" "\<not> keyLess lt (lnodes s cu) k"
    | "\<not> nmark (lnodes s cu)" "\<not> keyLess lt (lnodes s cu) k" "\<not> keyEqual lt (lnodes s cu) k" by blast
  then show ?thesis
  proof cases
    case 1
    obtain d where d: "d \<in> pub g" "nref (lnodes s cu) = Some d"
      using marked_next [OF inv C(2) 1] by blast
    with 1 stp have x: "s' = s" "x = Busy (GGet k d)" by (auto simp: p Let_def deref_def)
    show ?thesis unfolding x
      by (rule local_stay [OF inv]) (use C d evid_next [OF 1 d(2) C(3)] in simp)
  next
    case 2
    with stp have x: "s' = s" "x = Busy (GVal cu)" by (auto simp: p Let_def)
    have "present lt s g k" using C(2) 2(1,2) by (auto simp: present_def)
    then show ?thesis unfolding x
      by (intro local_observe [OF inv C(1), of "KFound True"]) (use C in \<open>auto simp: may_def\<close>)
  next
    case 3
    with stp have x: "s' = s" "x = Return (MapResp (Got None))" by (auto simp: p Let_def)
    have "miss lt (lnodes s) k cu" using 3 by (intro miss_here) (simp_all add: above_def)
    then consider "may st (KFound False)" | "\<not> present lt s g k" using C(3) by (auto simp: evid_def)
    then show ?thesis
    proof cases
      case 1
      then show ?thesis unfolding x by (intro local_stay [OF inv]) (auto simp: may_def)
    next
      case 2
      then show ?thesis unfolding x
        by (intro local_observe [OF inv C(1), of "KFound False"]) auto
    qed
  qed
next
  assume p: "p = GVal cu"
  with stp have x: "s' = s" "x = Return (MapResp (Got (Some (lval (lnodes s cu)))))" by auto
  show ?thesis unfolding x by (rule local_stay [OF inv]) (use ok p in \<open>auto simp: may_def\<close>)
qed

lemma visited_snoc:
  assumes "visited_ok lt lo hi acc" and "\<forall>a \<in> set acc. lt (fst a) k" and "\<not> lt k lo" and "lt k hi"
  shows "visited_ok lt lo hi (acc @ [(k, v)])"
  using assms by (auto simp: visited_ok_def sorted_wrt_append)

lemma below_key:
  "below lt a b \<Longrightarrow> kind a = 0 \<Longrightarrow> kind b = 0 \<Longrightarrow> lt (lkey a) (lkey b)"
  by (simp add: below_def)

lemma range_step:
  assumes sw: "strict_weak lt" and inv: "list_inv lt s g" and ok: "list_ok lt s g t p st"
    and stp: "list_range_step lt s p = (s', x)"
    and p: "p = RGet lo hi acc cu \<or> p = RVal lo hi acc cu sc"
  shows "local_step lt s g t st s' x"
proof -
  have ahead: "\<not> lt (lkey (lnodes s d)) lo" "lt j (lkey (lnodes s d))"
    if "below lt (lnodes s cu) (lnodes s d)" "kind (lnodes s cu) = 0" "kind (lnodes s d) = 0"
      "\<not> lt (lkey (lnodes s cu)) lo" "lt j (lkey (lnodes s cu))" for d j
    using below_key [OF that(1-3)] strict_weak_trans [OF sw] that(4,5) by blast+
  have start: "\<not> lt (lkey (lnodes s d)) lo"
    if "below lt (lnodes s cu) (lnodes s d)" "kind (lnodes s cu) = 0" "kind (lnodes s d) = 0"
      "\<not> lt (lkey (lnodes s cu)) lo" for d
    using below_key [OF that(1-3)] strict_weak_trans [OF sw] that(4) by blast
  show ?thesis
    using p
  proof (elim disjE)
    assume p: "p = RGet lo hi acc cu"
    have C: "wait st (RangeOp lo hi)" "cu \<in> pub g" "kind (lnodes s cu) = 0" "visited_ok lt lo hi acc"
      "\<forall>a \<in> set acc. lt (fst a) (lkey (lnodes s cu))" "\<not> lt (lkey (lnodes s cu)) lo"
      using ok by (simp_all add: p range_ok_def)
    obtain d where d: "d \<in> pub g" "nref (lnodes s cu) = Some d" "below lt (lnodes s cu) (lnodes s d)"
      using next_pub [OF inv C(2)] C(3) by auto
    consider "nmark (lnodes s cu)" | "\<not> nmark (lnodes s cu)" "\<not> lt (lkey (lnodes s cu)) hi"
      | "\<not> nmark (lnodes s cu)" "lt (lkey (lnodes s cu)) hi" by blast
    then show ?thesis
    proof cases
      case 1
      with stp d(2) have x: "s' = s" "x = range_at s lo hi acc d" by (auto simp: p Let_def deref_def)
      show ?thesis unfolding x
        by (rule range_at_ok [OF C(1) d(1) C(4) _ inv]) (use C ahead [OF d(3)] start [OF d(3)] in blast)
    next
      case 2
      with stp have x: "s' = s" "x = Return (Visited acc)" by (auto simp: p Let_def)
      show ?thesis unfolding x by (rule local_observe [OF inv C(1)]) auto
    next
      case 3
      with stp have x: "s' = s" "x = Busy (RVal lo hi acc cu (nref (lnodes s cu)))" by (auto simp: p Let_def)
      show ?thesis unfolding x
        by (rule local_stay [OF inv]) (use C d 3 in \<open>auto simp: range_ok_def onward_def\<close>)
    qed
  next
    assume p: "p = RVal lo hi acc cu sc"
    have C: "wait st (RangeOp lo hi)" "kind (lnodes s cu) = 0" "visited_ok lt lo hi acc"
      "\<forall>a \<in> set acc. lt (fst a) (lkey (lnodes s cu))" "\<not> lt (lkey (lnodes s cu)) lo"
      "lt (lkey (lnodes s cu)) hi" using ok by (simp_all add: p range_ok_def)
    obtain d where d: "d \<in> pub g" "sc = Some d" "below lt (lnodes s cu) (lnodes s d)"
      using ok by (auto simp: p onward_def)
    let ?acc = "acc @ [(lkey (lnodes s cu), lval (lnodes s cu))]"
    from stp have x: "s' = s" "x = range_at s lo hi ?acc d" by (auto simp: p d(2) Let_def deref_def)
    have v: "visited_ok lt lo hi ?acc" by (rule visited_snoc) (use C in auto)
    show ?thesis unfolding x
    proof (rule range_at_ok [OF C(1) d(1) v _ inv])
      assume "kind (lnodes s d) = 0"
      then show "(\<forall>a \<in> set ?acc. lt (fst a) (lkey (lnodes s d))) \<and> \<not> lt (lkey (lnodes s d)) lo"
        using C ahead [OF d(3)] start [OF d(3)] below_key [OF d(3)] by auto
    qed
  qed
qed

subsection \<open>The insertion\<close>

text \<open>
  When \<open>k\<close> appears, every waiting \<open>Get\<close> or \<open>Del\<close> of \<open>k\<close> first observes that it was absent.
\<close>

definition key_gains :: "('k \<Rightarrow> bool) \<Rightarrow> ('k \<Rightarrow> bool) \<Rightarrow> ('k, 'v) lstatus \<Rightarrow> ('k, 'v) lstatus \<Rightarrow> bool" where
  "key_gains K K' st st' \<longleftrightarrow>
     (st' = st \<or> (\<exists>oper R R'. st = Wait oper R \<and> st' = Wait oper R' \<and> R \<subseteq> R')) \<and>
     (\<forall>k. wait st (MapOp (GetKey k)) \<or> wait st (MapOp (DelKey k)) \<longrightarrow> K' k \<longrightarrow>
        K k \<or> may st' (KFound False))"

lemma gains_keys: "gains lt s g s' g' = key_gains (present lt s g) (present lt s' g')"
  by (intro ext) (simp add: gains_def key_gains_def)

lemma key_gains_refl: "(\<And>k. K' k \<Longrightarrow> K k) \<Longrightarrow> key_gains K K' st st"
  by (simp add: key_gains_def)

lemma key_gains_thread:
  assumes g: "key_gains K K' st st'" and "thread_ok P x st"
    and "\<And>p. x = Busy p \<Longrightarrow> P p st \<Longrightarrow> P' p st'"
  shows "thread_ok P' x st'"
proof (cases x)
  case (Return r)
  with assms(2) have "st = Done r \<or> may st r" by (auto simp: may_def)
  with g have "st' = Done r \<or> may st' r" by (auto simp: key_gains_def may_def)
  then show ?thesis by (auto simp: Return may_def)
qed (use assms in \<open>auto simp: key_gains_def\<close>)

lemma lin_step_effect:
  "st t = Wait oper R \<Longrightarrow> spec a oper = (a', r) \<Longrightarrow>
     lin_step spec (a, st) (Lin t) = Some (a', st(t := Done r))"
  by simp

lemma keys_insert:
  assumes same: "\<And>x y. same_key lt x y \<Longrightarrow> K x = K y" and absent: "\<not> K k"
    and new: "K' = (\<lambda>x. same_key lt x k \<or> K x)"
    and t: "wait (st t) (MapOp (SetKey k v))" and fin: "finite {u. st u \<noteq> Quiet}"
  shows "\<exists>E st'. visible E = [] \<and> lin_run (keys_spec lt) (K, st) E = Some (K', st') \<and> st' t = Done KAck \<and>
    (\<forall>u. u \<noteq> t \<longrightarrow> key_gains K K' (st u) (st' u))"
proof -
  let ?hit = "\<lambda>s. \<exists>j. same_key lt j k \<and> (wait s (MapOp (GetKey j)) \<or> wait s (MapOp (DelKey j)))"
  let ?A = "{u. ?hit (st u)}"
  let ?st = "\<lambda>u. if u \<in> ?A then observed (KFound False) (st u) else st u"
  have "finite ?A" by (rule finite_subset [OF _ fin]) (auto simp: wait_def)
  moreover have "\<exists>oper R. st u = Wait oper R \<and> keys_spec lt K oper = (K, KFound False)" if u: "u \<in> ?A" for u
  proof -
    obtain j where j: "same_key lt j k" "wait (st u) (MapOp (GetKey j)) \<or> wait (st u) (MapOp (DelKey j))"
      using u by blast
    then have "\<not> K j" using absent same by blast
    moreover from this have "(\<lambda>x. K x \<and> \<not> same_key lt x j) = K" using same by blast
    ultimately show ?thesis using j(2) by (auto simp: wait_def)
  qed
  ultimately obtain E where E: "visible E = []" "lin_run (keys_spec lt) (K, st) E = Some (K, ?st)"
    using observe_all [of ?A st "keys_spec lt" K "KFound False"] by blast
  have "t \<notin> ?A" using t by (auto simp: wait_def)
  then have "?st t = st t" by (rule if_not_P)
  then have wt: "wait (?st t) (MapOp (SetKey k v))" using t by simp
  obtain R where R: "?st t = Wait (MapOp (SetKey k v)) R" using wt unfolding wait_def by blast
  have "lin_step (keys_spec lt) (K, ?st) (Lin t) = Some (K', ?st(t := Done KAck))"
    by (rule lin_step_effect [where st = ?st, OF R]) (simp add: new)
  then have "lin_run (keys_spec lt) (K, st) (E @ [Lin t]) = Some (K', ?st(t := Done KAck))"
    using E(2) by (simp add: lin_run_append del: lin_step.simps)
  moreover have "key_gains K K' (st u) (?st u)" for u
  proof -
    have "?st u = st u \<or> (\<exists>oper R R'. st u = Wait oper R \<and> ?st u = Wait oper R' \<and> R \<subseteq> R')"
      by (cases "st u") (auto simp: observed_def)
    moreover have "K j \<or> may (?st u) (KFound False)"
      if "wait (st u) (MapOp (GetKey j)) \<or> wait (st u) (MapOp (DelKey j))" "K' j" for j
    proof (cases "same_key lt j k")
      case True
      then have "u \<in> ?A" using that(1) by blast
      then show ?thesis using that(1) by (auto simp: wait_def may_def)
    next
      case False
      then show ?thesis using that(2) by (simp add: new)
    qed
    ultimately show ?thesis unfolding key_gains_def by blast
  qed
  ultimately show ?thesis using E(1)
    by (intro exI [of _ "E @ [Lin t]"] exI [of _ "?st(t := Done KAck)"]) simp
qed

lemma insert_effect:
  assumes sw: "strict_weak lt" and absent: "\<not> present lt s g k"
    and new: "present lt s' g' = (\<lambda>x. same_key lt x k \<or> present lt s g x)"
    and t: "wait (st t) (MapOp (SetKey k v))" and fin: "finite {u. st u \<noteq> Quiet}"
  shows "\<exists>E st'. visible E = [] \<and>
    lin_run (keys_spec lt) (present lt s g, st) E = Some (present lt s' g', st') \<and> st' t = Done KAck \<and>
    (\<forall>u. u \<noteq> t \<longrightarrow> gains lt s g s' g' (st u) (st' u))"
  unfolding gains_keys by (rule keys_insert [OF present_same [OF sw] absent new t fin])

subsection \<open>The simulation\<close>

definition list_rel :: "('k \<Rightarrow> 'k \<Rightarrow> bool) \<Rightarrow> ('k, 'v) list_state \<Rightarrow>
    (tid \<Rightarrow> (('k, 'v) list_pc, keys_resp) thread) \<Rightarrow> ('k \<Rightarrow> bool) \<Rightarrow> (tid \<Rightarrow> ('k, 'v) lstatus) \<Rightarrow> bool"
where
  "list_rel lt s th K st \<longleftrightarrow> finite {u. st u \<noteq> Quiet} \<and>
     (\<exists>g. list_inv lt s g \<and> present lt s g = K \<and> all_ok (list_ok lt s g) th st)"

lemma list_init:
  "list_inv lt NewList \<lparr>phys = [1, 0], pub = {0, 1}, lown = (\<lambda>_. None)\<rparr> \<and>
     present lt NewList \<lparr>phys = [1, 0], pub = {0, 1}, lown = (\<lambda>_. None)\<rparr> = (\<lambda>_. False)"
  by (auto simp: list_inv_def NewList_def node_inv_def below_def present_def keyEqual_def)

lemma list_local:
  assumes sw: "strict_weak lt" and inv: "list_inv lt s g" and ok: "list_ok lt s g t p st"
    and stp: "list_step lt s t p = (s', x)" and p: "\<forall>k v n pr cu ver. p \<noteq> InsCas k v n pr cu ver"
  shows "local_step lt s g t st s' x"
proof (cases p)
  case (DUnlinkCas pr cu sc v ver)
  with stp ok show ?thesis using del_unlink_step [OF sw inv, of t pr cu sc v ver st s' x] by simp
next
  case (DMarkCas k pr cu sc ver)
  with stp ok show ?thesis using del_mark_step [OF sw inv, of t k pr cu sc ver st s' x] by simp
qed (use stp p search_step [OF sw inv ok] set_step [OF sw inv ok] del_step [OF sw inv ok]
    get_step [OF sw inv ok] range_step [OF sw inv ok] in \<open>auto simp del: list_search_step.simps
      list_set_step.simps list_del_step.simps list_get_step.simps list_range_step.simps\<close>)

lemma finite_active_upd: "finite {u. st u \<noteq> Quiet} \<Longrightarrow> finite {u. (st(t := x)) u \<noteq> Quiet}"
  using finite_Collect_upd [of "\<lambda>s. s \<noteq> Quiet" st t x] by simp

lemma lin_run_finite:
  "lin_run spec (a, st) E = Some (a', st') \<Longrightarrow> finite {u. st u \<noteq> Quiet} \<Longrightarrow> finite {u. st' u \<noteq> Quiet}"
proof (induction E arbitrary: a st)
  case (Cons e E)
  obtain b s where e: "lin_step spec (a, st) e = Some (b, s)" "lin_run spec (b, s) E = Some (a', st')"
    using Cons.prems(1) by (auto split: option.splits)
  have "\<exists>t x. s = st(t := x)"
    using e(1) by (cases e) (auto split: if_splits status.splits prod.splits)
  then have "finite {u. s u \<noteq> Quiet}" using finite_active_upd [OF Cons.prems(2)] by blast
  then show ?case using Cons.IH e(2) by blast
qed simp

lemma insert_local:
  assumes sw: "strict_weak lt" and inv: "list_inv lt s g" and all: "all_ok (list_ok lt s g) th st"
    and fin: "finite {u. st u \<noteq> Quiet}" and th: "th t = Busy (InsCas k v n pr cu ver)"
    and ver: "nver (lnodes s pr) = ver"
  shows "\<exists>E st'. visible E = [] \<and>
    (\<exists>K'. lin_run (keys_spec lt) (present lt s g, st) E = Some (K', st') \<and>
      list_rel lt (set_next s pr (Some n) False) (th(t := Busy InsLen)) K' st')"
proof -
  let ?s = "set_next s pr (Some n) False"
  have C: "wait (st t) (MapOp (SetKey k v))" "prevs lt s g k pr" "fresh lt s g t k n cu"
    "casok s pr ver (Some cu)" using all_okD [OF all, of t] by (simp_all add: th)
  obtain g' where g': "list_inv lt ?s g'" "list_rely lt t s g ?s g'"
    "present lt ?s g' = (\<lambda>x. same_key lt x k \<or> present lt s g x)" "\<not> present lt s g k"
    using insert_node [OF sw inv C(2-4) ver] by blast
  from insert_effect [of lt s g k ?s g' st t v, OF sw g'(4,3) C(1) fin] obtain E st' where
    E: "visible E = []" "lin_run (keys_spec lt) (present lt s g, st) E = Some (present lt ?s g', st')"
    "st' t = Done KAck" "\<And>u. u \<noteq> t \<Longrightarrow> gains lt s g ?s g' (st u) (st' u)" by blast
  have "all_ok (list_ok lt ?s g') (th(t := Busy InsLen)) st'"
    unfolding all_ok_def
  proof
    fix u
    show "thread_ok (list_ok lt ?s g' u) ((th(t := Busy InsLen)) u) (st' u)"
    proof (cases "u = t")
      case False
      then show ?thesis
        using key_gains_thread [OF E(4) [OF False, unfolded gains_keys] all_okD [OF all, of u]]
          list_stable [OF g'(2) E(4) [OF False] False] by simp
    qed (simp add: E(3))
  qed
  then have "list_rel lt ?s (th(t := Busy InsLen)) (present lt ?s g') st'"
    using g'(1) lin_run_finite [OF E(2) fin] unfolding list_rel_def by blast
  with E(1,2) show ?thesis by blast
qed

lemma list_rel_stp:
  assumes sw: "strict_weak lt" and rel: "list_rel lt s th K st" and th: "th t = Busy p"
    and stp: "list_step lt s t p = (s', x)"
  shows "\<exists>E K' st'. visible E = [] \<and> lin_run (keys_spec lt) (K, st) E = Some (K', st') \<and>
    list_rel lt s' (th(t := relabel erase x)) K' st'"
proof -
  from rel obtain g where fin: "finite {u. st u \<noteq> Quiet}" and g: "list_inv lt s g"
    "present lt s g = K" "all_ok (list_ok lt s g) th st" unfolding list_rel_def by blast
  have ok: "list_ok lt s g t p (st t)" using all_okD [OF g(3), of t] th by simp
  have fin_step: ?thesis if "local_step lt s g t (st t) s' x"
  proof -
    from that obtain g' c where L: "own_move (keys_spec lt) K (st t) (present lt s' g') c"
      "list_inv lt s' g'" "thread_ok (list_ok lt s' g' t) (relabel erase x) c"
      "list_rely lt t s g s' g'" "\<And>k. present lt s' g' k \<Longrightarrow> present lt s g k"
      unfolding local_step_def g(2) by blast
    obtain E where E: "visible E = []" "lin_run (keys_spec lt) (K, st) E = Some (present lt s' g', st(t := c))"
      using own_move_run [where st = st and t = t, OF L(1)] by blast
    have "all_ok (list_ok lt s' g') (th(t := relabel erase x)) (st(t := c))"
      using g(3) L(3) by (rule all_ok_upd) (rule list_stable [OF L(4) gains_refl [OF L(5)]])
    then have "list_rel lt s' (th(t := relabel erase x)) (present lt s' g') (st(t := c))"
      using L(2) finite_active_upd [OF fin] unfolding list_rel_def by blast
    with E show ?thesis by blast
  qed
  show ?thesis
  proof (cases "\<exists>k v n pr cu ver. p = InsCas k v n pr cu ver")
    case False
    then show ?thesis using list_local [OF sw g(1) ok stp] fin_step by blast
  next
    case True
    then obtain k v n pr cu ver where p: "p = InsCas k v n pr cu ver" by blast
    show ?thesis
    proof (cases "nver (lnodes s pr) = ver")
      case True
      with stp have x: "s' = set_next s pr (Some n) False" "x = Busy InsLen"
        by (auto simp: p cas_second_eq)
      from insert_local [OF sw g(1,3) fin th [unfolded p] True] show ?thesis
        unfolding x g(2) relabel.simps by blast
    next
      case False
      with stp have x: "s' = s" "x = Busy (SHead (CSet k v))" by (auto simp: p cas_second_eq)
      have "thread_ok (list_ok lt s g t) (relabel erase x) (st t)" using ok by (simp add: x p)
      then show ?thesis using fin_step local_stay [OF g(1)] x(1) by blast
    qed
  qed
qed

text \<open>What a simulation with the answers erased gives for the machine itself.\<close>

lemma sim_correct:
  assumes "sim_machine (forget f M) spec a0 rel"
  shows "linearizable spec a0 (map (relabel_event f) (history M acts)) \<and> snd (run M acts) t \<noteq> Panic"
proof
  show "linearizable spec a0 (map (relabel_event f) (history M acts))"
    using sim_machine.linearizable [OF assms, of acts] by (simp add: forget_history)
  show "snd (run M acts) t \<noteq> Panic"
  proof
    assume "snd (run M acts) t = Panic"
    then have "snd (run (forget f M) acts) t = Panic" by (simp add: forget_run)
    then show False using sim_machine.no_panic [OF assms] by blast
  qed
qed

lemma list_sim:
  assumes sw: "strict_weak lt"
  shows "sim_machine (forget erase (list_machine lt)) (keys_spec lt) (\<lambda>_. False) (list_rel lt)"
proof
  show "list_rel lt (sh0 (forget erase (list_machine lt))) (\<lambda>_. Idle) (\<lambda>_. False) (\<lambda>_. Quiet)"
    using list_init [of lt] unfolding list_rel_def by (auto simp: forget_def all_ok_def)
next
  fix s th K st and t :: tid
  assume "list_rel lt s th K st"
  then show "th t = Idle \<Longrightarrow> st t = Quiet" and "th t \<noteq> Panic"
    unfolding list_rel_def by (auto dest: all_okD [where u = t])
next
  fix s th K st t oper s' p
  assume rel: "list_rel lt s th K st" and t: "th t = Idle"
    and b: "beg (forget erase (list_machine lt)) s t oper = (s', p)"
  from rel obtain g where g: "finite {u. st u \<noteq> Quiet}" "list_inv lt s g"
    "present lt s g = K" "all_ok (list_ok lt s g) th st" unfolding list_rel_def by blast
  have p: "s' = s" "list_ok lt s g t p (Wait oper {})"
    using b by (auto simp: forget_def wait_def elim!: list_beg.elims)
  have "all_ok (list_ok lt s g) (th(t := Busy p)) (st(t := Wait oper {}))"
    using g(4) by (rule all_ok_upd) (use p in auto)
  then show "list_rel lt s' (th(t := Busy p)) K (st(t := Wait oper {}))"
    using g(2,3) finite_active_upd [OF g(1)] p(1) unfolding list_rel_def by blast
next
  fix s th K st t p s' x
  assume rel: "list_rel lt s th K st" and t: "th t = Busy p"
    and b: "stp (forget erase (list_machine lt)) s t p = (s', x)"
  obtain y where y: "list_step lt s t p = (s', y)" "x = relabel erase y"
    using b by (auto simp: forget_def split: prod.splits)
  show "\<exists>E K' st'. visible E = [] \<and> lin_run (keys_spec lt) (K, st) E = Some (K', st') \<and>
      list_rel lt s' (th(t := x)) K' st'"
    unfolding y(2) by (rule list_rel_stp [OF sw rel t y(1)])
next
  fix s th K st t r
  assume rel: "list_rel lt s th K st" and r: "th t = Return r"
  from rel obtain g where g: "finite {u. st u \<noteq> Quiet}" "list_inv lt s g"
    "present lt s g = K" "all_ok (list_ok lt s g) th st" unfolding list_rel_def by blast
  have "all_ok (list_ok lt s g) (th(t := Idle)) (st(t := Quiet))"
    using g(4) by (rule all_ok_upd) auto
  then have "list_rel lt s (th(t := Idle)) K (st(t := Quiet))"
    using g(2,3) finite_active_upd [OF g(1)] unfolding list_rel_def by blast
  moreover have "thread_ok (list_ok lt s g t) (Return r) (st t)"
    using all_okD [OF g(4), of t] r by simp
  ultimately show "(st t = Done r \<or> (\<exists>op R. st t = Wait op R \<and> r \<in> R)) \<and>
      list_rel lt s (th(t := Idle)) K (st(t := Quiet))" by auto
qed

interpretation int_list: sim_machine "forget erase (list_machine ((<) :: int \<Rightarrow> int \<Rightarrow> bool))"
  "keys_spec (<)" "\<lambda>_. False" "list_rel (<)"
  by (rule list_sim [OF strict_weak_int])

end
