(* ===== verification/Ordered_List_Facts.thy ===== *)
theory Ordered_List_Facts
  imports Ordered_List_Sim
begin

text \<open>
  The properties of \<open>lf/list.go\<close>: linearizability of its key set, the absence of panics, the
  order and the bounds of what \<open>Range\<close> visits, and the limit of the value updates.
\<close>

text \<open>
  C8: For every strict weak order and every schedule of any number of goroutines calling \<open>Set\<close>,
  \<open>Get\<close>, \<open>Del\<close> and \<open>Range\<close>, the list is linearizable as a set of keys: there is one moment
  inside each call at which \<open>Set\<close> makes its key present, \<open>Del\<close> removes its key and reports
  whether it was present, and \<open>Get\<close> reports whether its key is present. (The values are not part
  of this statement: the code documents their update as weakly consistent. What \<open>Range\<close> visits is not part of it
  either.) No schedule
  dereferences \<open>nil\<close>: a traversal never runs past the tail sentinel, in spite of concurrent unlinking.
\<close>

theorem list_linearizable:
  assumes "strict_weak lt"
  shows "linearizable (keys_spec lt) (\<lambda>_. False) (map (relabel_event erase) (history (list_machine lt) acts)) \<and>
    snd (run (list_machine lt) acts) t \<noteq> Panic"
  by (rule sim_correct [OF list_sim [OF assms]])

theorem list_linearizable_witness:
  "linearizable (keys_spec (<)) (\<lambda>_. False) (map (relabel_event erase)
     (history (list_machine ((<) :: int \<Rightarrow> int \<Rightarrow> bool)) [Start 0 (MapOp (SetKey 3 True)), Step 0, Start 1 (MapOp (DelKey 3))])) \<and>
   snd (run (list_machine ((<) :: int \<Rightarrow> int \<Rightarrow> bool)) [Start 0 (MapOp (SetKey 3 True)), Step 0, Start 1 (MapOp (DelKey 3))]) 0 \<noteq> Panic"
  by (rule list_linearizable [OF strict_weak_int])

text \<open>The arguments of the \<open>Range\<close> call that a program counter belongs to.\<close>

fun range_args :: "('k, 'v) list_pc \<Rightarrow> ('k \<times> 'k) option" where
  "range_args (SGet (CRange lo hi) pred cur) = Some (lo, hi)"
| "range_args (RGet lo hi acc cur) = Some (lo, hi)"
| "range_args (RVal lo hi acc cur succ) = Some (lo, hi)"
| "range_args _ = None"

lemma range_at_Return: "range_at s lo hi acc cu = Return (Visited kvs) \<Longrightarrow> kvs = acc"
  by (simp add: range_at_def split: if_splits)

lemma range_returns:
  assumes sw: "strict_weak lt" and inv: "list_inv lt s g" and ok: "list_ok lt s g t p st"
    and r: "range_args p = Some (lo, hi)" and stp: "list_step lt s t p = (s', Return (Visited kvs))"
  shows "visited_ok lt lo hi kvs"
proof -
  consider pr cu where "p = SGet (CRange lo hi) pr cu" | acc cu where "p = RGet lo hi acc cu"
    | acc cu sc where "p = RVal lo hi acc cu sc"
    using r by (cases p rule: range_args.cases) auto
  then show ?thesis
  proof cases
    case 1
    with stp have "kvs = []"
      by (auto simp: Let_def deref_def split: if_splits option.splits dest: range_at_Return)
    then show ?thesis by (simp add: visited_ok_def)
  next
    case 2
    with stp have "kvs = acc"
      by (auto simp: Let_def split: if_splits dest!: deref_Return range_at_Return)
    with ok 2 show ?thesis by (simp add: range_ok_def)
  next
    case 3
    with stp have "kvs = acc @ [(lkey (lnodes s cu), lval (lnodes s cu))]"
      by (auto simp: Let_def dest!: deref_Return range_at_Return)
    with ok 3 show ?thesis using visited_snoc [of lt lo hi acc] by (simp add: range_ok_def)
  qed
qed

text \<open>
  C20: For every strict weak order, under every interleaving with \<open>Set\<close> and \<open>Del\<close>, a \<open>Range\<close> call from \<open>lo\<close> to \<open>hi\<close> that
  completes has visited keys in strictly ascending order, so none of them twice, and all of them
  with \<open>lo \<le> key < hi\<close>.
\<close>

theorem list_range_bounds:
  assumes "strict_weak lt" and "run (list_machine lt) acts = (s, th)" and "th t = Busy p"
    and "range_args p = Some (lo, hi)" and "list_step lt s t p = (s', Return (Visited kvs))"
  shows "sorted_wrt lt (map fst kvs) \<and> list_all (\<lambda>a. \<not> lt (fst a) lo \<and> lt (fst a) hi) kvs"
proof -
  from sim_machine.reachable_rel [OF list_sim [OF assms(1)], of acts]
  obtain K st where "list_rel lt s (\<lambda>t. relabel erase (th t)) K st"
    by (auto simp: forget_run assms(2))
  then obtain g where g: "list_inv lt s g" "all_ok (list_ok lt s g) (\<lambda>t. relabel erase (th t)) st"
    unfolding list_rel_def by blast
  have "list_ok lt s g t p (st t)" using all_okD [OF g(2), of t] by (simp add: assms(3))
  from range_returns [OF assms(1) g(1) this assms(4,5)] show ?thesis
    by (simp add: visited_ok_def list_all_iff)
qed

text \<open>Two keys are inserted, then a \<open>Range\<close> over both is taken up to its last step.\<close>

definition range_schedule :: "(int, bool) list_op action list" where
  "range_schedule =
     [Start 0 (MapOp (SetKey 3 True))] @ replicate 6 (Step 0) @
     [Start 0 (MapOp (SetKey 1 False))] @ replicate 6 (Step 0) @
     [Start 1 (RangeOp 1 4)] @ replicate 5 (Step 1)"

lemmas list_eval = run_def start_sys_def NewList_def keyLess_def keyEqual_def cas_first_def cas_second_def
  deref_def range_at_def numeral_eq_Suc

theorem list_range_bounds_witness:
  "sorted_wrt (<) (map fst [(1 :: int, False), (3, True)]) \<and>
     list_all (\<lambda>a. \<not> fst a < 1 \<and> fst a < 4) [(1 :: int, False), (3, True)]"
proof (rule list_range_bounds [OF strict_weak_int])
  let ?s = "fst (run (list_machine (<)) range_schedule)"
  let ?th = "snd (run (list_machine (<)) range_schedule)"
  show "run (list_machine (<)) range_schedule = (?s, ?th)" by simp
  show "?th 1 = Busy (RVal 1 4 [(1, False)] 2 (Some 0))"
    by (simp add: range_schedule_def list_eval)
  show "range_args (RVal 1 4 [(1 :: int, False)] 2 (Some 0)) = Some (1, 4)" by simp
  show "list_step (<) ?s 1 (RVal 1 4 [(1, False)] 2 (Some 0)) = (?s, Return (Visited [(1, False), (3, True)]))"
    by (simp add: range_schedule_def list_eval)
qed

end
