(* ===== verification/Routing.thy ===== *)
theory Routing
  imports Simulation
begin

text \<open>
  An object made of independent components of the same kind, with every call routed to one of
  them by its arguments: the calls on different components commute, so the whole object is
  linearizable when each component is. This is the composition that a hash table of lists is.
\<close>

datatype ('p, 'o) routed_pc = Lookup 'o | Inside nat 'p

fun inside :: "nat \<Rightarrow> ('p, 'r) thread \<Rightarrow> (('p, 'o) routed_pc, 'r) thread" where
  "inside i Idle = Idle"
| "inside i (Busy p) = Busy (Inside i p)"
| "inside i (Return r) = Return r"
| "inside i Panic = Panic"

text \<open>
  The first step of a call indexes the slice of components, which panics out of range, and begins
  the call on the component found there; the other steps are those of the component.
\<close>

fun routed_step :: "('sh, 'p, 'o, 'r) machine \<Rightarrow> ('o \<Rightarrow> nat) \<Rightarrow> 'sh list \<Rightarrow> tid \<Rightarrow> ('p, 'o) routed_pc \<Rightarrow>
    'sh list \<times> (('p, 'o) routed_pc, 'r) thread" where
  "routed_step M route bs t (Lookup op) =
     (let i = route op in
      if i < length bs then (case beg M (bs ! i) t op of (s', p) \<Rightarrow> (bs[i := s'], Busy (Inside i p)))
      else (bs, Panic))"
| "routed_step M route bs t (Inside i p) =
     (case stp M (bs ! i) t p of (s', x) \<Rightarrow> (bs[i := s'], inside i x))"

definition routed :: "('sh, 'p, 'o, 'r) machine \<Rightarrow> 'sh list \<Rightarrow> ('o \<Rightarrow> nat) \<Rightarrow> ('o \<Rightarrow> bool) \<Rightarrow>
    ('sh list, ('p, 'o) routed_pc, 'o, 'r) machine" where
  "routed M bs0 route allowed = \<lparr>sh0 = bs0, can = (\<lambda>_ _ op. allowed op),
     beg = (\<lambda>bs t op. (bs, Lookup op)), stp = routed_step M route\<rparr>"

text \<open>The part of a goroutine that concerns one component.\<close>

fun comp_thread :: "(('p, 'o) routed_pc, 'r) thread \<Rightarrow> ('p, 'r) thread" where
  "comp_thread (Busy (Inside i p)) = Busy p"
| "comp_thread (Return r) = Return r"
| "comp_thread Panic = Panic"
| "comp_thread _ = Idle"

lemma comp_inside [simp]: "comp_thread (inside i x) = x"
  by (cases x) auto

definition only :: "(tid \<Rightarrow> nat option) \<Rightarrow> nat \<Rightarrow> 'x \<Rightarrow> (tid \<Rightarrow> 'x) \<Rightarrow> tid \<Rightarrow> 'x" where
  "only own i none f = (\<lambda>t. if own t = Some i then f t else none)"

fun owns_ok :: "('o \<Rightarrow> nat) \<Rightarrow> (('p, 'o) routed_pc, 'r) thread \<Rightarrow> ('o, 'r) status \<Rightarrow> nat option \<Rightarrow> bool"
where
  "owns_ok route Idle s w \<longleftrightarrow> s = Quiet"
| "owns_ok route (Busy (Lookup op)) s w \<longleftrightarrow> s = Wait op {} \<and> w = None"
| "owns_ok route (Busy (Inside i p)) s w \<longleftrightarrow> w = Some i \<and> (\<forall>op R. s = Wait op R \<longrightarrow> route op = i)"
| "owns_ok route (Return r) s w \<longleftrightarrow> (\<exists>i. w = Some i \<and> (\<forall>op R. s = Wait op R \<longrightarrow> route op = i))"
| "owns_ok route Panic s w \<longleftrightarrow> False"

lemma only_upd:
  "own t = Some i \<Longrightarrow> only own i z (f(t := x)) = (only own i z f)(t := x)"
  "own t \<noteq> Some i \<Longrightarrow> only own i z (f(t := x)) = only own i z f"
  "only (own(t := Some i)) i z (f(t := x)) = (only own i z f)(t := x)"
  "only (own(t := None)) i z f = (only own i z f)(t := z)"
  "i \<noteq> j \<Longrightarrow> own t = None \<Longrightarrow> only (own(t := Some j)) i z f = only own i z f"
  "own t = None \<Longrightarrow> only own i z f t = z"
  by (auto simp: only_def fun_eq_iff)

lemma only_eq: "(\<And>t. own t = Some i \<Longrightarrow> f t = h t) \<Longrightarrow> only own i z f = only own i z h"
  by (auto simp: only_def fun_eq_iff)

locale routed_object = sim_machine M spec1 a1 rel
  for M :: "('sh, 'p, 'o, 'r) machine" and spec1 :: "'a \<Rightarrow> 'o \<Rightarrow> 'a \<times> 'r" and a1 :: 'a
    and rel :: "'sh \<Rightarrow> (tid \<Rightarrow> ('p, 'r) thread) \<Rightarrow> 'a \<Rightarrow> (tid \<Rightarrow> ('o, 'r) status) \<Rightarrow> bool" +
  fixes n :: nat and route :: "'o \<Rightarrow> nat" and allowed :: "'o \<Rightarrow> bool"
    and spec :: "'b \<Rightarrow> 'o \<Rightarrow> 'b \<times> 'r" and b0 :: 'b and part :: "'b \<Rightarrow> nat \<Rightarrow> 'a"
  assumes route_range: "route op < n"
    and free: "can M s t op"
    and part_init: "part b0 i = a1"
    and part_inj: "part b = part b' \<Longrightarrow> b = b'"
    and part_step: "spec1 (part b (route op)) op = (a', r) \<Longrightarrow>
      \<exists>b'. spec b op = (b', r) \<and> part b' = (part b)(route op := a')"
begin

definition routed_rel :: "'sh list \<Rightarrow> (tid \<Rightarrow> (('p, 'o) routed_pc, 'r) thread) \<Rightarrow> 'b \<Rightarrow>
    (tid \<Rightarrow> ('o, 'r) status) \<Rightarrow> bool" where
  "routed_rel bs th b st \<longleftrightarrow> length bs = n \<and> (\<exists>own. (\<forall>t. owns_ok route (th t) (st t) (own t)) \<and>
     (\<forall>i < n. rel (bs ! i) (only own i Idle (\<lambda>t. comp_thread (th t))) (part b i) (only own i Quiet st)) \<and>
     (\<forall>t i. own t = Some i \<longrightarrow> i < n))"

lemma lift_step:
  assumes e: "lin_step spec1 (part b i, only own i Quiet st) e = Some (a', c)" and v: "visible [e] = []"
    and routes: "\<And>t op R. own t = Some i \<Longrightarrow> st t = Wait op R \<Longrightarrow> route op = i"
  shows "\<exists>b' t x. lin_step spec (b, st) e = Some (b', st(t := x)) \<and> part b' = (part b)(i := a') \<and>
    own t = Some i \<and> c = only own i Quiet (st(t := x)) \<and> (\<forall>op R. x = Wait op R \<longrightarrow> route op = i)"
proof (cases e)
  case (Lin t)
  obtain op R where w: "only own i Quiet st t = Wait op R"
    using e by (cases "only own i Quiet st t") (simp_all add: Lin)
  then have t: "own t = Some i" "st t = Wait op R" by (auto simp: only_def split: if_splits)
  obtain r where r: "spec1 (part b i) op = (a', r)" "c = (only own i Quiet st)(t := Done r)"
    using e w by (auto simp: Lin split: prod.splits)
  from routes [OF t] r(1) part_step [of b op a' r] obtain b' where
    "spec b op = (b', r)" "part b' = (part b)(i := a')" by blast
  then show ?thesis
    by (intro exI [of _ b'] exI [of _ t] exI [of _ "Done r"]) (simp add: Lin t r only_upd)
next
  case (Obs t)
  obtain op R where w: "only own i Quiet st t = Wait op R"
    using e by (cases "only own i Quiet st t") (simp_all add: Obs)
  then have t: "own t = Some i" "st t = Wait op R" by (auto simp: only_def split: if_splits)
  obtain r where r: "spec1 (part b i) op = (part b i, r)" "a' = part b i"
      "c = (only own i Quiet st)(t := Wait op (insert r R))"
    using e w by (auto simp: Obs split: prod.splits if_splits)
  note ro = routes [OF t]
  from ro r(1) part_step [of b op "part b i" r] obtain b' where
    b': "spec b op = (b', r)" "part b' = (part b)(i := part b i)" by blast
  then have "b' = b" by (intro part_inj) simp
  with b' show ?thesis
    by (intro exI [of _ b] exI [of _ t] exI [of _ "Wait op (insert r R)"])
      (simp add: Obs t r only_upd ro)
qed (use v in auto)

lemma lift_run:
  assumes "lin_run spec1 (part b i, only own i Quiet st) E = Some (a', c)" and "visible E = []"
    and "\<And>t op R. own t = Some i \<Longrightarrow> st t = Wait op R \<Longrightarrow> route op = i"
  shows "\<exists>b' st'. lin_run spec (b, st) E = Some (b', st') \<and> part b' = (part b)(i := a') \<and>
    c = only own i Quiet st' \<and> (\<forall>t. own t \<noteq> Some i \<longrightarrow> st' t = st t) \<and>
    (\<forall>t op R. own t = Some i \<longrightarrow> st' t = Wait op R \<longrightarrow> route op = i)"
  using assms
proof (induction E arbitrary: b st)
  case Nil
  then show ?case by auto
next
  case (Cons e E)
  from Cons.prems(1) obtain a2 c2 where
    e: "lin_step spec1 (part b i, only own i Quiet st) e = Some (a2, c2)"
    and E: "lin_run spec1 (a2, c2) E = Some (a', c)" by (auto split: option.splits)
  have v: "visible [e] = []" "visible E = []" using Cons.prems(2) by (auto split: if_splits)
  have "\<exists>b' t x. lin_step spec (b, st) e = Some (b', st(t := x)) \<and> part b' = (part b)(i := a2) \<and>
      own t = Some i \<and> c2 = only own i Quiet (st(t := x)) \<and> (\<forall>op R. x = Wait op R \<longrightarrow> route op = i)"
    by (rule lift_step [OF e v(1)]) (rule Cons.prems(3))
  then obtain b2 t x where S: "lin_step spec (b, st) e = Some (b2, st(t := x))" "part b2 = (part b)(i := a2)"
    "own t = Some i" "c2 = only own i Quiet (st(t := x))" "\<And>op R. x = Wait op R \<Longrightarrow> route op = i"
    by blast
  have "lin_run spec1 (part b2 i, only own i Quiet (st(t := x))) E = Some (a', c)"
    using E by (simp add: S(2,4))
  moreover have "route op = i" if "own u = Some i" "(st(t := x)) u = Wait op R" for u op R
    using that S(5) Cons.prems(3) by (cases "u = t") auto
  ultimately have "\<exists>b' st'. lin_run spec (b2, st(t := x)) E = Some (b', st') \<and> part b' = (part b2)(i := a') \<and>
      c = only own i Quiet st' \<and> (\<forall>u. own u \<noteq> Some i \<longrightarrow> st' u = (st(t := x)) u) \<and>
      (\<forall>u op R. own u = Some i \<longrightarrow> st' u = Wait op R \<longrightarrow> route op = i)"
    by (intro Cons.IH [OF _ v(2)])
  then obtain b' st' where
    I: "lin_run spec (b2, st(t := x)) E = Some (b', st')" "part b' = (part b2)(i := a')"
      "c = only own i Quiet st'" "\<And>u. own u \<noteq> Some i \<Longrightarrow> st' u = (st(t := x)) u"
      "\<And>u op R. own u = Some i \<Longrightarrow> st' u = Wait op R \<Longrightarrow> route op = i"
    by blast
  have "lin_run spec (b, st) (e # E) = Some (b', st')" using S(1) I(1) by simp
  moreover have "part b' = (part b)(i := a')" using I(2) S(2) by simp
  moreover have "st' u = st u" if "own u \<noteq> Some i" for u using I(4) [OF that] that S(3) by auto
  ultimately show ?case using I(3,5) by blast
qed

text \<open>The moves of the whole object.\<close>

lemma routed_lookup:
  assumes rel: "routed_rel bs th b st" and t: "th t = Busy (Lookup op)"
    and stp: "routed_step M route bs t (Lookup op) = (bs', x)"
  shows "routed_rel bs' (th(t := x)) b st"
proof -
  from rel obtain own where o: "length bs = n" "\<And>t. owns_ok route (th t) (st t) (own t)"
    "\<And>i. i < n \<Longrightarrow> rel (bs ! i) (only own i Idle (\<lambda>t. comp_thread (th t))) (part b i) (only own i Quiet st)"
    "\<And>t i. own t = Some i \<Longrightarrow> i < n" unfolding routed_rel_def by blast
  let ?i = "route op" and ?own = "own(t := Some (route op))"
  have w: "st t = Wait op {}" "own t = None" using o(2) [of t] by (simp_all add: t)
  obtain s' p where b: "beg M (bs ! ?i) t op = (s', p)" by fastforce
  with stp route_range [of op] have x: "bs' = bs[?i := s']" "x = Busy (Inside ?i p)"
    by (auto simp: o(1) Let_def)
  have th': "(\<lambda>u. comp_thread ((th(t := x)) u)) = (\<lambda>u. comp_thread (th u))(t := Busy p)"
    by (auto simp: x)
  have "rel s' ((only own ?i Idle (\<lambda>t. comp_thread (th t)))(t := Busy p)) (part b ?i)
      ((only own ?i Quiet st)(t := Wait op {}))"
    by (rule rel_beg [OF o(3) [OF route_range] _ free b]) (simp add: only_upd w)
  then have "rel (bs' ! i) (only ?own i Idle (\<lambda>u. comp_thread ((th(t := x)) u))) (part b i) (only ?own i Quiet st)"
    if "i < n" for i
  proof (cases "i = ?i")
    case True
    have "only ?own ?i Quiet (st(t := Wait op {})) = (only own ?i Quiet st)(t := Wait op {})"
      by (rule only_upd)
    moreover have "st(t := Wait op {}) = st" using w(1) by (rule fun_upd_idem)
    ultimately show ?thesis
      using \<open>rel s' _ _ _\<close> that True by (simp add: x(1) o(1) th' only_upd del: fun_upd_apply)
  next
    case False
    have "only ?own i Idle ((\<lambda>u. comp_thread (th u))(t := Busy p)) = only own i Idle (\<lambda>u. comp_thread (th u))"
      using w(2) False by (auto simp: only_def fun_eq_iff)
    with o(3) [OF that] w(2) False show ?thesis
      by (simp add: x(1) th' only_upd del: fun_upd_apply)
  qed
  moreover have "owns_ok route ((th(t := x)) u) (st u) (?own u)" for u
    using o(2) [of u] w by (simp add: x)
  moreover have "i < n" if "?own u = Some i" for u i
    using that o(4) [of u i] route_range [of op] by (auto split: if_splits)
  ultimately show ?thesis unfolding routed_rel_def
    by (intro conjI exI [of _ ?own]) (simp_all add: x(1) o(1) del: fun_upd_apply)
qed

lemma routed_inside:
  assumes rel: "routed_rel bs th b st" and t: "th t = Busy (Inside i p)"
    and stp: "routed_step M route bs t (Inside i p) = (bs', x)"
  shows "\<exists>E b' st'. visible E = [] \<and> lin_run spec (b, st) E = Some (b', st') \<and>
    routed_rel bs' (th(t := x)) b' st'"
proof -
  from rel obtain own where o: "length bs = n" "\<And>t. owns_ok route (th t) (st t) (own t)"
    "\<And>i. i < n \<Longrightarrow> rel (bs ! i) (only own i Idle (\<lambda>t. comp_thread (th t))) (part b i) (only own i Quiet st)"
    "\<And>t i. own t = Some i \<Longrightarrow> i < n" unfolding routed_rel_def by blast
  have w: "own t = Some i" using o(2) [of t] by (simp add: t)
  then have i: "i < n" by (rule o(4))
  obtain s' y where b: "stp M (bs ! i) t p = (s', y)" by fastforce
  with stp have x: "bs' = bs[i := s']" "x = inside i y" by auto
  have th': "(\<lambda>u. comp_thread ((th(t := x)) u)) = (\<lambda>u. comp_thread (th u))(t := y)"
    by (auto simp: x)
  have routes: "route op = i" if "own u = Some i" "st u = Wait op R" for u op R
    using o(2) [of u] that by (cases "th u" rule: comp_thread.cases) auto
  have "only own i Idle (\<lambda>t. comp_thread (th t)) t = Busy p" by (simp add: only_def w t)
  from rel_stp [OF o(3) [OF i] this b] obtain E a' c where
    E: "visible E = []" "lin_run spec1 (part b i, only own i Quiet st) E = Some (a', c)"
      "rel s' ((only own i Idle (\<lambda>t. comp_thread (th t)))(t := y)) a' c" by blast
  have "\<exists>b' st'. lin_run spec (b, st) E = Some (b', st') \<and> part b' = (part b)(i := a') \<and>
      c = only own i Quiet st' \<and> (\<forall>t. own t \<noteq> Some i \<longrightarrow> st' t = st t) \<and>
      (\<forall>t op R. own t = Some i \<longrightarrow> st' t = Wait op R \<longrightarrow> route op = i)"
    by (rule lift_run [OF E(2,1)]) (rule routes)
  then obtain b' st' where L: "lin_run spec (b, st) E = Some (b', st')" "part b' = (part b)(i := a')"
    "c = only own i Quiet st'" "\<And>t. own t \<noteq> Some i \<Longrightarrow> st' t = st t"
    "\<And>t op R. own t = Some i \<Longrightarrow> st' t = Wait op R \<Longrightarrow> route op = i" by blast
  have "rel (bs' ! j) (only own j Idle (\<lambda>u. comp_thread ((th(t := x)) u))) (part b' j) (only own j Quiet st')"
    if j: "j < n" for j
  proof (cases "j = i")
    case True
    have "part b' i = a'" by (simp add: L(2))
    with True E(3) i show ?thesis by (simp add: x(1) o(1) th' only_upd w L(3) del: fun_upd_apply)
  next
    case False
    then have "only own j Quiet st' = only own j Quiet st" by (intro only_eq L(4)) simp
    then show ?thesis using o(3) [OF j] False w
      by (simp add: x(1) th' only_upd L(2) del: fun_upd_apply) (simp add: L(2))
  qed
  moreover have y: "y \<noteq> Panic" "y = Idle \<Longrightarrow> st' t = Quiet"
    using rel_panic [OF E(3), of t] rel_quiet [OF E(3), of t] w by (auto simp: L(3) only_def)
  have "owns_ok route ((th(t := x)) u) (st' u) (own u)" for u
  proof (cases "u = t")
    case True
    then show ?thesis using L(5) [OF w] w y by (cases y) (auto simp: x)
  next
    case False
    show ?thesis
    proof (cases "own u = Some i")
      case True
      have "th u = Idle \<Longrightarrow> st' u = Quiet"
        using rel_quiet [OF E(3), of u] True False by (simp add: L(3) only_def)
      then show ?thesis using o(2) [of u] L(5) [OF True] True False
        by (cases "th u" rule: comp_thread.cases) auto
    next
      case F: False
      then show ?thesis using o(2) [of u] L(4) [OF F] False by simp
    qed
  qed
  ultimately show ?thesis using E(1) L(1) o(1,4) unfolding routed_rel_def
    by (intro exI [of _ E] exI [of _ b'] exI [of _ st'] conjI exI [of _ own])
      (simp_all add: x(1) del: fun_upd_apply)
qed

lemma routed_start:
  assumes rel: "routed_rel bs th b st" and t: "th t = Idle"
  shows "routed_rel bs (th(t := Busy (Lookup op))) b (st(t := Wait op {}))"
proof -
  from rel obtain own where o: "length bs = n" "\<And>t. owns_ok route (th t) (st t) (own t)"
    "\<And>i. i < n \<Longrightarrow> rel (bs ! i) (only own i Idle (\<lambda>t. comp_thread (th t))) (part b i) (only own i Quiet st)"
    "\<And>t i. own t = Some i \<Longrightarrow> i < n" unfolding routed_rel_def by blast
  let ?own = "own(t := None)"
  have "only ?own i Idle (\<lambda>u. comp_thread ((th(t := Busy (Lookup op))) u)) =
      only own i Idle (\<lambda>t. comp_thread (th t))"
    "only ?own i Quiet (st(t := Wait op {})) = only own i Quiet st" for i
    using t o(2) [of t] by (auto simp: only_def fun_eq_iff)
  with o show ?thesis unfolding routed_rel_def
    by (intro conjI exI [of _ ?own]) (auto split: if_splits)
qed

lemma routed_return:
  assumes rel: "routed_rel bs th b st" and t: "th t = Return r"
  shows "(st t = Done r \<or> (\<exists>op R. st t = Wait op R \<and> r \<in> R)) \<and>
    routed_rel bs (th(t := Idle)) b (st(t := Quiet))"
proof -
  from rel obtain own where o: "length bs = n" "\<And>t. owns_ok route (th t) (st t) (own t)"
    "\<And>i. i < n \<Longrightarrow> rel (bs ! i) (only own i Idle (\<lambda>t. comp_thread (th t))) (part b i) (only own i Quiet st)"
    "\<And>t i. own t = Some i \<Longrightarrow> i < n" unfolding routed_rel_def by blast
  obtain i where i: "own t = Some i" using o(2) [of t] by (auto simp: t)
  have now: "only own i Idle (\<lambda>t. comp_thread (th t)) t = Return r" "only own i Quiet st t = st t"
    by (simp_all add: only_def i t)
  note ret = rel_ret [OF o(3) [OF o(4) [OF i]] now(1)]
  have th': "(\<lambda>u. comp_thread ((th(t := Idle)) u)) = (\<lambda>u. comp_thread (th u))(t := Idle)" by auto
  have "rel (bs ! j) (only own j Idle (\<lambda>u. comp_thread ((th(t := Idle)) u))) (part b j)
      (only own j Quiet (st(t := Quiet)))" if "j < n" for j
    using o(3) [OF that] ret i
    by (cases "i = j") (simp_all add: th' only_upd del: fun_upd_apply)
  with o have "routed_rel bs (th(t := Idle)) b (st(t := Quiet))"
    unfolding routed_rel_def by (intro conjI exI [of _ own]) auto
  with ret now(2) show ?thesis by simp
qed

theorem routed_sim: "sim_machine (routed M (replicate n (sh0 M)) route allowed) spec b0 routed_rel"
proof
  have "only (\<lambda>_. None) i Idle (\<lambda>t. comp_thread Idle) = (\<lambda>_. Idle :: ('p, 'r) thread)"
    "only (\<lambda>_. None) i Quiet (\<lambda>t. Quiet) = (\<lambda>_. Quiet :: ('o, 'r) status)" for i
    by (simp_all add: only_def)
  then show "routed_rel (sh0 (routed M (replicate n (sh0 M)) route allowed)) (\<lambda>_. Idle) b0 (\<lambda>_. Quiet)"
    unfolding routed_rel_def using rel_init
    by (intro conjI exI [of _ "\<lambda>_. None"]) (simp_all add: routed_def part_init only_def)
next
  fix bs th b st and t :: tid
  assume "routed_rel bs th b st"
  then have "\<exists>w. owns_ok route (th t) (st t) w" unfolding routed_rel_def by blast
  then show "th t = Idle \<Longrightarrow> st t = Quiet" and "th t \<noteq> Panic" by auto
next
  fix bs th b st t op bs' p
  assume "routed_rel bs th b st" "th t = Idle" "beg (routed M (replicate n (sh0 M)) route allowed) bs t op = (bs', p)"
  then show "routed_rel bs' (th(t := Busy p)) b (st(t := Wait op {}))"
    using routed_start [of bs th b st t op] by (simp add: routed_def)
next
  fix bs th b st t p bs' x
  assume rel: "routed_rel bs th b st" and t: "th t = Busy p"
    and stp: "stp (routed M (replicate n (sh0 M)) route allowed) bs t p = (bs', x)"
  show "\<exists>E b' st'. visible E = [] \<and> lin_run spec (b, st) E = Some (b', st') \<and>
      routed_rel bs' (th(t := x)) b' st'"
  proof (cases p)
    case (Lookup op)
    have "routed_rel bs' (th(t := x)) b st"
      by (rule routed_lookup [OF rel t [unfolded Lookup]]) (use stp in \<open>simp add: routed_def Lookup\<close>)
    then show ?thesis by (intro exI [of _ "[]"] exI [of _ b] exI [of _ st]) simp
  next
    case (Inside i q)
    show ?thesis
      by (rule routed_inside [OF rel t [unfolded Inside]]) (use stp in \<open>simp add: routed_def Inside\<close>)
  qed
next
  fix bs th b st t r
  assume "routed_rel bs th b st" "th t = Return r"
  then show "(st t = Done r \<or> (\<exists>op R. st t = Wait op R \<and> r \<in> R)) \<and>
      routed_rel bs (th(t := Idle)) b (st(t := Quiet))" by (rule routed_return)
qed

end

text \<open>Forgetting parts of the responses commutes with routing.\<close>

lemma relabel_inside: "relabel f (inside i x) = inside i (relabel f x)"
  by (cases x) auto

lemma forget_routed_step:
  "(case routed_step M route bs t p of (bs', x) \<Rightarrow> (bs', relabel f x)) = routed_step (forget f M) route bs t p"
  by (cases p) (auto simp: Let_def forget_def relabel_inside split: prod.splits)

lemma forget_routed: "forget f (routed M bs0 route allowed) = routed (forget f M) bs0 route allowed"
  by (simp add: routed_def forget_def [of _ "routed M bs0 route allowed"] fun_eq_iff)
    (simp add: forget_def [of _ "\<lparr>sh0 = _, can = _, beg = _, stp = _\<rparr>"] forget_routed_step fun_eq_iff)

end
