(* ===== verification/Hash_Map.thy ===== *)
theory Hash_Map
  imports Ordered_List_Facts Routing
begin

text \<open>
  \<open>lf/hashmap.go\<close>: a fixed array of ordered lists, with every key routed to a bucket by its hash.
  The fields of the table never change after construction, so only the lists are shared state.
\<close>

record ('k, 'v) hash_map =
  buckets :: "('k, 'v) list_state list"
  hash_fn :: "'k \<Rightarrow> u64"
  hash_n :: u64

text \<open>\<open>NewHashMap\<close>: the panic is the left value. \<open>numBuckets\<close> is a Go \<open>int\<close>.\<close>

definition NewHashMap :: "int \<Rightarrow> ('k \<Rightarrow> u64) \<Rightarrow> string + ('k, 'v) hash_map" where
  "NewHashMap numBuckets hash =
     (if numBuckets < 1 then Inl ''lf: NewHashMap numBuckets must be >= 1''
      else Inr \<lparr>buckets = map (\<lambda>i. NewList) [0..<nat numBuckets], hash_fn = hash,
                hash_n = of_int numBuckets\<rparr>)"

text \<open>The index in \<open>h.buckets[h.hash(k)%h.n]\<close>.\<close>

definition bucket_index :: "('k, 'v) hash_map \<Rightarrow> 'k \<Rightarrow> nat" where
  "bucket_index h k = unat (hash_fn h k mod hash_n h)"

text \<open>
  \<open>Set\<close>, \<open>Get\<close>, \<open>Del\<close> (and \<open>Contains\<close>, the second result of \<open>Get\<close>) call the method of the same
  name on the bucket. The table has no \<open>Range\<close>.
\<close>

fun op_key :: "('k, 'v) list_op \<Rightarrow> 'k" where
  "op_key (MapOp (SetKey k v)) = k"
| "op_key (MapOp (GetKey k)) = k"
| "op_key (MapOp (DelKey k)) = k"
| "op_key (RangeOp from to) = from"

fun is_map_op :: "('k, 'v) list_op \<Rightarrow> bool" where
  "is_map_op (MapOp m) = True"
| "is_map_op (RangeOp from to) = False"

definition hash_machine :: "('k \<Rightarrow> 'k \<Rightarrow> bool) \<Rightarrow> ('k, 'v) hash_map \<Rightarrow>
    (('k, 'v) list_state list, (('k, 'v) list_pc, ('k, 'v) list_op) routed_pc, ('k, 'v) list_op,
     ('k, 'v) list_resp) machine" where
  "hash_machine lt h = routed (list_machine lt) (buckets h) (\<lambda>oper. bucket_index h (op_key oper)) is_map_op"

text \<open>\<open>Len\<close>: the loop adds up the lengths in a Go \<open>int\<close>, which wraps.\<close>

definition hash_Len :: "('k, 'v) list_state list \<Rightarrow> int" where
  "hash_Len bs = sint (foldl (\<lambda>total b. total + (of_int (list_Len b) :: 64 word)) 0 bs)"

subsection \<open>The table is one map\<close>

definition hash_respects :: "('k \<Rightarrow> 'k \<Rightarrow> bool) \<Rightarrow> ('k \<Rightarrow> u64) \<Rightarrow> bool" where
  "hash_respects lt hash \<longleftrightarrow> (\<forall>x y. same_key lt x y \<longrightarrow> hash x = hash y)"

lemma NewHashMap_buckets:
  assumes "NewHashMap numBuckets hash = Inr h" and "numBuckets < 2 ^ 63"
  shows "buckets h = replicate (nat numBuckets) NewList" and "bucket_index h k < nat numBuckets"
    and "hash_fn h = hash"
proof -
  have h: "h = \<lparr>buckets = map (\<lambda>i. NewList) [0..<nat numBuckets], hash_fn = hash,
      hash_n = of_int numBuckets\<rparr>" "1 \<le> numBuckets"
    using assms(1) by (auto simp: NewHashMap_def split: if_splits)
  show "buckets h = replicate (nat numBuckets) NewList" "hash_fn h = hash"
    by (simp_all add: h(1) map_replicate_const)
  have n: "unat (of_int numBuckets :: u64) = nat numBuckets"
    using h(2) assms(2) by (simp add: unat_eq_nat_uint uint_word_of_int)
  then show "bucket_index h k < nat numBuckets"
    using h(2) by (simp add: bucket_index_def h(1) unat_mod)
qed

definition bucket_keys :: "('k, 'v) hash_map \<Rightarrow> ('k \<Rightarrow> bool) \<Rightarrow> nat \<Rightarrow> 'k \<Rightarrow> bool" where
  "bucket_keys h K i = (\<lambda>k. K k \<and> bucket_index h k = i)"

lemma hash_part_step:
  assumes r: "hash_respects lt (hash_fn h)"
    and s: "keys_spec lt (bucket_keys h K (bucket_index h (op_key oper))) oper = (K', r)"
  shows "\<exists>K2. keys_spec lt K oper = (K2, r) \<and>
    bucket_keys h K2 = (bucket_keys h K)(bucket_index h (op_key oper) := K')"
proof -
  have same: "bucket_index h x = bucket_index h k" if "same_key lt x k" for x k
    using r that by (simp add: hash_respects_def bucket_index_def)
  consider k v where "oper = MapOp (SetKey k v)" | k where "oper = MapOp (GetKey k)"
    | k where "oper = MapOp (DelKey k)" | lo hi where "oper = RangeOp lo hi"
    by (cases oper rule: op_key.cases) auto
  then show ?thesis
  proof cases
    case 1
    with s have q: "K' = (\<lambda>x. same_key lt x k \<or> K x \<and> bucket_index h x = bucket_index h k)" "r = KAck"
      by (auto simp: bucket_keys_def)
    have "bucket_keys h (\<lambda>x. same_key lt x k \<or> K x) = (bucket_keys h K)(bucket_index h k := K')"
    proof (intro ext)
      fix i x
      show "bucket_keys h (\<lambda>x. same_key lt x k \<or> K x) i x =
          ((bucket_keys h K)(bucket_index h k := K')) i x"
        using same [of x k] unfolding q bucket_keys_def by (cases "same_key lt x k") auto
    qed
    then show ?thesis by (simp add: 1 q)
  next
    case 2
    with s show ?thesis by (auto simp: bucket_keys_def)
  next
    case 3
    with s have q: "K' = (\<lambda>x. (K x \<and> bucket_index h x = bucket_index h k) \<and> \<not> same_key lt x k)"
      "r = KFound (K k)"
      by (auto simp: bucket_keys_def)
    have "bucket_keys h (\<lambda>x. K x \<and> \<not> same_key lt x k) = (bucket_keys h K)(bucket_index h k := K')"
    proof (intro ext)
      fix i x
      show "bucket_keys h (\<lambda>x. K x \<and> \<not> same_key lt x k) i x =
          ((bucket_keys h K)(bucket_index h k := K')) i x"
        using same [of x k] unfolding q bucket_keys_def by (cases "same_key lt x k") auto
    qed
    then show ?thesis by (simp add: 3 q)
  next
    case 4
    with s show ?thesis by (auto simp: bucket_keys_def)
  qed
qed

lemma hash_object:
  assumes sw: "strict_weak lt" and r: "hash_respects lt hash"
    and h: "NewHashMap numBuckets hash = Inr h" "numBuckets < 2 ^ 63"
  shows "routed_object (forget erase (list_machine lt)) (keys_spec lt) (\<lambda>_. False) (list_rel lt)
    (nat numBuckets) (\<lambda>oper. bucket_index h (op_key oper)) (keys_spec lt) (\<lambda>_. False) (bucket_keys h)"
proof (intro routed_object.intro list_sim [OF sw] routed_object_axioms.intro)
  note H = NewHashMap_buckets [OF h]
  show "bucket_index h (op_key oper) < nat numBuckets" for oper by (rule H(2))
  show "can (forget erase (list_machine lt)) s t oper" for s t oper by (simp add: forget_def)
  show "bucket_keys h (\<lambda>_. False) i = (\<lambda>_. False)" for i by (simp add: bucket_keys_def)
  show "K = K'" if "bucket_keys h K = bucket_keys h K'" for K K'
  proof
    fix k
    show "K k = K' k" using fun_cong [OF fun_cong [OF that, of "bucket_index h k"], of k]
      by (simp add: bucket_keys_def)
  qed
  show "\<exists>K2. keys_spec lt K oper = (K2, q) \<and>
      bucket_keys h K2 = (bucket_keys h K)(bucket_index h (op_key oper) := K')"
    if "keys_spec lt (bucket_keys h K (bucket_index h (op_key oper))) oper = (K', q)" for K K' oper q
    using hash_part_step [OF _ that] r H(3) by simp
qed

lemma hash_sim:
  assumes "strict_weak lt" and "hash_respects lt hash"
    and h: "NewHashMap numBuckets hash = Inr h" "numBuckets < 2 ^ 63"
  shows "\<exists>rel. sim_machine (forget erase (hash_machine lt h)) (keys_spec lt) (\<lambda>_. False) rel"
  using routed_object.routed_sim [OF hash_object [OF assms], of is_map_op]
  by (auto simp: hash_machine_def forget_routed NewHashMap_buckets(1) [OF h] forget_def [of erase "list_machine lt"])

subsection \<open>Properties\<close>

lemma hash_respects_int: "hash_respects ((<) :: int \<Rightarrow> int \<Rightarrow> bool) of_int"
  by (auto simp: hash_respects_def same_key_def)

text \<open>
  C9: The hash table is linearizable as one set of keys, whatever the number of buckets, the hash
  and the schedule, when the comparator is a strict weak order and equivalent keys have the same hash. No schedule panics: the bucket index is
  always inside the slice of buckets and the lists never dereference \<open>nil\<close>.
\<close>

theorem hash_map_linearizable:
  assumes "strict_weak lt" and "hash_respects lt hash"
    and "NewHashMap numBuckets hash = Inr h" and "numBuckets < 2 ^ 63"
  shows "linearizable (keys_spec lt) (\<lambda>_. False) (map (relabel_event erase) (history (hash_machine lt h) acts)) \<and>
    snd (run (hash_machine lt h) acts) t \<noteq> Panic"
proof -
  obtain rel where "sim_machine (forget erase (hash_machine lt h)) (keys_spec lt) (\<lambda>_. False) rel"
    using hash_sim [OF assms] by blast
  then show ?thesis by (rule sim_correct)
qed

theorem hash_map_linearizable_witness:
  "linearizable (keys_spec (<)) (\<lambda>_. False) (map (relabel_event erase)
     (history (hash_machine ((<) :: int \<Rightarrow> int \<Rightarrow> bool)
        \<lparr>buckets = [NewList, NewList], hash_fn = of_int, hash_n = 2\<rparr>)
      [Start 0 (MapOp (SetKey 3 True)), Step 0, Start 1 (MapOp (DelKey 3))])) \<and>
   snd (run (hash_machine ((<) :: int \<Rightarrow> int \<Rightarrow> bool)
        \<lparr>buckets = [NewList, NewList], hash_fn = of_int, hash_n = 2\<rparr>)
      [Start 0 (MapOp (SetKey 3 True)), Step 0, Start 1 (MapOp (DelKey 3))]) 0 \<noteq> Panic"
  by (rule hash_map_linearizable [OF strict_weak_int hash_respects_int, of 2])
    (simp_all add: NewHashMap_def numeral_eq_Suc)

text \<open>
  C32: \<open>NewHashMap\<close> panics exactly when it is asked for fewer than one bucket. Otherwise it makes that
  many empty buckets, and every key has a bucket.
\<close>

theorem NewHashMap_total:
  "case (NewHashMap numBuckets hash :: string + ('k, 'v) hash_map) of
     Inl e \<Rightarrow> numBuckets < 1
   | Inr h \<Rightarrow> 1 \<le> numBuckets \<and> buckets h = replicate (nat numBuckets) NewList \<and>
       (2 ^ 63 \<le> numBuckets \<or> bucket_index h k < length (buckets h))"
proof (cases "NewHashMap numBuckets hash :: string + ('k, 'v) hash_map")
  case (Inl e)
  then show ?thesis by (simp add: NewHashMap_def split: if_splits)
next
  case (Inr h)
  then have "1 \<le> numBuckets" "buckets h = replicate (nat numBuckets) NewList"
    by (auto simp: NewHashMap_def map_replicate_const split: if_splits)
  then show ?thesis using NewHashMap_buckets(2) [OF Inr, of k] by (cases "2 ^ 63 \<le> numBuckets") (simp_all add: Inr)
qed

end
