(* ===== verification/Skip_List.thy ===== *)
theory Skip_List
  imports Ordered_List
begin

text \<open>
  \<open>lf/skiplist.go\<close> and its wrapper \<open>lf/orderedmap.go\<close>: the model. A node has one markable reference
  per level; as in the ordered list, a stored pair is identified by the version of its field.
  Reading a level that a node does not have is the Go index panic.
\<close>

subsection \<open>Memory\<close>

record markable =
  mref :: ptr
  mmark :: bool
  mver :: nat

record ('k, 'v) skipnode =
  skey :: 'k
  sval :: 'v
  topLevel :: nat
  skind :: int
  nexts :: "markable list"

record ('k, 'v) skip_state =
  snodes :: "loc \<Rightarrow> ('k, 'v) skipnode"
  sbrk :: loc
  shead :: loc
  maxLevel :: nat
  slength :: u64
  sdraws :: nat

definition skiplistMaxLevel :: nat where
  "skiplistMaxLevel = 31"

definition newMarkableRef :: "ptr \<Rightarrow> bool \<Rightarrow> markable" where
  "newMarkableRef ref marked = \<lparr>mref = ref, mmark = marked, mver = 0\<rparr>"

text \<open>The tail is cell 0, the head cell 1. Both have no key and no value.\<close>

definition NewSkipList :: "('k, 'v) skip_state" where
  "NewSkipList = \<lparr>snodes = (\<lambda>l. \<lparr>skey = undefined, sval = undefined, topLevel = skiplistMaxLevel,
       skind = (if l = 0 then 1 else -1),
       nexts = map (\<lambda>i. newMarkableRef (if l = 0 then None else Some 0) False) [0..<Suc skiplistMaxLevel]\<rparr>),
     sbrk = 2, shead = 1, maxLevel = skiplistMaxLevel, slength = 0, sdraws = 0\<rparr>"

definition newSkipnode :: "'k \<Rightarrow> 'v \<Rightarrow> nat \<Rightarrow> ('k, 'v) skipnode" where
  "newSkipnode k v tlev = \<lparr>skey = k, sval = v, topLevel = tlev, skind = 0,
     nexts = map (\<lambda>i. newMarkableRef None False) [0..<Suc tlev]\<rparr>"

definition skipLess :: "('k \<Rightarrow> 'k \<Rightarrow> bool) \<Rightarrow> ('k, 'v) skipnode \<Rightarrow> 'k \<Rightarrow> bool" where
  "skipLess lt n x = (if skind n = -1 then True else if skind n = 1 then False else lt (skey n) x)"

definition skipEqual :: "('k \<Rightarrow> 'k \<Rightarrow> bool) \<Rightarrow> ('k, 'v) skipnode \<Rightarrow> 'k \<Rightarrow> bool" where
  "skipEqual lt n x = (if skind n \<noteq> 0 then False else \<not> lt (skey n) x \<and> \<not> lt x (skey n))"

text \<open>
  \<open>n.nexts[i]\<close> inside an expression that goes on with its loaded pair.
\<close>

definition at_level :: "('k, 'v) skip_state \<Rightarrow> loc \<Rightarrow> nat \<Rightarrow>
    (markable \<Rightarrow> ('k, 'v) skip_state \<times> ('pc, 'r) thread) \<Rightarrow> ('k, 'v) skip_state \<times> ('pc, 'r) thread" where
  "at_level s l i f =
     (if i < length (nexts (snodes s l)) then f (nexts (snodes s l) ! i) else (s, Panic))"

text \<open>
  The load of \<open>compareAndSet\<close> and of \<open>attemptMark\<close> with their early returns, and the
  compare-and-swap against the loaded pair.
\<close>

definition mcas_first :: "markable \<Rightarrow> ptr \<Rightarrow> ptr \<Rightarrow> bool \<Rightarrow> bool \<Rightarrow> cas_load" where
  "mcas_first m expectRef newRef expectMark newMark =
     (if mref m \<noteq> expectRef \<or> mmark m \<noteq> expectMark then CasFails
      else if newRef = mref m \<and> newMark = mmark m then CasHolds
      else CasTry (mver m))"

definition attempt_first :: "markable \<Rightarrow> ptr \<Rightarrow> bool \<Rightarrow> cas_load" where
  "attempt_first m expectRef newMark =
     (if mref m \<noteq> expectRef then CasFails
      else if mmark m = newMark then CasHolds
      else CasTry (mver m))"

definition put_next :: "('k, 'v) skip_state \<Rightarrow> loc \<Rightarrow> nat \<Rightarrow> ptr \<Rightarrow> bool \<Rightarrow> ('k, 'v) skip_state" where
  "put_next s l i r m = s\<lparr>snodes := (snodes s)(l := (snodes s l)\<lparr>nexts := (nexts (snodes s l))
     [i := \<lparr>mref = r, mmark = m, mver = Suc (mver (nexts (snodes s l) ! i))\<rparr>]\<rparr>)\<rparr>"

definition mcas_second :: "('k, 'v) skip_state \<Rightarrow> loc \<Rightarrow> nat \<Rightarrow> nat \<Rightarrow> ptr \<Rightarrow> bool \<Rightarrow>
    ('k, 'v) skip_state option" where
  "mcas_second s l i ver r m =
     (if mver (nexts (snodes s l) ! i) = ver then Some (put_next s l i r m) else None)"

subsection \<open>Levels\<close>

text \<open>
  \<open>randomLevel\<close>: the numbers that \<open>rand.Uint64\<close> returns are a parameter, an arbitrary sequence;
  the number of draws so far is part of the state.
\<close>

function random_loop :: "nat \<Rightarrow> (nat \<Rightarrow> u64) \<Rightarrow> nat \<Rightarrow> nat \<Rightarrow> nat \<times> nat" where
  "random_loop mx coins d lvl =
     (if lvl < mx then (if coins d AND 1 = 0 then random_loop mx coins (Suc d) (Suc lvl) else (lvl, Suc d))
      else (lvl, d))"
  by auto
termination by (relation "measure (\<lambda>(mx, _, _, lvl). mx - lvl)") auto

declare random_loop.simps [simp del]

definition randomLevel :: "nat \<Rightarrow> (nat \<Rightarrow> u64) \<Rightarrow> nat \<Rightarrow> nat \<times> nat" where
  "randomLevel mx coins d = random_loop mx coins d 0"

lemma random_loop_bound: "lvl \<le> mx \<Longrightarrow> fst (random_loop mx coins d lvl) \<le> mx"
  by (induction mx coins d lvl rule: random_loop.induct) (subst random_loop.simps, simp)

lemma randomLevel_bound: "fst (randomLevel mx coins d) \<le> mx"
  by (simp add: randomLevel_def random_loop_bound)

subsection \<open>Program counters\<close>

text \<open>The slices \<open>preds\<close> and \<open>succs\<close>.\<close>

type_synonym path = "ptr list \<times> ptr list"

definition slot :: "ptr list \<Rightarrow> nat \<Rightarrow> ptr" where
  "slot ps i = (if i < length ps then ps ! i else None)"

text \<open>The callers of \<open>find\<close> with the variables they still need.\<close>

datatype ('k, 'v) find_call =
    FSet 'k 'v nat              \<comment> \<open>\<open>Set\<close>: key, value, \<open>topLevel\<close>\<close>
  | FFix 'k 'v nat loc nat      \<comment> \<open>\<open>Set\<close>, linking node \<open>n\<close> at a level\<close>
  | FDel 'k                     \<comment> \<open>\<open>Del\<close>\<close>
  | FHelp 'k loc                \<comment> \<open>\<open>Del\<close>, unlinking the victim\<close>

fun find_key :: "('k, 'v) find_call \<Rightarrow> 'k" where
  "find_key (FSet k v tlev) = k"
| "find_key (FFix k v tlev n level) = k"
| "find_key (FDel k) = k"
| "find_key (FHelp k victim) = k"

datatype ('k, 'v) skip_pc =
    FHead "('k, 'v) find_call" nat loc path            \<comment> \<open>\<open>curr = pred.nexts[level].getReference()\<close>\<close>
  | FGet "('k, 'v) find_call" nat loc loc path         \<comment> \<open>\<open>succ, marked = curr.nexts[level].get()\<close>\<close>
  | FUnlink "('k, 'v) find_call" nat loc loc ptr path  \<comment> \<open>\<open>pred.nexts[level].compareAndSet\<close>, load\<close>
  | FUnlinkCas "('k, 'v) find_call" nat loc loc ptr nat path  \<comment> \<open>the same, compare-and-swap\<close>
  | SkVal 'v loc                                       \<comment> \<open>\<open>succs[0].val.Store(&v)\<close>\<close>
  | Link0 'k 'v nat loc path                           \<comment> \<open>\<open>pred.nexts[0].compareAndSet(succ, n, ..)\<close>, load\<close>
  | Link0Cas 'k 'v nat loc path nat                    \<comment> \<open>the same, compare-and-swap\<close>
  | Link 'k 'v nat loc nat path                        \<comment> \<open>\<open>pred.nexts[level].compareAndSet(succ, n, ..)\<close>, load\<close>
  | LinkCas 'k 'v nat loc nat path nat                 \<comment> \<open>the same, compare-and-swap\<close>
  | SkLen                                              \<comment> \<open>\<open>s.length.Add(1)\<close>\<close>
  | MGet 'k loc nat path                               \<comment> \<open>\<open>succ, marked = victim.nexts[level].get()\<close>\<close>
  | MTry 'k loc nat ptr path                           \<comment> \<open>\<open>victim.nexts[level].attemptMark(succ, true)\<close>, load\<close>
  | MCas 'k loc nat ptr path nat                       \<comment> \<open>the same, compare-and-swap\<close>
  | ZGet 'k loc path                                   \<comment> \<open>\<open>succ, _ := victim.nexts[0].get()\<close>\<close>
  | ZTry 'k loc ptr path                               \<comment> \<open>\<open>victim.nexts[0].compareAndSet(succ, succ, ..)\<close>, load\<close>
  | ZCas 'k loc ptr path nat                           \<comment> \<open>the same, compare-and-swap\<close>
  | ZCheck 'k loc bool path                            \<comment> \<open>\<open>succ, marked = victim.nexts[0].get()\<close>\<close>
  | XLen loc                                           \<comment> \<open>\<open>s.length.Add(^uint64(0))\<close>\<close>
  | XVal loc                                           \<comment> \<open>\<open>*victim.val.Load()\<close>\<close>
  | NHead 'k nat loc                                   \<comment> \<open>\<open>findNode\<close>: \<open>curr = pred.nexts[level].getReference()\<close>\<close>
  | NGet 'k nat loc loc                                \<comment> \<open>\<open>succ, marked = curr.nexts[level].get()\<close>\<close>
  | NVal loc                                           \<comment> \<open>\<open>*n.val.Load()\<close>\<close>
  | VHead 'k 'k nat loc                                \<comment> \<open>\<open>Range\<close>: \<open>curr = pred.nexts[level].getReference()\<close>\<close>
  | VDown 'k 'k nat loc loc                            \<comment> \<open>\<open>succ, marked = curr.nexts[level].get()\<close>\<close>
  | VGet 'k 'k "('k \<times> 'v) list" loc                    \<comment> \<open>\<open>succ, marked = curr.nexts[0].get()\<close>\<close>
  | VVal 'k 'k "('k \<times> 'v) list" loc ptr                \<comment> \<open>\<open>op(curr.key, *curr.val.Load())\<close>\<close>

text \<open>
  The methods are those of the ordered list. \<open>Search\<close> is \<open>findNode\<close> without the final load of
  the value; its result is the second result of \<open>Get\<close>.
\<close>

definition new_path :: "('k, 'v) skip_state \<Rightarrow> path" where
  "new_path s = (replicate (Suc (maxLevel s)) None, replicate (Suc (maxLevel s)) None)"

fun skip_beg :: "(nat \<Rightarrow> u64) \<Rightarrow> ('k, 'v) skip_state \<Rightarrow> tid \<Rightarrow> ('k, 'v) list_op \<Rightarrow>
    ('k, 'v) skip_state \<times> ('k, 'v) skip_pc" where
  "skip_beg coins s t (MapOp (SetKey k v)) =
     (case randomLevel (maxLevel s) coins (sdraws s) of (tlev, d) \<Rightarrow>
        (s\<lparr>sdraws := d\<rparr>, FHead (FSet k v tlev) (maxLevel s) (shead s) (new_path s)))"
| "skip_beg coins s t (MapOp (DelKey k)) = (s, FHead (FDel k) (maxLevel s) (shead s) (new_path s))"
| "skip_beg coins s t (MapOp (GetKey k)) = (s, NHead k (maxLevel s) (shead s))"
| "skip_beg coins s t (RangeOp from to) = (s, VHead from to (maxLevel s) (shead s))"

subsection \<open>Steps\<close>

text \<open>The loops over the levels: the next level to link, and the next level to mark.\<close>

definition link_from :: "'k \<Rightarrow> 'v \<Rightarrow> nat \<Rightarrow> loc \<Rightarrow> nat \<Rightarrow> path \<Rightarrow> (('k, 'v) skip_pc, 'r) thread" where
  "link_from k v tlev n level path = (if level \<le> tlev then Busy (Link k v tlev n level path) else Busy SkLen)"

definition mark_from :: "'k \<Rightarrow> loc \<Rightarrow> nat \<Rightarrow> path \<Rightarrow> (('k, 'v) skip_pc, 'r) thread" where
  "mark_from k victim level path =
     (if 1 \<le> level then Busy (MGet k victim level path) else Busy (ZGet k victim path))"

text \<open>
  What the callers of \<open>find\<close> do with its result. \<open>Set\<close> makes its node, with every level already
  pointing to the successor found there.
\<close>

fun after_find :: "('k, 'v) skip_state \<Rightarrow> ('k, 'v) find_call \<Rightarrow> path \<Rightarrow> loc \<Rightarrow> bool \<Rightarrow>
    ('k, 'v) skip_state \<times> (('k, 'v) skip_pc, ('k, 'v) list_resp) thread" where
  "after_find s (FSet k v tlev) path cur found =
     (if found then (s, Busy (SkVal v cur))
      else (s\<lparr>snodes := (snodes s)(sbrk s := (newSkipnode k v tlev)
                \<lparr>nexts := map (\<lambda>i. newMarkableRef (slot (snd path) i) False) [0..<Suc tlev]\<rparr>),
              sbrk := Suc (sbrk s)\<rparr>,
            Busy (Link0 k v tlev (sbrk s) path)))"
| "after_find s (FFix k v tlev n level) path cur found = (s, Busy (Link k v tlev n level path))"
| "after_find s (FDel k) path cur found =
     (if found then (s, mark_from k cur (topLevel (snodes s cur)) path)
      else (s, Return (MapResp (Got None))))"
| "after_find s (FHelp k victim) path cur found = (s, Busy (XLen victim))"

definition find_retry :: "('k, 'v) skip_state \<Rightarrow> ('k, 'v) find_call \<Rightarrow> path \<Rightarrow> (('k, 'v) skip_pc, 'r) thread" where
  "find_retry s c path = Busy (FHead c (maxLevel s) (shead s) path)"

text \<open>\<open>preds[level] = pred; succs[level] = curr\<close> and the end of the loop body.\<close>

definition find_level :: "('k \<Rightarrow> 'k \<Rightarrow> bool) \<Rightarrow> ('k, 'v) skip_state \<Rightarrow> ('k, 'v) find_call \<Rightarrow> nat \<Rightarrow> loc \<Rightarrow> loc \<Rightarrow>
    path \<Rightarrow> ('k, 'v) skip_state \<times> (('k, 'v) skip_pc, ('k, 'v) list_resp) thread" where
  "find_level lt s c level pred cur path =
     (if level < length (fst path) \<and> level < length (snd path)
      then let path' = ((fst path)[level := Some pred], (snd path)[level := Some cur]) in
        (if 0 < level then (s, Busy (FHead c (level - 1) pred path'))
         else after_find s c path' cur (skipEqual lt (snodes s cur) (find_key c)))
      else (s, Panic))"

fun skip_find_step :: "('k \<Rightarrow> 'k \<Rightarrow> bool) \<Rightarrow> ('k, 'v) skip_state \<Rightarrow> ('k, 'v) skip_pc \<Rightarrow>
    ('k, 'v) skip_state \<times> (('k, 'v) skip_pc, ('k, 'v) list_resp) thread" where
  "skip_find_step lt s (FHead c level pred path) =
     at_level s pred level (\<lambda>m. (s, deref (mref m) (\<lambda>cur. Busy (FGet c level pred cur path))))"
| "skip_find_step lt s (FGet c level pred cur path) =
     at_level s cur level (\<lambda>m.
       if mmark m then (s, Busy (FUnlink c level pred cur (mref m) path))
       else if skipLess lt (snodes s cur) (find_key c)
       then (s, deref (mref m) (\<lambda>succ. Busy (FGet c level cur succ path)))
       else find_level lt s c level pred cur path)"
| "skip_find_step lt s (FUnlink c level pred cur succ path) =
     at_level s pred level (\<lambda>m. case mcas_first m (Some cur) succ False False of
        CasFails \<Rightarrow> (s, find_retry s c path)
      | CasHolds \<Rightarrow> (s, Busy (FHead c level pred path))
      | CasTry ver \<Rightarrow> (s, Busy (FUnlinkCas c level pred cur succ ver path)))"
| "skip_find_step lt s (FUnlinkCas c level pred cur succ ver path) =
     (case mcas_second s pred level ver succ False of
        None \<Rightarrow> (s, find_retry s c path)
      | Some s' \<Rightarrow> (s', Busy (FHead c level pred path)))"
| "skip_find_step lt s _ = (s, Panic)"

fun skip_set_step :: "('k, 'v) skip_state \<Rightarrow> ('k, 'v) skip_pc \<Rightarrow>
    ('k, 'v) skip_state \<times> (('k, 'v) skip_pc, ('k, 'v) list_resp) thread" where
  "skip_set_step s (SkVal v cur) =
     (s\<lparr>snodes := (snodes s)(cur := (snodes s cur)\<lparr>sval := v\<rparr>)\<rparr>, Return (MapResp Ack))"
| "skip_set_step s (Link0 k v tlev n path) =
     (case slot (fst path) 0 of None \<Rightarrow> (s, Panic) | Some pred \<Rightarrow>
       at_level s pred 0 (\<lambda>m. case mcas_first m (slot (snd path) 0) (Some n) False False of
          CasFails \<Rightarrow> (s, find_retry s (FSet k v tlev) path)
        | CasHolds \<Rightarrow> (s, link_from k v tlev n 1 path)
        | CasTry ver \<Rightarrow> (s, Busy (Link0Cas k v tlev n path ver))))"
| "skip_set_step s (Link0Cas k v tlev n path ver) =
     (case slot (fst path) 0 of None \<Rightarrow> (s, Panic) | Some pred \<Rightarrow>
       (case mcas_second s pred 0 ver (Some n) False of
          None \<Rightarrow> (s, find_retry s (FSet k v tlev) path)
        | Some s' \<Rightarrow> (s', link_from k v tlev n 1 path)))"
| "skip_set_step s (Link k v tlev n level path) =
     (case slot (fst path) level of None \<Rightarrow> (s, Panic) | Some pred \<Rightarrow>
       at_level s pred level (\<lambda>m. case mcas_first m (slot (snd path) level) (Some n) False False of
          CasFails \<Rightarrow> (s, find_retry s (FFix k v tlev n level) path)
        | CasHolds \<Rightarrow> (s, link_from k v tlev n (Suc level) path)
        | CasTry ver \<Rightarrow> (s, Busy (LinkCas k v tlev n level path ver))))"
| "skip_set_step s (LinkCas k v tlev n level path ver) =
     (case slot (fst path) level of None \<Rightarrow> (s, Panic) | Some pred \<Rightarrow>
       (case mcas_second s pred level ver (Some n) False of
          None \<Rightarrow> (s, find_retry s (FFix k v tlev n level) path)
        | Some s' \<Rightarrow> (s', link_from k v tlev n (Suc level) path)))"
| "skip_set_step s SkLen = (s\<lparr>slength := slength s + 1\<rparr>, Return (MapResp Ack))"
| "skip_set_step s _ = (s, Panic)"

fun skip_del_step :: "('k, 'v) skip_state \<Rightarrow> ('k, 'v) skip_pc \<Rightarrow>
    ('k, 'v) skip_state \<times> (('k, 'v) skip_pc, ('k, 'v) list_resp) thread" where
  "skip_del_step s (MGet k victim level path) =
     at_level s victim level (\<lambda>m. if mmark m then (s, mark_from k victim (level - 1) path)
       else (s, Busy (MTry k victim level (mref m) path)))"
| "skip_del_step s (MTry k victim level succ path) =
     at_level s victim level (\<lambda>m. case attempt_first m succ True of
        CasTry ver \<Rightarrow> (s, Busy (MCas k victim level succ path ver))
      | _ \<Rightarrow> (s, Busy (MGet k victim level path)))"
| "skip_del_step s (MCas k victim level succ path ver) =
     (case mcas_second s victim level ver succ True of
        None \<Rightarrow> (s, Busy (MGet k victim level path))
      | Some s' \<Rightarrow> (s', Busy (MGet k victim level path)))"
| "skip_del_step s (ZGet k victim path) =
     at_level s victim 0 (\<lambda>m. (s, Busy (ZTry k victim (mref m) path)))"
| "skip_del_step s (ZTry k victim succ path) =
     at_level s victim 0 (\<lambda>m. case mcas_first m succ succ False True of
        CasFails \<Rightarrow> (s, Busy (ZCheck k victim False path))
      | CasHolds \<Rightarrow> (s, Busy (ZCheck k victim True path))
      | CasTry ver \<Rightarrow> (s, Busy (ZCas k victim succ path ver)))"
| "skip_del_step s (ZCas k victim succ path ver) =
     (case mcas_second s victim 0 ver succ True of
        None \<Rightarrow> (s, Busy (ZCheck k victim False path))
      | Some s' \<Rightarrow> (s', Busy (ZCheck k victim True path)))"
| "skip_del_step s (ZCheck k victim iMarkedIt path) =
     at_level s victim 0 (\<lambda>m.
       if iMarkedIt then (s, find_retry s (FHelp k victim) path)
       else if mmark m then (s, Return (MapResp (Got None)))
       else (s, Busy (ZTry k victim (mref m) path)))"
| "skip_del_step s (XLen victim) = (s\<lparr>slength := slength s + NOT 0\<rparr>, Busy (XVal victim))"
| "skip_del_step s (XVal victim) = (s, Return (MapResp (Got (Some (sval (snodes s victim))))))"
| "skip_del_step s _ = (s, Panic)"

text \<open>
  \<open>findNode\<close> on behalf of \<open>Get\<close>. The descent of \<open>Range\<close> is the same loop with \<open>from\<close> as the key.
\<close>

fun skip_get_step :: "('k \<Rightarrow> 'k \<Rightarrow> bool) \<Rightarrow> ('k, 'v) skip_state \<Rightarrow> ('k, 'v) skip_pc \<Rightarrow>
    ('k, 'v) skip_state \<times> (('k, 'v) skip_pc, ('k, 'v) list_resp) thread" where
  "skip_get_step lt s (NHead k level pred) =
     at_level s pred level (\<lambda>m. (s, deref (mref m) (\<lambda>cur. Busy (NGet k level pred cur))))"
| "skip_get_step lt s (NGet k level pred cur) =
     at_level s cur level (\<lambda>m.
       if mmark m then (s, deref (mref m) (\<lambda>succ. Busy (NGet k level pred succ)))
       else if skipLess lt (snodes s cur) k then (s, deref (mref m) (\<lambda>succ. Busy (NGet k level cur succ)))
       else if 0 < level then (s, Busy (NHead k (level - 1) pred))
       else if skipEqual lt (snodes s cur) k then (s, Busy (NVal cur))
       else (s, Return (MapResp (Got None))))"
| "skip_get_step lt s (NVal cur) = (s, Return (MapResp (Got (Some (sval (snodes s cur))))))"
| "skip_get_step lt s _ = (s, Panic)"

definition visit_at :: "('k, 'v) skip_state \<Rightarrow> 'k \<Rightarrow> 'k \<Rightarrow> ('k \<times> 'v) list \<Rightarrow> loc \<Rightarrow>
    (('k, 'v) skip_pc, ('k, 'v) list_resp) thread" where
  "visit_at s from to acc cur =
     (if skind (snodes s cur) = 0 then Busy (VGet from to acc cur) else Return (Visited acc))"

fun skip_range_step :: "('k \<Rightarrow> 'k \<Rightarrow> bool) \<Rightarrow> ('k, 'v) skip_state \<Rightarrow> ('k, 'v) skip_pc \<Rightarrow>
    ('k, 'v) skip_state \<times> (('k, 'v) skip_pc, ('k, 'v) list_resp) thread" where
  "skip_range_step lt s (VHead from to level pred) =
     at_level s pred level (\<lambda>m. (s, deref (mref m) (\<lambda>cur. Busy (VDown from to level pred cur))))"
| "skip_range_step lt s (VDown from to level pred cur) =
     at_level s cur level (\<lambda>m.
       if mmark m then (s, deref (mref m) (\<lambda>succ. Busy (VDown from to level pred succ)))
       else if skipLess lt (snodes s cur) from then (s, deref (mref m) (\<lambda>succ. Busy (VDown from to level cur succ)))
       else if 0 < level then (s, Busy (VHead from to (level - 1) pred))
       else (s, visit_at s from to [] cur))"
| "skip_range_step lt s (VGet from to acc cur) =
     at_level s cur 0 (\<lambda>m.
       if mmark m then (s, deref (mref m) (visit_at s from to acc))
       else if \<not> lt (skey (snodes s cur)) to then (s, Return (Visited acc))
       else (s, Busy (VVal from to acc cur (mref m))))"
| "skip_range_step lt s (VVal from to acc cur succ) =
     (s, deref succ (visit_at s from to (acc @ [(skey (snodes s cur), sval (snodes s cur))])))"
| "skip_range_step lt s _ = (s, Panic)"

fun skip_step :: "('k \<Rightarrow> 'k \<Rightarrow> bool) \<Rightarrow> ('k, 'v) skip_state \<Rightarrow> tid \<Rightarrow> ('k, 'v) skip_pc \<Rightarrow>
    ('k, 'v) skip_state \<times> (('k, 'v) skip_pc, ('k, 'v) list_resp) thread" where
  "skip_step lt s t (FHead c level pred path) = skip_find_step lt s (FHead c level pred path)"
| "skip_step lt s t (FGet c level pred cur path) = skip_find_step lt s (FGet c level pred cur path)"
| "skip_step lt s t (FUnlink c level pred cur succ path) = skip_find_step lt s (FUnlink c level pred cur succ path)"
| "skip_step lt s t (FUnlinkCas c level pred cur succ ver path) =
     skip_find_step lt s (FUnlinkCas c level pred cur succ ver path)"
| "skip_step lt s t (SkVal v cur) = skip_set_step s (SkVal v cur)"
| "skip_step lt s t (Link0 k v tlev n path) = skip_set_step s (Link0 k v tlev n path)"
| "skip_step lt s t (Link0Cas k v tlev n path ver) = skip_set_step s (Link0Cas k v tlev n path ver)"
| "skip_step lt s t (Link k v tlev n level path) = skip_set_step s (Link k v tlev n level path)"
| "skip_step lt s t (LinkCas k v tlev n level path ver) = skip_set_step s (LinkCas k v tlev n level path ver)"
| "skip_step lt s t SkLen = skip_set_step s SkLen"
| "skip_step lt s t (NHead k level pred) = skip_get_step lt s (NHead k level pred)"
| "skip_step lt s t (NGet k level pred cur) = skip_get_step lt s (NGet k level pred cur)"
| "skip_step lt s t (NVal cur) = skip_get_step lt s (NVal cur)"
| "skip_step lt s t (VHead from to level pred) = skip_range_step lt s (VHead from to level pred)"
| "skip_step lt s t (VDown from to level pred cur) = skip_range_step lt s (VDown from to level pred cur)"
| "skip_step lt s t (VGet from to acc cur) = skip_range_step lt s (VGet from to acc cur)"
| "skip_step lt s t (VVal from to acc cur succ) = skip_range_step lt s (VVal from to acc cur succ)"
| "skip_step lt s t p = skip_del_step s p"

definition skip_Len :: "('k, 'v) skip_state \<Rightarrow> int" where
  "skip_Len s = sint (slength s)"

definition skip_machine :: "('k \<Rightarrow> 'k \<Rightarrow> bool) \<Rightarrow> (nat \<Rightarrow> u64) \<Rightarrow>
    (('k, 'v) skip_state, ('k, 'v) skip_pc, ('k, 'v) list_op, ('k, 'v) list_resp) machine" where
  "skip_machine lt coins =
     \<lparr>sh0 = NewSkipList, can = (\<lambda>_ _ _. True), beg = skip_beg coins, stp = skip_step lt\<rparr>"

lemma skip_machine_simps [simp]:
  "sh0 (skip_machine lt coins) = NewSkipList" "can (skip_machine lt coins) s t oper = True"
  "beg (skip_machine lt coins) = skip_beg coins" "stp (skip_machine lt coins) = skip_step lt"
  by (simp_all add: skip_machine_def)

text \<open>
  \<open>OrderedMap\<close> is a struct with a skip list as its only field; each of its methods is the method
  of the skip list.
\<close>

record ('k, 'v) ordered_map =
  sl :: "('k, 'v) skip_state"

definition NewOrderedMap :: "('k, 'v) ordered_map" where
  "NewOrderedMap = \<lparr>sl = NewSkipList\<rparr>"

definition ordered_map_machine :: "('k \<Rightarrow> 'k \<Rightarrow> bool) \<Rightarrow> (nat \<Rightarrow> u64) \<Rightarrow>
    (('k, 'v) ordered_map, ('k, 'v) skip_pc, ('k, 'v) list_op, ('k, 'v) list_resp) machine" where
  "ordered_map_machine lt coins =
     \<lparr>sh0 = NewOrderedMap, can = (\<lambda>_ _ _. True),
      beg = (\<lambda>m t oper. case skip_beg coins (sl m) t oper of (s, p) \<Rightarrow> (m\<lparr>sl := s\<rparr>, p)),
      stp = (\<lambda>m t p. case skip_step lt (sl m) t p of (s, x) \<Rightarrow> (m\<lparr>sl := s\<rparr>, x))\<rparr>"

end
