(* ===== verification/Skip_List_Safety.thy ===== *)
theory Skip_List_Safety
  imports Skip_List Ordered_List_Sim
begin

text \<open>
  Safety of the skip list. Its bottom level, seen through \<open>level0\<close>, is a Harris-Michael list, and
  the invariant, the interference and the writes of the ordered list are used for it as they are.
  The upper levels only have to lead to published nodes that reach up to that level; a node is
  marked from the top down, so an unmarked node at any level is still on the bottom list.
\<close>

subsection \<open>The bottom level\<close>

definition level0 :: "('k, 'v) skip_state \<Rightarrow> ('k, 'v) list_state" where
  "level0 s = \<lparr>lnodes = (\<lambda>l. \<lparr>lkey = skey (snodes s l), lval = sval (snodes s l), kind = skind (snodes s l),
       nref = mref (nexts (snodes s l) ! 0), nmark = mmark (nexts (snodes s l) ! 0),
       nver = mver (nexts (snodes s l) ! 0)\<rparr>),
     lbrk = sbrk s, lhead = shead s, lcount = slength s\<rparr>"

lemma level0_simps [simp]:
  "lkey (lnodes (level0 s) l) = skey (snodes s l)" "lval (lnodes (level0 s) l) = sval (snodes s l)"
  "kind (lnodes (level0 s) l) = skind (snodes s l)" "nref (lnodes (level0 s) l) = mref (nexts (snodes s l) ! 0)"
  "nmark (lnodes (level0 s) l) = mmark (nexts (snodes s l) ! 0)"
  "nver (lnodes (level0 s) l) = mver (nexts (snodes s l) ! 0)"
  "lbrk (level0 s) = sbrk s" "lhead (level0 s) = shead s"
  by (simp_all add: level0_def)

lemma skip_order [simp]:
  "skipLess lt (snodes s l) k = keyLess lt (lnodes (level0 s) l) k"
  "skipEqual lt (snodes s l) k = keyEqual lt (lnodes (level0 s) l) k"
  by (simp_all add: skipLess_def keyLess_def skipEqual_def keyEqual_def)

abbreviation cell :: "('k, 'v) skip_state \<Rightarrow> loc \<Rightarrow> nat \<Rightarrow> markable" where
  "cell s l i \<equiv> nexts (snodes s l) ! i"

subsection \<open>Invariant\<close>

definition tower :: "('k, 'v) skip_state \<Rightarrow> loc set \<Rightarrow> loc \<Rightarrow> bool" where
  "tower s P l \<longleftrightarrow> length (nexts (snodes s l)) = Suc (topLevel (snodes s l)) \<and>
     topLevel (snodes s l) \<le> maxLevel s \<and>
     (\<forall>i \<le> topLevel (snodes s l). if skind (snodes s l) = 1 then mref (cell s l i) = None \<and> \<not> mmark (cell s l i)
        else \<exists>d \<in> P. mref (cell s l i) = Some d \<and> i \<le> topLevel (snodes s d)) \<and>
     (mmark (cell s l 0) \<longrightarrow> (\<forall>i \<le> topLevel (snodes s l). mmark (cell s l i)))"

definition skip_inv :: "('k \<Rightarrow> 'k \<Rightarrow> bool) \<Rightarrow> ('k, 'v) skip_state \<Rightarrow> list_ghost \<Rightarrow> bool" where
  "skip_inv lt s g \<longleftrightarrow> list_inv lt (level0 s) g \<and> (\<forall>l \<in> pub g. tower s (pub g) l) \<and>
     topLevel (snodes s (shead s)) = maxLevel s"

definition at_lv :: "('k, 'v) skip_state \<Rightarrow> list_ghost \<Rightarrow> nat \<Rightarrow> loc \<Rightarrow> bool" where
  "at_lv s g i l \<longleftrightarrow> l \<in> pub g \<and> i \<le> topLevel (snodes s l)"

lemma skip_invD:
  assumes "skip_inv lt s g"
  shows skip_inv_list: "list_inv lt (level0 s) g"
    and skip_inv_length: "at_lv s g i l \<Longrightarrow> i < length (nexts (snodes s l))"
    and skip_inv_next: "at_lv s g i l \<Longrightarrow> skind (snodes s l) \<noteq> 1 \<Longrightarrow> \<exists>d. mref (cell s l i) = Some d \<and> at_lv s g i d"
    and skip_inv_marked: "at_lv s g i l \<Longrightarrow> mmark (cell s l 0) \<Longrightarrow> mmark (cell s l i)"
    and skip_inv_tail: "at_lv s g i l \<Longrightarrow> mmark (cell s l i) \<Longrightarrow> skind (snodes s l) \<noteq> 1"
    and skip_inv_top: "l \<in> pub g \<Longrightarrow> topLevel (snodes s l) \<le> maxLevel s"
    and skip_inv_head: "i \<le> maxLevel s \<Longrightarrow> at_lv s g i (shead s)"
proof -
  show "list_inv lt (level0 s) g" using assms by (simp add: skip_inv_def)
  have T: "tower s (pub g) l" if "l \<in> pub g" for l using assms that by (simp add: skip_inv_def)
  show "at_lv s g i l \<Longrightarrow> i < length (nexts (snodes s l))"
    using T [of l] by (auto simp: tower_def at_lv_def)
  show "at_lv s g i l \<Longrightarrow> skind (snodes s l) \<noteq> 1 \<Longrightarrow> \<exists>d. mref (cell s l i) = Some d \<and> at_lv s g i d"
    using T [of l] by (auto simp: tower_def at_lv_def)
  show "at_lv s g i l \<Longrightarrow> mmark (cell s l 0) \<Longrightarrow> mmark (cell s l i)"
    using T [of l] by (auto simp: tower_def at_lv_def)
  show "at_lv s g i l \<Longrightarrow> mmark (cell s l i) \<Longrightarrow> skind (snodes s l) \<noteq> 1"
    using T [of l] by (auto simp: tower_def at_lv_def split: if_splits)
  show "l \<in> pub g \<Longrightarrow> topLevel (snodes s l) \<le> maxLevel s"
    using T [of l] by (auto simp: tower_def)
  show "i \<le> maxLevel s \<Longrightarrow> at_lv s g i (shead s)"
    using assms head_pub [of lt "level0 s" g] by (simp add: skip_inv_def at_lv_def)
qed

text \<open>A node that a traversal moves on from has a successor at that level.\<close>

lemma skip_next:
  assumes "skip_inv lt s g" and "at_lv s g i l" and "mmark (cell s l i) \<or> keyLess lt (lnodes (level0 s) l) k"
  shows "\<exists>d. mref (cell s l i) = Some d \<and> at_lv s g i d"
proof -
  have "skind (snodes s l) \<noteq> 1"
    using skip_inv_tail [OF assms(1,2)] assms(3) by (auto simp: keyLess_def split: if_splits)
  with skip_inv_next [OF assms(1,2)] show ?thesis by blast
qed

lemma evid_unmarked:
  assumes "strict_weak lt" and inv: "skip_inv lt s g" and "at_lv s g i l" and "\<not> mmark (cell s l i)"
    and "keyLess lt (lnodes (level0 s) l) k"
  shows "evid lt (level0 s) g k st l"
proof -
  have "\<not> nmark (lnodes (level0 s) l)" using skip_inv_marked [OF inv assms(3)] assms(4) by auto
  moreover have "l \<in> pub g" using assms(3) by (simp add: at_lv_def)
  ultimately have "miss lt (lnodes (level0 s)) k l \<Longrightarrow> \<not> present lt (level0 s) g k"
    using miss_absent [OF assms(1) skip_inv_list [OF inv]] assms(5) by blast
  then show ?thesis by (auto simp: evid_def)
qed

subsection \<open>Assertions\<close>

definition pred_ok :: "('k \<Rightarrow> 'k \<Rightarrow> bool) \<Rightarrow> ('k, 'v) skip_state \<Rightarrow> list_ghost \<Rightarrow> 'k \<Rightarrow> nat \<Rightarrow> loc \<Rightarrow> bool" where
  "pred_ok lt s g k i p \<longleftrightarrow> at_lv s g i p \<and> keyLess lt (lnodes (level0 s) p) k"

definition path_ok :: "('k \<Rightarrow> 'k \<Rightarrow> bool) \<Rightarrow> ('k, 'v) skip_state \<Rightarrow> list_ghost \<Rightarrow> 'k \<Rightarrow> nat \<Rightarrow> path \<Rightarrow> bool" where
  "path_ok lt s g k j path \<longleftrightarrow> length (fst path) = Suc (maxLevel s) \<and> length (snd path) = Suc (maxLevel s) \<and>
     (\<forall>i. j \<le> i \<longrightarrow> i \<le> maxLevel s \<longrightarrow> (\<exists>p q. fst path ! i = Some p \<and> snd path ! i = Some q \<and>
        pred_ok lt s g k i p \<and> at_lv s g i q))"

lemma path_okD:
  assumes "path_ok lt s g k j path"
  shows "length (fst path) = Suc (maxLevel s)" and "length (snd path) = Suc (maxLevel s)"
    and "j \<le> i \<Longrightarrow> i \<le> maxLevel s \<Longrightarrow> \<exists>p q. fst path ! i = Some p \<and> snd path ! i = Some q \<and>
      slot (fst path) i = Some p \<and> slot (snd path) i = Some q \<and> pred_ok lt s g k i p \<and> at_lv s g i q"
    and "j \<le> i \<Longrightarrow> i \<le> maxLevel s \<Longrightarrow> fst path ! i = Some p \<Longrightarrow> pred_ok lt s g k i p"
    and "j \<le> j' \<Longrightarrow> path_ok lt s g k j' path"
  using assms by (fastforce simp: path_ok_def slot_def)+

definition scas :: "('k, 'v) skip_state \<Rightarrow> loc \<Rightarrow> nat \<Rightarrow> nat \<Rightarrow> ptr \<Rightarrow> bool" where
  "scas s l i ver r \<longleftrightarrow> ver \<le> mver (cell s l i) \<and>
     (mver (cell s l i) = ver \<longrightarrow> mref (cell s l i) = r \<and> \<not> mmark (cell s l i))"

lemma scas_casok: "scas s l 0 ver r = casok (level0 s) l ver r"
  by (simp add: scas_def casok_def)

fun call_ok :: "('k, 'v) skip_state \<Rightarrow> list_ghost \<Rightarrow> ('k, 'v) find_call \<Rightarrow> ('k, 'v) lstatus \<Rightarrow> bool" where
  "call_ok s g (FSet k v tlev) st \<longleftrightarrow> wait st (MapOp (SetKey k v)) \<and> tlev \<le> maxLevel s"
| "call_ok s g (FFix k v tlev n i) st \<longleftrightarrow> st = Done KAck \<and> n \<in> pub g \<and> topLevel (snodes s n) = tlev \<and>
     1 \<le> i \<and> i \<le> tlev \<and> tlev \<le> maxLevel s"
| "call_ok s g (FDel k) st \<longleftrightarrow> wait st (MapOp (DelKey k))"
| "call_ok s g (FHelp k victim) st \<longleftrightarrow> st = Done (KFound True)"

fun find_evid :: "('k \<Rightarrow> 'k \<Rightarrow> bool) \<Rightarrow> ('k, 'v) skip_state \<Rightarrow> list_ghost \<Rightarrow> ('k, 'v) find_call \<Rightarrow>
    ('k, 'v) lstatus \<Rightarrow> loc \<Rightarrow> bool" where
  "find_evid lt s g (FDel k) st l = evid lt (level0 s) g k st l"
| "find_evid lt s g _ st l = True"

definition find_ok :: "('k \<Rightarrow> 'k \<Rightarrow> bool) \<Rightarrow> ('k, 'v) skip_state \<Rightarrow> list_ghost \<Rightarrow> ('k, 'v) find_call \<Rightarrow> nat \<Rightarrow>
    loc \<Rightarrow> path \<Rightarrow> ('k, 'v) lstatus \<Rightarrow> bool" where
  "find_ok lt s g c i p path st \<longleftrightarrow> call_ok s g c st \<and> i \<le> maxLevel s \<and> pred_ok lt s g (find_key c) i p \<and>
     find_evid lt s g c st p \<and> path_ok lt s g (find_key c) (Suc i) path"

definition bound_at :: "('k, 'v) skip_state \<Rightarrow> list_ghost \<Rightarrow> nat \<Rightarrow> loc \<Rightarrow> ptr \<Rightarrow> bool" where
  "bound_at s g i l sc \<longleftrightarrow> at_lv s g i l \<and> mmark (cell s l i) \<and> mref (cell s l i) = sc"

definition fresh_tower :: "('k \<Rightarrow> 'k \<Rightarrow> bool) \<Rightarrow> ('k, 'v) skip_state \<Rightarrow> list_ghost \<Rightarrow> tid \<Rightarrow> 'k \<Rightarrow> nat \<Rightarrow> loc \<Rightarrow>
    path \<Rightarrow> bool" where
  "fresh_tower lt s g t k tlev n path \<longleftrightarrow> (\<exists>cu. snd path ! 0 = Some cu \<and> fresh lt (level0 s) g t k n cu) \<and>
     length (nexts (snodes s n)) = Suc tlev \<and> topLevel (snodes s n) = tlev \<and> tlev \<le> maxLevel s \<and>
     (\<forall>i \<le> tlev. \<exists>d. mref (cell s n i) = Some d \<and> at_lv s g i d)"

definition victim_ok :: "('k \<Rightarrow> 'k \<Rightarrow> bool) \<Rightarrow> ('k, 'v) skip_state \<Rightarrow> list_ghost \<Rightarrow> 'k \<Rightarrow> loc \<Rightarrow> nat \<Rightarrow> path \<Rightarrow>
    ('k, 'v) lstatus \<Rightarrow> bool" where
  "victim_ok lt s g k vic i path st \<longleftrightarrow> wait st (MapOp (DelKey k)) \<and> matches lt (level0 s) g k vic \<and>
     i \<le> topLevel (snodes s vic) \<and> (\<forall>j \<le> topLevel (snodes s vic). i < j \<longrightarrow> mmark (cell s vic j)) \<and>
     (mmark (cell s vic 0) \<longrightarrow> may st (KFound False) \<or> \<not> present lt (level0 s) g k) \<and>
     path_ok lt s g k (Suc (maxLevel s)) path"

definition linking :: "('k \<Rightarrow> 'k \<Rightarrow> bool) \<Rightarrow> ('k, 'v) skip_state \<Rightarrow> list_ghost \<Rightarrow> 'k \<Rightarrow> nat \<Rightarrow> loc \<Rightarrow> nat \<Rightarrow>
    path \<Rightarrow> ('k, 'v) lstatus \<Rightarrow> bool" where
  "linking lt s g k tlev n i path st \<longleftrightarrow> st = Done KAck \<and> n \<in> pub g \<and> topLevel (snodes s n) = tlev \<and>
     1 \<le> i \<and> i \<le> tlev \<and> tlev \<le> maxLevel s \<and> path_ok lt s g k 0 path"

fun skip_ok :: "('k \<Rightarrow> 'k \<Rightarrow> bool) \<Rightarrow> ('k, 'v) skip_state \<Rightarrow> list_ghost \<Rightarrow> tid \<Rightarrow> ('k, 'v) skip_pc \<Rightarrow>
    ('k, 'v) lstatus \<Rightarrow> bool" where
  "skip_ok lt s g t (FHead c i p path) st \<longleftrightarrow> find_ok lt s g c i p path st"
| "skip_ok lt s g t (FGet c i p cu path) st \<longleftrightarrow> find_ok lt s g c i p path st \<and> at_lv s g i cu \<and>
     (i = 0 \<longrightarrow> find_evid lt s g c st cu)"
| "skip_ok lt s g t (FUnlink c i p cu sc path) st \<longleftrightarrow> find_ok lt s g c i p path st \<and> bound_at s g i cu sc"
| "skip_ok lt s g t (FUnlinkCas c i p cu sc ver path) st \<longleftrightarrow> find_ok lt s g c i p path st \<and>
     bound_at s g i cu sc \<and> scas s p i ver (Some cu)"
| "skip_ok lt s g t (SkVal v cu) st \<longleftrightarrow> may st KAck \<and> cu \<in> pub g"
| "skip_ok lt s g t (Link0 k v tlev n path) st \<longleftrightarrow> wait st (MapOp (SetKey k v)) \<and>
     fresh_tower lt s g t k tlev n path \<and> path_ok lt s g k 0 path"
| "skip_ok lt s g t (Link0Cas k v tlev n path ver) st \<longleftrightarrow> wait st (MapOp (SetKey k v)) \<and>
     fresh_tower lt s g t k tlev n path \<and> path_ok lt s g k 0 path \<and>
     (\<exists>p. fst path ! 0 = Some p \<and> scas s p 0 ver (snd path ! 0))"
| "skip_ok lt s g t (Link k v tlev n i path) st \<longleftrightarrow> linking lt s g k tlev n i path st"
| "skip_ok lt s g t (LinkCas k v tlev n i path ver) st \<longleftrightarrow> linking lt s g k tlev n i path st \<and>
     (\<exists>p. fst path ! i = Some p \<and> scas s p i ver (snd path ! i))"
| "skip_ok lt s g t SkLen st \<longleftrightarrow> st = Done KAck"
| "skip_ok lt s g t (MGet k vic i path) st \<longleftrightarrow> victim_ok lt s g k vic i path st \<and> 1 \<le> i"
| "skip_ok lt s g t (MTry k vic i sc path) st \<longleftrightarrow> victim_ok lt s g k vic i path st \<and> 1 \<le> i"
| "skip_ok lt s g t (MCas k vic i sc path ver) st \<longleftrightarrow> victim_ok lt s g k vic i path st \<and> 1 \<le> i \<and>
     scas s vic i ver sc"
| "skip_ok lt s g t (ZGet k vic path) st \<longleftrightarrow> victim_ok lt s g k vic 0 path st"
| "skip_ok lt s g t (ZTry k vic sc path) st \<longleftrightarrow> victim_ok lt s g k vic 0 path st"
| "skip_ok lt s g t (ZCas k vic sc path ver) st \<longleftrightarrow> victim_ok lt s g k vic 0 path st \<and> scas s vic 0 ver sc"
| "skip_ok lt s g t (ZCheck k vic b path) st \<longleftrightarrow> vic \<in> pub g \<and> path_ok lt s g k (Suc (maxLevel s)) path \<and>
     (if b then st = Done (KFound True) else victim_ok lt s g k vic 0 path st)"
| "skip_ok lt s g t (XLen vic) st \<longleftrightarrow> st = Done (KFound True)"
| "skip_ok lt s g t (XVal vic) st \<longleftrightarrow> st = Done (KFound True)"
| "skip_ok lt s g t (NHead k i p) st \<longleftrightarrow> wait st (MapOp (GetKey k)) \<and> pred_ok lt s g k i p \<and>
     evid lt (level0 s) g k st p"
| "skip_ok lt s g t (NGet k i p cu) st \<longleftrightarrow> wait st (MapOp (GetKey k)) \<and> pred_ok lt s g k i p \<and>
     evid lt (level0 s) g k st p \<and> at_lv s g i cu \<and> (i = 0 \<longrightarrow> evid lt (level0 s) g k st cu)"
| "skip_ok lt s g t (NVal cu) st \<longleftrightarrow> may st (KFound True)"
| "skip_ok lt s g t (VHead lo hi i p) st \<longleftrightarrow> wait st (RangeOp lo hi) \<and> pred_ok lt s g lo i p"
| "skip_ok lt s g t (VDown lo hi i p cu) st \<longleftrightarrow> wait st (RangeOp lo hi) \<and> pred_ok lt s g lo i p \<and> at_lv s g i cu"
| "skip_ok lt s g t (VGet lo hi acc cu) st \<longleftrightarrow> wait st (RangeOp lo hi) \<and> range_ok lt (level0 s) g lo hi acc cu"
| "skip_ok lt s g t (VVal lo hi acc cu sc) st \<longleftrightarrow> wait st (RangeOp lo hi) \<and>
     range_ok lt (level0 s) g lo hi acc cu \<and> lt (skey (snodes s cu)) hi \<and> onward lt (level0 s) g cu sc"

subsection \<open>Interference\<close>

definition skip_rely :: "('k \<Rightarrow> 'k \<Rightarrow> bool) \<Rightarrow> tid \<Rightarrow> ('k, 'v) skip_state \<Rightarrow> list_ghost \<Rightarrow>
    ('k, 'v) skip_state \<Rightarrow> list_ghost \<Rightarrow> bool" where
  "skip_rely lt t s g s' g' \<longleftrightarrow> list_rely lt t (level0 s) g (level0 s') g' \<and> maxLevel s' = maxLevel s \<and>
     (\<forall>l \<in> pub g. topLevel (snodes s' l) = topLevel (snodes s l) \<and>
        (\<forall>i \<le> topLevel (snodes s l).
           (mmark (cell s l i) \<longrightarrow> mmark (cell s' l i) \<and> mref (cell s' l i) = mref (cell s l i)) \<and>
           mver (cell s l i) \<le> mver (cell s' l i) \<and>
           (mver (cell s' l i) = mver (cell s l i) \<longrightarrow> cell s' l i = cell s l i)) \<and>
        (\<forall>k. keyEqual lt (lnodes (level0 s) l) k \<longrightarrow> mmark (cell s' l 0) \<longrightarrow> \<not> mmark (cell s l 0) \<longrightarrow>
           \<not> present lt (level0 s') g' k)) \<and>
     (\<forall>l u. u \<noteq> t \<longrightarrow> lown g l = Some u \<longrightarrow> snodes s' l = snodes s l)"

lemma skip_relyD:
  assumes "skip_rely lt t s g s' g'"
  shows "list_rely lt t (level0 s) g (level0 s') g'" and "maxLevel s' = maxLevel s"
    and "l \<in> pub g \<Longrightarrow> l \<in> pub g'"
    and "l \<in> pub g \<Longrightarrow> topLevel (snodes s' l) = topLevel (snodes s l)"
    and "at_lv s g i l \<Longrightarrow> at_lv s' g' i l"
    and "pred_ok lt s g k i p \<Longrightarrow> pred_ok lt s' g' k i p"
    and "path_ok lt s g k i path \<Longrightarrow> path_ok lt s' g' k i path"
    and "at_lv s g i l \<Longrightarrow> scas s l i ver r \<Longrightarrow> scas s' l i ver r"
    and "bound_at s g i l sc \<Longrightarrow> bound_at s' g' i l sc"
    and "at_lv s g i l \<Longrightarrow> mmark (cell s l i) \<Longrightarrow> mmark (cell s' l i)"
    and "u \<noteq> t \<Longrightarrow> fresh_tower lt s g u k tlev n path \<Longrightarrow> fresh_tower lt s' g' u k tlev n path"
proof -
  show L: "list_rely lt t (level0 s) g (level0 s') g'" and M: "maxLevel s' = maxLevel s"
    using assms by (simp_all add: skip_rely_def)
  show P: "l \<in> pub g \<Longrightarrow> l \<in> pub g'" for l by (rule list_relyD(1) [OF L])
  show T: "l \<in> pub g \<Longrightarrow> topLevel (snodes s' l) = topLevel (snodes s l)" for l
    using assms by (simp add: skip_rely_def)
  have C: "(mmark (cell s l i) \<longrightarrow> mmark (cell s' l i) \<and> mref (cell s' l i) = mref (cell s l i)) \<and>
      mver (cell s l i) \<le> mver (cell s' l i) \<and> (mver (cell s' l i) = mver (cell s l i) \<longrightarrow> cell s' l i = cell s l i)"
    if "at_lv s g i l" for i l
    using assms that by (simp add: skip_rely_def at_lv_def)
  show A: "at_lv s g i l \<Longrightarrow> at_lv s' g' i l" for i l using P T by (simp add: at_lv_def)
  show B: "pred_ok lt s g k i p \<Longrightarrow> pred_ok lt s' g' k i p" for k i p
    using A [of i p] list_relyD(2) [OF L, of p k] unfolding pred_ok_def by (simp add: at_lv_def)
  show "path_ok lt s g k i path \<Longrightarrow> path_ok lt s' g' k i path"
    using A B M unfolding path_ok_def by metis
  show "at_lv s g i l \<Longrightarrow> scas s l i ver r \<Longrightarrow> scas s' l i ver r"
    using C [of i l] by (fastforce simp: scas_def)
  show "bound_at s g i l sc \<Longrightarrow> bound_at s' g' i l sc"
    using A C [of i l] by (simp add: bound_at_def)
  show "at_lv s g i l \<Longrightarrow> mmark (cell s l i) \<Longrightarrow> mmark (cell s' l i)" using C [of i l] by simp
  show "u \<noteq> t \<Longrightarrow> fresh_tower lt s g u k tlev n path \<Longrightarrow> fresh_tower lt s' g' u k tlev n path"
  proof -
    assume u: "u \<noteq> t" and f: "fresh_tower lt s g u k tlev n path"
    then have "lown g n = Some u" by (auto simp: fresh_tower_def fresh_def)
    with u assms have n: "snodes s' n = snodes s n" by (auto simp: skip_rely_def)
    from f list_relyD(10) [OF L u] A show "fresh_tower lt s' g' u k tlev n path"
      unfolding fresh_tower_def n M by blast
  qed
qed

lemma skip_rely_refl: "skip_rely lt t s g s g"
  by (simp add: skip_rely_def list_rely_refl)

lemma victim_stable:
  assumes r: "skip_rely lt t s g s' g'" and gn: "gains lt (level0 s) g (level0 s') g' st st'"
    and v: "victim_ok lt s g k vic i path st"
  shows "victim_ok lt s' g' k vic i path st'"
proof -
  note D = skip_relyD [OF r] gainsD [OF gn]
  have V: "wait st (MapOp (DelKey k))" "matches lt (level0 s) g k vic" "i \<le> topLevel (snodes s vic)"
    "\<And>j. j \<le> topLevel (snodes s vic) \<Longrightarrow> i < j \<Longrightarrow> mmark (cell s vic j)"
    "mmark (cell s vic 0) \<Longrightarrow> may st (KFound False) \<or> \<not> present lt (level0 s) g k"
    "path_ok lt s g k (Suc (maxLevel s)) path" using v by (auto simp: victim_ok_def)
  have p: "vic \<in> pub g" "keyEqual lt (lnodes (level0 s) vic) k" using V(2) by (simp_all add: matches_def)
  have T: "topLevel (snodes s' vic) = topLevel (snodes s vic)" by (rule D(4) [OF p(1)])
  have "may st' (KFound False) \<or> \<not> present lt (level0 s') g' k" if m: "mmark (cell s' vic 0)"
  proof (cases "mmark (cell s vic 0)")
    case True
    from V(5) [OF this] show ?thesis
    proof
      assume "may st (KFound False)"
      then show ?thesis using D(13) by blast
    next
      assume "\<not> present lt (level0 s) g k"
      then show ?thesis using gn V(1) unfolding gains_def by blast
    qed
  next
    case False
    then show ?thesis using r p m unfolding skip_rely_def by blast
  qed
  moreover have "mmark (cell s' vic j)" if "j \<le> topLevel (snodes s' vic)" "i < j" for j
    using D(10) [of j vic] V(4) [of j] p(1) that T by (simp add: at_lv_def)
  ultimately show ?thesis
    using D(12) [OF V(1)] list_relyD(7) [OF D(1) V(2)] V(3) D(7) [OF V(6)] T D(2)
    unfolding victim_ok_def by auto
qed

lemma find_stable:
  assumes r: "skip_rely lt t s g s' g'" and gn: "gains lt (level0 s) g (level0 s') g' st st'"
  shows "call_ok s g c st \<Longrightarrow> call_ok s' g' c st'"
    and "call_ok s g c st \<Longrightarrow> l \<in> pub g \<Longrightarrow> find_evid lt s g c st l \<Longrightarrow> find_evid lt s' g' c st' l"
    and "find_ok lt s g c i p path st \<Longrightarrow> find_ok lt s' g' c i p path st'"
proof -
  note D = skip_relyD [OF r] gainsD [OF gn]
  show A: "call_ok s g c st \<Longrightarrow> call_ok s' g' c st'" using D(2-4,12-14) by (cases c) auto
  show B: "call_ok s g c st \<Longrightarrow> l \<in> pub g \<Longrightarrow> find_evid lt s g c st l \<Longrightarrow> find_evid lt s' g' c st' l" for l
    using evid_stable [OF D(1) gn] by (cases c) auto
  show "find_ok lt s g c i p path st \<Longrightarrow> find_ok lt s' g' c i p path st'"
    using A B [of p] D(2,6,7) by (auto simp: find_ok_def pred_ok_def at_lv_def)
qed

lemma skip_stable:
  assumes r: "skip_rely lt t s g s' g'" and gn: "gains lt (level0 s) g (level0 s') g' st st'" and ut: "u \<noteq> t"
    and ok: "skip_ok lt s g u p st"
  shows "skip_ok lt s' g' u p st'"
proof -
  note D = skip_relyD [OF r] gainsD [OF gn]
  note F = find_stable [OF r gn]
  note V = victim_stable [OF r gn]
  note E = evid_stable [OF D(1) gn]
  show ?thesis
  proof (cases p)
    case (FHead c i q path)
    with ok F(3) show ?thesis by simp
  next
    case (FGet c i q cu path)
    then have "call_ok s g c st" "cu \<in> pub g" using ok by (simp_all add: find_ok_def at_lv_def)
    with FGet ok F(2) [of c cu] F(3) D(5) show ?thesis by simp
  next
    case (FUnlink c i q cu sc path)
    with ok F(3) D(9) show ?thesis by simp
  next
    case (FUnlinkCas c i q cu sc ver path)
    then have "at_lv s g i q" using ok by (simp add: find_ok_def pred_ok_def)
    with FUnlinkCas ok F(3) D(8,9) show ?thesis by simp
  next
    case (Link0Cas k v tlev n path ver)
    then have "at_lv s g 0 q" if "fst path ! 0 = Some q" for q
      using ok that path_okD(4) [of lt s g k 0 path 0 q] by (simp add: pred_ok_def)
    with Link0Cas ok D(7,8,11,12) ut show ?thesis by auto
  next
    case (LinkCas k v tlev n i path ver)
    then have "at_lv s g i q" if "fst path ! i = Some q" for q
      using ok that path_okD(4) [of lt s g k 0 path i q] by (simp add: linking_def pred_ok_def)
    with LinkCas ok D(2-4,7,8,14) show ?thesis by (auto simp: linking_def)
  next
    case (Link k v tlev n i path)
    with ok D(2-4,7,14) show ?thesis by (auto simp: linking_def)
  next
    case (MCas k vic i sc path ver)
    then have "at_lv s g i vic" using ok by (auto simp: victim_ok_def matches_def at_lv_def)
    with MCas ok V D(8) show ?thesis by simp
  next
    case (ZCas k vic sc path ver)
    then have "at_lv s g 0 vic" using ok by (auto simp: victim_ok_def matches_def at_lv_def)
    with ZCas ok V D(8) show ?thesis by simp
  next
    case (ZCheck k vic b path)
    with ok V D(2,3,7,14) show ?thesis by (simp split: if_splits)
  next
    case (NHead k i q)
    then have "q \<in> pub g" using ok by (simp add: pred_ok_def at_lv_def)
    with NHead ok D(6,12) E [of k q] show ?thesis by simp
  next
    case (NGet k i q cu)
    then have "q \<in> pub g" "cu \<in> pub g" using ok by (simp_all add: pred_ok_def at_lv_def)
    with NGet ok D(5,6,12) E [of k q] E [of k cu] show ?thesis by simp
  next
    case (VVal lo hi acc cu sc)
    then have "cu \<in> pub g" using ok by (simp add: range_ok_def)
    with VVal ok D(12) list_relyD(11) [OF D(1)] list_relyD(12) [OF D(1), of cu] onward_stable [OF D(1)]
    show ?thesis by simp
  next
    case (VGet lo hi acc cu)
    with ok D(12) list_relyD(11) [OF D(1)] show ?thesis by simp
  next
    case (Link0 k v tlev n path)
    with ok D(7,11,12) ut show ?thesis by simp
  qed (use ok D(3,5,6,12-14) V in \<open>simp_all\<close>)
qed

subsection \<open>Writes\<close>

lemma put_next_simps [simp]:
  "shead (put_next s l i r m) = shead s" "sbrk (put_next s l i r m) = sbrk s"
  "maxLevel (put_next s l i r m) = maxLevel s"
  "skey (snodes (put_next s l i r m) x) = skey (snodes s x)"
  "sval (snodes (put_next s l i r m) x) = sval (snodes s x)"
  "skind (snodes (put_next s l i r m) x) = skind (snodes s x)"
  "topLevel (snodes (put_next s l i r m) x) = topLevel (snodes s x)"
  "length (nexts (snodes (put_next s l i r m) x)) = length (nexts (snodes s x))"
  "x \<noteq> l \<Longrightarrow> snodes (put_next s l i r m) x = snodes s x"
  by (simp_all add: put_next_def)

lemma put_next_cell:
  "i < length (nexts (snodes s l)) \<Longrightarrow> cell (put_next s l i r m) x j =
     (if x = l \<and> j = i then \<lparr>mref = r, mmark = m, mver = Suc (mver (cell s l i))\<rparr> else cell s x j)"
  by (simp add: put_next_def nth_list_update)

lemma mcas_second_eq:
  "mcas_second s l i ver r m = (if mver (cell s l i) = ver then Some (put_next s l i r m) else None)"
  by (simp add: mcas_second_def)

lemma level0_put_upper:
  "0 < i \<Longrightarrow> i < length (nexts (snodes s l)) \<Longrightarrow> level0 (put_next s l i r m) = level0 s"
  by (simp add: level0_def put_next_cell) (simp add: put_next_def)

lemma level0_put_zero:
  "0 < length (nexts (snodes s l)) \<Longrightarrow> level0 (put_next s l 0 r m) = set_next (level0 s) l r m"
  by (simp add: level0_def set_next_def put_next_cell fun_eq_iff) (simp add: put_next_def)

lemma put_upper:
  assumes inv: "skip_inv lt s g" and l: "at_lv s g i l" and i: "0 < i"
    and c: "scas s l i ver r0" "mver (cell s l i) = ver"
    and k: "skind (snodes s l) \<noteq> 1" and r: "r = Some d" "at_lv s g i d"
  shows "skip_inv lt (put_next s l i r m) g \<and> skip_rely lt t s g (put_next s l i r m) g \<and>
    level0 (put_next s l i r m) = level0 s"
proof -
  let ?s = "put_next s l i r m"
  have len: "i < length (nexts (snodes s l))" by (rule skip_inv_length [OF inv l])
  have L: "level0 ?s = level0 s" by (rule level0_put_upper [OF i len])
  have um: "\<not> mmark (cell s l i)" using c by (simp add: scas_def)
  then have u0: "\<not> mmark (cell s l 0)" using skip_inv_marked [OF inv l] by blast
  have lp: "l \<in> pub g" using l by (simp add: at_lv_def)
  have "tower ?s (pub g) x" if "x \<in> pub g" for x
  proof -
    have "tower s (pub g) x" using inv that by (simp add: skip_inv_def)
    then show ?thesis using k r u0 i
      by (auto simp: tower_def put_next_cell [OF len] at_lv_def)
  qed
  then have "skip_inv lt ?s g" using inv by (simp add: skip_inv_def L)
  moreover have "x \<noteq> l" if "lown g x = Some u" for x u
    using that list_inv_unowned [OF skip_inv_list [OF inv] lp] by auto
  then have "skip_rely lt t s g ?s g"
    using um i unfolding skip_rely_def L by (auto simp: list_rely_refl put_next_cell [OF len])
  ultimately show ?thesis using L by blast
qed

text \<open>Writes to the bottom level, from the corresponding lemma of the ordered list.\<close>

lemma skip_rely_put0:
  assumes inv: "skip_inv lt s g" and l: "l \<in> pub g"
    and lr: "list_rely lt t (level0 s) g (set_next (level0 s) l r m) g'"
    and c: "scas s l 0 ver r0" "mver (cell s l 0) = ver"
    and m: "\<And>k. m \<Longrightarrow> keyEqual lt (lnodes (level0 s) l) k \<Longrightarrow> \<not> present lt (set_next (level0 s) l r m) g' k"
  shows "skip_rely lt t s g (put_next s l 0 r m) g'"
proof -
  have len: "0 < length (nexts (snodes s l))"
    using skip_inv_length [OF inv, of 0 l] l by (simp add: at_lv_def)
  note L = level0_put_zero [OF len, of r m]
  have "x \<noteq> l" if "lown g x = Some u" for x u
    using that list_inv_unowned [OF skip_inv_list [OF inv] l] by auto
  moreover have "\<not> mmark (cell s l 0)" using c by (simp add: scas_def)
  ultimately show ?thesis
    using lr m unfolding skip_rely_def L by (auto simp: put_next_cell [OF len])
qed

lemma tower_mono: "tower s P x \<Longrightarrow> P \<subseteq> P' \<Longrightarrow> tower s P' x"
  unfolding tower_def by (metis subsetD)

lemma tower_put0:
  assumes "tower s P x" and "P \<subseteq> P'" and len: "0 < length (nexts (snodes s l))"
    and l: "x = l \<Longrightarrow> skind (snodes s l) \<noteq> 1 \<and> (\<exists>d \<in> P'. r = Some d) \<and>
      (m \<longrightarrow> (\<forall>i \<le> topLevel (snodes s l). 0 < i \<longrightarrow> mmark (cell s l i)))"
  shows "tower (put_next s l 0 r m) P' x"
proof -
  have "tower s P' x" using assms(1,2) by (rule tower_mono)
  then show ?thesis
    using l by (cases "x = l") (auto simp: tower_def put_next_cell [OF len])
qed

lemma skip_unlink0:
  assumes sw: "strict_weak lt" and inv: "skip_inv lt s g" and b: "bound_at s g 0 cu sc"
    and p: "at_lv s g 0 p" and c: "scas s p 0 ver (Some cu)" "mver (cell s p 0) = ver"
  shows "\<exists>g'. skip_inv lt (put_next s p 0 sc False) g' \<and> skip_rely lt t s g (put_next s p 0 sc False) g' \<and>
    present lt (level0 (put_next s p 0 sc False)) g' = present lt (level0 s) g \<and> pub g' = pub g"
proof -
  let ?s = "put_next s p 0 sc False"
  note li = skip_inv_list [OF inv]
  have pp: "p \<in> pub g" using p by (simp add: at_lv_def)
  have d: "dead (level0 s) g cu sc" using b by (simp add: bound_at_def dead_def at_lv_def)
  have len: "0 < length (nexts (snodes s p))" by (rule skip_inv_length [OF inv p])
  note L = level0_put_zero [OF len, of sc False]
  obtain g' where g': "list_inv lt (level0 ?s) g'" "list_rely lt t (level0 s) g (level0 ?s) g'"
    "pub g' = pub g" "present lt (level0 ?s) g' = present lt (level0 s) g"
    using unlink_node [OF sw li d pp, of ver] c unfolding L by (auto simp: scas_casok)
  have "skind (snodes s cu) \<noteq> 1" using skip_inv_tail [OF inv, of 0 cu] b by (simp add: bound_at_def)
  then obtain e where e: "e \<in> pub g" "sc = Some e"
    using skip_inv_next [OF inv, of 0 cu] b by (auto simp: bound_at_def at_lv_def)
  have "below lt (lnodes (level0 s) p) (lnodes (level0 s) cu)"
    using next_below(2) [OF li pp, of cu] c by (simp add: scas_def)
  then have k: "skind (snodes s p) \<noteq> 1" by (auto simp: below_def)
  have "tower ?s (pub g') x" if "x \<in> pub g'" for x
    using that inv e k len unfolding g'(3) by (intro tower_put0 [of s "pub g"]) (auto simp: skip_inv_def)
  then have "skip_inv lt ?s g'" using inv g'(1) by (simp add: skip_inv_def)
  moreover have "skip_rely lt t s g ?s g'"
    using skip_rely_put0 [OF inv pp _ c] g'(2) unfolding L by blast
  ultimately show ?thesis using g'(3,4) by blast
qed

lemma skip_mark0:
  assumes sw: "strict_weak lt" and inv: "skip_inv lt s g" and m: "matches lt (level0 s) g k cu"
    and up: "\<And>j. j \<le> topLevel (snodes s cu) \<Longrightarrow> 0 < j \<Longrightarrow> mmark (cell s cu j)"
    and c: "scas s cu 0 ver sc" "mver (cell s cu 0) = ver"
  shows "skip_inv lt (put_next s cu 0 sc True) g \<and> skip_rely lt t s g (put_next s cu 0 sc True) g \<and>
    present lt (level0 (put_next s cu 0 sc True)) g = (\<lambda>x. present lt (level0 s) g x \<and> \<not> same_key lt x k) \<and>
    present lt (level0 s) g k"
proof -
  let ?s = "put_next s cu 0 sc True"
  note li = skip_inv_list [OF inv]
  have cu: "cu \<in> pub g" "keyEqual lt (lnodes (level0 s) cu) k" using m by (simp_all add: matches_def)
  then have a: "at_lv s g 0 cu" by (simp add: at_lv_def)
  have len: "0 < length (nexts (snodes s cu))" by (rule skip_inv_length [OF inv a])
  note L = level0_put_zero [OF len, of sc True]
  have M: "list_inv lt (level0 ?s) g" "list_rely lt t (level0 s) g (level0 ?s) g"
    "present lt (level0 ?s) g = (\<lambda>x. present lt (level0 s) g x \<and> \<not> same_key lt x k)"
    "present lt (level0 s) g k"
    using mark_node [OF sw li m, of ver sc t] c unfolding L by (auto simp: scas_casok)
  have k: "skind (snodes s cu) \<noteq> 1" using cu(2) by (auto simp: keyEqual_def split: if_splits)
  then obtain d where d: "d \<in> pub g" "sc = Some d"
    using skip_inv_next [OF inv a] c by (auto simp: scas_def at_lv_def)
  have "tower ?s (pub g) x" if "x \<in> pub g" for x
    using that inv d k len up by (intro tower_put0 [of s "pub g"]) (auto simp: skip_inv_def)
  then have "skip_inv lt ?s g" using inv M(1) by (simp add: skip_inv_def)
  moreover have "skip_rely lt t s g ?s g"
  proof (rule skip_rely_put0 [OF inv cu(1) M(2) [unfolded L] c])
    fix j assume "keyEqual lt (lnodes (level0 s) cu) j"
    with cu(2) have "same_key lt j (skey (snodes s cu))" "same_key lt (skey (snodes s cu)) k"
      by (auto simp: keyEqual_def same_key_def split: if_splits)
    then have "same_key lt j k" using same_key_trans [OF sw] by blast
    then show "\<not> present lt (set_next (level0 s) cu sc True) g j" using M(3) by (simp add: L)
  qed
  ultimately show ?thesis using M(3,4) by blast
qed

lemma skip_insert0:
  assumes sw: "strict_weak lt" and inv: "skip_inv lt s g" and p: "pred_ok lt s g k 0 p"
    and f: "fresh_tower lt s g t k tlev n path"
    and c: "scas s p 0 ver (snd path ! 0)" "mver (cell s p 0) = ver"
  shows "\<exists>g'. skip_inv lt (put_next s p 0 (Some n) False) g' \<and> skip_rely lt t s g (put_next s p 0 (Some n) False) g' \<and>
    present lt (level0 (put_next s p 0 (Some n) False)) g' = (\<lambda>x. same_key lt x k \<or> present lt (level0 s) g x) \<and>
    \<not> present lt (level0 s) g k \<and> n \<in> pub g'"
proof -
  let ?s = "put_next s p 0 (Some n) False"
  note li = skip_inv_list [OF inv]
  obtain cu where cu: "snd path ! 0 = Some cu" "fresh lt (level0 s) g t k n cu"
    using f by (auto simp: fresh_tower_def)
  have a: "at_lv s g 0 p" "prevs lt (level0 s) g k p" using p by (simp_all add: pred_ok_def prevs_def at_lv_def)
  then have pp: "p \<in> pub g" by (simp add: at_lv_def)
  have len: "0 < length (nexts (snodes s p))" by (rule skip_inv_length [OF inv a(1)])
  note L = level0_put_zero [OF len, of "Some n" False]
  obtain g' where g': "list_inv lt (level0 ?s) g'" "list_rely lt t (level0 s) g (level0 ?s) g'"
    "present lt (level0 ?s) g' = (\<lambda>x. same_key lt x k \<or> present lt (level0 s) g x)"
    "\<not> present lt (level0 s) g k" "pub g' = insert n (pub g)"
    using insert_node [OF sw li a(2) cu(2), of ver] c unfolding L cu(1) by (auto simp: scas_casok)
  have k: "skind (snodes s p) \<noteq> 1" using p by (auto simp: pred_ok_def keyLess_def split: if_splits)
  have np: "n \<noteq> p" "skind (snodes s n) = 0" "\<not> mmark (cell s n 0)"
    using cu(2) list_inv_unowned [OF li pp] by (auto simp: fresh_def)
  have tn: "tower s (pub g) n"
    using f np unfolding fresh_tower_def tower_def at_lv_def by fastforce
  have "tower ?s (pub g') x" if "x \<in> pub g'" for x
    using that inv k len tn np unfolding g'(5)
    by (intro tower_put0 [of s "pub g"]) (auto simp: skip_inv_def)
  then have "skip_inv lt ?s g'" using inv g'(1) by (simp add: skip_inv_def)
  moreover have "skip_rely lt t s g ?s g'"
    using skip_rely_put0 [OF inv pp _ c] g'(2) unfolding L by blast
  ultimately show ?thesis using g'(3-5) by blast
qed

end
