(* ===== verification/Skip_List_Sim.thy ===== *)
theory Skip_List_Sim
  imports Skip_List_Safety
begin

text \<open>
  The simulation between the skip list and its key set, one lemma per group of steps, and the
  theorems about \<open>lf/skiplist.go\<close> and \<open>lf/orderedmap.go\<close>.
\<close>

subsection \<open>Steps that only concern the goroutine itself\<close>

definition skip_local :: "('k \<Rightarrow> 'k \<Rightarrow> bool) \<Rightarrow> ('k, 'v) skip_state \<Rightarrow> list_ghost \<Rightarrow> tid \<Rightarrow>
    ('k, 'v) lstatus \<Rightarrow> ('k, 'v) skip_state \<Rightarrow> (('k, 'v) skip_pc, ('k, 'v) list_resp) thread \<Rightarrow> bool"
where
  "skip_local lt s g t st s' x \<longleftrightarrow> (\<exists>g' st'.
     own_move (keys_spec lt) (present lt (level0 s) g) st (present lt (level0 s') g') st' \<and> skip_inv lt s' g' \<and>
     thread_ok (skip_ok lt s' g' t) (relabel erase x) st' \<and> skip_rely lt t s g s' g' \<and>
     (\<forall>k. present lt (level0 s') g' k \<longrightarrow> present lt (level0 s) g k))"

lemma skip_quiet:
  assumes "skip_inv lt s' g'" and "skip_rely lt t s g s' g'"
    and "present lt (level0 s') g' = present lt (level0 s) g"
    and "thread_ok (skip_ok lt s' g' t) (relabel erase x) st"
  shows "skip_local lt s g t st s' x"
  unfolding skip_local_def
proof (intro exI conjI)
  show "own_move (keys_spec lt) (present lt (level0 s) g) st (present lt (level0 s') g') st"
    unfolding assms(3) by (rule own_move.stay)
qed (use assms in simp_all)

lemma skip_stay:
  "skip_inv lt s g \<Longrightarrow> thread_ok (skip_ok lt s g t) (relabel erase x) st \<Longrightarrow> skip_local lt s g t st s x"
  by (rule skip_quiet [OF _ skip_rely_refl]) simp_all

lemma skip_observe:
  assumes "skip_inv lt s g" and "wait st oper"
    and "keys_spec lt (present lt (level0 s) g) oper = (present lt (level0 s) g, r)"
    and ok: "\<And>R. r \<in> R \<Longrightarrow> thread_ok (skip_ok lt s g t) (relabel erase x) (Wait oper R)"
  shows "skip_local lt s g t st s x"
proof -
  obtain R where "st = Wait oper R" using assms(2) by (auto simp: wait_def)
  then have "own_move (keys_spec lt) (present lt (level0 s) g) st (present lt (level0 s) g) (Wait oper (insert r R))"
    using assms(3) own_move.remember by metis
  then show ?thesis
    unfolding skip_local_def using assms(1) ok [of "insert r R"] skip_rely_refl by blast
qed

text \<open>Writes that leave the published references alone.\<close>

lemma skip_frame:
  assumes inv: "skip_inv lt s g"
    and nd: "\<And>l. l \<in> pub g \<Longrightarrow> \<exists>v. snodes s' l = (snodes s l)\<lparr>sval := v\<rparr>"
    and h: "shead s' = shead s" "sbrk s \<le> sbrk s'" "maxLevel s' = maxLevel s"
    and g: "phys g' = phys g" "pub g' = pub g"
    and o1: "\<And>l u. lown g l = Some u \<Longrightarrow> lown g' l = Some u \<and> snodes s' l = snodes s l"
    and o2: "\<And>l u. lown g' l = Some u \<Longrightarrow> l \<notin> pub g \<and> l < sbrk s'"
  shows "skip_inv lt s' g' \<and> skip_rely lt t s g s' g' \<and>
    present lt (level0 s') g' = present lt (level0 s) g"
proof -
  have F: "list_inv lt (level0 s') g' \<and> list_rely lt t (level0 s) g (level0 s') g' \<and>
      present lt (level0 s') g' = present lt (level0 s) g"
  proof (rule frame_nodes [OF skip_inv_list [OF inv]])
    show "\<exists>v. lnodes (level0 s') l = (lnodes (level0 s) l)\<lparr>lval := v\<rparr>" if "l \<in> pub g" for l
      using nd [OF that] by (auto simp: level0_def)
    show "lown g' l = Some u \<and> lnodes (level0 s') l = lnodes (level0 s) l" if "lown g l = Some u" for l u
      using o1 [OF that] by (simp add: level0_def)
    show "l \<notin> pub g \<and> l < lbrk (level0 s')" if "lown g' l = Some u" for l u
      using o2 [OF that] by simp
  qed (use h g in simp_all)
  have N: "nexts (snodes s' l) = nexts (snodes s l)" "topLevel (snodes s' l) = topLevel (snodes s l)"
    "skind (snodes s' l) = skind (snodes s l)" if "l \<in> pub g" for l
    using nd [OF that] by auto
  have "tower s' (pub g) l" if "l \<in> pub g" for l
  proof -
    have "tower s (pub g) l" using inv that by (simp add: skip_inv_def)
    then show ?thesis
      unfolding tower_def N [OF that] h(3) using N(2) by (auto split: if_splits)
  qed
  moreover have "topLevel (snodes s' (shead s)) = maxLevel s"
    using inv N(2) [OF head_pub [OF skip_inv_list [OF inv], simplified]] by (simp add: skip_inv_def)
  ultimately have "skip_inv lt s' g'" using F by (simp add: skip_inv_def g h)
  moreover have "skip_rely lt t s g s' g'"
    using F o1 N h(3) unfolding skip_rely_def by simp
  ultimately show ?thesis using F by blast
qed

lemma skip_frame_length:
  assumes inv: "skip_inv lt s g" and ok: "thread_ok (skip_ok lt s g t) (relabel erase x) st"
    and x: "x = Return r \<or> x = Busy (XVal vic)"
  shows "skip_local lt s g t st (s\<lparr>slength := c\<rparr>) x"
proof -
  have F: "skip_inv lt (s\<lparr>slength := c\<rparr>) g \<and> skip_rely lt t s g (s\<lparr>slength := c\<rparr>) g \<and>
      present lt (level0 (s\<lparr>slength := c\<rparr>)) g = present lt (level0 s) g"
  proof (rule skip_frame [OF inv])
    show "\<exists>v. snodes (s\<lparr>slength := c\<rparr>) l = (snodes s l)\<lparr>sval := v\<rparr>" for l
      by (intro exI [of _ "sval (snodes s l)"]) simp
    show "l \<notin> pub g \<and> l < sbrk (s\<lparr>slength := c\<rparr>)" if "lown g l = Some u" for l u
      using that list_inv_own [OF skip_inv_list [OF inv] that] list_inv_unowned [OF skip_inv_list [OF inv], of l]
      by auto
  qed simp_all
  have "thread_ok (skip_ok lt (s\<lparr>slength := c\<rparr>) g t) (relabel erase x) st" using ok x by auto
  with F show ?thesis by (intro skip_quiet [of lt _ g]) auto
qed

lemma skip_frame_value:
  assumes inv: "skip_inv lt s g" and cu: "cu \<in> pub g" and ok: "may st KAck"
  shows "skip_local lt s g t st (s\<lparr>snodes := (snodes s)(cu := (snodes s cu)\<lparr>sval := v\<rparr>)\<rparr>)
    (Return (MapResp Ack))"
proof -
  let ?s = "s\<lparr>snodes := (snodes s)(cu := (snodes s cu)\<lparr>sval := v\<rparr>)\<rparr>"
  note li = skip_inv_list [OF inv]
  have F: "skip_inv lt ?s g \<and> skip_rely lt t s g ?s g \<and> present lt (level0 ?s) g = present lt (level0 s) g"
  proof (rule skip_frame [OF inv])
    show "\<exists>v. snodes ?s l = (snodes s l)\<lparr>sval := v\<rparr>" for l
      by (cases "l = cu", rule exI [of _ v], simp, rule exI [of _ "sval (snodes s l)"]) simp
    show "lown g l = Some u \<and> snodes ?s l = snodes s l" if "lown g l = Some u" for l u
      using that list_inv_unowned [OF li cu] by auto
    show "l \<notin> pub g \<and> l < sbrk ?s" if "lown g l = Some u" for l u
      using that list_inv_own [OF li that] list_inv_unowned [OF li, of l] by auto
  qed simp_all
  with ok show ?thesis by (intro skip_quiet [of lt _ g]) (auto simp: may_def)
qed

subsection \<open>The steps of find\<close>

lemma at_level_ok: "skip_inv lt s g \<Longrightarrow> at_lv s g i l \<Longrightarrow> at_level s l i f = f (cell s l i)"
  using skip_inv_length [of lt s g i l] by (simp add: at_level_def)

lemma mcas_first_Try:
  "mcas_first m e r False b = CasTry ver \<Longrightarrow> mref m = e \<and> \<not> mmark m \<and> ver = mver m"
  by (auto simp: mcas_first_def split: if_splits)

lemma scas_now: "\<not> mmark (cell s p i) \<Longrightarrow> mref (cell s p i) = r \<Longrightarrow> scas s p i (mver (cell s p i)) r"
  by (simp add: scas_def)

lemma find_evid_next:
  "mmark (cell s l 0) \<or> keyLess lt (lnodes (level0 s) l) (find_key c) \<Longrightarrow> mref (cell s l 0) = Some d \<Longrightarrow>
     find_evid lt s g c st l \<Longrightarrow> find_evid lt s g c st d"
  using evid_next [of "level0 s" l lt _ d g st] by (cases c) auto

lemma find_evid_unmarked:
  "strict_weak lt \<Longrightarrow> skip_inv lt s g \<Longrightarrow> at_lv s g i l \<Longrightarrow> \<not> mmark (cell s l i) \<Longrightarrow>
     keyLess lt (lnodes (level0 s) l) (find_key c) \<Longrightarrow> find_evid lt s g c st l"
  using evid_unmarked [of lt s g i l] by (cases c) auto

text \<open>The head is a predecessor at every level.\<close>

lemma head_pred:
  assumes inv: "skip_inv lt s g" and "i \<le> maxLevel s"
  shows "pred_ok lt s g k i (shead s)"
  using skip_inv_head [OF inv assms(2)] list_inv_head(1) [OF skip_inv_list [OF inv]]
  by (simp add: pred_ok_def keyLess_def)

lemma head_unmarked:
  assumes "skip_inv lt s g"
  shows "\<not> mmark (cell s (shead s) 0)"
  using list_inv_head(2) [OF skip_inv_list [OF assms]] by simp

lemma evid_shead:
  assumes sw: "strict_weak lt" and inv: "skip_inv lt s g"
  shows "evid lt (level0 s) g k st (shead s)"
  using evid_unmarked [OF sw inv skip_inv_head [OF inv le0] head_unmarked [OF inv]]
    head_pred [OF inv le0, of k] by (simp add: pred_ok_def)

lemma find_evid_head:
  "strict_weak lt \<Longrightarrow> skip_inv lt s g \<Longrightarrow> find_evid lt s g c st (shead s)"
  using evid_shead [of lt s g _ st] by (cases c) auto

lemma find_restart:
  assumes sw: "strict_weak lt" and inv: "skip_inv lt s g" and c: "call_ok s g c st"
    and "path_ok lt s g (find_key c) (Suc (maxLevel s)) path"
  shows "find_ok lt s g c (maxLevel s) (shead s) path st"
  using assms head_pred [OF inv, of "maxLevel s"] find_evid_head [OF sw inv]
  by (simp add: find_ok_def)

lemma find_retry_step:
  assumes sw: "strict_weak lt" and inv: "skip_inv lt s g" and f: "find_ok lt s g c i p path st"
  shows "skip_local lt s g t st s (find_retry s c path)"
proof -
  have "path_ok lt s g (find_key c) (Suc (maxLevel s)) path"
    using f path_okD(5) [of lt s g _ "Suc i" path "Suc (maxLevel s)"] by (simp add: find_ok_def)
  with find_restart [OF sw inv, of c st path] f show ?thesis unfolding find_retry_def
    by (intro skip_stay [OF inv]) (simp add: find_ok_def)
qed

text \<open>The end of \<open>find\<close>.\<close>

lemma alloc_ok:
  assumes inv: "skip_inv lt s g" and w: "wait st (MapOp (SetKey k v))" "tlev \<le> maxLevel s"
    and path: "path_ok lt s g k 0 path" and cu: "snd path ! 0 = Some cu" "above lt (lnodes (level0 s) cu) k"
    and stp: "after_find s (FSet k v tlev) path cu False = (s', x)"
  shows "skip_local lt s g t st s' x"
proof -
  let ?n = "sbrk s"
  let ?g = "g\<lparr>lown := (lown g)(?n := Some t)\<rparr>"
  note li = skip_inv_list [OF inv]
  have x: "x = Busy (Link0 k v tlev ?n path)" "snodes s' = (snodes s)(?n := (newSkipnode k v tlev)
      \<lparr>nexts := map (\<lambda>i. newMarkableRef (slot (snd path) i) False) [0..<Suc tlev]\<rparr>)"
    "shead s' = shead s" "sbrk s' = Suc ?n" "maxLevel s' = maxLevel s"
    using stp by auto
  have ne: "l \<noteq> ?n" if "l \<in> pub g" for l using list_inv_bound [OF li that] by simp
  have F: "skip_inv lt s' ?g \<and> skip_rely lt t s g s' ?g \<and> present lt (level0 s') ?g = present lt (level0 s) g"
  proof (rule skip_frame [OF inv])
    show "\<exists>v. snodes s' l = (snodes s l)\<lparr>sval := v\<rparr>" if "l \<in> pub g" for l
      using ne [OF that] by (intro exI [of _ "sval (snodes s l)"]) (simp add: x)
    show "lown ?g l = Some u \<and> snodes s' l = snodes s l" if "lown g l = Some u" for l u
      using list_inv_own [OF li that] that by (simp add: x)
    show "l \<notin> pub g \<and> l < sbrk s'" if "lown ?g l = Some u" for l u
      using that ne list_inv_own [OF li, of l u] list_inv_unowned [OF li, of l]
      by (auto simp: x split: if_splits)
  qed (auto simp: x)
  note D = skip_relyD [of lt t s g s' ?g]
  have p': "path_ok lt s' ?g k 0 path" using D(7) F path by blast
  have cell: "cell s' ?n i = newMarkableRef (slot (snd path) i) False" if "i \<le> tlev" for i
    using that by (simp add: x(2) newSkipnode_def nth_append del: upt_Suc)
  have tow: "length (nexts (snodes s' ?n)) = Suc tlev" "topLevel (snodes s' ?n) = tlev"
    "skey (snodes s' ?n) = k" "skind (snodes s' ?n) = 0"
    by (simp_all add: x(2) newSkipnode_def)
  have nx: "\<exists>d. mref (cell s' ?n i) = Some d \<and> at_lv s' ?g i d" if "i \<le> tlev" for i
    using path_okD(3) [OF p', of i] that w(2) cell [OF that] by (auto simp: newMarkableRef_def x(5))
  have c0: "mref (cell s' ?n 0) = Some cu" "\<not> mmark (cell s' ?n 0)"
    using cell [of 0] cu(1) path_okD(2) [OF path] by (simp_all add: newMarkableRef_def slot_def)
  have cp: "cu \<in> pub g" using path_okD(3) [OF path, of 0] cu(1) by (auto simp: at_lv_def)
  have "above lt (lnodes (level0 s') cu) k"
    using cu(2) list_relyD(4) [OF D(1) cp] F by blast
  then have "fresh_tower lt s' ?g t k tlev ?n path"
    using c0 tow nx cp w(2) cu(1) by (auto simp: fresh_tower_def fresh_def x(5))
  then show ?thesis using F w(1) p' by (intro skip_quiet [of lt s' ?g]) (auto simp: x(1))
qed

lemma mark_from_ok:
  assumes inv: "skip_inv lt s g" and v: "victim_ok lt s g k vic i path st"
  shows "skip_local lt s g t st s (mark_from k vic i path)"
proof (cases "1 \<le> i")
  case True
  then show ?thesis using v by (intro skip_stay [OF inv]) (simp add: mark_from_def)
next
  case False
  then have "i = 0" by simp
  then show ?thesis using v by (intro skip_stay [OF inv]) (simp add: mark_from_def)
qed

lemma after_find_step:
  assumes sw: "strict_weak lt" and inv: "skip_inv lt s g" and c: "call_ok s g c st"
    and path: "path_ok lt s g (find_key c) 0 path" and cu: "snd path ! 0 = Some cu" "at_lv s g 0 cu"
    and um: "\<not> mmark (cell s cu 0)" "\<not> keyLess lt (lnodes (level0 s) cu) (find_key c)"
    and ev: "find_evid lt s g c st cu"
    and stp: "after_find s c path cu (keyEqual lt (lnodes (level0 s) cu) (find_key c)) = (s', x)"
  shows "skip_local lt s g t st s' x"
proof -
  have cp: "cu \<in> pub g" using cu(2) by (simp add: at_lv_def)
  have here: "keyEqual lt (lnodes (level0 s) cu) (find_key c) \<Longrightarrow> present lt (level0 s) g (find_key c)"
    using cp um(1) by (auto simp: present_def)
  have up: "\<not> keyEqual lt (lnodes (level0 s) cu) (find_key c) \<Longrightarrow> above lt (lnodes (level0 s) cu) (find_key c)"
    using um(2) by (simp add: above_def)
  show ?thesis
  proof (cases c)
    case (FSet k v tlev)
    have w: "wait st (MapOp (SetKey k v))" "tlev \<le> maxLevel s" using c by (simp_all add: FSet)
    show ?thesis
    proof (cases "keyEqual lt (lnodes (level0 s) cu) k")
      case True
      with stp have x: "s' = s" "x = Busy (SkVal v cu)" by (auto simp: FSet)
      show ?thesis unfolding x
        by (rule skip_observe [OF inv w(1), of KAck])
          (use True here keys_spec_same(1) [OF sw] cp in \<open>auto simp: FSet may_def\<close>)
    next
      case False
      with stp up show ?thesis
        by (intro alloc_ok [OF inv w path [unfolded FSet find_key.simps] cu(1)]) (auto simp: FSet)
    qed
  next
    case (FFix k v tlev n i)
    with stp have x: "s' = s" "x = Busy (Link k v tlev n i path)" by auto
    show ?thesis unfolding x
      by (rule skip_stay [OF inv]) (use c path in \<open>simp add: FFix linking_def\<close>)
  next
    case (FDel k)
    have w: "wait st (MapOp (DelKey k))" using c by (simp add: FDel)
    show ?thesis
    proof (cases "keyEqual lt (lnodes (level0 s) cu) k")
      case True
      with stp have x: "s' = s" "x = mark_from k cu (topLevel (snodes s cu)) path" by (auto simp: FDel)
      show ?thesis unfolding x
        by (rule mark_from_ok [OF inv])
          (use w True um(1) cp path_okD(5) [OF path] in \<open>simp add: victim_ok_def matches_def FDel\<close>)
    next
      case False
      with stp have x: "s' = s" "x = Return (MapResp (Got None))" by (auto simp: FDel)
      have "miss lt (lnodes (level0 s)) k cu" using up False um(1) miss_here [of "lnodes (level0 s)" cu]
        by (simp add: FDel)
      then consider "may st (KFound False)" | "\<not> present lt (level0 s) g k"
        using ev by (auto simp: FDel evid_def)
      then show ?thesis
      proof cases
        case 1
        then show ?thesis unfolding x by (intro skip_stay [OF inv]) (auto simp: may_def)
      next
        case 2
        show ?thesis unfolding x
          by (rule skip_observe [OF inv w, of "KFound False"]) (use 2 keys_spec_same(2) [OF sw] in auto)
      qed
    qed
  next
    case (FHelp k vic)
    with stp have x: "s' = s" "x = Busy (XLen vic)" by auto
    show ?thesis unfolding x by (rule skip_stay [OF inv]) (use c in \<open>simp add: FHelp\<close>)
  qed
qed

lemma path_ok_Suc:
  assumes "path_ok lt s g k (Suc i) path" and "i \<le> maxLevel s"
    and "pred_ok lt s g k i p" and "at_lv s g i q"
  shows "path_ok lt s g k i ((fst path)[i := Some p], (snd path)[i := Some q])"
proof -
  have "i < length (fst path)" "i < length (snd path)" using assms(1,2) by (simp_all add: path_ok_def)
  then show ?thesis using assms by (auto simp: path_ok_def nth_list_update Suc_le_eq)
qed

lemma pred_lower: "pred_ok lt s g k i p \<Longrightarrow> j \<le> i \<Longrightarrow> pred_ok lt s g k j p"
  by (simp add: pred_ok_def at_lv_def)

lemma find_level_step:
  assumes sw: "strict_weak lt" and inv: "skip_inv lt s g" and f: "find_ok lt s g c i p path st"
    and cu: "at_lv s g i cu" "i = 0 \<longrightarrow> find_evid lt s g c st cu"
    and um: "\<not> mmark (cell s cu i)" "\<not> keyLess lt (lnodes (level0 s) cu) (find_key c)"
    and stp: "find_level lt s c i p cu path = (s', x)"
  shows "skip_local lt s g t st s' x"
proof -
  have C: "call_ok s g c st" "i \<le> maxLevel s" "pred_ok lt s g (find_key c) i p" "find_evid lt s g c st p"
    "path_ok lt s g (find_key c) (Suc i) path" using f by (simp_all add: find_ok_def)
  let ?path = "((fst path)[i := Some p], (snd path)[i := Some cu])"
  have p': "path_ok lt s g (find_key c) i ?path" by (rule path_ok_Suc [OF C(5,2,3) cu(1)])
  have len: "i < length (fst path)" "i < length (snd path)" using path_okD(1,2) [OF C(5)] C(2) by simp_all
  show ?thesis
  proof (cases "0 < i")
    case True
    with stp len have x: "s' = s" "x = Busy (FHead c (i - 1) p ?path)" by (auto simp: find_level_def)
    show ?thesis unfolding x
      by (rule skip_stay [OF inv])
        (use C True p' pred_lower [OF C(3), of "i - 1"] in \<open>simp add: find_ok_def\<close>)
  next
    case False
    then have i: "i = 0" by simp
    have s0: "snd ?path ! 0 = Some cu" using len by (simp add: i)
    have "after_find s c ?path cu (keyEqual lt (lnodes (level0 s) cu) (find_key c)) = (s', x)"
      using stp len by (simp add: i find_level_def)
    then show ?thesis
      using after_find_step [OF sw inv C(1) p' [unfolded i] s0 [unfolded i]] cu um by (simp add: i)
  qed
qed

lemma skip_find_local:
  assumes sw: "strict_weak lt" and inv: "skip_inv lt s g" and ok: "skip_ok lt s g t q st"
    and stp: "skip_find_step lt s q = (s', x)"
    and q: "q = FHead c i p path \<or> q = FGet c i p cu path \<or> q = FUnlink c i p cu sc path \<or>
      q = FUnlinkCas c i p cu sc ver path"
  shows "skip_local lt s g t st s' x"
proof -
  have f: "find_ok lt s g c i p path st" using ok q by auto
  then have p: "at_lv s g i p" "keyLess lt (lnodes (level0 s) p) (find_key c)" "find_evid lt s g c st p"
    by (simp_all add: find_ok_def pred_ok_def)
  show ?thesis
    using q
  proof (elim disjE)
    assume q: "q = FHead c i p path"
    obtain d where d: "mref (cell s p i) = Some d" "at_lv s g i d" using skip_next [OF inv p(1)] p(2) by blast
    with stp have x: "s' = s" "x = Busy (FGet c i p d path)"
      by (auto simp: q at_level_ok [OF inv p(1)] deref_def)
    have "find_evid lt s g c st d" if "i = 0" using find_evid_next [OF _ _ p(3), of d] p(2) d(1) that by simp
    then show ?thesis unfolding x by (intro skip_stay [OF inv]) (use f d in simp)
  next
    assume q: "q = FGet c i p cu path"
    have cu: "at_lv s g i cu" "i = 0 \<longrightarrow> find_evid lt s g c st cu" using ok by (simp_all add: q)
    consider "mmark (cell s cu i)" | "\<not> mmark (cell s cu i)" "keyLess lt (lnodes (level0 s) cu) (find_key c)"
      | "\<not> mmark (cell s cu i)" "\<not> keyLess lt (lnodes (level0 s) cu) (find_key c)" by blast
    then show ?thesis
    proof cases
      case 1
      with stp have x: "s' = s" "x = Busy (FUnlink c i p cu (mref (cell s cu i)) path)"
        by (auto simp: q at_level_ok [OF inv cu(1)])
      show ?thesis unfolding x by (rule skip_stay [OF inv]) (use f cu 1 in \<open>simp add: bound_at_def\<close>)
    next
      case 2
      obtain d where d: "mref (cell s cu i) = Some d" "at_lv s g i d" using skip_next [OF inv cu(1)] 2(2) by blast
      with 2 stp have x: "s' = s" "x = Busy (FGet c i cu d path)"
        by (auto simp: q at_level_ok [OF inv cu(1)] deref_def)
      have ev: "find_evid lt s g c st cu" by (rule find_evid_unmarked [OF sw inv cu(1) 2])
      then have "find_ok lt s g c i cu path st" using f cu(1) 2(2) by (simp add: find_ok_def pred_ok_def)
      moreover have "find_evid lt s g c st d" if "i = 0"
        using find_evid_next [OF _ _ ev, of d] 2(2) d(1) that by simp
      ultimately show ?thesis unfolding x by (intro skip_stay [OF inv]) (use d in simp)
    next
      case 3
      with stp have "find_level lt s c i p cu path = (s', x)" by (simp add: q at_level_ok [OF inv cu(1)])
      with find_level_step [OF sw inv f cu 3] show ?thesis by blast
    qed
  next
    assume q: "q = FUnlink c i p cu sc path"
    have b: "bound_at s g i cu sc" using ok by (simp add: q)
    show ?thesis
    proof (cases "mcas_first (cell s p i) (Some cu) sc False False")
      case CasFails
      with stp have x: "s' = s" "x = find_retry s c path" by (auto simp: q at_level_ok [OF inv p(1)])
      show ?thesis unfolding x by (rule find_retry_step [OF sw inv f])
    next
      case CasHolds
      with stp have x: "s' = s" "x = Busy (FHead c i p path)" by (auto simp: q at_level_ok [OF inv p(1)])
      show ?thesis unfolding x by (rule skip_stay [OF inv]) (use f in simp)
    next
      case (CasTry ver)
      with stp have x: "s' = s" "x = Busy (FUnlinkCas c i p cu sc ver path)"
        by (auto simp: q at_level_ok [OF inv p(1)])
      show ?thesis unfolding x
        by (rule skip_stay [OF inv]) (use f b mcas_first_Try [OF CasTry] scas_now [of s p i] in auto)
    qed
  next
    assume q: "q = FUnlinkCas c i p cu sc ver path"
    have b: "bound_at s g i cu sc" "scas s p i ver (Some cu)" using ok by (simp_all add: q)
    show ?thesis
    proof (cases "mver (cell s p i) = ver")
      case False
      with stp have x: "s' = s" "x = find_retry s c path" by (auto simp: q mcas_second_eq)
      show ?thesis unfolding x by (rule find_retry_step [OF sw inv f])
    next
      case True
      with stp have x: "s' = put_next s p i sc False" "x = Busy (FHead c i p path)"
        by (auto simp: q mcas_second_eq)
      have "\<exists>g'. skip_inv lt s' g' \<and> skip_rely lt t s g s' g' \<and>
          present lt (level0 s') g' = present lt (level0 s) g"
      proof (cases "i = 0")
        case True
        then show ?thesis unfolding x
          using skip_unlink0 [OF sw inv, of cu sc p ver t] b p(1) \<open>mver (cell s p i) = ver\<close> by auto
      next
        case False
        obtain d where d: "sc = Some d" "at_lv s g i d"
          using skip_next [OF inv, of i cu] b(1) by (auto simp: bound_at_def)
        have "skind (snodes s p) \<noteq> 1" using p(2) by (auto simp: keyLess_def split: if_splits)
        then show ?thesis unfolding x
          using put_upper [OF inv p(1) _ b(2) True _ d, of False t] False by auto
      qed
      then obtain g' where g': "skip_inv lt s' g'" "skip_rely lt t s g s' g'"
        "present lt (level0 s') g' = present lt (level0 s) g" by blast
      have "gains lt (level0 s) g (level0 s') g' st st" using g'(3) by (intro gains_refl) simp
      then have "find_ok lt s' g' c i p path st" using find_stable(3) [OF g'(2) _ f] by blast
      then show ?thesis by (intro skip_quiet [OF g']) (simp add: x(2))
    qed
  qed
qed

end
