(* ===== verification/Skip_List_Ops.thy ===== *)
theory Skip_List_Ops
  imports Skip_List_Sim
begin

text \<open>The steps of \<open>Set\<close>, \<open>Get\<close>, \<open>Del\<close> and \<open>Range\<close> of the skip list after and beside \<open>find\<close>.\<close>

subsection \<open>Set\<close>

lemma link_from_ok:
  assumes inv: "skip_inv lt s g" and st: "st = Done KAck" and n: "n \<in> pub g" "topLevel (snodes s n) = tlev"
    and i: "1 \<le> i" "tlev \<le> maxLevel s" and path: "path_ok lt s g k 0 path"
  shows "thread_ok (skip_ok lt s g t) (relabel erase (link_from k v tlev n i path)) st"
  using assms by (simp add: link_from_def linking_def)

lemma linking_retry:
  assumes sw: "strict_weak lt" and inv: "skip_inv lt s g" and l: "linking lt s g k tlev n i path st"
  shows "skip_local lt s g t st s (find_retry s (FFix k v tlev n i) path)"
proof -
  have "path_ok lt s g k (Suc (maxLevel s)) path" using l path_okD(5) [of lt s g k 0 path] by (simp add: linking_def)
  then have "find_ok lt s g (FFix k v tlev n i) (maxLevel s) (shead s) path st"
    using l by (intro find_restart [OF sw inv]) (simp_all add: linking_def)
  then show ?thesis unfolding find_retry_def by (intro skip_stay [OF inv]) simp
qed

lemma set_retry:
  assumes sw: "strict_weak lt" and inv: "skip_inv lt s g" and w: "wait st (MapOp (SetKey k v))" "tlev \<le> maxLevel s"
    and path: "path_ok lt s g k 0 path"
  shows "skip_local lt s g t st s (find_retry s (FSet k v tlev) path)"
proof -
  have "path_ok lt s g k (Suc (maxLevel s)) path" using path_okD(5) [OF path] by simp
  then have "find_ok lt s g (FSet k v tlev) (maxLevel s) (shead s) path st"
    using w by (intro find_restart [OF sw inv]) simp_all
  then show ?thesis unfolding find_retry_def by (intro skip_stay [OF inv]) simp
qed

lemma skip_set_local:
  assumes sw: "strict_weak lt" and inv: "skip_inv lt s g" and ok: "skip_ok lt s g t q st"
    and stp: "skip_set_step s q = (s', x)"
    and q: "q = SkVal v cu \<or> q = Link0 k v tlev n path \<or> q = Link k v tlev n i path \<or> q = SkLen"
  shows "skip_local lt s g t st s' x"
  using q
proof (elim disjE)
  assume q: "q = SkVal v cu"
  with stp ok show ?thesis using skip_frame_value [OF inv, of cu st t v] by auto
next
  assume q: "q = SkLen"
  with stp ok show ?thesis using skip_frame_length [OF inv, of t "Return (MapResp Ack)" st] by auto
next
  assume q: "q = Link0 k v tlev n path"
  have C: "wait st (MapOp (SetKey k v))" "fresh_tower lt s g t k tlev n path" "path_ok lt s g k 0 path"
    using ok by (simp_all add: q)
  have tl: "tlev \<le> maxLevel s" using C(2) by (simp add: fresh_tower_def)
  obtain p cu where p: "fst path ! 0 = Some p" "slot (fst path) 0 = Some p" "snd path ! 0 = Some cu"
    "slot (snd path) 0 = Some cu" "pred_ok lt s g k 0 p" "at_lv s g 0 cu"
    using path_okD(3) [OF C(3), of 0] by auto
  then have a: "at_lv s g 0 p" by (simp add: pred_ok_def)
  show ?thesis
  proof (cases "mcas_first (cell s p 0) (slot (snd path) 0) (Some n) False False")
    case CasFails
    with stp p(2) have x: "s' = s" "x = find_retry s (FSet k v tlev) path"
      by (auto simp: q at_level_ok [OF inv a])
    show ?thesis unfolding x by (rule set_retry [OF sw inv C(1) tl C(3)])
  next
    case CasHolds
    then have "cu = n" by (auto simp: mcas_first_def p(4) split: if_splits)
    then have False
      using C(2) p(6) list_inv_unowned [OF skip_inv_list [OF inv], of cu]
      by (auto simp: fresh_tower_def fresh_def at_lv_def)
    then show ?thesis ..
  next
    case (CasTry ver)
    with stp p(2) have x: "s' = s" "x = Busy (Link0Cas k v tlev n path ver)"
      by (auto simp: q at_level_ok [OF inv a])
    show ?thesis unfolding x
      by (rule skip_stay [OF inv])
        (use C p mcas_first_Try [OF CasTry] scas_now [of s p 0] in auto)
  qed
next
  assume q: "q = Link k v tlev n i path"
  have l: "linking lt s g k tlev n i path st" using ok by (simp add: q)
  then have C: "st = Done KAck" "n \<in> pub g" "topLevel (snodes s n) = tlev" "1 \<le> i" "i \<le> tlev"
    "tlev \<le> maxLevel s" "path_ok lt s g k 0 path" by (simp_all add: linking_def)
  obtain p cu where p: "fst path ! i = Some p" "slot (fst path) i = Some p" "snd path ! i = Some cu"
    "slot (snd path) i = Some cu" "pred_ok lt s g k i p"
    using path_okD(3) [OF C(7), of i] C(5,6) by auto
  then have a: "at_lv s g i p" by (simp add: pred_ok_def)
  show ?thesis
  proof (cases "mcas_first (cell s p i) (slot (snd path) i) (Some n) False False")
    case CasFails
    with stp p(2) have x: "s' = s" "x = find_retry s (FFix k v tlev n i) path"
      by (auto simp: q at_level_ok [OF inv a])
    show ?thesis unfolding x by (rule linking_retry [OF sw inv l])
  next
    case CasHolds
    with stp p(2) have x: "s' = s" "x = link_from k v tlev n (Suc i) path"
      by (auto simp: q at_level_ok [OF inv a])
    show ?thesis unfolding x
      by (rule skip_stay [OF inv link_from_ok [OF inv C(1-3) _ C(6,7)]]) simp
  next
    case (CasTry ver)
    with stp p(2) have x: "s' = s" "x = Busy (LinkCas k v tlev n i path ver)"
      by (auto simp: q at_level_ok [OF inv a])
    show ?thesis unfolding x
      by (rule skip_stay [OF inv])
        (use l p mcas_first_Try [OF CasTry] scas_now [of s p i] in auto)
  qed
qed

lemma skip_link_cas:
  assumes sw: "strict_weak lt" and inv: "skip_inv lt s g" and ok: "skip_ok lt s g t (LinkCas k v tlev n i path ver) st"
    and stp: "skip_set_step s (LinkCas k v tlev n i path ver) = (s', x)"
  shows "skip_local lt s g t st s' x"
proof -
  have l: "linking lt s g k tlev n i path st" using ok by simp
  then have C: "st = Done KAck" "n \<in> pub g" "topLevel (snodes s n) = tlev" "1 \<le> i" "i \<le> tlev"
    "tlev \<le> maxLevel s" "path_ok lt s g k 0 path" by (simp_all add: linking_def)
  obtain p cu where p: "fst path ! i = Some p" "slot (fst path) i = Some p" "pred_ok lt s g k i p"
    using path_okD(3) [OF C(7), of i] C(5,6) by auto
  then have a: "at_lv s g i p" "scas s p i ver (snd path ! i)" using ok by (auto simp: pred_ok_def)
  show ?thesis
  proof (cases "mver (cell s p i) = ver")
    case False
    with stp p(2) have x: "s' = s" "x = find_retry s (FFix k v tlev n i) path" by (auto simp: mcas_second_eq)
    show ?thesis unfolding x by (rule linking_retry [OF sw inv l])
  next
    case True
    with stp p(2) have x: "s' = put_next s p i (Some n) False" "x = link_from k v tlev n (Suc i) path"
      by (auto simp: mcas_second_eq)
    have "skind (snodes s p) \<noteq> 1" using p(3) by (auto simp: pred_ok_def keyLess_def split: if_splits)
    moreover have "at_lv s g i n" using C by (simp add: at_lv_def)
    ultimately have P: "skip_inv lt s' g" "skip_rely lt t s g s' g" "level0 s' = level0 s"
      using put_upper [OF inv a(1) _ a(2) True _ refl, of n False t] C(4) unfolding x(1) by auto
    have "path_ok lt s' g k 0 path" using skip_relyD(7) [OF P(2) C(7)] .
    then have "thread_ok (skip_ok lt s' g t) (relabel erase x) st"
      unfolding x(2) using C by (intro link_from_ok [OF P(1)]) (simp_all add: x(1))
    then show ?thesis using P by (intro skip_quiet [OF P(1,2)]) simp_all
  qed
qed

subsection \<open>Del\<close>

lemma victim_lower:
  assumes "victim_ok lt s g k vic i path st" and "mmark (cell s vic i)"
  shows "victim_ok lt s g k vic (i - 1) path st"
proof -
  have "mmark (cell s vic j)" if "j \<le> topLevel (snodes s vic)" "i - 1 < j" for j
    using assms that by (cases "j = i") (auto simp: victim_ok_def)
  then show ?thesis using assms(1) by (auto simp: victim_ok_def)
qed

lemma victim_at: "victim_ok lt s g k vic i path st \<Longrightarrow> j \<le> i \<Longrightarrow> at_lv s g j vic"
  by (simp add: victim_ok_def matches_def at_lv_def)

lemma skip_del_local:
  assumes sw: "strict_weak lt" and inv: "skip_inv lt s g" and ok: "skip_ok lt s g t q st"
    and stp: "skip_del_step s q = (s', x)"
    and q: "q = MGet k vic i path \<or> q = MTry k vic i sc path \<or> q = ZGet k vic path \<or> q = ZTry k vic sc path"
  shows "skip_local lt s g t st s' x"
  using q
proof (elim disjE)
  assume q: "q = MGet k vic i path"
  have v: "victim_ok lt s g k vic i path st" "1 \<le> i" using ok by (simp_all add: q)
  note a = victim_at [OF v(1) le_refl]
  show ?thesis
  proof (cases "mmark (cell s vic i)")
    case True
    with stp have x: "s' = s" "x = mark_from k vic (i - 1) path" by (auto simp: q at_level_ok [OF inv a])
    show ?thesis unfolding x by (rule mark_from_ok [OF inv victim_lower [OF v(1) True]])
  next
    case False
    with stp have x: "s' = s" "x = Busy (MTry k vic i (mref (cell s vic i)) path)"
      by (auto simp: q at_level_ok [OF inv a])
    show ?thesis unfolding x by (rule skip_stay [OF inv]) (use v in simp)
  qed
next
  assume q: "q = MTry k vic i sc path"
  have v: "victim_ok lt s g k vic i path st" "1 \<le> i" using ok by (simp_all add: q)
  note a = victim_at [OF v(1) le_refl]
  consider ver where "attempt_first (cell s vic i) sc True = CasTry ver"
    | "\<forall>ver. attempt_first (cell s vic i) sc True \<noteq> CasTry ver" by blast
  then show ?thesis
  proof cases
    case (1 ver)
    with stp have x: "s' = s" "x = Busy (MCas k vic i sc path ver)" by (auto simp: q at_level_ok [OF inv a])
    have "scas s vic i ver sc" using 1 by (auto simp: attempt_first_def scas_def split: if_splits)
    then show ?thesis unfolding x by (intro skip_stay [OF inv]) (use v in simp)
  next
    case 2
    with stp have x: "s' = s" "x = Busy (MGet k vic i path)"
      by (cases "attempt_first (cell s vic i) sc True"; auto simp: q at_level_ok [OF inv a])+
    show ?thesis unfolding x by (rule skip_stay [OF inv]) (use v in simp)
  qed
next
  assume q: "q = ZGet k vic path"
  have v: "victim_ok lt s g k vic 0 path st" using ok by (simp add: q)
  from stp have x: "s' = s" "x = Busy (ZTry k vic (mref (cell s vic 0)) path)"
    by (auto simp: q at_level_ok [OF inv victim_at [OF v le_refl]])
  show ?thesis unfolding x by (rule skip_stay [OF inv]) (use v in simp)
next
  assume q: "q = ZTry k vic sc path"
  have v: "victim_ok lt s g k vic 0 path st" using ok by (simp add: q)
  then have vp: "vic \<in> pub g" "path_ok lt s g k (Suc (maxLevel s)) path" by (simp_all add: victim_ok_def matches_def)
  note a = victim_at [OF v le_refl]
  show ?thesis
  proof (cases "mcas_first (cell s vic 0) sc sc False True")
    case CasFails
    with stp have x: "s' = s" "x = Busy (ZCheck k vic False path)" by (auto simp: q at_level_ok [OF inv a])
    show ?thesis unfolding x by (rule skip_stay [OF inv]) (use v vp in simp)
  next
    case CasHolds
    then show ?thesis by (auto simp: mcas_first_def split: if_splits)
  next
    case (CasTry ver)
    with stp have x: "s' = s" "x = Busy (ZCas k vic sc path ver)" by (auto simp: q at_level_ok [OF inv a])
    show ?thesis unfolding x
      by (rule skip_stay [OF inv]) (use v mcas_first_Try [OF CasTry] scas_now [of s vic 0] in auto)
  qed
qed

lemma skip_del_rest:
  assumes sw: "strict_weak lt" and inv: "skip_inv lt s g" and ok: "skip_ok lt s g t q st"
    and stp: "skip_del_step s q = (s', x)"
    and q: "q = ZCheck k vic b path \<or> q = XLen vic \<or> q = XVal vic"
  shows "skip_local lt s g t st s' x"
  using q
proof (elim disjE)
  assume q: "q = ZCheck k vic b path"
  have C: "vic \<in> pub g" "path_ok lt s g k (Suc (maxLevel s)) path"
    "if b then st = Done (KFound True) else victim_ok lt s g k vic 0 path st" using ok by (simp_all add: q)
  have a: "at_lv s g 0 vic" using C(1) by (simp add: at_lv_def)
  consider "b" | "\<not> b" "mmark (cell s vic 0)" | "\<not> b" "\<not> mmark (cell s vic 0)" by blast
  then show ?thesis
  proof cases
    case 1
    with stp have x: "s' = s" "x = find_retry s (FHelp k vic) path" by (auto simp: q at_level_ok [OF inv a])
    have "find_ok lt s g (FHelp k vic) (maxLevel s) (shead s) path st"
      using C 1 by (intro find_restart [OF sw inv]) simp_all
    then show ?thesis unfolding x find_retry_def by (intro skip_stay [OF inv]) simp
  next
    case 2
    with stp have x: "s' = s" "x = Return (MapResp (Got None))" by (auto simp: q at_level_ok [OF inv a])
    have w: "wait st (MapOp (DelKey k))" "may st (KFound False) \<or> \<not> present lt (level0 s) g k"
      using C(3) 2 by (simp_all add: victim_ok_def)
    from w(2) show ?thesis
    proof
      assume "may st (KFound False)"
      then show ?thesis unfolding x by (intro skip_stay [OF inv]) (auto simp: may_def)
    next
      assume "\<not> present lt (level0 s) g k"
      then show ?thesis unfolding x
        by (intro skip_observe [OF inv w(1), of "KFound False"] keys_spec_same(2) [OF sw]) auto
    qed
  next
    case 3
    with stp have x: "s' = s" "x = Busy (ZTry k vic (mref (cell s vic 0)) path)"
      by (auto simp: q at_level_ok [OF inv a])
    show ?thesis unfolding x by (rule skip_stay [OF inv]) (use C 3 in simp)
  qed
next
  assume q: "q = XLen vic"
  with stp ok show ?thesis using skip_frame_length [OF inv, of t "Busy (XVal vic)" st] by auto
next
  assume q: "q = XVal vic"
  with stp have x: "s' = s" "x = Return (MapResp (Got (Some (sval (snodes s vic)))))" by auto
  show ?thesis unfolding x by (rule skip_stay [OF inv]) (use ok q in simp)
qed

lemma skip_mark_cas:
  assumes sw: "strict_weak lt" and inv: "skip_inv lt s g" and ok: "skip_ok lt s g t (MCas k vic i sc path ver) st"
    and stp: "skip_del_step s (MCas k vic i sc path ver) = (s', x)"
  shows "skip_local lt s g t st s' x"
proof (cases "mver (cell s vic i) = ver")
  case False
  with stp have x: "s' = s" "x = Busy (MGet k vic i path)" by (auto simp: mcas_second_eq)
  show ?thesis unfolding x by (rule skip_stay [OF inv]) (use ok in simp)
next
  case True
  have C: "victim_ok lt s g k vic i path st" "1 \<le> i" "scas s vic i ver sc" using ok by simp_all
  note a = victim_at [OF C(1) le_refl]
  from True stp have x: "s' = put_next s vic i sc True" "x = Busy (MGet k vic i path)"
    by (auto simp: mcas_second_eq)
  have k: "skind (snodes s vic) \<noteq> 1"
    using C(1) by (auto simp: victim_ok_def matches_def keyEqual_def split: if_splits)
  then obtain d where d: "sc = Some d" "at_lv s g i d"
    using skip_inv_next [OF inv a] C(3) True by (auto simp: scas_def)
  have P: "skip_inv lt s' g" "skip_rely lt t s g s' g" "level0 s' = level0 s"
    using put_upper [OF inv a _ C(3) True k d, of True t] C(2) unfolding x(1) by auto
  have "gains lt (level0 s) g (level0 s') g st st" using P(3) by (intro gains_refl) simp
  then have "victim_ok lt s' g k vic i path st" by (rule victim_stable [OF P(2) _ C(1)])
  then show ?thesis using P C(2) by (intro skip_quiet [OF P(1,2)]) (simp_all add: x(2))
qed

lemma skip_mark0_cas:
  assumes sw: "strict_weak lt" and inv: "skip_inv lt s g" and ok: "skip_ok lt s g t (ZCas k vic sc path ver) st"
    and stp: "skip_del_step s (ZCas k vic sc path ver) = (s', x)"
  shows "skip_local lt s g t st s' x"
proof -
  have C: "victim_ok lt s g k vic 0 path st" "scas s vic 0 ver sc" using ok by simp_all
  have v: "wait st (MapOp (DelKey k))" "matches lt (level0 s) g k vic" "vic \<in> pub g"
    "\<And>j. j \<le> topLevel (snodes s vic) \<Longrightarrow> 0 < j \<Longrightarrow> mmark (cell s vic j)"
    "path_ok lt s g k (Suc (maxLevel s)) path"
    using C(1) by (auto simp: victim_ok_def matches_def)
  show ?thesis
  proof (cases "mver (cell s vic 0) = ver")
    case False
    with stp have x: "s' = s" "x = Busy (ZCheck k vic False path)" by (auto simp: mcas_second_eq)
    show ?thesis unfolding x by (rule skip_stay [OF inv]) (use C v in simp)
  next
    case True
    with stp have x: "s' = put_next s vic 0 sc True" "x = Busy (ZCheck k vic True path)"
      by (auto simp: mcas_second_eq)
    have M: "skip_inv lt s' g" "skip_rely lt t s g s' g"
      "present lt (level0 s') g = (\<lambda>x. present lt (level0 s) g x \<and> \<not> same_key lt x k)"
      "present lt (level0 s) g k"
      using skip_mark0 [OF sw inv v(2,4) C(2) True, of t] unfolding x(1) by blast+
    obtain R where st: "st = Wait (MapOp (DelKey k)) R" using v(1) by (auto simp: wait_def)
    have "keys_spec lt (present lt (level0 s) g) (MapOp (DelKey k)) = (present lt (level0 s') g, KFound True)"
      by (simp add: M(3,4))
    then have "own_move (keys_spec lt) (present lt (level0 s) g) st (present lt (level0 s') g) (Done (KFound True))"
      unfolding st by (rule own_move.effect)
    moreover have "path_ok lt s' g k (Suc (maxLevel s')) path"
      using skip_relyD(7) [OF M(2) v(5)] skip_relyD(2) [OF M(2)] by simp
    then have "thread_ok (skip_ok lt s' g t) (relabel erase x) (Done (KFound True))"
      using v(3) by (simp add: x(2))
    moreover have "\<forall>j. present lt (level0 s') g j \<longrightarrow> present lt (level0 s) g j" by (simp add: M(3))
    ultimately show ?thesis using M unfolding skip_local_def by blast
  qed
qed

subsection \<open>Get\<close>

lemma skip_get_local:
  assumes sw: "strict_weak lt" and inv: "skip_inv lt s g" and ok: "skip_ok lt s g t q st"
    and stp: "skip_get_step lt s q = (s', x)"
    and q: "q = NHead k i p \<or> q = NGet k i p cu \<or> q = NVal cu"
  shows "skip_local lt s g t st s' x"
  using q
proof (elim disjE)
  assume q: "q = NHead k i p"
  have C: "wait st (MapOp (GetKey k))" "pred_ok lt s g k i p" "evid lt (level0 s) g k st p"
    using ok by (simp_all add: q)
  then have p: "at_lv s g i p" "keyLess lt (lnodes (level0 s) p) k" by (simp_all add: pred_ok_def)
  obtain d where d: "mref (cell s p i) = Some d" "at_lv s g i d" using skip_next [OF inv p(1)] p(2) by blast
  with stp have x: "s' = s" "x = Busy (NGet k i p d)" by (auto simp: q at_level_ok [OF inv p(1)] deref_def)
  have "evid lt (level0 s) g k st d" if "i = 0"
    using evid_next [OF _ _ C(3), of d] p(2) d(1) that by simp
  then show ?thesis unfolding x by (intro skip_stay [OF inv]) (use C d in simp)
next
  assume q: "q = NGet k i p cu"
  have C: "wait st (MapOp (GetKey k))" "pred_ok lt s g k i p" "evid lt (level0 s) g k st p" "at_lv s g i cu"
    "i = 0 \<Longrightarrow> evid lt (level0 s) g k st cu" using ok by (simp_all add: q)
  let ?less = "keyLess lt (lnodes (level0 s) cu) k" and ?eq = "keyEqual lt (lnodes (level0 s) cu) k"
  note at = at_level_ok [OF inv C(4)]
  have at0: "i = 0 \<Longrightarrow> at_level s cu 0 f = f (cell s cu 0)" for f using at by simp
  have cp: "cu \<in> pub g" using C(4) by (simp add: at_lv_def)
  consider "mmark (cell s cu i)" | "\<not> mmark (cell s cu i)" "?less" | "\<not> mmark (cell s cu i)" "\<not> ?less" "0 < i"
    | "\<not> mmark (cell s cu i)" "\<not> ?less" "i = 0" "?eq" | "\<not> mmark (cell s cu i)" "\<not> ?less" "i = 0" "\<not> ?eq"
    by blast
  then show ?thesis
  proof cases
    case 1
    obtain d where d: "mref (cell s cu i) = Some d" "at_lv s g i d" using skip_next [OF inv C(4)] 1 by blast
    with 1 stp have x: "s' = s" "x = Busy (NGet k i p d)" by (auto simp: q at deref_def)
    have "evid lt (level0 s) g k st d" if "i = 0" using evid_next [OF _ _ C(5), of d] 1 d(1) that by simp
    then show ?thesis unfolding x by (intro skip_stay [OF inv]) (use C d in simp)
  next
    case 2
    obtain d where d: "mref (cell s cu i) = Some d" "at_lv s g i d" using skip_next [OF inv C(4)] 2(2) by blast
    with 2 stp have x: "s' = s" "x = Busy (NGet k i cu d)" by (auto simp: q at deref_def)
    have ev: "evid lt (level0 s) g k st cu" by (rule evid_unmarked [OF sw inv C(4) 2])
    have "evid lt (level0 s) g k st d" if "i = 0" using evid_next [OF _ _ ev, of d] 2(2) d(1) that by simp
    then show ?thesis unfolding x
      by (intro skip_stay [OF inv]) (use C(1,4) 2(2) ev d in \<open>simp add: pred_ok_def\<close>)
  next
    case 3
    with stp have x: "s' = s" "x = Busy (NHead k (i - 1) p)" by (auto simp: q at)
    show ?thesis unfolding x
      by (rule skip_stay [OF inv]) (use C pred_lower [OF C(2), of "i - 1"] in simp)
  next
    case 4
    with stp have x: "s' = s" "x = Busy (NVal cu)" by (auto simp: q at0)
    have "present lt (level0 s) g k" using 4 cp by (auto simp: present_def)
    then show ?thesis unfolding x
      by (intro skip_observe [OF inv C(1), of "KFound True"]) (auto simp: may_def)
  next
    case 5
    with stp have x: "s' = s" "x = Return (MapResp (Got None))" by (auto simp: q at0)
    have "miss lt (lnodes (level0 s)) k cu" using 5 by (intro miss_here) (simp_all add: above_def)
    then consider "may st (KFound False)" | "\<not> present lt (level0 s) g k"
      using C(5) [OF 5(3)] by (auto simp: evid_def)
    then show ?thesis
    proof cases
      case 1
      then show ?thesis unfolding x by (intro skip_stay [OF inv]) (auto simp: may_def)
    next
      case 2
      then show ?thesis unfolding x by (intro skip_observe [OF inv C(1), of "KFound False"]) auto
    qed
  qed
next
  assume q: "q = NVal cu"
  with stp have x: "s' = s" "x = Return (MapResp (Got (Some (sval (snodes s cu)))))" by auto
  show ?thesis unfolding x by (rule skip_stay [OF inv]) (use ok q in \<open>auto simp: may_def\<close>)
qed

subsection \<open>Range\<close>

lemma visit_at_ok:
  assumes "wait st (RangeOp lo hi)" and "cu \<in> pub g" and "visited_ok lt lo hi acc"
    and "skind (snodes s cu) = 0 \<Longrightarrow> (\<forall>a \<in> set acc. lt (fst a) (skey (snodes s cu))) \<and>
      \<not> lt (skey (snodes s cu)) lo"
    and "skip_inv lt s g"
  shows "skip_local lt s g t st s (visit_at s lo hi acc cu)"
proof (cases "skind (snodes s cu) = 0")
  case True
  with assms show ?thesis by (intro skip_stay) (auto simp: visit_at_def range_ok_def)
next
  case False
  then show ?thesis by (intro skip_observe [OF assms(5,1)]) (auto simp: visit_at_def)
qed

lemma skip_down_local:
  assumes sw: "strict_weak lt" and inv: "skip_inv lt s g" and ok: "skip_ok lt s g t q st"
    and stp: "skip_range_step lt s q = (s', x)"
    and q: "q = VHead lo hi i p \<or> q = VDown lo hi i p cu"
  shows "skip_local lt s g t st s' x"
  using q
proof (elim disjE)
  assume q: "q = VHead lo hi i p"
  have C: "wait st (RangeOp lo hi)" "pred_ok lt s g lo i p" using ok by (simp_all add: q)
  then have p: "at_lv s g i p" "keyLess lt (lnodes (level0 s) p) lo" by (simp_all add: pred_ok_def)
  obtain d where d: "mref (cell s p i) = Some d" "at_lv s g i d" using skip_next [OF inv p(1)] p(2) by blast
  with stp have x: "s' = s" "x = Busy (VDown lo hi i p d)" by (auto simp: q at_level_ok [OF inv p(1)] deref_def)
  show ?thesis unfolding x by (rule skip_stay [OF inv]) (use C d in simp)
next
  assume q: "q = VDown lo hi i p cu"
  have C: "wait st (RangeOp lo hi)" "pred_ok lt s g lo i p" "at_lv s g i cu" using ok by (simp_all add: q)
  let ?less = "keyLess lt (lnodes (level0 s) cu) lo"
  note at = at_level_ok [OF inv C(3)]
  have at0: "i = 0 \<Longrightarrow> at_level s cu 0 f = f (cell s cu 0)" for f using at by simp
  consider "mmark (cell s cu i)" | "\<not> mmark (cell s cu i)" "?less" | "\<not> mmark (cell s cu i)" "\<not> ?less" "0 < i"
    | "\<not> mmark (cell s cu i)" "\<not> ?less" "i = 0" by blast
  then show ?thesis
  proof cases
    case 1
    obtain d where d: "mref (cell s cu i) = Some d" "at_lv s g i d" using skip_next [OF inv C(3)] 1 by blast
    with 1 stp have x: "s' = s" "x = Busy (VDown lo hi i p d)" by (auto simp: q at deref_def)
    show ?thesis unfolding x by (rule skip_stay [OF inv]) (use C d in simp)
  next
    case 2
    obtain d where d: "mref (cell s cu i) = Some d" "at_lv s g i d" using skip_next [OF inv C(3)] 2(2) by blast
    with 2 stp have x: "s' = s" "x = Busy (VDown lo hi i cu d)" by (auto simp: q at deref_def)
    show ?thesis unfolding x by (rule skip_stay [OF inv]) (use C 2(2) d in \<open>simp add: pred_ok_def\<close>)
  next
    case 3
    with stp have x: "s' = s" "x = Busy (VHead lo hi (i - 1) p)" by (auto simp: q at)
    show ?thesis unfolding x by (rule skip_stay [OF inv]) (use C pred_lower [OF C(2), of "i - 1"] in simp)
  next
    case 4
    with stp have x: "s' = s" "x = visit_at s lo hi [] cu" by (auto simp: q at0)
    show ?thesis unfolding x
      by (rule visit_at_ok [OF C(1) _ _ _ inv])
        (use C(3) 4(2) in \<open>auto simp: at_lv_def visited_ok_def keyLess_def\<close>)
  qed
qed

lemma skip_range_local:
  assumes sw: "strict_weak lt" and inv: "skip_inv lt s g" and ok: "skip_ok lt s g t q st"
    and stp: "skip_range_step lt s q = (s', x)"
    and q: "q = VGet lo hi acc cu \<or> q = VVal lo hi acc cu sc"
  shows "skip_local lt s g t st s' x"
proof -
  note li = skip_inv_list [OF inv]
  have R: "wait st (RangeOp lo hi)" "range_ok lt (level0 s) g lo hi acc cu" using ok q by auto
  then have C: "cu \<in> pub g" "skind (snodes s cu) = 0" "visited_ok lt lo hi acc"
    "\<forall>a \<in> set acc. lt (fst a) (skey (snodes s cu))" "\<not> lt (skey (snodes s cu)) lo"
    by (simp_all add: range_ok_def)
  have go: "lt (skey (snodes s cu)) (skey (snodes s d)) \<and> \<not> lt (skey (snodes s d)) lo \<and>
      (\<forall>a \<in> set acc. lt (fst a) (skey (snodes s d)))"
    if "below lt (lnodes (level0 s) cu) (lnodes (level0 s) d)" "skind (snodes s d) = 0" for d
  proof -
    have "lt (skey (snodes s cu)) (skey (snodes s d))" using below_key [OF that(1)] C(2) that(2) by simp
    then show ?thesis using strict_weak_trans [OF sw] C(4,5) by blast
  qed
  have a: "at_lv s g 0 cu" using C(1) by (simp add: at_lv_def)
  show ?thesis
    using q
  proof (elim disjE)
    assume q: "q = VGet lo hi acc cu"
    obtain d where d: "d \<in> pub g" "mref (cell s cu 0) = Some d" "below lt (lnodes (level0 s) cu) (lnodes (level0 s) d)"
      using next_pub [OF li C(1)] C(2) by auto
    consider "mmark (cell s cu 0)" | "\<not> mmark (cell s cu 0)" "\<not> lt (skey (snodes s cu)) hi"
      | "\<not> mmark (cell s cu 0)" "lt (skey (snodes s cu)) hi" by blast
    then show ?thesis
    proof cases
      case 1
      with stp d(2) have x: "s' = s" "x = visit_at s lo hi acc d"
        by (auto simp: q at_level_ok [OF inv a] deref_def)
      show ?thesis unfolding x by (rule visit_at_ok [OF R(1) d(1) C(3) _ inv]) (use go [OF d(3)] in blast)
    next
      case 2
      with stp have x: "s' = s" "x = Return (Visited acc)" by (auto simp: q at_level_ok [OF inv a])
      show ?thesis unfolding x by (rule skip_observe [OF inv R(1)]) auto
    next
      case 3
      with stp have x: "s' = s" "x = Busy (VVal lo hi acc cu (mref (cell s cu 0)))"
        by (auto simp: q at_level_ok [OF inv a])
      show ?thesis unfolding x
        by (rule skip_stay [OF inv]) (use R d 3 in \<open>auto simp: onward_def\<close>)
    qed
  next
    assume q: "q = VVal lo hi acc cu sc"
    have hi: "lt (skey (snodes s cu)) hi" using ok by (simp add: q)
    obtain d where d: "d \<in> pub g" "sc = Some d" "below lt (lnodes (level0 s) cu) (lnodes (level0 s) d)"
      using ok by (auto simp: q onward_def)
    let ?acc = "acc @ [(skey (snodes s cu), sval (snodes s cu))]"
    from stp have x: "s' = s" "x = visit_at s lo hi ?acc d" by (auto simp: q d(2) deref_def)
    have v: "visited_ok lt lo hi ?acc" by (rule visited_snoc) (use C hi in auto)
    show ?thesis unfolding x
      by (rule visit_at_ok [OF R(1) d(1) v _ inv]) (use go [OF d(3)] in auto)
  qed
qed

end
