(* ===== verification/Skip_List_Facts.thy ===== *)
theory Skip_List_Facts
  imports Skip_List_Ops
begin

text \<open>
  The simulation of the whole machine, and the properties of \<open>lf/skiplist.go\<close> and
  \<open>lf/orderedmap.go\<close>.
\<close>

definition skip_rel :: "('k \<Rightarrow> 'k \<Rightarrow> bool) \<Rightarrow> ('k, 'v) skip_state \<Rightarrow>
    (tid \<Rightarrow> (('k, 'v) skip_pc, keys_resp) thread) \<Rightarrow> ('k \<Rightarrow> bool) \<Rightarrow> (tid \<Rightarrow> ('k, 'v) lstatus) \<Rightarrow> bool"
where
  "skip_rel lt s th K st \<longleftrightarrow> finite {u. st u \<noteq> Quiet} \<and>
     (\<exists>g. skip_inv lt s g \<and> present lt (level0 s) g = K \<and> all_ok (skip_ok lt s g) th st)"

lemma skip_local_step:
  assumes sw: "strict_weak lt" and inv: "skip_inv lt s g" and ok: "skip_ok lt s g t p st"
    and stp: "skip_step lt s t p = (s', x)" and p: "\<forall>k v tlev n path ver. p \<noteq> Link0Cas k v tlev n path ver"
  shows "skip_local lt s g t st s' x"
proof (cases p)
  case (LinkCas k v tlev n i path ver)
  with stp ok show ?thesis using skip_link_cas [OF sw inv, of t k v tlev n i path ver st s' x] by simp
next
  case (MCas k vic i sc path ver)
  with stp ok show ?thesis using skip_mark_cas [OF sw inv, of t k vic i sc path ver st s' x] by simp
next
  case (ZCas k vic sc path ver)
  with stp ok show ?thesis using skip_mark0_cas [OF sw inv, of t k vic sc path ver st s' x] by simp
qed (use stp p skip_find_local [OF sw inv ok] skip_set_local [OF sw inv ok] skip_del_local [OF sw inv ok]
    skip_del_rest [OF sw inv ok] skip_get_local [OF sw inv ok] skip_down_local [OF sw inv ok]
    skip_range_local [OF sw inv ok] in \<open>auto simp del: skip_find_step.simps
      skip_set_step.simps skip_del_step.simps skip_get_step.simps skip_range_step.simps\<close>)

lemma skip_insert_local:
  assumes sw: "strict_weak lt" and inv: "skip_inv lt s g" and all: "all_ok (skip_ok lt s g) th st"
    and fin: "finite {u. st u \<noteq> Quiet}" and th: "th t = Busy (Link0Cas k v tlev n path ver)"
    and p: "slot (fst path) 0 = Some p" and ver: "mver (cell s p 0) = ver"
  shows "\<exists>E K' st'. visible E = [] \<and> lin_run (keys_spec lt) (present lt (level0 s) g, st) E = Some (K', st') \<and>
    skip_rel lt (put_next s p 0 (Some n) False) (th(t := relabel erase (link_from k v tlev n 1 path))) K' st'"
proof -
  let ?s = "put_next s p 0 (Some n) False"
  have C: "wait (st t) (MapOp (SetKey k v))" "fresh_tower lt s g t k tlev n path" "path_ok lt s g k 0 path"
    "\<exists>q. fst path ! 0 = Some q \<and> scas s q 0 ver (snd path ! 0)"
    using all_okD [OF all, of t] by (simp_all add: th)
  have fp: "fst path ! 0 = Some p" "pred_ok lt s g k 0 p" using path_okD(3) [OF C(3), of 0] p by auto
  obtain g' where g': "skip_inv lt ?s g'" "skip_rely lt t s g ?s g'"
    "present lt (level0 ?s) g' = (\<lambda>x. same_key lt x k \<or> present lt (level0 s) g x)"
    "\<not> present lt (level0 s) g k" "n \<in> pub g'"
    using skip_insert0 [OF sw inv fp(2) C(2) _ ver] C(4) fp(1) by auto
  from insert_effect [of lt "level0 s" g k "level0 ?s" g' st t v, OF sw g'(4,3) C(1) fin] obtain E st' where
    E: "visible E = []" "lin_run (keys_spec lt) (present lt (level0 s) g, st) E = Some (present lt (level0 ?s) g', st')"
    "st' t = Done KAck" "\<And>u. u \<noteq> t \<Longrightarrow> gains lt (level0 s) g (level0 ?s) g' (st u) (st' u)" by blast
  have tl: "topLevel (snodes ?s n) = tlev" "tlev \<le> maxLevel ?s" using C(2) by (simp_all add: fresh_tower_def)
  have "thread_ok (skip_ok lt ?s g' t) (relabel erase (link_from k v tlev n 1 path)) (st' t)"
    by (rule link_from_ok [OF g'(1) E(3) g'(5) tl(1) le_refl tl(2) skip_relyD(7) [OF g'(2) C(3)]])
  then have "all_ok (skip_ok lt ?s g') (th(t := (relabel erase (link_from k v tlev n 1 path)))) st'"
    unfolding all_ok_def
    using key_gains_thread [OF E(4) [unfolded gains_keys] all_okD [OF all]] skip_stable [OF g'(2) E(4)] by simp
  then have "skip_rel lt ?s (th(t := (relabel erase (link_from k v tlev n 1 path)))) (present lt (level0 ?s) g') st'"
    using g'(1) lin_run_finite [OF E(2) fin] unfolding skip_rel_def by blast
  with E(1,2) show ?thesis by blast
qed

lemma skip_rel_stp:
  assumes sw: "strict_weak lt" and rel: "skip_rel lt s th K st" and th: "th t = Busy p"
    and stp: "skip_step lt s t p = (s', x)"
  shows "\<exists>E K' st'. visible E = [] \<and> lin_run (keys_spec lt) (K, st) E = Some (K', st') \<and>
    skip_rel lt s' (th(t := relabel erase x)) K' st'"
proof -
  from rel obtain g where fin: "finite {u. st u \<noteq> Quiet}" and g: "skip_inv lt s g"
    "present lt (level0 s) g = K" "all_ok (skip_ok lt s g) th st" unfolding skip_rel_def by blast
  have ok: "skip_ok lt s g t p (st t)" using all_okD [OF g(3), of t] th by simp
  have fin_step: ?thesis if "skip_local lt s g t (st t) s' x"
  proof -
    from that obtain g' c where L: "own_move (keys_spec lt) K (st t) (present lt (level0 s') g') c"
      "skip_inv lt s' g'" "thread_ok (skip_ok lt s' g' t) (relabel erase x) c"
      "skip_rely lt t s g s' g'" "\<And>k. present lt (level0 s') g' k \<Longrightarrow> present lt (level0 s) g k"
      unfolding skip_local_def g(2) by blast
    obtain E where E: "visible E = []"
      "lin_run (keys_spec lt) (K, st) E = Some (present lt (level0 s') g', st(t := c))"
      using own_move_run [where st = st and t = t, OF L(1)] by blast
    have "all_ok (skip_ok lt s' g') (th(t := relabel erase x)) (st(t := c))"
      using g(3) L(3) by (rule all_ok_upd) (rule skip_stable [OF L(4) gains_refl [OF L(5)]])
    then have "skip_rel lt s' (th(t := relabel erase x)) (present lt (level0 s') g') (st(t := c))"
      using L(2) finite_active_upd [OF fin] unfolding skip_rel_def by blast
    with E show ?thesis by blast
  qed
  show ?thesis
  proof (cases "\<exists>k v tlev n path ver. p = Link0Cas k v tlev n path ver")
    case False
    then show ?thesis using skip_local_step [OF sw g(1) ok stp] fin_step by blast
  next
    case True
    then obtain k v tlev n path ver where p: "p = Link0Cas k v tlev n path ver" by blast
    have C: "wait (st t) (MapOp (SetKey k v))" "fresh_tower lt s g t k tlev n path" "path_ok lt s g k 0 path"
      using ok by (simp_all add: p)
    obtain q where q: "slot (fst path) 0 = Some q" using path_okD(3) [OF C(3), of 0] by auto
    show ?thesis
    proof (cases "mver (cell s q 0) = ver")
      case True
      with stp q have x: "s' = put_next s q 0 (Some n) False" "x = link_from k v tlev n 1 path"
        by (auto simp: p mcas_second_eq)
      from skip_insert_local [OF sw g(1,3) fin th [unfolded p] q True] show ?thesis
        unfolding x g(2) by blast
    next
      case False
      with stp q have x: "s' = s" "x = find_retry s (FSet k v tlev) path" by (auto simp: p mcas_second_eq)
      have "tlev \<le> maxLevel s" using C(2) by (simp add: fresh_tower_def)
      from set_retry [OF sw g(1) C(1) this C(3)] show ?thesis using fin_step x by blast
    qed
  qed
qed

lemma skip_init:
  "skip_inv lt NewSkipList \<lparr>phys = [1, 0], pub = {0, 1}, lown = (\<lambda>_. None)\<rparr> \<and>
     present lt (level0 NewSkipList) \<lparr>phys = [1, 0], pub = {0, 1}, lown = (\<lambda>_. None)\<rparr> = (\<lambda>_. False)"
  by (auto simp: skip_inv_def list_inv_def NewSkipList_def node_inv_def below_def present_def keyEqual_def
      tower_def newMarkableRef_def nth_append simp del: upt_Suc)

lemma skip_beg_ok:
  assumes sw: "strict_weak lt" and inv: "skip_inv lt s g" and b: "skip_beg coins s t oper = (s', p)"
  shows "skip_inv lt s' g \<and> level0 s' = level0 s \<and> skip_rely lt t s g s' g \<and> skip_ok lt s' g t p (Wait oper {})"
proof -
  have path: "path_ok lt s g k (Suc (maxLevel s)) (new_path s)" for k by (simp add: path_ok_def new_path_def)
  have start: "find_ok lt s g c (maxLevel s) (shead s) (new_path s) (Wait oper {})"
    if "call_ok s g c (Wait oper {})" for c
    by (rule find_restart [OF sw inv that path])
  have draw: "skip_inv lt (s\<lparr>sdraws := d\<rparr>) g \<and> level0 (s\<lparr>sdraws := d\<rparr>) = level0 s \<and>
      skip_rely lt t s g (s\<lparr>sdraws := d\<rparr>) g" for d
    using inv by (simp add: skip_inv_def tower_def skip_rely_def list_rely_refl level0_def)
  have w: "wait (Wait oper {}) oper" by (simp add: wait_def)
  show ?thesis
  proof (cases oper)
    case (MapOp m)
    show ?thesis
    proof (cases m)
      case (SetKey k v)
      obtain tlev d where r: "randomLevel (maxLevel s) coins (sdraws s) = (tlev, d)" by fastforce
      have tl: "tlev \<le> maxLevel s" using randomLevel_bound [of "maxLevel s" coins "sdraws s"] by (simp add: r)
      from b r have x: "s' = s\<lparr>sdraws := d\<rparr>" "p = FHead (FSet k v tlev) (maxLevel s) (shead s) (new_path s)"
        by (simp_all add: MapOp SetKey)
      have "find_ok lt s g (FSet k v tlev) (maxLevel s) (shead s) (new_path s) (Wait oper {})"
        using w tl by (intro start) (simp add: MapOp SetKey)
      moreover have "gains lt (level0 s) g (level0 (s\<lparr>sdraws := d\<rparr>)) g (Wait oper {}) (Wait oper {})"
        using draw by (intro gains_refl) simp
      ultimately have "find_ok lt (s\<lparr>sdraws := d\<rparr>) g (FSet k v tlev) (maxLevel s) (shead s) (new_path s) (Wait oper {})"
        using find_stable(3) draw by blast
      then show ?thesis unfolding x using draw by simp
    next
      case (DelKey k)
      with b have x: "s' = s" "p = FHead (FDel k) (maxLevel s) (shead s) (new_path s)" by (auto simp: MapOp)
      show ?thesis unfolding x using start [of "FDel k"] w inv by (simp add: MapOp DelKey skip_rely_refl)
    next
      case (GetKey k)
      with b have x: "s' = s" "p = NHead k (maxLevel s) (shead s)" by (auto simp: MapOp)
      show ?thesis unfolding x
        using head_pred [OF inv le_refl, of k] evid_shead [OF sw inv, of k] w inv
        by (simp add: MapOp GetKey skip_rely_refl)
    qed
  next
    case (RangeOp lo hi)
    with b have x: "s' = s" "p = VHead lo hi (maxLevel s) (shead s)" by auto
    show ?thesis unfolding x
      using head_pred [OF inv le_refl, of lo] w inv by (simp add: RangeOp skip_rely_refl)
  qed
qed

lemma skip_sim:
  assumes sw: "strict_weak lt"
  shows "sim_machine (forget erase (skip_machine lt coins)) (keys_spec lt) (\<lambda>_. False) (skip_rel lt)"
proof
  show "skip_rel lt (sh0 (forget erase (skip_machine lt coins))) (\<lambda>_. Idle) (\<lambda>_. False) (\<lambda>_. Quiet)"
    using skip_init [of lt] unfolding skip_rel_def by (auto simp: forget_def all_ok_def)
next
  fix s th K st and t :: tid
  assume "skip_rel lt s th K st"
  then show "th t = Idle \<Longrightarrow> st t = Quiet" and "th t \<noteq> Panic"
    unfolding skip_rel_def by (auto dest: all_okD [where u = t])
next
  fix s th K st t oper s' p
  assume rel: "skip_rel lt s th K st" and t: "th t = Idle"
    and b: "beg (forget erase (skip_machine lt coins)) s t oper = (s', p)"
  from rel obtain g where g: "finite {u. st u \<noteq> Quiet}" "skip_inv lt s g"
    "present lt (level0 s) g = K" "all_ok (skip_ok lt s g) th st" unfolding skip_rel_def by blast
  have p: "skip_inv lt s' g" "level0 s' = level0 s" "skip_rely lt t s g s' g" "skip_ok lt s' g t p (Wait oper {})"
    using skip_beg_ok [OF sw g(2), of coins t oper s' p] b by (auto simp: forget_def)
  have "all_ok (skip_ok lt s' g) (th(t := Busy p)) (st(t := Wait oper {}))"
    using g(4) by (rule all_ok_upd) (use p skip_stable [OF p(3) gains_refl] in auto)
  then show "skip_rel lt s' (th(t := Busy p)) K (st(t := Wait oper {}))"
    using g(3) p(1,2) finite_active_upd [OF g(1)] unfolding skip_rel_def by auto
next
  fix s th K st t p s' x
  assume rel: "skip_rel lt s th K st" and t: "th t = Busy p"
    and b: "stp (forget erase (skip_machine lt coins)) s t p = (s', x)"
  obtain y where y: "skip_step lt s t p = (s', y)" "x = relabel erase y"
    using b by (auto simp: forget_def split: prod.splits)
  show "\<exists>E K' st'. visible E = [] \<and> lin_run (keys_spec lt) (K, st) E = Some (K', st') \<and>
      skip_rel lt s' (th(t := x)) K' st'"
    unfolding y(2) by (rule skip_rel_stp [OF sw rel t y(1)])
next
  fix s th K st t r
  assume rel: "skip_rel lt s th K st" and r: "th t = Return r"
  from rel obtain g where g: "finite {u. st u \<noteq> Quiet}" "skip_inv lt s g"
    "present lt (level0 s) g = K" "all_ok (skip_ok lt s g) th st" unfolding skip_rel_def by blast
  have "all_ok (skip_ok lt s g) (th(t := Idle)) (st(t := Quiet))"
    using g(4) by (rule all_ok_upd) auto
  then have "skip_rel lt s (th(t := Idle)) K (st(t := Quiet))"
    using g(2,3) finite_active_upd [OF g(1)] unfolding skip_rel_def by blast
  moreover have "thread_ok (skip_ok lt s g t) (Return r) (st t)"
    using all_okD [OF g(4), of t] r by simp
  ultimately show "(st t = Done r \<or> (\<exists>op R. st t = Wait op R \<and> r \<in> R)) \<and>
      skip_rel lt s (th(t := Idle)) K (st(t := Quiet))" by auto
qed

subsection \<open>The ordered map\<close>

text \<open>The wrapper runs exactly as the skip list inside it.\<close>

lemma ordered_map_step:
  "sys_step (ordered_map_machine lt coins) (\<lparr>sl = s\<rparr>, th) a =
     (case sys_step (skip_machine lt coins) (s, th) a of (s', th') \<Rightarrow> (\<lparr>sl = s'\<rparr>, th'))"
proof (cases a)
  case (Start t oper)
  then show ?thesis
    by (cases "th t") (simp_all add: ordered_map_machine_def split: prod.splits)
next
  case (Step t)
  then show ?thesis
    by (cases "th t") (simp_all add: ordered_map_machine_def split: prod.splits)
qed

lemma ordered_map_run:
  "run (ordered_map_machine lt coins) acts =
     (\<lparr>sl = fst (run (skip_machine lt coins) acts)\<rparr>, snd (run (skip_machine lt coins) acts))"
proof (induction acts rule: rev_induct)
  case Nil
  show ?case by (simp add: start_sys_def ordered_map_machine_def NewOrderedMap_def)
next
  case (snoc a acts)
  then show ?case
    using ordered_map_step [of lt coins "fst (run (skip_machine lt coins) acts)"]
    by (simp add: case_prod_beta)
qed

lemma ordered_map_events:
  "sys_events (ordered_map_machine lt coins) (m, th) a = sys_events (skip_machine lt coins) (sl m, th) a"
  by (cases a) (auto simp: ordered_map_machine_def split: thread.splits)

lemma ordered_map_history: "history (ordered_map_machine lt coins) acts = history (skip_machine lt coins) acts"
proof (induction acts rule: rev_induct)
  case (snoc a acts)
  then show ?case
    by (simp add: ordered_map_run ordered_map_events)
qed simp

subsection \<open>Properties\<close>

text \<open>
  C10: For every strict weak order, every outcome of the random levels and every schedule of any
  number of goroutines calling \<open>Set\<close>, \<open>Get\<close>, \<open>Del\<close> and \<open>Range\<close>, the skip list and the ordered map
  around it are linearizable as a set of keys: \<open>Set\<close> makes its key present at the moment its node is
  linked at the bottom level, \<open>Del\<close> removes it at the moment the bottom reference is marked, and
  every answer of \<open>Get\<close> and \<open>Del\<close> was true at some moment inside the call. (What \<open>Range\<close> visits is not part of this
  statement.) The upper levels, with
  their stale references and their nodes linked after deletion, never change an answer. No schedule
  panics: no \<open>nil\<close> is dereferenced, no slice of levels, predecessors or successors is indexed out of
  range.
\<close>

theorem skip_list_linearizable:
  assumes "strict_weak lt"
  shows "linearizable (keys_spec lt) (\<lambda>_. False) (map (relabel_event erase) (history (skip_machine lt coins) acts)) \<and>
    history (ordered_map_machine lt coins) acts = history (skip_machine lt coins) acts \<and>
    snd (run (skip_machine lt coins) acts) t \<noteq> Panic \<and> snd (run (ordered_map_machine lt coins) acts) t \<noteq> Panic"
  using sim_correct [OF skip_sim [OF assms], of coins acts t] by (simp add: ordered_map_history ordered_map_run)

theorem skip_list_linearizable_witness:
  "let acts = [Start 0 (MapOp (SetKey (3 :: int) True)), Step 0, Start 1 (MapOp (DelKey 3))] in
   linearizable (keys_spec (<)) (\<lambda>_. False) (map (relabel_event erase) (history (skip_machine (<) of_nat) acts)) \<and>
   history (ordered_map_machine (<) of_nat) acts = history (skip_machine (<) of_nat) acts \<and>
   snd (run (skip_machine (<) of_nat) acts) 0 \<noteq> Panic \<and> snd (run (ordered_map_machine (<) of_nat) acts) 0 \<noteq> Panic"
  unfolding Let_def by (rule skip_list_linearizable [OF strict_weak_int])

text \<open>The arguments of the \<open>Range\<close> call that a program counter belongs to.\<close>

fun visit_args :: "('k, 'v) skip_pc \<Rightarrow> ('k \<times> 'k) option" where
  "visit_args (VDown lo hi level pred cur) = Some (lo, hi)"
| "visit_args (VGet lo hi acc cur) = Some (lo, hi)"
| "visit_args (VVal lo hi acc cur succ) = Some (lo, hi)"
| "visit_args _ = None"

lemma visit_at_Return: "visit_at s lo hi acc cu = Return (Visited kvs) \<Longrightarrow> kvs = acc"
  by (simp add: visit_at_def split: if_splits)

lemma visits_return:
  assumes inv: "skip_inv lt s g" and ok: "skip_ok lt s g t p st"
    and r: "visit_args p = Some (lo, hi)" and stp: "skip_step lt s t p = (s', Return (Visited kvs))"
  shows "visited_ok lt lo hi kvs"
proof -
  consider i q cu where "p = VDown lo hi i q cu" | acc cu where "p = VGet lo hi acc cu"
    | acc cu sc where "p = VVal lo hi acc cu sc"
    using r by (cases p rule: visit_args.cases) auto
  then show ?thesis
  proof cases
    case 1
    with stp have "kvs = []"
      by (auto simp: at_level_def split: if_splits dest!: deref_Return dest: visit_at_Return)
    then show ?thesis by (simp add: visited_ok_def)
  next
    case 2
    with stp have "kvs = acc"
      by (auto simp: at_level_def split: if_splits dest!: deref_Return dest: visit_at_Return)
    with ok 2 show ?thesis by (simp add: range_ok_def)
  next
    case 3
    with stp have "kvs = acc @ [(skey (snodes s cu), sval (snodes s cu))]"
      by (auto dest!: deref_Return dest: visit_at_Return)
    with ok 3 show ?thesis using visited_snoc [of lt lo hi acc] by (simp add: range_ok_def)
  qed
qed

text \<open>
  C31: For every strict weak order, under every interleaving with \<open>Set\<close> and \<open>Del\<close>, a \<open>Range\<close> call of the skip list from \<open>lo\<close> to \<open>hi\<close>
  that completes has visited keys in strictly ascending order, all with \<open>lo \<le> key < hi\<close>.
\<close>

theorem skip_range_bounds:
  assumes "strict_weak lt" and "run (skip_machine lt coins) acts = (s, th)" and "th t = Busy p"
    and "visit_args p = Some (lo, hi)" and "skip_step lt s t p = (s', Return (Visited kvs))"
  shows "sorted_wrt lt (map fst kvs) \<and> list_all (\<lambda>a. \<not> lt (fst a) lo \<and> lt (fst a) hi) kvs"
proof -
  from sim_machine.reachable_rel [OF skip_sim [OF assms(1)], of coins acts]
  obtain K st where "skip_rel lt s (\<lambda>t. relabel erase (th t)) K st"
    by (auto simp: forget_run assms(2))
  then obtain g where g: "skip_inv lt s g" "all_ok (skip_ok lt s g) (\<lambda>t. relabel erase (th t)) st"
    unfolding skip_rel_def by blast
  have "skip_ok lt s g t p (st t)" using all_okD [OF g(2), of t] by (simp add: assms(3))
  from visits_return [OF g(1) this assms(4,5)] show ?thesis
    by (simp add: visited_ok_def list_all_iff)
qed


text \<open>One key is inserted at level 0; then a \<open>Range\<close> over it is taken up to its last step.\<close>

definition visit_schedule :: "(int, bool) list_op action list" where
  "visit_schedule = [Start 0 (MapOp (SetKey 3 True))] @ replicate 68 (Step 0) @
     [Start 1 (RangeOp 1 4)] @ replicate 65 (Step 1)"

lemmas skip_eval = run_def start_sys_def NewSkipList_def skiplistMaxLevel_def newMarkableRef_def
  newSkipnode_def skipLess_def skipEqual_def at_level_def mcas_first_def mcas_second_def put_next_def
  randomLevel_def random_loop.simps slot_def new_path_def link_from_def find_retry_def find_level_def
  visit_at_def deref_def numeral_eq_Suc

lemma visit_schedule_end:
  "snd (run (skip_machine (<) (\<lambda>_. 1)) visit_schedule) 1 = Busy (VVal 1 4 [] 2 (Some 0))"
  by (simp add: visit_schedule_def skip_eval)

theorem skip_range_bounds_witness:
  "sorted_wrt (<) (map fst [(3 :: int, True)]) \<and>
     list_all (\<lambda>a. \<not> fst a < 1 \<and> fst a < 4) [(3 :: int, True)]"
proof (rule skip_range_bounds [OF strict_weak_int])
  let ?M = "skip_machine (<) (\<lambda>_. 1)"
  let ?s = "fst (run ?M visit_schedule)"
  show "run ?M visit_schedule = (?s, snd (run ?M visit_schedule))" by simp
  show "snd (run ?M visit_schedule) 1 = Busy (VVal 1 4 [] 2 (Some 0))" by (rule visit_schedule_end)
  show "visit_args (VVal 1 4 [] 2 (Some 0)) = Some (1 :: int, 4)" by simp
  show "skip_step (<) ?s 1 (VVal 1 4 [] 2 (Some 0)) = (?s, Return (Visited [(3, True)]))"
    by (simp add: visit_schedule_def skip_eval)
qed

end
