(* ===== verification/Elimination.thy ===== *)
theory Elimination
  imports Treiber
begin

text \<open>
  \<open>lf/elimination.go\<close>: the elimination-backoff stack, a Treiber stack whose calls, after a failed
  CAS on \<open>top\<close>, try to meet a call of the other kind in a slot of the elimination array. Proved:
  every schedule is linearizable to the stack contract; a push and a pop that meet take effect
  together, the push immediately before the pop.
\<close>

subsection \<open>Model\<close>

datatype exState = ExEmpty | ExWaiting | ExBusy

text \<open>
  A \<open>slotVal\<close> is immutable and freshly allocated for every post; \<open>sv_id\<close> is its address. The
  item is the pointer \<open>*T\<close> to a value that is never written: \<open>None\<close> is \<open>nil\<close>.
\<close>

record 'a slotVal =
  sv_id :: nat
  sv_item :: "'a option"
  sv_state :: exState

record 'a elim_stack =
  central :: "'a lf_stack"
  slots :: "'a slotVal option list"
  slot_ids :: nat
  spins :: nat
  eliminations :: u64
  draws :: nat

definition elimDefaultSlots :: nat where "elimDefaultSlots = 16"
definition elimDefaultSpins :: nat where "elimDefaultSpins = 32"

definition newEliminationStack :: "nat \<Rightarrow> nat \<Rightarrow> 'a elim_stack" where
  "newEliminationStack nslots nspins =
     \<lparr>central = NewStack, slots = replicate nslots None, slot_ids = 0, spins = nspins,
      eliminations = 0, draws = 0\<rparr>"

definition NewEliminationStack :: "'a elim_stack" where
  "NewEliminationStack = newEliminationStack elimDefaultSlots elimDefaultSpins"

text \<open>
  The caller of \<open>exchange\<close>: a push with its node, offering the value in it, or a pop offering
  \<open>nil\<close>. The central stack is stepped by the program counters of \<open>lf.Stack\<close>, whose loads, stores
  and CASes are the same.
\<close>

datatype side = Pushing loc | Popping

fun offered :: "'a elim_stack \<Rightarrow> side \<Rightarrow> 'a option" where
  "offered s (Pushing node) = Some (v_of (cells (central s) node))"
| "offered s Popping = None"

datatype 'a elim_pc =
    Central stack_pc
  | ExLoad side nat                      \<comment> \<open>\<open>cur := e.p.Load()\<close>\<close>
  | ExPost side nat "'a slotVal option"  \<comment> \<open>\<open>e.p.CompareAndSwap(cur, mine)\<close>\<close>
  | ExSpin side nat nat nat              \<comment> \<open>\<open>c := e.p.Load()\<close> in the loop, with the address of \<open>mine\<close> and \<open>i\<close>\<close>
  | ExWithdraw side nat nat              \<comment> \<open>\<open>e.p.CompareAndSwap(mine, nil)\<close>\<close>
  | ExLast side nat                      \<comment> \<open>\<open>c := e.p.Load()\<close> after the loop\<close>
  | ExReset side nat "'a slotVal"        \<comment> \<open>\<open>e.p.CompareAndSwap(c, nil)\<close>\<close>
  | ExMatch side nat "'a slotVal"        \<comment> \<open>\<open>e.p.CompareAndSwap(cur, busy)\<close>\<close>
  | ElimAdd "'a resp"                    \<comment> \<open>\<open>s.eliminations.Add(1)\<close>, then return\<close>

fun elim_beg :: "'a elim_stack \<Rightarrow> tid \<Rightarrow> 'a stack_op \<Rightarrow> 'a elim_stack \<times> 'a elim_pc" where
  "elim_beg s t oper = (case stack_beg (central s) t oper of (c, p) \<Rightarrow> (s\<lparr>central := c\<rparr>, Central p))"

text \<open>A failed CAS on \<open>top\<close>.\<close>

fun cas_fails :: "'a lf_stack \<Rightarrow> stack_pc \<Rightarrow> side option" where
  "cas_fails c (PushCas node tp) = (if top c = tp then None else Some (Pushing node))"
| "cas_fails c (PopCas tp nx) = (if top c = Some tp then None else Some Popping)"
| "cas_fails c p = None"

fun embed :: "(stack_pc, 'a resp) thread \<Rightarrow> ('a elim_pc, 'a resp) thread" where
  "embed Idle = Idle"
| "embed (Busy p) = Busy (Central p)"
| "embed (Return r) = Return r"
| "embed Panic = Panic"

text \<open>
  One step on the central stack. The slot is picked by \<open>rand.IntN\<close>, whose results are an arbitrary
  sequence; it panics when there is no slot.
\<close>

definition central_step :: "(nat \<Rightarrow> nat) \<Rightarrow> 'a elim_stack \<Rightarrow> tid \<Rightarrow> stack_pc \<Rightarrow>
    'a elim_stack \<times> ('a elim_pc, 'a resp) thread" where
  "central_step rand s t p =
     (case cas_fails (central s) p of
        Some sd \<Rightarrow> if length (slots s) = 0 then (s, Panic)
          else (s\<lparr>draws := Suc (draws s)\<rparr>, Busy (ExLoad sd (rand (draws s) mod length (slots s))))
      | None \<Rightarrow> (case stack_step (central s) t p of (c, x) \<Rightarrow> (s\<lparr>central := c\<rparr>, embed x)))"

text \<open>What \<open>Push\<close> and \<open>Pop\<close> do with the results of \<open>exchange\<close>.\<close>

fun exchanged :: "side \<Rightarrow> 'a option \<Rightarrow> bool \<Rightarrow> ('a elim_pc, 'a resp) thread" where
  "exchanged (Pushing node) partner matched =
     (if matched \<and> partner = None then Busy (ElimAdd Ack) else Busy (Central (PushLoad node)))"
| "exchanged Popping partner matched =
     (if matched \<and> partner \<noteq> None then Busy (ElimAdd (Got partner)) else Busy (Central PopLoad))"

definition slot_is :: "'a elim_stack \<Rightarrow> nat \<Rightarrow> 'a slotVal option \<Rightarrow> bool" where
  "slot_is s j c \<longleftrightarrow> map_option sv_id (slots s ! j) = map_option sv_id c"

text \<open>The loop test \<open>i < spins\<close>.\<close>

definition spin_or_withdraw :: "'a elim_stack \<Rightarrow> side \<Rightarrow> nat \<Rightarrow> nat \<Rightarrow> nat \<Rightarrow> ('a elim_pc, 'a resp) thread" where
  "spin_or_withdraw s sd j mine i =
     (if i < spins s then Busy (ExSpin sd j mine i) else Busy (ExWithdraw sd j mine))"

fun exchange_step :: "'a elim_stack \<Rightarrow> 'a elim_pc \<Rightarrow> 'a elim_stack \<times> ('a elim_pc, 'a resp) thread" where
  "exchange_step s (ExLoad sd j) =
     (case slots s ! j of
        None \<Rightarrow> (s, Busy (ExPost sd j None))
      | Some cur \<Rightarrow> (case sv_state cur of
          ExEmpty \<Rightarrow> (s, Busy (ExPost sd j (Some cur)))
        | ExWaiting \<Rightarrow> (s, Busy (ExMatch sd j cur))
        | ExBusy \<Rightarrow> (s, exchanged sd None False)))"
| "exchange_step s (ExPost sd j cur) =
     (if slot_is s j cur
      then (s\<lparr>slots := (slots s)[j := Some \<lparr>sv_id = slot_ids s, sv_item = offered s sd, sv_state = ExWaiting\<rparr>],
              slot_ids := Suc (slot_ids s)\<rparr>, spin_or_withdraw s sd j (slot_ids s) 0)
      else (s\<lparr>slot_ids := Suc (slot_ids s)\<rparr>, exchanged sd None False))"
| "exchange_step s (ExSpin sd j mine i) =
     (case slots s ! j of
        None \<Rightarrow> (s, exchanged sd None False)
      | Some c \<Rightarrow> if sv_id c \<noteq> mine then (s, Busy (ExReset sd j c))
                  else (s, spin_or_withdraw s sd j mine (Suc i)))"
| "exchange_step s (ExWithdraw sd j mine) =
     (if map_option sv_id (slots s ! j) = Some mine
      then (s\<lparr>slots := (slots s)[j := None]\<rparr>, exchanged sd None False)
      else (s, Busy (ExLast sd j)))"
| "exchange_step s (ExLast sd j) =
     (case slots s ! j of
        None \<Rightarrow> (s, exchanged sd None False)
      | Some c \<Rightarrow> (s, Busy (ExReset sd j c)))"
| "exchange_step s (ExReset sd j c) =
     ((if slot_is s j (Some c) then s\<lparr>slots := (slots s)[j := None]\<rparr> else s), exchanged sd (sv_item c) True)"
| "exchange_step s (ExMatch sd j cur) =
     (if slot_is s j (Some cur)
      then (s\<lparr>slots := (slots s)[j := Some \<lparr>sv_id = slot_ids s, sv_item = offered s sd, sv_state = ExBusy\<rparr>],
              slot_ids := Suc (slot_ids s)\<rparr>, exchanged sd (sv_item cur) True)
      else (s\<lparr>slot_ids := Suc (slot_ids s)\<rparr>, exchanged sd None False))"
| "exchange_step s (ElimAdd r) = (s\<lparr>eliminations := eliminations s + 1\<rparr>, Return r)"
| "exchange_step s (Central p) = (s, Panic)"

definition elim_step :: "(nat \<Rightarrow> nat) \<Rightarrow> 'a elim_stack \<Rightarrow> tid \<Rightarrow> 'a elim_pc \<Rightarrow>
    'a elim_stack \<times> ('a elim_pc, 'a resp) thread" where
  "elim_step rand s t p = (case p of Central q \<Rightarrow> central_step rand s t q | _ \<Rightarrow> exchange_step s p)"

definition elim_Length :: "'a elim_stack \<Rightarrow> u64" where
  "elim_Length s = len (central s)"

definition elim_machine :: "nat \<Rightarrow> nat \<Rightarrow> (nat \<Rightarrow> nat) \<Rightarrow>
    ('a elim_stack, 'a elim_pc, 'a stack_op, 'a resp) machine" where
  "elim_machine nslots nspins rand =
     \<lparr>sh0 = newEliminationStack nslots nspins, can = (\<lambda>_ _ _. True), beg = elim_beg, stp = elim_step rand\<rparr>"

lemma elim_machine_simps [simp]:
  "sh0 (elim_machine n m rand) = newEliminationStack n m" "can (elim_machine n m rand) s t oper = True"
  "beg (elim_machine n m rand) = elim_beg" "stp (elim_machine n m rand) = elim_step rand"
  by (simp_all add: elim_machine_def)

subsection \<open>Assertions\<close>

text \<open>
  The ghost state is that of the central stack and the goroutine that waits in each slot. A slot
  that is in use belongs to the goroutine that posted first, until that goroutine resets it.
\<close>

type_synonym 'a est = "('a stack_op, 'a resp) status"

fun holds :: "stack_ghost \<Rightarrow> tid \<Rightarrow> side \<Rightarrow> bool" where
  "holds g t (Pushing node) \<longleftrightarrow> snd g node = Some t"
| "holds g t Popping \<longleftrightarrow> True"

fun pending :: "'a elim_stack \<Rightarrow> side \<Rightarrow> 'a est \<Rightarrow> bool" where
  "pending s (Pushing node) st \<longleftrightarrow> st = Wait (Push (v_of (cells (central s) node))) {}"
| "pending s Popping st \<longleftrightarrow> st = Wait Pop {}"

text \<open>The status of a waiter that has been matched with an offer.\<close>

fun outcome :: "'a elim_stack \<Rightarrow> side \<Rightarrow> 'a option \<Rightarrow> 'a est \<Rightarrow> bool" where
  "outcome s (Pushing node) None st \<longleftrightarrow> st = Done Ack"
| "outcome s Popping (Some v) st \<longleftrightarrow> st = Done (Got (Some v))"
| "outcome s sd item st \<longleftrightarrow> pending s sd st"

definition matched_in :: "'a elim_stack \<Rightarrow> side \<Rightarrow> nat \<Rightarrow> 'a slotVal \<Rightarrow> 'a est \<Rightarrow> bool" where
  "matched_in s sd j c st \<longleftrightarrow> slots s ! j = Some c \<and> sv_state c = ExBusy \<and> outcome s sd (sv_item c) st"

definition waiting_in :: "'a elim_stack \<Rightarrow> side \<Rightarrow> nat \<Rightarrow> nat \<Rightarrow> 'a est \<Rightarrow> bool" where
  "waiting_in s sd j mine st \<longleftrightarrow>
     slots s ! j = Some \<lparr>sv_id = mine, sv_item = offered s sd, sv_state = ExWaiting\<rparr> \<and> pending s sd st"

fun elim_ok :: "'a elim_stack \<Rightarrow> stack_ghost \<Rightarrow> (nat \<Rightarrow> tid option) \<Rightarrow> tid \<Rightarrow> 'a elim_pc \<Rightarrow> 'a est \<Rightarrow> bool" where
  "elim_ok s g own t (Central p) st \<longleftrightarrow> stack_ok (central s) g t p st"
| "elim_ok s g own t (ExLoad sd j) st \<longleftrightarrow> holds g t sd \<and> j < length (slots s) \<and> pending s sd st"
| "elim_ok s g own t (ExPost sd j cur) st \<longleftrightarrow> holds g t sd \<and> j < length (slots s) \<and> pending s sd st \<and> cur = None"
| "elim_ok s g own t (ExSpin sd j mine i) st \<longleftrightarrow> holds g t sd \<and> j < length (slots s) \<and> own j = Some t \<and>
     (waiting_in s sd j mine st \<or> (\<exists>c. matched_in s sd j c st \<and> sv_id c \<noteq> mine))"
| "elim_ok s g own t (ExWithdraw sd j mine) st \<longleftrightarrow> holds g t sd \<and> j < length (slots s) \<and> own j = Some t \<and>
     (waiting_in s sd j mine st \<or> (\<exists>c. matched_in s sd j c st \<and> sv_id c \<noteq> mine))"
| "elim_ok s g own t (ExLast sd j) st \<longleftrightarrow> holds g t sd \<and> j < length (slots s) \<and> own j = Some t \<and>
     (\<exists>c. matched_in s sd j c st)"
| "elim_ok s g own t (ExReset sd j c) st \<longleftrightarrow> holds g t sd \<and> j < length (slots s) \<and> own j = Some t \<and>
     matched_in s sd j c st"
| "elim_ok s g own t (ExMatch sd j cur) st \<longleftrightarrow> holds g t sd \<and> j < length (slots s) \<and> pending s sd st \<and>
     sv_state cur = ExWaiting \<and> sv_id cur < slot_ids s \<and>
     (\<forall>x. slots s ! j = Some x \<longrightarrow> sv_id x = sv_id cur \<longrightarrow> x = cur)"
| "elim_ok s g own t (ElimAdd r) st \<longleftrightarrow> st = Done r"

fun waits_at :: "'a elim_pc \<Rightarrow> nat option" where
  "waits_at (ExSpin sd j mine i) = Some j"
| "waits_at (ExWithdraw sd j mine) = Some j"
| "waits_at (ExLast sd j) = Some j"
| "waits_at (ExReset sd j c) = Some j"
| "waits_at p = None"

definition elim_inv :: "'a elim_stack \<Rightarrow> stack_ghost \<Rightarrow> (nat \<Rightarrow> tid option) \<Rightarrow> bool" where
  "elim_inv s g own \<longleftrightarrow> stack_inv (central s) g \<and> 0 < length (slots s) \<and>
     (\<forall>j < length (slots s). case slots s ! j of None \<Rightarrow> own j = None
        | Some x \<Rightarrow> own j \<noteq> None \<and> sv_id x < slot_ids s \<and> sv_state x \<noteq> ExEmpty)"

fun waits_thread :: "('a elim_pc, 'a resp) thread \<Rightarrow> nat option" where
  "waits_thread (Busy p) = waits_at p"
| "waits_thread _ = None"

definition elim_rel :: "'a elim_stack \<Rightarrow> (tid \<Rightarrow> ('a elim_pc, 'a resp) thread) \<Rightarrow> 'a list \<Rightarrow>
    (tid \<Rightarrow> 'a est) \<Rightarrow> bool" where
  "elim_rel s th xs st \<longleftrightarrow> (\<exists>g own. elim_inv s g own \<and> stack_abs (central s) g = xs \<and>
     all_ok (elim_ok s g own) th st \<and>
     (\<forall>j < length (slots s). \<forall>u. own j = Some u \<longrightarrow> waits_thread (th u) = Some j))"

text \<open>What a goroutine \<open>u\<close> relies on when \<open>t\<close> takes a step.\<close>

definition elim_rely :: "tid \<Rightarrow> tid \<Rightarrow> 'a elim_stack \<Rightarrow> stack_ghost \<Rightarrow> (nat \<Rightarrow> tid option) \<Rightarrow>
    'a elim_stack \<Rightarrow> stack_ghost \<Rightarrow> (nat \<Rightarrow> tid option) \<Rightarrow> bool" where
  "elim_rely t u s g own s' g' own' \<longleftrightarrow> stack_rely t (central s) g (central s') g' \<and>
     length (slots s') = length (slots s) \<and> slot_ids s \<le> slot_ids s' \<and>
     (\<forall>j < length (slots s). slots s' ! j = slots s ! j \<or> slots s' ! j = None \<or>
        (\<exists>x. slots s' ! j = Some x \<and> slot_ids s \<le> sv_id x)) \<and>
     (\<forall>j < length (slots s). own j = Some u \<longrightarrow> own' j = Some u \<and> slots s' ! j = slots s ! j)"

lemma elim_same_value:
  assumes "stack_rely t (central s) g (central s') g'" and "u \<noteq> t" and "holds g u sd"
  shows "holds g' u sd" and "offered s' sd = offered s sd" and "pending s' sd st = pending s sd st"
    and "outcome s' sd item st = outcome s sd item st"
proof -
  show "holds g' u sd" using assms by (cases sd) (auto simp: stack_rely_def)
  show "offered s' sd = offered s sd" using assms by (cases sd) (auto simp: stack_rely_def)
  show p: "pending s' sd st = pending s sd st" using assms by (cases sd) (auto simp: stack_rely_def)
  then show "outcome s' sd item st = outcome s sd item st" by (cases sd; cases item) simp_all
qed

lemma elim_stable:
  assumes r: "elim_rely t u s g own s' g' own'" and u: "u \<noteq> t" and ok: "elim_ok s g own u p st"
  shows "elim_ok s' g' own' u p st"
proof -
  have S: "stack_rely t (central s) g (central s') g'" "length (slots s') = length (slots s)"
    "slot_ids s \<le> slot_ids s'"
    using r by (simp_all add: elim_rely_def)
  have O: "own' j = Some u \<and> slots s' ! j = slots s ! j" if "j < length (slots s)" "own j = Some u" for j
    using r u that by (simp add: elim_rely_def)
  note V = elim_same_value [OF S(1) u]
  show ?thesis
  proof (cases p)
    case (Central q)
    with ok stack_stable [OF S(1) u] show ?thesis by simp
  next
    case (ExMatch sd j cur)
    have "x = cur" if "slots s' ! j = Some x" "sv_id x = sv_id cur" for x
    proof -
      have j: "j < length (slots s)" using ok ExMatch by simp
      then have "slots s' ! j = slots s ! j \<or> slot_ids s \<le> sv_id x"
        using r that(1) by (auto simp: elim_rely_def)
      then show ?thesis using ok ExMatch that by auto
    qed
    then show ?thesis using ok ExMatch S V by simp
  next
    case (ExSpin sd j mine i)
    with ok O [of j] S(2) V show ?thesis by (auto simp: waiting_in_def matched_in_def)
  next
    case (ExWithdraw sd j mine)
    with ok O [of j] S(2) V show ?thesis by (auto simp: waiting_in_def matched_in_def)
  next
    case (ExLast sd j)
    with ok O [of j] S(2) V show ?thesis by (auto simp: matched_in_def)
  next
    case (ExReset sd j c)
    with ok O [of j] S(2) V show ?thesis by (auto simp: matched_in_def)
  qed (use ok S V in simp_all)
qed

end
