(* ===== verification/Elimination_Lin.thy ===== *)
theory Elimination_Lin
  imports Elimination
begin

text \<open>
  The simulation of the elimination stack. A step on the central stack or in a slot moves only the
  caller's own call, except for the CAS that matches a waiter: there the calls of both goroutines
  take effect, the push first.
\<close>

subsection \<open>Steps that move one call\<close>

lemma elim_frame:
  assumes all: "all_ok (elim_ok s g own) th st"
    and link: "\<And>j u. j < length (slots s) \<Longrightarrow> own j = Some u \<Longrightarrow> waits_thread (th u) = Some j"
    and inv: "elim_inv s' g' own'"
    and mv: "own_move stack_spec (stack_abs (central s) g) (st t) (stack_abs (central s') g') q"
    and ok: "thread_ok (elim_ok s' g' own' t) x q"
    and rely: "\<And>u. u \<noteq> t \<Longrightarrow> elim_rely t u s g own s' g' own'"
    and len: "length (slots s') = length (slots s)"
    and other: "\<And>j u. j < length (slots s) \<Longrightarrow> own' j = Some u \<Longrightarrow> u \<noteq> t \<Longrightarrow> own j = Some u"
    and mine: "\<And>j. j < length (slots s) \<Longrightarrow> own' j = Some t \<Longrightarrow> waits_thread x = Some j"
  shows "\<exists>E a' st'. visible E = [] \<and> lin_run stack_spec (stack_abs (central s) g, st) E = Some (a', st') \<and>
    elim_rel s' (th(t := x)) a' st'"
proof -
  obtain E where E: "visible E = []"
    "lin_run stack_spec (stack_abs (central s) g, st) E = Some (stack_abs (central s') g', st(t := q))"
    using own_move_run [where st = st and t = t, OF mv] by blast
  have "all_ok (elim_ok s' g' own') (th(t := x)) (st(t := q))"
    using all ok by (rule all_ok_upd) (use elim_stable rely in blast)
  moreover have "waits_thread ((th(t := x)) u) = Some j" if "j < length (slots s')" "own' j = Some u" for j u
    using that len link [of j u] other [of j u] mine [of j] by (cases "u = t") auto
  ultimately have "elim_rel s' (th(t := x)) (stack_abs (central s') g') (st(t := q))"
    using inv unfolding elim_rel_def by blast
  with E show ?thesis by blast
qed

text \<open>A step in a slot: the central stack stays as it is.\<close>

lemma stack_same [simp]: "stack_rely t c g c g"
  by (simp add: stack_rely_def)

lemma elim_invD:
  assumes "elim_inv s g own" and "j < length (slots s)"
  shows "slots s ! j = None \<longleftrightarrow> own j = None"
    and "slots s ! j = Some x \<Longrightarrow> sv_id x < slot_ids s \<and> sv_state x \<noteq> ExEmpty"
  using assms by (auto simp: elim_inv_def split: option.splits)

lemma elim_inv_put:
  assumes "elim_inv s g own" and "j < length (slots s)"
  shows "elim_inv (s\<lparr>slots := (slots s)[j := None]\<rparr>) g (own(j := None))"
    and "y \<noteq> ExEmpty \<Longrightarrow> elim_inv (s\<lparr>slots := (slots s)[j := Some \<lparr>sv_id = slot_ids s, sv_item = it, sv_state = y\<rparr>],
      slot_ids := Suc (slot_ids s)\<rparr>) g (own(j := Some u))"
  using assms by (fastforce simp: elim_inv_def nth_list_update less_Suc_eq split: option.splits)+

lemma elim_inv_ids:
  "elim_inv s g own \<Longrightarrow> elim_inv (s\<lparr>slot_ids := Suc (slot_ids s)\<rparr>) g own"
  "elim_inv s g own \<Longrightarrow> elim_inv (s\<lparr>eliminations := n\<rparr>) g own"
  "elim_inv s g own \<Longrightarrow> elim_inv (s\<lparr>draws := m\<rparr>) g own"
  "elim_inv s g own \<Longrightarrow> stack_inv c g' \<Longrightarrow> elim_inv (s\<lparr>central := c\<rparr>) g' own"
  by (fastforce simp: elim_inv_def less_Suc_eq split: option.splits)+

text \<open>Going back to the central stack, and leaving with the outcome of a match.\<close>

lemma retry_ok:
  assumes "holds g t sd" and "pending s sd q"
  shows "thread_ok (elim_ok s g own t) (exchanged sd None False) q"
  using assms by (cases sd) simp_all

lemma outcome_ok:
  assumes "holds g t sd" and "outcome s sd item q"
  shows "thread_ok (elim_ok s g own t) (exchanged sd item True) q"
  using assms by (cases sd; cases item) auto

lemma exchanged_waits [simp]: "waits_thread (exchanged sd item b) = None"
  by (cases sd) auto

lemma offered_upd [simp]:
  "offered (s\<lparr>slots := a\<rparr>) sd = offered s sd" "offered (s\<lparr>slot_ids := n\<rparr>) sd = offered s sd"
  "offered (s\<lparr>draws := n\<rparr>) sd = offered s sd" "offered (s\<lparr>eliminations := e\<rparr>) sd = offered s sd"
  by (cases sd; simp)+

lemma pending_upd [simp]:
  "pending (s\<lparr>slots := a\<rparr>) sd q = pending s sd q" "pending (s\<lparr>slot_ids := n\<rparr>) sd q = pending s sd q"
  "pending (s\<lparr>draws := n\<rparr>) sd q = pending s sd q" "pending (s\<lparr>eliminations := e\<rparr>) sd q = pending s sd q"
  by (cases sd; simp)+

lemma outcome_upd [simp]:
  "outcome (s\<lparr>slots := a\<rparr>) sd item q = outcome s sd item q"
  "outcome (s\<lparr>slot_ids := n\<rparr>) sd item q = outcome s sd item q"
  by (cases sd; cases item; simp)+

subsection \<open>Steps on the central stack\<close>

lemma embed_ok:
  assumes "thread_ok (stack_ok (central s) g t) x q"
  shows "thread_ok (elim_ok s g own t) (embed x) q"
  using assms by (cases x) auto

lemma stack_step_sim:
  assumes "stack_inv c g" and "stack_ok c g t p q" and "stack_step c t p = (c', x)"
  shows "\<exists>g' q'. own_move stack_spec (stack_abs c g) q (stack_abs c' g') q' \<and>
    stack_inv c' g' \<and> thread_ok (stack_ok c' g' t) x q' \<and> stack_rely t c g c' g'"
  using assms stack_push_sim [of c g t p q] stack_pop_sim [of c g t p q]
  by (cases p) (auto simp: stack_step_def simp del: stack_push_step.simps stack_pop_step.simps)

lemma cas_fails_ok:
  assumes "cas_fails (central s) p = Some sd" and "stack_ok (central s) g t p q"
  shows "holds g t sd \<and> pending s sd q"
  using assms by (cases "(central s, p)" rule: cas_fails.cases) (auto split: if_splits)

lemma embed_waits [simp]: "waits_thread (embed x) = None"
  by (cases x) simp_all

lemma central_sim:
  assumes inv: "elim_inv s g own" and all: "all_ok (elim_ok s g own) th st"
    and link: "\<And>j u. j < length (slots s) \<Longrightarrow> own j = Some u \<Longrightarrow> waits_thread (th u) = Some j"
    and t: "th t = Busy (Central p)" and step: "central_step rand s t p = (s', x)"
  shows "\<exists>E a' st'. visible E = [] \<and> lin_run stack_spec (stack_abs (central s) g, st) E = Some (a', st') \<and>
    elim_rel s' (th(t := x)) a' st'"
proof (cases "cas_fails (central s) p")
  case None
  have ok: "stack_ok (central s) g t p (st t)" using all_okD [OF all, of t] t by simp
  have free: "own j \<noteq> Some t" if "j < length (slots s)" for j using link [OF that, of t] t by auto
  obtain c y where c: "stack_step (central s) t p = (c, y)" by fastforce
  then have s': "s' = s\<lparr>central := c\<rparr>" "x = embed y" using step None by (auto simp: central_step_def)
  have "stack_inv (central s) g" using inv by (simp add: elim_inv_def)
  from stack_step_sim [OF this ok c] obtain g' q where g': "own_move stack_spec (stack_abs (central s) g) (st t) (stack_abs c g') q"
    "stack_inv c g'" "thread_ok (stack_ok c g' t) y q" "stack_rely t (central s) g c g'" by blast
  show ?thesis
  proof (rule elim_frame [OF all link, where g' = g' and own' = own and q = q])
    show "elim_inv s' g' own" unfolding s' using inv g'(2) by (rule elim_inv_ids)
    show "thread_ok (elim_ok s' g' own t) x q" unfolding s'(2) by (rule embed_ok) (simp add: s' g'(3))
    show "elim_rely t u s g own s' g' own" for u using g'(4) by (simp add: elim_rely_def s')
  qed (use g'(1) free in \<open>auto simp: s'\<close>)
next
  case (Some sd)
  have ok: "stack_ok (central s) g t p (st t)" using all_okD [OF all, of t] t by simp
  have free: "own j \<noteq> Some t" if "j < length (slots s)" for j using link [OF that, of t] t by auto
  have n: "0 < length (slots s)" using inv by (simp add: elim_inv_def)
  then have s': "s' = s\<lparr>draws := Suc (draws s)\<rparr>" "x = Busy (ExLoad sd (rand (draws s) mod length (slots s)))"
    using step Some by (auto simp: central_step_def)
  show ?thesis
  proof (rule elim_frame [OF all link, where g' = g and own' = own and q = "st t"])
    show "elim_inv s' g own" unfolding s' using inv by (rule elim_inv_ids)
    show "thread_ok (elim_ok s' g own t) x (st t)"
      using cas_fails_ok [OF Some ok] n by (simp add: s')
  qed (use free in \<open>auto simp: s' elim_rely_def intro: own_move.stay\<close>)
qed

subsection \<open>Steps in a slot\<close>

lemma exchange_sim:
  assumes inv: "elim_inv s g own" and all: "all_ok (elim_ok s g own) th st"
    and link: "\<And>j u. j < length (slots s) \<Longrightarrow> own j = Some u \<Longrightarrow> waits_thread (th u) = Some j"
    and t: "th t = Busy p" and p: "waits_at p = None" "\<And>q. p \<noteq> Central q"
      "\<And>sd j cur. p = ExMatch sd j cur \<Longrightarrow> \<not> slot_is s j (Some cur)"
    and step: "exchange_step s p = (s', x)"
  shows "\<exists>E a' st'. visible E = [] \<and> lin_run stack_spec (stack_abs (central s) g, st) E = Some (a', st') \<and>
    elim_rel s' (th(t := x)) a' st'"
proof -
  have ok: "elim_ok s g own t p (st t)" using all_okD [OF all, of t] t by simp
  have free: "own j \<noteq> Some t" if "j < length (slots s)" for j using link [OF that, of t] t p(1) by auto
  note frame = elim_frame [OF all link, where q = "st t" and t = t]
  show ?thesis
  proof (cases p)
    case (ExLoad sd j)
    have o: "holds g t sd" "j < length (slots s)" "pending s sd (st t)" using ok ExLoad by simp_all
    have "thread_ok (elim_ok s g own t) x (st t) \<and> waits_thread x = None \<and> s' = s"
    proof (cases "slots s ! j")
      case None
      then show ?thesis using step o by (auto simp: ExLoad)
    next
      case (Some cur)
      note I = elim_invD(2) [OF inv o(2) Some]
      show ?thesis using step o I Some retry_ok [OF o(1,3)]
        by (cases "sv_state cur") (auto simp: ExLoad simp del: exchanged.simps)
    qed
    then show ?thesis using inv free
      by (intro frame [where g' = g and own' = own]) (auto simp: elim_rely_def intro: own_move.stay)
  next
    case (ExPost sd j cur)
    have o: "holds g t sd" "j < length (slots s)" "pending s sd (st t)" "cur = None"
      using ok ExPost by simp_all
    show ?thesis
    proof (cases "slot_is s j cur")
      case True
      then have e: "slots s ! j = None" using o(4) by (simp add: slot_is_def)
      have s': "s' = s\<lparr>slots := (slots s)[j := Some \<lparr>sv_id = slot_ids s, sv_item = offered s sd, sv_state = ExWaiting\<rparr>],
          slot_ids := Suc (slot_ids s)\<rparr>" "x = spin_or_withdraw s sd j (slot_ids s) 0"
        using step True by (simp_all add: ExPost)
      have w: "waiting_in s' sd j (slot_ids s) (st t)"
        using o by (simp add: waiting_in_def s')
      show ?thesis
      proof (rule frame [where g' = g and own' = "own(j := Some t)"])
        show "elim_inv s' g (own(j := Some t))" unfolding s' using inv o(2) by (rule elim_inv_put) simp
        show "thread_ok (elim_ok s' g (own(j := Some t)) t) x (st t)"
          using w o by (simp add: s'(2) spin_or_withdraw_def) (simp add: s')
        show "elim_rely t u s g own s' g (own(j := Some t))" if "u \<noteq> t" for u
          using elim_invD(1) [OF inv o(2)] e o(2) that by (auto simp: elim_rely_def s' nth_list_update)
        show "waits_thread x = Some k" if "k < length (slots s)" "(own(j := Some t)) k = Some t" for k
          using that free [of k] by (auto simp: s'(2) spin_or_withdraw_def split: if_splits)
      qed (use o(2) in \<open>auto simp: s' intro: own_move.stay split: if_splits\<close>)
    next
      case False
      then have s': "s' = s\<lparr>slot_ids := Suc (slot_ids s)\<rparr>" "x = exchanged sd None False"
        using step by (simp_all add: ExPost)
      have "thread_ok (elim_ok s' g own t) x (st t)"
        using retry_ok [OF o(1), of s' "st t"] o(3) by (simp add: s' del: exchanged.simps)
      then show ?thesis unfolding s' using free elim_inv_ids(1) [OF inv]
        by (intro frame [where g' = g and own' = own])
          (auto simp: elim_rely_def intro: own_move.stay simp del: exchanged.simps)
    qed
  next
    case (ExMatch sd j cur)
    have o: "holds g t sd" "pending s sd (st t)" using ok ExMatch by simp_all
    have s': "s' = s\<lparr>slot_ids := Suc (slot_ids s)\<rparr>" "x = exchanged sd None False"
      using step p(3) by (simp_all add: ExMatch)
    have "thread_ok (elim_ok s' g own t) x (st t)"
      using retry_ok [OF o(1), of s' "st t"] o(2) by (simp add: s' del: exchanged.simps)
    then show ?thesis unfolding s' using free elim_inv_ids(1) [OF inv]
      by (intro frame [where g' = g and own' = own])
        (auto simp: elim_rely_def intro: own_move.stay simp del: exchanged.simps)
  next
    case (ElimAdd r)
    have s': "s' = s\<lparr>eliminations := eliminations s + 1\<rparr>" "x = Return r" using step by (simp_all add: ElimAdd)
    show ?thesis unfolding s' using free elim_inv_ids(2) [OF inv] ok
      by (intro frame [where g' = g and own' = own]) (auto simp: elim_rely_def ElimAdd intro: own_move.stay)
  qed (use p in auto)
qed

text \<open>The steps of a waiter, which owns its slot.\<close>

lemma waiter_sim:
  assumes inv: "elim_inv s g own" and all: "all_ok (elim_ok s g own) th st"
    and link: "\<And>j u. j < length (slots s) \<Longrightarrow> own j = Some u \<Longrightarrow> waits_thread (th u) = Some j"
    and t: "th t = Busy p" and p: "waits_at p = Some j"
    and step: "exchange_step s p = (s', x)"
  shows "\<exists>E a' st'. visible E = [] \<and> lin_run stack_spec (stack_abs (central s) g, st) E = Some (a', st') \<and>
    elim_rel s' (th(t := x)) a' st'"
proof -
  have ok: "elim_ok s g own t p (st t)" using all_okD [OF all, of t] t by simp
  have mine: "k = j" if "k < length (slots s)" "own k = Some t" for k using link [OF that] t p by simp
  note frame = elim_frame [OF all link, where q = "st t" and t = t and g' = g]
  obtain sd where sd: "holds g t sd" "j < length (slots s)" "own j = Some t"
    using ok p by (cases p) auto
  have keep: ?thesis if "s' = s" "thread_ok (elim_ok s g own t) x (st t)" "waits_thread x = Some j"
    using that inv mine by (intro frame [where own' = own]) (auto simp: elim_rely_def intro: own_move.stay)
  have leave: ?thesis if s': "s' = s\<lparr>slots := (slots s)[j := None]\<rparr>" and x: "waits_thread x = None"
    "thread_ok (elim_ok s' g (own(j := None)) t) x (st t)"
  proof (rule frame [where own' = "own(j := None)"])
    show "elim_inv s' g (own(j := None))" unfolding s' using inv sd(2) by (rule elim_inv_put)
    show "elim_rely t u s g own s' g (own(j := None))" if "u \<noteq> t" for u
      using that sd by (auto simp: elim_rely_def s' nth_list_update)
  qed (use x mine in \<open>auto simp: s' intro: own_move.stay split: if_splits\<close>)
  show ?thesis
  proof (cases p)
    case (ExSpin d k m i)
    then have "k = j" using p by simp
    with ok step show ?thesis
      by (intro keep) (auto simp: ExSpin spin_or_withdraw_def waiting_in_def matched_in_def)
  next
    case (ExWithdraw d k m)
    then have k: "k = j" using p by simp
    show ?thesis
    proof (cases "map_option sv_id (slots s ! j) = Some m")
      case True
      with ok have "holds g t d" "pending s d (st t)" by (auto simp: ExWithdraw k waiting_in_def matched_in_def)
      moreover have "s' = s\<lparr>slots := (slots s)[j := None]\<rparr>" "x = exchanged d None False"
        using True step by (simp_all add: ExWithdraw k)
      ultimately show ?thesis
        by (intro leave) (simp_all add: retry_ok del: exchanged.simps)
    next
      case False
      with ok step show ?thesis
        by (intro keep) (auto simp: ExWithdraw k waiting_in_def matched_in_def)
    qed
  next
    case (ExLast d k)
    then have "k = j" using p by simp
    with ok step show ?thesis by (intro keep) (auto simp: ExLast matched_in_def)
  next
    case (ExReset d k c)
    then have k: "k = j" using p by simp
    from ok have "holds g t d" "outcome s d (sv_item c) (st t)" "slots s ! j = Some c"
      by (auto simp: ExReset k matched_in_def)
    moreover from this have "s' = s\<lparr>slots := (slots s)[j := None]\<rparr>" "x = exchanged d (sv_item c) True"
      using step by (auto simp: ExReset k slot_is_def)
    ultimately show ?thesis
      by (intro leave) (simp_all add: outcome_ok del: exchanged.simps)
  qed (use p in auto)
qed

subsection \<open>The match\<close>

text \<open>
  When two calls meet and are of different kinds the push takes effect and right after it the
  pop. Two calls of the same kind both go back to the central stack.
\<close>

lemma meet:
  assumes "t \<noteq> w" and "pending s sdw (st w)" and "pending s sd (st t)"
  shows "\<exists>E qw qt. visible E = [] \<and> lin_run stack_spec (xs, st) E = Some (xs, st(w := qw, t := qt)) \<and>
    outcome s sdw (offered s sd) qw \<and> outcome s sd (offered s sdw) qt"
proof (cases sdw)
  case (Pushing m)
  show ?thesis
  proof (cases sd)
    case (Pushing n)
    with \<open>sdw = Pushing m\<close> assms show ?thesis
      by - (rule exI [of _ "[]"], rule exI [of _ "st w"], rule exI [of _ "st t"], simp add: fun_eq_iff)
  next
    case Popping
    with \<open>sdw = Pushing m\<close> assms show ?thesis
      by - (rule exI [of _ "[Lin w, Lin t]"], rule exI [of _ "Done Ack"],
        rule exI [of _ "Done (Got (Some (v_of (cells (central s) m))))"], simp)
  qed
next
  case Popping
  show ?thesis
  proof (cases sd)
    case (Pushing n)
    with \<open>sdw = Popping\<close> assms show ?thesis
      by - (rule exI [of _ "[Lin t, Lin w]"], rule exI [of _ "Done (Got (Some (v_of (cells (central s) n))))"],
        rule exI [of _ "Done Ack"], simp add: fun_upd_twist)
  next
    case Popping
    with \<open>sdw = Popping\<close> assms show ?thesis
      by - (rule exI [of _ "[]"], rule exI [of _ "st w"], rule exI [of _ "st t"], simp add: fun_eq_iff)
  qed
qed

text \<open>The goroutine a waiting slot belongs to, and what its assertion becomes.\<close>

lemma waiter:
  assumes "waits_thread (th w) = Some j" and "thread_ok (elim_ok s g own w) (th w) (st w)"
    and "slots s ! j = Some x" and "sv_state x = ExWaiting"
  obtains pw sdw where "th w = Busy pw" and "waits_at pw = Some j" and "sv_item x = offered s sdw"
    and "holds g w sdw" and "pending s sdw (st w)" and "own j = Some w"
    and "\<And>s' q y. length (slots s') = length (slots s) \<Longrightarrow> matched_in s' sdw j y q \<Longrightarrow>
      sv_id y \<noteq> sv_id x \<Longrightarrow> elim_ok s' g own w pw q"
proof -
  from assms(1) obtain pw where pw: "th w = Busy pw" "waits_at pw = Some j"
    by (cases "th w") auto
  with assms(2) have ok: "elim_ok s g own w pw (st w)" by simp
  show thesis
  proof (cases pw)
    case (ExSpin d k m i)
    with pw ok assms(3,4) show ?thesis
      by (intro that [of pw d]) (auto simp: waiting_in_def matched_in_def)
  next
    case (ExWithdraw d k m)
    with pw ok assms(3,4) show ?thesis
      by (intro that [of pw d]) (auto simp: waiting_in_def matched_in_def)
  qed (use pw ok assms(3,4) in \<open>auto simp: matched_in_def\<close>)
qed

lemma match_sim:
  assumes inv: "elim_inv s g own" and all: "all_ok (elim_ok s g own) th st"
    and link: "\<And>j u. j < length (slots s) \<Longrightarrow> own j = Some u \<Longrightarrow> waits_thread (th u) = Some j"
    and t: "th t = Busy (ExMatch sd j cur)" and here: "slot_is s j (Some cur)"
    and step: "exchange_step s (ExMatch sd j cur) = (s', x)"
  shows "\<exists>E a' st'. visible E = [] \<and> lin_run stack_spec (stack_abs (central s) g, st) E = Some (a', st') \<and>
    elim_rel s' (th(t := x)) a' st'"
proof -
  have o: "holds g t sd" "j < length (slots s)" "pending s sd (st t)" "sv_state cur = ExWaiting"
    "\<And>x. slots s ! j = Some x \<Longrightarrow> sv_id x = sv_id cur \<Longrightarrow> x = cur"
    using all_okD [OF all, of t] t by simp_all
  have cur: "slots s ! j = Some cur" using here o(5) by (auto simp: slot_is_def)
  then obtain w where w: "own j = Some w" using elim_invD(1) [OF inv o(2)] by auto
  note lw = link [OF o(2) w]
  obtain pw sdw where
    pw: "th w = Busy pw" "waits_at pw = Some j" "sv_item cur = offered s sdw" "holds g w sdw" "pending s sdw (st w)"
    and upd: "\<And>s' q y. length (slots s') = length (slots s) \<Longrightarrow> matched_in s' sdw j y q \<Longrightarrow>
      sv_id y \<noteq> sv_id cur \<Longrightarrow> elim_ok s' g own w pw q"
    by (rule waiter [of th w j s g own st cur, OF lw all_okD [OF all, of w] cur o(4)]) blast
  have ne: "t \<noteq> w" using lw t by auto
  define y where "y = \<lparr>sv_id = slot_ids s, sv_item = offered s sd, sv_state = ExBusy\<rparr>"
  have s': "s' = s\<lparr>slots := (slots s)[j := Some y], slot_ids := Suc (slot_ids s)\<rparr>"
    "x = exchanged sd (offered s sdw) True"
    using step here pw(3) by (simp_all add: y_def del: exchanged.simps)
  from meet [OF ne pw(5) o(3), of "stack_abs (central s) g"] obtain E qw qt where E: "visible E = []"
    "lin_run stack_spec (stack_abs (central s) g, st) E = Some (stack_abs (central s) g, st(w := qw, t := qt))"
    "outcome s sdw (offered s sd) qw" "outcome s sd (offered s sdw) qt" by blast
  have "sv_id y \<noteq> sv_id cur" using elim_invD(2) [OF inv o(2) cur] by (auto simp: y_def)
  moreover have "matched_in s' sdw j y qw" using E(3) o(2) by (simp add: matched_in_def s' y_def)
  ultimately have okw: "elim_ok s' g own w pw qw" by (intro upd) (simp_all add: s')
  have okt: "thread_ok (elim_ok s' g own t) x qt"
    unfolding s'(2) using o(1) by (rule outcome_ok) (simp add: s' E(4))
  have rely: "elim_rely t u s g own s' g own" if "u \<noteq> w" for u
    using that w o(2) by (auto simp: elim_rely_def s' y_def nth_list_update)
  have "all_ok (elim_ok s' g own) (th(t := x)) (st(w := qw, t := qt))"
    unfolding all_ok_def
  proof
    fix u
    show "thread_ok (elim_ok s' g own u) ((th(t := x)) u) ((st(w := qw, t := qt)) u)"
    proof (cases "u = t \<or> u = w")
      case True
      then show ?thesis using okt okw pw(1) ne by auto
    next
      case False
      then show ?thesis using all_okD [OF all, of u] elim_stable [OF rely, of u]
        by (cases "th u") auto
    qed
  qed
  moreover have "elim_inv s' g own"
    using elim_inv_put(2) [OF inv o(2), of ExBusy "offered s sd" w] w by (simp add: s' y_def fun_upd_idem)
  moreover have "waits_thread ((th(t := x)) u) = Some k" if "k < length (slots s')" "own k = Some u" for k u
    using link [of k u] that t by (auto simp: s')
  ultimately have "elim_rel s' (th(t := x)) (stack_abs (central s) g) (st(w := qw, t := qt))"
    unfolding elim_rel_def by (intro exI [of _ g] exI [of _ own]) (simp add: s' del: fun_upd_apply)
  with E(1,2) show ?thesis by blast
qed

subsection \<open>The simulation\<close>

lemma elim_step_sim:
  assumes "elim_rel s th a st" and t: "th t = Busy p" and step: "elim_step rand s t p = (s', x)"
  shows "\<exists>E a' st'. visible E = [] \<and> lin_run stack_spec (a, st) E = Some (a', st') \<and>
    elim_rel s' (th(t := x)) a' st'"
proof -
  from assms(1) obtain g own where R: "elim_inv s g own" "all_ok (elim_ok s g own) th st"
    "\<And>j u. j < length (slots s) \<Longrightarrow> own j = Some u \<Longrightarrow> waits_thread (th u) = Some j"
    and a: "stack_abs (central s) g = a"
    unfolding elim_rel_def by blast
  consider (c) q where "p = Central q" | (m) sd j cur where "p = ExMatch sd j cur" "slot_is s j (Some cur)"
    | (w) j where "waits_at p = Some j"
    | (e) "waits_at p = None" "\<forall>q. p \<noteq> Central q" "\<And>sd j cur. p = ExMatch sd j cur \<Longrightarrow> \<not> slot_is s j (Some cur)"
    by (cases p) auto
  then show ?thesis
  proof cases
    case c
    with step central_sim [OF R t [unfolded c]] show ?thesis by (simp add: a elim_step_def)
  next
    case m
    with step match_sim [OF R t [unfolded m(1)] m(2)] show ?thesis
      by (simp add: a elim_step_def del: exchange_step.simps)
  next
    case w
    then have "exchange_step s p = (s', x)" using step w by (cases p) (simp_all add: elim_step_def)
    with waiter_sim [OF R t w] show ?thesis by (simp add: a)
  next
    case e
    then have "exchange_step s p = (s', x)" using step e(2) by (cases p) (simp_all add: elim_step_def)
    with exchange_sim [OF R t e(1) e(2) [rule_format] e(3)] show ?thesis by (simp add: a)
  qed
qed

lemma elim_beg_sim:
  assumes "elim_rel s th a st" and t: "th t = Idle" and b: "elim_beg s t oper = (s', p)"
  shows "elim_rel s' (th(t := Busy p)) a (st(t := Wait oper {}))"
proof -
  from assms(1) obtain g own where R: "elim_inv s g own" "all_ok (elim_ok s g own) th st"
    "\<And>j u. j < length (slots s) \<Longrightarrow> own j = Some u \<Longrightarrow> waits_thread (th u) = Some j"
    and a: "stack_abs (central s) g = a"
    unfolding elim_rel_def by blast
  obtain c q where c: "stack_beg (central s) t oper = (c, q)" by fastforce
  then have s': "s' = s\<lparr>central := c\<rparr>" "p = Central q" using b by simp_all
  have "stack_inv (central s) g" using R(1) by (simp add: elim_inv_def)
  from stack_begin [OF this c] obtain g' where g': "stack_inv c g'" "stack_abs c g' = a"
    "stack_ok c g' t q (Wait oper {})" "stack_rely t (central s) g c g'" using a by auto
  have rely: "elim_rely t u s g own s' g' own" for u using g'(4) by (simp add: elim_rely_def s')
  have "all_ok (elim_ok s' g' own) (th(t := Busy p)) (st(t := Wait oper {}))"
    using R(2) by (rule all_ok_upd) (use g'(3) elim_stable [OF rely] in \<open>simp_all add: s'\<close>)
  moreover have "elim_inv s' g' own" unfolding s' using R(1) g'(1) by (rule elim_inv_ids)
  moreover have "waits_thread ((th(t := Busy p)) u) = Some j" if "j < length (slots s')" "own j = Some u" for j u
    using R(3) [of j u] that t by (auto simp: s')
  ultimately show ?thesis using g'(2)
    unfolding elim_rel_def by (intro exI [of _ g'] exI [of _ own]) (simp add: s' del: fun_upd_apply)
qed

lemma elim_sim:
  assumes "0 < n"
  shows "sim_machine (elim_machine n m rand) (stack_spec :: 'a list \<Rightarrow> _) [] elim_rel"
proof
  let ?s = "newEliminationStack n m :: 'a elim_stack"
  have "elim_inv ?s ([], \<lambda>_. None) (\<lambda>_. None)"
    using assms by (simp add: elim_inv_def newEliminationStack_def stack_inv_def NewStack_def)
  then show "elim_rel (sh0 (elim_machine n m rand :: (_, _, 'a stack_op, _) machine)) (\<lambda>_. Idle) [] (\<lambda>_. Quiet)"
    unfolding elim_rel_def
    by (intro exI [of _ "([], \<lambda>_. None)"] exI [of _ "\<lambda>_. None"]) (simp add: all_ok_def stack_abs_def)
next
  fix s :: "'a elim_stack" and th a st t
  assume R: "elim_rel s th a st"
  show "st t = Quiet" if "th t = Idle" using R that unfolding elim_rel_def by (auto dest: all_okD [where u = t])
  show "th t \<noteq> Panic" using R unfolding elim_rel_def by (auto dest: all_okD [where u = t])
next
  fix s :: "'a elim_stack" and th a st t oper s' p
  assume "elim_rel s th a st" "th t = Idle" "beg (elim_machine n m rand) s t oper = (s', p)"
  then show "elim_rel s' (th(t := Busy p)) a (st(t := Wait oper {}))"
    using elim_beg_sim by (simp del: elim_beg.simps)
next
  fix s :: "'a elim_stack" and th a st t p s' x
  assume "elim_rel s th a st" "th t = Busy p" "stp (elim_machine n m rand) s t p = (s', x)"
  then show "\<exists>E a' st'. visible E = [] \<and> lin_run stack_spec (a, st) E = Some (a', st') \<and>
      elim_rel s' (th(t := x)) a' st'"
    using elim_step_sim by simp
next
  fix s :: "'a elim_stack" and th a st t r
  assume R: "elim_rel s th a st" and t: "th t = Return r"
  then obtain g own where g: "elim_inv s g own" "stack_abs (central s) g = a" "all_ok (elim_ok s g own) th st"
    "\<forall>j < length (slots s). \<forall>u. own j = Some u \<longrightarrow> waits_thread (th u) = Some j"
    unfolding elim_rel_def by blast
  have "all_ok (elim_ok s g own) (th(t := Idle)) (st(t := Quiet))"
    using g(3) by (rule all_ok_upd) simp_all
  moreover have "\<forall>j < length (slots s). \<forall>u. own j = Some u \<longrightarrow> waits_thread ((th(t := Idle)) u) = Some j"
  proof (intro allI impI)
    fix j u
    assume "j < length (slots s)" "own j = Some u"
    with g(4) have "waits_thread (th u) = Some j" by blast
    then show "waits_thread ((th(t := Idle)) u) = Some j" using t by (cases "u = t") auto
  qed
  ultimately have "elim_rel s (th(t := Idle)) a (st(t := Quiet))"
    using g(1,2) unfolding elim_rel_def by blast
  moreover have "st t = Done r \<or> (\<exists>oper R. st t = Wait oper R \<and> r \<in> R)"
    using all_okD [OF g(3), of t] t by simp
  ultimately show "(st t = Done r \<or> (\<exists>oper R. st t = Wait oper R \<and> r \<in> R)) \<and>
      elim_rel s (th(t := Idle)) a (st(t := Quiet))" by blast
qed

end
