(* ===== verification/Elimination_Facts.thy ===== *)
theory Elimination_Facts
  imports Elimination_Lin
begin

text \<open>
  What the elimination stack promises: linearizability with at least one slot, and lock-freedom
  with a bound that grows with the number of spins.
\<close>

subsection \<open>Progress\<close>

text \<open>
  The rank of a goroutine counts its remaining steps if nobody moves \<open>top\<close> again: a stale call
  fails its CAS, spends at most \<open>m + 4\<close> steps in the slot, and then has a fresh round.
\<close>

fun elim_rank :: "nat \<Rightarrow> ptr \<Rightarrow> 'a elim_pc \<Rightarrow> nat" where
  "elim_rank m tp (Central p) =
     (case p of
        PushLink i l \<Rightarrow> if l = tp then 3 else 12 + m
      | PushCas i l \<Rightarrow> if l = tp then 2 else 11 + m
      | PopNext l \<Rightarrow> if Some l = tp then 3 else 12 + m
      | PopCas l nx \<Rightarrow> if Some l = tp then 2 else 11 + m
      | _ \<Rightarrow> stack_rank tp p)"
| "elim_rank m tp (ExLoad sd j) = 10 + m"
| "elim_rank m tp (ExPost sd j cur) = 9 + m"
| "elim_rank m tp (ExSpin sd j mine i) = 8 + (m - i)"
| "elim_rank m tp (ExWithdraw sd j mine) = 7"
| "elim_rank m tp (ExLast sd j) = 6"
| "elim_rank m tp (ExReset sd j c) = 5"
| "elim_rank m tp (ExMatch sd j cur) = 5"
| "elim_rank m tp (ElimAdd r) = 1"

definition elim_unmoved :: "('a elim_stack, 'a elim_pc, 'a resp) sys \<Rightarrow>
    ('a elim_stack, 'a elim_pc, 'a resp) sys \<Rightarrow> bool" where
  "elim_unmoved s s' \<longleftrightarrow> top (central (fst s')) = top (central (fst s))"

lemma elim_rank_pos: "0 < elim_rank m tp p" "elim_rank m tp p \<le> 12 + m"
proof -
  show "0 < elim_rank m tp p" by (cases p) (auto split: stack_pc.splits)
  show "elim_rank m tp p \<le> 12 + m" by (cases p) (auto split: stack_pc.splits)
qed

lemma exchanged_rank: "exchanged sd item b = Busy p \<Longrightarrow> elim_rank m tp p < 5"
  by (cases "(sd, item, b)" rule: exchanged.cases) (auto split: if_splits)

lemma spin_rank:
  assumes "spin_or_withdraw s sd j mine i = Busy p" and "spins s = m"
  shows "elim_rank m tp p \<le> 8 + (m - i)" and "i \<noteq> 0 \<Longrightarrow> elim_rank m tp p < 8 + (m - (i - 1))"
  using assms by (auto simp: spin_or_withdraw_def split: if_splits)

lemma exchange_rank:
  assumes "exchange_step s p = (s', Busy p')" and "spins s = m"
  shows "elim_rank m tp p' < elim_rank m tp p"
proof (cases p)
  case (ExLoad sd j)
  with assms exchanged_rank [of sd None False p' m tp] show ?thesis
    by (auto simp del: exchanged.simps split: option.splits exState.splits)
next
  case (ExPost sd j cur)
  with assms exchanged_rank [of sd None False p' m tp] spin_rank(1) [of s sd j "slot_ids s" 0 p' m tp]
  show ?thesis by (auto simp del: exchanged.simps split: if_splits)
next
  case (ExSpin sd j mine i)
  with assms exchanged_rank [of sd None False p' m tp] spin_rank(2) [of s sd j mine "Suc i" p' m tp]
  show ?thesis by (auto simp del: exchanged.simps split: if_splits option.splits)
next
  case (ExWithdraw sd j mine)
  with assms exchanged_rank [of sd None False p' m tp] show ?thesis
    by (auto simp del: exchanged.simps split: if_splits)
next
  case (ExLast sd j)
  with assms exchanged_rank [of sd None False p' m tp] show ?thesis
    by (auto simp del: exchanged.simps split: option.splits)
next
  case (ExReset sd j c)
  with assms exchanged_rank [of sd "sv_item c" True p' m tp] show ?thesis
    by (auto simp del: exchanged.simps)
next
  case (ExMatch sd j cur)
  with assms exchanged_rank [of sd "sv_item cur" True p' m tp] exchanged_rank [of sd None False p' m tp]
  show ?thesis by (auto simp del: exchanged.simps split: if_splits)
qed (use assms in auto)

lemma embed_Busy: "embed x = Busy p \<longleftrightarrow> (\<exists>q. x = Busy q \<and> p = Central q)"
  by (cases x) auto

lemma elim_rank_own:
  assumes step: "elim_step rand s t p = (s', Busy p')" and m: "spins s = m"
    and q: "top (central s') = top (central s)"
  shows "elim_rank m (top (central s')) p' < elim_rank m (top (central s)) p"
proof (cases "\<exists>c. p = Central c")
  case True
  then obtain c where c: "p = Central c" by blast
  show ?thesis
  proof (cases "cas_fails (central s) c")
    case None
    then show ?thesis using step q
      by (cases c) (auto simp: c elim_step_def central_step_def stack_step_def embed_Busy split: if_splits option.splits)
  next
    case (Some sd)
    then show ?thesis using step q
      by (cases c) (auto simp: c elim_step_def central_step_def split: if_splits)
  qed
next
  case False
  then have "exchange_step s p = (s', Busy p')" using step by (cases p) (simp_all add: elim_step_def)
  from exchange_rank [OF this m] show ?thesis by (simp add: q)
qed

lemma exchange_spins: "exchange_step s p = (s', x) \<Longrightarrow> spins s' = spins s"
  by (cases p) (auto split: option.splits exState.splits if_splits)

lemma elim_spins: "spins (fst (run (elim_machine n m rand) acts)) = m"
proof (rule run_invariant [where I = "\<lambda>s th. spins s = m"])
  show "spins (sh0 (elim_machine n m rand)) = m" by (simp add: newEliminationStack_def)
next
  fix s th t oper s' p
  assume "spins s = m" "beg (elim_machine n m rand) s t oper = (s', p)"
  then show "spins s' = m" by (auto split: prod.splits)
next
  fix s th t p s' x
  assume "spins s = m" "stp (elim_machine n m rand) s t p = (s', x)"
  then show "spins s' = m" using exchange_spins [of s p s' x]
    by (cases p) (auto simp: elim_step_def central_step_def split: option.splits if_splits prod.splits)
qed

lemma elim_progress:
  "progress (elim_machine n m rand) (\<lambda>s t. elim_rank m (top (central (fst s)))) elim_unmoved (12 + m)"
proof
  fix s :: "('a elim_stack, 'a elim_pc, 'a resp) sys" and t p p'
  assume r: "reachable (elim_machine n m rand) s" and b: "snd s t = Busy p"
    and q: "elim_unmoved s (sys_step (elim_machine n m rand) s (Step t))"
      "snd (sys_step (elim_machine n m rand) s (Step t)) t = Busy p'"
  obtain s1 x where st: "elim_step rand (fst s) t p = (s1, x)" by fastforce
  have e: "sys_step (elim_machine n m rand) s (Step t) = (s1, (snd s)(t := x))"
    using b st by (cases s) simp
  have "spins (fst s) = m" using r elim_spins unfolding reachable_def by auto
  then show "elim_rank m (top (central (fst (sys_step (elim_machine n m rand) s (Step t))))) p' <
      elim_rank m (top (central (fst s))) p"
    using elim_rank_own [of rand "fst s" t p s1 p' m] st q by (simp add: e elim_unmoved_def)
qed (simp_all add: elim_rank_pos elim_unmoved_def)

subsection \<open>Properties\<close>

text \<open>
  C11: with at least one slot, whatever slots are drawn and however long a waiter spins, every
  schedule of Push and Pop on the elimination stack is linearizable to a sequential stack and
  free of panics: an eliminated pair takes effect as a push followed at once by its pop.
\<close>

theorem elim_stack_linearizable:
  fixes rand :: "nat \<Rightarrow> nat"
  assumes "0 < n"
  shows "linearizable stack_spec [] (history (elim_machine n m rand) acts) \<and>
    snd (run (elim_machine n m rand) acts) t \<noteq> Panic"
  using sim_machine.linearizable [OF elim_sim [OF assms]] sim_machine.no_panic [OF elim_sim [OF assms]]
  by blast

text \<open>
  A schedule in which goroutine 0 pushes 1 and goroutine 3 pops it in the only slot, while the
  values 9 and 8 are on the central stack.
\<close>

definition elimination_schedule :: "int stack_op action list" where
  "elimination_schedule =
     [Start 0 (Push 1), Step 0, Step 0, Start 2 (Push 9)] @ replicate 5 (Step 2) @
     [Start 3 Pop, Step 3, Step 3, Start 4 (Push 8)] @ replicate 5 (Step 4) @
     [Step 0, Step 0, Step 0] @ replicate 5 (Step 3) @ replicate 4 (Step 0)"

lemma elimination_history:
  "history (elim_machine 1 1 (\<lambda>_. 0)) elimination_schedule =
     [Inv 0 (Push 1), Inv 2 (Push 9), Res 2 Ack, Inv 3 Pop, Inv 4 (Push 8), Res 4 Ack,
      Res 3 (Got (Some 1)), Res 0 Ack]"
  by (simp add: elimination_schedule_def history_def start_sys_def elim_step_def central_step_def
      stack_step_def newEliminationStack_def NewStack_def spin_or_withdraw_def slot_is_def
      numeral_eq_Suc)

theorem elim_stack_linearizable_witness:
  "linearizable stack_spec [] [Inv 0 (Push (1 :: int)), Inv 2 (Push 9), Res 2 Ack, Inv 3 Pop,
     Inv 4 (Push 8), Res 4 Ack, Res 3 (Got (Some 1)), Res 0 Ack]"
  using elim_stack_linearizable [of 1 1 "\<lambda>_. 0" elimination_schedule 0]
  unfolding elimination_history by simp

text \<open>
  C27: The elimination stack is lock-free: a call that takes \<open>12 + m\<close> own steps while no CAS on \<open>top\<close>
  succeeds, \<open>m\<close> being the number of spins, has finished. With the default of 32 spins, 44 steps.
\<close>

theorem elim_stack_lock_free:
  fixes rand :: "nat \<Rightarrow> nat"
  assumes "quiet_run (elim_machine n m rand) elim_unmoved (run (elim_machine n m rand) acts) acts'"
    and "12 + m \<le> own_steps t acts'"
  shows "finishes (elim_machine n m rand) t (run (elim_machine n m rand) acts) acts'"
  using progress.finishes_within [OF elim_progress reachable_run assms] .

text \<open>A pop whose copy of \<open>top\<close> is stale: it fails its CAS, waits in the slot, and finds the stack empty.\<close>

definition stale_pop :: "int stack_op action list" where
  "stale_pop = [Start 1 (Push 7)] @ replicate 5 (Step 1) @ [Start 0 Pop, Step 0, Step 0, Start 1 Pop] @
     replicate 3 (Step 1)"

theorem elim_stack_lock_free_witness:
  "finishes (elim_machine 1 0 (\<lambda>_. 0)) 0 (run (elim_machine 1 0 (\<lambda>_. 0)) stale_pop) (replicate 12 (Step 0))"
  by (rule elim_stack_lock_free)
    (simp_all add: stale_pop_def run_def start_sys_def newEliminationStack_def NewStack_def elim_unmoved_def
      elim_step_def central_step_def stack_step_def spin_or_withdraw_def slot_is_def numeral_eq_Suc)

end
