(* ===== verification/Split_Order.thy ===== *)
theory Split_Order
  imports Prelude
begin

text \<open>
  The split order of \<open>lf/splithashmap.go\<close>: the sort keys of the elements and of the bucket
  sentinels are bit-reversed hashes and bucket numbers. Doubling the number of buckets splits
  every bucket in two without moving an element, because the elements of a bucket are exactly
  those between its sentinel and the next one.
\<close>

subsection \<open>Model\<close>

definition Reverse32 :: "u32 \<Rightarrow> u32" where
  "Reverse32 w = word_reverse w"

definition soRegular :: "u32 \<Rightarrow> u64" where
  "soRegular h = ucast (Reverse32 (h OR 0x80000000))"

definition soDummy :: "u64 \<Rightarrow> u64" where
  "soDummy b = ucast (Reverse32 (ucast b))"

text \<open>\<open>bits.Len64\<close>: the number of bits needed to write the argument.\<close>

fun bit_len :: "nat \<Rightarrow> nat" where
  "bit_len n = (if n = 0 then 0 else Suc (bit_len (n div 2)))"

declare bit_len.simps [simp del]

definition Len64 :: "u64 \<Rightarrow> nat" where
  "Len64 b = bit_len (unat b)"

text \<open>Go shifts a \<open>uint64\<close>; the count is not negative because the argument is not 0.\<close>

definition parentBucket :: "u64 \<Rightarrow> u64" where
  "parentBucket b = b AND NOT (push_bit (Len64 b - 1) 1)"

subsection \<open>Bits\<close>

lemma bit_top: "bit (0x80000000 :: u32) i \<longleftrightarrow> i = 31"
proof -
  have "(0x80000000 :: u32) = 2 ^ 31" by simp
  moreover have "bit ((2 :: u32) ^ 31) i \<longleftrightarrow> i = 31" by (auto simp only: bit_exp_iff possible_bit_word) simp
  ultimately show ?thesis by metis
qed

lemma bit_soRegular: "bit (soRegular h) n \<longleftrightarrow> n < 32 \<and> (n = 0 \<or> bit h (31 - n))"
  using bit_top [of "31 - n"]
  by (auto simp: soRegular_def Reverse32_def bit_ucast_iff bit_word_reverse_iff bit_or_iff)

lemma bit_soDummy: "bit (soDummy b) n \<longleftrightarrow> n < 32 \<and> bit b (31 - n)"
  by (auto simp: soDummy_def Reverse32_def bit_ucast_iff bit_word_reverse_iff)

lemma soRegular_odd: "odd (soRegular h)"
  using bit_soRegular [of h 0] by (simp add: bit_0)

lemma word_bit_unat: "bit (w :: 'a :: len word) i \<longleftrightarrow> odd (unat w div 2 ^ i)"
proof -
  have "bit (unat w) i \<longleftrightarrow> bit w i" by (simp add: bit_unsigned_iff possible_bit_def)
  then show ?thesis by (simp add: bit_iff_odd)
qed

lemma unat_two_power: "m < 64 \<Longrightarrow> unat ((2 :: u64) ^ m) = 2 ^ m"
proof -
  assume "m < 64"
  then have "(2 :: nat) ^ m < 2 ^ 64" by (rule power_strict_increasing) simp
  then have "unat (of_nat (2 ^ m) :: u64) = 2 ^ m" by (subst unat_of_nat) simp
  then show ?thesis by simp
qed

lemma small_bits:
  assumes "(b :: u64) < 2 ^ m" and "m < 64" and "bit b i"
  shows "i < m"
proof (rule ccontr)
  assume "\<not> i < m"
  have "unat b < 2 ^ m" using assms(1,2) by (simp add: word_less_nat_alt unat_two_power)
  also have "(2::nat) ^ m \<le> 2 ^ i" using \<open>\<not> i < m\<close> by simp
  finally show False using assms(3) by (simp add: word_bit_unat)
qed

lemma soDummy_even: "b < 2 ^ 31 \<Longrightarrow> even (soDummy b)"
  using bit_soDummy [of b 0] small_bits [of b 31 31] by (auto simp: bit_0)

subsection \<open>The order\<close>

text \<open>
  With \<open>2 ^ m\<close> buckets, the upper \<open>m\<close> of the 32 bits say which bucket a sort key belongs to; a
  sentinel has no other bits, and an element has its lowest bit set.
\<close>

definition zone :: "nat \<Rightarrow> u64 \<Rightarrow> nat" where
  "zone m w = unat w div 2 ^ (32 - m)"

lemma unat_less: "(a :: u64) < b \<longleftrightarrow> unat a < unat b"
  by (rule word_less_nat_alt)

lemma zone_eq: "m \<le> 32 \<Longrightarrow> zone m v = zone m w \<longleftrightarrow> (\<forall>n \<ge> 32 - m. bit v n \<longleftrightarrow> bit w n)"
proof -
  assume m: "m \<le> 32"
  have z: "zone m w = unat (drop_bit (32 - m) w)" for w
    unfolding zone_def unat_drop_bit_eq by (rule drop_bit_eq_div [symmetric])
  have "zone m v = zone m w \<longleftrightarrow> drop_bit (32 - m) v = drop_bit (32 - m) w"
    unfolding z by (rule word_unat_eq_iff [symmetric])
  also have "\<dots> \<longleftrightarrow> (\<forall>n. bit v (32 - m + n) \<longleftrightarrow> bit w (32 - m + n))"
  proof
    assume e: "drop_bit (32 - m) v = drop_bit (32 - m) w"
    have "bit (drop_bit (32 - m) v) n \<longleftrightarrow> bit (drop_bit (32 - m) w) n" for n by (simp only: e)
    then show "\<forall>n. bit v (32 - m + n) \<longleftrightarrow> bit w (32 - m + n)" by (simp only: bit_drop_bit_eq comp_apply) blast
  next
    assume "\<forall>n. bit v (32 - m + n) \<longleftrightarrow> bit w (32 - m + n)"
    then show "drop_bit (32 - m) v = drop_bit (32 - m) w" by (auto simp: bit_eq_iff bit_drop_bit_eq)
  qed
  also have "\<dots> \<longleftrightarrow> (\<forall>n \<ge> 32 - m. bit v n \<longleftrightarrow> bit w n)" by (metis le_add1 le_add_diff_inverse)
  finally show ?thesis .
qed

lemma soDummy_multiple:
  assumes "b < 2 ^ m" and "m \<le> 32"
  shows "unat (soDummy b) = zone m (soDummy b) * 2 ^ (32 - m)"
proof -
  have "\<not> bit (soDummy b) n" if "n < 32 - m" for n
  proof
    assume "bit (soDummy b) n"
    then have "n < 32" "bit b (31 - n)" by (simp_all add: bit_soDummy)
    from small_bits [OF assms(1) _ this(2)] assms(2) that show False by simp
  qed
  then have "take_bit (32 - m) (soDummy b) = 0" by (simp add: bit_eq_iff bit_take_bit_iff)
  then have "unat (take_bit (32 - m) (soDummy b)) = 0" by simp
  then have "take_bit (32 - m) (unat (soDummy b)) = 0" by (simp add: unsigned_take_bit_eq)
  then have "unat (soDummy b) mod 2 ^ (32 - m) = 0" by (simp add: take_bit_eq_mod)
  then show ?thesis unfolding zone_def by (metis add.right_neutral div_mult_mod_eq)
qed

lemma soDummy_le_zone:
  assumes "b < 2 ^ m" and "m \<le> 32"
  shows "soDummy b \<le> w \<longleftrightarrow> zone m (soDummy b) \<le> zone m w"
    and "w < soDummy b \<longleftrightarrow> zone m w < zone m (soDummy b)"
proof -
  have "zone m (soDummy b) * 2 ^ (32 - m) \<le> unat w \<longleftrightarrow> zone m (soDummy b) \<le> zone m w"
    unfolding zone_def by (rule less_eq_div_iff_mult_less_eq [symmetric]) simp
  then show A: "soDummy b \<le> w \<longleftrightarrow> zone m (soDummy b) \<le> zone m w"
    using soDummy_multiple [OF assms] by (simp add: word_le_nat_alt)
  then show "w < soDummy b \<longleftrightarrow> zone m w < zone m (soDummy b)" by (simp flip: not_le)
qed

lemma zone_bucket:
  assumes "b < 2 ^ m" and "m \<le> 31"
  shows "zone m (soRegular h) = zone m (soDummy b) \<longleftrightarrow> ucast h mod 2 ^ m = b"
proof -
  have "zone m (soRegular h) = zone m (soDummy b) \<longleftrightarrow>
      (\<forall>n \<ge> 32 - m. n < 32 \<longrightarrow> (bit h (31 - n) \<longleftrightarrow> bit b (31 - n)))"
    using assms(2) by (auto simp: zone_eq bit_soRegular bit_soDummy)
  also have "\<dots> \<longleftrightarrow> (\<forall>i < m. bit h i \<longleftrightarrow> bit b i)"
  proof (rule iffI; intro allI impI)
    fix i
    assume a: "\<forall>n \<ge> 32 - m. n < 32 \<longrightarrow> (bit h (31 - n) \<longleftrightarrow> bit b (31 - n))" and i: "i < m"
    have "31 - (31 - i) = i" "32 - m \<le> 31 - i" using i assms(2) by simp_all
    then show "bit h i \<longleftrightarrow> bit b i" using a [rule_format, of "31 - i"] by simp
  next
    fix n
    assume "\<forall>i < m. bit h i \<longleftrightarrow> bit b i" "32 - m \<le> n" "n < 32"
    then show "bit h (31 - n) \<longleftrightarrow> bit b (31 - n)" using assms(2) by simp
  qed
  also have "\<dots> \<longleftrightarrow> take_bit m (ucast h) = b"
  proof
    assume a: "\<forall>i < m. bit h i \<longleftrightarrow> bit b i"
    have "bit (take_bit m (ucast h :: u64)) n \<longleftrightarrow> bit b n" for n
      using a small_bits [OF assms(1), of n] assms(2) bit_imp_le_length [of h n]
      by (auto simp: bit_take_bit_iff bit_ucast_iff)
    then show "take_bit m (ucast h) = b" by (simp add: bit_eq_iff)
  next
    assume "take_bit m (ucast h) = b"
    then show "\<forall>i < m. bit h i \<longleftrightarrow> bit b i" using assms(2) by (auto simp: bit_take_bit_iff bit_ucast_iff)
  qed
  finally show ?thesis by (simp add: take_bit_eq_mod)
qed

text \<open>The sentinel of the bucket of an element comes before it.\<close>

lemma soDummy_before:
  assumes "m \<le> 31"
  shows "soDummy (ucast h mod 2 ^ m) < soRegular h"
proof -
  have b: "ucast h mod 2 ^ m < (2 :: u64) ^ m"
    using assms by (intro word_mod_less_divisor) (simp add: unat_less unat_two_power)
  have "soDummy (ucast h mod 2 ^ m) \<le> soRegular h"
    using zone_bucket [OF b assms, of h] soDummy_le_zone(1) [OF b] assms by simp
  moreover have "(ucast h mod 2 ^ m :: u64) < 2 ^ 31"
  proof -
    have "(2 :: nat) ^ m \<le> 2 ^ 31" using assms by (intro power_increasing) simp_all
    then show ?thesis using b assms by (simp add: unat_less unat_two_power)
  qed
  then have "soDummy (ucast h mod 2 ^ m) \<noteq> soRegular h" using soDummy_even soRegular_odd by metis
  ultimately show ?thesis by simp
qed

text \<open>The sentinel of the parent bucket comes before that of the bucket.\<close>

lemma bit_len_bound: "0 < n \<Longrightarrow> 2 ^ (bit_len n - 1) \<le> n \<and> n < 2 ^ bit_len n"
proof (induction n rule: bit_len.induct)
  case (1 n)
  show ?case
  proof (cases "n = 1")
    case True
    then show ?thesis by (simp add: bit_len.simps)
  next
    case False
    with 1 have IH: "2 ^ (bit_len (n div 2) - 1) \<le> n div 2" "n div 2 < 2 ^ bit_len (n div 2)" by simp_all
    have e: "bit_len n = Suc (bit_len (n div 2))" using 1(2) by (subst bit_len.simps) simp
    have "0 < bit_len (n div 2)" using False 1(2) by (subst bit_len.simps) simp
    then obtain j where j: "bit_len (n div 2) = Suc j" using gr0_conv_Suc by blast
    have "2 * (n div 2) \<le> n" "n < 2 * (n div 2) + 2" by simp_all
    then show ?thesis using IH unfolding e j diff_Suc_1 power_Suc by linarith
  qed
qed

lemma Len64_bit:
  assumes "b \<noteq> 0"
  shows "bit b (Len64 b - 1)"
proof -
  have u: "0 < unat b" using assms by (simp add: unat_gt_0)
  note B = bit_len_bound [OF u]
  have "0 < bit_len (unat b)" using u by (subst bit_len.simps) simp
  then have "unat b < 2 * 2 ^ (bit_len (unat b) - 1)" using B by (metis Suc_pred' power_Suc)
  then have "unat b div 2 ^ (bit_len (unat b) - 1) = 1" using B by (intro div_nat_eqI) simp_all
  then show ?thesis by (simp add: word_bit_unat Len64_def)
qed

lemma parent_bit: "bit (parentBucket b) n \<longleftrightarrow> bit b n \<and> n \<noteq> Len64 b - 1"
  using bit_imp_le_length [of b n]
  by (auto simp: parentBucket_def bit_and_iff bit_not_iff bit_exp_iff possible_bit_def)

lemma clear_bit_less:
  assumes "\<And>n. bit (v :: u64) n \<longleftrightarrow> bit w n \<and> n \<noteq> i" and "bit w i"
  shows "v < w"
proof -
  have "v AND w = v" using assms(1) by (intro bit_word_eqI) (auto simp: bit_and_iff)
  then have "v \<le> w" by (metis word_and_le1)
  moreover have "v \<noteq> w" using assms by blast
  ultimately show ?thesis by simp
qed

lemma parentBucket_less: "b \<noteq> 0 \<Longrightarrow> parentBucket b < b"
  by (rule clear_bit_less [OF parent_bit Len64_bit])

lemma soDummy_parent:
  assumes "b \<noteq> 0" and "b < 2 ^ 32"
  shows "soDummy (parentBucket b) < soDummy b"
proof (rule clear_bit_less)
  have l: "Len64 b - 1 < 32" using small_bits [OF assms(2) _ Len64_bit [OF assms(1)]] by simp
  show "bit (soDummy (parentBucket b)) n \<longleftrightarrow> bit (soDummy b) n \<and> n \<noteq> 31 - (Len64 b - 1)" for n
    using l by (auto simp: bit_soDummy parent_bit)
  show "bit (soDummy b) (31 - (Len64 b - 1))" using l Len64_bit [OF assms(1)] by (simp add: bit_soDummy)
qed

text \<open>Each step to the parent clears the highest bit.\<close>

lemma below_two_power:
  assumes "\<And>n. bit (w :: u64) n \<Longrightarrow> n < m"
  shows "unat w < 2 ^ m"
proof -
  have "take_bit m w = w" using assms by (auto simp: bit_eq_iff bit_take_bit_iff)
  then have "unat w = take_bit m (unat w)" by (metis unsigned_take_bit_eq)
  also have "\<dots> < 2 ^ m" by simp
  finally show ?thesis .
qed

lemma parentBucket_half:
  assumes "unat b < 2 ^ Suc m" and "b \<noteq> 0"
  shows "unat (parentBucket b) < 2 ^ m"
proof (rule below_two_power)
  fix n
  assume "bit (parentBucket b) n"
  then have n: "bit b n" "n \<noteq> Len64 b - 1" by (simp_all add: parent_bit)
  have top: "unat b < 2 ^ Len64 b" "2 ^ (Len64 b - 1) \<le> unat b"
    using bit_len_bound [of "unat b"] assms(2) by (simp_all add: Len64_def unat_gt_0)
  have "n < Len64 b"
  proof (rule ccontr)
    assume "\<not> n < Len64 b"
    then have "(2 :: nat) ^ Len64 b \<le> 2 ^ n" by simp
    with top(1) have "unat b < 2 ^ n" by (rule less_le_trans)
    then show False using n(1) by (simp add: word_bit_unat)
  qed
  moreover have "(2 :: nat) ^ (Len64 b - 1) < 2 ^ Suc m" using top(2) assms(1) by (rule le_less_trans)
  then have "Len64 b - 1 < Suc m" by (simp only: power_strict_increasing_iff one_less_numeral_iff semiring_norm)
  ultimately show "n < m" using n(2) by simp
qed

end
