(* ===== verification/Split_Map.thy ===== *)
theory Split_Map
  imports Split_Order Hash_Map
begin

text \<open>
  \<open>lf/splithashmap.go\<close>: the split-ordered hash table, the model. All elements and the sentinels of
  the buckets are in one list sorted by split-order key. The bucket table is an array of segments
  that are allocated when first used; a bucket is initialized when first used, after its parent.
\<close>

subsection \<open>Memory\<close>

text \<open>
  \<open>next\<close> is an atomic pointer to an immutable pair, as in the ordered list: \<open>pver\<close> stands for the
  identity of the stored pair and is 0 while the pointer is \<open>nil\<close>, which reads as \<open>(nil, false)\<close>.
\<close>

record ('k, 'v) soNode =
  soKey :: u64
  okey :: 'k
  oval :: 'v
  dummy :: bool
  pref :: ptr
  pmark :: bool
  pver :: nat

definition soSegmentShift :: nat where "soSegmentShift = 8"
definition soSegmentSize :: nat where "soSegmentSize = 2 ^ soSegmentShift"
definition soMaxBuckets :: u64 where "soMaxBuckets = push_bit 16 1"
definition soSegments :: nat where "soSegments = unat soMaxBuckets div soSegmentSize"
definition soLoadFactor :: u64 where "soLoadFactor = 4"

type_synonym bucketSegment = "ptr list"

record ('k, 'v) split_map =
  segments :: "bucketSegment option list"
  ohead :: loc
  osize :: u64
  ocount :: u64
  onodes :: "loc \<Rightarrow> ('k, 'v) soNode"
  obrk :: loc

text \<open>\<open>zero\<close> is the zero value of the key type, the key of every sentinel.\<close>

definition new_soNode :: "u64 \<Rightarrow> 'k \<Rightarrow> 'v \<Rightarrow> bool \<Rightarrow> ('k, 'v) soNode" where
  "new_soNode so k v d = \<lparr>soKey = so, okey = k, oval = v, dummy = d, pref = None, pmark = False, pver = 0\<rparr>"

text \<open>The head is cell 1; cell 0 is not used.\<close>

definition NewSplitHashMap :: "'k \<Rightarrow> ('k, 'v) split_map" where
  "NewSplitHashMap zero =
     \<lparr>segments = (replicate soSegments None)[0 := Some ((replicate soSegmentSize None)[0 := Some 1])],
      ohead = 1, osize = 2, ocount = 0, onodes = (\<lambda>_. new_soNode 0 zero undefined True), obrk = 2\<rparr>"

subsection \<open>Comparisons and markable references\<close>

definition nodeLess :: "('k \<Rightarrow> 'k \<Rightarrow> bool) \<Rightarrow> ('k, 'v) soNode \<Rightarrow> u64 \<Rightarrow> 'k \<Rightarrow> bool" where
  "nodeLess lt n so k = (if soKey n \<noteq> so then soKey n < so else lt (okey n) k)"

definition nodeEqual :: "('k \<Rightarrow> 'k \<Rightarrow> bool) \<Rightarrow> ('k, 'v) soNode option \<Rightarrow> u64 \<Rightarrow> 'k \<Rightarrow> bool \<Rightarrow> bool" where
  "nodeEqual lt n so k d = (case n of None \<Rightarrow> False | Some x \<Rightarrow>
     if soKey x \<noteq> so then False
     else if d \<or> dummy x then dummy x = d
     else \<not> lt (okey x) k \<and> \<not> lt k (okey x))"

definition so_cas_first :: "('k, 'v) soNode \<Rightarrow> ptr \<Rightarrow> ptr \<Rightarrow> bool \<Rightarrow> bool \<Rightarrow> cas_load" where
  "so_cas_first n expectRef newRef expectMark newMark =
     (if pref n \<noteq> expectRef \<or> pmark n \<noteq> expectMark then CasFails
      else if newRef = pref n \<and> newMark = pmark n then CasHolds
      else CasTry (pver n))"

definition so_set :: "('k, 'v) split_map \<Rightarrow> loc \<Rightarrow> ptr \<Rightarrow> bool \<Rightarrow> ('k, 'v) split_map" where
  "so_set s l r m = s\<lparr>onodes := (onodes s)(l := (onodes s l)\<lparr>pref := r, pmark := m,
     pver := Suc (pver (onodes s l))\<rparr>)\<rparr>"

definition so_cas_second :: "('k, 'v) split_map \<Rightarrow> loc \<Rightarrow> nat \<Rightarrow> ptr \<Rightarrow> bool \<Rightarrow> ('k, 'v) split_map option" where
  "so_cas_second s l ver r m = (if pver (onodes s l) = ver then Some (so_set s l r m) else None)"

subsection \<open>Program counters\<close>

text \<open>A call with its arguments; \<open>Set\<close> has made its node before it looks for the bucket.\<close>

datatype ('k, 'v) so_call = SoSet 'k 'v loc | SoGet 'k | SoDel 'k

fun so_key :: "('k, 'v) so_call \<Rightarrow> 'k" where
  "so_key (SoSet k v n) = k"
| "so_key (SoGet k) = k"
| "so_key (SoDel k) = k"

text \<open>
  The caller of \<open>bucketPtr\<close>: \<open>bucket\<close>, or \<open>initBucket\<close> with the buckets of the calls of \<open>initBucket\<close>
  around it, innermost first.
\<close>

datatype ptr_user = ForBucket | ForInit "u64 list"

text \<open>What \<open>search\<close> is used for: \<open>listInsert\<close> of a sentinel, \<open>listInsert\<close> of an element, \<open>Del\<close>.\<close>

datatype ('k, 'v) so_job =
    JDummy loc u64 "u64 list" "('k, 'v) so_call"
  | JItem 'k 'v loc
  | JDel 'k

datatype ('k, 'v) so_pc =
    BSize "('k, 'v) so_call"                        \<comment> \<open>\<open>h.size.Load()\<close> in \<open>bucket\<close>\<close>
  | PSeg "('k, 'v) so_call" u64 ptr_user            \<comment> \<open>\<open>s := h.segments[seg].Load()\<close>\<close>
  | PNew "('k, 'v) so_call" u64 ptr_user            \<comment> \<open>\<open>h.segments[seg].CompareAndSwap(nil, s)\<close>\<close>
  | PAgain "('k, 'v) so_call" u64 ptr_user          \<comment> \<open>the second \<open>h.segments[seg].Load()\<close>\<close>
  | PSlot "('k, 'v) so_call" u64 ptr_user           \<comment> \<open>\<open>ptr.Load()\<close>\<close>
  | PCas "('k, 'v) so_call" u64 loc "u64 list"      \<comment> \<open>\<open>ptr.CompareAndSwap(nil, got)\<close>\<close>
  | PFin "('k, 'v) so_call" u64 "u64 list"          \<comment> \<open>\<open>return ptr.Load()\<close>\<close>
  | LHead "('k, 'v) so_job" loc                     \<comment> \<open>\<open>curr = pred.next.reference()\<close>\<close>
  | LGet "('k, 'v) so_job" loc loc loc              \<comment> \<open>\<open>succ, marked := curr.next.get()\<close>\<close>
  | LUnl "('k, 'v) so_job" loc loc loc ptr          \<comment> \<open>\<open>pred.next.compareAndSet(curr, succ, ..)\<close>, load\<close>
  | LUnlCas "('k, 'v) so_job" loc loc loc ptr nat   \<comment> \<open>the same, compare-and-swap\<close>
  | LIns "('k, 'v) so_job" loc loc ptr              \<comment> \<open>\<open>pred.next.compareAndSet(curr, n, ..)\<close>, load\<close>
  | LInsCas "('k, 'v) so_job" loc loc ptr nat       \<comment> \<open>the same, compare-and-swap\<close>
  | LVal 'v loc                                     \<comment> \<open>\<open>got.val.Store(&v)\<close>\<close>
  | LCount                                          \<comment> \<open>\<open>c := h.count.Add(1)\<close>\<close>
  | LSize u64                                       \<comment> \<open>\<open>csize := h.size.Load()\<close>\<close>
  | LGrow u64                                       \<comment> \<open>\<open>h.size.CompareAndSwap(csize, csize*2)\<close>\<close>
  | OGet 'k loc                                     \<comment> \<open>\<open>Get\<close>: \<open>succ, marked := curr.next.get()\<close>\<close>
  | OVal loc                                        \<comment> \<open>\<open>*curr.val.Load()\<close>\<close>
  | XGet 'k loc loc loc                             \<comment> \<open>\<open>Del\<close>: \<open>succ, marked := curr.next.get()\<close>\<close>
  | XMark 'k loc loc loc ptr                        \<comment> \<open>\<open>curr.next.compareAndSet(succ, succ, ..)\<close>, load\<close>
  | XMarkCas 'k loc loc loc ptr nat                 \<comment> \<open>the same, compare-and-swap\<close>
  | XLoad loc loc ptr                               \<comment> \<open>\<open>value := *curr.val.Load()\<close>\<close>
  | XUnl loc loc ptr 'v                             \<comment> \<open>\<open>pred.next.compareAndSet(curr, succ, ..)\<close>, load\<close>
  | XUnlCas loc loc ptr 'v nat                      \<comment> \<open>the same, compare-and-swap\<close>
  | XLen 'v                                         \<comment> \<open>\<open>h.count.Add(^uint64(0))\<close>\<close>

type_synonym ('k, 'v) so_thread = "(('k, 'v) so_pc, ('k, 'v) list_resp) thread"

subsection \<open>The bucket table\<close>

definition seg_of :: "u64 \<Rightarrow> nat" where "seg_of i = unat (drop_bit soSegmentShift i)"
definition slot_of :: "u64 \<Rightarrow> nat" where "slot_of i = unat (i AND (of_nat soSegmentSize - 1))"

definition slot_get :: "('k, 'v) split_map \<Rightarrow> u64 \<Rightarrow> ptr" where
  "slot_get s i = (case segments s ! seg_of i of None \<Rightarrow> None | Some xs \<Rightarrow> xs ! slot_of i)"

definition slot_put :: "('k, 'v) split_map \<Rightarrow> u64 \<Rightarrow> ptr \<Rightarrow> ('k, 'v) split_map" where
  "slot_put s i p = (case segments s ! seg_of i of None \<Rightarrow> s
     | Some xs \<Rightarrow> s\<lparr>segments := (segments s)[seg_of i := Some (xs[slot_of i := p])]\<rparr>)"

text \<open>The result of \<open>bucket\<close> starts the rest of the call. The loop of \<open>Get\<close> ends at \<open>nil\<close>.\<close>

definition get_at :: "'k \<Rightarrow> ptr \<Rightarrow> ('k, 'v) so_thread" where
  "get_at k p = (case p of None \<Rightarrow> Return (MapResp (Got None)) | Some cur \<Rightarrow> Busy (OGet k cur))"

fun enter :: "('k, 'v) so_call \<Rightarrow> ptr \<Rightarrow> ('k, 'v) so_thread" where
  "enter (SoSet k v n) p = deref p (\<lambda>start. Busy (LHead (JItem k v n) start))"
| "enter (SoGet k) p = get_at k p"
| "enter (SoDel k) p = deref p (\<lambda>start. Busy (LHead (JDel k) start))"

text \<open>\<open>initBucket\<close> makes its sentinel and calls \<open>listInsert\<close>; what its result is used for.\<close>

definition start_dummy :: "'k \<Rightarrow> ('k, 'v) split_map \<Rightarrow> ('k, 'v) so_call \<Rightarrow> u64 \<Rightarrow> u64 list \<Rightarrow> ptr \<Rightarrow>
    ('k, 'v) split_map \<times> ('k, 'v) so_thread" where
  "start_dummy zero s c b st p =
     (s\<lparr>onodes := (onodes s)(obrk s := new_soNode (soDummy b) zero undefined True), obrk := Suc (obrk s)\<rparr>,
      deref p (\<lambda>start. Busy (LHead (JDummy (obrk s) b st c) start)))"

definition init_return :: "'k \<Rightarrow> ('k, 'v) split_map \<Rightarrow> ('k, 'v) so_call \<Rightarrow> u64 list \<Rightarrow> ptr \<Rightarrow>
    ('k, 'v) split_map \<times> ('k, 'v) so_thread" where
  "init_return zero s c st p = (case st of [] \<Rightarrow> (s, enter c p) | b # st' \<Rightarrow> start_dummy zero s c b st' p)"

definition bucket_of :: "('k \<Rightarrow> u64) \<Rightarrow> ('k, 'v) split_map \<Rightarrow> 'k \<Rightarrow> u64" where
  "bucket_of hash s k = ucast (ucast (hash k) :: u32) mod osize s"

fun bucket_step :: "('k \<Rightarrow> u64) \<Rightarrow> 'k \<Rightarrow> ('k, 'v) split_map \<Rightarrow> ('k, 'v) so_pc \<Rightarrow>
    ('k, 'v) split_map \<times> ('k, 'v) so_thread" where
  "bucket_step hash zero s (BSize c) =
     (if osize s = 0 then (s, Panic) else (s, Busy (PSeg c (bucket_of hash s (so_key c)) ForBucket)))"
| "bucket_step hash zero s (PSeg c b w) =
     (if seg_of b < length (segments s)
      then (s, Busy (if segments s ! seg_of b = None then PNew c b w else PSlot c b w))
      else (s, Panic))"
| "bucket_step hash zero s (PNew c b w) =
     (if segments s ! seg_of b = None
      then (s\<lparr>segments := (segments s)[seg_of b := Some (replicate soSegmentSize None)]\<rparr>, Busy (PSlot c b w))
      else (s, Busy (PAgain c b w)))"
| "bucket_step hash zero s (PAgain c b w) =
     (if segments s ! seg_of b = None then (s, Panic) else (s, Busy (PSlot c b w)))"
| "bucket_step hash zero s (PSlot c b ForBucket) =
     (case slot_get s b of
        None \<Rightarrow> (s, Busy (PSeg c b (ForInit [])))
      | Some n \<Rightarrow> (s, enter c (Some n)))"
| "bucket_step hash zero s (PSlot c b (ForInit st)) =
     (case slot_get s b of
        Some n \<Rightarrow> init_return zero s c st (Some n)
      | None \<Rightarrow> if b \<noteq> 0 then (s, Busy (PSeg c (parentBucket b) (ForInit (b # st))))
                else start_dummy zero s c b st (Some (ohead s)))"
| "bucket_step hash zero s (PCas c b got st) =
     ((if slot_get s b = None then slot_put s b (Some got) else s), Busy (PFin c b st))"
| "bucket_step hash zero s (PFin c b st) = init_return zero s c st (slot_get s b)"
| "bucket_step hash zero s _ = (s, Panic)"

subsection \<open>The list\<close>

text \<open>The node that \<open>search\<close> looks for: the node to insert, or the local node of \<open>Del\<close>.\<close>

fun target :: "('k \<Rightarrow> u64) \<Rightarrow> ('k, 'v) split_map \<Rightarrow> ('k, 'v) so_job \<Rightarrow> u64 \<times> 'k \<times> bool" where
  "target hash s (JDummy n b st c) = (soKey (onodes s n), okey (onodes s n), dummy (onodes s n))"
| "target hash s (JItem k v n) = (soKey (onodes s n), okey (onodes s n), dummy (onodes s n))"
| "target hash s (JDel k) = (soRegular (ucast (hash k)), k, False)"

definition job_less :: "('k \<Rightarrow> 'k \<Rightarrow> bool) \<Rightarrow> ('k \<Rightarrow> u64) \<Rightarrow> ('k, 'v) split_map \<Rightarrow> ('k, 'v) so_job \<Rightarrow> loc \<Rightarrow> bool" where
  "job_less lt hash s j c = (case target hash s j of (so, k, d) \<Rightarrow> nodeLess lt (onodes s c) so k)"

definition job_equal :: "('k \<Rightarrow> 'k \<Rightarrow> bool) \<Rightarrow> ('k \<Rightarrow> u64) \<Rightarrow> ('k, 'v) split_map \<Rightarrow> ('k, 'v) so_job \<Rightarrow> ptr \<Rightarrow> bool" where
  "job_equal lt hash s j c =
     (case target hash s j of (so, k, d) \<Rightarrow> nodeEqual lt (map_option (onodes s) c) so k d)"

text \<open>The results of \<open>listInsert\<close>: the node in place, and whether it is the new one.\<close>

fun inserted :: "('k, 'v) so_job \<Rightarrow> loc \<Rightarrow> bool \<Rightarrow> ('k, 'v) so_thread" where
  "inserted (JDummy n b st c) got ins = Busy (PCas c b got st)"
| "inserted (JItem k v n) got ins = Busy (if ins then LCount else LVal v got)"
| "inserted (JDel k) got ins = Panic"

text \<open>The results \<open>pred\<close> and \<open>curr\<close> of \<open>search\<close>.\<close>

fun searched :: "('k \<Rightarrow> 'k \<Rightarrow> bool) \<Rightarrow> ('k \<Rightarrow> u64) \<Rightarrow> ('k, 'v) split_map \<Rightarrow> ('k, 'v) so_job \<Rightarrow> loc \<Rightarrow> loc \<Rightarrow> ptr \<Rightarrow>
    ('k, 'v) split_map \<times> ('k, 'v) so_thread" where
  "searched lt hash s (JDel k) start pred cur =
     (if job_equal lt hash s (JDel k) cur then (s, deref cur (\<lambda>c. Busy (XGet k start pred c)))
      else (s, Return (MapResp (Got None))))"
| "searched lt hash s (JDummy n b st c) start pred cur =
     (if job_equal lt hash s (JDummy n b st c) cur then (s, deref cur (\<lambda>got. inserted (JDummy n b st c) got False))
      else (so_set s n cur False, Busy (LIns (JDummy n b st c) start pred cur)))"
| "searched lt hash s (JItem k v n) start pred cur =
     (if job_equal lt hash s (JItem k v n) cur then (s, deref cur (\<lambda>got. inserted (JItem k v n) got False))
      else (so_set s n cur False, Busy (LIns (JItem k v n) start pred cur)))"

fun job_node :: "('k, 'v) so_job \<Rightarrow> loc" where
  "job_node (JDummy n b st c) = n"
| "job_node (JItem k v n) = n"
| "job_node (JDel k) = 0"

definition search_at :: "('k \<Rightarrow> 'k \<Rightarrow> bool) \<Rightarrow> ('k \<Rightarrow> u64) \<Rightarrow> ('k, 'v) split_map \<Rightarrow> ('k, 'v) so_job \<Rightarrow> loc \<Rightarrow> loc \<Rightarrow>
    ptr \<Rightarrow> ('k, 'v) split_map \<times> ('k, 'v) so_thread" where
  "search_at lt hash s j start pred cur =
     (case cur of None \<Rightarrow> searched lt hash s j start pred None | Some c \<Rightarrow> (s, Busy (LGet j start pred c)))"

fun so_search_step :: "('k \<Rightarrow> 'k \<Rightarrow> bool) \<Rightarrow> ('k \<Rightarrow> u64) \<Rightarrow> ('k, 'v) split_map \<Rightarrow> ('k, 'v) so_pc \<Rightarrow>
    ('k, 'v) split_map \<times> ('k, 'v) so_thread" where
  "so_search_step lt hash s (LHead j start) = search_at lt hash s j start start (pref (onodes s start))"
| "so_search_step lt hash s (LGet j start pred c) =
     (if pmark (onodes s c) then (s, Busy (LUnl j start pred c (pref (onodes s c))))
      else if job_less lt hash s j c then search_at lt hash s j start c (pref (onodes s c))
      else searched lt hash s j start pred (Some c))"
| "so_search_step lt hash s (LUnl j start pred c succ) =
     (case so_cas_first (onodes s pred) (Some c) succ False False of
        CasFails \<Rightarrow> (s, Busy (LHead j start))
      | CasHolds \<Rightarrow> search_at lt hash s j start pred succ
      | CasTry ver \<Rightarrow> (s, Busy (LUnlCas j start pred c succ ver)))"
| "so_search_step lt hash s (LUnlCas j start pred c succ ver) =
     (case so_cas_second s pred ver succ False of
        None \<Rightarrow> (s, Busy (LHead j start))
      | Some s' \<Rightarrow> search_at lt hash s' j start pred succ)"
| "so_search_step lt hash s _ = (s, Panic)"

text \<open>The rest of \<open>listInsert\<close> and of \<open>Set\<close>.\<close>

fun so_set_step :: "('k, 'v) split_map \<Rightarrow> ('k, 'v) so_pc \<Rightarrow> ('k, 'v) split_map \<times> ('k, 'v) so_thread" where
  "so_set_step s (LIns j start pred cur) =
     (case so_cas_first (onodes s pred) cur (Some (job_node j)) False False of
        CasFails \<Rightarrow> (s, Busy (LHead j start))
      | CasHolds \<Rightarrow> (s, inserted j (job_node j) True)
      | CasTry ver \<Rightarrow> (s, Busy (LInsCas j start pred cur ver)))"
| "so_set_step s (LInsCas j start pred cur ver) =
     (case so_cas_second s pred ver (Some (job_node j)) False of
        None \<Rightarrow> (s, Busy (LHead j start))
      | Some s' \<Rightarrow> (s', inserted j (job_node j) True))"
| "so_set_step s (LVal v got) =
     (s\<lparr>onodes := (onodes s)(got := (onodes s got)\<lparr>oval := v\<rparr>)\<rparr>, Return (MapResp Ack))"
| "so_set_step s LCount = (s\<lparr>ocount := ocount s + 1\<rparr>, Busy (LSize (ocount s + 1)))"
| "so_set_step s (LSize c) =
     (if c > osize s * soLoadFactor \<and> osize s < soMaxBuckets then (s, Busy (LGrow (osize s)))
      else (s, Return (MapResp Ack)))"
| "so_set_step s (LGrow csize) =
     ((if osize s = csize then s\<lparr>osize := csize * 2\<rparr> else s), Return (MapResp Ack))"
| "so_set_step s _ = (s, Panic)"

fun so_get_step :: "('k \<Rightarrow> 'k \<Rightarrow> bool) \<Rightarrow> ('k \<Rightarrow> u64) \<Rightarrow> ('k, 'v) split_map \<Rightarrow> ('k, 'v) so_pc \<Rightarrow>
    ('k, 'v) split_map \<times> ('k, 'v) so_thread" where
  "so_get_step lt hash s (OGet k c) =
     (let n = onodes s c; so = soRegular (ucast (hash k)) in
      if pmark n then (s, get_at k (pref n))
      else if soKey n > so then (s, Return (MapResp (Got None)))
      else if \<not> dummy n \<and> soKey n = so \<and> \<not> lt (okey n) k \<and> \<not> lt k (okey n) then (s, Busy (OVal c))
      else (s, get_at k (pref n)))"
| "so_get_step lt hash s (OVal c) = (s, Return (MapResp (Got (Some (oval (onodes s c))))))"
| "so_get_step lt hash s _ = (s, Panic)"

fun so_del_step :: "('k, 'v) split_map \<Rightarrow> ('k, 'v) so_pc \<Rightarrow> ('k, 'v) split_map \<times> ('k, 'v) so_thread" where
  "so_del_step s (XGet k start pred c) =
     (if pmark (onodes s c) then (s, Busy (LHead (JDel k) start))
      else (s, Busy (XMark k start pred c (pref (onodes s c)))))"
| "so_del_step s (XMark k start pred c succ) =
     (case so_cas_first (onodes s c) succ succ False True of
        CasFails \<Rightarrow> (s, Busy (LHead (JDel k) start))
      | CasHolds \<Rightarrow> (s, Busy (XLoad pred c succ))
      | CasTry ver \<Rightarrow> (s, Busy (XMarkCas k start pred c succ ver)))"
| "so_del_step s (XMarkCas k start pred c succ ver) =
     (case so_cas_second s c ver succ True of
        None \<Rightarrow> (s, Busy (LHead (JDel k) start))
      | Some s' \<Rightarrow> (s', Busy (XLoad pred c succ)))"
| "so_del_step s (XLoad pred c succ) = (s, Busy (XUnl pred c succ (oval (onodes s c))))"
| "so_del_step s (XUnl pred c succ v) =
     (case so_cas_first (onodes s pred) (Some c) succ False False of
        CasTry ver \<Rightarrow> (s, Busy (XUnlCas pred c succ v ver))
      | _ \<Rightarrow> (s, Busy (XLen v)))"
| "so_del_step s (XUnlCas pred c succ v ver) =
     (case so_cas_second s pred ver succ False of
        None \<Rightarrow> (s, Busy (XLen v))
      | Some s' \<Rightarrow> (s', Busy (XLen v)))"
| "so_del_step s (XLen v) = (s\<lparr>ocount := ocount s + NOT 0\<rparr>, Return (MapResp (Got (Some v))))"
| "so_del_step s _ = (s, Panic)"

subsection \<open>The machine\<close>

fun so_beg :: "('k \<Rightarrow> u64) \<Rightarrow> ('k, 'v) split_map \<Rightarrow> tid \<Rightarrow> ('k, 'v) list_op \<Rightarrow>
    ('k, 'v) split_map \<times> ('k, 'v) so_pc" where
  "so_beg hash s t (MapOp (SetKey k v)) =
     (s\<lparr>onodes := (onodes s)(obrk s := new_soNode (soRegular (ucast (hash k))) k v False), obrk := Suc (obrk s)\<rparr>,
      BSize (SoSet k v (obrk s)))"
| "so_beg hash s t (MapOp (GetKey k)) = (s, BSize (SoGet k))"
| "so_beg hash s t (MapOp (DelKey k)) = (s, BSize (SoDel k))"
| "so_beg hash s t (RangeOp from to) = (s, BSize (SoGet from))"

definition so_step :: "('k \<Rightarrow> 'k \<Rightarrow> bool) \<Rightarrow> ('k \<Rightarrow> u64) \<Rightarrow> 'k \<Rightarrow> ('k, 'v) split_map \<Rightarrow> tid \<Rightarrow> ('k, 'v) so_pc \<Rightarrow>
    ('k, 'v) split_map \<times> ('k, 'v) so_thread" where
  "so_step lt hash zero s t p =
     (case p of
        LHead _ _ \<Rightarrow> so_search_step lt hash s p | LGet _ _ _ _ \<Rightarrow> so_search_step lt hash s p
      | LUnl _ _ _ _ _ \<Rightarrow> so_search_step lt hash s p | LUnlCas _ _ _ _ _ _ \<Rightarrow> so_search_step lt hash s p
      | LIns _ _ _ _ \<Rightarrow> so_set_step s p | LInsCas _ _ _ _ _ \<Rightarrow> so_set_step s p
      | LVal _ _ \<Rightarrow> so_set_step s p | LCount \<Rightarrow> so_set_step s p | LSize _ \<Rightarrow> so_set_step s p
      | LGrow _ \<Rightarrow> so_set_step s p
      | OGet _ _ \<Rightarrow> so_get_step lt hash s p | OVal _ \<Rightarrow> so_get_step lt hash s p
      | XGet _ _ _ _ \<Rightarrow> so_del_step s p | XMark _ _ _ _ _ \<Rightarrow> so_del_step s p
      | XMarkCas _ _ _ _ _ _ \<Rightarrow> so_del_step s p | XLoad _ _ _ \<Rightarrow> so_del_step s p
      | XUnl _ _ _ _ \<Rightarrow> so_del_step s p | XUnlCas _ _ _ _ _ \<Rightarrow> so_del_step s p | XLen _ \<Rightarrow> so_del_step s p
      | _ \<Rightarrow> bucket_step hash zero s p)"

definition so_Len :: "('k, 'v) split_map \<Rightarrow> int" where
  "so_Len s = sint (ocount s)"

text \<open>\<open>Contains\<close> is the second result of \<open>Get\<close>. The table has no \<open>Range\<close>.\<close>

definition split_machine :: "('k \<Rightarrow> 'k \<Rightarrow> bool) \<Rightarrow> ('k \<Rightarrow> u64) \<Rightarrow> 'k \<Rightarrow>
    (('k, 'v) split_map, ('k, 'v) so_pc, ('k, 'v) list_op, ('k, 'v) list_resp) machine" where
  "split_machine lt hash zero =
     \<lparr>sh0 = NewSplitHashMap zero, can = (\<lambda>_ _ oper. is_map_op oper), beg = so_beg hash,
      stp = so_step lt hash zero\<rparr>"

lemma split_machine_simps [simp]:
  "sh0 (split_machine lt hash zero) = NewSplitHashMap zero" "can (split_machine lt hash zero) s t oper = is_map_op oper"
  "beg (split_machine lt hash zero) = so_beg hash" "stp (split_machine lt hash zero) = so_step lt hash zero"
  by (simp_all add: split_machine_def)

end
