(* ===== verification/Split_Map_Safety.thy ===== *)
theory Split_Map_Safety
  imports Split_Map
begin

text \<open>
  Safety of the split-ordered hash table. Its list, with \<open>nil\<close> seen as a tail sentinel and with
  pairs of split-order key and key as the keys, is a Harris-Michael list, so the invariant, the
  interference and the writes of the ordered list apply to it. On top of that every table entry is
  the sentinel of its bucket, and sentinels are never marked.
\<close>

subsection \<open>The list behind the table\<close>

type_synonym 'k so_pair = "u64 \<times> 'k"

fun split_less :: "('k \<Rightarrow> 'k \<Rightarrow> bool) \<Rightarrow> 'k so_pair \<Rightarrow> 'k so_pair \<Rightarrow> bool" where
  "split_less lt (a, x) (b, y) = (if a \<noteq> b then a < b else lt x y)"

lemma strict_weak_split_less:
  assumes "strict_weak lt"
  shows "strict_weak (split_less lt)"
proof -
  note sw = strict_weak_irrefl [OF assms] strict_weak_trans [OF assms] strict_weak_split [OF assms]
  show ?thesis unfolding strict_weak_def
  proof (intro conjI allI impI)
    show "\<not> split_less lt x x" for x using sw(1) by (cases x) simp
    show "split_less lt x z" if "split_less lt x y" "split_less lt y z" for x y z
      using that sw(2) [of "snd x" "snd y" "snd z"] by (cases x; cases y; cases z) (auto split: if_splits)
    show "split_less lt x y \<or> split_less lt y z" if "split_less lt x z" for x y z
      using that sw(3) [of "snd x" "snd z" "snd y"] by (cases x; cases y; cases z) (auto split: if_splits)
  qed
qed

lemma same_split: "same_key (split_less lt) (a, x) (b, y) \<longleftrightarrow> a = b \<and> same_key lt x y"
  by (auto simp: same_key_def)

definition elem_key :: "('k \<Rightarrow> u64) \<Rightarrow> 'k \<Rightarrow> 'k so_pair" where
  "elem_key hash k = (soRegular (ucast (hash k)), k)"

lemma same_elem:
  assumes "hash_respects lt hash"
  shows "same_key (split_less lt) (elem_key hash j) (elem_key hash k) \<longleftrightarrow> same_key lt j k"
proof -
  have "hash j = hash k" if "same_key lt j k" using assms that by (simp add: hash_respects_def)
  then show ?thesis by (auto simp: elem_key_def same_split)
qed

definition enc :: "ptr \<Rightarrow> loc" where
  "enc p = (case p of None \<Rightarrow> 0 | Some l \<Rightarrow> l)"

lemma enc_simps [simp]: "enc None = 0" "enc (Some l) = l"
  by (simp_all add: enc_def)

definition lst :: "('k, 'v) split_map \<Rightarrow> ('k so_pair, 'v) list_state" where
  "lst s = \<lparr>lnodes = (\<lambda>l. if l = 0
       then \<lparr>lkey = undefined, lval = undefined, kind = 1, nref = None, nmark = False, nver = 0\<rparr>
       else \<lparr>lkey = (soKey (onodes s l), okey (onodes s l)), lval = oval (onodes s l),
         kind = (if l = ohead s then -1 else 0), nref = Some (enc (pref (onodes s l))),
         nmark = pmark (onodes s l), nver = pver (onodes s l)\<rparr>),
     lbrk = obrk s, lhead = ohead s, lcount = ocount s\<rparr>"

lemma lst_simps [simp]:
  "l \<noteq> 0 \<Longrightarrow> lkey (lnodes (lst s) l) = (soKey (onodes s l), okey (onodes s l))"
  "l \<noteq> 0 \<Longrightarrow> kind (lnodes (lst s) l) = (if l = ohead s then -1 else 0)"
  "l \<noteq> 0 \<Longrightarrow> nref (lnodes (lst s) l) = Some (enc (pref (onodes s l)))"
  "l \<noteq> 0 \<Longrightarrow> nmark (lnodes (lst s) l) = pmark (onodes s l)"
  "l \<noteq> 0 \<Longrightarrow> nver (lnodes (lst s) l) = pver (onodes s l)"
  "kind (lnodes (lst s) 0) = 1" "nref (lnodes (lst s) 0) = None" "\<not> nmark (lnodes (lst s) 0)"
  "lbrk (lst s) = obrk s" "lhead (lst s) = ohead s"
  by (simp_all add: lst_def)

lemma lst_set: "l \<noteq> 0 \<Longrightarrow> lst (so_set s l r m) = set_next (lst s) l (Some (enc r)) m"
  by (auto simp: lst_def so_set_def set_next_def fun_eq_iff)

lemma lst_table [simp]:
  "lst (s\<lparr>segments := x\<rparr>) = lst s" "lst (s\<lparr>osize := y\<rparr>) = lst s"
  by (auto simp: lst_def fun_eq_iff)

subsection \<open>Invariant\<close>

definition shape :: "('k \<Rightarrow> u64) \<Rightarrow> 'k \<Rightarrow> ('k, 'v) soNode \<Rightarrow> bool" where
  "shape hash zero n \<longleftrightarrow> (if dummy n then even (soKey n) \<and> okey n = zero \<and> \<not> pmark n
     else soKey n = soRegular (ucast (hash (okey n))))"

definition sentinel :: "('k, 'v) split_map \<Rightarrow> list_ghost \<Rightarrow> loc \<Rightarrow> u64 \<Rightarrow> bool" where
  "sentinel s g n b \<longleftrightarrow> n \<in> pub g \<and> n \<noteq> 0 \<and> dummy (onodes s n) \<and> soKey (onodes s n) = soDummy b"

definition has_segment :: "('k, 'v) split_map \<Rightarrow> u64 \<Rightarrow> bool" where
  "has_segment s b \<longleftrightarrow> segments s ! seg_of b \<noteq> None"

definition table_inv :: "('k, 'v) split_map \<Rightarrow> list_ghost \<Rightarrow> bool" where
  "table_inv s g \<longleftrightarrow> length (segments s) = 256 \<and>
     (\<forall>i < 256. \<forall>xs. segments s ! i = Some xs \<longrightarrow> length xs = 256) \<and>
     (\<forall>b < 2 ^ 16. \<forall>n. slot_get s b = Some n \<longrightarrow> sentinel s g n b) \<and> slot_get s 0 \<noteq> None"

definition pow_size :: "u64 \<Rightarrow> bool" where
  "pow_size n \<longleftrightarrow> (\<exists>m. 1 \<le> m \<and> m \<le> 16 \<and> n = 2 ^ m)"

definition so_inv :: "('k \<Rightarrow> 'k \<Rightarrow> bool) \<Rightarrow> ('k \<Rightarrow> u64) \<Rightarrow> 'k \<Rightarrow> ('k, 'v) split_map \<Rightarrow> list_ghost \<Rightarrow> bool" where
  "so_inv lt hash zero s g \<longleftrightarrow> list_inv (split_less lt) (lst s) g \<and> 0 \<in> pub g \<and> ohead s \<noteq> 0 \<and>
     soKey (onodes s (ohead s)) = 0 \<and> (\<forall>l. pref (onodes s l) \<noteq> Some 0) \<and>
     (\<forall>l \<in> pub g. l \<noteq> 0 \<longrightarrow> shape hash zero (onodes s l)) \<and> table_inv s g \<and> pow_size (osize s)"

lemma so_invD:
  assumes "so_inv lt hash zero s g"
  shows so_inv_list: "list_inv (split_less lt) (lst s) g" and so_inv_tail: "0 \<in> pub g"
    and so_inv_head: "ohead s \<noteq> 0" "soKey (onodes s (ohead s)) = 0"
    and so_inv_ref: "pref (onodes s l) \<noteq> Some 0"
    and so_inv_shape: "l \<in> pub g \<Longrightarrow> l \<noteq> 0 \<Longrightarrow> shape hash zero (onodes s l)"
    and so_inv_table: "table_inv s g" and so_inv_size: "pow_size (osize s)"
  using assms by (simp_all add: so_inv_def)

text \<open>The abstract key set: the sentinels are not in it.\<close>

definition keys_of :: "('k \<Rightarrow> 'k \<Rightarrow> bool) \<Rightarrow> ('k \<Rightarrow> u64) \<Rightarrow> ('k, 'v) split_map \<Rightarrow> list_ghost \<Rightarrow> 'k \<Rightarrow> bool" where
  "keys_of lt hash s g k \<longleftrightarrow> present (split_less lt) (lst s) g (elem_key hash k)"

subsection \<open>Buckets\<close>

lemma pow_size_less:
  assumes "pow_size n"
  shows "n \<noteq> 0" and "w mod n < 2 ^ 16"
proof -
  obtain m where m: "1 \<le> m" "m \<le> 16" "n = 2 ^ m" using assms by (auto simp: pow_size_def)
  then have u: "unat n = 2 ^ m" using unat_two_power [of m] by simp
  then show "n \<noteq> 0" by (metis unat_0 power_not_zero zero_neq_numeral)
  then have "w mod n < n" by (intro word_mod_less_divisor) (simp add: word_gt_0)
  moreover have "n \<le> 2 ^ 16"
  proof -
    have "(2 :: nat) ^ m \<le> 2 ^ 16" using m(2) by (intro power_increasing) simp_all
    then show ?thesis using u unat_two_power [of 16] by (simp add: word_le_nat_alt)
  qed
  ultimately show "w mod n < 2 ^ 16" by (rule less_le_trans)
qed

text \<open>
  Bucket \<open>b\<close> is the bucket of the call, or its chain of children leads to it through the frames of
  \<open>initBucket\<close>.
\<close>

fun chain :: "('k \<Rightarrow> u64) \<Rightarrow> 'k \<Rightarrow> u64 \<Rightarrow> u64 list \<Rightarrow> bool" where
  "chain hash k b [] \<longleftrightarrow> (\<exists>n. pow_size n \<and> b = ucast (ucast (hash k) :: u32) mod n)"
| "chain hash k b (b' # st) \<longleftrightarrow> b' \<noteq> 0 \<and> b = parentBucket b' \<and> chain hash k b' st"

lemma chain_small: "chain hash k b st \<Longrightarrow> b < 2 ^ 16"
proof (induction st arbitrary: b)
  case Nil
  then show ?case using pow_size_less(2) by auto
next
  case (Cons b' st)
  then have "parentBucket b' < b'" "b' < 2 ^ 16" using parentBucket_less by auto
  with Cons.prems show ?case by simp
qed

lemma chain_call: "chain hash k b [] \<Longrightarrow> soDummy b < soRegular (ucast (hash k))"
proof -
  assume "chain hash k b []"
  then obtain m where "m \<le> 16" "b = ucast (ucast (hash k) :: u32) mod 2 ^ m" by (auto simp: pow_size_def)
  then show ?thesis using soDummy_before [of m "ucast (hash k)"] by simp
qed

lemma chain_parent: "chain hash k b (b' # st) \<Longrightarrow> soDummy b < soDummy b'"
proof -
  assume c: "chain hash k b (b' # st)"
  then have "b' < 2 ^ 16" using chain_small [of hash k b' st] by simp
  moreover have "(2 :: u64) ^ 16 < 2 ^ 32" by simp
  ultimately have "b' < 2 ^ 32" by (rule less_trans)
  with c soDummy_parent [of b'] show ?thesis by simp
qed

lemma dummy_even: "b < 2 ^ 16 \<Longrightarrow> even (soDummy b)"
proof -
  assume "b < 2 ^ 16"
  moreover have "(2 :: u64) ^ 16 < 2 ^ 31" by simp
  ultimately show ?thesis by (intro soDummy_even) (rule less_trans)
qed

lemma seg_slot:
  assumes "b < 2 ^ 16"
  shows "seg_of b < 256" and "slot_of b < 256" and "unat b = 256 * seg_of b + slot_of b"
proof -
  have s: "seg_of b = unat b div 256"
    unfolding seg_of_def soSegmentShift_def unat_drop_bit_eq by (simp add: drop_bit_eq_div)
  have "slot_of b = unat (take_bit 8 b)"
    by (simp add: slot_of_def soSegmentSize_def soSegmentShift_def take_bit_eq_mask mask_eq_decr_exp)
  then have "slot_of b = take_bit 8 (unat b)" by (simp only: unsigned_take_bit_eq)
  then have t: "slot_of b = unat b mod 256" by (simp add: take_bit_eq_mod)
  have u: "unat b < 65536" using assms by (simp add: unat_less)
  show "seg_of b < 256" using u s by simp
  show "slot_of b < 256" "unat b = 256 * seg_of b + slot_of b" using s t by simp_all
qed

lemma slot_put_get:
  assumes "table_inv s g" and "b < 2 ^ 16" and "b' < 2 ^ 16" and "has_segment s b"
  shows "slot_get (slot_put s b p) b' = (if b' = b then p else slot_get s b')"
proof -
  obtain xs where xs: "segments s ! seg_of b = Some xs" using assms(4) by (auto simp: has_segment_def)
  note B = seg_slot [OF assms(2)] seg_slot [OF assms(3)]
  have len: "length (segments s) = 256" "length xs = 256" using assms(1) xs B(1) by (auto simp: table_inv_def)
  have "b' = b \<longleftrightarrow> seg_of b' = seg_of b \<and> slot_of b' = slot_of b"
    using B(3,6) by (metis word_unat_eq_iff)
  then show ?thesis using B len xs by (auto simp: slot_get_def slot_put_def nth_list_update)
qed

lemma slot_put_simps:
  assumes "has_segment s b" and "segments s ! seg_of b = Some xs"
  shows "slot_put s b p = s\<lparr>segments := (segments s)[seg_of b := Some (xs[slot_of b := p])]\<rparr>"
  using assms by (simp add: slot_put_def)

end
