(* ===== verification/Split_Map_Lin.thy ===== *)
theory Split_Map_Lin
  imports Split_Map_Safety
begin

text \<open>
  The assertions of the goroutines in the split-ordered hash table, and their stability under the
  steps of the others.
\<close>

subsection \<open>Statuses over pairs\<close>

fun lift_op :: "('k \<Rightarrow> u64) \<Rightarrow> ('k, 'v) list_op \<Rightarrow> ('k so_pair, 'v) list_op" where
  "lift_op hash (MapOp (SetKey k v)) = MapOp (SetKey (elem_key hash k) v)"
| "lift_op hash (MapOp (GetKey k)) = MapOp (GetKey (elem_key hash k))"
| "lift_op hash (MapOp (DelKey k)) = MapOp (DelKey (elem_key hash k))"
| "lift_op hash (RangeOp lo hi) = RangeOp (elem_key hash lo) (elem_key hash hi)"

fun lift :: "('k \<Rightarrow> u64) \<Rightarrow> ('k, 'v) lstatus \<Rightarrow> ('k so_pair, 'v) lstatus" where
  "lift hash Quiet = Quiet"
| "lift hash (Wait oper R) = Wait (lift_op hash oper) R"
| "lift hash (Done r) = Done r"

lemma lift_may [simp]: "may (lift hash st) r = may st r"
  by (cases st) (auto simp: may_def)

lemma lift_wait:
  "wait st oper \<Longrightarrow> wait (lift hash st) (lift_op hash oper)"
  "wait (lift hash st) (MapOp (GetKey x)) \<Longrightarrow> \<exists>k. x = elem_key hash k \<and> wait st (MapOp (GetKey k))"
  "wait (lift hash st) (MapOp (DelKey x)) \<Longrightarrow> \<exists>k. x = elem_key hash k \<and> wait st (MapOp (DelKey k))"
proof -
  show "wait st oper \<Longrightarrow> wait (lift hash st) (lift_op hash oper)" by (auto simp: wait_def)
  assume "wait (lift hash st) (MapOp (GetKey x))"
  then obtain oper R where "st = Wait oper R" "lift_op hash oper = MapOp (GetKey x)"
    by (cases st) (auto simp: wait_def)
  then show "\<exists>k. x = elem_key hash k \<and> wait st (MapOp (GetKey k))"
    by (cases "(hash, oper)" rule: lift_op.cases) (auto simp: wait_def)
next
  assume "wait (lift hash st) (MapOp (DelKey x))"
  then obtain oper R where "st = Wait oper R" "lift_op hash oper = MapOp (DelKey x)"
    by (cases st) (auto simp: wait_def)
  then show "\<exists>k. x = elem_key hash k \<and> wait st (MapOp (DelKey k))"
    by (cases "(hash, oper)" rule: lift_op.cases) (auto simp: wait_def)
qed

lemma lift_gains:
  assumes "key_gains (keys_of lt hash s g) (keys_of lt hash s' g') st st'"
  shows "gains (split_less lt) (lst s) g (lst s') g' (lift hash st) (lift hash st')"
proof -
  have "lift hash st' = lift hash st \<or>
      (\<exists>oper R R'. lift hash st = Wait oper R \<and> lift hash st' = Wait oper R' \<and> R \<subseteq> R')"
    using assms unfolding key_gains_def by fastforce
  moreover have "present (split_less lt) (lst s) g x \<or> may (lift hash st') (KFound False)"
    if w: "wait (lift hash st) (MapOp (GetKey x)) \<or> wait (lift hash st) (MapOp (DelKey x))"
      and p: "present (split_less lt) (lst s') g' x" for x
  proof -
    obtain k where "x = elem_key hash k" "wait st (MapOp (GetKey k)) \<or> wait st (MapOp (DelKey k))"
      using w lift_wait(2,3) by blast
    then show ?thesis using assms p by (auto simp: key_gains_def keys_of_def)
  qed
  ultimately show ?thesis unfolding gains_def by blast
qed

subsection \<open>Assertions\<close>

definition mine :: "('k, 'v) split_map \<Rightarrow> list_ghost \<Rightarrow> tid \<Rightarrow> loc \<Rightarrow> 'k so_pair \<Rightarrow> bool \<Rightarrow> bool" where
  "mine s g t n x d \<longleftrightarrow> n \<noteq> 0 \<and> lown g n = Some t \<and> (soKey (onodes s n), okey (onodes s n)) = x \<and>
     dummy (onodes s n) = d \<and> \<not> pmark (onodes s n)"

definition start_ok :: "('k, 'v) split_map \<Rightarrow> list_ghost \<Rightarrow> loc \<Rightarrow> u64 \<Rightarrow> bool" where
  "start_ok s g start so \<longleftrightarrow> start \<in> pub g \<and> start \<noteq> 0 \<and> dummy (onodes s start) \<and> soKey (onodes s start) < so"

definition link_ok :: "list_ghost \<Rightarrow> ptr \<Rightarrow> bool" where
  "link_ok g p \<longleftrightarrow> p \<noteq> Some 0 \<and> enc p \<in> pub g"

fun call_ok :: "('k \<Rightarrow> u64) \<Rightarrow> ('k, 'v) split_map \<Rightarrow> list_ghost \<Rightarrow> tid \<Rightarrow> ('k, 'v) so_call \<Rightarrow>
    ('k, 'v) lstatus \<Rightarrow> bool" where
  "call_ok hash s g t (SoSet k v n) st \<longleftrightarrow> wait st (MapOp (SetKey k v)) \<and> mine s g t n (elem_key hash k) False"
| "call_ok hash s g t (SoGet k) st \<longleftrightarrow> wait st (MapOp (GetKey k))"
| "call_ok hash s g t (SoDel k) st \<longleftrightarrow> wait st (MapOp (DelKey k))"

definition route :: "('k \<Rightarrow> u64) \<Rightarrow> ('k, 'v) split_map \<Rightarrow> ('k, 'v) so_call \<Rightarrow> u64 \<Rightarrow> u64 list \<Rightarrow> bool" where
  "route hash s c b stk \<longleftrightarrow> chain hash (so_key c) b stk \<and> (\<forall>x \<in> set stk. has_segment s x)"

fun job_pair :: "('k \<Rightarrow> u64) \<Rightarrow> 'k \<Rightarrow> ('k, 'v) so_job \<Rightarrow> 'k so_pair" where
  "job_pair hash zero (JDummy n b st c) = (soDummy b, zero)"
| "job_pair hash zero (JItem k v n) = elem_key hash k"
| "job_pair hash zero (JDel k) = elem_key hash k"

fun job_ok :: "('k \<Rightarrow> u64) \<Rightarrow> 'k \<Rightarrow> ('k, 'v) split_map \<Rightarrow> list_ghost \<Rightarrow> tid \<Rightarrow> ('k, 'v) so_job \<Rightarrow> loc \<Rightarrow>
    ('k, 'v) lstatus \<Rightarrow> bool" where
  "job_ok hash zero s g t (JDummy n b stk c) start st \<longleftrightarrow> call_ok hash s g t c st \<and>
     route hash s c b stk \<and> has_segment s b \<and> mine s g t n (soDummy b, zero) True \<and>
     start_ok s g start (soDummy b)"
| "job_ok hash zero s g t (JItem k v n) start st \<longleftrightarrow> call_ok hash s g t (SoSet k v n) st \<and>
     start_ok s g start (soRegular (ucast (hash k)))"
| "job_ok hash zero s g t (JDel k) start st \<longleftrightarrow> wait st (MapOp (DelKey k)) \<and>
     start_ok s g start (soRegular (ucast (hash k)))"

fun job_evid :: "('k \<Rightarrow> 'k \<Rightarrow> bool) \<Rightarrow> ('k \<Rightarrow> u64) \<Rightarrow> ('k, 'v) split_map \<Rightarrow> list_ghost \<Rightarrow> ('k, 'v) so_job \<Rightarrow>
    ('k, 'v) lstatus \<Rightarrow> loc \<Rightarrow> bool" where
  "job_evid lt hash s g (JDel k) st l = evid (split_less lt) (lst s) g (elem_key hash k) (lift hash st) l"
| "job_evid lt hash s g j st l = True"

fun is_del :: "('k, 'v) so_job \<Rightarrow> bool" where
  "is_del (JDel k) = True"
| "is_del j = False"

fun frames :: "ptr_user \<Rightarrow> u64 list" where
  "frames ForBucket = []"
| "frames (ForInit st) = st"

text \<open>The traversal of \<open>search\<close> stands between \<open>pred\<close> and \<open>c\<close>.\<close>

definition at_gap :: "('k \<Rightarrow> 'k \<Rightarrow> bool) \<Rightarrow> ('k \<Rightarrow> u64) \<Rightarrow> 'k \<Rightarrow> ('k, 'v) split_map \<Rightarrow> list_ghost \<Rightarrow> tid \<Rightarrow>
    ('k, 'v) so_job \<Rightarrow> loc \<Rightarrow> loc \<Rightarrow> loc \<Rightarrow> ('k, 'v) lstatus \<Rightarrow> bool" where
  "at_gap lt hash zero s g t j start p c st \<longleftrightarrow> job_ok hash zero s g t j start st \<and>
     prevs (split_less lt) (lst s) g (job_pair hash zero j) p \<and> c \<in> pub g \<and> job_evid lt hash s g j st c"

definition dead_at :: "('k, 'v) split_map \<Rightarrow> list_ghost \<Rightarrow> loc \<Rightarrow> ptr \<Rightarrow> bool" where
  "dead_at s g c sc \<longleftrightarrow> c \<noteq> 0 \<and> sc \<noteq> Some 0 \<and> dead (lst s) g c (Some (enc sc))"

definition victim :: "('k \<Rightarrow> 'k \<Rightarrow> bool) \<Rightarrow> ('k \<Rightarrow> u64) \<Rightarrow> 'k \<Rightarrow> ('k, 'v) split_map \<Rightarrow> list_ghost \<Rightarrow> tid \<Rightarrow> 'k \<Rightarrow> loc \<Rightarrow>
    loc \<Rightarrow> loc \<Rightarrow> ('k, 'v) lstatus \<Rightarrow> bool" where
  "victim lt hash zero s g t k start p c st \<longleftrightarrow> job_ok hash zero s g t (JDel k) start st \<and>
     p \<in> pub g \<and> p \<noteq> 0 \<and> c \<noteq> 0 \<and> matches (split_less lt) (lst s) g (elem_key hash k) c"

fun so_ok :: "('k \<Rightarrow> 'k \<Rightarrow> bool) \<Rightarrow> ('k \<Rightarrow> u64) \<Rightarrow> 'k \<Rightarrow> ('k, 'v) split_map \<Rightarrow> list_ghost \<Rightarrow> tid \<Rightarrow> ('k, 'v) so_pc \<Rightarrow>
    ('k, 'v) lstatus \<Rightarrow> bool" where
  "so_ok lt hash zero s g t (BSize c) st \<longleftrightarrow> call_ok hash s g t c st"
| "so_ok lt hash zero s g t (PSeg c b w) st \<longleftrightarrow> call_ok hash s g t c st \<and> route hash s c b (frames w)"
| "so_ok lt hash zero s g t (PNew c b w) st \<longleftrightarrow> call_ok hash s g t c st \<and> route hash s c b (frames w)"
| "so_ok lt hash zero s g t (PAgain c b w) st \<longleftrightarrow> call_ok hash s g t c st \<and>
     route hash s c b (frames w) \<and> has_segment s b"
| "so_ok lt hash zero s g t (PSlot c b w) st \<longleftrightarrow> call_ok hash s g t c st \<and>
     route hash s c b (frames w) \<and> has_segment s b"
| "so_ok lt hash zero s g t (PCas c b got stk) st \<longleftrightarrow> call_ok hash s g t c st \<and> route hash s c b stk \<and>
     has_segment s b \<and> sentinel s g got b"
| "so_ok lt hash zero s g t (PFin c b stk) st \<longleftrightarrow> call_ok hash s g t c st \<and> route hash s c b stk \<and>
     slot_get s b \<noteq> None"
| "so_ok lt hash zero s g t (LHead j start) st \<longleftrightarrow> job_ok hash zero s g t j start st"
| "so_ok lt hash zero s g t (LGet j start p c) st \<longleftrightarrow> at_gap lt hash zero s g t j start p c st \<and> c \<noteq> 0"
| "so_ok lt hash zero s g t (LUnl j start p c sc) st \<longleftrightarrow> at_gap lt hash zero s g t j start p c st \<and> dead_at s g c sc"
| "so_ok lt hash zero s g t (LUnlCas j start p c sc ver) st \<longleftrightarrow> at_gap lt hash zero s g t j start p c st \<and>
     dead_at s g c sc \<and> casok (lst s) p ver (Some c)"
| "so_ok lt hash zero s g t (LIns j start p cur) st \<longleftrightarrow> \<not> is_del j \<and> at_gap lt hash zero s g t j start p (enc cur) st \<and>
     cur \<noteq> Some 0 \<and> fresh (split_less lt) (lst s) g t (job_pair hash zero j) (job_node j) (enc cur)"
| "so_ok lt hash zero s g t (LInsCas j start p cur ver) st \<longleftrightarrow> \<not> is_del j \<and>
     at_gap lt hash zero s g t j start p (enc cur) st \<and> cur \<noteq> Some 0 \<and>
     fresh (split_less lt) (lst s) g t (job_pair hash zero j) (job_node j) (enc cur) \<and>
     casok (lst s) p ver (Some (enc cur))"
| "so_ok lt hash zero s g t (LVal v got) st \<longleftrightarrow> may st KAck \<and> got \<in> pub g \<and> got \<noteq> 0"
| "so_ok lt hash zero s g t LCount st \<longleftrightarrow> st = Done KAck"
| "so_ok lt hash zero s g t (LSize c) st \<longleftrightarrow> st = Done KAck"
| "so_ok lt hash zero s g t (LGrow n) st \<longleftrightarrow> st = Done KAck \<and> pow_size n \<and> n < soMaxBuckets"
| "so_ok lt hash zero s g t (OGet k c) st \<longleftrightarrow> wait st (MapOp (GetKey k)) \<and> c \<in> pub g \<and> c \<noteq> 0 \<and>
     evid (split_less lt) (lst s) g (elem_key hash k) (lift hash st) c"
| "so_ok lt hash zero s g t (OVal c) st \<longleftrightarrow> may st (KFound True)"
| "so_ok lt hash zero s g t (XGet k start p c) st \<longleftrightarrow> victim lt hash zero s g t k start p c st"
| "so_ok lt hash zero s g t (XMark k start p c sc) st \<longleftrightarrow> victim lt hash zero s g t k start p c st \<and> sc \<noteq> Some 0"
| "so_ok lt hash zero s g t (XMarkCas k start p c sc ver) st \<longleftrightarrow> victim lt hash zero s g t k start p c st \<and>
     sc \<noteq> Some 0 \<and> casok (lst s) c ver (Some (enc sc))"
| "so_ok lt hash zero s g t (XLoad p c sc) st \<longleftrightarrow> st = Done (KFound True) \<and> p \<in> pub g \<and> p \<noteq> 0 \<and> dead_at s g c sc"
| "so_ok lt hash zero s g t (XUnl p c sc v) st \<longleftrightarrow> st = Done (KFound True) \<and> p \<in> pub g \<and> p \<noteq> 0 \<and> dead_at s g c sc"
| "so_ok lt hash zero s g t (XUnlCas p c sc v ver) st \<longleftrightarrow> st = Done (KFound True) \<and> p \<in> pub g \<and> p \<noteq> 0 \<and>
     dead_at s g c sc \<and> casok (lst s) p ver (Some c)"
| "so_ok lt hash zero s g t (XLen v) st \<longleftrightarrow> st = Done (KFound True)"

subsection \<open>Interference\<close>

definition so_rely :: "('k \<Rightarrow> 'k \<Rightarrow> bool) \<Rightarrow> tid \<Rightarrow> ('k, 'v) split_map \<Rightarrow> list_ghost \<Rightarrow> ('k, 'v) split_map \<Rightarrow>
    list_ghost \<Rightarrow> bool" where
  "so_rely lt t s g s' g' \<longleftrightarrow> list_rely (split_less lt) t (lst s) g (lst s') g' \<and>
     (\<forall>l \<in> pub g. l \<noteq> 0 \<longrightarrow> dummy (onodes s' l) = dummy (onodes s l)) \<and>
     (\<forall>l u. u \<noteq> t \<longrightarrow> lown g l = Some u \<longrightarrow> onodes s' l = onodes s l) \<and>
     (\<forall>b. has_segment s b \<longrightarrow> has_segment s' b) \<and>
     (\<forall>b n. b < 2 ^ 16 \<longrightarrow> slot_get s b = Some n \<longrightarrow> slot_get s' b = Some n)"

lemma so_relyD:
  assumes "so_rely lt t s g s' g'"
  shows "list_rely (split_less lt) t (lst s) g (lst s') g'"
    and "l \<in> pub g \<Longrightarrow> l \<in> pub g'"
    and "sentinel s g n b \<Longrightarrow> sentinel s' g' n b"
    and "start_ok s g start so \<Longrightarrow> start_ok s' g' start so"
    and "has_segment s b \<Longrightarrow> has_segment s' b"
    and "b < 2 ^ 16 \<Longrightarrow> slot_get s b \<noteq> None \<Longrightarrow> slot_get s' b \<noteq> None"
    and "u \<noteq> t \<Longrightarrow> mine s g u n x d \<Longrightarrow> mine s' g' u n x d"
    and "dead_at s g c sc \<Longrightarrow> dead_at s' g' c sc"
    and "route hash s c' b stk \<Longrightarrow> route hash s' c' b stk"
proof -
  show L: "list_rely (split_less lt) t (lst s) g (lst s') g'" using assms by (simp add: so_rely_def)
  note D = list_relyD [OF L]
  show "l \<in> pub g \<Longrightarrow> l \<in> pub g'" by (rule D(1))
  have K: "soKey (onodes s' l) = soKey (onodes s l)" "dummy (onodes s' l) = dummy (onodes s l)"
    if "l \<in> pub g" "l \<noteq> 0" for l
    using D(12) [OF that(1)] that assms by (simp_all add: so_rely_def)
  show "sentinel s g n b \<Longrightarrow> sentinel s' g' n b" using K D(1) by (simp add: sentinel_def)
  show "start_ok s g start so \<Longrightarrow> start_ok s' g' start so" using K D(1) by (simp add: start_ok_def)
  show "has_segment s b \<Longrightarrow> has_segment s' b" using assms by (simp add: so_rely_def)
  show "b < 2 ^ 16 \<Longrightarrow> slot_get s b \<noteq> None \<Longrightarrow> slot_get s' b \<noteq> None" using assms by (auto simp: so_rely_def)
  show "dead_at s g c sc \<Longrightarrow> dead_at s' g' c sc" using D(8) by (simp add: dead_at_def)
  show "route hash s c' b stk \<Longrightarrow> route hash s' c' b stk" using assms by (simp add: route_def so_rely_def)
  assume u: "u \<noteq> t" and m: "mine s g u n x d"
  then have "lown g n = Some u" by (simp add: mine_def)
  then have "onodes s' n = onodes s n" "lown g' n = Some u" using assms L u by (simp_all add: so_rely_def list_rely_def)
  with m show "mine s' g' u n x d" by (simp add: mine_def)
qed

lemma call_stable:
  assumes r: "so_rely lt t s g s' g'" and gn: "key_gains (keys_of lt hash s g) (keys_of lt hash s' g') st st'"
    and u: "u \<noteq> t"
  shows "call_ok hash s g u c st \<Longrightarrow> call_ok hash s' g' u c st'"
    and "job_ok hash zero s g u j start st \<Longrightarrow> job_ok hash zero s' g' u j start st'"
    and "at_gap lt hash zero s g u j start p l st \<Longrightarrow> at_gap lt hash zero s' g' u j start p l st'"
    and "victim lt hash zero s g u k start p l st \<Longrightarrow> victim lt hash zero s' g' u k start p l st'"
proof -
  note D = so_relyD [OF r]
  have W: "wait st oper \<Longrightarrow> wait st' oper" for oper using gn by (auto simp: key_gains_def wait_def)
  show A: "call_ok hash s g u c st \<Longrightarrow> call_ok hash s' g' u c st'" for c using W D(7) u by (cases c) auto
  show B: "job_ok hash zero s g u j start st \<Longrightarrow> job_ok hash zero s' g' u j start st'" for j
    using A W D(4,5,7,9) u by (cases j) auto
  have E: "job_evid lt hash s g j st l \<Longrightarrow> l \<in> pub g \<Longrightarrow> job_ok hash zero s g u j start st \<Longrightarrow>
      job_evid lt hash s' g' j st' l"
    using evid_stable [OF D(1) lift_gains [OF gn], of "elem_key hash _" l] lift_wait(1) [of st "MapOp (DelKey _)" hash]
    by (cases j) auto
  show "at_gap lt hash zero s g u j start p l st \<Longrightarrow> at_gap lt hash zero s' g' u j start p l st'"
    using B E D(2) list_relyD(6) [OF D(1)] by (simp add: at_gap_def)
  show "victim lt hash zero s g u k start p l st \<Longrightarrow> victim lt hash zero s' g' u k start p l st'"
    using B D(2) list_relyD(7) [OF D(1)] by (simp add: victim_def del: job_ok.simps)
qed

lemma so_stable:
  assumes r: "so_rely lt t s g s' g'" and gn: "key_gains (keys_of lt hash s g) (keys_of lt hash s' g') st st'"
    and u: "u \<noteq> t" and ok: "so_ok lt hash zero s g u p st"
  shows "so_ok lt hash zero s' g' u p st'"
proof -
  note D = so_relyD [OF r]
  note C = call_stable [OF r gn u]
  note L = list_relyD [OF D(1)]
  have G: "may st q \<Longrightarrow> may st' q" "st = Done d \<Longrightarrow> st' = Done d" "wait st oper \<Longrightarrow> wait st' oper" for q d oper
    using gn by (auto simp: key_gains_def wait_def may_def)
  show ?thesis
  proof (cases p)
    case (PFin c b stk)
    then have "b < 2 ^ 16" using ok chain_small by (auto simp: route_def)
    then show ?thesis using PFin ok C(1) D(6,9) by simp
  next
    case (LUnlCas j start q c sc ver)
    then have "q \<in> pub g" using ok by (simp add: at_gap_def prevs_def)
    with LUnlCas ok C(3) D(8) L(9) show ?thesis by simp
  next
    case (LIns j start q cur)
    with ok C(3) L(10) [OF u] show ?thesis by simp
  next
    case (LInsCas j start q cur ver)
    then have "q \<in> pub g" using ok by (simp add: at_gap_def prevs_def)
    with LInsCas ok C(3) L(9) L(10) [OF u] show ?thesis by simp
  next
    case (OGet k c)
    with ok have "evid (split_less lt) (lst s') g' (elem_key hash k) (lift hash st') c"
      using evid_stable [OF D(1) lift_gains [OF gn], of "elem_key hash k" c] lift_wait(1) [of st "MapOp (GetKey k)" hash]
      by simp
    with OGet ok G D(2) show ?thesis by simp
  next
    case (XMarkCas k start q c sc ver)
    then have "c \<in> pub g" using ok by (simp add: victim_def matches_def)
    with XMarkCas ok C(4) L(9) show ?thesis by simp
  next
    case (XUnlCas q c sc v ver)
    with ok G D(2,8) L(9) show ?thesis by simp
  qed (use ok C D G in simp_all)
qed

end
