(* ===== verification/Split_Map_Sim.thy ===== *)
theory Split_Map_Sim
  imports Split_Map_Lin
begin

text \<open>
  The simulation between the split-ordered hash table and its key set, one lemma per group of steps.
\<close>

subsection \<open>Steps that only concern the goroutine itself\<close>

definition so_local :: "('k \<Rightarrow> 'k \<Rightarrow> bool) \<Rightarrow> ('k \<Rightarrow> u64) \<Rightarrow> 'k \<Rightarrow> ('k, 'v) split_map \<Rightarrow> list_ghost \<Rightarrow> tid \<Rightarrow>
    ('k, 'v) lstatus \<Rightarrow> ('k, 'v) split_map \<Rightarrow> ('k, 'v) so_thread \<Rightarrow> bool" where
  "so_local lt hash zero s g t st s' x \<longleftrightarrow> (\<exists>g' q.
     own_move (keys_spec lt) (keys_of lt hash s g) st (keys_of lt hash s' g') q \<and> so_inv lt hash zero s' g' \<and>
     thread_ok (so_ok lt hash zero s' g' t) (relabel erase x) q \<and> so_rely lt t s g s' g' \<and>
     (\<forall>k. keys_of lt hash s' g' k \<longrightarrow> keys_of lt hash s g k))"

lemma so_rely_refl: "so_rely lt t s g s g"
  by (simp add: so_rely_def list_rely_refl)

lemma so_quiet:
  assumes "so_inv lt hash zero s' g'" and "so_rely lt t s g s' g'"
    and "keys_of lt hash s' g' = keys_of lt hash s g"
    and "thread_ok (so_ok lt hash zero s' g' t) (relabel erase x) st"
  shows "so_local lt hash zero s g t st s' x"
  unfolding so_local_def
proof (intro exI conjI)
  show "own_move (keys_spec lt) (keys_of lt hash s g) st (keys_of lt hash s' g') st"
    unfolding assms(3) by (rule own_move.stay)
qed (use assms in simp_all)

lemma so_stay:
  "so_inv lt hash zero s g \<Longrightarrow> thread_ok (so_ok lt hash zero s g t) (relabel erase x) st \<Longrightarrow>
     so_local lt hash zero s g t st s x"
  by (rule so_quiet [OF _ so_rely_refl]) simp_all

lemma so_observe:
  assumes "so_inv lt hash zero s g" and "wait st oper"
    and "keys_spec lt (keys_of lt hash s g) oper = (keys_of lt hash s g, r)"
    and ok: "\<And>R. r \<in> R \<Longrightarrow> thread_ok (so_ok lt hash zero s g t) (relabel erase x) (Wait oper R)"
  shows "so_local lt hash zero s g t st s x"
proof -
  obtain R where "st = Wait oper R" using assms(2) by (auto simp: wait_def)
  then have "own_move (keys_spec lt) (keys_of lt hash s g) st (keys_of lt hash s g) (Wait oper (insert r R))"
    using assms(3) own_move.remember by metis
  then show ?thesis
    unfolding so_local_def using assms(1) ok [of "insert r R"] so_rely_refl by blast
qed

lemma keys_of_same:
  assumes "strict_weak lt" and "hash_respects lt hash"
  shows "same_key lt x y \<Longrightarrow> keys_of lt hash s g x = keys_of lt hash s g y"
    and "keys_of lt hash s g k \<Longrightarrow> keys_spec lt (keys_of lt hash s g) (MapOp (SetKey k v)) = (keys_of lt hash s g, KAck)"
    and "\<not> keys_of lt hash s g k \<Longrightarrow>
      keys_spec lt (keys_of lt hash s g) (MapOp (DelKey k)) = (keys_of lt hash s g, KFound False)"
proof -
  show S: "same_key lt x y \<Longrightarrow> keys_of lt hash s g x = keys_of lt hash s g y" for x y
    using same_elem [OF assms(2)] present_same [OF strict_weak_split_less [OF assms(1)]]
    unfolding keys_of_def by blast
  show "keys_of lt hash s g k \<Longrightarrow> keys_spec lt (keys_of lt hash s g) (MapOp (SetKey k v)) = (keys_of lt hash s g, KAck)"
    "\<not> keys_of lt hash s g k \<Longrightarrow>
      keys_spec lt (keys_of lt hash s g) (MapOp (DelKey k)) = (keys_of lt hash s g, KFound False)"
    using S by (auto simp: fun_eq_iff)
qed

text \<open>A write that leaves the references of the published nodes alone.\<close>

lemma so_frame:
  assumes inv: "so_inv lt hash zero s g"
    and nd: "\<And>l. l \<in> pub g \<Longrightarrow> \<exists>v. onodes s' l = (onodes s l)\<lparr>oval := v\<rparr>"
    and h: "ohead s' = ohead s" "obrk s \<le> obrk s'" "\<And>l. pref (onodes s' l) \<noteq> Some 0" "pow_size (osize s')"
    and g: "phys g' = phys g" "pub g' = pub g"
    and o1: "\<And>l u. lown g l = Some u \<Longrightarrow> u \<noteq> t \<Longrightarrow> lown g' l = Some u \<and> onodes s' l = onodes s l"
    and o2: "\<And>l u. lown g' l = Some u \<Longrightarrow> l \<notin> pub g \<and> l < obrk s'"
    and tb: "table_inv s' g'" "\<And>b. has_segment s b \<Longrightarrow> has_segment s' b"
      "\<And>b n. b < 2 ^ 16 \<Longrightarrow> slot_get s b = Some n \<Longrightarrow> slot_get s' b = Some n"
  shows "so_inv lt hash zero s' g' \<and> so_rely lt t s g s' g' \<and> keys_of lt hash s' g' = keys_of lt hash s g"
proof -
  note I = so_invD [OF inv]
  have N: "soKey (onodes s' l) = soKey (onodes s l)" "okey (onodes s' l) = okey (onodes s l)"
    "dummy (onodes s' l) = dummy (onodes s l)" "pmark (onodes s' l) = pmark (onodes s l)" if "l \<in> pub g" for l
    using nd [OF that] by auto
  have F: "list_inv (split_less lt) (lst s') g' \<and> list_rely (split_less lt) t (lst s) g (lst s') g' \<and>
      present (split_less lt) (lst s') g' = present (split_less lt) (lst s) g"
  proof (rule frame_nodes [OF I(1)])
    show "\<exists>v. lnodes (lst s') l = (lnodes (lst s) l)\<lparr>lval := v\<rparr>" if l: "l \<in> pub g" for l
    proof -
      obtain v where "onodes s' l = (onodes s l)\<lparr>oval := v\<rparr>" using nd [OF l] by blast
      then show ?thesis using h(1) by (cases "l = 0") (auto simp: lst_def intro: exI [of _ undefined] exI [of _ v])
    qed
    show "lown g' l = Some u \<and> lnodes (lst s') l = lnodes (lst s) l" if "lown g l = Some u" "u \<noteq> t" for l u
      using o1 [OF that] h(1) by (simp add: lst_def)
  qed (use h g o2 in simp_all)
  moreover have "so_inv lt hash zero s' g'"
    using F I h tb(1) N head_pub [OF I(1)] unfolding so_inv_def g shape_def by simp
  moreover have "so_rely lt t s g s' g'"
    using F o1 N(3) tb(2,3) unfolding so_rely_def by simp
  moreover have "keys_of lt hash s' g' = keys_of lt hash s g"
    using F by (intro ext) (simp only: keys_of_def)
  ultimately show ?thesis by blast
qed

lemma so_owned:
  assumes "so_inv lt hash zero s g"
  shows "lown g l = Some u \<Longrightarrow> l \<notin> pub g \<and> l < obrk s" and "l \<in> pub g \<Longrightarrow> l < obrk s"
  using list_inv_own [OF so_inv_list [OF assms], of l u] list_inv_unowned [OF so_inv_list [OF assms], of l]
    list_inv_bound [OF so_inv_list [OF assms], of l] by auto

lemma table_same:
  "segments s' = segments s \<Longrightarrow> slot_get s' b = slot_get s b"
  "segments s' = segments s \<Longrightarrow> has_segment s' b = has_segment s b"
  by (simp_all add: slot_get_def has_segment_def)

lemma table_inv_same:
  assumes "table_inv s g" and "segments s' = segments s" and "pub g \<subseteq> pub g'"
    and "\<And>l. l \<in> pub g \<Longrightarrow> l \<noteq> 0 \<Longrightarrow> soKey (onodes s' l) = soKey (onodes s l) \<and> dummy (onodes s' l) = dummy (onodes s l)"
  shows "table_inv s' g'"
  using assms by (auto simp: table_inv_def sentinel_def table_same [OF assms(2)])

text \<open>A write to \<open>next\<close> of a published node.\<close>

lemma so_write:
  assumes inv: "so_inv lt hash zero s g" and s': "s' = so_set s p r m" and p: "p \<in> pub g" "p \<noteq> 0" and r: "r \<noteq> Some 0"
    and L: "list_inv (split_less lt) (lst s') g'" "list_rely (split_less lt) t (lst s) g (lst s') g'"
    and m: "m \<Longrightarrow> \<not> dummy (onodes s p)"
    and new: "\<And>l. l \<in> pub g' \<Longrightarrow> l \<notin> pub g \<Longrightarrow> l \<noteq> 0 \<Longrightarrow> shape hash zero (onodes s l)"
  shows "so_inv lt hash zero s' g' \<and> so_rely lt t s g s' g'"
proof -
  note I = so_invD [OF inv]
  have pub: "pub g \<subseteq> pub g'" using L(2) by (simp add: list_rely_def)
  have sh: "shape hash zero (onodes s' l)" if "l \<in> pub g'" "l \<noteq> 0" for l
  proof -
    have "shape hash zero (onodes s l)" using new I(6) that by blast
    moreover have "m \<Longrightarrow> l = p \<Longrightarrow> \<not> dummy (onodes s l)" using m by simp
    ultimately show ?thesis by (auto simp: s' so_set_def shape_def)
  qed
  have "table_inv s' g'" by (rule table_inv_same [OF I(7) _ pub]) (simp_all add: s' so_set_def)
  then have "so_inv lt hash zero s' g'"
    using L(1) I pub sh r unfolding so_inv_def by (auto simp: s' so_set_def)
  moreover have "onodes s' l = onodes s l" if "lown g l = Some u" for l u
    using so_owned(1) [OF inv that] p(1) by (auto simp: s' so_set_def)
  then have "so_rely lt t s g s' g'"
    using L(2) table_same [of s' s] unfolding so_rely_def by (auto simp: s' so_set_def)
  ultimately show ?thesis by blast
qed

subsection \<open>Comparisons\<close>

fun job_dummy :: "('k, 'v) so_job \<Rightarrow> bool" where
  "job_dummy (JDummy n b st c) = True"
| "job_dummy j = False"

lemma job_target:
  "job_ok hash zero s g t j start st \<Longrightarrow>
     target hash s j = (fst (job_pair hash zero j), snd (job_pair hash zero j), job_dummy j)"
  by (cases j) (auto simp: mine_def elem_key_def)

lemma job_pair_shape:
  assumes "job_ok hash zero s g t j start st"
  shows "if job_dummy j then even (fst (job_pair hash zero j)) \<and> snd (job_pair hash zero j) = zero
    else odd (fst (job_pair hash zero j))" and "start_ok s g start (fst (job_pair hash zero j))"
  using assms dummy_even chain_small soRegular_odd
  by (cases j; fastforce simp: elem_key_def route_def)+

lemma job_compare:
  assumes sw: "strict_weak lt" and inv: "so_inv lt hash zero s g" and job: "job_ok hash zero s g t j start st"
    and c: "c \<in> pub g" "c \<noteq> 0"
  shows "job_less lt hash s j c \<longleftrightarrow> keyLess (split_less lt) (lnodes (lst s) c) (job_pair hash zero j)"
    and "job_equal lt hash s j (Some c) \<longleftrightarrow> keyEqual (split_less lt) (lnodes (lst s) c) (job_pair hash zero j)"
proof -
  obtain so k where kc: "job_pair hash zero j = (so, k)" by fastforce
  note T = job_target [OF job] and S = job_pair_shape [OF job]
  have pos: "so \<noteq> 0" using S(2) by (auto simp: kc start_ok_def)
  have sh: "shape hash zero (onodes s c)" by (rule so_inv_shape [OF inv c])
  have h: "c = ohead s \<Longrightarrow> soKey (onodes s c) = 0" using so_inv_head(2) [OF inv] by simp
  show "job_less lt hash s j c \<longleftrightarrow> keyLess (split_less lt) (lnodes (lst s) c) (job_pair hash zero j)"
    using h pos c(2) by (auto simp: job_less_def T kc nodeLess_def keyLess_def word_gt_0)
  have irr: "\<not> lt zero zero" by (rule strict_weak_irrefl [OF sw])
  have par: "soKey (onodes s c) = so \<Longrightarrow> dummy (onodes s c) = job_dummy j"
    using sh S(1) soRegular_odd by (auto simp: shape_def kc split: if_splits)
  show "job_equal lt hash s j (Some c) \<longleftrightarrow> keyEqual (split_less lt) (lnodes (lst s) c) (job_pair hash zero j)"
  proof (cases "soKey (onodes s c) = so")
    case False
    then show ?thesis using c(2) pos
      by (cases "soKey (onodes s c) < so") (auto simp: job_equal_def T kc nodeEqual_def keyEqual_def)
  next
    case True
    then have "c \<noteq> ohead s" using h pos by auto
    with True par sh S(1) irr c(2) show ?thesis
      by (cases "job_dummy j") (auto simp: job_equal_def T kc nodeEqual_def keyEqual_def shape_def)
  qed
qed

lemma at_tail:
  "\<not> keyLess lt (lnodes (lst s) 0) k" "\<not> keyEqual lt (lnodes (lst s) 0) k" "above lt (lnodes (lst s) 0) k"
  by (simp_all add: keyLess_def keyEqual_def above_def)

lemma job_equal_None: "\<not> job_equal lt hash s j None"
  by (simp add: job_equal_def nodeEqual_def split: prod.split)

lemma start_prevs:
  assumes "start_ok s g start (fst x)"
  shows "prevs (split_less lt) (lst s) g x start"
  using assms by (cases x) (auto simp: start_ok_def prevs_def keyLess_def)

lemma prevs_not_tail: "prevs (split_less lt) (lst s) g x p \<Longrightarrow> p \<in> pub g \<and> p \<noteq> 0"
  by (cases "p = 0") (auto simp: prevs_def at_tail)

lemma start_evid:
  assumes sw: "strict_weak lt" and inv: "so_inv lt hash zero s g" and st: "start_ok s g start (fst x)"
  shows "evid (split_less lt) (lst s) g x q start"
proof -
  have s: "start \<in> pub g" "start \<noteq> 0" "dummy (onodes s start)" using st by (simp_all add: start_ok_def)
  then have "\<not> nmark (lnodes (lst s) start)" using so_inv_shape [OF inv s(1,2)] by (simp add: shape_def)
  then have "miss (split_less lt) (lnodes (lst s)) x start \<Longrightarrow> \<not> present (split_less lt) (lst s) g x"
    using miss_absent [OF strict_weak_split_less [OF sw] so_inv_list [OF inv] s(1)] start_prevs [OF st]
    by (auto simp: prevs_def)
  then show ?thesis by (auto simp: evid_def)
qed

text \<open>Where a published node other than the tail points to.\<close>

lemma so_next:
  assumes "so_inv lt hash zero s g" and "l \<in> pub g" and "l \<noteq> 0"
  shows "link_ok g (pref (onodes s l))" and "nref (lnodes (lst s) l) = Some (enc (pref (onodes s l)))"
  using next_below(1) [OF so_inv_list [OF assms(1)] assms(2), of "enc (pref (onodes s l))"] assms(3)
    so_inv_ref [OF assms(1)] by (simp_all add: link_ok_def)

subsection \<open>The steps of bucket and initBucket\<close>

lemma table_invD:
  assumes "table_inv s g"
  shows "length (segments s) = 256" and "i < 256 \<Longrightarrow> segments s ! i = Some xs \<Longrightarrow> length xs = 256"
    and "b < 2 ^ 16 \<Longrightarrow> slot_get s b = Some n \<Longrightarrow> sentinel s g n b" and "slot_get s 0 \<noteq> None"
  using assms by (auto simp: table_inv_def)

lemma enter_ok:
  assumes sw: "strict_weak lt" and inv: "so_inv lt hash zero s g" and c: "call_ok hash s g t c st"
    and start: "start_ok s g start (soRegular (ucast (hash (so_key c))))"
  shows "thread_ok (so_ok lt hash zero s g t) (relabel erase (enter c (Some start))) st"
proof (cases c)
  case (SoGet k)
  have "evid (split_less lt) (lst s) g (elem_key hash k) (lift hash st) start"
    using start_evid [OF sw inv, of start "elem_key hash k"] start by (simp add: SoGet elem_key_def)
  with SoGet c start show ?thesis by (simp add: get_at_def start_ok_def)
qed (use c start in \<open>simp_all add: deref_def\<close>)

text \<open>A new node of the goroutine.\<close>

lemma so_alloc:
  assumes inv: "so_inv lt hash zero s g"
    and s': "s' = s\<lparr>onodes := (onodes s)(obrk s := new_soNode so k v d), obrk := Suc (obrk s)\<rparr>"
    and g': "g' = g\<lparr>lown := (lown g)(obrk s := Some t)\<rparr>"
  shows "so_inv lt hash zero s' g' \<and> so_rely lt t s g s' g' \<and> keys_of lt hash s' g' = keys_of lt hash s g \<and>
    mine s' g' t (obrk s) (so, k) d \<and> (\<forall>c st. call_ok hash s g t c st \<longrightarrow> call_ok hash s' g' t c st)"
proof -
  note O = so_owned [OF inv]
  have n0: "obrk s \<noteq> 0" using O(2) [OF so_inv_tail [OF inv]] by simp
  have "so_inv lt hash zero s' g' \<and> so_rely lt t s g s' g' \<and> keys_of lt hash s' g' = keys_of lt hash s g"
  proof (rule so_frame [OF inv])
    show "\<exists>v. onodes s' l = (onodes s l)\<lparr>oval := v\<rparr>" if "l \<in> pub g" for l
      using O(2) [OF that] by (intro exI [of _ "oval (onodes s l)"]) (auto simp: s')
    show "lown g' l = Some u \<and> onodes s' l = onodes s l" if "lown g l = Some u" for l u
      using O(1) [OF that] that by (simp add: s' g')
    show "l \<notin> pub g \<and> l < obrk s'" if "lown g' l = Some u" for l u
      using that O(1) [of l u] O(2) [of l] by (auto simp: s' g' split: if_splits)
    show "table_inv s' g'" by (rule table_inv_same [OF so_inv_table [OF inv]]) (use O(2) in \<open>auto simp: s' g'\<close>)
    show "slot_get s b = Some n \<Longrightarrow> slot_get s' b = Some n" "has_segment s b \<Longrightarrow> has_segment s' b" for b n
      using table_same [of s' s] by (simp_all add: s')
  qed (use so_inv_ref [OF inv] so_inv_size [OF inv] in \<open>simp_all add: s' g' new_soNode_def\<close>)
  moreover have "call_ok hash s' g' t c st" if c: "call_ok hash s g t c st" for c st
  proof -
    have "onodes s' l = onodes s l" "lown g' l = lown g l" if "lown g l = Some t" for l
      using O(1) [OF that] by (simp_all add: s' g')
    then show ?thesis using c by (cases c) (auto simp: mine_def)
  qed
  ultimately show ?thesis using n0 by (simp add: mine_def s' g' new_soNode_def)
qed

lemma start_dummy_step:
  assumes inv: "so_inv lt hash zero s g" and c: "call_ok hash s g t c st" and b: "route hash s c b stk" "has_segment s b"
    and start: "start_ok s g start (soDummy b)" and stp: "start_dummy zero s c b stk (Some start) = (s', x)"
  shows "so_local lt hash zero s g t st s' x"
proof -
  have x: "s' = s\<lparr>onodes := (onodes s)(obrk s := new_soNode (soDummy b) zero undefined True), obrk := Suc (obrk s)\<rparr>"
    "x = Busy (LHead (JDummy (obrk s) b stk c) start)"
    using stp by (auto simp: start_dummy_def deref_def)
  note F = so_alloc [OF inv x(1) refl, of t]
  then have r: "so_rely lt t s g s' (g\<lparr>lown := (lown g)(obrk s := Some t)\<rparr>)" by simp
  note R = so_relyD(9) [OF r b(1)] so_relyD(5) [OF r b(2)] so_relyD(4) [OF r start]
  show ?thesis
    by (rule so_quiet [of lt hash zero s' "g\<lparr>lown := (lown g)(obrk s := Some t)\<rparr>"])
      (use F R c in \<open>simp_all add: x(2)\<close>)
qed

lemma init_return_step:
  assumes sw: "strict_weak lt" and inv: "so_inv lt hash zero s g" and c: "call_ok hash s g t c st"
    and b: "route hash s c b stk" and n: "sentinel s g n b" and stp: "init_return zero s c stk (Some n) = (s', x)"
  shows "so_local lt hash zero s g t st s' x"
proof (cases stk)
  case Nil
  then have x: "s' = s" "x = enter c (Some n)" using stp by (simp_all add: init_return_def)
  have "soDummy b < soRegular (ucast (hash (so_key c)))" using b chain_call by (simp add: route_def Nil)
  then show ?thesis unfolding x using n
    by (intro so_stay [OF inv] enter_ok [OF sw inv c]) (simp add: start_ok_def sentinel_def)
next
  case (Cons b' stk')
  then have "start_dummy zero s c b' stk' (Some n) = (s', x)" using stp by (simp add: init_return_def)
  moreover have "soDummy b < soDummy b'" using b chain_parent [of hash "so_key c" b b' stk'] by (simp add: route_def Cons)
  then have "start_ok s g n (soDummy b')" using n by (simp add: start_ok_def sentinel_def)
  moreover have "route hash s c b' stk'" "has_segment s b'" using b by (simp_all add: route_def Cons)
  ultimately show ?thesis using start_dummy_step [OF inv c] by blast
qed

lemma new_segment:
  assumes inv: "so_inv lt hash zero s g" and b: "b < 2 ^ 16" "\<not> has_segment s b"
    and s': "s' = s\<lparr>segments := (segments s)[seg_of b := Some (replicate soSegmentSize None)]\<rparr>"
  shows "so_inv lt hash zero s' g \<and> so_rely lt t s g s' g \<and> keys_of lt hash s' g = keys_of lt hash s g \<and> has_segment s' b"
proof -
  note T = table_invD [OF so_inv_table [OF inv]] and B = seg_slot(1) [OF b(1)]
  have sz: "soSegmentSize = 256" by (simp add: soSegmentSize_def soSegmentShift_def)
  have slot: "slot_get s' b' = slot_get s b'" if "b' < 2 ^ 16" for b'
    using seg_slot [OF that] B b(2) T(1) by (auto simp: slot_get_def s' has_segment_def nth_list_update sz)
  have seg: "has_segment s b' \<Longrightarrow> has_segment s' b'" "has_segment s' b" for b'
    using B T(1) by (auto simp: has_segment_def s' nth_list_update)
  have "so_inv lt hash zero s' g \<and> so_rely lt t s g s' g \<and> keys_of lt hash s' g = keys_of lt hash s g"
  proof (rule so_frame [OF inv])
    show "\<exists>v. onodes s' l = (onodes s l)\<lparr>oval := v\<rparr>" for l
      by (intro exI [of _ "oval (onodes s l)"]) (simp add: s')
    show "l \<notin> pub g \<and> l < obrk s'" if "lown g l = Some u" for l u using so_owned(1) [OF inv that] by (simp add: s')
    show "table_inv s' g" unfolding table_inv_def
    proof (intro conjI allI impI)
      show "length xs = 256" if "i < 256" "segments s' ! i = Some xs" for i xs
        using that T(1) T(2) [OF that(1)] B by (cases "i = seg_of b") (auto simp: s' sz)
      show "sentinel s' g n b'" if "b' < 2 ^ 16" "slot_get s' b' = Some n" for b' n
        using that slot T(3) by (simp add: sentinel_def s')
    qed (use T(1,4) slot [of 0] in \<open>simp_all add: s'\<close>)
    show "slot_get s b' = Some n \<Longrightarrow> b' < 2 ^ 16 \<Longrightarrow> slot_get s' b' = Some n" for b' n using slot by simp
  qed (use so_inv_ref [OF inv] so_inv_size [OF inv] seg(1) slot in \<open>simp_all add: s'\<close>)
  with seg(2) show ?thesis by blast
qed

lemma set_slot:
  assumes inv: "so_inv lt hash zero s g" and b: "b < 2 ^ 16" "has_segment s b" "slot_get s b = None"
    and got: "sentinel s g got b" and s': "s' = slot_put s b (Some got)"
  shows "so_inv lt hash zero s' g \<and> so_rely lt t s g s' g \<and> keys_of lt hash s' g = keys_of lt hash s g \<and>
    slot_get s' b = Some got"
proof -
  note T = table_invD [OF so_inv_table [OF inv]] and B = seg_slot(1) [OF b(1)]
  note P = slot_put_get [OF so_inv_table [OF inv] b(1) _ b(2), of _ "Some got", folded s']
  obtain xs where xs: "segments s ! seg_of b = Some xs" using b(2) by (auto simp: has_segment_def)
  have e: "s' = s\<lparr>segments := (segments s)[seg_of b := Some (xs[slot_of b := Some got])]\<rparr>"
    unfolding s' by (rule slot_put_simps [OF b(2) xs])
  have "so_inv lt hash zero s' g \<and> so_rely lt t s g s' g \<and> keys_of lt hash s' g = keys_of lt hash s g"
  proof (rule so_frame [OF inv])
    show "\<exists>v. onodes s' l = (onodes s l)\<lparr>oval := v\<rparr>" for l
      by (intro exI [of _ "oval (onodes s l)"]) (simp add: e)
    show "l \<notin> pub g \<and> l < obrk s'" if "lown g l = Some u" for l u using so_owned(1) [OF inv that] by (simp add: e)
    show "table_inv s' g" unfolding table_inv_def
    proof (intro conjI allI impI)
      show "length ys = 256" if "i < 256" "segments s' ! i = Some ys" for i ys
        using that T(1) T(2) [OF that(1)] B T(2) [OF B xs] by (cases "i = seg_of b") (auto simp: e)
      show "sentinel s' g n b'" if "b' < 2 ^ 16" "slot_get s' b' = Some n" for b' n
        using that P [OF that(1)] T(3) got by (auto simp: sentinel_def e split: if_splits)
      show "slot_get s' 0 \<noteq> None" using P [of 0] T(4) by simp
    qed (use T(1) in \<open>simp_all add: e\<close>)
    show "slot_get s' b' = Some n" if "slot_get s b' = Some n" "b' < 2 ^ 16" for b' n
      using P [OF that(2)] that(1) b(3) by auto
    show "has_segment s b' \<Longrightarrow> has_segment s' b'" for b' using B T(1) by (auto simp: has_segment_def e nth_list_update)
  qed (use so_inv_ref [OF inv] so_inv_size [OF inv] in \<open>simp_all add: e\<close>)
  with P [OF b(1)] show ?thesis by simp
qed

lemma call_keep:
  assumes "call_ok hash s g t c st" and "onodes s' = onodes s"
  shows "call_ok hash s' g t c st"
  using assms by (cases c) (simp_all add: mine_def)

lemma bucket_step_sim:
  assumes sw: "strict_weak lt" and inv: "so_inv lt hash zero s g" and ok: "so_ok lt hash zero s g t p st"
    and stp: "bucket_step hash zero s p = (s', x)"
    and p: "p = BSize c \<or> p = PSeg c b w \<or> p = PNew c b w \<or> p = PAgain c b w \<or> p = PSlot c b w \<or>
      p = PCas c b got stk \<or> p = PFin c b stk"
  shows "so_local lt hash zero s g t st s' x"
proof -
  note T = table_invD [OF so_inv_table [OF inv]]
  have small: "b < 2 ^ 16" if "route hash s c b stk" for stk using that chain_small by (auto simp: route_def)
  show ?thesis
    using p
  proof (elim disjE)
    assume p: "p = BSize c"
    have "osize s \<noteq> 0" using pow_size_less(1) [OF so_inv_size [OF inv]] .
    with stp have x: "s' = s" "x = Busy (PSeg c (bucket_of hash s (so_key c)) ForBucket)" by (auto simp: p)
    have "route hash s c (bucket_of hash s (so_key c)) []"
      using so_inv_size [OF inv] by (auto simp: route_def bucket_of_def)
    then show ?thesis unfolding x by (intro so_stay [OF inv]) (use ok p in simp)
  next
    assume p: "p = PSeg c b w"
    then have "seg_of b < length (segments s)" using ok small seg_slot(1) T(1) by auto
    with stp have x: "s' = s" "x = Busy (if segments s ! seg_of b = None then PNew c b w else PSlot c b w)"
      by (auto simp: p)
    show ?thesis unfolding x by (rule so_stay [OF inv]) (use ok p in \<open>simp add: has_segment_def\<close>)
  next
    assume p: "p = PNew c b w"
    have C: "call_ok hash s g t c st" "route hash s c b (frames w)" "b < 2 ^ 16" using ok small by (auto simp: p)
    show ?thesis
    proof (cases "segments s ! seg_of b = None")
      case False
      with stp have x: "s' = s" "x = Busy (PAgain c b w)" by (auto simp: p)
      show ?thesis unfolding x by (rule so_stay [OF inv]) (use C False in \<open>simp add: has_segment_def\<close>)
    next
      case True
      with stp have x: "s' = s\<lparr>segments := (segments s)[seg_of b := Some (replicate soSegmentSize None)]\<rparr>"
        "x = Busy (PSlot c b w)" by (auto simp: p)
      have "\<not> has_segment s b" using True by (simp add: has_segment_def)
      note N = new_segment [OF inv C(3) this x(1), of t]
      have "route hash s' c b (frames w)" using so_relyD(9) N C(2) by blast
      moreover have "call_ok hash s' g t c st" using C(1) by (rule call_keep) (simp add: x)
      ultimately show ?thesis using N by (intro so_quiet [of lt hash zero s' g]) (simp_all add: x(2))
    qed
  next
    assume p: "p = PAgain c b w"
    with stp ok have x: "s' = s" "x = Busy (PSlot c b w)" by (auto simp: has_segment_def)
    show ?thesis unfolding x by (rule so_stay [OF inv]) (use ok p in simp)
  next
    assume p: "p = PSlot c b w"
    have C: "call_ok hash s g t c st" "route hash s c b (frames w)" "b < 2 ^ 16" "has_segment s b"
      using ok small by (auto simp: p)
    show ?thesis
    proof (cases "slot_get s b")
      case (Some n)
      have "sentinel s g n b" by (rule T(3) [OF C(3) Some])
      moreover have "init_return zero s c (frames w) (Some n) = (s', x)"
        using stp Some by (cases w) (simp_all add: p init_return_def)
      ultimately show ?thesis using init_return_step [OF sw inv C(1,2)] by blast
    next
      case None
      show ?thesis
      proof (cases w)
        case ForBucket
        with stp None have x: "s' = s" "x = Busy (PSeg c b (ForInit []))" by (auto simp: p)
        show ?thesis unfolding x by (rule so_stay [OF inv]) (use C ForBucket in simp)
      next
        case (ForInit st')
        have b0: "b \<noteq> 0" using None T(4) by auto
        with stp None ForInit have x: "s' = s" "x = Busy (PSeg c (parentBucket b) (ForInit (b # st')))" by (auto simp: p)
        have "route hash s c (parentBucket b) (b # st')" using C(2,4) b0 by (simp add: route_def ForInit)
        then show ?thesis unfolding x by (intro so_stay [OF inv]) (use C in simp)
      qed
    qed
  next
    assume p: "p = PCas c b got stk"
    have C: "call_ok hash s g t c st" "route hash s c b stk" "has_segment s b" "sentinel s g got b" "b < 2 ^ 16"
      using ok small by (auto simp: p)
    show ?thesis
    proof (cases "slot_get s b = None")
      case True
      with stp have x: "s' = slot_put s b (Some got)" "x = Busy (PFin c b stk)" by (auto simp: p)
      note N = set_slot [OF inv C(5,3) True C(4) x(1), of t]
      have "route hash s' c b stk" using so_relyD(9) N C(2) by blast
      moreover have "onodes s' = onodes s" by (simp add: x slot_put_def split: option.split)
      ultimately show ?thesis using N call_keep [OF C(1)] by (intro so_quiet [of lt hash zero s' g]) (simp_all add: x(2))
    next
      case False
      with stp have x: "s' = s" "x = Busy (PFin c b stk)" by (auto simp: p)
      show ?thesis unfolding x by (rule so_stay [OF inv]) (use C False in simp)
    qed
  next
    assume p: "p = PFin c b stk"
    have C: "call_ok hash s g t c st" "route hash s c b stk" "b < 2 ^ 16" using ok small by (auto simp: p)
    obtain n where n: "slot_get s b = Some n" using ok by (auto simp: p)
    with stp have "init_return zero s c stk (Some n) = (s', x)" by (simp add: p)
    with init_return_step [OF sw inv C(1,2) T(3) [OF C(3) n]] show ?thesis by blast
  qed
qed

end
