(* ===== verification/Split_Map_Ops.thy ===== *)
theory Split_Map_Ops
  imports Split_Map_Sim
begin

text \<open>The steps of \<open>search\<close>, \<open>listInsert\<close>, \<open>Set\<close>, \<open>Get\<close> and \<open>Del\<close> of the split-ordered hash table.\<close>

subsection \<open>The end of search\<close>

lemma own_write:
  assumes inv: "so_inv lt hash zero s g" and n: "mine s g t n kc d" and cur: "cur \<noteq> Some 0"
    and s': "s' = so_set s n cur False"
  shows "so_inv lt hash zero s' g \<and> so_rely lt t s g s' g \<and> keys_of lt hash s' g = keys_of lt hash s g \<and>
    mine s' g t n kc d"
proof -
  have o: "lown g n = Some t" "n \<noteq> 0" using n by (simp_all add: mine_def)
  have np: "n \<notin> pub g" using so_owned(1) [OF inv o(1)] by simp
  have "so_inv lt hash zero s' g \<and> so_rely lt t s g s' g \<and> keys_of lt hash s' g = keys_of lt hash s g"
  proof (rule so_frame [OF inv])
    show "\<exists>v. onodes s' l = (onodes s l)\<lparr>oval := v\<rparr>" if "l \<in> pub g" for l
      using that np by (intro exI [of _ "oval (onodes s l)"]) (auto simp: s' so_set_def)
    show "lown g l = Some u \<and> onodes s' l = onodes s l" if "lown g l = Some u" "u \<noteq> t" for l u
      using that o(1) by (auto simp: s' so_set_def)
    show "l \<notin> pub g \<and> l < obrk s'" if "lown g l = Some u" for l u
      using so_owned(1) [OF inv that] by (simp add: s' so_set_def)
    show "table_inv s' g" by (rule table_inv_same [OF so_inv_table [OF inv]]) (auto simp: s' so_set_def)
    show "slot_get s b = Some n \<Longrightarrow> slot_get s' b = Some n" "has_segment s b \<Longrightarrow> has_segment s' b" for b n
      using table_same [of s' s] by (simp_all add: s' so_set_def)
  qed (use so_inv_ref [OF inv] so_inv_size [OF inv] cur in \<open>simp_all add: s' so_set_def\<close>)
  moreover have "mine s' g t n kc d" using n by (auto simp: mine_def s' so_set_def)
  ultimately show ?thesis by blast
qed

lemma job_mine:
  assumes "job_ok hash zero s g t j start st" and "\<not> is_del j"
  shows "mine s g t (job_node j) (job_pair hash zero j) (job_dummy j)"
  using assms by (cases j) simp_all

text \<open>After the store to its own new node the goroutine's job is as before.\<close>

lemma job_after_write:
  assumes inv: "so_inv lt hash zero s g" and job: "job_ok hash zero s g t j start st" and nd: "\<not> is_del j"
    and s': "s' = so_set s (job_node j) cur False" and r: "so_rely lt t s g s' g"
  shows "job_ok hash zero s' g t j start st"
proof -
  have call: "call_ok hash s' g t c st" if "call_ok hash s g t c st" for c
    using that by (cases c) (auto simp: mine_def s' so_set_def)
  have m: "mine s' g t n x d" if "mine s g t n x d" for n x d
    using that by (auto simp: mine_def s' so_set_def)
  show ?thesis using job nd call m so_relyD(4,5,9) [OF r] by (cases j) auto
qed

lemma keyEqual_pair:
  "c \<noteq> 0 \<Longrightarrow> keyEqual (split_less lt) (lnodes (lst s) c) (a, k) \<Longrightarrow>
     soKey (onodes s c) = a \<and> same_key lt (okey (onodes s c)) k"
  by (auto simp: keyEqual_def same_key_def split: if_splits)

lemma here_present:
  assumes "c \<in> pub g" and "c \<noteq> 0" and "\<not> pmark (onodes s c)"
    and "keyEqual (split_less lt) (lnodes (lst s) c) (elem_key hash k)"
  shows "keys_of lt hash s g k"
  unfolding keys_of_def present_def using assms by (intro bexI [of _ c]) simp_all

lemma absent_return:
  assumes inv: "so_inv lt hash zero s g" and e: "evid (split_less lt) (lst s) g (elem_key hash k) (lift hash st) l"
    and l: "\<not> nmark (lnodes (lst s) l)" "above (split_less lt) (lnodes (lst s) l) (elem_key hash k)"
    and w: "wait st oper" "oper = MapOp (GetKey k) \<or> oper = MapOp (DelKey k)"
    and sw: "strict_weak lt" and hr: "hash_respects lt hash"
  shows "so_local lt hash zero s g t st s (Return (MapResp (Got None)))"
proof -
  have "miss (split_less lt) (lnodes (lst s)) (elem_key hash k) l" using l by (rule miss_here)
  then consider "may st (KFound False)" | "\<not> keys_of lt hash s g k" using e by (auto simp: evid_def keys_of_def)
  then show ?thesis
  proof cases
    case 1
    then show ?thesis by (intro so_stay [OF inv]) (auto simp: may_def)
  next
    case 2
    have "keys_spec lt (keys_of lt hash s g) oper = (keys_of lt hash s g, KFound False)"
      using w(2)
    proof
      assume "oper = MapOp (DelKey k)"
      then show ?thesis using keys_of_same(3) [OF sw hr 2] by simp
    qed (use 2 in simp)
    then show ?thesis by (rule so_observe [OF inv w(1)]) auto
  qed
qed

lemma searched_step:
  assumes sw: "strict_weak lt" and hr: "hash_respects lt hash" and inv: "so_inv lt hash zero s g"
    and gap: "at_gap lt hash zero s g t j start p (enc cur) st" and cur: "cur \<noteq> Some 0"
    and here: "\<not> nmark (lnodes (lst s) (enc cur))"
      "\<not> keyLess (split_less lt) (lnodes (lst s) (enc cur)) (job_pair hash zero j)"
    and stp: "searched lt hash s j start p cur = (s', x)"
  shows "so_local lt hash zero s g t st s' x"
proof -
  have job: "job_ok hash zero s g t j start st" and pr: "prevs (split_less lt) (lst s) g (job_pair hash zero j) p"
    and c: "enc cur \<in> pub g" and e: "job_evid lt hash s g j st (enc cur)"
    using gap by (simp_all add: at_gap_def)
  note P = prevs_not_tail [OF pr]
  have eq: "job_equal lt hash s j cur \<longleftrightarrow> keyEqual (split_less lt) (lnodes (lst s) (enc cur)) (job_pair hash zero j)"
    using job_compare(2) [OF sw inv job, of "enc cur"] c cur
    by (cases cur) (simp_all add: job_equal_None at_tail)
  have get: "\<exists>l. cur = Some l \<and> l \<noteq> 0 \<and> l \<in> pub g" if "job_equal lt hash s j cur"
    using that c cur job_equal_None [of lt hash s j] by (cases cur) auto
  show ?thesis
  proof (cases "job_equal lt hash s j cur")
    case True
    then obtain l where l: "cur = Some l" "l \<noteq> 0" "l \<in> pub g" using get by blast
    have k: "keyEqual (split_less lt) (lnodes (lst s) l) (job_pair hash zero j)" using True eq by (simp add: l)
    have um: "\<not> pmark (onodes s l)" using here(1) l by simp
    show ?thesis
    proof (cases j)
      case (JDel kk)
      with stp True have x: "s' = s" "x = Busy (XGet kk start p l)" by (auto simp: l deref_def)
      show ?thesis unfolding x
        by (rule so_stay [OF inv]) (use job P l k in \<open>simp add: JDel victim_def matches_def del: job_ok.simps\<close>)
    next
      case (JDummy n b stk cl)
      with stp True have x: "s' = s" "x = Busy (PCas cl b l stk)" by (auto simp: l deref_def)
      have J: "call_ok hash s g t cl st" "route hash s cl b stk" "has_segment s b" using job by (simp_all add: JDummy)
      have so: "soKey (onodes s l) = soDummy b" using keyEqual_pair [OF l(2), of lt s "soDummy b" zero] k by (simp add: JDummy)
      have "even (soKey (onodes s l))"
        unfolding so using dummy_even chain_small [of hash "so_key cl" b stk] J(2) by (simp add: route_def)
      then have "dummy (onodes s l)"
        using so_inv_shape [OF inv l(3,2)] soRegular_odd by (metis shape_def)
      then have "sentinel s g l b" using l so by (simp add: sentinel_def)
      with J show ?thesis unfolding x by (intro so_stay [OF inv]) simp
    next
      case (JItem kk v n)
      with stp True have x: "s' = s" "x = Busy (LVal v l)" by (auto simp: l deref_def)
      have "keys_of lt hash s g kk" using here_present [OF l(3,2) um] k by (simp add: JItem)
      moreover have "wait st (MapOp (SetKey kk v))" using job by (simp add: JItem)
      ultimately show ?thesis unfolding x
        by (intro so_observe [OF inv _ keys_of_same(2) [OF sw hr]]) (use l in \<open>auto simp: may_def\<close>)
    qed
  next
    case False
    then have up: "above (split_less lt) (lnodes (lst s) (enc cur)) (job_pair hash zero j)"
      using here(2) eq by (simp add: above_def)
    show ?thesis
    proof (cases "is_del j")
      case True
      then obtain kk where j: "j = JDel kk" by (cases j) auto
      with stp False have x: "s' = s" "x = Return (MapResp (Got None))" by auto
      have "evid (split_less lt) (lst s) g (elem_key hash kk) (lift hash st) (enc cur)" using e by (simp add: j)
      moreover have "wait st (MapOp (DelKey kk))" using job by (simp add: j)
      ultimately show ?thesis unfolding x
        using absent_return [OF inv _ here(1) _ _ _ sw hr, of kk st "MapOp (DelKey kk)"] up by (simp add: j)
    next
      case nd: False
      with stp False have x: "s' = so_set s (job_node j) cur False" "x = Busy (LIns j start p cur)"
        by (cases j; auto)+
      note M = job_mine [OF job nd]
      note W = own_write [OF inv M cur x(1)]
      then have r: "so_rely lt t s g s' g" by blast
      have job': "job_ok hash zero s' g t j start st" by (rule job_after_write [OF inv job nd x(1) r])
      have n0: "job_node j \<noteq> 0" "job_node j \<noteq> enc cur"
        using M c so_owned(1) [OF inv, of "job_node j" t] by (auto simp: mine_def)
      have "fresh (split_less lt) (lst s') g t (job_pair hash zero j) (job_node j) (enc cur)"
      proof -
        have h: "job_node j \<noteq> ohead s" using M so_owned(1) [OF inv, of "job_node j" t] head_pub [OF so_inv_list [OF inv]]
          by (auto simp: mine_def)
        have "above (split_less lt) (lnodes (lst s') (enc cur)) (job_pair hash zero j)"
          using up list_relyD(4) [OF so_relyD(1) [OF r] c] by simp
        then show ?thesis using M W c n0 h by (auto simp: fresh_def mine_def x(1) so_set_def)
      qed
      moreover have "at_gap lt hash zero s' g t j start p (enc cur) st"
        using job' list_relyD(6) [OF so_relyD(1) [OF r] pr] c nd by (cases j) (simp_all add: at_gap_def)
      ultimately show ?thesis using W nd cur
        by (intro so_quiet [of lt hash zero s' g]) (simp_all add: x(2) del: job_ok.simps)
    qed
  qed
qed

lemma search_at_step:
  assumes sw: "strict_weak lt" and hr: "hash_respects lt hash" and inv: "so_inv lt hash zero s g"
    and gap: "at_gap lt hash zero s g t j start p (enc cur) st" and cur: "cur \<noteq> Some 0"
    and stp: "search_at lt hash s j start p cur = (s', x)"
  shows "so_local lt hash zero s g t st s' x"
proof (cases cur)
  case None
  have "searched lt hash s j start p None = (s', x)" using stp by (simp add: search_at_def None)
  then show ?thesis using searched_step [OF sw hr inv gap cur] by (simp add: None at_tail)
next
  case (Some c)
  then have x: "s' = s" "x = Busy (LGet j start p c)" using stp by (simp_all add: search_at_def)
  show ?thesis unfolding x by (rule so_stay [OF inv]) (use gap cur in \<open>simp add: Some\<close>)
qed

text \<open>Moving on from a node that is marked or below the target.\<close>

lemma job_evid_next:
  assumes "c \<noteq> 0" and "pmark (onodes s c) \<or> keyLess (split_less lt) (lnodes (lst s) c) (job_pair hash zero j)"
    and "job_evid lt hash s g j st c"
  shows "job_evid lt hash s g j st (enc (pref (onodes s c)))"
proof (cases j)
  case (JDel k)
  have "evid (split_less lt) (lst s) g (elem_key hash k) (lift hash st) (enc (pref (onodes s c)))"
    by (rule evid_next [of "lst s" c "split_less lt"]) (use assms in \<open>simp_all add: JDel\<close>)
  then show ?thesis by (simp add: JDel)
qed simp_all

lemma dead_at_pref:
  "dead_at s g c sc \<Longrightarrow> so_inv lt hash zero s g \<Longrightarrow>
     c \<noteq> 0 \<and> c \<in> pub g \<and> pmark (onodes s c) \<and> sc = pref (onodes s c)"
  using so_inv_ref [of lt hash zero s g c]
  by (cases sc; cases "pref (onodes s c)") (auto simp: dead_at_def dead_def)

subsection \<open>Composition with an unlinking CAS\<close>

lemma list_rely_trans:
  assumes a: "list_rely lt t s g s1 g1" and b: "list_rely lt t s1 g1 s2 g2"
    and p: "present lt s1 g1 = present lt s g"
  shows "list_rely lt t s g s2 g2"
proof -
  note A = a [unfolded list_rely_def] and B = b [unfolded list_rely_def]
  have pub: "pub g \<subseteq> pub g1" "pub g1 \<subseteq> pub g2" using A B by blast+
  have M: "miss lt (lnodes s') k l" if "list_rely lt t s' g' s'' g''" "l \<in> pub g'" "present lt s' g' k"
    "present lt s'' g'' k" "miss lt (lnodes s'') k l" for s' g' s'' g'' k l
    using that unfolding list_rely_def by blast
  have "lkey (lnodes s2 l) = lkey (lnodes s l) \<and> kind (lnodes s2 l) = kind (lnodes s l) \<and>
      (nmark (lnodes s l) \<longrightarrow> nmark (lnodes s2 l) \<and> nref (lnodes s2 l) = nref (lnodes s l)) \<and>
      nver (lnodes s l) \<le> nver (lnodes s2 l) \<and>
      (nver (lnodes s2 l) = nver (lnodes s l) \<longrightarrow>
         nref (lnodes s2 l) = nref (lnodes s l) \<and> nmark (lnodes s2 l) = nmark (lnodes s l))" if "l \<in> pub g" for l
  proof -
    have "l \<in> pub g1" using that pub by blast
    then show ?thesis using A B that by fastforce
  qed
  moreover have "lown g2 l = Some u \<and> lnodes s2 l = lnodes s l" if "u \<noteq> t" "lown g l = Some u" for l u
    using A B that by auto
  moreover have "miss lt (lnodes s) k l" if "l \<in> pub g" "present lt s g k" "present lt s2 g2 k" "miss lt (lnodes s2) k l"
    for k l
  proof -
    have "l \<in> pub g1" using that(1) pub by blast
    then have "miss lt (lnodes s1) k l" using M [OF b, of l k] that p by simp
    then show ?thesis using M [OF a, of l k] that p by simp
  qed
  moreover have "lhead s2 = lhead s" using A B by simp
  ultimately show ?thesis unfolding list_rely_def using pub by blast
qed

lemma so_local_after:
  assumes L: "so_local lt hash zero s1 g1 t st s2 x" and r: "so_rely lt t s g s1 g1"
    and p: "present (split_less lt) (lst s1) g1 = present (split_less lt) (lst s) g"
  shows "so_local lt hash zero s g t st s2 x"
proof -
  have k: "keys_of lt hash s1 g1 = keys_of lt hash s g" using p by (intro ext) (simp only: keys_of_def)
  from L obtain g2 q where q: "own_move (keys_spec lt) (keys_of lt hash s g) st (keys_of lt hash s2 g2) q"
    "so_inv lt hash zero s2 g2" "thread_ok (so_ok lt hash zero s2 g2 t) (relabel erase x) q"
    "so_rely lt t s1 g1 s2 g2" "\<forall>k. keys_of lt hash s2 g2 k \<longrightarrow> keys_of lt hash s g k"
    unfolding so_local_def k by blast
  have r1: "list_rely (split_less lt) t (lst s) g (lst s1) g1" "list_rely (split_less lt) t (lst s1) g1 (lst s2) g2"
    using r q(4) by (simp_all add: so_rely_def)
  have pub: "pub g \<subseteq> pub g1" using r1(1) by (simp add: list_rely_def)
  have own: "lown g1 l = Some u" if "u \<noteq> t" "lown g l = Some u" for l u using r1(1) that by (simp add: list_rely_def)
  have "so_rely lt t s g s2 g2"
    using list_rely_trans [OF r1 p] r q(4) pub own unfolding so_rely_def by (auto simp: subset_iff)
  with q show ?thesis unfolding so_local_def by blast
qed

lemma unlink_write:
  assumes sw: "strict_weak lt" and inv: "so_inv lt hash zero s g" and p: "p \<in> pub g" "p \<noteq> 0"
    and d: "dead_at s g c sc" and v: "casok (lst s) p ver (Some c)" "pver (onodes s p) = ver"
    and s': "s' = so_set s p sc False"
  shows "\<exists>g'. so_inv lt hash zero s' g' \<and> so_rely lt t s g s' g' \<and> pub g' = pub g \<and> lown g' = lown g \<and>
    present (split_less lt) (lst s') g' = present (split_less lt) (lst s) g"
proof -
  have D: "dead (lst s) g c (Some (enc sc))" "sc \<noteq> Some 0" using d by (simp_all add: dead_at_def)
  have e: "lst s' = set_next (lst s) p (Some (enc sc)) False" unfolding s' using p(2) by (rule lst_set)
  from unlink_node [OF strict_weak_split_less [OF sw] so_inv_list [OF inv] D(1) p(1) v(1)] v(2) p(2)
  obtain g' where g': "list_inv (split_less lt) (lst s') g'" "list_rely (split_less lt) t (lst s) g (lst s') g'"
    "pub g' = pub g" "lown g' = lown g" "present (split_less lt) (lst s') g' = present (split_less lt) (lst s) g"
    unfolding e by auto
  have "so_inv lt hash zero s' g' \<and> so_rely lt t s g s' g'"
    by (rule so_write [OF inv s' p D(2) g'(1,2)]) (simp_all add: g'(3))
  with g' show ?thesis by blast
qed

end
