(* ===== verification/Split_Map_Steps.thy ===== *)
theory Split_Map_Steps
  imports Split_Map_Ops
begin

text \<open>
  The steps of the split-ordered hash table in the simulation, but for the insertion of an element:
  \<open>search\<close>, \<open>listInsert\<close> of a sentinel, and the rest of \<open>Set\<close>, \<open>Get\<close> and \<open>Del\<close>.
\<close>

subsection \<open>The steps of search\<close>

lemma so_cas_first_Try:
  "so_cas_first n e r False m = CasTry ver \<Longrightarrow> pref n = e \<and> \<not> pmark n \<and> ver = pver n"
  by (auto simp: so_cas_first_def split: if_splits)

lemma so_casok_now:
  "p \<noteq> 0 \<Longrightarrow> so_cas_first (onodes s p) e r False m = CasTry ver \<Longrightarrow> casok (lst s) p ver (Some (enc e))"
  using so_cas_first_Try [of "onodes s p" e r m ver] by (auto simp: casok_def)

lemma gap_next:
  assumes inv: "so_inv lt hash zero s g" and gap: "at_gap lt hash zero s g t j start p c st" and c: "c \<noteq> 0"
    and m: "pmark (onodes s c) \<or> keyLess (split_less lt) (lnodes (lst s) c) (job_pair hash zero j)"
    and q: "prevs (split_less lt) (lst s) g (job_pair hash zero j) q"
  shows "at_gap lt hash zero s g t j start q (enc (pref (onodes s c))) st" and "pref (onodes s c) \<noteq> Some 0"
proof -
  have G: "c \<in> pub g" "job_ok hash zero s g t j start st" "job_evid lt hash s g j st c"
    using gap by (simp_all add: at_gap_def)
  have "enc (pref (onodes s c)) \<in> pub g" using so_next(1) [OF inv G(1) c] by (simp add: link_ok_def)
  then show "at_gap lt hash zero s g t j start q (enc (pref (onodes s c))) st"
    using G(2) q job_evid_next [OF c m G(3)] by (simp add: at_gap_def)
  show "pref (onodes s c) \<noteq> Some 0" by (rule so_inv_ref [OF inv])
qed

lemma search_step_sim:
  assumes sw: "strict_weak lt" and hr: "hash_respects lt hash" and inv: "so_inv lt hash zero s g"
    and ok: "so_ok lt hash zero s g t p st" and stp: "so_search_step lt hash s p = (s', x)"
    and p: "p = LHead j start \<or> p = LGet j start pr c \<or> p = LUnl j start pr c sc \<or> p = LUnlCas j start pr c sc ver"
  shows "so_local lt hash zero s g t st s' x"
  using p
proof (elim disjE)
  assume p: "p = LHead j start"
  have job: "job_ok hash zero s g t j start st" using ok by (simp add: p)
  have st: "start_ok s g start (fst (job_pair hash zero j))" by (rule job_pair_shape(2) [OF job])
  note P = start_prevs [OF st]
  have pub: "start \<in> pub g" "start \<noteq> 0" using st by (simp_all add: start_ok_def)
  have "job_evid lt hash s g j st start"
  proof (cases j)
    case (JDel k)
    with start_evid [OF sw inv st] show ?thesis by simp
  qed simp_all
  then have gap: "at_gap lt hash zero s g t j start start start st" using job P pub by (simp add: at_gap_def)
  have "keyLess (split_less lt) (lnodes (lst s) start) (job_pair hash zero j)" using P by (simp add: prevs_def)
  then have N: "at_gap lt hash zero s g t j start start (enc (pref (onodes s start))) st" "pref (onodes s start) \<noteq> Some 0"
    using gap_next [OF inv gap pub(2) _ P] by blast+
  have "search_at lt hash s j start start (pref (onodes s start)) = (s', x)" using stp by (simp add: p)
  then show ?thesis by (rule search_at_step [OF sw hr inv N])
next
  assume p: "p = LGet j start pr c"
  have gap: "at_gap lt hash zero s g t j start pr c st" and c: "c \<noteq> 0" using ok by (simp_all add: p)
  have G: "c \<in> pub g" "job_ok hash zero s g t j start st" using gap by (simp_all add: at_gap_def)
  note less = job_compare(1) [OF sw inv G(2,1) c]
  consider "pmark (onodes s c)" | "\<not> pmark (onodes s c)" "job_less lt hash s j c"
    | "\<not> pmark (onodes s c)" "\<not> job_less lt hash s j c" by blast
  then show ?thesis
  proof cases
    case 1
    with stp have x: "s' = s" "x = Busy (LUnl j start pr c (pref (onodes s c)))" by (auto simp: p)
    show ?thesis unfolding x
      by (rule so_stay [OF inv]) (use gap c 1 G(1) so_inv_ref [OF inv] in \<open>simp add: dead_at_def dead_def\<close>)
  next
    case 2
    then have k: "keyLess (split_less lt) (lnodes (lst s) c) (job_pair hash zero j)" using less by simp
    then have "prevs (split_less lt) (lst s) g (job_pair hash zero j) c" using G(1) by (simp add: prevs_def)
    note N = gap_next [OF inv gap c disjI2 [OF k] this]
    have "search_at lt hash s j start c (pref (onodes s c)) = (s', x)" using stp 2 by (simp add: p)
    then show ?thesis by (rule search_at_step [OF sw hr inv N])
  next
    case 3
    then have "searched lt hash s j start pr (Some c) = (s', x)" using stp by (simp add: p)
    then show ?thesis using searched_step [OF sw hr inv, of t j start pr "Some c" st s' x] gap c 3 less by simp
  qed
next
  assume p: "p = LUnl j start pr c sc"
  have gap: "at_gap lt hash zero s g t j start pr c st" and d: "dead_at s g c sc" using ok by (simp_all add: p)
  note D = dead_at_pref [OF d inv]
  have G: "job_ok hash zero s g t j start st" "prevs (split_less lt) (lst s) g (job_pair hash zero j) pr"
    using gap by (simp_all add: at_gap_def)
  have N: "at_gap lt hash zero s g t j start pr (enc sc) st" "sc \<noteq> Some 0"
    using gap_next [OF inv gap _ _ G(2)] D by auto
  show ?thesis
  proof (cases "so_cas_first (onodes s pr) (Some c) sc False False")
    case CasFails
    with stp have x: "s' = s" "x = Busy (LHead j start)" by (auto simp: p)
    show ?thesis unfolding x by (rule so_stay [OF inv]) (use G in simp)
  next
    case CasHolds
    with stp have "search_at lt hash s j start pr sc = (s', x)" by (simp add: p)
    then show ?thesis by (rule search_at_step [OF sw hr inv N])
  next
    case (CasTry ver)
    with stp have x: "s' = s" "x = Busy (LUnlCas j start pr c sc ver)" by (auto simp: p)
    have "casok (lst s) pr ver (Some c)" using so_casok_now [OF _ CasTry] prevs_not_tail [OF G(2)] by simp
    then show ?thesis unfolding x by (intro so_stay [OF inv]) (use gap d in simp)
  qed
next
  assume p: "p = LUnlCas j start pr c sc ver"
  have gap: "at_gap lt hash zero s g t j start pr c st" and d: "dead_at s g c sc"
    and v: "casok (lst s) pr ver (Some c)" using ok by (simp_all add: p)
  note D = dead_at_pref [OF d inv]
  have G: "job_ok hash zero s g t j start st" "prevs (split_less lt) (lst s) g (job_pair hash zero j) pr"
    using gap by (simp_all add: at_gap_def)
  note P = prevs_not_tail [OF G(2)]
  have N: "at_gap lt hash zero s g t j start pr (enc sc) st" "sc \<noteq> Some 0"
    using gap_next [OF inv gap _ _ G(2)] D by auto
  show ?thesis
  proof (cases "pver (onodes s pr) = ver")
    case False
    with stp have x: "s' = s" "x = Busy (LHead j start)" by (auto simp: p so_cas_second_def)
    show ?thesis unfolding x by (rule so_stay [OF inv]) (use G in simp)
  next
    case True
    let ?s = "so_set s pr sc False"
    from unlink_write [OF sw inv _ _ d v True refl] P obtain g' where g': "so_inv lt hash zero ?s g'"
      "so_rely lt t s g ?s g'" "pub g' = pub g" "lown g' = lown g"
      "present (split_less lt) (lst ?s) g' = present (split_less lt) (lst s) g" by blast
    have keep: "call_ok hash s g t cl st \<Longrightarrow> call_ok hash ?s g' t cl st" "mine s g t n y dd \<Longrightarrow> mine ?s g' t n y dd" for cl n y dd
    proof -
      have "onodes ?s n = onodes s n" if "lown g n = Some t" for n
        using so_owned(1) [OF inv that] P by (auto simp: so_set_def)
      then show M: "mine s g t n y dd \<Longrightarrow> mine ?s g' t n y dd" for n y dd by (simp add: mine_def g'(4))
      show "call_ok hash s g t cl st \<Longrightarrow> call_ok hash ?s g' t cl st" using M by (cases cl) auto
    qed
    have job': "job_ok hash zero ?s g' t j start st"
      using G(1) keep so_relyD(4,5,9) [OF g'(2)] by (cases j) auto
    have e: "job_evid lt hash ?s g' j st (enc sc)"
    proof (cases j)
      case (JDel k)
      have "gains (split_less lt) (lst s) g (lst ?s) g' (lift hash st) (lift hash st)" by (rule gains_refl) (simp add: g'(5))
      moreover have "wait (lift hash st) (MapOp (DelKey (elem_key hash k)))"
        using G(1) lift_wait(1) [of st "MapOp (DelKey k)" hash] by (simp add: JDel)
      ultimately show ?thesis
        using evid_stable [OF so_relyD(1) [OF g'(2)]] N(1) by (auto simp: JDel at_gap_def)
    qed simp_all
    have "at_gap lt hash zero ?s g' t j start pr (enc sc) st"
      using job' e list_relyD(6) [OF so_relyD(1) [OF g'(2)] G(2)] N(1) g'(3) by (simp add: at_gap_def)
    moreover have "search_at lt hash ?s j start pr sc = (s', x)" using stp True by (simp add: p so_cas_second_def)
    ultimately have "so_local lt hash zero ?s g' t st s' x" using search_at_step [OF sw hr g'(1) _ N(2)] by blast
    then show ?thesis by (rule so_local_after [OF _ g'(2,5)])
  qed
qed

subsection \<open>The steps of Set\<close>

lemma so_small_write:
  assumes inv: "so_inv lt hash zero s g"
    and s': "onodes s' = onodes s" "ohead s' = ohead s" "obrk s' = obrk s" "segments s' = segments s" "pow_size (osize s')"
  shows "so_inv lt hash zero s' g \<and> so_rely lt t s g s' g \<and> keys_of lt hash s' g = keys_of lt hash s g"
proof (rule so_frame [OF inv])
  show "\<exists>v. onodes s' l = (onodes s l)\<lparr>oval := v\<rparr>" for l
    by (intro exI [of _ "oval (onodes s l)"]) (simp add: s')
  show "l \<notin> pub g \<and> l < obrk s'" if "lown g l = Some u" for l u using so_owned(1) [OF inv that] by (simp add: s')
  show "table_inv s' g" by (rule table_inv_same [OF so_inv_table [OF inv] s'(4)]) (simp_all add: s')
qed (use so_inv_ref [OF inv] s' table_same [OF s'(4)] in simp_all)

lemma pow_size_double:
  assumes "pow_size n" and "n < soMaxBuckets"
  shows "pow_size (n * 2)"
proof -
  obtain m where m: "1 \<le> m" "m \<le> 16" "n = 2 ^ m" using assms(1) by (auto simp: pow_size_def)
  have "m \<noteq> 16" using assms(2) m(3) by (auto simp: soMaxBuckets_def)
  with m have "1 \<le> Suc m" "Suc m \<le> 16" "n * 2 = 2 ^ Suc m" by simp_all
  then show ?thesis unfolding pow_size_def by blast
qed

lemma set_step_sim:
  assumes inv: "so_inv lt hash zero s g" and ok: "so_ok lt hash zero s g t p st" and stp: "so_set_step s p = (s', x)"
    and p: "p = LIns j start pr cur \<or> p = LVal v got \<or> p = LCount \<or> p = LSize c \<or> p = LGrow n"
  shows "so_local lt hash zero s g t st s' x"
  using p
proof (elim disjE)
  assume p: "p = LIns j start pr cur"
  have G: "\<not> is_del j" "job_ok hash zero s g t j start st" "prevs (split_less lt) (lst s) g (job_pair hash zero j) pr"
    "enc cur \<in> pub g" "cur \<noteq> Some 0" "at_gap lt hash zero s g t j start pr (enc cur) st"
    "fresh (split_less lt) (lst s) g t (job_pair hash zero j) (job_node j) (enc cur)"
    using ok by (simp_all add: p at_gap_def)
  show ?thesis
  proof (cases "so_cas_first (onodes s pr) cur (Some (job_node j)) False False")
    case CasFails
    with stp have x: "s' = s" "x = Busy (LHead j start)" by (auto simp: p)
    show ?thesis unfolding x by (rule so_stay [OF inv]) (use G in simp)
  next
    case CasHolds
    then have "cur = Some (job_node j)" by (auto simp: so_cas_first_def split: if_splits)
    then have "job_node j \<in> pub g" using G(4) by simp
    then show ?thesis using job_mine [OF G(2,1)] so_owned(1) [OF inv, of "job_node j" t] by (simp add: mine_def)
  next
    case (CasTry ver)
    with stp have x: "s' = s" "x = Busy (LInsCas j start pr cur ver)" by (auto simp: p)
    have "casok (lst s) pr ver (Some (enc cur))" using so_casok_now [OF _ CasTry] prevs_not_tail [OF G(3)] by simp
    then show ?thesis unfolding x by (intro so_stay [OF inv]) (use G in simp)
  qed
next
  assume p: "p = LVal v got"
  have C: "may st KAck" "got \<in> pub g" "got \<noteq> 0" using ok by (simp_all add: p)
  have x: "s' = s\<lparr>onodes := (onodes s)(got := (onodes s got)\<lparr>oval := v\<rparr>)\<rparr>" "x = Return (MapResp Ack)"
    using stp by (auto simp: p)
  have "so_inv lt hash zero s' g \<and> so_rely lt t s g s' g \<and> keys_of lt hash s' g = keys_of lt hash s g"
  proof (rule so_frame [OF inv])
    show "\<exists>v. onodes s' l = (onodes s l)\<lparr>oval := v\<rparr>" for l
      by (cases "l = got", rule exI [of _ v], simp add: x, rule exI [of _ "oval (onodes s l)"]) (simp add: x)
    show "lown g l = Some u \<and> onodes s' l = onodes s l" if "lown g l = Some u" for l u
      using that so_owned(1) [OF inv that] C(2) by (auto simp: x)
    show "l \<notin> pub g \<and> l < obrk s'" if "lown g l = Some u" for l u using so_owned(1) [OF inv that] by (simp add: x)
    show "table_inv s' g" by (rule table_inv_same [OF so_inv_table [OF inv]]) (simp_all add: x)
    show "slot_get s b = Some n \<Longrightarrow> slot_get s' b = Some n" "has_segment s b \<Longrightarrow> has_segment s' b" for b n
      using table_same [of s' s] by (simp_all add: x)
  qed (use so_inv_ref [OF inv] so_inv_size [OF inv] in \<open>simp_all add: x\<close>)
  then show ?thesis using C(1) by (intro so_quiet [of lt hash zero s' g]) (auto simp: x(2) may_def)
next
  assume p: "p = LCount"
  have x: "s' = s\<lparr>ocount := ocount s + 1\<rparr>" "x = Busy (LSize (ocount s + 1))" using stp by (auto simp: p)
  have "so_inv lt hash zero s' g \<and> so_rely lt t s g s' g \<and> keys_of lt hash s' g = keys_of lt hash s g"
    by (rule so_small_write [OF inv]) (simp_all add: x so_inv_size [OF inv])
  then show ?thesis using ok by (intro so_quiet [of lt hash zero s' g]) (simp_all add: x(2) p)
next
  assume p: "p = LSize c"
  show ?thesis
  proof (cases "c > osize s * soLoadFactor \<and> osize s < soMaxBuckets")
    case True
    with stp have x: "s' = s" "x = Busy (LGrow (osize s))" by (auto simp: p)
    show ?thesis unfolding x by (rule so_stay [OF inv]) (use ok True so_inv_size [OF inv] in \<open>simp add: p\<close>)
  next
    case False
    with stp have x: "s' = s" "x = Return (MapResp Ack)" by (auto simp: p)
    show ?thesis unfolding x by (rule so_stay [OF inv]) (use ok in \<open>simp add: p\<close>)
  qed
next
  assume p: "p = LGrow n"
  have x: "s' = (if osize s = n then s\<lparr>osize := n * 2\<rparr> else s)" "x = Return (MapResp Ack)"
    using stp by (auto simp: p)
  have "pow_size (osize s')" using ok so_inv_size [OF inv] pow_size_double by (simp add: x p)
  then have "so_inv lt hash zero s' g \<and> so_rely lt t s g s' g \<and> keys_of lt hash s' g = keys_of lt hash s g"
    by (intro so_small_write [OF inv]) (simp_all add: x)
  then show ?thesis using ok by (intro so_quiet [of lt hash zero s' g]) (simp_all add: x(2) p)
qed

subsection \<open>The steps of Get\<close>

lemma get_at_ok:
  assumes sw: "strict_weak lt" and hr: "hash_respects lt hash" and inv: "so_inv lt hash zero s g"
    and w: "wait st (MapOp (GetKey k))" and cur: "link_ok g cur"
    and e: "evid (split_less lt) (lst s) g (elem_key hash k) (lift hash st) (enc cur)"
  shows "so_local lt hash zero s g t st s (get_at k cur)"
proof (cases cur)
  case None
  have "so_local lt hash zero s g t st s (Return (MapResp (Got None)))"
    by (rule absent_return [OF inv e _ _ w _ sw hr]) (simp_all add: None at_tail)
  then show ?thesis by (simp add: get_at_def None)
next
  case (Some c)
  then show ?thesis using w cur e by (intro so_stay [OF inv]) (simp add: get_at_def link_ok_def)
qed

lemma evid_absent:
  assumes "evid lt s g k st l" and "\<not> nmark (lnodes s l)" and "above lt (lnodes s l) k"
  shows "evid lt s g k st l'"
  using assms miss_here [of "lnodes s" l lt k] by (auto simp: evid_def)

lemma get_step_sim:
  assumes sw: "strict_weak lt" and hr: "hash_respects lt hash" and inv: "so_inv lt hash zero s g"
    and ok: "so_ok lt hash zero s g t p st" and stp: "so_get_step lt hash s p = (s', x)"
    and p: "p = OGet k c \<or> p = OVal c"
  shows "so_local lt hash zero s g t st s' x"
  using p
proof (elim disjE)
  assume p: "p = OGet k c"
  let ?n = "onodes s c" and ?so = "soRegular (ucast (hash k))"
  let ?e = "\<lambda>l. evid (split_less lt) (lst s) g (elem_key hash k) (lift hash st) l"
  have C: "wait st (MapOp (GetKey k))" "c \<in> pub g" "c \<noteq> 0" "?e c" using ok by (simp_all add: p)
  note N = so_next [OF inv C(2,3)]
  have sh: "shape hash zero ?n" by (rule so_inv_shape [OF inv C(2,3)])
  have h0: "c = ohead s \<Longrightarrow> soKey ?n = 0" using so_inv_head(2) [OF inv] by simp
  have so0: "?so \<noteq> 0" using soRegular_odd [of "ucast (hash k)"] by (metis even_zero)
  have eq: "keyEqual (split_less lt) (lnodes (lst s) c) (elem_key hash k) \<longleftrightarrow>
      soKey ?n = ?so \<and> \<not> lt (okey ?n) k \<and> \<not> lt k (okey ?n)"
    using C(3) h0 so0 by (auto simp: keyEqual_def elem_key_def)
  have less: "keyLess (split_less lt) (lnodes (lst s) c) (elem_key hash k) \<longleftrightarrow>
      soKey ?n < ?so \<or> soKey ?n = ?so \<and> lt (okey ?n) k"
    using C(3) h0 so0 by (auto simp: keyLess_def elem_key_def word_gt_0)
  have reg: "\<not> dummy ?n" if "soKey ?n = ?so" using that sh soRegular_odd by (metis shape_def)
  have move: ?thesis if x: "(s', x) = (s, get_at k (pref ?n))" and e: "?e (enc (pref ?n))"
    using get_at_ok [OF sw hr inv C(1) N(1) e] x by simp
  have on: "?e (enc (pref ?n))" if "pmark ?n \<or> keyLess (split_less lt) (lnodes (lst s) c) (elem_key hash k)"
    by (rule evid_next [OF _ N(2) C(4)]) (use that C(3) in simp)
  consider (m) "pmark ?n" | (g) "\<not> pmark ?n" "soKey ?n > ?so"
    | (e) "\<not> pmark ?n" "soKey ?n = ?so" "\<not> lt (okey ?n) k" "\<not> lt k (okey ?n)"
    | (l) "\<not> pmark ?n" "\<not> soKey ?n > ?so" "keyLess (split_less lt) (lnodes (lst s) c) (elem_key hash k)"
    | (u) "\<not> pmark ?n" "soKey ?n = ?so" "\<not> lt (okey ?n) k" "lt k (okey ?n)"
    using less by fastforce
  then show ?thesis
  proof cases
    case m
    with stp have "(s', x) = (s, get_at k (pref ?n))" by (auto simp: p Let_def)
    then show ?thesis by (rule move) (rule on [OF disjI1 [OF m]])
  next
    case g
    then have x: "s' = s" "x = Return (MapResp (Got None))" using stp by (auto simp: p Let_def)
    have "above (split_less lt) (lnodes (lst s) c) (elem_key hash k)" using g less eq by (auto simp: above_def)
    then show ?thesis unfolding x using absent_return [OF inv C(4) _ _ C(1) _ sw hr] g C(3) by simp
  next
    case e
    then have x: "s' = s" "x = Busy (OVal c)" using stp reg by (auto simp: p Let_def)
    have "keys_of lt hash s g k" using here_present [OF C(2,3) e(1)] eq e by simp
    then show ?thesis unfolding x by (intro so_observe [OF inv C(1), of "KFound True"]) (auto simp: may_def)
  next
    case l
    then have "\<not> (soKey ?n = ?so \<and> \<not> lt (okey ?n) k \<and> \<not> lt k (okey ?n))" using less by auto
    with stp l have "(s', x) = (s, get_at k (pref ?n))" by (auto simp: p Let_def)
    then show ?thesis by (rule move) (rule on [OF disjI2 [OF l(3)]])
  next
    case u
    then have "(s', x) = (s, get_at k (pref ?n))" using stp by (auto simp: p Let_def)
    moreover have "above (split_less lt) (lnodes (lst s) c) (elem_key hash k)" using u less eq by (auto simp: above_def)
    then have "?e (enc (pref ?n))" using evid_absent [OF C(4)] u(1) C(3) by simp
    ultimately show ?thesis by (rule move)
  qed
next
  assume p: "p = OVal c"
  with stp have x: "s' = s" "x = Return (MapResp (Got (Some (oval (onodes s c)))))" by auto
  show ?thesis unfolding x by (rule so_stay [OF inv]) (use ok p in \<open>auto simp: may_def\<close>)
qed

subsection \<open>The steps of Del\<close>

lemma victim_regular:
  assumes inv: "so_inv lt hash zero s g" and v: "victim lt hash zero s g t k start p c st"
  shows "c \<in> pub g" and "c \<noteq> 0" and "\<not> dummy (onodes s c)"
proof -
  show C: "c \<in> pub g" "c \<noteq> 0" using v by (simp_all add: victim_def matches_def)
  have "soKey (onodes s c) = soRegular (ucast (hash k))"
    using v keyEqual_pair [OF C(2), of lt s "soRegular (ucast (hash k))" k]
    by (simp add: victim_def matches_def elem_key_def)
  then show "\<not> dummy (onodes s c)" using so_inv_shape [OF inv C] soRegular_odd by (metis shape_def)
qed

lemma mark_step_sim:
  assumes sw: "strict_weak lt" and hr: "hash_respects lt hash" and inv: "so_inv lt hash zero s g"
    and ok: "so_ok lt hash zero s g t (XMarkCas k start p c sc ver) st"
    and stp: "so_del_step s (XMarkCas k start p c sc ver) = (s', x)"
  shows "so_local lt hash zero s g t st s' x"
proof (cases "pver (onodes s c) = ver")
  case False
  with stp have x: "s' = s" "x = Busy (LHead (JDel k) start)" by (auto simp: so_cas_second_def)
  show ?thesis unfolding x by (rule so_stay [OF inv]) (use ok in \<open>simp add: victim_def\<close>)
next
  case True
  with stp have x: "s' = so_set s c sc True" "x = Busy (XLoad p c sc)" by (auto simp: so_cas_second_def)
  have V: "victim lt hash zero s g t k start p c st" "sc \<noteq> Some 0" "casok (lst s) c ver (Some (enc sc))"
    using ok by simp_all
  note C = victim_regular [OF inv V(1)]
  have W: "wait st (MapOp (DelKey k))" "matches (split_less lt) (lst s) g (elem_key hash k) c" "p \<in> pub g" "p \<noteq> 0"
    using V(1) by (simp_all add: victim_def)
  obtain R where st: "st = Wait (MapOp (DelKey k)) R" using W(1) by (auto simp: wait_def)
  have e: "lst s' = set_next (lst s) c (Some (enc sc)) True" unfolding x by (rule lst_set [OF C(2)])
  have M: "list_inv (split_less lt) (lst s') g" "list_rely (split_less lt) t (lst s) g (lst s') g"
    "present (split_less lt) (lst s') g = (\<lambda>y. present (split_less lt) (lst s) g y \<and> \<not> same_key (split_less lt) y (elem_key hash k))"
    "present (split_less lt) (lst s) g (elem_key hash k)" "dead (lst s') g c (Some (enc sc))"
    using mark_node [OF strict_weak_split_less [OF sw] so_inv_list [OF inv] W(2) V(3), of t] True C(2)
    unfolding e by auto
  have F: "so_inv lt hash zero s' g \<and> so_rely lt t s g s' g"
    by (rule so_write [OF inv x(1) C(1,2) V(2) M(1,2)]) (use C(3) in simp_all)
  have pr: "keys_of lt hash s' g = (\<lambda>y. keys_of lt hash s g y \<and> \<not> same_key lt y k)"
    by (intro ext) (simp add: keys_of_def M(3) same_elem [OF hr])
  have "keys_spec lt (keys_of lt hash s g) (MapOp (DelKey k)) = (keys_of lt hash s' g, KFound True)"
    using M(4) by (simp add: pr keys_of_def)
  then have "own_move (keys_spec lt) (keys_of lt hash s g) st (keys_of lt hash s' g) (Done (KFound True))"
    unfolding st by (rule own_move.effect)
  moreover have "thread_ok (so_ok lt hash zero s' g t) (relabel erase x) (Done (KFound True))"
    using M(5) V(2) W(3,4) C(2) by (simp add: x(2) dead_at_def)
  moreover have "\<forall>j. keys_of lt hash s' g j \<longrightarrow> keys_of lt hash s g j" by (simp add: pr)
  ultimately show ?thesis using F unfolding so_local_def by blast
qed

lemma del_step_sim:
  assumes sw: "strict_weak lt" and inv: "so_inv lt hash zero s g"
    and ok: "so_ok lt hash zero s g t p st" and stp: "so_del_step s p = (s', x)"
    and p: "p = XGet k start pr c \<or> p = XMark k start pr c sc \<or> p = XLoad pr c sc \<or>
      p = XUnl pr c sc v \<or> p = XUnlCas pr c sc v ver \<or> p = XLen v"
  shows "so_local lt hash zero s g t st s' x"
  using p
proof (elim disjE)
  assume p: "p = XGet k start pr c"
  show ?thesis
  proof (cases "pmark (onodes s c)")
    case True
    with stp have x: "s' = s" "x = Busy (LHead (JDel k) start)" by (auto simp: p)
    show ?thesis unfolding x by (rule so_stay [OF inv]) (use ok p in \<open>simp add: victim_def\<close>)
  next
    case False
    with stp have x: "s' = s" "x = Busy (XMark k start pr c (pref (onodes s c)))" by (auto simp: p)
    show ?thesis unfolding x by (rule so_stay [OF inv]) (use ok p so_inv_ref [OF inv] in simp)
  qed
next
  assume p: "p = XMark k start pr c sc"
  show ?thesis
  proof (cases "so_cas_first (onodes s c) sc sc False True")
    case CasFails
    with stp have x: "s' = s" "x = Busy (LHead (JDel k) start)" by (auto simp: p)
    show ?thesis unfolding x by (rule so_stay [OF inv]) (use ok p in \<open>simp add: victim_def\<close>)
  next
    case CasHolds
    then show ?thesis by (auto simp: so_cas_first_def split: if_splits)
  next
    case (CasTry ver)
    with stp have x: "s' = s" "x = Busy (XMarkCas k start pr c sc ver)" by (auto simp: p)
    have "c \<noteq> 0" using ok p victim_regular(2) [OF inv] by auto
    then have "casok (lst s) c ver (Some (enc sc))" using so_casok_now [OF _ CasTry] by simp
    then show ?thesis unfolding x by (intro so_stay [OF inv]) (use ok p in simp)
  qed
next
  assume p: "p = XLoad pr c sc"
  with stp have x: "s' = s" "x = Busy (XUnl pr c sc (oval (onodes s c)))" by auto
  show ?thesis unfolding x by (rule so_stay [OF inv]) (use ok p in simp)
next
  assume p: "p = XUnl pr c sc v"
  show ?thesis
  proof (cases "\<exists>ver. so_cas_first (onodes s pr) (Some c) sc False False = CasTry ver")
    case True
    then obtain ver where T: "so_cas_first (onodes s pr) (Some c) sc False False = CasTry ver" by blast
    with stp have x: "s' = s" "x = Busy (XUnlCas pr c sc v ver)" by (auto simp: p)
    have "casok (lst s) pr ver (Some c)" using so_casok_now [OF _ T] ok by (simp add: p)
    then show ?thesis unfolding x by (intro so_stay [OF inv]) (use ok p in simp)
  next
    case False
    with stp have x: "s' = s" "x = Busy (XLen v)" by (auto simp: p split: cas_load.splits)
    show ?thesis unfolding x by (rule so_stay [OF inv]) (use ok p in simp)
  qed
next
  assume p: "p = XUnlCas pr c sc v ver"
  have C: "st = Done (KFound True)" "pr \<in> pub g" "pr \<noteq> 0" "dead_at s g c sc" "casok (lst s) pr ver (Some c)"
    using ok by (simp_all add: p)
  show ?thesis
  proof (cases "pver (onodes s pr) = ver")
    case False
    with stp have x: "s' = s" "x = Busy (XLen v)" by (auto simp: p so_cas_second_def)
    show ?thesis unfolding x by (rule so_stay [OF inv]) (use C in simp)
  next
    case True
    with stp have x: "s' = so_set s pr sc False" "x = Busy (XLen v)" by (auto simp: p so_cas_second_def)
    obtain g' where g': "so_inv lt hash zero s' g'" "so_rely lt t s g s' g'"
      "present (split_less lt) (lst s') g' = present (split_less lt) (lst s) g"
      using unlink_write [OF sw inv C(2-5) True x(1), of t] by blast
    have "keys_of lt hash s' g' = keys_of lt hash s g" by (intro ext) (simp only: keys_of_def g'(3))
    then show ?thesis by (rule so_quiet [OF g'(1,2)]) (simp add: x(2) C(1))
  qed
next
  assume p: "p = XLen v"
  have x: "s' = s\<lparr>ocount := ocount s + NOT 0\<rparr>" "x = Return (MapResp (Got (Some v)))" using stp by (auto simp: p)
  have "so_inv lt hash zero s' g \<and> so_rely lt t s g s' g \<and> keys_of lt hash s' g = keys_of lt hash s g"
    by (rule so_small_write [OF inv]) (simp_all add: x so_inv_size [OF inv])
  then show ?thesis using ok by (intro so_quiet [of lt hash zero s' g]) (simp_all add: x(2) p)
qed

end
