(* ===== verification/Split_Map_Facts.thy ===== *)
theory Split_Map_Facts
  imports Split_Map_Steps
begin

text \<open>
  The simulation of the whole table, and the properties of \<open>lf/splithashmap.go\<close>: linearizability
  of its key set, the absence of panics, and the facts about the split order.
\<close>

subsection \<open>The insertion\<close>

lemma job_shape:
  assumes "job_ok hash zero s g t j start st" and "\<not> is_del j"
  shows "shape hash zero (onodes s (job_node j))"
proof (cases j)
  case (JDummy n b stk c)
  have "mine s g t n (soDummy b, zero) True" using assms(1) by (simp add: JDummy)
  with job_pair_shape(1) [OF assms(1)] show ?thesis by (auto simp: JDummy mine_def shape_def)
next
  case (JItem k v n)
  have "mine s g t n (elem_key hash k) False" using assms(1) by (simp add: JItem)
  then show ?thesis by (auto simp: JItem mine_def shape_def elem_key_def)
qed (use assms in simp)

lemma insert_write:
  assumes sw: "strict_weak lt" and inv: "so_inv lt hash zero s g"
    and ok: "so_ok lt hash zero s g t (LInsCas j start p cur ver) st" and ver: "pver (onodes s p) = ver"
    and s': "s' = so_set s p (Some (job_node j)) False"
  shows "\<exists>g'. so_inv lt hash zero s' g' \<and> so_rely lt t s g s' g' \<and> pub g' = insert (job_node j) (pub g) \<and>
    lown g' = (lown g)(job_node j := None) \<and>
    present (split_less lt) (lst s') g' = (\<lambda>x. same_key (split_less lt) x (job_pair hash zero j) \<or>
      present (split_less lt) (lst s) g x) \<and> \<not> present (split_less lt) (lst s) g (job_pair hash zero j)"
proof -
  have C: "\<not> is_del j" "job_ok hash zero s g t j start st" "prevs (split_less lt) (lst s) g (job_pair hash zero j) p"
    "fresh (split_less lt) (lst s) g t (job_pair hash zero j) (job_node j) (enc cur)"
    "casok (lst s) p ver (Some (enc cur))" using ok by (simp_all add: at_gap_def)
  note P = prevs_not_tail [OF C(3)]
  have n0: "job_node j \<noteq> 0" using job_mine [OF C(2,1)] by (simp add: mine_def)
  have e: "lst s' = set_next (lst s) p (Some (job_node j)) False" unfolding s' using P by (simp add: lst_set)
  obtain g' where g': "list_inv (split_less lt) (lst s') g'" "list_rely (split_less lt) t (lst s) g (lst s') g'"
    "present (split_less lt) (lst s') g' = (\<lambda>x. same_key (split_less lt) x (job_pair hash zero j) \<or>
      present (split_less lt) (lst s) g x)" "\<not> present (split_less lt) (lst s) g (job_pair hash zero j)"
    "pub g' = insert (job_node j) (pub g)" "lown g' = (lown g)(job_node j := None)"
    using insert_node [OF strict_weak_split_less [OF sw] so_inv_list [OF inv] C(3-5)] ver P unfolding e by auto
  have "so_inv lt hash zero s' g' \<and> so_rely lt t s g s' g'"
  proof (rule so_write [OF inv s' _ _ _ g'(1,2)])
    show "shape hash zero (onodes s l)" if "l \<in> pub g'" "l \<notin> pub g" for l
      using that job_shape [OF C(2,1)] by (simp add: g'(5))
  qed (use P n0 in simp_all)
  with g'(3-6) show ?thesis by blast
qed

text \<open>Linking a sentinel does not change the key set: its pair is not the pair of an element.\<close>

lemma insert_dummy:
  assumes sw: "strict_weak lt" and inv: "so_inv lt hash zero s g"
    and ok: "so_ok lt hash zero s g t (LInsCas (JDummy n b stk c) start p cur ver) st"
    and stp: "so_set_step s (LInsCas (JDummy n b stk c) start p cur ver) = (s', x)"
  shows "so_local lt hash zero s g t st s' x"
proof (cases "pver (onodes s p) = ver")
  case False
  with stp have x: "s' = s" "x = Busy (LHead (JDummy n b stk c) start)" by (auto simp: so_cas_second_def)
  show ?thesis unfolding x by (rule so_stay [OF inv]) (use ok in \<open>simp add: at_gap_def\<close>)
next
  case True
  let ?j = "JDummy n b stk c"
  from True stp have x: "s' = so_set s p (Some (job_node ?j)) False" "x = Busy (PCas c b n stk)"
    by (auto simp: so_cas_second_def)
  have J: "job_ok hash zero s g t ?j start st" "p \<in> pub g"
    using ok prevs_not_tail [of lt s g "job_pair hash zero ?j" p] by (simp_all add: at_gap_def)
  have C: "call_ok hash s g t c st" "route hash s c b stk" "has_segment s b" "mine s g t n (soDummy b, zero) True"
    using J(1) by simp_all
  from insert_write [OF sw inv ok True x(1)] obtain g' where g': "so_inv lt hash zero s' g'" "so_rely lt t s g s' g'"
    "pub g' = insert n (pub g)" "lown g' = (lown g)(n := None)"
    "present (split_less lt) (lst s') g' =
      (\<lambda>y. same_key (split_less lt) y (soDummy b, zero) \<or> present (split_less lt) (lst s) g y)" by auto
  have ev: "even (soDummy b)" using job_pair_shape(1) [OF J(1)] by simp
  have "soRegular w \<noteq> soDummy b" for w using ev soRegular_odd [of w] by auto
  then have "keys_of lt hash s' g' = keys_of lt hash s g"
    by (intro ext) (simp add: keys_of_def g'(5) elem_key_def same_split)
  moreover have "call_ok hash s' g' t c st"
  proof -
    have "mine s' g' t m (elem_key hash k) False" if m: "mine s g t m (elem_key hash k) False" for m k
    proof -
      have "m \<noteq> n" using m C(4) by (auto simp: mine_def)
      moreover have "m \<noteq> p" using m J(2) so_owned(1) [OF inv, of m t] by (auto simp: mine_def)
      ultimately show ?thesis using m by (simp add: mine_def g'(4) x(1) so_set_def)
    qed
    then show ?thesis using C(1) by (cases c) auto
  qed
  moreover have "sentinel s' g' n b"
    using C(4) J(2) so_owned(1) [OF inv, of n t] by (auto simp: sentinel_def mine_def g'(3) x(1) so_set_def)
  ultimately show ?thesis
    using C(2,3) so_relyD(5,9) [OF g'(2)] by (intro so_quiet [OF g'(1,2)]) (simp_all add: x(2))
qed

subsection \<open>The simulation\<close>

definition so_rel :: "('k \<Rightarrow> 'k \<Rightarrow> bool) \<Rightarrow> ('k \<Rightarrow> u64) \<Rightarrow> 'k \<Rightarrow> ('k, 'v) split_map \<Rightarrow>
    (tid \<Rightarrow> (('k, 'v) so_pc, keys_resp) thread) \<Rightarrow> ('k \<Rightarrow> bool) \<Rightarrow> (tid \<Rightarrow> ('k, 'v) lstatus) \<Rightarrow> bool"
where
  "so_rel lt hash zero s th K st \<longleftrightarrow> finite {u. st u \<noteq> Quiet} \<and>
     (\<exists>g. so_inv lt hash zero s g \<and> keys_of lt hash s g = K \<and> all_ok (so_ok lt hash zero s g) th st)"

lemma so_insert_local:
  assumes sw: "strict_weak lt" and hr: "hash_respects lt hash" and inv: "so_inv lt hash zero s g"
    and all: "all_ok (so_ok lt hash zero s g) th st" and fin: "finite {u. st u \<noteq> Quiet}"
    and th: "th t = Busy (LInsCas (JItem k v n) start p cur ver)" and ver: "pver (onodes s p) = ver"
    and s': "s' = so_set s p (Some n) False"
  shows "\<exists>E st' K'. visible E = [] \<and> lin_run (keys_spec lt) (keys_of lt hash s g, st) E = Some (K', st') \<and>
    so_rel lt hash zero s' (th(t := Busy LCount)) K' st'"
proof -
  have ok: "so_ok lt hash zero s g t (LInsCas (JItem k v n) start p cur ver) (st t)"
    using all_okD [OF all, of t] by (simp add: th)
  then have w: "wait (st t) (MapOp (SetKey k v))" by (simp add: at_gap_def)
  from insert_write [OF sw inv ok ver] s' obtain g' where g': "so_inv lt hash zero s' g'" "so_rely lt t s g s' g'"
    "present (split_less lt) (lst s') g' =
      (\<lambda>y. same_key (split_less lt) y (elem_key hash k) \<or> present (split_less lt) (lst s) g y)"
    "\<not> present (split_less lt) (lst s) g (elem_key hash k)" by auto
  let ?K = "keys_of lt hash s g" and ?K' = "keys_of lt hash s' g'"
  have new: "?K' = (\<lambda>y. same_key lt y k \<or> ?K y)"
    by (intro ext) (simp add: keys_of_def g'(3) same_elem [OF hr])
  have absent: "\<not> ?K k" using g'(4) by (simp add: keys_of_def)
  from keys_insert [OF keys_of_same(1) [OF sw hr] absent new w fin] obtain E st' where
    E: "visible E = []" "lin_run (keys_spec lt) (?K, st) E = Some (?K', st')"
    "st' t = Done KAck" "\<And>u. u \<noteq> t \<Longrightarrow> key_gains ?K ?K' (st u) (st' u)" by blast
  have "all_ok (so_ok lt hash zero s' g') (th(t := Busy LCount)) st'"
    unfolding all_ok_def
  proof
    fix u
    show "thread_ok (so_ok lt hash zero s' g' u) ((th(t := Busy LCount)) u) (st' u)"
    proof (cases "u = t")
      case False
      then show ?thesis
        using key_gains_thread [OF E(4) [OF False] all_okD [OF all, of u]]
          so_stable [OF g'(2) E(4) [OF False] False] by simp
    qed (simp add: E(3))
  qed
  then have "so_rel lt hash zero s' (th(t := Busy LCount)) ?K' st'"
    using g'(1) lin_run_finite [OF E(2) fin] unfolding so_rel_def by blast
  with E(1,2) show ?thesis by blast
qed

lemma so_local_step:
  assumes sw: "strict_weak lt" and hr: "hash_respects lt hash" and inv: "so_inv lt hash zero s g"
    and ok: "so_ok lt hash zero s g t p st" and stp: "so_step lt hash zero s t p = (s', x)"
    and p: "\<forall>k v n start pr cur ver. p \<noteq> LInsCas (JItem k v n) start pr cur ver"
  shows "so_local lt hash zero s g t st s' x"
proof (cases p)
  case (LInsCas j start pr cur ver)
  then have st: "so_set_step s (LInsCas j start pr cur ver) = (s', x)" using stp by (simp add: so_step_def)
  show ?thesis
  proof (cases j)
    case (JDummy n b stk c)
    with insert_dummy [OF sw inv] ok st LInsCas show ?thesis by blast
  qed (use ok p LInsCas in auto)
next
  case (XMarkCas k start pr c sc ver)
  with stp ok show ?thesis using mark_step_sim [OF sw hr inv] by (simp add: so_step_def)
qed (use stp in \<open>auto simp: so_step_def simp del: so_search_step.simps so_set_step.simps so_del_step.simps
      so_get_step.simps bucket_step.simps
    intro: search_step_sim [OF sw hr inv ok] set_step_sim [OF inv ok] del_step_sim [OF sw inv ok]
      get_step_sim [OF sw hr inv ok] bucket_step_sim [OF sw inv ok]\<close>)

lemma so_rel_stp:
  assumes sw: "strict_weak lt" and hr: "hash_respects lt hash" and rel: "so_rel lt hash zero s th K st"
    and th: "th t = Busy p" and stp: "so_step lt hash zero s t p = (s', x)"
  shows "\<exists>E K' st'. visible E = [] \<and> lin_run (keys_spec lt) (K, st) E = Some (K', st') \<and>
    so_rel lt hash zero s' (th(t := relabel erase x)) K' st'"
proof -
  from rel obtain g where fin: "finite {u. st u \<noteq> Quiet}" and g: "so_inv lt hash zero s g"
    "keys_of lt hash s g = K" "all_ok (so_ok lt hash zero s g) th st" unfolding so_rel_def by blast
  have ok: "so_ok lt hash zero s g t p (st t)" using all_okD [OF g(3), of t] th by simp
  have fin_step: ?thesis if "so_local lt hash zero s g t (st t) s' x"
  proof -
    from that obtain g' c where L: "own_move (keys_spec lt) K (st t) (keys_of lt hash s' g') c"
      "so_inv lt hash zero s' g'" "thread_ok (so_ok lt hash zero s' g' t) (relabel erase x) c"
      "so_rely lt t s g s' g'" "\<And>k. keys_of lt hash s' g' k \<Longrightarrow> keys_of lt hash s g k"
      unfolding so_local_def g(2) by blast
    obtain E where E: "visible E = []" "lin_run (keys_spec lt) (K, st) E = Some (keys_of lt hash s' g', st(t := c))"
      using own_move_run [where st = st and t = t, OF L(1)] by blast
    have "all_ok (so_ok lt hash zero s' g') (th(t := relabel erase x)) (st(t := c))"
      using g(3) L(3) by (rule all_ok_upd) (rule so_stable [OF L(4) key_gains_refl [OF L(5)]])
    then have "so_rel lt hash zero s' (th(t := relabel erase x)) (keys_of lt hash s' g') (st(t := c))"
      using L(2) finite_active_upd [OF fin] unfolding so_rel_def by blast
    with E show ?thesis by blast
  qed
  show ?thesis
  proof (cases "\<exists>k v n start pr cur ver. p = LInsCas (JItem k v n) start pr cur ver")
    case False
    then show ?thesis using so_local_step [OF sw hr g(1) ok stp] fin_step by blast
  next
    case True
    then obtain k v n start pr cur ver where p: "p = LInsCas (JItem k v n) start pr cur ver" by blast
    show ?thesis
    proof (cases "pver (onodes s pr) = ver")
      case True
      with stp have x: "s' = so_set s pr (Some n) False" "x = Busy LCount"
        by (auto simp: p so_step_def so_cas_second_def)
      from so_insert_local [OF sw hr g(1,3) fin th [unfolded p] True x(1)] show ?thesis
        unfolding x(2) g(2) relabel.simps by blast
    next
      case False
      with stp have x: "s' = s" "x = Busy (LHead (JItem k v n) start)"
        by (auto simp: p so_step_def so_cas_second_def)
      have "so_local lt hash zero s g t (st t) s' x"
        unfolding x by (rule so_stay [OF g(1)]) (use ok in \<open>simp add: p at_gap_def\<close>)
      then show ?thesis by (rule fin_step)
    qed
  qed
qed

lemma soDummy_0: "soDummy 0 = 0"
  by (rule bit_eqI) (simp add: bit_soDummy)

lemma so_init:
  assumes "strict_weak lt"
  shows "so_inv lt hash zero (NewSplitHashMap zero :: ('k, 'v) split_map)
       \<lparr>phys = [1, 0], pub = {0, 1}, lown = (\<lambda>_. None)\<rparr> \<and>
     keys_of lt hash (NewSplitHashMap zero :: ('k, 'v) split_map) \<lparr>phys = [1, 0], pub = {0, 1}, lown = (\<lambda>_. None)\<rparr> = (\<lambda>_. False)"
proof -
  let ?s = "NewSplitHashMap zero :: ('k, 'v) split_map" and ?g = "\<lparr>phys = [1, 0], pub = {0, 1}, lown = (\<lambda>_. None)\<rparr>"
  have S: "segments ?s = (replicate 256 None)[0 := Some ((replicate 256 None)[0 := Some 1])]"
    by (simp add: NewSplitHashMap_def soSegments_def soMaxBuckets_def soSegmentSize_def soSegmentShift_def)
  have N: "onodes ?s l = new_soNode 0 zero undefined True" for l by (simp add: NewSplitHashMap_def)
  have slots: "slot_get ?s b = (if b = 0 then Some 1 else None)" if b: "b < 2 ^ 16" for b
  proof -
    note B = seg_slot [OF b]
    have "b = 0 \<longleftrightarrow> seg_of b = 0 \<and> slot_of b = 0" using B(3) by (auto simp: word_unat_eq_iff)
    then show ?thesis using B(1,2) by (auto simp: slot_get_def S nth_list_update split: option.splits)
  qed
  have "table_inv ?s ?g" unfolding table_inv_def
  proof (intro conjI allI impI)
    show "length xs = 256" if "i < 256" "segments ?s ! i = Some xs" for i xs
      using that by (cases "i = 0") (auto simp: S)
    show "sentinel ?s ?g n b" if "b < 2 ^ 16" "slot_get ?s b = Some n" for b n
    proof -
      have "b = 0 \<and> n = 1" using that slots [OF that(1)] by (cases "b = 0") simp_all
      then show ?thesis by (simp add: sentinel_def N new_soNode_def soDummy_0)
    qed
  qed (simp_all add: S slots)
  moreover have "pow_size (osize ?s)" by (auto simp: pow_size_def NewSplitHashMap_def intro: exI [of _ 1])
  moreover have "list_inv (split_less lt) (lst ?s) ?g"
    by (auto simp: list_inv_def NewSplitHashMap_def node_inv_def below_def new_soNode_def)
  ultimately show ?thesis
    by (auto simp: so_inv_def NewSplitHashMap_def keys_of_def present_def keyEqual_def shape_def new_soNode_def fun_eq_iff)
qed

lemma so_beg_ok:
  assumes inv: "so_inv lt hash zero s g" and b: "so_beg hash s t oper = (s', p)" and m: "is_map_op oper"
  shows "\<exists>g'. so_inv lt hash zero s' g' \<and> so_rely lt t s g s' g' \<and> keys_of lt hash s' g' = keys_of lt hash s g \<and>
    so_ok lt hash zero s' g' t p (Wait oper {})"
proof -
  have w: "wait (Wait oper {}) oper" by (simp add: wait_def)
  show ?thesis
  proof (cases "(hash, s, t, oper)" rule: so_beg.cases)
    case (1 _ _ _ k v)
    then have x: "s' = s\<lparr>onodes := (onodes s)(obrk s := new_soNode (soRegular (ucast (hash k))) k v False),
        obrk := Suc (obrk s)\<rparr>" "p = BSize (SoSet k v (obrk s))" and o: "oper = MapOp (SetKey k v)" using b by auto
    from so_alloc [OF inv x(1) refl, of t] w show ?thesis unfolding x(2) o
      by (intro exI [of _ "g\<lparr>lown := (lown g)(obrk s := Some t)\<rparr>"]) (simp add: elem_key_def)
  qed (use b w m inv so_rely_refl in \<open>auto intro!: exI [of _ g]\<close>)
qed

lemma so_sim:
  assumes sw: "strict_weak lt" and hr: "hash_respects lt hash"
  shows "sim_machine (forget erase (split_machine lt hash zero)) (keys_spec lt) (\<lambda>_. False) (so_rel lt hash zero)"
proof
  show "so_rel lt hash zero (sh0 (forget erase (split_machine lt hash zero))) (\<lambda>_. Idle) (\<lambda>_. False) (\<lambda>_. Quiet)"
    using so_init [OF sw, of hash zero] unfolding so_rel_def by (auto simp: forget_def all_ok_def)
next
  fix s th K st and t :: tid
  assume "so_rel lt hash zero s th K st"
  then show "th t = Idle \<Longrightarrow> st t = Quiet" and "th t \<noteq> Panic"
    unfolding so_rel_def by (auto dest: all_okD [where u = t])
next
  fix s th K st t oper s' p
  assume rel: "so_rel lt hash zero s th K st" and t: "th t = Idle"
    and c: "can (forget erase (split_machine lt hash zero)) s t oper"
    and b: "beg (forget erase (split_machine lt hash zero)) s t oper = (s', p)"
  from rel obtain g where g: "finite {u. st u \<noteq> Quiet}" "so_inv lt hash zero s g"
    "keys_of lt hash s g = K" "all_ok (so_ok lt hash zero s g) th st" unfolding so_rel_def by blast
  obtain g' where p: "so_inv lt hash zero s' g'" "so_rely lt t s g s' g'"
    "keys_of lt hash s' g' = keys_of lt hash s g" "so_ok lt hash zero s' g' t p (Wait oper {})"
    using so_beg_ok [OF g(2), of t oper s' p] b c by (auto simp: forget_def)
  have gn: "key_gains (keys_of lt hash s g) (keys_of lt hash s' g') q q" for q
    by (rule key_gains_refl) (simp add: p(3))
  have "thread_ok (so_ok lt hash zero s' g' t) (Busy p) (Wait oper {})" using p(4) by simp
  with g(4) have "all_ok (so_ok lt hash zero s' g') (th(t := Busy p)) (st(t := Wait oper {}))"
    by (rule all_ok_upd) (rule so_stable [OF p(2) gn])
  then show "so_rel lt hash zero s' (th(t := Busy p)) K (st(t := Wait oper {}))"
    using g(3) p(1,3) finite_active_upd [OF g(1)] unfolding so_rel_def by auto
next
  fix s th K st t p s' x
  assume rel: "so_rel lt hash zero s th K st" and t: "th t = Busy p"
    and b: "stp (forget erase (split_machine lt hash zero)) s t p = (s', x)"
  obtain y where y: "so_step lt hash zero s t p = (s', y)" "x = relabel erase y"
    using b by (auto simp: forget_def split: prod.splits)
  show "\<exists>E K' st'. visible E = [] \<and> lin_run (keys_spec lt) (K, st) E = Some (K', st') \<and>
      so_rel lt hash zero s' (th(t := x)) K' st'"
    unfolding y(2) by (rule so_rel_stp [OF sw hr rel t y(1)])
next
  fix s th K st t r
  assume rel: "so_rel lt hash zero s th K st" and r: "th t = Return r"
  from rel obtain g where g: "finite {u. st u \<noteq> Quiet}" "so_inv lt hash zero s g"
    "keys_of lt hash s g = K" "all_ok (so_ok lt hash zero s g) th st" unfolding so_rel_def by blast
  have "all_ok (so_ok lt hash zero s g) (th(t := Idle)) (st(t := Quiet))"
    using g(4) by (rule all_ok_upd) auto
  then have "so_rel lt hash zero s (th(t := Idle)) K (st(t := Quiet))"
    using g(2,3) finite_active_upd [OF g(1)] unfolding so_rel_def by blast
  moreover have "thread_ok (so_ok lt hash zero s g t) (Return r) (st t)"
    using all_okD [OF g(4), of t] r by simp
  ultimately show "(st t = Done r \<or> (\<exists>op R. st t = Wait op R \<and> r \<in> R)) \<and>
      so_rel lt hash zero s (th(t := Idle)) K (st(t := Quiet))" by auto
qed

subsection \<open>Properties\<close>

text \<open>
  C12: For every strict weak order, every hash function that agrees on equal keys and every schedule
  of any number of goroutines calling \<open>Set\<close>, \<open>Get\<close> and \<open>Del\<close>, the split-ordered hash table is
  linearizable as a set of keys, and no call panics: while goroutines initialize segments and
  buckets, insert sentinels and double the table under each other's feet, no \<open>nil\<close> is dereferenced,
  no index is out of range, and no key is lost or appears twice.
\<close>

theorem split_map_linearizable:
  assumes "strict_weak lt" and "hash_respects lt hash"
  shows "linearizable (keys_spec lt) (\<lambda>_. False)
      (map (relabel_event erase) (history (split_machine lt hash zero) acts)) \<and>
    snd (run (split_machine lt hash zero) acts) t \<noteq> Panic"
  by (rule sim_correct [OF so_sim [OF assms]])

theorem split_map_linearizable_witness:
  "linearizable (keys_spec (<)) (\<lambda>_. False) (map (relabel_event erase)
     (history (split_machine ((<) :: int \<Rightarrow> int \<Rightarrow> bool) of_int 0)
       [Start 0 (MapOp (SetKey 3 True)), Step 0, Start 1 (MapOp (DelKey 3)), Step 1])) \<and>
   snd (run (split_machine ((<) :: int \<Rightarrow> int \<Rightarrow> bool) of_int 0)
       [Start 0 (MapOp (SetKey 3 True)), Step 0, Start 1 (MapOp (DelKey 3)), Step 1]) 0 \<noteq> Panic"
  by (rule split_map_linearizable [OF strict_weak_int hash_respects_int])

text \<open>
  C18: For every strict weak order and every hash function that agrees on equivalent keys, in every reachable
  state of the table, whatever the interleaving, the number of buckets is a
  power of two of at most \<open>soMaxBuckets\<close>, the first bucket is initialized, and every initialized
  table entry points to the sentinel of its bucket, which is not marked.
\<close>

theorem split_table_invariant:
  assumes "strict_weak lt" and "hash_respects lt hash" and "run (split_machine lt hash zero) acts = (s, th)"
  shows "(\<exists>m \<le> 16. osize s = 2 ^ m) \<and> slot_get s 0 \<noteq> None \<and>
    (\<forall>b < soMaxBuckets. \<forall>n. slot_get s b = Some n \<longrightarrow>
      dummy (onodes s n) \<and> soKey (onodes s n) = soDummy b \<and> \<not> pmark (onodes s n))"
proof -
  from sim_machine.reachable_rel [OF so_sim [OF assms(1,2)], of zero acts]
  obtain g where inv: "so_inv lt hash zero s g"
    by (auto simp: forget_run assms(3) so_rel_def)
  note T = table_invD [OF so_inv_table [OF inv]]
  have "dummy (onodes s n) \<and> soKey (onodes s n) = soDummy b \<and> \<not> pmark (onodes s n)"
    if "b < soMaxBuckets" "slot_get s b = Some n" for b n
  proof -
    have "sentinel s g n b" using that T(3) by (simp add: soMaxBuckets_def)
    then show ?thesis using so_inv_shape [OF inv, of n] by (auto simp: sentinel_def shape_def)
  qed
  then show ?thesis using T(4) so_inv_size [OF inv] by (auto simp: pow_size_def)
qed

theorem split_table_invariant_witness:
  "let M = split_machine ((<) :: int \<Rightarrow> int \<Rightarrow> bool) of_int 0;
       s = fst (run M [Start 0 (MapOp (SetKey 3 True)), Step 0]) in
   (\<exists>m \<le> 16. osize s = 2 ^ m) \<and> slot_get s 0 \<noteq> None \<and>
    (\<forall>b < soMaxBuckets. \<forall>n. slot_get s b = Some n \<longrightarrow>
      dummy (onodes s n) \<and> soKey (onodes s n) = soDummy b \<and> \<not> pmark (onodes s n))"
  unfolding Let_def by (rule split_table_invariant [OF strict_weak_int hash_respects_int prod.collapse [symmetric]])

text \<open>
  C17: Choosing the bucket by the low bits of the hash is equivalent to cutting the list at the
  sentinels: with \<open>2 ^ m\<close> buckets an element belongs to bucket \<open>b\<close> iff it comes after the sentinel of
  \<open>b\<close> and before every sentinel that comes after that one. So doubling the table moves no element.
\<close>

theorem bucket_region:
  assumes "m \<le> 31" and "b < 2 ^ m"
  shows "ucast h mod 2 ^ m = b \<longleftrightarrow>
    soDummy b < soRegular h \<and> (\<forall>c < 2 ^ m. soDummy b < soDummy c \<longrightarrow> soRegular h < soDummy c)"
proof
  have m: "m \<le> 32" using assms(1) by simp
  note Z = soDummy_le_zone [OF _ m]
  assume e: "ucast h mod 2 ^ m = b"
  then have z: "zone m (soRegular h) = zone m (soDummy b)" using zone_bucket [OF assms(2,1)] by blast
  have "soRegular h < soDummy c" if "c < 2 ^ m" "soDummy b < soDummy c" for c
    using that Z(2) [OF that(1)] by (simp add: z)
  then show "soDummy b < soRegular h \<and> (\<forall>c < 2 ^ m. soDummy b < soDummy c \<longrightarrow> soRegular h < soDummy c)"
    using soDummy_before [OF assms(1), of h] e by blast
next
  have m: "m \<le> 32" using assms(1) by simp
  note Z = soDummy_le_zone [OF _ m]
  assume a: "soDummy b < soRegular h \<and> (\<forall>c < 2 ^ m. soDummy b < soDummy c \<longrightarrow> soRegular h < soDummy c)"
  let ?c = "ucast h mod 2 ^ m :: u64"
  have c: "?c < 2 ^ m" using assms(1) by (intro word_mod_less_divisor) (simp add: unat_less unat_two_power)
  have "\<not> soDummy b < soDummy ?c" using a c soDummy_before [OF assms(1), of h] by fastforce
  then have "soDummy ?c \<le> soDummy b" by (rule leI)
  then have "zone m (soDummy ?c) \<le> zone m (soDummy b)" using Z(1) [OF c, of "soDummy b"] by blast
  moreover have "zone m (soRegular h) = zone m (soDummy ?c)" using zone_bucket [OF c assms(1)] by blast
  moreover have "zone m (soDummy b) \<le> zone m (soRegular h)"
    using a Z(1) [OF assms(2), of "soRegular h"] less_imp_le by blast
  ultimately have "zone m (soRegular h) = zone m (soDummy b)" by simp
  then show "?c = b" using zone_bucket [OF assms(2,1)] by blast
qed

theorem bucket_region_witness:
  "ucast (6 :: u32) mod 2 ^ 2 = (2 :: u64) \<longleftrightarrow>
    soDummy 2 < soRegular 6 \<and> (\<forall>c < 2 ^ 2. soDummy 2 < soDummy c \<longrightarrow> soRegular 6 < soDummy c)"
  by (rule bucket_region) simp_all

text \<open>
  The recursion of \<open>initBucket\<close> over the parents ends at bucket 0: with at most \<open>2 ^ m\<close> buckets it
  takes at most \<open>m\<close> steps.
\<close>

theorem parentBucket_ends:
  assumes "unat b < 2 ^ m"
  shows "\<exists>n \<le> m. (parentBucket ^^ n) b = 0"
  using assms
proof (induction m arbitrary: b)
  case 0
  then show ?case by (intro exI [of _ 0]) (simp add: unat_eq_0)
next
  case (Suc m)
  show ?case
  proof (cases "b = 0")
    case False
    obtain n where "n \<le> m" "(parentBucket ^^ n) (parentBucket b) = 0"
      using Suc.IH [OF parentBucket_half [OF Suc.prems False]] by blast
    then show ?thesis by (intro exI [of _ "Suc n"]) (simp add: funpow_swap1)
  qed (intro exI [of _ 0], simp)
qed

theorem parentBucket_ends_witness: "\<exists>n \<le> 4. (parentBucket ^^ n) 13 = 0"
  by (rule parentBucket_ends) simp

end
