(* ===== verification/Kp_Queue.thy ===== *)
theory Kp_Queue
  imports Universal Adt
begin

text \<open>
  \<open>wf/queue.go\<close>: the wait-free queue of Kogan and Petrank, the model. Every participant announces
  its operation with a phase in its slot of the array \<open>state\<close> and helps all announced operations
  with a phase that is not greater than its own. Every shared access is a step.
\<close>

subsection \<open>Memory\<close>

text \<open>\<open>noTid\<close> marks the sentinel's \<open>enqTid\<close> and the \<open>deqTid\<close> of a node that is not claimed.\<close>

definition noTid :: int where "noTid = -1"

record 'a kpNode =
  kvalue :: 'a
  knext :: ptr
  enqTid :: int
  deqTid :: int

definition newNode :: "'a \<Rightarrow> int \<Rightarrow> 'a kpNode" where
  "newNode v tid = \<lparr>kvalue = v, knext = None, enqTid = tid, deqTid = noTid\<rparr>"

text \<open>
  A descriptor is immutable and compared by its address; \<open>dver\<close> stands for the address: every
  descriptor stored in a slot gets a number that the slot has not had before. Phases are Go
  \<open>int64\<close>s that count from 0; they are not modelled beyond \<open>2^63\<close> operations.
\<close>

record opDesc =
  phase :: int
  pending :: bool
  enqueue :: bool
  dnode :: ptr
  dver :: nat

text \<open>\<open>khandle\<close> is not a field of the Go struct: it is the handle that each goroutine keeps.\<close>

record 'a kp_queue =
  knodes :: "loc \<Rightarrow> 'a kpNode"
  kbrk :: loc
  khead :: loc
  ktail :: loc
  kstate :: "opDesc list"
  kcursor :: nat
  kmax :: nat
  khandle :: "tid \<Rightarrow> nat option"

text \<open>\<open>None\<close> is the panic on \<open>maxHandles < 1\<close>.\<close>

definition NewKpQueue :: "'a \<Rightarrow> nat \<Rightarrow> 'a kp_queue option" where
  "NewKpQueue zero maxHandles =
     (if maxHandles < 1 then None
      else Some \<lparr>knodes = (\<lambda>_. newNode zero noTid), kbrk = 1, khead = 0, ktail = 0,
        kstate = replicate maxHandles \<lparr>phase = -1, pending = False, enqueue = True, dnode = None, dver = 0\<rparr>,
        kcursor = 0, kmax = maxHandles, khandle = (\<lambda>_. None)\<rparr>)"

definition set_desc :: "'a kp_queue \<Rightarrow> nat \<Rightarrow> int \<Rightarrow> bool \<Rightarrow> bool \<Rightarrow> ptr \<Rightarrow> 'a kp_queue" where
  "set_desc s j ph pend enq nd = s\<lparr>kstate := (kstate s)[j :=
     \<lparr>phase = ph, pending = pend, enqueue = enq, dnode = nd, dver = Suc (dver (kstate s ! j))\<rparr>]\<rparr>"

definition still_pending :: "'a kp_queue \<Rightarrow> nat \<Rightarrow> int \<Rightarrow> bool" where
  "still_pending s j ph = (pending (kstate s ! j) \<and> phase (kstate s ! j) \<le> ph)"

subsection \<open>Program counters\<close>

text \<open>Where \<open>helpFinishEnq\<close> and \<open>helpFinishDeq\<close> return to.\<close>

datatype kont =
    KNext nat     \<comment> \<open>the loop of \<open>help\<close>, after slot \<open>j\<close>\<close>
  | KEnq nat      \<comment> \<open>the loop of \<open>helpEnq\<close>\<close>
  | KDeq nat      \<comment> \<open>the loop of \<open>helpDeq\<close>\<close>
  | KEnd          \<comment> \<open>\<open>enq\<close> or \<open>deq\<close>, after \<open>help\<close>\<close>

datatype enq_pc =
    EPend                        \<comment> \<open>\<open>for q.isStillPending(tid, phase)\<close>\<close>
  | ETail                        \<comment> \<open>\<open>last := q.tail.Load()\<close>\<close>
  | ENext loc                    \<comment> \<open>\<open>next := last.next.Load()\<close>\<close>
  | ESame loc ptr                \<comment> \<open>\<open>last != q.tail.Load()\<close>\<close>
  | EPend2 loc                   \<comment> \<open>\<open>!q.isStillPending(tid, phase)\<close>\<close>
  | ENode loc                    \<comment> \<open>\<open>q.state[tid].Load().node\<close>\<close>
  | ECas loc ptr                 \<comment> \<open>\<open>last.next.CompareAndSwap(nil, _)\<close>\<close>

datatype fin_enq_pc =
    NTail                        \<comment> \<open>\<open>last := q.tail.Load()\<close>\<close>
  | NNext loc                    \<comment> \<open>\<open>next := last.next.Load()\<close>\<close>
  | NDesc loc loc                \<comment> \<open>\<open>curDesc := q.state[tid].Load()\<close>\<close>
  | NSame loc loc opDesc         \<comment> \<open>\<open>last == q.tail.Load()\<close>\<close>
  | NNode loc loc opDesc         \<comment> \<open>\<open>q.state[tid].Load().node == next\<close>\<close>
  | NCas loc loc opDesc          \<comment> \<open>\<open>q.state[tid].CompareAndSwap(curDesc, newDesc)\<close>\<close>
  | NMove loc loc                \<comment> \<open>\<open>q.tail.CompareAndSwap(last, next)\<close>\<close>

datatype deq_pc =
    DPend                        \<comment> \<open>\<open>for q.isStillPending(tid, phase)\<close>\<close>
  | DHead                        \<comment> \<open>\<open>first := q.head.Load()\<close>\<close>
  | DTail loc                    \<comment> \<open>\<open>last := q.tail.Load()\<close>\<close>
  | DNext loc loc                \<comment> \<open>\<open>next := first.next.Load()\<close>\<close>
  | DSame loc loc ptr            \<comment> \<open>\<open>first != q.head.Load()\<close>\<close>
  | ZDesc loc                    \<comment> \<open>empty: \<open>curDesc := q.state[tid].Load()\<close>\<close>
  | ZTail loc opDesc             \<comment> \<open>\<open>last == q.tail.Load()\<close>\<close>
  | ZPend opDesc                 \<comment> \<open>\<open>q.isStillPending(tid, phase)\<close>\<close>
  | ZCas opDesc                  \<comment> \<open>\<open>q.state[tid].CompareAndSwap(curDesc, newDesc)\<close>\<close>
  | DDesc loc                    \<comment> \<open>\<open>curDesc := q.state[tid].Load()\<close>\<close>
  | DPend2 loc opDesc            \<comment> \<open>\<open>!q.isStillPending(tid, phase)\<close>\<close>
  | DFirst loc opDesc            \<comment> \<open>\<open>first == q.head.Load() && n != first\<close>\<close>
  | DCand loc opDesc             \<comment> \<open>\<open>q.state[tid].CompareAndSwap(curDesc, newDesc)\<close>\<close>
  | DClaim loc                   \<comment> \<open>\<open>first.deqTid.CompareAndSwap(noTid, int64(tid))\<close>\<close>

datatype fin_deq_pc =
    MHead                        \<comment> \<open>\<open>first := q.head.Load()\<close>\<close>
  | MNext loc                    \<comment> \<open>\<open>next := first.next.Load()\<close>\<close>
  | MTid loc ptr                 \<comment> \<open>\<open>tid := int(first.deqTid.Load())\<close>\<close>
  | MDesc loc ptr nat            \<comment> \<open>\<open>curDesc := q.state[tid].Load()\<close>\<close>
  | MSame loc ptr nat opDesc     \<comment> \<open>\<open>first == q.head.Load() && next != nil\<close>\<close>
  | MCas loc loc nat opDesc      \<comment> \<open>\<open>q.state[tid].CompareAndSwap(curDesc, newDesc)\<close>\<close>
  | MMove loc loc                \<comment> \<open>\<open>q.head.CompareAndSwap(first, next)\<close>\<close>

text \<open>\<open>HEnq j p\<close> is \<open>helpEnq\<close> and \<open>HDeq j p\<close> is \<open>helpDeq\<close> for slot \<open>j\<close>.\<close>

datatype help_pc =
    HLoad nat                    \<comment> \<open>\<open>help\<close>: \<open>desc := q.state[i].Load()\<close>\<close>
  | HEnq nat enq_pc
  | HDeq nat deq_pc
  | FinEnq kont fin_enq_pc
  | FinDeq kont fin_deq_pc
  | RNode                        \<comment> \<open>\<open>deq\<close>: \<open>node := q.state[tid].Load().node\<close>\<close>
  | RValue loc                   \<comment> \<open>\<open>node.next.Load().value\<close>\<close>

text \<open>
  \<open>Help i op ph\<close> is inside \<open>enq\<close> or \<open>deq\<close> of handle \<open>i\<close>, after the announcement with phase \<open>ph\<close>.
\<close>

datatype 'a kp_pc =
    KHandle
  | MaxPhase nat "'a queue_op" nat int     \<comment> \<open>\<open>maxPhase\<close>: \<open>q.state[i].Load().phase\<close>\<close>
  | KAnnounce nat "'a queue_op" int        \<comment> \<open>\<open>q.state[tid].Store(_)\<close>\<close>
  | Help nat "'a queue_op" int help_pc

subsection \<open>helpEnq and helpDeq\<close>

text \<open>The next turn of the loop of \<open>help\<close> over \<open>n\<close> slots, or what follows it.\<close>

definition help_next :: "'a queue_op \<Rightarrow> nat \<Rightarrow> nat \<Rightarrow> help_pc" where
  "help_next oper n j =
     (if j < n then HLoad j else (case oper of Enqueue v \<Rightarrow> FinEnq KEnd NTail | Dequeue \<Rightarrow> FinDeq KEnd MHead))"

fun resume :: "'a queue_op \<Rightarrow> nat \<Rightarrow> kont \<Rightarrow> (help_pc, 'a resp) thread" where
  "resume oper n (KNext j) = Busy (help_next oper n (j + 1))"
| "resume oper n (KEnq j) = Busy (HEnq j EPend)"
| "resume oper n (KDeq j) = Busy (HDeq j DPend)"
| "resume oper n KEnd = (case oper of Enqueue v \<Rightarrow> Return Ack | Dequeue \<Rightarrow> Busy RNode)"

text \<open>An access to \<open>q.state[j]\<close>.\<close>

definition at_slot :: "'a kp_queue \<Rightarrow> nat \<Rightarrow> (opDesc \<Rightarrow> 'a kp_queue \<times> (help_pc, 'a resp) thread) \<Rightarrow>
    'a kp_queue \<times> (help_pc, 'a resp) thread" where
  "at_slot s j f = (if j < length (kstate s) then f (kstate s ! j) else (s, Panic))"

text \<open>The compare-and-swap on \<open>q.state[j]\<close>: the new state and whether it succeeded.\<close>

definition desc_cas :: "'a kp_queue \<Rightarrow> nat \<Rightarrow> opDesc \<Rightarrow> bool \<Rightarrow> bool \<Rightarrow> ptr \<Rightarrow> 'a kp_queue \<times> bool" where
  "desc_cas s j cur pend enq nd =
     (if dver (kstate s ! j) = dver cur then (set_desc s j (phase cur) pend enq nd, True) else (s, False))"

fun enq_help_step :: "'a queue_op \<Rightarrow> int \<Rightarrow> nat \<Rightarrow> 'a kp_queue \<Rightarrow> enq_pc \<Rightarrow> 'a kp_queue \<times> (help_pc, 'a resp) thread" where
  "enq_help_step oper ph j s EPend = at_slot s j (\<lambda>_.
     (s, Busy (if still_pending s j ph then HEnq j ETail else help_next oper (length (kstate s)) (j + 1))))"
| "enq_help_step oper ph j s ETail = (s, Busy (HEnq j (ENext (ktail s))))"
| "enq_help_step oper ph j s (ENext lst) = (s, Busy (HEnq j (ESame lst (knext (knodes s lst)))))"
| "enq_help_step oper ph j s (ESame lst nx) =
     (s, Busy (if lst \<noteq> ktail s then HEnq j EPend
               else if nx = None then HEnq j (EPend2 lst) else FinEnq (KEnq j) NTail))"
| "enq_help_step oper ph j s (EPend2 lst) = at_slot s j (\<lambda>_.
     (s, Busy (if still_pending s j ph then HEnq j (ENode lst) else help_next oper (length (kstate s)) (j + 1))))"
| "enq_help_step oper ph j s (ENode lst) = at_slot s j (\<lambda>d. (s, Busy (HEnq j (ECas lst (dnode d)))))"
| "enq_help_step oper ph j s (ECas lst nd) =
     (if knext (knodes s lst) = None
      then (s\<lparr>knodes := (knodes s)(lst := (knodes s lst)\<lparr>knext := nd\<rparr>)\<rparr>, Busy (FinEnq (KNext j) NTail))
      else (s, Busy (HEnq j EPend)))"

text \<open>\<open>helpFinishEnq\<close>; \<open>tid := next.enqTid\<close> reads a field that never changes.\<close>

definition enq_slot :: "'a kp_queue \<Rightarrow> loc \<Rightarrow> nat" where
  "enq_slot s nx = nat (enqTid (knodes s nx))"

fun fin_enq_step :: "'a queue_op \<Rightarrow> kont \<Rightarrow> 'a kp_queue \<Rightarrow> fin_enq_pc \<Rightarrow> 'a kp_queue \<times> (help_pc, 'a resp) thread" where
  "fin_enq_step oper k s NTail = (s, Busy (FinEnq k (NNext (ktail s))))"
| "fin_enq_step oper k s (NNext lst) =
     (case knext (knodes s lst) of
        None \<Rightarrow> (s, resume oper (length (kstate s)) k)
      | Some nx \<Rightarrow> (s, Busy (FinEnq k (NDesc lst nx))))"
| "fin_enq_step oper k s (NDesc lst nx) =
     (if enqTid (knodes s nx) < 0 then (s, Panic)
      else at_slot s (enq_slot s nx) (\<lambda>d. (s, Busy (FinEnq k (NSame lst nx d)))))"
| "fin_enq_step oper k s (NSame lst nx cur) =
     (if lst = ktail s then (s, Busy (FinEnq k (NNode lst nx cur))) else (s, resume oper (length (kstate s)) k))"
| "fin_enq_step oper k s (NNode lst nx cur) = at_slot s (enq_slot s nx) (\<lambda>d.
     (if dnode d = Some nx then (s, Busy (FinEnq k (NCas lst nx cur))) else (s, resume oper (length (kstate s)) k)))"
| "fin_enq_step oper k s (NCas lst nx cur) = at_slot s (enq_slot s nx) (\<lambda>_.
     (fst (desc_cas s (enq_slot s nx) cur False True (Some nx)), Busy (FinEnq k (NMove lst nx))))"
| "fin_enq_step oper k s (NMove lst nx) =
     ((if ktail s = lst then s\<lparr>ktail := nx\<rparr> else s), resume oper (length (kstate s)) k)"

fun deq_help_step :: "'a queue_op \<Rightarrow> int \<Rightarrow> nat \<Rightarrow> 'a kp_queue \<Rightarrow> deq_pc \<Rightarrow> 'a kp_queue \<times> (help_pc, 'a resp) thread" where
  "deq_help_step oper ph j s DPend = at_slot s j (\<lambda>_.
     (s, Busy (if still_pending s j ph then HDeq j DHead else help_next oper (length (kstate s)) (j + 1))))"
| "deq_help_step oper ph j s DHead = (s, Busy (HDeq j (DTail (khead s))))"
| "deq_help_step oper ph j s (DTail first) = (s, Busy (HDeq j (DNext first (ktail s))))"
| "deq_help_step oper ph j s (DNext first lst) = (s, Busy (HDeq j (DSame first lst (knext (knodes s first)))))"
| "deq_help_step oper ph j s (DSame first lst nx) =
     (s, Busy (if first \<noteq> khead s then HDeq j DPend
               else if first = lst then (if nx = None then HDeq j (ZDesc lst) else FinEnq (KDeq j) NTail)
               else HDeq j (DDesc first)))"
| "deq_help_step oper ph j s (ZDesc lst) = at_slot s j (\<lambda>d. (s, Busy (HDeq j (ZTail lst d))))"
| "deq_help_step oper ph j s (ZTail lst cur) =
     (s, Busy (HDeq j (if lst = ktail s then ZPend cur else DPend)))"
| "deq_help_step oper ph j s (ZPend cur) = at_slot s j (\<lambda>_.
     (s, Busy (HDeq j (if still_pending s j ph then ZCas cur else DPend))))"
| "deq_help_step oper ph j s (ZCas cur) = at_slot s j (\<lambda>_.
     (fst (desc_cas s j cur False False None), Busy (HDeq j DPend)))"
| "deq_help_step oper ph j s (DDesc first) = at_slot s j (\<lambda>d. (s, Busy (HDeq j (DPend2 first d))))"
| "deq_help_step oper ph j s (DPend2 first cur) = at_slot s j (\<lambda>_.
     (s, Busy (if still_pending s j ph then HDeq j (DFirst first cur)
               else help_next oper (length (kstate s)) (j + 1))))"
| "deq_help_step oper ph j s (DFirst first cur) =
     (s, Busy (HDeq j (if first = khead s \<and> dnode cur \<noteq> Some first then DCand first cur else DClaim first)))"
| "deq_help_step oper ph j s (DCand first cur) = at_slot s j (\<lambda>_.
     (case desc_cas s j cur True False (Some first) of
        (s', ok) \<Rightarrow> (s', Busy (HDeq j (if ok then DClaim first else DPend)))))"
| "deq_help_step oper ph j s (DClaim first) =
     ((if deqTid (knodes s first) = noTid
       then s\<lparr>knodes := (knodes s)(first := (knodes s first)\<lparr>deqTid := int j\<rparr>)\<rparr> else s),
      Busy (FinDeq (KDeq j) MHead))"

fun fin_deq_step :: "'a queue_op \<Rightarrow> kont \<Rightarrow> 'a kp_queue \<Rightarrow> fin_deq_pc \<Rightarrow> 'a kp_queue \<times> (help_pc, 'a resp) thread" where
  "fin_deq_step oper k s MHead = (s, Busy (FinDeq k (MNext (khead s))))"
| "fin_deq_step oper k s (MNext first) = (s, Busy (FinDeq k (MTid first (knext (knodes s first)))))"
| "fin_deq_step oper k s (MTid first nx) =
     (let tid = deqTid (knodes s first) in
      if tid = noTid then (s, resume oper (length (kstate s)) k)
      else if tid < 0 then (s, Panic) else (s, Busy (FinDeq k (MDesc first nx (nat tid)))))"
| "fin_deq_step oper k s (MDesc first nx tid) = at_slot s tid (\<lambda>d. (s, Busy (FinDeq k (MSame first nx tid d))))"
| "fin_deq_step oper k s (MSame first nx tid cur) =
     (case nx of
        Some n \<Rightarrow> if first = khead s then (s, Busy (FinDeq k (MCas first n tid cur)))
                  else (s, resume oper (length (kstate s)) k)
      | None \<Rightarrow> (s, resume oper (length (kstate s)) k))"
| "fin_deq_step oper k s (MCas first n tid cur) = at_slot s tid (\<lambda>_.
     (fst (desc_cas s tid cur False (enqueue cur) (dnode cur)), Busy (FinDeq k (MMove first n))))"
| "fin_deq_step oper k s (MMove first n) =
     ((if khead s = first then s\<lparr>khead := n\<rparr> else s), resume oper (length (kstate s)) k)"

subsection \<open>enq, deq, help and Handle\<close>

text \<open>\<open>help\<close>, and the end of \<open>deq\<close>.\<close>

fun help_step :: "nat \<Rightarrow> 'a queue_op \<Rightarrow> int \<Rightarrow> 'a kp_queue \<Rightarrow> help_pc \<Rightarrow> 'a kp_queue \<times> (help_pc, 'a resp) thread" where
  "help_step i oper ph s (HLoad j) = at_slot s j (\<lambda>d.
     (s, Busy (if pending d \<and> phase d \<le> ph then (if enqueue d then HEnq j EPend else HDeq j DPend)
               else help_next oper (length (kstate s)) (j + 1))))"
| "help_step i oper ph s (HEnq j p) = enq_help_step oper ph j s p"
| "help_step i oper ph s (HDeq j p) = deq_help_step oper ph j s p"
| "help_step i oper ph s (FinEnq k p) = fin_enq_step oper k s p"
| "help_step i oper ph s (FinDeq k p) = fin_deq_step oper k s p"
| "help_step i oper ph s RNode = at_slot s i (\<lambda>d.
     (s, (case dnode d of None \<Rightarrow> Return (Got None) | Some n \<Rightarrow> Busy (RValue n))))"
| "help_step i oper ph s (RValue n) =
     (s, (case knext (knodes s n) of None \<Rightarrow> Panic | Some m \<Rightarrow> Return (Got (Some (kvalue (knodes s m))))))"

definition phase_next :: "'a kp_queue \<Rightarrow> nat \<Rightarrow> 'a queue_op \<Rightarrow> nat \<Rightarrow> int \<Rightarrow> 'a kp_pc" where
  "phase_next s i oper j m = (if j < length (kstate s) then MaxPhase i oper j m else KAnnounce i oper (m + 1))"

fun lift_help :: "nat \<Rightarrow> 'a queue_op \<Rightarrow> int \<Rightarrow> (help_pc, 'a resp) thread \<Rightarrow> ('a kp_pc, 'a resp uc_resp) thread" where
  "lift_help i oper ph Idle = Idle"
| "lift_help i oper ph (Busy p) = Busy (Help i oper ph p)"
| "lift_help i oper ph (Return r) = Return (Reply r)"
| "lift_help i oper ph Panic = Panic"

fun kp_step :: "'a kp_queue \<Rightarrow> tid \<Rightarrow> 'a kp_pc \<Rightarrow> 'a kp_queue \<times> ('a kp_pc, 'a resp uc_resp) thread" where
  "kp_step s t KHandle =
     (let k = kcursor s; s' = s\<lparr>kcursor := k + 1\<rparr>
      in if k \<ge> kmax s then (s', Return TooMany)
         else (s'\<lparr>khandle := (khandle s)(t := Some k)\<rparr>, Return (Registered k)))"
| "kp_step s t (MaxPhase i oper j m) =
     (if j < length (kstate s)
      then (s, Busy (phase_next s i oper (j + 1) (max m (phase (kstate s ! j))))) else (s, Panic))"
| "kp_step s t (KAnnounce i oper ph) =
     (if i < length (kstate s)
      then (case oper of
              Enqueue v \<Rightarrow> (set_desc (s\<lparr>knodes := (knodes s)(kbrk s := newNode v (int i)), kbrk := Suc (kbrk s)\<rparr>)
                            i ph True True (Some (kbrk s)), Busy (Help i oper ph (help_next oper (length (kstate s)) 0)))
            | Dequeue \<Rightarrow> (set_desc s i ph True False None,
                            Busy (Help i oper ph (help_next oper (length (kstate s)) 0))))
      else (s, Panic))"
| "kp_step s t (Help i oper ph p) = (case help_step i oper ph s p of (s', x) \<Rightarrow> (s', lift_help i oper ph x))"

fun kp_can :: "'a kp_queue \<Rightarrow> tid \<Rightarrow> 'a queue_op uc_op \<Rightarrow> bool" where
  "kp_can s t Register = True"
| "kp_can s t (Apply oper) = (khandle s t \<noteq> None)"

fun kp_beg :: "'a kp_queue \<Rightarrow> tid \<Rightarrow> 'a queue_op uc_op \<Rightarrow> 'a kp_queue \<times> 'a kp_pc" where
  "kp_beg s t Register = (s, KHandle)"
| "kp_beg s t (Apply oper) = (s, phase_next s (the (khandle s t)) oper 0 (-1))"

definition kp_machine :: "'a kp_queue \<Rightarrow>
    ('a kp_queue, 'a kp_pc, 'a queue_op uc_op, 'a resp uc_resp) machine" where
  "kp_machine s = \<lparr>sh0 = s, can = kp_can, beg = kp_beg, stp = kp_step\<rparr>"

lemma kp_machine_simps [simp]:
  "sh0 (kp_machine s) = s" "can (kp_machine s) = kp_can" "beg (kp_machine s) = kp_beg" "stp (kp_machine s) = kp_step"
  by (simp_all add: kp_machine_def)

end
