(* ===== verification/Kp_Safety.thy ===== *)
theory Kp_Safety
  imports Kp_Queue
begin

text \<open>
  The invariant of the Kogan-Petrank queue, what the steps of one goroutine may do to the others,
  and the assertions of the goroutines with their stability.
\<close>

subsection \<open>Ghost state\<close>

text \<open>
  \<open>kseq\<close> is the list of all nodes that were ever linked, \<open>hix\<close> and \<open>tix\<close> the positions of \<open>head\<close> and
  \<open>tail\<close> in it. A slot is active from its announcement to the return of the call, which belongs to the
  goroutine \<open>who\<close>. \<open>seen\<close> is the largest phase of a helper of the slot so far. \<open>sawe\<close> says that the queue was
  empty at some moment of the dequeue announced in the slot.
\<close>

record kp_ghost =
  kseq :: "loc list"
  hix :: nat
  tix :: nat
  act :: "nat \<Rightarrow> bool"
  who :: "nat \<Rightarrow> tid"
  seen :: "nat \<Rightarrow> int"
  sawe :: "nat \<Rightarrow> bool"

abbreviation slot :: "'a kp_queue \<Rightarrow> nat \<Rightarrow> opDesc" where
  "slot s i \<equiv> kstate s ! i"

abbreviation claim :: "'a kp_queue \<Rightarrow> loc \<Rightarrow> int" where
  "claim s l \<equiv> deqTid (knodes s l)"

subsection \<open>Invariant\<close>

definition chain_ok :: "'a kp_queue \<Rightarrow> kp_ghost \<Rightarrow> bool" where
  "chain_ok s g \<longleftrightarrow> distinct (kseq g) \<and> hix g \<le> tix g \<and> tix g < length (kseq g) \<and>
     length (kseq g) \<le> tix g + 2 \<and> khead s = kseq g ! hix g \<and> ktail s = kseq g ! tix g \<and>
     (\<forall>k < length (kseq g). kseq g ! k < kbrk s \<and>
       knext (knodes s (kseq g ! k)) = (if Suc k < length (kseq g) then Some (kseq g ! Suc k) else None))"

definition claims_ok :: "nat \<Rightarrow> 'a kp_queue \<Rightarrow> kp_ghost \<Rightarrow> bool" where
  "claims_ok n s g \<longleftrightarrow>
     (\<forall>k < length (kseq g). (k < hix g \<longrightarrow> claim s (kseq g ! k) \<noteq> noTid) \<and>
       (hix g < k \<longrightarrow> claim s (kseq g ! k) = noTid) \<and>
       (claim s (kseq g ! k) \<noteq> noTid \<longrightarrow> (\<exists>j < n. claim s (kseq g ! k) = int j)) \<and>
       (0 < k \<longrightarrow> (\<exists>j < n. enqTid (knodes s (kseq g ! k)) = int j))) \<and>
     (claim s (khead s) \<noteq> noTid \<longrightarrow> hix g < tix g)"

definition enq_desc_ok :: "'a kp_queue \<Rightarrow> kp_ghost \<Rightarrow> nat \<Rightarrow> loc \<Rightarrow> bool" where
  "enq_desc_ok s g i m \<longleftrightarrow> enqTid (knodes s m) = int i \<and>
     (m \<in> set (kseq g) \<longrightarrow> Suc (tix g) < length (kseq g) \<and> m = kseq g ! Suc (tix g)) \<and>
     (m \<notin> set (kseq g) \<longrightarrow> m < kbrk s \<and> knext (knodes s m) = None \<and> claim s m = noTid)"

definition deq_desc_ok :: "'a kp_queue \<Rightarrow> kp_ghost \<Rightarrow> nat \<Rightarrow> bool \<Rightarrow> loc \<Rightarrow> bool" where
  "deq_desc_ok s g i pend f \<longleftrightarrow> (\<exists>k \<le> hix g. k < tix g \<and> f = kseq g ! k) \<and>
     (if pend then claim s f = int i \<longrightarrow> f = khead s else claim s f = int i)"

definition slot_ok :: "'a kp_queue \<Rightarrow> kp_ghost \<Rightarrow> nat \<Rightarrow> bool" where
  "slot_ok s g i \<longleftrightarrow>
     (enqueue (slot s i) \<longrightarrow> pending (slot s i) \<longrightarrow> (\<exists>m. dnode (slot s i) = Some m \<and> enq_desc_ok s g i m)) \<and>
     (\<not> enqueue (slot s i) \<longrightarrow> (\<forall>f. dnode (slot s i) = Some f \<longrightarrow> deq_desc_ok s g i (pending (slot s i)) f)) \<and>
     (claim s (khead s) = int i \<longrightarrow> \<not> enqueue (slot s i) \<and> dnode (slot s i) = Some (khead s)) \<and>
     (\<not> act g i \<longrightarrow> \<not> pending (slot s i) \<and> claim s (khead s) \<noteq> int i)"

definition kp_inv :: "nat \<Rightarrow> 'a kp_queue \<Rightarrow> kp_ghost \<Rightarrow> bool" where
  "kp_inv n s g \<longleftrightarrow> chain_ok s g \<and> claims_ok n s g \<and> length (kstate s) = n \<and> kmax s = n \<and>
     (\<forall>i < n. slot_ok s g i \<and> (\<exists>k < n. seen g i \<le> phase (slot s k))) \<and>
     (\<forall>t i. khandle s t = Some i \<longrightarrow> i < n \<and> i < kcursor s) \<and>
     (\<forall>t u i. khandle s t = Some i \<longrightarrow> khandle s u = Some i \<longrightarrow> t = u) \<and>
     (\<forall>i. act g i \<longrightarrow> i < n)"

lemma kp_invD:
  assumes "kp_inv n s g"
  shows kp_inv_chain: "chain_ok s g" and kp_inv_claims: "claims_ok n s g" and kp_inv_size: "length (kstate s) = n"
    and kp_inv_slot: "i < n \<Longrightarrow> slot_ok s g i" and kp_inv_seen: "i < n \<Longrightarrow> \<exists>k < n. seen g i \<le> phase (slot s k)"
    and kp_inv_handle: "khandle s t = Some i \<Longrightarrow> i < n \<and> i < kcursor s"
    and kp_inv_inj: "khandle s t = Some i \<Longrightarrow> khandle s u = Some i \<Longrightarrow> t = u"
    and kp_inv_act: "act g i \<Longrightarrow> i < n" and kp_inv_max: "kmax s = n"
  using assms by (auto simp: kp_inv_def)

lemma chain_okD:
  assumes "chain_ok s g"
  shows "distinct (kseq g)" and "hix g \<le> tix g" and "tix g < length (kseq g)" and "length (kseq g) \<le> tix g + 2"
    and "khead s = kseq g ! hix g" and "ktail s = kseq g ! tix g"
    and "k < length (kseq g) \<Longrightarrow> kseq g ! k < kbrk s"
    and "k < length (kseq g) \<Longrightarrow>
      knext (knodes s (kseq g ! k)) = (if Suc k < length (kseq g) then Some (kseq g ! Suc k) else None)"
  using assms by (auto simp: chain_ok_def)

lemma claims_okD:
  assumes "claims_ok n s g"
  shows "k < length (kseq g) \<Longrightarrow> k < hix g \<Longrightarrow> claim s (kseq g ! k) \<noteq> noTid"
    and "k < length (kseq g) \<Longrightarrow> hix g < k \<Longrightarrow> claim s (kseq g ! k) = noTid"
    and "k < length (kseq g) \<Longrightarrow> claim s (kseq g ! k) \<noteq> noTid \<Longrightarrow> \<exists>j < n. claim s (kseq g ! k) = int j"
    and "k < length (kseq g) \<Longrightarrow> 0 < k \<Longrightarrow> \<exists>j < n. enqTid (knodes s (kseq g ! k)) = int j"
    and "claim s (khead s) \<noteq> noTid \<Longrightarrow> hix g < tix g"
  using assms by (auto simp: claims_ok_def)

lemma slot_okD:
  assumes "slot_ok s g i"
  shows "enqueue (slot s i) \<Longrightarrow> pending (slot s i) \<Longrightarrow> \<exists>m. dnode (slot s i) = Some m \<and> enq_desc_ok s g i m"
    and "\<not> enqueue (slot s i) \<Longrightarrow> dnode (slot s i) = Some f \<Longrightarrow> deq_desc_ok s g i (pending (slot s i)) f"
    and "claim s (khead s) = int i \<Longrightarrow> \<not> enqueue (slot s i) \<and> dnode (slot s i) = Some (khead s)"
    and "\<not> act g i \<Longrightarrow> \<not> pending (slot s i) \<and> claim s (khead s) \<noteq> int i"
    and "pending (slot s i) \<Longrightarrow> act g i"
  using assms by (auto simp: slot_ok_def)

lemma noTid_int [simp]: "int i \<noteq> noTid" "noTid \<noteq> int i"
  by (simp_all add: noTid_def)

subsection \<open>Interference\<close>

text \<open>What a step of goroutine \<open>t\<close> may do to slot \<open>i\<close>.\<close>

inductive slot_move :: "tid \<Rightarrow> 'a kp_queue \<Rightarrow> kp_ghost \<Rightarrow> 'a kp_queue \<Rightarrow> kp_ghost \<Rightarrow> nat \<Rightarrow> bool"
  for t s g s' g' i
where
  same: "slot s' i = slot s i \<Longrightarrow> (sawe g i \<longrightarrow> sawe g' i) \<Longrightarrow> slot_move t s g s' g' i"
| announced: "dver (slot s' i) = Suc (dver (slot s i)) \<Longrightarrow> khandle s t = Some i \<Longrightarrow> \<not> act g i \<Longrightarrow>
    seen g i < phase (slot s' i) \<Longrightarrow> phase (slot s i) \<le> phase (slot s' i) \<Longrightarrow>
    (\<forall>m. dnode (slot s' i) = Some m \<longrightarrow> m \<notin> set (kseq g')) \<Longrightarrow> slot_move t s g s' g' i"
| enq_done: "dver (slot s' i) = Suc (dver (slot s i)) \<Longrightarrow> phase (slot s' i) = phase (slot s i) \<Longrightarrow>
    (sawe g i \<longrightarrow> sawe g' i) \<Longrightarrow> enqueue (slot s i) \<Longrightarrow> enqueue (slot s' i) \<Longrightarrow> \<not> pending (slot s' i) \<Longrightarrow>
    dnode (slot s' i) = dnode (slot s i) \<Longrightarrow> dnode (slot s i) = Some m \<Longrightarrow> m \<in> set (kseq g) \<Longrightarrow>
    slot_move t s g s' g' i"
| retried: "dver (slot s' i) = Suc (dver (slot s i)) \<Longrightarrow> phase (slot s' i) = phase (slot s i) \<Longrightarrow>
    (sawe g i \<longrightarrow> sawe g' i) \<Longrightarrow> \<not> enqueue (slot s i) \<Longrightarrow> \<not> enqueue (slot s' i) \<Longrightarrow> pending (slot s i) \<Longrightarrow>
    (\<forall>f. dnode (slot s i) = Some f \<longrightarrow> f \<in> set (kseq g) \<and> claim s f \<noteq> noTid \<and> claim s f \<noteq> int i) \<Longrightarrow>
    slot_move t s g s' g' i"
| deq_done: "dver (slot s' i) = Suc (dver (slot s i)) \<Longrightarrow> phase (slot s' i) = phase (slot s i) \<Longrightarrow>
    (sawe g i \<longrightarrow> sawe g' i) \<Longrightarrow> \<not> enqueue (slot s i) \<Longrightarrow> \<not> enqueue (slot s' i) \<Longrightarrow> \<not> pending (slot s' i) \<Longrightarrow>
    dnode (slot s' i) = dnode (slot s i) \<Longrightarrow> dnode (slot s i) = Some f \<Longrightarrow> claim s f = int i \<Longrightarrow>
    slot_move t s g s' g' i"

definition kp_rely :: "tid \<Rightarrow> 'a kp_queue \<Rightarrow> kp_ghost \<Rightarrow> 'a kp_queue \<Rightarrow> kp_ghost \<Rightarrow> bool" where
  "kp_rely t s g s' g' \<longleftrightarrow> (\<exists>m. kseq g' = kseq g @ m) \<and> hix g \<le> hix g' \<and> hix g' < length (kseq g) \<and> tix g \<le> tix g' \<and>
     (\<forall>l \<in> set (kseq g). enqTid (knodes s' l) = enqTid (knodes s l) \<and> kvalue (knodes s' l) = kvalue (knodes s l) \<and>
       (knext (knodes s l) \<noteq> None \<longrightarrow> knext (knodes s' l) = knext (knodes s l)) \<and>
       (claim s' l = claim s l \<or> claim s l = noTid \<and> l = khead s \<and>
         (\<exists>j. claim s' l = int j \<and> pending (slot s j) \<and> \<not> enqueue (slot s j) \<and> dnode (slot s j) = Some l))) \<and>
     length (kstate s') = length (kstate s) \<and> (\<forall>i < length (kstate s). slot_move t s g s' g' i) \<and>
     (\<forall>u. u \<noteq> t \<longrightarrow> khandle s' u = khandle s u) \<and>
     (\<forall>i. seen g i \<le> seen g' i \<and> (seen g' i = seen g i \<or> pending (slot s i))) \<and>
     (\<forall>i. khandle s t \<noteq> Some i \<longrightarrow> act g' i = act g i \<and> who g' i = who g i)"

lemma kp_relyD:
  assumes "kp_rely t s g s' g'"
  shows "l \<in> set (kseq g) \<Longrightarrow> l \<in> set (kseq g')" and "hix g \<le> hix g'" and "tix g \<le> tix g'"
    and "k < length (kseq g) \<Longrightarrow> k < length (kseq g') \<and> kseq g' ! k = kseq g ! k"
    and "l \<in> set (kseq g) \<Longrightarrow> enqTid (knodes s' l) = enqTid (knodes s l)"
    and "l \<in> set (kseq g) \<Longrightarrow> knext (knodes s l) = Some m \<Longrightarrow> knext (knodes s' l) = Some m"
    and "l \<in> set (kseq g) \<Longrightarrow> claim s l \<noteq> noTid \<Longrightarrow> claim s' l = claim s l"
    and "l \<in> set (kseq g) \<Longrightarrow> claim s' l = claim s l \<or> claim s l = noTid \<and> l = khead s \<and>
         (\<exists>j. claim s' l = int j \<and> pending (slot s j) \<and> \<not> enqueue (slot s j) \<and> dnode (slot s j) = Some l)"
    and "i < length (kstate s) \<Longrightarrow> slot_move t s g s' g' i"
    and "u \<noteq> t \<Longrightarrow> khandle s' u = khandle s u"
    and "seen g i \<le> seen g' i" and "\<not> pending (slot s i) \<Longrightarrow> seen g' i = seen g i"
    and "khandle s t \<noteq> Some i \<Longrightarrow> act g' i = act g i \<and> who g' i = who g i"
    and "length (kstate s') = length (kstate s)" and "hix g' < length (kseq g)"
  using assms by (auto simp: kp_rely_def nth_append)

lemma slot_moveD:
  assumes "slot_move t s g s' g' i"
  shows "phase (slot s i) \<le> phase (slot s' i)" and "dver (slot s i) \<le> dver (slot s' i)"
    and "dver (slot s' i) = dver (slot s i) \<Longrightarrow> slot s' i = slot s i"
  using assms by (cases; simp)+

subsection \<open>Assertions\<close>

text \<open>The node \<open>l\<close> is linked, at a position of at most \<open>m\<close>.\<close>

definition reached :: "kp_ghost \<Rightarrow> nat \<Rightarrow> loc \<Rightarrow> bool" where
  "reached g m l \<longleftrightarrow> (\<exists>k \<le> m. k < length (kseq g) \<and> kseq g ! k = l)"

definition before_tail :: "kp_ghost \<Rightarrow> loc \<Rightarrow> bool" where
  "before_tail g l \<longleftrightarrow> (\<exists>k < tix g. k < length (kseq g) \<and> kseq g ! k = l)"

text \<open>The helper of slot \<open>j\<close> with phase \<open>ph\<close> only meets operations of the kind it came for.\<close>

definition helps :: "nat \<Rightarrow> 'a kp_queue \<Rightarrow> kp_ghost \<Rightarrow> nat \<Rightarrow> int \<Rightarrow> bool \<Rightarrow> bool" where
  "helps n s g j ph enq \<longleftrightarrow> j < n \<and> ph \<le> seen g j \<and> (phase (slot s j) \<le> ph \<longrightarrow> enqueue (slot s j) = enq)"

definition passed :: "'a kp_queue \<Rightarrow> nat \<Rightarrow> nat \<Rightarrow> bool" where
  "passed s i j \<longleftrightarrow> (i < j \<longrightarrow> \<not> pending (slot s i))"

definition due :: "'a kp_queue \<Rightarrow> int \<Rightarrow> nat \<Rightarrow> bool" where
  "due s ph j \<longleftrightarrow> pending (slot s j) \<and> phase (slot s j) \<le> ph"

definition current :: "'a kp_queue \<Rightarrow> nat \<Rightarrow> opDesc \<Rightarrow> bool" where
  "current s j cur \<longleftrightarrow> dver (slot s j) = dver cur"

definition held :: "nat \<Rightarrow> 'a kp_queue \<Rightarrow> nat \<Rightarrow> opDesc \<Rightarrow> bool" where
  "held n s j cur \<longleftrightarrow> j < n \<and> dver cur \<le> dver (slot s j) \<and> (current s j cur \<longrightarrow> slot s j = cur)"

text \<open>Slot \<open>j\<close> announces an enqueue of the node \<open>m\<close>.\<close>

definition offers :: "'a kp_queue \<Rightarrow> nat \<Rightarrow> loc \<Rightarrow> bool" where
  "offers s j m \<longleftrightarrow> pending (slot s j) \<and> enqueue (slot s j) \<and> dnode (slot s j) = Some m"

text \<open>Slot \<open>j\<close> announces a dequeue with the candidate \<open>f\<close>.\<close>

definition wants :: "'a kp_queue \<Rightarrow> nat \<Rightarrow> loc \<Rightarrow> bool" where
  "wants s j f \<longleftrightarrow> pending (slot s j) \<and> \<not> enqueue (slot s j) \<and> dnode (slot s j) = Some f"

text \<open>The candidates of a descriptor are claimed by others.\<close>

definition stale :: "'a kp_queue \<Rightarrow> kp_ghost \<Rightarrow> nat \<Rightarrow> opDesc \<Rightarrow> bool" where
  "stale s g j cur \<longleftrightarrow> (\<forall>f. dnode cur = Some f \<longrightarrow> f \<in> set (kseq g) \<and> claim s f \<noteq> noTid \<and> claim s f \<noteq> int j)"

definition saw :: "'a kp_queue \<Rightarrow> kp_ghost \<Rightarrow> int \<Rightarrow> nat \<Rightarrow> bool" where
  "saw s g ph j \<longleftrightarrow> (due s ph j \<longrightarrow> sawe g j)"

definition hit :: "'a kp_queue \<Rightarrow> nat \<Rightarrow> loc \<Rightarrow> opDesc \<Rightarrow> bool" where
  "hit s j f cur \<longleftrightarrow> (\<not> enqueue cur \<longrightarrow> dnode cur = Some f \<longrightarrow> claim s f = noTid \<longrightarrow> wants s j f)"

definition unlinked :: "'a kp_queue \<Rightarrow> kp_ghost \<Rightarrow> nat \<Rightarrow> loc \<Rightarrow> bool" where
  "unlinked s g j l \<longleftrightarrow> (knext (knodes s l) = None \<longrightarrow> (\<exists>m. offers s j m \<and> m \<notin> set (kseq g)))"

fun enq_ok :: "'a kp_queue \<Rightarrow> kp_ghost \<Rightarrow> nat \<Rightarrow> enq_pc \<Rightarrow> bool" where
  "enq_ok s g j EPend \<longleftrightarrow> True"
| "enq_ok s g j ETail \<longleftrightarrow> True"
| "enq_ok s g j (ENext l) \<longleftrightarrow> reached g (tix g) l"
| "enq_ok s g j (ESame l nx) \<longleftrightarrow> reached g (tix g) l"
| "enq_ok s g j (EPend2 l) \<longleftrightarrow> reached g (tix g) l"
| "enq_ok s g j (ENode l) \<longleftrightarrow> reached g (tix g) l \<and> unlinked s g j l"
| "enq_ok s g j (ECas l nd) \<longleftrightarrow> reached g (tix g) l \<and> unlinked s g j l \<and>
     (knext (knodes s l) = None \<longrightarrow> dnode (slot s j) = nd)"

text \<open>
  After a successful link for slot \<open>j\<close> the call of \<open>helpFinishEnq\<close> must complete the operation: \<open>owes\<close>
  is what it still has to establish.
\<close>

definition owes :: "'a kp_queue \<Rightarrow> int \<Rightarrow> kont \<Rightarrow> (nat \<Rightarrow> bool) \<Rightarrow> bool" where
  "owes s ph k P \<longleftrightarrow> (\<forall>j. k = KNext j \<longrightarrow> due s ph j \<longrightarrow> P j)"

definition follows_tail :: "'a kp_queue \<Rightarrow> kp_ghost \<Rightarrow> loc \<Rightarrow> loc \<Rightarrow> bool" where
  "follows_tail s g l nx \<longleftrightarrow> reached g (tix g) l \<and> knext (knodes s l) = Some nx"

definition settled :: "nat \<Rightarrow> 'a kp_queue \<Rightarrow> loc \<Rightarrow> opDesc \<Rightarrow> bool" where
  "settled n s nx cur \<longleftrightarrow> held n s (enq_slot s nx) cur \<and>
     (current s (enq_slot s nx) cur \<or> \<not> offers s (enq_slot s nx) nx)"

fun fin_enq_ok :: "nat \<Rightarrow> 'a kp_queue \<Rightarrow> kp_ghost \<Rightarrow> int \<Rightarrow> kont \<Rightarrow> fin_enq_pc \<Rightarrow> bool" where
  "fin_enq_ok n s g ph k NTail \<longleftrightarrow> owes s ph k (\<lambda>j. \<exists>m \<in> set (kseq g). dnode (slot s j) = Some m)"
| "fin_enq_ok n s g ph k (NNext l) \<longleftrightarrow> reached g (tix g) l \<and>
     owes s ph k (\<lambda>j. (\<exists>m \<in> set (kseq g). dnode (slot s j) = Some m) \<and> l = ktail s)"
| "fin_enq_ok n s g ph k (NDesc l nx) \<longleftrightarrow> follows_tail s g l nx \<and>
     owes s ph k (\<lambda>j. dnode (slot s j) = Some nx \<and> l = ktail s)"
| "fin_enq_ok n s g ph k (NSame l nx cur) \<longleftrightarrow> follows_tail s g l nx \<and> settled n s nx cur \<and>
     owes s ph k (\<lambda>j. dnode (slot s j) = Some nx \<and> l = ktail s)"
| "fin_enq_ok n s g ph k (NNode l nx cur) \<longleftrightarrow> follows_tail s g l nx \<and> settled n s nx cur \<and>
     (current s (enq_slot s nx) cur \<longrightarrow> \<not> enqueue cur \<longrightarrow> dnode cur \<noteq> Some nx) \<and>
     owes s ph k (\<lambda>j. dnode (slot s j) = Some nx \<and> l = ktail s)"
| "fin_enq_ok n s g ph k (NCas l nx cur) \<longleftrightarrow> follows_tail s g l nx \<and> settled n s nx cur \<and>
     (current s (enq_slot s nx) cur \<longrightarrow> enqueue cur \<and> dnode cur = Some nx) \<and>
     owes s ph k (\<lambda>j. dnode (slot s j) = Some nx \<and> l = ktail s)"
| "fin_enq_ok n s g ph k (NMove l nx) \<longleftrightarrow> follows_tail s g l nx \<and>
     (ktail s = l \<longrightarrow> \<not> offers s (enq_slot s nx) nx) \<and> owes s ph k (\<lambda>j. False)"

fun deq_ok :: "nat \<Rightarrow> 'a kp_queue \<Rightarrow> kp_ghost \<Rightarrow> int \<Rightarrow> nat \<Rightarrow> deq_pc \<Rightarrow> bool" where
  "deq_ok n s g ph j DPend \<longleftrightarrow> True"
| "deq_ok n s g ph j DHead \<longleftrightarrow> True"
| "deq_ok n s g ph j (DTail f) \<longleftrightarrow> reached g (hix g) f"
| "deq_ok n s g ph j (DNext f l) \<longleftrightarrow> reached g (hix g) f \<and> (f \<noteq> l \<longrightarrow> before_tail g f)"
| "deq_ok n s g ph j (DSame f l nx) \<longleftrightarrow> reached g (hix g) f \<and> (f \<noteq> l \<longrightarrow> before_tail g f) \<and>
     (nx = None \<longrightarrow> saw s g ph j)"
| "deq_ok n s g ph j (ZDesc l) \<longleftrightarrow> reached g (hix g) l \<and> saw s g ph j"
| "deq_ok n s g ph j (ZTail l cur) \<longleftrightarrow> reached g (hix g) l \<and> saw s g ph j \<and> held n s j cur"
| "deq_ok n s g ph j (ZPend cur) \<longleftrightarrow> saw s g ph j \<and> held n s j cur \<and>
     (current s j cur \<longrightarrow> \<not> enqueue cur \<longrightarrow> pending cur \<longrightarrow> stale s g j cur)"
| "deq_ok n s g ph j (ZCas cur) \<longleftrightarrow> saw s g ph j \<and> held n s j cur \<and>
     (current s j cur \<longrightarrow> \<not> enqueue cur \<and> pending cur \<and> phase cur \<le> ph \<and> stale s g j cur)"
| "deq_ok n s g ph j (DDesc f) \<longleftrightarrow> reached g (hix g) f \<and> before_tail g f"
| "deq_ok n s g ph j (DPend2 f cur) \<longleftrightarrow> reached g (hix g) f \<and> before_tail g f \<and> held n s j cur \<and>
     phase cur \<le> phase (slot s j) \<and> (phase cur \<le> ph \<longrightarrow> \<not> enqueue cur) \<and> hit s j f cur"
| "deq_ok n s g ph j (DFirst f cur) \<longleftrightarrow> reached g (hix g) f \<and> before_tail g f \<and> held n s j cur \<and>
     \<not> enqueue cur \<and> phase cur \<le> ph \<and> (current s j cur \<longrightarrow> pending cur) \<and> hit s j f cur"
| "deq_ok n s g ph j (DCand f cur) \<longleftrightarrow> reached g (hix g) f \<and> before_tail g f \<and> held n s j cur \<and>
     (current s j cur \<longrightarrow> \<not> enqueue cur \<and> pending cur \<and> phase cur \<le> ph \<and> dnode cur \<noteq> Some f \<and>
       stale s g j cur \<and> claim s f \<noteq> int j)"
| "deq_ok n s g ph j (DClaim f) \<longleftrightarrow> reached g (hix g) f \<and> before_tail g f \<and> (claim s f = noTid \<longrightarrow> wants s j f)"

text \<open>
  The last call of \<open>helpFinishDeq\<close> must move \<open>head\<close> away from the node claimed by its own slot \<open>i\<close>.
\<close>

definition last_owes :: "'a kp_queue \<Rightarrow> nat \<Rightarrow> kont \<Rightarrow> bool \<Rightarrow> bool" where
  "last_owes s i k P \<longleftrightarrow> (k = KEnd \<longrightarrow> claim s (khead s) = int i \<longrightarrow> P)"

definition claimed_by :: "nat \<Rightarrow> 'a kp_queue \<Rightarrow> kp_ghost \<Rightarrow> loc \<Rightarrow> nat \<Rightarrow> bool" where
  "claimed_by n s g f j \<longleftrightarrow> reached g (hix g) f \<and> claim s f = int j \<and> j < n"

definition finishing :: "nat \<Rightarrow> 'a kp_queue \<Rightarrow> loc \<Rightarrow> nat \<Rightarrow> opDesc \<Rightarrow> bool" where
  "finishing n s f j cur \<longleftrightarrow> held n s j cur \<and> (current s j cur \<or> (khead s = f \<longrightarrow> \<not> pending (slot s j)))"

fun fin_deq_ok :: "nat \<Rightarrow> 'a kp_queue \<Rightarrow> kp_ghost \<Rightarrow> nat \<Rightarrow> kont \<Rightarrow> fin_deq_pc \<Rightarrow> bool" where
  "fin_deq_ok n s g i k MHead \<longleftrightarrow> True"
| "fin_deq_ok n s g i k (MNext f) \<longleftrightarrow> reached g (hix g) f \<and> last_owes s i k (khead s = f)"
| "fin_deq_ok n s g i k (MTid f nx) \<longleftrightarrow> reached g (hix g) f \<and> (\<forall>m. nx = Some m \<longrightarrow> knext (knodes s f) = Some m) \<and>
     last_owes s i k (khead s = f \<and> nx \<noteq> None)"
| "fin_deq_ok n s g i k (MDesc f nx j) \<longleftrightarrow> claimed_by n s g f j \<and> (\<forall>m. nx = Some m \<longrightarrow> knext (knodes s f) = Some m) \<and>
     last_owes s i k (khead s = f \<and> nx \<noteq> None)"
| "fin_deq_ok n s g i k (MSame f nx j cur) \<longleftrightarrow> claimed_by n s g f j \<and>
     (\<forall>m. nx = Some m \<longrightarrow> knext (knodes s f) = Some m) \<and> finishing n s f j cur \<and>
     last_owes s i k (khead s = f \<and> nx \<noteq> None)"
| "fin_deq_ok n s g i k (MCas f m j cur) \<longleftrightarrow> claimed_by n s g f j \<and> knext (knodes s f) = Some m \<and>
     finishing n s f j cur \<and> (current s j cur \<longrightarrow> \<not> enqueue cur \<and> dnode cur = Some f) \<and>
     last_owes s i k (khead s = f)"
| "fin_deq_ok n s g i k (MMove f m) \<longleftrightarrow> (\<exists>j. claimed_by n s g f j \<and> (khead s = f \<longrightarrow> \<not> pending (slot s j))) \<and>
     knext (knodes s f) = Some m \<and> last_owes s i k (khead s = f)"

fun kont_ok :: "nat \<Rightarrow> 'a kp_queue \<Rightarrow> kp_ghost \<Rightarrow> nat \<Rightarrow> int \<Rightarrow> kont \<Rightarrow> bool" where
  "kont_ok n s g i ph (KNext j) \<longleftrightarrow> helps n s g j ph True \<and> passed s i j"
| "kont_ok n s g i ph (KEnq j) \<longleftrightarrow> helps n s g j ph True \<and> passed s i j"
| "kont_ok n s g i ph (KDeq j) \<longleftrightarrow> helps n s g j ph False \<and> passed s i j"
| "kont_ok n s g i ph KEnd \<longleftrightarrow> \<not> pending (slot s i)"

fun help_ok :: "nat \<Rightarrow> 'a kp_queue \<Rightarrow> kp_ghost \<Rightarrow> nat \<Rightarrow> 'a queue_op \<Rightarrow> int \<Rightarrow> help_pc \<Rightarrow> bool" where
  "help_ok n s g i oper ph (HLoad j) \<longleftrightarrow> j < n \<and> passed s i j"
| "help_ok n s g i oper ph (HEnq j p) \<longleftrightarrow> helps n s g j ph True \<and> passed s i j \<and> enq_ok s g j p"
| "help_ok n s g i oper ph (HDeq j p) \<longleftrightarrow> helps n s g j ph False \<and> passed s i j \<and> deq_ok n s g ph j p"
| "help_ok n s g i oper ph (FinEnq k p) \<longleftrightarrow> kont_ok n s g i ph k \<and> fin_enq_ok n s g ph k p \<and>
     (k = KEnd \<longrightarrow> oper \<noteq> Dequeue)"
| "help_ok n s g i oper ph (FinDeq k p) \<longleftrightarrow> kont_ok n s g i ph k \<and> fin_deq_ok n s g i k p \<and>
     (\<forall>j. k \<noteq> KNext j) \<and> (k = KEnd \<longrightarrow> oper = Dequeue)"
| "help_ok n s g i oper ph RNode \<longleftrightarrow> oper = Dequeue \<and> \<not> pending (slot s i) \<and> claim s (khead s) \<noteq> int i"
| "help_ok n s g i oper ph (RValue f) \<longleftrightarrow> oper = Dequeue \<and> \<not> pending (slot s i) \<and> claim s (khead s) \<noteq> int i \<and>
     dnode (slot s i) = Some f"

definition caller_ok :: "'a kp_queue \<Rightarrow> kp_ghost \<Rightarrow> tid \<Rightarrow> nat \<Rightarrow> 'a queue_op \<Rightarrow> int \<Rightarrow> bool" where
  "caller_ok s g t i oper ph \<longleftrightarrow> khandle s t = Some i \<and> act g i \<and> who g i = t \<and> phase (slot s i) = ph \<and>
     (enqueue (slot s i) \<longleftrightarrow> oper \<noteq> Dequeue)"

type_synonym 'a kp_status = "('a queue_op uc_op, 'a resp uc_resp) status"

fun kp_ok :: "nat \<Rightarrow> 'a kp_queue \<Rightarrow> kp_ghost \<Rightarrow> tid \<Rightarrow> 'a kp_pc \<Rightarrow> 'a kp_status \<Rightarrow> bool" where
  "kp_ok n s g t KHandle st \<longleftrightarrow> st = Wait Register {}"
| "kp_ok n s g t (MaxPhase i oper j m) st \<longleftrightarrow> st = Wait (Apply oper) {} \<and> khandle s t = Some i \<and> \<not> act g i \<and>
     j < n \<and> (i < j \<longrightarrow> phase (slot s i) \<le> m) \<and> (seen g i \<le> m \<or> (\<exists>k \<ge> j. k < n \<and> seen g i \<le> phase (slot s k)))"
| "kp_ok n s g t (KAnnounce i oper ph) st \<longleftrightarrow> st = Wait (Apply oper) {} \<and> khandle s t = Some i \<and> \<not> act g i \<and>
     phase (slot s i) < ph \<and> seen g i < ph"
| "kp_ok n s g t (Help i oper ph p) st \<longleftrightarrow> caller_ok s g t i oper ph \<and> help_ok n s g i oper ph p"

subsection \<open>Positions\<close>

lemma reached_set: "reached g m l \<Longrightarrow> l \<in> set (kseq g)"
  by (auto simp: reached_def)

lemma reached_mono: "reached g m l \<Longrightarrow> m \<le> m' \<Longrightarrow> reached g m' l"
  unfolding reached_def by (blast intro: order.trans)

lemma position_unique:
  "distinct (kseq g) \<Longrightarrow> i < length (kseq g) \<Longrightarrow> j < length (kseq g) \<Longrightarrow> kseq g ! i = kseq g ! j \<Longrightarrow> i = j"
  by (simp add: nth_eq_iff_index_eq)

lemma next_linked:
  assumes "chain_ok s g" and "l \<in> set (kseq g)" and "knext (knodes s l) = Some m"
  shows "m \<in> set (kseq g)"
proof -
  obtain k where "k < length (kseq g)" "l = kseq g ! k" using assms(2) by (auto simp: in_set_conv_nth)
  then show ?thesis using chain_okD(8) [OF assms(1), of k] assms(3) by (auto split: if_splits)
qed

text \<open>A reached node that is the head now was the head all along.\<close>

lemma reached_head:
  assumes c: "chain_ok s g" and f: "reached g (hix g) f" "khead s = f"
  shows "f = kseq g ! hix g"
  using chain_okD(5) [OF c] f(2) by simp

lemma unclaimed_head:
  assumes c: "chain_ok s g" and cl: "claims_ok n s g" and f: "reached g (hix g) f" "claim s f = noTid"
  shows "khead s = f"
proof -
  obtain k where k: "k \<le> hix g" "k < length (kseq g)" "f = kseq g ! k" using f(1) by (auto simp: reached_def)
  then have "k = hix g" using claims_okD(1) [OF cl k(2)] f(2) by (cases "k < hix g") auto
  then show ?thesis using k(3) chain_okD(5) [OF c] by simp
qed

subsection \<open>Stability\<close>

text \<open>A step of goroutine \<open>t\<close> between states that satisfy the invariant.\<close>

definition kp_trans :: "nat \<Rightarrow> tid \<Rightarrow> 'a kp_queue \<Rightarrow> kp_ghost \<Rightarrow> 'a kp_queue \<Rightarrow> kp_ghost \<Rightarrow> bool" where
  "kp_trans n t s g s' g' \<longleftrightarrow> kp_inv n s g \<and> kp_inv n s' g' \<and> kp_rely t s g s' g'"

lemma kp_transD:
  assumes "kp_trans n t s g s' g'"
  shows trans_pre: "kp_inv n s g" and trans_post: "kp_inv n s' g'" and trans_rely: "kp_rely t s g s' g'"
    and trans_slot: "i < n \<Longrightarrow> slot_move t s g s' g' i"
proof -
  show "kp_inv n s g" "kp_inv n s' g'" "kp_rely t s g s' g'" using assms by (simp_all add: kp_trans_def)
  then show "i < n \<Longrightarrow> slot_move t s g s' g' i" using kp_relyD(9) kp_inv_size by blast
qed

lemma pending_active: "kp_inv n s g \<Longrightarrow> i < n \<Longrightarrow> pending (slot s i) \<Longrightarrow> act g i"
  using kp_inv_slot slot_okD(5) by blast

lemma reached_stable: "kp_trans n t s g s' g' \<Longrightarrow> reached g (hix g) l \<Longrightarrow> reached g' (hix g') l"
  "kp_trans n t s g s' g' \<Longrightarrow> reached g (tix g) l \<Longrightarrow> reached g' (tix g') l"
  "kp_trans n t s g s' g' \<Longrightarrow> before_tail g l \<Longrightarrow> before_tail g' l"
proof -
  assume "kp_trans n t s g s' g'"
  note R = kp_relyD(2-4) [OF trans_rely [OF this]]
  show "reached g (hix g) l \<Longrightarrow> reached g' (hix g') l" using R unfolding reached_def by (metis order.trans)
  show "reached g (tix g) l \<Longrightarrow> reached g' (tix g') l" using R unfolding reached_def by (metis order.trans)
  show "before_tail g l \<Longrightarrow> before_tail g' l" using R unfolding before_tail_def by (metis order.strict_trans2)
qed

lemma helps_stable: "kp_trans n t s g s' g' \<Longrightarrow> helps n s g j ph e \<Longrightarrow> helps n s' g' j ph e"
proof -
  assume tr: "kp_trans n t s g s' g'" and h: "helps n s g j ph e"
  have j: "j < n" "ph \<le> seen g j" "phase (slot s j) \<le> ph \<longrightarrow> enqueue (slot s j) = e" using h by (simp_all add: helps_def)
  have "ph \<le> seen g' j" using j(2) kp_relyD(11) [OF trans_rely [OF tr], of j] by simp
  moreover have "phase (slot s' j) \<le> ph \<longrightarrow> enqueue (slot s' j) = e"
    using trans_slot [OF tr j(1)] j(2,3) by cases auto
  ultimately show ?thesis using j(1) by (simp add: helps_def)
qed

lemma not_pending_stable:
  assumes "kp_trans n t s g s' g'" and "i < n" and "khandle s t \<noteq> Some i" and "\<not> pending (slot s i)"
  shows "\<not> pending (slot s' i)"
  using trans_slot [OF assms(1,2)] assms(3,4) by cases auto

lemma other_handle: "kp_trans n t s g s' g' \<Longrightarrow> khandle s u = Some i \<Longrightarrow> u \<noteq> t \<Longrightarrow> khandle s t \<noteq> Some i"
  using kp_inv_inj trans_pre by blast

text \<open>A slot on which an operation of at most the helper's phase is pending.\<close>

lemma due_back:
  assumes tr: "kp_trans n t s g s' g'" and h: "j < n" "ph \<le> seen g j" and d: "due s' ph j"
  shows "due s ph j" and "enqueue (slot s j) \<Longrightarrow> slot s' j = slot s j" and "sawe g j \<Longrightarrow> sawe g' j"
  using trans_slot [OF tr h(1)] h(2) d by (cases; simp add: due_def)+

lemma held_stable:
  assumes "kp_trans n t s g s' g'" and "held n s j cur"
  shows "held n s' j cur" and "current s' j cur \<Longrightarrow> current s j cur \<and> slot s' j = slot s j"
proof -
  have j: "j < n" "dver cur \<le> dver (slot s j)" "dver (slot s j) = dver cur \<longrightarrow> slot s j = cur"
    using assms(2) by (simp_all add: held_def current_def)
  note M = slot_moveD [OF trans_slot [OF assms(1) j(1)]]
  show c: "current s' j cur \<Longrightarrow> current s j cur \<and> slot s' j = slot s j"
    using j M by (simp add: current_def)
  show "held n s' j cur" using j M c by (auto simp: held_def current_def)
qed

lemma offers_back:
  assumes "kp_trans n t s g s' g'" and "j < n" and "offers s' j m" and "m \<in> set (kseq g)"
  shows "slot s' j = slot s j"
  using trans_slot [OF assms(1,2)] assms(3,4) kp_relyD(1) [OF trans_rely [OF assms(1)]]
  by cases (auto simp: offers_def)

lemma unlinked_stable:
  assumes tr: "kp_trans n t s g s' g'" and j: "j < n" and u: "unlinked s g j l" "l \<in> set (kseq g)"
    and l: "knext (knodes s' l) = None"
  shows "slot s' j = slot s j" and "\<exists>m. offers s' j m \<and> m \<notin> set (kseq g')"
proof -
  have "knext (knodes s l) = None" using kp_relyD(6) [OF trans_rely [OF tr] u(2)] l by fastforce
  then obtain m where m: "offers s j m" "m \<notin> set (kseq g)" using u(1) by (auto simp: unlinked_def)
  then have a: "act g j" using pending_active [OF trans_pre [OF tr] j] by (simp add: offers_def)
  show s: "slot s' j = slot s j"
    using trans_slot [OF tr j] a m by cases (auto simp: offers_def)
  obtain k where k: "k < length (kseq g)" "l = kseq g ! k" using u(2) by (auto simp: in_set_conv_nth)
  note R = kp_relyD(4) [OF trans_rely [OF tr] k(1)]
  have "\<not> Suc k < length (kseq g')"
    using chain_okD(8) [OF kp_inv_chain [OF trans_post [OF tr]], of k] R l k(2) by auto
  moreover obtain ms where "kseq g' = kseq g @ ms" using trans_rely [OF tr] by (auto simp: kp_rely_def)
  ultimately have "kseq g' = kseq g" using k(1) by (cases ms) auto
  then show "\<exists>m. offers s' j m \<and> m \<notin> set (kseq g')" using m s by (auto simp: offers_def)
qed

text \<open>While a linked node is announced, \<open>tail\<close> stays before it.\<close>

lemma offers_tail:
  assumes tr: "kp_trans n t s g s' g'" and j: "j < n" and o: "offers s' j m" "m \<in> set (kseq g)"
  shows "ktail s' = ktail s"
proof -
  have e: "slot s' j = slot s j" by (rule offers_back [OF tr j o])
  then have o': "offers s j m" using o(1) by (simp add: offers_def)
  have pos: "Suc (tix h) < length (kseq h) \<and> m = kseq h ! Suc (tix h)"
    if "kp_inv n r h" "offers r j m" "m \<in> set (kseq h)" for r :: "'a kp_queue" and h
    using slot_okD(1) [OF kp_inv_slot [OF that(1) j]] that(2,3) by (auto simp: offers_def enq_desc_ok_def)
  note R = trans_rely [OF tr]
  have p: "Suc (tix g) < length (kseq g)" "m = kseq g ! Suc (tix g)" using pos [OF trans_pre [OF tr] o' o(2)] by simp_all
  have q: "Suc (tix g') < length (kseq g')" "m = kseq g' ! Suc (tix g')"
    using pos [OF trans_post [OF tr] o(1) kp_relyD(1) [OF R o(2)]] by simp_all
  note c = kp_inv_chain [OF trans_pre [OF tr]] and c' = kp_inv_chain [OF trans_post [OF tr]]
  have "kseq g' ! Suc (tix g) = kseq g ! Suc (tix g) \<and> Suc (tix g) < length (kseq g')" using kp_relyD(4) [OF R p(1)] by simp
  then have "tix g' = tix g" using position_unique [OF chain_okD(1) [OF c'] q(1), of "Suc (tix g)"] p(2) q(2) by simp
  then show ?thesis using chain_okD(6) [OF c] chain_okD(6) [OF c'] kp_relyD(4) [OF R, of "tix g"] p(1) by simp
qed

lemma wants_stable:
  assumes tr: "kp_trans n t s g s' g'" and j: "j < n" and f: "f \<in> set (kseq g)"
    and w: "claim s f = noTid \<longrightarrow> wants s j f" and c: "claim s' f = noTid"
  shows "wants s' j f"
proof -
  have "claim s f = noTid" using kp_relyD(7) [OF trans_rely [OF tr] f] c by fastforce
  with w have wt: "wants s j f" "claim s f = noTid" by simp_all
  then have a: "act g j" using pending_active [OF trans_pre [OF tr] j] by (simp add: wants_def)
  show ?thesis using trans_slot [OF tr j] wt a by cases (auto simp: wants_def)
qed

lemma stale_stable: "kp_trans n t s g s' g' \<Longrightarrow> stale s g j cur \<Longrightarrow> stale s' g' j cur"
  using kp_relyD(1,7) [OF trans_rely] by (fastforce simp: stale_def)

lemma claim_other:
  assumes tr: "kp_trans n t s g s' g'" and f: "f \<in> set (kseq g)" "claim s f \<noteq> int j" and d: "dnode (slot s j) \<noteq> Some f"
  shows "claim s' f \<noteq> int j"
  using kp_relyD(8) [OF trans_rely [OF tr] f(1)] f(2) d by auto

text \<open>The head does not become a node that is claimed by an idle slot.\<close>

lemma head_claim_back:
  assumes tr: "kp_trans n t s g s' g'" and i: "i < n" "\<not> pending (slot s i)" and c: "claim s' (khead s') = int i"
  shows "khead s' = khead s" and "claim s (khead s) = int i"
proof -
  note R = trans_rely [OF tr]
  note C = kp_inv_chain [OF trans_pre [OF tr]] and C' = kp_inv_chain [OF trans_post [OF tr]]
  have h: "hix g' < length (kseq g)" "khead s' = kseq g ! hix g'"
    using kp_relyD(15) [OF R] kp_relyD(4) [OF R, of "hix g'"] chain_okD(5) [OF C'] by simp_all
  have old: "claim s (khead s') = int i"
    using kp_relyD(8) [OF R, of "khead s'"] h c i(2) by auto
  have "\<not> hix g < hix g'" using claims_okD(2) [OF kp_inv_claims [OF trans_pre [OF tr]] h(1)] old h(2) by auto
  then have "hix g' = hix g" using kp_relyD(2) [OF R] by simp
  then show "khead s' = khead s" using h chain_okD(5) [OF C] by simp
  with old show "claim s (khead s) = int i" by simp
qed

lemma head_back:
  assumes tr: "kp_trans n t s g s' g'" and f: "reached g (hix g) f" "khead s' = f"
  shows "khead s = f"
proof -
  note R = trans_rely [OF tr]
  note C = kp_inv_chain [OF trans_pre [OF tr]] and C' = kp_inv_chain [OF trans_post [OF tr]]
  obtain k where k: "k \<le> hix g" "k < length (kseq g)" "f = kseq g ! k" using f(1) by (auto simp: reached_def)
  have "kseq g ! hix g' = kseq g ! k"
    using kp_relyD(15) [OF R] kp_relyD(4) [OF R, of "hix g'"] chain_okD(5) [OF C'] f(2) k(3) by simp
  then have "hix g' = k" using position_unique [OF chain_okD(1) [OF C] kp_relyD(15) [OF R] k(2)] by simp
  then have "hix g = k" using kp_relyD(2) [OF R] k(1) by simp
  then show ?thesis using chain_okD(5) [OF C] k(3) by simp
qed

end
