(* ===== verification/Kp_Stable.thy ===== *)
theory Kp_Stable
  imports Kp_Safety
begin

text \<open>
  The Kogan-Petrank queue: the assertions of a goroutine survive the steps of the others.
\<close>

subsection \<open>helpEnq\<close>

lemma enq_ok_stable:
  assumes tr: "kp_trans n t s g s' g'" and j: "j < n" and p: "enq_ok s g j p"
  shows "enq_ok s' g' j p"
proof -
  note R = trans_rely [OF tr]
  have u: "unlinked s' g' j l" if "unlinked s g j l" "reached g (tix g) l" for l
    using unlinked_stable(2) [OF tr j that(1) reached_set [OF that(2)]] by (auto simp: unlinked_def)
  have d: "dnode (slot s' j) = nd"
    if c: "unlinked s g j l" "reached g (tix g) l" "knext (knodes s l) = None \<longrightarrow> dnode (slot s j) = nd"
      "knext (knodes s' l) = None" for l nd
  proof -
    have "knext (knodes s l) = None" using kp_relyD(6) [OF R reached_set [OF c(2)]] c(4) by fastforce
    then show ?thesis using unlinked_stable(1) [OF tr j c(1) reached_set [OF c(2)] c(4)] c(3) by simp
  qed
  show ?thesis using p reached_stable(2) [OF tr] u
    by (cases p) (auto simp del: not_None_eq intro: d)
qed

subsection \<open>helpFinishEnq\<close>

lemma owes_back:
  assumes tr: "kp_trans n t s g s' g'" and h: "helps n s g j ph True" and d: "due s' ph j"
  shows "due s ph j" and "slot s' j = slot s j" and "dnode (slot s j) = Some m \<Longrightarrow> offers s' j m"
proof -
  have j: "j < n" "ph \<le> seen g j" "phase (slot s j) \<le> ph \<longrightarrow> enqueue (slot s j)" using h by (simp_all add: helps_def)
  show d': "due s ph j" by (rule due_back(1) [OF tr j(1,2) d])
  then have e: "enqueue (slot s j)" using j(3) by (simp add: due_def)
  show s: "slot s' j = slot s j" by (rule due_back(2) [OF tr j(1,2) d e])
  show "dnode (slot s j) = Some m \<Longrightarrow> offers s' j m" using s e d by (simp add: offers_def due_def)
qed

lemma owes_stable:
  assumes tr: "kp_trans n t s g s' g'" and k: "\<And>j. k = KNext j \<Longrightarrow> helps n s g j ph True"
    and o: "owes s ph k P" and P: "\<And>j. P j \<Longrightarrow> j < n \<Longrightarrow> slot s' j = slot s j \<Longrightarrow>
      (\<And>m. dnode (slot s j) = Some m \<Longrightarrow> offers s' j m) \<Longrightarrow> Q j"
  shows "owes s' ph k Q"
  unfolding owes_def
proof (intro allI impI)
  fix j assume j: "k = KNext j" "due s' ph j"
  note B = owes_back [OF tr k [OF j(1)] j(2)]
  have "P j" using o j(1) B(1) by (simp add: owes_def)
  moreover have "j < n" using k [OF j(1)] by (simp add: helps_def)
  ultimately show "Q j" using P B(2,3) by blast
qed

lemma follows_tail_stable: "kp_trans n t s g s' g' \<Longrightarrow> follows_tail s g l nx \<Longrightarrow> follows_tail s' g' l nx"
  using reached_stable(2) kp_relyD(6) [OF trans_rely reached_set] unfolding follows_tail_def by blast

lemma follows_position:
  assumes i: "kp_inv n s g" and f: "follows_tail s g l nx"
  obtains k where "k \<le> tix g" and "l = kseq g ! k" and "Suc k < length (kseq g)" and "nx = kseq g ! Suc k"
proof -
  obtain k where k: "k \<le> tix g" "k < length (kseq g)" "l = kseq g ! k"
    using f by (auto simp: follows_tail_def reached_def)
  have "Suc k < length (kseq g) \<and> nx = kseq g ! Suc k"
    using chain_okD(8) [OF kp_inv_chain [OF i] k(2)] f k(3) by (auto simp: follows_tail_def split: if_splits)
  then show thesis using that k by blast
qed

lemma follows_linked:
  assumes "kp_inv n s g" and "follows_tail s g l nx"
  shows "nx \<in> set (kseq g)" and "enq_slot s nx < n" and "enqTid (knodes s nx) = int (enq_slot s nx)"
proof -
  obtain k where k: "Suc k < length (kseq g)" "nx = kseq g ! Suc k" by (rule follows_position [OF assms]) blast
  obtain j where "j < n" "enqTid (knodes s nx) = int j"
    using claims_okD(4) [OF kp_inv_claims [OF assms(1)] k(1)] k(2) by auto
  then show "enq_slot s nx < n" "enqTid (knodes s nx) = int (enq_slot s nx)" by (simp_all add: enq_slot_def)
  show "nx \<in> set (kseq g)" using k by simp
qed

lemma enq_slot_stable:
  assumes "kp_trans n t s g s' g'" and "nx \<in> set (kseq g)"
  shows "enq_slot s' nx = enq_slot s nx"
  using kp_relyD(5) [OF trans_rely [OF assms(1)] assms(2)] by (simp add: enq_slot_def)

lemma settled_stable:
  assumes tr: "kp_trans n t s g s' g'" and nx: "nx \<in> set (kseq g)" and st: "settled n s nx cur"
  shows "settled n s' nx cur" and "current s' (enq_slot s' nx) cur \<Longrightarrow> current s (enq_slot s nx) cur"
proof -
  have h: "held n s (enq_slot s nx) cur" using st by (simp add: settled_def)
  note e = enq_slot_stable [OF tr nx] and H = held_stable [OF tr h]
  show "current s' (enq_slot s' nx) cur \<Longrightarrow> current s (enq_slot s nx) cur" using H(2) e by simp
  have "current s' (enq_slot s nx) cur" if o: "offers s' (enq_slot s nx) nx"
  proof -
    have j: "enq_slot s nx < n" using h by (simp add: held_def)
    note B = offers_back [OF tr j o nx]
    have "offers s (enq_slot s nx) nx" using o B by (simp add: offers_def)
    then have "current s (enq_slot s nx) cur" using st by (simp add: settled_def)
    then show ?thesis using B by (simp add: current_def)
  qed
  then show "settled n s' nx cur" using H(1) e by (auto simp: settled_def)
qed

lemma fin_enq_ok_stable:
  assumes tr: "kp_trans n t s g s' g'" and k: "\<And>j. k = KNext j \<Longrightarrow> helps n s g j ph True"
    and p: "fin_enq_ok n s g ph k p"
  shows "fin_enq_ok n s' g' ph k p"
proof -
  note R = trans_rely [OF tr] and F = follows_tail_stable [OF tr] and L = follows_linked(1) [OF trans_pre [OF tr]]
  have tail: "l = ktail s'" if "l = ktail s" "j < n" "offers s' j m" "m \<in> set (kseq g)" for l j m
    using offers_tail [OF tr that(2-4)] that(1) by simp
  have OW: "owes s' ph k (\<lambda>j. dnode (slot s' j) = Some nx \<and> l = ktail s')"
    if "follows_tail s g l nx" "owes s ph k (\<lambda>j. dnode (slot s j) = Some nx \<and> l = ktail s)" for l nx
    using L [OF that(1)] tail by (intro owes_stable [OF tr k that(2)]) auto
  show ?thesis
  proof (cases p)
    case NTail
    have "owes s ph k (\<lambda>j. \<exists>m \<in> set (kseq g). dnode (slot s j) = Some m)" using p NTail by simp
    then have "owes s' ph k (\<lambda>j. \<exists>m \<in> set (kseq g'). dnode (slot s' j) = Some m)"
      using kp_relyD(1) [OF R] by (auto intro: owes_stable [OF tr k])
    then show ?thesis using NTail by simp
  next
    case (NNext l)
    have "owes s ph k (\<lambda>j. (\<exists>m \<in> set (kseq g). dnode (slot s j) = Some m) \<and> l = ktail s)" using p NNext by simp
    then have "owes s' ph k (\<lambda>j. (\<exists>m \<in> set (kseq g'). dnode (slot s' j) = Some m) \<and> l = ktail s')"
    proof (elim owes_stable [OF tr k, rotated])
      fix j assume a: "(\<exists>m \<in> set (kseq g). dnode (slot s j) = Some m) \<and> l = ktail s" "j < n" "slot s' j = slot s j"
        "\<And>m. dnode (slot s j) = Some m \<Longrightarrow> offers s' j m"
      then obtain m where "m \<in> set (kseq g)" "dnode (slot s j) = Some m" by blast
      then show "(\<exists>m \<in> set (kseq g'). dnode (slot s' j) = Some m) \<and> l = ktail s'"
        using a kp_relyD(1) [OF R] tail by auto
    qed
    then show ?thesis using p NNext reached_stable(2) [OF tr] by simp
  next
    case (NDesc l nx)
    then show ?thesis using p F OW by simp
  next
    case (NSame l nx cur)
    then show ?thesis using p F L OW settled_stable(1) [OF tr L, of l nx cur] by auto
  next
    case (NNode l nx cur)
    then show ?thesis using p F L OW settled_stable [OF tr L, of l nx cur] by auto
  next
    case (NCas l nx cur)
    then show ?thesis using p F L OW settled_stable [OF tr L, of l nx cur] by auto
  next
    case (NMove l nx)
    have f: "follows_tail s g l nx" "owes s ph k (\<lambda>j. False)" "ktail s = l \<longrightarrow> \<not> offers s (enq_slot s nx) nx"
      using p NMove by simp_all
    note nx = L [OF f(1)]
    note j = follows_linked(2) [OF trans_pre [OF tr] f(1)]
    have False if c: "ktail s' = l" "offers s' (enq_slot s nx) nx"
      using c f(3) offers_tail [OF tr j c(2) nx] offers_back [OF tr j c(2) nx] by (auto simp: offers_def)
    then show ?thesis using NMove F [OF f(1)] owes_stable [OF tr k f(2)] enq_slot_stable [OF tr nx] by auto
  qed
qed

subsection \<open>helpDeq\<close>

lemma saw_stable: "kp_trans n t s g s' g' \<Longrightarrow> helps n s g j ph e \<Longrightarrow> saw s g ph j \<Longrightarrow> saw s' g' ph j"
  using due_back(1,3) unfolding saw_def helps_def by blast

lemma hit_stable:
  assumes "kp_trans n t s g s' g'" and "j < n" and "f \<in> set (kseq g)" and "hit s j f cur"
  shows "hit s' j f cur"
  using wants_stable [OF assms(1-3)] assms(4) by (auto simp: hit_def)

lemma deq_ok_stable:
  assumes tr: "kp_trans n t s g s' g'" and h: "helps n s g j ph False" and p: "deq_ok n s g ph j p"
  shows "deq_ok n s' g' ph j p"
proof -
  have j: "j < n" using h by (simp add: helps_def)
  note S = reached_stable [OF tr] saw_stable [OF tr h] and H = held_stable [OF tr] and T = stale_stable [OF tr]
    and M = slot_moveD(1) [OF trans_slot [OF tr j]]
  have "claim s' f \<noteq> int j" if c: "reached g (hix g) f" "claim s f \<noteq> int j" "current s j cur" "held n s j cur" "dnode cur \<noteq> Some f"
    for f cur
    using claim_other [OF tr reached_set [OF c(1)] c(2)] c(3-5) by (simp add: held_def)
  note C = this
  show ?thesis
  proof (cases p)
    case (ZPend cur)
    then show ?thesis using p S(4) H T by auto
  next
    case (ZCas cur)
    then show ?thesis using p S(4) H T by auto
  next
    case (DPend2 f cur)
    then show ?thesis using p S H(1) M hit_stable [OF tr j, of f cur] reached_set by auto
  next
    case (DFirst f cur)
    then show ?thesis using p S H hit_stable [OF tr j, of f cur] reached_set by auto
  next
    case (DCand f cur)
    then show ?thesis using p S H T C [of f cur] by auto
  next
    case (DClaim f)
    then show ?thesis using p S wants_stable [OF tr j, of f] reached_set by auto
  qed (use p S H(1) in auto)
qed

subsection \<open>helpFinishDeq\<close>

lemma last_owes_stable:
  assumes tr: "kp_trans n t s g s' g'" and i: "i < n" "k = KEnd \<longrightarrow> \<not> pending (slot s i)"
    and o: "last_owes s i k P" and P: "P \<Longrightarrow> khead s' = khead s \<Longrightarrow> Q"
  shows "last_owes s' i k Q"
  using o P head_claim_back [OF tr i(1)] i(2) by (auto simp: last_owes_def)

lemma claimed_by_stable: "kp_trans n t s g s' g' \<Longrightarrow> claimed_by n s g f j \<Longrightarrow> claimed_by n s' g' f j"
  using reached_stable(1) kp_relyD(7) [OF trans_rely reached_set] noTid_int(1) unfolding claimed_by_def by metis

lemma claimed_head_stable:
  assumes tr: "kp_trans n t s g s' g'" and c: "claimed_by n s g f j" and h: "khead s' = f"
  shows "khead s = f" and "slot s' j = slot s j \<or> \<not> pending (slot s' j)"
    and "\<not> pending (slot s j) \<Longrightarrow> \<not> pending (slot s' j)"
proof -
  have j: "reached g (hix g) f" "claim s f = int j" "j < n" using c by (simp_all add: claimed_by_def)
  show e: "khead s = f" by (rule head_back [OF tr j(1) h])
  note S = slot_okD(3,4) [OF kp_inv_slot [OF trans_pre [OF tr] j(3)]]
  have a: "\<not> enqueue (slot s j)" "dnode (slot s j) = Some f" "act g j" using S e j(2) by auto
  show "slot s' j = slot s j \<or> \<not> pending (slot s' j)" using trans_slot [OF tr j(3)] a j(2) by cases auto
  show "\<not> pending (slot s j) \<Longrightarrow> \<not> pending (slot s' j)" using trans_slot [OF tr j(3)] a j(2) by cases auto
qed

lemma finishing_stable:
  assumes tr: "kp_trans n t s g s' g'" and c: "claimed_by n s g f j" and f: "finishing n s f j cur"
  shows "finishing n s' f j cur"
proof -
  have h: "held n s j cur" using f by (simp add: finishing_def)
  have "current s' j cur" if "khead s' = f" "pending (slot s' j)"
  proof -
    note C = claimed_head_stable [OF tr c that(1)]
    have "current s j cur" using f C that(2) by (auto simp: finishing_def)
    then show ?thesis using C(2) that(2) by (auto simp: current_def)
  qed
  then show ?thesis using held_stable(1) [OF tr h] by (auto simp: finishing_def)
qed

lemma fin_deq_ok_stable:
  assumes tr: "kp_trans n t s g s' g'" and i: "i < n" "k = KEnd \<longrightarrow> \<not> pending (slot s i)"
    and p: "fin_deq_ok n s g i k p"
  shows "fin_deq_ok n s' g' i k p"
proof -
  note O = last_owes_stable [OF tr i] and S = reached_stable(1) [OF tr] and C = claimed_by_stable [OF tr]
    and F = finishing_stable [OF tr] and N = kp_relyD(6) [OF trans_rely [OF tr] reached_set]
  have R: "claimed_by n s g f j \<Longrightarrow> reached g (hix g) f" for f j by (simp add: claimed_by_def)
  show ?thesis
  proof (cases p)
    case (MNext f)
    have "last_owes s' i k (khead s' = f)" by (rule O [of "khead s = f"]) (use p MNext in auto)
    then show ?thesis using p MNext S by simp
  next
    case (MTid f nx)
    have "last_owes s' i k (khead s' = f \<and> nx \<noteq> None)"
      by (rule O [of "khead s = f \<and> nx \<noteq> None"]) (use p MTid in auto)
    then show ?thesis using p MTid S N by auto
  next
    case (MDesc f nx j)
    have "last_owes s' i k (khead s' = f \<and> nx \<noteq> None)"
      by (rule O [of "khead s = f \<and> nx \<noteq> None"]) (use p MDesc in auto)
    then show ?thesis using p MDesc C N [OF R] by auto
  next
    case (MSame f nx j cur)
    have "last_owes s' i k (khead s' = f \<and> nx \<noteq> None)"
      by (rule O [of "khead s = f \<and> nx \<noteq> None"]) (use p MSame in auto)
    then show ?thesis using p MSame C N [OF R] F by auto
  next
    case (MCas f m j cur)
    have "last_owes s' i k (khead s' = f)" by (rule O [of "khead s = f"]) (use p MCas in auto)
    moreover have "current s' j cur \<Longrightarrow> current s j cur"
      using held_stable(2) [OF tr, of j cur] p MCas by (auto simp: finishing_def)
    ultimately show ?thesis using p MCas C N [OF R] F by auto
  next
    case (MMove f m)
    have "last_owes s' i k (khead s' = f)" by (rule O [of "khead s = f"]) (use p MMove in auto)
    moreover obtain j where j: "claimed_by n s g f j" "khead s = f \<longrightarrow> \<not> pending (slot s j)" using p MMove by auto
    ultimately show ?thesis using p MMove C [OF j(1)] N [OF R [OF j(1)]] claimed_head_stable(1,3) [OF tr j(1)] j(2)
      by auto
  qed simp
qed

subsection \<open>The call\<close>

lemma idle_slot_stable:
  assumes tr: "kp_trans n t s g s' g'" and i: "i < n" "khandle s t \<noteq> Some i" "\<not> pending (slot s i)"
  shows "\<not> pending (slot s' i)" and "phase (slot s' i) = phase (slot s i)" and "dnode (slot s' i) = dnode (slot s i)"
    and "seen g' i = seen g i" and "claim s (khead s) \<noteq> int i \<Longrightarrow> claim s' (khead s') \<noteq> int i"
proof -
  note M = trans_slot [OF tr i(1)]
  show "\<not> pending (slot s' i)" using M i by cases auto
  show "phase (slot s' i) = phase (slot s i)" using M i by cases auto
  show "dnode (slot s' i) = dnode (slot s i)" using M i by cases auto
  show "seen g' i = seen g i" using kp_relyD(12) [OF trans_rely [OF tr]] i(3) by blast
  show "claim s (khead s) \<noteq> int i \<Longrightarrow> claim s' (khead s') \<noteq> int i"
    using head_claim_back(2) [OF tr i(1,3)] by blast
qed

lemma caller_ok_stable:
  assumes tr: "kp_trans n t s g s' g'" and u: "u \<noteq> t" and c: "caller_ok s g u i oper ph"
  shows "caller_ok s' g' u i oper ph"
proof -
  have h: "khandle s u = Some i" "act g i" "who g i = u" "phase (slot s i) = ph" "enqueue (slot s i) \<longleftrightarrow> oper \<noteq> Dequeue"
    using c by (simp_all add: caller_ok_def)
  have i: "i < n" using kp_inv_handle [OF trans_pre [OF tr] h(1)] by simp
  have n: "khandle s t \<noteq> Some i" by (rule other_handle [OF tr h(1) u])
  note R = trans_rely [OF tr]
  have "phase (slot s' i) = ph \<and> (enqueue (slot s' i) \<longleftrightarrow> enqueue (slot s i))"
    using trans_slot [OF tr i] h(4) n by cases auto
  then show ?thesis using h kp_relyD(10) [OF R u] kp_relyD(13) [OF R n] by (simp add: caller_ok_def)
qed

lemma kont_ok_stable:
  assumes "kp_trans n t s g s' g'" and "i < n" and "khandle s t \<noteq> Some i" and "kont_ok n s g i ph k"
  shows "kont_ok n s' g' i ph k"
  using assms(4) helps_stable [OF assms(1)] not_pending_stable [OF assms(1-3)] by (cases k) (auto simp: passed_def)

lemma help_ok_stable:
  assumes tr: "kp_trans n t s g s' g'" and i: "i < n" "khandle s t \<noteq> Some i" and p: "help_ok n s g i oper ph p"
  shows "help_ok n s' g' i oper ph p"
proof (cases p)
  case (HEnq j q)
  then have "helps n s g j ph True" "passed s i j" "enq_ok s g j q" using p by simp_all
  moreover from this(1) have "j < n" by (simp add: helps_def)
  ultimately show ?thesis
    using HEnq helps_stable [OF tr] enq_ok_stable [OF tr] not_pending_stable [OF tr i] by (auto simp: passed_def)
next
  case (HDeq j q)
  then show ?thesis using p helps_stable [OF tr] deq_ok_stable [OF tr, of j ph q] not_pending_stable [OF tr i]
    by (auto simp: passed_def)
next
  case (FinEnq k q)
  have "k = KNext j \<Longrightarrow> helps n s g j ph True" for j using p FinEnq by simp
  then show ?thesis using p FinEnq kont_ok_stable [OF tr i] fin_enq_ok_stable [OF tr] by simp
next
  case (FinDeq k q)
  have "k = KEnd \<longrightarrow> \<not> pending (slot s i)" using p FinDeq by (cases k) simp_all
  then show ?thesis using p FinDeq kont_ok_stable [OF tr i] fin_deq_ok_stable [OF tr i(1)] by simp
next
  case RNode
  then show ?thesis using p idle_slot_stable [OF tr i] by simp
next
  case (RValue f)
  then show ?thesis using p idle_slot_stable [OF tr i] by simp
qed (use p not_pending_stable [OF tr i] in \<open>auto simp: passed_def\<close>)

theorem kp_stable:
  assumes tr: "kp_trans n t s g s' g'" and u: "u \<noteq> t" and p: "kp_ok n s g u p st"
  shows "kp_ok n s' g' u p st"
proof (cases p)
  case KHandle
  then show ?thesis using p by simp
next
  case (MaxPhase i oper j m)
  then have h: "khandle s u = Some i" "\<not> act g i" "i < j \<longrightarrow> phase (slot s i) \<le> m"
    "seen g i \<le> m \<or> (\<exists>k \<ge> j. k < n \<and> seen g i \<le> phase (slot s k))" using p by simp_all
  have i: "i < n" "khandle s t \<noteq> Some i" "\<not> pending (slot s i)"
    using kp_inv_handle [OF trans_pre [OF tr] h(1)] other_handle [OF tr h(1) u] pending_active [OF trans_pre [OF tr]] h(2)
    by auto
  have "phase (slot s k) \<le> phase (slot s' k)" if "k < n" for k by (rule slot_moveD(1) [OF trans_slot [OF tr that]])
  then have "seen g' i \<le> m \<or> (\<exists>k \<ge> j. k < n \<and> seen g' i \<le> phase (slot s' k))"
    using h(4) idle_slot_stable(4) [OF tr i] by fastforce
  then show ?thesis
    using p MaxPhase idle_slot_stable(2) [OF tr i] kp_relyD(10) [OF trans_rely [OF tr] u] kp_relyD(13) [OF trans_rely [OF tr] i(2)]
    by simp
next
  case (KAnnounce i oper ph)
  then have h: "khandle s u = Some i" "\<not> act g i" using p by simp_all
  have i: "i < n" "khandle s t \<noteq> Some i" "\<not> pending (slot s i)"
    using kp_inv_handle [OF trans_pre [OF tr] h(1)] other_handle [OF tr h(1) u] pending_active [OF trans_pre [OF tr]] h(2)
    by auto
  then show ?thesis
    using p KAnnounce idle_slot_stable(2,4) [OF tr i] kp_relyD(10) [OF trans_rely [OF tr] u]
      kp_relyD(13) [OF trans_rely [OF tr] i(2)] by simp
next
  case (Help i oper ph q)
  then have h: "caller_ok s g u i oper ph" "help_ok n s g i oper ph q" using p by simp_all
  then have "khandle s u = Some i" by (simp add: caller_ok_def)
  then have "i < n" "khandle s t \<noteq> Some i"
    using kp_inv_handle [OF trans_pre [OF tr]] other_handle [OF tr _ u] by auto
  then show ?thesis using Help h caller_ok_stable [OF tr u] help_ok_stable [OF tr] by simp
qed

end
