(* ===== verification/Kp_Enq.thy ===== *)
theory Kp_Enq
  imports Kp_Stable
begin

text \<open>
  The Kogan-Petrank queue: the abstract state, how the announced calls stand in it, and the steps of
  \<open>help\<close>, \<open>helpEnq\<close> and \<open>helpFinishEnq\<close>.
\<close>

subsection \<open>Abstraction\<close>

text \<open>The claimed head is the predecessor of a node that has been dequeued already.\<close>

definition kp_front :: "'a kp_queue \<Rightarrow> kp_ghost \<Rightarrow> nat" where
  "kp_front s g = (if claim s (khead s) = noTid then Suc (hix g) else Suc (Suc (hix g)))"

definition kp_abs :: "'a kp_queue \<Rightarrow> kp_ghost \<Rightarrow> 'a list" where
  "kp_abs s g = map (\<lambda>l. kvalue (knodes s l)) (drop (kp_front s g) (kseq g))"

text \<open>How the call announced in slot \<open>i\<close> stands: an enqueue takes effect when its node is linked, a dequeue
  when its slot claims its candidate.\<close>

definition served :: "'a kp_queue \<Rightarrow> nat \<Rightarrow> bool" where
  "served s i \<longleftrightarrow> (\<exists>f. dnode (slot s i) = Some f \<and> claim s f = int i)"

definition slot_status :: "'a kp_queue \<Rightarrow> kp_ghost \<Rightarrow> nat \<Rightarrow> 'a kp_status \<Rightarrow> bool" where
  "slot_status s g i st \<longleftrightarrow>
     (if enqueue (slot s i)
      then (\<exists>m. dnode (slot s i) = Some m \<and>
        (if pending (slot s i) \<and> m \<notin> set (kseq g) then \<exists>R. st = Wait (Apply (Enqueue (kvalue (knodes s m)))) R
         else st = Done (Reply Ack)))
      else if served s i
      then (\<exists>f m. dnode (slot s i) = Some f \<and> knext (knodes s f) = Some m \<and>
        st = Done (Reply (Got (Some (kvalue (knodes s m))))))
      else (\<exists>R. st = Wait (Apply Dequeue) R \<and> (sawe g i \<or> \<not> pending (slot s i) \<longrightarrow> Reply (Got None) \<in> R)))"

text \<open>What a step does to the announced calls.\<close>

inductive kp_effect :: "'a kp_queue \<Rightarrow> kp_ghost \<Rightarrow> 'a kp_queue \<Rightarrow> kp_ghost \<Rightarrow> bool" for s g s' g' where
  silent: "kp_abs s' g' = kp_abs s g \<Longrightarrow> (\<And>i st. act g i \<Longrightarrow> slot_status s g i st \<Longrightarrow> slot_status s' g' i st) \<Longrightarrow>
    kp_effect s g s' g'"
| takes: "act g j \<Longrightarrow> pending (slot s j) \<Longrightarrow> (\<And>i st. act g i \<Longrightarrow> i \<noteq> j \<Longrightarrow> slot_status s g i st \<Longrightarrow> slot_status s' g' i st) \<Longrightarrow>
    (\<And>st. slot_status s g j st \<Longrightarrow> \<exists>R. st = Wait (Apply oper) R) \<Longrightarrow>
    queue_spec (kp_abs s g) oper = (kp_abs s' g', r) \<Longrightarrow> slot_status s' g' j (Done (Reply r)) \<Longrightarrow>
    kp_effect s g s' g'"
| empty: "act g j \<Longrightarrow> pending (slot s j) \<Longrightarrow> (\<And>i st. act g i \<Longrightarrow> i \<noteq> j \<Longrightarrow> slot_status s g i st \<Longrightarrow> slot_status s' g' i st) \<Longrightarrow>
    kp_abs s g = [] \<Longrightarrow> kp_abs s' g' = [] \<Longrightarrow>
    (\<And>st. slot_status s g j st \<Longrightarrow> \<exists>R. st = Wait (Apply Dequeue) R \<and>
      slot_status s' g' j (Wait (Apply Dequeue) (insert (Reply (Got None)) R))) \<Longrightarrow>
    kp_effect s g s' g'"

text \<open>The goroutine of slot \<open>i\<close> after the step.\<close>

fun kp_next :: "nat \<Rightarrow> 'a kp_queue \<Rightarrow> kp_ghost \<Rightarrow> nat \<Rightarrow> 'a queue_op \<Rightarrow> int \<Rightarrow> (help_pc, 'a resp) thread \<Rightarrow> bool" where
  "kp_next n s g i oper ph (Busy q) \<longleftrightarrow> help_ok n s g i oper ph q"
| "kp_next n s g i oper ph (Return r) \<longleftrightarrow> \<not> pending (slot s i) \<and> claim s (khead s) \<noteq> int i \<and>
     (\<forall>st. slot_status s g i st \<longrightarrow> st = Done (Reply r) \<or> (\<exists>oper' R. st = Wait oper' R \<and> Reply r \<in> R))"
| "kp_next n s g i oper ph _ \<longleftrightarrow> False"

definition kp_goes :: "nat \<Rightarrow> tid \<Rightarrow> 'a kp_queue \<Rightarrow> kp_ghost \<Rightarrow> 'a kp_queue \<Rightarrow> kp_ghost \<Rightarrow> bool" where
  "kp_goes n t s g s' g' \<longleftrightarrow> kp_trans n t s g s' g' \<and> act g' = act g \<and> who g' = who g \<and>
     khandle s' = khandle s \<and> kcursor s' = kcursor s \<and> kp_effect s g s' g'"

definition kp_sim_step :: "nat \<Rightarrow> tid \<Rightarrow> nat \<Rightarrow> 'a queue_op \<Rightarrow> int \<Rightarrow> 'a kp_queue \<Rightarrow> kp_ghost \<Rightarrow>
    'a kp_queue \<times> (help_pc, 'a resp) thread \<Rightarrow> bool" where
  "kp_sim_step n t i oper ph s g r \<longleftrightarrow>
     (\<exists>g'. kp_goes n t s g (fst r) g' \<and> kp_next n (fst r) g' i oper ph (snd r))"

lemma kp_rely_refl: "chain_ok s g \<Longrightarrow> kp_rely t s g s g"
  using chain_okD(2,3) [of s g] by (auto simp: kp_rely_def intro: slot_move.same)

lemma kp_goes_refl: "kp_inv n s g \<Longrightarrow> kp_goes n t s g s g"
  by (auto simp: kp_goes_def kp_trans_def intro: kp_rely_refl kp_inv_chain kp_effect.silent)

text \<open>A step that only reads.\<close>

lemma reads: "kp_inv n s g \<Longrightarrow> kp_next n s g i oper ph x \<Longrightarrow> kp_sim_step n t i oper ph s g (s, x)"
  using kp_goes_refl by (fastforce simp: kp_sim_step_def)

lemma kp_simI:
  "kp_goes n t s g s' g' \<Longrightarrow> kp_next n s' g' i oper ph x \<Longrightarrow> kp_sim_step n t i oper ph s g (s', x)"
  by (auto simp: kp_sim_step_def)

lemma still_pending_due [simp]: "still_pending s j ph \<longleftrightarrow> due s ph j"
  by (simp add: still_pending_def due_def)

subsection \<open>A new descriptor\<close>

lemma set_desc_simps [simp]:
  "knodes (set_desc s j p q e d) = knodes s" "khead (set_desc s j p q e d) = khead s"
  "ktail (set_desc s j p q e d) = ktail s" "kbrk (set_desc s j p q e d) = kbrk s"
  "khandle (set_desc s j p q e d) = khandle s" "kcursor (set_desc s j p q e d) = kcursor s"
  "kmax (set_desc s j p q e d) = kmax s" "length (kstate (set_desc s j p q e d)) = length (kstate s)"
  "i \<noteq> j \<Longrightarrow> slot (set_desc s j p q e d) i = slot s i"
  "j < length (kstate s) \<Longrightarrow> slot (set_desc s j p q e d) j =
     \<lparr>phase = p, pending = q, enqueue = e, dnode = d, dver = Suc (dver (slot s j))\<rparr>"
  by (simp_all add: set_desc_def)

lemma same_nodes:
  assumes "knodes s' = knodes s" and "khead s' = khead s"
  shows "ktail s' = ktail s \<Longrightarrow> kbrk s' = kbrk s \<Longrightarrow> chain_ok s' g = chain_ok s g"
    and "claims_ok n s' g = claims_ok n s g" and "kp_abs s' g = kp_abs s g"
    and "slot s' i = slot s i \<Longrightarrow> kbrk s' = kbrk s \<Longrightarrow> slot_ok s' g i = slot_ok s g i"
    and "slot s' i = slot s i \<Longrightarrow> slot_status s' g i st = slot_status s g i st"
proof -
  show "slot s' i = slot s i \<Longrightarrow> slot_status s' g i st = slot_status s g i st"
  proof -
    assume s: "slot s' i = slot s i"
    then have "served s' i = served s i" using assms by (simp add: served_def)
    then show ?thesis using assms s by (simp add: slot_status_def)
  qed
qed (use assms in \<open>simp_all add: chain_ok_def claims_ok_def kp_abs_def kp_front_def slot_ok_def enq_desc_ok_def
      deq_desc_ok_def\<close>)

lemma desc_goes:
  assumes i: "kp_inv n s g" and j: "j < n" and s': "s' = set_desc s j (phase (slot s j)) q e d"
    and m: "slot_move t s g s' g j" and k: "slot_ok s' g j"
    and st: "\<And>st. act g j \<Longrightarrow> slot_status s g j st \<Longrightarrow> slot_status s' g j st"
  shows "kp_goes n t s g s' g"
proof -
  note N = same_nodes [of s' s]
  have e: "knodes s' = knodes s" "khead s' = khead s" "ktail s' = ktail s" "kbrk s' = kbrk s" "kmax s' = kmax s"
    "khandle s' = khandle s" "kcursor s' = kcursor s" "length (kstate s') = length (kstate s)"
    and o: "\<And>k. k \<noteq> j \<Longrightarrow> slot s' k = slot s k" using s' by simp_all
  have ph: "phase (slot s' k) = phase (slot s k)" for k
    using s' kp_inv_size [OF i] j by (cases "k = j") simp_all
  have "slot_ok s' g k" if "k < n" for k
    using kp_inv_slot [OF i that] k N(4) [OF e(1,2) o e(4)] by (cases "k = j") auto
  then have inv: "kp_inv n s' g" using i by (simp add: kp_inv_def N(1,2) e ph)
  have "slot_move t s g s' g k" for k
    using m slot_move.same [OF o [of k]] by (cases "k = j") auto
  then have "kp_rely t s g s' g"
    using kp_rely_refl [OF kp_inv_chain [OF i], of t] by (simp add: kp_rely_def e)
  moreover have "slot_status s g k st \<Longrightarrow> slot_status s' g k st" if "act g k" for k st
    using st [of st] N(5) [OF e(1,2) o [of k], of g st] that by (cases "k = j") auto
  then have "kp_effect s g s' g" by (intro kp_effect.silent) (simp_all add: N(3) [OF e(1,2)])
  ultimately show ?thesis using i inv e by (simp add: kp_goes_def kp_trans_def)
qed

subsection \<open>The loop of help\<close>

lemma not_due_own: "caller_ok s g t i oper ph \<Longrightarrow> \<not> due s ph i \<Longrightarrow> \<not> pending (slot s i)"
  by (simp add: caller_ok_def due_def)

lemma help_next_ok:
  assumes i: "kp_inv n s g" "caller_ok s g t i oper ph" and p: "passed s i j" "j < n" "\<not> due s ph j"
  shows "help_ok n s g i oper ph (help_next oper (length (kstate s)) (Suc j))"
proof -
  have q: "i < Suc j \<longrightarrow> \<not> pending (slot s i)" using p(1,3) not_due_own [OF i(2)] by (auto simp: passed_def less_Suc_eq)
  have "i < n" using i kp_inv_handle [OF i(1), of t i] by (simp add: caller_ok_def)
  then have "\<not> Suc j < n \<Longrightarrow> \<not> pending (slot s i)" using q by simp
  then show ?thesis using q kp_inv_size [OF i(1)]
    by (auto simp: help_next_def passed_def owes_def last_owes_def split: queue_op.split)
qed

lemma resume_ok:
  assumes i: "kp_inv n s g" "caller_ok s g t i oper ph" and k: "kont_ok n s g i ph k" "owes s ph k (\<lambda>j. False)"
    and d: "k = KEnd \<longrightarrow> oper = Dequeue \<longrightarrow> claim s (khead s) \<noteq> int i"
  shows "kp_next n s g i oper ph (resume oper (length (kstate s)) k)"
proof (cases k)
  case (KNext j)
  then have "passed s i j" "j < n" "\<not> due s ph j" using k by (simp_all add: helps_def owes_def)
  from help_next_ok [OF i this] show ?thesis using KNext by simp
next
  case KEnd
  have h: "i < n" "khandle s t = Some i" "enqueue (slot s i) \<longleftrightarrow> oper \<noteq> Dequeue"
    using i kp_inv_handle [OF i(1), of t i] by (simp_all add: caller_ok_def)
  show ?thesis
  proof (cases oper)
    case (Enqueue v)
    then have "claim s (khead s) \<noteq> int i" using slot_okD(3) [OF kp_inv_slot [OF i(1) h(1)]] h(3) by auto
    then show ?thesis using KEnd Enqueue k h(3) by (auto simp: slot_status_def)
  qed (use KEnd k d in simp)
qed (use k in simp_all)

subsection \<open>helpEnq\<close>

lemma due_offers:
  assumes i: "kp_inv n s g" and h: "helps n s g j ph True" and d: "due s ph j"
  shows "\<exists>m. offers s j m \<and> enq_desc_ok s g j m"
proof -
  have "j < n" "enqueue (slot s j)" "pending (slot s j)" using h d by (simp_all add: helps_def due_def)
  then show ?thesis using slot_okD(1) [OF kp_inv_slot [OF i]] by (auto simp: offers_def)
qed

text \<open>An announced node that is linked comes right after \<open>tail\<close>.\<close>

lemma offered_linked:
  assumes i: "kp_inv n s g" and m: "enq_desc_ok s g j m" "m \<in> set (kseq g)"
  shows "knext (knodes s (ktail s)) = Some m" and "m = kseq g ! Suc (tix g)" and "enq_slot s m = j"
proof -
  have "Suc (tix g) < length (kseq g)" "m = kseq g ! Suc (tix g)" "enqTid (knodes s m) = int j"
    using m unfolding enq_desc_ok_def by blast+
  then show "knext (knodes s (ktail s)) = Some m" "m = kseq g ! Suc (tix g)" "enq_slot s m = j"
    using chain_okD(6) [OF kp_inv_chain [OF i]] chain_okD(8) [OF kp_inv_chain [OF i], of "tix g"]
    by (simp_all add: enq_slot_def)
qed

lemma due_unlinked:
  assumes i: "kp_inv n s g" and h: "helps n s g j ph True" and d: "due s ph j" and l: "reached g (tix g) l"
  shows "unlinked s g j l"
proof -
  obtain m where m: "offers s j m" "enq_desc_ok s g j m" using due_offers [OF i h d] by blast
  obtain k where k: "k \<le> tix g" "k < length (kseq g)" "l = kseq g ! k" using l by (auto simp: reached_def)
  have "m \<in> set (kseq g) \<Longrightarrow> knext (knodes s l) \<noteq> None"
    using m(2) k chain_okD(8) [OF kp_inv_chain [OF i] k(2)] by (simp add: enq_desc_ok_def)
  then show ?thesis using m(1) by (auto simp: unlinked_def)
qed

lemma front_bound:
  assumes "kp_inv n s g"
  shows "kp_front s g \<le> length (kseq g)"
  using chain_okD(2,3) [OF kp_inv_chain [OF assms]] claims_okD(5) [OF kp_inv_claims [OF assms]]
  by (auto simp: kp_front_def)

text \<open>The compare-and-swap that links the node \<open>m\<close> of slot \<open>j\<close> after the last node \<open>l\<close>.\<close>

lemma link_goes:
  assumes i: "kp_inv n s g" and j: "j < n" and l: "reached g (tix g) l" "knext (knodes s l) = None"
    and m: "offers s j m" "enq_desc_ok s g j m" "m \<notin> set (kseq g)"
    and s': "s' = s\<lparr>knodes := (knodes s)(l := (knodes s l)\<lparr>knext := Some m\<rparr>)\<rparr>"
    and g': "g' = g\<lparr>kseq := kseq g @ [m]\<rparr>"
  shows "kp_goes n t s g s' g'"
proof -
  note C = kp_inv_chain [OF i] and CL = kp_inv_claims [OF i]
  obtain k where k: "k \<le> tix g" "k < length (kseq g)" "l = kseq g ! k" using l by (auto simp: reached_def)
  have "\<not> Suc k < length (kseq g)" using chain_okD(8) [OF C k(2)] k(3) l(2) by auto
  then have len: "length (kseq g) = Suc (tix g)" and "k = tix g" using k chain_okD(3) [OF C] by simp_all
  then have lt: "l = kseq g ! tix g" using k(3) by simp
  have mf: "m < kbrk s" "knext (knodes s m) = None" "claim s m = noTid" "enqTid (knodes s m) = int j"
    using m(2,3) by (auto simp: enq_desc_ok_def)
  have lm: "l \<noteq> m" using k m(3) by auto
  have nodes: "claim s' x = claim s x" "enqTid (knodes s' x) = enqTid (knodes s x)" "kvalue (knodes s' x) = kvalue (knodes s x)"
    "knext (knodes s' x) = (if x = l then Some m else knext (knodes s x))" for x
    using s' by simp_all
  have same: "kstate s' = kstate s" "khead s' = khead s" "ktail s' = ktail s" "kbrk s' = kbrk s" "kmax s' = kmax s"
    "khandle s' = khandle s" "kcursor s' = kcursor s" "kseq g' = kseq g @ [m]" "hix g' = hix g" "tix g' = tix g"
    "act g' = act g" "who g' = who g" "seen g' = seen g" "sawe g' = sawe g" using s' g' by simp_all
  have nth: "kseq g' ! x = kseq g ! x" if "x < length (kseq g)" for x using that same by (simp add: nth_append)
  have chain: "chain_ok s' g'"
  proof -
    have "kseq g' ! x < kbrk s' \<and>
        knext (knodes s' (kseq g' ! x)) = (if Suc x < length (kseq g') then Some (kseq g' ! Suc x) else None)"
      if x: "x < length (kseq g')" for x
    proof (cases "x = length (kseq g)")
      case True
      then show ?thesis using mf(1,2) lm same nodes by simp
    next
      case False
      then have x': "x < length (kseq g)" using x same by simp
      have "kseq g ! x = l \<longleftrightarrow> x = tix g" using position_unique [OF chain_okD(1) [OF C] x'] len lt by auto
      then show ?thesis using chain_okD(7,8) [OF C x'] x' len same nodes nth by (auto simp: nth_append)
    qed
    then show ?thesis using chain_okD(1-6) [OF C] m(3) same nth len by (simp add: chain_ok_def)
  qed
  have claims: "claims_ok n s' g'"
  proof -
    have "(x < hix g' \<longrightarrow> claim s' (kseq g' ! x) \<noteq> noTid) \<and> (hix g' < x \<longrightarrow> claim s' (kseq g' ! x) = noTid) \<and>
       (claim s' (kseq g' ! x) \<noteq> noTid \<longrightarrow> (\<exists>j < n. claim s' (kseq g' ! x) = int j)) \<and>
       (0 < x \<longrightarrow> (\<exists>j < n. enqTid (knodes s' (kseq g' ! x)) = int j))" if x: "x < length (kseq g')" for x
    proof (cases "x = length (kseq g)")
      case True
      then have "kseq g' ! x = m" using same by simp
      then show ?thesis using True mf j same(9) nodes chain_okD(2) [OF C] len by simp
    next
      case False
      then have x': "x < length (kseq g)" using x same by simp
      then show ?thesis using claims_okD(1-4) [OF CL x'] nth [OF x'] same nodes by auto
    qed
    then show ?thesis using claims_okD(5) [OF CL] same nodes by (simp add: claims_ok_def)
  qed
  have new: "mi \<notin> set (kseq g)" if "enq_desc_ok s g x mi" for x mi
    using that len by (auto simp: enq_desc_ok_def)
  have slots: "slot_ok s' g' x" if x: "x < n" for x
  proof -
    have "enq_desc_ok s' g' x mi" if e: "enq_desc_ok s g x mi" for mi
      using e new [OF e] len same nodes k(2,3) by (auto simp: enq_desc_ok_def nth_append)
    moreover have "deq_desc_ok s' g' x q f" if "deq_desc_ok s g x q f" for q f
      using that len same nodes nth by (fastforce simp: deq_desc_ok_def)
    ultimately show ?thesis using kp_inv_slot [OF i x] same nodes by (auto simp: slot_ok_def)
  qed
  have inv: "kp_inv n s' g'" using i chain claims slots same by (simp add: kp_inv_def)
  have "slot_move t s g s' g' x" for x using same by (intro slot_move.same) simp_all
  then have rely: "kp_rely t s g s' g'"
    using same nodes l(2) chain_okD(2,3) [OF C] by (auto simp: kp_rely_def)
  have act: "act g j" using pending_active [OF i j] m(1) by (simp add: offers_def)
  have served: "served s' x \<longleftrightarrow> served s x" for x using same nodes by (simp add: served_def)
  have eff: "kp_effect s g s' g'"
  proof (rule kp_effect.takes [OF act])
    show "pending (slot s j)" using m(1) by (simp add: offers_def)
    show "slot_status s' g' x st" if x: "act g x" "x \<noteq> j" "slot_status s g x st" for x st
    proof (cases "enqueue (slot s x)")
      case True
      then obtain mi where mi: "dnode (slot s x) = Some mi"
        "if pending (slot s x) \<and> mi \<notin> set (kseq g) then \<exists>R. st = Wait (Apply (Enqueue (kvalue (knodes s mi)))) R
         else st = Done (Reply Ack)" using x(3) by (auto simp: slot_status_def)
      have "pending (slot s x) \<Longrightarrow> mi \<noteq> m"
        using slot_okD(1) [OF kp_inv_slot [OF i kp_inv_act [OF i x(1)]] True] mi(1) mf(4) x(2) by (auto simp: enq_desc_ok_def)
      then show ?thesis using True mi same nodes by (auto simp: slot_status_def split: if_splits)
    next
      case False
      then show ?thesis using x(3) same nodes served l(2) by (auto simp: slot_status_def split: if_splits)
    qed
    show "\<exists>R. st = Wait (Apply (Enqueue (kvalue (knodes s m)))) R" if "slot_status s g j st" for st
      using that m(1,3) by (auto simp: slot_status_def offers_def)
    have "kp_front s' g' = kp_front s g" using same nodes by (simp add: kp_front_def)
    then show "queue_spec (kp_abs s g) (Enqueue (kvalue (knodes s m))) = (kp_abs s' g', Ack)"
      using front_bound [OF i] same(8) nodes(3) by (simp add: kp_abs_def)
    show "slot_status s' g' j (Done (Reply Ack))" using m(1) same by (simp add: slot_status_def offers_def)
  qed
  show ?thesis using i inv rely eff same by (simp add: kp_goes_def kp_trans_def)
qed

lemma tail_goes:
  assumes i: "kp_inv n s g" and f: "follows_tail s g (ktail s) nx" and o: "\<not> offers s (enq_slot s nx) nx"
  shows "kp_goes n t s g (s\<lparr>ktail := nx\<rparr>) (g\<lparr>tix := Suc (tix g)\<rparr>)" (is "kp_goes n t s g ?s ?g")
proof -
  note C = kp_inv_chain [OF i] and CL = kp_inv_claims [OF i]
  obtain k where k: "k \<le> tix g" "ktail s = kseq g ! k" "Suc k < length (kseq g)" "nx = kseq g ! Suc k"
    by (rule follows_position [OF i f])
  have "k = tix g" using position_unique [OF chain_okD(1) [OF C], of k "tix g"] k chain_okD(3,6) [OF C] by simp
  then have nx: "Suc (tix g) < length (kseq g)" "nx = kseq g ! Suc (tix g)" using k by simp_all
  have "enq_desc_ok ?s ?g x m" if "x < n" "pending (slot s x)" "enqueue (slot s x)" "dnode (slot s x) = Some m" "enq_desc_ok s g x m" for x m
  proof -
    have "m \<notin> set (kseq g)"
    proof
      assume "m \<in> set (kseq g)"
      from offered_linked [OF i that(5) this] have "m = nx" "enq_slot s nx = x" using nx by simp_all
      then show False using o that by (simp add: offers_def)
    qed
    then show ?thesis using that(5) by (simp add: enq_desc_ok_def)
  qed
  moreover have "deq_desc_ok s g x q m \<Longrightarrow> deq_desc_ok ?s ?g x q m" for x q m
    by (auto simp: deq_desc_ok_def intro: less_SucI)
  ultimately have "slot_ok ?s ?g x" if "x < n" for x
    using kp_inv_slot [OF i that] that by (auto simp: slot_ok_def)
  moreover have "chain_ok ?s ?g" using C nx by (auto simp: chain_ok_def)
  moreover have "claims_ok n ?s ?g" using CL by (auto simp: claims_ok_def)
  ultimately have inv: "kp_inv n ?s ?g" using i by (simp add: kp_inv_def)
  have "kp_rely t s g ?s ?g"
    using chain_okD(2,3) [OF C] by (auto simp: kp_rely_def intro: slot_move.same)
  moreover have "served ?s x = served s x" for x by (simp add: served_def)
  then have "slot_status ?s ?g x st = slot_status s g x st" for x st by (simp add: slot_status_def)
  then have "kp_effect s g ?s ?g" by (intro kp_effect.silent) (simp_all add: kp_abs_def kp_front_def)
  ultimately show ?thesis using i inv by (simp add: kp_goes_def kp_trans_def)
qed

lemma enq_help_sim:
  assumes i: "kp_inv n s g" "caller_ok s g t i oper ph" and h: "helps n s g j ph True" "passed s i j" "enq_ok s g j p"
  shows "kp_sim_step n t i oper ph s g (enq_help_step oper ph j s p)"
proof -
  have j: "j < n" "j < length (kstate s)" using h(1) kp_inv_size [OF i(1)] by (simp_all add: helps_def)
  note C = kp_inv_chain [OF i(1)]
  have skip: "\<not> due s ph j \<Longrightarrow> help_ok n s g i oper ph (help_next oper (length (kstate s)) (Suc j))"
    by (rule help_next_ok [OF i h(2) j(1)])
  show ?thesis
  proof (cases p)
    case EPend
    then show ?thesis using j h skip by (auto simp: at_slot_def intro!: reads [OF i(1)])
  next
    case ETail
    have "reached g (tix g) (ktail s)" using chain_okD(3,6) [OF C] by (auto simp: reached_def)
    then show ?thesis using ETail h by (auto intro!: reads [OF i(1)])
  next
    case (ENext l)
    then show ?thesis using h by (auto intro!: reads [OF i(1)])
  next
    case (ESame l nx)
    then show ?thesis using h by (auto simp: owes_def intro!: reads [OF i(1)])
  next
    case (EPend2 l)
    then show ?thesis using j h skip due_unlinked [OF i(1) h(1)] by (auto simp: at_slot_def intro!: reads [OF i(1)])
  next
    case (ENode l)
    then show ?thesis using j h by (auto simp: at_slot_def intro!: reads [OF i(1)])
  next
    case (ECas l nd)
    show ?thesis
    proof (cases "knext (knodes s l) = None")
      case False
      then show ?thesis using ECas h by (auto intro!: reads [OF i(1)])
    next
      case True
      have r: "reached g (tix g) l" "unlinked s g j l" "dnode (slot s j) = nd" using ECas h(3) True by simp_all
      obtain m where m: "offers s j m" "m \<notin> set (kseq g)" using r(2) True by (auto simp: unlinked_def)
      have "enq_desc_ok s g j m" using slot_okD(1) [OF kp_inv_slot [OF i(1) j(1)]] m(1) by (auto simp: offers_def)
      note G = link_goes [OF i(1) j(1) r(1) True m(1) this m(2) refl refl]
      have nd: "nd = Some m" using r(3) m(1) by (simp add: offers_def)
      show ?thesis
        using ECas True nd h(1,2) r(3) by (auto simp: helps_def passed_def owes_def intro!: kp_simI [OF G])
    qed
  qed
qed

subsection \<open>helpFinishEnq\<close>

text \<open>The steps with which a call of \<open>helpFinishEnq\<close> ends.\<close>

fun fin_enq_leaves :: "'a kp_queue \<Rightarrow> fin_enq_pc \<Rightarrow> bool" where
  "fin_enq_leaves s (NNext l) \<longleftrightarrow> knext (knodes s l) = None"
| "fin_enq_leaves s (NSame l nx cur) \<longleftrightarrow> l \<noteq> ktail s"
| "fin_enq_leaves s (NNode l nx cur) \<longleftrightarrow> dnode (slot s (enq_slot s nx)) \<noteq> Some nx"
| "fin_enq_leaves s (NMove l nx) \<longleftrightarrow> True"
| "fin_enq_leaves s _ \<longleftrightarrow> False"

lemma fin_enq_leaves_step:
  assumes "fin_enq_leaves s p" and "\<And>l nx cur. p = NNode l nx cur \<Longrightarrow> enq_slot s nx < length (kstate s)"
  shows "snd (fin_enq_step oper k s p) = resume oper (length (kstate s)) k"
  using assms by (cases p) (auto simp: at_slot_def)

lemma owed_offers:
  assumes "kp_inv n s g" and "kont_ok n s g i ph k" and "k = KNext j" and "due s ph j"
  shows "\<exists>m. dnode (slot s j) = Some m \<and> offers s j m \<and> enq_desc_ok s g j m"
  using due_offers [OF assms(1) _ assms(4)] assms(2,3) by (auto simp: offers_def)

lemma owed_slot:
  assumes i: "kp_inv n s g" and k: "kont_ok n s g i ph k" "k = KNext j" "due s ph j"
    and d: "dnode (slot s j) = Some nx" "nx \<in> set (kseq g)"
  shows "enq_slot s nx = j" and "offers s (enq_slot s nx) nx"
proof -
  obtain m where m: "dnode (slot s j) = Some m" "offers s j m" "enq_desc_ok s g j m" using owed_offers [OF i k] by blast
  then have "m = nx" using d(1) by simp
  then show e: "enq_slot s nx = j" using offered_linked(3) [OF i m(3)] d(2) by simp
  show "offers s (enq_slot s nx) nx" using e m(2) \<open>m = nx\<close> by simp
qed

text \<open>When it ends, the operation that it was called for is not pending.\<close>

lemma fin_enq_settles:
  assumes i: "kp_inv n s g" and h: "kont_ok n s g i ph k" "fin_enq_ok n s g ph k p" "fin_enq_leaves s p"
  shows "owes s ph k (\<lambda>j. False)"
  unfolding owes_def
proof (intro allI impI)
  fix j assume k: "k = KNext j" "due s ph j"
  obtain m where m: "dnode (slot s j) = Some m" "enq_desc_ok s g j m" using owed_offers [OF i h(1) k] by blast
  have o: "owes s ph k P \<Longrightarrow> P j" for P using k by (simp add: owes_def)
  show False
  proof (cases p)
    case (NNext l)
    have "(\<exists>m \<in> set (kseq g). dnode (slot s j) = Some m) \<and> l = ktail s" by (rule o) (use NNext h(2) in simp)
    then show False using offered_linked(1) [OF i m(2)] m(1) NNext h(3) by auto
  next
    case (NSame l nx cur)
    have "dnode (slot s j) = Some nx \<and> l = ktail s" by (rule o) (use NSame h(2) in simp)
    then show False using NSame h(3) by simp
  next
    case (NNode l nx cur)
    have d: "dnode (slot s j) = Some nx \<and> l = ktail s" by (rule o) (use NNode h(2) in simp)
    have d2: "follows_tail s g l nx" using NNode h(2) by simp
    have "enq_slot s nx = j" by (rule owed_slot(1) [OF i h(1) k _ follows_linked(1) [OF i d2]]) (use d in simp)
    then show False using NNode h(3) d by simp
  next
    case (NMove l nx)
    have "(\<lambda>j. False) j" by (rule o) (use NMove h(2) in simp)
    then show False by simp
  qed (use h(3) in simp_all)
qed

text \<open>The node after \<open>tail\<close> is not the candidate of a dequeue.\<close>

lemma not_candidate:
  assumes i: "kp_inv n s g" and f: "follows_tail s g (ktail s) nx" and e: "e < n" "\<not> enqueue (slot s e)"
  shows "dnode (slot s e) \<noteq> Some nx"
proof
  note C = kp_inv_chain [OF i]
  assume "dnode (slot s e) = Some nx"
  then have "deq_desc_ok s g e (pending (slot s e)) nx" using slot_okD(2) [OF kp_inv_slot [OF i e(1)] e(2)] by simp
  then obtain x where x: "x < tix g" "nx = kseq g ! x" by (auto simp: deq_desc_ok_def)
  obtain y where y: "y \<le> tix g" "ktail s = kseq g ! y" "Suc y < length (kseq g)" "nx = kseq g ! Suc y"
    by (rule follows_position [OF i f])
  have "y = tix g" using position_unique [OF chain_okD(1) [OF C], of y "tix g"] y chain_okD(3,6) [OF C] by simp
  then show False using position_unique [OF chain_okD(1) [OF C], of x "Suc y"] x y by simp
qed

text \<open>The compare-and-swap that completes an enqueue.\<close>

lemma enq_done_goes:
  assumes i: "kp_inv n s g" and e: "e < n" "enqueue (slot s e)" "dnode (slot s e) = Some m" "m \<in> set (kseq g)"
  shows "kp_goes n t s g (set_desc s e (phase (slot s e)) False True (Some m)) g" (is "kp_goes n t s g ?s g")
proof (rule desc_goes [OF i e(1) refl])
  have l: "e < length (kstate s)" using e(1) kp_inv_size [OF i] by simp
  show "slot_move t s g ?s g e" by (rule slot_move.enq_done [where m = m]) (use l e in simp_all)
  show "slot_ok ?s g e" using slot_okD(3) [OF kp_inv_slot [OF i e(1)]] l e by (auto simp: slot_ok_def)
  show "slot_status s g e st \<Longrightarrow> slot_status ?s g e st" for st using l e by (simp add: slot_status_def)
qed

lemma kont_ok_less:
  assumes "kp_trans n t s g s' g" and "kont_ok n s g i ph k" and "\<And>x. pending (slot s' x) \<Longrightarrow> pending (slot s x)"
  shows "kont_ok n s' g i ph k"
  using assms(2,3) helps_stable [OF assms(1)] by (cases k) (auto simp: passed_def)

lemma enq_cas_sim:
  assumes i: "kp_inv n s g" "caller_ok s g t i oper ph"
    and h: "kont_ok n s g i ph k" "fin_enq_ok n s g ph k (NCas l nx cur)" "k = KEnd \<longrightarrow> oper \<noteq> Dequeue"
  shows "kp_sim_step n t i oper ph s g (fin_enq_step oper k s (NCas l nx cur))"
proof -
  note size = kp_inv_size [OF i(1)]
  have f: "follows_tail s g l nx" "settled n s nx cur" "owes s ph k (\<lambda>j. dnode (slot s j) = Some nx \<and> l = ktail s)"
    "current s (enq_slot s nx) cur \<longrightarrow> enqueue cur \<and> dnode cur = Some nx" using h by simp_all
  define e where "e = enq_slot s nx"
  have e: "e < n" "e < length (kstate s)" "current s e cur \<Longrightarrow> slot s e = cur"
    using f(2) size by (simp_all add: settled_def held_def e_def)
  have nx: "nx \<in> set (kseq g)" by (rule follows_linked(1) [OF i(1) f(1)])
  have own: "k = KNext j \<Longrightarrow> due s ph j \<Longrightarrow> j = e \<and> offers s e nx" for j
    using owed_slot [OF i(1) h(1) _ _ _ nx, of j] f(3) unfolding owes_def e_def by simp
  show ?thesis
  proof (cases "current s e cur")
    case False
    then have "\<not> offers s e nx" using f(2) by (simp add: settled_def e_def)
    moreover from this have "owes s ph k (\<lambda>j. False)" using own unfolding owes_def by blast
    ultimately show ?thesis
      using h(1,3) f e False by (auto simp: at_slot_def desc_cas_def current_def e_def [symmetric] intro!: reads [OF i(1)])
  next
    case True
    have c: "slot s e = cur" "enqueue cur" "dnode cur = Some nx" using f(4) True e(3) by (simp_all add: e_def)
    define s' where "s' = set_desc s e (phase (slot s e)) False True (Some nx)"
    have G: "kp_goes n t s g s' g" unfolding s'_def using enq_done_goes [OF i(1) e(1)] c nx by simp
    have tr: "kp_trans n t s g s' g" using G by (simp add: kp_goes_def)
    have "\<not> offers s' e nx" using e by (simp add: offers_def s'_def)
    moreover have "\<not> due s' ph e" using e by (simp add: due_def s'_def)
    moreover have "due s' ph j \<Longrightarrow> j = e \<or> due s ph j" for j by (cases "j = e") (simp_all add: due_def s'_def)
    ultimately have p': "fin_enq_ok n s' g ph k (NMove l nx)"
      using follows_tail_stable [OF tr f(1)] own e_def by (auto simp: owes_def enq_slot_def s'_def)
    have "pending (slot s' x) \<Longrightarrow> pending (slot s x)" for x using e by (cases "x = e") (simp_all add: s'_def)
    then have "kont_ok n s' g i ph k" by (rule kont_ok_less [OF tr h(1)])
    then have "kp_next n s' g i oper ph (Busy (FinEnq k (NMove l nx)))" using p' h(3) by simp
    then show ?thesis
      using e True c kp_simI [OF G] by (simp add: at_slot_def desc_cas_def current_def e_def [symmetric] s'_def)
  qed
qed

lemma fin_enq_sim:
  assumes i: "kp_inv n s g" "caller_ok s g t i oper ph"
    and h: "kont_ok n s g i ph k" "fin_enq_ok n s g ph k p" "k = KEnd \<longrightarrow> oper \<noteq> Dequeue"
  shows "kp_sim_step n t i oper ph s g (fin_enq_step oper k s p)"
proof -
  note C = kp_inv_chain [OF i(1)] and size = kp_inv_size [OF i(1)]
  note settles = fin_enq_settles [OF i(1) h(1,2)]
  have ret: "kp_sim_step n t i oper ph s g (s, resume oper (length (kstate s)) k)" if "fin_enq_leaves s p"
    using settles [OF that] h(3) by (intro reads [OF i(1)] resume_ok [OF i h(1)]) auto
  note due = owed_offers [OF i(1) h(1)]
  show ?thesis
  proof (cases p)
    case NTail
    have "reached g (tix g) (ktail s)" using chain_okD(3,6) [OF C] by (auto simp: reached_def)
    then show ?thesis using NTail h by (auto simp: owes_def intro!: reads [OF i(1)])
  next
    case (NNext l)
    have o: "owes s ph k (\<lambda>j. (\<exists>m \<in> set (kseq g). dnode (slot s j) = Some m) \<and> l = ktail s)" "reached g (tix g) l"
      using h NNext by simp_all
    have nx: "knext (knodes s l) = Some m" if "offers s j m" "enq_desc_ok s g j m" "\<exists>m \<in> set (kseq g). dnode (slot s j) = Some m" "l = ktail s" for j m
      using offered_linked(1) [OF i(1) that(2)] that by (auto simp: offers_def)
    show ?thesis
    proof (cases "knext (knodes s l)")
      case None
      then show ?thesis using NNext ret by simp
    next
      case (Some nx')
      have "owes s ph k (\<lambda>j. dnode (slot s j) = Some nx' \<and> l = ktail s)"
        using o(1) due nx Some unfolding owes_def by fastforce
      then show ?thesis using NNext Some h o by (auto simp: follows_tail_def intro!: reads [OF i(1)])
    qed
  next
    case (NDesc l nx)
    then have f: "follows_tail s g l nx" using h by simp
    note F = follows_linked [OF i(1) f]
    then have "settled n s nx (slot s (enq_slot s nx))" by (simp add: settled_def held_def current_def)
    then have "kp_next n s g i oper ph (Busy (FinEnq k (NSame l nx (slot s (enq_slot s nx)))))" using NDesc h by simp
    from reads [OF i(1) this] show ?thesis using NDesc F size by (simp add: at_slot_def)
  next
    case (NSame l nx cur)
    then have f: "follows_tail s g l nx" "settled n s nx cur" "owes s ph k (\<lambda>j. dnode (slot s j) = Some nx \<and> l = ktail s)" using h by simp_all
    show ?thesis
    proof (cases "l = ktail s")
      case False
      then show ?thesis using NSame ret by simp
    next
      case True
      have "dnode cur \<noteq> Some nx" if "current s (enq_slot s nx) cur" "\<not> enqueue cur"
        using not_candidate [OF i(1), of nx "enq_slot s nx"] f(1,2) True that by (simp add: settled_def held_def)
      then show ?thesis using NSame True h by (auto intro!: reads [OF i(1)])
    qed
  next
    case (NNode l nx cur)
    then have f: "follows_tail s g l nx" "settled n s nx cur" "owes s ph k (\<lambda>j. dnode (slot s j) = Some nx \<and> l = ktail s)"
      "current s (enq_slot s nx) cur \<longrightarrow> \<not> enqueue cur \<longrightarrow> dnode cur \<noteq> Some nx" using h by simp_all
    have e: "enq_slot s nx < length (kstate s)" "current s (enq_slot s nx) cur \<Longrightarrow> slot s (enq_slot s nx) = cur"
      using f(2) size by (simp_all add: settled_def held_def)
    show ?thesis
    proof (cases "dnode (slot s (enq_slot s nx)) = Some nx")
      case True
      then show ?thesis using NNode h e f by (auto simp: at_slot_def intro!: reads [OF i(1)])
    next
      case False
      then show ?thesis using NNode e ret by (simp add: at_slot_def)
    qed
  next
    case (NCas l nx cur)
    then show ?thesis using enq_cas_sim [OF i h(1) _ h(3)] h(2) by blast
  next
    case (NMove l nx)
    then have f: "follows_tail s g l nx" "owes s ph k (\<lambda>j. False)" "ktail s = l \<longrightarrow> \<not> offers s (enq_slot s nx) nx" using h by simp_all
    show ?thesis
    proof (cases "ktail s = l")
      case False
      then show ?thesis using NMove ret by simp
    next
      case True
      note G = tail_goes [OF i(1), of nx t]
      have g: "kp_goes n t s g (s\<lparr>ktail := nx\<rparr>) (g\<lparr>tix := Suc (tix g)\<rparr>)" using G f True by simp
      have "kp_inv n (s\<lparr>ktail := nx\<rparr>) (g\<lparr>tix := Suc (tix g)\<rparr>)" using g by (simp add: kp_goes_def kp_trans_def)
      moreover have "caller_ok (s\<lparr>ktail := nx\<rparr>) (g\<lparr>tix := Suc (tix g)\<rparr>) t i oper ph" using i(2) by (simp add: caller_ok_def)
      moreover have "kont_ok n (s\<lparr>ktail := nx\<rparr>) (g\<lparr>tix := Suc (tix g)\<rparr>) i ph k"
        using h(1) by (cases k) (simp_all add: helps_def passed_def)
      moreover have "owes (s\<lparr>ktail := nx\<rparr>) ph k (\<lambda>j. False)" using f(2) by (simp add: owes_def due_def)
      ultimately have "kp_next n (s\<lparr>ktail := nx\<rparr>) (g\<lparr>tix := Suc (tix g)\<rparr>) i oper ph (resume oper (length (kstate (s\<lparr>ktail := nx\<rparr>))) k)"
        by (rule resume_ok) (use h(3) in simp)
      then show ?thesis using NMove True kp_simI [OF g] by simp
    qed
  qed
qed

end
