(* ===== verification/Kp_Deq.thy ===== *)
theory Kp_Deq
  imports Kp_Enq
begin

text \<open>
  The Kogan-Petrank queue: the steps of \<open>helpDeq\<close> and \<open>helpFinishDeq\<close> and the end of \<open>deq\<close>.
\<close>

subsection \<open>The candidate of a dequeue\<close>

lemma pending_candidate:
  assumes i: "kp_inv n s g" and j: "j < n" "\<not> enqueue (slot s j)" "pending (slot s j)" "dnode (slot s j) = Some f"
  shows "f \<in> set (kseq g)" and "claim s f = int j \<Longrightarrow> f = khead s"
    and "f \<noteq> khead s \<Longrightarrow> claim s f \<noteq> noTid \<and> claim s f \<noteq> int j"
proof -
  note C = kp_inv_chain [OF i] and CL = kp_inv_claims [OF i]
  have d: "deq_desc_ok s g j True f" using slot_okD(2) [OF kp_inv_slot [OF i j(1)] j(2,4)] j(3) by simp
  then obtain k where k: "k \<le> hix g" "k < tix g" "f = kseq g ! k" by (auto simp: deq_desc_ok_def)
  have kl: "k < length (kseq g)" using k(2) chain_okD(3) [OF C] by simp
  show "f \<in> set (kseq g)" using k(3) kl by simp
  show c: "claim s f = int j \<Longrightarrow> f = khead s" using d by (simp add: deq_desc_ok_def)
  assume n: "f \<noteq> khead s"
  then have "k < hix g" using k chain_okD(5) [OF C] by (cases "k = hix g") auto
  then show "claim s f \<noteq> noTid \<and> claim s f \<noteq> int j" using claims_okD(1) [OF CL kl] k(3) c n by auto
qed

lemma head_pos: "kp_inv n s g \<Longrightarrow> khead s = kseq g ! hix g \<and> hix g < length (kseq g)"
  using chain_okD(2,3,5) [OF kp_inv_chain] by (metis order.strict_trans1)

lemma reached_khead: "kp_inv n s g \<Longrightarrow> reached g (hix g) (khead s)"
  using head_pos unfolding reached_def by (metis order.refl)

lemma head_index:
  assumes "kp_inv n s g" and "k < length (kseq g)" and "kseq g ! k = khead s"
  shows "k = hix g"
  using position_unique [OF chain_okD(1) [OF kp_inv_chain [OF assms(1)]] assms(2)] head_pos [OF assms(1)] assms(3) by simp

lemma head_before_tail:
  assumes "kp_inv n s g" and "before_tail g (khead s)"
  shows "hix g < tix g" and "Suc (hix g) < length (kseq g)" and "knext (knodes s (khead s)) = Some (kseq g ! Suc (hix g))"
proof -
  obtain k where k: "k < tix g" "k < length (kseq g)" "kseq g ! k = khead s" using assms(2) by (auto simp: before_tail_def)
  have "k = hix g" by (rule head_index [OF assms(1) k(2,3)])
  then show h: "hix g < tix g" using k by simp
  note C = kp_inv_chain [OF assms(1)]
  show l: "Suc (hix g) < length (kseq g)" using h chain_okD(3) [OF C] by simp
  then show "knext (knodes s (khead s)) = Some (kseq g ! Suc (hix g))"
    using chain_okD(8) [OF C, of "hix g"] head_pos [OF assms(1)] by simp
qed

lemma not_served:
  assumes i: "kp_inv n s g" and j: "j < n" "wants s j f" and c: "claim s f \<noteq> int j"
  shows "\<not> served s j"
  using j c by (auto simp: served_def wants_def)

subsection \<open>Steps that change the ghost state only\<close>

text \<open>An empty queue is seen for the dequeue in slot \<open>j\<close>.\<close>

lemma sawe_goes:
  assumes i: "kp_inv n s g" and j: "j < n" "pending (slot s j)" "\<not> enqueue (slot s j)"
    and e: "reached g (hix g) f" "knext (knodes s f) = None"
  shows "kp_goes n t s g s (g\<lparr>sawe := (sawe g)(j := True)\<rparr>)" (is "kp_goes n t s g s ?g")
proof -
  note C = kp_inv_chain [OF i]
  obtain k where k: "k \<le> hix g" "k < length (kseq g)" "f = kseq g ! k" using e(1) by (auto simp: reached_def)
  have "\<not> Suc k < length (kseq g)" using chain_okD(8) [OF C k(2)] k(3) e(2) by auto
  then have h: "hix g = tix g" "length (kseq g) = Suc (hix g)" using k chain_okD(2,3) [OF C] by simp_all
  have cl: "claim s (khead s) = noTid" using claims_okD(5) [OF kp_inv_claims [OF i]] h by auto
  have ns: "\<not> served s j"
    using pending_candidate(2) [OF i j(1,3,2)] cl by (auto simp: served_def)
  have "slot_ok s ?g x = slot_ok s g x" for x by (simp add: slot_ok_def enq_desc_ok_def deq_desc_ok_def)
  then have inv: "kp_inv n s ?g" using i by (simp add: kp_inv_def chain_ok_def claims_ok_def)
  have "slot_move t s g s ?g x" for x by (auto intro: slot_move.same)
  then have rely: "kp_rely t s g s ?g" using chain_okD(2,3) [OF C] by (simp add: kp_rely_def)
  have "kp_abs s g = []" using h(2) cl by (simp add: kp_abs_def kp_front_def)
  moreover have "kp_abs s ?g = kp_abs s g" by (simp add: kp_abs_def kp_front_def)
  ultimately have "kp_effect s g s ?g"
    using j ns pending_active [OF i j(1,2)] by (intro kp_effect.empty [where j = j]) (auto simp: slot_status_def)
  then show ?thesis using i inv rely by (simp add: kp_goes_def kp_trans_def)
qed

text \<open>A helper with phase \<open>ph\<close> comes to slot \<open>j\<close>.\<close>

lemma seen_goes:
  assumes i: "kp_inv n s g" and j: "j < n" "pending (slot s j)" and c: "caller_ok s g t i' oper ph"
  shows "kp_goes n t s g s (g\<lparr>seen := (seen g)(j := max (seen g j) ph)\<rparr>)" (is "kp_goes n t s g s ?g")
proof -
  note C = kp_inv_chain [OF i]
  have i': "i' < n" "phase (slot s i') = ph" using c kp_inv_handle [OF i, of t i'] by (simp_all add: caller_ok_def)
  have "slot_ok s ?g x = slot_ok s g x" for x by (simp add: slot_ok_def enq_desc_ok_def deq_desc_ok_def)
  moreover have "\<exists>k < n. seen ?g x \<le> phase (slot s k)" if "x < n" for x
    using kp_inv_seen [OF i that] i' by (cases "x = j"; cases "seen g j \<le> ph") auto
  ultimately have inv: "kp_inv n s ?g" using i by (simp add: kp_inv_def chain_ok_def claims_ok_def)
  have "slot_move t s g s ?g x" for x by (auto intro: slot_move.same)
  then have rely: "kp_rely t s g s ?g" using chain_okD(2,3) [OF C] j(2) by (simp add: kp_rely_def)
  have "slot_status s ?g x st = slot_status s g x st" for x st by (simp add: slot_status_def)
  then have "kp_effect s g s ?g" by (intro kp_effect.silent) (simp_all add: kp_abs_def kp_front_def)
  then show ?thesis using i inv rely by (simp add: kp_goes_def kp_trans_def)
qed

subsection \<open>The claim and the move of head\<close>

lemma claim_goes:
  assumes i: "kp_inv n s g" and j: "j < n" "wants s j f" and f: "before_tail g f" "reached g (hix g) f" "claim s f = noTid"
    and s': "s' = s\<lparr>knodes := (knodes s)(f := (knodes s f)\<lparr>deqTid := int j\<rparr>)\<rparr>"
  shows "kp_goes n t s g s' g"
proof -
  note C = kp_inv_chain [OF i] and CL = kp_inv_claims [OF i]
  have h: "khead s = f" by (rule unclaimed_head [OF C CL f(2,3)])
  note B = head_before_tail [OF i, unfolded h, OF f(1)] and P = head_pos [OF i]
  have w: "pending (slot s j)" "\<not> enqueue (slot s j)" "dnode (slot s j) = Some f" using j(2) by (simp_all add: wants_def)
  have nodes: "enqTid (knodes s' x) = enqTid (knodes s x)" "kvalue (knodes s' x) = kvalue (knodes s x)"
    "knext (knodes s' x) = knext (knodes s x)" "claim s' x = (if x = f then int j else claim s x)" for x
    using s' by simp_all
  have same: "kstate s' = kstate s" "khead s' = khead s" "ktail s' = ktail s" "kbrk s' = kbrk s" "kmax s' = kmax s"
    "khandle s' = khandle s" "kcursor s' = kcursor s" using s' by simp_all
  have chain: "chain_ok s' g" using C nodes same by (simp add: chain_ok_def)
  have "kseq g ! x = f \<Longrightarrow> x < length (kseq g) \<Longrightarrow> x = hix g" for x using head_index [OF i] h by simp
  then have claims: "claims_ok n s' g" using CL nodes same B(1) j(1) unfolding claims_ok_def by auto
  have slots: "slot_ok s' g x" if x: "x < n" for x
  proof -
    note S = slot_okD [OF kp_inv_slot [OF i x]]
    have "enq_desc_ok s' g x m" if "enq_desc_ok s g x m" for m
      using that nodes same reached_set [OF f(2)] by (auto simp: enq_desc_ok_def)
    moreover have "deq_desc_ok s' g x q m" if "deq_desc_ok s g x q m" for q m
      using that nodes same f(3) h by (auto simp: deq_desc_ok_def split: if_splits)
    moreover have "act g j" using pending_active [OF i j(1) w(1)] .
    ultimately show ?thesis using S w nodes same h f(3) unfolding slot_ok_def by auto
  qed
  have inv: "kp_inv n s' g" using i chain claims slots same by (simp add: kp_inv_def)
  have "slot_move t s g s' g x" for x using same by (intro slot_move.same) simp_all
  then have rely: "kp_rely t s g s' g"
    using same nodes chain_okD(2,3) [OF C] w f(3) h by (auto simp: kp_rely_def)
  have act: "act g j" using pending_active [OF i j(1) w(1)] .
  have eff: "kp_effect s g s' g"
  proof (rule kp_effect.takes [OF act w(1)])
    fix x st assume x: "x \<noteq> j" "slot_status s g x st"
    then have "claim s' y = int x \<longleftrightarrow> claim s y = int x" for y using nodes(4) f(3) by auto
    then have "served s' x \<longleftrightarrow> served s x" using same(1) by (simp add: served_def)
    then have "slot_status s' g x st = slot_status s g x st" using nodes same by (simp add: slot_status_def)
    then show "slot_status s' g x st" using x(2) by simp
  next
    show "\<exists>R. st = Wait (Apply Dequeue) R" if "slot_status s g j st" for st
      using that w f(3) by (auto simp: slot_status_def served_def split: if_splits)
    have "kp_front s g = Suc (hix g)" "kp_front s' g = Suc (Suc (hix g))" using f(3) h nodes same by (simp_all add: kp_front_def)
    then show "queue_spec (kp_abs s g) Dequeue = (kp_abs s' g, Got (Some (kvalue (knodes s (kseq g ! Suc (hix g))))))"
      using B(2) nodes by (simp add: kp_abs_def Cons_nth_drop_Suc [symmetric])
    show "slot_status s' g j (Done (Reply (Got (Some (kvalue (knodes s (kseq g ! Suc (hix g))))))))"
      using w B(3) h nodes same by (auto simp: slot_status_def served_def)
  qed
  show ?thesis using i inv rely eff same by (simp add: kp_goes_def kp_trans_def)
qed

lemma head_goes:
  assumes i: "kp_inv n s g" and f: "claim s (khead s) = int j" "j < n" "\<not> pending (slot s j)"
    and m: "knext (knodes s (khead s)) = Some m"
  shows "kp_goes n t s g (s\<lparr>khead := m\<rparr>) (g\<lparr>hix := Suc (hix g)\<rparr>)" (is "kp_goes n t s g ?s ?g")
    and "claim s m = noTid"
proof -
  note C = kp_inv_chain [OF i] and CL = kp_inv_claims [OF i] and P = head_pos [OF i]
  have h: "hix g < tix g" using claims_okD(5) [OF CL] f(1) by simp
  then have l: "Suc (hix g) < length (kseq g)" using chain_okD(3) [OF C] by simp
  have mm: "m = kseq g ! Suc (hix g)" using chain_okD(8) [OF C, of "hix g"] P l m by simp
  show cm: "claim s m = noTid" using claims_okD(2) [OF CL l] mm by simp
  have chain: "chain_ok ?s ?g" using C h mm by (simp add: chain_ok_def)
  have claims: "claims_ok n ?s ?g"
  proof -
    have "x < Suc (hix g) \<Longrightarrow> claim s (kseq g ! x) \<noteq> noTid" if "x < length (kseq g)" for x
      using claims_okD(1) [OF CL that] P f(1) by (cases "x = hix g") auto
    then show ?thesis using claims_okD(2-4) [OF CL] cm by (simp add: claims_ok_def)
  qed
  have slots: "slot_ok ?s ?g x" if x: "x < n" for x
  proof -
    note S = slot_okD [OF kp_inv_slot [OF i x]]
    have "deq_desc_ok ?s ?g x (pending (slot s x)) y" if d: "deq_desc_ok s g x (pending (slot s x)) y" for y
    proof -
      obtain k where k: "k \<le> hix g" "k < tix g" "y = kseq g ! k" using d by (auto simp: deq_desc_ok_def)
      have "pending (slot s x) \<Longrightarrow> claim s y \<noteq> int x" using d f by (auto simp: deq_desc_ok_def)
      then show ?thesis using d k by (auto simp: deq_desc_ok_def intro: le_SucI split: if_splits)
    qed
    then show ?thesis using S cm by (auto simp: slot_ok_def enq_desc_ok_def)
  qed
  have inv: "kp_inv n ?s ?g" using i chain claims slots by (simp add: kp_inv_def)
  have "slot_move t s g ?s ?g x" for x by (intro slot_move.same) simp_all
  then have rely: "kp_rely t s g ?s ?g" using l by (simp add: kp_rely_def)
  have "served ?s x = served s x" for x by (simp add: served_def)
  then have "slot_status ?s ?g x st = slot_status s g x st" for x st by (simp add: slot_status_def)
  then have "kp_effect s g ?s ?g" using f(1) cm by (intro kp_effect.silent) (simp_all add: kp_abs_def kp_front_def)
  then show "kp_goes n t s g ?s ?g" using i inv rely by (simp add: kp_goes_def kp_trans_def)
qed

subsection \<open>helpDeq\<close>

lemma deq_pending_goes:
  assumes i: "kp_inv n s g" and j: "j < n" "slot s j = cur" "\<not> enqueue cur" "pending cur" "stale s g j cur"
    and d: "d = (if q then Some f else None)" "q \<Longrightarrow> reached g (hix g) f \<and> before_tail g f \<and> claim s f \<noteq> int j"
    and w: "\<not> q \<Longrightarrow> sawe g j" and s': "s' = set_desc s j (phase cur) q False d"
  shows "kp_goes n t s g s' g"
proof (rule desc_goes [OF i j(1)])
  have l: "j < length (kstate s)" using j(1) kp_inv_size [OF i] by simp
  have s: "slot s' j = \<lparr>phase = phase cur, pending = q, enqueue = False, dnode = d, dver = Suc (dver (slot s j))\<rparr>"
    "knodes s' = knodes s" "khead s' = khead s" using s' l by simp_all
  show "s' = set_desc s j (phase (slot s j)) q False d" using s' j(2) by simp
  have st: "\<forall>f. dnode (slot s j) = Some f \<longrightarrow> f \<in> set (kseq g) \<and> claim s f \<noteq> noTid \<and> claim s f \<noteq> int j"
    using j(2,5) by (simp add: stale_def)
  show "slot_move t s g s' g j"
    by (rule slot_move.retried) (use s j(2-4) st in simp_all)
  have act: "act g j" using pending_active [OF i j(1)] j(2,4) by simp
  have "claim s (khead s) \<noteq> int j" using slot_okD(3) [OF kp_inv_slot [OF i j(1)]] st by blast
  moreover have "deq_desc_ok s' g j True f" if q
  proof -
    have r: "reached g (hix g) f" "before_tail g f" using d(2) [OF that] by simp_all
    obtain k where "k \<le> hix g" "k < length (kseq g)" "kseq g ! k = f" using r(1) by (auto simp: reached_def)
    moreover obtain k' where "k' < tix g" "k' < length (kseq g)" "kseq g ! k' = f" using r(2) by (auto simp: before_tail_def)
    moreover from calculation have "k = k'" using position_unique [OF chain_okD(1) [OF kp_inv_chain [OF i]]] by blast
    ultimately show ?thesis using d(2) that s by (auto simp: deq_desc_ok_def)
  qed
  ultimately show "slot_ok s' g j" using act s d(1) by (auto simp: slot_ok_def)
  fix r assume "slot_status s g j r"
  moreover have "\<not> served s j" using st by (auto simp: served_def)
  moreover have "\<not> served s' j" using s d by (auto simp: served_def)
  ultimately show "slot_status s' g j r" using s j(2-4) w by (auto simp: slot_status_def)
qed

text \<open>What the tests before the three compare-and-swaps on a descriptor ensure.\<close>

lemma tail_stale:
  assumes i: "kp_inv n s g" and j: "j < n" "slot s j = cur" "\<not> enqueue cur" "pending cur" and l: "reached g (hix g) (ktail s)"
  shows "stale s g j cur"
  unfolding stale_def
proof (intro allI impI)
  fix f assume f: "dnode cur = Some f"
  note C = kp_inv_chain [OF i]
  have e: "\<not> enqueue (slot s j)" "pending (slot s j)" "dnode (slot s j) = Some f" using j(2-4) f by simp_all
  note N = pending_candidate [OF i j(1) e]
  obtain k where k: "k \<le> hix g" "k < length (kseq g)" "kseq g ! k = ktail s" using l by (auto simp: reached_def)
  have "k = tix g" using position_unique [OF chain_okD(1) [OF C] k(2)] k(3) chain_okD(3,6) [OF C] by simp
  then have ht: "hix g = tix g" using k(1) chain_okD(2) [OF C] by simp
  have "deq_desc_ok s g j True f" using slot_okD(2) [OF kp_inv_slot [OF i j(1)] e(1,3)] e(2) by simp
  then obtain x where x: "x < tix g" "f = kseq g ! x" by (auto simp: deq_desc_ok_def)
  then have "x < length (kseq g)" using chain_okD(3) [OF C] by simp
  then have "f \<noteq> khead s" using head_index [OF i, of x] x ht by auto
  with N show "f \<in> set (kseq g) \<and> claim s f \<noteq> noTid \<and> claim s f \<noteq> int j" by simp
qed

lemma first_stale:
  assumes i: "kp_inv n s g" and j: "j < n" "slot s j = cur" "\<not> enqueue cur" "pending cur"
    and f: "f = khead s" "dnode cur \<noteq> Some f"
  shows "stale s g j cur \<and> claim s f \<noteq> int j"
proof -
  have "claim s f \<noteq> int j" using slot_okD(3) [OF kp_inv_slot [OF i j(1)]] f j(2) by auto
  moreover have "\<not> enqueue (slot s j)" "pending (slot s j)" using j by simp_all
  note N = pending_candidate [OF i j(1) this]
  moreover have "y \<noteq> khead s" if "dnode cur = Some y" for y using f that by auto
  ultimately show ?thesis using N(1,3) unfolding stale_def j(2) by blast
qed

lemma announced_hit:
  assumes "kp_inv n s g" and "j < n"
  shows "hit s j f (slot s j)"
proof -
  have "pending (slot s j)" if a: "\<not> enqueue (slot s j)" "dnode (slot s j) = Some f" "claim s f = noTid"
    using slot_okD(2) [OF kp_inv_slot [OF assms] a(1,2)] a(3) by (auto simp: deq_desc_ok_def split: if_splits)
  then show ?thesis by (simp add: hit_def wants_def)
qed

lemma deq_help_sim:
  assumes i: "kp_inv n s g" "caller_ok s g t i oper ph" and h: "helps n s g j ph False" "passed s i j" "deq_ok n s g ph j p"
  shows "kp_sim_step n t i oper ph s g (deq_help_step oper ph j s p)"
proof -
  have j: "j < n" "j < length (kstate s)" using h(1) kp_inv_size [OF i(1)] by (simp_all add: helps_def)
  note C = kp_inv_chain [OF i(1)] and CL = kp_inv_claims [OF i(1)] and P = head_pos [OF i(1)]
  have skip: "\<not> due s ph j \<Longrightarrow> help_ok n s g i oper ph (help_next oper (length (kstate s)) (Suc j))"
    by (rule help_next_ok [OF i h(2) j(1)])
  have go: "deq_ok n s g ph j q \<Longrightarrow> kp_sim_step n t i oper ph s g (s, Busy (HDeq j q))" for q
    using h(1,2) by (intro reads [OF i(1)]) simp
  have D: "pending (slot s j)" "\<not> enqueue (slot s j)" "phase (slot s j) \<le> ph" if "due s ph j"
    using that h(1) by (simp_all add: helps_def due_def)
  have held: "held n s j (slot s j)" "current s j (slot s j)" using j by (simp_all add: held_def current_def)
  show ?thesis
  proof (cases p)
    case DPend
    then show ?thesis using j skip go by (auto simp: at_slot_def intro!: reads [OF i(1)])
  next
    case DHead
    then show ?thesis using reached_khead [OF i(1)] go by simp
  next
    case (DTail f)
    then obtain k where k: "k \<le> hix g" "k < length (kseq g)" "kseq g ! k = f" using h(3) by (auto simp: reached_def)
    have "before_tail g f" if "f \<noteq> ktail s"
    proof -
      have "k \<noteq> tix g" using that k(3) chain_okD(6) [OF C] by auto
      then have "k < tix g" using k(1) chain_okD(2) [OF C] by simp
      then show ?thesis using k(2,3) unfolding before_tail_def by blast
    qed
    then show ?thesis using DTail h(3) go by simp
  next
    case (DNext f l)
    then have r: "reached g (hix g) f" "f \<noteq> l \<longrightarrow> before_tail g f" using h(3) by simp_all
    show ?thesis
    proof (cases "knext (knodes s f) = None \<and> due s ph j")
      case False
      then show ?thesis using DNext r go by (auto simp: saw_def)
    next
      case True
      note G = sawe_goes [OF i(1) j(1) D(1,2) r(1), of t]
      have "kp_next n s (g\<lparr>sawe := (sawe g)(j := True)\<rparr>) i oper ph (Busy (HDeq j (DSame f l None)))"
        using h(1,2) r by (simp add: helps_def saw_def reached_def before_tail_def)
      then show ?thesis using DNext True kp_simI [OF G] by simp
    qed
  next
    case (DSame f l nx)
    then show ?thesis using h go by (auto simp: owes_def intro!: reads [OF i(1)])
  next
    case (ZDesc l)
    then show ?thesis using h(3) j go held by (simp add: at_slot_def)
  next
    case (ZTail l cur)
    then have z: "reached g (hix g) l" "saw s g ph j" "held n s j cur" using h(3) by simp_all
    have "stale s g j cur" if c: "l = ktail s" "current s j cur" "\<not> enqueue cur" "pending cur"
      using tail_stale [OF i(1) j(1)] z(1,3) c by (simp add: held_def)
    then show ?thesis using ZTail z go by auto
  next
    case (ZPend cur)
    then have z: "saw s g ph j" "held n s j cur" "current s j cur \<longrightarrow> \<not> enqueue cur \<longrightarrow> pending cur \<longrightarrow> stale s g j cur"
      using h(3) by simp_all
    have "current s j cur \<longrightarrow> slot s j = cur" using z(2) by (simp add: held_def)
    then show ?thesis using ZPend z j D go by (auto simp: at_slot_def)
  next
    case (ZCas cur)
    then have z: "saw s g ph j" "held n s j cur"
      "current s j cur \<longrightarrow> \<not> enqueue cur \<and> pending cur \<and> phase cur \<le> ph \<and> stale s g j cur" using h(3) by simp_all
    show ?thesis
    proof (cases "current s j cur")
      case False
      then show ?thesis using ZCas j go by (simp add: at_slot_def desc_cas_def current_def)
    next
      case True
      then have c: "slot s j = cur" "\<not> enqueue cur" "pending cur" "phase cur \<le> ph" "stale s g j cur" using z(2,3) by (simp_all add: held_def)
      then have "sawe g j" using z(1) by (simp add: saw_def due_def)
      then have G: "kp_goes n t s g (set_desc s j (phase cur) False False None) g"
        by (intro deq_pending_goes [OF i(1) j(1) c(1-3,5), where q = False]) simp_all
      have tr: "kp_trans n t s g (set_desc s j (phase cur) False False None) g" using G by (simp add: kp_goes_def)
      have "passed (set_desc s j (phase cur) False False None) i j" using h(2) by (simp add: passed_def)
      then show ?thesis using ZCas j True kp_simI [OF G] helps_stable [OF tr h(1)]
        by (simp add: at_slot_def desc_cas_def current_def)
    qed
  next
    case (DDesc f)
    have "hit s j f (slot s j)" by (rule announced_hit [OF i(1) j(1)])
    then show ?thesis using DDesc h j go held by (auto simp: at_slot_def helps_def)
  next
    case (DPend2 f cur)
    then have z: "reached g (hix g) f" "before_tail g f" "held n s j cur" "phase cur \<le> phase (slot s j)"
      "phase cur \<le> ph \<longrightarrow> \<not> enqueue cur" "hit s j f cur" using h(3) by simp_all
    have "current s j cur \<longrightarrow> slot s j = cur" using z(3) by (simp add: held_def)
    then show ?thesis using DPend2 z j D skip h(1,2) by (auto simp: at_slot_def intro!: reads [OF i(1)])
  next
    case (DFirst f cur)
    then have z: "reached g (hix g) f" "before_tail g f" "held n s j cur" "\<not> enqueue cur" "phase cur \<le> ph"
      "current s j cur \<longrightarrow> pending cur" "hit s j f cur" using h(3) by simp_all
    show ?thesis
    proof (cases "f = khead s \<and> dnode cur \<noteq> Some f")
      case True
      have "stale s g j cur \<and> claim s f \<noteq> int j" if "current s j cur"
        using first_stale [OF i(1) j(1) _ z(4), of f] z(3,6) that True by (auto simp: held_def)
      then show ?thesis using DFirst True z go by auto
    next
      case False
      have "wants s j f" if c: "claim s f = noTid"
      proof -
        have "khead s = f" by (rule unclaimed_head [OF C CL z(1) c])
        then show ?thesis using False z(4,7) c by (simp add: hit_def)
      qed
      moreover have "deq_help_step oper ph j s p = (s, Busy (HDeq j (DClaim f)))" using DFirst False by auto
      ultimately show ?thesis using z go by simp
    qed
  next
    case (DCand f cur)
    then have z: "reached g (hix g) f" "before_tail g f" "held n s j cur"
      "current s j cur \<longrightarrow> \<not> enqueue cur \<and> pending cur \<and> phase cur \<le> ph \<and> dnode cur \<noteq> Some f \<and> stale s g j cur \<and> claim s f \<noteq> int j"
      using h(3) by simp_all
    show ?thesis
    proof (cases "current s j cur")
      case False
      then show ?thesis using DCand j go by (simp add: at_slot_def desc_cas_def current_def)
    next
      case True
      then have c: "slot s j = cur" "\<not> enqueue cur" "pending cur" "stale s g j cur" "claim s f \<noteq> int j" using z(3,4) by (simp_all add: held_def)
      have G: "kp_goes n t s g (set_desc s j (phase cur) True False (Some f)) g"
        by (intro deq_pending_goes [OF i(1) j(1) c(1-4), where q = True and f = f]) (use z c in simp_all)
      have tr: "kp_trans n t s g (set_desc s j (phase cur) True False (Some f)) g" using G by (simp add: kp_goes_def)
      have "passed (set_desc s j (phase cur) True False (Some f)) i j" using h(2) by (cases "i = j") (simp_all add: passed_def)
      moreover have "wants (set_desc s j (phase cur) True False (Some f)) j f" using j by (simp add: wants_def)
      ultimately show ?thesis using DCand j True kp_simI [OF G] helps_stable [OF tr h(1)] z
        by (simp add: at_slot_def desc_cas_def current_def)
    qed
  next
    case (DClaim f)
    then have z: "reached g (hix g) f" "before_tail g f" "claim s f = noTid \<longrightarrow> wants s j f" using h(3) by simp_all
    show ?thesis
    proof (cases "claim s f = noTid")
      case False
      have "kp_next n s g i oper ph (Busy (FinDeq (KDeq j) MHead))" using h by simp
      then show ?thesis using DClaim False reads [OF i(1)] by simp
    next
      case True
      note G = claim_goes [OF i(1) j(1) _ z(2,1) True refl]
      then show ?thesis using DClaim True z h(1,2) by (auto simp: helps_def passed_def intro!: kp_simI)
    qed
  qed
qed

subsection \<open>helpFinishDeq\<close>

lemma done_goes:
  assumes i: "kp_inv n s g" and j: "j < n" "slot s j = cur" "\<not> enqueue cur" "dnode cur = Some f" "claim s f = int j"
  shows "kp_goes n t s g (set_desc s j (phase cur) False (enqueue cur) (dnode cur)) g" (is "kp_goes n t s g ?s g")
proof (rule desc_goes [OF i j(1)])
  have l: "j < length (kstate s)" using j(1) kp_inv_size [OF i] by simp
  show "?s = set_desc s j (phase (slot s j)) False (enqueue cur) (dnode cur)" using j(2) by simp
  show "slot_move t s g ?s g j"
    by (rule slot_move.deq_done [where f = f]) (use l j in simp_all)
  note S = slot_okD [OF kp_inv_slot [OF i j(1)]]
  have "deq_desc_ok s g j (pending cur) f" using S(2) j(2-4) by simp
  then have "deq_desc_ok ?s g j False f" using j(5) by (simp add: deq_desc_ok_def)
  then show "slot_ok ?s g j" using S(3,4) l j(2-4) by (auto simp: slot_ok_def)
  fix r assume "slot_status s g j r"
  moreover have "served s j" "served ?s j" using j l by (simp_all add: served_def)
  ultimately show "slot_status ?s g j r" using l j(2-4) by (simp add: slot_status_def)
qed

lemma fin_deq_sim:
  assumes i: "kp_inv n s g" "caller_ok s g t i oper ph"
    and h: "kont_ok n s g i ph k" "fin_deq_ok n s g i k p" "\<forall>j. k \<noteq> KNext j" "k = KEnd \<longrightarrow> oper = Dequeue"
  shows "kp_sim_step n t i oper ph s g (fin_deq_step oper k s p)"
proof -
  note size = kp_inv_size [OF i(1)]
  have ret: "kp_sim_step n t i oper ph s g (s, resume oper (length (kstate s)) k)" if "last_owes s i k False"
    using that h(3) by (intro reads [OF i(1)] resume_ok [OF i h(1)]) (auto simp: owes_def last_owes_def)
  have go: "fin_deq_ok n s g i k q \<Longrightarrow> kp_sim_step n t i oper ph s g (s, Busy (FinDeq k q))" for q
    using h(1,3,4) by (intro reads [OF i(1)]) simp
  have W: "last_owes s i k P \<Longrightarrow> (P \<Longrightarrow> claim s (khead s) = int i \<Longrightarrow> Q) \<Longrightarrow> last_owes s i k Q" for P Q
    by (auto simp: last_owes_def)
  have nx: "knext (knodes s (khead s)) \<noteq> None" if "claim s (khead s) \<noteq> noTid"
    using chain_okD(3) [OF kp_inv_chain [OF i(1)]] claims_okD(5) [OF kp_inv_claims [OF i(1)] that]
      chain_okD(8) [OF kp_inv_chain [OF i(1)], of "hix g"] head_pos [OF i(1)] by simp
  show ?thesis
  proof (cases p)
    case MHead
    then show ?thesis using reached_khead [OF i(1)] go by (simp add: last_owes_def)
  next
    case (MNext f)
    have "last_owes s i k (khead s = f \<and> knext (knodes s f) \<noteq> None)"
      by (rule W [of "khead s = f"]) (use h(2) MNext nx in auto)
    then show ?thesis using MNext h(2) go by simp
  next
    case (MTid f m)
    then have z: "reached g (hix g) f" "\<forall>x. m = Some x \<longrightarrow> knext (knodes s f) = Some x"
      "last_owes s i k (khead s = f \<and> m \<noteq> None)" using h(2) by simp_all
    show ?thesis
    proof (cases "claim s f = noTid")
      case True
      have "last_owes s i k False" by (rule W [OF z(3)]) (use True in auto)
      then show ?thesis using MTid True ret by simp
    next
      case False
      obtain x where "x < length (kseq g)" "f = kseq g ! x" using z(1) by (auto simp: reached_def)
      then obtain j where "j < n" "claim s f = int j" using claims_okD(3) [OF kp_inv_claims [OF i(1)]] False by blast
      then show ?thesis using MTid z go by (simp add: claimed_by_def)
    qed
  next
    case (MDesc f m j)
    then have "claimed_by n s g f j" using h(2) by simp
    then have "j < n" by (simp add: claimed_by_def)
    then show ?thesis using MDesc h(2) go size by (simp add: at_slot_def finishing_def held_def current_def)
  next
    case (MSame f m j cur)
    then have z: "claimed_by n s g f j" "\<forall>x. m = Some x \<longrightarrow> knext (knodes s f) = Some x" "finishing n s f j cur"
      "last_owes s i k (khead s = f \<and> m \<noteq> None)" using h(2) by simp_all
    show ?thesis
    proof (cases "\<exists>x. m = Some x \<and> f = khead s")
      case False
      have "last_owes s i k False" by (rule W [OF z(4)]) (use False in auto)
      then show ?thesis using MSame False ret by (auto split: option.splits)
    next
      case True
      then obtain x where x: "m = Some x" "f = khead s" by blast
      have "\<not> enqueue cur \<and> dnode cur = Some f" if "current s j cur"
      proof -
        have "slot s j = cur" "j < n" "claim s (khead s) = int j"
          using z(1,3) that x(2) by (simp_all add: finishing_def held_def claimed_by_def)
        then show ?thesis using slot_okD(3) [OF kp_inv_slot [OF i(1)]] x(2) by blast
      qed
      moreover have "last_owes s i k (khead s = f)" by (rule W [OF z(4)]) simp
      ultimately show ?thesis using MSame x z go by simp
    qed
  next
    case (MCas f m j cur)
    then have z: "claimed_by n s g f j" "knext (knodes s f) = Some m" "finishing n s f j cur"
      "current s j cur \<longrightarrow> \<not> enqueue cur \<and> dnode cur = Some f" "last_owes s i k (khead s = f)" using h(2) by simp_all
    have j: "j < n" "j < length (kstate s)" "claim s f = int j" using z(1) size by (simp_all add: claimed_by_def)
    show ?thesis
    proof (cases "current s j cur")
      case False
      then have "khead s = f \<longrightarrow> \<not> pending (slot s j)" using z(3) by (simp add: finishing_def)
      then have "fin_deq_ok n s g i k (MMove f m)" using z(1,2,5) by auto
      from go [OF this] show ?thesis using MCas False j by (simp add: at_slot_def desc_cas_def current_def)
    next
      case True
      then have c: "slot s j = cur" "\<not> enqueue cur" "dnode cur = Some f" using z(3,4) by (simp_all add: finishing_def held_def)
      define s' where "s' = set_desc s j (phase cur) False (enqueue cur) (dnode cur)"
      have G: "kp_goes n t s g s' g" unfolding s'_def by (rule done_goes [OF i(1) j(1) c j(3)])
      have tr: "kp_trans n t s g s' g" using G by (simp add: kp_goes_def)
      have "pending (slot s' x) \<Longrightarrow> pending (slot s x)" for x using j by (cases "x = j") (simp_all add: s'_def)
      then have "kont_ok n s' g i ph k" by (rule kont_ok_less [OF tr h(1)])
      moreover have "\<not> pending (slot s' j)" using j by (simp add: s'_def)
      then have "fin_deq_ok n s' g i k (MMove f m)"
        using z(1,2,5) by (auto simp: s'_def claimed_by_def last_owes_def)
      ultimately have "kp_next n s' g i oper ph (Busy (FinDeq k (MMove f m)))" using h(3,4) by simp
      then show ?thesis using MCas j True kp_simI [OF G] by (simp add: at_slot_def desc_cas_def current_def s'_def)
    qed
  next
    case (MMove f m)
    then obtain j where z: "claimed_by n s g f j" "khead s = f \<longrightarrow> \<not> pending (slot s j)" "knext (knodes s f) = Some m"
      "last_owes s i k (khead s = f)" using h(2) by auto
    show ?thesis
    proof (cases "khead s = f")
      case False
      have "last_owes s i k False" by (rule W [OF z(4)]) (use False in auto)
      then show ?thesis using MMove False ret by simp
    next
      case True
      have c: "claim s (khead s) = int j" "j < n" "\<not> pending (slot s j)" "knext (knodes s (khead s)) = Some m"
        using z(1-3) True by (simp_all add: claimed_by_def)
      note G = head_goes [OF i(1) c]
      let ?s = "s\<lparr>khead := m\<rparr>" and ?g = "g\<lparr>hix := Suc (hix g)\<rparr>"
      have "kp_inv n ?s ?g" using G(1) [of t] by (simp add: kp_goes_def kp_trans_def)
      moreover have "caller_ok ?s ?g t i oper ph" using i(2) by (simp add: caller_ok_def)
      moreover have "kont_ok n ?s ?g i ph k" using h(1) by (cases k) (simp_all add: helps_def passed_def)
      moreover have "owes ?s ph k (\<lambda>j. False)" using h(3) by (simp add: owes_def)
      ultimately have "kp_next n ?s ?g i oper ph (resume oper (length (kstate ?s)) k)"
        by (rule resume_ok) (use G(2) in simp)
      then show ?thesis using MMove True kp_simI [OF G(1)] by simp
    qed
  qed
qed

subsection \<open>help\<close>

lemma help_sim:
  assumes i: "kp_inv n s g" "caller_ok s g t i oper ph" and h: "help_ok n s g i oper ph p"
  shows "kp_sim_step n t i oper ph s g (help_step i oper ph s p)"
proof -
  have own: "i < n" "enqueue (slot s i) \<longleftrightarrow> oper \<noteq> Dequeue" "i < length (kstate s)"
    using i(2) kp_inv_handle [OF i(1), of t i] kp_inv_size [OF i(1)] by (simp_all add: caller_ok_def)
  show ?thesis
  proof (cases p)
    case (HLoad j)
    then have j: "j < n" "passed s i j" "j < length (kstate s)" using h kp_inv_size [OF i(1)] by simp_all
    show ?thesis
    proof (cases "due s ph j")
      case False
      have "kp_next n s g i oper ph (Busy (help_next oper (length (kstate s)) (Suc j)))"
        using help_next_ok [OF i j(2,1) False] by simp
      from reads [OF i(1) this] show ?thesis using HLoad j False by (auto simp: at_slot_def due_def)
    next
      case True
      then have d: "pending (slot s j)" "phase (slot s j) \<le> ph" by (simp_all add: due_def)
      note G = seen_goes [OF i(1) j(1) d(1) i(2)]
      have "kp_next n s (g\<lparr>seen := (seen g)(j := max (seen g j) ph)\<rparr>) i oper ph
          (Busy (if enqueue (slot s j) then HEnq j EPend else HDeq j DPend))"
        using j d by (simp add: helps_def)
      from kp_simI [OF G this] show ?thesis using HLoad j d by (simp add: at_slot_def)
    qed
  next
    case (HEnq j q)
    then show ?thesis using h enq_help_sim [OF i] by simp
  next
    case (HDeq j q)
    then show ?thesis using h deq_help_sim [OF i] by simp
  next
    case (FinEnq k q)
    then show ?thesis using h fin_enq_sim [OF i] by simp
  next
    case (FinDeq k q)
    then show ?thesis using h fin_deq_sim [OF i] by simp
  next
    case RNode
    then have r: "\<not> enqueue (slot s i)" "\<not> pending (slot s i)" "claim s (khead s) \<noteq> int i" "oper = Dequeue" using h own by simp_all
    have "kp_next n s g i oper ph (case dnode (slot s i) of None \<Rightarrow> Return (Got None) | Some m \<Rightarrow> Busy (RValue m))"
      using r by (auto simp: slot_status_def served_def split: option.split)
    from reads [OF i(1) this] show ?thesis using RNode own by (simp add: at_slot_def)
  next
    case (RValue f)
    then have r: "\<not> enqueue (slot s i)" "\<not> pending (slot s i)" "claim s (khead s) \<noteq> int i" "dnode (slot s i) = Some f" using h own by simp_all
    have d: "deq_desc_ok s g i False f" using slot_okD(2) [OF kp_inv_slot [OF i(1) own(1)] r(1,4)] r(2) by simp
    then obtain k where k: "k < tix g" "f = kseq g ! k" "claim s f = int i" by (auto simp: deq_desc_ok_def)
    have "knext (knodes s f) = Some (kseq g ! Suc k)"
      using chain_okD(3) [OF kp_inv_chain [OF i(1)]] chain_okD(8) [OF kp_inv_chain [OF i(1)], of k] k by simp
    then have "kp_next n s g i oper ph (case knext (knodes s f) of None \<Rightarrow> Panic | Some m \<Rightarrow> Return (Got (Some (kvalue (knodes s m)))))"
      using r k(3) by (auto simp: slot_status_def served_def)
    from reads [OF i(1) this] show ?thesis using RValue by simp
  qed
qed

end
