(* ===== verification/Kp_Facts.thy ===== *)
theory Kp_Facts
  imports Kp_Deq
begin

text \<open>
  The Kogan-Petrank queue: announcement, registration, the simulation, and the properties.
\<close>

subsection \<open>Simulation relation\<close>

text \<open>The goroutine of an active slot is in its call, or about to return from it.\<close>

definition in_call :: "'a kp_queue \<Rightarrow> nat \<Rightarrow> ('a kp_pc, 'a resp uc_resp) thread \<Rightarrow> bool" where
  "in_call s i x \<longleftrightarrow>
     (case x of Busy p \<Rightarrow> \<exists>oper ph q. p = Help i oper ph q
      | Return r \<Rightarrow> \<not> pending (slot s i) \<and> claim s (khead s) \<noteq> int i | _ \<Rightarrow> False)"

definition kp_callers :: "'a kp_queue \<Rightarrow> kp_ghost \<Rightarrow> (tid \<Rightarrow> ('a kp_pc, 'a resp uc_resp) thread) \<Rightarrow> bool" where
  "kp_callers s g th \<longleftrightarrow> (\<forall>i. act g i \<longrightarrow> khandle s (who g i) = Some i \<and> in_call s i (th (who g i)))"

definition kp_statuses :: "'a kp_queue \<Rightarrow> kp_ghost \<Rightarrow> (tid \<Rightarrow> 'a kp_status) \<Rightarrow> bool" where
  "kp_statuses s g st \<longleftrightarrow> (\<forall>i. act g i \<longrightarrow> slot_status s g i (st (who g i)))"

definition kp_related :: "nat \<Rightarrow> 'a kp_queue \<Rightarrow> kp_ghost \<Rightarrow> (tid \<Rightarrow> ('a kp_pc, 'a resp uc_resp) thread) \<Rightarrow>
    (tid \<Rightarrow> 'a kp_status) \<Rightarrow> bool" where
  "kp_related n s g th st \<longleftrightarrow> kp_inv n s g \<and> kp_callers s g th \<and> kp_statuses s g st \<and> all_ok (kp_ok n s g) th st"

definition kp_rel :: "nat \<Rightarrow> 'a kp_queue \<Rightarrow> (tid \<Rightarrow> ('a kp_pc, 'a resp uc_resp) thread) \<Rightarrow> 'a list \<times> nat \<Rightarrow>
    (tid \<Rightarrow> 'a kp_status) \<Rightarrow> bool" where
  "kp_rel n s th a st \<longleftrightarrow> (\<exists>g. kp_related n s g th st \<and> a = (kp_abs s g, kcursor s))"

lemma kp_relatedD:
  assumes "kp_related n s g th st"
  shows "kp_inv n s g" and "act g i \<Longrightarrow> khandle s (who g i) = Some i" and "act g i \<Longrightarrow> in_call s i (th (who g i))"
    and "act g i \<Longrightarrow> slot_status s g i (st (who g i))" and "all_ok (kp_ok n s g) th st"
  using assms by (auto simp: kp_related_def kp_callers_def kp_statuses_def)

lemma not_in_call: "kp_related n s g th st \<Longrightarrow> khandle s t = Some i \<Longrightarrow> \<not> in_call s i (th t) \<Longrightarrow> \<not> act g i"
  using kp_relatedD(1-3) kp_inv_inj by metis

text \<open>The other goroutines after a step of \<open>t\<close>.\<close>

lemma others_related:
  assumes r: "kp_related n s g th st" and tr: "kp_trans n t s g s' g'"
    and st: "\<And>v. v \<noteq> t \<Longrightarrow> st' v \<noteq> st v \<Longrightarrow> \<exists>j. act g j \<and> pending (slot s j) \<and> who g j = v"
    and x: "thread_ok (kp_ok n s' g' t) x (st' t)"
  shows "all_ok (kp_ok n s' g') (th(t := x)) st'"
  unfolding all_ok_def
proof
  fix u
  have o: "thread_ok (kp_ok n s g u) (th u) (st u)" by (rule all_okD [OF kp_relatedD(5) [OF r]])
  show "thread_ok (kp_ok n s' g' u) ((th(t := x)) u) (st' u)"
  proof (cases "u = t")
    case True
    then show ?thesis using x by simp
  next
    case False
    have changed: "\<exists>i oper ph q. th u = Busy (Help i oper ph q)" if c: "st' u \<noteq> st u"
    proof -
      obtain j where "act g j" "pending (slot s j)" "who g j = u" using st [OF False c] by blast
      then show ?thesis using kp_relatedD(3) [OF r, of j] by (auto simp: in_call_def split: thread.splits)
    qed
    show ?thesis
    proof (cases "th u")
      case (Busy p)
      then have "kp_ok n s' g' u p (st u)" using o kp_stable [OF tr False] by simp
      then show ?thesis using False Busy changed by (cases "st' u = st u") auto
    qed (use o False changed in \<open>cases "st' u = st u"; auto\<close>)+
  qed
qed

lemma callers_kept:
  assumes r: "kp_related n s g th st" and tr: "kp_trans n t s g s' g'"
    and j: "act g j" "who g j \<noteq> t"
  shows "act g' j" and "who g' j = who g j" and "khandle s' (who g' j) = Some j"
    and "in_call s' j ((th(t := x)) (who g' j))"
proof -
  note h = kp_relatedD(2) [OF r j(1)] and c = kp_relatedD(3) [OF r j(1)] and R = trans_rely [OF tr]
  have n: "khandle s t \<noteq> Some j" by (rule other_handle [OF tr h j(2)])
  have jn: "j < n" using kp_inv_act [OF kp_relatedD(1) [OF r] j(1)] .
  show "act g' j" "who g' j = who g j" using kp_relyD(13) [OF R n] j(1) by simp_all
  then show "khandle s' (who g' j) = Some j" using h kp_relyD(10) [OF R j(2)] by simp
  show "in_call s' j ((th(t := x)) (who g' j))"
    using c j(2) \<open>who g' j = who g j\<close> idle_slot_stable(1,5) [OF tr jn n] by (auto simp: in_call_def split: thread.splits)
qed

subsection \<open>Steps inside a call\<close>

lemma own_caller:
  assumes tr: "kp_trans n t s g s' g'" and a: "act g' = act g" "who g' = who g" "khandle s' = khandle s"
    and c: "caller_ok s g t i oper ph"
  shows "caller_ok s' g' t i oper ph"
proof -
  have h: "khandle s t = Some i" "act g i" "i < n" using c kp_inv_handle [OF trans_pre [OF tr], of t i] by (simp_all add: caller_ok_def)
  have "phase (slot s' i) = phase (slot s i) \<and> enqueue (slot s' i) = enqueue (slot s i)"
    using trans_slot [OF tr h(3)] h(2) by cases auto
  then show ?thesis using c a by (simp add: caller_ok_def)
qed

lemma help_related:
  assumes r: "kp_related n s g th st" and p: "th t = Busy (Help i oper ph p)"
    and g: "kp_goes n t s g s' g'" and x: "kp_next n s' g' i oper ph x"
    and st: "\<And>v. st' v \<noteq> st v \<Longrightarrow> \<exists>j. act g j \<and> pending (slot s j) \<and> who g j = v"
    and ss: "\<And>j. act g j \<Longrightarrow> slot_status s' g' j (st' (who g j))"
  shows "kp_related n s' g' (th(t := lift_help i oper ph x)) st'"
proof -
  have tr: "kp_trans n t s g s' g'" and a: "act g' = act g" "who g' = who g" "khandle s' = khandle s"
    using g by (simp_all add: kp_goes_def)
  have c: "caller_ok s g t i oper ph" using all_okD [OF kp_relatedD(5) [OF r], of t] p by simp
  then have w: "act g i" "who g i = t" "khandle s t = Some i" by (simp_all add: caller_ok_def)
  note c' = own_caller [OF tr a c]
  have "thread_ok (kp_ok n s' g' t) (lift_help i oper ph x) (st' t)"
    using x c' ss [OF w(1)] w(2) by (cases x) auto
  then have "all_ok (kp_ok n s' g') (th(t := lift_help i oper ph x)) st'"
    using st by (intro others_related [OF r tr]) auto
  moreover have "kp_callers s' g' (th(t := lift_help i oper ph x))"
    unfolding kp_callers_def
  proof (intro allI impI)
    fix j assume "act g' j"
    then have j: "act g j" using a by simp
    show "khandle s' (who g' j) = Some j \<and> in_call s' j ((th(t := lift_help i oper ph x)) (who g' j))"
    proof (cases "who g j = t")
      case True
      then have "j = i" using kp_relatedD(2) [OF r j] w(3) by simp
      then show ?thesis using True a w x by (cases x) (auto simp: in_call_def)
    next
      case False
      then show ?thesis using callers_kept(3,4) [OF r tr j] by blast
    qed
  qed
  moreover have "kp_statuses s' g' st'" using ss a by (simp add: kp_statuses_def)
  ultimately show ?thesis using trans_post [OF tr] by (simp add: kp_related_def)
qed

lemma help_rel:
  assumes r: "kp_related n s g th st" and p: "th t = Busy (Help i oper ph p)" and s: "help_step i oper ph s p = (s', x)"
  shows "\<exists>E a' st'. visible E = [] \<and> lin_run (uc_spec n queue_spec) ((kp_abs s g, kcursor s), st) E = Some (a', st') \<and>
    kp_rel n s' (th(t := lift_help i oper ph x)) a' st'"
proof -
  have "caller_ok s g t i oper ph" "help_ok n s g i oper ph p" using all_okD [OF kp_relatedD(5) [OF r], of t] p by simp_all
  from help_sim [OF kp_relatedD(1) [OF r] this] s obtain g' where
    g: "kp_goes n t s g s' g'" and x: "kp_next n s' g' i oper ph x" by (auto simp: kp_sim_step_def)
  have e: "kp_effect s g s' g'" and cur: "kcursor s' = kcursor s" using g by (simp_all add: kp_goes_def)
  note H = help_related [OF r p g x] and S = kp_relatedD(4) [OF r] and W = kp_relatedD(2) [OF r]
  have inj: "who g j \<noteq> who g k" if "act g j" "act g k" "j \<noteq> k" for j k
    using W [OF that(1)] W [OF that(2)] that(3) by auto
  from e show ?thesis
  proof cases
    case silent
    have "kp_related n s' g' (th(t := lift_help i oper ph x)) st"
      by (rule H) (use silent(2) S in blast)+
    then show ?thesis using silent(1) cur
      by (intro exI [of _ "[]"] exI [of _ "(kp_abs s g, kcursor s)"] exI [of _ st]) (auto simp: kp_rel_def)
  next
    case (takes j oper' v)
    let ?st = "st(who g j := Done (Reply v))"
    obtain R where R: "st (who g j) = Wait (Apply oper') R" using takes(4) S [OF takes(1)] by blast
    have "kp_related n s' g' (th(t := lift_help i oper ph x)) ?st"
    proof (rule H)
      show "\<exists>j. act g j \<and> pending (slot s j) \<and> who g j = u" if "?st u \<noteq> st u" for u
        using that takes(1,2) by (metis fun_upd_other)
      show "slot_status s' g' k (?st (who g k))" if k: "act g k" for k
      proof (cases "k = j")
        case False
        then show ?thesis using takes(3) [OF k False] S [OF k] inj [OF k takes(1) False] by simp
      qed (use takes(6) in simp)
    qed
    moreover have "lin_run (uc_spec n queue_spec) ((kp_abs s g, kcursor s), st) [Lin (who g j)] = Some ((kp_abs s' g', kcursor s), ?st)"
      using R takes(5) by simp
    ultimately show ?thesis using cur
      by (intro exI [of _ "[Lin (who g j)]"] exI [of _ "(kp_abs s' g', kcursor s)"] exI [of _ ?st]) (auto simp: kp_rel_def)
  next
    case (empty j)
    obtain R where R: "st (who g j) = Wait (Apply Dequeue) R"
      "slot_status s' g' j (Wait (Apply Dequeue) (insert (Reply (Got None)) R))" using empty(6) S [OF empty(1)] by blast
    let ?st = "st(who g j := Wait (Apply Dequeue) (insert (Reply (Got None)) R))"
    have "kp_related n s' g' (th(t := lift_help i oper ph x)) ?st"
    proof (rule H)
      show "\<exists>j. act g j \<and> pending (slot s j) \<and> who g j = u" if "?st u \<noteq> st u" for u
        using that empty(1,2) by (metis fun_upd_other)
      show "slot_status s' g' k (?st (who g k))" if k: "act g k" for k
      proof (cases "k = j")
        case False
        then show ?thesis using empty(3) [OF k False] S [OF k] inj [OF k empty(1) False] by simp
      qed (use R(2) in simp)
    qed
    moreover have "lin_run (uc_spec n queue_spec) ((kp_abs s g, kcursor s), st) [Obs (who g j)] = Some ((kp_abs s g, kcursor s), ?st)"
      using R(1) empty(4) by simp
    ultimately show ?thesis using cur empty(4,5)
      by (intro exI [of _ "[Obs (who g j)]"] exI [of _ "(kp_abs s g, kcursor s)"] exI [of _ ?st]) (auto simp: kp_rel_def)
  qed
qed

subsection \<open>Announcement\<close>

definition announced :: "'a kp_queue \<Rightarrow> nat \<Rightarrow> 'a queue_op \<Rightarrow> int \<Rightarrow> 'a kp_queue" where
  "announced s i oper ph =
     (case oper of
        Enqueue v \<Rightarrow> set_desc (s\<lparr>knodes := (knodes s)(kbrk s := newNode v (int i)), kbrk := Suc (kbrk s)\<rparr>)
                       i ph True True (Some (kbrk s))
      | Dequeue \<Rightarrow> set_desc s i ph True False None)"

lemma announced_simps:
  "khead (announced s i oper ph) = khead s" "ktail (announced s i oper ph) = ktail s"
  "khandle (announced s i oper ph) = khandle s" "kcursor (announced s i oper ph) = kcursor s"
  "kmax (announced s i oper ph) = kmax s" "length (kstate (announced s i oper ph)) = length (kstate s)"
  "x \<noteq> i \<Longrightarrow> slot (announced s i oper ph) x = slot s x"
  "l < kbrk s \<Longrightarrow> knodes (announced s i oper ph) l = knodes s l"
  "kbrk s \<le> kbrk (announced s i oper ph)"
  by (cases oper; simp add: announced_def)+

lemma announced_slot:
  assumes "i < length (kstate s)"
  shows "phase (slot (announced s i oper ph) i) = ph" and "pending (slot (announced s i oper ph) i)"
    and "enqueue (slot (announced s i oper ph) i) \<longleftrightarrow> oper \<noteq> Dequeue"
    and "dver (slot (announced s i oper ph) i) = Suc (dver (slot s i))"
    and "oper = Dequeue \<Longrightarrow> dnode (slot (announced s i oper ph) i) = None"
    and "oper = Enqueue v \<Longrightarrow> dnode (slot (announced s i oper ph) i) = Some (kbrk s) \<and>
      knodes (announced s i oper ph) (kbrk s) = newNode v (int i) \<and> kbrk (announced s i oper ph) = Suc (kbrk s)"
  using assms by (cases oper; simp add: announced_def)+

lemma desc_bounds:
  assumes i: "kp_inv n s g"
  shows "enq_desc_ok s g x m \<Longrightarrow> m < kbrk s" and "deq_desc_ok s g x q f \<Longrightarrow> f < kbrk s"
    and "l \<in> set (kseq g) \<Longrightarrow> l < kbrk s"
proof -
  note C = kp_inv_chain [OF i]
  show l: "l \<in> set (kseq g) \<Longrightarrow> l < kbrk s" for l using chain_okD(7) [OF C] by (auto simp: in_set_conv_nth)
  then show "enq_desc_ok s g x m \<Longrightarrow> m < kbrk s" by (auto simp: enq_desc_ok_def)
  show "deq_desc_ok s g x q f \<Longrightarrow> f < kbrk s" using chain_okD(3) [OF C] chain_okD(7) [OF C] by (auto simp: deq_desc_ok_def)
qed

lemma announce_trans:
  assumes i: "kp_inv n s g" and h: "khandle s t = Some i" "\<not> act g i" "phase (slot s i) < ph" "seen g i < ph"
    and s': "s' = announced s i oper ph"
    and g': "g' = g\<lparr>act := (act g)(i := True), who := (who g)(i := t), sawe := (sawe g)(i := False)\<rparr>"
  shows "kp_trans n t s g s' g'"
    and "act g x \<Longrightarrow> x \<noteq> i \<Longrightarrow> slot_status s g x st \<Longrightarrow> slot_status s' g' x st"
    and "slot_status s' g' i (Wait (Apply oper) {})" and "kp_abs s' g' = kp_abs s g"
proof -
  note C = kp_inv_chain [OF i] and CL = kp_inv_claims [OF i] and S = announced_simps [where s = s and i = i and oper = oper and ph = ph, folded s']
    and B = desc_bounds [OF i]
  have il: "i < n" "i < length (kstate s)" using kp_inv_handle [OF i h(1)] kp_inv_size [OF i] by simp_all
  note I = announced_slot [where oper = oper and ph = ph, OF il(2), folded s']
  have G: "kseq g' = kseq g" "hix g' = hix g" "tix g' = tix g" "seen g' = seen g" using g' by simp_all
  have K: "kseq g ! k < kbrk s" if "k < length (kseq g)" for k using chain_okD(7) [OF C that] .
  have hd: "khead s < kbrk s" using chain_okD(2,3,5) [OF C] K by simp
  have chain: "chain_ok s' g'" using C G S(1,2,8,9) K unfolding chain_ok_def by fastforce
  have claims: "claims_ok n s' g'" using CL G S(1,8) K hd by (simp add: claims_ok_def)
  have slots: "slot_ok s' g' x" if x: "x < n" for x
  proof (cases "x = i")
    case True
    have "claim s (khead s) \<noteq> int i" using slot_okD(4) [OF kp_inv_slot [OF i il(1)] h(2)] by simp
    then show ?thesis using True I G S(1,8) hd B(3) g'
      by (cases oper) (auto simp: slot_ok_def enq_desc_ok_def newNode_def)
  next
    case False
    have "enq_desc_ok s g x m \<Longrightarrow> enq_desc_ok s' g' x m" for m
      using B(1) [of x m] S(8,9) G by (auto simp: enq_desc_ok_def intro: order.strict_trans2)
    moreover have "deq_desc_ok s g x q f \<Longrightarrow> deq_desc_ok s' g' x q f" for q f
      using B(2) [of x q f] S(1,8) G by (auto simp: deq_desc_ok_def)
    ultimately show ?thesis using kp_inv_slot [OF i x] S(1) S(7) [OF False] S(8) [OF hd] g' False by (auto simp: slot_ok_def)
  qed
  have phs: "phase (slot s k) \<le> phase (slot s' k)" for k using S(7) [of k] I(1) h(3) by (cases "k = i") simp_all
  have "\<exists>k < n. seen g' x \<le> phase (slot s' k)" if "x < n" for x
    using kp_inv_seen [OF i that] phs G order.trans by metis
  then have inv: "kp_inv n s' g'" using i chain claims slots S(3-6) g' il(1) by (simp add: kp_inv_def)
  have mv: "slot_move t s g s' g' x" for x
  proof (cases "x = i")
    case True
    have "dnode (slot s' i) = Some m \<longrightarrow> m \<notin> set (kseq g')" for m
      using I(5,6) B(3) G by (cases oper) auto
    then show ?thesis using True I(1,4) h by (intro slot_move.announced) simp_all
  next
    case False
    then show ?thesis using S(7) g' by (intro slot_move.same) simp_all
  qed
  have "kp_rely t s g s' g'"
    using mv S(3,6,8) B(3) G chain_okD(2,3) [OF C] g' h(1) by (simp add: kp_rely_def)
  then show "kp_trans n t s g s' g'" using i inv by (simp add: kp_trans_def)
  show "slot_status s' g' x st" if x: "act g x" "x \<noteq> i" "slot_status s g x st"
  proof -
    note xs = kp_inv_slot [OF i kp_inv_act [OF i x(1)]]
    have f: "knodes s' f = knodes s f \<and> (\<forall>m. knext (knodes s f) = Some m \<longrightarrow> knodes s' m = knodes s m)"
      if d: "\<not> enqueue (slot s x)" "dnode (slot s x) = Some f" for f
    proof -
      have dd: "deq_desc_ok s g x (pending (slot s x)) f" using slot_okD(2) [OF xs d] .
      then have "f \<in> set (kseq g)" using chain_okD(3) [OF C] by (auto simp: deq_desc_ok_def)
      then show ?thesis using S(8) B(3) next_linked [OF C] by blast
    qed
    then have "\<not> enqueue (slot s x) \<Longrightarrow> served s' x = served s x" using S(7) [OF x(2)] by (auto simp: served_def)
    moreover have "knodes s' m = knodes s m" if "enqueue (slot s x)" "pending (slot s x)" "dnode (slot s x) = Some m" for m
      using slot_okD(1) [OF xs that(1,2)] that(3) B(1) S(8) by auto
    ultimately show ?thesis using x(2,3) S(7) [OF x(2)] f G g' by (auto simp: slot_status_def split: if_splits)
  qed
  show "slot_status s' g' i (Wait (Apply oper) {})"
    using I g' B(3) by (cases oper) (auto simp: slot_status_def served_def newNode_def)
  have "kp_front s' g' = kp_front s g" using G S(1) S(8) [OF hd] by (simp add: kp_front_def)
  moreover have "kvalue (knodes s' l) = kvalue (knodes s l)" if "l \<in> set (drop k (kseq g))" for l k
    using S(8) [OF B(3) [OF in_set_dropD [OF that]]] by simp
  ultimately show "kp_abs s' g' = kp_abs s g" using G(1) by (auto simp: kp_abs_def)
qed

lemma announce_rel:
  assumes r: "kp_related n s g th st" and p: "th t = Busy (KAnnounce i oper ph)"
  shows "kp_rel n (announced s i oper ph) (th(t := Busy (Help i oper ph (help_next oper (length (kstate s)) 0))))
    (kp_abs s g, kcursor s) st"
proof -
  define s' where "s' = announced s i oper ph"
  define g' where "g' = g\<lparr>act := (act g)(i := True), who := (who g)(i := t), sawe := (sawe g)(i := False)\<rparr>"
  define q where "q = Help i oper ph (help_next oper (length (kstate s)) 0)"
  have h: "st t = Wait (Apply oper) {}" "khandle s t = Some i" "\<not> act g i" "phase (slot s i) < ph" "seen g i < ph"
    using all_okD [OF kp_relatedD(5) [OF r], of t] p by simp_all
  note A = announce_trans [OF kp_relatedD(1) [OF r] h(2-5) s'_def g'_def]
  have i: "i < n" "i < length (kstate s)" "n = length (kstate s)"
    using kp_inv_handle [OF kp_relatedD(1) [OF r] h(2)] kp_inv_size [OF kp_relatedD(1) [OF r]] by simp_all
  have c: "caller_ok s' g' t i oper ph"
    using announced_slot(1,3) [OF i(2)] h(2) announced_simps(3) [of s] by (simp add: caller_ok_def s'_def g'_def)
  have "help_ok n s' g' i oper ph (help_next oper (length (kstate s)) 0)"
    using i(1,3) by (cases "kstate s") (simp_all add: help_next_def passed_def)
  then have "all_ok (kp_ok n s' g') (th(t := Busy q)) st"
    using c by (intro others_related [OF r A(1)]) (simp_all add: q_def)
  moreover have "kp_callers s' g' (th(t := Busy q))"
    unfolding kp_callers_def
  proof (intro allI impI)
    fix j assume j: "act g' j"
    show "khandle s' (who g' j) = Some j \<and> in_call s' j ((th(t := Busy q)) (who g' j))"
    proof (cases "j = i")
      case True
      then show ?thesis using c by (simp add: caller_ok_def in_call_def q_def)
    next
      case False
      then have a: "act g j" using j by (simp add: g'_def)
      have "who g j \<noteq> t" using kp_relatedD(2) [OF r a] h(2) False by auto
      then show ?thesis using callers_kept(3,4) [OF r A(1) a] by blast
    qed
  qed
  moreover have "slot_status s' g' j (st (who g' j))" if "act g' j" for j
    using that A(2) [OF _ _ kp_relatedD(4) [OF r]] A(3) h(1) by (cases "j = i") (auto simp: g'_def)
  then have "kp_statuses s' g' st" by (simp add: kp_statuses_def)
  ultimately have "kp_related n s' g' (th(t := Busy q)) st" using trans_post [OF A(1)] by (simp add: kp_related_def)
  then show ?thesis using A(4) announced_simps(4) [of s] by (auto simp: kp_rel_def s'_def q_def)
qed

subsection \<open>Handle, maxPhase, and the ends of calls\<close>

text \<open>Goroutine \<open>t\<close> moves and the memory stays.\<close>

lemma pc_related:
  assumes r: "kp_related n s g th st" and x: "thread_ok (kp_ok n s g t) x (st' t)" and st: "\<And>u. u \<noteq> t \<Longrightarrow> st' u = st u"
    and t: "\<And>i. act g i \<Longrightarrow> who g i \<noteq> t"
  shows "kp_related n s g (th(t := x)) st'"
proof -
  have tr: "kp_trans n t s g s g" using kp_relatedD(1) [OF r] kp_rely_refl [OF kp_inv_chain] by (auto simp: kp_trans_def)
  have "all_ok (kp_ok n s g) (th(t := x)) st'" using st x by (intro others_related [OF r tr]) auto
  moreover have "kp_callers s g (th(t := x))" using kp_relatedD(2,3) [OF r] t by (simp add: kp_callers_def)
  moreover have "kp_statuses s g st'" using kp_relatedD(4) [OF r] st t by (simp add: kp_statuses_def)
  ultimately show ?thesis using kp_relatedD(1) [OF r] by (simp add: kp_related_def)
qed

lemma not_caller: "kp_related n s g th st \<Longrightarrow> (\<And>i. \<not> in_call s i (th t)) \<Longrightarrow> act g i \<Longrightarrow> who g i \<noteq> t"
  using kp_relatedD(3) by metis

lemma phase_rel:
  assumes r: "kp_related n s g th st" and p: "th t = Busy (MaxPhase i oper j m)"
  shows "j < length (kstate s)"
    and "kp_rel n s (th(t := Busy (phase_next s i oper (j + 1) (max m (phase (slot s j)))))) (kp_abs s g, kcursor s) st"
proof -
  have h: "st t = Wait (Apply oper) {}" "khandle s t = Some i" "\<not> act g i" "j < n" "i < j \<longrightarrow> phase (slot s i) \<le> m"
    "seen g i \<le> m \<or> (\<exists>k \<ge> j. k < n \<and> seen g i \<le> phase (slot s k))"
    using all_okD [OF kp_relatedD(5) [OF r], of t] p by simp_all
  note size = kp_inv_size [OF kp_relatedD(1) [OF r]]
  show "j < length (kstate s)" using h(4) size by simp
  have il: "i < n" using kp_inv_handle [OF kp_relatedD(1) [OF r] h(2)] by simp
  let ?m = "max m (phase (slot s j))"
  have a: "i < Suc j \<longrightarrow> phase (slot s i) \<le> ?m" using h(5) by (auto simp: less_Suc_eq max_def)
  have b: "seen g i \<le> ?m \<or> (\<exists>k \<ge> Suc j. k < n \<and> seen g i \<le> phase (slot s k))"
  proof (cases "seen g i \<le> ?m")
    case False
    then obtain k where "j \<le> k" "k < n" "seen g i \<le> phase (slot s k)" using h(6) by auto
    moreover from this False have "k \<noteq> j" by auto
    ultimately show ?thesis by (auto intro!: exI [of _ k])
  qed simp
  have "kp_ok n s g t (phase_next s i oper (j + 1) ?m) (st t)"
    using h a b size il by (auto simp: phase_next_def not_less)
  then have "kp_related n s g (th(t := Busy (phase_next s i oper (j + 1) ?m))) st"
    using p by (intro pc_related [OF r] not_caller [OF r]) (auto simp: in_call_def)
  then show "kp_rel n s (th(t := Busy (phase_next s i oper (j + 1) ?m))) (kp_abs s g, kcursor s) st"
    by (auto simp: kp_rel_def)
qed

lemma handle_rel:
  assumes r: "kp_related n s g th st" and p: "th t = Busy KHandle" and b: "kp_step s t KHandle = (s', x)"
  shows "\<exists>E a' st'. visible E = [] \<and> lin_run (uc_spec n queue_spec) ((kp_abs s g, kcursor s), st) E = Some (a', st') \<and>
    kp_rel n s' (th(t := x)) a' st'"
proof -
  let ?v = "if kcursor s < n then Registered (kcursor s) else TooMany"
  let ?st = "st(t := Done ?v)"
  note i = kp_relatedD(1) [OF r] and max = kp_inv_max [OF kp_relatedD(1) [OF r]]
  have w: "st t = Wait Register {}" using all_okD [OF kp_relatedD(5) [OF r], of t] p by simp
  have f: "knodes s' = knodes s" "khead s' = khead s" "ktail s' = ktail s" "kbrk s' = kbrk s" "kstate s' = kstate s"
    "kmax s' = kmax s" "kcursor s' = Suc (kcursor s)" "x = Return ?v"
    "khandle s' = (if kcursor s < n then (khandle s)(t := Some (kcursor s)) else khandle s)"
    using b max by (auto simp: Let_def split: if_splits)
  have "slot_ok s' g k = slot_ok s g k" for k by (rule same_nodes(4) [OF f(1,2)]) (simp_all add: f)
  moreover have "kcursor s < n \<Longrightarrow> khandle s u \<noteq> Some (kcursor s)" for u using kp_inv_handle [OF i, of u "kcursor s"] by auto
  ultimately have inv: "kp_inv n s' g"
    using i unfolding kp_inv_def same_nodes(1) [OF f(1-4)] same_nodes(2) [OF f(1,2)] f(5-7,9)
    by (auto simp: less_Suc_eq)
  have t: "act g k \<Longrightarrow> who g k \<noteq> t" for k by (rule not_caller [OF r]) (use p in \<open>auto simp: in_call_def\<close>)
  have "slot_move t s g s' g k" for k by (rule slot_move.same) (simp_all add: f(5))
  then have "kp_rely t s g s' g"
    using kp_rely_refl [OF kp_inv_chain [OF i], of t] by (simp add: kp_rely_def f)
  then have tr: "kp_trans n t s g s' g" using i inv by (simp add: kp_trans_def)
  have "all_ok (kp_ok n s' g) (th(t := x)) ?st" by (rule others_related [OF r tr]) (simp_all add: f(8))
  moreover have "kp_callers s' g (th(t := x))"
    using callers_kept(3,4) [OF r tr] t by (simp add: kp_callers_def)
  moreover have "kp_statuses s' g ?st"
    using kp_relatedD(4) [OF r] t same_nodes(5) [OF f(1,2)] f(5) by (simp add: kp_statuses_def)
  ultimately have "kp_related n s' g (th(t := x)) ?st" using inv by (simp add: kp_related_def)
  then have "kp_rel n s' (th(t := x)) (kp_abs s g, Suc (kcursor s)) ?st"
    using same_nodes(3) [OF f(1,2)] f(7) unfolding kp_rel_def by (intro exI [of _ g]) simp
  then show ?thesis using w by (intro exI [of _ "[Lin t]"] exI [of _ "(kp_abs s g, Suc (kcursor s))"] exI [of _ ?st]) simp
qed

lemma kp_beg_rel:
  assumes r: "kp_related n s g th st" and th: "th t = Idle" and can: "kp_can s t oper" and b: "kp_beg s t oper = (s', p)"
  shows "kp_rel n s' (th(t := Busy p)) (kp_abs s g, kcursor s) (st(t := Wait oper {}))"
proof -
  note size = kp_inv_size [OF kp_relatedD(1) [OF r]]
  have idle: "\<not> in_call s i (th t)" for i using th by (simp add: in_call_def)
  have "s' = s \<and> kp_ok n s g t p (Wait oper {})"
  proof (cases oper)
    case (Apply o')
    then obtain i where i: "khandle s t = Some i" using can by auto
    have "\<not> act g i" by (rule not_in_call [OF r i idle])
    moreover have "i < n" using kp_inv_handle [OF kp_relatedD(1) [OF r] i] by simp
    moreover from this obtain k where "k < n" "seen g i \<le> phase (slot s k)" using kp_inv_seen [OF kp_relatedD(1) [OF r]] by blast
    ultimately show ?thesis using b Apply i size by (auto simp: phase_next_def)
  qed (use b in simp)
  then have k: "s' = s" "kp_ok n s g t p (Wait oper {})" by simp_all
  have "kp_related n s g (th(t := Busy p)) (st(t := Wait oper {}))"
    by (rule pc_related [OF r]) (use k(2) not_caller [OF r idle] in simp_all)
  with k(1) show ?thesis by (auto simp: kp_rel_def)
qed

text \<open>When a call returns, its slot is no longer active.\<close>

lemma kp_ret_rel:
  assumes r: "kp_related n s g th st" and th: "th t = Return v"
  shows "kp_rel n s (th(t := Idle)) (kp_abs s g, kcursor s) (st(t := Quiet))"
proof -
  define g' where "g' = g\<lparr>act := (\<lambda>i. act g i \<and> who g i \<noteq> t)\<rparr>"
  have c: "\<not> pending (slot s i) \<and> claim s (khead s) \<noteq> int i" if "act g i" "who g i = t" for i
    using kp_relatedD(3) [OF r that(1)] that(2) th by (simp add: in_call_def)
  have h: "khandle s t = Some i" if "act g i" "who g i = t" for i using kp_relatedD(2) [OF r that(1)] that(2) by simp
  note i = kp_relatedD(1) [OF r]
  have "slot_ok s g' k" if "k < n" for k
  proof -
    have "enq_desc_ok s g' k m = enq_desc_ok s g k m" "deq_desc_ok s g' k q m = deq_desc_ok s g k q m" for m q
      by (simp_all add: enq_desc_ok_def deq_desc_ok_def g'_def)
    moreover have "\<not> act g' k \<longrightarrow> \<not> pending (slot s k) \<and> claim s (khead s) \<noteq> int k"
      using slot_okD(4) [OF kp_inv_slot [OF i that]] c [of k] by (auto simp: g'_def)
    ultimately show ?thesis using kp_inv_slot [OF i that] by (simp add: slot_ok_def)
  qed
  then have inv: "kp_inv n s g'" using i by (simp add: kp_inv_def chain_ok_def claims_ok_def g'_def)
  have "slot_move t s g s g' k" for k by (rule slot_move.same) (simp_all add: g'_def)
  moreover have "khandle s t \<noteq> Some k \<Longrightarrow> act g' k = act g k" for k using h by (auto simp: g'_def)
  ultimately have "kp_rely t s g s g'"
    using kp_rely_refl [OF kp_inv_chain [OF i], of t] by (simp add: kp_rely_def g'_def)
  then have tr: "kp_trans n t s g s g'" using i inv by (simp add: kp_trans_def)
  have "all_ok (kp_ok n s g') (th(t := Idle)) (st(t := Quiet))"
    by (rule others_related [OF r tr]) (simp_all split: if_splits)
  moreover have "kp_callers s g' (th(t := Idle))"
    using callers_kept(3,4) [OF r tr] by (simp add: kp_callers_def g'_def)
  moreover have "slot_status s g' k x = slot_status s g k x" for k x by (simp add: slot_status_def g'_def)
  then have "kp_statuses s g' (st(t := Quiet))" using kp_relatedD(4) [OF r] by (simp add: kp_statuses_def g'_def)
  ultimately have "kp_related n s g' (th(t := Idle)) (st(t := Quiet))" using inv by (simp add: kp_related_def)
  moreover have "kp_abs s g' = kp_abs s g" by (simp add: kp_abs_def kp_front_def g'_def)
  ultimately show ?thesis by (auto simp: kp_rel_def intro!: exI [of _ g'])
qed

definition ghost0 :: kp_ghost where
  "ghost0 = \<lparr>kseq = [0], hix = 0, tix = 0, act = (\<lambda>_. False), who = (\<lambda>_. 0), seen = (\<lambda>_. -1), sawe = (\<lambda>_. False)\<rparr>"

lemma kp_new_rel:
  assumes "NewKpQueue zero n = Some s"
  shows "kp_rel n s (\<lambda>_. Idle) ([], 0) (\<lambda>_. Quiet)"
proof -
  have n: "0 < n" and s: "s = \<lparr>knodes = (\<lambda>_. newNode zero noTid), kbrk = 1, khead = 0, ktail = 0,
        kstate = replicate n \<lparr>phase = -1, pending = False, enqueue = True, dnode = None, dver = 0\<rparr>,
        kcursor = 0, kmax = n, khandle = (\<lambda>_. None)\<rparr>"
    using assms by (auto simp: NewKpQueue_def split: if_splits)
  have "kp_inv n s ghost0"
    using n by (auto simp: kp_inv_def chain_ok_def claims_ok_def slot_ok_def s ghost0_def newNode_def)
  then have "kp_related n s ghost0 (\<lambda>_. Idle) (\<lambda>_. Quiet)"
    by (simp add: kp_related_def kp_callers_def kp_statuses_def all_ok_def ghost0_def)
  moreover have "kp_abs s ghost0 = []" "kcursor s = 0" by (simp_all add: kp_abs_def kp_front_def ghost0_def s newNode_def)
  ultimately show ?thesis unfolding kp_rel_def by metis
qed

subsection \<open>Simulation\<close>

theorem kp_sim:
  assumes new: "NewKpQueue zero n = Some s"
  shows "sim_machine (kp_machine s) (uc_spec n queue_spec) ([], 0) (kp_rel n)"
proof
  show "kp_rel n (sh0 (kp_machine s)) (\<lambda>_. Idle) ([], 0) (\<lambda>_. Quiet)" using kp_new_rel [OF new] by simp
next
  fix sh th a st and t :: tid
  assume "kp_rel n sh th a st"
  then show "th t = Idle \<Longrightarrow> st t = Quiet" and "th t \<noteq> Panic"
    unfolding kp_rel_def by (auto dest!: kp_relatedD(5) dest: all_okD [where u = t])
next
  fix sh th a st t oper sh' p
  assume "kp_rel n sh th a st" "th t = Idle" "can (kp_machine s) sh t oper" "beg (kp_machine s) sh t oper = (sh', p)"
  then show "kp_rel n sh' (th(t := Busy p)) a (st(t := Wait oper {}))"
    unfolding kp_rel_def [of n sh] by (auto dest: kp_beg_rel simp del: fun_upd_apply)
next
  fix sh th a st t p sh' x
  assume r: "kp_rel n sh th a st" and t: "th t = Busy p" and b: "stp (kp_machine s) sh t p = (sh', x)"
  then obtain g where g: "kp_related n sh g th st" and a: "a = (kp_abs sh g, kcursor sh)" by (auto simp: kp_rel_def)
  show "\<exists>E a' st'. visible E = [] \<and> lin_run (uc_spec n queue_spec) (a, st) E = Some (a', st') \<and> kp_rel n sh' (th(t := x)) a' st'"
  proof (cases p)
    case KHandle
    then show ?thesis using handle_rel [OF g t [unfolded KHandle]] b a by simp
  next
    case (MaxPhase i oper j m)
    note P = phase_rel [OF g t [unfolded MaxPhase]]
    show ?thesis using P b MaxPhase a by (intro exI [of _ "[]"] exI [of _ a] exI [of _ st]) (auto simp del: fun_upd_apply)
  next
    case (KAnnounce i oper ph)
    note P = announce_rel [OF g t [unfolded KAnnounce]]
    have "khandle sh t = Some i" using all_okD [OF kp_relatedD(5) [OF g], of t] t KAnnounce by simp
    then have "i < length (kstate sh)" using kp_inv_handle [OF kp_relatedD(1) [OF g]] kp_inv_size [OF kp_relatedD(1) [OF g]] by simp
    then have "sh' = announced sh i oper ph" "x = Busy (Help i oper ph (help_next oper (length (kstate sh)) 0))"
      using b KAnnounce by (cases oper; simp add: announced_def)+
    then show ?thesis using P a by (intro exI [of _ "[]"] exI [of _ a] exI [of _ st]) (simp del: fun_upd_apply)
  next
    case (Help i oper ph q)
    obtain y where y: "help_step i oper ph sh q = (sh', y)" "x = lift_help i oper ph y" using b Help by (auto split: prod.splits)
    then show ?thesis using help_rel [OF g t [unfolded Help] y(1)] a by simp
  qed
next
  fix sh th a st t v
  assume r: "kp_rel n sh th a st" and t: "th t = Return v"
  then obtain g where g: "kp_related n sh g th st" and a: "a = (kp_abs sh g, kcursor sh)" by (auto simp: kp_rel_def)
  have "thread_ok (kp_ok n sh g t) (Return v) (st t)" using all_okD [OF kp_relatedD(5) [OF g], of t] t by simp
  then show "(st t = Done v \<or> (\<exists>op R. st t = Wait op R \<and> v \<in> R)) \<and> kp_rel n sh (th(t := Idle)) a (st(t := Quiet))"
    using kp_ret_rel [OF g t] a by simp
qed

subsection \<open>Properties\<close>

text \<open>
  C2: The wait-free queue of Kogan and Petrank is linearizable: under every schedule of registrations and
  calls through handles, in which every operation may be completed by any helper, calls behave like
  operations of a sequential FIFO queue, and \<open>Handle\<close> hands out the numbers below \<open>maxHandles\<close> once each.
  No schedule dereferences \<open>nil\<close> or indexes the announce array out of range.
\<close>

theorem wf_queue_linearizable:
  assumes "NewKpQueue zero n = Some s"
  shows "linearizable (uc_spec n queue_spec) ([], 0) (history (kp_machine s) acts) \<and>
    snd (run (kp_machine s) acts) t \<noteq> Panic"
  using sim_machine.linearizable [OF kp_sim [OF assms]] sim_machine.no_panic [OF kp_sim [OF assms]] by blast

theorem wf_queue_linearizable_witness:
  "let s = the (NewKpQueue (0::int) 2);
       acts = [Start 0 Register, Start 1 Register, Step 1, Step 1, Step 0, Step 0,
         Start 1 (Apply (Enqueue 7)), Step 1, Start 0 (Apply Dequeue), Step 0, Step 1, Step 1] in
   linearizable (uc_spec 2 queue_spec) ([], 0) (history (kp_machine s) acts) \<and>
   snd (run (kp_machine s) acts) 1 \<noteq> Panic"
  unfolding Let_def by (rule wf_queue_linearizable) (simp add: NewKpQueue_def)

definition kp_shape :: "nat \<Rightarrow> 'a kp_queue \<Rightarrow> (tid \<Rightarrow> ('a kp_pc, 'a resp uc_resp) thread) \<Rightarrow> bool" where
  "kp_shape n s th \<longleftrightarrow>
     (\<forall>m. knext (knodes s (ktail s)) = Some m \<longrightarrow> knext (knodes s m) = None) \<and>
     (claim s (khead s) \<noteq> noTid \<longrightarrow> knext (knodes s (khead s)) \<noteq> None \<and>
       (\<exists>i < n. claim s (khead s) = int i \<and> \<not> enqueue (slot s i) \<and> dnode (slot s i) = Some (khead s))) \<and>
     (\<forall>i < n. pending (slot s i) \<longrightarrow>
       (\<exists>t. {u. khandle s u = Some i} = {t} \<and> (\<exists>oper ph p. th t = Busy (Help i oper ph p))))"

lemma kp_rel_shape:
  assumes "kp_rel n s' th a st"
  shows "kp_shape n s' th"
  unfolding kp_shape_def
proof (intro conjI)
  obtain g where r: "kp_related n s' g th st" using assms by (auto simp: kp_rel_def)
  note i = kp_relatedD(1) [OF r]
  note C = kp_inv_chain [OF i] and CL = kp_inv_claims [OF i]
  show "\<forall>m. knext (knodes s' (ktail s')) = Some m \<longrightarrow> knext (knodes s' m) = None"
  proof (intro allI impI)
    fix m assume "knext (knodes s' (ktail s')) = Some m"
    then have "Suc (tix g) < length (kseq g)" "m = kseq g ! Suc (tix g)"
      using chain_okD(3,6) [OF C] chain_okD(8) [OF C, of "tix g"] by (auto split: if_splits)
    then show "knext (knodes s' m) = None" using chain_okD(4) [OF C] chain_okD(8) [OF C, of "Suc (tix g)"] by simp
  qed
  show "claim s' (khead s') \<noteq> noTid \<longrightarrow> knext (knodes s' (khead s')) \<noteq> None \<and>
      (\<exists>i < n. claim s' (khead s') = int i \<and> \<not> enqueue (slot s' i) \<and> dnode (slot s' i) = Some (khead s'))"
  proof
    assume c: "claim s' (khead s') \<noteq> noTid"
    then obtain j where j: "j < n" "claim s' (khead s') = int j"
      using claims_okD(3) [OF CL, of "hix g"] head_pos [OF i] by auto
    moreover have "hix g < tix g" by (rule claims_okD(5) [OF CL c])
    then have "knext (knodes s' (khead s')) \<noteq> None"
      using chain_okD(3,5) [OF C] chain_okD(8) [OF C, of "hix g"] by simp
    ultimately show "knext (knodes s' (khead s')) \<noteq> None \<and>
      (\<exists>i < n. claim s' (khead s') = int i \<and> \<not> enqueue (slot s' i) \<and> dnode (slot s' i) = Some (khead s'))"
      using slot_okD(3) [OF kp_inv_slot [OF i j(1)] j(2)] by blast
  qed
  show "\<forall>i < n. pending (slot s' i) \<longrightarrow> (\<exists>t. {u. khandle s' u = Some i} = {t} \<and> (\<exists>oper ph p. th t = Busy (Help i oper ph p)))"
  proof (intro allI impI)
    fix k assume k: "k < n" "pending (slot s' k)"
    have a: "act g k" by (rule pending_active [OF i k])
    have h: "khandle s' (who g k) = Some k" by (rule kp_relatedD(2) [OF r a])
    then have "{u. khandle s' u = Some k} = {who g k}" using kp_inv_inj [OF i] by blast
    moreover have "\<exists>oper ph p. th (who g k) = Busy (Help k oper ph p)"
      using kp_relatedD(3) [OF r a] k(2) by (auto simp: in_call_def split: thread.splits)
    ultimately show "\<exists>t. {u. khandle s' u = Some k} = {t} \<and> (\<exists>oper ph p. th t = Busy (Help k oper ph p))" by blast
  qed
qed

text \<open>
  C22: In every reachable state of the wait-free queue, \<open>tail\<close> lags behind the last node by at most one node; a
  claimed \<open>head\<close> names the slot of a dequeue that has \<open>head\<close> as its candidate, and is not the last node; and a
  slot with a pending operation belongs to exactly one goroutine, which is inside that call.
\<close>

theorem wf_queue_invariant:
  assumes "NewKpQueue zero n = Some s"
  shows "kp_shape n (fst (run (kp_machine s) acts)) (snd (run (kp_machine s) acts))"
  using kp_rel_shape sim_machine.reachable_rel [OF kp_sim [OF assms]] by blast
theorem wf_queue_invariant_witness:
  "let r = run (kp_machine (the (NewKpQueue (0::int) 1)))
     [Start 0 Register, Step 0, Step 0, Start 0 (Apply (Enqueue 5)), Step 0, Step 0, Step 0]
   in kp_shape 1 (fst r) (snd r)"
  unfolding Let_def by (rule wf_queue_invariant) (simp add: NewKpQueue_def)

end
