(* ===== verification/Kp_Progress.thy ===== *)
theory Kp_Progress
  imports Kp_Facts
begin

text \<open>
  The Kogan-Petrank queue: why no operation starves. While an announced operation is pending, every
  other goroutine completes at most one call, the one in which it may have been before it could see
  the announcement: in its next call it gets a larger phase and cannot pass the slot.
\<close>

subsection \<open>Before the slot\<close>

fun kont_before :: "nat \<Rightarrow> kont \<Rightarrow> bool" where
  "kont_before j (KNext k) \<longleftrightarrow> k \<le> j"
| "kont_before j (KEnq k) \<longleftrightarrow> k \<le> j"
| "kont_before j (KDeq k) \<longleftrightarrow> k \<le> j"
| "kont_before j KEnd \<longleftrightarrow> False"

fun help_before :: "nat \<Rightarrow> help_pc \<Rightarrow> bool" where
  "help_before j (HLoad k) \<longleftrightarrow> k \<le> j"
| "help_before j (HEnq k p) \<longleftrightarrow> k \<le> j"
| "help_before j (HDeq k p) \<longleftrightarrow> k \<le> j"
| "help_before j (FinEnq k p) \<longleftrightarrow> kont_before j k"
| "help_before j (FinDeq k p) \<longleftrightarrow> kont_before j k"
| "help_before j _ \<longleftrightarrow> False"

lemma help_next_before: "k \<le> j \<Longrightarrow> k \<noteq> j \<Longrightarrow> j < n \<Longrightarrow> help_before j (help_next oper n (Suc k))"
  by (simp add: help_next_def)

lemma resume_before:
  assumes "kont_before j k" and "k \<noteq> KNext j" and "j < n"
  shows "\<exists>q. resume oper n k = Busy q \<and> help_before j q"
  using assms help_next_before [of _ j n oper] by (cases k) auto

text \<open>A helper with a phase that is large enough does not pass a pending slot.\<close>

lemma help_stays_before:
  assumes i: "kp_inv n s g" and h: "help_ok n s g i oper ph p" and b: "help_before j p"
    and j: "j < n" "due s ph j" and s: "help_step i oper ph s p = (s', x)"
  shows "\<exists>q. x = Busy q \<and> help_before j q"
proof -
  note size = kp_inv_size [OF i]
  have nx: "k \<le> j \<Longrightarrow> k \<noteq> j \<Longrightarrow> help_before j (help_next oper n (Suc k))" for k
    by (rule help_next_before [OF _ _ j(1)])
  show ?thesis
  proof (cases p)
    case (HLoad k)
    then have "x = Busy (if due s ph k then (if enqueue (slot s k) then HEnq k EPend else HDeq k DPend) else help_next oper n (Suc k))"
      using s h size by (auto simp: at_slot_def due_def)
    then show ?thesis using HLoad b j(2) nx by auto
  next
    case (HEnq k q)
    have "k < n" using h HEnq by (simp add: helps_def)
    then have "x = Busy (help_next oper n (Suc k)) \<and> \<not> due s ph k \<or> (\<exists>q. x = Busy (HEnq k q)) \<or>
        (\<exists>q. x = Busy (FinEnq (KEnq k) q)) \<or> (\<exists>q. x = Busy (FinEnq (KNext k) q))"
      using s HEnq size by (cases q) (auto simp: at_slot_def split: if_splits)
    then show ?thesis using HEnq b j(2) nx by auto
  next
    case (HDeq k q)
    have "k < n" using h HDeq by (simp add: helps_def)
    then have "x = Busy (help_next oper n (Suc k)) \<and> \<not> due s ph k \<or> (\<exists>q. x = Busy (HDeq k q)) \<or>
        (\<exists>q. x = Busy (FinEnq (KDeq k) q)) \<or> (\<exists>q. x = Busy (FinDeq (KDeq k) q))"
      using s HDeq size by (cases q) (auto simp: at_slot_def split: if_splits prod.splits)
    then show ?thesis using HDeq b j(2) nx by auto
  next
    case (FinEnq k q)
    have o: "kont_ok n s g i ph k" "fin_enq_ok n s g ph k q" using h FinEnq by simp_all
    have slot: "enq_slot s m < length (kstate s)" if "follows_tail s g l m" for l m
      using follows_linked(2) [OF i that] size by simp
    show ?thesis
    proof (cases "fin_enq_leaves s q")
      case True
      have "k \<noteq> KNext j" using fin_enq_settles [OF i o True] j(2) by (auto simp: owes_def)
      moreover have "snd (fin_enq_step oper k s q) = resume oper (length (kstate s)) k"
        by (rule fin_enq_leaves_step [OF True]) (use o(2) slot in auto)
      ultimately show ?thesis using s FinEnq b j(1) size resume_before [of j k n oper] by auto
    next
      case False
      have "\<exists>q'. x = Busy (FinEnq k q')"
        using s FinEnq False o(2) slot follows_linked(3) [OF i]
        by (cases q) (auto simp: at_slot_def split: option.splits if_splits)
      then show ?thesis using FinEnq b by auto
    qed
  next
    case (FinDeq k q)
    have "x = resume oper n k \<or> (\<exists>q'. x = Busy (FinDeq k q'))"
    proof -
      have "\<not> claim s f < 0" if "reached g (hix g) f" "claim s f \<noteq> noTid" for f
        using that claims_okD(3) [OF kp_inv_claims [OF i]] by (fastforce simp: reached_def)
      then show ?thesis using s FinDeq h size
        by (cases q) (auto simp: at_slot_def Let_def claimed_by_def split: option.splits if_splits)
    qed
    moreover have "k \<noteq> KNext j" using h FinDeq by auto
    ultimately show ?thesis using FinDeq b j(1) resume_before [of j k n oper] by auto
  qed (use b in simp_all)
qed

subsection \<open>The second call\<close>

text \<open>The goroutine cannot complete a call while slot \<open>j\<close> holds a pending operation with phase \<open>d\<close>.\<close>

definition held_back :: "nat \<Rightarrow> int \<Rightarrow> ('a kp_pc, 'a resp uc_resp) thread \<Rightarrow> bool" where
  "held_back j d x \<longleftrightarrow>
     (case x of
        Busy (MaxPhase i oper k m) \<Rightarrow> j < k \<longrightarrow> d \<le> m
      | Busy (KAnnounce i oper ph) \<Rightarrow> d < ph
      | Busy (Help i oper ph p) \<Rightarrow> d < ph \<and> help_before j p
      | Return r \<Rightarrow> \<forall>v. r \<noteq> Reply v
      | _ \<Rightarrow> True)"

lemma held_back_step:
  assumes r: "kp_related n s g th st" and j: "j < n" "pending (slot s j)" "phase (slot s j) = d"
    and b: "held_back j d (th u)"
  shows "held_back j d (snd (sys_step (kp_machine s0) (s, th) a) u)"
proof -
  note i = kp_relatedD(1) [OF r] and size = kp_inv_size [OF kp_relatedD(1) [OF r]]
  have ok: "thread_ok (kp_ok n s g u) (th u) (st u)" by (rule all_okD [OF kp_relatedD(5) [OF r]])
  show ?thesis
  proof (cases a)
    case (Start v oper)
    have "held_back j d (Busy (snd (kp_beg s u oper)))"
      using j(1) size by (cases oper) (auto simp: held_back_def phase_next_def)
    then show ?thesis using b Start by (auto split: thread.splits prod.splits)
  next
    case (Step v)
    show ?thesis
    proof (cases "u = v \<and> is_busy (th u)")
      case False
      then show ?thesis using b Step by (auto simp: held_back_def split: thread.splits prod.splits)
    next
      case True
      then obtain p where p: "th u = Busy p" by (auto elim: is_busyE)
      obtain s' x where x: "kp_step s u p = (s', x)" by fastforce
      have "held_back j d x"
      proof (cases p)
        case KHandle
        then show ?thesis using x by (auto simp: held_back_def Let_def split: if_splits)
      next
        case (MaxPhase i' oper k m)
        then have "k < n" "j < k \<longrightarrow> d \<le> m" using ok p b by (auto simp: held_back_def)
        then have "x = Busy (phase_next s i' oper (Suc k) (max m (phase (slot s k))))" using x MaxPhase size by auto
        moreover have "j < Suc k \<longrightarrow> d \<le> max m (phase (slot s k))"
          using \<open>j < k \<longrightarrow> d \<le> m\<close> j(3) by (auto simp: less_Suc_eq)
        ultimately show ?thesis using j(1) size by (auto simp: held_back_def phase_next_def)
      next
        case (KAnnounce i' oper ph)
        then have h: "khandle s u = Some i'" "d < ph" using ok p b by (auto simp: held_back_def)
        then have "i' < length (kstate s)" using kp_inv_handle [OF i] size by simp
        then have "x = Busy (Help i' oper ph (help_next oper n 0))" using x KAnnounce size by (auto split: queue_op.splits)
        then show ?thesis using h(2) j(1) by (simp add: held_back_def help_next_def)
      next
        case (Help i' oper ph q)
        then have h: "help_ok n s g i' oper ph q" "d < ph" "help_before j q" using ok p b by (auto simp: held_back_def)
        obtain y where y: "help_step i' oper ph s q = (s', y)" "x = lift_help i' oper ph y"
          using x Help by (auto split: prod.splits)
        have "due s ph j" using j h(2) by (simp add: due_def)
        from help_stays_before [OF i h(1,3) j(1) this y(1)] show ?thesis using y(2) h(2) by (auto simp: held_back_def)
      qed
      then show ?thesis using True Step p x by simp
    qed
  qed
qed

fun is_reply :: "tid \<Rightarrow> ('o, 'a uc_resp) event \<Rightarrow> bool" where
  "is_reply u (Res v (Reply r)) \<longleftrightarrow> v = u"
| "is_reply u _ \<longleftrightarrow> False"

text \<open>The number of calls of operations that goroutine \<open>u\<close> completes in a schedule.\<close>

definition replies :: "('sh, 'pc, 'o, 'r uc_resp) machine \<Rightarrow> ('sh, 'pc, 'r uc_resp) sys \<Rightarrow> 'o action list \<Rightarrow> tid \<Rightarrow> nat" where
  "replies M c acts u = length (filter (is_reply u) (events_from M c acts))"

lemma replies_snoc:
  "replies M c (acts @ [a]) u = replies M c acts u + length (filter (is_reply u) (sys_events M (run_from M c acts) a))"
  by (simp add: replies_def events_from_append)

lemma reply_event:
  assumes "c = (s, th)"
  shows "length (filter (is_reply u) (sys_events M c a)) = (if a = Step u \<and> (\<exists>v. th u = Return (Reply v)) then 1 else 0)"
proof (cases a)
  case (Step v)
  show ?thesis
  proof (cases "th v")
    case (Return r)
    then show ?thesis using Step assms by (cases r) auto
  qed (use Step assms in auto)
qed (use assms in \<open>auto split: thread.splits\<close>)

text \<open>The operation that is pending in slot \<open>j\<close> of \<open>s\<close> is still pending in \<open>s'\<close>.\<close>

definition still :: "nat \<Rightarrow> 'a kp_queue \<Rightarrow> 'a kp_queue \<Rightarrow> bool" where
  "still j s s' \<longleftrightarrow> pending (slot s' j) \<and> phase (slot s' j) = phase (slot s j)"

text \<open>A predicate holds in all states of a schedule.\<close>

fun always :: "('sh, 'pc, 'o, 'r) machine \<Rightarrow> ('sh \<Rightarrow> bool) \<Rightarrow> ('sh, 'pc, 'r) sys \<Rightarrow> 'o action list \<Rightarrow> bool" where
  "always M P c [] = P (fst c)"
| "always M P c (a # acts) = (P (fst c) \<and> always M P (sys_step M c a) acts)"

lemma always_snoc: "always M P c (acts @ [a]) \<longleftrightarrow> always M P c acts \<and> P (fst (run_from M c (acts @ [a])))"
  by (induction acts arbitrary: c) auto

lemma always_last: "always M P c acts \<Longrightarrow> P (fst (run_from M c acts))"
  by (induction acts arbitrary: c) auto

lemma bypass_invariant:
  assumes M: "NewKpQueue zero n = Some s0" "M = kp_machine s0" and c: "reachable M c" and j: "j < n"
    and p: "always M (still j (fst c)) c acts"
  shows "replies M c acts u \<le> 1 \<and>
    (replies M c acts u = 1 \<longrightarrow> held_back j (phase (slot (fst c) j)) (snd (run_from M c acts) u))"
  using p
proof (induction acts rule: rev_induct)
  case Nil
  then show ?case by (simp add: replies_def)
next
  case (snoc a acts)
  let ?d = "phase (slot (fst c) j)"
  have al: "always M (still j (fst c)) c acts" using snoc.prems by (simp add: always_snoc)
  note IH = conjunct1 [OF snoc.IH [OF al]] conjunct2 [OF snoc.IH [OF al]]
  obtain s th where r: "run_from M c acts = (s, th)" by fastforce
  have "still j (fst c) s" using always_last [OF al] r by simp
  then have pend: "pending (slot s j)" "phase (slot s j) = ?d" by (simp_all add: still_def)
  obtain pre where "c = run M pre" using c by (auto simp: reachable_def)
  then have "(s, th) = run M (pre @ acts)" using r by (simp add: run_append)
  then obtain a0 st where "kp_rel n s th a0 st"
    using sim_machine.reachable_rel [OF kp_sim [OF M(1)], of "pre @ acts"] M(2) by (metis fst_conv snd_conv)
  then obtain g where k: "kp_related n s g th st" by (auto simp: kp_rel_def)
  note step = held_back_step [OF k j pend, of u s0 a, folded M(2)]
  have e: "length (filter (is_reply u) (sys_events M (run_from M c acts) a)) =
      (if a = Step u \<and> (\<exists>v. th u = Return (Reply v)) then 1 else 0)" by (rule reply_event [OF r])
  have next_run: "run_from M c (acts @ [a]) = sys_step M (s, th) a" using r by (simp add: run_from_append)
  show ?case
  proof (cases "a = Step u \<and> (\<exists>v. th u = Return (Reply v))")
    case True
    then have "\<not> held_back j ?d (th u)" by (auto simp: held_back_def)
    then have "replies M c acts u = 0" using IH r by (cases "replies M c acts u") auto
    moreover have "snd (run_from M c (acts @ [a])) u = Idle" using True next_run by auto
    ultimately show ?thesis using True e by (simp add: replies_snoc held_back_def)
  next
    case False
    then have "replies M c (acts @ [a]) u = replies M c acts u" using e by (simp add: replies_snoc)
    then show ?thesis using IH step r next_run by simp
  qed
qed

text \<open>
  C21: No starvation in the wait-free queue: while the operation announced in slot \<open>j\<close> is pending, whatever the
  schedule does, no goroutine completes more than one operation (the one it may have been in already): in
  its next one it would have to help slot \<open>j\<close> first.
\<close>

theorem wf_queue_bypass:
  assumes "NewKpQueue zero n = Some s" and "c = run (kp_machine s) pre" and "j < n"
    and "always (kp_machine s) (still j (fst c)) c acts"
  shows "replies (kp_machine s) c acts u \<le> 1"
  using bypass_invariant [OF assms(1) refl, of c j acts u] assms(2-4) by auto

theorem wf_queue_bypass_witness:
  "let s = the (NewKpQueue (0::int) 2); c = run (kp_machine s)
       ([Start 0 Register, Step 0, Step 0, Start 1 Register, Step 1, Step 1,
         Start 0 (Apply (Enqueue 5)), Step 0, Step 0, Step 0])
   in pending (slot (fst c) 0) \<and>
     replies (kp_machine s) c [Start 1 (Apply Dequeue), Step 1, Step 1, Step 1, Step 1, Step 1, Step 1] 1 \<le> 1"
  unfolding Let_def
proof
  note eval = NewKpQueue_def run_def start_sys_def Let_def phase_next_def set_desc_def newNode_def help_next_def
    at_slot_def numeral_eq_Suc
  let ?s = "the (NewKpQueue (0::int) 2)"
  let ?c = "run (kp_machine ?s) ([Start 0 Register, Step 0, Step 0, Start 1 Register, Step 1, Step 1,
         Start 0 (Apply (Enqueue 5)), Step 0, Step 0, Step 0])"
  let ?acts = "[Start 1 (Apply Dequeue), Step 1, Step 1, Step 1, Step 1, Step 1, Step 1]"
  show "pending (slot (fst ?c) 0)" by (simp add: eval)
  have "always (kp_machine ?s) (still 0 (fst ?c)) ?c ?acts" by (simp add: eval still_def)
  then show "replies (kp_machine ?s) ?c ?acts 1 \<le> 1"
    by (intro wf_queue_bypass [where j = 0 and n = 2, OF _ refl]) (simp_all add: NewKpQueue_def)
qed

end
