(* ===== verification/Possibilities.thy ===== *)
theory Possibilities
  imports Simulation
begin

text \<open>
  Linearizability when the moment at which a call took effect is only known later. A simulation
  relates a state of the machine to one state of the canonical object. Here it is related to a
  set of them, the possibilities: for every choice of the calls that may already have taken effect,
  one state. Every possibility after a step must arise from some possibility before it; the step that
  decides keeps the possibilities in which the decision was made early enough. The rule of
  \<open>sim_machine\<close> is the case of one possibility.
\<close>

definition leads :: "('a \<Rightarrow> 'o \<Rightarrow> 'a \<times> 'r) \<Rightarrow> ('a, 'o, 'r) config set \<Rightarrow> ('o, 'r) event list \<Rightarrow>
    ('a, 'o, 'r) config set \<Rightarrow> bool" where
  "leads spec K h K' \<longleftrightarrow> (\<forall>c' \<in> K'. \<exists>c \<in> K. \<exists>E. visible E = h \<and> lin_run spec c E = Some c')"

lemma leads_refl: "leads spec K [] K"
  unfolding leads_def
proof
  fix c assume "c \<in> K"
  then show "\<exists>b \<in> K. \<exists>E. visible E = [] \<and> lin_run spec b E = Some c" by (intro bexI [of _ c] exI [of _ "[]"]) auto
qed

lemma leads_trans:
  assumes "leads spec K h K'" and "leads spec K' h' K''"
  shows "leads spec K (h @ h') K''"
  unfolding leads_def
proof
  fix c'' assume "c'' \<in> K''"
  then obtain c' E' where E': "c' \<in> K'" "visible E' = h'" "lin_run spec c' E' = Some c''"
    using assms(2) unfolding leads_def by blast
  then obtain c E where "c \<in> K" "visible E = h" "lin_run spec c E = Some c'"
    using assms(1) unfolding leads_def by blast
  then show "\<exists>c \<in> K. \<exists>E. visible E = h @ h' \<and> lin_run spec c E = Some c''"
    using E' by (intro bexI [of _ c] exI [of _ "E @ E'"]) (simp_all add: lin_run_append)
qed

locale poss_machine =
  fixes M :: "('sh, 'pc, 'o, 'r) machine"
    and spec :: "'a \<Rightarrow> 'o \<Rightarrow> 'a \<times> 'r"
    and a0 :: 'a
    and poss :: "'sh \<Rightarrow> (tid \<Rightarrow> ('pc, 'r) thread) \<Rightarrow> ('a, 'o, 'r) config set \<Rightarrow> bool"
  assumes poss_init: "\<exists>K. poss (sh0 M) (\<lambda>_. Idle) K \<and> K \<subseteq> {(a0, \<lambda>_. Quiet)}"
    and poss_some: "poss sh th K \<Longrightarrow> K \<noteq> {}"
    and poss_beg: "poss sh th K \<Longrightarrow> th t = Idle \<Longrightarrow> can M sh t op \<Longrightarrow> beg M sh t op = (sh', p) \<Longrightarrow>
      \<exists>K'. poss sh' (th(t := Busy p)) K' \<and> leads spec K [Inv t op] K'"
    and poss_stp: "poss sh th K \<Longrightarrow> th t = Busy p \<Longrightarrow> stp M sh t p = (sh', x) \<Longrightarrow>
      \<exists>K'. poss sh' (th(t := x)) K' \<and> leads spec K [] K'"
    and poss_ret: "poss sh th K \<Longrightarrow> th t = Return r \<Longrightarrow>
      \<exists>K'. poss sh (th(t := Idle)) K' \<and> leads spec K [Res t r] K'"
    and poss_panic: "poss sh th K \<Longrightarrow> th t \<noteq> Panic"
begin

lemma poss_action:
  assumes "poss sh th K"
  shows "\<exists>K'. poss (fst (sys_step M (sh, th) act)) (snd (sys_step M (sh, th) act)) K' \<and>
    leads spec K (sys_events M (sh, th) act) K'"
proof (cases act)
  case (Start t op)
  show ?thesis
  proof (cases "th t = Idle \<and> can M sh t op")
    case True
    obtain sh' p where b: "beg M sh t op = (sh', p)" by fastforce
    then show ?thesis using True poss_beg [OF assms _ _ b] by (simp add: Start del: fun_upd_apply)
  next
    case False
    then have "sys_step M (sh, th) act = (sh, th)" "sys_events M (sh, th) act = []"
      by (auto simp: Start split: thread.splits)
    then show ?thesis using assms leads_refl by auto
  qed
next
  case (Step t)
  show ?thesis
  proof (cases "th t")
    case (Busy p)
    obtain sh' x where b: "stp M sh t p = (sh', x)" by fastforce
    from poss_stp [OF assms Busy b] show ?thesis by (simp add: Step Busy b del: fun_upd_apply)
  next
    case (Return r)
    from poss_ret [OF assms Return] show ?thesis by (simp add: Step Return del: fun_upd_apply)
  qed (use assms leads_refl in \<open>auto simp: Step\<close>)
qed

lemma poss_run:
  "\<exists>K. poss (fst (run M acts)) (snd (run M acts)) K \<and> leads spec {(a0, \<lambda>_. Quiet)} (history M acts) K"
proof (induction acts rule: rev_induct)
  case Nil
  obtain K where "poss (sh0 M) (\<lambda>_. Idle) K" "K \<subseteq> {(a0, \<lambda>_. Quiet)}" using poss_init by blast
  moreover from this have "leads spec {(a0, \<lambda>_. Quiet)} [] K"
    using leads_refl [of spec "{(a0, \<lambda>_. Quiet)}"] by (auto simp: leads_def)
  ultimately show ?case by (auto simp: start_sys_def)
next
  case (snoc act acts)
  obtain sh th where r: "run M acts = (sh, th)" by fastforce
  with snoc obtain K where K: "poss sh th K" "leads spec {(a0, \<lambda>_. Quiet)} (history M acts) K" by auto
  from poss_action [OF K(1), of act] obtain K' where
    "poss (fst (sys_step M (sh, th) act)) (snd (sys_step M (sh, th) act)) K'" "leads spec K (sys_events M (sh, th) act) K'"
    by blast
  then show ?case using leads_trans [OF K(2)] r by auto
qed

lemma poss_linearizable: "linearizable spec a0 (history M acts)"
proof -
  obtain K where K: "poss (fst (run M acts)) (snd (run M acts)) K" "leads spec {(a0, \<lambda>_. Quiet)} (history M acts) K"
    using poss_run [of acts] by blast
  then obtain c where "c \<in> K" using poss_some by blast
  then obtain E where "visible E = history M acts" "lin_run spec (a0, \<lambda>_. Quiet) E = Some c"
    using K(2) by (auto simp: leads_def)
  then show ?thesis using lin_run_linearizable by metis
qed

lemma reachable_poss: "\<exists>K. poss (fst (run M acts)) (snd (run M acts)) K"
  using poss_run [of acts] by blast

lemma poss_no_panic: "snd (run M acts) t \<noteq> Panic"
  using reachable_poss [of acts] poss_panic by blast

end

text \<open>One possibility.\<close>

sublocale sim_machine \<subseteq> one: poss_machine M spec a0 "\<lambda>sh th K. \<exists>a st. K = {(a, st)} \<and> rel sh th a st"
proof
  show "\<exists>K. (\<exists>a st. K = {(a, st)} \<and> rel (sh0 M) (\<lambda>_. Idle) a st) \<and> K \<subseteq> {(a0, \<lambda>_. Quiet)}" using rel_init by blast
next
  fix sh th t op sh' p and K :: "('a, 'o, 'r) config set"
  assume "\<exists>a st. K = {(a, st)} \<and> rel sh th a st" and b: "th t = Idle" "can M sh t op" "beg M sh t op = (sh', p)"
  then obtain a st where K: "K = {(a, st)}" "rel sh th a st" by blast
  have "lin_run spec (a, st) [Inv t op] = Some (a, st(t := Wait op {}))" using rel_quiet [OF K(2) b(1)] by simp
  then have "leads spec K [Inv t op] {(a, st(t := Wait op {}))}"
    unfolding leads_def K(1) by (auto intro!: exI [of _ "[Inv t op]"])
  then show "\<exists>K'. (\<exists>a st. K' = {(a, st)} \<and> rel sh' (th(t := Busy p)) a st) \<and> leads spec K [Inv t op] K'"
    using rel_beg [OF K(2) b] by blast
next
  fix sh th t p sh' x and K :: "('a, 'o, 'r) config set"
  assume "\<exists>a st. K = {(a, st)} \<and> rel sh th a st" and b: "th t = Busy p" "stp M sh t p = (sh', x)"
  then obtain a st where K: "K = {(a, st)}" "rel sh th a st" by blast
  then obtain E a' st' where "visible E = []" "lin_run spec (a, st) E = Some (a', st')" "rel sh' (th(t := x)) a' st'"
    using rel_stp [OF K(2) b] by blast
  moreover from this(1,2) have "leads spec K [] {(a', st')}" unfolding leads_def K(1) by auto
  ultimately show "\<exists>K'. (\<exists>a st. K' = {(a, st)} \<and> rel sh' (th(t := x)) a st) \<and> leads spec K [] K'" by blast
next
  fix sh th t r and K :: "('a, 'o, 'r) config set"
  assume "\<exists>a st. K = {(a, st)} \<and> rel sh th a st" and b: "th t = Return r"
  then obtain a st where K: "K = {(a, st)}" "rel sh th a st" by blast
  note R = rel_ret [OF K(2) b]
  then have "lin_run spec (a, st) [Res t r] = Some (a, st(t := Quiet))" by auto
  then have "leads spec K [Res t r] {(a, st(t := Quiet))}"
    unfolding leads_def K(1) by (auto intro!: exI [of _ "[Res t r]"])
  then show "\<exists>K'. (\<exists>a st. K' = {(a, st)} \<and> rel sh (th(t := Idle)) a st) \<and> leads spec K [Res t r] K'" using R by blast
qed (use rel_panic in auto)

end
