(* ===== verification/St_Deque.thy ===== *)
theory St_Deque
  imports Possibilities Ordered_List
begin

text \<open>
  \<open>lf/deque.go\<close>: the lock-free deque of Sundell and Tsigas over a doubly linked list, the model. The
  \<open>next\<close> references make up the list, their marks delete nodes; the \<open>prev\<close> references are hints
  that \<open>helpInsert\<close> corrects. Every access to an atomic reference is a step. The stores into a node that is not
  linked yet belong to the step that made it necessary.
\<close>

subsection \<open>Memory\<close>

text \<open>
  An \<open>atomicMarkable\<close> is an atomic pointer to an immutable pair of a reference and a mark; \<open>lver\<close> stands
  for the identity of the pair, every store puts a new one.
\<close>

record dlink =
  lref :: ptr
  lmark :: bool
  lver :: nat

record 'a denode =
  dvalue :: 'a
  dprev :: dlink
  dnext :: dlink

record 'a lf_deque =
  dnodes :: "loc \<Rightarrow> 'a denode"
  dbrk :: loc
  dhead :: loc
  dtail :: loc

definition fresh_link :: dlink where "fresh_link = \<lparr>lref = None, lmark = False, lver = 0\<rparr>"

definition set_link :: "dlink \<Rightarrow> ptr \<Rightarrow> bool \<Rightarrow> dlink" where
  "set_link m r mk = \<lparr>lref = r, lmark = mk, lver = Suc (lver m)\<rparr>"

definition set_next :: "'a lf_deque \<Rightarrow> loc \<Rightarrow> ptr \<Rightarrow> bool \<Rightarrow> 'a lf_deque" where
  "set_next s l r mk = s\<lparr>dnodes := (dnodes s)(l := (dnodes s l)\<lparr>dnext := set_link (dnext (dnodes s l)) r mk\<rparr>)\<rparr>"

definition set_prev :: "'a lf_deque \<Rightarrow> loc \<Rightarrow> ptr \<Rightarrow> bool \<Rightarrow> 'a lf_deque" where
  "set_prev s l r mk = s\<lparr>dnodes := (dnodes s)(l := (dnodes s l)\<lparr>dprev := set_link (dprev (dnodes s l)) r mk\<rparr>)\<rparr>"

definition new_denode :: "'a \<Rightarrow> 'a denode" where
  "new_denode v = \<lparr>dvalue = v, dprev = fresh_link, dnext = fresh_link\<rparr>"

text \<open>The head is cell 0 and the tail cell 1; \<open>zero\<close> is their value.\<close>

definition NewLfDeque :: "'a \<Rightarrow> 'a lf_deque" where
  "NewLfDeque zero =
     (let s = \<lparr>dnodes = (\<lambda>_. new_denode zero), dbrk = 2, dhead = 0, dtail = 1\<rparr>
      in set_next (set_prev (set_prev (set_next s 0 (Some 1) False) 0 (Some 0) False) 1 (Some 0) False) 1 (Some 1) False)"

definition derefActive :: "dlink \<Rightarrow> ptr" where
  "derefActive m = (if lmark m then None else lref m)"

text \<open>The two accesses of \<open>compareAndSet\<close>.\<close>

definition link_cas :: "dlink \<Rightarrow> ptr \<Rightarrow> ptr \<Rightarrow> bool \<Rightarrow> bool \<Rightarrow> cas_load" where
  "link_cas m expectRef newRef expectMark newMark =
     (if lref m \<noteq> expectRef \<or> lmark m \<noteq> expectMark then CasFails
      else if newRef = lref m \<and> newMark = lmark m then CasHolds
      else CasTry (lver m))"

definition cas_next :: "'a lf_deque \<Rightarrow> loc \<Rightarrow> nat \<Rightarrow> ptr \<Rightarrow> bool \<Rightarrow> 'a lf_deque option" where
  "cas_next s l ver r mk = (if lver (dnext (dnodes s l)) = ver then Some (set_next s l r mk) else None)"

definition cas_prev :: "'a lf_deque \<Rightarrow> loc \<Rightarrow> nat \<Rightarrow> ptr \<Rightarrow> bool \<Rightarrow> 'a lf_deque option" where
  "cas_prev s l ver r mk = (if lver (dprev (dnodes s l)) = ver then Some (set_prev s l r mk) else None)"

subsection \<open>Program counters\<close>

text \<open>What \<open>helpInsert\<close> returns to: the loop of \<open>PushBack\<close> with its node, the end of \<open>pushCommon\<close>, the end of a
  pop that took a node, the loop of \<open>PopBack\<close>.\<close>

datatype ins_user = ForPush loc | ForCommon | ForTaken loc | ForPopBack

text \<open>What \<open>helpDelete\<close> returns to: the loop of \<open>PopFront\<close>, the ends of \<open>PopFront\<close> and \<open>PopBack\<close>.\<close>

datatype del_user = ForRetry | ForFront loc | ForBack loc

text \<open>Program counters of \<open>helpInsert\<close>, with \<open>prev\<close> and \<open>last\<close>.\<close>

datatype ins_pc =
    IDeref loc ptr                  \<comment> \<open>\<open>prev2 := derefActive(&prev.next)\<close>\<close>
  | INext2 loc loc                  \<comment> \<open>\<open>next2 := prev.next.reference()\<close>\<close>
  | IUnl loc loc ptr                \<comment> \<open>\<open>last.next.compareAndSet(prev, next2, ..)\<close>, load\<close>
  | IUnlCas loc loc ptr nat         \<comment> \<open>the same, compare-and-swap\<close>
  | IUp loc                         \<comment> \<open>\<open>prev = prev.prev.reference()\<close>\<close>
  | ILink loc ptr loc               \<comment> \<open>\<open>node.prev.get()\<close>; \<open>prev2\<close>\<close>
  | ISucc loc ptr ptr               \<comment> \<open>\<open>prev.next.get()\<close>; \<open>link1Ref\<close>\<close>
  | ISet loc ptr ptr                \<comment> \<open>\<open>node.prev.compareAndSet(link1Ref, prev, ..)\<close>, load\<close>
  | ISetCas loc ptr ptr nat         \<comment> \<open>the same, compare-and-swap\<close>
  | IMarked loc ptr                 \<comment> \<open>\<open>prev.prev.get()\<close>\<close>

text \<open>Program counters of \<open>helpDelete\<close>, with \<open>prev\<close>, \<open>next\<close> and \<open>last\<close>.\<close>

datatype del_pc =
    DRefs                           \<comment> \<open>\<open>prev := node.prev.reference()\<close>\<close>
  | DNext loc                       \<comment> \<open>\<open>next := node.next.reference()\<close>\<close>
  | DTest loc loc ptr               \<comment> \<open>\<open>next.next.get()\<close>\<close>
  | DAdv loc loc ptr                \<comment> \<open>\<open>next = next.next.reference()\<close>\<close>
  | DDeref loc loc ptr              \<comment> \<open>\<open>prev2 := derefActive(&prev.next)\<close>\<close>
  | DNext2 loc loc loc              \<comment> \<open>\<open>next2 := prev.next.reference()\<close>\<close>
  | DUnl loc loc loc ptr            \<comment> \<open>\<open>last.next.compareAndSet(prev, next2, ..)\<close>, load\<close>
  | DUnlCas loc loc loc ptr nat     \<comment> \<open>the same, compare-and-swap\<close>
  | DUp loc loc                     \<comment> \<open>\<open>prev = prev.prev.reference()\<close>\<close>
  | DSplice loc loc ptr             \<comment> \<open>\<open>prev.next.compareAndSet(node, next, ..)\<close>, load\<close>
  | DSpliceCas loc loc ptr nat      \<comment> \<open>the same, compare-and-swap\<close>

text \<open>What \<open>markPrev\<close> returns to.\<close>

datatype mark_user =
    MStart del_user                       \<comment> \<open>the start of \<open>helpDelete\<close>\<close>
  | MNext del_user loc loc loc ptr        \<comment> \<open>\<open>helpDelete\<close>: \<open>next\<close> is deleted\<close>
  | MPrevD del_user loc loc loc loc       \<comment> \<open>\<open>helpDelete\<close>: \<open>prev\<close> is deleted\<close>
  | MPrevI ins_user loc loc loc           \<comment> \<open>\<open>helpInsert\<close>: \<open>prev\<close> is deleted\<close>

datatype mark_pc =
    MGet                            \<comment> \<open>\<open>link1Ref, link1Mark := node.prev.get()\<close>\<close>
  | MSet ptr                        \<comment> \<open>\<open>node.prev.compareAndSet(link1Ref, link1Ref, false, true)\<close>, load\<close>
  | MSetCas ptr nat                 \<comment> \<open>the same, compare-and-swap\<close>

datatype pushl_pc =
    LNext                           \<comment> \<open>\<open>next = derefActive(&prev.next)\<close>\<close>
  | LTest ptr                       \<comment> \<open>\<open>prev.next.get()\<close>\<close>
  | LLink ptr                       \<comment> \<open>\<open>prev.next.compareAndSet(next, node, ..)\<close>, load\<close>
  | LLinkCas ptr nat                \<comment> \<open>the same, compare-and-swap\<close>

datatype pushr_pc =
    RPrev                           \<comment> \<open>\<open>prev := derefActive(&next.prev)\<close>\<close>
  | RTest loc                       \<comment> \<open>\<open>prev.next.get()\<close>\<close>
  | RLink loc                       \<comment> \<open>\<open>prev.next.compareAndSet(next, node, ..)\<close>, load\<close>
  | RLinkCas loc nat                \<comment> \<open>the same, compare-and-swap\<close>

datatype common_pc =
    CPrev                           \<comment> \<open>\<open>next.prev.get()\<close>\<close>
  | CNext ptr bool                  \<comment> \<open>\<open>node.next.get()\<close>\<close>
  | CSet ptr                        \<comment> \<open>\<open>next.prev.compareAndSet(link1Ref, node, ..)\<close>, load\<close>
  | CSetCas ptr nat                 \<comment> \<open>the same, compare-and-swap\<close>
  | CMarked                         \<comment> \<open>\<open>node.prev.get()\<close>\<close>

datatype popl_pc =
    FNode                           \<comment> \<open>\<open>node = derefActive(&prev.next)\<close>\<close>
  | FLink loc                       \<comment> \<open>\<open>node.next.get()\<close>\<close>
  | FMark loc ptr                   \<comment> \<open>\<open>node.next.compareAndSet(link1Ref, link1Ref, false, true)\<close>, load\<close>
  | FMarkCas loc ptr nat            \<comment> \<open>the same, compare-and-swap\<close>
  | FRef loc                        \<comment> \<open>\<open>next := node.next.reference()\<close>\<close>

datatype popr_pc =
    BPrev                           \<comment> \<open>\<open>node := derefActive(&next.prev)\<close>\<close>
  | BTest loc                       \<comment> \<open>\<open>node.next.get()\<close>\<close>
  | BMark loc                       \<comment> \<open>\<open>node.next.compareAndSet(next, next, false, true)\<close>, load\<close>
  | BMarkCas loc nat                \<comment> \<open>the same, compare-and-swap\<close>
  | BRef loc                        \<comment> \<open>\<open>prev := node.prev.reference()\<close>\<close>

datatype de_pc =
    PushL loc pushl_pc              \<comment> \<open>in \<open>PushFront\<close>, with \<open>node\<close>\<close>
  | PushR loc pushr_pc              \<comment> \<open>in \<open>PushBack\<close>, with \<open>node\<close>\<close>
  | Common loc loc common_pc        \<comment> \<open>in \<open>pushCommon(node, next)\<close>\<close>
  | PopL popl_pc
  | PopR popr_pc
  | Ins ins_user loc ins_pc         \<comment> \<open>in \<open>helpInsert(_, node)\<close>\<close>
  | Del del_user loc del_pc         \<comment> \<open>in \<open>helpDelete(node)\<close>\<close>
  | Mark mark_user loc mark_pc      \<comment> \<open>in \<open>markPrev(node)\<close>\<close>

type_synonym 'a de_thread = "(de_pc, 'a resp) thread"

subsection \<open>markPrev, helpDelete and helpInsert\<close>

abbreviation nextl :: "'a lf_deque \<Rightarrow> loc \<Rightarrow> dlink" where "nextl s l \<equiv> dnext (dnodes s l)"
abbreviation prevl :: "'a lf_deque \<Rightarrow> loc \<Rightarrow> dlink" where "prevl s l \<equiv> dprev (dnodes s l)"

text \<open>A dereference of \<open>nil\<close> panics.\<close>

fun at_ptr :: "ptr \<Rightarrow> (loc \<Rightarrow> 'a de_thread) \<Rightarrow> 'a de_thread" where
  "at_ptr None f = Panic"
| "at_ptr (Some l) f = f l"

text \<open>\<open>helpInsert\<close> returns \<open>prev\<close>.\<close>

fun ins_return :: "'a lf_deque \<Rightarrow> ins_user \<Rightarrow> loc \<Rightarrow> 'a de_thread" where
  "ins_return s (ForPush l) prev = Busy (PushR l (RTest prev))"
| "ins_return s ForCommon prev = Return Ack"
| "ins_return s (ForTaken a) prev = Return (Got (Some (dvalue (dnodes s a))))"
| "ins_return s ForPopBack prev = Busy (PopR (BTest prev))"

fun del_return :: "del_user \<Rightarrow> 'a de_thread" where
  "del_return ForRetry = Busy (PopL FNode)"
| "del_return (ForFront a) = Busy (PopL (FRef a))"
| "del_return (ForBack a) = Busy (PopR (BRef a))"

text \<open>The test at the head of the loop of \<open>helpDelete\<close>.\<close>

definition del_loop :: "del_user \<Rightarrow> loc \<Rightarrow> loc \<Rightarrow> loc \<Rightarrow> ptr \<Rightarrow> 'a de_thread" where
  "del_loop u node prev nxt lst =
     (if prev = nxt then del_return u else Busy (Del u node (DTest prev nxt lst)))"

fun mark_return :: "mark_user \<Rightarrow> loc \<Rightarrow> 'a de_thread" where
  "mark_return (MStart u) node = Busy (Del u node DRefs)"
| "mark_return (MNext u n prev nxt lst) node = Busy (Del u n (DAdv prev nxt lst))"
| "mark_return (MPrevD u n prev nxt lst) node = Busy (Del u n (DNext2 prev nxt lst))"
| "mark_return (MPrevI u n prev lst) node = Busy (Ins u n (INext2 prev lst))"

fun mark_step :: "mark_user \<Rightarrow> loc \<Rightarrow> 'a lf_deque \<Rightarrow> mark_pc \<Rightarrow> 'a lf_deque \<times> 'a de_thread" where
  "mark_step u node s MGet =
     (s, if lmark (prevl s node) then mark_return u node else Busy (Mark u node (MSet (lref (prevl s node)))))"
| "mark_step u node s (MSet r) =
     (s, case link_cas (prevl s node) r r False True of
           CasFails \<Rightarrow> Busy (Mark u node MGet)
         | CasHolds \<Rightarrow> mark_return u node
         | CasTry ver \<Rightarrow> Busy (Mark u node (MSetCas r ver)))"
| "mark_step u node s (MSetCas r ver) =
     (case cas_prev s node ver r True of
        None \<Rightarrow> (s, Busy (Mark u node MGet))
      | Some s' \<Rightarrow> (s', mark_return u node))"

fun del_step :: "del_user \<Rightarrow> loc \<Rightarrow> 'a lf_deque \<Rightarrow> del_pc \<Rightarrow> 'a lf_deque \<times> 'a de_thread" where
  "del_step u node s DRefs = (s, at_ptr (lref (prevl s node)) (\<lambda>prev. Busy (Del u node (DNext prev))))"
| "del_step u node s (DNext prev) = (s, at_ptr (lref (nextl s node)) (\<lambda>nxt. del_loop u node prev nxt None))"
| "del_step u node s (DTest prev nxt lst) =
     (s, if lmark (nextl s nxt) then Busy (Mark (MNext u node prev nxt lst) nxt MGet)
         else Busy (Del u node (DDeref prev nxt lst)))"
| "del_step u node s (DAdv prev nxt lst) =
     (s, at_ptr (lref (nextl s nxt)) (\<lambda>nxt'. del_loop u node prev nxt' lst))"
| "del_step u node s (DDeref prev nxt lst) =
     (s, case derefActive (nextl s prev) of
           None \<Rightarrow> (case lst of
                      Some l \<Rightarrow> Busy (Mark (MPrevD u node prev nxt l) prev MGet)
                    | None \<Rightarrow> Busy (Del u node (DUp prev nxt)))
         | Some prev2 \<Rightarrow> if prev2 \<noteq> node then del_loop u node prev2 nxt (Some prev)
                         else Busy (Del u node (DSplice prev nxt lst)))"
| "del_step u node s (DNext2 prev nxt lst) = (s, Busy (Del u node (DUnl prev nxt lst (lref (nextl s prev)))))"
| "del_step u node s (DUnl prev nxt lst next2) =
     (s, case link_cas (nextl s lst) (Some prev) next2 False False of
           CasTry ver \<Rightarrow> Busy (Del u node (DUnlCas prev nxt lst next2 ver))
         | _ \<Rightarrow> del_loop u node lst nxt None)"
| "del_step u node s (DUnlCas prev nxt lst next2 ver) =
     (case cas_next s lst ver next2 False of None \<Rightarrow> s | Some s' \<Rightarrow> s', del_loop u node lst nxt None)"
| "del_step u node s (DUp prev nxt) =
     (s, at_ptr (lref (prevl s prev)) (\<lambda>prev'. del_loop u node prev' nxt None))"
| "del_step u node s (DSplice prev nxt lst) =
     (s, case link_cas (nextl s prev) (Some node) (Some nxt) False False of
           CasFails \<Rightarrow> del_loop u node prev nxt lst
         | CasHolds \<Rightarrow> del_return u
         | CasTry ver \<Rightarrow> Busy (Del u node (DSpliceCas prev nxt lst ver)))"
| "del_step u node s (DSpliceCas prev nxt lst ver) =
     (case cas_next s prev ver (Some nxt) False of
        None \<Rightarrow> (s, del_loop u node prev nxt lst)
      | Some s' \<Rightarrow> (s', del_return u))"

fun ins_step :: "ins_user \<Rightarrow> loc \<Rightarrow> 'a lf_deque \<Rightarrow> ins_pc \<Rightarrow> 'a lf_deque \<times> 'a de_thread" where
  "ins_step u node s (IDeref prev lst) =
     (s, case derefActive (nextl s prev) of
           None \<Rightarrow> (case lst of
                      Some l \<Rightarrow> Busy (Mark (MPrevI u node prev l) prev MGet)
                    | None \<Rightarrow> Busy (Ins u node (IUp prev)))
         | Some prev2 \<Rightarrow> Busy (Ins u node (ILink prev lst prev2)))"
| "ins_step u node s (INext2 prev lst) = (s, Busy (Ins u node (IUnl prev lst (lref (nextl s prev)))))"
| "ins_step u node s (IUnl prev lst next2) =
     (s, case link_cas (nextl s lst) (Some prev) next2 False False of
           CasTry ver \<Rightarrow> Busy (Ins u node (IUnlCas prev lst next2 ver))
         | _ \<Rightarrow> Busy (Ins u node (IDeref lst None)))"
| "ins_step u node s (IUnlCas prev lst next2 ver) =
     (case cas_next s lst ver next2 False of None \<Rightarrow> s | Some s' \<Rightarrow> s', Busy (Ins u node (IDeref lst None)))"
| "ins_step u node s (IUp prev) =
     (s, at_ptr (lref (prevl s prev)) (\<lambda>prev'. Busy (Ins u node (IDeref prev' None))))"
| "ins_step u node s (ILink prev lst prev2) =
     (s, if lmark (prevl s node) then ins_return s u prev
         else if prev2 \<noteq> node then Busy (Ins u node (IDeref prev2 (Some prev)))
         else if lref (prevl s node) = Some prev then ins_return s u prev
         else Busy (Ins u node (ISucc prev lst (lref (prevl s node)))))"
| "ins_step u node s (ISucc prev lst r1) =
     (s, if lref (nextl s prev) = Some node then Busy (Ins u node (ISet prev lst r1))
         else Busy (Ins u node (IDeref prev lst)))"
| "ins_step u node s (ISet prev lst r1) =
     (s, case link_cas (prevl s node) r1 (Some prev) False False of
           CasFails \<Rightarrow> Busy (Ins u node (IDeref prev lst))
         | CasHolds \<Rightarrow> Busy (Ins u node (IMarked prev lst))
         | CasTry ver \<Rightarrow> Busy (Ins u node (ISetCas prev lst r1 ver)))"
| "ins_step u node s (ISetCas prev lst r1 ver) =
     (case cas_prev s node ver (Some prev) False of
        None \<Rightarrow> (s, Busy (Ins u node (IDeref prev lst)))
      | Some s' \<Rightarrow> (s', Busy (Ins u node (IMarked prev lst))))"
| "ins_step u node s (IMarked prev lst) =
     (s, if lmark (prevl s prev) then Busy (Ins u node (IDeref prev lst)) else ins_return s u prev)"

subsection \<open>The operations\<close>

text \<open>The links of the node before the attempt to link it.\<close>

definition set_links :: "'a lf_deque \<Rightarrow> loc \<Rightarrow> loc \<Rightarrow> ptr \<Rightarrow> 'a lf_deque" where
  "set_links s node prev nxt = set_next (set_prev s node (Some prev) False) node nxt False"

fun push_front_step :: "loc \<Rightarrow> 'a lf_deque \<Rightarrow> pushl_pc \<Rightarrow> 'a lf_deque \<times> 'a de_thread" where
  "push_front_step node s LNext = (s, Busy (PushL node (LTest (derefActive (nextl s (dhead s))))))"
| "push_front_step node s (LTest nxt) =
     (if lref (nextl s (dhead s)) \<noteq> nxt \<or> lmark (nextl s (dhead s)) then (s, Busy (PushL node LNext))
      else (set_links s node (dhead s) nxt, Busy (PushL node (LLink nxt))))"
| "push_front_step node s (LLink nxt) =
     (s, case link_cas (nextl s (dhead s)) nxt (Some node) False False of
           CasFails \<Rightarrow> Busy (PushL node (LTest nxt))
         | CasHolds \<Rightarrow> at_ptr nxt (\<lambda>n. Busy (Common node n CPrev))
         | CasTry ver \<Rightarrow> Busy (PushL node (LLinkCas nxt ver)))"
| "push_front_step node s (LLinkCas nxt ver) =
     (case cas_next s (dhead s) ver (Some node) False of
        None \<Rightarrow> (s, Busy (PushL node (LTest nxt)))
      | Some s' \<Rightarrow> (s', at_ptr nxt (\<lambda>n. Busy (Common node n CPrev))))"

fun push_back_step :: "loc \<Rightarrow> 'a lf_deque \<Rightarrow> pushr_pc \<Rightarrow> 'a lf_deque \<times> 'a de_thread" where
  "push_back_step node s RPrev =
     (s, at_ptr (derefActive (prevl s (dtail s))) (\<lambda>prev. Busy (PushR node (RTest prev))))"
| "push_back_step node s (RTest prev) =
     (if lref (nextl s prev) \<noteq> Some (dtail s) \<or> lmark (nextl s prev)
      then (s, Busy (Ins (ForPush node) (dtail s) (IDeref prev None)))
      else (set_links s node prev (Some (dtail s)), Busy (PushR node (RLink prev))))"
| "push_back_step node s (RLink prev) =
     (s, case link_cas (nextl s prev) (Some (dtail s)) (Some node) False False of
           CasFails \<Rightarrow> Busy (PushR node (RTest prev))
         | CasHolds \<Rightarrow> Busy (Common node (dtail s) CPrev)
         | CasTry ver \<Rightarrow> Busy (PushR node (RLinkCas prev ver)))"
| "push_back_step node s (RLinkCas prev ver) =
     (case cas_next s prev ver (Some node) False of
        None \<Rightarrow> (s, Busy (PushR node (RTest prev)))
      | Some s' \<Rightarrow> (s', Busy (Common node (dtail s) CPrev)))"

fun common_step :: "loc \<Rightarrow> loc \<Rightarrow> 'a lf_deque \<Rightarrow> common_pc \<Rightarrow> 'a lf_deque \<times> 'a de_thread" where
  "common_step node nxt s CPrev =
     (s, Busy (Common node nxt (CNext (lref (prevl s nxt)) (lmark (prevl s nxt)))))"
| "common_step node nxt s (CNext r1 m1) =
     (s, if m1 \<or> lref (nextl s node) \<noteq> Some nxt \<or> lmark (nextl s node) then Return Ack
         else Busy (Common node nxt (CSet r1)))"
| "common_step node nxt s (CSet r1) =
     (s, case link_cas (prevl s nxt) r1 (Some node) False False of
           CasFails \<Rightarrow> Busy (Common node nxt CPrev)
         | CasHolds \<Rightarrow> Busy (Common node nxt CMarked)
         | CasTry ver \<Rightarrow> Busy (Common node nxt (CSetCas r1 ver)))"
| "common_step node nxt s (CSetCas r1 ver) =
     (case cas_prev s nxt ver (Some node) False of
        None \<Rightarrow> (s, Busy (Common node nxt CPrev))
      | Some s' \<Rightarrow> (s', Busy (Common node nxt CMarked)))"
| "common_step node nxt s CMarked =
     (s, if lmark (prevl s node) then Busy (Ins ForCommon nxt (IDeref node None)) else Return Ack)"

fun pop_front_step :: "'a lf_deque \<Rightarrow> popl_pc \<Rightarrow> 'a lf_deque \<times> 'a de_thread" where
  "pop_front_step s FNode =
     (s, if derefActive (nextl s (dhead s)) = Some (dtail s) then Return (Got None)
         else at_ptr (derefActive (nextl s (dhead s))) (\<lambda>node. Busy (PopL (FLink node))))"
| "pop_front_step s (FLink node) =
     (s, if lmark (nextl s node) then Busy (Mark (MStart ForRetry) node MGet)
         else Busy (PopL (FMark node (lref (nextl s node)))))"
| "pop_front_step s (FMark node r) =
     (s, case link_cas (nextl s node) r r False True of
           CasFails \<Rightarrow> Busy (PopL FNode)
         | CasHolds \<Rightarrow> Busy (Mark (MStart (ForFront node)) node MGet)
         | CasTry ver \<Rightarrow> Busy (PopL (FMarkCas node r ver)))"
| "pop_front_step s (FMarkCas node r ver) =
     (case cas_next s node ver r True of
        None \<Rightarrow> (s, Busy (PopL FNode))
      | Some s' \<Rightarrow> (s', Busy (Mark (MStart (ForFront node)) node MGet)))"
| "pop_front_step s (FRef node) =
     (s, at_ptr (lref (nextl s node)) (\<lambda>nxt. Busy (Ins (ForTaken node) nxt (IDeref (dhead s) None))))"

fun pop_back_step :: "'a lf_deque \<Rightarrow> popr_pc \<Rightarrow> 'a lf_deque \<times> 'a de_thread" where
  "pop_back_step s BPrev = (s, at_ptr (derefActive (prevl s (dtail s))) (\<lambda>node. Busy (PopR (BTest node))))"
| "pop_back_step s (BTest node) =
     (s, if lref (nextl s node) \<noteq> Some (dtail s) \<or> lmark (nextl s node)
         then Busy (Ins ForPopBack (dtail s) (IDeref node None))
         else if node = dhead s then Return (Got None)
         else Busy (PopR (BMark node)))"
| "pop_back_step s (BMark node) =
     (s, case link_cas (nextl s node) (Some (dtail s)) (Some (dtail s)) False True of
           CasFails \<Rightarrow> Busy (PopR (BTest node))
         | CasHolds \<Rightarrow> Busy (Mark (MStart (ForBack node)) node MGet)
         | CasTry ver \<Rightarrow> Busy (PopR (BMarkCas node ver)))"
| "pop_back_step s (BMarkCas node ver) =
     (case cas_next s node ver (Some (dtail s)) True of
        None \<Rightarrow> (s, Busy (PopR (BTest node)))
      | Some s' \<Rightarrow> (s', Busy (Mark (MStart (ForBack node)) node MGet)))"
| "pop_back_step s (BRef node) =
     (s, at_ptr (lref (prevl s node)) (\<lambda>prev. Busy (Ins (ForTaken node) (dtail s) (IDeref prev None))))"

fun de_step :: "'a lf_deque \<Rightarrow> tid \<Rightarrow> de_pc \<Rightarrow> 'a lf_deque \<times> 'a de_thread" where
  "de_step s t (PushL node p) = push_front_step node s p"
| "de_step s t (PushR node p) = push_back_step node s p"
| "de_step s t (Common node nxt p) = common_step node nxt s p"
| "de_step s t (PopL p) = pop_front_step s p"
| "de_step s t (PopR p) = pop_back_step s p"
| "de_step s t (Ins u node p) = ins_step u node s p"
| "de_step s t (Del u node p) = del_step u node s p"
| "de_step s t (Mark u node p) = mark_step u node s p"

text \<open>A push allocates its node when it begins.\<close>

fun de_beg :: "'a lf_deque \<Rightarrow> tid \<Rightarrow> 'a deque_op \<Rightarrow> 'a lf_deque \<times> de_pc" where
  "de_beg s t (PushFront v) = (s\<lparr>dnodes := (dnodes s)(dbrk s := new_denode v), dbrk := Suc (dbrk s)\<rparr>, PushL (dbrk s) LNext)"
| "de_beg s t (PushBack v) = (s\<lparr>dnodes := (dnodes s)(dbrk s := new_denode v), dbrk := Suc (dbrk s)\<rparr>, PushR (dbrk s) RPrev)"
| "de_beg s t PopFront = (s, PopL FNode)"
| "de_beg s t PopBack = (s, PopR BPrev)"

definition de_machine :: "'a lf_deque \<Rightarrow> ('a lf_deque, de_pc, 'a deque_op, 'a resp) machine" where
  "de_machine s = \<lparr>sh0 = s, can = (\<lambda>_ _ _. True), beg = de_beg, stp = de_step\<rparr>"

lemma de_machine_simps [simp]:
  "sh0 (de_machine s) = s" "can (de_machine s) = (\<lambda>_ _ _. True)" "beg (de_machine s) = de_beg" "stp (de_machine s) = de_step"
  by (simp_all add: de_machine_def)

end
