(* ===== verification/St_Safety.thy ===== *)
theory St_Safety
  imports St_Deque
begin

text \<open>
  The deque of Sundell and Tsigas: the invariant of the list and what the writes of the code do to it.
\<close>

subsection \<open>Ghost state\<close>

text \<open>
  \<open>dseq\<close> is the list of nodes from \<open>head\<close> to \<open>tail\<close> along \<open>next\<close>, deleted ones included, \<open>dold\<close> the nodes that
  have been unlinked, and \<open>downer\<close> the goroutine that a node belongs to before it is linked.
\<close>

record de_ghost =
  dseq :: "loc list"
  dold :: "loc set"
  downer :: "loc \<Rightarrow> tid option"

definition known :: "de_ghost \<Rightarrow> loc \<Rightarrow> bool" where
  "known g x \<longleftrightarrow> x \<in> set (dseq g) \<or> x \<in> dold g"

abbreviation gone :: "'a lf_deque \<Rightarrow> loc \<Rightarrow> bool" where
  "gone s x \<equiv> lmark (nextl s x)"

abbreviation follows :: "'a lf_deque \<Rightarrow> loc \<Rightarrow> loc \<Rightarrow> bool" where
  "follows s x y \<equiv> lref (nextl s x) = Some y"

text \<open>The nodes that are not deleted, without \<open>head\<close> and \<open>tail\<close>.\<close>

definition live :: "'a lf_deque \<Rightarrow> de_ghost \<Rightarrow> loc list" where
  "live s g = filter (\<lambda>x. \<not> gone s x \<and> x \<noteq> dhead s \<and> x \<noteq> dtail s) (dseq g)"

subsection \<open>Invariant\<close>

definition list_ok :: "'a lf_deque \<Rightarrow> de_ghost \<Rightarrow> bool" where
  "list_ok s g \<longleftrightarrow> distinct (dseq g) \<and> (\<exists>mid. dseq g = dhead s # mid @ [dtail s]) \<and> successively (follows s) (dseq g) \<and>
     (\<forall>x \<in> dold g. x \<notin> set (dseq g) \<and> gone s x) \<and>
     \<not> gone s (dhead s) \<and> \<not> gone s (dtail s) \<and> follows s (dtail s) (dtail s)"

definition node_ok :: "'a lf_deque \<Rightarrow> de_ghost \<Rightarrow> loc \<Rightarrow> bool" where
  "node_ok s g x \<longleftrightarrow> x < dbrk s \<and> downer g x = None \<and>
     (\<exists>y. follows s x y \<and> known g y \<and> y \<noteq> dhead s) \<and>
     (\<exists>y. lref (prevl s x) = Some y \<and> known g y \<and> y \<noteq> dtail s) \<and> (lmark (prevl s x) \<longrightarrow> gone s x)"

definition de_inv :: "'a lf_deque \<Rightarrow> de_ghost \<Rightarrow> bool" where
  "de_inv s g \<longleftrightarrow> list_ok s g \<and> (\<forall>x. known g x \<longrightarrow> node_ok s g x) \<and> (\<forall>l t. downer g l = Some t \<longrightarrow> l < dbrk s)"

lemma de_invD:
  assumes "de_inv s g"
  shows de_inv_list: "list_ok s g" and de_inv_node: "known g x \<Longrightarrow> node_ok s g x"
    and de_inv_owner: "downer g l = Some t \<Longrightarrow> l < dbrk s"
  using assms by (auto simp: de_inv_def)

lemma list_okD:
  assumes "list_ok s g"
  shows "distinct (dseq g)" and "\<exists>mid. dseq g = dhead s # mid @ [dtail s]" and "successively (follows s) (dseq g)"
    and "x \<in> dold g \<Longrightarrow> x \<notin> set (dseq g) \<and> gone s x"
    and "\<not> gone s (dhead s)" and "\<not> gone s (dtail s)" and "follows s (dtail s) (dtail s)"
  using assms by (auto simp: list_ok_def)

lemma node_okD:
  assumes "node_ok s g x"
  shows "x < dbrk s" and "downer g x = None" and "\<exists>y. follows s x y \<and> known g y \<and> y \<noteq> dhead s"
    and "\<exists>y. lref (prevl s x) = Some y \<and> known g y \<and> y \<noteq> dtail s" and "lmark (prevl s x) \<Longrightarrow> gone s x"
  using assms by (auto simp: node_ok_def)

lemma ends_known: "de_inv s g \<Longrightarrow> known g (dhead s) \<and> known g (dtail s) \<and> dhead s \<noteq> dtail s"
  using list_okD(1,2) [OF de_inv_list] by (fastforce simp: known_def)

lemma not_gone_listed: "de_inv s g \<Longrightarrow> known g x \<Longrightarrow> \<not> gone s x \<Longrightarrow> x \<in> set (dseq g)"
  using list_okD(4) [OF de_inv_list] by (auto simp: known_def)

text \<open>A live node and what follows it.\<close>

lemma split_next:
  assumes i: "de_inv s g" and x: "x \<in> set (dseq g)" "x \<noteq> dtail s"
  obtains pre y post where "dseq g = pre @ x # y # post" and "follows s x y"
proof -
  obtain mid where m: "dseq g = dhead s # mid @ [dtail s]" using list_okD(2) [OF de_inv_list [OF i]] by blast
  obtain pre rest where r: "dseq g = pre @ x # rest" using x(1) by (meson split_list)
  have "rest \<noteq> []"
  proof
    assume "rest = []"
    then have "last (dseq g) = x" using r by simp
    then show False using m x(2) by simp
  qed
  then obtain y post where "rest = y # post" by (cases rest) auto
  moreover from this have "follows s x y"
    using list_okD(3) [OF de_inv_list [OF i]] r by (simp add: successively_append_iff)
  ultimately show thesis using that r by blast
qed

subsection \<open>Paths over deleted nodes\<close>

text \<open>\<open>b\<close> is reached from \<open>a\<close> over deleted nodes, \<open>a\<close> included.\<close>

inductive skips :: "'a lf_deque \<Rightarrow> loc \<Rightarrow> loc \<Rightarrow> bool" for s where
  one: "gone s a \<Longrightarrow> follows s a b \<Longrightarrow> skips s a b"
| more: "skips s a b \<Longrightarrow> gone s b \<Longrightarrow> follows s b c \<Longrightarrow> skips s a c"

lemma skips_gone: "skips s a b \<Longrightarrow> gone s a"
  by (induction rule: skips.induct) auto

lemma skips_known:
  assumes "skips s a b" and "de_inv s g" and "known g a"
  shows "known g b \<and> b \<noteq> dhead s"
  using assms(1,3)
proof (induction rule: skips.induct)
  case (one a b)
  then show ?case using node_okD(3) [OF de_inv_node [OF assms(2)], of a] by auto
next
  case (more a b c)
  then show ?case using node_okD(3) [OF de_inv_node [OF assms(2)], of b] by auto
qed

text \<open>In the list, the nodes that are skipped are deleted.\<close>

lemma skips_segment:
  assumes "skips s a b" and i: "de_inv s g" and a: "a \<in> set (dseq g)"
  shows "\<exists>pre seg post. dseq g = pre @ a # seg @ b # post \<and> (\<forall>x \<in> set (a # seg). gone s x)"
  using assms(1) a
proof (induction rule: skips.induct)
  case (one a b)
  then have "a \<noteq> dtail s" using list_okD(6) [OF de_inv_list [OF i]] by auto
  then obtain pre y post where y: "dseq g = pre @ a # y # post" "follows s a y" using split_next [OF i one(3)] by metis
  then have "dseq g = pre @ a # [] @ b # post" using one(2) by simp
  then show ?case using one(1) by (intro exI [of _ pre] exI [of _ "[]"] exI [of _ post]) simp
next
  case (more a b c)
  then obtain pre seg post where p: "dseq g = pre @ a # seg @ b # post" "\<forall>x \<in> set (a # seg). gone s x" by blast
  have b: "b \<noteq> dtail s" using more.hyps(2) list_okD(6) [OF de_inv_list [OF i]] by auto
  obtain mid where m: "dseq g = dhead s # mid @ [dtail s]" using list_okD(2) [OF de_inv_list [OF i]] by blast
  have "post \<noteq> []"
  proof
    assume "post = []"
    then have "last (dseq g) = b" using p(1) by simp
    then show False using m b by simp
  qed
  then obtain y post' where y: "post = y # post'" by (cases post) auto
  then have "follows s b y"
    using list_okD(3) [OF de_inv_list [OF i]] p(1) successively_append_iff [of "follows s" "pre @ a # seg" "b # y # post'"] by simp
  then have "y = c" using more.hyps(3) by simp
  then have "dseq g = pre @ a # (seg @ [b]) @ c # post'" using p(1) y by simp
  then show ?case using p(2) more.hyps(2)
    by (intro exI [of _ pre] exI [of _ "seg @ [b]"] exI [of _ post']) auto
qed

subsection \<open>Interference\<close>

definition de_rely :: "tid \<Rightarrow> 'a lf_deque \<Rightarrow> de_ghost \<Rightarrow> 'a lf_deque \<Rightarrow> de_ghost \<Rightarrow> bool" where
  "de_rely t s g s' g' \<longleftrightarrow> dhead s' = dhead s \<and> dtail s' = dtail s \<and>
     (\<forall>x. known g x \<longrightarrow> known g' x \<and> dvalue (dnodes s' x) = dvalue (dnodes s x) \<and>
       (gone s x \<longrightarrow> nextl s' x = nextl s x) \<and> lver (nextl s x) \<le> lver (nextl s' x) \<and>
       (lver (nextl s' x) = lver (nextl s x) \<longrightarrow> nextl s' x = nextl s x)) \<and>
     (\<forall>l u. u \<noteq> t \<longrightarrow> downer g l = Some u \<longrightarrow> downer g' l = Some u \<and> dnodes s' l = dnodes s l)"

lemma de_relyD:
  assumes "de_rely t s g s' g'"
  shows "dhead s' = dhead s" and "dtail s' = dtail s" and "known g x \<Longrightarrow> known g' x"
    and "known g x \<Longrightarrow> dvalue (dnodes s' x) = dvalue (dnodes s x)"
    and "known g x \<Longrightarrow> gone s x \<Longrightarrow> nextl s' x = nextl s x"
    and "known g x \<Longrightarrow> lver (nextl s x) \<le> lver (nextl s' x)"
    and "known g x \<Longrightarrow> lver (nextl s' x) = lver (nextl s x) \<Longrightarrow> nextl s' x = nextl s x"
    and "u \<noteq> t \<Longrightarrow> downer g l = Some u \<Longrightarrow> downer g' l = Some u \<and> dnodes s' l = dnodes s l"
  using assms by (auto simp: de_rely_def)

lemma de_rely_refl [simp]: "de_rely t s g s g"
  by (simp add: de_rely_def)

text \<open>A pair that was loaded from a \<open>next\<close> reference and not marked.\<close>

definition loaded :: "'a lf_deque \<Rightarrow> de_ghost \<Rightarrow> loc \<Rightarrow> nat \<Rightarrow> ptr \<Rightarrow> bool" where
  "loaded s g x ver r \<longleftrightarrow> known g x \<and> ver \<le> lver (nextl s x) \<and>
     (lver (nextl s x) = ver \<longrightarrow> lref (nextl s x) = r \<and> \<not> gone s x)"

lemma skips_stable:
  assumes "de_rely t s g s' g'" and "skips s a b" and "de_inv s g" and "known g a"
  shows "skips s' a b"
  using assms(2,4)
proof (induction rule: skips.induct)
  case (one a b)
  then show ?case using de_relyD(5) [OF assms(1)] by (intro skips.one) simp_all
next
  case (more a b c)
  then have "known g b" using skips_known [OF more.hyps(1) assms(3)] by simp
  have "nextl s' b = nextl s b" by (rule de_relyD(5) [OF assms(1) \<open>known g b\<close> more.hyps(2)])
  then have "gone s' b" "follows s' b c" using more.hyps(2,3) by simp_all
  then show ?case by (rule skips.more [OF more.IH [OF more.prems]])
qed

lemma loaded_stable: "de_rely t s g s' g' \<Longrightarrow> loaded s g x ver r \<Longrightarrow> loaded s' g' x ver r"
proof -
  assume r: "de_rely t s g s' g'" and l: "loaded s g x ver r"
  then have k: "known g x" "ver \<le> lver (nextl s x)" "lver (nextl s x) = ver \<Longrightarrow> lref (nextl s x) = r \<and> \<not> gone s x"
    by (simp_all add: loaded_def)
  note R = de_relyD(3) [OF r k(1)] de_relyD(6) [OF r k(1)] de_relyD(7) [OF r k(1)]
  show "loaded s' g' x ver r"
  proof (cases "lver (nextl s' x) = ver")
    case True
    then have "lver (nextl s' x) = lver (nextl s x)" using R(2) k(2) by simp
    then show ?thesis using R k by (simp add: loaded_def)
  next
    case False
    then show ?thesis using R(1,2) k(2) by (simp add: loaded_def)
  qed
qed

subsection \<open>Writes of prev\<close>

lemma set_link_simps [simp]: "lref (set_link m r k) = r" "lmark (set_link m r k) = k" "lver (set_link m r k) = Suc (lver m)"
  by (simp_all add: set_link_def)

lemma de_prev_simps [simp]:
  "nextl (set_prev s l r k) x = nextl s x" "dvalue (dnodes (set_prev s l r k) x) = dvalue (dnodes s x)"
  "prevl (set_prev s l r k) x = (if x = l then set_link (prevl s l) r k else prevl s x)"
  "dhead (set_prev s l r k) = dhead s" "dtail (set_prev s l r k) = dtail s" "dbrk (set_prev s l r k) = dbrk s"
  "x \<noteq> l \<Longrightarrow> dnodes (set_prev s l r k) x = dnodes s x"
  by (simp_all add: set_prev_def)

lemma de_next_simps [simp]:
  "prevl (set_next s l r k) x = prevl s x" "dvalue (dnodes (set_next s l r k) x) = dvalue (dnodes s x)"
  "nextl (set_next s l r k) x = (if x = l then set_link (nextl s l) r k else nextl s x)"
  "dhead (set_next s l r k) = dhead s" "dtail (set_next s l r k) = dtail s" "dbrk (set_next s l r k) = dbrk s"
  "x \<noteq> l \<Longrightarrow> dnodes (set_next s l r k) x = dnodes s x"
  by (simp_all add: set_next_def)

lemma prev_write:
  assumes i: "de_inv s g" and x: "known g x" and y: "known g y" "y \<noteq> dtail s" and k: "k \<longrightarrow> gone s x"
  shows "de_inv (set_prev s x (Some y) k) g" and "de_rely t s g (set_prev s x (Some y) k) g"
    and "live (set_prev s x (Some y) k) g = live s g"
proof -
  have o: "downer g l = Some u \<Longrightarrow> l \<noteq> x" for l u using node_okD(2) [OF de_inv_node [OF i x]] by auto
  have "node_ok (set_prev s x (Some y) k) g z" if "known g z" for z
    using de_inv_node [OF i that] y k by (auto simp: node_ok_def)
  then show "de_inv (set_prev s x (Some y) k) g" using i by (simp add: de_inv_def list_ok_def)
  show "de_rely t s g (set_prev s x (Some y) k) g" using o by (auto simp: de_rely_def)
  show "live (set_prev s x (Some y) k) g = live s g" by (simp add: live_def)
qed

subsection \<open>Writes of a node that is not linked\<close>

lemma known_not_owned: "de_inv s g \<Longrightarrow> downer g l = Some t \<Longrightarrow> \<not> known g l"
  using node_okD(2) [OF de_inv_node] by fastforce

lemma links_write:
  assumes i: "de_inv s g" and l: "downer g l = Some t"
  shows "de_inv (set_links s l p nx) g" and "de_rely t s g (set_links s l p nx) g"
    and "live (set_links s l p nx) g = live s g"
    and "lref (prevl (set_links s l p nx) l) = Some p" and "\<not> lmark (prevl (set_links s l p nx) l)"
    and "lref (nextl (set_links s l p nx) l) = nx" and "\<not> gone (set_links s l p nx) l"
    and "dvalue (dnodes (set_links s l p nx) x) = dvalue (dnodes s x)"
    and "dhead (set_links s l p nx) = dhead s" and "dtail (set_links s l p nx) = dtail s"
    and "known g x \<Longrightarrow> dnodes (set_links s l p nx) x = dnodes s x"
proof -
  have nk: "\<not> known g l" by (rule known_not_owned [OF i l])
  show same: "known g x \<Longrightarrow> dnodes (set_links s l p nx) x = dnodes s x" for x
    using nk by (cases "x = l") (simp_all add: set_links_def)
  have sets: "x \<in> set (dseq g) \<Longrightarrow> known g x" for x by (simp add: known_def)
  note E = ends_known [OF i]
  have "successively (follows (set_links s l p nx)) (dseq g)"
    by (rule successively_mono [OF list_okD(3) [OF de_inv_list [OF i]]]) (simp add: same sets)
  then have "list_ok (set_links s l p nx) g"
    using list_okD [OF de_inv_list [OF i]] E nk
    by (auto simp: list_ok_def set_links_def known_def)
  moreover have "node_ok (set_links s l p nx) g x" if "known g x" for x
    using de_inv_node [OF i that] that nk by (auto simp: node_ok_def set_links_def)
  ultimately show "de_inv (set_links s l p nx) g" using i by (auto simp: de_inv_def set_links_def)
  have "dnodes (set_links s l p nx) x = dnodes s x" if "u \<noteq> t" "downer g x = Some u" for x u
    using that l by (cases "x = l") (simp_all add: set_links_def)
  then show "de_rely t s g (set_links s l p nx) g"
    using same by (simp add: de_rely_def set_links_def)
  show "live (set_links s l p nx) g = live s g"
    unfolding live_def by (rule filter_cong) (use same sets in \<open>simp_all add: set_links_def\<close>)
qed (simp_all add: set_links_def)

end
