(* ===== verification/St_Writes.thy ===== *)
theory St_Writes
  imports St_Safety
begin

text \<open>
  The deque of Sundell and Tsigas: the three writes of a \<open>next\<close> reference that change the list. A push
  links a node, a pop marks one, a helper unlinks deleted ones.
\<close>

lemma ends_iff: "(\<exists>mid. zs = h # mid @ [t]) \<longleftrightarrow> 2 \<le> length zs \<and> hd zs = h \<and> last zs = t"
proof
  assume "2 \<le> length zs \<and> hd zs = h \<and> last zs = t"
  then obtain z ys where "zs = z # ys" by (cases zs) auto
  moreover from this have "ys \<noteq> []" "z = h" "last ys = t"
    using \<open>2 \<le> length zs \<and> hd zs = h \<and> last zs = t\<close> by auto
  ultimately have "zs = h # butlast ys @ [t]" by auto
  then show "\<exists>mid. zs = h # mid @ [t]" by blast
qed auto

lemma list_ok_ends: "de_inv s g \<Longrightarrow> 2 \<le> length (dseq g) \<and> hd (dseq g) = dhead s \<and> last (dseq g) = dtail s"
  unfolding ends_iff [symmetric] by (rule list_okD(2) [OF de_inv_list])

lemma set_live:
  assumes "de_inv s g"
  shows "x \<in> set (live s g) \<longleftrightarrow> known g x \<and> \<not> gone s x \<and> x \<noteq> dhead s \<and> x \<noteq> dtail s"
proof -
  have "known g x \<and> \<not> gone s x \<longleftrightarrow> x \<in> set (dseq g) \<and> \<not> gone s x"
    using not_gone_listed [OF assms] unfolding known_def by blast
  then show ?thesis unfolding live_def set_filter by blast
qed

lemma distinct_live: "de_inv s g \<Longrightarrow> distinct (live s g)"
  unfolding live_def by (rule distinct_filter [OF list_okD(1) [OF de_inv_list]])

lemma head_first:
  assumes "de_inv s g" and "dseq g = pre @ dhead s # post"
  shows "pre = []"
proof (cases pre)
  case (Cons x xs)
  then show ?thesis using list_ok_ends [OF assms(1)] list_okD(1) [OF de_inv_list [OF assms(1)]] assms(2) by simp
qed

lemma tail_last:
  assumes "de_inv s g" and "dseq g = pre @ dtail s # post"
  shows "post = []"
proof (rule ccontr)
  assume n: "post \<noteq> []"
  then have "last (dseq g) = last post" using assms(2) by simp
  then have "dtail s \<in> set post" using list_ok_ends [OF assms(1)] n by (metis last_in_set)
  then show False using list_okD(1) [OF de_inv_list [OF assms(1)]] assms(2) by simp
qed

lemma follows_before:
  assumes "successively (follows s) (pre @ [p])" and "p \<notin> set pre" and "\<And>x. x \<noteq> p \<Longrightarrow> nextl s' x = nextl s x"
  shows "successively (follows s') (pre @ [p])"
proof -
  have p: "successively (follows s) pre" "pre = [] \<or> follows s (last pre) p"
    using assms(1) by (simp_all add: successively_append_iff)
  have "successively (follows s') pre"
    by (rule successively_mono [OF p(1)]) (use assms(2,3) in \<open>metis (no_types, lifting)\<close>)
  moreover have "pre = [] \<or> follows s' (last pre) p"
    using p(2) assms(2,3) by (metis last_in_set)
  ultimately show ?thesis by (auto simp: successively_append_iff)
qed

lemma follows_after:
  assumes "successively (follows s) ys" and "p \<notin> set ys" and "\<And>x. x \<noteq> p \<Longrightarrow> nextl s' x = nextl s x"
  shows "successively (follows s') ys"
  by (rule successively_mono [OF assms(1)]) (use assms(2,3) in \<open>metis (no_types, lifting)\<close>)

text \<open>The ends of the deque.\<close>

lemma live_front:
  assumes i: "de_inv s g" and "follows s (dhead s) a"
  shows "a \<noteq> dtail s \<Longrightarrow> \<not> gone s a \<Longrightarrow> \<exists>ys. live s g = a # ys" and "a = dtail s \<Longrightarrow> live s g = []"
proof -
  have "dhead s \<in> set (dseq g)" using list_ok_ends [OF i] by (metis hd_in_set list.size(3) not_numeral_le_zero)
  moreover have "dhead s \<noteq> dtail s" using ends_known [OF i] by simp
  ultimately obtain pre y post where p: "dseq g = pre @ dhead s # y # post" "follows s (dhead s) y"
    using split_next [OF i] by blast
  then have y: "y = a" using assms(2) by simp
  have d: "distinct (dseq g)" by (rule list_okD(1) [OF de_inv_list [OF i]])
  have pre: "pre = []" by (rule head_first [OF i p(1)])
  have "a \<noteq> dhead s" using p(1) d y by auto
  then show "a \<noteq> dtail s \<Longrightarrow> \<not> gone s a \<Longrightarrow> \<exists>ys. live s g = a # ys" using p(1) y pre by (simp add: live_def)
  assume "a = dtail s"
  moreover from this have "post = []" using tail_last [OF i, of "pre @ [dhead s]"] p(1) y by simp
  ultimately show "live s g = []" using p(1) y pre by (simp add: live_def)
qed

lemma live_back:
  assumes i: "de_inv s g" and a: "known g a" "a \<noteq> dtail s" "\<not> gone s a" "follows s a (dtail s)"
  shows "a \<noteq> dhead s \<Longrightarrow> \<exists>ys. live s g = ys @ [a]" and "a = dhead s \<Longrightarrow> live s g = []"
proof -
  obtain pre y post where p: "dseq g = pre @ a # y # post" "follows s a y"
    using split_next [OF i not_gone_listed [OF i a(1,3)] a(2)] by blast
  then have y: "y = dtail s" using a(4) by simp
  have d: "distinct (dseq g)" by (rule list_okD(1) [OF de_inv_list [OF i]])
  have "post = []" using tail_last [OF i, of "pre @ [a]"] p(1) y by simp
  then show "a \<noteq> dhead s \<Longrightarrow> \<exists>ys. live s g = ys @ [a]" using p(1) y a by (simp add: live_def)
qed (use live_front(2) [OF i, of "dtail s"] a(4) in simp)

subsection \<open>Linking\<close>

lemma live_next:
  "\<not> gone s p \<Longrightarrow> live (set_next s p r False) g =
    filter (\<lambda>x. \<not> gone s x \<and> x \<noteq> dhead s \<and> x \<noteq> dtail s) (dseq g)"
  unfolding live_def by (rule filter_cong) auto

lemma next_rely:
  assumes "de_inv s g" and "known g p" and "\<not> gone s p" and "\<And>x. known g x \<Longrightarrow> known g' x"
    and "\<And>l u. u \<noteq> t \<Longrightarrow> downer g l = Some u \<Longrightarrow> downer g' l = Some u"
  shows "de_rely t s g (set_next s p r k) g'"
proof -
  have "downer g l = Some u \<Longrightarrow> l \<noteq> p" for l u using known_not_owned [OF assms(1)] assms(2) by auto
  then show ?thesis using assms(3-5) by (simp add: de_rely_def)
qed

lemma push_write:
  assumes i: "de_inv s g" and l: "downer g l = Some t" "lref (prevl s l) = Some p" "\<not> lmark (prevl s l)"
      "lref (nextl s l) = nx" "\<not> gone s l"
    and p: "loaded s g p ver nx" "lver (nextl s p) = ver" "p \<noteq> dtail s"
  shows "\<exists>g'. de_inv (set_next s p (Some l) False) g' \<and> de_rely t s g (set_next s p (Some l) False) g' \<and>
    downer g' = (downer g)(l := None) \<and> known g' l \<and> (\<forall>x. known g x \<longrightarrow> known g' x) \<and>
    (p = dhead s \<longrightarrow> live (set_next s p (Some l) False) g' = l # live s g) \<and>
    (nx = Some (dtail s) \<longrightarrow> live (set_next s p (Some l) False) g' = live s g @ [l])"
proof -
  have k: "known g p" "\<not> gone s p" "lref (nextl s p) = nx" using p by (simp_all add: loaded_def)
  obtain pre y post where q: "dseq g = pre @ p # y # post" "follows s p y"
    using split_next [OF i not_gone_listed [OF i k(1,2)] p(3)] by blast
  define g' where "g' = g\<lparr>dseq := pre @ p # l # y # post, downer := (downer g)(l := None)\<rparr>"
  let ?s = "set_next s p (Some l) False"
  note L = list_okD [OF de_inv_list [OF i]] and E = list_ok_ends [OF i] ends_known [OF i]
  have nl: "\<not> known g l" by (rule known_not_owned [OF i l(1)])
  have ne: "l \<noteq> p" "l \<noteq> dhead s" "l \<noteq> dtail s" using nl k(1) E(2) by auto
  have nx: "nx = Some y" using q(2) k(3) by simp
  have yh: "y \<noteq> dhead s" "known g y" using node_okD(3) [OF de_inv_node [OF i k(1)]] q(2) by auto
  have kn: "known g' x \<longleftrightarrow> known g x \<or> x = l" for x using q(1) by (auto simp: known_def g'_def)
  have dn: "downer g' = (downer g)(l := None)" by (simp add: g'_def)
  have S: "successively (follows s) (pre @ [p])" "successively (follows s) (y # post)"
    using L(3) q(1) successively_append_iff [of "follows s" "pre @ [p]" "y # post"] by simp_all
  have sub: "set (y # post) \<subseteq> set (dseq g)" "p \<notin> set (y # post)" "p \<notin> set pre" using q(1) L(1) by auto
  have S2: "successively (follows ?s) (y # post)"
    by (rule follows_after [OF S(2) sub(2)]) simp
  have S1: "successively (follows ?s) (pre @ [p])"
    by (rule follows_before [OF S(1) sub(3)]) simp
  have "successively (follows ?s) (dseq g')"
    using S1 S2 l(4) nx ne successively_append_iff [of "follows ?s" "pre @ [p]" "l # y # post"] by (simp add: g'_def)
  moreover have "distinct (dseq g')" "\<exists>mid. dseq g' = dhead s # mid @ [dtail s]"
    using L(1) q(1) nl E(1) unfolding ends_iff by (auto simp: g'_def known_def hd_append)
  moreover have "x \<notin> set (dseq g') \<and> gone s x" if "x \<in> dold g" for x
    using L(4) [OF that] that nl q(1) by (auto simp: g'_def known_def)
  ultimately have "list_ok ?s g'" using L(5-7) p(3) k(2) by (simp add: list_ok_def g'_def)
  moreover have "node_ok ?s g' x" if "known g' x" for x
  proof (cases "x = l")
    case True
    then show ?thesis
      using l nx yh k(1) p(3) ne(1) de_inv_owner [OF i l(1)] by (simp add: node_ok_def kn dn)
  next
    case False
    then have "known g x" using that kn by simp
    from de_inv_node [OF i this] show ?thesis using False k(2) ne by (auto simp: node_ok_def kn dn)
  qed
  moreover have "l' < dbrk ?s" if "downer g' l' = Some u" for l' u
    using that de_inv_owner [OF i, of l' u] by (simp add: g'_def split: if_splits)
  ultimately have "de_inv ?s g'" by (simp add: de_inv_def)
  moreover have "de_rely t s g ?s g'"
    by (rule next_rely [OF i k(1,2)]) (use kn l(1) in \<open>auto simp: g'_def\<close>)
  moreover have "live ?s g' = l # live s g" if "p = dhead s"
  proof -
    have "pre = []" using head_first [OF i] q(1) that by simp
    then show ?thesis unfolding live_next [OF k(2)] using q(1) that l(5) ne by (simp add: live_def g'_def)
  qed
  moreover have "live ?s g' = live s g @ [l]" if "nx = Some (dtail s)"
  proof -
    have "y = dtail s" using that nx by simp
    moreover from this have "post = []" using tail_last [OF i, of "pre @ [p]"] q(1) by simp
    ultimately show ?thesis unfolding live_next [OF k(2)] using q(1) l(5) ne by (simp add: live_def g'_def)
  qed
  ultimately show ?thesis using kn by (intro exI [of _ g']) (simp add: g'_def)
qed

subsection \<open>Marking\<close>

lemma de_mark_write:
  assumes i: "de_inv s g" and a: "known g a" "a \<noteq> dhead s" "a \<noteq> dtail s" "\<not> gone s a"
  shows "de_inv (set_next s a (lref (nextl s a)) True) g"
    and "de_rely t s g (set_next s a (lref (nextl s a)) True) g"
    and "live (set_next s a (lref (nextl s a)) True) g = filter (\<lambda>x. x \<noteq> a) (live s g)"
proof -
  let ?s = "set_next s a (lref (nextl s a)) True"
  note L = list_okD [OF de_inv_list [OF i]]
  have fo: "follows ?s x y = follows s x y" for x y by simp
  have "successively (follows ?s) (dseq g)" by (rule successively_mono [OF L(3)]) auto
  then have "list_ok ?s g" using L(1,2,5-7) L(4) a(2,3) by (simp add: list_ok_def)
  moreover have "node_ok ?s g x" if "known g x" for x
    using de_inv_node [OF i that] by (auto simp: node_ok_def)
  ultimately show "de_inv ?s g" using i by (simp add: de_inv_def)
  show "de_rely t s g ?s g" by (rule next_rely [OF i a(1,4)]) auto
  show "live ?s g = filter (\<lambda>x. x \<noteq> a) (live s g)"
    unfolding live_def filter_filter by (rule filter_cong) auto
qed

subsection \<open>Unlinking\<close>

lemma de_unlink_write:
  assumes i: "de_inv s g" and p: "loaded s g p ver (Some a)" "lver (nextl s p) = ver" and a: "skips s a b"
  shows "\<exists>g'. de_inv (set_next s p (Some b) False) g' \<and> (\<forall>t. de_rely t s g (set_next s p (Some b) False) g') \<and> live (set_next s p (Some b) False) g' = live s g"
proof -
  have k: "known g p" "\<not> gone s p" "follows s p a" using p by (simp_all add: loaded_def)
  let ?s = "set_next s p (Some b) False"
  note L = list_okD [OF de_inv_list [OF i]] and E = list_ok_ends [OF i] ends_known [OF i]
  have pt: "p \<noteq> dtail s" using k(3) L(6,7) skips_gone [OF a] by auto
  obtain pre y post where q: "dseq g = pre @ p # y # post" "follows s p y"
    using split_next [OF i not_gone_listed [OF i k(1,2)] pt] by blast
  then have qa: "dseq g = (pre @ [p]) @ a # post" using k(3) by simp
  then obtain pre2 seg post2 where r: "dseq g = pre2 @ a # seg @ b # post2" "\<forall>x \<in> set (a # seg). gone s x"
    using skips_segment [OF a i] by auto
  have r': "dseq g = pre @ p # (a # seg) @ b # post2"
    using r(1) qa L(1) by (auto simp: append_eq_append_conv2 append_eq_Cons_conv Cons_eq_append_conv)
  define g' where "g' = g\<lparr>dseq := pre @ p # b # post2, dold := dold g \<union> set (a # seg)\<rparr>"
  have kn: "known g' = known g" using r' by (auto simp: known_def g'_def fun_eq_iff)
  have dn: "downer g' = downer g" by (simp add: g'_def)
  have go: "gone ?s x = gone s x" for x using k(2) by simp
  have bh: "known g b" "b \<noteq> dhead s" using skips_known [OF a i] qa by (auto simp: known_def)
  have S: "successively (follows s) (pre @ [p])" "successively (follows s) (b # post2)"
    using L(3) r' successively_append_iff [of "follows s" "pre @ [p]" "(a # seg) @ b # post2"]
      successively_append_iff [of "follows s" "a # seg" "b # post2"] by simp_all
  have sub: "p \<notin> set (b # post2)" "p \<notin> set pre" using r' L(1) by auto
  have S2: "successively (follows ?s) (b # post2)"
    by (rule follows_after [OF S(2) sub(1)]) simp
  have S1: "successively (follows ?s) (pre @ [p])"
    by (rule follows_before [OF S(1) sub(2)]) simp
  have "successively (follows ?s) (dseq g')"
    using S1 S2 successively_append_iff [of "follows ?s" "pre @ [p]" "b # post2"] by (simp add: g'_def)
  moreover have "distinct (dseq g')" "\<exists>mid. dseq g' = dhead s # mid @ [dtail s]"
    using L(1) r' E(1) unfolding ends_iff by (auto simp: g'_def hd_append)
  moreover have "x \<notin> set (dseq g') \<and> gone s x" if "x \<in> dold g'" for x
  proof (cases "x \<in> dold g")
    case True
    then show ?thesis using L(4) [OF True] r' by (auto simp: g'_def)
  next
    case False
    then have "x \<in> set (a # seg)" using that by (auto simp: g'_def)
    then show ?thesis using L(1) r' r(2) by (auto simp: g'_def)
  qed
  ultimately have "list_ok ?s g'" using L(5-7) pt go by (simp add: list_ok_def g'_def)
  moreover have "node_ok ?s g' x" if "known g' x" for x
  proof -
    have "known g x" using that kn by simp
    from de_inv_node [OF i this] show ?thesis using bh k(2) by (auto simp: node_ok_def kn dn)
  qed
  ultimately have "de_inv ?s g'" using de_inv_owner [OF i] by (simp add: de_inv_def dn)
  moreover have "de_rely t s g ?s g'" for t by (rule next_rely [OF i k(1,2)]) (simp_all add: kn dn)
  moreover have "live ?s g' = live s g"
    unfolding live_next [OF k(2)] using r' r(2) by (simp add: live_def g'_def)
  ultimately show ?thesis by blast
qed

end
