(* ===== verification/St_Stable.thy ===== *)
theory St_Stable
  imports St_Writes
begin

text \<open>
  The deque of Sundell and Tsigas: what holds at each program counter, and that the steps of the other
  goroutines keep it.
\<close>

type_synonym 'a de_status = "('a deque_op, 'a resp) status"

definition waits :: "'a deque_op \<Rightarrow> 'a de_status \<Rightarrow> bool" where
  "waits op st \<longleftrightarrow> (\<exists>R. st = Wait op R)"

lemma waitsI [simp, intro]: "waits op (Wait op R)"
  by (simp add: waits_def)

definition inner :: "'a lf_deque \<Rightarrow> de_ghost \<Rightarrow> loc \<Rightarrow> bool" where
  "inner s g a \<longleftrightarrow> known g a \<and> a \<noteq> dhead s \<and> a \<noteq> dtail s"

definition dead :: "'a lf_deque \<Rightarrow> de_ghost \<Rightarrow> loc \<Rightarrow> bool" where
  "dead s g a \<longleftrightarrow> known g a \<and> gone s a"

definition taken :: "'a lf_deque \<Rightarrow> de_ghost \<Rightarrow> loc \<Rightarrow> 'a de_status \<Rightarrow> bool" where
  "taken s g a st \<longleftrightarrow> dead s g a \<and> st = Done (Got (Some (dvalue (dnodes s a))))"

text \<open>A goroutine's own node, before it is linked, and its links.\<close>

definition mine :: "tid \<Rightarrow> 'a lf_deque \<Rightarrow> de_ghost \<Rightarrow> loc \<Rightarrow> 'a \<Rightarrow> bool" where
  "mine t s g l v \<longleftrightarrow> downer g l = Some t \<and> dvalue (dnodes s l) = v"

definition links :: "'a lf_deque \<Rightarrow> loc \<Rightarrow> loc \<Rightarrow> ptr \<Rightarrow> bool" where
  "links s l p nx \<longleftrightarrow> lref (prevl s l) = Some p \<and> \<not> lmark (prevl s l) \<and> lref (nextl s l) = nx \<and> \<not> gone s l"

text \<open>A predecessor in \<open>helpInsert(prev, node)\<close>; the one of \<open>tail\<close> is not \<open>tail\<close> itself.\<close>

definition pair_ok :: "'a lf_deque \<Rightarrow> de_ghost \<Rightarrow> loc \<Rightarrow> loc \<Rightarrow> bool" where
  "pair_ok s g prev node \<longleftrightarrow> known g prev \<and> known g node \<and> (node = dtail s \<longrightarrow> prev \<noteq> dtail s)"

definition lst_ok :: "'a lf_deque \<Rightarrow> de_ghost \<Rightarrow> ptr \<Rightarrow> loc \<Rightarrow> bool" where
  "lst_ok s g lst node \<longleftrightarrow> (\<forall>l. lst = Some l \<longrightarrow> pair_ok s g l node)"

definition ptr_known :: "de_ghost \<Rightarrow> ptr \<Rightarrow> bool" where
  "ptr_known g r \<longleftrightarrow> (\<forall>l. r = Some l \<longrightarrow> known g l)"

lemma none_ok [simp]: "lst_ok s g None node" "ptr_known g None"
  by (simp_all add: lst_ok_def ptr_known_def)

definition seen :: "'a lf_deque \<Rightarrow> de_ghost \<Rightarrow> loc \<Rightarrow> ptr \<Rightarrow> bool" where
  "seen s g a r \<longleftrightarrow> dead s g a \<and> r = lref (nextl s a)"

subsection \<open>Assertions\<close>

fun ins_user_ok :: "tid \<Rightarrow> 'a lf_deque \<Rightarrow> de_ghost \<Rightarrow> ins_user \<Rightarrow> loc \<Rightarrow> 'a de_status \<Rightarrow> bool" where
  "ins_user_ok t s g (ForPush l) node st = (node = dtail s \<and> (\<exists>v. mine t s g l v \<and> waits (PushBack v) st))"
| "ins_user_ok t s g ForCommon node st = (st = Done Ack)"
| "ins_user_ok t s g (ForTaken a) node st = taken s g a st"
| "ins_user_ok t s g ForPopBack node st = (node = dtail s \<and> waits PopBack st)"

fun del_user_ok :: "'a lf_deque \<Rightarrow> de_ghost \<Rightarrow> del_user \<Rightarrow> 'a de_status \<Rightarrow> bool" where
  "del_user_ok s g ForRetry st = waits PopFront st"
| "del_user_ok s g (ForFront a) st = taken s g a st"
| "del_user_ok s g (ForBack a) st = taken s g a st"

fun ins_ok :: "'a lf_deque \<Rightarrow> de_ghost \<Rightarrow> loc \<Rightarrow> ins_pc \<Rightarrow> bool" where
  "ins_ok s g node (IDeref prev lst) = (pair_ok s g prev node \<and> lst_ok s g lst node)"
| "ins_ok s g node (INext2 prev lst) = (dead s g prev \<and> pair_ok s g lst node)"
| "ins_ok s g node (IUnl prev lst next2) = (seen s g prev next2 \<and> pair_ok s g lst node)"
| "ins_ok s g node (IUnlCas prev lst next2 ver) =
     (seen s g prev next2 \<and> pair_ok s g lst node \<and> loaded s g lst ver (Some prev))"
| "ins_ok s g node (IUp prev) = (known g prev \<and> known g node)"
| "ins_ok s g node (ILink prev lst prev2) =
     (pair_ok s g prev node \<and> lst_ok s g lst node \<and> known g prev2 \<and> (prev = dtail s \<longrightarrow> prev2 = dtail s))"
| "ins_ok s g node (ISucc prev lst r1) = (pair_ok s g prev node \<and> lst_ok s g lst node \<and> prev \<noteq> dtail s)"
| "ins_ok s g node (ISet prev lst r1) = (pair_ok s g prev node \<and> lst_ok s g lst node \<and> prev \<noteq> dtail s)"
| "ins_ok s g node (ISetCas prev lst r1 ver) = (pair_ok s g prev node \<and> lst_ok s g lst node \<and> prev \<noteq> dtail s)"
| "ins_ok s g node (IMarked prev lst) = (pair_ok s g prev node \<and> lst_ok s g lst node \<and> prev \<noteq> dtail s)"

fun del_ok :: "'a lf_deque \<Rightarrow> de_ghost \<Rightarrow> loc \<Rightarrow> del_pc \<Rightarrow> bool" where
  "del_ok s g node DRefs = dead s g node"
| "del_ok s g node (DNext prev) = (dead s g node \<and> known g prev)"
| "del_ok s g node (DTest prev nxt lst) = (dead s g node \<and> known g prev \<and> ptr_known g lst \<and> skips s node nxt)"
| "del_ok s g node (DAdv prev nxt lst) =
     (dead s g node \<and> known g prev \<and> ptr_known g lst \<and> skips s node nxt \<and> dead s g nxt)"
| "del_ok s g node (DDeref prev nxt lst) = (dead s g node \<and> known g prev \<and> ptr_known g lst \<and> skips s node nxt)"
| "del_ok s g node (DNext2 prev nxt lst) = (dead s g node \<and> dead s g prev \<and> known g lst \<and> skips s node nxt)"
| "del_ok s g node (DUnl prev nxt lst next2) = (dead s g node \<and> seen s g prev next2 \<and> known g lst \<and> skips s node nxt)"
| "del_ok s g node (DUnlCas prev nxt lst next2 ver) =
     (dead s g node \<and> seen s g prev next2 \<and> known g lst \<and> skips s node nxt \<and> loaded s g lst ver (Some prev))"
| "del_ok s g node (DUp prev nxt) = (dead s g node \<and> known g prev \<and> skips s node nxt)"
| "del_ok s g node (DSplice prev nxt lst) = (dead s g node \<and> known g prev \<and> ptr_known g lst \<and> skips s node nxt)"
| "del_ok s g node (DSpliceCas prev nxt lst ver) =
     (dead s g node \<and> known g prev \<and> ptr_known g lst \<and> skips s node nxt \<and> loaded s g prev ver (Some node))"

fun mark_user_ok :: "tid \<Rightarrow> 'a lf_deque \<Rightarrow> de_ghost \<Rightarrow> mark_user \<Rightarrow> loc \<Rightarrow> 'a de_status \<Rightarrow> bool" where
  "mark_user_ok t s g (MStart u) node st = (del_user_ok s g u st \<and> dead s g node)"
| "mark_user_ok t s g (MNext u n prev nxt lst) node st =
     (del_user_ok s g u st \<and> del_ok s g n (DAdv prev nxt lst) \<and> node = nxt)"
| "mark_user_ok t s g (MPrevD u n prev nxt lst) node st =
     (del_user_ok s g u st \<and> del_ok s g n (DNext2 prev nxt lst) \<and> node = prev)"
| "mark_user_ok t s g (MPrevI u n prev lst) node st =
     (ins_user_ok t s g u n st \<and> ins_ok s g n (INext2 prev lst) \<and> node = prev)"

definition prev_ref :: "'a lf_deque \<Rightarrow> de_ghost \<Rightarrow> ptr \<Rightarrow> bool" where
  "prev_ref s g r \<longleftrightarrow> (\<exists>y. r = Some y \<and> known g y \<and> y \<noteq> dtail s)"

fun mark_ok :: "'a lf_deque \<Rightarrow> de_ghost \<Rightarrow> mark_pc \<Rightarrow> bool" where
  "mark_ok s g MGet = True"
| "mark_ok s g (MSet r) = prev_ref s g r"
| "mark_ok s g (MSetCas r ver) = prev_ref s g r"

fun pushl_ok :: "'a lf_deque \<Rightarrow> de_ghost \<Rightarrow> loc \<Rightarrow> pushl_pc \<Rightarrow> bool" where
  "pushl_ok s g l LNext = True"
| "pushl_ok s g l (LTest nxt) = True"
| "pushl_ok s g l (LLink nxt) = links s l (dhead s) nxt"
| "pushl_ok s g l (LLinkCas nxt ver) = (links s l (dhead s) nxt \<and> loaded s g (dhead s) ver nxt)"

fun pushr_ok :: "'a lf_deque \<Rightarrow> de_ghost \<Rightarrow> loc \<Rightarrow> pushr_pc \<Rightarrow> bool" where
  "pushr_ok s g l RPrev = True"
| "pushr_ok s g l (RTest prev) = pair_ok s g prev (dtail s)"
| "pushr_ok s g l (RLink prev) = (pair_ok s g prev (dtail s) \<and> links s l prev (Some (dtail s)))"
| "pushr_ok s g l (RLinkCas prev ver) =
     (pair_ok s g prev (dtail s) \<and> links s l prev (Some (dtail s)) \<and> loaded s g prev ver (Some (dtail s)))"

fun popl_ok :: "'a lf_deque \<Rightarrow> de_ghost \<Rightarrow> popl_pc \<Rightarrow> 'a de_status \<Rightarrow> bool" where
  "popl_ok s g FNode st = waits PopFront st"
| "popl_ok s g (FLink a) st = (waits PopFront st \<and> inner s g a)"
| "popl_ok s g (FMark a r) st = (waits PopFront st \<and> inner s g a)"
| "popl_ok s g (FMarkCas a r ver) st = (waits PopFront st \<and> inner s g a \<and> loaded s g a ver r)"
| "popl_ok s g (FRef a) st = taken s g a st"

fun popr_ok :: "'a lf_deque \<Rightarrow> de_ghost \<Rightarrow> popr_pc \<Rightarrow> 'a de_status \<Rightarrow> bool" where
  "popr_ok s g BPrev st = waits PopBack st"
| "popr_ok s g (BTest a) st = (waits PopBack st \<and> pair_ok s g a (dtail s))"
| "popr_ok s g (BMark a) st = (waits PopBack st \<and> inner s g a)"
| "popr_ok s g (BMarkCas a ver) st = (waits PopBack st \<and> inner s g a \<and> loaded s g a ver (Some (dtail s)))"
| "popr_ok s g (BRef a) st = taken s g a st"

fun de_asrt :: "tid \<Rightarrow> 'a lf_deque \<Rightarrow> de_ghost \<Rightarrow> de_pc \<Rightarrow> 'a de_status \<Rightarrow> bool" where
  "de_asrt t s g (PushL l p) st = ((\<exists>v. mine t s g l v \<and> waits (PushFront v) st) \<and> pushl_ok s g l p)"
| "de_asrt t s g (PushR l p) st = ((\<exists>v. mine t s g l v \<and> waits (PushBack v) st) \<and> pushr_ok s g l p)"
| "de_asrt t s g (Common l nxt p) st = (st = Done Ack \<and> pair_ok s g l nxt \<and> l \<noteq> dtail s)"
| "de_asrt t s g (PopL p) st = popl_ok s g p st"
| "de_asrt t s g (PopR p) st = popr_ok s g p st"
| "de_asrt t s g (Ins u node p) st = (ins_user_ok t s g u node st \<and> ins_ok s g node p)"
| "de_asrt t s g (Del u node p) st = (del_user_ok s g u st \<and> del_ok s g node p)"
| "de_asrt t s g (Mark u node p) st = (mark_user_ok t s g u node st \<and> dead s g node \<and> mark_ok s g p)"

subsection \<open>Stability\<close>

named_theorems de_stable

lemma rely_ends [de_stable]:
  "de_rely t s g s' g' \<Longrightarrow> dhead s' = dhead s" "de_rely t s g s' g' \<Longrightarrow> dtail s' = dtail s"
  "de_rely t s g s' g' \<Longrightarrow> known g x \<Longrightarrow> known g' x"
  by (fact de_relyD)+

lemma inner_stable [de_stable]: "de_rely t s g s' g' \<Longrightarrow> inner s g a \<Longrightarrow> inner s' g' a"
  by (simp add: inner_def de_stable)

lemma dead_stable [de_stable]: "de_rely t s g s' g' \<Longrightarrow> dead s g a \<Longrightarrow> dead s' g' a"
  using de_relyD(5) [of t s g s' g' a] by (simp add: dead_def de_stable)

lemma taken_stable [de_stable]: "de_rely t s g s' g' \<Longrightarrow> taken s g a st \<Longrightarrow> taken s' g' a st"
  using de_relyD(4) [of t s g s' g' a] dead_stable [of t s g s' g' a] by (simp add: taken_def dead_def)

lemma seen_stable [de_stable]: "de_rely t s g s' g' \<Longrightarrow> seen s g a r \<Longrightarrow> seen s' g' a r"
  using de_relyD(5) [of t s g s' g' a] dead_stable [of t s g s' g' a] by (simp add: seen_def dead_def)

lemma de_mine_stable [de_stable]: "de_rely t s g s' g' \<Longrightarrow> u \<noteq> t \<Longrightarrow> mine u s g l v \<Longrightarrow> mine u s' g' l v"
  using de_relyD(8) [of t s g s' g' u l] by (simp add: mine_def)

lemma links_stable [de_stable]:
  "de_rely t s g s' g' \<Longrightarrow> u \<noteq> t \<Longrightarrow> mine u s g l v \<Longrightarrow> links s l p nx \<Longrightarrow> links s' l p nx"
  using de_relyD(8) [of t s g s' g' u l] by (simp add: mine_def links_def)

lemma pair_ok_stable [de_stable]: "de_rely t s g s' g' \<Longrightarrow> pair_ok s g p n \<Longrightarrow> pair_ok s' g' p n"
  by (simp add: pair_ok_def de_stable)

lemma lst_ok_stable [de_stable]: "de_rely t s g s' g' \<Longrightarrow> lst_ok s g p n \<Longrightarrow> lst_ok s' g' p n"
  by (simp add: lst_ok_def de_stable)

lemma ptr_known_stable [de_stable]: "de_rely t s g s' g' \<Longrightarrow> ptr_known g r \<Longrightarrow> ptr_known g' r"
  by (simp add: ptr_known_def de_stable)

lemma prev_ref_stable [de_stable]: "de_rely t s g s' g' \<Longrightarrow> prev_ref s g r \<Longrightarrow> prev_ref s' g' r"
  by (auto simp: prev_ref_def de_stable)

lemma dead_skips_stable [de_stable]:
  "de_rely t s g s' g' \<Longrightarrow> de_inv s g \<Longrightarrow> dead s g a \<Longrightarrow> skips s a b \<Longrightarrow> skips s' a b"
  unfolding dead_def by (elim conjE) (rule skips_stable)

declare loaded_stable [de_stable]

lemma ins_user_ok_stable [de_stable]:
  "de_rely t s g s' g' \<Longrightarrow> u \<noteq> t \<Longrightarrow> ins_user_ok u s g w n st \<Longrightarrow> ins_user_ok u s' g' w n st"
proof (cases w)
  case (ForPush l)
  assume r: "de_rely t s g s' g'" "u \<noteq> t" and "ins_user_ok u s g w n st"
  then show ?thesis using ForPush de_mine_stable [OF r] rely_ends(2) [OF r(1)] by auto
qed (auto simp: de_stable)

lemma del_user_ok_stable [de_stable]: "de_rely t s g s' g' \<Longrightarrow> del_user_ok s g w st \<Longrightarrow> del_user_ok s' g' w st"
  by (cases w) (auto simp: de_stable)

lemma ins_ok_stable [de_stable]: "de_rely t s g s' g' \<Longrightarrow> ins_ok s g n p \<Longrightarrow> ins_ok s' g' n p"
  by (cases p) (auto simp: de_stable)

lemma del_ok_stable [de_stable]: "de_rely t s g s' g' \<Longrightarrow> de_inv s g \<Longrightarrow> del_ok s g n p \<Longrightarrow> del_ok s' g' n p"
  by (cases p) (auto simp: de_stable)

lemma mark_user_ok_stable [de_stable]:
  "de_rely t s g s' g' \<Longrightarrow> u \<noteq> t \<Longrightarrow> de_inv s g \<Longrightarrow> mark_user_ok u s g w n st \<Longrightarrow> mark_user_ok u s' g' w n st"
  using ins_ok_stable [of t s g s' g'] del_ok_stable [of t s g s' g'] ins_user_ok_stable [of t s g s' g']
  by (cases w) (auto simp: de_stable simp del: ins_ok.simps del_ok.simps)

lemma mark_ok_stable [de_stable]: "de_rely t s g s' g' \<Longrightarrow> mark_ok s g p \<Longrightarrow> mark_ok s' g' p"
  by (cases p) (auto simp: de_stable)

lemma popl_ok_stable [de_stable]: "de_rely t s g s' g' \<Longrightarrow> popl_ok s g p st \<Longrightarrow> popl_ok s' g' p st"
  by (cases p) (auto simp: de_stable)

lemma popr_ok_stable [de_stable]: "de_rely t s g s' g' \<Longrightarrow> popr_ok s g p st \<Longrightarrow> popr_ok s' g' p st"
  by (cases p) (auto simp: de_stable)

lemma pushl_ok_stable [de_stable]:
  "de_rely t s g s' g' \<Longrightarrow> u \<noteq> t \<Longrightarrow> mine u s g l v \<Longrightarrow> pushl_ok s g l p \<Longrightarrow> pushl_ok s' g' l p"
  by (cases p) (auto simp: de_stable)

lemma pushr_ok_stable [de_stable]:
  "de_rely t s g s' g' \<Longrightarrow> u \<noteq> t \<Longrightarrow> mine u s g l v \<Longrightarrow> pushr_ok s g l p \<Longrightarrow> pushr_ok s' g' l p"
  by (cases p) (auto simp: de_stable)

lemma de_asrt_stable:
  assumes r: "de_rely t s g s' g'" and u: "u \<noteq> t" and i: "de_inv s g" and a: "de_asrt u s g p st"
  shows "de_asrt u s' g' p st"
  using a
proof (cases p)
  case (PushL l q)
  then show ?thesis using a de_mine_stable [OF r u] pushl_ok_stable [OF r u] by auto
next
  case (PushR l q)
  then show ?thesis using a de_mine_stable [OF r u] pushr_ok_stable [OF r u] by auto
qed (use r u i in \<open>auto simp: de_stable\<close>)

end
