(* ===== verification/St_Help.thy ===== *)
theory St_Help
  imports St_Stable
begin

text \<open>
  The deque of Sundell and Tsigas: what a step does to the deque, and the steps of \<open>markPrev\<close>,
  \<open>helpDelete\<close>, \<open>helpInsert\<close> and \<open>pushCommon\<close>, which do nothing to it.
\<close>

subsection \<open>Moves\<close>

text \<open>The node that a \<open>PopFront\<close> has found at the front and wants to mark.\<close>

fun cand :: "'a de_thread \<Rightarrow> loc option" where
  "cand (Busy (PopL (FLink a))) = Some a"
| "cand (Busy (PopL (FMark a r))) = Some a"
| "cand (Busy (PopL (FMarkCas a r ver))) = Some a"
| "cand _ = None"

text \<open>
  A step of one goroutine takes the live nodes, its candidate and its status to new ones; \<open>K\<close> are the known nodes.
\<close>

inductive de_move :: "(loc \<Rightarrow> bool) \<Rightarrow> (loc \<Rightarrow> 'a) \<Rightarrow> loc list \<Rightarrow> loc option \<Rightarrow> 'a de_status \<Rightarrow>
    loc list \<Rightarrow> loc option \<Rightarrow> 'a de_status \<Rightarrow> bool" for K val where
  quiet: "c' = None \<or> c' = c \<Longrightarrow> de_move K val L c st L c' st"
| look: "(a \<in> set L \<Longrightarrow> L \<noteq> [] \<and> hd L = a) \<Longrightarrow> K a \<Longrightarrow> de_move K val L None (Wait PopFront R) L (Some a) (Wait PopFront R)"
| front: "\<not> K l \<Longrightarrow> val l = v \<Longrightarrow> de_move K val L None (Wait (PushFront v) R) (l # L) None (Done Ack)"
| rear: "\<not> K l \<Longrightarrow> val l = v \<Longrightarrow> de_move K val L None (Wait (PushBack v) R) (L @ [l]) None (Done Ack)"
| take: "a \<in> set L \<Longrightarrow>
    de_move K val L (Some a) (Wait PopFront R) (filter (\<lambda>x. x \<noteq> a) L) None (Done (Got (Some (val a))))"
| last: "de_move K val (L @ [a]) None (Wait PopBack R) L None (Done (Got (Some (val a))))"
| empty: "op = PopFront \<or> op = PopBack \<Longrightarrow>
    de_move K val [] None (Wait op R) [] None (Wait op (insert (Got None) R))"

definition step_ok :: "tid \<Rightarrow> 'a lf_deque \<Rightarrow> de_ghost \<Rightarrow> loc option \<Rightarrow> 'a de_status \<Rightarrow> 'a lf_deque \<Rightarrow> 'a de_thread \<Rightarrow> bool" where
  "step_ok t s g c st s' x \<longleftrightarrow> (\<exists>g' st'. de_inv s' g' \<and> de_rely t s g s' g' \<and> thread_ok (de_asrt t s' g') x st' \<and>
     de_move (known g) (\<lambda>l. dvalue (dnodes s' l)) (live s g) c st (live s' g') (cand x) st')"

definition good :: "tid \<Rightarrow> 'a lf_deque \<Rightarrow> de_ghost \<Rightarrow> 'a de_status \<Rightarrow> 'a de_thread \<Rightarrow> bool" where
  "good t s g st x \<longleftrightarrow> thread_ok (de_asrt t s g) x st \<and> cand x = None"

lemma step_read:
  assumes "de_inv s g" and "thread_ok (de_asrt t s g) x st" and "cand x = None \<or> cand x = c"
  shows "step_ok t s g c st s x"
proof -
  have "de_move (known g) (\<lambda>l. dvalue (dnodes s l)) (live s g) c st (live s g) (cand x) st"
    using assms(3) by (rule de_move.quiet)
  then show ?thesis unfolding step_ok_def using assms(1,2) de_rely_refl by blast
qed

lemma good_read: "de_inv s g \<Longrightarrow> good t s g st x \<Longrightarrow> step_ok t s g c st s x"
  by (rule step_read) (simp_all add: good_def)

text \<open>A write that does not concern the other goroutines does not concern its own either.\<close>

lemma good_write:
  assumes i: "de_inv s g" and w: "de_inv s' g'" "\<And>u. de_rely u s g s' g'" "live s' g' = live s g" and x: "good t s g st x"
  shows "step_ok t s g c st s' x"
proof -
  have "thread_ok (de_asrt t s' g') x st"
    using x de_asrt_stable [OF w(2) [of "Suc t"], of t] i by (cases x) (simp_all add: good_def)
  moreover have "de_move (known g) (\<lambda>l. dvalue (dnodes s' l)) (live s g) c st (live s' g') (cand x) st"
    unfolding w(3) using x by (intro de_move.quiet) (simp add: good_def)
  ultimately show ?thesis unfolding step_ok_def using w(1,2) by blast
qed

lemma good_prev:
  assumes i: "de_inv s g" and x: "known g n" and y: "known g y" "y \<noteq> dtail s" and k: "k \<longrightarrow> gone s n" and "good t s g st x"
  shows "step_ok t s g c st (set_prev s n (Some y) k) x"
  by (rule good_write [OF i prev_write(1) [OF i x y k] prev_write(2,3) [OF i x y k] assms(6)])

lemma good_unlink:
  assumes i: "de_inv s g" and p: "loaded s g p ver (Some a)" "lver (nextl s p) = ver" and a: "skips s a b" and "good t s g st x"
  shows "step_ok t s g c st (set_next s p (Some b) False) x"
proof -
  obtain g' where g: "de_inv (set_next s p (Some b) False) g'" "\<forall>t. de_rely t s g (set_next s p (Some b) False) g'"
    "live (set_next s p (Some b) False) g' = live s g" using de_unlink_write [OF i p a] by blast
  show ?thesis by (rule good_write [OF i g(1) _ g(3) assms(5)]) (use g(2) in blast)
qed

subsection \<open>References\<close>

lemma link_cas_try:
  "link_cas m e r em rm = CasTry ver \<longleftrightarrow> lref m = e \<and> lmark m = em \<and> lver m = ver \<and> \<not> (r = e \<and> rm = em)"
  by (auto simp: link_cas_def)

lemma link_cas_loaded: "link_cas (nextl s p) e r False rm = CasTry ver \<Longrightarrow> known g p \<Longrightarrow> loaded s g p ver e"
  by (simp add: link_cas_try loaded_def)

lemma next_ref:
  assumes "de_inv s g" and "known g x"
  obtains y where "lref (nextl s x) = Some y" "known g y" "y \<noteq> dhead s"
  using node_okD(3) [OF de_inv_node [OF assms]] by blast

lemma prev_ref_known: "de_inv s g \<Longrightarrow> known g x \<Longrightarrow> prev_ref s g (lref (prevl s x))"
  using node_okD(4) [OF de_inv_node] by (auto simp: prev_ref_def)

lemma prev_refE:
  assumes "prev_ref s g r"
  obtains y where "r = Some y" "known g y" "y \<noteq> dtail s"
  using assms by (auto simp: prev_ref_def)

lemma tail_not_gone: "de_inv s g \<Longrightarrow> \<not> gone s (dtail s)" and head_not_gone: "de_inv s g \<Longrightarrow> \<not> gone s (dhead s)"
  and tail_next: "de_inv s g \<Longrightarrow> lref (nextl s (dtail s)) = Some (dtail s)"
  using list_okD(5-7) [OF de_inv_list] by auto

lemma derefActive_Some: "derefActive m = Some y \<longleftrightarrow> \<not> lmark m \<and> lref m = Some y"
  by (simp add: derefActive_def)

lemma derefActive_None: "de_inv s g \<Longrightarrow> known g x \<Longrightarrow> derefActive (nextl s x) = None \<longleftrightarrow> gone s x"
  by (auto simp: derefActive_def elim: next_ref)

subsection \<open>Returns\<close>

lemma good_simps [simp]:
  "good t s g st (Return r) \<longleftrightarrow> thread_ok (de_asrt t s g) (Return r) st"
  "good t s g st (Busy (Common l nxt q)) \<longleftrightarrow> st = Done Ack \<and> pair_ok s g l nxt \<and> l \<noteq> dtail s"
  "good t s g st (Busy (Ins u n q1)) \<longleftrightarrow> ins_user_ok t s g u n st \<and> ins_ok s g n q1"
  "good t s g st (Busy (Del w n q2)) \<longleftrightarrow> del_user_ok s g w st \<and> del_ok s g n q2"
  "good t s g st (Busy (Mark m n q3)) \<longleftrightarrow> mark_user_ok t s g m n st \<and> dead s g n \<and> mark_ok s g q3"
  by (simp_all add: good_def)

lemma ins_return_good: "ins_user_ok t s g u n st \<Longrightarrow> pair_ok s g prev n \<Longrightarrow> good t s g st (ins_return s u prev)"
  by (cases u) (auto simp: good_def taken_def)

lemma del_return_good: "del_user_ok s g u st \<Longrightarrow> good t s g st (del_return u)"
  by (cases u) (auto simp: good_def)

lemma del_loop_good:
  "del_user_ok s g u st \<Longrightarrow> dead s g n \<Longrightarrow> known g prev \<Longrightarrow> ptr_known g lst \<Longrightarrow> skips s n nxt \<Longrightarrow>
    good t s g st (del_loop u n prev nxt lst)"
  using del_return_good [of s g u st t] by (simp add: del_loop_def)

lemma mark_return_good:
  "mark_user_ok t s g u n st \<Longrightarrow> good t s g st (mark_return u n)"
  by (cases u) (auto simp: good_def)

subsection \<open>Steps\<close>

lemma mark_step_ok:
  assumes i: "de_inv s g" and a: "mark_user_ok t s g u n st" "dead s g n" "mark_ok s g p" and "mark_step u n s p = (s', x)"
  shows "step_ok t s g c st s' x"
  using assms(3,4,5)
proof (cases p)
  case MGet
  have "good t s g st x"
    using MGet assms a(2) mark_return_good [OF a(1)] prev_ref_known [OF i, of n] by (auto simp: good_def dead_def)
  then show ?thesis using good_read [OF i] assms(5) MGet by auto
next
  case (MSet r)
  have "good t s g st x"
    using MSet assms a mark_return_good [OF a(1)] by (auto simp: good_def split: cas_load.splits)
  then show ?thesis using good_read [OF i] assms(5) MSet by auto
next
  case (MSetCas r ver)
  then obtain y where y: "r = Some y" "known g y" "y \<noteq> dtail s" using a(3) by (auto simp: prev_ref_def)
  have g: "good t s g st (Busy (Mark u n MGet))" using a by (simp add: good_def)
  show ?thesis
  proof (cases "lver (prevl s n) = ver")
    case True
    then have "s' = set_prev s n (Some y) True" "x = mark_return u n"
      using assms(5) MSetCas y(1) by (auto simp: cas_prev_def)
    then show ?thesis
      using good_prev [OF i _ y(2,3) _ mark_return_good [OF a(1)], of n True] a(2) by (simp add: dead_def)
  next
    case False
    then show ?thesis using assms(5) MSetCas good_read [OF i g] by (auto simp: cas_prev_def)
  qed
qed

text \<open>A helper unlinks a deleted node, in \<open>helpDelete\<close> and \<open>helpInsert\<close>.\<close>

lemma unl_step_ok:
  assumes i: "de_inv s g" and p: "seen s g prev next2" "loaded s g l ver (Some prev)" and g: "good t s g st x"
    and s': "s' = (case cas_next s l ver next2 False of None \<Rightarrow> s | Some s'' \<Rightarrow> s'')"
  shows "step_ok t s g c st s' x"
proof (cases "lver (nextl s l) = ver")
  case True
  have d: "known g prev" "gone s prev" "next2 = lref (nextl s prev)" using p(1) by (auto simp: seen_def dead_def)
  then obtain b where b: "next2 = Some b" using next_ref [OF i d(1)] by metis
  have "skips s prev b" using d b by (intro skips.one) simp_all
  from good_unlink [OF i p(2) True this g] show ?thesis using s' True b by (simp add: cas_next_def)
qed (use good_read [OF i g] s' in \<open>simp add: cas_next_def\<close>)

lemma del_step_ok:
  assumes i: "de_inv s g" and u: "del_user_ok s g u st" and a: "del_ok s g n p" and e: "del_step u n s p = (s', x)"
  shows "step_ok t s g c st s' x"
proof -
  have n: "dead s g n" using a by (cases p) auto
  have loop: "known g prev \<Longrightarrow> ptr_known g lst \<Longrightarrow> skips s n nxt \<Longrightarrow> good t s g st (del_loop u n prev nxt lst)"
    for prev nxt lst by (rule del_loop_good [OF u n])
  show ?thesis
  proof (cases p)
    case DRefs
    then show ?thesis using e good_read [OF i] u n prev_ref_known [OF i, of n] by (auto simp: dead_def elim!: prev_refE)
  next
    case (DNext prev)
    have k: "known g n" "gone s n" using n by (simp_all add: dead_def)
    obtain y where y: "lref (nextl s n) = Some y" using next_ref [OF i k(1)] by blast
    have "skips s n y" by (rule skips.one [OF k(2) y])
    then have "good t s g st x" using e DNext a loop [of prev None y] y by simp
    then show ?thesis using e DNext good_read [OF i] by simp
  next
    case (DTest prev nxt lst)
    have "known g nxt" using a DTest skips_known [OF _ i] by (auto simp: dead_def)
    then have "good t s g st x" using e DTest a u by (auto simp: dead_def)
    then show ?thesis using e DTest good_read [OF i] by auto
  next
    case (DAdv prev nxt lst)
    then have k: "known g nxt" "gone s nxt" "skips s n nxt" using a by (simp_all add: dead_def)
    obtain y where y: "lref (nextl s nxt) = Some y" using next_ref [OF i k(1)] by blast
    have "skips s n y" by (rule skips.more [OF k(3,2) y])
    then have "good t s g st x" using e DAdv a loop [of prev lst y] y by simp
    then show ?thesis using e DAdv good_read [OF i] by simp
  next
    case (DDeref prev nxt lst)
    have k: "known g prev" using a DDeref by simp
    show ?thesis
    proof (cases "derefActive (nextl s prev)")
      case None
      then have "gone s prev" using derefActive_None [OF i k] by simp
      then have "good t s g st x" using None e DDeref a u by (auto simp: dead_def ptr_known_def split: option.splits)
      then show ?thesis using e DDeref good_read [OF i] by auto
    next
      case (Some prev2)
      then have "lref (nextl s prev) = Some prev2" by (simp add: derefActive_Some)
      then have "known g prev2" using next_ref [OF i k] by (metis option.inject)
      moreover have "ptr_known g (Some prev)" using k by (simp add: ptr_known_def)
      ultimately have "good t s g st x" using Some e DDeref a u loop [of prev2 "Some prev" nxt] by auto
      then show ?thesis using e DDeref good_read [OF i] by auto
    qed
  next
    case (DNext2 prev nxt lst)
    then have "good t s g st x" using e a u by (auto simp: seen_def)
    then show ?thesis using e DNext2 good_read [OF i] by auto
  next
    case (DUnl prev nxt lst next2)
    then have "good t s g st x" using e a u loop [of lst None nxt] by (auto split: cas_load.splits dest: link_cas_loaded)
    then show ?thesis using e DUnl good_read [OF i] by auto
  next
    case (DUnlCas prev nxt lst next2 ver)
    then have "good t s g st x" using e a u loop [of lst None nxt] by auto
    then show ?thesis using e DUnlCas a unl_step_ok [OF i] by auto
  next
    case (DUp prev nxt)
    then obtain y where y: "lref (prevl s prev) = Some y" "known g y"
      using prev_ref_known [OF i, of prev] a by (auto elim!: prev_refE)
    then have "good t s g st x" using e DUp a loop [of y None nxt] by simp
    then show ?thesis using e DUp good_read [OF i] by simp
  next
    case (DSplice prev nxt lst)
    then have "good t s g st x"
      using e a u loop [of prev lst nxt] del_return_good [OF u] by (auto split: cas_load.splits dest: link_cas_loaded)
    then show ?thesis using e DSplice good_read [OF i] by auto
  next
    case (DSpliceCas prev nxt lst ver)
    show ?thesis
    proof (cases "lver (nextl s prev) = ver")
      case True
      then have "s' = set_next s prev (Some nxt) False" "x = del_return u" using e DSpliceCas by (auto simp: cas_next_def)
      then show ?thesis using good_unlink [OF i _ True _ del_return_good [OF u]] a DSpliceCas by auto
    next
      case False
      then have "x = del_loop u n prev nxt lst" "s' = s" using e DSpliceCas by (simp_all add: cas_next_def)
      then show ?thesis using loop [of prev lst nxt] a DSpliceCas good_read [OF i] by simp
    qed
  qed
qed

lemma ins_step_ok:
  assumes i: "de_inv s g" and u: "ins_user_ok t s g u n st" and a: "ins_ok s g n p" and e: "ins_step u n s p = (s', x)"
  shows "step_ok t s g c st s' x"
proof -
  have n: "known g n" using a by (cases p) (auto simp: pair_ok_def)
  have ret: "pair_ok s g prev n \<Longrightarrow> good t s g st (ins_return s u prev)" for prev by (rule ins_return_good [OF u])
  have read: "good t s g st x \<Longrightarrow> s' = s \<Longrightarrow> step_ok t s g c st s' x" using good_read [OF i] by simp
  show ?thesis
  proof (cases p)
    case (IDeref prev lst)
    have k: "known g prev" using a IDeref by (simp add: pair_ok_def)
    have s: "s' = s" using e IDeref by simp
    show ?thesis
    proof (cases "derefActive (nextl s prev)")
      case None
      then have "gone s prev" using derefActive_None [OF i k] by simp
      then have "good t s g st x"
        using None e IDeref a u k by (auto simp: dead_def lst_ok_def pair_ok_def split: option.splits)
      then show ?thesis using read s by simp
    next
      case (Some prev2)
      then have d: "lref (nextl s prev) = Some prev2" by (simp add: derefActive_Some)
      then have "known g prev2" using next_ref [OF i k] by (metis option.inject)
      moreover have "prev = dtail s \<longrightarrow> prev2 = dtail s" using tail_next [OF i] d by auto
      ultimately have "good t s g st x" using Some e IDeref a u by auto
      then show ?thesis using read s by simp
    qed
  next
    case (INext2 prev lst)
    then have "good t s g st x" using e a u by (auto simp: seen_def)
    then show ?thesis by (rule read) (use e INext2 in simp)
  next
    case (IUnl prev lst next2)
    then have "good t s g st x"
      using e a u by (auto simp: pair_ok_def split: cas_load.splits dest: link_cas_loaded)
    then show ?thesis by (rule read) (use e IUnl in simp)
  next
    case (IUnlCas prev lst next2 ver)
    then have "good t s g st x" using e a u by auto
    then show ?thesis using e IUnlCas a unl_step_ok [OF i] by auto
  next
    case (IUp prev)
    then have "known g prev" using a by simp
    then obtain y where y: "lref (prevl s prev) = Some y" "known g y" "y \<noteq> dtail s"
      using prev_ref_known [OF i] by (blast elim: prev_refE)
    then have "good t s g st x" using e a u IUp n by (auto simp: pair_ok_def)
    then show ?thesis by (rule read) (use e IUp in simp)
  next
    case (ILink prev lst prev2)
    then have o: "pair_ok s g prev n" "lst_ok s g lst n" "known g prev2" "prev = dtail s \<longrightarrow> prev2 = dtail s"
      using a by simp_all
    have x: "s' = s" "x = (if lmark (prevl s n) then ins_return s u prev
        else if prev2 \<noteq> n then Busy (Ins u n (IDeref prev2 (Some prev)))
        else if lref (prevl s n) = Some prev then ins_return s u prev
        else Busy (Ins u n (ISucc prev lst (lref (prevl s n)))))" using e unfolding ILink ins_step.simps prod.inject by blast+
    have "good t s g st x"
      unfolding x(2) using ret [OF o(1)] o u n by (auto simp: pair_ok_def lst_ok_def)
    then show ?thesis using x(1) by (rule read)
  next
    case (ISucc prev lst r1)
    then have "good t s g st x" using e a u by (auto split: if_splits)
    then show ?thesis by (rule read) (use e ISucc in simp)
  next
    case (ISet prev lst r1)
    then have "good t s g st x" using e a u by (auto split: cas_load.splits)
    then show ?thesis by (rule read) (use e ISet in simp)
  next
    case (ISetCas prev lst r1 ver)
    have k: "known g prev" "prev \<noteq> dtail s" using a ISetCas by (simp_all add: pair_ok_def)
    have gd: "good t s g st x" using e a u ISetCas by (auto simp: cas_prev_def split: if_splits)
    have "s' = s \<or> s' = set_prev s n (Some prev) False" using e ISetCas by (auto simp: cas_prev_def split: if_splits)
    then show ?thesis using good_read [OF i gd] good_prev [OF i n k _ gd, of False] by (elim disjE) simp_all
  next
    case (IMarked prev lst)
    then have "good t s g st x" using e a u ret [of prev] by (auto split: if_splits)
    then show ?thesis by (rule read) (use e IMarked in simp)
  qed
qed

lemma common_step_ok:
  assumes i: "de_inv s g" and a: "st = Done Ack" "pair_ok s g l nxt" "l \<noteq> dtail s" and e: "common_step l nxt s p = (s', x)"
  shows "step_ok t s g c st s' x"
proof -
  have k: "known g l" "known g nxt" using a(2) by (simp_all add: pair_ok_def)
  have good: "good t s g st x" using e a by (cases p) (auto simp: lst_ok_def cas_prev_def split: if_splits cas_load.splits)
  have "s' = s \<or> s' = set_prev s nxt (Some l) False"
    using e by (cases p) (auto simp: cas_prev_def split: if_splits)
  then show ?thesis using good_read [OF i good] good_prev [OF i k(2,1) a(3) _ good, of False] by (elim disjE) simp_all
qed

end
