(* ===== verification/St_Sim.thy ===== *)
theory St_Sim
  imports St_Help
begin

text \<open>
  The deque of Sundell and Tsigas: the steps of the operations themselves, in which they take effect.
\<close>

lemma waitsE:
  assumes "waits op st"
  obtains R where "st = Wait op R"
  using assms by (auto simp: waits_def)

lemma step_okI:
  assumes "de_inv s' g'" and "de_rely t s g s' g'" and "thread_ok (de_asrt t s' g') x st'"
    and "de_move (known g) (\<lambda>l. dvalue (dnodes s' l)) (live s g) c st (live s' g') (cand x) st'"
  shows "step_ok t s g c st s' x"
  unfolding step_ok_def using assms by blast

lemma step_stay:
  assumes "de_inv s g" and "s' = s" and "thread_ok (de_asrt t s g) x st" and "cand x = None \<or> cand x = c"
  shows "step_ok t s g c st s' x"
  unfolding assms(2) by (rule step_read [OF assms(1,3,4)])

subsection \<open>PopFront\<close>

lemma front_node:
  assumes i: "de_inv s g"
  obtains y where "lref (nextl s (dhead s)) = Some y" "known g y" "y \<noteq> dhead s" "derefActive (nextl s (dhead s)) = Some y"
proof -
  obtain y where y: "lref (nextl s (dhead s)) = Some y" "known g y" "y \<noteq> dhead s"
    using next_ref [OF i, of "dhead s"] ends_known [OF i] by blast
  then show thesis using that head_not_gone [OF i] by (simp add: derefActive_def)
qed

lemma taken_write:
  assumes i: "de_inv s g" and a: "inner s g a" "\<not> gone s a" and s': "s' = set_next s a (lref (nextl s a)) True"
  shows "de_inv s' g" and "de_rely t s g s' g" and "live s' g = filter (\<lambda>x. x \<noteq> a) (live s g)" and "a \<in> set (live s g)"
    and "dead s' g a" and "taken s' g a (Done (Got (Some (dvalue (dnodes s' a)))))"
proof -
  have k: "known g a" "a \<noteq> dhead s" "a \<noteq> dtail s" using a(1) by (simp_all add: inner_def)
  show "de_inv s' g" "de_rely t s g s' g" "live s' g = filter (\<lambda>x. x \<noteq> a) (live s g)"
    using de_mark_write [OF i k a(2)] s' by simp_all
  show "a \<in> set (live s g)" using set_live [OF i] k a(2) by simp
  show "dead s' g a" using k s' by (simp add: dead_def)
  then show "taken s' g a (Done (Got (Some (dvalue (dnodes s' a)))))" by (simp add: taken_def)
qed

lemma pop_front_ok:
  assumes i: "de_inv s g" and a: "popl_ok s g p st"
  shows "step_ok t s g (cand (Busy (PopL p))) st (fst (pop_front_step s p)) (snd (pop_front_step s p))"
proof (cases p)
  case FNode
  then obtain R where R: "st = Wait PopFront R" using a by (auto elim: waitsE)
  obtain y where y: "lref (nextl s (dhead s)) = Some y" "known g y" "y \<noteq> dhead s" "derefActive (nextl s (dhead s)) = Some y"
    using front_node [OF i] .
  show ?thesis
  proof (cases "y = dtail s")
    case True
    have "live s g = []" by (rule live_front(2) [OF i y(1) True])
    then show ?thesis using R FNode i y(4) True
      by (intro step_okI [where g' = g and st' = "Wait PopFront (insert (Got None) R)"]) (simp_all add: de_move.empty)
  next
    case False
    have "live s g \<noteq> [] \<and> hd (live s g) = y" if m: "y \<in> set (live s g)"
    proof -
      have "\<not> gone s y" using m set_live [OF i, of y] by blast
      from live_front(1) [OF i y(1) False this] show ?thesis by auto
    qed
    then have "de_move (known g) (\<lambda>l. dvalue (dnodes s l)) (live s g) None st (live s g) (Some y) st"
      unfolding R using y(2) by (rule de_move.look)
    then show ?thesis using FNode i y False R by (intro step_okI [where g' = g and st' = st]) (simp_all add: inner_def)
  qed
next
  case (FLink b)
  then have w: "waits PopFront st" "inner s g b" using a by simp_all
  then have "known g b" by (simp add: inner_def)
  then show ?thesis unfolding FLink using w by (intro step_stay [OF i]) (simp_all add: dead_def)
next
  case (FMark b r)
  then have w: "waits PopFront st" "inner s g b" using a by simp_all
  have "known g b" using w(2) by (simp add: inner_def)
  then show ?thesis unfolding FMark using w
    by (intro step_stay [OF i]) (simp_all add: link_cas_def loaded_def)
next
  case (FMarkCas b r ver)
  then have w: "waits PopFront st" "inner s g b" "loaded s g b ver r" using a by simp_all
  then obtain R where R: "st = Wait PopFront R" by (auto elim: waitsE)
  show ?thesis
  proof (cases "lver (nextl s b) = ver")
    case True
    then have r: "lref (nextl s b) = r" "\<not> gone s b" using w(3) by (simp_all add: loaded_def)
    note T = taken_write [OF i w(2) r(2) refl]
    have e: "pop_front_step s p =
        (set_next s b (lref (nextl s b)) True, Busy (Mark (MStart (ForFront b)) b MGet))"
      using FMarkCas True r(1) by (simp add: cas_next_def)
    have c: "cand (Busy (PopL p)) = Some b" using FMarkCas by simp
    have "de_move (known g) (\<lambda>l. dvalue (dnodes s l)) (live s g) (Some b) (Wait PopFront R)
        (filter (\<lambda>x. x \<noteq> b) (live s g)) None (Done (Got (Some (dvalue (dnodes s b)))))"
      using de_move.take [OF T(4), where val = "\<lambda>l. dvalue (dnodes s l)"] by simp
    then show ?thesis unfolding e c fst_conv snd_conv using T(5,6)
      by (intro step_okI [OF T(1,2)]) (simp_all add: T(3) R)
  next
    case False
    then show ?thesis unfolding FMarkCas using w(1) by (intro step_stay [OF i]) (simp_all add: cas_next_def)
  qed
next
  case (FRef b)
  then have w: "taken s g b st" "known g b" using a by (simp_all add: taken_def dead_def)
  obtain y where y: "lref (nextl s b) = Some y" "known g y" "y \<noteq> dhead s" using next_ref [OF i w(2)] .
  show ?thesis unfolding FRef using y w(1) ends_known [OF i] by (intro step_stay [OF i]) (simp_all add: pair_ok_def)
qed

subsection \<open>PopBack\<close>

lemma pop_back_ok:
  assumes i: "de_inv s g" and a: "popr_ok s g p st"
  shows "step_ok t s g None st (fst (pop_back_step s p)) (snd (pop_back_step s p))"
proof (cases p)
  case BPrev
  have "known g (dtail s)" using ends_known [OF i] by simp
  moreover have "\<not> lmark (prevl s (dtail s))"
    using node_okD(5) [OF de_inv_node [OF i \<open>known g (dtail s)\<close>]] tail_not_gone [OF i] by blast
  moreover obtain y where "lref (prevl s (dtail s)) = Some y" "known g y" "y \<noteq> dtail s"
    using prev_ref_known [OF i \<open>known g (dtail s)\<close>] by (rule prev_refE)
  ultimately show ?thesis unfolding BPrev using a BPrev
    by (intro step_stay [OF i]) (simp_all add: derefActive_def pair_ok_def)
next
  case (BTest b)
  then have w: "waits PopBack st" "pair_ok s g b (dtail s)" using a by simp_all
  then obtain R where R: "st = Wait PopBack R" by (auto elim: waitsE)
  show ?thesis
  proof (cases "follows s b (dtail s) \<and> \<not> gone s b \<and> b = dhead s")
    case True
    then have b: "\<not> gone s b" "follows s b (dtail s)" "b = dhead s" by blast+
    have "known g b" "b \<noteq> dtail s" using w(2) by (simp_all add: pair_ok_def)
    then have "live s g = []" by (rule live_back(2) [OF i _ _ b])
    then show ?thesis unfolding BTest using R i b(1,2) [unfolded b(3)] b(3)
      by (intro step_okI [where g' = g and st' = "Wait PopBack (insert (Got None) R)"]) (simp_all add: de_move.empty)
  next
    case False
    then show ?thesis unfolding BTest using w by (intro step_stay [OF i]) (auto simp: inner_def pair_ok_def)
  qed
next
  case (BMark b)
  then have w: "waits PopBack st" "inner s g b" using a by simp_all
  have "known g b" using w(2) by (simp add: inner_def)
  then show ?thesis unfolding BMark using w ends_known [OF i]
    by (intro step_stay [OF i]) (simp_all add: link_cas_def loaded_def inner_def pair_ok_def)
next
  case (BMarkCas b ver)
  then have w: "waits PopBack st" "inner s g b" "loaded s g b ver (Some (dtail s))" using a by simp_all
  then obtain R where R: "st = Wait PopBack R" by (auto elim: waitsE)
  have b: "known g b" "b \<noteq> dhead s" "b \<noteq> dtail s" using w(2) by (simp_all add: inner_def)
  show ?thesis
  proof (cases "lver (nextl s b) = ver")
    case True
    then have r: "follows s b (dtail s)" "\<not> gone s b" using w(3) by (simp_all add: loaded_def)
    note T = taken_write [OF i w(2) r(2) refl]
    obtain ys where ys: "live s g = ys @ [b]" using live_back(1) [OF i b(1,3) r(2,1) b(2)] by blast
    have f: "filter (\<lambda>x. x \<noteq> b) (live s g) = ys"
      using distinct_live [OF i] unfolding ys by (auto simp: filter_id_conv)
    have e: "pop_back_step s p =
        (set_next s b (lref (nextl s b)) True, Busy (Mark (MStart (ForBack b)) b MGet))"
      using BMarkCas True r(1) by (simp add: cas_next_def)
    have "de_move (known g) (\<lambda>l. dvalue (dnodes s l)) (live s g) None (Wait PopBack R) ys None
        (Done (Got (Some (dvalue (dnodes s b)))))"
      using de_move.last [where val = "\<lambda>l. dvalue (dnodes s l)"] unfolding ys by simp
    then show ?thesis unfolding e fst_conv snd_conv using T(5,6)
      by (intro step_okI [OF T(1,2)]) (simp_all add: T(3) R f)
  next
    case False
    then show ?thesis unfolding BMarkCas using w(1) b ends_known [OF i]
      by (intro step_stay [OF i]) (simp_all add: cas_next_def pair_ok_def)
  qed
next
  case (BRef b)
  then have w: "taken s g b st" "known g b" using a by (simp_all add: taken_def dead_def)
  obtain y where y: "lref (prevl s b) = Some y" "known g y" "y \<noteq> dtail s"
    using prev_ref_known [OF i w(2)] by (rule prev_refE)
  show ?thesis unfolding BRef using y w(1) ends_known [OF i] by (intro step_stay [OF i]) (simp_all add: pair_ok_def)
qed

subsection \<open>Pushes\<close>

lemma link_ok:
  assumes i: "de_inv s g" and m: "mine t s g l v" "links s l p nx" "loaded s g p ver nx" "lver (nextl s p) = ver" "p \<noteq> dtail s"
    and w: "p = dhead s \<and> st = Wait (PushFront v) R \<or> nx = Some (dtail s) \<and> st = Wait (PushBack v) R"
    and x: "x = at_ptr nx (\<lambda>n. Busy (Common l n CPrev))"
  shows "step_ok t s g None st (set_next s p (Some l) False) x"
proof -
  let ?s = "set_next s p (Some l) False"
  have l: "downer g l = Some t" "lref (prevl s l) = Some p" "\<not> lmark (prevl s l)" "lref (nextl s l) = nx" "\<not> gone s l"
      "dvalue (dnodes s l) = v"
    using m(1,2) by (simp_all add: mine_def links_def)
  have k: "known g p" "lref (nextl s p) = nx" using m(3,4) by (simp_all add: loaded_def)
  have nl: "\<not> known g l" by (rule known_not_owned [OF i l(1)])
  then have lt: "l \<noteq> dtail s" using ends_known [OF i] by auto
  obtain y where y: "nx = Some y" "known g y" using next_ref [OF i k(1)] k(2) by metis
  obtain g' where g': "de_inv ?s g'" "de_rely t s g ?s g'" "known g' l" "\<And>x. known g x \<Longrightarrow> known g' x"
    "p = dhead s \<Longrightarrow> live ?s g' = l # live s g" "nx = Some (dtail s) \<Longrightarrow> live ?s g' = live s g @ [l]"
    using push_write [OF i l(1-5) m(3-5)] by blast
  have "thread_ok (de_asrt t ?s g') x (Done Ack)" using x y g'(3,4) lt by (simp add: pair_ok_def)
  moreover have "de_move (known g) (\<lambda>l. dvalue (dnodes ?s l)) (live s g) None st (live ?s g') (cand x) (Done Ack)"
    using w
  proof
    assume a: "p = dhead s \<and> st = Wait (PushFront v) R"
    then have "live ?s g' = l # live s g" using g'(5) by blast
    then show ?thesis using a x y(1) nl l(6) by (simp add: de_move.front)
  next
    assume a: "nx = Some (dtail s) \<and> st = Wait (PushBack v) R"
    then have "live ?s g' = live s g @ [l]" using g'(6) by blast
    then show ?thesis using a x y(1) nl l(6) by (simp add: de_move.rear)
  qed
  ultimately show ?thesis by (rule step_okI [OF g'(1,2)])
qed

lemma own_ok:
  assumes i: "de_inv s g" and m: "mine t s g l v"
    and x: "\<And>s'. mine t s' g l v \<Longrightarrow> links s' l p nx \<Longrightarrow> dhead s' = dhead s \<Longrightarrow> dtail s' = dtail s \<Longrightarrow>
      thread_ok (de_asrt t s' g) x st" and c: "cand x = None"
  shows "step_ok t s g c st (set_links s l p nx) x"
proof -
  have l: "downer g l = Some t" "dvalue (dnodes s l) = v" using m by (simp_all add: mine_def)
  note O = links_write [OF i l(1), where p = p and nx = nx]
  have "mine t (set_links s l p nx) g l v" "links (set_links s l p nx) l p nx"
    using O(4-8) l by (simp_all add: mine_def links_def)
  then have "thread_ok (de_asrt t (set_links s l p nx) g) x st" by (rule x) (rule O(9,10))+
  then show ?thesis by (rule step_okI [OF O(1,2)]) (simp add: O(3) c de_move.quiet)
qed

lemma push_front_ok:
  assumes i: "de_inv s g" and m: "mine t s g l v" "waits (PushFront v) st" and a: "pushl_ok s g l p"
  shows "step_ok t s g None st (fst (push_front_step l s p)) (snd (push_front_step l s p))"
proof (cases p)
  case LNext
  then show ?thesis using m by (intro step_stay [OF i]) auto
next
  case (LTest nxt)
  have "step_ok t s g None st (set_links s l (dhead s) nxt) (Busy (PushL l (LLink nxt)))"
    by (rule own_ok [OF i m(1)]) (use m(2) in auto)
  moreover have "step_ok t s g None st s (Busy (PushL l LNext))" using m by (intro step_stay [OF i]) auto
  ultimately show ?thesis unfolding LTest by simp
next
  case (LLink nxt)
  have k: "known g (dhead s)" using ends_known [OF i] by simp
  have nl: "\<not> known g l" using known_not_owned [OF i] m(1) by (simp add: mine_def)
  have "\<not> follows s (dhead s) l" using next_ref [OF i k] nl by (metis option.inject)
  then have "link_cas (nextl s (dhead s)) nxt (Some l) False False \<noteq> CasHolds" by (auto simp: link_cas_def)
  then show ?thesis unfolding LLink using m a LLink link_cas_loaded [OF _ k]
    by (intro step_stay [OF i]) (auto split: cas_load.splits)
next
  case (LLinkCas nxt ver)
  then have w: "links s l (dhead s) nxt" "loaded s g (dhead s) ver nxt" using a by simp_all
  obtain R where R: "st = Wait (PushFront v) R" using m(2) by (rule waitsE)
  have ht: "dhead s \<noteq> dtail s" using ends_known [OF i] by simp
  show ?thesis
  proof (cases "lver (nextl s (dhead s)) = ver")
    case True
    have "step_ok t s g None st (set_next s (dhead s) (Some l) False) (at_ptr nxt (\<lambda>n. Busy (Common l n CPrev)))"
      by (rule link_ok [OF i m(1) w True ht]) (use R in simp_all)
    then show ?thesis unfolding LLinkCas using True by (simp add: cas_next_def)
  next
    case False
    then show ?thesis unfolding LLinkCas using m by (intro step_stay [OF i]) (auto simp: cas_next_def)
  qed
qed

lemma push_back_ok:
  assumes i: "de_inv s g" and m: "mine t s g l v" "waits (PushBack v) st" and a: "pushr_ok s g l p"
  shows "step_ok t s g None st (fst (push_back_step l s p)) (snd (push_back_step l s p))"
proof (cases p)
  case RPrev
  have "known g (dtail s)" using ends_known [OF i] by simp
  moreover have "\<not> lmark (prevl s (dtail s))"
    using node_okD(5) [OF de_inv_node [OF i \<open>known g (dtail s)\<close>]] tail_not_gone [OF i] by blast
  moreover obtain y where "lref (prevl s (dtail s)) = Some y" "known g y" "y \<noteq> dtail s"
    using prev_ref_known [OF i \<open>known g (dtail s)\<close>] by (rule prev_refE)
  ultimately show ?thesis unfolding RPrev using m
    by (intro step_stay [OF i]) (auto simp: derefActive_def pair_ok_def)
next
  case (RTest q)
  then have q: "pair_ok s g q (dtail s)" using a by simp
  have "step_ok t s g None st (set_links s l q (Some (dtail s))) (Busy (PushR l (RLink q)))"
    by (rule own_ok [OF i m(1)]) (use m(2) q in \<open>auto simp: pair_ok_def\<close>)
  moreover have "step_ok t s g None st s (Busy (Ins (ForPush l) (dtail s) (IDeref q None)))"
    using m q by (intro step_stay [OF i]) auto
  ultimately show ?thesis unfolding RTest by simp
next
  case (RLink q)
  then have w: "pair_ok s g q (dtail s)" "links s l q (Some (dtail s))" using a by simp_all
  then have k: "known g q" by (simp add: pair_ok_def)
  have nl: "\<not> known g l" using known_not_owned [OF i] m(1) by (simp add: mine_def)
  have "\<not> follows s q l" using next_ref [OF i k] nl by (metis option.inject)
  then have "link_cas (nextl s q) (Some (dtail s)) (Some l) False False \<noteq> CasHolds" by (auto simp: link_cas_def)
  then show ?thesis unfolding RLink using m w link_cas_loaded [OF _ k]
    by (intro step_stay [OF i]) (auto split: cas_load.splits)
next
  case (RLinkCas q ver)
  then have w: "pair_ok s g q (dtail s)" "links s l q (Some (dtail s))" "loaded s g q ver (Some (dtail s))" using a by simp_all
  obtain R where R: "st = Wait (PushBack v) R" using m(2) by (rule waitsE)
  have qt: "q \<noteq> dtail s" using w(1) by (simp add: pair_ok_def)
  show ?thesis
  proof (cases "lver (nextl s q) = ver")
    case True
    have "step_ok t s g None st (set_next s q (Some l) False) (Busy (Common l (dtail s) CPrev))"
      by (rule link_ok [OF i m(1) w(2,3) True qt]) (use R in simp_all)
    then show ?thesis unfolding RLinkCas using True by (simp add: cas_next_def)
  next
    case False
    then show ?thesis unfolding RLinkCas using m w(1) by (intro step_stay [OF i]) (auto simp: cas_next_def)
  qed
qed

subsection \<open>All steps\<close>

lemma de_step_ok:
  assumes i: "de_inv s g" and a: "de_asrt t s g p st" and e: "de_step s t p = (s', x)"
  shows "step_ok t s g (cand (Busy p)) st s' x"
proof (cases p)
  case (PushL l q)
  then show ?thesis using a e push_front_ok [OF i, of t l _ st q] by auto
next
  case (PushR l q)
  then show ?thesis using a e push_back_ok [OF i, of t l _ st q] by auto
next
  case (Common l nxt q)
  show ?thesis by (rule common_step_ok [OF i]) (use a e Common in simp_all)
next
  case (PopL q)
  then show ?thesis using a e pop_front_ok [OF i, of q st t] by simp
next
  case (PopR q)
  then show ?thesis using a e pop_back_ok [OF i, of q st t] by simp
next
  case (Ins u n q)
  show ?thesis by (rule ins_step_ok [OF i]) (use a e Ins in simp_all)
next
  case (Del u n q)
  show ?thesis by (rule del_step_ok [OF i]) (use a e Del in simp_all)
next
  case (Mark u n q)
  show ?thesis by (rule mark_step_ok [OF i]) (use a e Mark in simp_all)
qed

end
