(* ===== verification/St_Lin.thy ===== *)
theory St_Lin
  imports St_Sim
begin

text \<open>
  The possibilities of the deque of Sundell and Tsigas. A \<open>PopFront\<close> reads the first node and marks it
  later, when other nodes may have been pushed in front of it. If it succeeds then it took effect when it read the node. So a
  goroutine that has a candidate may have popped it already or not. A choice says who has.
\<close>

subsection \<open>Choices\<close>

definition choice :: "loc list \<Rightarrow> (tid \<Rightarrow> loc option) \<Rightarrow> (tid \<Rightarrow> loc option) \<Rightarrow> bool" where
  "choice L cnd f \<longleftrightarrow> f \<subseteq>\<^sub>m cnd \<and> ran f \<subseteq> set L \<and> inj_on f (dom f)"

definition status :: "(loc \<Rightarrow> 'a) \<Rightarrow> (tid \<Rightarrow> 'a de_status) \<Rightarrow> (tid \<Rightarrow> loc option) \<Rightarrow> tid \<Rightarrow> 'a de_status" where
  "status val st f t = (case f t of None \<Rightarrow> st t | Some a \<Rightarrow> Done (Got (Some (val a))))"

definition outcome :: "(loc \<Rightarrow> 'a) \<Rightarrow> loc list \<Rightarrow> (tid \<Rightarrow> 'a de_status) \<Rightarrow> (tid \<Rightarrow> loc option) \<Rightarrow>
    ('a list, 'a deque_op, 'a resp) config" where
  "outcome val L st f = (map val (filter (\<lambda>x. x \<notin> ran f) L), status val st f)"

definition outcomes :: "(loc \<Rightarrow> 'a) \<Rightarrow> loc list \<Rightarrow> (tid \<Rightarrow> loc option) \<Rightarrow> (tid \<Rightarrow> 'a de_status) \<Rightarrow>
    ('a list, 'a deque_op, 'a resp) config set" where
  "outcomes val L cnd st = outcome val L st ` {f. choice L cnd f}"

lemma choice_empty [simp]: "choice L cnd Map.empty"
  by (simp add: choice_def)

lemma outcomes_nonempty: "outcomes val L cnd st \<noteq> {}"
  using choice_empty unfolding outcomes_def by blast

lemma choiceD:
  assumes "choice L cnd f" and "f t = Some a"
  shows "cnd t = Some a" and "a \<in> set L"
  using assms by (auto simp: choice_def map_le_def dom_def ran_def)

lemma choice_None: "choice L cnd f \<Longrightarrow> cnd t = None \<Longrightarrow> f t = None"
  using choiceD(1) [of L cnd f t] by (cases "f t") auto

lemma outcome_cong:
  assumes "choice L cnd f" and "\<And>x. x \<in> set L \<Longrightarrow> val' x = val x"
  shows "outcome val' L st f = outcome val L st f"
proof -
  have "status val' st f t = status val st f t" for t
    using choiceD(2) [OF assms(1), of t] assms(2) by (simp add: status_def split: option.splits)
  then have "status val' st f = status val st f" by (rule ext)
  moreover have "map val' (filter (\<lambda>x. x \<notin> ran f) L) = map val (filter (\<lambda>x. x \<notin> ran f) L)"
    by (rule map_cong [OF refl]) (use assms(2) in simp)
  ultimately show ?thesis by (simp add: outcome_def)
qed

lemma outcomes_cong: "(\<And>x. x \<in> set L \<Longrightarrow> val' x = val x) \<Longrightarrow> outcomes val' L cnd st = outcomes val L cnd st"
  unfolding outcomes_def by (rule image_cong [OF refl]) (use outcome_cong [of L cnd _ val' val st] in blast)

lemma leads_outcomes:
  assumes "\<And>f. choice L' cnd' f \<Longrightarrow>
    \<exists>f' E. choice L cnd f' \<and> visible E = h \<and> lin_run deque_spec (outcome val L st f') E = Some (outcome val L' st' f)"
  shows "leads deque_spec (outcomes val L cnd st) h (outcomes val L' cnd' st')"
  unfolding leads_def
proof
  fix c' assume "c' \<in> outcomes val L' cnd' st'"
  then obtain f where f: "choice L' cnd' f" "c' = outcome val L' st' f" by (auto simp: outcomes_def)
  obtain f' E where "choice L cnd f'" "visible E = h" "lin_run deque_spec (outcome val L st f') E = Some c'"
    using assms [OF f(1)] f(2) by blast
  then show "\<exists>c \<in> outcomes val L cnd st. \<exists>E. visible E = h \<and> lin_run deque_spec c E = Some c'"
    by (intro bexI [of _ "outcome val L st f'"] exI [of _ E]) (simp_all add: outcomes_def)
qed

subsection \<open>Moves of one goroutine\<close>

lemma status_upd: "f t = None \<Longrightarrow> status val (st(t := s)) f = (status val st f)(t := s)"
  by (auto simp: status_def fun_eq_iff split: option.splits)

lemma status_None: "f t = None \<Longrightarrow> status val st f t = st t"
  by (simp add: status_def)

text \<open>A goroutine without a candidate takes a step that leaves the choices as they are.\<close>

lemma leads_same:
  assumes c: "cnd t = None" "cnd' = cnd" and ch: "\<And>f. choice L' cnd f \<Longrightarrow> choice L cnd f"
    and E: "visible E = h" "\<And>f. choice L' cnd f \<Longrightarrow> f t = None \<Longrightarrow>
      lin_run deque_spec (map val (filter (\<lambda>x. x \<notin> ran f) L), status val st f) E =
        Some (map val (filter (\<lambda>x. x \<notin> ran f) L'), (status val st f)(t := s))"
  shows "leads deque_spec (outcomes val L cnd st) h (outcomes val L' cnd' (st(t := s)))"
proof (rule leads_outcomes)
  fix f assume "choice L' cnd' f"
  then have f: "choice L' cnd f" using c(2) by simp
  have n: "f t = None" by (rule choice_None [OF f c(1)])
  show "\<exists>f' E. choice L cnd f' \<and> visible E = h \<and>
      lin_run deque_spec (outcome val L st f') E = Some (outcome val L' (st(t := s)) f)"
    using E(2) [OF f n] ch [OF f] E(1) by (intro exI [of _ f] exI [of _ E]) (simp add: outcome_def status_upd [where f = f and t = t, OF n])
qed

lemma leads_drop:
  assumes "cnd' \<subseteq>\<^sub>m cnd"
  shows "leads deque_spec (outcomes val L cnd st) [] (outcomes val L cnd' st)"
proof (rule leads_outcomes)
  fix f assume "choice L cnd' f"
  then have "choice L cnd f" using assms map_le_trans by (auto simp: choice_def)
  then show "\<exists>f' E. choice L cnd f' \<and> visible E = [] \<and> lin_run deque_spec (outcome val L st f') E = Some (outcome val L st f)"
    by (intro exI [of _ f] exI [of _ "[]"]) simp
qed

text \<open>The choice without one goroutine, and with one more.\<close>

lemma choice_without:
  assumes "choice L cnd f" and "\<And>u. u \<noteq> t \<Longrightarrow> cnd' u = cnd u"
  shows "choice L cnd' (f(t := None))"
  using assms by (auto simp: choice_def map_le_def ran_def inj_on_def dom_def split: if_splits)

lemma ran_without:
  assumes "choice L cnd f" and "f t = Some a"
  shows "ran (f(t := None)) = ran f - {a}" and "a \<in> ran f"
proof -
  have only: "u = t" if "f u = Some a" for u
  proof -
    have "inj_on f (dom f)" using assms(1) by (simp add: choice_def)
    then show ?thesis by (rule inj_onD) (use assms(2) that in auto)
  qed
  have "x \<in> ran (f(t := None)) \<longleftrightarrow> x \<in> ran f - {a}" for x
  proof
    assume "x \<in> ran (f(t := None))"
    then obtain w where w: "w \<noteq> t" "f w = Some x" by (auto simp: ran_def split: if_splits)
    then have "x \<noteq> a" using only by blast
    then show "x \<in> ran f - {a}" using w(2) by (auto intro: ranI)
  next
    assume "x \<in> ran f - {a}"
    then obtain w where w: "f w = Some x" "x \<noteq> a" by (auto simp: ran_def)
    then have "w \<noteq> t" using assms(2) by auto
    then show "x \<in> ran (f(t := None))" using w(1) by (intro ranI [of _ w]) simp
  qed
  then show "ran (f(t := None)) = ran f - {a}" by blast
  show "a \<in> ran f" using assms(2) by (auto simp: ran_def)
qed

text \<open>A \<open>PopFront\<close> finds its candidate: it may take effect here.\<close>

lemma leads_look:
  assumes a: "a \<in> set L \<Longrightarrow> L \<noteq> [] \<and> hd L = a" and d: "distinct L" and c: "cnd t = None" and st: "st t = Wait PopFront R"
  shows "leads deque_spec (outcomes val L cnd st) [] (outcomes val L (cnd(t := Some a)) st)"
proof (rule leads_outcomes)
  fix f assume f: "choice L (cnd(t := Some a)) f"
  have ch: "choice L cnd (f(t := None))" by (rule choice_without [OF f]) simp
  show "\<exists>f' E. choice L cnd f' \<and> visible E = [] \<and> lin_run deque_spec (outcome val L st f') E = Some (outcome val L st f)"
  proof (cases "f t")
    case None
    then have "f(t := None) = f" by auto
    then show ?thesis using ch by (intro exI [of _ f] exI [of _ "[]"]) simp
  next
    case (Some b)
    then have b: "b = a" "a \<in> set L" using choiceD [OF f Some] by simp_all
    then obtain ys where L: "L = a # ys" using a by (cases L) auto
    have r: "ran (f(t := None)) = ran f - {a}" "a \<in> ran f" using ran_without [OF f Some] b(1) by simp_all
    have "filter (\<lambda>x. x \<notin> ran f - {a}) ys = filter (\<lambda>x. x \<notin> ran f) ys"
      by (rule filter_cong) (use d L in auto)
    then have x: "map val (filter (\<lambda>x. x \<notin> ran (f(t := None))) L) = val a # map val (filter (\<lambda>x. x \<notin> ran f) L)"
      unfolding r(1) L using r(2) by simp
    have "status val st f = (status val st (f(t := None)))(t := Done (Got (Some (val a))))"
      using Some b(1) by (auto simp: status_def fun_eq_iff)
    then have "lin_run deque_spec (outcome val L st (f(t := None))) [Lin t] = Some (outcome val L st f)"
      unfolding outcome_def x by (simp add: status_None st)
    then show ?thesis using ch by (intro exI [of _ "f(t := None)"] exI [of _ "[Lin t]"]) simp
  qed
qed

text \<open>It marks its candidate: it did take effect there.\<close>

lemma leads_take:
  assumes a: "a \<in> set L" and c: "cnd t = Some a"
  shows "leads deque_spec (outcomes val L cnd st) []
    (outcomes val (filter (\<lambda>x. x \<noteq> a) L) (cnd(t := None)) (st(t := Done (Got (Some (val a))))))"
proof (rule leads_outcomes)
  let ?L = "filter (\<lambda>x. x \<noteq> a) L"
  fix f assume f: "choice ?L (cnd(t := None)) f"
  have n: "f t = None" by (rule choice_None [OF f]) simp
  have na: "a \<notin> ran f" using f by (auto simp: choice_def)
  have r: "ran (f(t := Some a)) = insert a (ran f)" using n by (simp add: ran_map_upd)
  have "choice L cnd (f(t := Some a))"
    using f n na a c unfolding choice_def r
    by (auto simp: map_le_def inj_on_def dom_def ran_def split: if_splits)
  moreover have "outcome val L st (f(t := Some a)) = outcome val ?L (st(t := Done (Got (Some (val a))))) f"
  proof -
    have "status val st (f(t := Some a)) = status val (st(t := Done (Got (Some (val a))))) f"
      using n by (auto simp: status_def fun_eq_iff split: option.splits)
    moreover have "filter (\<lambda>x. x \<notin> insert a (ran f)) L = filter (\<lambda>x. x \<notin> ran f) ?L"
      unfolding filter_filter by (rule filter_cong) auto
    ultimately show ?thesis unfolding outcome_def r by simp
  qed
  ultimately show "\<exists>f' E. choice L cnd f' \<and> visible E = [] \<and>
      lin_run deque_spec (outcome val L st f') E = Some (outcome val ?L (st(t := Done (Got (Some (val a))))) f)"
    by (intro exI [of _ "f(t := Some a)"] exI [of _ "[]"]) simp
qed

lemma leads_move:
  assumes m: "de_move K val L c s L' c' s'" and cnd: "cnd t = c" "\<And>u a. cnd u = Some a \<Longrightarrow> K a" and st: "st t = s"
    and d: "distinct L"
  shows "leads deque_spec (outcomes val L cnd st) [] (outcomes val L' (cnd(t := c')) (st(t := s')))"
  using m
proof cases
  case quiet
  have "cnd(t := c') \<subseteq>\<^sub>m cnd" using quiet(3) cnd(1) by (auto simp: map_le_def)
  from leads_drop [OF this] show ?thesis using quiet st by (simp add: fun_upd_idem)
next
  case (look a R)
  have "st(t := s') = st" using look st by auto
  then show ?thesis using leads_look [OF look(6) d, of cnd t st R val] look cnd(1) st by simp
next
  case (front l v R)
  have "choice L cnd f" "l \<notin> ran f" if f: "choice (l # L) cnd f" for f
  proof -
    have "l \<notin> ran f" using front(6) cnd(2) choiceD(1) [OF f] by (auto simp: ran_def)
    then show "choice L cnd f" "l \<notin> ran f" using f by (auto simp: choice_def)
  qed
  then show ?thesis
    using front cnd(1) st by (intro leads_same [where E = "[Lin t]"]) (auto simp: status_None)
next
  case (rear l v R)
  have "choice L cnd f" "l \<notin> ran f" if f: "choice (L @ [l]) cnd f" for f
  proof -
    have "l \<notin> ran f" using rear(6) cnd(2) choiceD(1) [OF f] by (auto simp: ran_def)
    then show "choice L cnd f" "l \<notin> ran f" using f by (auto simp: choice_def)
  qed
  then show ?thesis
    using rear cnd(1) st by (intro leads_same [where E = "[Lin t]"]) (auto simp: status_None)
next
  case (take a R)
  then show ?thesis using leads_take [OF take(6), of cnd t val st] cnd(1) by simp
next
  case (last a R)
  have "a \<notin> ran f" if f: "choice L' cnd f" for f
    using f d last(1) by (auto simp: choice_def)
  moreover have "choice L cnd f" if f: "choice L' cnd f" for f using f last(1) by (auto simp: choice_def)
  ultimately show ?thesis
    using last cnd(1) st by (intro leads_same [where E = "[Lin t]"]) (auto simp: status_None)
next
  case (empty op R)
  then show ?thesis
    using cnd(1) st by (intro leads_same [where E = "[Obs t]"]) (auto simp: status_None)
qed

end
