(* ===== verification/St_Facts.thy ===== *)
theory St_Facts
  imports St_Lin
begin

text \<open>
  The deque of Sundell and Tsigas: the possibilities are kept by the start of a call, by every step and by the return,
  so the deque is linearizable; and the shape of its links.
\<close>

subsection \<open>The start of a call\<close>

lemma alloc_write:
  assumes i: "de_inv s g"
    and s': "s' = s\<lparr>dnodes := (dnodes s)(dbrk s := new_denode v), dbrk := Suc (dbrk s)\<rparr>"
    and g': "g' = g\<lparr>downer := (downer g)(dbrk s := Some t)\<rparr>"
  shows "de_inv s' g'" and "de_rely t s g s' g'" and "live s' g' = live s g" and "mine t s' g' (dbrk s) v" and "known g' = known g"
proof -
  let ?l = "dbrk s"
  note L = list_okD [OF de_inv_list [OF i]]
  have kn: "known g' = known g" by (auto simp: known_def fun_eq_iff g')
  have old: "x < ?l" if "known g x" for x by (rule node_okD(1) [OF de_inv_node [OF i that]])
  then have same: "dnodes s' x = dnodes s x" if "known g x" for x using that by (auto simp: s')
  have ends: "known g (dhead s)" "known g (dtail s)" using ends_known [OF i] by simp_all
  have hd: "dhead s' = dhead s" "dtail s' = dtail s" by (simp_all add: s')
  have sq: "dseq g' = dseq g" "dold g' = dold g" by (simp_all add: g')
  have sets: "x \<in> set (dseq g) \<Longrightarrow> known g x" "x \<in> dold g \<Longrightarrow> known g x" for x by (simp_all add: known_def)
  have "successively (follows s') (dseq g)" by (rule successively_mono [OF L(3)]) (simp add: same sets)
  then have "list_ok s' g'"
    using L(1,2,5-7) L(4) same [OF ends(1)] same [OF ends(2)] by (simp add: list_ok_def hd sq same sets(2))
  moreover have "node_ok s' g' x" if k: "known g' x" for x
  proof -
    have "known g x" using k kn by simp
    then show ?thesis
      using de_inv_node [OF i \<open>known g x\<close>] old [OF \<open>known g x\<close>] same [OF \<open>known g x\<close>]
      by (simp add: node_ok_def kn hd) (simp add: s' g')
  qed
  moreover have "l < dbrk s'" if "downer g' l = Some u" for l u
    using that de_inv_owner [OF i, of l u] by (auto simp: s' g' split: if_splits)
  ultimately show "de_inv s' g'" by (simp add: de_inv_def)
  have "downer g' l = Some u \<and> dnodes s' l = dnodes s l" if "downer g l = Some u" for l u
  proof -
    have "l < ?l" by (rule de_inv_owner [OF i that])
    then show ?thesis using that by (simp add: s' g')
  qed
  then show "de_rely t s g s' g'" using same by (simp add: de_rely_def hd kn)
  show "live s' g' = live s g" unfolding live_def sq hd by (rule filter_cong) (simp_all add: same sets)
  show "mine t s' g' ?l v" by (simp add: mine_def s' g' new_denode_def)
  show "known g' = known g" by (rule kn)
qed

lemma de_beg_ok:
  fixes s :: "'a lf_deque"
  assumes i: "de_inv s g" and b: "de_beg s t op = (s', p)"
  shows "\<exists>g'. de_inv s' g' \<and> de_rely t s g s' g' \<and> live s' g' = live s g \<and> known g' = known g \<and>
    de_asrt t s' g' p (Wait op {}) \<and> cand (Busy p :: 'a de_thread) = None"
proof (cases op)
  case (PushFront v)
  then have e: "s' = s\<lparr>dnodes := (dnodes s)(dbrk s := new_denode v), dbrk := Suc (dbrk s)\<rparr>" "p = PushL (dbrk s) LNext"
    using b by auto
  show ?thesis using alloc_write [OF i e(1) refl, of t] e(2) PushFront by auto
next
  case (PushBack v)
  then have e: "s' = s\<lparr>dnodes := (dnodes s)(dbrk s := new_denode v), dbrk := Suc (dbrk s)\<rparr>" "p = PushR (dbrk s) RPrev"
    using b by auto
  show ?thesis using alloc_write [OF i e(1) refl, of t] e(2) PushBack by auto
next
  case PopFront
  then have "s' = s" "p = PopL FNode" using b by simp_all
  then show ?thesis using i PopFront by (intro exI [of _ g]) simp
next
  case PopBack
  then have "s' = s" "p = PopR BPrev" using b by simp_all
  then show ?thesis using i PopBack by (intro exI [of _ g]) simp
qed

subsection \<open>The relation\<close>

abbreviation vals :: "'a lf_deque \<Rightarrow> loc \<Rightarrow> 'a" where
  "vals s l \<equiv> dvalue (dnodes s l)"

definition threads_ok :: "'a lf_deque \<Rightarrow> de_ghost \<Rightarrow> (tid \<Rightarrow> 'a de_thread) \<Rightarrow> (tid \<Rightarrow> 'a de_status) \<Rightarrow> bool" where
  "threads_ok s g th st \<longleftrightarrow> (\<forall>u. thread_ok (de_asrt u s g) (th u) (st u))"

definition de_poss :: "'a lf_deque \<Rightarrow> (tid \<Rightarrow> 'a de_thread) \<Rightarrow> ('a list, 'a deque_op, 'a resp) config set \<Rightarrow> bool" where
  "de_poss s th K \<longleftrightarrow> (\<exists>g st. de_inv s g \<and> threads_ok s g th st \<and> K = outcomes (vals s) (live s g) (\<lambda>u. cand (th u)) st)"

lemma de_possI:
  "de_inv s g \<Longrightarrow> threads_ok s g th st \<Longrightarrow> de_poss s th (outcomes (vals s) (live s g) (\<lambda>u. cand (th u)) st)"
  unfolding de_poss_def by blast

lemma threads_ok_upd:
  assumes "threads_ok s g th st" and "de_inv s g" and "de_rely t s g s' g'" and "thread_ok (de_asrt t s' g') x v"
  shows "threads_ok s' g' (th(t := x)) (st(t := v))"
  unfolding threads_ok_def
proof
  fix u
  have "thread_ok (de_asrt u s g) (th u) (st u)" using assms(1) by (simp add: threads_ok_def)
  then show "thread_ok (de_asrt u s' g') ((th(t := x)) u) ((st(t := v)) u)"
    using assms(4) de_asrt_stable [OF assms(3) _ assms(2), of u] by (cases "u = t"; cases "th u") auto
qed

lemma cand_upd: "(\<lambda>u. cand ((th(t := x)) u)) = (\<lambda>u. cand (th u))(t := cand x)"
  by (simp add: fun_eq_iff)

lemma cand_known:
  assumes "threads_ok s g th st" and "cand (th u) = Some a"
  shows "known g a"
proof -
  have "thread_ok (de_asrt u s g) (th u) (st u)" using assms(1) by (simp add: threads_ok_def)
  moreover obtain q where "th u = Busy (PopL q)" "q = FLink a \<or> (\<exists>r. q = FMark a r) \<or> (\<exists>r v. q = FMarkCas a r v)"
    using assms(2) by (cases "th u" rule: cand.cases) auto
  ultimately show ?thesis by (auto simp: inner_def)
qed

lemma outcomes_rely:
  assumes "de_inv s g" and "de_rely t s g s' g'"
  shows "outcomes (vals s') (live s g) cnd st = outcomes (vals s) (live s g) cnd st"
  by (rule outcomes_cong) (use de_relyD(4) [OF assms(2)] set_live [OF assms(1)] in blast)

lemma thread_at: "threads_ok s g th st \<Longrightarrow> thread_ok (de_asrt t s g) (th t) (st t)"
  by (simp add: threads_ok_def)

lemma de_poss_stp:
  fixes s :: "'a lf_deque"
  assumes "de_poss s th K" and "th t = Busy p" and e: "de_step s t p = (s', x)"
  shows "\<exists>K'. de_poss s' (th(t := x)) K' \<and> leads deque_spec K [] K'"
proof -
  obtain g st where g: "de_inv s g" "threads_ok s g th st" "K = outcomes (vals s) (live s g) (\<lambda>u. cand (th u)) st"
    using assms(1) by (auto simp: de_poss_def)
  have "de_asrt t s g p (st t)" using thread_at [OF g(2), of t] assms(2) by auto
  from de_step_ok [OF g(1) this e] obtain g' v where g': "de_inv s' g'" "de_rely t s g s' g'"
    "thread_ok (de_asrt t s' g') x v"
    "de_move (known g) (vals s') (live s g) (cand (Busy p :: 'a de_thread)) (st t) (live s' g') (cand x) v"
    unfolding step_ok_def by blast
  have "leads deque_spec (outcomes (vals s') (live s g) (\<lambda>u. cand (th u)) st) []
      (outcomes (vals s') (live s' g') ((\<lambda>u. cand (th u))(t := cand x)) (st(t := v)))"
    by (rule leads_move [where t = t and st = st and cnd = "\<lambda>u. cand (th u)", OF g'(4) _ _ refl distinct_live [OF g(1)]])
      (use assms(2) cand_known [OF g(2)] in simp_all)
  then have "leads deque_spec K [] (outcomes (vals s') (live s' g') (\<lambda>u. cand ((th(t := x)) u)) (st(t := v)))"
    unfolding g(3) cand_upd outcomes_rely [OF g(1) g'(2)] .
  then show ?thesis using de_possI [OF g'(1) threads_ok_upd [OF g(2,1) g'(2,3)]] by blast
qed

lemma de_poss_beg:
  fixes s :: "'a lf_deque"
  assumes "de_poss s th K" and "th t = Idle" and b: "de_beg s t op = (s', p)"
  shows "\<exists>K'. de_poss s' (th(t := Busy p)) K' \<and> leads deque_spec K [Inv t op] K'"
proof -
  obtain g st where g: "de_inv s g" "threads_ok s g th st" "K = outcomes (vals s) (live s g) (\<lambda>u. cand (th u)) st"
    using assms(1) by (auto simp: de_poss_def)
  have q: "st t = Quiet" using thread_at [OF g(2), of t] assms(2) by auto
  obtain g' where g': "de_inv s' g'" "de_rely t s g s' g'" "live s' g' = live s g"
    "de_asrt t s' g' p (Wait op {})" "cand (Busy p :: 'a de_thread) = None"
    using de_beg_ok [OF g(1) b] by blast
  have "thread_ok (de_asrt t s' g') (Busy p) (Wait op {})" using g'(4) by simp
  note T = threads_ok_upd [OF g(2,1) g'(2) this]
  have "(\<lambda>u. cand ((th(t := Busy p)) u)) = (\<lambda>u. cand (th u))"
    using assms(2) g'(5) by (simp add: fun_eq_iff)
  then have "leads deque_spec (outcomes (vals s') (live s g) (\<lambda>u. cand (th u)) st) [Inv t op]
      (outcomes (vals s') (live s g) (\<lambda>u. cand ((th(t := Busy p)) u)) (st(t := Wait op {})))"
    by (intro leads_same [where E = "[Inv t op]"]) (simp_all add: assms(2) status_None q)
  then have "leads deque_spec K [Inv t op] (outcomes (vals s') (live s' g') (\<lambda>u. cand ((th(t := Busy p)) u)) (st(t := Wait op {})))"
    unfolding g(3) g'(3) outcomes_rely [OF g(1) g'(2)] .
  then show ?thesis using de_possI [OF g'(1) T] by blast
qed

lemma de_poss_ret:
  assumes "de_poss s th K" and "th t = Return r"
  shows "\<exists>K'. de_poss s (th(t := Idle)) K' \<and> leads deque_spec K [Res t r] K'"
proof -
  obtain g st where g: "de_inv s g" "threads_ok s g th st" "K = outcomes (vals s) (live s g) (\<lambda>u. cand (th u)) st"
    using assms(1) by (auto simp: de_poss_def)
  have q: "st t = Done r \<or> (\<exists>op R. st t = Wait op R \<and> r \<in> R)"
    using thread_at [OF g(2), of t] assms(2) by auto
  have "thread_ok (de_asrt t s g) Idle Quiet" by simp
  note T = threads_ok_upd [OF g(2,1) de_rely_refl this]
  have "(\<lambda>u. cand ((th(t := Idle)) u)) = (\<lambda>u. cand (th u))" using assms(2) by (simp add: fun_eq_iff)
  then have "leads deque_spec (outcomes (vals s) (live s g) (\<lambda>u. cand (th u)) st) [Res t r]
      (outcomes (vals s) (live s g) (\<lambda>u. cand ((th(t := Idle)) u)) (st(t := Quiet)))"
    using q by (intro leads_same [where E = "[Res t r]"]) (auto simp: assms(2) status_None)
  then show ?thesis using de_possI [OF g(1) T] g(3) by blast
qed

lemma de_poss_init: "\<exists>K. de_poss (NewLfDeque zero) (\<lambda>_. Idle) K \<and> K \<subseteq> {([], \<lambda>_. Quiet)}"
proof -
  define g where "g = \<lparr>dseq = [0, 1], dold = {}, downer = (\<lambda>_. None)\<rparr>"
  let ?s = "NewLfDeque zero"
  have kn: "known g x \<longleftrightarrow> x = 0 \<or> x = 1" for x by (simp add: known_def g_def)
  have i: "de_inv ?s g"
    unfolding de_inv_def list_ok_def
    by (simp add: kn) (simp add: g_def node_ok_def known_def NewLfDeque_def Let_def set_next_def set_prev_def set_link_def
      new_denode_def fresh_link_def)
  have l: "live ?s g = []" by (simp add: live_def g_def NewLfDeque_def Let_def set_next_def set_prev_def)
  have t: "threads_ok ?s g (\<lambda>_. Idle) (\<lambda>_. Quiet)" by (simp add: threads_ok_def)
  have "f = Map.empty" if c: "choice [] (\<lambda>_. None) f" for f
    by (rule ext) (rule choice_None [OF c refl])
  then have "{f. choice [] (\<lambda>u. cand Idle) f} = {Map.empty}" by auto
  then have "outcomes (vals ?s) (live ?s g) (\<lambda>u. cand Idle) (\<lambda>_. Quiet) \<subseteq> {([], \<lambda>_. Quiet)}"
    unfolding outcomes_def l by (simp add: outcome_def status_def fun_eq_iff)
  then show ?thesis using de_possI [OF i t] by blast
qed

interpretation st: poss_machine "de_machine (NewLfDeque zero)" deque_spec "[]" de_poss for zero :: 'a
proof
  show "\<exists>K. de_poss (sh0 (de_machine (NewLfDeque zero))) (\<lambda>_. Idle) K \<and> K \<subseteq> {([], \<lambda>_. Quiet)}"
    using de_poss_init by simp
  show "de_poss s th K \<Longrightarrow> K \<noteq> {}" for s :: "'a lf_deque" and th K
    using outcomes_nonempty unfolding de_poss_def by blast
  show "de_poss s th K \<Longrightarrow> th t \<noteq> Panic" for s :: "'a lf_deque" and th K t
    by (auto simp: de_poss_def threads_ok_def dest: spec [of _ t])
qed (use de_poss_beg de_poss_stp de_poss_ret in \<open>simp_all del: fun_upd_apply\<close>)

text \<open>What the links look like between any two steps; \<open>mid\<close> are the nodes between head and tail.\<close>

definition de_shape :: "'a lf_deque \<Rightarrow> loc list \<Rightarrow> bool" where
  "de_shape s mid \<longleftrightarrow> distinct (dhead s # mid @ [dtail s]) \<and> successively (follows s) (dhead s # mid @ [dtail s]) \<and>
     \<not> gone s (dhead s) \<and> \<not> gone s (dtail s) \<and> (\<forall>x \<in> set mid. lmark (prevl s x) \<longrightarrow> gone s x) \<and>
     (\<forall>x \<in> set (mid @ [dtail s]). \<exists>y. lref (prevl s x) = Some y \<and> y \<noteq> dtail s)"

subsection \<open>Properties\<close>

text \<open>
  C1: The deque of Sundell and Tsigas is linearizable: every history of \<open>PushFront\<close>, \<open>PushBack\<close>, \<open>PopFront\<close> and
  \<open>PopBack\<close> on any number of goroutines, in any interleaving of their accesses and with all helping, is one of a
  sequential deque. No call dereferences \<open>nil\<close>.
\<close>

theorem lf_deque_linearizable:
  "linearizable deque_spec [] (history (de_machine (NewLfDeque zero)) acts) \<and>
   (\<forall>t. snd (run (de_machine (NewLfDeque zero)) acts) t \<noteq> Panic)"
  by (intro conjI allI st.poss_linearizable st.poss_no_panic)

text \<open>
  C19: In every reachable state the \<open>next\<close> references lead from the head to the tail over distinct nodes, the
  ends are never deleted, a marked \<open>prev\<close> belongs to a deleted node, and no \<open>prev\<close> is \<open>nil\<close> or the tail.
\<close>

theorem lf_deque_shape: "\<exists>mid. de_shape (fst (run (de_machine (NewLfDeque zero)) acts)) mid"
proof -
  let ?s = "fst (run (de_machine (NewLfDeque zero)) acts)"
  obtain g where i: "de_inv ?s g" using st.reachable_poss [of zero acts] by (auto simp: de_poss_def)
  note L = list_okD [OF de_inv_list [OF i]]
  obtain mid where m: "dseq g = dhead ?s # mid @ [dtail ?s]" using L(2) by blast
  have "node_ok ?s g x" if "x \<in> set (mid @ [dtail ?s])" for x
    by (rule de_inv_node [OF i]) (use that m in \<open>auto simp: known_def\<close>)
  then have "\<forall>x \<in> set mid. lmark (prevl ?s x) \<longrightarrow> gone ?s x"
    "\<forall>x \<in> set (mid @ [dtail ?s]). \<exists>y. lref (prevl ?s x) = Some y \<and> y \<noteq> dtail ?s"
    using node_okD(4,5) [of ?s g] by (simp_all, blast+)
  then show ?thesis using L(1,3,5,6) m unfolding de_shape_def by (intro exI [of _ mid]) simp
qed

end
