(* ===== verification/Conform.thy ===== *)
theory Conform
  imports Universal Adt
begin

text \<open>
  The conformance suite \<open>internal/conformtest\<close>: how a test runs against an implementation. A test is a program for each
  of its goroutines that calls the implementation and accesses counters shared by the goroutines of the test. It is
  run on the machine of an implementation, under an arbitrary schedule. The rule proved here reduces a
  statement about a test on any linearizable machine to an invariant of the test on the sequential object.
\<close>

subsection \<open>Test programs\<close>

text \<open>
  What a goroutine of a test does next: call the implementation, access the shared state of the test (also a \<open>Wait\<close> on a
  \<open>sync.WaitGroup\<close>, which may leave everything as it is), or nothing any more.
\<close>

datatype 'o act = Invoke 'o | Access | Finished

record ('c, 'l, 'o, 'r) prog =
  shared0 :: 'c
  local0 :: "tid \<Rightarrow> 'l"
  next_act :: "tid \<Rightarrow> 'l \<Rightarrow> 'o act"
  recv :: "tid \<Rightarrow> 'l \<Rightarrow> 'r \<Rightarrow> 'l"
  access :: "tid \<Rightarrow> 'c \<Rightarrow> 'l \<Rightarrow> 'c \<times> 'l"

type_synonym ('sh, 'pc, 'r, 'c, 'l) test_state = "('sh, 'pc, 'r) sys \<times> 'c \<times> (tid \<Rightarrow> 'l)"

fun test_step :: "('sh, 'pc, 'o, 'r) machine \<Rightarrow> ('c, 'l, 'o, 'r) prog \<Rightarrow> ('sh, 'pc, 'r, 'c, 'l) test_state \<Rightarrow> tid \<Rightarrow>
    ('sh, 'pc, 'r, 'c, 'l) test_state" where
  "test_step M P ((sh, th), c, loc) t =
     (case th t of
        Idle \<Rightarrow> (case next_act P t (loc t) of
            Invoke op \<Rightarrow> (sys_step M (sh, th) (Start t op), c, loc)
          | Access \<Rightarrow> (case access P t c (loc t) of (c', l) \<Rightarrow> ((sh, th), c', loc(t := l)))
          | Finished \<Rightarrow> ((sh, th), c, loc))
      | Busy p \<Rightarrow> (sys_step M (sh, th) (Step t), c, loc)
      | Return r \<Rightarrow> (sys_step M (sh, th) (Step t), c, loc(t := recv P t (loc t) r))
      | Panic \<Rightarrow> ((sh, th), c, loc))"

definition play :: "('sh, 'pc, 'o, 'r) machine \<Rightarrow> ('c, 'l, 'o, 'r) prog \<Rightarrow> tid list \<Rightarrow> ('sh, 'pc, 'r, 'c, 'l) test_state" where
  "play M P sched = foldl (test_step M P) (start_sys M, shared0 P, local0 P) sched"

lemma play_simps [simp]: "play M P [] = (start_sys M, shared0 P, local0 P)"
  "play M P (sched @ [t]) = test_step M P (play M P sched) t"
  by (simp_all add: play_def)

text \<open>The shared and the local state of the test.\<close>

abbreviation counters :: "('sh, 'pc, 'r, 'c, 'l) test_state \<Rightarrow> 'c" where "counters s \<equiv> fst (snd s)"
abbreviation locals :: "('sh, 'pc, 'r, 'c, 'l) test_state \<Rightarrow> tid \<Rightarrow> 'l" where "locals s \<equiv> snd (snd s)"

subsection \<open>The trace of a test\<close>

datatype ('o, 'r) tev = Obj "('o, 'r) event" | Acc tid

fun objs :: "('o, 'r) tev list \<Rightarrow> ('o, 'r) event list" where
  "objs [] = []"
| "objs (Obj e # tr) = e # objs tr"
| "objs (Acc t # tr) = objs tr"

lemma objs_append [simp]: "objs (tr @ tr') = objs tr @ objs tr'"
  by (induction tr rule: objs.induct) auto

lemma objs_map_Obj [simp]: "objs (map Obj E) = E"
  by (induction E) auto

text \<open>The goroutines of the test along a trace; \<open>busy\<close> are the ones inside a call.\<close>

fun user_step :: "('c, 'l, 'o, 'r) prog \<Rightarrow> 'c \<times> (tid \<Rightarrow> 'l) \<times> (tid \<Rightarrow> bool) \<Rightarrow> ('o, 'r) tev \<Rightarrow>
    ('c \<times> (tid \<Rightarrow> 'l) \<times> (tid \<Rightarrow> bool)) option" where
  "user_step P (c, loc, busy) (Obj (Inv t op)) =
     (if \<not> busy t \<and> next_act P t (loc t) = Invoke op then Some (c, loc, busy(t := True)) else None)"
| "user_step P (c, loc, busy) (Obj (Res t r)) =
     (if busy t then Some (c, loc(t := recv P t (loc t) r), busy(t := False)) else None)"
| "user_step P (c, loc, busy) (Acc t) =
     (if \<not> busy t \<and> next_act P t (loc t) = Access
      then (case access P t c (loc t) of (c', l) \<Rightarrow> Some (c', loc(t := l), busy)) else None)"
| "user_step P x (Obj _) = Some x"

fun user_run :: "('c, 'l, 'o, 'r) prog \<Rightarrow> 'c \<times> (tid \<Rightarrow> 'l) \<times> (tid \<Rightarrow> bool) \<Rightarrow> ('o, 'r) tev list \<Rightarrow>
    ('c \<times> (tid \<Rightarrow> 'l) \<times> (tid \<Rightarrow> bool)) option" where
  "user_run P x [] = Some x"
| "user_run P x (e # tr) = (case user_step P x e of None \<Rightarrow> None | Some y \<Rightarrow> user_run P y tr)"

lemma user_run_append:
  "user_run P x (tr @ tr') = (case user_run P x tr of None \<Rightarrow> None | Some y \<Rightarrow> user_run P y tr')"
  by (induction tr arbitrary: x) (auto split: option.splits)

definition in_call :: "('pc, 'r) thread \<Rightarrow> bool" where
  "in_call x \<longleftrightarrow> x \<noteq> Idle"

lemma in_call_simps [simp]: "\<not> in_call Idle" "in_call (Busy p)" "in_call (Return r)" "in_call Panic"
  by (simp_all add: in_call_def)

lemma in_call_upd: "(\<lambda>u. in_call ((th(t := x)) u)) = (\<lambda>u. in_call (th u))(t := in_call x)"
  by (simp add: fun_eq_iff)

lemma sys_step_stutter: "th t = Panic \<Longrightarrow> sys_step M (sh, th) (Step t) = (sh, th)"
  by simp

text \<open>A call ends with a response.\<close>

definition returns :: "('sh, 'pc, 'o, 'r) machine \<Rightarrow> bool" where
  "returns M \<longleftrightarrow> (\<forall>sh t p. snd (stp M sh t p) \<noteq> Idle)"

lemma test_step_trace:
  assumes "returns M"
  shows "\<exists>acts tr. fst (test_step M P ((sh, th), c, loc) t) = run_from M (sh, th) acts \<and> objs tr = events_from M (sh, th) acts \<and>
    user_run P (c, loc, \<lambda>u. in_call (th u)) tr =
      (case test_step M P ((sh, th), c, loc) t of ((sh', th'), c', loc') \<Rightarrow> Some (c', loc', \<lambda>u. in_call (th' u)))"
proof (cases "th t")
  case Idle
  show ?thesis
  proof (cases "next_act P t (loc t)")
    case (Invoke op)
    show ?thesis
    proof (cases "can M sh t op")
      case True
      obtain sh' p where "beg M sh t op = (sh', p)" by fastforce
      then show ?thesis using Idle Invoke True
        by (intro exI [of _ "[Start t op]"] exI [of _ "[Obj (Inv t op)]"]) (simp add: in_call_upd del: fun_upd_apply)
    next
      case False
      then show ?thesis using Idle Invoke by (intro exI [of _ "[]"] exI [of _ "[]"]) simp
    qed
  next
    case Access
    then show ?thesis using Idle by (intro exI [of _ "[]"] exI [of _ "[Acc t]"]) (simp split: prod.splits)
  next
    case Finished
    then show ?thesis using Idle by (intro exI [of _ "[]"] exI [of _ "[]"]) simp
  qed
next
  case (Busy p)
  obtain sh' x where x: "stp M sh t p = (sh', x)" by fastforce
  have "in_call x" using assms x unfolding returns_def in_call_def by (metis snd_conv)
  then have "(\<lambda>u. in_call ((th(t := x)) u)) = (\<lambda>u. in_call (th u))" using Busy by (simp add: fun_eq_iff)
  then show ?thesis using Busy x by (intro exI [of _ "[Step t]"] exI [of _ "[]"]) (simp del: fun_upd_apply)
next
  case (Return r)
  then show ?thesis
    by (intro exI [of _ "[Step t]"] exI [of _ "[Obj (Res t r)]"]) (simp add: in_call_upd del: fun_upd_apply)
next
  case Panic
  then show ?thesis by (intro exI [of _ "[]"] exI [of _ "[]"]) simp
qed

lemma play_trace:
  assumes "returns M"
  shows "\<exists>acts tr busy. fst (play M P sched) = run M acts \<and> objs tr = history M acts \<and> busy = (\<lambda>u. in_call (snd (run M acts) u)) \<and>
    user_run P (shared0 P, local0 P, \<lambda>_. False) tr = Some (counters (play M P sched), locals (play M P sched), busy)"
proof (induction sched rule: rev_induct)
  case Nil
  show ?case by (intro exI [of _ "[]"]) (simp add: start_sys_def)
next
  case (snoc t sched)
  then obtain acts tr where IH: "fst (play M P sched) = run M acts" "objs tr = history M acts"
    "user_run P (shared0 P, local0 P, \<lambda>_. False) tr =
      Some (counters (play M P sched), locals (play M P sched), \<lambda>u. in_call (snd (run M acts) u))" by blast
  obtain sh th c loc where s: "play M P sched = ((sh, th), c, loc)" by (metis prod.collapse)
  obtain sh' th' c' loc' where s': "test_step M P ((sh, th), c, loc) t = ((sh', th'), c', loc')" by (metis prod.collapse)
  from test_step_trace [OF assms, where P = P and sh = sh and th = th and c = c and loc = loc and t = t] obtain acts' tr' where
    "(sh', th') = run_from M (sh, th) acts'" "objs tr' = events_from M (sh, th) acts'"
    "user_run P (c, loc, \<lambda>u. in_call (th u)) tr' = Some (c', loc', \<lambda>u. in_call (th' u))" unfolding s' by (auto simp del: test_step.simps)
  moreover have r: "run M acts = (sh, th)" using IH(1) s by simp
  ultimately have r': "run M (acts @ acts') = (sh', th')" "objs (tr @ tr') = history M (acts @ acts')"
    "user_run P (shared0 P, local0 P, \<lambda>_. False) (tr @ tr') = Some (c', loc', \<lambda>u. in_call (th' u))"
    using IH(2,3) s
    by (simp_all add: run_append user_run_append, simp add: history_def events_from_append run_def)
  have "play M P (sched @ [t]) = ((sh', th'), c', loc')" using s s' by simp
  then show ?case using r' by (intro exI [of _ "acts @ acts'"] exI [of _ "tr @ tr'"]) simp
qed

subsection \<open>A test on the sequential object\<close>

text \<open>
  In a linearization every call has one internal moment. \<open>joint\<close> runs the test together with the canonical object.
\<close>

fun joint_step :: "('c, 'l, 'o, 'r) prog \<Rightarrow> ('a \<Rightarrow> 'o \<Rightarrow> 'a \<times> 'r) \<Rightarrow>
    ('a, 'o, 'r) config \<times> 'c \<times> (tid \<Rightarrow> 'l) \<Rightarrow> ('o, 'r) tev \<Rightarrow> (('a, 'o, 'r) config \<times> 'c \<times> (tid \<Rightarrow> 'l)) option" where
  "joint_step P spec (cfg, c, loc) (Obj e) =
     (case lin_step spec cfg e of None \<Rightarrow> None
      | Some cfg' \<Rightarrow> (case user_step P (c, loc, \<lambda>u. snd cfg u \<noteq> Quiet) (Obj e) of None \<Rightarrow> None
        | Some (c', loc', busy') \<Rightarrow> Some (cfg', c', loc')))"
| "joint_step P spec (cfg, c, loc) (Acc t) =
     (case user_step P (c, loc, \<lambda>u. snd cfg u \<noteq> Quiet) (Acc t) of None \<Rightarrow> None
      | Some (c', loc', busy') \<Rightarrow> Some (cfg, c', loc'))"

fun joint_run :: "('c, 'l, 'o, 'r) prog \<Rightarrow> ('a \<Rightarrow> 'o \<Rightarrow> 'a \<times> 'r) \<Rightarrow>
    ('a, 'o, 'r) config \<times> 'c \<times> (tid \<Rightarrow> 'l) \<Rightarrow> ('o, 'r) tev list \<Rightarrow> (('a, 'o, 'r) config \<times> 'c \<times> (tid \<Rightarrow> 'l)) option" where
  "joint_run P spec x [] = Some x"
| "joint_run P spec x (e # tr) = (case joint_step P spec x e of None \<Rightarrow> None | Some y \<Rightarrow> joint_run P spec y tr)"

lemma user_step_busy:
  assumes "lin_step spec cfg e = Some cfg'" and "user_step P (c, loc, \<lambda>u. snd cfg u \<noteq> Quiet) (Obj e) = Some (c', loc', busy')"
  shows "busy' = (\<lambda>u. snd cfg' u \<noteq> Quiet)"
  using assms by (cases cfg; cases e) (auto simp: fun_eq_iff split: if_splits status.splits prod.splits)

lemma joint_invisible:
  assumes "lin_run spec cfg E = Some cfg'" and "visible E = []"
  shows "joint_run P spec (cfg, c, loc) (map Obj E) = Some (cfg', c, loc) \<and>
    (\<forall>u. (snd cfg' u \<noteq> Quiet) = (snd cfg u \<noteq> Quiet))"
  using assms
proof (induction E arbitrary: cfg)
  case (Cons e E)
  then obtain cfg1 where 1: "lin_step spec cfg e = Some cfg1" "lin_run spec cfg1 E = Some cfg'"
    by (auto split: option.splits)
  have e: "\<not> is_visible e" "visible E = []" using Cons.prems(2) by (auto split: if_splits)
  then have u: "user_step P (c, loc, \<lambda>u. snd cfg u \<noteq> Quiet) (Obj e) = Some (c, loc, \<lambda>u. snd cfg u \<noteq> Quiet)"
    by (cases e) auto
  have "(\<lambda>u. snd cfg u \<noteq> Quiet) = (\<lambda>u. snd cfg1 u \<noteq> Quiet)" by (rule user_step_busy [OF 1(1) u])
  then show ?case using Cons.IH [OF 1(2) e(2)] 1(1) u by (auto simp: fun_eq_iff)
qed simp

lemma visible_split:
  assumes "visible E = e # h"
  obtains E1 E2 where "E = E1 @ e # E2" and "visible E1 = []" and "visible E2 = h" and "is_visible e"
  using assms
proof (induction E arbitrary: thesis)
  case (Cons x E)
  show ?case
  proof (cases "is_visible x")
    case True
    then show ?thesis using Cons.prems(1) [of "[]" E] Cons.prems(2) by simp
  next
    case False
    then have "visible E = e # h" using Cons.prems(2) by simp
    from Cons.IH [OF _ this] obtain E1 E2 where "E = E1 @ e # E2" "visible E1 = []" "visible E2 = h" "is_visible e" by blast
    then show ?thesis using Cons.prems(1) [of "x # E1" E2] False by simp
  qed
qed simp

lemma joint_run_append:
  "joint_run P spec x (tr @ tr') = (case joint_run P spec x tr of None \<Rightarrow> None | Some y \<Rightarrow> joint_run P spec y tr')"
  by (induction tr arbitrary: x) (auto split: option.splits)

lemma user_joint:
  assumes "user_run P (c, loc, \<lambda>u. snd cfg u \<noteq> Quiet) tr = Some (c', loc', busy')" and "visible E = objs tr"
    and "lin_run spec cfg E = Some cfg'"
  shows "\<exists>tr' cfg''. objs tr' = E \<and> joint_run P spec (cfg, c, loc) tr' = Some (cfg'', c', loc')"
  using assms
proof (induction tr arbitrary: c loc cfg E rule: objs.induct)
  case 1
  then show ?case using joint_invisible [of spec cfg E cfg' P c loc] by (intro exI [of _ "map Obj E"]) auto
next
  case (2 e tr)
  from 2(3) [unfolded objs.simps] obtain E1 E2 where E: "E = E1 @ e # E2" "visible E1 = []" "visible E2 = objs tr" "is_visible e"
    by (rule visible_split)
  obtain cfg1 cfg2 where r: "lin_run spec cfg E1 = Some cfg1" "lin_step spec cfg1 e = Some cfg2" "lin_run spec cfg2 E2 = Some cfg'"
    using 2(4) E(1) by (auto simp: lin_run_append split: option.splits)
  note J = joint_invisible [OF r(1) E(2), of P c loc]
  then have q: "(\<lambda>u. snd cfg u \<noteq> Quiet) = (\<lambda>u. snd cfg1 u \<noteq> Quiet)" by (simp add: fun_eq_iff)
  obtain c1 loc1 busy1 where u: "user_step P (c, loc, \<lambda>u. snd cfg1 u \<noteq> Quiet) (Obj e) = Some (c1, loc1, busy1)"
      "user_run P (c1, loc1, busy1) tr = Some (c', loc', busy')"
    using 2(2) unfolding q by (auto split: option.splits)
  have b: "busy1 = (\<lambda>u. snd cfg2 u \<noteq> Quiet)" by (rule user_step_busy [OF r(2) u(1)])
  from 2(1) [OF u(2) [unfolded b] E(3) r(3)] obtain tr' cfg'' where
    "objs tr' = E2" "joint_run P spec (cfg2, c1, loc1) tr' = Some (cfg'', c', loc')" by blast
  then show ?case using J r(2) u(1) E(1)
    by (intro exI [of _ "map Obj E1 @ Obj e # tr'"] exI [of _ cfg'']) (simp add: joint_run_append)
next
  case (3 t tr)
  obtain c1 loc1 where u: "user_step P (c, loc, \<lambda>u. snd cfg u \<noteq> Quiet) (Acc t) = Some (c1, loc1, \<lambda>u. snd cfg u \<noteq> Quiet)"
      "user_run P (c1, loc1, \<lambda>u. snd cfg u \<noteq> Quiet) tr = Some (c', loc', busy')"
    using 3(2) by (auto split: option.splits prod.splits if_splits)
  from 3(1) [OF u(2) _ 3(4)] 3(3) obtain tr' cfg'' where
    "objs tr' = E" "joint_run P spec (cfg, c1, loc1) tr' = Some (cfg'', c', loc')" by auto
  then show ?case using u(1) by (intro exI [of _ "Acc t # tr'"] exI [of _ cfg'']) simp
qed

subsection \<open>The rule\<close>

text \<open>
  Inside a call, a goroutine of the test is where it made the call, and the canonical object either owes it an answer or has
  given it.
\<close>

fun called :: "('c, 'l, 'o, 'r) prog \<Rightarrow> tid \<Rightarrow> 'l \<Rightarrow> ('o, 'r) status \<Rightarrow> bool" where
  "called P t l Quiet = True"
| "called P t l (Wait op R) = (R = {} \<and> next_act P t l = Invoke op)"
| "called P t l (Done r) = (\<exists>op. next_act P t l = Invoke op)"

definition calling :: "('c, 'l, 'o, 'r) prog \<Rightarrow> (tid \<Rightarrow> ('o, 'r) status) \<Rightarrow> (tid \<Rightarrow> 'l) \<Rightarrow> bool" where
  "calling P st loc \<longleftrightarrow> (\<forall>t. called P t (loc t) (st t))"

lemma calling_upd: "calling P st loc \<Longrightarrow> called P t l x \<Longrightarrow> calling P (st(t := x)) (loc(t := l))"
  by (simp add: calling_def)

lemma calling_st: "calling P st loc \<Longrightarrow> called P t (loc t) x \<Longrightarrow> calling P (st(t := x)) loc"
  by (simp add: calling_def)

lemma calling_loc: "calling P st loc \<Longrightarrow> called P t l (st t) \<Longrightarrow> calling P st (loc(t := l))"
  by (simp add: calling_def)

text \<open>
  An invariant of the test on the sequential object: kept when a call begins, takes effect and returns, and when a
  goroutine accesses the shared state of the test.
\<close>

definition keeps :: "('c, 'l, 'o, 'r) prog \<Rightarrow> ('a \<Rightarrow> 'o \<Rightarrow> 'a \<times> 'r) \<Rightarrow>
    ('a \<Rightarrow> (tid \<Rightarrow> ('o, 'r) status) \<Rightarrow> 'c \<Rightarrow> (tid \<Rightarrow> 'l) \<Rightarrow> bool) \<Rightarrow> bool" where
  "keeps P spec I \<longleftrightarrow> (\<forall>a st c loc t. I a st c loc \<longrightarrow>
     (\<forall>op. st t = Quiet \<longrightarrow> next_act P t (loc t) = Invoke op \<longrightarrow> I a (st(t := Wait op {})) c loc) \<and>
     (\<forall>op a' r. st t = Wait op {} \<longrightarrow> next_act P t (loc t) = Invoke op \<longrightarrow> spec a op = (a', r) \<longrightarrow> I a' (st(t := Done r)) c loc) \<and>
     (\<forall>op r. st t = Done r \<longrightarrow> next_act P t (loc t) = Invoke op \<longrightarrow> I a (st(t := Quiet)) c (loc(t := recv P t (loc t) r))) \<and>
     (\<forall>c' l. st t = Quiet \<longrightarrow> next_act P t (loc t) = Access \<longrightarrow> access P t c (loc t) = (c', l) \<longrightarrow> I a st c' (loc(t := l))))"

lemma keepsI:
  assumes "\<And>a st c loc t op. I a st c loc \<Longrightarrow> st t = Quiet \<Longrightarrow> next_act P t (loc t) = Invoke op \<Longrightarrow>
      I a (st(t := Wait op {})) c loc"
    and "\<And>a st c loc t op a' r. I a st c loc \<Longrightarrow> st t = Wait op {} \<Longrightarrow> next_act P t (loc t) = Invoke op \<Longrightarrow>
      spec a op = (a', r) \<Longrightarrow> I a' (st(t := Done r)) c loc"
    and "\<And>a st c loc t op r. I a st c loc \<Longrightarrow> st t = Done r \<Longrightarrow> next_act P t (loc t) = Invoke op \<Longrightarrow>
      I a (st(t := Quiet)) c (loc(t := recv P t (loc t) r))"
    and "\<And>a st c loc t c' l. I a st c loc \<Longrightarrow> st t = Quiet \<Longrightarrow> next_act P t (loc t) = Access \<Longrightarrow>
      access P t c (loc t) = (c', l) \<Longrightarrow> I a st c' (loc(t := l))"
  shows "keeps P spec I"
  unfolding keeps_def by (intro allI impI conjI; rule assms; assumption)

lemma keepsD:
  assumes "keeps P spec I" and "I a st c loc"
  shows keeps_inv: "st t = Quiet \<Longrightarrow> next_act P t (loc t) = Invoke op \<Longrightarrow> I a (st(t := Wait op {})) c loc"
    and keeps_lin: "st t = Wait op {} \<Longrightarrow> next_act P t (loc t) = Invoke op \<Longrightarrow> spec a op = (a', r) \<Longrightarrow> I a' (st(t := Done r)) c loc"
    and keeps_res: "st t = Done r \<Longrightarrow> next_act P t (loc t) = Invoke op \<Longrightarrow> I a (st(t := Quiet)) c (loc(t := recv P t (loc t) r))"
    and keeps_acc: "st t = Quiet \<Longrightarrow> next_act P t (loc t) = Access \<Longrightarrow> access P t c (loc t) = (c', l) \<Longrightarrow> I a st c' (loc(t := l))"
  using assms unfolding keeps_def by blast+

locale conforming =
  fixes M :: "('sh, 'pc, 'o, 'r) machine" and spec :: "'a \<Rightarrow> 'o \<Rightarrow> 'a \<times> 'r" and a0 :: 'a
  assumes linear: "linearizable spec a0 (history M acts)" and returns: "returns M"
    and no_panic: "snd (run M acts) t \<noteq> Panic"
begin

lemma play_no_panic: "snd (fst (play M P sched)) t \<noteq> Panic"
  using play_trace [OF returns, of P sched] no_panic by metis

lemma play_invariant:
  fixes P :: "('c, 'l, 'o, 'r) prog"
  assumes K: "keeps P spec I" and init: "I a0 (\<lambda>_. Quiet) (shared0 P) (local0 P)"
  shows "\<exists>a st. I a st (counters (play M P sched)) (locals (play M P sched)) \<and> calling P st (locals (play M P sched))"
proof -
  let ?J = "\<lambda>(cfg, c, loc). I (fst cfg) (snd cfg) c loc \<and> calling P (snd cfg) loc"
  have step: "?J y" if J: "?J x" and s: "joint_step P spec x e = Some y" and o: "\<And>u. e \<noteq> Obj (Obs u)" for x y e
  proof -
    obtain a st c loc where x: "x = ((a, st), c, loc)" by (metis prod.collapse)
    have I: "I a st c loc" and C: "calling P st loc" using J x by simp_all
    have N: "called P t (loc t) (st t)" for t using C by (simp add: calling_def)
    show ?thesis
    proof (cases e)
      case (Acc t)
      obtain c' l where l: "access P t c (loc t) = (c', l)" by fastforce
      have q: "st t = Quiet" "next_act P t (loc t) = Access" "y = ((a, st), c', loc(t := l))"
        using s x Acc l by (auto simp del: fun_upd_apply split: if_splits)
      then show ?thesis using keeps_acc [where I = I, OF K I q(1,2) l] calling_loc [OF C, of t l] by simp
    next
      case (Obj ev)
      show ?thesis
      proof (cases ev)
        case (Inv t op)
        then have q: "st t = Quiet" "next_act P t (loc t) = Invoke op" "y = ((a, st(t := Wait op {})), c, loc)"
          using s x Obj by (auto simp del: fun_upd_apply split: if_splits)
        then show ?thesis using keeps_inv [where I = I, OF K I q(1,2)] calling_st [OF C, of t "Wait op {}"] by simp
      next
        case (Lin t)
        then obtain op R a' r where w: "st t = Wait op R" "spec a op = (a', r)" "y = ((a', st(t := Done r)), c, loc)"
          using s x Obj by (auto split: status.splits prod.splits)
        then have "R = {}" "next_act P t (loc t) = Invoke op" using N [of t] by simp_all
        then show ?thesis using w keeps_lin [where I = I, OF K I, of t op a' r] calling_st [OF C, of t "Done r"] by simp
      next
        case (Obs t)
        then show ?thesis using o Obj by blast
      next
        case (Res t r)
        then have w: "st t = Done r" "y = ((a, st(t := Quiet)), c, loc(t := recv P t (loc t) r))"
          using s x Obj N [of t] by (auto split: status.splits if_splits)
        then obtain op where "next_act P t (loc t) = Invoke op" using N [of t] by auto
        then show ?thesis using w keeps_res [where I = I, OF K I, of t r op] calling_upd [OF C, of t "recv P t (loc t) r" Quiet] by simp
      qed
    qed
  qed
  have run: "?J y" if "?J x" and "joint_run P spec x tr = Some y" and "\<not> list_ex is_obs (objs tr)" for x y tr
    using that
  proof (induction tr arbitrary: x rule: objs.induct)
    case (2 e tr)
    then obtain z where z: "joint_step P spec x (Obj e) = Some z" "joint_run P spec z tr = Some y"
      by (auto simp del: joint_step.simps split: option.splits)
    have "?J z" by (rule step [OF 2(2) z(1)]) (use 2(4) in auto)
    then show ?case by (rule 2(1) [OF _ z(2)]) (use 2(4) in simp)
  next
    case (3 t tr)
    then obtain z where z: "joint_step P spec x (Acc t) = Some z" "joint_run P spec z tr = Some y"
      by (auto simp del: joint_step.simps split: option.splits)
    have "?J z" by (rule step [OF 3(2) z(1)]) simp
    then show ?case by (rule 3(1) [OF _ z(2)]) (use 3(4) in simp)
  qed simp
  obtain acts tr busy where t: "objs tr = history M acts"
    "user_run P (shared0 P, local0 P, \<lambda>_. False) tr = Some (counters (play M P sched), locals (play M P sched), busy)"
    using play_trace [OF returns, of P sched] by blast
  obtain E cfg' where E: "visible E = history M acts" "\<not> list_ex is_obs E" "lin_run spec (a0, \<lambda>_. Quiet) E = Some cfg'"
    using linear [of acts] by (auto simp: linearizable_def)
  have "user_run P (shared0 P, local0 P, \<lambda>u. snd (a0, \<lambda>_. Quiet) u \<noteq> Quiet) tr =
      Some (counters (play M P sched), locals (play M P sched), busy)" using t(2) by simp
  then have "\<exists>tr' cfg''. objs tr' = E \<and> joint_run P spec ((a0, \<lambda>_. Quiet), shared0 P, local0 P) tr' =
      Some (cfg'', counters (play M P sched), locals (play M P sched))"
    by (rule user_joint [OF _ E(1) [folded t(1)] E(3)])
  then obtain tr' cfg'' where j: "objs tr' = E"
    "joint_run P spec ((a0, \<lambda>_. Quiet), shared0 P, local0 P) tr' =
      Some (cfg'', counters (play M P sched), locals (play M P sched))" by blast
  have "calling P (\<lambda>_. Quiet) (local0 P)" by (simp add: calling_def)
  then have "?J ((a0, \<lambda>_. Quiet), shared0 P, local0 P)" using init by simp
  from run [OF this j(2)] E(2) j(1)
  have "I (fst cfg'') (snd cfg'') (counters (play M P sched)) (locals (play M P sched)) \<and>
    calling P (snd cfg'') (locals (play M P sched))" by (simp only: case_prod_conv not_False_eq_True)
  then show ?thesis by blast
qed

end

subsection \<open>Participants with handles\<close>

text \<open>
  The factory of a wait-free object gives every participant a handle, the one of a lock-free object gives everybody the object
  itself. \<open>with_handles\<close> turns a test of the second kind into one of the first: \<open>joins\<close> says where a goroutine calls
  \<open>participant()\<close>. A goroutine that is refused a handle crashes the test.
\<close>

datatype 'l member = Absent (inner: 'l) | Joined (inner: 'l) | Refused (inner: 'l)

fun refused :: "'l member \<Rightarrow> bool" where
  "refused (Refused l) = True"
| "refused m = False"

fun handle_act :: "(tid \<Rightarrow> 'l \<Rightarrow> bool) \<Rightarrow> ('c, 'l, 'o, 'r) prog \<Rightarrow> tid \<Rightarrow> 'l member \<Rightarrow> 'o uc_op act" where
  "handle_act joins P t (Absent l) =
     (if joins t l then Invoke Register else case next_act P t l of Access \<Rightarrow> Access | _ \<Rightarrow> Finished)"
| "handle_act joins P t (Joined l) =
     (case next_act P t l of Invoke op \<Rightarrow> Invoke (Apply op) | Access \<Rightarrow> Access | Finished \<Rightarrow> Finished)"
| "handle_act joins P t (Refused l) = Finished"

fun handle_recv :: "('c, 'l, 'o, 'r) prog \<Rightarrow> tid \<Rightarrow> 'l member \<Rightarrow> 'r uc_resp \<Rightarrow> 'l member" where
  "handle_recv P t (Absent l) (Registered i) = Joined l"
| "handle_recv P t (Joined l) (Reply r) = Joined (recv P t l r)"
| "handle_recv P t m _ = Refused (inner m)"

fun handle_access :: "('c, 'l, 'o, 'r) prog \<Rightarrow> tid \<Rightarrow> 'c \<Rightarrow> 'l member \<Rightarrow> 'c \<times> 'l member" where
  "handle_access P t c (Absent l) = map_prod id Absent (access P t c l)"
| "handle_access P t c (Joined l) = map_prod id Joined (access P t c l)"
| "handle_access P t c (Refused l) = (c, Refused l)"

definition with_handles :: "(tid \<Rightarrow> 'l \<Rightarrow> bool) \<Rightarrow> ('c, 'l, 'o, 'r) prog \<Rightarrow> ('c, 'l member, 'o uc_op, 'r uc_resp) prog" where
  "with_handles joins P = \<lparr>shared0 = shared0 P, local0 = (\<lambda>t. Absent (local0 P t)), next_act = handle_act joins P,
     recv = handle_recv P, access = handle_access P\<rparr>"

lemma with_handles_simps [simp]:
  "shared0 (with_handles joins P) = shared0 P" "local0 (with_handles joins P) = (\<lambda>t. Absent (local0 P t))"
  "next_act (with_handles joins P) = handle_act joins P" "recv (with_handles joins P) = handle_recv P"
  "access (with_handles joins P) = handle_access P"
  by (simp_all add: with_handles_def)

fun base_st :: "('o uc_op, 'r uc_resp) status \<Rightarrow> ('o, 'r) status" where
  "base_st (Wait (Apply op) R) = Wait op {}"
| "base_st (Done (Reply r)) = Done r"
| "base_st _ = Quiet"

fun has_handle :: "'l member \<Rightarrow> ('o uc_op, 'r uc_resp) status \<Rightarrow> bool" where
  "has_handle (Joined l) s = True"
| "has_handle m (Done (Registered i)) = True"
| "has_handle m s = False"

text \<open>A goroutine and its registration.\<close>

fun member_ok :: "(tid \<Rightarrow> 'l \<Rightarrow> bool) \<Rightarrow> tid \<Rightarrow> 'l member \<Rightarrow> ('o uc_op, 'r uc_resp) status \<Rightarrow> bool" where
  "member_ok joins t (Absent l) s = (case s of Quiet \<Rightarrow> True | Wait op R \<Rightarrow> op = Register \<and> joins t l
     | Done r \<Rightarrow> (\<exists>i. r = Registered i) \<and> joins t l)"
| "member_ok joins t (Joined l) s = (case s of Quiet \<Rightarrow> True | Wait op R \<Rightarrow> op \<noteq> Register | Done r \<Rightarrow> (\<exists>q. r = Reply q))"
| "member_ok joins t (Refused l) s = False"

definition handles_inv :: "nat \<Rightarrow> (tid \<Rightarrow> 'l \<Rightarrow> bool) \<Rightarrow> ('a \<Rightarrow> (tid \<Rightarrow> ('o, 'r) status) \<Rightarrow> 'c \<Rightarrow> (tid \<Rightarrow> 'l) \<Rightarrow> bool) \<Rightarrow>
    'a \<times> nat \<Rightarrow> (tid \<Rightarrow> ('o uc_op, 'r uc_resp) status) \<Rightarrow> 'c \<Rightarrow> (tid \<Rightarrow> 'l member) \<Rightarrow> bool" where
  "handles_inv n joins I x st c loc \<longleftrightarrow> I (fst x) (\<lambda>t. base_st (st t)) c (\<lambda>t. inner (loc t)) \<and>
     (\<forall>t. member_ok joins t (loc t) (st t)) \<and> (\<forall>t. has_handle (loc t) (st t) \<longrightarrow> t < n) \<and>
     snd x = card {t. t < n \<and> has_handle (loc t) (st t)}"

lemma handles_invD:
  assumes "handles_inv n joins I x st c loc"
  shows "I (fst x) (\<lambda>t. base_st (st t)) c (\<lambda>t. inner (loc t))" and "member_ok joins t (loc t) (st t)"
    and "has_handle (loc t) (st t) \<Longrightarrow> t < n" and "snd x = card {t. t < n \<and> has_handle (loc t) (st t)}"
  using assms by (auto simp: handles_inv_def)

lemma handles_invI:
  assumes "handles_inv n joins I (a, k) st c loc" and "member_ok joins t l s" and "has_handle l s = has_handle (loc t) (st t)"
    and "I a' ((\<lambda>u. base_st (st u))(t := base_st s)) c' ((\<lambda>u. inner (loc u))(t := inner l))"
  shows "handles_inv n joins I (a', k) (st(t := s)) c' (loc(t := l))"
proof -
  have e: "(\<lambda>u. base_st ((st(t := s)) u)) = (\<lambda>u. base_st (st u))(t := base_st s)"
    "(\<lambda>u. inner ((loc(t := l)) u)) = (\<lambda>u. inner (loc u))(t := inner l)" by (simp_all add: fun_eq_iff)
  have h: "has_handle ((loc(t := l)) u) ((st(t := s)) u) = has_handle (loc u) (st u)" for u using assms(3) by simp
  show ?thesis using assms(1,2,4) unfolding handles_inv_def e h by simp
qed

lemma handles_keeps:
  assumes K: "keeps P spec I" and n: "\<forall>t l. joins t l \<longrightarrow> t < n"
  shows "keeps (with_handles joins P) (uc_spec n spec) (handles_inv n joins I)"
proof (rule keepsI)
  fix x st c loc t op
  assume J: "handles_inv n joins I x st c loc" and q: "st t = Quiet"
    and a: "next_act (with_handles joins P) t (loc t) = Invoke op"
  obtain b k where x: "x = (b, k)" by fastforce
  have I: "I b (\<lambda>u. base_st (st u)) c (\<lambda>u. inner (loc u))" using handles_invD(1) [OF J] x by simp
  have "handles_inv n joins I (b, k) (st(t := Wait op {})) c (loc(t := loc t))"
  proof (cases "loc t")
    case (Absent l)
    then have o: "op = Register" "joins t l" using a by (auto split: if_splits act.splits)
    show ?thesis
      by (rule handles_invI [OF J [unfolded x]]) (use Absent o q I in \<open>simp_all add: fun_upd_idem\<close>)
  next
    case (Joined l)
    then obtain op' where o: "op = Apply op'" "next_act P t l = Invoke op'" using a by (auto split: act.splits)
    have "I b ((\<lambda>u. base_st (st u))(t := Wait op' {})) c (\<lambda>u. inner (loc u))"
      by (rule keeps_inv [where I = I, OF K I]) (use q o Joined in simp_all)
    then show ?thesis
      by (intro handles_invI [OF J [unfolded x]]) (use Joined o q in \<open>simp_all add: fun_upd_idem\<close>)
  qed (use a in auto)
  then show "handles_inv n joins I x (st(t := Wait op {})) c loc" using x by simp
next
  fix x st c loc t op x' r
  assume J: "handles_inv n joins I x st c loc" and q: "st t = Wait op {}"
    and a: "next_act (with_handles joins P) t (loc t) = Invoke op" and e: "uc_spec n spec x op = (x', r)"
  obtain b k where x: "x = (b, k)" by fastforce
  have I: "I b (\<lambda>u. base_st (st u)) c (\<lambda>u. inner (loc u))" using handles_invD(1) [OF J] x by simp
  show "handles_inv n joins I x' (st(t := Done r)) c loc"
  proof (cases "loc t")
    case (Absent l)
    then have o: "op = Register" "joins t l" using a by (auto split: if_splits act.splits)
    let ?H = "{u. u < n \<and> has_handle (loc u) (st u)}"
    have t: "t < n" using n o(2) by blast
    have nt: "t \<notin> ?H" using Absent q by simp
    have kc: "k = card ?H" using handles_invD(4) [OF J] x by simp
    have "?H \<subset> {..<n}" using t nt by auto
    then have kn: "k < n" unfolding kc using psubset_card_mono [of "{..<n}" ?H] by simp
    then have r: "r = Registered k" "x' = (b, k + 1)" using e o x by simp_all
    have "{u. u < n \<and> has_handle (loc u) ((st(t := Done r)) u)} = insert t ?H" using t Absent r by auto
    then have "card {u. u < n \<and> has_handle (loc u) ((st(t := Done r)) u)} = k + 1" using nt kc by simp
    moreover have "(\<lambda>u. base_st ((st(t := Done r)) u)) = (\<lambda>u. base_st (st u))"
      using q o r by (simp add: fun_eq_iff)
    moreover have "member_ok joins u (loc u) ((st(t := Done r)) u)" for u
      using handles_invD(2) [OF J, of u] Absent o(2) r(1) by simp
    moreover have "has_handle (loc u) ((st(t := Done r)) u) \<Longrightarrow> u < n" for u
      using handles_invD(3) [OF J, of u] t by (cases "u = t") simp_all
    ultimately show ?thesis unfolding handles_inv_def r(2) fst_conv snd_conv using I by presburger
  next
    case (Joined l)
    then obtain op' where o: "op = Apply op'" "next_act P t l = Invoke op'" using a by (auto split: act.splits)
    then obtain b' r' where r: "spec b op' = (b', r')" "x' = (b', k)" "r = Reply r'" using e x by (auto split: prod.splits)
    have "I b' ((\<lambda>u. base_st (st u))(t := Done r')) c (\<lambda>u. inner (loc u))"
      by (rule keeps_lin [where I = I, OF K I]) (use q o r Joined in simp_all)
    then have "handles_inv n joins I (b', k) (st(t := Done r)) c (loc(t := loc t))"
      by (intro handles_invI [OF J [unfolded x]]) (use Joined o q r in \<open>simp_all add: fun_upd_idem\<close>)
    then show ?thesis using r(2) by simp
  qed (use a in auto)
next
  fix x st c loc t op r
  assume J: "handles_inv n joins I x st c loc" and q: "st t = Done r"
    and a: "next_act (with_handles joins P) t (loc t) = Invoke op"
  obtain b k where x: "x = (b, k)" by fastforce
  have I: "I b (\<lambda>u. base_st (st u)) c (\<lambda>u. inner (loc u))" using handles_invD(1) [OF J] x by simp
  have M: "member_ok joins t (loc t) (st t)" by (rule handles_invD(2) [OF J])
  show "handles_inv n joins I x (st(t := Quiet)) c (loc(t := recv (with_handles joins P) t (loc t) r))"
  proof (cases "loc t")
    case (Absent l)
    then obtain i where o: "r = Registered i" using M q by auto
    show ?thesis unfolding x
      by (rule handles_invI [OF J [unfolded x]]) (use Absent o q I in \<open>simp_all add: fun_upd_idem\<close>)
  next
    case (Joined l)
    then obtain r' where o: "r = Reply r'" using M q by auto
    obtain op' where op: "next_act P t l = Invoke op'" using a Joined by (auto split: act.splits)
    have "I b ((\<lambda>u. base_st (st u))(t := Quiet)) c ((\<lambda>u. inner (loc u))(t := recv P t (inner (loc t)) r'))"
      by (rule keeps_res [where I = I, OF K I]) (use q o op Joined in simp_all)
    then show ?thesis unfolding x
      by (intro handles_invI [OF J [unfolded x]]) (use Joined o q in simp_all)
  qed (use a in auto)
next
  fix x st c loc t c' l'
  assume J: "handles_inv n joins I x st c loc" and q: "st t = Quiet"
    and a: "next_act (with_handles joins P) t (loc t) = Access" and e: "access (with_handles joins P) t c (loc t) = (c', l')"
  obtain b k where x: "x = (b, k)" by fastforce
  have I: "I b (\<lambda>u. base_st (st u)) c (\<lambda>u. inner (loc u))" using handles_invD(1) [OF J] x by simp
  have na: "next_act P t (inner (loc t)) = Access"
    using a by (cases "loc t") (auto split: if_splits act.splits)
  obtain d l where dl: "access P t c (inner (loc t)) = (d, l)" by fastforce
  have l: "access P t c (inner (loc t)) = (c', l)" "inner l' = l" "has_handle l' Quiet = has_handle (loc t) Quiet"
      "member_ok joins t l' Quiet"
    using dl e a by (cases "loc t"; auto)+
  have "I b (\<lambda>u. base_st (st u)) c' ((\<lambda>u. inner (loc u))(t := l))"
    by (rule keeps_acc [where I = I, OF K I]) (use q na l in simp_all)
  then have "handles_inv n joins I (b, k) (st(t := Quiet)) c' (loc(t := l'))"
    by (intro handles_invI [OF J [unfolded x]]) (use q l in \<open>simp_all add: fun_upd_idem\<close>)
  then show "handles_inv n joins I x st c' (loc(t := l'))" using x q by (simp add: fun_upd_idem)
qed

lemma handles_calling:
  assumes M: "\<And>t. member_ok joins t (loc t) (st t)" and C: "calling (with_handles joins P) st loc"
  shows "calling P (\<lambda>t. base_st (st t)) (\<lambda>t. inner (loc t))"
proof -
  have "called P t (inner (loc t)) (base_st (st t))" for t
  proof -
    have c: "called (with_handles joins P) t (loc t) (st t)" using C by (simp add: calling_def)
    show ?thesis
    proof (cases "loc t")
      case (Absent l)
      then have "base_st (st t) = Quiet" using M [of t] by (cases "st t") auto
      then show ?thesis by simp
    next
      case (Joined l)
      have "\<exists>op'. op = Apply op' \<and> next_act P t l = Invoke op'" if "handle_act joins P t (loc t) = Invoke op" for op
        using that Joined by (auto split: act.splits)
      then show ?thesis using c Joined M [of t] by (cases "st t") (auto simp del: handle_act.simps)
    qed (use M [of t] in simp)
  qed
  then show ?thesis by (simp add: calling_def)
qed

locale conforming_handles = conforming M "uc_spec n spec" "(a0, 0 :: nat)"
  for M :: "('sh, 'pc, 'o uc_op, 'r uc_resp) machine" and n :: nat and spec :: "'a \<Rightarrow> 'o \<Rightarrow> 'a \<times> 'r" and a0 :: 'a
begin

lemma play_handles:
  fixes P :: "('c, 'l, 'o, 'r) prog"
  assumes K: "keeps P spec I" and init: "I a0 (\<lambda>_. Quiet) (shared0 P) (local0 P)" and n: "\<forall>t l. joins t l \<longrightarrow> t < n"
  shows "\<exists>a st. I a st (counters (play M (with_handles joins P) sched)) (\<lambda>t. inner (locals (play M (with_handles joins P) sched) t)) \<and>
      calling P st (\<lambda>t. inner (locals (play M (with_handles joins P) sched) t))"
    and "\<not> refused (locals (play M (with_handles joins P) sched) t)"
proof -
  have "handles_inv n joins I (a0, 0) (\<lambda>_. Quiet) (shared0 P) (\<lambda>t. Absent (local0 P t))"
    using init by (simp add: handles_inv_def)
  then obtain x st where J: "handles_inv n joins I x st (counters (play M (with_handles joins P) sched))
      (locals (play M (with_handles joins P) sched))" and C: "calling (with_handles joins P) st (locals (play M (with_handles joins P) sched))"
    using play_invariant [OF handles_keeps [where joins = joins and n = n, OF K n], where sched = sched] by auto
  show "\<exists>a st. I a st (counters (play M (with_handles joins P) sched)) (\<lambda>t. inner (locals (play M (with_handles joins P) sched) t)) \<and>
      calling P st (\<lambda>t. inner (locals (play M (with_handles joins P) sched) t))"
    using handles_invD(1) [OF J] handles_calling [OF handles_invD(2) [OF J] C] by blast
  show "\<not> refused (locals (play M (with_handles joins P) sched) t)"
    using handles_invD(2) [OF J, of t] by (cases "locals (play M (with_handles joins P) sched) t") simp_all
qed

end

subsection \<open>Failing tests\<close>

text \<open>A test fails by its own checks, by a goroutine that panics, and, with handles, by a participant without one.\<close>

definition test_fails :: "((tid \<Rightarrow> 'l) \<Rightarrow> bool) \<Rightarrow> ('sh, 'pc, 'r, 'c, 'l) test_state \<Rightarrow> bool" where
  "test_fails checks s \<longleftrightarrow> checks (locals s) \<or> (\<exists>t. snd (fst s) t = Panic)"

definition test_fails_handles :: "((tid \<Rightarrow> 'l) \<Rightarrow> bool) \<Rightarrow> ('sh, 'pc, 'r, 'c, 'l member) test_state \<Rightarrow> bool" where
  "test_fails_handles checks s \<longleftrightarrow> checks (\<lambda>t. inner (locals s t)) \<or> (\<exists>t. refused (locals s t)) \<or> (\<exists>t. snd (fst s) t = Panic)"

lemma test_passes:
  fixes P :: "('c, 'l, 'o, 'r) prog"
  assumes "conforming M spec a0" and "keeps P spec I" and "I a0 (\<lambda>_. Quiet) (shared0 P) (local0 P)"
    and "\<And>a st c loc. I a st c loc \<Longrightarrow> calling P st loc \<Longrightarrow> \<not> checks loc"
  shows "\<not> test_fails checks (play M P sched)"
  using conforming.play_invariant [OF assms(1-3), of sched] conforming.play_no_panic [OF assms(1), of P sched] assms(4)
  unfolding test_fails_def by blast

lemma test_passes_handles:
  fixes P :: "('c, 'l, 'o, 'r) prog"
  assumes C: "conforming_handles M n spec a0" and K: "keeps P spec I" and init: "I a0 (\<lambda>_. Quiet) (shared0 P) (local0 P)"
    and n: "\<forall>t l. joins t l \<longrightarrow> t < n"
    and checks: "\<And>a st c loc. I a st c loc \<Longrightarrow> calling P st loc \<Longrightarrow> \<not> checks loc"
  shows "\<not> test_fails_handles checks (play M (with_handles joins P) sched)"
proof -
  note P = conforming_handles.play_handles [OF C K init n, of sched]
  have "snd (fst (play M (with_handles joins P) sched)) t \<noteq> Panic" for t
    by (rule conforming.play_no_panic [OF conforming_handles.axioms(1) [OF C]])
  then show ?thesis using P checks unfolding test_fails_handles_def by blast
qed

end
