(* ===== verification/Conform_Sequential.thy ===== *)
theory Conform_Sequential
  imports Conform
begin

text \<open>
  The tests of \<open>internal/conformtest\<close> with one participant: the \<open>Sequential\<close> and the \<open>Differential\<close> test of every kind of
  container. Such a test is a client that asks the object one question after the other. A differential test
  draws its calls from a random source; here the draws are an argument.
\<close>

subsection \<open>Clients\<close>

text \<open>A client has passed, has called \<open>t.Fatalf\<close>, or calls the object and goes on with the answer.\<close>

datatype ('o, 'r) client = Passed | Fatalf | Ask 'o "'r \<Rightarrow> ('o, 'r) client"

fun client_act :: "('o, 'r) client \<Rightarrow> 'o act" where
  "client_act (Ask op k) = Invoke op"
| "client_act _ = Finished"

fun client_recv :: "('o, 'r) client \<Rightarrow> 'r \<Rightarrow> ('o, 'r) client" where
  "client_recv (Ask op k) r = k r"
| "client_recv c r = c"

text \<open>The test runs on goroutine 0.\<close>

definition solo :: "('o, 'r) client \<Rightarrow> (unit, ('o, 'r) client, 'o, 'r) prog" where
  "solo c = \<lparr>shared0 = (), local0 = (\<lambda>t. if t = 0 then c else Passed), next_act = (\<lambda>t. client_act),
     recv = (\<lambda>t. client_recv), access = (\<lambda>t c l. (c, l))\<rparr>"

lemma solo_simps [simp]:
  "shared0 (solo c) = ()" "local0 (solo c) = (\<lambda>t. if t = 0 then c else Passed)" "next_act (solo c) t = client_act"
  "recv (solo c) t = client_recv" "access (solo c) t = (\<lambda>c l. (c, l))"
  by (simp_all add: solo_def)

primrec passes :: "('a \<Rightarrow> 'o \<Rightarrow> 'a \<times> 'r) \<Rightarrow> ('o, 'r) client \<Rightarrow> 'a \<Rightarrow> bool" where
  "passes spec Passed a = True"
| "passes spec Fatalf a = False"
| "passes spec (Ask op k) a = passes spec (k (snd (spec a op))) (fst (spec a op))"

text \<open>A client that passes on the sequential object.\<close>

fun solo_ok :: "('a \<Rightarrow> 'o \<Rightarrow> 'a \<times> 'r) \<Rightarrow> 'a \<Rightarrow> ('o, 'r) client \<Rightarrow> ('o, 'r) status \<Rightarrow> bool" where
  "solo_ok spec a c (Done r) = (case c of Ask op k \<Rightarrow> passes spec (k r) a | _ \<Rightarrow> False)"
| "solo_ok spec a c s = passes spec c a"

definition solo_inv :: "('a \<Rightarrow> 'o \<Rightarrow> 'a \<times> 'r) \<Rightarrow> 'a \<Rightarrow> (tid \<Rightarrow> ('o, 'r) status) \<Rightarrow> unit \<Rightarrow> (tid \<Rightarrow> ('o, 'r) client) \<Rightarrow> bool" where
  "solo_inv spec a st c loc \<longleftrightarrow> solo_ok spec a (loc 0) (st 0) \<and> (\<forall>t. t \<noteq> 0 \<longrightarrow> loc t = Passed)"

lemma client_actE:
  assumes "client_act c = Invoke op"
  obtains k where "c = Ask op k"
  using assms by (cases c) auto

lemma solo_keeps: "keeps (solo c) spec (solo_inv spec)"
proof (rule keepsI)
  fix a st d loc t op
  assume "solo_inv spec a st d loc" "st t = Quiet" "next_act (solo c) t (loc t) = Invoke op"
  then show "solo_inv spec a (st(t := Wait op {})) d loc"
    by (cases "t = 0") (auto simp: solo_inv_def)
next
  fix a st d loc t op a' r
  assume "solo_inv spec a st d loc" "st t = Wait op {}" "next_act (solo c) t (loc t) = Invoke op" "spec a op = (a', r)"
  then show "solo_inv spec a' (st(t := Done r)) d loc"
    by (cases "t = 0") (auto simp: solo_inv_def elim!: client_actE)
next
  fix a st d loc t op r
  assume "solo_inv spec a st d loc" "st t = Done r" "next_act (solo c) t (loc t) = Invoke op"
  then show "solo_inv spec a (st(t := Quiet)) d (loc(t := recv (solo c) t (loc t) r))"
    by (cases "t = 0") (auto simp: solo_inv_def elim!: client_actE)
next
  fix a st d loc t d' l
  assume "solo_inv spec a st d loc" "next_act (solo c) t (loc t) = Access"
  then show "solo_inv spec a st d' (loc(t := l))" by (cases "loc t") auto
qed

fun fatal :: "('o, 'r) client \<Rightarrow> bool" where
  "fatal Fatalf = True"
| "fatal c = False"

definition solo_fails :: "(tid \<Rightarrow> ('o, 'r) client) \<Rightarrow> bool" where
  "solo_fails loc = fatal (loc 0)"

text \<open>The handle of the only participant.\<close>

definition solo_joins :: "tid \<Rightarrow> ('o, 'r) client \<Rightarrow> bool" where
  "solo_joins t c \<longleftrightarrow> t = 0"

lemma solo_inv_fails: "solo_inv spec a st c loc \<Longrightarrow> \<not> solo_fails loc"
  by (cases "loc 0"; cases "st 0") (auto simp: solo_inv_def solo_fails_def)

lemma solo_init: "passes spec c a0 \<Longrightarrow> solo_inv spec a0 (\<lambda>_. Quiet) (shared0 (solo c)) (local0 (solo c))"
  by (simp add: solo_inv_def)

lemma solo_passes:
  assumes "conforming M spec a0" and "passes spec c a0"
  shows "\<not> test_fails solo_fails (play M (solo c) sched)"
  by (rule test_passes [OF assms(1) solo_keeps solo_init [OF assms(2)] solo_inv_fails])

lemma solo_passes_handles:
  assumes "conforming_handles M n spec a0" and "passes spec c a0" and "0 < n"
  shows "\<not> test_fails_handles solo_fails (play M (with_handles solo_joins (solo c)) sched)"
  by (rule test_passes_handles [OF assms(1) solo_keeps solo_init [OF assms(2)] _ solo_inv_fails])
    (use assms(3) in \<open>simp add: solo_joins_def\<close>)

subsection \<open>Loops of calls\<close>

text \<open>\<open>v, ok := s.Pop()\<close>.\<close>

fun got :: "'v resp \<Rightarrow> 'v option" where
  "got (Got x) = x"
| "got Ack = None"

text \<open>\<open>if v, ok := s.Pop(); ok { t.Fatalf(..) }\<close>\<close>

definition expect_empty :: "'o \<Rightarrow> ('o, int resp) client \<Rightarrow> ('o, int resp) client" where
  "expect_empty op k = Ask op (\<lambda>r. if got r \<noteq> None then Fatalf else k)"

text \<open>A loop of calls whose answers are ignored, and one in which the answer to \<open>op\<close> has to be the value given.\<close>

fun do_all :: "'o list \<Rightarrow> ('o, 'r) client \<Rightarrow> ('o, 'r) client" where
  "do_all [] k = k"
| "do_all (op # ops) k = Ask op (\<lambda>_. do_all ops k)"

fun expect_all :: "'o \<Rightarrow> int list \<Rightarrow> ('o, int resp) client \<Rightarrow> ('o, int resp) client" where
  "expect_all op [] k = k"
| "expect_all op (v # vs) k = Ask op (\<lambda>r. if got r = Some v then expect_all op vs k else Fatalf)"

definition ints :: "nat \<Rightarrow> int list" where "ints n = map int [0..<n]"

subsection \<open>Stacks\<close>

definition stackSequential :: "(int stack_op, int resp) client" where
  "stackSequential =
     expect_empty Pop (do_all (map Push (ints 100)) (expect_all Pop (rev (ints 100)) (expect_empty Pop Passed)))"

text \<open>Every draw is \<open>rng.IntN(2) == 0\<close> and the value of \<open>rng.Int()\<close>; the reference is a slice with the top at its end.\<close>

fun stackDifferential :: "(bool \<times> int) list \<Rightarrow> int list \<Rightarrow> (int stack_op, int resp) client" where
  "stackDifferential [] ref = Passed"
| "stackDifferential ((push, v) # draws) ref =
     (if push then Ask (Push v) (\<lambda>_. stackDifferential draws (ref @ [v]))
      else Ask Pop (\<lambda>r.
        if length ref = 0 then (if got r \<noteq> None then Fatalf else stackDifferential draws ref)
        else if got r = None \<or> got r \<noteq> Some (ref ! (length ref - 1)) then Fatalf
        else stackDifferential draws (take (length ref - 1) ref)))"

lemma do_push: "passes stack_spec (do_all (map Push vs) k) a = passes stack_spec k (rev vs @ a)"
  by (induction vs arbitrary: a) auto

lemma expect_pop: "passes stack_spec (expect_all Pop vs k) (vs @ a) = passes stack_spec k a"
  by (induction vs) auto

lemma stackSequential_passes: "passes stack_spec stackSequential []"
  using expect_pop [of "rev (ints 100)" _ "[]"] by (simp add: stackSequential_def expect_empty_def do_push)

lemma stackDifferential_passes: "passes stack_spec (stackDifferential draws ref) (rev ref)"
proof (induction draws arbitrary: ref)
  case (Cons d draws)
  obtain push v where d: "d = (push, v)" by fastforce
  show ?case using Cons.IH [of "ref @ [v]"] Cons.IH [of ref] Cons.IH [of "butlast ref"]
    by (cases ref rule: rev_cases) (simp_all add: d)
qed simp

subsection \<open>Queues\<close>

definition queueSequential :: "(int queue_op, int resp) client" where
  "queueSequential =
     expect_empty Dequeue (do_all (map Enqueue (ints 100)) (expect_all Dequeue (ints 100) (expect_empty Dequeue Passed)))"

fun queueDifferential :: "(bool \<times> int) list \<Rightarrow> int list \<Rightarrow> (int queue_op, int resp) client" where
  "queueDifferential [] ref = Passed"
| "queueDifferential ((enq, v) # draws) ref =
     (if enq then Ask (Enqueue v) (\<lambda>_. queueDifferential draws (ref @ [v]))
      else Ask Dequeue (\<lambda>r.
        if length ref = 0 then (if got r \<noteq> None then Fatalf else queueDifferential draws ref)
        else if got r = None \<or> got r \<noteq> Some (ref ! 0) then Fatalf
        else queueDifferential draws (drop 1 ref)))"

lemma do_enqueue: "passes queue_spec (do_all (map Enqueue vs) k) a = passes queue_spec k (a @ vs)"
  by (induction vs arbitrary: a) auto

lemma expect_dequeue: "passes queue_spec (expect_all Dequeue vs k) (vs @ a) = passes queue_spec k a"
  by (induction vs) auto

lemma queueSequential_passes: "passes queue_spec queueSequential []"
  using expect_dequeue [of "ints 100" _ "[]"] by (simp add: queueSequential_def expect_empty_def do_enqueue)

lemma queueDifferential_passes: "passes queue_spec (queueDifferential draws ref) ref"
proof (induction draws arbitrary: ref)
  case (Cons d draws)
  obtain enq v where d: "d = (enq, v)" by fastforce
  show ?case by (cases ref) (simp_all add: d Cons.IH)
qed simp

subsection \<open>Deques\<close>

definition dequeSequential :: "(int deque_op, int resp) client" where
  "dequeSequential =
     expect_empty PopFront (expect_empty PopBack
     (do_all (map PushBack (ints 10)) (expect_all PopFront (ints 10)
     (do_all (map PushFront (ints 10)) (expect_all PopFront (rev (ints 10))
     (do_all (map PushBack (ints 10)) (expect_all PopBack (rev (ints 10)) Passed)))))))"

text \<open>The loop that drains the deque from the front, against \<open>refDeque\<close>.\<close>

function deque_drain :: "int list \<Rightarrow> (int deque_op, int resp) client" where
  "deque_drain ref = Ask PopFront (\<lambda>r.
     if got r \<noteq> got (snd (refDeque ref PopFront)) then Fatalf
     else if got r = None then Passed
     else deque_drain (fst (refDeque ref PopFront)))"
  by pat_completeness auto
termination
  by (relation "measure length") (auto split: if_splits)

declare deque_drain.simps [simp del]

text \<open>Every draw is \<open>rng.IntN(4)\<close> and the value of \<open>rng.Int()\<close>.\<close>

fun dequeDifferential :: "(nat \<times> int) list \<Rightarrow> int list \<Rightarrow> (int deque_op, int resp) client" where
  "dequeDifferential [] ref = deque_drain ref"
| "dequeDifferential ((n, v) # draws) ref =
     (if n = 0 then Ask (PushFront v) (\<lambda>_. dequeDifferential draws (fst (refDeque ref (PushFront v))))
      else if n = 1 then Ask (PushBack v) (\<lambda>_. dequeDifferential draws (fst (refDeque ref (PushBack v))))
      else if n = 2 then Ask PopFront (\<lambda>r.
        if got r \<noteq> got (snd (refDeque ref PopFront)) then Fatalf
        else dequeDifferential draws (fst (refDeque ref PopFront)))
      else if n = 3 then Ask PopBack (\<lambda>r.
        if got r \<noteq> got (snd (refDeque ref PopBack)) then Fatalf
        else dequeDifferential draws (fst (refDeque ref PopBack)))
      else dequeDifferential draws ref)"

lemma do_pushBack: "passes deque_spec (do_all (map PushBack vs) k) a = passes deque_spec k (a @ vs)"
  by (induction vs arbitrary: a) auto

lemma do_pushFront: "passes deque_spec (do_all (map PushFront vs) k) a = passes deque_spec k (rev vs @ a)"
  by (induction vs arbitrary: a) auto

lemma expect_popFront: "passes deque_spec (expect_all PopFront vs k) (vs @ a) = passes deque_spec k a"
  by (induction vs) auto

lemma expect_popBack: "passes deque_spec (expect_all PopBack vs k) (a @ rev vs) = passes deque_spec k a"
  by (induction vs) (auto simp: butlast_append)

lemma dequeSequential_passes: "passes deque_spec dequeSequential []"
  using expect_popFront [where a = "[]"] expect_popBack [where a = "[]" and vs = "rev (ints 10)"]
  by (simp add: dequeSequential_def expect_empty_def do_pushBack do_pushFront)

lemma deque_drain_passes: "passes deque_spec (deque_drain ref) ref"
proof (induction ref rule: length_induct)
  case (1 ref)
  then show ?case
    by (subst deque_drain.simps) (cases ref, simp_all add: refDeque_spec)
qed

lemma dequeDifferential_passes: "passes deque_spec (dequeDifferential draws ref) ref"
  by (induction draws ref rule: dequeDifferential.induct) (simp_all add: refDeque_spec deque_drain_passes)

subsection \<open>Maps\<close>

text \<open>Every draw is the key, \<open>rng.IntN(3)\<close> and the value of \<open>rng.Int()\<close>. The sweep over the key space follows.\<close>

fun map_sweep :: "int list \<Rightarrow> (int \<Rightarrow> int option) \<Rightarrow> ((int, int) map_op, int resp) client" where
  "map_sweep [] ref = Passed"
| "map_sweep (k # ks) ref = Ask (GetKey k) (\<lambda>r. if got r \<noteq> ref k then Fatalf else map_sweep ks ref)"

fun mapDifferential :: "(int \<times> nat \<times> int) list \<Rightarrow> (int \<Rightarrow> int option) \<Rightarrow> ((int, int) map_op, int resp) client" where
  "mapDifferential [] ref = map_sweep (ints 256) ref"
| "mapDifferential ((k, n, v) # draws) ref =
     (if n = 0 then Ask (SetKey k v) (\<lambda>_. mapDifferential draws (ref(k := Some v)))
      else if n = 1 then Ask (DelKey k) (\<lambda>r. if got r \<noteq> ref k then Fatalf else mapDifferential draws (ref(k := None)))
      else if n = 2 then Ask (GetKey k) (\<lambda>r. if got r \<noteq> ref k then Fatalf else mapDifferential draws ref)
      else mapDifferential draws ref)"

lemma same_key_int [simp]: "same_key (<) (x :: int) y \<longleftrightarrow> x = y"
  by (auto simp: same_key_def)

lemma map_spec_int [simp]:
  "map_spec (<) m (SetKey (k :: int) v) = (m(k := Some v), Ack)" "map_spec (<) m (DelKey k) = (m(k := None), Got (m k))"
  by (auto simp: fun_eq_iff)

lemma map_sweep_passes: "passes (map_spec (<)) (map_sweep ks ref) ref"
  by (induction ks) auto

lemma mapDifferential_passes: "passes (map_spec (<)) (mapDifferential draws ref) ref"
proof (induction draws arbitrary: ref)
  case (Cons d draws)
  obtain k n v where d: "d = (k, n, v)" by (metis prod.collapse)
  show ?case by (simp add: d Cons.IH del: map_spec.simps(1,3))
qed (simp add: map_sweep_passes)

subsection \<open>Wait groups and disjoint ranges\<close>

text \<open>A wait group counts the goroutines that have not called \<open>Done\<close>; the workers' values are \<open>t * per + i\<close>.\<close>

lemma wait_group_done:
  assumes "t < n" and "P t" and "\<not> P' t" and "\<And>u. u \<noteq> t \<Longrightarrow> P' u = P u"
  shows "card {u. u < n \<and> P u} - 1 = card {u. u < n \<and> P' u}"
proof -
  have "P' u \<longleftrightarrow> P u \<and> u \<noteq> t" for u using assms by (cases "u = t") simp_all
  then have "{u. u < n \<and> P' u} = {u. u < n \<and> P u} - {t}" by auto
  moreover have "t \<in> {u. u < n \<and> P u}" using assms by simp
  ultimately show ?thesis by (simp add: card_Diff_singleton)
qed

lemma encoded:
  assumes "s < per"
  shows "int (p * per + s) div int per = int p" and "int (p * per + s) mod int per = int s"
proof -
  have "(p * per + s) div per = p" "(p * per + s) mod per = s" using assms by simp_all
  then show "int (p * per + s) div int per = int p" "int (p * per + s) mod int per = int s"
    by (metis zdiv_int, metis zmod_int)
qed

lemma encoded_eq: "s < per \<Longrightarrow> s' < per \<Longrightarrow> int (p * per + s) = int (p' * per + s') \<longleftrightarrow> p = p' \<and> s = s'"
  using encoded [of s per p] encoded [of s' per p'] by (metis of_nat_eq_iff)

lemma encoded_bound: "p < n \<Longrightarrow> s < per \<Longrightarrow> p * per + s < n * per" for n per :: nat
  using mult_le_mono1 [of "p + 1" n per] by simp

end
