(* ===== verification/Conform_Conservation.thy ===== *)
theory Conform_Conservation
  imports Conform_Sequential "HOL-Library.Multiset"
begin

text \<open>
  The \<open>ConcurrentConservation\<close> tests of \<open>internal/conformtest\<close>: goroutines that insert distinct values, goroutines that
  remove values until as many have been removed as were to be inserted, and the check that every value came out exactly
  once. The three tests differ only in the calls, so the program is written once, with the calls as arguments.
\<close>

subsection \<open>The test\<close>

text \<open>
  A pusher is in its loop at \<open>i\<close>. A popper holds the values it has removed: about to call, to add to the shared
  counter, to read it, or finished. The two wait groups are the condition that all goroutines have finished.
\<close>

datatype bag_loc = Pushing nat | Popping "int list" | Counting "int list" | Loading "int list" | PopDone "int list"

fun bag_act :: "nat \<Rightarrow> nat \<Rightarrow> (nat \<Rightarrow> nat \<Rightarrow> int \<Rightarrow> 'o) \<Rightarrow> (nat \<Rightarrow> 'o) \<Rightarrow> tid \<Rightarrow> bag_loc \<Rightarrow> 'o act" where
  "bag_act pushers per push pop t (Pushing i) =
     (if i < per then Invoke (push t i (int (t * per + i))) else Finished)"
| "bag_act pushers per push pop t (Popping mine) = Invoke (pop (t - pushers))"
| "bag_act pushers per push pop t (Counting mine) = Access"
| "bag_act pushers per push pop t (Loading mine) = Access"
| "bag_act pushers per push pop t (PopDone mine) = Finished"

fun bag_recv :: "tid \<Rightarrow> bag_loc \<Rightarrow> int resp \<Rightarrow> bag_loc" where
  "bag_recv t (Pushing i) r = Pushing (i + 1)"
| "bag_recv t (Popping mine) r = (case got r of Some v \<Rightarrow> Counting (mine @ [v]) | None \<Rightarrow> Loading mine)"
| "bag_recv t l r = l"

text \<open>\<open>popped.Add(1)\<close> and \<open>popped.Load() >= expected\<close>.\<close>

fun bag_access :: "int \<Rightarrow> tid \<Rightarrow> int \<Rightarrow> bag_loc \<Rightarrow> int \<times> bag_loc" where
  "bag_access expected t popped (Counting mine) = (popped + 1, Popping mine)"
| "bag_access expected t popped (Loading mine) = (popped, if popped \<ge> expected then PopDone mine else Popping mine)"
| "bag_access expected t popped l = (popped, l)"

definition conservation :: "nat \<Rightarrow> nat \<Rightarrow> nat \<Rightarrow> (nat \<Rightarrow> nat \<Rightarrow> int \<Rightarrow> 'o) \<Rightarrow> (nat \<Rightarrow> 'o) \<Rightarrow> (int, bag_loc, 'o, int resp) prog" where
  "conservation pushers poppers per push pop =
     \<lparr>shared0 = 0,
      local0 = (\<lambda>t. if t < pushers then Pushing 0 else if t < pushers + poppers then Popping [] else PopDone []),
      next_act = bag_act pushers per push pop, recv = bag_recv, access = bag_access (int (pushers * per))\<rparr>"

text \<open>The checks after the wait groups: the range of every value, the total, and the tally \<open>seen\<close>.\<close>

definition tally_ok :: "nat \<Rightarrow> int list list \<Rightarrow> bool" where
  "tally_ok expected results =
     (let vs = concat results
      in list_all (\<lambda>v. \<not> (v < 0 \<or> v \<ge> int expected)) vs \<and> length vs = expected \<and>
         list_all (\<lambda>v. count_list vs v = 1) (ints expected))"

fun bag_done :: "nat \<Rightarrow> bag_loc \<Rightarrow> bool" where
  "bag_done per (Pushing i) = (i \<ge> per)"
| "bag_done per (PopDone mine) = True"
| "bag_done per _ = False"

fun bag_result :: "bag_loc \<Rightarrow> int list" where
  "bag_result (PopDone mine) = mine"
| "bag_result _ = []"

definition conservation_fails :: "nat \<Rightarrow> nat \<Rightarrow> nat \<Rightarrow> (tid \<Rightarrow> bag_loc) \<Rightarrow> bool" where
  "conservation_fails pushers poppers per loc =
     (list_all (\<lambda>t. bag_done per (loc t)) [0..<pushers + poppers] \<and>
      \<not> tally_ok (pushers * per) (map (\<lambda>c. bag_result (loc c)) [pushers..<pushers + poppers]))"

definition stackConservation :: "(int, bag_loc, int stack_op, int resp) prog" where
  "stackConservation = conservation 16 8 4000 (\<lambda>p i. Push) (\<lambda>c. Pop)"

definition queueConcurrentConservation :: "(int, bag_loc, int queue_op, int resp) prog" where
  "queueConcurrentConservation = conservation 16 8 4000 (\<lambda>p i. Enqueue) (\<lambda>c. Dequeue)"

definition dequeConservation :: "(int, bag_loc, int deque_op, int resp) prog" where
  "dequeConservation = conservation 12 12 4000
     (\<lambda>p i. if (p + i) mod 2 = 0 then PushFront else PushBack) (\<lambda>c. if c mod 2 = 0 then PopFront else PopBack)"

lemma conservation_simps [simp]:
  "shared0 (conservation pushers poppers per push pop) = 0"
  "next_act (conservation pushers poppers per push pop) = bag_act pushers per push pop"
  "recv (conservation pushers poppers per push pop) = bag_recv"
  "access (conservation pushers poppers per push pop) = bag_access (int (pushers * per))"
  by (simp_all add: conservation_def)

subsection \<open>The invariant\<close>

text \<open>What a goroutine has inserted, what it has removed, and what it has counted.\<close>

fun given :: "nat \<Rightarrow> tid \<Rightarrow> bag_loc \<Rightarrow> ('o, int resp) status \<Rightarrow> int multiset" where
  "given per t (Pushing i) s = mset (map (\<lambda>j. int (t * per + j)) [0..<i + (case s of Done r \<Rightarrow> 1 | _ \<Rightarrow> 0)])"
| "given per t l s = {#}"

fun removed :: "('o, int resp) status \<Rightarrow> int multiset" where
  "removed (Done r) = (case got r of Some v \<Rightarrow> {#v#} | None \<Rightarrow> {#})"
| "removed s = {#}"

fun held :: "bag_loc \<Rightarrow> ('o, int resp) status \<Rightarrow> int multiset" where
  "held (Pushing i) s = {#}"
| "held (Popping mine) s = mset mine + removed s"
| "held (Counting mine) s = mset mine"
| "held (Loading mine) s = mset mine"
| "held (PopDone mine) s = mset mine"

fun counted :: "bag_loc \<Rightarrow> int" where
  "counted (Pushing i) = 0"
| "counted (Popping mine) = int (length mine)"
| "counted (Counting mine) = int (length mine) - 1"
| "counted (Loading mine) = int (length mine)"
| "counted (PopDone mine) = int (length mine)"

fun bag_shape :: "nat \<Rightarrow> nat \<Rightarrow> nat \<Rightarrow> int \<Rightarrow> tid \<Rightarrow> bag_loc \<Rightarrow> bool" where
  "bag_shape pushers n per c t (Pushing i) = (t < pushers \<and> i \<le> per)"
| "bag_shape pushers n per c t (PopDone mine) = (pushers \<le> t \<and> (t < n \<longrightarrow> c \<ge> int (pushers * per)))"
| "bag_shape pushers n per c t l = (pushers \<le> t \<and> t < n)"

definition bag_inv :: "('a \<Rightarrow> int multiset) \<Rightarrow> nat \<Rightarrow> nat \<Rightarrow> nat \<Rightarrow> 'a \<Rightarrow> (tid \<Rightarrow> ('o, int resp) status) \<Rightarrow> int \<Rightarrow>
    (tid \<Rightarrow> bag_loc) \<Rightarrow> bool" where
  "bag_inv bag pushers n per a st c loc \<longleftrightarrow>
     bag a + (\<Sum>t<n. held (loc t) (st t)) = (\<Sum>t<n. given per t (loc t) (st t)) \<and>
     c = (\<Sum>t<n. counted (loc t)) \<and> (\<forall>t. bag_shape pushers n per c t (loc t)) \<and> pushers \<le> n"

lemma bag_invD:
  assumes "bag_inv bag pushers n per a st c loc"
  shows "bag a + (\<Sum>t<n. held (loc t) (st t)) = (\<Sum>t<n. given per t (loc t) (st t))"
    and "c = (\<Sum>t<n. counted (loc t))" and "bag_shape pushers n per c t (loc t)" and "pushers \<le> n"
  using assms unfolding bag_inv_def by blast+

lemma sum_change:
  fixes f :: "nat \<Rightarrow> 'm :: comm_monoid_add"
  assumes "t < n" and "\<And>u. u \<noteq> t \<Longrightarrow> f' u = f u" and "f' t = f t + d"
  shows "sum f' {..<n} = sum f {..<n} + d"
proof -
  have e: "sum h {..<n} = h t + sum h ({..<n} - {t})" for h :: "nat \<Rightarrow> 'm" using assms(1) by (simp add: sum.remove)
  have "sum f' ({..<n} - {t}) = sum f ({..<n} - {t})" by (rule sum.cong) (use assms(2) in auto)
  then show ?thesis unfolding e [of f'] e [of f] using assms(3) by (simp add: ac_simps)
qed

lemma bag_shape_mono: "bag_shape pushers n per c t l \<Longrightarrow> c \<le> c' \<Longrightarrow> bag_shape pushers n per c' t l"
  by (cases l) auto

text \<open>A goroutine moves, which changes what it has inserted by \<open>dg\<close>, removed by \<open>dh\<close> and counted by \<open>dc\<close>.\<close>

lemma bag_inv_upd:
  assumes I: "bag_inv bag pushers n per a st c loc" and t: "t < n" and s: "bag_shape pushers n per (c + dc) t l" and dc: "0 \<le> dc"
    and g: "given per t l x = given per t (loc t) (st t) + dg" and h: "held l x = held (loc t) (st t) + dh"
    and k: "counted l = counted (loc t) + dc" and b: "bag a' + dh = bag a + dg"
  shows "bag_inv bag pushers n per a' (st(t := x)) (c + dc) (loc(t := l))"
proof -
  let ?st = "st(t := x)" and ?loc = "loc(t := l)"
  have H: "(\<Sum>u<n. held (?loc u) (?st u)) = (\<Sum>u<n. held (loc u) (st u)) + dh"
    by (rule sum_change [OF t]) (use h in simp_all)
  have G: "(\<Sum>u<n. given per u (?loc u) (?st u)) = (\<Sum>u<n. given per u (loc u) (st u)) + dg"
    by (rule sum_change [OF t]) (use g in simp_all)
  have K: "(\<Sum>u<n. counted (?loc u)) = c + dc"
    unfolding bag_invD(2) [OF I] by (rule sum_change [OF t]) (use k in simp_all)
  have S: "bag_shape pushers n per (c + dc) u (?loc u)" for u
    using s dc bag_shape_mono [OF bag_invD(3) [OF I, of u], of "c + dc"] by simp
  have B: "bag a' + ((\<Sum>u<n. held (loc u) (st u)) + dh) = (\<Sum>u<n. given per u (loc u) (st u)) + dg"
    using b bag_invD(1) [OF I] by (metis (no_types, lifting) add.assoc add.commute)
  show ?thesis unfolding bag_inv_def H G K using B S bag_invD(4) [OF I] by blast
qed

text \<open>What the test needs to know of the object.\<close>

locale bag_object =
  fixes spec :: "'a \<Rightarrow> 'o \<Rightarrow> 'a \<times> int resp" and bag :: "'a \<Rightarrow> int multiset"
    and push :: "nat \<Rightarrow> nat \<Rightarrow> int \<Rightarrow> 'o" and pop :: "nat \<Rightarrow> 'o"
  assumes push_bag: "spec a (push p i v) = (a', r) \<Longrightarrow> bag a' = add_mset v (bag a)"
    and pop_bag: "spec a (pop c) = (a', r) \<Longrightarrow> bag a' + removed (Done r) = bag a"
begin

lemma bag_keeps:
  "keeps (conservation pushers poppers per push pop) spec (bag_inv bag pushers (pushers + poppers) per)"
proof (rule keepsI)
  fix a c loc t op and st :: "tid \<Rightarrow> ('o, int resp) status"
  let ?n = "pushers + poppers"
  assume I: "bag_inv bag pushers ?n per a st c loc" and q: "st t = Quiet"
    and e: "next_act (conservation pushers poppers per push pop) t (loc t) = Invoke op"
  have s: "bag_shape pushers ?n per c t (loc t)" by (rule bag_invD(3) [OF I])
  then have t: "t < ?n" using e by (cases "loc t") auto
  have "bag_inv bag pushers ?n per a (st(t := Wait op {})) (c + 0) (loc(t := loc t))"
    by (rule bag_inv_upd [OF I t, where dg = "{#}" and dh = "{#}"]) (use s q in \<open>cases "loc t"; simp\<close>)+
  then show "bag_inv bag pushers ?n per a (st(t := Wait op {})) c loc" by simp
next
  fix a c loc t op a' r and st :: "tid \<Rightarrow> ('o, int resp) status"
  let ?n = "pushers + poppers"
  assume I: "bag_inv bag pushers ?n per a st c loc" and q: "st t = Wait op {}"
    and e: "next_act (conservation pushers poppers per push pop) t (loc t) = Invoke op" and sp: "spec a op = (a', r)"
  have s: "bag_shape pushers ?n per c t (loc t)" by (rule bag_invD(3) [OF I])
  then have t: "t < ?n" using e by (cases "loc t") auto
  have "bag_inv bag pushers ?n per a' (st(t := Done r)) (c + 0) (loc(t := loc t))"
  proof (cases "loc t")
    case (Pushing i)
    then have "op = push t i (int (t * per + i))" using e by (auto split: if_splits)
    then have "bag a' = add_mset (int (t * per + i)) (bag a)" using push_bag sp by simp
    then show ?thesis
      by (intro bag_inv_upd [OF I t, where dg = "{#int (t * per + i)#}" and dh = "{#}"])
        (use Pushing s q in simp_all)
  next
    case (Popping mine)
    then have "op = pop (t - pushers)" using e by simp
    then have "bag a' + removed (Done r) = bag a" using pop_bag sp by simp
    then show ?thesis
      by (intro bag_inv_upd [OF I t, where dg = "{#}" and dh = "removed (Done r)"])
        (use Popping s q in simp_all)
  qed (use e in auto)
  then show "bag_inv bag pushers ?n per a' (st(t := Done r)) c loc" by simp
next
  fix a c loc t op r and st :: "tid \<Rightarrow> ('o, int resp) status"
  let ?n = "pushers + poppers"
  assume I: "bag_inv bag pushers ?n per a st c loc" and q: "st t = Done r"
    and e: "next_act (conservation pushers poppers per push pop) t (loc t) = Invoke op"
  have s: "bag_shape pushers ?n per c t (loc t)" by (rule bag_invD(3) [OF I])
  then have t: "t < ?n" using e by (cases "loc t") auto
  have "bag_inv bag pushers ?n per a (st(t := Quiet)) (c + 0) (loc(t := bag_recv t (loc t) r))"
    by (rule bag_inv_upd [OF I t, where dg = "{#}" and dh = "{#}"])
      (use s q e in \<open>cases "loc t"; simp split: option.splits if_splits\<close>)+
  then show "bag_inv bag pushers ?n per a (st(t := Quiet)) c
      (loc(t := recv (conservation pushers poppers per push pop) t (loc t) r))" by simp
next
  fix a c loc t c' l and st :: "tid \<Rightarrow> ('o, int resp) status"
  let ?n = "pushers + poppers"
  assume I: "bag_inv bag pushers ?n per a st c loc" and q: "st t = Quiet"
    and e: "next_act (conservation pushers poppers per push pop) t (loc t) = Access"
    and ac: "access (conservation pushers poppers per push pop) t c (loc t) = (c', l)"
  have s: "bag_shape pushers ?n per c t (loc t)" by (rule bag_invD(3) [OF I])
  then have t: "t < ?n" using e by (cases "loc t") (auto split: if_splits)
  have "bag_inv bag pushers ?n per a (st(t := Quiet)) (c + (c' - c)) (loc(t := l))"
  proof (cases "loc t")
    case (Counting taken)
    then have "c' = c + 1" "l = Popping taken" using ac by simp_all
    then show ?thesis using s q Counting by (intro bag_inv_upd [OF I t, where dg = "{#}" and dh = "{#}"]) simp_all
  next
    case (Loading taken)
    then have "c' = c" "l = (if c \<ge> int (pushers * per) then PopDone taken else Popping taken)" using ac by auto
    then show ?thesis using s q Loading
      by (intro bag_inv_upd [OF I t, where dg = "{#}" and dh = "{#}"]) (simp_all split: if_splits)
  qed (use e in \<open>simp_all split: if_splits\<close>)
  then show "bag_inv bag pushers ?n per a st c' (loc(t := l))" using q by (simp add: fun_upd_idem)
qed

lemma bag_init:
  assumes "bag a0 = {#}"
  shows "bag_inv bag pushers (pushers + poppers) per a0 (\<lambda>_. Quiet :: ('o, int resp) status) (shared0 (conservation pushers poppers per push pop))
    (local0 (conservation pushers poppers per push pop))"
proof -
  let ?l = "local0 (conservation pushers poppers per push pop)"
  have z: "held (?l t) (Quiet :: ('o, int resp) status) = {#}" "given per t (?l t) (Quiet :: ('o, int resp) status) = {#}" "counted (?l t) = 0"
    "bag_shape pushers (pushers + poppers) per 0 t (?l t)" for t by (simp_all add: conservation_def)
  show ?thesis unfolding bag_inv_def using z assms by simp
qed

end

lemma mset_pop:
  assumes "a \<noteq> []"
  shows "add_mset (hd a) (mset (tl a)) = mset a" "add_mset (last a) (mset (butlast a)) = mset a"
  using assms by (cases a, simp_all) (cases a rule: rev_cases, simp_all)

subsection \<open>The check\<close>

lemma ints_add: "ints (m + n) = ints m @ map (\<lambda>j. int (m + j)) [0..<n]"
  by (rule nth_equalityI) (auto simp: ints_def nth_append)

lemma mset_ints: "(\<Sum>t<p. mset (map (\<lambda>j. int (t * per + j)) [0..<per])) = mset (ints (p * per))"
proof (induction p)
  case (Suc p)
  have "ints (Suc p * per) = ints (p * per) @ map (\<lambda>j. int (p * per + j)) [0..<per]"
    using ints_add [of "p * per" per] by (simp add: add.commute)
  then show ?case using Suc by (simp only: sum.lessThan_Suc mset_append)
qed (simp add: ints_def)

lemma size_sum: "int (size (\<Sum>t<n. f t)) = (\<Sum>t<n. int (size (f t)))"
  for f :: "nat \<Rightarrow> 'x multiset"
  by (induction n) simp_all

lemma sum_held: "(\<Sum>t \<leftarrow> ts. mset (bag_result (loc t))) = mset (concat (map (\<lambda>t. bag_result (loc t)) ts))"
  by (induction ts) auto

lemma tally_mset: "mset (concat results) = mset (ints n) \<Longrightarrow> tally_ok n results"
proof -
  assume m: "mset (concat results) = mset (ints n)"
  then have s: "set (concat results) = set (ints n)" "length (concat results) = n"
    using mset_eq_setD [OF m] mset_eq_length [OF m] by (simp_all add: ints_def)
  have "distinct (ints n)" by (simp add: ints_def distinct_map)
  then have "count_list (concat results) v = 1" if "v \<in> set (ints n)" for v
    using that m by (metis count_mset distinct_count_atmost_1)
  moreover have "\<not> (v < 0 \<or> v \<ge> int n)" if "v \<in> set (concat results)" for v
  proof -
    have "v \<in> set (ints n)" using that s(1) by blast
    then show ?thesis by (auto simp: ints_def)
  qed
  ultimately show ?thesis using s(2) by (simp add: tally_ok_def Let_def list_all_iff)
qed

lemma bag_inv_passes:
  assumes I: "bag_inv bag pushers (pushers + poppers) per a st c loc" and q: "\<And>t. bag_done per (loc t) \<Longrightarrow> st t = Quiet"
    and p: "0 < poppers"
  shows "\<not> conservation_fails pushers poppers per loc"
proof
  let ?n = "pushers + poppers" and ?res = "map (\<lambda>c. bag_result (loc c)) [pushers..<pushers + poppers]"
  assume f: "conservation_fails pushers poppers per loc"
  then have d: "bag_done per (loc t)" if "t < ?n" for t using that by (simp add: conservation_fails_def list_all_iff)
  note s = bag_invD(3) [OF I]
  have push: "loc t = Pushing per" if "t < pushers" for t
    using d [of t] s [of t] that by (cases "loc t") auto
  have pop: "\<exists>m. loc t = PopDone m" if "pushers \<le> t" "t < ?n" for t
    using d [of t] s [of t] that by (cases "loc t") auto
  have quiet: "st t = Quiet" if "t < ?n" for t using q d that by blast
  have g: "given per t (loc t) (st t) = (if t < pushers then mset (map (\<lambda>j. int (t * per + j)) [0..<per]) else {#})"
    if "t < ?n" for t using push [of t] pop [of t] quiet [OF that] that by (cases "t < pushers") auto
  have "{..<?n} = {..<pushers} \<union> {pushers..<?n}" by auto
  then have split: "sum h {..<?n} = sum h {..<pushers} + sum h {pushers..<?n}" for h :: "nat \<Rightarrow> 'm :: comm_monoid_add"
    by (simp add: sum.union_disjoint ivl_disj_int)
  have G: "(\<Sum>t<?n. given per t (loc t) (st t)) = mset (ints (pushers * per))"
  proof -
    have 1: "(\<Sum>t<pushers. given per t (loc t) (st t)) = (\<Sum>t<pushers. mset (map (\<lambda>j. int (t * per + j)) [0..<per]))"
      by (rule sum.cong) (simp_all add: g)
    have 2: "(\<Sum>t = pushers..<?n. given per t (loc t) (st t)) = {#}" by (rule sum.neutral) (simp add: g)
    show ?thesis unfolding split 1 2 mset_ints by simp
  qed
  have H: "(\<Sum>t<?n. held (loc t) (st t)) = mset (concat ?res)"
  proof -
    have "(\<Sum>t<pushers. held (loc t) (st t)) = {#}" by (rule sum.neutral) (simp add: push)
    moreover have "(\<Sum>t = pushers..<?n. held (loc t) (st t)) = (\<Sum>t = pushers..<?n. mset (bag_result (loc t)))"
      by (rule sum.cong) (use pop in fastforce)+
    moreover have "(\<Sum>t = pushers..<?n. mset (bag_result (loc t))) = mset (concat ?res)"
      unfolding sum_held [symmetric] by (simp add: sum_list_distinct_conv_sum_set)
    ultimately show ?thesis unfolding split by simp
  qed
  have "c = int (size (mset (concat ?res)))"
  proof -
    have "counted (loc t) = int (size (held (loc t) (st t)))" if "t < ?n" for t
      using push [of t] pop [of t] that by (cases "t < pushers") auto
    then have "c = (\<Sum>t<?n. int (size (held (loc t) (st t))))" using bag_invD(2) [OF I] by simp
    also have "\<dots> = int (size (\<Sum>t<?n. held (loc t) (st t)))" by (simp only: size_sum)
    finally show ?thesis unfolding H .
  qed
  moreover obtain m where "loc pushers = PopDone m" using pop [of pushers] p by auto
  then have "int (pushers * per) \<le> c" using s [of pushers] p by simp
  ultimately have "pushers * per \<le> size (mset (concat ?res))" by (metis of_nat_le_iff)
  then have "size (mset (ints (pushers * per))) \<le> size (mset (concat ?res))" by (simp add: ints_def)
  moreover have e: "bag a + mset (concat ?res) = mset (ints (pushers * per))" using bag_invD(1) [OF I] unfolding G H .
  then have "size (bag a) + size (mset (concat ?res)) = size (mset (ints (pushers * per)))" by (metis size_union)
  ultimately have "size (bag a) = 0" by linarith
  then have "bag a = {#}" by simp
  then have "tally_ok (pushers * per) ?res" using e by (intro tally_mset) simp
  then show False using f by (simp add: conservation_fails_def)
qed

lemma bag_done_quiet:
  assumes "calling (conservation pushers poppers per push pop) st loc" and "bag_done per (loc t)"
  shows "st t = Quiet"
proof -
  have "called (conservation pushers poppers per push pop) t (loc t) (st t)" using assms(1) by (simp add: calling_def)
  moreover have "bag_act pushers per push pop t (loc t) = Finished" using assms(2) by (cases "loc t") auto
  ultimately show ?thesis by (cases "st t") auto
qed

definition bag_joins :: "nat \<Rightarrow> tid \<Rightarrow> bag_loc \<Rightarrow> bool" where
  "bag_joins n t l \<longleftrightarrow> t < n"

context bag_object
begin

lemma conservation_passes:
  assumes "conforming M spec a0" and "bag a0 = {#}" and "0 < poppers"
  shows "\<not> test_fails (conservation_fails pushers poppers per) (play M (conservation pushers poppers per push pop) sched)"
  by (rule test_passes [OF assms(1) bag_keeps bag_init [OF assms(2)]])
    (rule bag_inv_passes [OF _ _ assms(3)], assumption, rule bag_done_quiet)

lemma conservation_passes_handles:
  assumes "conforming_handles M n spec a0" and "bag a0 = {#}" and "0 < poppers" and "pushers + poppers \<le> n"
  shows "\<not> test_fails_handles (conservation_fails pushers poppers per)
    (play M (with_handles (bag_joins (pushers + poppers)) (conservation pushers poppers per push pop)) sched)"
  by (rule test_passes_handles [OF assms(1) bag_keeps bag_init [OF assms(2)]])
    (use assms(4) in \<open>simp add: bag_joins_def\<close>, rule bag_inv_passes [OF _ _ assms(3)], assumption, rule bag_done_quiet)

end

end
