(* ===== verification/Conform_Machines.thy ===== *)
theory Conform_Machines
  imports Conform_Conservation Ms_Queue St_Facts Kp_Facts Elimination_Facts Wf_Objects
begin

text \<open>
  The implementations that the conformance suite of \<open>internal/conformtest\<close> is run against: every one satisfies the
  contract \<open>conforming\<close>, and the sequential objects satisfy the contract of the conservation tests.
\<close>

subsection \<open>Every call ends with a response\<close>

lemma stack_returns: "returns stack_machine"
proof -
  have "snd (stack_step s t p) \<noteq> Idle" for s :: "'a lf_stack" and t p
    by (cases p) (simp_all add: stack_step_def split: option.splits)
  then show ?thesis by (simp add: returns_def)
qed

lemma queue_returns: "returns (queue_machine zero)"
proof -
  have "snd (queue_step s t p) \<noteq> Idle" for s :: "'a lf_queue" and t p
    by (cases p) (simp_all add: queue_step_def split: option.splits)
  then show ?thesis by (simp add: returns_def)
qed

lemma elim_not_idle [simp]: "spin_or_withdraw s sd j k i \<noteq> Idle" "exchanged sd v ok \<noteq> Idle" "embed x = Idle \<longleftrightarrow> x = Idle"
  by (simp add: spin_or_withdraw_def, cases sd, simp_all) (cases x, simp_all)

lemma elim_returns: "returns (elim_machine n m rand)"
proof -
  have "snd (central_step rand s t p) \<noteq> Idle" for s :: "'a elim_stack" and t p
  proof -
    have "snd (stack_step (central s) t p) \<noteq> Idle" using stack_returns [where 'a = 'a] by (simp add: returns_def)
    then show ?thesis by (cases "stack_step (central s) t p") (simp add: central_step_def split: option.splits)
  qed
  moreover have "snd (exchange_step s p) \<noteq> Idle" for s :: "'a elim_stack" and p
    by (cases p) (simp_all split: option.splits exState.splits)
  ultimately have "snd (elim_step rand s t p) \<noteq> Idle" for s :: "'a elim_stack" and t p
    by (cases p) (simp_all add: elim_step_def del: exchange_step.simps)
  then show ?thesis by (simp add: returns_def)
qed

lemma de_not_idle [simp]:
  "ins_return s iu node \<noteq> Idle" "del_return u \<noteq> Idle" "del_loop u node prev nxt lst \<noteq> Idle" "mark_return mu node \<noteq> Idle"
  "(\<And>l. f l \<noteq> Idle) \<Longrightarrow> at_ptr r f \<noteq> Idle"
proof -
  show d: "del_return u \<noteq> Idle" for u by (cases u) simp_all
  show "ins_return s iu node \<noteq> Idle" by (cases iu) simp_all
  show "del_loop u node prev nxt lst \<noteq> Idle" by (simp add: del_loop_def d)
  show "mark_return mu node \<noteq> Idle" by (cases mu) simp_all
  show "(\<And>l. f l \<noteq> Idle) \<Longrightarrow> at_ptr r f \<noteq> Idle" by (cases r) simp_all
qed

lemma de_steps_not_idle:
  "snd (mark_step mu node s mp) \<noteq> Idle" "snd (del_step u node s dp) \<noteq> Idle" "snd (ins_step iu node s ip) \<noteq> Idle"
  "snd (push_front_step node s lp) \<noteq> Idle" "snd (push_back_step node s rp) \<noteq> Idle" "snd (common_step node nxt s cp) \<noteq> Idle"
  "snd (pop_front_step s fp) \<noteq> Idle" "snd (pop_back_step s bp) \<noteq> Idle"
proof -
  show "snd (mark_step mu node s mp) \<noteq> Idle" by (cases mp) (simp_all split: option.splits cas_load.splits)
  show "snd (del_step u node s dp) \<noteq> Idle" by (cases dp) (simp_all split: option.splits cas_load.splits)
  show "snd (ins_step iu node s ip) \<noteq> Idle" by (cases ip) (simp_all split: option.splits cas_load.splits)
  show "snd (push_front_step node s lp) \<noteq> Idle" by (cases lp) (simp_all split: option.splits cas_load.splits)
  show "snd (push_back_step node s rp) \<noteq> Idle" by (cases rp) (simp_all split: option.splits cas_load.splits)
  show "snd (common_step node nxt s cp) \<noteq> Idle" by (cases cp) (simp_all split: option.splits cas_load.splits)
  show "snd (pop_front_step s fp) \<noteq> Idle" by (cases fp) (simp_all split: option.splits cas_load.splits)
  show "snd (pop_back_step s bp) \<noteq> Idle" by (cases bp) (simp_all split: option.splits cas_load.splits)
qed

lemma de_returns: "returns (de_machine s0)"
proof -
  have "snd (de_step s t p) \<noteq> Idle" for s :: "'a lf_deque" and t p
    by (cases p) (simp_all only: de_step.simps de_steps_not_idle not_False_eq_True)
  then show ?thesis by (simp add: returns_def)
qed

lemma kp_resume [simp]: "resume oper n k \<noteq> Idle" "lift_help i oper ph x = Idle \<longleftrightarrow> x = Idle"
  by (cases k; simp split: queue_op.splits) (cases x, simp_all)

lemma kp_at_slot [simp]: "(\<And>d. snd (f d) \<noteq> Idle) \<Longrightarrow> snd (at_slot s j f) \<noteq> Idle"
  by (simp add: at_slot_def)

lemma kp_steps_not_idle:
  "snd (enq_help_step oper ph j s ep) \<noteq> Idle" "snd (fin_enq_step oper k s np) \<noteq> Idle"
  "snd (deq_help_step oper ph j s dp) \<noteq> Idle" "snd (fin_deq_step oper k s mp) \<noteq> Idle"
proof -
  show "snd (enq_help_step oper ph j s ep) \<noteq> Idle" by (cases ep) simp_all
  show "snd (fin_enq_step oper k s np) \<noteq> Idle" by (cases np) (simp_all split: option.splits)
  show "snd (deq_help_step oper ph j s dp) \<noteq> Idle" by (cases dp) (simp_all split: prod.splits)
  show "snd (fin_deq_step oper k s mp) \<noteq> Idle" by (cases mp) (simp_all add: Let_def split: option.splits)
qed

lemma kp_help_not_idle: "snd (help_step i oper ph s p) \<noteq> Idle"
  using kp_steps_not_idle by (cases p) (simp_all split: option.splits)

lemma kp_returns: "returns (kp_machine s0)"
proof -
  have "snd (kp_step s t p) \<noteq> Idle" for s :: "'a kp_queue" and t p
  proof (cases p)
    case (Help i oper ph q)
    then show ?thesis using kp_help_not_idle [of i oper ph s q] by (cases "help_step i oper ph s q") simp
  qed (simp_all add: Let_def split: queue_op.splits)
  then show ?thesis by (simp add: returns_def)
qed

lemma uc_returns:
  fixes app :: "'s \<Rightarrow> 'o \<Rightarrow> ('s \<times> 'r) option"
  shows "returns (uc_machine app s0)"
proof -
  have a: "snd (reg_step s t p) \<noteq> Idle" "snd (scan_step s i m q) \<noteq> Idle" "snd (loop_step s i m q) \<noteq> Idle"
    "snd (publish_step app s i m q) \<noteq> Idle" "snd (finish_step s i m q) \<noteq> Idle"
    for s :: "('o, 's, 'r) universal" and t p i m q
  proof -
    show "snd (reg_step s t p) \<noteq> Idle" by (cases p) (simp_all add: Let_def split: option.splits)
    show "snd (scan_step s i m q) \<noteq> Idle" by (cases q) (simp_all add: Let_def split: option.splits)
    show "snd (loop_step s i m q) \<noteq> Idle" by (cases q) (simp_all add: Let_def split: option.splits)
    show "snd (publish_step app s i m q) \<noteq> Idle" by (cases q) (simp_all add: Let_def split: option.splits)
    show "snd (finish_step s i m q) \<noteq> Idle" by (cases q) (simp_all add: Let_def split: option.splits)
  qed
  have "snd (app_step app s i m p) \<noteq> Idle" for s :: "('o, 's, 'r) universal" and i m p
    by (cases p) (simp_all only: app_step.simps a not_False_eq_True)
  then have "snd (uc_step app s t p) \<noteq> Idle" for s :: "('o, 's, 'r) universal" and t p
    by (cases p) (simp_all only: uc_step.simps a not_False_eq_True)
  then show ?thesis by (simp add: returns_def)
qed

subsection \<open>The contracts\<close>

interpretation treiber_test: conforming stack_machine stack_spec "[]"
  using treiber.linearizable treiber.no_panic stack_returns by unfold_locales (simp_all add: stack_abs_def)

interpretation elim_test: conforming "elim_machine (Suc n) m rand" stack_spec "[]" for n m rand
  by unfold_locales
    (rule sim_machine.linearizable [OF elim_sim], simp, rule elim_returns, rule sim_machine.no_panic [OF elim_sim], simp)

interpretation msq_test: conforming "queue_machine zero" queue_spec "[]" for zero
  using msq.linearizable [of zero] msq.no_panic [of zero] queue_returns
  by unfold_locales (simp_all add: queue_abs_def queue_ghost0_def)

interpretation st_test: conforming "de_machine (NewLfDeque zero)" deque_spec "[]" for zero
  by unfold_locales (rule st.poss_linearizable, rule de_returns, rule st.poss_no_panic)

text \<open>The wait-free objects, for any positive number of participants.\<close>

lemma new_positive:
  "NewWfStack (Suc n) = Some (the (NewWfStack (Suc n)))" "NewDeque (Suc n) = Some (the (NewDeque (Suc n)))"
  "NewMap (Suc n) = Some (the (NewMap (Suc n)))" "NewKpQueue zero (Suc n) = Some (the (NewKpQueue zero (Suc n)))"
  by (simp_all add: NewWfStack_def NewDeque_def NewMap_def NewUniversal_def NewKpQueue_def)

interpretation wf_stack_test: conforming_handles "wf_stack_machine (the (NewWfStack (Suc n)))" "Suc n" stack_spec "[]" for n
proof unfold_locales
  note S = wf_stack_sim [OF new_positive(1) [of n]]
  show "linearizable (uc_spec (Suc n) stack_spec) ([], 0) (history (wf_stack_machine (the (NewWfStack (Suc n)))) acts)" for acts
    by (rule sim_machine.linearizable [OF S])
  show "snd (run (wf_stack_machine (the (NewWfStack (Suc n)))) acts) t \<noteq> Panic" for acts t
    by (rule sim_machine.no_panic [OF S])
qed (simp only: wf_machines uc_returns)

interpretation wf_deque_test: conforming_handles "wf_deque_machine (the (NewDeque (Suc n)))" "Suc n" deque_spec "[]" for n
proof unfold_locales
  note S = wf_deque_sim [OF new_positive(2) [of n]]
  show "linearizable (uc_spec (Suc n) deque_spec) ([], 0) (history (wf_deque_machine (the (NewDeque (Suc n)))) acts)" for acts
    by (rule sim_machine.linearizable [OF S])
  show "snd (run (wf_deque_machine (the (NewDeque (Suc n)))) acts) t \<noteq> Panic" for acts t
    by (rule sim_machine.no_panic [OF S])
qed (simp only: wf_machines uc_returns)

interpretation wf_map_test: conforming_handles "wf_map_machine (<) (the (NewMap (Suc n)))" "Suc n"
    "map_spec ((<) :: int \<Rightarrow> int \<Rightarrow> bool)" "\<lambda>_. None" for n
proof unfold_locales
  note S = wf_map_sim [OF new_positive(3) [of n] strict_weak_int]
  show "linearizable (uc_spec (Suc n) (map_spec (<))) (\<lambda>_. None, 0)
      (history (wf_map_machine ((<) :: int \<Rightarrow> int \<Rightarrow> bool) (the (NewMap (Suc n)))) acts)" for acts
    by (rule sim_machine.linearizable [OF S])
  show "snd (run (wf_map_machine ((<) :: int \<Rightarrow> int \<Rightarrow> bool) (the (NewMap (Suc n)))) acts) t \<noteq> Panic" for acts t
    by (rule sim_machine.no_panic [OF S])
qed (simp only: wf_machines uc_returns)

interpretation kp_test: conforming_handles "kp_machine (the (NewKpQueue zero (Suc n)))" "Suc n" queue_spec "[]" for zero n
proof unfold_locales
  note S = kp_sim [OF new_positive(4) [of zero n]]
  show "linearizable (uc_spec (Suc n) queue_spec) ([], 0) (history (kp_machine (the (NewKpQueue zero (Suc n)))) acts)" for acts
    by (rule sim_machine.linearizable [OF S])
  show "snd (run (kp_machine (the (NewKpQueue zero (Suc n)))) acts) t \<noteq> Panic" for acts t
    by (rule sim_machine.no_panic [OF S])
qed (rule kp_returns)

text \<open>The sequential objects keep a bag of values.\<close>

interpretation stack_bag: bag_object stack_spec mset "\<lambda>p i. Push" "\<lambda>c. Pop"
  by unfold_locales (auto split: list.splits)

interpretation queue_bag: bag_object queue_spec mset "\<lambda>p i. Enqueue" "\<lambda>c. Dequeue"
  by unfold_locales (auto split: list.splits)

interpretation deque_bag: bag_object deque_spec mset
    "\<lambda>p i. if (p + i) mod 2 = 0 then PushFront else PushBack" "\<lambda>c. if c mod 2 = 0 then PopFront else PopBack"
  by unfold_locales (auto simp: mset_pop split: list.splits if_splits)

end
