(* ===== verification/Conform_Fifo.thy ===== *)
theory Conform_Fifo
  imports Conform_Sequential "HOL-Library.Signed_Division"
begin

text \<open>
  The \<open>ConcurrentFIFO\<close> test of \<open>internal/conformtest\<close>: many producers and one consumer, which checks that the values of
  every producer come out in the order they went in.
\<close>

subsection \<open>The test\<close>

text \<open>
  Goroutines below \<open>producers\<close> are the producers, in their loop at \<open>s\<close>. Goroutine \<open>producers\<close> is the test itself: in
  the loop with \<open>got\<close> and \<open>last\<close>, up to \<open>wg.Wait\<close>; about to dequeue once more; or at an end. The shared state is the
  counter of the wait group. An index out of the range of \<open>last\<close> panics.
\<close>

datatype fifo_loc = Producing nat | Produced | Consuming nat "int list" | Draining | FifoPassed | FifoFailed | FifoPanic

fun fifo_act :: "nat \<Rightarrow> nat \<Rightarrow> tid \<Rightarrow> fifo_loc \<Rightarrow> int queue_op act" where
  "fifo_act producers per t (Producing s) = (if s < per then Invoke (Enqueue (int (t * per + s))) else Access)"
| "fifo_act producers per t (Consuming n lst) = (if n < producers * per then Invoke Dequeue else Access)"
| "fifo_act producers per t Draining = Invoke Dequeue"
| "fifo_act producers per t l = Finished"

definition fifo_check :: "nat \<Rightarrow> nat \<Rightarrow> int list \<Rightarrow> int \<Rightarrow> fifo_loc" where
  "fifo_check per n lst v =
     (let p = v sdiv int per; s = v smod int per
      in if p < 0 \<or> p \<ge> int (length lst) then FifoPanic
         else if s \<noteq> lst ! nat p + 1 then FifoFailed
         else Consuming (n + 1) (lst[nat p := s]))"

fun fifo_recv :: "nat \<Rightarrow> tid \<Rightarrow> fifo_loc \<Rightarrow> int resp \<Rightarrow> fifo_loc" where
  "fifo_recv per t (Producing s) r = Producing (s + 1)"
| "fifo_recv per t (Consuming n lst) r =
     (case got r of None \<Rightarrow> Consuming n lst | Some v \<Rightarrow> fifo_check per n lst v)"
| "fifo_recv per t Draining r = (if got r \<noteq> None then FifoFailed else FifoPassed)"
| "fifo_recv per t l r = l"

text \<open>\<open>wg.Done()\<close> and \<open>wg.Wait()\<close>.\<close>

fun fifo_access :: "tid \<Rightarrow> nat \<Rightarrow> fifo_loc \<Rightarrow> nat \<times> fifo_loc" where
  "fifo_access t wg (Producing s) = (wg - 1, Produced)"
| "fifo_access t wg (Consuming n lst) = (wg, if wg = 0 then Draining else Consuming n lst)"
| "fifo_access t wg l = (wg, l)"

definition fifo :: "nat \<Rightarrow> nat \<Rightarrow> (nat, fifo_loc, int queue_op, int resp) prog" where
  "fifo producers per =
     \<lparr>shared0 = producers,
      local0 = (\<lambda>t. if t < producers then Producing 0 else if t = producers then Consuming 0 (replicate producers (-1)) else Produced),
      next_act = fifo_act producers per, recv = fifo_recv per, access = fifo_access\<rparr>"

definition queueConcurrentFIFO :: "(nat, fifo_loc, int queue_op, int resp) prog" where
  "queueConcurrentFIFO = fifo 16 4000"

definition fifo_fails :: "nat \<Rightarrow> (tid \<Rightarrow> fifo_loc) \<Rightarrow> bool" where
  "fifo_fails producers loc \<longleftrightarrow> loc producers = FifoFailed \<or> loc producers = FifoPanic"

lemma fifo_simps [simp]:
  "shared0 (fifo producers per) = producers" "next_act (fifo producers per) = fifo_act producers per"
  "recv (fifo producers per) = fifo_recv per" "access (fifo producers per) = fifo_access"
  by (simp_all add: fifo_def)

lemma truncated_nonneg:
  assumes "0 \<le> k"
  shows "k sdiv int n = k div int n" and "k smod int n = k mod int n"
  using assms by (auto simp: signed_divide_int_def signed_modulo_int_def sgn_if)

subsection \<open>The queue between producers and consumer\<close>

text \<open>
  \<open>tk p\<close> values of producer \<open>p\<close> have been taken and \<open>sent p\<close> put in. What is in between is in the queue, in order.
\<close>

definition runs :: "nat \<Rightarrow> nat \<Rightarrow> (nat \<Rightarrow> nat) \<Rightarrow> (nat \<Rightarrow> nat) \<Rightarrow> int list \<Rightarrow> bool" where
  "runs producers per tk sent q \<longleftrightarrow> (\<forall>v \<in> set q. 0 \<le> v \<and> v < int (producers * per)) \<and>
     (\<forall>p<producers. tk p \<le> sent p \<and> sent p \<le> per \<and>
        filter (\<lambda>v. v div int per = int p) q = map (\<lambda>s. int (p * per + s)) [tk p..<sent p])"

lemma of_producer:
  assumes "0 \<le> v" and "v < int (producers * per)"
  shows "v div int per = int (nat (v div int per))" and "nat (v div int per) < producers"
proof -
  define n where "n = nat v"
  have n: "v = int n" using assms(1) by (simp add: n_def)
  then have "n div per < producers" using assms(2) by (intro less_mult_imp_div_less) linarith
  moreover have "v div int per = int (n div per)" using n by (simp add: zdiv_int)
  ultimately show "v div int per = int (nat (v div int per))" "nat (v div int per) < producers" by simp_all
qed

lemma runs_send:
  assumes "runs producers per tk sent q" and "t < producers" and "sent t < per"
  shows "runs producers per tk (sent(t := sent t + 1)) (q @ [int (t * per + sent t)])"
proof -
  have "t * per + sent t < producers * per" using assms(2,3) by (rule encoded_bound)
  then show ?thesis using assms unfolding runs_def
    by (auto simp: encoded simp del: of_nat_add of_nat_mult)
qed

lemma runs_take:
  assumes r: "runs producers per tk sent (v # q)"
  obtains p where "p < producers" and "v = int (p * per + tk p)" and "tk p < per"
    and "runs producers per (tk(p := tk p + 1)) sent q"
proof -
  let ?p = "nat (v div int per)"
  have v: "0 \<le> v" "v < int (producers * per)" using r by (simp_all add: runs_def)
  note p = of_producer [OF v]
  have f: "filter (\<lambda>v. v div int per = int ?p) (v # q) = map (\<lambda>s. int (?p * per + s)) [tk ?p..<sent ?p]" "sent ?p \<le> per"
    using r p(2) unfolding runs_def by blast+
  then have lt: "tk ?p < sent ?p" using p(1) by (cases "tk ?p < sent ?p") simp_all
  have "v # filter (\<lambda>v. v div int per = int ?p) q = map (\<lambda>s. int (?p * per + s)) (tk ?p # [Suc (tk ?p)..<sent ?p])"
    using f(1) p(1) lt by (simp add: upt_conv_Cons)
  then have e: "v = int (?p * per + tk ?p)"
    "filter (\<lambda>v. v div int per = int ?p) q = map (\<lambda>s. int (?p * per + s)) [Suc (tk ?p)..<sent ?p]" by simp_all
  have "runs producers per (tk(?p := tk ?p + 1)) sent q"
    unfolding runs_def
  proof (intro conjI allI impI)
    fix u assume u: "u < producers"
    have o: "tk u \<le> sent u" "sent u \<le> per"
      "filter (\<lambda>v. v div int per = int u) (v # q) = map (\<lambda>s. int (u * per + s)) [tk u..<sent u]"
      using r u unfolding runs_def by blast+
    show "(tk(?p := tk ?p + 1)) u \<le> sent u" using o lt by simp
    show "sent u \<le> per" by (rule o)
    show "filter (\<lambda>v. v div int per = int u) q = map (\<lambda>s. int (u * per + s)) [(tk(?p := tk ?p + 1)) u..<sent u]"
    proof (cases "u = ?p")
      case False
      then have "v div int per \<noteq> int u" using p(1) by simp
      then show ?thesis using o(3) False by simp
    qed (use e(2) in simp)
  qed (use r in \<open>simp add: runs_def\<close>)
  then show thesis using that [of ?p] p(2) e(1) lt f(2) by simp
qed

lemma runs_done:
  assumes r: "runs producers per tk sent q" and "\<forall>p<producers. tk p = sent p"
  shows "q = []"
proof (cases q)
  case (Cons v q')
  from r [unfolded Cons] obtain p where "p < producers" "runs producers per (tk(p := tk p + 1)) sent q'"
    by (rule runs_take)
  then have "tk p + 1 \<le> sent p" by (auto simp: runs_def)
  then show ?thesis using assms(2) \<open>p < producers\<close> by simp
qed

subsection \<open>The invariant\<close>

fun sent_by :: "nat \<Rightarrow> fifo_loc \<Rightarrow> ('o, 'r) status \<Rightarrow> nat" where
  "sent_by per (Producing s) x = s + (case x of Done r \<Rightarrow> 1 | _ \<Rightarrow> 0)"
| "sent_by per l x = per"

fun fifo_pending :: "('o, int resp) status \<Rightarrow> int list" where
  "fifo_pending (Done r) = (case got r of Some v \<Rightarrow> [v] | None \<Rightarrow> [])"
| "fifo_pending x = []"

fun main_ok :: "nat \<Rightarrow> nat \<Rightarrow> (nat \<Rightarrow> nat) \<Rightarrow> bool \<Rightarrow> int list \<Rightarrow> fifo_loc \<Rightarrow> bool" where
  "main_ok producers per sent over q (Consuming n lst) =
     (\<exists>tk. lst = map (\<lambda>p. int (tk p) - 1) [0..<producers] \<and> n = (\<Sum>p<producers. tk p) \<and> runs producers per tk sent q)"
| "main_ok producers per sent over q Draining = (q = [] \<and> over)"
| "main_ok producers per sent over q FifoPassed = True"
| "main_ok producers per sent over q l = False"

fun producer_ok :: "nat \<Rightarrow> fifo_loc \<Rightarrow> bool" where
  "producer_ok per (Producing s) = (s \<le> per)"
| "producer_ok per l = (l = Produced)"

definition fifo_inv :: "nat \<Rightarrow> nat \<Rightarrow> int list \<Rightarrow> (tid \<Rightarrow> (int queue_op, int resp) status) \<Rightarrow> nat \<Rightarrow> (tid \<Rightarrow> fifo_loc) \<Rightarrow> bool" where
  "fifo_inv producers per a st wg loc \<longleftrightarrow>
     main_ok producers per (\<lambda>t. sent_by per (loc t) (st t)) (\<forall>t<producers. loc t = Produced)
       (fifo_pending (st producers) @ a) (loc producers) \<and>
     (\<forall>t. t \<noteq> producers \<longrightarrow> producer_ok per (loc t)) \<and> (\<forall>t>producers. loc t = Produced) \<and>
     wg = card {t. t < producers \<and> loc t \<noteq> Produced}"

lemma fifo_invD:
  assumes "fifo_inv producers per a st wg loc"
  shows "main_ok producers per (\<lambda>t. sent_by per (loc t) (st t)) (\<forall>t<producers. loc t = Produced)
      (fifo_pending (st producers) @ a) (loc producers)"
    and "t \<noteq> producers \<Longrightarrow> producer_ok per (loc t)" and "t > producers \<Longrightarrow> loc t = Produced"
    and "wg = card {t. t < producers \<and> loc t \<noteq> Produced}"
  using assms unfolding fifo_inv_def by blast+

lemma main_ok_sent:
  assumes "main_ok producers per sent over q l" and "over \<Longrightarrow> over'"
    and "\<And>tk. runs producers per tk sent q \<Longrightarrow> runs producers per tk sent' q'" and "over \<Longrightarrow> q' = q"
  shows "main_ok producers per sent' over' q' l"
  using assms by (cases l) auto

text \<open>What does not change a goroutine's contribution keeps the invariant.\<close>

lemma fifo_inv_upd:
  assumes I: "fifo_inv producers per a st wg loc" and l: "l = loc t \<or> (t < producers \<and> l \<noteq> Produced \<and> loc t \<noteq> Produced \<and> producer_ok per l)"
    and s: "sent_by per l x = sent_by per (loc t) (st t)" and p: "t = producers \<Longrightarrow> fifo_pending x @ a' = fifo_pending (st t) @ a"
    and a: "t \<noteq> producers \<Longrightarrow> a' = a"
  shows "fifo_inv producers per a' (st(t := x)) wg (loc(t := l))"
proof -
  have S: "(\<lambda>u. sent_by per ((loc(t := l)) u) ((st(t := x)) u)) = (\<lambda>u. sent_by per (loc u) (st u))" using s by (simp add: fun_eq_iff)
  have L: "((loc(t := l)) u = Produced) = (loc u = Produced)" for u using l by auto
  have M: "(loc(t := l)) producers = loc producers" using l by auto
  have Q: "fifo_pending ((st(t := x)) producers) @ a' = fifo_pending (st producers) @ a" using p a by (cases "t = producers") auto
  have O: "producer_ok per ((loc(t := l)) u)" if "u \<noteq> producers" for u using l fifo_invD(2) [OF I that] by auto
  show ?thesis unfolding fifo_inv_def S L M Q using O fifo_invD(1,3,4) [OF I] by blast
qed

lemma fifo_enqueued:
  assumes I: "fifo_inv producers per a st wg loc" and t: "t < producers" "loc t = Producing s" "s < per" and q: "st t = Wait op {}"
  shows "fifo_inv producers per (a @ [int (t * per + s)]) (st(t := Done r)) wg loc"
proof -
  let ?sent = "\<lambda>u. sent_by per (loc u) (st u)"
  have S: "(\<lambda>u. sent_by per (loc u) ((st(t := Done r)) u)) = ?sent(t := ?sent t + 1)" "?sent t = s"
    using t q by (simp_all add: fun_eq_iff)
  have Q: "fifo_pending ((st(t := Done r)) producers) @ a @ [int (t * per + s)] = (fifo_pending (st producers) @ a) @ [int (t * per + ?sent t)]"
    using t(1) S(2) by simp
  have "main_ok producers per (?sent(t := ?sent t + 1)) (\<forall>t<producers. loc t = Produced)
      ((fifo_pending (st producers) @ a) @ [int (t * per + ?sent t)]) (loc producers)"
  proof (rule main_ok_sent [OF fifo_invD(1) [OF I]])
    show "runs producers per tk (?sent(t := ?sent t + 1)) ((fifo_pending (st producers) @ a) @ [int (t * per + ?sent t)])"
      if "runs producers per tk ?sent (fifo_pending (st producers) @ a)" for tk
      by (rule runs_send [OF that t(1)]) (use S(2) t(3) in simp)
  qed (use t in auto)
  then show ?thesis unfolding fifo_inv_def S(1) Q using fifo_invD(2-4) [OF I] by blast
qed

lemma fifo_dequeued:
  assumes I: "fifo_inv producers per a st wg loc" and l: "loc producers = Consuming n lst" and q: "st producers = Done (Got (Some v))"
  shows "fifo_inv producers per a (st(producers := Quiet)) wg (loc(producers := fifo_check per n lst v))"
proof -
  let ?sent = "\<lambda>u. sent_by per (loc u) (st u)"
  have "main_ok producers per ?sent (\<forall>t<producers. loc t = Produced) (v # a) (Consuming n lst)"
    using fifo_invD(1) [OF I] l q by simp
  then obtain tk where tk: "lst = map (\<lambda>p. int (tk p) - 1) [0..<producers]" "n = (\<Sum>p<producers. tk p)"
    "runs producers per tk ?sent (v # a)" by auto
  from tk(3) obtain p where p: "p < producers" "v = int (p * per + tk p)" "tk p < per"
    "runs producers per (tk(p := tk p + 1)) ?sent a" by (rule runs_take)
  have d: "v sdiv int per = int p" "v smod int per = int (tk p)"
    using encoded [OF p(3), of p] truncated_nonneg [of v per] p(2) by simp_all
  have "lst[p := int (tk p)] = map (\<lambda>u. int ((tk(p := tk p + 1)) u) - 1) [0..<producers]"
    using tk(1) p(1) by (auto intro!: nth_equalityI simp: nth_list_update)
  moreover have "(\<Sum>u<producers. (tk(p := tk p + 1)) u) = n + 1"
    using p(1) by (simp add: tk(2) sum.remove [of "{..<producers}" p])
  moreover have c: "fifo_check per n lst v = Consuming (n + 1) (lst[p := int (tk p)])"
    using p(1) tk(1) by (simp add: fifo_check_def d)
  moreover have S: "(\<lambda>u. sent_by per ((loc(producers := fifo_check per n lst v)) u) ((st(producers := Quiet)) u)) = ?sent"
    using c l by (simp add: fun_eq_iff)
  ultimately have "main_ok producers per (\<lambda>u. sent_by per ((loc(producers := fifo_check per n lst v)) u) ((st(producers := Quiet)) u))
      (\<forall>t<producers. loc t = Produced) a (fifo_check per n lst v)" using p(4) by (metis main_ok.simps(1))
  moreover have "((loc(producers := fifo_check per n lst v)) t = Produced) = (loc t = Produced)" for t using l c by simp
  ultimately show ?thesis unfolding fifo_inv_def using fifo_invD(2-4) [OF I] by simp
qed

lemma fifo_finished:
  assumes I: "fifo_inv producers per a st wg loc" and t: "t < producers" "loc t = Producing s" "s = per" and q: "st t = Quiet"
  shows "fifo_inv producers per a st (wg - 1) (loc(t := Produced))"
proof -
  have S: "(\<lambda>u. sent_by per ((loc(t := Produced)) u) (st u)) = (\<lambda>u. sent_by per (loc u) (st u))"
    using t q by (simp add: fun_eq_iff)
  have W: "wg - 1 = card {u. u < producers \<and> (loc(t := Produced)) u \<noteq> Produced}"
    unfolding fifo_invD(4) [OF I] by (rule wait_group_done) (use t in auto)
  have "main_ok producers per (\<lambda>u. sent_by per (loc u) (st u)) (\<forall>u<producers. (loc(t := Produced)) u = Produced)
      (fifo_pending (st producers) @ a) (loc producers)" by (rule main_ok_sent [OF fifo_invD(1) [OF I]]) simp_all
  then show ?thesis unfolding fifo_inv_def S W [symmetric] using fifo_invD(2,3) [OF I] t(1) by simp
qed

lemma fifo_waited:
  assumes I: "fifo_inv producers per a st 0 loc" and l: "loc producers = Consuming n lst" "\<not> n < producers * per"
    and q: "st producers = Quiet"
  shows "fifo_inv producers per a st 0 (loc(producers := Draining))"
proof -
  have over: "loc t = Produced" if "t < producers" for t using fifo_invD(4) [OF I] that by simp
  obtain tk where tk: "n = (\<Sum>p<producers. tk p)" "runs producers per tk (\<lambda>u. sent_by per (loc u) (st u)) a"
    using fifo_invD(1) [OF I] l(1) q by auto
  have le: "tk p \<le> per" if "p < producers" for p using tk(2) that by (meson le_trans runs_def)
  have "tk p = per" if p: "p < producers" for p
  proof (rule ccontr)
    assume "tk p \<noteq> per"
    then have "tk p < per" using le [OF p] by simp
    then have "(\<Sum>p<producers. tk p) < (\<Sum>p<producers. per)" using p le by (intro sum_strict_mono_ex1) auto
    then show False using l(2) tk(1) by simp
  qed
  then have "a = []" using over by (intro runs_done [OF tk(2)]) simp
  then show ?thesis unfolding fifo_inv_def using fifo_invD(2-4) [OF I] over q by simp
qed

lemma fifo_role:
  assumes I: "fifo_inv producers per a st wg loc" and n: "fifo_act producers per t (loc t) \<noteq> Finished"
  obtains s where "t < producers" and "loc t = Producing s" and "s \<le> per"
    | n lst where "t = producers" and "loc t = Consuming n lst"
    | "t = producers" and "loc t = Draining"
proof (cases t producers rule: linorder_cases)
  case less
  then show thesis using fifo_invD(2) [OF I, of t] n that(1) by (cases "loc t") auto
next
  case equal
  then show thesis using fifo_invD(1) [OF I] n that(2,3) by (cases "loc t") auto
next
  case greater
  then show thesis using fifo_invD(3) [OF I, of t] n by simp
qed

lemma fifo_keeps: "keeps (fifo producers per) queue_spec (fifo_inv producers per)"
proof (rule keepsI; unfold fifo_simps)
  fix a wg loc t op and st :: "tid \<Rightarrow> (int queue_op, int resp) status"
  assume I: "fifo_inv producers per a st wg loc" and q: "st t = Quiet" and e: "fifo_act producers per t (loc t) = Invoke op"
  have "sent_by per (loc t) (Wait op {} :: (int queue_op, int resp) status) = sent_by per (loc t) (st t)"
    using q by (cases "loc t") simp_all
  then have "fifo_inv producers per a (st(t := Wait op {})) wg (loc(t := loc t))"
    by (intro fifo_inv_upd [OF I]) (use q in simp_all)
  then show "fifo_inv producers per a (st(t := Wait op {})) wg loc" by simp
next
  fix a wg loc t op a' r and st :: "tid \<Rightarrow> (int queue_op, int resp) status"
  assume I: "fifo_inv producers per a st wg loc" and q: "st t = Wait op {}" and e: "fifo_act producers per t (loc t) = Invoke op"
    and sp: "queue_spec a op = (a', r)"
  then have n: "fifo_act producers per t (loc t) \<noteq> Finished" by simp
  have main: "fifo_inv producers per a' (st(t := Done r)) wg loc" if "t = producers" "op = Dequeue" "\<And>s. loc t \<noteq> Producing s"
  proof -
    have "sent_by per (loc t) (Done r :: (int queue_op, int resp) status) = sent_by per (loc t) (st t)"
      using that(3) by (cases "loc t") auto
    then have "fifo_inv producers per a' (st(t := Done r)) wg (loc(t := loc t))"
      by (intro fifo_inv_upd [OF I]) (use that q sp in \<open>auto split: list.splits\<close>)
    then show ?thesis by simp
  qed
  from I n show "fifo_inv producers per a' (st(t := Done r)) wg loc"
  proof (cases rule: fifo_role)
    case (1 s)
    then have "s < per" "op = Enqueue (int (t * per + s))" using e by (auto split: if_splits)
    then show ?thesis using fifo_enqueued [OF I 1(1,2) _ q] sp by simp
  qed (use main e in \<open>auto split: if_splits\<close>)
next
  fix a wg loc t op r and st :: "tid \<Rightarrow> (int queue_op, int resp) status"
  assume I: "fifo_inv producers per a st wg loc" and q: "st t = Done r" and e: "fifo_act producers per t (loc t) = Invoke op"
  then have n: "fifo_act producers per t (loc t) \<noteq> Finished" by simp
  from I n show "fifo_inv producers per a (st(t := Quiet)) wg (loc(t := fifo_recv per t (loc t) r))"
  proof (cases rule: fifo_role)
    case (1 s)
    then have "s < per" using e by (auto split: if_splits)
    then show ?thesis by (intro fifo_inv_upd [OF I]) (use 1 q in simp_all)
  next
    case (2 k lst)
    show ?thesis
    proof (cases "got r")
      case None
      then show ?thesis by (intro fifo_inv_upd [OF I]) (use 2 q in simp_all)
    next
      case (Some v)
      then have "r = Got (Some v)" by (cases r) simp_all
      then show ?thesis using fifo_dequeued [OF I, of k lst v] 2 q Some by simp
    qed
  next
    case 3
    then have g: "got r = None" using fifo_invD(1) [OF I] q by (auto split: option.splits)
    have "{u. u < producers \<and> (loc(t := FifoPassed)) u \<noteq> Produced} = {u. u < producers \<and> loc u \<noteq> Produced}" using 3(1) by auto
    then have "fifo_inv producers per a (st(t := Quiet)) wg (loc(t := FifoPassed))"
      unfolding fifo_inv_def using fifo_invD(2-4) [OF I] 3(1) by simp
    then show ?thesis using 3 g by simp
  qed
next
  fix a wg loc t wg' l and st :: "tid \<Rightarrow> (int queue_op, int resp) status"
  assume I: "fifo_inv producers per a st wg loc" and q: "st t = Quiet" and e: "fifo_act producers per t (loc t) = Access"
    and ac: "fifo_access t wg (loc t) = (wg', l)"
  then have n: "fifo_act producers per t (loc t) \<noteq> Finished" by simp
  from I n show "fifo_inv producers per a st wg' (loc(t := l))"
  proof (cases rule: fifo_role)
    case (1 s)
    then show ?thesis using fifo_finished [OF I 1(1,2) _ q] e ac by (auto split: if_splits)
  next
    case (2 k lst)
    then show ?thesis
      using fifo_waited [of producers per a st loc k lst] I q e ac by (auto simp: fun_upd_idem split: if_splits)
  qed (use e in simp)
qed

lemma fifo_init: "fifo_inv producers per [] (\<lambda>_. Quiet) (shared0 (fifo producers per)) (local0 (fifo producers per))"
proof -
  let ?l = "local0 (fifo producers per)"
  have "runs producers per (\<lambda>_. 0) (\<lambda>t. sent_by per (?l t) (Quiet :: (int queue_op, int resp) status)) []"
    by (simp add: runs_def fifo_def)
  moreover have "replicate producers (-1) = map (\<lambda>p. int ((\<lambda>_. 0) p) - 1) [0..<producers]" by (simp add: map_replicate_const)
  moreover have "(0 :: nat) = (\<Sum>p<producers. (\<lambda>_. 0) p)" by simp
  ultimately have "main_ok producers per (\<lambda>t. sent_by per (?l t) (Quiet :: (int queue_op, int resp) status)) over []
      (Consuming 0 (replicate producers (-1)))" for over
    unfolding main_ok.simps by (intro exI [of _ "\<lambda>_. 0"] conjI)
  moreover have "?l producers = Consuming 0 (replicate producers (-1))" by (simp add: fifo_def)
  moreover have "{t. t < producers \<and> ?l t \<noteq> Produced} = {..<producers}" by (auto simp: fifo_def)
  moreover have "producer_ok per (?l t)" "t > producers \<Longrightarrow> ?l t = Produced" if "t \<noteq> producers" for t
    using that by (simp_all add: fifo_def)
  ultimately show ?thesis unfolding fifo_inv_def by simp
qed

lemma fifo_inv_passes: "fifo_inv producers per a st wg loc \<Longrightarrow> \<not> fifo_fails producers loc"
  using fifo_invD(1) [of producers per a st wg loc] by (auto simp: fifo_fails_def)

definition fifo_joins :: "nat \<Rightarrow> tid \<Rightarrow> fifo_loc \<Rightarrow> bool" where
  "fifo_joins producers t l \<longleftrightarrow> t \<le> producers"

lemma fifo_passes:
  assumes "conforming M queue_spec []"
  shows "\<not> test_fails (fifo_fails producers) (play M (fifo producers per) sched)"
  by (rule test_passes [OF assms fifo_keeps fifo_init fifo_inv_passes])

lemma fifo_passes_handles:
  assumes "conforming_handles M n queue_spec []" and "producers < n"
  shows "\<not> test_fails_handles (fifo_fails producers) (play M (with_handles (fifo_joins producers) (fifo producers per)) sched)"
  by (rule test_passes_handles [OF assms(1) fifo_keeps fifo_init _ fifo_inv_passes]) (use assms(2) in \<open>simp add: fifo_joins_def\<close>)

end
