(* ===== verification/Conform_Disjoint.thy ===== *)
theory Conform_Disjoint
  imports Conform_Sequential
begin

text \<open>
  The \<open>ConcurrentDisjoint\<close> test of \<open>internal/conformtest\<close>: every worker sets the keys of its own range and deletes the
  even offsets; then the odd offsets have to be there and the even ones not.
\<close>

subsection \<open>The test\<close>

text \<open>
  Goroutines below \<open>workers\<close> are the workers, in one of their two loops at \<open>i\<close>. Goroutine \<open>workers\<close> is the test itself:
  waiting, or in the nested loops with the pairs \<open>(w, i)\<close> still to be checked.
\<close>

datatype disj_loc = Setting nat | Deleting nat | Worked | Awaiting | Reading "(nat \<times> nat) list" | DisjFailed

definition set_loop :: "nat \<Rightarrow> nat \<Rightarrow> disj_loc" where
  "set_loop per i = (if i < per then Setting i else Deleting 0)"

definition all_pairs :: "nat \<Rightarrow> nat \<Rightarrow> (nat \<times> nat) list" where
  "all_pairs workers per = concat (map (\<lambda>w. map (\<lambda>i. (w, i)) [0..<per]) [0..<workers])"

fun disj_act :: "nat \<Rightarrow> tid \<Rightarrow> disj_loc \<Rightarrow> (int, int) map_op act" where
  "disj_act per t (Setting i) = Invoke (SetKey (int (t * per + i)) (int (t * per + i)))"
| "disj_act per t (Deleting i) = (if i < per then Invoke (DelKey (int (t * per + i))) else Access)"
| "disj_act per t Awaiting = Access"
| "disj_act per t (Reading ((w, i) # ps)) = Invoke (GetKey (int (w * per + i)))"
| "disj_act per t l = Finished"

fun disj_recv :: "nat \<Rightarrow> tid \<Rightarrow> disj_loc \<Rightarrow> int resp \<Rightarrow> disj_loc" where
  "disj_recv per t (Setting i) r = set_loop per (i + 1)"
| "disj_recv per t (Deleting i) r = Deleting (i + 2)"
| "disj_recv per t (Reading ((w, i) # ps)) r =
     (if i mod 2 = 1 then (if got r = None \<or> got r \<noteq> Some (int (w * per + i)) then DisjFailed else Reading ps)
      else if got r \<noteq> None then DisjFailed else Reading ps)"
| "disj_recv per t l r = l"

fun disj_access :: "nat \<Rightarrow> nat \<Rightarrow> tid \<Rightarrow> nat \<Rightarrow> disj_loc \<Rightarrow> nat \<times> disj_loc" where
  "disj_access workers per t wg (Deleting i) = (wg - 1, Worked)"
| "disj_access workers per t wg Awaiting = (wg, if wg = 0 then Reading (all_pairs workers per) else Awaiting)"
| "disj_access workers per t wg l = (wg, l)"

definition disjoint :: "nat \<Rightarrow> nat \<Rightarrow> (nat, disj_loc, (int, int) map_op, int resp) prog" where
  "disjoint workers per =
     \<lparr>shared0 = workers,
      local0 = (\<lambda>t. if t < workers then set_loop per 0 else if t = workers then Awaiting else Worked),
      next_act = disj_act per, recv = disj_recv per, access = disj_access workers per\<rparr>"

definition mapConcurrentDisjoint :: "(nat, disj_loc, (int, int) map_op, int resp) prog" where
  "mapConcurrentDisjoint = disjoint 8 300"

text \<open>The workers take their handle first, the test itself after the wait.\<close>

definition disj_joins :: "nat \<Rightarrow> tid \<Rightarrow> disj_loc \<Rightarrow> bool" where
  "disj_joins workers t l \<longleftrightarrow> t < workers \<or> t = workers \<and> l \<noteq> Awaiting"

lemma disjoint_simps [simp]:
  "shared0 (disjoint workers per) = workers" "next_act (disjoint workers per) = disj_act per"
  "recv (disjoint workers per) = disj_recv per" "access (disjoint workers per) = disj_access workers per"
  by (simp_all add: disjoint_def)

subsection \<open>The invariant\<close>

text \<open>Whether offset \<open>i\<close> of a worker's range is in the map.\<close>

fun has_key :: "disj_loc \<Rightarrow> ('o, 'r) status \<Rightarrow> nat \<Rightarrow> bool" where
  "has_key (Setting j) s i = (i < j \<or> i = j \<and> (\<exists>r. s = Done r))"
| "has_key (Deleting j) s i = (odd i \<or> \<not> (i < j \<or> i = j \<and> (\<exists>r. s = Done r)))"
| "has_key l s i = odd i"

fun worker_ok :: "nat \<Rightarrow> disj_loc \<Rightarrow> bool" where
  "worker_ok per (Setting i) = (i < per)"
| "worker_ok per (Deleting i) = even i"
| "worker_ok per l = (l = Worked)"

fun reader_ok :: "nat \<Rightarrow> nat \<Rightarrow> bool \<Rightarrow> (int \<Rightarrow> int option) \<Rightarrow> disj_loc \<Rightarrow> ('o, int resp) status \<Rightarrow> bool" where
  "reader_ok workers per over a Awaiting s = (s = Quiet)"
| "reader_ok workers per over a (Reading ps) s = (over \<and> (\<forall>(w, i) \<in> set ps. w < workers \<and> i < per) \<and>
     (case s of Done r \<Rightarrow> (case ps of (w, i) # _ \<Rightarrow> got r = a (int (w * per + i)) | [] \<Rightarrow> False) | _ \<Rightarrow> True))"
| "reader_ok workers per over a l s = False"

definition disj_inv :: "nat \<Rightarrow> nat \<Rightarrow> (int \<Rightarrow> int option) \<Rightarrow> (tid \<Rightarrow> ((int, int) map_op, int resp) status) \<Rightarrow> nat \<Rightarrow>
    (tid \<Rightarrow> disj_loc) \<Rightarrow> bool" where
  "disj_inv workers per a st wg loc \<longleftrightarrow>
     (\<forall>t<workers. \<forall>i<per. a (int (t * per + i)) = (if has_key (loc t) (st t) i then Some (int (t * per + i)) else None)) \<and>
     (\<forall>t. t \<noteq> workers \<longrightarrow> worker_ok per (loc t)) \<and> (\<forall>t>workers. loc t = Worked) \<and>
     reader_ok workers per (\<forall>t<workers. loc t = Worked) a (loc workers) (st workers) \<and>
     wg = card {t. t < workers \<and> loc t \<noteq> Worked}"

lemma disj_invD:
  assumes "disj_inv workers per a st wg loc"
  shows "t < workers \<Longrightarrow> i < per \<Longrightarrow>
      a (int (t * per + i)) = (if has_key (loc t) (st t) i then Some (int (t * per + i)) else None)"
    and "t \<noteq> workers \<Longrightarrow> worker_ok per (loc t)" and "t > workers \<Longrightarrow> loc t = Worked"
    and "reader_ok workers per (\<forall>t<workers. loc t = Worked) a (loc workers) (st workers)"
    and "wg = card {t. t < workers \<and> loc t \<noteq> Worked}"
  using assms unfolding disj_inv_def by blast+

lemma disj_role:
  assumes I: "disj_inv workers per a st wg loc" and n: "disj_act per t (loc t) \<noteq> Finished"
  obtains i where "t < workers" and "loc t = Setting i" and "i < per"
    | i where "t < workers" and "loc t = Deleting i" and "even i"
    | "t = workers" and "loc t = Awaiting"
    | w i ps where "t = workers" and "loc t = Reading ((w, i) # ps)" and "w < workers" and "i < per"
proof (cases t workers rule: linorder_cases)
  case less
  then show thesis using disj_invD(2) [OF I, of t] n that(1,2) by (cases "loc t") auto
next
  case equal
  have r: "reader_ok workers per (\<forall>t<workers. loc t = Worked) a (loc t) (st t)" using disj_invD(4) [OF I] equal by simp
  show thesis
  proof (cases "loc t")
    case (Reading ps)
    then show thesis using r n equal that(4) by (cases ps) auto
  qed (use r n equal that(3) in auto)
next
  case greater
  then show thesis using disj_invD(3) [OF I, of t] n by simp
qed

text \<open>A worker changes at most one key of its range.\<close>

lemma disj_worker:
  assumes I: "disj_inv workers per a st wg loc" and t: "t < workers" and l: "worker_ok per l" "l \<noteq> Worked" "loc t \<noteq> Worked"
    and o: "\<And>k. a' k \<noteq> a k \<Longrightarrow> \<exists>i<per. k = int (t * per + i)"
    and k: "\<And>i. i < per \<Longrightarrow> a' (int (t * per + i)) = (if has_key l x i then Some (int (t * per + i)) else None)"
  shows "disj_inv workers per a' (st(t := x)) wg (loc(t := l))"
proof -
  have same: "a' (int (u * per + i)) = a (int (u * per + i))" if "u \<noteq> t" "i < per" for u i
    using o [of "int (u * per + i)"] that encoded_eq [of i per] by metis
  have L: "((loc(t := l)) u = Worked) = (loc u = Worked)" for u using l by simp
  have nover: "\<not> (\<forall>t<workers. loc t = Worked)" using t l by blast
  then have "reader_ok workers per (\<forall>t<workers. loc t = Worked) a' (loc workers) (st workers)"
    using disj_invD(4) [OF I] by (cases "loc workers") auto
  moreover have "a' (int (u * per + i)) =
      (if has_key ((loc(t := l)) u) ((st(t := x)) u) i then Some (int (u * per + i)) else None)" if "u < workers" "i < per" for u i
    using k [OF that(2)] disj_invD(1) [OF I that] same [OF _ that(2), of u] by (cases "u = t") simp_all
  ultimately show ?thesis unfolding disj_inv_def L using disj_invD(2,3,5) [OF I] t l(1) by simp
qed

lemma disj_finished:
  assumes I: "disj_inv workers per a st wg loc" and t: "t < workers" "loc t = Deleting i" "\<not> i < per" and q: "st t = Quiet"
  shows "disj_inv workers per a st (wg - 1) (loc(t := Worked))"
proof -
  have W: "wg - 1 = card {u. u < workers \<and> (loc(t := Worked)) u \<noteq> Worked}"
    unfolding disj_invD(5) [OF I] by (rule wait_group_done) (use t in auto)
  have "\<not> (\<forall>t<workers. loc t = Worked)" using t by (auto intro!: exI [of _ t])
  then have "reader_ok workers per (\<forall>u<workers. (loc(t := Worked)) u = Worked) a (loc workers) (st workers)"
    using disj_invD(4) [OF I] by (cases "loc workers") auto
  moreover have "a (int (u * per + i')) = (if has_key ((loc(t := Worked)) u) (st u) i' then Some (int (u * per + i')) else None)"
    if "u < workers" "i' < per" for u i'
    using disj_invD(1) [OF I that] t q that(2) by (cases "u = t") auto
  ultimately show ?thesis unfolding disj_inv_def W [symmetric] using disj_invD(2,3) [OF I] t(1) by simp
qed

lemma disj_main:
  assumes I: "disj_inv workers per a st wg loc" and l: "reader_ok workers per (\<forall>t<workers. loc t = Worked) a l x"
  shows "disj_inv workers per a (st(workers := x)) wg (loc(workers := l))"
proof -
  have L: "t < workers \<Longrightarrow> (loc(workers := l)) t = loc t" for t by simp
  have S: "{t. t < workers \<and> (loc(workers := l)) t \<noteq> Worked} = {t. t < workers \<and> loc t \<noteq> Worked}" by auto
  show ?thesis unfolding disj_inv_def S using disj_invD(1-3,5) [OF I] l by (simp add: L)
qed

lemma set_loop_ok: "worker_ok per (set_loop per i)" "set_loop per i \<noteq> Worked"
  "i' < per \<Longrightarrow> has_key (set_loop per (i + 1)) (Quiet :: ('o, 'r) status) i' \<longleftrightarrow> i + 1 \<ge> per \<or> i' \<le> i"
  by (auto simp: set_loop_def)

lemma disj_keeps: "keeps (disjoint workers per) (map_spec (<)) (disj_inv workers per)"
proof (rule keepsI; unfold disjoint_simps)
  fix a wg loc t op and st :: "tid \<Rightarrow> ((int, int) map_op, int resp) status"
  assume I: "disj_inv workers per a st wg loc" and q: "st t = Quiet" and e: "disj_act per t (loc t) = Invoke op"
  then have n: "disj_act per t (loc t) \<noteq> Finished" by simp
  from I n have "disj_inv workers per a (st(t := Wait op {})) wg (loc(t := loc t))"
  proof (cases rule: disj_role)
    case (1 i)
    then show ?thesis using disj_invD(1) [OF I 1(1)] q by (intro disj_worker [OF I 1(1)]) auto
  next
    case (2 i)
    then show ?thesis using disj_invD(1) [OF I 2(1)] q by (intro disj_worker [OF I 2(1)]) auto
  next
    case 4
    then show ?thesis using disj_main [OF I, of "loc t" "Wait op {}"] disj_invD(4) [OF I] by simp
  qed (use e in simp)
  then show "disj_inv workers per a (st(t := Wait op {})) wg loc" by simp
next
  fix a wg loc t op a' r and st :: "tid \<Rightarrow> ((int, int) map_op, int resp) status"
  assume I: "disj_inv workers per a st wg loc" and q: "st t = Wait op {}" and e: "disj_act per t (loc t) = Invoke op"
    and sp: "map_spec (<) a op = (a', r)"
  then have n: "disj_act per t (loc t) \<noteq> Finished" by simp
  from I n have "disj_inv workers per a' (st(t := Done r)) wg (loc(t := loc t))"
  proof (cases rule: disj_role)
    case (1 i)
    then have a': "a' = a(int (t * per + i) := Some (int (t * per + i)))" using e sp by (auto simp del: map_spec.simps of_nat_add of_nat_mult)
    show ?thesis
    proof (rule disj_worker [OF I 1(1)])
      show "\<exists>i<per. k = int (t * per + i)" if "a' k \<noteq> a k" for k using that 1(3) by (auto simp: a' split: if_splits)
      show "a' (int (t * per + j)) = (if has_key (loc t) (Done r) j then Some (int (t * per + j)) else None)" if "j < per" for j
        using disj_invD(1) [OF I 1(1) that] 1(2) q encoded_eq [OF that 1(3), of t t]
        by (auto simp: a' simp del: of_nat_add of_nat_mult)
    qed (use 1 in simp_all)
  next
    case (2 i)
    then have i: "i < per" and a': "a' = a(int (t * per + i) := None)" using e sp by (auto simp del: map_spec.simps of_nat_add of_nat_mult split: if_splits)
    show ?thesis
    proof (rule disj_worker [OF I 2(1)])
      show "\<exists>i<per. k = int (t * per + i)" if "a' k \<noteq> a k" for k using that i by (auto simp: a' split: if_splits)
      show "a' (int (t * per + j)) = (if has_key (loc t) (Done r) j then Some (int (t * per + j)) else None)" if "j < per" for j
        using disj_invD(1) [OF I 2(1) that] 2(2,3) q encoded_eq [OF that i, of t t]
        by (auto simp: a' simp del: of_nat_add of_nat_mult)
    qed (use 2 in simp_all)
  next
    case (4 w i ps)
    then have "a' = a" "r = Got (a (int (w * per + i)))" using e sp by auto
    then show ?thesis using disj_main [OF I, of "Reading ((w, i) # ps)" "Done r"] disj_invD(4) [OF I] 4 q by simp
  qed (use e in simp)
  then show "disj_inv workers per a' (st(t := Done r)) wg loc" by simp
next
  fix a wg loc t op r and st :: "tid \<Rightarrow> ((int, int) map_op, int resp) status"
  assume I: "disj_inv workers per a st wg loc" and q: "st t = Done r" and e: "disj_act per t (loc t) = Invoke op"
  then have n: "disj_act per t (loc t) \<noteq> Finished" by simp
  from I n show "disj_inv workers per a (st(t := Quiet)) wg (loc(t := disj_recv per t (loc t) r))"
  proof (cases rule: disj_role)
    case (1 i)
    show ?thesis
    proof (rule disj_worker [OF I 1(1)])
      show "a (int (t * per + j)) = (if has_key (disj_recv per t (loc t) r) Quiet j then Some (int (t * per + j)) else None)"
        if "j < per" for j using disj_invD(1) [OF I 1(1) that] 1(2,3) q that set_loop_ok(3) [OF that, of i] by auto
    qed (use 1 set_loop_ok in simp_all)
  next
    case (2 i)
    show ?thesis
    proof (rule disj_worker [OF I 2(1)])
      show "a (int (t * per + j)) = (if has_key (disj_recv per t (loc t) r) Quiet j then Some (int (t * per + j)) else None)"
        if "j < per" for j
      proof -
        have "even j \<Longrightarrow> j < i + 2 \<longleftrightarrow> j \<le> i" using 2(3) by presburger
        then show ?thesis using disj_invD(1) [OF I 2(1) that] 2(2) q by auto
      qed
    qed (use 2 in simp_all)
  next
    case (4 w i ps)
    have R: "(\<forall>t<workers. loc t = Worked)" "got r = a (int (w * per + i))" "\<forall>(w, i) \<in> set ps. w < workers \<and> i < per"
      using disj_invD(4) [OF I] 4 q by simp_all
    have "has_key (loc w) (st w) i = odd i" using R(1) 4(3) by simp
    then have "disj_recv per t (loc t) r = Reading ps"
      using disj_invD(1) [OF I 4(3,4)] R(2) 4(2) by (simp add: odd_iff_mod_2_eq_one)
    then show ?thesis using disj_main [OF I, of "Reading ps" Quiet] R 4(1) by simp
  qed (use e in simp)
next
  fix a wg loc t wg' l and st :: "tid \<Rightarrow> ((int, int) map_op, int resp) status"
  assume I: "disj_inv workers per a st wg loc" and q: "st t = Quiet" and e: "disj_act per t (loc t) = Access"
    and ac: "disj_access workers per t wg (loc t) = (wg', l)"
  then have n: "disj_act per t (loc t) \<noteq> Finished" by simp
  from I n show "disj_inv workers per a st wg' (loc(t := l))"
  proof (cases rule: disj_role)
    case (2 i)
    then show ?thesis using disj_finished [OF I 2(1,2) _ q] e ac by (auto split: if_splits)
  next
    case 3
    have "disj_inv workers per a (st(workers := Quiet)) wg (loc(workers := l))"
    proof (rule disj_main [OF I])
      have "\<forall>t<workers. loc t = Worked" if "wg = 0" using disj_invD(5) [OF I] that by simp
      then show "reader_ok workers per (\<forall>t<workers. loc t = Worked) a l Quiet"
        using ac 3(2) by (auto simp: all_pairs_def split: if_splits)
    qed
    then show ?thesis using 3 q ac by (auto simp: fun_upd_idem)
  qed (use e in simp_all)
qed

lemma disj_init: "disj_inv workers per (\<lambda>_. None) (\<lambda>_. Quiet) (shared0 (disjoint workers per)) (local0 (disjoint workers per))"
proof -
  let ?l = "local0 (disjoint workers per)"
  have "\<not> has_key (?l t) (Quiet :: ((int, int) map_op, int resp) status) i" if "t < workers" "i < per" for t i
    using that by (simp add: disjoint_def set_loop_def)
  moreover have "{t. t < workers \<and> ?l t \<noteq> Worked} = {..<workers}" by (auto simp: disjoint_def set_loop_def)
  moreover have "worker_ok per (?l t)" "t > workers \<Longrightarrow> ?l t = Worked" if "t \<noteq> workers" for t
    using that by (simp_all add: disjoint_def set_loop_ok)
  ultimately show ?thesis unfolding disj_inv_def by (simp add: disjoint_def)
qed

definition disj_fails :: "nat \<Rightarrow> (tid \<Rightarrow> disj_loc) \<Rightarrow> bool" where
  "disj_fails workers loc \<longleftrightarrow> loc workers = DisjFailed"

lemma disj_inv_passes: "disj_inv workers per a st wg loc \<Longrightarrow> \<not> disj_fails workers loc"
  using disj_invD(4) [of workers per a st wg loc] by (auto simp: disj_fails_def)

lemma disj_passes_handles:
  assumes "conforming_handles M n (map_spec (<)) (\<lambda>_ :: int. None :: int option)" and "workers < n"
  shows "\<not> test_fails_handles (disj_fails workers) (play M (with_handles (disj_joins workers) (disjoint workers per)) sched)"
proof (rule test_passes_handles [OF assms(1) disj_keeps])
  show "disj_inv workers per (\<lambda>_. None) (\<lambda>_. Quiet) (shared0 (disjoint workers per)) (local0 (disjoint workers per))"
    by (rule disj_init)
  show "\<forall>t l. disj_joins workers t l \<longrightarrow> t < n" using assms(2) by (auto simp: disj_joins_def)
qed (rule disj_inv_passes)

end
