(* ===== verification/Conform_Near_Empty.thy ===== *)
theory Conform_Near_Empty
  imports Conform_Conservation
begin

text \<open>
  The \<open>NearEmpty\<close> test of \<open>internal/conformtest\<close>: workers that alternate between a push and a pop at ends drawn at
  random, with a counter of the elements under way that must stay between zero and the number of the workers, and a drain
  after which every value seen has been seen once.
\<close>

subsection \<open>The test\<close>

record near_counters =
  live :: int
  maxLive :: int
  waiting :: nat

text \<open>
  A worker is in its turn \<open>i\<close> with \<open>pushed\<close> and \<open>mine\<close>: at \<open>live.Add(1)\<close>, at the two accesses of the loop of \<open>bumpLive\<close> with
  \<open>n\<close> and \<open>m\<close>, at its push, at its pop, at \<open>live.Add(-1)\<close> with the value popped, at \<open>wg.Done\<close> (\<open>NErr\<close> after \<open>t.Errorf\<close>), or
  gone. The test itself waits, reads \<open>maxLive\<close>, drains, reads \<open>live\<close>, or is at an end.
\<close>

datatype near_loc =
    NBump nat nat "int list" | NMaxLoad nat nat "int list" int | NMaxCas nat nat "int list" int int
  | NPush nat nat "int list" | NPop nat nat "int list" | NDec nat nat "int list" int
  | NLeave "int list" | NGone "int list" | NErr | NErrGone
  | NWait | NMax | NDrain nat "int list" | NDrainDec nat "int list" int | NEnd "int list" | NOver "int list" | NFatal

text \<open>The head of the loop over \<open>i\<close>.\<close>

definition near_turn :: "nat \<Rightarrow> nat \<Rightarrow> nat \<Rightarrow> int list \<Rightarrow> near_loc" where
  "near_turn budget i pushed taken =
     (if i < budget then (if i mod 2 = 0 then NBump i pushed taken else NPop i pushed taken) else NLeave taken)"

text \<open>\<open>draw g i\<close> is \<open>rng.IntN(2) == 0\<close> of worker \<open>g\<close> in its turn \<open>i\<close>.\<close>

fun near_act :: "nat \<Rightarrow> (nat \<Rightarrow> nat \<Rightarrow> bool) \<Rightarrow> tid \<Rightarrow> near_loc \<Rightarrow> int deque_op act" where
  "near_act budget draw g (NPush i pushed taken) =
     Invoke (if draw g i then PushFront (int (g * budget + pushed)) else PushBack (int (g * budget + pushed)))"
| "near_act budget draw g (NPop i pushed taken) = Invoke (if draw g i then PopFront else PopBack)"
| "near_act budget draw g (NDrain i drained) = Invoke (if i mod 2 = 0 then PopFront else PopBack)"
| "near_act budget draw g (NGone taken) = Finished"
| "near_act budget draw g NErrGone = Finished"
| "near_act budget draw g (NOver drained) = Finished"
| "near_act budget draw g NFatal = Finished"
| "near_act budget draw g l = Access"

fun near_recv :: "nat \<Rightarrow> tid \<Rightarrow> near_loc \<Rightarrow> int resp \<Rightarrow> near_loc" where
  "near_recv budget g (NPush i pushed taken) r = near_turn budget (i + 1) (pushed + 1) taken"
| "near_recv budget g (NPop i pushed taken) r =
     (case got r of Some v \<Rightarrow> NDec i pushed taken v | None \<Rightarrow> near_turn budget (i + 1) pushed taken)"
| "near_recv budget g (NDrain i drained) r = (case got r of None \<Rightarrow> NEnd drained | Some v \<Rightarrow> NDrainDec i drained v)"
| "near_recv budget g l r = l"

fun near_access :: "nat \<Rightarrow> nat \<Rightarrow> tid \<Rightarrow> near_counters \<Rightarrow> near_loc \<Rightarrow> near_counters \<times> near_loc" where
  "near_access workers budget g c (NBump i pushed taken) =
     (c\<lparr>live := live c + 1\<rparr>, NMaxLoad i pushed taken (live c + 1))"
| "near_access workers budget g c (NMaxLoad i pushed taken n) =
     (c, if n \<le> maxLive c then NPush i pushed taken else NMaxCas i pushed taken n (maxLive c))"
| "near_access workers budget g c (NMaxCas i pushed taken n m) =
     (if maxLive c = m then (c\<lparr>maxLive := n\<rparr>, NPush i pushed taken) else (c, NMaxLoad i pushed taken n))"
| "near_access workers budget g c (NDec i pushed taken v) =
     (c\<lparr>live := live c - 1\<rparr>, if live c - 1 < 0 then NErr else near_turn budget (i + 1) pushed (taken @ [v]))"
| "near_access workers budget g c (NLeave taken) = (c\<lparr>waiting := waiting c - 1\<rparr>, NGone taken)"
| "near_access workers budget g c NErr = (c\<lparr>waiting := waiting c - 1\<rparr>, NErrGone)"
| "near_access workers budget g c NWait = (c, if waiting c = 0 then NMax else NWait)"
| "near_access workers budget g c NMax = (c, if maxLive c > int workers then NFatal else NDrain 0 [])"
| "near_access workers budget g c (NDrainDec i drained v) =
     (c\<lparr>live := live c - 1\<rparr>, if live c - 1 < 0 then NFatal else NDrain (i + 1) (drained @ [v]))"
| "near_access workers budget g c (NEnd drained) = (c, if live c \<noteq> 0 then NFatal else NOver drained)"
| "near_access workers budget g c l = (c, l)"

definition near_empty :: "nat \<Rightarrow> nat \<Rightarrow> (nat \<Rightarrow> nat \<Rightarrow> bool) \<Rightarrow> (near_counters, near_loc, int deque_op, int resp) prog" where
  "near_empty workers budget draw =
     \<lparr>shared0 = \<lparr>live = 0, maxLive = 0, waiting = workers\<rparr>,
      local0 = (\<lambda>g. if g < workers then near_turn budget 0 0 [] else if g = workers then NWait else NGone []),
      next_act = near_act budget draw, recv = near_recv budget, access = near_access workers budget\<rparr>"

definition dequeNearEmpty :: "(nat \<Rightarrow> nat \<Rightarrow> bool) \<Rightarrow> (near_counters, near_loc, int deque_op, int resp) prog" where
  "dequeNearEmpty = near_empty 16 5000"

definition near_joins :: "nat \<Rightarrow> tid \<Rightarrow> near_loc \<Rightarrow> bool" where
  "near_joins workers g l \<longleftrightarrow> g < workers \<or> g = workers \<and> l \<noteq> NWait \<and> l \<noteq> NMax"

text \<open>The entries \<open>results\<close> and the tally \<open>seen\<close>.\<close>

fun near_result :: "near_loc \<Rightarrow> int list" where
  "near_result (NGone taken) = taken"
| "near_result l = []"

definition seen_once :: "int list \<Rightarrow> bool" where
  "seen_once vs = list_all (\<lambda>v. count_list vs v = 1) vs"

definition near_fails :: "nat \<Rightarrow> (tid \<Rightarrow> near_loc) \<Rightarrow> bool" where
  "near_fails workers loc =
     (list_ex (\<lambda>g. loc g = NErr \<or> loc g = NErrGone) [0..<workers] \<or>
      (case loc workers of NFatal \<Rightarrow> True
       | NOver drained \<Rightarrow> \<not> seen_once (concat (map (\<lambda>g. near_result (loc g)) [0..<workers]) @ drained)
       | _ \<Rightarrow> False))"

lemma near_simps [simp]:
  "shared0 (near_empty workers budget draw) = \<lparr>live = 0, maxLive = 0, waiting = workers\<rparr>"
  "next_act (near_empty workers budget draw) = near_act budget draw" "recv (near_empty workers budget draw) = near_recv budget"
  "access (near_empty workers budget draw) = near_access workers budget"
  by (simp_all add: near_empty_def)

subsection \<open>The invariant\<close>

text \<open>
  The values a goroutine holds; whether it is between its \<open>live.Add(1)\<close> and its push or between a pop and its
  \<open>live.Add(-1)\<close>; and whether it has a pop to come for its last push.
\<close>

fun near_held :: "near_loc \<Rightarrow> ('o, int resp) status \<Rightarrow> int multiset" where
  "near_held (NBump i p m) s = mset m"
| "near_held (NMaxLoad i p m n) s = mset m"
| "near_held (NMaxCas i p m n k) s = mset m"
| "near_held (NPush i p m) s = mset m"
| "near_held (NPop i p m) s = mset m + removed s"
| "near_held (NDec i p m v) s = add_mset v (mset m)"
| "near_held (NLeave m) s = mset m"
| "near_held (NGone m) s = mset m"
| "near_held (NDrain i d) s = mset d + removed s"
| "near_held (NDrainDec i d v) s = add_mset v (mset d)"
| "near_held (NEnd d) s = mset d"
| "near_held (NOver d) s = mset d"
| "near_held l s = {#}"

fun answered :: "('o, 'r) status \<Rightarrow> int" where
  "answered (Done r) = 1"
| "answered s = 0"

fun under_way :: "near_loc \<Rightarrow> ('o, int resp) status \<Rightarrow> int" where
  "under_way (NMaxLoad i p m n) s = 1"
| "under_way (NMaxCas i p m n k) s = 1"
| "under_way (NPush i p m) s = 1 - answered s"
| "under_way (NPop i p m) s = int (size (removed s))"
| "under_way (NDec i p m v) s = 1"
| "under_way (NDrain i d) s = int (size (removed s))"
| "under_way (NDrainDec i d v) s = 1"
| "under_way l s = 0"

fun credit :: "near_loc \<Rightarrow> ('o, 'r) status \<Rightarrow> int" where
  "credit (NPush i p m) s = answered s"
| "credit (NPop i p m) s = 1 - answered s"
| "credit (NLeave m) s = 1"
| "credit (NGone m) s = 1"
| "credit l s = 0"

text \<open>How many values a worker may have pushed.\<close>

fun used :: "nat \<Rightarrow> near_loc \<Rightarrow> ('o, 'r) status \<Rightarrow> nat" where
  "used budget (NBump i p m) s = p"
| "used budget (NMaxLoad i p m n) s = p"
| "used budget (NMaxCas i p m n k) s = p"
| "used budget (NPush i p m) s = p + nat (answered s)"
| "used budget (NPop i p m) s = p"
| "used budget (NDec i p m v) s = p"
| "used budget l s = budget"

fun near_worker :: "nat \<Rightarrow> nat \<Rightarrow> near_loc \<Rightarrow> bool" where
  "near_worker workers budget (NBump i p m) = (even i \<and> i < budget \<and> p \<le> i)"
| "near_worker workers budget (NMaxLoad i p m n) = (even i \<and> i < budget \<and> p \<le> i \<and> n \<le> int workers)"
| "near_worker workers budget (NMaxCas i p m n k) = (even i \<and> i < budget \<and> p \<le> i \<and> n \<le> int workers)"
| "near_worker workers budget (NPush i p m) = (even i \<and> i < budget \<and> p \<le> i)"
| "near_worker workers budget (NPop i p m) = (odd i \<and> i < budget \<and> p \<le> i)"
| "near_worker workers budget (NDec i p m v) = (odd i \<and> i < budget \<and> p \<le> i)"
| "near_worker workers budget (NLeave m) = True"
| "near_worker workers budget (NGone m) = True"
| "near_worker workers budget l = False"

fun has_left :: "near_loc \<Rightarrow> bool" where
  "has_left (NGone m) = True"
| "has_left l = False"

fun near_main :: "bool \<Rightarrow> 'v list \<Rightarrow> near_loc \<Rightarrow> ('o, int resp) status \<Rightarrow> bool" where
  "near_main over a NWait s = True"
| "near_main over a NMax s = over"
| "near_main over a (NDrain i d) s = (over \<and> (\<forall>r. s = Done r \<longrightarrow> got r = None \<longrightarrow> a = []))"
| "near_main over a (NDrainDec i d v) s = over"
| "near_main over a (NEnd d) s = (over \<and> a = [])"
| "near_main over a (NOver d) s = (over \<and> a = [])"
| "near_main over a l s = False"

text \<open>All values are different and come from the workers.\<close>

definition near_values :: "nat \<Rightarrow> nat \<Rightarrow> (nat \<Rightarrow> nat) \<Rightarrow> int multiset \<Rightarrow> bool" where
  "near_values workers budget use X \<longleftrightarrow> (\<forall>v \<in># X. \<exists>g<workers. \<exists>j<use g. v = int (g * budget + j)) \<and> (\<forall>v. count X v \<le> 1)"

definition near_inv :: "nat \<Rightarrow> nat \<Rightarrow> int list \<Rightarrow> (tid \<Rightarrow> (int deque_op, int resp) status) \<Rightarrow> near_counters \<Rightarrow>
    (tid \<Rightarrow> near_loc) \<Rightarrow> bool" where
  "near_inv workers budget a st c loc \<longleftrightarrow>
     near_values workers budget (\<lambda>g. used budget (loc g) (st g)) (mset a + (\<Sum>g<workers + 1. near_held (loc g) (st g))) \<and>
     live c = int (length a) + (\<Sum>g<workers + 1. under_way (loc g) (st g)) \<and>
     int (length a) \<le> (\<Sum>g<workers. credit (loc g) (st g)) \<and> maxLive c \<le> int workers \<and>
     waiting c = card {g. g < workers \<and> \<not> has_left (loc g)} \<and>
     (\<forall>g<workers. near_worker workers budget (loc g)) \<and> (\<forall>g>workers. loc g = NGone []) \<and>
     near_main (\<forall>g<workers. has_left (loc g)) a (loc workers) (st workers)"

lemma near_invD:
  assumes "near_inv workers budget a st c loc"
  shows "near_values workers budget (\<lambda>g. used budget (loc g) (st g)) (mset a + (\<Sum>g<workers + 1. near_held (loc g) (st g)))"
    and "live c = int (length a) + (\<Sum>g<workers + 1. under_way (loc g) (st g))"
    and "int (length a) \<le> (\<Sum>g<workers. credit (loc g) (st g))" and "maxLive c \<le> int workers"
    and "waiting c = card {g. g < workers \<and> \<not> has_left (loc g)}"
    and "g < workers \<Longrightarrow> near_worker workers budget (loc g)" and "g > workers \<Longrightarrow> loc g = NGone []"
    and "near_main (\<forall>g<workers. has_left (loc g)) a (loc workers) (st workers)"
  using assms unfolding near_inv_def by blast+

lemma nonneg [simp]: "0 \<le> answered s" "answered s \<le> 1" "0 \<le> credit l s"
proof -
  show "0 \<le> answered s" "answered s \<le> 1" for s :: "('o, 'r) status" by (cases s; simp)+
  then show "0 \<le> credit l s" for s :: "('o, 'r) status" by (cases l) simp_all
qed

lemma under_way_nonneg: "0 \<le> under_way l s"
  by (cases l) simp_all

lemma under_way_credit: "under_way l s + credit l s \<le> 1" if "near_worker workers budget l"
proof -
  have "int (size (removed s)) \<le> answered s" by (cases s) (simp_all split: option.splits)
  then show ?thesis using that by (cases l) simp_all
qed

lemma near_values_mono:
  assumes "near_values workers budget use X" and "\<And>g. g < workers \<Longrightarrow> use g \<le> use' g"
  shows "near_values workers budget use' X"
  using assms unfolding near_values_def by (meson less_le_trans)

lemma near_values_add:
  assumes V: "near_values workers budget use X" and t: "t < workers" "use t < budget" and b: "\<And>g. g < workers \<Longrightarrow> use g \<le> budget"
  shows "near_values workers budget (use(t := use t + 1)) (add_mset (int (t * budget + use t)) X)"
proof -
  have "int (t * budget + use t) \<notin># X"
  proof
    assume "int (t * budget + use t) \<in># X"
    then obtain g j where g: "g < workers" "j < use g" "int (t * budget + use t) = int (g * budget + j)"
      using V unfolding near_values_def by blast
    moreover have "j < budget" using g b [of g] by simp
    ultimately show False using encoded_eq [OF t(2), of j t g] by simp
  qed
  then have "count X (int (t * budget + use t)) = 0" by (simp add: not_in_iff)
  moreover have "\<exists>g<workers. \<exists>j<(use(t := use t + 1)) g. v = int (g * budget + j)" if v: "v \<in># add_mset (int (t * budget + use t)) X" for v
  proof (cases "v = int (t * budget + use t)")
    case True
    then show ?thesis using t by (intro exI [of _ t] conjI exI [of _ "use t"]) simp_all
  next
    case False
    then obtain g j where "g < workers" "j < use g" "v = int (g * budget + j)" using V v unfolding near_values_def by auto
    then show ?thesis by (intro exI [of _ g] conjI exI [of _ j]) auto
  qed
  ultimately show ?thesis using V unfolding near_values_def by simp
qed

lemma used_bound: "near_worker workers budget l \<Longrightarrow> used budget l s \<le> budget"
proof -
  have "nat (answered s) \<le> 1" by (cases s) simp_all
  then show "near_worker workers budget l \<Longrightarrow> used budget l s \<le> budget" by (cases l) auto
qed

text \<open>A worker moves.\<close>

lemma near_workers_wait:
  assumes "near_inv workers budget a st c loc" and "t < workers" and "\<not> has_left (loc t)"
  shows "loc workers = NWait"
proof -
  have "\<not> (\<forall>g<workers. has_left (loc g))" using assms(2,3) by blast
  then show ?thesis using near_invD(8) [OF assms(1)] by (cases "loc workers") auto
qed

lemma near_worker_upd:
  assumes I: "near_inv workers budget a st c loc" and t: "t < workers" "\<not> has_left (loc t)" "near_worker workers budget l"
    and V: "near_values workers budget (\<lambda>g. used budget ((loc(t := l)) g) ((st(t := x)) g))
      (mset a' + (\<Sum>g<workers + 1. near_held ((loc(t := l)) g) ((st(t := x)) g)))"
    and u: "live c' - int (length a') - under_way l x = live c - int (length a) - under_way (loc t) (st t)"
    and k: "int (length a') - credit l x \<le> int (length a) - credit (loc t) (st t) \<or> a' = []"
    and m: "maxLive c' \<le> int workers" and w: "waiting c' = waiting c - (if has_left l then 1 else 0)"
  shows "near_inv workers budget a' (st(t := x)) c' (loc(t := l))"
proof -
  note main = near_workers_wait [OF I t(1,2)]
  have "(\<Sum>g<workers + 1. under_way ((loc(t := l)) g) ((st(t := x)) g)) =
      (\<Sum>g<workers + 1. under_way (loc g) (st g)) + (under_way l x - under_way (loc t) (st t))"
    by (rule sum_change [where t = t]) (use t in simp_all)
  then have U: "live c' = int (length a') + (\<Sum>g<workers + 1. under_way ((loc(t := l)) g) ((st(t := x)) g))"
    using u near_invD(2) [OF I] by linarith
  have s: "(\<Sum>g<workers. credit ((loc(t := l)) g) ((st(t := x)) g)) =
      (\<Sum>g<workers. credit (loc g) (st g)) + (credit l x - credit (loc t) (st t))"
    by (rule sum_change [where t = t]) (use t in simp_all)
  have K: "int (length a') \<le> (\<Sum>g<workers. credit ((loc(t := l)) g) ((st(t := x)) g))"
  proof (cases "a' = []")
    case False
    then show ?thesis using k s near_invD(3) [OF I] by linarith
  qed (simp add: sum_nonneg)
  have W: "waiting c' = card {g. g < workers \<and> \<not> has_left ((loc(t := l)) g)}"
  proof (cases "has_left l")
    case True
    have "card {g. g < workers \<and> \<not> has_left (loc g)} - 1 = card {g. g < workers \<and> \<not> has_left ((loc(t := l)) g)}"
      by (rule wait_group_done) (use t True in auto)
    then show ?thesis using w True near_invD(5) [OF I] by simp
  next
    case False
    then have "{g. g < workers \<and> \<not> has_left ((loc(t := l)) g)} = {g. g < workers \<and> \<not> has_left (loc g)}" using t(2) by auto
    then show ?thesis using w False near_invD(5) [OF I] by simp
  qed
  have "near_worker workers budget ((loc(t := l)) g)" if "g < workers" for g using near_invD(6) [OF I that] t(3) by simp
  then show ?thesis unfolding near_inv_def using V U K W m near_invD(7) [OF I] t(1) main by simp
qed

lemma near_worker_step:
  assumes I: "near_inv workers budget a st c loc" and t: "t < workers" "\<not> has_left (loc t)" "near_worker workers budget l"
    and h: "near_held l x = near_held (loc t) (st t) + dh" "mset a' + dh = mset a" and d: "used budget (loc t) (st t) \<le> used budget l x"
    and "live c' - int (length a') - under_way l x = live c - int (length a) - under_way (loc t) (st t)"
    and "int (length a') - credit l x \<le> int (length a) - credit (loc t) (st t) \<or> a' = []"
    and "maxLive c' \<le> int workers" and "waiting c' = waiting c - (if has_left l then 1 else 0)"
  shows "near_inv workers budget a' (st(t := x)) c' (loc(t := l))"
proof (rule near_worker_upd [OF I t])
  have "(\<Sum>g<workers + 1. near_held ((loc(t := l)) g) ((st(t := x)) g)) = (\<Sum>g<workers + 1. near_held (loc g) (st g)) + dh"
    by (rule sum_change [where t = t]) (use t h in simp_all)
  then have X: "mset a' + (\<Sum>g<workers + 1. near_held ((loc(t := l)) g) ((st(t := x)) g)) =
      mset a + (\<Sum>g<workers + 1. near_held (loc g) (st g))"
    using h(2) by (metis (no_types, lifting) add.assoc add.commute)
  show "near_values workers budget (\<lambda>g. used budget ((loc(t := l)) g) ((st(t := x)) g))
      (mset a' + (\<Sum>g<workers + 1. near_held ((loc(t := l)) g) ((st(t := x)) g)))"
    unfolding X by (rule near_values_mono [OF near_invD(1) [OF I]]) (use d in simp)
qed (use assms in simp_all)

text \<open>The test itself moves.\<close>

lemma near_main_step:
  assumes I: "near_inv workers budget a st c loc"
    and h: "near_held l x = near_held (loc workers) (st workers) + dh" "mset a' + dh = mset a"
    and u: "live c' - int (length a') - under_way l x = live c - int (length a) - under_way (loc workers) (st workers)"
    and n: "near_main (\<forall>g<workers. has_left (loc g)) a' l x" and c: "maxLive c' = maxLive c" "waiting c' = waiting c"
  shows "near_inv workers budget a' (st(workers := x)) c' (loc(workers := l))"
proof -
  let ?st = "st(workers := x)" and ?loc = "loc(workers := l)"
  have "(\<Sum>g<workers + 1. near_held (?loc g) (?st g)) = (\<Sum>g<workers + 1. near_held (loc g) (st g)) + dh"
    by (rule sum_change [where t = workers]) (use h in simp_all)
  then have X: "mset a' + (\<Sum>g<workers + 1. near_held (?loc g) (?st g)) = mset a + (\<Sum>g<workers + 1. near_held (loc g) (st g))"
    using h(2) by (metis (no_types, lifting) add.assoc add.commute)
  have V: "near_values workers budget (\<lambda>g. used budget (?loc g) (?st g)) (mset a' + (\<Sum>g<workers + 1. near_held (?loc g) (?st g)))"
    unfolding X by (rule near_values_mono [OF near_invD(1) [OF I]]) simp
  have "(\<Sum>g<workers + 1. under_way (?loc g) (?st g)) =
      (\<Sum>g<workers + 1. under_way (loc g) (st g)) + (under_way l x - under_way (loc workers) (st workers))"
    by (rule sum_change [where t = workers]) simp_all
  then have U: "live c' = int (length a') + (\<Sum>g<workers + 1. under_way (?loc g) (?st g))" using u near_invD(2) [OF I] by linarith
  have "length a' \<le> length a" using h(2) by (metis le_add1 size_mset size_union)
  then have K: "int (length a') \<le> (\<Sum>g<workers. credit (?loc g) (?st g))" using near_invD(3) [OF I] by simp
  have W: "{g. g < workers \<and> \<not> has_left (?loc g)} = {g. g < workers \<and> \<not> has_left (loc g)}" by auto
  show ?thesis unfolding near_inv_def W using V U K near_invD(4-7) [OF I] n c by simp
qed

lemma near_turn_facts [simp]:
  "near_held (near_turn budget i p m) (Quiet :: ('o, int resp) status) = mset m"
  "under_way (near_turn budget i p m) (Quiet :: ('o, int resp) status) = 0" "\<not> has_left (near_turn budget i p m)"
  "odd i \<Longrightarrow> credit (near_turn budget i p m) (Quiet :: ('o, int resp) status) = 1"
  "p \<le> i \<Longrightarrow> near_worker workers budget (near_turn budget i p m)"
  by (auto simp: near_turn_def even_iff_mod_2_eq_zero [symmetric])

lemma used_turn: "p \<le> budget \<Longrightarrow> p \<le> used budget (near_turn budget i p m) (Quiet :: ('o, int resp) status)"
  by (simp add: near_turn_def)

lemma deque_pop:
  assumes "deque_spec a (if b then PopFront else PopBack) = (a', r)"
  shows "mset a' + removed (Done r) = mset a" and "got r = None \<Longrightarrow> a' = []"
    and "int (length a') = int (length a) - int (size (removed (Done r)))" and "got r \<noteq> None \<Longrightarrow> length a' < length a"
proof -
  have p: "mset a' + removed (Done r) = mset a \<and> (got r = None \<longrightarrow> a' = [])"
    using assms by (auto simp: mset_pop split: if_splits)
  then show m: "mset a' + removed (Done r) = mset a" and "got r = None \<Longrightarrow> a' = []" by blast+
  have "length a' + size (removed (Done r)) = length a" using arg_cong [where f = size, OF m] by simp
  then show "int (length a') = int (length a) - int (size (removed (Done r)))" "got r \<noteq> None \<Longrightarrow> length a' < length a"
    by (auto split: option.splits)
qed

lemma deque_push:
  assumes "deque_spec a (if b then PushFront v else PushBack v) = (a', r)"
  shows "mset a' = add_mset v (mset a)" and "length a' = length a + 1"
  using assms by (auto split: if_splits)

lemma near_role:
  assumes I: "near_inv workers budget a st c loc" and n: "near_act budget draw t (loc t) \<noteq> Finished"
  obtains "t < workers" and "\<not> has_left (loc t)" and "near_worker workers budget (loc t)"
    | "t = workers" and "near_main (\<forall>g<workers. has_left (loc g)) a (loc t) (st t)"
proof (cases t workers rule: linorder_cases)
  case less
  then show thesis using near_invD(6) [OF I less] n that(1) by (cases "loc t") auto
next
  case equal
  then show thesis using near_invD(8) [OF I] that(2) by simp
next
  case greater
  then show thesis using near_invD(7) [OF I, of t] n by simp
qed

lemma near_called:
  assumes I: "near_inv workers budget a st c loc" and q: "st t = Quiet" and e: "near_act budget draw t (loc t) = Invoke op"
  shows "near_inv workers budget a (st(t := Wait op {})) c loc"
proof -
  let ?x = "Wait op {} :: (int deque_op, int resp) status"
  have same: "near_held (loc t) ?x = near_held (loc t) (st t) + {#}" "under_way (loc t) ?x = under_way (loc t) (st t)"
    "credit (loc t) ?x = credit (loc t) (st t)" "used budget (loc t) ?x = used budget (loc t) (st t)"
    unfolding q by (cases "loc t"; simp)+
  from e have "near_act budget draw t (loc t) \<noteq> Finished" by simp
  with I have "near_inv workers budget a (st(t := ?x)) c (loc(t := loc t))"
  proof (cases rule: near_role)
    case 1
    show ?thesis
      by (rule near_worker_step [OF I 1 same(1)]) (use same(2-4) 1(2) near_invD(4) [OF I] in simp_all)
  next
    case 2
    then have "near_main (\<forall>g<workers. has_left (loc g)) a (loc t) ?x" by (cases "loc t") auto
    then show ?thesis unfolding 2(1)
      by (intro near_main_step [OF I same(1) [unfolded 2(1)]]) (use same(2) 2(1) in simp_all)
  qed
  then show ?thesis by simp
qed

lemma near_pushed:
  assumes I: "near_inv workers budget a st c loc" and t: "t < workers" "loc t = NPush i p m" and q: "st t = Wait op R"
    and a: "mset a' = add_mset (int (t * budget + p)) (mset a)" "length a' = length a + 1"
  shows "near_inv workers budget a' (st(t := Done r)) c loc"
proof -
  let ?use = "\<lambda>g. used budget (loc g) (st g)"
  have w: "near_worker workers budget (loc t)" by (rule near_invD(6) [OF I t(1)])
  have U: "(\<lambda>g. used budget ((loc(t := loc t)) g) ((st(t := Done r)) g)) = ?use(t := ?use t + 1)" "?use t = p"
    using t(2) q by (simp_all add: fun_eq_iff)
  have H: "(\<Sum>g<workers + 1. near_held ((loc(t := loc t)) g) ((st(t := Done r)) g)) = (\<Sum>g<workers + 1. near_held (loc g) (st g))"
    by (rule sum.cong) (use t(2) in auto)
  have b: "?use g \<le> budget" if "g < workers" for g by (rule used_bound [OF near_invD(6) [OF I that]])
  have p: "p < budget" using w t(2) by simp
  have "near_values workers budget (?use(t := ?use t + 1))
      (add_mset (int (t * budget + ?use t)) (mset a + (\<Sum>g<workers + 1. near_held (loc g) (st g))))"
    by (rule near_values_add [OF near_invD(1) [OF I] t(1) _ b]) (use U(2) p in simp_all)
  then have V: "near_values workers budget (\<lambda>g. used budget ((loc(t := loc t)) g) ((st(t := Done r)) g))
      (mset a' + (\<Sum>g<workers + 1. near_held ((loc(t := loc t)) g) ((st(t := Done r)) g)))"
    unfolding U(1) H a(1) using U(2) by simp
  have "near_inv workers budget a' (st(t := Done r)) c (loc(t := loc t))"
    by (rule near_worker_upd [OF I t(1) _ w V]) (use t(2) q a(2) near_invD(4) [OF I] in simp_all)
  then show ?thesis by simp
qed

lemma near_effect:
  assumes I: "near_inv workers budget a st c loc" and q: "st t = Wait op {}" and e: "near_act budget draw t (loc t) = Invoke op"
    and sp: "deque_spec a op = (a', r)"
  shows "near_inv workers budget a' (st(t := Done r)) c loc"
proof -
  let ?x = "Done r :: (int deque_op, int resp) status"
  from e have "near_act budget draw t (loc t) \<noteq> Finished" by simp
  with I have "near_inv workers budget a' (st(t := ?x)) c (loc(t := loc t))"
  proof (cases rule: near_role)
    case 1
    then consider i p m where "loc t = NPush i p m" | i p m where "loc t = NPop i p m" using e by (cases "loc t") auto
    then show ?thesis
    proof cases
      case (1 i p m)
      then have "deque_spec a (if draw t i then PushFront (int (t * budget + p)) else PushBack (int (t * budget + p))) = (a', r)"
        using e sp by auto
      note a' = deque_push [OF this]
      show ?thesis using near_pushed [OF I \<open>t < workers\<close> 1 q a'] by simp
    next
      case (2 i p m)
      then have s: "deque_spec a (if draw t i then PopFront else PopBack) = (a', r)" using e sp by auto
      note P = deque_pop [OF s]
      show ?thesis
      proof (rule near_worker_step [OF I 1])
        show "near_held (loc t) ?x = near_held (loc t) (st t) + removed ?x" using 2 q by simp
        show "mset a' + removed ?x = mset a" by (rule P)
        show "live c - int (length a') - under_way (loc t) ?x = live c - int (length a) - under_way (loc t) (st t)"
          using 2 q P(3) by simp
        show "int (length a') - credit (loc t) ?x \<le> int (length a) - credit (loc t) (st t) \<or> a' = []"
          using 2 q P(2,4) by (cases "got r") simp_all
      qed (use 1 2 near_invD(4) [OF I] in simp_all)
    qed
  next
    case main: 2
    then obtain i d where l: "loc t = NDrain i d" using e by (cases "loc t") auto
    then have "deque_spec a (if i mod 2 = 0 then PopFront else PopBack) = (a', r)" using e sp by auto
    note P = deque_pop [OF this]
    show ?thesis unfolding main(1)
    proof (rule near_main_step [OF I])
      show "near_held (loc workers) ?x = near_held (loc workers) (st workers) + removed ?x" using l q main(1) by simp
      show "mset a' + removed ?x = mset a" by (rule P)
      show "live c - int (length a') - under_way (loc workers) ?x = live c - int (length a) - under_way (loc workers) (st workers)"
        using l q main(1) P(3) by simp
      show "near_main (\<forall>g<workers. has_left (loc g)) a' (loc workers) ?x" using main l P(2) by simp
    qed simp_all
  qed
  then show ?thesis by simp
qed

lemma near_returned:
  assumes I: "near_inv workers budget a st c loc" and q: "st t = Done r" and e: "near_act budget draw t (loc t) = Invoke op"
  shows "near_inv workers budget a (st(t := Quiet)) c (loc(t := near_recv budget t (loc t) r))"
proof -
  let ?x = "Quiet :: (int deque_op, int resp) status"
  from e have "near_act budget draw t (loc t) \<noteq> Finished" by simp
  with I show ?thesis
  proof (cases rule: near_role)
    case 1
    then consider i p m where "loc t = NPush i p m" | i p m where "loc t = NPop i p m" using e by (cases "loc t") auto
    then show ?thesis
    proof cases
      case (1 i p m)
      then have i: "even i" "i < budget" "p \<le> i" using near_invD(6) [OF I \<open>t < workers\<close>] by simp_all
      then show ?thesis using 1 q used_turn [of "p + 1" budget "i + 1" m] near_invD(4) [OF I] \<open>t < workers\<close>
        by (intro near_worker_step [OF I, where dh = "{#}"]) simp_all
    next
      case (2 i p m)
      then have i: "odd i" "i < budget" "p \<le> i" using near_invD(6) [OF I \<open>t < workers\<close>] by simp_all
      show ?thesis
      proof (cases "got r")
        case None
        then show ?thesis using 2 q i used_turn [of p budget "i + 1" m] near_invD(4) [OF I] \<open>t < workers\<close>
          by (intro near_worker_step [OF I, where dh = "{#}"]) simp_all
      next
        case (Some v)
        then show ?thesis using 2 q i near_invD(4) [OF I] \<open>t < workers\<close>
          by (intro near_worker_step [OF I, where dh = "{#}"]) simp_all
      qed
    qed
  next
    case 2
    then obtain i d where l: "loc t = NDrain i d" using e by (cases "loc t") auto
    show ?thesis unfolding 2(1)
      by (rule near_main_step [OF I, where dh = "{#}"]) (use 2 l q in \<open>auto split: option.splits\<close>)
  qed
qed

lemma live_bounds:
  assumes I: "near_inv workers budget a st c loc"
  shows "t \<le> workers \<Longrightarrow> under_way (loc t) (st t) \<le> live c"
    and "t < workers \<Longrightarrow> \<not> has_left (loc t) \<Longrightarrow> under_way (loc t) (st t) = 0 \<Longrightarrow> credit (loc t) (st t) = 0 \<Longrightarrow> live c < int workers"
proof -
  note L = near_invD(2) [OF I]
  show "under_way (loc t) (st t) \<le> live c" if "t \<le> workers"
  proof -
    have "under_way (loc t) (st t) \<le> (\<Sum>g<workers + 1. under_way (loc g) (st g))"
      by (rule member_le_sum) (use that under_way_nonneg in auto)
    then show ?thesis using L by linarith
  qed
  assume t: "t < workers" "\<not> has_left (loc t)" "under_way (loc t) (st t) = 0" "credit (loc t) (st t) = 0"
  have "under_way (loc workers) (st workers) = 0" using near_workers_wait [OF I t(1,2)] by simp
  then have "live c \<le> (\<Sum>g<workers. under_way (loc g) (st g) + credit (loc g) (st g))"
    using L near_invD(3) [OF I] by (simp add: sum.distrib)
  also have "\<dots> < (\<Sum>g<workers. 1)"
  proof (rule sum_strict_mono_ex1)
    show "\<forall>g\<in>{..<workers}. under_way (loc g) (st g) + credit (loc g) (st g) \<le> 1"
      by (simp add: under_way_credit [OF near_invD(6) [OF I]])
  qed (use t in \<open>auto intro!: bexI [of _ t]\<close>)
  finally show "live c < int workers" by simp
qed

lemma near_accessed:
  assumes I: "near_inv workers budget a st c loc" and q: "st t = Quiet" and e: "near_act budget draw t (loc t) = Access"
    and ac: "near_access workers budget t c (loc t) = (c', l)"
  shows "near_inv workers budget a st c' (loc(t := l))"
proof -
  from e have "near_act budget draw t (loc t) \<noteq> Finished" by simp
  with I have "near_inv workers budget a (st(t := Quiet)) c' (loc(t := l))"
  proof (cases rule: near_role)
    case 1
    note M = near_invD(4) [OF I]
    show ?thesis
    proof (cases "loc t")
      case (NBump i p m)
      then have "live c < int workers" using live_bounds(2) [OF I 1(1,2)] by simp
      then show ?thesis using NBump 1 q ac M by (intro near_worker_step [OF I, where dh = "{#}"]) auto
    next
      case (NMaxLoad i p m n)
      then show ?thesis using 1 q ac M by (intro near_worker_step [OF I, where dh = "{#}"]) (auto split: if_splits)
    next
      case (NMaxCas i p m n k)
      then show ?thesis using 1 q ac M by (intro near_worker_step [OF I, where dh = "{#}"]) (auto split: if_splits)
    next
      case (NDec i p m v)
      then have b: "1 \<le> live c" using live_bounds(1) [OF I, of t] 1(1) by simp
      have i: "odd i" "i < budget" "p \<le> i" using NDec 1(3) by simp_all
      have "c' = c\<lparr>live := live c - 1\<rparr>" "l = near_turn budget (i + 1) p (m @ [v])" using NDec ac b by auto
      then show ?thesis using NDec 1 q M i used_turn [of p budget "i + 1" "m @ [v]"]
        by (intro near_worker_step [OF I, where dh = "{#}"]) simp_all
    next
      case (NLeave m)
      then show ?thesis using 1 q ac M by (intro near_worker_step [OF I, where dh = "{#}"]) auto
    qed (use e 1 in auto)
  next
    case 2
    have main: "near_inv workers budget a (st(workers := Quiet)) c' (loc(workers := l))"
      if "near_held l (Quiet :: (int deque_op, int resp) status) = near_held (loc t) (st t)"
        "live c' - under_way l (Quiet :: (int deque_op, int resp) status) = live c - under_way (loc t) (st t)"
        "near_main (\<forall>g<workers. has_left (loc g)) a l (Quiet :: (int deque_op, int resp) status)"
        "maxLive c' = maxLive c" "waiting c' = waiting c"
      by (rule near_main_step [OF I, where dh = "{#}"]) (use that 2(1) in simp_all)
    have "near_inv workers budget a (st(workers := Quiet)) c' (loc(workers := l))"
    proof (cases "loc t")
      case NWait
      have "\<forall>g<workers. has_left (loc g)" if "waiting c = 0" using near_invD(5) [OF I] that by simp
      then show ?thesis using NWait q ac by (intro main) (auto split: if_splits)
    next
      case NMax
      then show ?thesis using 2(2) q ac near_invD(4) [OF I] by (intro main) (auto split: if_splits)
    next
      case (NDrainDec i d v)
      then have "1 \<le> live c" using live_bounds(1) [OF I, of t] 2(1) by simp
      then have "c' = c\<lparr>live := live c - 1\<rparr>" "l = NDrain (i + 1) (d @ [v])" using NDrainDec ac by auto
      then show ?thesis using NDrainDec 2(2) q by (intro main) simp_all
    next
      case (NEnd d)
      then have h: "\<forall>g<workers. has_left (loc g)" "a = []" using 2(2) by simp_all
      have "(\<Sum>g<workers + 1. under_way (loc g) (st g)) = 0"
      proof (rule sum.neutral, rule ballI)
        fix g assume "g \<in> {..<workers + 1}"
        then have "has_left (loc g) \<or> g = workers" using h(1) by (cases "g = workers") auto
        then show "under_way (loc g) (st g) = 0" using NEnd 2(1) by (cases "loc g") auto
      qed
      then have "live c = 0" using near_invD(2) [OF I] h(2) by simp
      then show ?thesis using NEnd h q ac by (intro main) auto
    qed (use e 2 in auto)
    then show ?thesis using 2(1) by simp
  qed
  then show ?thesis using q by (simp add: fun_upd_idem)
qed

lemma near_keeps: "keeps (near_empty workers budget draw) deque_spec (near_inv workers budget)"
  by (rule keepsI; unfold near_simps; rule near_called near_effect near_returned near_accessed; assumption)

lemma near_init:
  "near_inv workers budget [] (\<lambda>_. Quiet) (shared0 (near_empty workers budget draw)) (local0 (near_empty workers budget draw))"
proof -
  let ?l = "local0 (near_empty workers budget draw)"
  have z: "near_held (?l g) (Quiet :: (int deque_op, int resp) status) = {#}"
    "under_way (?l g) (Quiet :: (int deque_op, int resp) status) = 0" for g by (simp_all add: near_empty_def)
  have "{g. g < workers \<and> \<not> has_left (?l g)} = {..<workers}" by (auto simp: near_empty_def)
  moreover have "near_values workers budget use {#}" for use by (simp add: near_values_def)
  moreover have "near_worker workers budget (?l g)" if "g < workers" for g using that by (simp add: near_empty_def)
  moreover have "?l g = NGone []" if "g > workers" for g using that by (simp add: near_empty_def)
  moreover have "?l workers = NWait" by (simp add: near_empty_def)
  ultimately show ?thesis unfolding near_inv_def by (simp add: z sum_nonneg del: sum.lessThan_Suc)
qed

lemma seen_once_distinct: "distinct vs \<Longrightarrow> seen_once vs"
  unfolding seen_once_def list_all_iff by (metis count_mset distinct_count_atmost_1)

lemma near_inv_passes:
  assumes I: "near_inv workers budget a st c loc"
  shows "\<not> near_fails workers loc"
proof -
  have w: "loc g \<noteq> NErr" "loc g \<noteq> NErrGone" if "g < workers" for g using near_invD(6) [OF I that] by auto
  have "seen_once (concat (map (\<lambda>g. near_result (loc g)) [0..<workers]) @ d)" if l: "loc workers = NOver d" for d
  proof (rule seen_once_distinct)
    let ?vs = "concat (map (\<lambda>g. near_result (loc g)) [0..<workers])"
    have h: "has_left (loc g)" if "g < workers" for g using near_invD(8) [OF I] l that by simp
    have "(\<Sum>g<workers. near_held (loc g) (st g)) = (\<Sum>g<workers. mset (near_result (loc g)))"
    proof (rule sum.cong)
      fix g assume "g \<in> {..<workers}"
      then show "near_held (loc g) (st g) = mset (near_result (loc g))" using h [of g] by (cases "loc g") auto
    qed simp
    also have "\<dots> = mset ?vs" by (simp add: mset_concat sum_list_distinct_conv_sum_set atLeast0LessThan comp_def)
    finally have "(\<Sum>g<workers + 1. near_held (loc g) (st g)) = mset (?vs @ d)" using l by simp
    then have V: "count (mset a + mset (?vs @ d)) v \<le> 1" for v
      using near_invD(1) [OF I] unfolding near_values_def by metis
    have "count (mset (?vs @ d)) v \<le> 1" for v using V [of v] unfolding count_union by linarith
    then show "distinct (?vs @ d)" unfolding distinct_count_atmost_1
      by (metis antisym count_eq_zero_iff less_one not_less set_mset_mset)
  qed
  moreover have "loc workers \<noteq> NFatal" using near_invD(8) [OF I] by auto
  ultimately show ?thesis using w unfolding near_fails_def by (auto simp: list_ex_iff split: near_loc.splits)
qed

lemma near_passes:
  assumes "conforming M deque_spec []"
  shows "\<not> test_fails (near_fails workers) (play M (near_empty workers budget draw) sched)"
  by (rule test_passes [OF assms near_keeps near_init near_inv_passes])

lemma near_passes_handles:
  assumes "conforming_handles M n deque_spec []" and "workers < n"
  shows "\<not> test_fails_handles (near_fails workers) (play M (with_handles (near_joins workers) (near_empty workers budget draw)) sched)"
  by (rule test_passes_handles [OF assms(1) near_keeps near_init _ near_inv_passes]) (use assms(2) in \<open>auto simp: near_joins_def\<close>)

end
