(* ===== verification/Conform_Facts.thy ===== *)
theory Conform_Facts
  imports Conform_Machines Conform_Fifo Conform_Disjoint Conform_Near_Empty
begin

text \<open>
  The conformance suites \<open>Stack\<close>, \<open>Queue\<close>, \<open>Deque\<close> and \<open>Map\<close> of \<open>internal/conformtest\<close>, and the implementations that can
  never fail them: whatever the schedule and whatever the random source draws, no check fails, no goroutine panics and no
  participant is refused its handle.
\<close>

subsection \<open>The suites\<close>

text \<open>
  A factory builds the object for a number of participants. The lock-free factories ignore the number and share the object;
  the participants of the wait-free ones take a handle.
\<close>

definition Stack_suite :: "(nat \<Rightarrow> ('sh, 'pc, int stack_op, int resp) machine) \<Rightarrow> bool" where
  "Stack_suite factory \<longleftrightarrow>
     (\<forall>sched. \<not> test_fails solo_fails (play (factory 1) (solo stackSequential) sched)) \<and>
     (\<forall>draws sched. \<not> test_fails solo_fails (play (factory 1) (solo (stackDifferential draws [])) sched)) \<and>
     (\<forall>sched. \<not> test_fails (conservation_fails 16 8 4000) (play (factory 24) stackConservation sched))"

definition Stack_suite_handles :: "(nat \<Rightarrow> ('sh, 'pc, int stack_op uc_op, int resp uc_resp) machine) \<Rightarrow> bool" where
  "Stack_suite_handles factory \<longleftrightarrow>
     (\<forall>sched. \<not> test_fails_handles solo_fails (play (factory 1) (with_handles solo_joins (solo stackSequential)) sched)) \<and>
     (\<forall>draws sched. \<not> test_fails_handles solo_fails
       (play (factory 1) (with_handles solo_joins (solo (stackDifferential draws []))) sched)) \<and>
     (\<forall>sched. \<not> test_fails_handles (conservation_fails 16 8 4000)
       (play (factory 24) (with_handles (bag_joins 24) stackConservation) sched))"

definition Queue_suite :: "(nat \<Rightarrow> ('sh, 'pc, int queue_op, int resp) machine) \<Rightarrow> bool" where
  "Queue_suite factory \<longleftrightarrow>
     (\<forall>sched. \<not> test_fails solo_fails (play (factory 1) (solo queueSequential) sched)) \<and>
     (\<forall>draws sched. \<not> test_fails solo_fails (play (factory 1) (solo (queueDifferential draws [])) sched)) \<and>
     (\<forall>sched. \<not> test_fails (fifo_fails 16) (play (factory 17) queueConcurrentFIFO sched)) \<and>
     (\<forall>sched. \<not> test_fails (conservation_fails 16 8 4000) (play (factory 24) queueConcurrentConservation sched))"

definition Queue_suite_handles :: "(nat \<Rightarrow> ('sh, 'pc, int queue_op uc_op, int resp uc_resp) machine) \<Rightarrow> bool" where
  "Queue_suite_handles factory \<longleftrightarrow>
     (\<forall>sched. \<not> test_fails_handles solo_fails (play (factory 1) (with_handles solo_joins (solo queueSequential)) sched)) \<and>
     (\<forall>draws sched. \<not> test_fails_handles solo_fails
       (play (factory 1) (with_handles solo_joins (solo (queueDifferential draws []))) sched)) \<and>
     (\<forall>sched. \<not> test_fails_handles (fifo_fails 16)
       (play (factory 17) (with_handles (fifo_joins 16) queueConcurrentFIFO) sched)) \<and>
     (\<forall>sched. \<not> test_fails_handles (conservation_fails 16 8 4000)
       (play (factory 24) (with_handles (bag_joins 24) queueConcurrentConservation) sched))"

definition Deque_suite :: "(nat \<Rightarrow> ('sh, 'pc, int deque_op, int resp) machine) \<Rightarrow> bool" where
  "Deque_suite factory \<longleftrightarrow>
     (\<forall>sched. \<not> test_fails solo_fails (play (factory 1) (solo dequeSequential) sched)) \<and>
     (\<forall>draws sched. \<not> test_fails solo_fails (play (factory 1) (solo (dequeDifferential draws [])) sched)) \<and>
     (\<forall>sched. \<not> test_fails (conservation_fails 12 12 4000) (play (factory 24) dequeConservation sched)) \<and>
     (\<forall>draw sched. \<not> test_fails (near_fails 16) (play (factory 17) (dequeNearEmpty draw) sched))"

definition Deque_suite_handles :: "(nat \<Rightarrow> ('sh, 'pc, int deque_op uc_op, int resp uc_resp) machine) \<Rightarrow> bool" where
  "Deque_suite_handles factory \<longleftrightarrow>
     (\<forall>sched. \<not> test_fails_handles solo_fails (play (factory 1) (with_handles solo_joins (solo dequeSequential)) sched)) \<and>
     (\<forall>draws sched. \<not> test_fails_handles solo_fails
       (play (factory 1) (with_handles solo_joins (solo (dequeDifferential draws []))) sched)) \<and>
     (\<forall>sched. \<not> test_fails_handles (conservation_fails 12 12 4000)
       (play (factory 24) (with_handles (bag_joins 24) dequeConservation) sched)) \<and>
     (\<forall>draw sched. \<not> test_fails_handles (near_fails 16)
       (play (factory 17) (with_handles (near_joins 16) (dequeNearEmpty draw)) sched))"

definition Map_suite_handles :: "(nat \<Rightarrow> ('sh, 'pc, (int, int) map_op uc_op, int resp uc_resp) machine) \<Rightarrow> bool" where
  "Map_suite_handles factory \<longleftrightarrow>
     (\<forall>draws sched. \<not> test_fails_handles solo_fails
       (play (factory 1) (with_handles solo_joins (solo (mapDifferential draws (\<lambda>_. None)))) sched)) \<and>
     (\<forall>sched. \<not> test_fails_handles (disj_fails 8)
       (play (factory 9) (with_handles (disj_joins 8) mapConcurrentDisjoint) sched))"

subsection \<open>Every conforming implementation passes\<close>

lemma Stack_suite_conforming:
  assumes "\<And>n. conforming (factory n) stack_spec []"
  shows "Stack_suite factory"
  unfolding Stack_suite_def stackConservation_def
  by (intro conjI allI solo_passes [OF assms] stackSequential_passes stackDifferential_passes [where ref = "[]", simplified]
      stack_bag.conservation_passes [OF assms]) simp_all

lemma Stack_suite_conforming_handles:
  assumes "\<And>n. 0 < n \<Longrightarrow> conforming_handles (factory n) n stack_spec []"
  shows "Stack_suite_handles factory"
  unfolding Stack_suite_handles_def stackConservation_def
  by (intro conjI allI solo_passes_handles [OF assms] stackSequential_passes stackDifferential_passes [where ref = "[]", simplified]
      stack_bag.conservation_passes_handles [OF assms, where pushers = 16 and poppers = 8, simplified]) simp_all

lemma Queue_suite_conforming:
  assumes "\<And>n. conforming (factory n) queue_spec []"
  shows "Queue_suite factory"
  unfolding Queue_suite_def queueConcurrentConservation_def queueConcurrentFIFO_def
  by (intro conjI allI solo_passes [OF assms] queueSequential_passes queueDifferential_passes
      queue_bag.conservation_passes [OF assms] fifo_passes [OF assms]) simp_all

lemma Queue_suite_conforming_handles:
  assumes "\<And>n. 0 < n \<Longrightarrow> conforming_handles (factory n) n queue_spec []"
  shows "Queue_suite_handles factory"
  unfolding Queue_suite_handles_def queueConcurrentConservation_def queueConcurrentFIFO_def
  by (intro conjI allI solo_passes_handles [OF assms] queueSequential_passes queueDifferential_passes
      queue_bag.conservation_passes_handles [OF assms, where pushers = 16 and poppers = 8, simplified]
      fifo_passes_handles [OF assms]) simp_all

lemma Deque_suite_conforming:
  assumes "\<And>n. conforming (factory n) deque_spec []"
  shows "Deque_suite factory"
  unfolding Deque_suite_def dequeConservation_def dequeNearEmpty_def
  by (intro conjI allI solo_passes [OF assms] dequeSequential_passes dequeDifferential_passes
      deque_bag.conservation_passes [OF assms] near_passes [OF assms]) simp_all

lemma Deque_suite_conforming_handles:
  assumes "\<And>n. 0 < n \<Longrightarrow> conforming_handles (factory n) n deque_spec []"
  shows "Deque_suite_handles factory"
  unfolding Deque_suite_handles_def dequeConservation_def dequeNearEmpty_def
  by (intro conjI allI solo_passes_handles [OF assms] dequeSequential_passes dequeDifferential_passes
      deque_bag.conservation_passes_handles [OF assms, where pushers = 12 and poppers = 12, simplified]
      near_passes_handles [OF assms]) simp_all

lemma Map_suite_conforming_handles:
  assumes "\<And>n. 0 < n \<Longrightarrow> conforming_handles (factory n) n (map_spec (<)) (\<lambda>_. None)"
  shows "Map_suite_handles factory"
  unfolding Map_suite_handles_def mapConcurrentDisjoint_def
  by (intro conjI allI solo_passes_handles [OF assms] mapDifferential_passes disj_passes_handles [OF assms]) simp_all

text \<open>The wait-free factories.\<close>

lemma wf_factories:
  assumes "0 < n"
  shows "conforming_handles (wf_stack_machine (the (NewWfStack n))) n stack_spec []"
    and "conforming_handles (kp_machine (the (NewKpQueue zero n))) n queue_spec []"
    and "conforming_handles (wf_deque_machine (the (NewDeque n))) n deque_spec []"
    and "conforming_handles (wf_map_machine ((<) :: int \<Rightarrow> int \<Rightarrow> bool) (the (NewMap n))) n (map_spec (<)) (\<lambda>_. None)"
proof -
  obtain k where n: "n = Suc k" using assms by (cases n) simp_all
  show "conforming_handles (wf_stack_machine (the (NewWfStack n))) n stack_spec []"
    unfolding n by (rule wf_stack_test.conforming_handles_axioms)
  show "conforming_handles (kp_machine (the (NewKpQueue zero n))) n queue_spec []"
    unfolding n by (rule kp_test.conforming_handles_axioms)
  show "conforming_handles (wf_deque_machine (the (NewDeque n))) n deque_spec []"
    unfolding n by (rule wf_deque_test.conforming_handles_axioms)
  show "conforming_handles (wf_map_machine ((<) :: int \<Rightarrow> int \<Rightarrow> bool) (the (NewMap n))) n (map_spec (<)) (\<lambda>_. None)"
    unfolding n by (rule wf_map_test.conforming_handles_axioms)
qed

lemma elim_factory: "conforming (elim_machine elimDefaultSlots elimDefaultSpins rand) stack_spec []"
proof -
  obtain k where k: "elimDefaultSlots = Suc k" by (simp add: elimDefaultSlots_def numeral_eq_Suc)
  show ?thesis unfolding k by (rule elim_test.conforming_axioms)
qed

subsection \<open>Properties\<close>

text \<open>
  C15: The Treiber stack, the elimination stack and the wait-free stack never fail the suite \<open>Stack\<close>: LIFO order on one
  participant, agreement with a slice on every sequence of draws, and with 16 pushers and 8 poppers every value popped
  exactly once.
\<close>

theorem stack_suite_never_fails:
  "Stack_suite (\<lambda>n. stack_machine) \<and> Stack_suite (\<lambda>n. elim_machine elimDefaultSlots elimDefaultSpins rand) \<and>
   Stack_suite_handles (\<lambda>n. wf_stack_machine (the (NewWfStack n)))"
  by (intro conjI Stack_suite_conforming Stack_suite_conforming_handles treiber_test.conforming_axioms elim_factory wf_factories)

text \<open>
  C14: The queue of Michael and Scott and the wait-free queue never fail the suite \<open>Queue\<close>: among its tests, with 16 producers
  the consumer sees the values of each producer in order and an empty queue after the last, and with 8 consumers every
  value is dequeued exactly once.
\<close>

theorem queue_suite_never_fails:
  "Queue_suite (\<lambda>n. queue_machine (0 :: int)) \<and> Queue_suite_handles (\<lambda>n. kp_machine (the (NewKpQueue (0 :: int) n)))"
  by (intro conjI Queue_suite_conforming Queue_suite_conforming_handles msq_test.conforming_axioms wf_factories)

text \<open>
  C13: The deque of Sundell and Tsigas and the wait-free deque never fail the suite \<open>Deque\<close>: among its tests the near-empty one,
  whatever the ends drawn: the counter of elements under way never becomes negative nor exceeds the number of workers, the
  drain leaves it at zero, and no value is seen twice.
\<close>

theorem deque_suite_never_fails:
  "Deque_suite (\<lambda>n. de_machine (NewLfDeque (0 :: int))) \<and> Deque_suite_handles (\<lambda>n. wf_deque_machine (the (NewDeque n)))"
  by (intro conjI Deque_suite_conforming Deque_suite_conforming_handles st_test.conforming_axioms wf_factories)

text \<open>
  C16: The wait-free map never fails the suite \<open>Map\<close>: it agrees with a built-in map on every sequence of draws, and when eight
  workers set their own ranges and delete the even offsets, exactly the odd offsets are found.
\<close>

theorem map_suite_never_fails:
  "Map_suite_handles (\<lambda>n. wf_map_machine (<) (the (NewMap n)))"
  by (intro Map_suite_conforming_handles wf_factories)

end
