(* ===== verification/Map_Values.thy ===== *)
theory Map_Values
  imports Hash_Map
begin

text \<open>
  The values of the lock-free maps. Their linearizability theorems speak of key sets, because an
  update of an existing key is documented as weakly consistent; here is what still holds of the values: every
  value that \<open>Get\<close> or \<open>Del\<close> returns or \<open>Range\<close> visits for a key is the argument of a call of \<open>Set\<close>, for an
  equivalent key, that began before. The rule is the locale \<open>value_origin\<close>; it is interpreted on the
  list, the skip list and the split-ordered table, and carried over to the hash table of lists.
\<close>

subsection \<open>Answers that come from calls\<close>

fun wrote :: "('k, 'v) list_op \<Rightarrow> ('k \<times> 'v) set" where
  "wrote (MapOp (SetKey k v)) = {(k, v)}"
| "wrote _ = {}"

text \<open>The pairs given to \<open>Set\<close> in a history, and the latest call of each goroutine.\<close>

fun event_writes :: "(('k, 'v) list_op, 'r) event \<Rightarrow> ('k \<times> 'v) set" where
  "event_writes (Inv t oper) = wrote oper"
| "event_writes _ = {}"

definition writes :: "(('k, 'v) list_op, 'r) event list \<Rightarrow> ('k \<times> 'v) set" where
  "writes h = \<Union> (set (map event_writes h))"

fun note_call :: "(tid \<Rightarrow> 'o option) \<Rightarrow> ('o, 'r) event \<Rightarrow> tid \<Rightarrow> 'o option" where
  "note_call cur (Inv t oper) = cur(t := Some oper)"
| "note_call cur _ = cur"

definition latest :: "('o, 'r) event list \<Rightarrow> tid \<Rightarrow> 'o option" where
  "latest h = foldl note_call (\<lambda>_. None) h"

text \<open>\<open>same\<close> compares the key of a \<open>Set\<close> with the key of the answer.\<close>

definition from_set :: "('k \<Rightarrow> 'k \<Rightarrow> bool) \<Rightarrow> ('k \<times> 'v) set \<Rightarrow> 'k \<Rightarrow> 'v \<Rightarrow> bool" where
  "from_set same W k v \<longleftrightarrow> (\<exists>(k', v') \<in> W. v' = v \<and> same k' k)"

fun answer_from :: "('k \<Rightarrow> 'k \<Rightarrow> bool) \<Rightarrow> ('k \<times> 'v) set \<Rightarrow> ('k, 'v) list_op \<Rightarrow> ('k, 'v) list_resp \<Rightarrow> bool" where
  "answer_from same W oper (MapResp (Got (Some v))) = from_set same W (op_key oper) v"
| "answer_from same W oper (Visited kvs) = (\<forall>(k, v) \<in> set kvs. from_set same W k v)"
| "answer_from same W oper _ = True"

fun event_from :: "('k \<Rightarrow> 'k \<Rightarrow> bool) \<Rightarrow> (('k, 'v) list_op, ('k, 'v) list_resp) event list \<Rightarrow>
    (('k, 'v) list_op, ('k, 'v) list_resp) event \<Rightarrow> bool" where
  "event_from same h (Res t r) = (\<exists>oper. latest h t = Some oper \<and> answer_from same (writes h) oper r)"
| "event_from same h _ = True"

text \<open>Every response is explained by the history before it.\<close>

definition values_from_sets :: "('k \<Rightarrow> 'k \<Rightarrow> bool) \<Rightarrow> (('k, 'v) list_op, ('k, 'v) list_resp) event list \<Rightarrow> bool" where
  "values_from_sets same h \<longleftrightarrow> (\<forall>n < length h. event_from same (take n h) (h ! n))"

lemma writes_simps [simp]:
  "writes [] = {}" "writes (h @ [e]) = writes h \<union> event_writes e"
  by (auto simp: writes_def)

lemma latest_simps [simp]:
  "latest [] = (\<lambda>_. None)" "latest (h @ [e]) = note_call (latest h) e"
  by (simp_all add: latest_def)

lemma values_from_sets_simps [simp]:
  "values_from_sets same []"
  "values_from_sets same (h @ [e]) \<longleftrightarrow> values_from_sets same h \<and> event_from same h e"
  by (auto simp: values_from_sets_def nth_append less_Suc_eq)

lemma from_set_iff: "from_set same W k v \<longleftrightarrow> (\<exists>k'. (k', v) \<in> W \<and> same k' k)"
  by (auto simp: from_set_def)

lemma from_set_mono: "from_set same W k v \<Longrightarrow> W \<subseteq> W' \<Longrightarrow> from_set same W' k v"
  by (auto simp: from_set_def)

lemma answer_from_mono:
  "answer_from same W oper r \<Longrightarrow> W \<subseteq> W' \<Longrightarrow> answer_from same W' oper r"
  by (induction same W oper r rule: answer_from.induct) (auto intro: from_set_mono)

lemma answer_from_weaken:
  assumes "\<And>a b. same a b \<Longrightarrow> same' a b"
  shows "answer_from same W oper r \<Longrightarrow> answer_from same' W oper r"
  using assms by (induction same W oper r rule: answer_from.induct) (fastforce simp: from_set_def)+

lemma values_from_sets_weaken:
  assumes "\<And>a b. same a b \<Longrightarrow> same' a b" and "values_from_sets same h"
  shows "values_from_sets same' h"
  unfolding values_from_sets_def
proof (intro allI impI)
  fix n assume "n < length h"
  then have "event_from same (take n h) (h ! n)" using assms(2) by (simp add: values_from_sets_def)
  then show "event_from same' (take n h) (h ! n)"
    using answer_from_weaken [of same same', OF assms(1)] by (cases "h ! n") auto
qed

text \<open>
  Keys that a comparison identifies, and the two comparisons between a \<open>Set\<close> and an answer: each with the
  key in a node. For a strict weak order they make the keys equivalent.
\<close>

definition key_eq :: "('k \<Rightarrow> 'k \<Rightarrow> bool) \<Rightarrow> 'k \<Rightarrow> 'k \<Rightarrow> bool" where
  "key_eq lt a b \<longleftrightarrow> a = b \<or> \<not> lt a b \<and> \<not> lt b a"

definition key_link :: "('k \<Rightarrow> 'k \<Rightarrow> bool) \<Rightarrow> 'k \<Rightarrow> 'k \<Rightarrow> bool" where
  "key_link lt a b \<longleftrightarrow> (\<exists>c. key_eq lt c a \<and> key_eq lt c b)"

lemma key_eq_refl [simp]: "key_eq lt a a"
  by (simp add: key_eq_def)

lemma key_link_same: "strict_weak lt \<Longrightarrow> key_link lt a b \<Longrightarrow> same_key lt a b"
  unfolding key_link_def key_eq_def using same_key_refl same_key_sym same_key_trans
  by (metis same_key_def)

subsection \<open>The cells of a map\<close>

text \<open>What the nodes hold: key and value of an element, nothing in a sentinel or a free cell.\<close>

type_synonym ('k, 'v) cells = "loc \<Rightarrow> ('k \<times> 'v) option"

definition cells_ok :: "('k \<Rightarrow> 'k \<Rightarrow> bool) \<Rightarrow> ('k \<times> 'v) set \<Rightarrow> ('k, 'v) cells \<Rightarrow> bool" where
  "cells_ok lt W E \<longleftrightarrow> (\<forall>l k v. E l = Some (k, v) \<longrightarrow> from_set (\<lambda>a b. key_eq lt b a) W k v)"

definition cells_grow :: "('k, 'v) cells \<Rightarrow> ('k, 'v) cells \<Rightarrow> bool" where
  "cells_grow E E' \<longleftrightarrow> (\<forall>l k v. E l = Some (k, v) \<longrightarrow> (\<exists>v'. E' l = Some (k, v')))"

definition cell_at :: "('k \<Rightarrow> 'k \<Rightarrow> bool) \<Rightarrow> ('k, 'v) cells \<Rightarrow> loc \<Rightarrow> 'k \<Rightarrow> bool" where
  "cell_at lt E l k \<longleftrightarrow> (\<exists>k' v. E l = Some (k', v) \<and> key_eq lt k' k)"

named_theorems value_simps \<open>how the steps change the cells of a map\<close>

lemma cells_grow_refl [simp]: "cells_grow E E"
  by (simp add: cells_grow_def)

lemma cells_grow_new: "E l = None \<Longrightarrow> cells_grow E (E(l := x))"
  by (auto simp: cells_grow_def)

lemma cells_grow_put: "E l = Some (k, v) \<Longrightarrow> cells_grow E (E(l := Some (k, v')))"
  by (auto simp: cells_grow_def)

lemma cells_ok_mono: "cells_ok lt W E \<Longrightarrow> W \<subseteq> W' \<Longrightarrow> cells_ok lt W' E"
  unfolding cells_ok_def from_set_iff by (meson subsetD)

lemma cells_ok_put: "cells_ok lt W E \<Longrightarrow> (k, v) \<in> W \<Longrightarrow> key_eq lt k' k \<Longrightarrow> cells_ok lt W (E(l := Some (k', v)))"
  unfolding cells_ok_def from_set_iff by auto

lemma cells_ok_none: "cells_ok lt W E \<Longrightarrow> cells_ok lt W (E(l := None))"
  by (auto simp: cells_ok_def)

lemma cell_at_stable: "cell_at lt E l k \<Longrightarrow> cells_grow E E' \<Longrightarrow> cell_at lt E' l k"
  unfolding cell_at_def cells_grow_def by blast

lemma cell_some_stable: "E l = Some (k, v) \<Longrightarrow> cells_grow E E' \<Longrightarrow> \<exists>k v. E' l = Some (k, v)"
  unfolding cells_grow_def by blast

text \<open>What a read of a cell gives.\<close>

lemma cell_read:
  assumes "cells_ok lt W E" and "E l = Some (k', v)" and "key_eq lt k' k"
  shows "from_set (key_link lt) W k v"
proof -
  obtain k0 where "(k0, v) \<in> W" "key_eq lt k' k0" using assms(1,2) unfolding cells_ok_def from_set_iff by blast
  with assms(3) show ?thesis by (auto simp: from_set_def key_link_def)
qed

subsection \<open>The rule\<close>

fun origin_ok :: "(('k, 'v) list_op \<Rightarrow> 'pc \<Rightarrow> bool) \<Rightarrow> ('k \<Rightarrow> 'k \<Rightarrow> bool) \<Rightarrow> ('k \<times> 'v) set \<Rightarrow> ('k, 'v) list_op \<Rightarrow>
    ('pc, ('k, 'v) list_resp) thread \<Rightarrow> bool" where
  "origin_ok P same W oper (Busy p) = P oper p"
| "origin_ok P same W oper (Return r) = answer_from same W oper r"
| "origin_ok P same W oper _ = True"

text \<open>The same for a call that is routed to a component.\<close>

fun routed_from :: "('w \<Rightarrow> 'sh \<Rightarrow> 'o \<Rightarrow> 'p \<Rightarrow> bool) \<Rightarrow> 'w \<Rightarrow> 'sh list \<Rightarrow> 'o \<Rightarrow> ('p, 'o) routed_pc \<Rightarrow> bool" where
  "routed_from P W bs oper (Lookup op) \<longleftrightarrow> oper = op"
| "routed_from P W bs oper (Inside i p) \<longleftrightarrow> i < length bs \<and> P W (bs ! i) oper p"

lemma updated_grows:
  "(\<And>s. G s s) \<Longrightarrow> i < length bs \<Longrightarrow> G (bs ! i) s' \<Longrightarrow> list_all2 G bs (bs[i := s'])"
  by (auto simp: list_all2_conv_all_nth nth_list_update)

text \<open>
  \<open>mem_ok\<close>: the memory holds values of earlier calls only. \<open>pc_ok\<close>: so do the variables of a goroutine, and
  the cells it refers to have the right keys. \<open>grows\<close>: what no step undoes.
\<close>

locale value_origin =
  fixes M :: "('sh, 'pc, ('k, 'v) list_op, ('k, 'v) list_resp) machine"
    and lt :: "'k \<Rightarrow> 'k \<Rightarrow> bool"
    and mem_ok :: "('k \<times> 'v) set \<Rightarrow> 'sh \<Rightarrow> bool"
    and pc_ok :: "('k \<times> 'v) set \<Rightarrow> 'sh \<Rightarrow> ('k, 'v) list_op \<Rightarrow> 'pc \<Rightarrow> bool"
    and grows :: "'sh \<Rightarrow> 'sh \<Rightarrow> bool"
  assumes mem_start: "mem_ok {} (sh0 M)"
    and mem_mono: "mem_ok W s \<Longrightarrow> W \<subseteq> W' \<Longrightarrow> mem_ok W' s"
    and grows_refl: "grows s s"
    and pc_stable: "pc_ok W s oper p \<Longrightarrow> W \<subseteq> W' \<Longrightarrow> grows s s' \<Longrightarrow> pc_ok W' s' oper p"
    and begin_ok: "mem_ok W s \<Longrightarrow> wrote oper \<subseteq> W \<Longrightarrow> beg M s t oper = (s', p) \<Longrightarrow>
      mem_ok W s' \<and> grows s s' \<and> pc_ok W s' oper p"
    and step_ok: "mem_ok W s \<Longrightarrow> wrote oper \<subseteq> W \<Longrightarrow> pc_ok W s oper p \<Longrightarrow> stp M s t p = (s', x) \<Longrightarrow>
      mem_ok W s' \<and> grows s s' \<and> origin_ok (pc_ok W s') (key_link lt) W oper x"
begin

definition thread_from :: "('k \<times> 'v) set \<Rightarrow> 'sh \<Rightarrow> ('k, 'v) list_op option \<Rightarrow>
    ('pc, ('k, 'v) list_resp) thread \<Rightarrow> bool" where
  "thread_from W s c x \<longleftrightarrow>
     x = Idle \<or> (\<exists>oper. c = Some oper \<and> wrote oper \<subseteq> W \<and> origin_ok (pc_ok W s) (key_link lt) W oper x)"

lemma origin_stable:
  "origin_ok (pc_ok W s) same W oper x \<Longrightarrow> W \<subseteq> W' \<Longrightarrow> grows s s' \<Longrightarrow> origin_ok (pc_ok W' s') same W' oper x"
  by (cases x) (auto intro: pc_stable answer_from_mono)

lemma thread_from_stable:
  "thread_from W s c x \<Longrightarrow> W \<subseteq> W' \<Longrightarrow> grows s s' \<Longrightarrow> thread_from W' s' c x"
  unfolding thread_from_def using origin_stable by blast

lemma values_invariant:
  "mem_ok (writes (history M acts)) (fst (run M acts)) \<and>
   (\<forall>t. thread_from (writes (history M acts)) (fst (run M acts)) (latest (history M acts) t) (snd (run M acts) t)) \<and>
   values_from_sets (key_link lt) (history M acts)"
proof (induction acts rule: rev_induct)
  case Nil
  show ?case by (simp add: start_sys_def mem_start thread_from_def)
next
  case (snoc a acts)
  let ?h = "history M acts"
  obtain s th where r: "run M acts = (s, th)" by fastforce
  with snoc have I: "mem_ok (writes ?h) s" "\<And>t. thread_from (writes ?h) s (latest ?h t) (th t)"
    "values_from_sets (key_link lt) ?h" by auto
  show ?case
  proof (cases a)
    case (Start t oper)
    show ?thesis
    proof (cases "th t = Idle \<and> can M s t oper")
      case True
      obtain s' p where b: "beg M s t oper = (s', p)" by fastforce
      have m: "mem_ok (writes ?h \<union> wrote oper) s" using mem_mono I(1) by blast
      note B = begin_ok [OF m _ b]
      have "thread_from (writes ?h \<union> wrote oper) s' (latest ?h u) (th u)" for u
        using thread_from_stable [OF I(2)] B by blast
      then show ?thesis using True B I(3) by (auto simp: r Start b thread_from_def)
    next
      case False
      then show ?thesis using I by (auto simp: r Start split: thread.splits)
    qed
  next
    case (Step t)
    show ?thesis
    proof (cases "th t")
      case (Busy p)
      obtain s' x where b: "stp M s t p = (s', x)" by fastforce
      obtain oper where o: "latest ?h t = Some oper" "wrote oper \<subseteq> writes ?h" "pc_ok (writes ?h) s oper p"
        using I(2) [of t] by (auto simp: thread_from_def Busy)
      note B = step_ok [OF I(1) o(2,3) b]
      have "thread_from (writes ?h) s' (latest ?h u) (th u)" for u
        using thread_from_stable [OF I(2)] B by blast
      then show ?thesis using B o I(3) by (auto simp: r Step Busy b thread_from_def)
    next
      case (Return q)
      then have "event_from (key_link lt) ?h (Res t q)" using I(2) [of t] by (auto simp: thread_from_def)
      then show ?thesis using I by (auto simp: r Step Return thread_from_def)
    qed (use I in \<open>auto simp: r Step\<close>)
  qed
qed

lemma values_linked: "values_from_sets (key_link lt) (history M acts)"
  using values_invariant by blast

lemma values_same:
  assumes "strict_weak lt"
  shows "values_from_sets (same_key lt) (history M acts)"
  using values_from_sets_weaken [OF key_link_same [OF assms] values_linked] .

text \<open>An object made of routed components has the property when its components do.\<close>

lemma routed_step_ok:
  assumes m: "\<forall>b \<in> set bs. mem_ok W b" and w: "wrote oper \<subseteq> W" and o: "routed_from pc_ok W bs oper p"
    and b: "routed_step M route bs t p = (bs', x)"
  shows "(\<forall>b \<in> set bs'. mem_ok W b) \<and> list_all2 grows bs bs' \<and>
    origin_ok (routed_from pc_ok W bs') (key_link lt) W oper x"
proof (cases p)
  case (Lookup op)
  show ?thesis
  proof (cases "route op < length bs")
    case True
    obtain s' q where g: "beg M (bs ! route op) t op = (s', q)" by fastforce
    have "mem_ok W (bs ! route op)" "op = oper" using True m o by (simp_all add: Lookup)
    with begin_ok [OF _ w, of "bs ! route op" t s' q] g True b m show ?thesis
      by (auto simp: Lookup Let_def updated_grows [where G = grows, OF grows_refl] dest: set_update_subset_insert [THEN subsetD])
  next
    case False
    then show ?thesis using b m by (auto simp: Lookup Let_def grows_refl list_all2_refl)
  qed
next
  case (Inside i q)
  obtain s' y where g: "stp M (bs ! i) t q = (s', y)" by fastforce
  have i: "i < length bs" "pc_ok W (bs ! i) oper q" "mem_ok W (bs ! i)" using o m by (simp_all add: Inside)
  have bs: "bs' = bs[i := s']" "x = inside i y" using b by (simp_all add: Inside g)
  note S = step_ok [OF i(3) w i(2) g]
  then have "origin_ok (routed_from pc_ok W bs') (key_link lt) W oper x"
    by (cases y) (auto simp: bs i(1))
  moreover have "\<forall>b \<in> set bs'. mem_ok W b"
    using S m unfolding bs by (auto dest: set_update_subset_insert [THEN subsetD])
  ultimately show ?thesis using updated_grows [where G = grows, OF grows_refl i(1)] S unfolding bs by blast
qed

lemma routed_values:
  assumes "\<forall>b \<in> set bs0. mem_ok {} b"
  shows "value_origin (routed M bs0 route allowed) lt (\<lambda>W bs. \<forall>b \<in> set bs. mem_ok W b) (routed_from pc_ok)
    (list_all2 grows)"
proof
  show "\<forall>b \<in> set (sh0 (routed M bs0 route allowed)). mem_ok {} b" using assms by (simp add: routed_def)
  show "list_all2 grows bs bs" for bs by (simp add: list_all2_refl grows_refl)
  show "\<forall>b \<in> set bs. mem_ok W' b" if "\<forall>b \<in> set bs. mem_ok W b" "W \<subseteq> W'" for W W' bs
    using that mem_mono by blast
  show "routed_from pc_ok W' bs' oper p"
    if "routed_from pc_ok W bs oper p" "W \<subseteq> W'" "list_all2 grows bs bs'" for W W' bs bs' oper p
    using that pc_stable by (cases p) (auto simp: list_all2_conv_all_nth)
qed (use routed_step_ok in \<open>auto simp: routed_def list_all2_refl grows_refl\<close>)

end

end
