(* ===== verification/Values_List.thy ===== *)
theory Values_List
  imports Map_Values
begin

text \<open>
  The ordered list and the hash table of lists return and visit only values that were given to \<open>Set\<close>: which cells
  hold elements, how the writes of the code change them, and what is known at each step of a call.
\<close>

subsection \<open>The ordered list\<close>

definition list_cells :: "('k, 'v) list_state \<Rightarrow> ('k, 'v) cells" where
  "list_cells s = (\<lambda>l. if kind (lnodes s l) = 0 then Some (lkey (lnodes s l), lval (lnodes s l)) else None)"

definition list_mem :: "('k \<Rightarrow> 'k \<Rightarrow> bool) \<Rightarrow> ('k \<times> 'v) set \<Rightarrow> ('k, 'v) list_state \<Rightarrow> bool" where
  "list_mem lt W s \<longleftrightarrow> cells_ok lt W (list_cells s) \<and> (\<forall>l \<ge> lbrk s. list_cells s l = None)"

definition list_grows :: "('k, 'v) list_state \<Rightarrow> ('k, 'v) list_state \<Rightarrow> bool" where
  "list_grows s s' \<longleftrightarrow> cells_grow (list_cells s) (list_cells s')"

fun search_op :: "('k, 'v) search_call \<Rightarrow> ('k, 'v) list_op" where
  "search_op (CSet k v) = MapOp (SetKey k v)"
| "search_op (CDel k) = MapOp (DelKey k)"
| "search_op (CRange from to) = RangeOp from to"

definition visits_from :: "('k \<Rightarrow> 'k \<Rightarrow> bool) \<Rightarrow> ('k \<times> 'v) set \<Rightarrow> ('k \<times> 'v) list \<Rightarrow> bool" where
  "visits_from lt W kvs \<longleftrightarrow> (\<forall>(k, v) \<in> set kvs. from_set (key_link lt) W k v)"

text \<open>The call that a goroutine is in, the cell whose value it is about to access, and the value it holds.\<close>

fun list_from :: "('k \<Rightarrow> 'k \<Rightarrow> bool) \<Rightarrow> ('k \<times> 'v) set \<Rightarrow> ('k, 'v) cells \<Rightarrow> ('k, 'v) list_op \<Rightarrow> ('k, 'v) list_pc \<Rightarrow> bool" where
  "list_from lt W E oper (SHead c) \<longleftrightarrow> oper = search_op c"
| "list_from lt W E oper (SGet c pred cur) \<longleftrightarrow> oper = search_op c"
| "list_from lt W E oper (SUnlink c pred cur succ) \<longleftrightarrow> oper = search_op c"
| "list_from lt W E oper (SUnlinkCas c pred cur succ ver) \<longleftrightarrow> oper = search_op c"
| "list_from lt W E oper (SetVal v cur) \<longleftrightarrow> (\<exists>k. oper = MapOp (SetKey k v) \<and> cell_at lt E cur k)"
| "list_from lt W E oper (Ins k v n pred cur) \<longleftrightarrow> oper = MapOp (SetKey k v)"
| "list_from lt W E oper (InsCas k v n pred cur ver) \<longleftrightarrow> oper = MapOp (SetKey k v)"
| "list_from lt W E oper InsLen \<longleftrightarrow> True"
| "list_from lt W E oper (DGet k pred cur) \<longleftrightarrow> oper = MapOp (DelKey k) \<and> cell_at lt E cur k"
| "list_from lt W E oper (DMark k pred cur succ) \<longleftrightarrow> oper = MapOp (DelKey k) \<and> cell_at lt E cur k"
| "list_from lt W E oper (DMarkCas k pred cur succ ver) \<longleftrightarrow> oper = MapOp (DelKey k) \<and> cell_at lt E cur k"
| "list_from lt W E oper (DVal pred cur succ) \<longleftrightarrow> cell_at lt E cur (op_key oper)"
| "list_from lt W E oper (DUnlink pred cur succ v) \<longleftrightarrow> from_set (key_link lt) W (op_key oper) v"
| "list_from lt W E oper (DUnlinkCas pred cur succ v ver) \<longleftrightarrow> from_set (key_link lt) W (op_key oper) v"
| "list_from lt W E oper (DLen v) \<longleftrightarrow> from_set (key_link lt) W (op_key oper) v"
| "list_from lt W E oper (GHead k) \<longleftrightarrow> oper = MapOp (GetKey k)"
| "list_from lt W E oper (GGet k cur) \<longleftrightarrow> oper = MapOp (GetKey k)"
| "list_from lt W E oper (GVal cur) \<longleftrightarrow> cell_at lt E cur (op_key oper)"
| "list_from lt W E oper (RGet from to acc cur) \<longleftrightarrow> E cur \<noteq> None \<and> visits_from lt W acc"
| "list_from lt W E oper (RVal from to acc cur succ) \<longleftrightarrow> E cur \<noteq> None \<and> visits_from lt W acc"

definition list_pc_ok :: "('k \<Rightarrow> 'k \<Rightarrow> bool) \<Rightarrow> ('k \<times> 'v) set \<Rightarrow> ('k, 'v) list_state \<Rightarrow> ('k, 'v) list_op \<Rightarrow> ('k, 'v) list_pc \<Rightarrow> bool" where
  "list_pc_ok lt W s = list_from lt W (list_cells s)"

lemma visits_from_mono: "visits_from lt W acc \<Longrightarrow> W \<subseteq> W' \<Longrightarrow> visits_from lt W' acc"
  unfolding visits_from_def using from_set_mono by fastforce

lemma list_from_stable:
  "list_from lt W E oper p \<Longrightarrow> W \<subseteq> W' \<Longrightarrow> cells_grow E E' \<Longrightarrow> list_from lt W' E' oper p"
  by (cases p) (auto intro: cell_at_stable from_set_mono visits_from_mono cell_some_stable)

lemma list_cas_cells [value_simps]:
  "cas_second s l ver r m = Some s' \<Longrightarrow> list_cells s' = list_cells s"
  "cas_second s l ver r m = Some s' \<Longrightarrow> lbrk s' = lbrk s"
  by (auto simp: cas_second_def list_cells_def split: if_splits)

lemma list_put_cells [value_simps]:
  "list_cells s l = Some (k, w) \<Longrightarrow>
    list_cells (s\<lparr>lnodes := (lnodes s)(l := (lnodes s l)\<lparr>lval := v\<rparr>)\<rparr>) = (list_cells s)(l := Some (k, v))"
  by (auto simp: list_cells_def split: if_splits)

lemma list_new_cells [value_simps]:
  "list_cells (s\<lparr>lnodes := (lnodes s)(l := \<lparr>lkey = k, lval = v, kind = 0, nref = r, nmark = m, nver = n\<rparr>), lbrk := b\<rparr>) =
    (list_cells s)(l := Some (k, v))"
  "list_cells (s\<lparr>lcount := c\<rparr>) = list_cells s"
  by (auto simp: list_cells_def)

lemma list_mem_cells:
  "list_mem lt W s \<Longrightarrow> list_cells s' = list_cells s \<Longrightarrow> lbrk s' = lbrk s \<Longrightarrow> list_mem lt W s' \<and> list_grows s s'"
  by (simp add: list_mem_def list_grows_def)

lemma list_mem_put:
  assumes "list_mem lt W s" and "(k, v) \<in> W" and "cell_at lt (list_cells s) cur k"
  shows "list_mem lt W (s\<lparr>lnodes := (lnodes s)(cur := (lnodes s cur)\<lparr>lval := v\<rparr>)\<rparr>) \<and>
    list_grows s (s\<lparr>lnodes := (lnodes s)(cur := (lnodes s cur)\<lparr>lval := v\<rparr>)\<rparr>)"
proof -
  obtain k' w where c: "list_cells s cur = Some (k', w)" "key_eq lt k' k"
    using assms(3) by (auto simp: cell_at_def)
  have "cur < lbrk s" using assms(1) c(1) unfolding list_mem_def by (metis not_less option.distinct(1))
  with assms(1,2) c show ?thesis
    by (auto simp: list_mem_def list_grows_def list_put_cells [OF c(1)] intro: cells_ok_put cells_grow_put)
qed

lemma list_mem_new:
  assumes "list_mem lt W s" and "(k, v) \<in> W"
  shows "list_mem lt W (s\<lparr>lnodes := (lnodes s)(lbrk s := \<lparr>lkey = k, lval = v, kind = 0, nref = r, nmark = False, nver = 0\<rparr>),
      lbrk := Suc (lbrk s)\<rparr>) \<and>
    list_grows s (s\<lparr>lnodes := (lnodes s)(lbrk s := \<lparr>lkey = k, lval = v, kind = 0, nref = r, nmark = False, nver = 0\<rparr>),
      lbrk := Suc (lbrk s)\<rparr>)"
  using assms by (auto simp: list_mem_def list_grows_def list_new_cells intro: cells_ok_put cells_grow_new)

lemma keyEqual_cell: "keyEqual lt (lnodes s l) k \<Longrightarrow> cell_at lt (list_cells s) l k"
  by (auto simp: keyEqual_def cell_at_def list_cells_def key_eq_def split: if_splits)

lemma list_read: "list_mem lt W s \<Longrightarrow> cell_at lt (list_cells s) l k \<Longrightarrow> from_set (key_link lt) W k (lval (lnodes s l))"
  by (auto simp: list_mem_def cell_at_def list_cells_def intro!: cell_read split: if_splits)

lemma list_visit:
  "list_mem lt W s \<Longrightarrow> list_cells s l \<noteq> None \<Longrightarrow> visits_from lt W acc \<Longrightarrow>
    visits_from lt W (acc @ [(lkey (lnodes s l), lval (lnodes s l))])"
  using list_read [of lt W s l "lkey (lnodes s l)"]
  by (auto simp: visits_from_def cell_at_def list_cells_def split: if_splits)

lemma origin_deref: "(\<And>l. p = Some l \<Longrightarrow> origin_ok P same W oper (f l)) \<Longrightarrow> origin_ok P same W oper (deref p f)"
  by (cases p) (auto simp: deref_def)

lemma range_at_origin:
  "visits_from lt W acc \<Longrightarrow> origin_ok (list_pc_ok lt W s) (key_link lt) W oper (range_at s from to acc cur)"
  by (auto simp: range_at_def list_pc_ok_def list_cells_def visits_from_def)

lemma list_search_origin:
  assumes m: "list_mem lt W s" and w: "wrote oper \<subseteq> W" and o: "list_pc_ok lt W s oper p"
    and b: "list_search_step lt s p = (s', x)"
  shows "list_mem lt W s' \<and> list_grows s s' \<and> origin_ok (list_pc_ok lt W s') (key_link lt) W oper x"
proof (cases p)
  case (SHead c)
  with o b m show ?thesis by (auto simp: list_pc_ok_def list_grows_def intro: origin_deref)
next
  case (SGet c pred cur)
  with o have c: "oper = search_op c" by (simp add: list_pc_ok_def)
  let ?n = "lnodes s cur"
  consider "nmark ?n" | "\<not> nmark ?n" "keyLess lt ?n (call_key c)"
    | "\<not> nmark ?n" "\<not> keyLess lt ?n (call_key c)" by blast
  then show ?thesis
  proof cases
    case 3
    with b SGet have a: "after_search lt s c pred cur = (s', x)" by simp
    show ?thesis
    proof (cases c)
      case (CSet k v)
      then have "(k, v) \<in> W" using c w by simp
      from list_mem_new [OF m this, of "Some cur"] a c m show ?thesis
        by (auto simp: CSet list_pc_ok_def list_grows_def keyEqual_cell split: if_splits)
    next
      case (CDel k)
      with a c m show ?thesis by (auto simp: list_pc_ok_def list_grows_def keyEqual_cell split: if_splits)
    next
      case (CRange lo hi)
      with a m range_at_origin [of lt W "[]" s oper lo hi cur] show ?thesis
        by (auto simp: visits_from_def list_grows_def CRange)
    qed
  qed (use b SGet c m in \<open>auto simp: list_pc_ok_def list_grows_def intro: origin_deref\<close>)
next
  case (SUnlink c pred cur succ)
  with o b m show ?thesis
    by (auto simp: list_pc_ok_def list_grows_def split: cas_load.splits intro: origin_deref)
next
  case (SUnlinkCas c pred cur succ ver)
  with o b m list_mem_cells [OF m] show ?thesis
    by (auto simp: list_pc_ok_def list_grows_def value_simps split: option.splits intro: origin_deref)
qed (use b m in \<open>auto simp: list_grows_def\<close>)

lemma list_set_origin:
  assumes m: "list_mem lt W s" and w: "wrote oper \<subseteq> W" and o: "list_pc_ok lt W s oper p"
    and b: "list_set_step s p = (s', x)"
  shows "list_mem lt W s' \<and> list_grows s s' \<and> origin_ok (list_pc_ok lt W s') (key_link lt) W oper x"
proof (cases p)
  case (SetVal v cur)
  with o obtain k where k: "oper = MapOp (SetKey k v)" "cell_at lt (list_cells s) cur k"
    by (auto simp: list_pc_ok_def)
  then have "(k, v) \<in> W" using w by simp
  from list_mem_put [OF m this k(2)] b show ?thesis by (auto simp: SetVal)
next
  case (Ins k v n pred cur)
  with o b m show ?thesis by (auto simp: list_pc_ok_def list_grows_def split: cas_load.splits)
next
  case (InsCas k v n pred cur ver)
  with o b m list_mem_cells [OF m] show ?thesis
    by (auto simp: list_pc_ok_def list_grows_def value_simps split: option.splits)
next
  case InsLen
  with b list_mem_cells [OF m, of s'] show ?thesis by (auto simp: value_simps)
qed (use b m in \<open>auto simp: list_grows_def\<close>)

lemma list_del_origin:
  assumes m: "list_mem lt W s" and o: "list_pc_ok lt W s oper p" and b: "list_del_step s p = (s', x)"
  shows "list_mem lt W s' \<and> list_grows s s' \<and> origin_ok (list_pc_ok lt W s') (key_link lt) W oper x"
proof (cases p)
  case (DVal pred cur succ)
  with o b m list_read [OF m, of cur] show ?thesis by (auto simp: list_pc_ok_def list_grows_def)
next
  case (DMarkCas k pred cur succ ver)
  with o b m list_mem_cells [OF m] show ?thesis
    by (auto simp: list_pc_ok_def list_grows_def value_simps split: option.splits)
next
  case (DUnlinkCas pred cur succ v ver)
  with o b m list_mem_cells [OF m] show ?thesis
    by (auto simp: list_pc_ok_def list_grows_def value_simps split: option.splits)
next
  case (DLen v)
  with o b list_mem_cells [OF m, of s'] show ?thesis by (auto simp: list_pc_ok_def value_simps)
qed (use o b m in \<open>auto simp: list_pc_ok_def list_grows_def split: cas_load.splits if_splits\<close>)

lemma list_get_origin:
  assumes m: "list_mem lt W s" and o: "list_pc_ok lt W s oper p" and b: "list_get_step lt s p = (s', x)"
  shows "list_mem lt W s' \<and> list_grows s s' \<and> origin_ok (list_pc_ok lt W s') (key_link lt) W oper x"
proof (cases p)
  case (GHead k)
  with o b m show ?thesis by (auto simp: list_pc_ok_def list_grows_def intro: origin_deref)
next
  case (GGet k cur)
  with o b m show ?thesis
    by (auto simp: list_pc_ok_def list_grows_def Let_def keyEqual_cell intro: origin_deref split: if_splits)
next
  case (GVal cur)
  with o b m list_read [OF m, of cur] show ?thesis by (auto simp: list_pc_ok_def list_grows_def)
qed (use b m in \<open>auto simp: list_grows_def\<close>)

lemma list_range_origin:
  assumes m: "list_mem lt W s" and o: "list_pc_ok lt W s oper p" and b: "list_range_step lt s p = (s', x)"
  shows "list_mem lt W s' \<and> list_grows s s' \<and> origin_ok (list_pc_ok lt W s') (key_link lt) W oper x"
proof (cases p)
  case (RGet lo hi acc cur)
  with o have v: "list_cells s cur \<noteq> None" "visits_from lt W acc" by (auto simp: list_pc_ok_def)
  with b m show ?thesis
    by (auto simp: RGet Let_def list_grows_def intro!: origin_deref range_at_origin split: if_splits)
      (auto simp: list_pc_ok_def visits_from_def)
next
  case (RVal lo hi acc cur succ)
  with o have "list_cells s cur \<noteq> None" "visits_from lt W acc" by (auto simp: list_pc_ok_def)
  from list_visit [OF m this] b m show ?thesis
    by (auto simp: RVal Let_def list_grows_def intro!: origin_deref range_at_origin)
qed (use b m in \<open>auto simp: list_grows_def\<close>)

interpretation lvals: value_origin "list_machine lt" lt "list_mem lt" "list_pc_ok lt" list_grows for lt
proof
  show "list_mem lt {} (sh0 (list_machine lt))"
    by (auto simp: list_mem_def cells_ok_def list_cells_def NewList_def)
  show "list_grows s s" for s :: "('k, 'v) list_state" by (simp add: list_grows_def)
  show "list_mem lt W s \<Longrightarrow> W \<subseteq> W' \<Longrightarrow> list_mem lt W' s" for W W' s
    using cells_ok_mono by (auto simp: list_mem_def)
  show "list_pc_ok lt W s oper p \<Longrightarrow> W \<subseteq> W' \<Longrightarrow> list_grows s s' \<Longrightarrow> list_pc_ok lt W' s' oper p" for W W' s s' oper p
    unfolding list_pc_ok_def list_grows_def by (rule list_from_stable)
  show "list_mem lt W s' \<and> list_grows s s' \<and> list_pc_ok lt W s' oper p"
    if "list_mem lt W s" "beg (list_machine lt) s t oper = (s', p)" for W s t oper s' p
    using that by (cases oper rule: op_key.cases) (auto simp: list_pc_ok_def list_grows_def)
  show "list_mem lt W s' \<and> list_grows s s' \<and> origin_ok (list_pc_ok lt W s') (key_link lt) W oper x"
    if a: "list_mem lt W s" "wrote oper \<subseteq> W" "list_pc_ok lt W s oper p"
      and b: "stp (list_machine lt) s t p = (s', x)" for W s t oper p s' x
    using list_search_origin [OF a, of s' x] list_set_origin [OF a, of s' x] list_del_origin [OF a(1,3), of s' x]
      list_get_origin [OF a(1,3), of s' x] list_range_origin [OF a(1,3), of s' x] b
    by (cases p) (simp_all del: list_search_step.simps list_set_step.simps list_del_step.simps
        list_get_step.simps list_range_step.simps)
qed

text \<open>The hash table routes its calls to lists.\<close>

lemma hash_values:
  assumes "NewHashMap numBuckets hash = Inr h" and "numBuckets < 2 ^ 63"
  shows "value_origin (hash_machine lt h) lt (\<lambda>W bs. \<forall>b \<in> set bs. list_mem lt W b) (routed_from (list_pc_ok lt))
    (list_all2 list_grows)"
  unfolding hash_machine_def
  by (intro lvals.routed_values) (simp add: NewHashMap_buckets(1) [OF assms] lvals.mem_start [simplified])

end
