(* ===== verification/Values_Skip.thy ===== *)
theory Values_Skip
  imports Values_List Skip_List
begin

text \<open>
  The skip list and the ordered map around it return and visit only values that were given to \<open>Set\<close>.
\<close>

definition skip_cells :: "('k, 'v) skip_state \<Rightarrow> ('k, 'v) cells" where
  "skip_cells s = (\<lambda>l. if skind (snodes s l) = 0 then Some (skey (snodes s l), sval (snodes s l)) else None)"

definition skip_mem :: "('k \<Rightarrow> 'k \<Rightarrow> bool) \<Rightarrow> ('k \<times> 'v) set \<Rightarrow> ('k, 'v) skip_state \<Rightarrow> bool" where
  "skip_mem lt W s \<longleftrightarrow> cells_ok lt W (skip_cells s) \<and> (\<forall>l \<ge> sbrk s. skip_cells s l = None)"

definition skip_grows :: "('k, 'v) skip_state \<Rightarrow> ('k, 'v) skip_state \<Rightarrow> bool" where
  "skip_grows s s' \<longleftrightarrow> cells_grow (skip_cells s) (skip_cells s')"

fun find_from :: "('k \<Rightarrow> 'k \<Rightarrow> bool) \<Rightarrow> ('k, 'v) cells \<Rightarrow> ('k, 'v) list_op \<Rightarrow> ('k, 'v) find_call \<Rightarrow> bool" where
  "find_from lt E oper (FSet k v tlev) \<longleftrightarrow> oper = MapOp (SetKey k v)"
| "find_from lt E oper (FFix k v tlev n level) \<longleftrightarrow> oper = MapOp (SetKey k v)"
| "find_from lt E oper (FDel k) \<longleftrightarrow> oper = MapOp (DelKey k)"
| "find_from lt E oper (FHelp k victim) \<longleftrightarrow> oper = MapOp (DelKey k) \<and> cell_at lt E victim k"

fun skip_from :: "('k \<Rightarrow> 'k \<Rightarrow> bool) \<Rightarrow> ('k \<times> 'v) set \<Rightarrow> ('k, 'v) cells \<Rightarrow> ('k, 'v) list_op \<Rightarrow> ('k, 'v) skip_pc \<Rightarrow> bool" where
  "skip_from lt W E oper (FHead c level pred path) \<longleftrightarrow> find_from lt E oper c"
| "skip_from lt W E oper (FGet c level pred cur path) \<longleftrightarrow> find_from lt E oper c"
| "skip_from lt W E oper (FUnlink c level pred cur succ path) \<longleftrightarrow> find_from lt E oper c"
| "skip_from lt W E oper (FUnlinkCas c level pred cur succ ver path) \<longleftrightarrow> find_from lt E oper c"
| "skip_from lt W E oper (SkVal v cur) \<longleftrightarrow> (\<exists>k. oper = MapOp (SetKey k v) \<and> cell_at lt E cur k)"
| "skip_from lt W E oper (Link0 k v tlev n path) \<longleftrightarrow> oper = MapOp (SetKey k v)"
| "skip_from lt W E oper (Link0Cas k v tlev n path ver) \<longleftrightarrow> oper = MapOp (SetKey k v)"
| "skip_from lt W E oper (Link k v tlev n level path) \<longleftrightarrow> oper = MapOp (SetKey k v)"
| "skip_from lt W E oper (LinkCas k v tlev n level path ver) \<longleftrightarrow> oper = MapOp (SetKey k v)"
| "skip_from lt W E oper SkLen \<longleftrightarrow> True"
| "skip_from lt W E oper (MGet k victim level path) \<longleftrightarrow> oper = MapOp (DelKey k) \<and> cell_at lt E victim k"
| "skip_from lt W E oper (MTry k victim level succ path) \<longleftrightarrow> oper = MapOp (DelKey k) \<and> cell_at lt E victim k"
| "skip_from lt W E oper (MCas k victim level succ path ver) \<longleftrightarrow> oper = MapOp (DelKey k) \<and> cell_at lt E victim k"
| "skip_from lt W E oper (ZGet k victim path) \<longleftrightarrow> oper = MapOp (DelKey k) \<and> cell_at lt E victim k"
| "skip_from lt W E oper (ZTry k victim succ path) \<longleftrightarrow> oper = MapOp (DelKey k) \<and> cell_at lt E victim k"
| "skip_from lt W E oper (ZCas k victim succ path ver) \<longleftrightarrow> oper = MapOp (DelKey k) \<and> cell_at lt E victim k"
| "skip_from lt W E oper (ZCheck k victim marked path) \<longleftrightarrow> oper = MapOp (DelKey k) \<and> cell_at lt E victim k"
| "skip_from lt W E oper (XLen victim) \<longleftrightarrow> cell_at lt E victim (op_key oper)"
| "skip_from lt W E oper (XVal victim) \<longleftrightarrow> cell_at lt E victim (op_key oper)"
| "skip_from lt W E oper (NHead k level pred) \<longleftrightarrow> oper = MapOp (GetKey k)"
| "skip_from lt W E oper (NGet k level pred cur) \<longleftrightarrow> oper = MapOp (GetKey k)"
| "skip_from lt W E oper (NVal cur) \<longleftrightarrow> cell_at lt E cur (op_key oper)"
| "skip_from lt W E oper (VHead from to level pred) \<longleftrightarrow> True"
| "skip_from lt W E oper (VDown from to level pred cur) \<longleftrightarrow> True"
| "skip_from lt W E oper (VGet from to acc cur) \<longleftrightarrow> E cur \<noteq> None \<and> visits_from lt W acc"
| "skip_from lt W E oper (VVal from to acc cur succ) \<longleftrightarrow> E cur \<noteq> None \<and> visits_from lt W acc"

definition skip_pc_ok :: "('k \<Rightarrow> 'k \<Rightarrow> bool) \<Rightarrow> ('k \<times> 'v) set \<Rightarrow> ('k, 'v) skip_state \<Rightarrow> ('k, 'v) list_op \<Rightarrow> ('k, 'v) skip_pc \<Rightarrow> bool" where
  "skip_pc_ok lt W s = skip_from lt W (skip_cells s)"

lemma find_from_stable: "find_from lt E oper c \<Longrightarrow> cells_grow E E' \<Longrightarrow> find_from lt E' oper c"
  by (cases c) (auto intro: cell_at_stable)

lemma skip_from_stable:
  "skip_from lt W E oper p \<Longrightarrow> W \<subseteq> W' \<Longrightarrow> cells_grow E E' \<Longrightarrow> skip_from lt W' E' oper p"
  by (cases p) (auto intro: cell_at_stable from_set_mono visits_from_mono cell_some_stable find_from_stable)

lemma skip_cas_cells [value_simps]:
  "mcas_second s l i ver r m = Some s' \<Longrightarrow> skip_cells s' = skip_cells s"
  "mcas_second s l i ver r m = Some s' \<Longrightarrow> sbrk s' = sbrk s"
  by (auto simp: mcas_second_def put_next_def skip_cells_def split: if_splits)

lemma skip_put_cells [value_simps]:
  "skip_cells s l = Some (k, w) \<Longrightarrow>
    skip_cells (s\<lparr>snodes := (snodes s)(l := (snodes s l)\<lparr>sval := v\<rparr>)\<rparr>) = (skip_cells s)(l := Some (k, v))"
  by (auto simp: skip_cells_def split: if_splits)

lemma skip_new_cells [value_simps]:
  "skip_cells (s\<lparr>snodes := (snodes s)(l := (newSkipnode k v tlev)\<lparr>nexts := ms\<rparr>), sbrk := b\<rparr>) =
    (skip_cells s)(l := Some (k, v))"
  "skip_cells (s\<lparr>slength := c\<rparr>) = skip_cells s" "skip_cells (s\<lparr>sdraws := d\<rparr>) = skip_cells s"
  by (auto simp: skip_cells_def newSkipnode_def)

lemma skip_mem_cells:
  "skip_mem lt W s \<Longrightarrow> skip_cells s' = skip_cells s \<Longrightarrow> sbrk s' = sbrk s \<Longrightarrow> skip_mem lt W s' \<and> skip_grows s s'"
  by (simp add: skip_mem_def skip_grows_def)

lemma skip_mem_put:
  assumes "skip_mem lt W s" and "(k, v) \<in> W" and "cell_at lt (skip_cells s) cur k"
  shows "skip_mem lt W (s\<lparr>snodes := (snodes s)(cur := (snodes s cur)\<lparr>sval := v\<rparr>)\<rparr>) \<and>
    skip_grows s (s\<lparr>snodes := (snodes s)(cur := (snodes s cur)\<lparr>sval := v\<rparr>)\<rparr>)"
proof -
  obtain k' w where c: "skip_cells s cur = Some (k', w)" "key_eq lt k' k"
    using assms(3) by (auto simp: cell_at_def)
  have "cur < sbrk s" using assms(1) c(1) unfolding skip_mem_def by (metis not_less option.distinct(1))
  with assms(1,2) c show ?thesis
    by (auto simp: skip_mem_def skip_grows_def skip_put_cells [OF c(1)] intro: cells_ok_put cells_grow_put)
qed

lemma skip_mem_new:
  assumes "skip_mem lt W s" and "(k, v) \<in> W"
  shows "skip_mem lt W (s\<lparr>snodes := (snodes s)(sbrk s := (newSkipnode k v tlev)\<lparr>nexts := ms\<rparr>), sbrk := Suc (sbrk s)\<rparr>) \<and>
    skip_grows s (s\<lparr>snodes := (snodes s)(sbrk s := (newSkipnode k v tlev)\<lparr>nexts := ms\<rparr>), sbrk := Suc (sbrk s)\<rparr>)"
  using assms by (auto simp: skip_mem_def skip_grows_def skip_new_cells intro: cells_ok_put cells_grow_new)

lemma skipEqual_cell: "skipEqual lt (snodes s l) k \<Longrightarrow> cell_at lt (skip_cells s) l k"
  by (auto simp: skipEqual_def cell_at_def skip_cells_def key_eq_def split: if_splits)

lemma skip_read: "skip_mem lt W s \<Longrightarrow> cell_at lt (skip_cells s) l k \<Longrightarrow> from_set (key_link lt) W k (sval (snodes s l))"
  by (auto simp: skip_mem_def cell_at_def skip_cells_def intro!: cell_read split: if_splits)

lemma skip_visit:
  "skip_mem lt W s \<Longrightarrow> skip_cells s l \<noteq> None \<Longrightarrow> visits_from lt W acc \<Longrightarrow>
    visits_from lt W (acc @ [(skey (snodes s l), sval (snodes s l))])"
  using skip_read [of lt W s l "skey (snodes s l)"]
  by (auto simp: visits_from_def cell_at_def skip_cells_def split: if_splits)

lemma visit_at_origin:
  "visits_from lt W acc \<Longrightarrow> origin_ok (skip_pc_ok lt W s) (key_link lt) W oper (visit_at s from to acc cur)"
  by (auto simp: visit_at_def skip_pc_ok_def skip_cells_def visits_from_def)

text \<open>What a step has to establish, and the index check in front of it.\<close>

definition skip_goal :: "('k \<Rightarrow> 'k \<Rightarrow> bool) \<Rightarrow> ('k \<times> 'v) set \<Rightarrow> ('k, 'v) skip_state \<Rightarrow> ('k, 'v) list_op \<Rightarrow>
    ('k, 'v) skip_state \<times> (('k, 'v) skip_pc, ('k, 'v) list_resp) thread \<Rightarrow> bool" where
  "skip_goal lt W s oper sx \<longleftrightarrow> skip_mem lt W (fst sx) \<and> skip_grows s (fst sx) \<and>
     origin_ok (skip_pc_ok lt W (fst sx)) (key_link lt) W oper (snd sx)"

lemma skip_goal_keep:
  "skip_mem lt W s \<Longrightarrow> origin_ok (skip_pc_ok lt W s) (key_link lt) W oper x \<Longrightarrow> skip_goal lt W s oper (s, x)"
  by (simp add: skip_goal_def skip_grows_def)

lemma skip_goal_level:
  "skip_mem lt W s \<Longrightarrow> (\<And>m. skip_goal lt W s oper (f m)) \<Longrightarrow> skip_goal lt W s oper (at_level s l i f)"
  by (simp add: at_level_def skip_goal_keep)

lemma skip_goal_cas:
  assumes m: "skip_mem lt W s" and x: "origin_ok (skip_pc_ok lt W s) (key_link lt) W oper x"
    and y: "origin_ok (skip_pc_ok lt W s) (key_link lt) W oper y"
  shows "skip_goal lt W s oper (case mcas_second s l i ver r mk of None \<Rightarrow> (s, x) | Some s' \<Rightarrow> (s', y))"
proof (cases "mcas_second s l i ver r mk")
  case None
  then show ?thesis using m x by (simp add: skip_goal_keep)
next
  case (Some s')
  then show ?thesis using y skip_mem_cells [OF m skip_cas_cells [OF Some]] skip_cas_cells(1) [OF Some]
    by (simp add: skip_goal_def skip_pc_ok_def [abs_def])
qed

lemma skip_busy:
  "skip_from lt W (skip_cells s) oper p \<Longrightarrow> origin_ok (skip_pc_ok lt W s) (key_link lt) W oper (Busy p)"
  by (simp add: skip_pc_ok_def)

lemmas skip_goal_intros = skip_goal_level skip_goal_keep origin_deref

lemma after_find_goal:
  assumes m: "skip_mem lt W s" and w: "wrote oper \<subseteq> W" and c: "find_from lt (skip_cells s) oper c"
    and f: "found = skipEqual lt (snodes s cur) (find_key c)"
  shows "skip_goal lt W s oper (after_find s c path cur found)"
proof (cases c)
  case (FSet k v tlev)
  with c w have "(k, v) \<in> W" "oper = MapOp (SetKey k v)" by auto
  with skip_mem_new [OF m this(1), where tlev = tlev and ms = "map (\<lambda>i. newMarkableRef (slot (snd path) i) False) [0..<Suc tlev]"] m f
  show ?thesis
    by (cases found)
      (auto simp: FSet skip_goal_def skip_grows_def skip_pc_ok_def skipEqual_cell simp del: upt.simps)
next
  case (FDel k)
  with c f m show ?thesis
    by (auto simp: mark_from_def skipEqual_cell intro!: skip_goal_keep skip_busy)
qed (use c m in \<open>auto intro!: skip_goal_keep skip_busy\<close>)

lemma find_retry_ok:
  "find_from lt (skip_cells s) oper c \<Longrightarrow> origin_ok (skip_pc_ok lt W s) (key_link lt) W oper (find_retry s c path)"
  by (simp add: find_retry_def skip_pc_ok_def)

lemma skip_find_goal:
  assumes m: "skip_mem lt W s" and w: "wrote oper \<subseteq> W" and o: "skip_pc_ok lt W s oper p"
  shows "skip_goal lt W s oper (skip_find_step lt s p)"
proof (cases p)
  case (FHead c level pred path)
  with o m show ?thesis by (auto simp: skip_pc_ok_def intro!: skip_goal_intros)
next
  case (FGet c level pred cur path)
  with o have c: "find_from lt (skip_cells s) oper c" by (simp add: skip_pc_ok_def)
  have "skip_goal lt W s oper (find_level lt s c level pred cur path)"
    using m c after_find_goal [OF m w c refl] by (auto simp: find_level_def Let_def intro!: skip_goal_keep skip_busy)
  with m c show ?thesis by (auto simp: FGet intro!: skip_goal_intros skip_busy)
next
  case (FUnlink c level pred cur succ path)
  with o m show ?thesis
    by (auto simp: skip_pc_ok_def find_retry_def split: cas_load.splits intro!: skip_goal_intros)
next
  case (FUnlinkCas c level pred cur succ ver path)
  then have c: "find_from lt (skip_cells s) oper c" using o by (simp add: skip_pc_ok_def)
  then show ?thesis using m
    by (auto simp: FUnlinkCas intro!: skip_goal_cas find_retry_ok skip_busy)
qed (use m in \<open>auto intro!: skip_goal_keep\<close>)

lemma link_from_origin:
  "oper = MapOp (SetKey k v) \<Longrightarrow> origin_ok (skip_pc_ok lt W s) (key_link lt) W oper (link_from k v tlev n level path)"
  by (simp add: link_from_def skip_pc_ok_def)

lemma skip_set_goal:
  assumes m: "skip_mem lt W s" and w: "wrote oper \<subseteq> W" and o: "skip_pc_ok lt W s oper p"
  shows "skip_goal lt W s oper (skip_set_step s p)"
proof (cases p)
  case (SkVal v cur)
  with o obtain k where k: "oper = MapOp (SetKey k v)" "cell_at lt (skip_cells s) cur k"
    by (auto simp: skip_pc_ok_def)
  then have "(k, v) \<in> W" using w by simp
  from skip_mem_put [OF m this k(2)] show ?thesis by (simp add: SkVal skip_goal_def)
next
  case (Link0 k v tlev n path)
  with o have "oper = MapOp (SetKey k v)" by (simp add: skip_pc_ok_def)
  with m show ?thesis
    by (auto simp: Link0 split: option.splits cas_load.splits
        intro!: skip_goal_level skip_goal_keep find_retry_ok link_from_origin skip_busy)
next
  case (Link0Cas k v tlev n path ver)
  with o have "oper = MapOp (SetKey k v)" by (simp add: skip_pc_ok_def)
  with m show ?thesis
    by (cases "slot (fst path) 0") (auto simp: Link0Cas intro!: skip_goal_keep skip_goal_cas find_retry_ok link_from_origin)
next
  case (Link k v tlev n level path)
  with o have "oper = MapOp (SetKey k v)" by (simp add: skip_pc_ok_def)
  with m show ?thesis
    by (auto simp: Link split: option.splits cas_load.splits
        intro!: skip_goal_level skip_goal_keep find_retry_ok link_from_origin skip_busy)
next
  case (LinkCas k v tlev n level path ver)
  with o have "oper = MapOp (SetKey k v)" by (simp add: skip_pc_ok_def)
  with m show ?thesis
    by (cases "slot (fst path) level") (auto simp: LinkCas intro!: skip_goal_keep skip_goal_cas find_retry_ok link_from_origin)
next
  case SkLen
  with skip_mem_cells [OF m, of "s\<lparr>slength := slength s + 1\<rparr>"] show ?thesis
    by (simp add: skip_goal_def value_simps)
qed (use m in \<open>auto intro!: skip_goal_keep\<close>)

lemma skip_del_goal:
  assumes m: "skip_mem lt W s" and o: "skip_pc_ok lt W s oper p"
  shows "skip_goal lt W s oper (skip_del_step s p)"
proof (cases p)
  case (MGet k victim level path)
  with o m show ?thesis
    by (auto simp: skip_pc_ok_def mark_from_def intro!: skip_goal_level skip_goal_keep)
next
  case (MTry k victim level succ path)
  with o m show ?thesis
    by (auto simp: skip_pc_ok_def split: cas_load.splits intro!: skip_goal_level skip_goal_keep)
next
  case (MCas k victim level succ path ver)
  with o m show ?thesis
    by (auto simp: skip_pc_ok_def intro!: skip_goal_cas)
next
  case (ZTry k victim succ path)
  with o m show ?thesis
    by (auto simp: skip_pc_ok_def split: cas_load.splits intro!: skip_goal_level skip_goal_keep)
next
  case (ZCas k victim succ path ver)
  with o m show ?thesis
    by (auto simp: skip_pc_ok_def intro!: skip_goal_cas)
next
  case (ZCheck k victim marked path)
  with o m show ?thesis
    by (auto simp: skip_pc_ok_def find_retry_def intro!: skip_goal_level skip_goal_keep)
next
  case (XLen victim)
  with o skip_mem_cells [OF m, of "s\<lparr>slength := slength s + NOT 0\<rparr>"] show ?thesis
    by (simp add: skip_goal_def skip_pc_ok_def value_simps)
next
  case (XVal victim)
  with o m skip_read [OF m, of victim] show ?thesis by (auto simp: skip_pc_ok_def intro!: skip_goal_keep)
qed (use o m in \<open>auto simp: skip_pc_ok_def intro!: skip_goal_level skip_goal_keep\<close>)

lemma skip_get_goal:
  assumes m: "skip_mem lt W s" and o: "skip_pc_ok lt W s oper p"
  shows "skip_goal lt W s oper (skip_get_step lt s p)"
proof (cases p)
  case (NGet k level pred cur)
  with o m show ?thesis by (auto simp: skip_pc_ok_def skipEqual_cell intro!: skip_goal_intros)
next
  case (NVal cur)
  with o m skip_read [OF m, of cur] show ?thesis by (auto simp: skip_pc_ok_def intro!: skip_goal_keep)
qed (use o m in \<open>auto simp: skip_pc_ok_def intro!: skip_goal_intros\<close>)

lemma skip_range_goal:
  assumes m: "skip_mem lt W s" and o: "skip_pc_ok lt W s oper p"
  shows "skip_goal lt W s oper (skip_range_step lt s p)"
proof (cases p)
  case (VDown lo hi level pred cur)
  with m show ?thesis
    by (auto simp: visits_from_def intro!: skip_goal_intros skip_busy visit_at_origin)
next
  case (VGet lo hi acc cur)
  with o have "skip_cells s cur \<noteq> None" "visits_from lt W acc" by (auto simp: skip_pc_ok_def)
  moreover from this(2) have "origin_ok (skip_pc_ok lt W s) (key_link lt) W oper (Return (Visited acc))"
    by (auto simp: visits_from_def)
  ultimately show ?thesis using m
    by (auto simp: VGet simp del: origin_ok.simps intro!: skip_goal_intros skip_busy visit_at_origin)
next
  case (VVal lo hi acc cur succ)
  with o have "skip_cells s cur \<noteq> None" "visits_from lt W acc" by (auto simp: skip_pc_ok_def)
  from skip_visit [OF m this] m show ?thesis
    by (auto simp: VVal intro!: skip_goal_intros visit_at_origin)
qed (use m in \<open>auto intro!: skip_goal_intros skip_busy\<close>)

lemma skip_step_goal:
  assumes "skip_mem lt W s" and "wrote oper \<subseteq> W" and "skip_pc_ok lt W s oper p"
  shows "skip_goal lt W s oper (skip_step lt s t p)"
  using skip_find_goal [OF assms] skip_set_goal [OF assms] skip_del_goal [OF assms(1,3)]
    skip_get_goal [OF assms(1,3)] skip_range_goal [OF assms(1,3)]
  by (cases p) (simp_all del: skip_find_step.simps skip_set_step.simps skip_del_step.simps
      skip_get_step.simps skip_range_step.simps)

lemma skip_begin_origin:
  assumes "skip_mem lt W s" and "skip_beg coins s t oper = (s', p)"
  shows "skip_mem lt W s' \<and> skip_grows s s' \<and> skip_pc_ok lt W s' oper p"
proof (cases oper rule: op_key.cases)
  case (1 k v)
  with assms(2) skip_mem_cells [OF assms(1), of s'] show ?thesis
    by (auto simp: skip_pc_ok_def value_simps split: prod.splits)
qed (use assms in \<open>auto simp: skip_pc_ok_def skip_grows_def\<close>)

lemma skip_start: "skip_mem lt {} NewSkipList"
  by (auto simp: skip_mem_def cells_ok_def skip_cells_def NewSkipList_def)

lemma skip_mem_mono: "skip_mem lt W s \<Longrightarrow> W \<subseteq> W' \<Longrightarrow> skip_mem lt W' s"
  using cells_ok_mono by (auto simp: skip_mem_def)

lemma skip_pc_stable: "skip_pc_ok lt W s oper p \<Longrightarrow> W \<subseteq> W' \<Longrightarrow> skip_grows s s' \<Longrightarrow> skip_pc_ok lt W' s' oper p"
  unfolding skip_pc_ok_def skip_grows_def by (rule skip_from_stable)

interpretation svals: value_origin "skip_machine lt coins" lt "skip_mem lt" "skip_pc_ok lt" skip_grows for lt coins
proof
  show "skip_mem lt W s' \<and> skip_grows s s' \<and> origin_ok (skip_pc_ok lt W s') (key_link lt) W oper x"
    if "skip_mem lt W s" "wrote oper \<subseteq> W" "skip_pc_ok lt W s oper p" "stp (skip_machine lt coins) s t p = (s', x)"
    for W s t oper p s' x
    using skip_step_goal [OF that(1-3), of t] that(4) by (simp add: skip_goal_def)
  show "skip_mem lt W s' \<and> skip_grows s s' \<and> skip_pc_ok lt W s' oper p"
    if "skip_mem lt W s" "beg (skip_machine lt coins) s t oper = (s', p)" for W s t oper s' p
    using skip_begin_origin [OF that(1), of coins t oper] that(2) by simp
qed (auto simp: skip_grows_def skip_start intro: skip_mem_mono skip_pc_stable [unfolded skip_grows_def])

text \<open>The ordered map is the skip list in a struct.\<close>

interpretation ovals: value_origin "ordered_map_machine lt coins" lt "\<lambda>W m. skip_mem lt W (sl m)"
  "\<lambda>W m. skip_pc_ok lt W (sl m)" "\<lambda>m m'. skip_grows (sl m) (sl m')" for lt coins
proof
  show "skip_mem lt W (sl m') \<and> skip_grows (sl m) (sl m') \<and> origin_ok (skip_pc_ok lt W (sl m')) (key_link lt) W oper x"
    if "skip_mem lt W (sl m)" "wrote oper \<subseteq> W" "skip_pc_ok lt W (sl m) oper p"
      "stp (ordered_map_machine lt coins) m t p = (m', x)" for W m t oper p m' x
    using skip_step_goal [OF that(1-3), of t] that(4)
    by (auto simp: skip_goal_def ordered_map_machine_def split: prod.splits)
  show "skip_mem lt W (sl m') \<and> skip_grows (sl m) (sl m') \<and> skip_pc_ok lt W (sl m') oper p"
    if "skip_mem lt W (sl m)" "beg (ordered_map_machine lt coins) m t oper = (m', p)" for W m t oper m' p
    using skip_begin_origin [OF that(1), of coins t oper] that(2)
    by (auto simp: ordered_map_machine_def split: prod.splits)
qed (auto simp: skip_grows_def skip_start ordered_map_machine_def NewOrderedMap_def
    intro: skip_mem_mono skip_pc_stable [unfolded skip_grows_def])

end
