(* ===== verification/Values_Split.thy ===== *)
theory Values_Split
  imports Values_List Split_Map
begin

text \<open>
  The split-ordered hash table returns only values that were given to \<open>Set\<close>. Sentinels and unused cells hold nothing.
\<close>

definition split_cells :: "('k, 'v) split_map \<Rightarrow> ('k, 'v) cells" where
  "split_cells s = (\<lambda>l. if dummy (onodes s l) then None else Some (okey (onodes s l), oval (onodes s l)))"

definition split_mem :: "('k \<Rightarrow> 'k \<Rightarrow> bool) \<Rightarrow> ('k \<times> 'v) set \<Rightarrow> ('k, 'v) split_map \<Rightarrow> bool" where
  "split_mem lt W s \<longleftrightarrow> cells_ok lt W (split_cells s) \<and> (\<forall>l \<ge> obrk s. split_cells s l = None)"

definition split_grows :: "('k, 'v) split_map \<Rightarrow> ('k, 'v) split_map \<Rightarrow> bool" where
  "split_grows s s' \<longleftrightarrow> cells_grow (split_cells s) (split_cells s')"

text \<open>The node of a \<open>Set\<close> has the key of the call.\<close>

definition key_at :: "('k, 'v) cells \<Rightarrow> loc \<Rightarrow> 'k \<Rightarrow> bool" where
  "key_at E l k \<longleftrightarrow> (\<exists>w. E l = Some (k, w))"

fun so_call_from :: "('k, 'v) cells \<Rightarrow> ('k, 'v) list_op \<Rightarrow> ('k, 'v) so_call \<Rightarrow> bool" where
  "so_call_from E oper (SoSet k v n) \<longleftrightarrow> oper = MapOp (SetKey k v) \<and> key_at E n k"
| "so_call_from E oper (SoGet k) \<longleftrightarrow> op_key oper = k"
| "so_call_from E oper (SoDel k) \<longleftrightarrow> op_key oper = k"

fun so_job_from :: "('k, 'v) cells \<Rightarrow> ('k, 'v) list_op \<Rightarrow> ('k, 'v) so_job \<Rightarrow> bool" where
  "so_job_from E oper (JDummy n b st c) \<longleftrightarrow> so_call_from E oper c"
| "so_job_from E oper (JItem k v n) \<longleftrightarrow> oper = MapOp (SetKey k v) \<and> key_at E n k"
| "so_job_from E oper (JDel k) \<longleftrightarrow> op_key oper = k"

fun split_from :: "('k \<Rightarrow> 'k \<Rightarrow> bool) \<Rightarrow> ('k \<times> 'v) set \<Rightarrow> ('k, 'v) cells \<Rightarrow> ('k, 'v) list_op \<Rightarrow> ('k, 'v) so_pc \<Rightarrow> bool" where
  "split_from lt W E oper (BSize c) \<longleftrightarrow> so_call_from E oper c"
| "split_from lt W E oper (PSeg c b w) \<longleftrightarrow> so_call_from E oper c"
| "split_from lt W E oper (PNew c b w) \<longleftrightarrow> so_call_from E oper c"
| "split_from lt W E oper (PAgain c b w) \<longleftrightarrow> so_call_from E oper c"
| "split_from lt W E oper (PSlot c b w) \<longleftrightarrow> so_call_from E oper c"
| "split_from lt W E oper (PCas c b got st) \<longleftrightarrow> so_call_from E oper c"
| "split_from lt W E oper (PFin c b st) \<longleftrightarrow> so_call_from E oper c"
| "split_from lt W E oper (LHead j start) \<longleftrightarrow> so_job_from E oper j"
| "split_from lt W E oper (LGet j start pred c) \<longleftrightarrow> so_job_from E oper j"
| "split_from lt W E oper (LUnl j start pred c succ) \<longleftrightarrow> so_job_from E oper j"
| "split_from lt W E oper (LUnlCas j start pred c succ ver) \<longleftrightarrow> so_job_from E oper j"
| "split_from lt W E oper (LIns j start pred cur) \<longleftrightarrow> so_job_from E oper j"
| "split_from lt W E oper (LInsCas j start pred cur ver) \<longleftrightarrow> so_job_from E oper j"
| "split_from lt W E oper (LVal v got) \<longleftrightarrow> (\<exists>k. oper = MapOp (SetKey k v) \<and> cell_at lt E got k)"
| "split_from lt W E oper LCount \<longleftrightarrow> True"
| "split_from lt W E oper (LSize c) \<longleftrightarrow> True"
| "split_from lt W E oper (LGrow c) \<longleftrightarrow> True"
| "split_from lt W E oper (OGet k c) \<longleftrightarrow> op_key oper = k"
| "split_from lt W E oper (OVal c) \<longleftrightarrow> cell_at lt E c (op_key oper)"
| "split_from lt W E oper (XGet k start pred c) \<longleftrightarrow> op_key oper = k \<and> cell_at lt E c k"
| "split_from lt W E oper (XMark k start pred c succ) \<longleftrightarrow> op_key oper = k \<and> cell_at lt E c k"
| "split_from lt W E oper (XMarkCas k start pred c succ ver) \<longleftrightarrow> op_key oper = k \<and> cell_at lt E c k"
| "split_from lt W E oper (XLoad pred c succ) \<longleftrightarrow> cell_at lt E c (op_key oper)"
| "split_from lt W E oper (XUnl pred c succ v) \<longleftrightarrow> from_set (key_link lt) W (op_key oper) v"
| "split_from lt W E oper (XUnlCas pred c succ v ver) \<longleftrightarrow> from_set (key_link lt) W (op_key oper) v"
| "split_from lt W E oper (XLen v) \<longleftrightarrow> from_set (key_link lt) W (op_key oper) v"

definition split_pc_ok :: "('k \<Rightarrow> 'k \<Rightarrow> bool) \<Rightarrow> ('k \<times> 'v) set \<Rightarrow> ('k, 'v) split_map \<Rightarrow> ('k, 'v) list_op \<Rightarrow> ('k, 'v) so_pc \<Rightarrow> bool" where
  "split_pc_ok lt W s = split_from lt W (split_cells s)"

lemma key_at_stable: "key_at E l k \<Longrightarrow> cells_grow E E' \<Longrightarrow> key_at E' l k"
  unfolding key_at_def cells_grow_def by blast

lemma so_call_from_stable: "so_call_from E oper c \<Longrightarrow> cells_grow E E' \<Longrightarrow> so_call_from E' oper c"
  by (cases c) (auto intro: key_at_stable)

lemma so_job_from_stable: "so_job_from E oper j \<Longrightarrow> cells_grow E E' \<Longrightarrow> so_job_from E' oper j"
  by (cases j) (auto intro: key_at_stable so_call_from_stable)

lemma split_from_stable:
  "split_from lt W E oper p \<Longrightarrow> W \<subseteq> W' \<Longrightarrow> cells_grow E E' \<Longrightarrow> split_from lt W' E' oper p"
  by (cases p) (auto intro: cell_at_stable from_set_mono so_call_from_stable so_job_from_stable)

text \<open>The writes of the code.\<close>

lemma so_set_cells [value_simps]: "split_cells (so_set s l r m) = split_cells s" "obrk (so_set s l r m) = obrk s"
  by (auto simp: so_set_def split_cells_def)

lemma slot_put_cells [value_simps]: "split_cells (slot_put s b p) = split_cells s" "obrk (slot_put s b p) = obrk s"
  by (auto simp: slot_put_def split_cells_def split: option.splits)

lemma table_cells [value_simps]:
  "split_cells (s\<lparr>segments := x\<rparr>) = split_cells s" "split_cells (s\<lparr>ocount := c\<rparr>) = split_cells s"
  "split_cells (s\<lparr>osize := c\<rparr>) = split_cells s"
  by (auto simp: split_cells_def)

lemma split_put_cells:
  "split_cells s l = Some (k, w) \<Longrightarrow>
    split_cells (s\<lparr>onodes := (onodes s)(l := (onodes s l)\<lparr>oval := v\<rparr>)\<rparr>) = (split_cells s)(l := Some (k, v))"
  by (auto simp: split_cells_def split: if_splits)

lemma split_new_cells:
  "split_cells (s\<lparr>onodes := (onodes s)(l := new_soNode so k v d), obrk := b\<rparr>) =
    (split_cells s)(l := (if d then None else Some (k, v)))"
  by (auto simp: split_cells_def new_soNode_def)

lemma split_mem_put:
  assumes "split_mem lt W s" and "(k, v) \<in> W" and "cell_at lt (split_cells s) cur k"
  shows "split_mem lt W (s\<lparr>onodes := (onodes s)(cur := (onodes s cur)\<lparr>oval := v\<rparr>)\<rparr>) \<and>
    split_grows s (s\<lparr>onodes := (onodes s)(cur := (onodes s cur)\<lparr>oval := v\<rparr>)\<rparr>)"
proof -
  obtain k' w where c: "split_cells s cur = Some (k', w)" "key_eq lt k' k"
    using assms(3) by (auto simp: cell_at_def)
  have "cur < obrk s" using assms(1) c(1) unfolding split_mem_def by (metis not_less option.distinct(1))
  with assms(1,2) c show ?thesis
    by (auto simp: split_mem_def split_grows_def split_put_cells [OF c(1)] intro: cells_ok_put cells_grow_put)
qed

lemma split_mem_new:
  assumes "split_mem lt W s" and "(k, v) \<in> W"
  shows "split_mem lt W (s\<lparr>onodes := (onodes s)(obrk s := new_soNode so k v False), obrk := Suc (obrk s)\<rparr>) \<and>
    split_grows s (s\<lparr>onodes := (onodes s)(obrk s := new_soNode so k v False), obrk := Suc (obrk s)\<rparr>)"
  using assms by (auto simp: split_mem_def split_grows_def split_new_cells intro: cells_ok_put cells_grow_new)

lemma split_read:
  "split_mem lt W s \<Longrightarrow> cell_at lt (split_cells s) l k \<Longrightarrow> from_set (key_link lt) W k (oval (onodes s l))"
  by (auto simp: split_mem_def cell_at_def split_cells_def intro!: cell_read split: if_splits)

subsection \<open>Every step\<close>

definition split_goal :: "('k \<Rightarrow> 'k \<Rightarrow> bool) \<Rightarrow> ('k \<times> 'v) set \<Rightarrow> ('k, 'v) split_map \<Rightarrow> ('k, 'v) list_op \<Rightarrow>
    ('k, 'v) split_map \<times> ('k, 'v) so_thread \<Rightarrow> bool" where
  "split_goal lt W s oper sx \<longleftrightarrow> split_mem lt W (fst sx) \<and> split_grows s (fst sx) \<and>
     origin_ok (split_pc_ok lt W (fst sx)) (key_link lt) W oper (snd sx)"

lemma split_goal_same:
  assumes "split_mem lt W s" and "split_cells s' = split_cells s" and "obrk s' = obrk s"
    and "origin_ok (split_from lt W (split_cells s)) (key_link lt) W oper x"
  shows "split_goal lt W s oper (s', x)"
  using assms by (simp add: split_goal_def split_mem_def split_grows_def split_pc_ok_def)

lemma split_goal_cas:
  assumes "split_mem lt W s" and "origin_ok (split_from lt W (split_cells s)) (key_link lt) W oper x"
    and "\<And>s'. split_cells s' = split_cells s \<Longrightarrow> obrk s' = obrk s \<Longrightarrow> split_mem lt W s' \<Longrightarrow> split_goal lt W s oper (f s')"
  shows "split_goal lt W s oper (case so_cas_second s l ver r m of None \<Rightarrow> (s, x) | Some s' \<Rightarrow> f s')"
proof (cases "so_cas_second s l ver r m")
  case None
  then show ?thesis using assms(1,2) by (simp add: split_goal_same)
next
  case (Some s')
  then have "split_cells s' = split_cells s" "obrk s' = obrk s"
    by (auto simp: so_cas_second_def so_set_cells split: if_splits)
  with assms(1,3) Some show ?thesis by (simp add: split_mem_def)
qed

lemma split_goal_from:
  "split_cells s' = split_cells s \<Longrightarrow> split_goal lt W s' oper sx \<Longrightarrow> split_goal lt W s oper sx"
  by (simp add: split_goal_def split_grows_def)

lemma get_at_from: "op_key oper = k \<Longrightarrow> origin_ok (split_from lt W E) (key_link lt) W oper (get_at k p)"
  by (cases p) (auto simp: get_at_def)

lemma enter_from: "so_call_from E oper c \<Longrightarrow> origin_ok (split_from lt W E) (key_link lt) W oper (enter c p)"
  by (cases c) (auto intro: origin_deref get_at_from)

lemma start_dummy_goal:
  assumes "split_mem lt W s" and "so_call_from (split_cells s) oper c"
  shows "split_goal lt W s oper (start_dummy zero s c b st p)"
proof -
  have "(split_cells s)(obrk s := None) = split_cells s" using assms(1) by (auto simp: split_mem_def)
  with assms show ?thesis
    by (auto simp: start_dummy_def split_goal_def split_mem_def split_grows_def split_new_cells split_pc_ok_def
        intro: origin_deref)
qed

lemma init_return_goal:
  assumes "split_mem lt W s" and "so_call_from (split_cells s) oper c"
  shows "split_goal lt W s oper (init_return zero s c st p)"
  using assms by (cases st) (auto simp: init_return_def intro: split_goal_same enter_from start_dummy_goal)

lemma bucket_goal:
  assumes m: "split_mem lt W s" and o: "split_from lt W (split_cells s) oper p"
  shows "split_goal lt W s oper (bucket_step hash zero s p)"
proof (cases p)
  case (PSlot c b w)
  then show ?thesis using o m
    by (cases w; cases "slot_get s b")
      (auto intro: split_goal_same enter_from start_dummy_goal init_return_goal)
next
  case (PFin c b st)
  then show ?thesis using o m by (auto intro: init_return_goal)
qed (use o m in \<open>auto intro!: split_goal_same simp: value_simps\<close>)

lemma job_equal_item:
  assumes "job_equal lt hash s (JItem k v n) (Some c)" and "key_at (split_cells s) n k"
  shows "cell_at lt (split_cells s) c k"
  using assms by (auto simp: job_equal_def nodeEqual_def key_at_def cell_at_def split_cells_def key_eq_def split: if_splits)

lemma job_equal_del: "job_equal lt hash s (JDel k) (Some c) \<Longrightarrow> cell_at lt (split_cells s) c k"
  by (auto simp: job_equal_def nodeEqual_def cell_at_def split_cells_def key_eq_def split: if_splits)

lemma searched_goal:
  assumes m: "split_mem lt W s" and j: "so_job_from (split_cells s) oper j"
  shows "split_goal lt W s oper (searched lt hash s j start pred cur)"
proof (cases j)
  case (JDummy n b st c)
  with m j show ?thesis by (auto intro!: split_goal_same origin_deref simp: value_simps)
next
  case (JItem k v n)
  with m j show ?thesis by (auto intro!: split_goal_same origin_deref job_equal_item simp: value_simps)
next
  case (JDel k)
  with m j show ?thesis by (auto intro!: split_goal_same origin_deref job_equal_del)
qed

lemma search_at_goal:
  assumes "split_mem lt W s" and "so_job_from (split_cells s) oper j"
  shows "split_goal lt W s oper (search_at lt hash s j start pred cur)"
  using assms searched_goal [OF assms] by (cases cur) (auto simp: search_at_def intro!: split_goal_same)

lemma so_search_goal:
  assumes m: "split_mem lt W s" and o: "split_from lt W (split_cells s) oper p"
  shows "split_goal lt W s oper (so_search_step lt hash s p)"
proof (cases p)
  case (LUnlCas j start pred c succ ver)
  then have j: "so_job_from (split_cells s) oper j" using o by simp
  have "split_goal lt W s oper (search_at lt hash s' j start pred succ)"
    if "split_cells s' = split_cells s" "split_mem lt W s'" for s'
    using split_goal_from [OF that(1) search_at_goal [OF that(2)]] j that(1) by simp
  with m j show ?thesis by (auto simp: LUnlCas intro!: split_goal_cas)
qed (use o m in \<open>auto intro!: split_goal_same intro: search_at_goal searched_goal split: cas_load.splits\<close>)

lemma inserted_from:
  "so_job_from E oper j \<Longrightarrow> origin_ok (split_from lt W E) (key_link lt) W oper (inserted j got True)"
  by (cases j) auto

lemma so_set_goal:
  assumes m: "split_mem lt W s" and w: "wrote oper \<subseteq> W" and o: "split_from lt W (split_cells s) oper p"
  shows "split_goal lt W s oper (so_set_step s p)"
proof (cases p)
  case (LInsCas j start pred cur ver)
  with o m show ?thesis
    by (auto intro!: split_goal_cas split_goal_same inserted_from)
next
  case (LVal v got)
  with o obtain k where k: "oper = MapOp (SetKey k v)" "cell_at lt (split_cells s) got k" by auto
  then have "(k, v) \<in> W" using w by simp
  from split_mem_put [OF m this k(2)] show ?thesis by (simp add: LVal split_goal_def)
qed (use o m in \<open>auto intro!: split_goal_same inserted_from simp: value_simps split: cas_load.splits\<close>)

lemma so_get_goal:
  assumes m: "split_mem lt W s" and o: "split_from lt W (split_cells s) oper p"
  shows "split_goal lt W s oper (so_get_step lt hash s p)"
proof (cases p)
  case (OGet k c)
  have "cell_at lt (split_cells s) c k" if "\<not> dummy (onodes s c)" "\<not> lt (okey (onodes s c)) k" "\<not> lt k (okey (onodes s c))"
    using that by (auto simp: cell_at_def split_cells_def key_eq_def)
  with OGet o m show ?thesis by (auto simp: Let_def intro!: split_goal_same get_at_from)
next
  case (OVal c)
  with o m split_read [OF m, of c] show ?thesis by (auto intro!: split_goal_same)
qed (use m in \<open>auto intro!: split_goal_same\<close>)

lemma so_del_goal:
  assumes m: "split_mem lt W s" and o: "split_from lt W (split_cells s) oper p"
  shows "split_goal lt W s oper (so_del_step s p)"
proof (cases p)
  case (XMarkCas k start pred c succ ver)
  with o m show ?thesis by (auto intro!: split_goal_cas split_goal_same)
next
  case (XLoad pred c succ)
  with o m split_read [OF m, of c] show ?thesis by (auto intro!: split_goal_same)
next
  case (XUnlCas pred c succ v ver)
  with o m show ?thesis by (auto intro!: split_goal_cas split_goal_same)
qed (use o m in \<open>auto intro!: split_goal_same simp: value_simps split: cas_load.splits\<close>)

lemma so_step_goal:
  assumes "split_mem lt W s" and "wrote oper \<subseteq> W" and "split_from lt W (split_cells s) oper p"
  shows "split_goal lt W s oper (so_step lt hash zero s t p)"
  using bucket_goal [OF assms(1,3), of hash zero] so_search_goal [OF assms(1,3), of hash] so_set_goal [OF assms]
    so_get_goal [OF assms(1,3), of hash] so_del_goal [OF assms(1,3)]
  by (cases p) (simp_all add: so_step_def del: bucket_step.simps so_search_step.simps so_set_step.simps
      so_get_step.simps so_del_step.simps)

lemma so_begin_origin:
  assumes m: "split_mem lt W s" and w: "wrote oper \<subseteq> W" and b: "so_beg hash s t oper = (s', p)"
  shows "split_mem lt W s' \<and> split_grows s s' \<and> split_pc_ok lt W s' oper p"
proof (cases oper rule: op_key.cases)
  case (1 k v)
  with w have "(k, v) \<in> W" by simp
  from split_mem_new [OF m this, of "soRegular (ucast (hash k))"] b 1 show ?thesis
    by (auto simp: split_pc_ok_def split_new_cells key_at_def)
qed (use m b in \<open>auto simp: split_pc_ok_def split_grows_def\<close>)

interpretation hvals: value_origin "split_machine lt hash zero" lt "split_mem lt" "split_pc_ok lt" split_grows
  for lt hash zero
proof
  show "split_mem lt {} (sh0 (split_machine lt hash zero))"
    by (auto simp: split_mem_def cells_ok_def split_cells_def NewSplitHashMap_def new_soNode_def)
  show "split_mem lt W s \<Longrightarrow> W \<subseteq> W' \<Longrightarrow> split_mem lt W' s" for W W' s
    using cells_ok_mono by (auto simp: split_mem_def)
  show "split_pc_ok lt W s oper p \<Longrightarrow> W \<subseteq> W' \<Longrightarrow> split_grows s s' \<Longrightarrow> split_pc_ok lt W' s' oper p" for W W' s s' oper p
    unfolding split_pc_ok_def split_grows_def by (rule split_from_stable)
  show "split_mem lt W s' \<and> split_grows s s' \<and> split_pc_ok lt W s' oper p"
    if "split_mem lt W s" "wrote oper \<subseteq> W" "beg (split_machine lt hash zero) s t oper = (s', p)" for W s t oper s' p
    using so_begin_origin [OF that(1,2), of hash t] that(3) by simp
  show "split_mem lt W s' \<and> split_grows s s' \<and> origin_ok (split_pc_ok lt W s') (key_link lt) W oper x"
    if "split_mem lt W s" "wrote oper \<subseteq> W" "split_pc_ok lt W s oper p" "stp (split_machine lt hash zero) s t p = (s', x)"
    for W s t oper p s' x
    using so_step_goal [OF that(1,2), of p hash zero t] that(3,4) by (simp add: split_goal_def split_pc_ok_def)
qed (simp add: split_grows_def)

end
