(* ===== verification/Map_Values_Facts.thy ===== *)
theory Map_Values_Facts
  imports Values_Skip Values_Split
begin

text \<open>The values of the five lock-free maps.\<close>

text \<open>
  C38: The lock-free maps return no value out of thin air and mix up no keys: in every history of the ordered list, the
  hash table, the skip list, the ordered map and the split-ordered hash table, a value that \<open>Get\<close> or
  \<open>Del\<close> returns is the argument of a call of \<open>Set\<close>, for a key equivalent to that of the call, that began before the
  response; and so is every value that \<open>Range\<close> visits, for the key it visits. The comparator is a strict weak order;
  the hash of the split-ordered table, the random levels and the schedule are arbitrary.
\<close>

theorem lock_free_map_values:
  fixes lt :: "'k \<Rightarrow> 'k \<Rightarrow> bool" and acts :: "('k, 'v) list_op action list"
  assumes "strict_weak lt" and "NewHashMap numBuckets hash = Inr h" and "numBuckets < 2 ^ 63"
  shows "values_from_sets (same_key lt) (history (list_machine lt) acts) \<and>
    values_from_sets (same_key lt) (history (hash_machine lt h) acts) \<and>
    values_from_sets (same_key lt) (history (skip_machine lt coins) acts) \<and>
    values_from_sets (same_key lt) (history (ordered_map_machine lt coins) acts) \<and>
    values_from_sets (same_key lt) (history (split_machine lt hash' zero) acts)"
  using lvals.values_same [OF assms(1)] svals.values_same [OF assms(1)] ovals.values_same [OF assms(1)]
    hvals.values_same [OF assms(1)] value_origin.values_same [OF hash_values [OF assms(2,3)] assms(1)]
  by blast

theorem lock_free_map_values_witness:
  "let acts = [Start 0 (MapOp (SetKey 3 True)), Step 0, Step 0, Start 1 (MapOp (GetKey 3)), Step 0, Step 0, Step 1, Step 1, Step 1];
     lt = ((<) :: int \<Rightarrow> int \<Rightarrow> bool); coins = \<lambda>_. 0;
     h = \<lparr>buckets = [NewList, NewList], hash_fn = of_int, hash_n = 2\<rparr> in
   values_from_sets (same_key lt) (history (list_machine lt) acts) \<and>
   values_from_sets (same_key lt) (history (hash_machine lt h) acts) \<and>
   values_from_sets (same_key lt) (history (skip_machine lt coins) acts) \<and>
   values_from_sets (same_key lt) (history (ordered_map_machine lt coins) acts) \<and>
   values_from_sets (same_key lt) (history (split_machine lt of_int 0) acts)"
  unfolding Let_def
  by (rule lock_free_map_values [OF strict_weak_int, of 2 of_int]) (simp_all add: NewHashMap_def numeral_eq_Suc)

end
