(* ===== verification/Spec2Isabelle.thy ===== *)
theory Spec2Isabelle
  imports Wf_Objects Ms_Queue Ring_Buffer Numeric Hash_Map Skip_List_Facts Elimination_Facts Split_Map_Facts
    Kp_Progress St_Facts Conform_Facts Map_Values_Facts
begin

text \<open>
  A verification of \<open>golang.design/x/lockfree\<close>: concurrent containers for Go, in the packages \<open>lf\<close>
  (lock-free) and \<open>wf\<close> (wait-free), with a few helpers in the root package.

  \<^bold>\<open>How programs are modelled.\<close> \<open>Goroutines\<close> holds the model of execution: a \<open>machine\<close> is a shared
  state, a function that begins a call, and a step function on program counters. One step is one
  access to shared memory (an atomic load, store, add or compare-and-swap, or a plain access to a
  slice that the code does not protect) with the local computation up to the next access. A
  schedule is any list of actions: \<open>Start t op\<close> lets goroutine \<open>t\<close> call an operation, \<open>Step t\<close> lets it take
  its next step. So every theorem about \<open>run\<close> is about any number of goroutines and every
  interleaving. A \<open>nil\<close> dereference and an index out of range are the thread state \<open>Panic\<close>. Nodes live
  in a map from locations to records, allocated at increasing locations and never reused, which is
  what the garbage collector guarantees to code that holds a reference. Where the code swaps an
  immutable pair behind a pointer (a reference with its deletion mark), a version number stands for
  the identity of the pair. A machine word is a \<open>64 word\<close> where the code counts with wrap-around.

  \<^bold>\<open>What is proved about a machine.\<close> \<open>Linearizability\<close> defines histories and linearizability to a
  sequential specification by a canonical object whose calls take effect at one internal moment, and
  \<open>Simulation\<close> the proof rules: the locales \<open>sim_machine\<close> (a relation kept by every move, in which one
  step may let several calls take effect; it is a \<open>sublocale\<close> of \<open>poss_machine\<close> in \<open>Possibilities\<close>), \<open>lin_machine\<close> and the rely-guarantee form, each
  interpreted on the machines of the containers. \<open>Progress\<close> has the rule for lock-freedom and wait-freedom: a rank that a
  goroutine's own steps decrease unless somebody's compare-and-swap succeeds. \<open>Adt\<close> has the
  operations of \<open>interfaces.go\<close> with their sequential specifications. \<open>Prelude\<close> has strict weak orders and
  generic lemmas.

  \<^bold>\<open>The containers.\<close>
  \<^item> \<open>lf/stack.go\<close>, \<open>lf/node.go\<close>: \<open>Treiber\<close>. Linearizable, lock-free; the counter behind \<open>Length\<close>.
  \<^item> \<open>lf/queue.go\<close>: \<open>Ms_Queue\<close>. Linearizable, lock-free.
  \<^item> \<open>lf/list.go\<close>: \<open>Ordered_List\<close> (model), \<open>Ordered_List_Safety\<close> (the invariant of the marked list),
    \<open>Ordered_List_Lin\<close> (assertions, interference, the three writes: unlink, mark, insert),
    \<open>Ordered_List_Sim\<close> (simulation), \<open>Ordered_List_Facts\<close> (properties).
  \<^item> \<open>lf/hashmap.go\<close>: \<open>Hash_Map\<close>, over the lists, by the composition of objects in \<open>Routing\<close>.
  \<^item> \<open>lf/skiplist.go\<close>, \<open>lf/orderedmap.go\<close>: \<open>Skip_List\<close>, \<open>Skip_List_Safety\<close>, \<open>Skip_List_Sim\<close>,
    \<open>Skip_List_Ops\<close>, \<open>Skip_List_Facts\<close>. The bottom level is seen as an ordered list, so its invariant
    and its writes are reused.
  \<^item> \<open>lf/elimination.go\<close>: \<open>Elimination\<close>, \<open>Elimination_Lin\<close>, \<open>Elimination_Facts\<close>, over the Treiber stack.
  \<^item> \<open>lf/splithashmap.go\<close>: \<open>Split_Order\<close> (bit-reversed keys), \<open>Split_Map\<close> (model), \<open>Split_Map_Safety\<close>,
    \<open>Split_Map_Lin\<close>, \<open>Split_Map_Sim\<close>, \<open>Split_Map_Ops\<close>, \<open>Split_Map_Steps\<close>, \<open>Split_Map_Facts\<close>. The list behind the
    table is again seen as an ordered list, of pairs of sort key and key.
  \<^item> The values in these maps: \<open>Map_Values\<close> states that every answer comes from an earlier \<open>Set\<close> for an equivalent key, with
    its rule, the locale \<open>value_origin\<close>; \<open>Values_List\<close> (with the hash table of lists), \<open>Values_Skip\<close> and \<open>Values_Split\<close> interpret it on
    the machines, and \<open>Map_Values_Facts\<close> has the theorem.
  \<^item> \<open>lf/deque.go\<close>: \<open>St_Deque\<close> (model), \<open>St_Safety\<close> (invariant of the doubly linked list, interference),
    \<open>St_Writes\<close> (link, mark, unlink), \<open>St_Stable\<close> (assertions and their stability), \<open>St_Help\<close> and \<open>St_Sim\<close> (what
    every step does to the deque), \<open>St_Lin\<close> (possibilities), \<open>St_Facts\<close> (properties). A \<open>PopFront\<close> takes effect when
    it reads the first node, if it succeeds in marking that node later, when others may have been pushed in front of it. So
    the deque is related to a set of states of the sequential one, by the rule in \<open>Possibilities\<close>.
  \<^item> \<open>wf/stack.go\<close>, \<open>wf/deque.go\<close>, \<open>wf/map.go\<close>: \<open>Universal\<close> and \<open>Universal_Safety\<close> model the universal
    construction, which is the same text in the three files; \<open>Deque_Tree\<close> and \<open>Map_Tree\<close> are the
    persistent AVL trees it is used with; \<open>Wf_Objects\<close> composes them.
  \<^item> \<open>wf/queue.go\<close>: \<open>Kp_Queue\<close> (model), \<open>Kp_Safety\<close> (invariant, interference, assertions), \<open>Kp_Stable\<close>
    (their stability), \<open>Kp_Enq\<close> and \<open>Kp_Deq\<close> (what every step of \<open>help\<close> and its four helpers does to the
    announced calls), \<open>Kp_Facts\<close> (simulation, properties), \<open>Kp_Progress\<close> (bounded overtaking). The ghost state is
    the list of all nodes ever linked and the phase up to which every slot has been helped.
  \<^item> \<open>wf/ringbuffer.go\<close>: \<open>Ring_Buffer\<close>, for one producer and one consumer.
  \<^item> \<open>arithmetic.go\<close>, \<open>search.go\<close>, \<open>common.go\<close>: \<open>Numeric\<close>. \<open>BinarySearch\<close> computes with 64-bit \<open>int\<close>s, so the sum of
    its bounds overflows on slices of more than \<open>2^62\<close> elements. Such slices have elements of size zero (\<open>go_slice\<close>); a
    strict weak order never overflows on them, another comparator may.

  \<^bold>\<open>The conformance suite.\<close> \<open>internal/conformtest\<close> holds the tests that every implementation of a container has to
  pass. \<open>Conform\<close> models how such a test runs: a program for each of its goroutines that calls the implementation
  (a machine) and accesses counters and wait groups of its own, under an arbitrary schedule. Its rule, in the locales
  \<open>conforming\<close> and \<open>conforming_handles\<close> (participants that take a handle of a wait-free object first), says that an invariant of
  the test on the sequential object holds on every linearizable implementation. \<open>Conform_Sequential\<close> has the tests with
  one participant, \<open>Conform_Conservation\<close>, \<open>Conform_Fifo\<close>, \<open>Conform_Near_Empty\<close> and \<open>Conform_Disjoint\<close> the concurrent ones with
  their invariants. \<open>Conform_Machines\<close> interprets the locales on the three stacks, the two queues, the two deques and
  the wait-free map, and \<open>Conform_Facts\<close> concludes that they never fail their suites.

  \<^bold>\<open>Bounds and parameters.\<close> \<open>Handle\<close> panics by contract when more than \<open>maxHandles\<close> goroutines register; the models of \<open>wf\<close>
  answer such a call with \<open>TooMany\<close>, which their specifications describe, and \<open>Panic\<close> is left for run-time errors. Operation sequence numbers and phases in \<open>wf\<close> are unbounded: the code uses
  \<open>int64\<close>, so the theorems hold up to \<open>2^63\<close> operations. The hash is a parameter that gives equal
  hashes to keys that are equivalent for the comparator, the comparator a strict weak order; both
  are the documented contract of the callers. Random levels and slots are arbitrary sequences. For the list, the
  hash maps and the skip list the answers are erased to whether the key was found, because the code documents updates
  of values of existing keys as weakly consistent; what \<open>Range\<close> visits
  and where the values come from are the subject of theorems of their own. The memory model is sequential consistency, which Go
  documents for \<open>sync/atomic\<close>.

  \<^bold>\<open>Not modelled.\<close> \<open>runtime.Gosched\<close> and \<open>runtime.GOMAXPROCS\<close> have no effect on the state and are no steps. The random
  source of the tests is replaced by arbitrary draws, and \<open>testing.T\<close> by the states in which a test has failed. That a
  test never fails does not say that it ends: a consumer on a lock-free object may be starved. The lock-free maps are not shown
  to pass the suite \<open>Map\<close>, which compares values, because their theorems leave out the values of existing keys.
\<close>

end
